(* ===== verification/Prelude.thy ===== *)
theory Prelude
  imports Main "HOL-Library.Word" "HOL-Library.Monad_Syntax"
begin

text \<open>
  Types and helpers shared by every component: the C integer widths, bounds-checked access
  to C arrays, and the collections of simplification rules the component theories fill.

  An operation that may hit a failed assert, an access out of the bounds of an array or a
  dereference of a null or freed pointer returns None in that case; a returned value Some r
  says that the C code runs to its end without any of these. The bind of the option type
  sequences such operations.
\<close>

unbundle bit_operations_syntax

type_synonym u8 = "8 word"
type_synonym u16 = "16 word"
type_synonym u32 = "32 word"
type_synonym u64 = "64 word"
type_synonym bytes = "8 word list"

named_theorems wf_simps \<open>definitions of the well-formedness predicates\<close>
named_theorems abs_simps \<open>effect of an operation on the abstract value\<close>

section \<open>Message types (skynet.h)\<close>

definition PTYPE_TEXT :: int where "PTYPE_TEXT = 0"
definition PTYPE_CLIENT :: int where "PTYPE_CLIENT = 3"
definition PTYPE_SYSTEM :: int where "PTYPE_SYSTEM = 4"
definition PTYPE_HARBOR :: int where "PTYPE_HARBOR = 5"
definition PTYPE_ERROR :: int where "PTYPE_ERROR = 7"
definition PTYPE_TAG_DONTCOPY :: int where "PTYPE_TAG_DONTCOPY = 0x10000"
definition PTYPE_TAG_ALLOCSESSION :: int where "PTYPE_TAG_ALLOCSESSION = 0x20000"

section \<open>C arrays\<close>

definition arr_get :: "'a list \<Rightarrow> int \<Rightarrow> 'a option" where
  "arr_get xs i = (if 0 \<le> i \<and> i < int (length xs) then Some (xs ! nat i) else None)"

definition arr_set :: "'a list \<Rightarrow> int \<Rightarrow> 'a \<Rightarrow> 'a list option" where
  "arr_set xs i x =
     (if 0 \<le> i \<and> i < int (length xs) then Some (xs[nat i := x]) else None)"

lemma arr_get_in [simp]: "0 \<le> i \<Longrightarrow> i < int (length xs) \<Longrightarrow> arr_get xs i = Some (xs ! nat i)"
  by (simp add: arr_get_def)

lemma arr_set_in [simp]:
  "0 \<le> i \<Longrightarrow> i < int (length xs) \<Longrightarrow> arr_set xs i x = Some (xs[nat i := x])"
  by (simp add: arr_set_def)

lemma arr_get_None_iff: "arr_get xs i = None \<longleftrightarrow> i < 0 \<or> int (length xs) \<le> i"
  by (auto simp: arr_get_def)

lemma arr_set_SomeD: "arr_set xs i x = Some ys \<Longrightarrow>
    0 \<le> i \<and> i < int (length xs) \<and> ys = xs[nat i := x]"
  by (auto simp: arr_set_def split: if_splits)

section \<open>Asserts\<close>

definition c_assert :: "bool \<Rightarrow> unit option" where
  "c_assert b = (if b then Some () else None)"

lemma c_assert_simps [simp]: "c_assert True = Some ()" "c_assert False = None"
  by (simp_all add: c_assert_def)

lemma c_assert_Some_iff [simp]: "c_assert b = Some u \<longleftrightarrow> b"
  by (simp add: c_assert_def)

lemma bind_c_assert: "Option.bind (c_assert b) f = (if b then f () else None)"
  by (simp add: c_assert_def)

section \<open>Lists and options\<close>

lemma map_upt_eqI:
  "m = length ys \<Longrightarrow> (\<And>i. i < m \<Longrightarrow> f i = ys ! i) \<Longrightarrow> map f [0..<m] = ys"
  by (rule nth_equalityI) auto

lemma option_eqI: "(\<And>c. x = Some c \<longleftrightarrow> y = Some c) \<Longrightarrow> x = y"
  by (cases x; cases y) auto

lemma nth_all_None: "(\<forall>j < length xs. xs ! j = None) \<Longrightarrow> Some c \<notin> set xs"
  by (auto simp: in_set_conv_nth)

lemma option_bind_SomeE:
  assumes "Option.bind x f = Some y"
  obtains z where "x = Some z" "f z = Some y"
  using assms by (cases x) auto

section \<open>Words\<close>

lemma unat_drop_bit_div: "unat (drop_bit k (a :: 'a::len word)) = unat a div 2 ^ k"
  by (metis drop_bit_eq_div unat_drop_bit_eq)

lemma unat_and_mask: "unat ((a :: 'a::len word) AND mask k) = unat a mod 2 ^ k"
  by (metis take_bit_eq_mask take_bit_eq_mod unsigned_take_bit_eq)

lemma unat_less: "unat (w :: 'a::len word) < 2 ^ LENGTH('a)"
  by (rule unsigned_less)

lemma unat_u32_less: "unat (w :: u32) < 2 ^ 32"
  using unat_less [of w] by simp

lemma unat_ucast_up: "LENGTH('a::len) \<le> LENGTH('b::len) \<Longrightarrow> unat (ucast (w :: 'a word) :: 'b word) = unat w"
proof -
  assume "LENGTH('a) \<le> LENGTH('b)"
  then have "(2::nat) ^ LENGTH('a) \<le> 2 ^ LENGTH('b)" by (rule power_increasing) simp
  then have "unat w < 2 ^ LENGTH('b)" using unsigned_less [of w] by (metis order_less_le_trans)
  then show ?thesis by (simp add: unsigned_ucast_eq take_bit_nat_eq_self)
qed

lemma unat_push_bit_or:
  fixes x y :: "'a::len word"
  assumes "unat y < 2 ^ n" "unat x * 2 ^ n + unat y < 2 ^ LENGTH('a)"
  shows "unat (push_bit n x OR y) = unat x * 2 ^ n + unat y"
proof -
  have px: "unat (push_bit n x) = unat x * 2 ^ n"
    using assms(2) unfolding unsigned_push_bit_eq by (simp add: push_bit_eq_mult take_bit_nat_eq_self)
  have "push_bit n x AND y = 0"
  proof (rule bit_word_eqI)
    fix i assume "i < LENGTH('a)"
    have "\<not> bit y i" if "n \<le> i"
    proof -
      have "take_bit n (unat y) = unat y" using assms(1) by (simp add: take_bit_nat_eq_self)
      then have "take_bit n y = y" by (metis unsigned_take_bit_eq word_unat_eq_iff)
      then show ?thesis using that by (metis bit_take_bit_iff linorder_not_le)
    qed
    then show "bit (push_bit n x AND y) i = bit (0 :: 'a word) i" by (auto simp: bit_simps)
  qed
  then have "push_bit n x OR y = push_bit n x + y" by (simp add: disjunctive_add_eq_or)
  then show ?thesis using assms px by (simp add: unat_word_ariths(1) take_bit_nat_eq_self)
qed

lemma unat_byte_less: "unat (b :: u8) < 256" using unsigned_less [of b] by simp

lemma u8_bit: "8 \<le> n \<Longrightarrow> bit (b :: u8) n = False"
  using bit_imp_le_length [of b n] by auto

lemma unat_ucast_byte [simp]: "unat (ucast (b :: u8) :: u32) = unat b"
  by (rule unat_ucast_up) simp

end
