(* ===== verification/Interfaces.thy ===== *)
theory Interfaces
  imports Prelude "HOL-Library.Multiset"
begin

text \<open>
  The contracts the components rely on, as locales. Each is interpreted, in the theory of
  the component that provides it, on the operations of that component.

  \<^item> \<open>fifo\<close>: a bounded-memory queue whose push and pop may fail in C (None) and
    which the laws show not to fail on a well-formed queue;
  \<^item> \<open>tick_queue\<close>: a set of pending items with a due time on a wrapping 32-bit clock, and a
    tick that advances the clock by one and returns the items that are due;
  \<^item> \<open>finite_store\<close>: a store with a lookup and a removal, refined by \<open>keyed_store\<close> (the client
    chooses the key, the store the value) and \<open>alloc_store\<close> (the store chooses a fresh key).
\<close>

section \<open>FIFO queues\<close>

fun push_all :: "('a \<Rightarrow> 'q \<Rightarrow> 'q option) \<Rightarrow> 'a list \<Rightarrow> 'q \<Rightarrow> 'q option" where
  "push_all push [] q = Some q"
| "push_all push (x # xs) q = Option.bind (push x q) (push_all push xs)"

fun pop_n :: "('q \<Rightarrow> ('a option \<times> 'q) option) \<Rightarrow> nat \<Rightarrow> 'q \<Rightarrow> ('a list \<times> 'q) option" where
  "pop_n pop 0 q = Some ([], q)"
| "pop_n pop (Suc n) q =
     (case pop q of
        Some (Some x, q') \<Rightarrow>
          (case pop_n pop n q' of Some (xs, q'') \<Rightarrow> Some (x # xs, q'') | None \<Rightarrow> None)
      | _ \<Rightarrow> None)"

locale fifo =
  fixes inv :: "'q \<Rightarrow> bool"
    and abs :: "'q \<Rightarrow> 'a list"
    and push :: "'a \<Rightarrow> 'q \<Rightarrow> 'q option"
    and pop :: "'q \<Rightarrow> ('a option \<times> 'q) option"
  assumes push_ok: "inv q \<Longrightarrow> \<exists>q'. push x q = Some q' \<and> inv q' \<and> abs q' = abs q @ [x]"
    and pop_empty: "inv q \<Longrightarrow> abs q = [] \<Longrightarrow> \<exists>q'. pop q = Some (None, q') \<and> inv q' \<and> abs q' = []"
    and pop_cons: "inv q \<Longrightarrow> abs q = x # xs \<Longrightarrow>
          \<exists>q'. pop q = Some (Some x, q') \<and> inv q' \<and> abs q' = xs"
begin

lemma push_all_ok:
  "inv q \<Longrightarrow> \<exists>q'. push_all push xs q = Some q' \<and> inv q' \<and> abs q' = abs q @ xs"
proof (induction xs arbitrary: q)
  case Nil
  then show ?case by simp
next
  case (Cons x xs)
  obtain q1 where "push x q = Some q1" "inv q1" "abs q1 = abs q @ [x]"
    using push_ok [OF Cons.prems] by blast
  with Cons.IH [of q1] show ?case by auto
qed

lemma pop_n_ok:
  "inv q \<Longrightarrow> abs q = xs @ ys \<Longrightarrow>
     \<exists>q'. pop_n pop (length xs) q = Some (xs, q') \<and> inv q' \<and> abs q' = ys"
proof (induction xs arbitrary: q)
  case Nil
  then show ?case by simp
next
  case (Cons x xs)
  obtain q1 where "pop q = Some (Some x, q1)" "inv q1" "abs q1 = xs @ ys"
    using pop_cons [of q x "xs @ ys"] Cons.prems by auto
  with Cons.IH [of q1] show ?case by auto
qed

lemma push_then_pop:
  assumes "inv q" "abs q = []"
  shows "\<exists>q' q''. push_all push xs q = Some q' \<and>
           pop_n pop (length xs) q' = Some (xs, q'') \<and> inv q'' \<and> abs q'' = []"
  using push_all_ok [OF assms(1), of xs] pop_n_ok [of _ xs "[]"] assms(2) by fastforce

lemma pop_total: "inv q \<Longrightarrow> \<exists>r q'. pop q = Some (r, q') \<and> inv q'"
  using pop_empty [of q] pop_cons [of q] by (cases "abs q") blast+

end

section \<open>Timer queues\<close>

fun ticks :: "('s \<Rightarrow> ('n list \<times> 's) option) \<Rightarrow> nat \<Rightarrow> 's \<Rightarrow> ('n list list \<times> 's) option" where
  "ticks tick 0 s = Some ([], s)"
| "ticks tick (Suc k) s =
     (case tick s of
        None \<Rightarrow> None
      | Some (ns, s') \<Rightarrow>
          (case ticks tick k s' of None \<Rightarrow> None | Some (fs, s'') \<Rightarrow> Some (ns # fs, s'')))"

locale tick_queue =
  fixes inv :: "'s \<Rightarrow> bool"
    and now :: "'s \<Rightarrow> 32 word"
    and pend :: "'s \<Rightarrow> 'n multiset"
    and due :: "'n \<Rightarrow> 32 word"
    and tick :: "'s \<Rightarrow> ('n list \<times> 's) option"
  assumes tick_ok: "inv s \<Longrightarrow> \<exists>ns s'. tick s = Some (ns, s') \<and> inv s' \<and> now s' = now s + 1 \<and>
      mset ns = filter_mset (\<lambda>n. due n = now s \<or> due n = now s + 1) (pend s) \<and>
      pend s' = filter_mset (\<lambda>n. \<not> (due n = now s \<or> due n = now s + 1)) (pend s)"
begin

lemma ticks_total: "inv s \<Longrightarrow> \<exists>fs s'. ticks tick k s = Some (fs, s') \<and> inv s' \<and>
    now s' = now s + of_nat k \<and> length fs = k"
proof (induction k arbitrary: s)
  case 0
  then show ?case by simp
next
  case (Suc k)
  obtain ns s1 where "tick s = Some (ns, s1)" "inv s1" "now s1 = now s + 1"
    using tick_ok [OF Suc.prems] by blast
  with Suc.IH [of s1] show ?case by (auto simp: algebra_simps)
qed

lemma fires_exactly:
  assumes "inv s" "n \<in># pend s" "due n = now s + of_nat (Suc k)" "Suc k < 2 ^ 32"
  shows "\<exists>fs s'. ticks tick (Suc k) s = Some (fs, s') \<and> length fs = Suc k \<and>
     (\<forall>i<k. n \<notin> set (fs ! i)) \<and> count (mset (fs ! k)) n = count (pend s) n \<and> n \<notin># pend s'"
  using assms
proof (induction k arbitrary: s)
  case 0
  from tick_ok [OF 0(1)] 0(3) show ?case by fastforce
next
  case (Suc k)
  obtain ns s1 where s1: "tick s = Some (ns, s1)" "inv s1" "now s1 = now s + 1"
    "mset ns = filter_mset (\<lambda>n. due n = now s \<or> due n = now s + 1) (pend s)"
    "pend s1 = filter_mset (\<lambda>n. \<not> (due n = now s \<or> due n = now s + 1)) (pend s)"
    using tick_ok [OF Suc.prems(1)] by blast
  have ne: "(of_nat (Suc (Suc k)) :: 32 word) \<noteq> 0" "(of_nat (Suc (Suc k)) :: 32 word) \<noteq> 1"
  proof -
    have u: "unat (of_nat (Suc (Suc k)) :: 32 word) = Suc (Suc k)"
      using Suc.prems(4) by (simp add: unat_of_nat take_bit_nat_eq_self del: of_nat_Suc)
    show "(of_nat (Suc (Suc k)) :: 32 word) \<noteq> 0" using u by (metis Zero_not_Suc unat_0)
    show "(of_nat (Suc (Suc k)) :: 32 word) \<noteq> 1" using u by (metis Suc_inject Zero_not_Suc One_nat_def unsigned_1)
  qed
  have late: "due n \<noteq> now s" "due n \<noteq> now s + 1"
    using Suc.prems(3) ne by (simp_all del: of_nat_Suc)
  have "n \<in># pend s1" "due n = now s1 + of_nat (Suc k)"
    using Suc.prems(2,3) s1(3,5) late by (simp_all add: algebra_simps)
  with Suc.IH [OF s1(2)] Suc.prems(4) obtain fs s2 where
    "ticks tick (Suc k) s1 = Some (fs, s2)" "length fs = Suc k" "\<forall>i<k. n \<notin> set (fs ! i)"
    "count (mset (fs ! k)) n = count (pend s1) n" "n \<notin># pend s2" by auto
  moreover have "n \<notin> set ns"
  proof -
    have "n \<notin># mset ns" using s1(4) late by simp
    then show ?thesis by simp
  qed
  moreover have "count (pend s1) n = count (pend s) n" using s1(5) late by simp
  ultimately show ?case using s1(1)
    by (intro exI [of _ "ns # fs"] exI [of _ s2]) (auto simp: less_Suc_eq_0_disj)
qed

end

section \<open>Stores\<close>

locale finite_store =
  fixes inv :: "'s \<Rightarrow> bool"
    and lookup :: "'s \<Rightarrow> 'k \<Rightarrow> 'v option"
    and del :: "'k \<Rightarrow> 's \<Rightarrow> 's option"
  assumes del_ok: "inv s \<Longrightarrow> \<exists>s'. del k s = Some s' \<and> inv s' \<and> lookup s' = (lookup s)(k := None)"
    and finite_dom: "inv s \<Longrightarrow> finite (dom (lookup s))"
begin

lemma del_all:
  "inv s \<Longrightarrow> \<exists>s'. push_all del ks s = Some s' \<and> inv s' \<and>
     lookup s' = (lookup s) |` (- set ks)"
proof (induction ks arbitrary: s)
  case Nil
  then show ?case by simp
next
  case (Cons k ks)
  obtain s1 where s1: "del k s = Some s1" "inv s1" "lookup s1 = (lookup s)(k := None)"
    using del_ok [OF Cons.prems] by blast
  obtain s2 where "push_all del ks s1 = Some s2" "inv s2" "lookup s2 = (lookup s1) |` (- set ks)"
    using Cons.IH [OF s1(2)] by blast
  moreover have "(lookup s1) |` (- set ks) = (lookup s) |` (- set (k # ks))"
    using s1(3) by (auto simp: restrict_map_def)
  ultimately show ?case using s1(1) by auto
qed

lemma del_dom_empties:
  assumes "inv s"
  shows "\<exists>ks s'. push_all del ks s = Some s' \<and> inv s' \<and> lookup s' = (\<lambda>_. None)"
proof -
  obtain ks where ks: "set ks = dom (lookup s)"
    using finite_list [OF finite_dom [OF assms]] by blast
  obtain s' where "push_all del ks s = Some s'" "inv s'" "lookup s' = (lookup s) |` (- set ks)"
    using del_all [OF assms] by blast
  with ks show ?thesis by (intro exI [of _ ks] exI [of _ s']) (auto simp: restrict_map_def)
qed

end

locale alloc_store = finite_store inv lookup del
  for inv :: "'s \<Rightarrow> bool" and lookup :: "'s \<Rightarrow> 'k \<Rightarrow> 'v option" and del :: "'k \<Rightarrow> 's \<Rightarrow> 's option" +
  fixes room :: "'s \<Rightarrow> 'v \<Rightarrow> bool"
    and alloc :: "'v \<Rightarrow> 's \<Rightarrow> ('k \<times> 's) option"
  assumes alloc_ok: "inv s \<Longrightarrow> room s v \<Longrightarrow>
      \<exists>k s'. alloc v s = Some (k, s') \<and> inv s' \<and> lookup s k = None \<and> lookup s' = (lookup s)(k \<mapsto> v)"
begin

lemma alloc_then_del:
  assumes "inv s" "room s v"
  shows "\<exists>k s1 s2. alloc v s = Some (k, s1) \<and> lookup s1 k = Some v \<and> del k s1 = Some s2 \<and>
     inv s2 \<and> lookup s2 = lookup s"
proof -
  obtain k s1 where a: "alloc v s = Some (k, s1)" "inv s1" "lookup s k = None"
    "lookup s1 = (lookup s)(k \<mapsto> v)"
    using alloc_ok [OF assms] by blast
  obtain s2 where "del k s1 = Some s2" "inv s2" "lookup s2 = (lookup s1)(k := None)"
    using del_ok [OF a(2)] by blast
  with a show ?thesis
    by (intro exI [of _ k] exI [of _ s1] exI [of _ s2]) (auto simp: fun_upd_idem)
qed

end

locale keyed_store = finite_store inv lookup del
  for inv :: "'s \<Rightarrow> bool" and lookup :: "'s \<Rightarrow> 'k \<Rightarrow> 'v option" and del :: "'k \<Rightarrow> 's \<Rightarrow> 's option" +
  fixes room :: "'s \<Rightarrow> 'k \<Rightarrow> bool"
    and put :: "'k \<Rightarrow> 's \<Rightarrow> ('v \<times> 's) option"
  assumes put_ok: "inv s \<Longrightarrow> room s k \<Longrightarrow> lookup s k = None \<Longrightarrow>
      \<exists>v s'. put k s = Some (v, s') \<and> inv s' \<and> v \<notin> ran (lookup s) \<and> lookup s' = (lookup s)(k \<mapsto> v)"
    and inj_lookup: "inv s \<Longrightarrow> inj_on (lookup s) (dom (lookup s))"
begin

lemma put_then_del:
  assumes "inv s" "room s k" "lookup s k = None"
  shows "\<exists>v s1 s2. put k s = Some (v, s1) \<and> lookup s1 k = Some v \<and> del k s1 = Some s2 \<and>
     inv s2 \<and> lookup s2 = lookup s"
proof -
  obtain v s1 where a: "put k s = Some (v, s1)" "inv s1" "lookup s1 = (lookup s)(k \<mapsto> v)"
    using put_ok [OF assms] by blast
  obtain s2 where "del k s1 = Some s2" "inv s2" "lookup s2 = (lookup s1)(k := None)"
    using del_ok [OF a(2)] by blast
  with a assms(3) show ?thesis
    by (intro exI [of _ v] exI [of _ s1] exI [of _ s2]) (auto simp: fun_upd_idem)
qed

lemma distinct_values:
  "inv s \<Longrightarrow> lookup s j = Some v \<Longrightarrow> lookup s k = Some v \<Longrightarrow> j = k"
  using inj_lookup [of s] by (auto simp: inj_on_def dom_def)

end

end
