(* ===== verification/Linked.thy ===== *)
theory Linked
  imports Prelude
begin

text \<open>
  Singly linked lists of C structs, read through the function that gives the \<open>next\<close>
  field of each address. A null pointer is None. The predicate \<open>chain nx p xs r\<close> says that
  following \<open>next\<close> from \<open>p\<close> visits exactly the addresses \<open>xs\<close> and then reaches \<open>r\<close>.
  The global message queue, the data buffers of a connection, the free list of the message
  pool and the hash chains of the connection table all use it.
\<close>

fun chain :: "('p \<Rightarrow> 'p option) \<Rightarrow> 'p option \<Rightarrow> 'p list \<Rightarrow> 'p option \<Rightarrow> bool" where
  "chain nx p [] r = (p = r)"
| "chain nx p (x # xs) r = (p = Some x \<and> chain nx (nx x) xs r)"

lemma chain_append:
  "chain nx p (xs @ ys) r \<longleftrightarrow> (\<exists>m. chain nx p xs m \<and> chain nx m ys r)"
  by (induction xs arbitrary: p) auto

lemma chain_cong:
  "(\<And>x. x \<in> set xs \<Longrightarrow> nx x = ny x) \<Longrightarrow> chain nx p xs r = chain ny p xs r"
  by (induction xs arbitrary: p) auto

lemma chain_upd [simp]:
  "a \<notin> set xs \<Longrightarrow> chain (nx(a := v)) p xs r = chain nx p xs r"
  by (rule chain_cong) auto

lemma chain_None_cases: "chain nx None xs None \<longleftrightarrow> xs = []"
  by (cases xs) auto

lemma chain_Some_Nil [simp]: "\<not> chain nx (Some a) [] None"
  by simp

lemma chain_Some_cases: "chain nx (Some a) xs None \<longleftrightarrow>
    (\<exists>ys. xs = a # ys \<and> chain nx (nx a) ys None)"
  by (cases xs) auto

lemma chain_next_last: "chain nx p (xs @ [a]) None \<Longrightarrow> nx a = None"
  by (auto simp: chain_append)

lemma chain_unique: "chain nx p xs None \<Longrightarrow> chain nx p ys None \<Longrightarrow> xs = ys"
proof (induction xs arbitrary: p ys)
  case Nil
  then show ?case by (cases ys) auto
next
  case (Cons x xs)
  then show ?case by (cases ys) auto
qed

text \<open>Appending a node at the tail, as \<open>tail->next = node\<close> does.\<close>

lemma chain_snoc_upd:
  assumes "chain nx p (xs @ [t]) None" "t \<notin> set xs" "nx a = None" "a \<noteq> t"
  shows "chain (nx(t := Some a)) p (xs @ [t, a]) None"
  using assms by (auto simp: chain_append)

lemma chain_distinct: "chain nx p xs None \<Longrightarrow> distinct xs"
proof (induction xs arbitrary: p)
  case Nil
  then show ?case by simp
next
  case (Cons x xs)
  have "x \<notin> set xs"
  proof
    assume "x \<in> set xs"
    then obtain ys zs where xs: "xs = ys @ x # zs" by (meson split_list)
    from Cons.prems have "chain nx (Some x) (x # xs) None" by simp
    moreover have "chain nx (Some x) (x # zs) None"
      using Cons.prems xs by (auto simp: chain_append)
    ultimately have "x # xs = x # zs" by (rule chain_unique)
    with xs show False by simp
  qed
  moreover have "distinct xs"
    using Cons.prems by (auto intro: Cons.IH)
  ultimately show ?case by simp
qed

end
