(* ===== verification/Mq.thy ===== *)
theory Mq
  imports Interfaces Linked
begin

text \<open>
  skynet-src/skynet\_mq.c: the message queue of one service (a ring buffer that doubles when
  full) and the global queue of message queues (a linked list through the \<open>next\<close> fields).

  The address of a struct \<open>message_queue\<close> is a nat; \<open>mq_store\<close> is the heap of live queues
  with the head and tail pointers of the global queue \<open>Q\<close>. The operations that run under one
  spin lock are single steps. The cells of the array come from malloc: None is a cell that was
  never written.
\<close>

section \<open>Messages\<close>

text \<open>
  The pointer \<open>data\<close> of a message: null, a block of bytes, a struct \<open>remote_message\<close>
  (destination name and handle, message, sz and type) that the harbor service receives, or a struct
  \<open>skynet_socket_message\<close> (type, id, ud, the block \<open>buffer\<close> points to) with the bytes after it.
\<close>

datatype payload =
    NullData
  | Bytes bytes
  | Remote bytes u32 payload u64 int
  | SocketMsg int u32 int "bytes option" bytes

record skynet_message =
  msg_source :: u32
  msg_session :: int
  msg_data :: payload
  msg_sz :: u64

definition MESSAGE_TYPE_SHIFT :: nat where "MESSAGE_TYPE_SHIFT = (8 - 1) * 8"
definition MESSAGE_TYPE_MASK :: u64 where "MESSAGE_TYPE_MASK = drop_bit 8 (- 1)"

section \<open>State\<close>

definition DEFAULT_QUEUE_SIZE :: int where "DEFAULT_QUEUE_SIZE = 64"
definition MQ_IN_GLOBAL :: int where "MQ_IN_GLOBAL = 1"
definition MQ_OVERLOAD :: int where "MQ_OVERLOAD = 1024"

record message_queue =
  mq_handle :: u32
  mq_cap :: int
  mq_head :: int
  mq_tail :: int
  mq_release :: int
  mq_in_global :: int
  mq_overload :: int
  mq_overload_threshold :: int
  mq_queue :: "skynet_message option list"
  mq_next :: "nat option"

record mq_store =
  mqs :: "nat \<Rightarrow> message_queue option"
  gq_head :: "nat option"
  gq_tail :: "nat option"

section \<open>The global queue\<close>

definition skynet_mq_init :: mq_store where
  "skynet_mq_init = \<lparr>mqs = (\<lambda>_. None), gq_head = None, gq_tail = None\<rparr>"

definition skynet_globalmq_push :: "nat \<Rightarrow> mq_store \<Rightarrow> mq_store option" where
  "skynet_globalmq_push a s = do {
     q \<leftarrow> mqs s a;
     c_assert (mq_next q = None);
     (case gq_tail s of
        Some t \<Rightarrow> do {
          tq \<leftarrow> mqs s t;
          Some (s\<lparr>mqs := (mqs s)(t \<mapsto> tq\<lparr>mq_next := Some a\<rparr>), gq_tail := Some a\<rparr>)
        }
      | None \<Rightarrow> Some (s\<lparr>gq_head := Some a, gq_tail := Some a\<rparr>))
   }"

definition skynet_globalmq_pop :: "mq_store \<Rightarrow> (nat option \<times> mq_store) option" where
  "skynet_globalmq_pop s =
     (case gq_head s of
        None \<Rightarrow> Some (None, s)
      | Some a \<Rightarrow> do {
          q \<leftarrow> mqs s a;
          s1 \<leftarrow> (if mq_next q = None
                 then do { c_assert (gq_tail s = Some a);
                           Some (s\<lparr>gq_head := None, gq_tail := None\<rparr>) }
                 else Some (s\<lparr>gq_head := mq_next q\<rparr>));
          Some (Some a, s1\<lparr>mqs := (mqs s1)(a \<mapsto> q\<lparr>mq_next := None\<rparr>)\<rparr>)
        })"

section \<open>The queue of one service\<close>

definition new_queue :: "u32 \<Rightarrow> message_queue" where
  "new_queue handle =
     \<lparr>mq_handle = handle, mq_cap = DEFAULT_QUEUE_SIZE, mq_head = 0, mq_tail = 0,
      mq_release = 0, mq_in_global = MQ_IN_GLOBAL, mq_overload = 0,
      mq_overload_threshold = MQ_OVERLOAD,
      mq_queue = replicate (nat DEFAULT_QUEUE_SIZE) None, mq_next = None\<rparr>"

text \<open>The allocator's choice of a fresh address is the argument \<open>a\<close>.\<close>

definition skynet_mq_create :: "nat \<Rightarrow> u32 \<Rightarrow> mq_store \<Rightarrow> mq_store" where
  "skynet_mq_create a handle s = s\<lparr>mqs := (mqs s)(a \<mapsto> new_queue handle)\<rparr>"

definition mq_length :: "message_queue \<Rightarrow> int" where
  "mq_length q =
     (if mq_head q \<le> mq_tail q then mq_tail q - mq_head q
      else mq_tail q + mq_cap q - mq_head q)"

definition skynet_mq_length :: "nat \<Rightarrow> mq_store \<Rightarrow> int option" where
  "skynet_mq_length a s = map_option mq_length (mqs s a)"

definition skynet_mq_handle :: "nat \<Rightarrow> mq_store \<Rightarrow> u32 option" where
  "skynet_mq_handle a s = map_option mq_handle (mqs s a)"

definition mq_take_overload :: "message_queue \<Rightarrow> int \<times> message_queue" where
  "mq_take_overload q =
     (if mq_overload q \<noteq> 0 then (mq_overload q, q\<lparr>mq_overload := 0\<rparr>) else (0, q))"

definition skynet_mq_overload :: "nat \<Rightarrow> mq_store \<Rightarrow> (int \<times> mq_store) option" where
  "skynet_mq_overload a s = do {
     q \<leftarrow> mqs s a;
     let (r, q') = mq_take_overload q;
     Some (r, s\<lparr>mqs := (mqs s)(a \<mapsto> q')\<rparr>)
   }"

text \<open>The loop that doubles the threshold; it does not return when the threshold is not positive.\<close>

partial_function (option) overload_loop :: "int \<Rightarrow> int \<Rightarrow> int \<Rightarrow> (int \<times> int) option" where
  "overload_loop len ov th =
     (if len > th then overload_loop len len (th * 2) else Some (ov, th))"

text \<open>
  \<open>skynet_mq_pop\<close> on the struct: None as the first component is the return value 1 (the queue
  is empty), Some m is the return value 0 with the message read. Reading a cell that was never
  written fails.
\<close>

definition mq_pop :: "message_queue \<Rightarrow> (skynet_message option \<times> message_queue) option" where
  "mq_pop q =
     (if mq_head q \<noteq> mq_tail q then do {
        cell \<leftarrow> arr_get (mq_queue q) (mq_head q);
        m \<leftarrow> cell;
        let head = mq_head q + 1;
        let tail = mq_tail q;
        let cap = mq_cap q;
        let head = (if head \<ge> cap then 0 else head);
        let length = tail - head;
        let length = (if length < 0 then length + cap else length);
        (ov, th) \<leftarrow> overload_loop length (mq_overload q) (mq_overload_threshold q);
        Some (Some m, q\<lparr>mq_head := head, mq_overload := ov, mq_overload_threshold := th\<rparr>)
      } else
        Some (None, q\<lparr>mq_overload_threshold := MQ_OVERLOAD, mq_in_global := 0\<rparr>))"

definition skynet_mq_pop :: "nat \<Rightarrow> mq_store \<Rightarrow> (skynet_message option \<times> mq_store) option" where
  "skynet_mq_pop a s = do {
     q \<leftarrow> mqs s a;
     (r, q') \<leftarrow> mq_pop q;
     Some (r, s\<lparr>mqs := (mqs s)(a \<mapsto> q')\<rparr>)
   }"

definition expand_queue :: "message_queue \<Rightarrow> message_queue option" where
  "expand_queue q = do {
     cells \<leftarrow> those (map (\<lambda>i. arr_get (mq_queue q) ((mq_head q + int i) mod mq_cap q))
                         [0..<nat (mq_cap q)]);
     Some (q\<lparr>mq_head := 0, mq_tail := mq_cap q, mq_cap := mq_cap q * 2,
             mq_queue := cells @ replicate (nat (mq_cap q)) None\<rparr>)
   }"

text \<open>The part of \<open>skynet_mq_push\<close> that writes the ring buffer.\<close>

definition mq_push :: "skynet_message \<Rightarrow> message_queue \<Rightarrow> message_queue option" where
  "mq_push m q = do {
     cells \<leftarrow> arr_set (mq_queue q) (mq_tail q) (Some m);
     let tail = mq_tail q + 1;
     let tail = (if tail \<ge> mq_cap q then 0 else tail);
     let q1 = q\<lparr>mq_queue := cells, mq_tail := tail\<rparr>;
     if mq_head q1 = mq_tail q1 then expand_queue q1 else Some q1
   }"

definition skynet_mq_push :: "nat \<Rightarrow> skynet_message \<Rightarrow> mq_store \<Rightarrow> mq_store option" where
  "skynet_mq_push a m s = do {
     q \<leftarrow> mqs s a;
     q1 \<leftarrow> mq_push m q;
     if mq_in_global q1 = 0
     then skynet_globalmq_push a
            (s\<lparr>mqs := (mqs s)(a \<mapsto> q1\<lparr>mq_in_global := MQ_IN_GLOBAL\<rparr>)\<rparr>)
     else Some (s\<lparr>mqs := (mqs s)(a \<mapsto> q1)\<rparr>)
   }"

section \<open>Release\<close>

definition skynet_mq_mark_release :: "nat \<Rightarrow> mq_store \<Rightarrow> mq_store option" where
  "skynet_mq_mark_release a s = do {
     q \<leftarrow> mqs s a;
     c_assert (mq_release q = 0);
     let s1 = s\<lparr>mqs := (mqs s)(a \<mapsto> q\<lparr>mq_release := 1\<rparr>)\<rparr>;
     if mq_in_global q \<noteq> MQ_IN_GLOBAL then skynet_globalmq_push a s1 else Some s1
   }"

definition mq_free :: "nat \<Rightarrow> mq_store \<Rightarrow> mq_store option" where
  "mq_free a s = do {
     q \<leftarrow> mqs s a;
     c_assert (mq_next q = None);
     Some (s\<lparr>mqs := (mqs s)(a := None)\<rparr>)
   }"

text \<open>
  \<open>_drop_queue\<close>: the callback \<open>dropf\<close> is called on every message that is left, in order, with
  the state of the rest of the system, which the callback may change (it sends an error
  message to another service), the store included. The fuel bounds the messages; it is
  the number of messages when the callback does not push to the queue that is dropped.
\<close>

fun drop_queue :: "nat \<Rightarrow> (skynet_message \<Rightarrow> mq_store \<times> 'w \<Rightarrow> (mq_store \<times> 'w) option) \<Rightarrow>
    nat \<Rightarrow> mq_store \<times> 'w \<Rightarrow> (mq_store \<times> 'w) option" where
  "drop_queue 0 dropf a sw = None"
| "drop_queue (Suc n) dropf a (s, w) = do {
     (r, s1) \<leftarrow> skynet_mq_pop a s;
     (case r of
        Some m \<Rightarrow> do { sw2 \<leftarrow> dropf m (s1, w); drop_queue n dropf a sw2 }
      | None \<Rightarrow> do { s2 \<leftarrow> mq_free a s1; Some (s2, w) })
   }"

definition skynet_mq_release :: "nat \<Rightarrow> (skynet_message \<Rightarrow> mq_store \<times> 'w \<Rightarrow> (mq_store \<times> 'w) option) \<Rightarrow>
    nat \<Rightarrow> mq_store \<times> 'w \<Rightarrow> (mq_store \<times> 'w) option" where
  "skynet_mq_release fuel dropf a sw = do {
     let (s, w) = sw;
     q \<leftarrow> mqs s a;
     if mq_release q \<noteq> 0 then drop_queue fuel dropf a sw
     else do { s1 \<leftarrow> skynet_globalmq_push a s; Some (s1, w) }
   }"

section \<open>Ring buffer: well-formedness and abstraction\<close>

definition mq_cells :: "message_queue \<Rightarrow> skynet_message option list" where
  "mq_cells q = map (\<lambda>i. mq_queue q ! nat ((mq_head q + int i) mod mq_cap q))
                    [0..<nat (mq_length q)]"

definition mq_list :: "message_queue \<Rightarrow> skynet_message list" where
  "mq_list q = map the (mq_cells q)"

definition mq_wf :: "message_queue \<Rightarrow> bool" where
  "mq_wf q \<longleftrightarrow> 0 \<le> mq_head q \<and> mq_head q < mq_cap q \<and> 0 \<le> mq_tail q \<and> mq_tail q < mq_cap q \<and>
     int (length (mq_queue q)) = mq_cap q \<and> MQ_OVERLOAD \<le> mq_overload_threshold q \<and>
     None \<notin> set (mq_cells q)"

lemma mq_wf_facts:
  assumes "mq_wf q"
  shows "0 \<le> mq_head q" "mq_head q < mq_cap q" "0 \<le> mq_tail q" "mq_tail q < mq_cap q"
    "int (length (mq_queue q)) = mq_cap q" "MQ_OVERLOAD \<le> mq_overload_threshold q"
    "0 < mq_overload_threshold q" "0 < mq_cap q" "mq_cells q = map Some (mq_list q)"
proof -
  show "mq_cells q = map Some (mq_list q)"
    using assms unfolding mq_wf_def mq_list_def map_map
    by (intro map_idI [symmetric]) (metis comp_apply option.collapse)
qed (use assms in \<open>auto simp: mq_wf_def MQ_OVERLOAD_def\<close>)

lemma ring_index:
  fixes h c i :: int
  assumes "0 \<le> h" "h < c" "0 \<le> i" "i < c"
  shows "(h + i) mod c = (if h + i < c then h + i else h + i - c)"
proof (cases "h + i < c")
  case False
  have "(h + i) mod c = (h + i - c) mod c" by simp
  also have "\<dots> = h + i - c" using assms False by (intro mod_pos_pos_trivial) auto
  finally show ?thesis using False by simp
qed (use assms in simp)

lemma mq_length_bounds:
  assumes "mq_wf q"
  shows "0 \<le> mq_length q" "mq_length q < mq_cap q"
  using assms by (auto simp: mq_wf_def mq_length_def)

lemma length_mq_list: "mq_wf q \<Longrightarrow> int (length (mq_list q)) = mq_length q"
  by (simp add: mq_list_def mq_cells_def mq_length_bounds)

lemma mq_list_empty_iff: "mq_wf q \<Longrightarrow> mq_list q = [] \<longleftrightarrow> mq_head q = mq_tail q"
  using mq_length_bounds [of q] by (auto simp: mq_list_def mq_cells_def mq_length_def mq_wf_def)

lemma overload_loop_ok:
  assumes "0 < th"
  shows "\<exists>ov' th'. overload_loop len ov th = Some (ov', th') \<and> th \<le> th' \<and>
           (if len \<le> th then ov' = ov \<and> th' = th else ov' = len \<and> len \<le> th' \<and> th' < 2 * len)"
  using assms
proof (induction "nat (len - th)" arbitrary: ov th rule: less_induct)
  case less
  show ?case
  proof (cases "len \<le> th")
    case True
    then show ?thesis by (simp add: overload_loop.simps)
  next
    case False
    with less.prems have "nat (len - th * 2) < nat (len - th)" "0 < th * 2" by auto
    from less.hyps [OF this, of len] False less.prems show ?thesis
      by (subst overload_loop.simps) (auto split: if_splits)
  qed
qed

subsection \<open>Pop takes the oldest message\<close>

lemma mq_pop_empty:
  assumes "mq_wf q" "mq_list q = []"
  shows "mq_pop q = Some (None, q\<lparr>mq_overload_threshold := MQ_OVERLOAD, mq_in_global := 0\<rparr>)"
  using assms by (simp add: mq_pop_def mq_list_empty_iff)

lemma mq_cells_update_simps [simp]:
  "mq_cells (q\<lparr>mq_overload := x\<rparr>) = mq_cells q"
  "mq_cells (q\<lparr>mq_overload_threshold := y\<rparr>) = mq_cells q"
  "mq_cells (q\<lparr>mq_in_global := z\<rparr>) = mq_cells q"
  "mq_cells (q\<lparr>mq_release := r\<rparr>) = mq_cells q"
  "mq_cells (q\<lparr>mq_next := n\<rparr>) = mq_cells q"
  by (simp_all add: mq_cells_def mq_length_def)

lemma mq_list_update_simps [simp]:
  "mq_list (q\<lparr>mq_overload := x\<rparr>) = mq_list q"
  "mq_list (q\<lparr>mq_overload_threshold := y\<rparr>) = mq_list q"
  "mq_list (q\<lparr>mq_in_global := z\<rparr>) = mq_list q"
  "mq_list (q\<lparr>mq_release := r\<rparr>) = mq_list q"
  "mq_list (q\<lparr>mq_next := n\<rparr>) = mq_list q"
  by (simp_all add: mq_list_def)

lemma mq_wf_update_simps [simp]:
  "mq_wf (q\<lparr>mq_overload := x\<rparr>) = mq_wf q"
  "mq_wf (q\<lparr>mq_in_global := z\<rparr>) = mq_wf q"
  "mq_wf (q\<lparr>mq_release := r\<rparr>) = mq_wf q"
  "mq_wf (q\<lparr>mq_next := n\<rparr>) = mq_wf q"
  by (simp_all add: mq_wf_def)

lemma mq_wf_empty_pop [simp]:
  "mq_wf q \<Longrightarrow> mq_wf (q\<lparr>mq_overload_threshold := MQ_OVERLOAD\<rparr>)"
  by (simp add: mq_wf_def)

lemma mq_cells_pop:
  assumes wf: "mq_wf q" and ne: "mq_head q \<noteq> mq_tail q"
  defines "h \<equiv> (if mq_head q + 1 \<ge> mq_cap q then 0 else mq_head q + 1)"
  shows "mq_cells q = mq_queue q ! nat (mq_head q) # mq_cells (q\<lparr>mq_head := h\<rparr>)"
    and "mq_length (q\<lparr>mq_head := h\<rparr>) = mq_length q - 1"
proof -
  note f = mq_wf_facts [OF wf]
  show len: "mq_length (q\<lparr>mq_head := h\<rparr>) = mq_length q - 1"
    using f ne unfolding h_def mq_length_def by auto
  have pos: "0 < mq_length q" using f ne by (auto simp: mq_length_def)
  then have split: "[0..<nat (mq_length q)] = 0 # map Suc [0..<nat (mq_length q - 1)]"
  proof -
    from pos have "nat (mq_length q) = Suc (nat (mq_length q - 1))" by simp
    then show ?thesis by (simp only: map_Suc_upt upt_conv_Cons zero_less_Suc)
  qed
  have idx: "(mq_head q + int (Suc i)) mod mq_cap q = (h + int i) mod mq_cap q" for i
  proof (cases "mq_head q + 1 = mq_cap q")
    case True
    then have "mq_head q + int (Suc i) = mq_cap q + int i" by simp
    then show ?thesis using True by (simp only: h_def) simp
  next
    case False
    with f(2) show ?thesis by (simp add: h_def algebra_simps)
  qed
  show "mq_cells q = mq_queue q ! nat (mq_head q) # mq_cells (q\<lparr>mq_head := h\<rparr>)"
    unfolding mq_cells_def split len using f idx by (simp add: o_def len del: of_nat_Suc)
qed

lemma mq_pop_cons:
  assumes wf: "mq_wf q" and ms: "mq_list q = m # ms"
  shows "\<exists>q'. mq_pop q = Some (Some m, q') \<and> mq_wf q' \<and> mq_list q' = ms \<and>
     mq_handle q' = mq_handle q \<and> mq_in_global q' = mq_in_global q \<and>
     mq_release q' = mq_release q \<and> mq_next q' = mq_next q \<and> mq_cap q' = mq_cap q"
proof -
  note f = mq_wf_facts [OF wf]
  have ne: "mq_head q \<noteq> mq_tail q" using ms mq_list_empty_iff [OF wf] by auto
  define h where "h = (if mq_head q + 1 \<ge> mq_cap q then 0 else mq_head q + 1)"
  note cells = mq_cells_pop [OF wf ne, folded h_def]
  have hd: "mq_queue q ! nat (mq_head q) = Some m"
    and tl: "mq_cells (q\<lparr>mq_head := h\<rparr>) = map Some ms"
    using cells(1) f(9) ms by auto
  obtain ov th where loop: "overload_loop (mq_length q - 1) (mq_overload q) (mq_overload_threshold q)
      = Some (ov, th)" "mq_overload_threshold q \<le> th"
    using overload_loop_ok [OF f(7), of "mq_length q - 1" "mq_overload q"] by blast
  let ?q' = "q\<lparr>mq_head := h, mq_overload := ov, mq_overload_threshold := th\<rparr>"
  have len: "(if mq_tail q - h < 0 then mq_tail q - h + mq_cap q else mq_tail q - h) = mq_length q - 1"
    using cells(2) by (auto simp: mq_length_def)
  have "mq_pop q = Some (Some m, ?q')"
    unfolding mq_pop_def using ne f hd loop(1) len by (simp add: h_def [symmetric])
  moreover have "mq_wf ?q'"
    using f tl loop(2) by (auto simp: mq_wf_def h_def)
  moreover have "mq_list ?q' = ms" using tl by (simp add: mq_list_def comp_def)
  ultimately show ?thesis by auto
qed

subsection \<open>Push appends, and expands a full ring\<close>

text \<open>Writing the cell at the tail extends the occupied part of the ring by one.\<close>

lemma ring_write:
  assumes wf: "mq_wf q"
  defines "L \<equiv> nat (mq_length q)"
  shows "map (\<lambda>i. (mq_queue q)[nat (mq_tail q) := Some m] ! nat ((mq_head q + int i) mod mq_cap q))
           [0..<Suc L] = mq_cells q @ [Some m]"
proof -
  note f = mq_wf_facts [OF wf] mq_length_bounds [OF wf]
  have at: "(mq_head q + int L) mod mq_cap q = mq_tail q"
    using f by (subst ring_index) (auto simp: L_def mq_length_def)
  have other: "(mq_head q + int i) mod mq_cap q \<noteq> mq_tail q" if "i < L" for i
    using f that by (subst ring_index) (auto simp: L_def mq_length_def split: if_splits)
  have "(mq_queue q)[nat (mq_tail q) := Some m] ! nat ((mq_head q + int i) mod mq_cap q)
        = mq_queue q ! nat ((mq_head q + int i) mod mq_cap q)" if "i < L" for i
  proof -
    have "0 \<le> (mq_head q + int i) mod mq_cap q" using f by simp
    with other [OF that] f show ?thesis by (subst nth_list_update_neq) (auto simp: nat_eq_iff)
  qed
  moreover have "(mq_queue q)[nat (mq_tail q) := Some m] ! nat (mq_tail q) = Some m"
    using f by simp
  ultimately show ?thesis using at by (simp add: mq_cells_def L_def [symmetric])
qed

lemma those_map_Some:
  "(\<And>x. x \<in> set xs \<Longrightarrow> f x = Some (g x)) \<Longrightarrow> those (map f xs) = Some (map g xs)"
  by (induction xs) auto

text \<open>A full ring: the occupied part is the whole array, rotated to start at the head.\<close>

lemma expand_queue_ok:
  assumes "0 \<le> mq_head q" "mq_head q < mq_cap q" "int (length (mq_queue q)) = mq_cap q"
    and full: "map (\<lambda>i. mq_queue q ! nat ((mq_head q + int i) mod mq_cap q)) [0..<nat (mq_cap q)]
                 = map Some ms"
    and th: "MQ_OVERLOAD \<le> mq_overload_threshold q"
  shows "\<exists>q'. expand_queue q = Some q' \<and> mq_wf q' \<and> mq_list q' = ms \<and>
     mq_handle q' = mq_handle q \<and> mq_in_global q' = mq_in_global q \<and>
     mq_release q' = mq_release q \<and> mq_next q' = mq_next q \<and> mq_cap q' = mq_cap q * 2"
proof -
  let ?c = "mq_cap q"
  let ?q' = "q\<lparr>mq_head := 0, mq_tail := ?c, mq_cap := ?c * 2,
               mq_queue := map Some ms @ replicate (nat ?c) None\<rparr>"
  have len: "length ms = nat ?c" using arg_cong [OF full, of length] by simp
  have "those (map (\<lambda>i. arr_get (mq_queue q) ((mq_head q + int i) mod ?c)) [0..<nat ?c])
        = Some (map Some ms)"
    unfolding full [symmetric] using assms(1-3) by (intro those_map_Some) simp
  then have eq: "expand_queue q = Some ?q'" by (simp add: expand_queue_def)
  have cells: "mq_cells ?q' = map Some ms"
  proof -
    have "nat (mq_length ?q') = nat ?c" using assms(1,2) by (simp add: mq_length_def)
    then show ?thesis unfolding mq_cells_def
      using len assms(1,2) by (intro map_upt_eqI) (simp_all add: nth_append)
  qed
  have "mq_wf ?q'" using assms(1,2) th cells len unfolding mq_wf_def by simp
  moreover have "mq_list ?q' = ms" using cells by (simp add: mq_list_def comp_def)
  ultimately show ?thesis using eq by (intro exI [of _ ?q']) simp
qed

lemma mq_push_ok:
  assumes wf: "mq_wf q"
  shows "\<exists>q'. mq_push m q = Some q' \<and> mq_wf q' \<and> mq_list q' = mq_list q @ [m] \<and>
     mq_handle q' = mq_handle q \<and> mq_in_global q' = mq_in_global q \<and>
     mq_release q' = mq_release q \<and> mq_next q' = mq_next q \<and>
     mq_cap q' = (if mq_length q + 1 = mq_cap q then 2 * mq_cap q else mq_cap q)"
proof -
  note f = mq_wf_facts [OF wf] mq_length_bounds [OF wf]
  define t where "t = (if mq_tail q + 1 \<ge> mq_cap q then 0 else mq_tail q + 1)"
  define q1 where "q1 = q\<lparr>mq_queue := (mq_queue q)[nat (mq_tail q) := Some m], mq_tail := t\<rparr>"
  have eq: "mq_push m q = (if mq_head q = t then expand_queue q1 else Some q1)"
    using f by (simp add: mq_push_def q1_def t_def)
  have full_iff: "mq_head q = t \<longleftrightarrow> mq_length q + 1 = mq_cap q"
    using f by (auto simp: t_def mq_length_def)
  have all: "mq_cells q @ [Some m] = map Some (mq_list q @ [m])" using f(9) by simp
  show ?thesis
  proof (cases "mq_head q = t")
    case True
    then have "nat (mq_cap q) = Suc (nat (mq_length q))" using full_iff f by simp
    then have "map (\<lambda>i. mq_queue q1 ! nat ((mq_head q1 + int i) mod mq_cap q1)) [0..<nat (mq_cap q1)]
        = map Some (mq_list q @ [m])"
      using ring_write [OF wf, of m] all by (simp add: q1_def del: upt_Suc)
    moreover have "0 \<le> mq_head q1" "mq_head q1 < mq_cap q1"
      "int (length (mq_queue q1)) = mq_cap q1" "MQ_OVERLOAD \<le> mq_overload_threshold q1"
      using f by (simp_all add: q1_def)
    ultimately obtain q' where "expand_queue q1 = Some q'" "mq_wf q'"
      "mq_list q' = mq_list q @ [m]" "mq_handle q' = mq_handle q1" "mq_in_global q' = mq_in_global q1"
      "mq_release q' = mq_release q1" "mq_next q' = mq_next q1" "mq_cap q' = mq_cap q1 * 2"
      using expand_queue_ok [of q1 "mq_list q @ [m]"] by blast
    then show ?thesis using eq True full_iff by (simp add: q1_def)
  next
    case False
    have len: "mq_length q1 = mq_length q + 1"
      using f False by (auto simp: q1_def t_def mq_length_def)
    then have "nat (mq_length q1) = Suc (nat (mq_length q))" using f by simp
    then have cells: "mq_cells q1 = map Some (mq_list q @ [m])"
      using ring_write [OF wf, of m] all unfolding mq_cells_def [of q1]
      by (simp add: q1_def del: upt_Suc)
    have "mq_wf q1" using f cells unfolding mq_wf_def by (simp add: q1_def t_def)
    moreover have "mq_list q1 = mq_list q @ [m]" using cells by (simp add: mq_list_def comp_def)
    ultimately show ?thesis using eq False full_iff by (simp add: q1_def)
  qed
qed

lemma new_queue_wf [simp]: "mq_wf (new_queue h)" "mq_list (new_queue h) = []"
  by (simp_all add: mq_wf_def mq_list_def mq_cells_def mq_length_def new_queue_def
      DEFAULT_QUEUE_SIZE_def)

interpretation mqf: fifo mq_wf mq_list mq_push mq_pop
proof
  fix q x assume "mq_wf q"
  then show "\<exists>q'. mq_push x q = Some q' \<and> mq_wf q' \<and> mq_list q' = mq_list q @ [x]"
    using mq_push_ok by blast
next
  fix q assume q: "mq_wf q" "mq_list q = []"
  then show "\<exists>q'. mq_pop q = Some (None, q') \<and> mq_wf q' \<and> mq_list q' = []"
    by (simp add: mq_pop_empty)
next
  fix q x xs assume "mq_wf q" "mq_list q = x # xs"
  then show "\<exists>q'. mq_pop q = Some (Some x, q') \<and> mq_wf q' \<and> mq_list q' = xs"
    using mq_pop_cons by blast
qed

section \<open>The global queue as a list of addresses\<close>

definition nx :: "mq_store \<Rightarrow> nat \<Rightarrow> nat option" where
  "nx s a = Option.bind (mqs s a) mq_next"

definition gq_inv :: "mq_store \<Rightarrow> nat list \<Rightarrow> bool" where
  "gq_inv s xs \<longleftrightarrow> chain (nx s) (gq_head s) xs None \<and>
     gq_tail s = (if xs = [] then None else Some (last xs)) \<and>
     set xs \<subseteq> dom (mqs s) \<and> (\<forall>a. a \<notin> set xs \<longrightarrow> nx s a = None)"

text \<open>Everything of a queue but its link in the global queue.\<close>

definition body :: "mq_store \<Rightarrow> nat \<Rightarrow> message_queue option" where
  "body s a = map_option (\<lambda>q. q\<lparr>mq_next := None\<rparr>) (mqs s a)"

definition put_body :: "mq_store \<Rightarrow> nat \<Rightarrow> message_queue \<Rightarrow> nat \<Rightarrow> message_queue option" where
  "put_body s a q = (body s)(a \<mapsto> q\<lparr>mq_next := None\<rparr>)"

lemma gq_inv_distinct: "gq_inv s xs \<Longrightarrow> distinct xs"
  by (auto simp: gq_inv_def intro: chain_distinct)

lemma gq_inv_unique: "gq_inv s xs \<Longrightarrow> gq_inv s ys \<Longrightarrow> xs = ys"
  by (auto simp: gq_inv_def intro: chain_unique)

lemma nx_next_last: "gq_inv s xs \<Longrightarrow> a \<notin> set (butlast xs) \<Longrightarrow> nx s a = None"
proof -
  assume inv: "gq_inv s xs" and a: "a \<notin> set (butlast xs)"
  show ?thesis
  proof (cases "a \<in> set xs")
    case True
    then have "xs \<noteq> []" by auto
    then obtain ys where xs: "xs = ys @ [a]"
      using True a by (metis append_butlast_last_id in_set_butlastD in_set_conv_decomp
          insert_iff list.set(2) rotate1.simps(2) set_rotate1 append_Nil2 set_append Un_iff empty_iff
          list.set(1))
    with inv show ?thesis by (auto simp: gq_inv_def intro: chain_next_last)
  qed (use inv in \<open>simp add: gq_inv_def\<close>)
qed

lemma skynet_mq_init_inv: "gq_inv skynet_mq_init []"
  by (simp add: gq_inv_def skynet_mq_init_def nx_def)

text \<open>A queue that is not on the list is appended, and no assert of the code fails.\<close>

lemma globalmq_push_ok:
  assumes inv: "gq_inv s xs" and a: "mqs s a = Some q" "a \<notin> set xs"
  shows "\<exists>s'. skynet_globalmq_push a s = Some s' \<and> gq_inv s' (xs @ [a]) \<and> body s' = body s"
proof (cases "xs = []")
  case True
  have "mq_next q = None" using inv a by (auto simp: gq_inv_def nx_def)
  with assms True show ?thesis
    by (auto simp: skynet_globalmq_push_def gq_inv_def nx_def body_def bind_c_assert)
next
  case False
  define t where "t = last xs"
  have xs: "xs = butlast xs @ [t]" using False by (simp add: t_def)
  have t_in: "t \<in> set xs" using False by (simp add: t_def)
  have dist: "t \<notin> set (butlast xs)"
    using gq_inv_distinct [OF inv] xs by (metis distinct_append distinct.simps(2) not_distinct_conv_prefix)
  obtain tq where tq: "mqs s t = Some tq" using inv t_in by (auto simp: gq_inv_def)
  have nq: "mq_next q = None" using inv a by (auto simp: gq_inv_def nx_def)
  have at: "a \<noteq> t" using a t_in by auto
  define s' where "s' = s\<lparr>mqs := (mqs s)(t \<mapsto> tq\<lparr>mq_next := Some a\<rparr>), gq_tail := Some a\<rparr>"
  have eq: "skynet_globalmq_push a s = Some s'"
    using inv a tq nq False by (simp add: skynet_globalmq_push_def gq_inv_def bind_c_assert s'_def t_def)
  have nx': "nx s' = (nx s)(t := Some a)"
    by (rule ext) (simp add: nx_def s'_def)
  have "chain (nx s') (gq_head s') (butlast xs @ [t, a]) None"
    unfolding nx' using inv xs dist at nx_next_last [OF inv, of a] a
    by (intro chain_snoc_upd) (auto simp: gq_inv_def s'_def dest: in_set_butlastD)
  then have "chain (nx s') (gq_head s') (xs @ [a]) None" using xs by (metis append.assoc append_Cons append_Nil)
  moreover have "gq_tail s' = Some a" "gq_head s' = gq_head s" by (simp_all add: s'_def)
  moreover have "dom (mqs s') = dom (mqs s)" using tq by (auto simp: s'_def)
  moreover have "\<forall>b. b \<notin> set (xs @ [a]) \<longrightarrow> nx s' b = None"
    using inv t_in by (auto simp: nx' gq_inv_def)
  ultimately have "gq_inv s' (xs @ [a])" using inv a by (auto simp: gq_inv_def)
  moreover have "body s' = body s" using tq by (auto simp: body_def s'_def)
  ultimately show ?thesis using eq by blast
qed

lemma globalmq_pop_empty: "gq_inv s [] \<Longrightarrow> skynet_globalmq_pop s = Some (None, s)"
  by (simp add: gq_inv_def skynet_globalmq_pop_def)

lemma globalmq_pop_cons:
  assumes inv: "gq_inv s (a # xs)"
  shows "\<exists>s'. skynet_globalmq_pop s = Some (Some a, s') \<and> gq_inv s' xs \<and> body s' = body s"
proof -
  obtain q where q: "mqs s a = Some q" and head: "gq_head s = Some a"
    using inv by (auto simp: gq_inv_def)
  have ch: "chain (nx s) (mq_next q) xs None" using inv q by (simp add: gq_inv_def nx_def)
  have a: "a \<notin> set xs" using gq_inv_distinct [OF inv] by simp
  have nil: "mq_next q = None \<longleftrightarrow> xs = []" using ch by (cases xs) auto
  define s1 where "s1 = (if mq_next q = None then s\<lparr>gq_head := None, gq_tail := None\<rparr>
                         else s\<lparr>gq_head := mq_next q\<rparr>)"
  define s' where "s' = s1\<lparr>mqs := (mqs s1)(a \<mapsto> q\<lparr>mq_next := None\<rparr>)\<rparr>"
  have eq: "skynet_globalmq_pop s = Some (Some a, s')"
    using inv q head nil
    by (simp add: skynet_globalmq_pop_def s'_def s1_def bind_c_assert gq_inv_def)
  have nx': "nx s' = (nx s)(a := None)"
    by (rule ext) (simp add: nx_def s'_def s1_def)
  have "gq_inv s' xs"
    using inv ch a nil unfolding gq_inv_def nx' by (auto simp: s'_def s1_def)
  moreover have "body s' = body s" using q by (auto simp: body_def s'_def s1_def)
  ultimately show ?thesis using eq by blast
qed

text \<open>Rewriting a queue that keeps its link.\<close>

lemma gq_inv_put:
  assumes "gq_inv s xs" "mqs s a = Some q" "mq_next q' = mq_next q"
  shows "gq_inv (s\<lparr>mqs := (mqs s)(a \<mapsto> q')\<rparr>) xs"
proof -
  have "nx (s\<lparr>mqs := (mqs s)(a \<mapsto> q')\<rparr>) = nx s"
    using assms(2,3) by (auto simp: nx_def)
  then show ?thesis using assms by (auto simp: gq_inv_def)
qed

lemma body_put: "body (s\<lparr>mqs := (mqs s)(a \<mapsto> q)\<rparr>) = put_body s a q"
  by (auto simp: body_def put_body_def)

lemma body_Some: "body s a = Some b \<longleftrightarrow> (\<exists>q. mqs s a = Some q \<and> b = q\<lparr>mq_next := None\<rparr>)"
  by (auto simp: body_def)

section \<open>Effect of the operations on the heap\<close>

lemma skynet_mq_push_ok:
  assumes inv: "gq_inv s xs" and q: "mqs s a = Some q" "mq_wf q"
    and free: "mq_in_global q = 0 \<Longrightarrow> a \<notin> set xs"
  shows "\<exists>s' q'. skynet_mq_push a m s = Some s' \<and>
     gq_inv s' (if mq_in_global q = 0 then xs @ [a] else xs) \<and> body s' = put_body s a q' \<and>
     mq_wf q' \<and> mq_list q' = mq_list q @ [m] \<and> mq_release q' = mq_release q \<and>
     mq_handle q' = mq_handle q \<and>
     mq_in_global q' = (if mq_in_global q = 0 then MQ_IN_GLOBAL else mq_in_global q)"
proof -
  obtain q1 where q1: "mq_push m q = Some q1" "mq_wf q1" "mq_list q1 = mq_list q @ [m]"
    "mq_handle q1 = mq_handle q" "mq_in_global q1 = mq_in_global q"
    "mq_release q1 = mq_release q" "mq_next q1 = mq_next q"
    using mq_push_ok [OF q(2)] by blast
  show ?thesis
  proof (cases "mq_in_global q = 0")
    case True
    let ?q2 = "q1\<lparr>mq_in_global := MQ_IN_GLOBAL\<rparr>"
    let ?s1 = "s\<lparr>mqs := (mqs s)(a \<mapsto> ?q2)\<rparr>"
    have "gq_inv ?s1 xs" using inv q(1) q1(7) by (intro gq_inv_put) auto
    from globalmq_push_ok [OF this, of a ?q2] free True obtain s' where
      s': "skynet_globalmq_push a ?s1 = Some s'" "gq_inv s' (xs @ [a])" "body s' = body ?s1"
      by auto
    with True q q1 show ?thesis
      by (intro exI [of _ s'] exI [of _ ?q2]) (simp add: skynet_mq_push_def body_put)
  next
    case False
    let ?s1 = "s\<lparr>mqs := (mqs s)(a \<mapsto> q1)\<rparr>"
    have "gq_inv ?s1 xs" using inv q(1) q1(7) by (intro gq_inv_put) auto
    with False q q1 show ?thesis
      by (intro exI [of _ ?s1] exI [of _ q1]) (simp add: skynet_mq_push_def body_put)
  qed
qed

lemma skynet_mq_pop_ok:
  assumes inv: "gq_inv s xs" and q: "mqs s a = Some q" "mq_wf q"
  shows "\<exists>r s' q'. skynet_mq_pop a s = Some (r, s') \<and> gq_inv s' xs \<and>
     body s' = put_body s a q' \<and> mq_wf q' \<and> mq_release q' = mq_release q \<and>
     mq_handle q' = mq_handle q \<and>
     (case mq_list q of
        [] \<Rightarrow> r = None \<and> mq_list q' = [] \<and> mq_in_global q' = 0
      | m # ms \<Rightarrow> r = Some m \<and> mq_list q' = ms \<and> mq_in_global q' = mq_in_global q)"
proof -
  obtain r q' where q': "mq_pop q = Some (r, q')" "mq_wf q'" "mq_release q' = mq_release q"
    "mq_handle q' = mq_handle q" "mq_next q' = mq_next q"
    "case mq_list q of [] \<Rightarrow> r = None \<and> mq_list q' = [] \<and> mq_in_global q' = 0
      | m # ms \<Rightarrow> r = Some m \<and> mq_list q' = ms \<and> mq_in_global q' = mq_in_global q"
  proof (cases "mq_list q")
    case Nil
    with q(2) that show ?thesis by (simp add: mq_pop_empty)
  next
    case (Cons m ms)
    with mq_pop_cons [OF q(2) Cons] that show ?thesis by auto
  qed
  let ?s1 = "s\<lparr>mqs := (mqs s)(a \<mapsto> q')\<rparr>"
  have "gq_inv ?s1 xs" using inv q(1) q'(5) by (intro gq_inv_put) auto
  with q q' show ?thesis
    by (intro exI [of _ r] exI [of _ ?s1] exI [of _ q']) (simp add: skynet_mq_pop_def body_put)
qed

lemma skynet_mq_mark_release_ok:
  assumes inv: "gq_inv s xs" and q: "mqs s a = Some q" "mq_release q = 0"
    and free: "mq_in_global q \<noteq> MQ_IN_GLOBAL \<Longrightarrow> a \<notin> set xs"
  shows "\<exists>s'. skynet_mq_mark_release a s = Some s' \<and>
     gq_inv s' (if mq_in_global q \<noteq> MQ_IN_GLOBAL then xs @ [a] else xs) \<and>
     body s' = put_body s a (q\<lparr>mq_release := 1\<rparr>)"
proof -
  let ?s1 = "s\<lparr>mqs := (mqs s)(a \<mapsto> q\<lparr>mq_release := 1\<rparr>)\<rparr>"
  have g: "gq_inv ?s1 xs" using inv q(1) by (intro gq_inv_put) auto
  show ?thesis
  proof (cases "mq_in_global q = MQ_IN_GLOBAL")
    case True
    with g q show ?thesis by (simp add: skynet_mq_mark_release_def bind_c_assert body_put)
  next
    case False
    with globalmq_push_ok [OF g, of a "q\<lparr>mq_release := 1\<rparr>"] free q show ?thesis
      by (auto simp: skynet_mq_mark_release_def bind_c_assert body_put)
  qed
qed

lemma mq_free_ok:
  assumes inv: "gq_inv s xs" and q: "mqs s a = Some q" "a \<notin> set xs"
  shows "\<exists>s'. mq_free a s = Some s' \<and> gq_inv s' xs \<and> body s' = (body s)(a := None)"
proof -
  have nx: "mq_next q = None" using inv q by (auto simp: gq_inv_def nx_def)
  let ?s1 = "s\<lparr>mqs := (mqs s)(a := None)\<rparr>"
  have "nx ?s1 = nx s" using nx q(1) by (auto simp: nx_def)
  then have "gq_inv ?s1 xs" using inv q(2) by (auto simp: gq_inv_def)
  with q nx show ?thesis by (auto simp: mq_free_def bind_c_assert body_def)
qed

lemma skynet_mq_create_ok:
  assumes inv: "gq_inv s xs" and a: "mqs s a = None"
  shows "gq_inv (skynet_mq_create a h s) xs" "body (skynet_mq_create a h s) = put_body s a (new_queue h)"
proof -
  have "a \<notin> set xs" using inv a by (auto simp: gq_inv_def)
  moreover have "nx (skynet_mq_create a h s) = nx s"
    using a by (auto simp: nx_def skynet_mq_create_def new_queue_def)
  ultimately show "gq_inv (skynet_mq_create a h s) xs"
    using inv by (auto simp: gq_inv_def skynet_mq_create_def)
qed (simp add: skynet_mq_create_def body_put)

end
