(* ===== verification/Sched.thy ===== *)
theory Sched
  imports Mq
begin

text \<open>
  The scheduling protocol of skynet-src/skynet\_mq.c and of its callers in
  skynet-src/skynet\_server.c, as a step relation. Every step is one critical section of the
  code (the lock of a queue with, inside it, the lock of the global queue). Any number of
  worker threads run the steps in any order.

  \<open>held\<close> is the set of queues that a thread owns: the thread that creates the
  service (until it pushes the queue at the end of \<open>skynet_context_new\<close>) or the worker that
  took the queue from the global queue. \<open>alive\<close> is the set of queues whose service context is
  not deleted: a thread that pushes to a queue, or a worker that pops a message from it, holds a
  reference to the context, so the context is alive then. \<open>sent\<close> and \<open>got\<close> record the
  messages pushed to and popped from each queue.
\<close>

record sched =
  store :: mq_store
  held :: "nat set"
  alive :: "nat set"
  sent :: "nat \<Rightarrow> skynet_message list"
  got :: "nat \<Rightarrow> skynet_message list"

definition init_sched :: sched where
  "init_sched = \<lparr>store = skynet_mq_init, held = {}, alive = {}, sent = (\<lambda>_. []), got = (\<lambda>_. [])\<rparr>"

text \<open>
  The operations, on the state; None is a failed assert or a bad access.
  \<^item> \<open>do_create\<close>: \<open>skynet_mq_create\<close> in \<open>skynet_context_new\<close>;
  \<^item> \<open>do_give\<close>: \<open>skynet_globalmq_push\<close> by the creating thread or by a worker that yields;
  \<^item> \<open>do_send\<close>: \<open>skynet_mq_push\<close> in \<open>skynet_context_push\<close>;
  \<^item> \<open>do_take\<close>: \<open>skynet_globalmq_pop\<close> in \<open>skynet_context_message_dispatch\<close>;
  \<^item> \<open>do_next\<close>: \<open>skynet_mq_pop\<close> in the dispatch loop; an empty queue is let go;
  \<^item> \<open>do_delete\<close>: \<open>skynet_mq_mark_release\<close> in \<open>delete_context\<close>;
  \<^item> \<open>do_release\<close>: \<open>skynet_mq_release\<close> by a worker that finds the handle retired. A queue that is
    not marked goes back to the global queue; of a marked queue one message is dropped, and the
    queue is freed when it is empty.
\<close>

definition do_create :: "nat \<Rightarrow> u32 \<Rightarrow> sched \<Rightarrow> sched option" where
  "do_create a h s = Some (s\<lparr>store := skynet_mq_create a h (store s), held := insert a (held s),
      alive := insert a (alive s), sent := (sent s)(a := []), got := (got s)(a := [])\<rparr>)"

definition do_give :: "nat \<Rightarrow> sched \<Rightarrow> sched option" where
  "do_give a s = do {
     st \<leftarrow> skynet_globalmq_push a (store s);
     Some (s\<lparr>store := st, held := held s - {a}\<rparr>)
   }"

definition do_send :: "nat \<Rightarrow> skynet_message \<Rightarrow> sched \<Rightarrow> sched option" where
  "do_send a m s = do {
     st \<leftarrow> skynet_mq_push a m (store s);
     Some (s\<lparr>store := st, sent := (sent s)(a := sent s a @ [m])\<rparr>)
   }"

definition do_take :: "sched \<Rightarrow> (nat option \<times> sched) option" where
  "do_take s = do {
     (r, st) \<leftarrow> skynet_globalmq_pop (store s);
     Some (r, s\<lparr>store := st, held := held s \<union> set_option r\<rparr>)
   }"

definition do_next :: "nat \<Rightarrow> sched \<Rightarrow> (skynet_message option \<times> sched) option" where
  "do_next a s = do {
     (r, st) \<leftarrow> skynet_mq_pop a (store s);
     Some (r, case r of
         None \<Rightarrow> s\<lparr>store := st, held := held s - {a}\<rparr>
       | Some m \<Rightarrow> s\<lparr>store := st, got := (got s)(a := got s a @ [m])\<rparr>)
   }"

definition do_delete :: "nat \<Rightarrow> sched \<Rightarrow> sched option" where
  "do_delete a s = do {
     st \<leftarrow> skynet_mq_mark_release a (store s);
     Some (s\<lparr>store := st, alive := alive s - {a}\<rparr>)
   }"

definition do_release :: "nat \<Rightarrow> sched \<Rightarrow> (skynet_message option \<times> sched) option" where
  "do_release a s = do {
     q \<leftarrow> mqs (store s) a;
     if mq_release q = 0 then do { s1 \<leftarrow> do_give a s; Some (None, s1) }
     else do {
       (r, st) \<leftarrow> skynet_mq_pop a (store s);
       (case r of
          Some m \<Rightarrow> Some (r, s\<lparr>store := st, got := (got s)(a := got s a @ [m])\<rparr>)
        | None \<Rightarrow> do {
            st2 \<leftarrow> mq_free a st;
            Some (None, s\<lparr>store := st2, held := held s - {a}\<rparr>)
          })
     }
   }"

inductive sched_step :: "sched \<Rightarrow> sched \<Rightarrow> bool" where
  create: "mqs (store s) a = None \<Longrightarrow> do_create a h s = Some s' \<Longrightarrow> sched_step s s'"
| give: "a \<in> held s \<Longrightarrow> do_give a s = Some s' \<Longrightarrow> sched_step s s'"
| send: "a \<in> alive s \<Longrightarrow> do_send a m s = Some s' \<Longrightarrow> sched_step s s'"
| take: "do_take s = Some (r, s') \<Longrightarrow> sched_step s s'"
| next_msg: "a \<in> held s \<Longrightarrow> a \<in> alive s \<Longrightarrow> do_next a s = Some (r, s') \<Longrightarrow> sched_step s s'"
| delete: "a \<in> alive s \<Longrightarrow> do_delete a s = Some s' \<Longrightarrow> sched_step s s'"
| release: "a \<in> held s \<Longrightarrow> do_release a s = Some (r, s') \<Longrightarrow> sched_step s s'"

inductive sched_reachable :: "sched \<Rightarrow> bool" where
  start: "sched_reachable init_sched"
| step: "sched_reachable s \<Longrightarrow> sched_step s s' \<Longrightarrow> sched_reachable s'"

section \<open>The invariant\<close>

text \<open>
  Every live queue of a deleted service is owned or in the global queue (so it will be freed);
  a queue of a live service has its \<open>in_global\<close> flag set exactly when it is owned or in the
  global queue; a queue whose flag is clear is empty (no message is stranded).
\<close>

definition queue_ok :: "nat set \<Rightarrow> bool \<Rightarrow> nat \<Rightarrow> message_queue \<Rightarrow> bool" where
  "queue_ok busy al a q \<longleftrightarrow> mq_wf q \<and>
     (if al then mq_release q = 0 \<and> mq_in_global q = (if a \<in> busy then MQ_IN_GLOBAL else 0) \<and>
                 (a \<notin> busy \<longrightarrow> mq_list q = [])
      else mq_release q = 1 \<and> a \<in> busy)"

definition sched_inv :: "sched \<Rightarrow> nat list \<Rightarrow> bool" where
  "sched_inv s xs \<longleftrightarrow> gq_inv (store s) xs \<and> set xs \<inter> held s = {} \<and>
     held s \<subseteq> dom (body (store s)) \<and> alive s \<subseteq> dom (body (store s)) \<and>
     (\<forall>a q. body (store s) a = Some q \<longrightarrow>
        queue_ok (set xs \<union> held s) (a \<in> alive s) a q \<and> sent s a = got s a @ mq_list q)"

lemma queue_ok_next [simp]: "queue_ok busy al a (q\<lparr>mq_next := n\<rparr>) = queue_ok busy al a q"
  by (simp add: queue_ok_def)

lemma sched_inv_lookup:
  assumes "sched_inv s xs" "a \<in> held s \<or> a \<in> alive s \<or> a \<in> set xs"
  obtains q where "mqs (store s) a = Some q" "queue_ok (set xs \<union> held s) (a \<in> alive s) a q"
    "sent s a = got s a @ mq_list q"
proof -
  have "a \<in> dom (body (store s))"
    using assms by (auto simp: sched_inv_def gq_inv_def body_def)
  then obtain q where q: "mqs (store s) a = Some q" by (auto simp: body_def)
  then have "body (store s) a = Some (q\<lparr>mq_next := None\<rparr>)" by (simp add: body_def)
  then have "queue_ok (set xs \<union> held s) (a \<in> alive s) a (q\<lparr>mq_next := None\<rparr>)"
    "sent s a = got s a @ mq_list (q\<lparr>mq_next := None\<rparr>)"
    using assms(1) unfolding sched_inv_def by blast+
  with q that show thesis by simp
qed

lemma sched_inv_gq: "sched_inv s xs \<Longrightarrow> gq_inv (store s) xs"
  by (simp add: sched_inv_def)

text \<open>
  The invariant after a step that rewrites queue \<open>a\<close> only and changes the set of busy queues
  (in the global queue or owned) at \<open>a\<close> only.
\<close>

lemma sched_inv_put:
  assumes inv: "sched_inv s xs"
    and gq: "gq_inv (store s') xs'" and disj: "set xs' \<inter> held s' = {}"
    and body: "body (store s') = put_body (store s) a q"
    and busy: "\<And>b. b \<noteq> a \<Longrightarrow> b \<in> set xs' \<union> held s' \<longleftrightarrow> b \<in> set xs \<union> held s"
    and alive: "\<And>b. b \<noteq> a \<Longrightarrow> b \<in> alive s' \<longleftrightarrow> b \<in> alive s"
    and hist: "\<And>b. b \<noteq> a \<Longrightarrow> sent s' b = sent s b \<and> got s' b = got s b"
    and ok: "queue_ok (set xs' \<union> held s') (a \<in> alive s') a q" "sent s' a = got s' a @ mq_list q"
  shows "sched_inv s' xs'"
  unfolding sched_inv_def
proof (intro conjI allI impI)
  have dom: "dom (body (store s')) = insert a (dom (body (store s)))"
    using body by (auto simp: put_body_def)
  have in_gq: "set xs \<subseteq> dom (body (store s))"
    using inv by (auto simp: sched_inv_def gq_inv_def body_def)
  show "held s' \<subseteq> dom (body (store s'))"
    using busy inv in_gq unfolding dom sched_inv_def by blast
  show "alive s' \<subseteq> dom (body (store s'))"
    using alive inv unfolding dom sched_inv_def by blast
  fix b p assume p: "body (store s') b = Some p"
  have "queue_ok (set xs' \<union> held s') (b \<in> alive s') b p \<and> sent s' b = got s' b @ mq_list p"
  proof (cases "b = a")
    case True
    with p ok body show ?thesis by (auto simp: put_body_def)
  next
    case False
    with p body have "body (store s) b = Some p" by (simp add: put_body_def)
    with inv have "queue_ok (set xs \<union> held s) (b \<in> alive s) b p" "sent s b = got s b @ mq_list p"
      by (auto simp: sched_inv_def)
    with busy [OF False] alive [OF False] hist [OF False] show ?thesis
      by (auto simp: queue_ok_def split: if_splits)
  qed
  then show "queue_ok (set xs' \<union> held s') (b \<in> alive s') b p"
    and "sent s' b = got s' b @ mq_list p" by auto
qed (use gq disj in auto)

lemma init_sched_inv: "sched_inv init_sched []"
  using skynet_mq_init_inv
  by (simp add: sched_inv_def init_sched_def body_def skynet_mq_init_def)

section \<open>Every step succeeds and keeps the invariant\<close>

lemma do_create_ok:
  assumes inv: "sched_inv s xs" and a: "mqs (store s) a = None"
  shows "\<exists>s'. do_create a h s = Some s' \<and> sched_inv s' xs"
proof -
  note gq = sched_inv_gq [OF inv]
  have "a \<notin> set xs" using gq a by (auto simp: gq_inv_def)
  moreover have "set xs \<inter> held s = {}" using inv by (simp add: sched_inv_def)
  ultimately have "sched_inv (s\<lparr>store := skynet_mq_create a h (store s), held := insert a (held s),
      alive := insert a (alive s), sent := (sent s)(a := []), got := (got s)(a := [])\<rparr>) xs"
    using skynet_mq_create_ok [OF gq a, of h]
    by (intro sched_inv_put [OF inv, of _ _ a "new_queue h"])
      (auto simp: queue_ok_def, auto simp: new_queue_def)
  then show ?thesis by (simp add: do_create_def)
qed

lemma do_give_ok:
  assumes inv: "sched_inv s xs" and a: "a \<in> held s"
  shows "\<exists>s'. do_give a s = Some s' \<and> sched_inv s' (xs @ [a])"
proof -
  obtain q where q: "mqs (store s) a = Some q" "queue_ok (set xs \<union> held s) (a \<in> alive s) a q"
    "sent s a = got s a @ mq_list q"
    using sched_inv_lookup [OF inv] a by blast
  have disj: "set xs \<inter> held s = {}" using inv by (simp add: sched_inv_def)
  with a have "a \<notin> set xs" by blast
  then obtain st where st: "skynet_globalmq_push a (store s) = Some st" "gq_inv st (xs @ [a])"
    "body st = body (store s)"
    using globalmq_push_ok [OF sched_inv_gq [OF inv] q(1)] by blast
  have "body st = put_body (store s) a q" using st(3) q(1) by (auto simp: put_body_def body_def)
  with st disj q a have "sched_inv (s\<lparr>store := st, held := held s - {a}\<rparr>) (xs @ [a])"
    by (intro sched_inv_put [OF inv, of _ _ a q]) (auto simp: queue_ok_def)
  with st show ?thesis by (simp add: do_give_def)
qed

lemma do_send_ok:
  assumes inv: "sched_inv s xs" and a: "a \<in> alive s"
  shows "\<exists>s' xs'. do_send a m s = Some s' \<and> sched_inv s' xs'"
proof -
  obtain q where q: "mqs (store s) a = Some q" "queue_ok (set xs \<union> held s) (a \<in> alive s) a q"
    "sent s a = got s a @ mq_list q"
    using sched_inv_lookup [OF inv] a by blast
  have wf: "mq_wf q" and rel: "mq_release q = 0"
    and ig: "mq_in_global q = 0 \<longleftrightarrow> a \<notin> set xs \<union> held s" and ig1: "mq_in_global q \<in> {0, MQ_IN_GLOBAL}"
    using q(2) a by (auto simp: queue_ok_def MQ_IN_GLOBAL_def split: if_splits)
  let ?xs = "if mq_in_global q = 0 then xs @ [a] else xs"
  obtain st q' where st: "skynet_mq_push a m (store s) = Some st" "gq_inv st ?xs"
    "body st = put_body (store s) a q'" "mq_wf q'" "mq_list q' = mq_list q @ [m]"
    "mq_release q' = mq_release q"
    "mq_in_global q' = (if mq_in_global q = 0 then MQ_IN_GLOBAL else mq_in_global q)"
    using skynet_mq_push_ok [OF sched_inv_gq [OF inv] q(1) wf, of m] ig by blast
  have "sched_inv (s\<lparr>store := st, sent := (sent s)(a := sent s a @ [m])\<rparr>) ?xs"
    using inv st ig ig1 rel q a
    by (intro sched_inv_put [OF inv, of _ _ a q']) (auto simp: queue_ok_def sched_inv_def)
  with st show ?thesis by (auto simp: do_send_def)
qed

lemma do_take_ok:
  assumes inv: "sched_inv s xs"
  shows "\<exists>r s' xs'. do_take s = Some (r, s') \<and> sched_inv s' xs' \<and> set_option r \<inter> held s = {} \<and>
     (r = None \<longleftrightarrow> xs = [])"
proof (cases xs)
  case Nil
  then have "skynet_globalmq_pop (store s) = Some (None, store s)"
    using inv by (simp add: sched_inv_def globalmq_pop_empty)
  with inv Nil show ?thesis by (simp add: do_take_def) blast
next
  case (Cons a ys)
  then have gq: "gq_inv (store s) (a # ys)" using inv by (simp add: sched_inv_def)
  obtain st where st: "skynet_globalmq_pop (store s) = Some (Some a, st)" "gq_inv st ys"
    "body st = body (store s)"
    using globalmq_pop_cons [OF gq] by blast
  obtain q where q: "mqs (store s) a = Some q" "queue_ok (set xs \<union> held s) (a \<in> alive s) a q"
    "sent s a = got s a @ mq_list q"
    using sched_inv_lookup [OF inv, of a] Cons by auto
  have body: "body st = put_body (store s) a q" using st(3) q(1) by (auto simp: put_body_def body_def)
  have disj: "set xs \<inter> held s = {}" using inv by (simp add: sched_inv_def)
  have "a \<notin> set ys" using gq_inv_distinct [OF gq] by simp
  then have "sched_inv (s\<lparr>store := st, held := held s \<union> {a}\<rparr>) ys"
    using st body disj Cons q
    by (intro sched_inv_put [OF inv, of _ _ a q]) (auto simp: queue_ok_def)
  with st disj Cons show ?thesis by (auto simp: do_take_def)
qed

lemma do_next_ok:
  assumes inv: "sched_inv s xs" and a: "a \<in> held s" "a \<in> alive s"
  shows "\<exists>r s'. do_next a s = Some (r, s') \<and> sched_inv s' xs"
proof -
  obtain q where q: "mqs (store s) a = Some q" "queue_ok (set xs \<union> held s) (a \<in> alive s) a q"
    "sent s a = got s a @ mq_list q"
    using sched_inv_lookup [OF inv] a by blast
  have wf: "mq_wf q" using q(2) by (simp add: queue_ok_def)
  obtain r st q' where st: "skynet_mq_pop a (store s) = Some (r, st)" "gq_inv st xs"
    "body st = put_body (store s) a q'" "mq_wf q'" "mq_release q' = mq_release q"
    and c: "case mq_list q of
        [] \<Rightarrow> r = None \<and> mq_list q' = [] \<and> mq_in_global q' = 0
      | m # ms \<Rightarrow> r = Some m \<and> mq_list q' = ms \<and> mq_in_global q' = mq_in_global q"
    using skynet_mq_pop_ok [OF sched_inv_gq [OF inv] q(1) wf] by blast
  have disj: "set xs \<inter> held s = {}" using inv by (simp add: sched_inv_def)
  then have nin: "a \<notin> set xs" using a by blast
  show ?thesis
  proof (cases "mq_list q")
    case Nil
    with c st disj nin q a have "sched_inv (s\<lparr>store := st, held := held s - {a}\<rparr>) xs"
      by (intro sched_inv_put [OF inv, of _ _ a q']) (auto simp: queue_ok_def)
    with Nil c st show ?thesis by (auto simp: do_next_def)
  next
    case (Cons m ms)
    with c st disj q a have "sched_inv (s\<lparr>store := st, got := (got s)(a := got s a @ [m])\<rparr>) xs"
      by (intro sched_inv_put [OF inv, of _ _ a q']) (auto simp: queue_ok_def)
    with Cons c st show ?thesis by (auto simp: do_next_def)
  qed
qed

lemma do_delete_ok:
  assumes inv: "sched_inv s xs" and a: "a \<in> alive s"
  shows "\<exists>s' xs'. do_delete a s = Some s' \<and> sched_inv s' xs'"
proof -
  obtain q where q: "mqs (store s) a = Some q" "queue_ok (set xs \<union> held s) (a \<in> alive s) a q"
    "sent s a = got s a @ mq_list q"
    using sched_inv_lookup [OF inv] a by blast
  have rel: "mq_release q = 0"
    and ig: "mq_in_global q \<noteq> MQ_IN_GLOBAL \<longleftrightarrow> a \<notin> set xs \<union> held s"
    using q(2) a by (auto simp: queue_ok_def MQ_IN_GLOBAL_def split: if_splits)
  let ?xs = "if mq_in_global q \<noteq> MQ_IN_GLOBAL then xs @ [a] else xs"
  obtain st where st: "skynet_mq_mark_release a (store s) = Some st" "gq_inv st ?xs"
    "body st = put_body (store s) a (q\<lparr>mq_release := 1\<rparr>)"
    using skynet_mq_mark_release_ok [OF sched_inv_gq [OF inv] q(1) rel] ig by blast
  have disj: "set xs \<inter> held s = {}" using inv by (simp add: sched_inv_def)
  have "sched_inv (s\<lparr>store := st, alive := alive s - {a}\<rparr>) ?xs"
    using st ig q a disj
    by (intro sched_inv_put [OF inv, of _ _ a "q\<lparr>mq_release := 1\<rparr>"]) (auto simp: queue_ok_def)
  with st show ?thesis by (auto simp: do_delete_def)
qed

text \<open>A freed queue leaves the heap.\<close>

lemma sched_inv_free:
  assumes inv: "sched_inv s xs" and a: "a \<in> held s" "a \<notin> alive s"
    and gq: "gq_inv st xs" and body: "body st = (body (store s))(a := None)"
  shows "sched_inv (s\<lparr>store := st, held := held s - {a}\<rparr>) xs"
proof -
  have *: "queue_ok (set xs \<union> held s) (b \<in> alive s) b p \<and> sent s b = got s b @ mq_list p"
    if "body (store s) b = Some p" for b p
    using inv that by (auto simp: sched_inv_def)
  have "queue_ok (set xs \<union> (held s - {a})) (b \<in> alive s) b p"
    if "body (store s) b = Some p" "b \<noteq> a" for b p
    using * [OF that(1)] that(2) by (auto simp: queue_ok_def split: if_splits)
  with * gq inv a show ?thesis by (auto simp: sched_inv_def body)
qed

lemma do_release_ok:
  assumes inv: "sched_inv s xs" and a: "a \<in> held s"
  shows "\<exists>r s' xs'. do_release a s = Some (r, s') \<and> sched_inv s' xs'"
proof -
  obtain q where q: "mqs (store s) a = Some q" "queue_ok (set xs \<union> held s) (a \<in> alive s) a q"
    "sent s a = got s a @ mq_list q"
    using sched_inv_lookup [OF inv] a by blast
  have disj: "set xs \<inter> held s = {}" using inv by (simp add: sched_inv_def)
  then have nin: "a \<notin> set xs" using a by blast
  show ?thesis
  proof (cases "mq_release q = 0")
    case True
    with do_give_ok [OF inv a] q(1) show ?thesis by (auto simp: do_release_def)
  next
    case False
    with q(2) have dead: "a \<notin> alive s" and wf: "mq_wf q" by (auto simp: queue_ok_def split: if_splits)
    obtain r st q' where st: "skynet_mq_pop a (store s) = Some (r, st)" "gq_inv st xs"
      "body st = put_body (store s) a q'" "mq_wf q'" "mq_release q' = mq_release q"
      and c: "case mq_list q of
          [] \<Rightarrow> r = None \<and> mq_list q' = [] \<and> mq_in_global q' = 0
        | m # ms \<Rightarrow> r = Some m \<and> mq_list q' = ms \<and> mq_in_global q' = mq_in_global q"
      using skynet_mq_pop_ok [OF sched_inv_gq [OF inv] q(1) wf] by blast
    show ?thesis
    proof (cases "mq_list q")
      case (Cons m ms)
      with c st disj q a dead have "sched_inv (s\<lparr>store := st, got := (got s)(a := got s a @ [m])\<rparr>) xs"
        by (intro sched_inv_put [OF inv, of _ _ a q']) (auto simp: queue_ok_def)
      with Cons c st False q(1) show ?thesis by (auto simp: do_release_def)
    next
      case Nil
      from st(3) have "body st a = Some (q'\<lparr>mq_next := None\<rparr>)" by (simp add: put_body_def)
      then obtain q2 where "mqs st a = Some q2" by (auto simp: body_def)
      from mq_free_ok [OF st(2) this nin] obtain st2 where st2: "mq_free a st = Some st2"
        "gq_inv st2 xs" "body st2 = (body st)(a := None)" by blast
      have "body st2 = (body (store s))(a := None)" using st2(3) st(3) by (auto simp: put_body_def)
      from sched_inv_free [OF inv a dead st2(2) this] Nil c st(1) st2(1) False q(1)
      show ?thesis by (auto simp: do_release_def)
    qed
  qed
qed

lemma sched_step_inv:
  assumes "sched_step s s'" "sched_inv s xs"
  shows "\<exists>xs'. sched_inv s' xs'"
  using assms
proof cases
  case (create a h)
  with do_create_ok [OF assms(2), of a h] show ?thesis by auto
next
  case (give a)
  with do_give_ok [OF assms(2), of a] show ?thesis by auto
next
  case (send a m)
  with do_send_ok [OF assms(2), of a m] show ?thesis by auto
next
  case (take r)
  with do_take_ok [OF assms(2)] show ?thesis by auto
next
  case (next_msg a r)
  with do_next_ok [OF assms(2), of a] show ?thesis by auto
next
  case (delete a)
  with do_delete_ok [OF assms(2), of a] show ?thesis by auto
next
  case (release a r)
  with do_release_ok [OF assms(2), of a] show ?thesis by auto
qed

lemma sched_reachable_inv: "sched_reachable s \<Longrightarrow> \<exists>xs. sched_inv s xs"
proof (induction rule: sched_reachable.induct)
  case start
  show ?case using init_sched_inv by blast
next
  case (step s s')
  then show ?case by (blast intro: sched_step_inv)
qed

section \<open>Properties\<close>

text \<open>
  C2: no operation of the queue protocol hits a failed assert, an access out of the ring
  buffer, a read of an unwritten cell or a use of a freed queue, in any reachable state, under
  any interleaving of the threads.
\<close>

theorem sched_ops_succeed:
  assumes "sched_reachable s"
  shows "do_take s \<noteq> None \<and>
    (\<forall>a m. (a \<in> held s \<longrightarrow> do_give a s \<noteq> None \<and> do_release a s \<noteq> None) \<and>
       (a \<in> alive s \<longrightarrow> do_send a m s \<noteq> None \<and> do_delete a s \<noteq> None) \<and>
       (a \<in> held s \<and> a \<in> alive s \<longrightarrow> do_next a s \<noteq> None))"
proof -
  obtain xs where inv: "sched_inv s xs" using sched_reachable_inv [OF assms] by blast
  have "do_take s \<noteq> None" using do_take_ok [OF inv] by auto
  moreover have "do_give a s \<noteq> None \<and> do_release a s \<noteq> None" if "a \<in> held s" for a
    using do_give_ok [OF inv that] do_release_ok [OF inv that] by auto
  moreover have "do_send a m s \<noteq> None \<and> do_delete a s \<noteq> None" if "a \<in> alive s" for a m
    using do_send_ok [OF inv that, of m] do_delete_ok [OF inv that] by auto
  moreover have "do_next a s \<noteq> None" if "a \<in> held s" "a \<in> alive s" for a
    using do_next_ok [OF inv that] by auto
  ultimately show ?thesis by blast
qed

text \<open>A run that creates a service, pushes its queue and sends it a message.\<close>

lemma sched_demo:
  "\<exists>s. sched_reachable s \<and> a \<in> alive s \<and> a \<notin> held s \<and> sent s a = [m]"
proof -
  obtain s1 where s1: "do_create a h init_sched = Some s1" "sched_inv s1 []"
    using do_create_ok [OF init_sched_inv, of a h] by (auto simp: init_sched_def skynet_mq_init_def)
  then have f1: "a \<in> held s1" "a \<in> alive s1" "sent s1 a = []" by (auto simp: do_create_def)
  have r1: "sched_reachable s1"
    using sched_reachable.step [OF sched_reachable.start sched_step.create [OF _ s1(1)]]
    by (simp add: init_sched_def skynet_mq_init_def)
  obtain s2 where s2: "do_give a s1 = Some s2" "sched_inv s2 ([] @ [a])"
    using do_give_ok [OF s1(2) f1(1)] by blast
  then have f2: "a \<notin> held s2" "a \<in> alive s2" "sent s2 a = []"
    using f1 by (auto simp: do_give_def elim!: option_bind_SomeE)
  have r2: "sched_reachable s2" using r1 sched_step.give [OF f1(1) s2(1)] by (rule sched_reachable.step)
  obtain s3 where s3: "do_send a m s2 = Some s3" using do_send_ok [OF s2(2) f2(2), of m] by blast
  have r3: "sched_reachable s3" using r2 sched_step.send [OF f2(2) s3] by (rule sched_reachable.step)
  have "a \<notin> held s3" "a \<in> alive s3" "sent s3 a = [m]"
    using f2 s3 by (auto simp: do_send_def elim!: option_bind_SomeE)
  with r3 show ?thesis by blast
qed

theorem sched_ops_succeed_witness:
  "\<exists>s. sched_reachable s \<and> 7 \<in> alive s \<and> do_take s \<noteq> None \<and>
     do_send 7 (\<lparr>msg_source = 1, msg_session = 2, msg_data = NullData, msg_sz = 0\<rparr>) s \<noteq> None"
proof -
  obtain s :: sched where s: "sched_reachable s" "7 \<in> alive s"
    using sched_demo [of 7 "\<lparr>msg_source = 1, msg_session = 2, msg_data = NullData, msg_sz = 0\<rparr>"] by blast
  show ?thesis using sched_ops_succeed [OF s(1)] s by blast
qed

text \<open>
  C13: each service receives the messages pushed to its queue exactly once and in the order in
  which they were pushed: what was popped followed by what the ring buffer holds is what was
  pushed.
\<close>

theorem sched_fifo:
  assumes "sched_reachable s" "mqs (store s) a = Some q"
  shows "sent s a = got s a @ mq_list q"
proof -
  obtain xs where inv: "sched_inv s xs" using sched_reachable_inv [OF assms(1)] by blast
  have "body (store s) a = Some (q\<lparr>mq_next := None\<rparr>)" using assms(2) by (simp add: body_def)
  with inv show ?thesis unfolding sched_inv_def by fastforce
qed

theorem sched_fifo_witness:
  "\<exists>s q. sched_reachable s \<and> mqs (store s) 7 = Some q \<and>
     got s 7 @ mq_list q = [\<lparr>msg_source = 1, msg_session = 2, msg_data = NullData, msg_sz = 0\<rparr>]"
proof -
  let ?m = "\<lparr>msg_source = 1, msg_session = 2, msg_data = NullData, msg_sz = 0\<rparr>"
  obtain s :: sched where s: "sched_reachable s" "7 \<in> alive s" "sent s 7 = [?m]"
    using sched_demo [of 7 ?m] by blast
  obtain xs where "sched_inv s xs" using sched_reachable_inv [OF s(1)] by blast
  then obtain q where q: "mqs (store s) 7 = Some q" using s(2) by (blast elim: sched_inv_lookup)
  from sched_fifo [OF s(1) q] s q show ?thesis by metis
qed

text \<open>
  C1: no message is stranded and no queue is leaked or run twice: the addresses on the global
  list are distinct and disjoint from the queues owned by threads, a live service with a pending
  message is on the list or owned, and so is every queue that waits to be freed.
\<close>

theorem sched_no_stranded_queue:
  assumes "sched_reachable s"
  shows "\<exists>xs. gq_inv (store s) xs \<and> distinct xs \<and> set xs \<inter> held s = {} \<and>
     (\<forall>a q. mqs (store s) a = Some q \<and> (mq_list q \<noteq> [] \<or> a \<notin> alive s) \<longrightarrow> a \<in> set xs \<union> held s)"
proof -
  obtain xs where inv: "sched_inv s xs" using sched_reachable_inv [OF assms] by blast
  have "a \<in> set xs \<union> held s" if "mqs (store s) a = Some q" "mq_list q \<noteq> [] \<or> a \<notin> alive s" for a q
  proof -
    have "body (store s) a = Some (q\<lparr>mq_next := None\<rparr>)" using that(1) by (simp add: body_def)
    then have "queue_ok (set xs \<union> held s) (a \<in> alive s) a (q\<lparr>mq_next := None\<rparr>)"
      using inv unfolding sched_inv_def by blast
    with that(2) show ?thesis by (auto simp: queue_ok_def split: if_splits)
  qed
  moreover have "gq_inv (store s) xs" "set xs \<inter> held s = {}" using inv by (auto simp: sched_inv_def)
  ultimately show ?thesis using gq_inv_distinct by blast
qed

theorem sched_no_stranded_queue_witness:
  "\<exists>s xs q. sched_reachable s \<and> mqs (store s) 7 = Some q \<and> gq_inv (store s) xs \<and>
     (mq_list q \<noteq> [] \<longrightarrow> 7 \<in> set xs)"
proof -
  let ?m = "\<lparr>msg_source = 1, msg_session = 2, msg_data = NullData, msg_sz = 0\<rparr>"
  obtain s :: sched where s: "sched_reachable s" "7 \<in> alive s" "7 \<notin> held s"
    using sched_demo [of 7 ?m] by blast
  obtain ys where "sched_inv s ys" using sched_reachable_inv [OF s(1)] by blast
  then obtain q where q: "mqs (store s) 7 = Some q" using s(2) by (blast elim: sched_inv_lookup)
  from sched_no_stranded_queue [OF s(1)] obtain xs where "gq_inv (store s) xs"
    "\<forall>a q. mqs (store s) a = Some q \<and> (mq_list q \<noteq> [] \<or> a \<notin> alive s) \<longrightarrow> a \<in> set xs \<union> held s"
    by blast
  with s q show ?thesis by blast
qed

end
