(* ===== verification/Timer.thy ===== *)
theory Timer
  imports Interfaces Mq
begin

text \<open>
  skynet-src/skynet\_timer.c: the timing wheel. \<open>near\<close> holds the nodes that expire in the
  current block of 256 ticks, \<open>t ! i\<close> those that are further away: level \<open>i\<close> has 64 slots of
  2 ^ (8 + 6 i) ticks. A \<open>link_list\<close> is the list of its nodes in order; \<open>link\<close> appends
  at the tail and \<open>link_clear\<close> takes all nodes. The clock is a 32-bit word that wraps.
\<close>

section \<open>Data\<close>

abbreviation TIME_NEAR_SHIFT :: nat where "TIME_NEAR_SHIFT \<equiv> 8"
abbreviation TIME_LEVEL_SHIFT :: nat where "TIME_LEVEL_SHIFT \<equiv> 6"
definition TIME_NEAR :: u32 where "TIME_NEAR = push_bit TIME_NEAR_SHIFT 1"
definition TIME_LEVEL :: u32 where "TIME_LEVEL = push_bit TIME_LEVEL_SHIFT 1"
definition TIME_NEAR_MASK :: u32 where "TIME_NEAR_MASK = TIME_NEAR - 1"
definition TIME_LEVEL_MASK :: u32 where "TIME_LEVEL_MASK = TIME_LEVEL - 1"

record timer_event =
  te_handle :: u32
  te_session :: int

record timer_node =
  expire :: u32
  event :: timer_event

record timer =
  near :: "timer_node list list"
  t :: "timer_node list list list"
  time :: u32
  starttime :: u32
  current :: u64
  current_point :: u64

definition timer_create_timer :: timer where
  "timer_create_timer =
     \<lparr>near = replicate 256 [], t = replicate 4 (replicate 64 []), time = 0, starttime = 0,
      current = 0, current_point = 0\<rparr>"

section \<open>Adding a node\<close>

definition link_near :: "nat \<Rightarrow> timer_node \<Rightarrow> timer \<Rightarrow> timer" where
  "link_near j node T = T\<lparr>near := (near T)[j := near T ! j @ [node]]\<rparr>"

definition link_level :: "nat \<Rightarrow> nat \<Rightarrow> timer_node \<Rightarrow> timer \<Rightarrow> timer" where
  "link_level i j node T =
     T\<lparr>t := (t T)[i := (t T ! i)[j := t T ! i ! j @ [node]]]\<rparr>"

text \<open>The loop of \<open>add_node\<close> over the levels.\<close>

function add_level :: "u32 \<Rightarrow> u32 \<Rightarrow> nat \<Rightarrow> u32 \<Rightarrow> nat" where
  "add_level tm current_time i msk =
     (if i < 3 then
        if (tm OR (msk - 1)) = (current_time OR (msk - 1)) then i
        else add_level tm current_time (Suc i) (push_bit TIME_LEVEL_SHIFT msk)
      else i)"
  by pat_completeness auto
termination
  by (relation "measure (\<lambda>(a, b, i, m). 3 - i)") auto

definition add_node :: "timer_node \<Rightarrow> timer \<Rightarrow> timer" where
  "add_node node T =
     (let tm = expire node; current_time = time T in
      if (tm OR TIME_NEAR_MASK) = (current_time OR TIME_NEAR_MASK) then
        link_near (unat (tm AND TIME_NEAR_MASK)) node T
      else
        let i = add_level tm current_time 0 (push_bit TIME_LEVEL_SHIFT TIME_NEAR) in
        link_level i
          (unat (drop_bit (TIME_NEAR_SHIFT + i * TIME_LEVEL_SHIFT) tm AND TIME_LEVEL_MASK)) node T)"

text \<open>The \<open>int\<close> argument \<open>time\<close> is added to the clock modulo 2 ^ 32.\<close>

definition timer_add :: "timer_event \<Rightarrow> int \<Rightarrow> timer \<Rightarrow> timer" where
  "timer_add ev tm T = add_node \<lparr>expire = word_of_int tm + time T, event = ev\<rparr> T"

section \<open>One tick\<close>

definition move_list :: "nat \<Rightarrow> nat \<Rightarrow> timer \<Rightarrow> timer option" where
  "move_list level idx T = do {
     row \<leftarrow> arr_get (t T) (int level);
     cur \<leftarrow> arr_get row (int idx);
     Some (fold add_node cur (T\<lparr>t := (t T)[level := row[idx := []]]\<rparr>))
   }"

partial_function (option) shift_loop ::
    "u32 \<Rightarrow> u32 \<Rightarrow> u32 \<Rightarrow> nat \<Rightarrow> timer \<Rightarrow> timer option" where
  "shift_loop ct msk tm i T =
     (if ct AND (msk - 1) = 0 then
        let idx = tm AND TIME_LEVEL_MASK in
        if idx \<noteq> 0 then move_list i (unat idx) T
        else shift_loop ct (push_bit TIME_LEVEL_SHIFT msk) (drop_bit TIME_LEVEL_SHIFT tm) (Suc i) T
      else Some T)"

definition timer_shift :: "timer \<Rightarrow> timer option" where
  "timer_shift T =
     (let ct = time T + 1; T1 = T\<lparr>time := ct\<rparr> in
      if ct = 0 then move_list 3 0 T1
      else shift_loop ct TIME_NEAR (drop_bit TIME_NEAR_SHIFT ct) 0 T1)"

text \<open>
  The loop takes the list of the current slot and dispatches it without the lock, until the slot
  is empty. The result is the list of the nodes in the order in which they are dispatched.
\<close>

partial_function (option) timer_execute :: "timer \<Rightarrow> (timer_node list \<times> timer) option" where
  "timer_execute T =
     (let idx = unat (time T AND TIME_NEAR_MASK) in
      Option.bind (arr_get (near T) (int idx)) (\<lambda>cur.
      if cur = [] then Some ([], T)
      else Option.bind (timer_execute (T\<lparr>near := (near T)[idx := []]\<rparr>)) (\<lambda>(more, T').
             Some (cur @ more, T'))))"

definition timer_update :: "timer \<Rightarrow> (timer_node list \<times> timer) option" where
  "timer_update T = do {
     (ns1, T1) \<leftarrow> timer_execute T;
     T2 \<leftarrow> timer_shift T1;
     (ns2, T3) \<leftarrow> timer_execute T2;
     Some (ns1 @ ns2, T3)
   }"

definition PTYPE_RESPONSE :: u64 where "PTYPE_RESPONSE = 1"

definition response_message :: "int \<Rightarrow> skynet_message" where
  "response_message session =
     \<lparr>msg_source = 0, msg_session = session, msg_data = NullData,
      msg_sz = push_bit MESSAGE_TYPE_SHIFT PTYPE_RESPONSE\<rparr>"

text \<open>The messages sent for a list of expired nodes: the destination and the message.\<close>

definition dispatch_list :: "timer_node list \<Rightarrow> (u32 \<times> skynet_message) list" where
  "dispatch_list ns = map (\<lambda>n. (te_handle (event n), response_message (te_session (event n)))) ns"

text \<open>
  \<open>push\<close> is \<open>skynet_context_push\<close> on the state of the other components; it returns 0 or -1.
\<close>

definition skynet_timeout ::
    "(u32 \<Rightarrow> skynet_message \<Rightarrow> 'w \<Rightarrow> int \<times> 'w) \<Rightarrow> u32 \<Rightarrow> int \<Rightarrow> int \<Rightarrow> timer \<times> 'w \<Rightarrow> int \<times> timer \<times> 'w" where
  "skynet_timeout push handle tm session Tw =
     (let (T, w) = Tw in
      if tm \<le> 0 then
        let (r, w') = push handle (response_message session) w in
        if r \<noteq> 0 then (- 1, T, w') else (session, T, w')
      else (session, timer_add \<lparr>te_handle = handle, te_session = session\<rparr> tm T, w))"

section \<open>Wall clock\<close>

fun update_loop :: "nat \<Rightarrow> timer \<Rightarrow> (timer_node list list \<times> timer) option" where
  "update_loop 0 T = Some ([], T)"
| "update_loop (Suc n) T = do {
     (ns, T1) \<leftarrow> timer_update T;
     (nss, T2) \<leftarrow> update_loop n T1;
     Some (ns # nss, T2)
   }"

text \<open>
  \<open>cp\<close> is the result of \<open>gettime\<close>, the monotonic clock in centiseconds. The first component
  of the result says whether the error "time diff error" is logged.
\<close>

definition skynet_updatetime :: "u64 \<Rightarrow> timer \<Rightarrow> (bool \<times> timer_node list list \<times> timer) option" where
  "skynet_updatetime cp T =
     (if cp < current_point T then Some (True, [], T\<lparr>current_point := cp\<rparr>)
      else if cp \<noteq> current_point T then
        let diff = (ucast (cp - current_point T) :: u32) in
        map_option (Pair False)
          (update_loop (unat diff)
            (T\<lparr>current_point := cp, current := current T + ucast diff\<rparr>))
      else Some (False, [], T))"

text \<open>\<open>systime\<close> and \<open>gettime\<close> on the \<open>timespec\<close> (seconds, nanoseconds) that the system returns.\<close>

definition systime :: "int \<times> int \<Rightarrow> u32 \<times> u32" where
  "systime ts = (word_of_int (fst ts), word_of_int (snd ts div 10000000))"

definition gettime :: "int \<times> int \<Rightarrow> u64" where
  "gettime ts = word_of_int (fst ts) * 100 + word_of_int (snd ts div 10000000)"

definition skynet_timer_init :: "int \<times> int \<Rightarrow> int \<times> int \<Rightarrow> timer" where
  "skynet_timer_init real_ts mono_ts =
     (let (sec, cs) = systime real_ts in
      timer_create_timer\<lparr>starttime := sec, current := ucast cs, current_point := gettime mono_ts\<rparr>)"

definition skynet_starttime :: "timer \<Rightarrow> u32" where "skynet_starttime T = starttime T"
definition skynet_now :: "timer \<Rightarrow> u64" where "skynet_now T = current T"

section \<open>Blocks of ticks\<close>

text \<open>Two clock values agree above bit \<open>k\<close> exactly when they agree after setting the low bits.\<close>

lemma or_mask_eq_iff:
  fixes a b :: u32
  shows "(a OR mask k) = (b OR mask k) \<longleftrightarrow> unat a div 2 ^ k = unat b div 2 ^ k"
proof -
  have "(a OR mask k) = (b OR mask k) \<longleftrightarrow> drop_bit k a = drop_bit k b"
  proof
    assume *: "(a OR mask k) = (b OR mask k)"
    show "drop_bit k a = drop_bit k b"
    proof (rule bit_eqI)
      fix n
      have "bit (a OR mask k) (k + n) = bit (b OR mask k) (k + n)" using * by simp
      then show "bit (drop_bit k a) n = bit (drop_bit k b) n"
        by (auto simp: bit_simps)
    qed
  next
    assume *: "drop_bit k a = drop_bit k b"
    show "(a OR mask k) = (b OR mask k)"
    proof (rule bit_word_eqI)
      fix n assume n: "n < LENGTH(32)"
      show "bit (a OR mask k) n = bit (b OR mask k) n"
      proof (cases "n < k")
        case False
        then have "bit (drop_bit k a) (n - k) = bit (drop_bit k b) (n - k)" using * by simp
        with False show ?thesis by (simp add: bit_simps)
      qed (use n in \<open>auto simp: bit_simps\<close>)
    qed
  qed
  also have "\<dots> \<longleftrightarrow> unat (drop_bit k a) = unat (drop_bit k b)" by (simp add: word_unat_eq_iff)
  finally show ?thesis by (simp only: unat_drop_bit_div)
qed

definition sh :: "nat \<Rightarrow> nat" where "sh i = 8 + 6 * i"

lemma sh_Suc: "sh (Suc i) = sh i + 6" by (simp add: sh_def)

lemma masks:
  "TIME_NEAR_MASK = mask 8" "TIME_LEVEL_MASK = mask 6" "TIME_NEAR = 2 ^ sh 0"
  "push_bit 6 (2 ^ sh i :: u32) = 2 ^ sh (Suc i)" "(2 ^ k - 1 :: u32) = mask k"
  by (simp_all add: TIME_NEAR_MASK_def TIME_LEVEL_MASK_def TIME_NEAR_def TIME_LEVEL_def sh_def
      mask_eq_exp_minus_1 push_bit_eq_mult power_add)

lemma unat_slot: "unat (drop_bit k a AND mask 6 :: u32) = unat a div 2 ^ k mod 64"
  by (simp only: unat_and_mask unat_drop_bit_div) simp

lemma add_level_next:
  "i < 3 \<Longrightarrow> add_level e c i (2 ^ sh (Suc i)) =
     (if unat e div 2 ^ sh (Suc i) = unat c div 2 ^ sh (Suc i) then i
      else add_level e c (Suc i) (2 ^ sh (Suc (Suc i))))"
  by (subst add_level.simps) (simp add: masks or_mask_eq_iff)

lemma add_level_last: "add_level e c 3 m = 3"
  by (subst add_level.simps) simp

declare add_level.simps [simp del]

text \<open>The level is the least one whose block of the next level holds both the clock and the due time.\<close>

lemma add_level_ok:
  fixes e c :: u32
  defines "k \<equiv> add_level e c 0 (2 ^ sh 1)"
  assumes "unat e div 2 ^ sh 0 \<noteq> unat c div 2 ^ sh 0"
  shows "k \<le> 3" "unat e div 2 ^ sh k \<noteq> unat c div 2 ^ sh k"
    "k < 3 \<Longrightarrow> unat e div 2 ^ sh (Suc k) = unat c div 2 ^ sh (Suc k)"
proof -
  define P where "P m \<longleftrightarrow> unat e div 2 ^ sh m = unat c div 2 ^ sh m" for m
  have lev: "add_level e c i (2 ^ sh (Suc i)) = (if P (Suc i) then i else add_level e c (Suc i) (2 ^ sh (Suc (Suc i))))"
    if "i < 3" for i using add_level_next [OF that] by (simp only: P_def)
  have "add_level e c 0 (2 ^ sh 1) = (if P 1 then 0 else add_level e c 1 (2 ^ sh 2))"
    "add_level e c 1 (2 ^ sh 2) = (if P 2 then 1 else add_level e c 2 (2 ^ sh 3))"
    "add_level e c 2 (2 ^ sh 3) = (if P 3 then 2 else add_level e c 3 (2 ^ sh 4))"
    using lev [of 0] lev [of 1] lev [of 2] by (simp_all add: numeral_eq_Suc)
  then have k: "k = (if P 1 then 0 else if P 2 then 1 else if P 3 then 2 else 3)"
    unfolding k_def by (simp only: add_level_last)
  show "k \<le> 3" using k by (simp split: if_splits)
  show "unat e div 2 ^ sh k \<noteq> unat c div 2 ^ sh k"
    unfolding P_def [symmetric] using k assms(2) by (cases "P 1"; cases "P 2"; cases "P 3") (simp_all add: P_def)
  show "unat e div 2 ^ sh (Suc k) = unat c div 2 ^ sh (Suc k)" if "k < 3"
    unfolding P_def [symmetric] using k that
    by (cases "P 1"; cases "P 2"; cases "P 3") (simp_all add: numeral_eq_Suc)
qed

section \<open>Where a pending node is kept\<close>

definition near_ok :: "nat \<Rightarrow> nat \<Rightarrow> nat \<Rightarrow> bool" where
  "near_ok c e j \<longleftrightarrow> e div 2 ^ 8 = c div 2 ^ 8 \<and> c \<le> e \<and> j = e mod 2 ^ 8"

definition level_ok :: "nat \<Rightarrow> nat \<Rightarrow> nat \<Rightarrow> nat \<Rightarrow> bool" where
  "level_ok c e i j \<longleftrightarrow> e div 2 ^ sh i \<noteq> c div 2 ^ sh i \<and>
     (i < 3 \<longrightarrow> e div 2 ^ sh (Suc i) = c div 2 ^ sh (Suc i) \<and> c < e) \<and> j = e div 2 ^ sh i mod 64"

definition timer_wf :: "timer \<Rightarrow> bool" where
  "timer_wf T \<longleftrightarrow> length (near T) = 256 \<and> length (t T) = 4 \<and> (\<forall>row \<in> set (t T). length row = 64) \<and>
     (\<forall>j<256. \<forall>n \<in> set (near T ! j). near_ok (unat (time T)) (unat (expire n)) j) \<and>
     (\<forall>i<4. \<forall>j<64. \<forall>n \<in> set (t T ! i ! j). level_ok (unat (time T)) (unat (expire n)) i j)"

definition pending :: "timer \<Rightarrow> timer_node multiset" where
  "pending T = mset (concat (near T)) + mset (concat (concat (t T)))"

text \<open>A due time that \<open>add_node\<close> keeps correctly: not before the clock, or in another 2 ^ 26 block.\<close>

definition addable :: "nat \<Rightarrow> nat \<Rightarrow> bool" where
  "addable c e \<longleftrightarrow> c \<le> e \<or> e div 2 ^ sh 3 \<noteq> c div 2 ^ sh 3"

lemma mset_concat_update:
  "j < length xs \<Longrightarrow> mset (concat (xs[j := ys])) + mset (xs ! j) = mset (concat xs) + mset ys"
  by (induction xs arbitrary: j) (auto split: nat.splits simp: ac_simps)

lemma concat_concat_eq: "concat (concat xss) = concat (map concat xss)"
  by (induction xss) simp_all

lemma timer_create_wf: "timer_wf timer_create_timer" "pending timer_create_timer = {#}"
  by (simp_all add: timer_wf_def timer_create_timer_def pending_def)

lemma near_slot_lt: "unat (e AND mask 8 :: u32) < 256"
  by (simp add: unat_and_mask)

lemma add_node_near:
  assumes "timer_wf T" "unat (expire n) div 2 ^ 8 = unat (time T) div 2 ^ 8"
  shows "add_node n T = link_near (unat (expire n) mod 2 ^ 8) n T"
  using assms(2) by (simp add: add_node_def Let_def masks or_mask_eq_iff unat_and_mask)

lemma add_node_level:
  fixes n T
  defines "i \<equiv> add_level (expire n) (time T) 0 (2 ^ sh 1)"
  assumes "unat (expire n) div 2 ^ 8 \<noteq> unat (time T) div 2 ^ 8"
  shows "add_node n T = link_level i (unat (expire n) div 2 ^ sh i mod 64) n T"
proof -
  have *: "8 + i * 6 = sh i" for i by (simp add: sh_def)
  have "push_bit 6 TIME_NEAR = (2 ^ sh 1 :: u32)" by (simp add: masks(3) masks(4) [of 0])
  then show ?thesis
    using assms(2) by (simp add: add_node_def Let_def masks(1,2) or_mask_eq_iff * unat_slot i_def)
qed

lemma nth_update2: "(xss[i := (xss ! i)[j := y]]) ! i' ! j' =
    (if i' = i \<and> j' = j \<and> i < length xss \<and> j < length (xss ! i) then y else xss ! i' ! j')"
  by (cases "i < length xss"; cases "j < length (xss ! i)")
    (auto simp: nth_list_update list_update_beyond)

lemma pending_put_near:
  "j < length (near T) \<Longrightarrow>
     pending (T\<lparr>near := (near T)[j := ys]\<rparr>) + mset (near T ! j) = pending T + mset ys"
  using mset_concat_update [of j "near T" ys] by (simp add: pending_def ac_simps)

lemma pending_put_level:
  assumes "i < length (t T)" "j < length (t T ! i)"
  shows "pending (T\<lparr>t := (t T)[i := (t T ! i)[j := ys]]\<rparr>) + mset (t T ! i ! j) = pending T + mset ys"
proof -
  let ?row = "(t T ! i)[j := ys]"
  let ?C = "mset (concat (t T ! i))"
  let ?N = "mset (concat (concat ((t T)[i := ?row])))"
  have 1: "mset (concat ?row) + mset (t T ! i ! j) = ?C + mset ys"
    by (rule mset_concat_update [OF assms(2)])
  have 2: "?N + ?C = mset (concat (concat (t T))) + mset (concat ?row)"
    using mset_concat_update [of i "map concat (t T)" "concat ?row"] assms(1)
    by (simp add: map_update [symmetric] concat_concat_eq)
  have "(?N + mset (t T ! i ! j)) + ?C = (?N + ?C) + mset (t T ! i ! j)" by (simp add: ac_simps)
  also have "\<dots> = (mset (concat (concat (t T))) + mset ys) + ?C"
    unfolding 2 using 1 by (simp add: ac_simps)
  finally have "?N + mset (t T ! i ! j) = mset (concat (concat (t T))) + mset ys" by simp
  then show ?thesis by (simp add: pending_def ac_simps)
qed

lemma link_near_ok:
  assumes "timer_wf T" "near_ok (unat (time T)) (unat (expire n)) j"
  shows "timer_wf (link_near j n T)" "pending (link_near j n T) = add_mset n (pending T)"
proof -
  have j: "j < 256" using assms(2) by (simp add: near_ok_def)
  with assms show "timer_wf (link_near j n T)"
    by (auto simp: timer_wf_def link_near_def nth_list_update)
  have "j < length (near T)" using j assms(1) by (simp add: timer_wf_def)
  from pending_put_near [OF this, of "near T ! j @ [n]"]
  show "pending (link_near j n T) = add_mset n (pending T)"
    by (simp add: link_near_def)
qed

lemma link_level_ok:
  assumes "timer_wf T" "level_ok (unat (time T)) (unat (expire n)) i j" "i < 4"
  shows "timer_wf (link_level i j n T)" "pending (link_level i j n T) = add_mset n (pending T)"
proof -
  have j: "j < 64" using assms(2) by (simp add: level_ok_def)
  have len: "length (t T) = 4" "length (t T ! i) = 64" using assms(1,3) by (auto simp: timer_wf_def)
  have rows: "\<forall>row \<in> set (t (link_level i j n T)). length row = 64"
    using assms(1) len by (auto simp: timer_wf_def link_level_def dest!: set_update_subset_insert [THEN subsetD])
  with assms j len show "timer_wf (link_level i j n T)"
    unfolding timer_wf_def by (simp add: link_level_def nth_update2) 
  from pending_put_level [of i T j "t T ! i ! j @ [n]"] assms(3) len j
  show "pending (link_level i j n T) = add_mset n (pending T)"
    by (simp add: link_level_def)
qed

lemma link_frame [simp]:
  "time (link_near j n T) = time T" "time (link_level i j n T) = time T"
  by (simp_all add: link_near_def link_level_def)

lemma add_node_ok:
  assumes wf: "timer_wf T" and add: "addable (unat (time T)) (unat (expire n))"
  shows "timer_wf (add_node n T) \<and> pending (add_node n T) = add_mset n (pending T) \<and>
     time (add_node n T) = time T"
proof (cases "unat (expire n) div 2 ^ 8 = unat (time T) div 2 ^ 8")
  case True
  let ?c = "unat (time T)" and ?e = "unat (expire n)"
  have "?e div 2 ^ sh 3 = ?e div 2 ^ 8 div 2 ^ 18" for e by (simp add: sh_def div_mult2_eq [symmetric])
  moreover have "?c div 2 ^ sh 3 = ?c div 2 ^ 8 div 2 ^ 18" by (simp add: sh_def div_mult2_eq [symmetric])
  ultimately have "near_ok ?c ?e (?e mod 2 ^ 8)"
    using True add by (simp add: near_ok_def addable_def)
  from link_near_ok [OF wf this] show ?thesis by (simp add: add_node_near [OF wf True])
next
  case False
  let ?c = "unat (time T)" and ?e = "unat (expire n)"
  define i where "i = add_level (expire n) (time T) 0 (2 ^ sh 1)"
  have "?e div 2 ^ sh 0 \<noteq> ?c div 2 ^ sh 0" using False by (simp add: sh_def)
  note l = add_level_ok [OF this, folded i_def]
  have "?c < ?e" if "i < 3"
  proof -
    have "?e div 2 ^ sh 3 = ?e div 2 ^ sh (Suc i) div 2 ^ (sh 3 - sh (Suc i))"
      "?c div 2 ^ sh 3 = ?c div 2 ^ sh (Suc i) div 2 ^ (sh 3 - sh (Suc i))"
      using that by (simp_all add: div_mult2_eq [symmetric] power_add [symmetric] sh_def)
    then have "?c \<le> ?e" using l(3) [OF that] add by (simp add: addable_def)
    with l(2) show ?thesis by (cases "?c = ?e") auto
  qed
  with l have ok: "level_ok ?c ?e i (?e div 2 ^ sh i mod 64)" by (simp add: level_ok_def)
  have "add_node n T = link_level i (?e div 2 ^ sh i mod 64) n T"
    unfolding i_def by (rule add_node_level [OF False])
  with link_level_ok [OF wf ok] l(1) show ?thesis by simp
qed

lemma fold_add_node_ok:
  "timer_wf T \<Longrightarrow> \<forall>n \<in> set ns. addable (unat (time T)) (unat (expire n)) \<Longrightarrow>
     timer_wf (fold add_node ns T) \<and> pending (fold add_node ns T) = pending T + mset ns \<and>
     time (fold add_node ns T) = time T"
proof (induction ns arbitrary: T)
  case Nil
  then show ?case by simp
next
  case (Cons n ns)
  with add_node_ok [of T n] show ?case by auto
qed

section \<open>Expired nodes\<close>

lemma in_pending_iff:
  assumes "timer_wf T"
  shows "n \<in># pending T \<longleftrightarrow> (\<exists>j<256. n \<in> set (near T ! j)) \<or> (\<exists>i<4. \<exists>j<64. n \<in> set (t T ! i ! j))"
proof -
  have len: "length (near T) = 256" "length (t T) = 4" "\<And>i. i < 4 \<Longrightarrow> length (t T ! i) = 64"
    using assms by (auto simp: timer_wf_def)
  have "n \<in> set (concat (near T)) \<longleftrightarrow> (\<exists>j<256. n \<in> set (near T ! j))"
  proof -
    have "set (near T) = {near T ! j |j. j < 256}" using len(1) by (simp add: set_conv_nth)
    then show ?thesis by (simp only: set_concat) auto
  qed
  moreover have "n \<in> set (concat (concat (t T))) \<longleftrightarrow> (\<exists>i<4. \<exists>j<64. n \<in> set (t T ! i ! j))"
  proof
    assume "n \<in> set (concat (concat (t T)))"
    then obtain row cell where rc: "row \<in> set (t T)" "cell \<in> set row" "n \<in> set cell" by auto
    then obtain i where "i < 4" "row = t T ! i" using len(2) by (metis in_set_conv_nth)
    moreover obtain j where "j < length row" "cell = row ! j" using rc(2) by (metis in_set_conv_nth)
    ultimately show "\<exists>i<4. \<exists>j<64. n \<in> set (t T ! i ! j)" using rc(3) len(3) by auto
  next
    assume "\<exists>i<4. \<exists>j<64. n \<in> set (t T ! i ! j)"
    then obtain i j where ij: "i < 4" "j < 64" "n \<in> set (t T ! i ! j)" by auto
    have "t T ! i \<in> set (t T)" "t T ! i ! j \<in> set (t T ! i)" using ij len(2) len(3) [OF ij(1)] by auto
    with ij(3) show "n \<in> set (concat (concat (t T)))" by auto
  qed
  ultimately show ?thesis by (simp add: pending_def)
qed

lemma timer_execute_eq:
  assumes "length (near T) = 256"
  defines "j \<equiv> unat (time T) mod 2 ^ 8"
  shows "timer_execute T = Some (near T ! j, T\<lparr>near := (near T)[j := []]\<rparr>)"
proof -
  have j: "unat (time T AND TIME_NEAR_MASK) = j" by (simp add: masks unat_and_mask j_def)
  have lt: "j < 256" by (simp add: j_def)
  have empty: "timer_execute S = Some ([], S)" if "near S ! j = []" "time S = time T" "length (near S) = 256" for S
    using that lt j by (subst timer_execute.simps) (simp add: Let_def)
  show ?thesis
  proof (cases "near T ! j = []")
    case True
    then have "(near T)[j := []] = near T" by (metis list_update_id)
    with empty [OF True] assms(1) True show ?thesis by simp
  next
    case False
    with assms(1) lt j show ?thesis
      by (subst timer_execute.simps) (simp add: Let_def empty)
  qed
qed

lemma near_due:
  assumes "timer_wf T" "n \<in> set (near T ! j)" "j < 256"
  shows "expire n = time T \<longleftrightarrow> j = unat (time T) mod 2 ^ 8"
proof -
  have "near_ok (unat (time T)) (unat (expire n)) j" using assms by (auto simp: timer_wf_def)
  then have "unat (expire n) div 2 ^ 8 = unat (time T) div 2 ^ 8" "j = unat (expire n) mod 2 ^ 8"
    by (auto simp: near_ok_def)
  then show ?thesis by (metis div_mult_mod_eq word_unat_eq_iff)
qed

lemma level_not_due:
  assumes "timer_wf T" "n \<in> set (t T ! i ! j)" "i < 4" "j < 64"
  shows "expire n \<noteq> time T"
proof -
  have "level_ok (unat (time T)) (unat (expire n)) i j" using assms by (auto simp: timer_wf_def)
  then show ?thesis by (auto simp: level_ok_def)
qed

lemma filter_mset_all: "(\<And>x. x \<in># M \<Longrightarrow> P x) \<Longrightarrow> filter_mset P M = M"
  by (induction M) auto

lemma filter_mset_none: "(\<And>x. x \<in># M \<Longrightarrow> \<not> P x) \<Longrightarrow> filter_mset P M = {#}"
  by (induction M) auto

text \<open>\<open>timer_execute\<close> dispatches exactly the nodes that are due now.\<close>

lemma timer_execute_ok:
  assumes wf: "timer_wf T"
  shows "\<exists>ns T'. timer_execute T = Some (ns, T') \<and> timer_wf T' \<and> time T' = time T \<and>
     mset ns = filter_mset (\<lambda>n. expire n = time T) (pending T) \<and>
     pending T' = filter_mset (\<lambda>n. expire n \<noteq> time T) (pending T)"
proof -
  define j where "j = unat (time T) mod 2 ^ 8"
  define T' where "T' = T\<lparr>near := (near T)[j := []]\<rparr>"
  have j: "j < 256" by (simp add: j_def)
  have len: "length (near T) = 256" using wf by (simp add: timer_wf_def)
  have eq: "timer_execute T = Some (near T ! j, T')"
    using timer_execute_eq [OF len] by (simp add: j_def T'_def)
  have wf': "timer_wf T'"
    using wf j by (auto simp: timer_wf_def T'_def nth_list_update)
  have all: "expire n = time T" if "n \<in># mset (near T ! j)" for n
    using near_due [OF wf, of n j] that j by (simp add: j_def)
  have none: "expire n \<noteq> time T" if "n \<in># pending T'" for n
  proof -
    from that consider j' where "j' < 256" "n \<in> set (near T' ! j')"
      | i' j' where "i' < 4" "j' < 64" "n \<in> set (t T' ! i' ! j')"
      using in_pending_iff [OF wf'] by blast
    then show ?thesis
    proof cases
      case 1
      then have "n \<in> set (near T ! j')" "j' \<noteq> j"
        using len j by (auto simp: T'_def nth_list_update split: if_splits)
      then show ?thesis using near_due [OF wf _ 1(1)] by (simp add: j_def)
    next
      case 2
      then show ?thesis using level_not_due [OF wf, of n i' j'] by (simp add: T'_def)
    qed
  qed
  have split: "pending T = mset (near T ! j) + pending T'"
    using pending_put_near [of j T "[]"] len j by (simp add: T'_def ac_simps)
  have f1: "filter_mset (\<lambda>n. expire n = time T) (mset (near T ! j)) = mset (near T ! j)"
    using all by (intro filter_mset_all) blast
  have f2: "filter_mset (\<lambda>n. expire n = time T) (pending T') = {#}"
    using none by (intro filter_mset_none) blast
  have f3: "filter_mset (\<lambda>n. expire n \<noteq> time T) (mset (near T ! j)) = {#}"
    using all by (intro filter_mset_none) blast
  have f4: "filter_mset (\<lambda>n. expire n \<noteq> time T) (pending T') = pending T'"
    using none by (intro filter_mset_all) blast
  have "time T' = time T" by (simp add: T'_def)
  then show ?thesis using eq wf' split f1 f2 f3 f4 by simp
qed

section \<open>The clock advances\<close>

lemma near_advance:
  assumes "near_ok c e j" "e \<noteq> c"
  shows "near_ok (Suc c) e j"
proof -
  have "Suc c \<le> e" "e div 2 ^ 8 = c div 2 ^ 8" using assms by (auto simp: near_ok_def)
  moreover have "c div 2 ^ 8 \<le> Suc c div 2 ^ 8" "Suc c div 2 ^ 8 \<le> e div 2 ^ 8"
    using \<open>Suc c \<le> e\<close> by (intro div_le_mono; simp)+
  ultimately show ?thesis using assms by (simp add: near_ok_def)
qed

text \<open>
  A node of level \<open>i\<close> stays where it is unless the clock enters its slot, which is then the slot
  that \<open>timer_shift\<close> moves.
\<close>

lemma level_advance:
  assumes ok: "level_ok c e i j" and i: "i \<le> 3" and c: "Suc c < 2 ^ 32"
  shows "level_ok (Suc c) e i j \<or>
     (Suc c mod 2 ^ sh i = 0 \<and> Suc c mod 2 ^ sh (Suc i) \<noteq> 0 \<and> j = Suc c div 2 ^ sh i mod 64 \<and> Suc c \<le> e)"
proof (cases "e div 2 ^ sh i = Suc c div 2 ^ sh i")
  case True
  let ?b = "2 ^ sh i" and ?B = "2 ^ sh (Suc i)"
  have "Suc c div ?b \<noteq> c div ?b" using ok True by (auto simp: level_ok_def)
  then have m: "Suc c mod ?b = 0" by (auto simp: div_Suc split: if_splits)
  have "Suc c = Suc c div ?b * ?b" using m by (metis add.right_neutral div_mult_mod_eq)
  also have "\<dots> \<le> e" using True by (metis div_times_less_eq_dividend)
  finally have le: "Suc c \<le> e" .
  have "Suc c mod ?B \<noteq> 0"
  proof (cases "i < 3")
    case True
    then have "e div ?B = c div ?B" using ok by (simp add: level_ok_def)
    moreover have "c div ?B \<le> Suc c div ?B" "Suc c div ?B \<le> e div ?B"
      using le by (intro div_le_mono; simp)+
    ultimately have "Suc c div ?B = c div ?B" by linarith
    then show ?thesis by (auto simp: div_Suc split: if_splits)
  next
    case False
    then have "?B = (2::nat) ^ 32" using i by (simp add: sh_def)
    with c show ?thesis by simp
  qed
  with m le ok True show ?thesis by (simp add: level_ok_def)
next
  case False
  have "e div 2 ^ sh (Suc i) = Suc c div 2 ^ sh (Suc i) \<and> Suc c < e" if "i < 3"
  proof -
    let ?B = "2 ^ sh (Suc i)"
    have e: "e div ?B = c div ?B" "Suc c \<le> e" using ok that by (auto simp: level_ok_def)
    have "c div ?B \<le> Suc c div ?B" "Suc c div ?B \<le> e div ?B"
      using e(2) by (intro div_le_mono; simp)+
    then have "e div ?B = Suc c div ?B" using e(1) by linarith
    moreover have "Suc c \<noteq> e" using False by auto
    ultimately show ?thesis using e(2) by simp
  qed
  with False ok show ?thesis by (simp add: level_ok_def)
qed

lemma level_addable: "level_ok c e i j \<Longrightarrow> i \<le> 3 \<Longrightarrow> addable c e"
  by (cases "i < 3") (auto simp: level_ok_def addable_def)

lemma sh_dvd: "i \<le> k \<Longrightarrow> (2::nat) ^ sh i dvd 2 ^ sh k"
  by (rule le_imp_power_dvd) (simp add: sh_def)

lemma shift_slots_unique:
  assumes "x mod 2 ^ sh i = 0" "x mod 2 ^ sh (Suc i) \<noteq> 0"
    and "x mod 2 ^ sh k = 0" "x mod 2 ^ sh (Suc k) \<noteq> (0::nat)"
  shows "i = k"
proof -
  have up: "x mod 2 ^ sh a = 0" if "x mod 2 ^ sh b = 0" "a \<le> b" for a b
  proof -
    have "(2::nat) ^ sh a dvd 2 ^ sh b" using that(2) by (rule sh_dvd)
    with that(1) show ?thesis by (metis dvd_trans mod_0_imp_dvd mod_eq_0_iff_dvd)
  qed
  show ?thesis using assms up [of k "Suc i"] up [of i "Suc k"]
    by (metis Suc_leI linorder_neqE_nat up)
qed

lemma shift_loop_step:
  assumes "i \<le> 3"
  shows "shift_loop ct (2 ^ sh i) (drop_bit (sh i) ct) i T =
     (if unat ct mod 2 ^ sh i = 0 then
        if unat ct div 2 ^ sh i mod 64 \<noteq> 0 then move_list i (unat ct div 2 ^ sh i mod 64) T
        else shift_loop ct (2 ^ sh (Suc i)) (drop_bit (sh (Suc i)) ct) (Suc i) T
      else Some T)"
proof -
  have m: "ct AND mask k = 0 \<longleftrightarrow> unat ct mod 2 ^ k = 0" for k
    by (metis unat_and_mask unat_0 word_unat_eq_iff)
  have s: "drop_bit (sh i) ct AND mask 6 = 0 \<longleftrightarrow> unat ct div 2 ^ sh i mod 64 = 0"
    by (metis unat_slot unat_0 word_unat_eq_iff)
  have d: "drop_bit TIME_LEVEL_SHIFT (drop_bit (sh i) ct) = drop_bit (sh (Suc i)) ct"
    by (simp add: sh_Suc add.commute)
  have "shift_loop ct (2 ^ sh i) (drop_bit (sh i) ct) i T =
     (if ct AND (2 ^ sh i - 1) = 0 then
        let idx = drop_bit (sh i) ct AND TIME_LEVEL_MASK in
        if idx \<noteq> 0 then move_list i (unat idx) T
        else shift_loop ct (push_bit TIME_LEVEL_SHIFT (2 ^ sh i))
               (drop_bit TIME_LEVEL_SHIFT (drop_bit (sh i) ct)) (Suc i) T
      else Some T)" by (rule shift_loop.simps)
  then show ?thesis unfolding Let_def masks(2) masks(4) masks(5) d m s unat_slot .
qed

lemma slot_Suc: "x mod 2 ^ sh i = 0 \<Longrightarrow> (x div 2 ^ sh i mod 64 = 0 \<longleftrightarrow> x mod 2 ^ sh (Suc i) = (0::nat))"
proof -
  assume "x mod 2 ^ sh i = 0"
  then obtain k where k: "x = 2 ^ sh i * k" by auto
  have B: "(2::nat) ^ sh (Suc i) = 2 ^ sh i * 64" by (simp add: sh_Suc power_add)
  have "x mod 2 ^ sh (Suc i) = 2 ^ sh i * (k mod 64)" unfolding k B by (rule mult_mod_right [symmetric])
  moreover have "x div 2 ^ sh i = k" by (simp add: k)
  ultimately show ?thesis by simp
qed

text \<open>The slot that a tick to \<open>ct\<close> moves, if it moves one: always at level 3 or below.\<close>

lemma shift_loop_ok:
  assumes "ct \<noteq> 0" "i \<le> 3" "i = 0 \<or> unat ct mod 2 ^ sh i = 0"
  shows "(shift_loop ct (2 ^ sh i) (drop_bit (sh i) ct) i T = Some T \<and>
           (\<forall>k. i \<le> k \<longrightarrow> unat ct mod 2 ^ sh k \<noteq> 0)) \<or>
     (\<exists>k. i \<le> k \<and> k \<le> 3 \<and> unat ct mod 2 ^ sh k = 0 \<and> unat ct mod 2 ^ sh (Suc k) \<noteq> 0 \<and>
        shift_loop ct (2 ^ sh i) (drop_bit (sh i) ct) i T = move_list k (unat ct div 2 ^ sh k mod 64) T)"
  using assms(2,3)
proof (induction "3 - i" arbitrary: i rule: less_induct)
  case less
  note step = shift_loop_step [OF less.prems(1), of ct T]
  show ?case
  proof (cases "unat ct mod 2 ^ sh i = 0")
    case False
    then have "i = 0" using less.prems by simp
    have "unat ct mod 2 ^ sh k \<noteq> 0" for k
    proof
      assume "unat ct mod 2 ^ sh k = 0"
      moreover have "(2::nat) ^ sh i dvd 2 ^ sh k" using \<open>i = 0\<close> by (simp add: sh_dvd)
      ultimately show False using False by (metis dvd_trans mod_0_imp_dvd mod_eq_0_iff_dvd)
    qed
    with False step show ?thesis by simp
  next
    case True
    show ?thesis
    proof (cases "unat ct mod 2 ^ sh (Suc i) = 0")
      case False
      then have "unat ct div 2 ^ sh i mod 64 \<noteq> 0" using slot_Suc [OF True] by simp
      with True False step less.prems show ?thesis by (intro disjI2 exI [of _ i]) simp
    next
      case z: True
      have "i \<noteq> 3"
      proof
        assume "i = 3"
        then have "unat ct mod 2 ^ 32 = 0" using z by (simp add: sh_def)
        moreover have "unat ct < 2 ^ 32" using unat_u32_less [of ct] by simp
        ultimately show False using assms(1) by (simp add: unat_eq_zero)
      qed
      then have "3 - Suc i < 3 - i" "Suc i \<le> 3" using less.prems by auto
      moreover have "unat ct div 2 ^ sh i mod 64 = 0" using z slot_Suc [OF True] by simp
      then have "shift_loop ct (2 ^ sh i) (drop_bit (sh i) ct) i T
          = shift_loop ct (2 ^ sh (Suc i)) (drop_bit (sh (Suc i)) ct) (Suc i) T"
        using True step by simp
      ultimately show ?thesis using less.hyps [of "Suc i"] z True
        by (auto dest: Suc_leD)
    qed
  qed
qed

section \<open>One tick\<close>

definition clear_slot :: "nat \<Rightarrow> nat \<Rightarrow> timer \<Rightarrow> timer" where
  "clear_slot i j T = T\<lparr>t := (t T)[i := (t T ! i)[j := []]]\<rparr>"

text \<open>
  Moving a slot gives a well-formed wheel when the wheel without the slot is well-formed and the
  nodes of the slot can be added.
\<close>

lemma move_list_ok:
  assumes len: "length (t T) = 4" "length (t T ! i) = 64" and ij: "i < 4" "j < 64"
    and wf: "timer_wf (clear_slot i j T)"
    and add: "\<forall>n \<in> set (t T ! i ! j). addable (unat (time T)) (unat (expire n))"
  shows "\<exists>T'. move_list i j T = Some T' \<and> timer_wf T' \<and> pending T' = pending T \<and> time T' = time T"
proof -
  let ?T' = "fold add_node (t T ! i ! j) (clear_slot i j T)"
  have "move_list i j T = Some ?T'" using len ij by (simp add: move_list_def clear_slot_def)
  moreover have "time (clear_slot i j T) = time T" by (simp add: clear_slot_def)
  moreover have "pending (clear_slot i j T) + mset (t T ! i ! j) = pending T"
    using pending_put_level [of i T j "[]"] len ij by (simp add: clear_slot_def)
  ultimately show ?thesis using fold_add_node_ok [OF wf, of "t T ! i ! j"] add by auto
qed

lemma shift_wf:
  assumes wf: "timer_wf T" and late: "\<forall>n \<in># pending T. expire n \<noteq> time T"
    and c: "Suc (unat (time T)) < 2 ^ 32"
  defines "T1 \<equiv> T\<lparr>time := time T + 1\<rparr>" and "c' \<equiv> Suc (unat (time T))"
  shows "(\<forall>k. c' mod 2 ^ sh k \<noteq> 0) \<Longrightarrow> timer_wf T1"
    and "k \<le> 3 \<Longrightarrow> c' mod 2 ^ sh k = 0 \<Longrightarrow> c' mod 2 ^ sh (Suc k) \<noteq> 0 \<Longrightarrow>
      timer_wf (clear_slot k (c' div 2 ^ sh k mod 64) T1) \<and>
      (\<forall>n \<in> set (t T1 ! k ! (c' div 2 ^ sh k mod 64)). addable (unat (time T1)) (unat (expire n)))"
proof -
  have ct: "unat (time T + 1) = c'"
    using c by (simp add: c'_def unat_word_ariths(1) take_bit_nat_eq_self)
  have near: "near_ok c' (unat (expire n)) j" if "j < 256" "n \<in> set (near T ! j)" for j n
  proof -
    have "near_ok (unat (time T)) (unat (expire n)) j" using wf that by (auto simp: timer_wf_def)
    moreover have "expire n \<noteq> time T" using late in_pending_iff [OF wf] that by blast
    ultimately show ?thesis unfolding c'_def by (intro near_advance) (auto simp: word_unat_eq_iff)
  qed
  have level: "level_ok c' (unat (expire n)) i j \<or>
      (c' mod 2 ^ sh i = 0 \<and> c' mod 2 ^ sh (Suc i) \<noteq> 0 \<and> j = c' div 2 ^ sh i mod 64 \<and> c' \<le> unat (expire n))"
    if "i < 4" "j < 64" "n \<in> set (t T ! i ! j)" for i j n
  proof -
    have "level_ok (unat (time T)) (unat (expire n)) i j" using wf that by (auto simp: timer_wf_def)
    from level_advance [OF this _ c] that show ?thesis by (simp add: c'_def)
  qed
  have len: "length (near T) = 256" "length (t T) = 4" "\<forall>row \<in> set (t T). length row = 64"
    using wf by (auto simp: timer_wf_def)
  show "timer_wf T1" if nz: "\<forall>k. c' mod 2 ^ sh k \<noteq> 0"
  proof -
    have "level_ok c' (unat (expire n)) i j" if "i < 4" "j < 64" "n \<in> set (t T ! i ! j)" for i j n
      using level [OF that] spec [OF nz, of i] by simp
    with near len ct show ?thesis by (simp add: timer_wf_def T1_def)
  qed
  assume k: "k \<le> 3" "c' mod 2 ^ sh k = 0" "c' mod 2 ^ sh (Suc k) \<noteq> 0"
  let ?j = "c' div 2 ^ sh k mod 64"
  have j: "?j < 64" by simp
  have row: "length (t T ! k) = 64" using len k(1) by simp
  have "level_ok c' (unat (expire n)) i j"
    if "i < 4" "j < 64" "n \<in> set (t (clear_slot k ?j T1) ! i ! j)" for i j n
  proof -
    have in_T: "n \<in> set (t T ! i ! j)" "\<not> (i = k \<and> j = ?j)"
      using that(3) k(1) len row j by (auto simp: clear_slot_def T1_def nth_update2 split: if_splits)
    show ?thesis using level [OF that(1,2) in_T(1)]
    proof (elim disjE conjE)
      assume a: "c' mod 2 ^ sh i = 0" "c' mod 2 ^ sh (Suc i) \<noteq> 0" "j = c' div 2 ^ sh i mod 64"
      have "i = k" by (rule shift_slots_unique [OF a(1,2) k(2,3)])
      with in_T(2) a(3) have False by (simp only: simp_thms)
      then show ?thesis ..
    qed
  qed
  moreover have "\<forall>r \<in> set (t (clear_slot k ?j T1)). length r = 64"
    using len row by (auto simp: clear_slot_def T1_def dest!: set_update_subset_insert [THEN subsetD])
  ultimately have "timer_wf (clear_slot k ?j T1)"
    using near len ct by (simp add: timer_wf_def clear_slot_def T1_def)
  moreover have "addable c' (unat (expire n))" if "n \<in> set (t T ! k ! ?j)" for n
    using level [OF _ j that] k(1) level_addable [of c' "unat (expire n)" k ?j] by (auto simp: addable_def)
  ultimately show "timer_wf (clear_slot k ?j T1) \<and>
      (\<forall>n \<in> set (t T1 ! k ! ?j). addable (unat (time T1)) (unat (expire n)))"
    using ct by (simp add: T1_def)
qed

text \<open>The tick at which the clock wraps to 0: only level 3 holds nodes, and slot 0 of it is moved.\<close>

lemma shift_wrap_wf:
  assumes wf: "timer_wf T" and late: "\<forall>n \<in># pending T. expire n \<noteq> time T"
    and c: "time T + 1 = 0"
  defines "T1 \<equiv> T\<lparr>time := time T + 1\<rparr>"
  shows "timer_wf (clear_slot 3 0 T1)"
proof -
  have "time T = - 1" using c by (simp add: eq_neg_iff_add_eq_0)
  then have cm: "unat (time T) = 2 ^ 32 - 1" by (simp add: unsigned_minus_1_eq_mask mask_eq_exp_minus_1)
  have top: "unat (e :: u32) \<le> 2 ^ 32 - 1" for e using unat_u32_less [of e] by simp
  have near: "near T ! j = []" if "j < 256" for j
  proof (rule ccontr)
    assume "near T ! j \<noteq> []"
    then obtain n where n: "n \<in> set (near T ! j)" by (meson list.set_sel(1))
    then have "unat (time T) \<le> unat (expire n)" using wf that by (auto simp: timer_wf_def near_ok_def)
    then have "expire n = time T" using cm top [of "expire n"] by (simp add: word_unat_eq_iff)
    moreover have "expire n \<noteq> time T" using late in_pending_iff [OF wf] that n by blast
    ultimately show False by simp
  qed
  have lvl: "level_ok (unat (time T)) (unat (expire n)) i j" if "i < 4" "j < 64" "n \<in> set (t T ! i ! j)" for i j n
    using wf that by (auto simp: timer_wf_def)
  have three: "i = 3" if "i < 4" "j < 64" "n \<in> set (t T ! i ! j)" for i j n
    using lvl [OF that] that(1) cm top [of "expire n"] by (auto simp: level_ok_def)
  have len: "length (near T) = 256" "length (t T) = 4" "\<forall>row \<in> set (t T). length row = 64"
    "length (t T ! 3) = 64"
    using wf by (auto simp: timer_wf_def)
  have "level_ok 0 (unat (expire n)) i j"
    if "i < 4" "j < 64" "n \<in> set (t (clear_slot 3 0 T1) ! i ! j)" for i j n
  proof -
    have in_T: "n \<in> set (t T ! i ! j)" "\<not> (i = 3 \<and> j = 0)"
      using that(3) len by (auto simp: clear_slot_def T1_def nth_update2 split: if_splits)
    have i: "i = 3" by (rule three [OF that(1,2) in_T(1)])
    with lvl [OF that(1,2) in_T(1)] have "j = unat (expire n) div 2 ^ sh 3 mod 64"
      by (simp add: level_ok_def)
    with in_T(2) i show ?thesis by (auto simp: level_ok_def)
  qed
  moreover have "\<forall>r \<in> set (t (clear_slot 3 0 T1)). length r = 64"
    using len by (auto simp: clear_slot_def T1_def dest!: set_update_subset_insert [THEN subsetD])
  ultimately show ?thesis using near len c
    by (simp add: timer_wf_def clear_slot_def T1_def)
qed

lemma timer_shift_ok:
  assumes wf: "timer_wf T" and late: "\<forall>n \<in># pending T. expire n \<noteq> time T"
  shows "\<exists>T'. timer_shift T = Some T' \<and> timer_wf T' \<and> pending T' = pending T \<and> time T' = time T + 1"
proof -
  define T1 where "T1 = T\<lparr>time := time T + 1\<rparr>"
  have T1: "pending T1 = pending T" "time T1 = time T + 1" "t T1 = t T" by (simp_all add: T1_def pending_def)
  have len: "length (t T1) = 4" "\<And>i. i < 4 \<Longrightarrow> length (t T1 ! i) = 64"
    using wf by (auto simp: timer_wf_def T1_def)
  show ?thesis
  proof (cases "time T + 1 = 0")
    case True
    have "timer_wf (clear_slot 3 0 T1)" unfolding T1_def by (rule shift_wrap_wf [OF wf late True])
    moreover have "timer_shift T = move_list 3 0 T1"
      using True by (simp add: timer_shift_def T1_def)
    moreover have "unat (time T1) = 0" using True T1(2) by simp
    ultimately show ?thesis using move_list_ok [OF len(1) len(2), of 3 0] T1(1,2)
      by (auto simp: addable_def)
  next
    case False
    have ct: "unat (time T + 1) = Suc (unat (time T))"
      using False unatSuc [of "time T"] by (simp add: add.commute)
    have c: "Suc (unat (time T)) < 2 ^ 32" using unat_u32_less [of "time T + 1"] ct by simp
    let ?ct = "time T + 1"
    have eq: "timer_shift T = shift_loop ?ct (2 ^ sh 0) (drop_bit (sh 0) ?ct) 0 T1"
    proof -
      have s0: "drop_bit TIME_NEAR_SHIFT ?ct = drop_bit (sh 0) ?ct" by (simp add: sh_def)
      show ?thesis using False unfolding timer_shift_def Let_def T1_def [symmetric] masks(3) s0 by simp
    qed
    have le: "(0::nat) \<le> 3" by simp
    show ?thesis using shift_loop_ok [OF False le disjI1 [OF refl], of T1] unfolding eq [symmetric]
    proof (elim disjE exE conjE)
      assume 1: "timer_shift T = Some T1" "\<forall>k\<ge>0. unat ?ct mod 2 ^ sh k \<noteq> 0"
      have "timer_wf T1" by (rule shift_wf(1) [OF wf late c, folded T1_def ct]) (use 1(2) in blast)
      with 1(1) T1(1,2) show ?thesis by blast
    next
      fix k assume k: "k \<le> 3" "unat ?ct mod 2 ^ sh k = 0" "unat ?ct mod 2 ^ sh (Suc k) \<noteq> 0"
        "timer_shift T = move_list k (unat ?ct div 2 ^ sh k mod 64) T1"
      note w = shift_wf(2) [OF wf late c k(1), folded T1_def ct, OF k(2,3)]
      have k4: "k < 4" using k(1) by simp
      have j: "unat ?ct div 2 ^ sh k mod 64 < 64" by (rule mod_less_divisor) simp
      from move_list_ok [OF len(1) len(2) [OF k4] k4 j conjunct1 [OF w] conjunct2 [OF w]]
      obtain T' where "move_list k (unat ?ct div 2 ^ sh k mod 64) T1 = Some T'" "timer_wf T'"
        "pending T' = pending T1" "time T' = time T1"
        by blast
      then show ?thesis unfolding k(4) T1(1,2) by blast
    qed
  qed
qed

lemma timer_update_ok:
  assumes wf: "timer_wf T"
  shows "\<exists>ns T'. timer_update T = Some (ns, T') \<and> timer_wf T' \<and> time T' = time T + 1 \<and>
     mset ns = filter_mset (\<lambda>n. expire n = time T \<or> expire n = time T + 1) (pending T) \<and>
     pending T' = filter_mset (\<lambda>n. \<not> (expire n = time T \<or> expire n = time T + 1)) (pending T)"
proof -
  obtain ns1 T1 where 1: "timer_execute T = Some (ns1, T1)" "timer_wf T1" "time T1 = time T"
    "mset ns1 = filter_mset (\<lambda>n. expire n = time T) (pending T)"
    "pending T1 = filter_mset (\<lambda>n. expire n \<noteq> time T) (pending T)"
    using timer_execute_ok [OF wf] by blast
  have "\<forall>n \<in># pending T1. expire n \<noteq> time T1" using 1(3,5) by simp
  from timer_shift_ok [OF 1(2) this] obtain T2 where 2: "timer_shift T1 = Some T2" "timer_wf T2"
    "pending T2 = pending T1" "time T2 = time T + 1" using 1(3) by auto
  obtain ns2 T3 where 3: "timer_execute T2 = Some (ns2, T3)" "timer_wf T3" "time T3 = time T2"
    "mset ns2 = filter_mset (\<lambda>n. expire n = time T2) (pending T2)"
    "pending T3 = filter_mset (\<lambda>n. expire n \<noteq> time T2) (pending T2)"
    using timer_execute_ok [OF 2(2)] by blast
  let ?A = "\<lambda>n. expire n = time T" and ?B = "\<lambda>n. expire n = time T + 1"
  have f1: "filter_mset (\<lambda>n. ?A n \<or> ?B n) M = filter_mset ?A M + filter_mset ?B (filter_mset (\<lambda>n. \<not> ?A n) M)" for M
    by (rule multiset_eqI) simp
  have f2: "filter_mset (\<lambda>n. \<not> ?B n) (filter_mset (\<lambda>n. \<not> ?A n) M) = filter_mset (\<lambda>n. \<not> (?A n \<or> ?B n)) M" for M
    by (rule multiset_eqI) simp
  have "timer_update T = Some (ns1 @ ns2, T3)" using 1(1) 2(1) 3(1) by (simp add: timer_update_def)
  moreover have "mset (ns1 @ ns2) = filter_mset (\<lambda>n. ?A n \<or> ?B n) (pending T)"
    unfolding mset_append 1(4) 3(4) 2(3,4) 1(5) f1 ..
  moreover have "pending T3 = filter_mset (\<lambda>n. \<not> (?A n \<or> ?B n)) (pending T)"
    unfolding 3(5) 2(3,4) 1(5) f2 ..
  moreover have "time T3 = time T + 1" using 2(4) 3(3) by simp
  ultimately show ?thesis using 3(2) by blast
qed

interpretation wheel: tick_queue timer_wf time pending expire timer_update
  by unfold_locales (rule timer_update_ok)

text \<open>A node added for \<open>tm > 0\<close> ticks from now is kept where the wheel will find it.\<close>

lemma timer_add_ok:
  assumes wf: "timer_wf T" and tm: "0 < tm" "tm < 2 ^ 31"
  shows "timer_wf (timer_add ev tm T) \<and> time (timer_add ev tm T) = time T \<and>
     pending (timer_add ev tm T) = add_mset \<lparr>expire = time T + of_nat (nat tm), event = ev\<rparr> (pending T)"
proof -
  let ?e = "time T + of_nat (nat tm)"
  define m where "m = nat tm"
  have m: "0 < m" "m < 2 ^ 31" using tm by (auto simp: m_def)
  have e: "unat ?e = (unat (time T) + m) mod 2 ^ 32"
    using m by (simp add: unat_word_ariths(1) m_def [symmetric] unat_of_nat take_bit_nat_eq_self)
  have "addable (unat (time T)) (unat ?e)"
  proof (cases "unat (time T) + m < 2 ^ 32")
    case True
    with e show ?thesis by (simp add: addable_def)
  next
    case False
    have c: "unat (time T) < 2 ^ 32" using unat_u32_less [of "time T"] by simp
    have "(unat (time T) + m) mod 2 ^ 32 = unat (time T) + m - 2 ^ 32"
      using False c m by (simp add: mod_if)
    then have "unat ?e + 2 ^ 31 \<le> unat (time T)" using e m False c by simp
    then have "unat ?e div 2 ^ 26 + 2 ^ 5 \<le> unat (time T) div 2 ^ 26"
      using div_le_mono [of "unat ?e + 2 ^ 31" "unat (time T)" "2 ^ 26"] by simp
    then show ?thesis by (simp add: addable_def sh_def)
  qed
  moreover have "(word_of_int tm :: u32) + time T = ?e" using tm by (simp add: of_nat_nat add.commute)
  ultimately show ?thesis
    using add_node_ok [OF wf, of "\<lparr>expire = ?e, event = ev\<rparr>"] by (simp only: timer_add_def) simp
qed

lemma update_loop_ticks: "update_loop k T = ticks timer_update k T"
proof (induction k arbitrary: T)
  case (Suc k)
  then show ?case by (cases "timer_update T") (auto split: option.splits)
qed simp

text \<open>The ticks do not touch the wall clock fields.\<close>

definition wall :: "timer \<Rightarrow> u32 \<times> u64 \<times> u64" where
  "wall T = (starttime T, current T, current_point T)"

lemma wall_add_node [simp]: "wall (add_node n T) = wall T"
  by (simp add: wall_def add_node_def Let_def link_near_def link_level_def)

lemma wall_fold [simp]: "wall (fold add_node ns T) = wall T"
  by (induction ns arbitrary: T) simp_all

lemma wall_move_list: "move_list i j T = Some T' \<Longrightarrow> wall T' = wall T"
  by (auto simp: move_list_def elim!: option_bind_SomeE) (simp add: wall_def)

lemma wall_shift_loop:
  assumes "shift_loop ct m tm i T = Some T'"
  shows "wall T' = wall T"
proof (rule shift_loop.raw_induct [where P = "\<lambda>ct m tm i T T'. wall T' = wall T", OF _ assms])
  fix f ct m tm i T y
  assume IH: "\<And>ct m tm i T y. f ct m tm i T = Some y \<Longrightarrow> wall y = wall T"
    and eq: "(if ct AND (m - 1) = 0 then
        let idx = tm AND TIME_LEVEL_MASK in
        if idx \<noteq> 0 then move_list i (unat idx) T
        else f ct (push_bit TIME_LEVEL_SHIFT m) (drop_bit TIME_LEVEL_SHIFT tm) (Suc i) T
      else Some T) = Some y"
  show "wall y = wall T"
    using eq by (auto simp: Let_def split: if_splits dest: IH wall_move_list)
qed

lemma wall_timer_shift: "timer_shift T = Some T' \<Longrightarrow> wall T' = wall T"
  by (auto simp: timer_shift_def Let_def split: if_splits dest!: wall_shift_loop wall_move_list)
    (simp_all add: wall_def)

lemma wall_timer_update:
  assumes wf: "timer_wf T" and upd: "timer_update T = Some (ns, T')"
  shows "wall T' = wall T"
proof -
  have ex: "wall S' = wall S" if "timer_execute S = Some (r, S')" "timer_wf S" for S r S'
    using that timer_execute_eq [of S] by (auto simp: timer_wf_def wall_def)
  obtain ns1 T1 where 1: "timer_execute T = Some (ns1, T1)" "timer_wf T1" "time T1 = time T"
    "pending T1 = filter_mset (\<lambda>n. expire n \<noteq> time T) (pending T)"
    using timer_execute_ok [OF wf] by blast
  then have "\<forall>n \<in># pending T1. expire n \<noteq> time T1" by simp
  from timer_shift_ok [OF 1(2) this] obtain T2 where 2: "timer_shift T1 = Some T2" "timer_wf T2" by blast
  obtain r where "timer_execute T2 = Some (r, T')"
    using upd 1(1) 2(1) by (auto simp: timer_update_def elim!: option_bind_SomeE)
  with ex [OF this 2(2)] ex [OF 1(1) wf] wall_timer_shift [OF 2(1)] show ?thesis by simp
qed

lemma wall_ticks:
  "timer_wf T \<Longrightarrow> ticks timer_update k T = Some (fs, T') \<Longrightarrow> wall T' = wall T"
proof (induction k arbitrary: T fs)
  case 0
  then show ?case by simp
next
  case (Suc k)
  obtain ns T1 where T1: "timer_update T = Some (ns, T1)" "timer_wf T1"
    using timer_update_ok [OF Suc.prems(1)] by blast
  with Suc.prems(2) obtain fs1 where "ticks timer_update k T1 = Some (fs1, T')"
    by (auto split: option.splits)
  from Suc.IH [OF T1(2) this] wall_timer_update [OF Suc.prems(1) T1(1)] show ?case by simp
qed

section \<open>Properties\<close>

text \<open>
  C14: a call of timer\_update with any well-formed wheel succeeds, advances the clock by one
  (wrapping at 2 ^ 32), dispatches exactly the pending nodes that are due at the old or the new
  clock value, and keeps every other node: the wheel implements a set of pending events.
\<close>

theorem timer_update_refines:
  assumes "timer_wf T"
  shows "\<exists>ns T'. timer_update T = Some (ns, T') \<and> timer_wf T' \<and> time T' = time T + 1 \<and>
     mset ns = filter_mset (\<lambda>n. expire n = time T \<or> expire n = time T + 1) (pending T) \<and>
     pending T' = filter_mset (\<lambda>n. \<not> (expire n = time T \<or> expire n = time T + 1)) (pending T)"
  using assms by (rule wheel.tick_ok)

theorem timer_update_refines_witness:
  "\<exists>ns T'. timer_update timer_create_timer = Some (ns, T') \<and> timer_wf T' \<and> time T' = 1"
  using timer_update_refines [OF timer_create_wf(1)] by (auto simp: timer_create_timer_def)

text \<open>
  C12: a timer set for tm > 0 ticks fires at the tm-th call of timer\_update after it was set, not
  earlier and not later, also when the clock wraps in between.
\<close>

theorem timer_fires_exactly:
  assumes "timer_wf T" "0 < tm" "tm < 2 ^ 31"
    and "n = \<lparr>expire = time T + of_nat (nat tm), event = ev\<rparr>"
  shows "\<exists>fs T'. update_loop (nat tm) (timer_add ev tm T) = Some (fs, T') \<and> length fs = nat tm \<and>
     (\<forall>i < nat tm - 1. n \<notin> set (fs ! i)) \<and>
     count (mset (fs ! (nat tm - 1))) n = Suc (count (pending T) n) \<and> n \<notin># pending T'"
proof -
  note add = timer_add_ok [OF assms(1-3), of ev]
  obtain k where k: "nat tm = Suc k" using assms(2) by (metis gr0_implies_Suc zero_less_nat_eq)
  have "n \<in># pending (timer_add ev tm T)" using add assms(4) by simp
  moreover have "expire n = time (timer_add ev tm T) + of_nat (Suc k)" using add assms(4) k by simp
  moreover have "Suc k < 2 ^ 32" using k assms(3) by simp
  ultimately show ?thesis
    using wheel.fires_exactly [of "timer_add ev tm T" n k] add assms(4) k
    by (simp add: update_loop_ticks)
qed

theorem timer_fires_exactly_witness:
  "\<exists>fs T'. update_loop 3 (timer_add \<lparr>te_handle = 1, te_session = 2\<rparr> 3 timer_create_timer) = Some (fs, T') \<and>
     length fs = 3 \<and> \<lparr>expire = 3, event = \<lparr>te_handle = 1, te_session = 2\<rparr>\<rparr> \<in> set (fs ! 2)"
proof -
  let ?n = "\<lparr>expire = 3, event = \<lparr>te_handle = 1, te_session = 2\<rparr>\<rparr>"
  have n: "?n = \<lparr>expire = time timer_create_timer + of_nat (nat 3), event = \<lparr>te_handle = 1, te_session = 2\<rparr>\<rparr>"
    by (simp add: timer_create_timer_def)
  from timer_fires_exactly [OF timer_create_wf(1) _ _ n] obtain fs T' where
    f: "update_loop (nat 3) (timer_add \<lparr>te_handle = 1, te_session = 2\<rparr> 3 timer_create_timer) = Some (fs, T')"
      "length fs = nat 3" "count (mset (fs ! (nat 3 - 1))) ?n = Suc (count (pending timer_create_timer) ?n)"
    by auto
  then have "?n \<in># mset (fs ! 2)" by (intro count_inI) simp
  with f show ?thesis by simp
qed

text \<open>
  Skynet\_updatetime with a monotonic clock that is not behind and less than 2 ^ 32 centiseconds
  ahead runs one tick for each centisecond that passed, adds them to skynet\_now and remembers
  the clock; a clock that went back runs no tick.
\<close>

theorem updatetime_ticks:
  assumes "timer_wf T" "current_point T \<le> cp" "unat (cp - current_point T) < 2 ^ 32"
  shows "\<exists>fs T'. skynet_updatetime cp T = Some (False, fs, T') \<and> timer_wf T' \<and>
     length fs = unat (cp - current_point T) \<and>
     time T' = time T + of_nat (unat (cp - current_point T)) \<and>
     skynet_now T' = skynet_now T + (cp - current_point T) \<and>
     current_point T' = cp \<and> skynet_starttime T' = skynet_starttime T"
proof -
  define d where "d = cp - current_point T"
  have d: "unat (ucast d :: u32) = unat d"
    using assms(3) by (simp add: d_def unsigned_ucast_eq take_bit_nat_eq_self)
  then have dd: "ucast (ucast d :: u32) = d"
    using unat_less [of d] unfolding word_unat_eq_iff unsigned_ucast_eq [of "ucast d :: u32"]
    by (simp only: take_bit_nat_eq_self)
  show ?thesis
  proof (cases "cp = current_point T")
    case True
    with assms(1) show ?thesis by (simp add: skynet_updatetime_def skynet_now_def)
  next
    case False
    let ?T = "T\<lparr>current_point := cp, current := current T + ucast (ucast d :: u32)\<rparr>"
    have wf: "timer_wf ?T" using assms(1) by (simp add: timer_wf_def)
    have nl: "\<not> cp < current_point T" using assms(2) by (simp add: not_less)
    have eq: "skynet_updatetime cp T = map_option (Pair False) (ticks timer_update (unat d) ?T)"
      using False nl d by (simp add: skynet_updatetime_def Let_def update_loop_ticks d_def)
    obtain fs T' where t: "ticks timer_update (unat d) ?T = Some (fs, T')" "timer_wf T'"
      "time T' = time ?T + of_nat (unat d)" "length fs = unat d"
      using wheel.ticks_total [OF wf, of "unat d"] by blast
    have "wall T' = wall ?T" by (rule wall_ticks [OF wf t(1)])
    with t eq show ?thesis
      by (simp add: wall_def skynet_now_def skynet_starttime_def dd) (simp add: d_def)
  qed
qed

theorem updatetime_ticks_witness:
  "\<exists>fs T'. skynet_updatetime 5 timer_create_timer = Some (False, fs, T') \<and> length fs = 5 \<and> time T' = 5"
proof -
  have "current_point timer_create_timer \<le> 5" "unat (5 - current_point timer_create_timer) < 2 ^ 32"
    by (simp_all add: timer_create_timer_def)
  from updatetime_ticks [OF timer_create_wf(1) this] show ?thesis
    by (auto simp: timer_create_timer_def)
qed

end
