(* ===== verification/Handle.thy ===== *)
theory Handle
  imports Interfaces "HOL-Library.List_Lexorder"
begin

text \<open>
  skynet-src/skynet\_handle.c: the table from handles to service contexts and the sorted table
  of service names.

  A context is its address; \<open>H\<close> gives the field \<open>handle\<close> of each context, which
  \<open>skynet_context_handle\<close> reads. A C string is the list of its bytes before the terminator.
\<close>

section \<open>State\<close>

definition HANDLE_MASK :: u32 where "HANDLE_MASK = 0xffffff"
definition HANDLE_REMOTE_SHIFT :: nat where "HANDLE_REMOTE_SHIFT = 24"
definition DEFAULT_SLOT_SIZE :: nat where "DEFAULT_SLOT_SIZE = 4"
definition MAX_SLOT_SIZE :: nat where "MAX_SLOT_SIZE = 0x40000000"

record handle_name =
  hn_name :: bytes
  hn_handle :: u32

record handle_storage =
  harbor :: u32
  handle_index :: u32
  slot_size :: nat
  slot :: "nat option list"
  name_cap :: nat
  name_count :: nat
  name :: "handle_name option list"

definition skynet_handle_init :: "int \<Rightarrow> handle_storage" where
  "skynet_handle_init hb =
     \<lparr>harbor = push_bit HANDLE_REMOTE_SHIFT (word_of_int hb AND 0xff), handle_index = 1,
      slot_size = DEFAULT_SLOT_SIZE, slot = replicate DEFAULT_SLOT_SIZE None,
      name_cap = 2, name_count = 0, name = replicate 2 None\<rparr>"

section \<open>Handles\<close>

text \<open>The slot of a handle: \<open>handle & (slot_size - 1)\<close>.\<close>

definition hash_of :: "u32 \<Rightarrow> nat \<Rightarrow> nat" where
  "hash_of h sz = unat (h AND (of_nat sz - 1))"

text \<open>The inner loop of \<open>skynet_handle_register\<close>: the handle whose slot is free, if one is found.\<close>

function reg_scan :: "nat \<Rightarrow> u32 \<Rightarrow> handle_storage \<Rightarrow> u32 option option" where
  "reg_scan i h s =
     (if i < slot_size s then
        let h = (if h > HANDLE_MASK then 1 else h) in
        case arr_get (slot s) (int (hash_of h (slot_size s))) of
          None \<Rightarrow> None
        | Some None \<Rightarrow> Some (Some h)
        | Some (Some _) \<Rightarrow> reg_scan (Suc i) (h + 1) s
      else Some None)"
  by pat_completeness auto
termination
  by (relation "measure (\<lambda>(i, h, s). slot_size s - i)") auto

text \<open>
  The rehash loop: it reads the handle of the context of every slot of the old table, which
  fails when the slot is null.
\<close>

fun rehash :: "(nat \<Rightarrow> u32) \<Rightarrow> nat \<Rightarrow> nat option list \<Rightarrow> nat option list \<Rightarrow> nat option list option" where
  "rehash H sz [] new = Some new"
| "rehash H sz (c # cs) new = do {
     ctx \<leftarrow> c;
     let hash = hash_of (H ctx) sz;
     old \<leftarrow> arr_get new (int hash);
     c_assert (old = None);
     rehash H sz cs (new[hash := Some ctx])
   }"

definition expand_slots :: "(nat \<Rightarrow> u32) \<Rightarrow> handle_storage \<Rightarrow> handle_storage option" where
  "expand_slots H s = do {
     c_assert (slot_size s * 2 - 1 \<le> unat HANDLE_MASK);
     new \<leftarrow> rehash H (slot_size s * 2) (slot s) (replicate (slot_size s * 2) None);
     Some (s\<lparr>slot := new, slot_size := slot_size s * 2\<rparr>)
   }"

partial_function (option) skynet_handle_register ::
    "(nat \<Rightarrow> u32) \<Rightarrow> nat \<Rightarrow> handle_storage \<Rightarrow> (u32 \<times> handle_storage) option" where
  "skynet_handle_register H ctx s =
     Option.bind (reg_scan 0 (handle_index s) s) (\<lambda>r.
     case r of
       Some h \<Rightarrow> Some (h OR harbor s,
                  s\<lparr>slot := (slot s)[hash_of h (slot_size s) := Some ctx], handle_index := h + 1\<rparr>)
     | None \<Rightarrow> Option.bind (expand_slots H s) (\<lambda>s'. skynet_handle_register H ctx s'))"

text \<open>The caller stores the returned handle in the context.\<close>

definition register_context ::
    "nat \<Rightarrow> handle_storage \<times> (nat \<Rightarrow> u32) \<Rightarrow> (u32 \<times> handle_storage \<times> (nat \<Rightarrow> u32)) option" where
  "register_context ctx sH = do {
     (h, s) \<leftarrow> skynet_handle_register (snd sH) ctx (fst sH);
     Some (h, s, (snd sH)(ctx := h))
   }"

definition skynet_handle_grab :: "(nat \<Rightarrow> u32) \<Rightarrow> u32 \<Rightarrow> handle_storage \<Rightarrow> nat option" where
  "skynet_handle_grab H h s =
     (case arr_get (slot s) (int (hash_of h (slot_size s))) of
        Some (Some ctx) \<Rightarrow> if H ctx = h then Some ctx else None
      | _ \<Rightarrow> None)"

text \<open>
  The loop of \<open>skynet_handle_retire\<close> that removes the names of a handle: \<open>i\<close> reads,
  \<open>j\<close> writes.
\<close>

function drop_names :: "u32 \<Rightarrow> nat \<Rightarrow> nat \<Rightarrow> nat \<Rightarrow> handle_name option list \<Rightarrow> (nat \<times> handle_name option list) option" where
  "drop_names h i j n ns =
     (if i < n then do {
        cell \<leftarrow> arr_get ns (int i);
        e \<leftarrow> cell;
        if hn_handle e = h then drop_names h (Suc i) j n ns
        else if i \<noteq> j then do {
          ns' \<leftarrow> arr_set ns (int j) (Some e);
          drop_names h (Suc i) (Suc j) n ns'
        } else drop_names h (Suc i) (Suc j) n ns
      } else Some (j, ns))"
  by pat_completeness auto
termination
  by (relation "measure (\<lambda>(h, i, j, n, ns). n - i)") auto

text \<open>
  The result holds the context that the caller releases after unlocking: None means that the
  handle was not registered (return value 0).
\<close>

definition skynet_handle_retire ::
    "(nat \<Rightarrow> u32) \<Rightarrow> u32 \<Rightarrow> handle_storage \<Rightarrow> (nat option \<times> handle_storage) option" where
  "skynet_handle_retire H h s = do {
     let hash = hash_of h (slot_size s);
     cell \<leftarrow> arr_get (slot s) (int hash);
     (case cell of
        Some ctx \<Rightarrow>
          if H ctx = h then do {
            (j, ns) \<leftarrow> drop_names h 0 0 (name_count s) (name s);
            Some (Some ctx, s\<lparr>slot := (slot s)[hash := None], name := ns, name_count := j\<rparr>)
          } else Some (None, s)
      | None \<Rightarrow> Some (None, s))
   }"

text \<open>
  One pass of \<open>skynet_handle_retireall\<close> over the slots counts the retired handles; the
  outer loop repeats it until a pass retires nothing. \<open>rel\<close> is \<open>skynet_context_release\<close> on the
  whole system: it may delete the context, whose release callback may register new services.
  Both loops take fuel, as nothing bounds what the callbacks register.
\<close>

function retire_pass :: "(nat \<Rightarrow> handle_storage \<times> (nat \<Rightarrow> u32) \<times> 'w \<Rightarrow> handle_storage \<times> (nat \<Rightarrow> u32) \<times> 'w) \<Rightarrow>
    nat \<Rightarrow> nat \<Rightarrow> nat \<Rightarrow> handle_storage \<times> (nat \<Rightarrow> u32) \<times> 'w \<Rightarrow> (nat \<times> handle_storage \<times> (nat \<Rightarrow> u32) \<times> 'w) option" where
  "retire_pass rel 0 i n (s, H, w) = None"
| "retire_pass rel (Suc fuel) i n (s, H, w) =
     (if i < slot_size s then do {
        cell \<leftarrow> arr_get (slot s) (int i);
        let handle = (case cell of Some ctx \<Rightarrow> H ctx | None \<Rightarrow> 0);
        if handle \<noteq> 0 then do {
          (r, s') \<leftarrow> skynet_handle_retire H handle s;
          (case r of
             Some ctx \<Rightarrow> retire_pass rel fuel (Suc i) (Suc n) (rel ctx (s', H, w))
           | None \<Rightarrow> retire_pass rel fuel (Suc i) n (s', H, w))
        } else retire_pass rel fuel (Suc i) n (s, H, w)
      } else Some (n, s, H, w))"
  by pat_completeness auto
termination
  by (relation "measure (\<lambda>(rel, fuel, i, n, sHw). fuel)") auto

fun skynet_handle_retireall :: "(nat \<Rightarrow> handle_storage \<times> (nat \<Rightarrow> u32) \<times> 'w \<Rightarrow> handle_storage \<times> (nat \<Rightarrow> u32) \<times> 'w) \<Rightarrow>
    nat \<Rightarrow> nat \<Rightarrow> handle_storage \<times> (nat \<Rightarrow> u32) \<times> 'w \<Rightarrow> (handle_storage \<times> (nat \<Rightarrow> u32) \<times> 'w) option" where
  "skynet_handle_retireall rel pass_fuel 0 sHw = None"
| "skynet_handle_retireall rel pass_fuel (Suc fuel) sHw = do {
     (n, sHw') \<leftarrow> retire_pass rel pass_fuel 0 0 sHw;
     if n = 0 then Some sHw' else skynet_handle_retireall rel pass_fuel fuel sHw'
   }"

section \<open>Names\<close>

text \<open>\<open>strcmp\<close> compares the bytes as unsigned characters; the shorter string is the smaller one.\<close>

fun strcmp :: "bytes \<Rightarrow> bytes \<Rightarrow> int" where
  "strcmp [] [] = 0"
| "strcmp [] (y # ys) = - 1"
| "strcmp (x # xs) [] = 1"
| "strcmp (x # xs) (y # ys) = (if x = y then strcmp xs ys else if x < y then - 1 else 1)"

text \<open>
  The binary search shared by \<open>skynet_handle_findname\<close> and \<open>_insert_name\<close>: Inl is the entry
  found, Inr the final value of \<open>begin\<close>.
\<close>

function bsearch :: "handle_name option list \<Rightarrow> bytes \<Rightarrow> int \<Rightarrow> int \<Rightarrow> (handle_name + int) option" where
  "bsearch ns nm b e =
     (if b \<le> e then do {
        let mid = (b + e) div 2;
        cell \<leftarrow> arr_get ns mid;
        n \<leftarrow> cell;
        let c = strcmp (hn_name n) nm;
        if c = 0 then Some (Inl n)
        else if c < 0 then bsearch ns nm (mid + 1) e
        else bsearch ns nm b (mid - 1)
      } else Some (Inr b))"
  by pat_completeness auto
termination
  by (relation "measure (\<lambda>(ns, nm, b, e). nat (e + 1 - b))") auto

definition skynet_handle_findname :: "bytes \<Rightarrow> handle_storage \<Rightarrow> u32 option" where
  "skynet_handle_findname nm s = do {
     r \<leftarrow> bsearch (name s) nm 0 (int (name_count s) - 1);
     Some (case r of Inl n \<Rightarrow> hn_handle n | Inr _ \<Rightarrow> 0)
   }"

text \<open>The loop that shifts the entries up by one when the table has room.\<close>

fun shift_up :: "nat \<Rightarrow> nat \<Rightarrow> handle_name option list \<Rightarrow> handle_name option list" where
  "shift_up 0 before ns = ns"
| "shift_up (Suc i) before ns =
     (if Suc i > before then shift_up i before (ns[Suc i := ns ! i]) else ns)"

definition insert_name_before :: "bytes \<Rightarrow> u32 \<Rightarrow> nat \<Rightarrow> handle_storage \<Rightarrow> handle_storage option" where
  "insert_name_before nm h before s = do {
     s1 \<leftarrow> (if name_count s \<ge> name_cap s then do {
              let cap = name_cap s * 2;
              c_assert (cap \<le> MAX_SLOT_SIZE);
              Some (s\<lparr>name_cap := cap,
                      name := take before (name s) @ [None] @
                              take (name_count s - before) (drop before (name s)) @
                              replicate (cap - (name_count s + 1)) None\<rparr>)
            } else Some (s\<lparr>name := shift_up (name_count s) before (name s)\<rparr>));
     ns \<leftarrow> arr_set (name s1) (int before) (Some \<lparr>hn_name = nm, hn_handle = h\<rparr>);
     Some (s1\<lparr>name := ns, name_count := name_count s1 + 1\<rparr>)
   }"

text \<open>The result is the copy of the name, or None for a null pointer (the name exists).\<close>

definition insert_name :: "bytes \<Rightarrow> u32 \<Rightarrow> handle_storage \<Rightarrow> (bytes option \<times> handle_storage) option" where
  "insert_name nm h s = do {
     r \<leftarrow> bsearch (name s) nm 0 (int (name_count s) - 1);
     (case r of
        Inl _ \<Rightarrow> Some (None, s)
      | Inr b \<Rightarrow> do { s' \<leftarrow> insert_name_before nm h (nat b) s; Some (Some nm, s') })
   }"

definition skynet_handle_namehandle :: "u32 \<Rightarrow> bytes \<Rightarrow> handle_storage \<Rightarrow> (bytes option \<times> handle_storage) option" where
  "skynet_handle_namehandle h nm s = insert_name nm h s"

section \<open>Invariant of the slots\<close>

definition slots_wf :: "handle_storage \<times> (nat \<Rightarrow> u32) \<Rightarrow> bool" where
  "slots_wf sH \<longleftrightarrow> (case sH of (s, H) \<Rightarrow>
     (\<exists>k. 2 \<le> k \<and> k \<le> 24 \<and> slot_size s = 2 ^ k) \<and> length (slot s) = slot_size s \<and>
     (\<forall>i c. i < slot_size s \<longrightarrow> slot s ! i = Some c \<longrightarrow> hash_of (H c) (slot_size s) = i) \<and>
     harbor s AND HANDLE_MASK = 0 \<and> 1 \<le> unat (handle_index s) \<and> unat (handle_index s) \<le> 2 ^ 24)"

lemma HANDLE_MASK_mask: "HANDLE_MASK = mask 24"
  by (simp add: HANDLE_MASK_def mask_eq_exp_minus_1)

lemma unat_HANDLE_MASK [simp]: "unat HANDLE_MASK = 2 ^ 24 - 1"
  by (simp add: HANDLE_MASK_def)

lemma hash_of_power: "hash_of h (2 ^ k) = unat h mod 2 ^ k"
proof -
  have "(of_nat (2 ^ k) - 1 :: u32) = mask k" by (simp add: mask_eq_exp_minus_1)
  then show ?thesis by (simp only: hash_of_def unat_and_mask)
qed

lemma hash_of_harbor:
  assumes "hb AND HANDLE_MASK = 0" "k \<le> 24"
  shows "hash_of (h OR hb) (2 ^ k) = hash_of h (2 ^ k)"
proof -
  have "\<not> bit hb n" if "n < k" for n
  proof -
    have "\<not> bit (hb AND HANDLE_MASK) n" using assms(1) by simp
    with that assms(2) show ?thesis by (auto simp: HANDLE_MASK_mask bit_simps)
  qed
  then have "(h OR hb) AND mask k = h AND mask k"
    by (intro bit_word_eqI) (auto simp: bit_simps)
  then show ?thesis by (metis hash_of_power unat_and_mask)
qed

lemma slots_wfE:
  assumes "slots_wf (s, H)"
  obtains k where "2 \<le> k" "k \<le> 24" "slot_size s = 2 ^ k" "length (slot s) = 2 ^ k"
    "\<forall>i c. i < 2 ^ k \<longrightarrow> slot s ! i = Some c \<longrightarrow> hash_of (H c) (2 ^ k) = i"
    "harbor s AND HANDLE_MASK = 0" "1 \<le> unat (handle_index s)" "unat (handle_index s) \<le> 2 ^ 24"
  using assms unfolding slots_wf_def by force

lemma hash_lt: "hash_of h (2 ^ k) < 2 ^ k"
  by (simp add: hash_of_power)

text \<open>A lookup finds exactly the registered contexts, each under its own handle.\<close>

lemma grab_iff:
  assumes "slots_wf (s, H)"
  shows "skynet_handle_grab H h s = Some c \<longleftrightarrow> Some c \<in> set (slot s) \<and> H c = h"
proof -
  obtain k where k: "2 \<le> k" "k \<le> 24" "slot_size s = 2 ^ k" "length (slot s) = 2 ^ k"
    "\<forall>i c. i < 2 ^ k \<longrightarrow> slot s ! i = Some c \<longrightarrow> hash_of (H c) (2 ^ k) = i"
    "harbor s AND HANDLE_MASK = 0" "1 \<le> unat (handle_index s)" "unat (handle_index s) \<le> 2 ^ 24"
    using assms by (rule slots_wfE)
  have "Some c \<in> set (slot s) \<and> H c = h \<longleftrightarrow> slot s ! hash_of h (2 ^ k) = Some c \<and> H c = h"
  proof (intro iffI conjI)
    assume a: "Some c \<in> set (slot s) \<and> H c = h"
    then obtain i where "i < 2 ^ k" "slot s ! i = Some c" using k(4) by (metis in_set_conv_nth)
    with k(5) [rule_format, of i c] a show "slot s ! hash_of h (2 ^ k) = Some c" by simp
  next
    assume "slot s ! hash_of h (2 ^ k) = Some c \<and> H c = h"
    then show "Some c \<in> set (slot s)" using hash_lt [of h k] k(4) by (metis nth_mem)
  qed auto
  then show ?thesis
    using hash_lt [of h k] k(3,4) by (auto simp: skynet_handle_grab_def split: option.splits if_splits)
qed

lemma slot_inj:
  assumes "slots_wf (s, H)" "i < slot_size s" "j < slot_size s" "slot s ! i = Some c" "slot s ! j = Some c"
  shows "i = j"
  using assms by (auto simp: slots_wf_def)

section \<open>The scan for a free slot\<close>

text \<open>The handle tried in round \<open>i\<close> when the index is \<open>a + 1\<close>: the values cycle through 1 .. HANDLE\_MASK.\<close>

definition cand :: "nat \<Rightarrow> nat \<Rightarrow> nat" where
  "cand a i = (a + i) mod (2 ^ 24 - 1) + 1"

lemma cand_bounds: "1 \<le> cand a i" "cand a i \<le> 2 ^ 24 - 1"
proof -
  have "(a + i) mod (2 ^ 24 - 1) < 2 ^ 24 - (1::nat)" by (rule mod_less_divisor) simp
  then show "1 \<le> cand a i" "cand a i \<le> 2 ^ 24 - 1" unfolding cand_def by linarith+
qed

lemma cand_small: "a + i < 2 ^ 24 - 1 \<Longrightarrow> cand a i = a + i + 1"
  by (simp add: cand_def)

lemma cand_wrap: "2 ^ 24 - 1 \<le> a + i \<Longrightarrow> a + i < 2 * (2 ^ 24 - 1) \<Longrightarrow> cand a i + (2 ^ 24 - 1) = a + i + 1"
  by (simp add: cand_def le_mod_geq)

text \<open>What \<open>reg_scan\<close> tries for a loop variable \<open>h\<close>.\<close>

definition tries :: "u32 \<Rightarrow> nat \<Rightarrow> bool" where
  "tries h n \<longleftrightarrow> (if h > HANDLE_MASK then 1 else h) = of_nat n"

lemma tries_start: "1 \<le> unat h \<Longrightarrow> unat h \<le> 2 ^ 24 \<Longrightarrow> tries h (cand (unat h - 1) 0)"
proof -
  assume h: "1 \<le> unat h" "unat h \<le> 2 ^ 24"
  show ?thesis
  proof (cases "unat h = 2 ^ 24")
    case True
    then have "h > HANDLE_MASK" by (simp add: word_less_nat_alt)
    with True show ?thesis by (simp add: tries_def cand_def)
  next
    case False
    then have "\<not> h > HANDLE_MASK" "cand (unat h - 1) 0 = unat h"
      using h by (simp_all add: word_less_nat_alt cand_small)
    then show ?thesis by (simp add: tries_def)
  qed
qed

lemma unat_cand [simp]: "unat (of_nat (cand a i) :: u32) = cand a i"
  using cand_bounds [of a i] by (simp add: unat_of_nat take_bit_nat_eq_self)

lemma tries_next: "tries (of_nat (cand a i) + 1) (cand a (Suc i))"
proof -
  let ?m = "2 ^ 24 - 1 :: nat"
  have u: "unat (of_nat (cand a i) + 1 :: u32) = cand a i + 1"
    using cand_bounds [of a i] by (simp add: unat_word_ariths(1) take_bit_nat_eq_self)
  have suc: "(a + Suc i) mod ?m = (if cand a i = ?m then 0 else cand a i)"
    unfolding cand_def add_Suc_right mod_Suc by auto
  show ?thesis
  proof (cases "cand a i = ?m")
    case True
    then have "of_nat (cand a i) + 1 > HANDLE_MASK" using u by (simp add: word_less_nat_alt)
    with True suc show ?thesis by (simp add: tries_def cand_def [of a "Suc i"])
  next
    case False
    then have "\<not> of_nat (cand a i) + 1 > HANDLE_MASK"
      using u cand_bounds [of a i] by (simp add: word_less_nat_alt)
    with False suc show ?thesis by (simp add: tries_def cand_def [of a "Suc i"] add.commute)
  qed
qed

declare reg_scan.simps [simp del]

lemma reg_scan_ok:
  assumes k: "slot_size s = 2 ^ k" "length (slot s) = 2 ^ k"
    and "i \<le> 2 ^ k" "tries h (cand a i)"
  shows "(reg_scan i h s = Some None \<and> (\<forall>j. i \<le> j \<and> j < 2 ^ k \<longrightarrow> slot s ! (cand a j mod 2 ^ k) \<noteq> None)) \<or>
     (\<exists>j. i \<le> j \<and> j < 2 ^ k \<and> reg_scan i h s = Some (Some (of_nat (cand a j))) \<and>
        slot s ! (cand a j mod 2 ^ k) = None)"
  using assms(3,4)
proof (induction "2 ^ k - i" arbitrary: i h rule: less_induct)
  case less
  show ?case
  proof (cases "i < 2 ^ k")
    case False
    then have "reg_scan i h s = Some None" by (subst reg_scan.simps) (simp add: k(1))
    with False show ?thesis by auto
  next
    case True
    let ?h = "of_nat (cand a i) :: u32"
    have hash: "hash_of ?h (2 ^ k) = cand a i mod 2 ^ k" by (simp add: hash_of_power)
    have step: "reg_scan i h s = (case slot s ! (cand a i mod 2 ^ k) of
        None \<Rightarrow> Some (Some ?h) | Some _ \<Rightarrow> reg_scan (Suc i) (?h + 1) s)"
      using True less.prems(2) k hash unfolding tries_def
      by (subst reg_scan.simps) (simp add: Let_def split: option.splits)
    show ?thesis
    proof (cases "slot s ! (cand a i mod 2 ^ k)")
      case None
      with step True show ?thesis by auto
    next
      case (Some c)
      have less_i: "2 ^ k - Suc i < 2 ^ k - i" "Suc i \<le> 2 ^ k" using True by auto
      have eq: "reg_scan i h s = reg_scan (Suc i) (?h + 1) s" using Some step by simp
      from less.hyps [OF less_i tries_next] show ?thesis
      proof (elim disjE conjE exE)
        assume n: "reg_scan (Suc i) (?h + 1) s = Some None"
          and all: "\<forall>j. Suc i \<le> j \<and> j < 2 ^ k \<longrightarrow> slot s ! (cand a j mod 2 ^ k) \<noteq> None"
        have "slot s ! (cand a j mod 2 ^ k) \<noteq> None" if "i \<le> j" "j < 2 ^ k" for j
          using all that Some by (cases "j = i") auto
        with n eq show ?thesis by simp
      next
        fix j assume "Suc i \<le> j" "j < 2 ^ k" "slot s ! (cand a j mod 2 ^ k) = None"
          "reg_scan (Suc i) (?h + 1) s = Some (Some (of_nat (cand a j)))"
        with eq show ?thesis by (intro disjI2 exI [of _ j]) simp
      qed
    qed
  qed
qed

text \<open>
  Which slots the scan covers. Slot \<open>r \<noteq> 0\<close> is always tried. Slot 0 is tried unless
  the handles wrap in the middle of the scan: then 0, which is reserved, is skipped.
\<close>

definition wraps :: "handle_storage \<Rightarrow> bool" where
  "wraps s \<longleftrightarrow> slot_size s = 2 ^ 24 \<or>
     (unat (handle_index s) < 2 ^ 24 \<and> 2 ^ 24 < unat (handle_index s) + slot_size s)"

lemma pow_mod:
  assumes "k \<le> 24"
  shows "(2 ^ 24 - 1) mod 2 ^ k = (2 ^ k - 1 :: nat)" "(2::nat) ^ 24 mod 2 ^ k = 0"
proof -
  have d: "(2::nat) ^ k dvd 2 ^ 24" using assms by (rule le_imp_power_dvd)
  then show "(2::nat) ^ 24 mod 2 ^ k = 0" by simp
  obtain q where q: "(2::nat) ^ 24 = 2 ^ k * q" using d by blast
  then have "0 < q" by (cases q) auto
  then obtain q' where "q = Suc q'" by (cases q) auto
  with q have "(2::nat) ^ 24 - 1 = (2 ^ k - 1) + 2 ^ k * q'" by simp
  then show "(2 ^ 24 - 1) mod 2 ^ k = (2 ^ k - 1 :: nat)" by (simp only: mod_mult_self2) simp
qed

text \<open>Round \<open>j\<close> before the wrap tries slot \<open>a + j + 1\<close>, after it slot \<open>a + j + 2\<close>, modulo the size.\<close>

lemma cand_slot_before:
  "a + j < 2 ^ 24 - 1 \<Longrightarrow> cand a j mod 2 ^ k = (a + j + 1) mod 2 ^ k"
  by (simp add: cand_small)

lemma cand_slot_after:
  assumes "k \<le> 24" "2 ^ 24 - 1 \<le> a + j" "a + j < 2 * (2 ^ 24 - 1)"
  shows "cand a j mod 2 ^ k = (a + j + 2) mod 2 ^ k"
proof -
  have e: "a + j + 2 = cand a j + 2 ^ 24" using cand_wrap [OF assms(2,3)] by simp
  have "(a + j + 2) mod 2 ^ k = (cand a j + 2 ^ 24) mod 2 ^ k" by (simp only: e)
  also have "\<dots> = cand a j mod 2 ^ k" using pow_mod(2) [OF assms(1)] by (metis add.right_neutral mod_add_right_eq)
  finally show ?thesis by simp
qed

lemma exists_residue:
  "\<exists>j < 2 ^ k. (c + j) mod 2 ^ k = r" if "r < 2 ^ k" for c r :: nat
proof -
  have "(c + (r + (2 ^ k - c mod 2 ^ k)) mod 2 ^ k) mod 2 ^ k = (c + r + (2 ^ k - c mod 2 ^ k)) mod 2 ^ k"
    by (simp add: mod_add_right_eq add.assoc)
  also have "\<dots> = (c mod 2 ^ k + r + (2 ^ k - c mod 2 ^ k)) mod 2 ^ k"
    by (metis (no_types) add.assoc mod_add_left_eq)
  also have "c mod 2 ^ k + r + (2 ^ k - c mod 2 ^ k) = r + 2 ^ k"
    using mod_less_divisor [of "2 ^ k" c] by simp
  finally show ?thesis using that by (intro exI [of _ "(r + (2 ^ k - c mod 2 ^ k)) mod 2 ^ k"]) simp
qed

lemma scan_covers:
  assumes k: "k \<le> 24" and a: "a \<le> 2 ^ 24 - 1" and r: "r < 2 ^ k"
    and c: "r \<noteq> 0 \<or> a + 2 ^ k \<le> 2 ^ 24 - 1 \<or> (a = 2 ^ 24 - 1 \<and> k \<noteq> 24)"
  shows "\<exists>j < 2 ^ k. cand a j mod 2 ^ k = r"
proof -
  have pk: "(2::nat) ^ k \<le> 2 ^ 24" using k by (rule power_increasing) simp
  obtain j where j: "j < 2 ^ k" "(a + 1 + j) mod 2 ^ k = r" using exists_residue [OF r] by blast
  show ?thesis
  proof (cases "a + j < 2 ^ 24 - 1")
    case True
    with j cand_slot_before [OF True, of k] show ?thesis by (intro exI [of _ j]) (simp add: ac_simps)
  next
    case False
    show ?thesis
    proof (cases "a = 2 ^ 24 - 1")
      case True
      obtain i where i: "i < 2 ^ k" "(a + 2 + i) mod 2 ^ k = r" using exists_residue [OF r] by blast
      have "2 ^ 24 - 1 \<le> a + i" using True by simp
      moreover have "i < 2 ^ 24 - 1 \<or> i = 2 ^ 24 - 1" using i(1) pk by linarith
      moreover have "cand a (2 ^ 24 - 1) = 1" using True by (simp add: cand_def)
      ultimately show ?thesis
      proof (elim disjE)
        assume "i < 2 ^ 24 - 1"
        then have "a + i < 2 * (2 ^ 24 - 1)" using True by simp
        from cand_slot_after [OF k _ this] i True show ?thesis by (intro exI [of _ i]) (simp add: ac_simps)
      next
        assume "i = 2 ^ 24 - 1" "cand a (2 ^ 24 - 1) = 1"
        moreover have "k = 24"
        proof (rule ccontr)
          assume "k \<noteq> 24"
          then have "(2::nat) ^ k \<le> 2 ^ 23" using k by (intro power_increasing) auto
          with i(1) \<open>i = 2 ^ 24 - 1\<close> show False by simp
        qed
        ultimately have "r = 0" using i True by simp
        with c True \<open>k = 24\<close> show ?thesis by simp
      qed
    next
      case ne: False
      have r0: "r \<noteq> 0" using c ne False j(1) by auto
      have "a + j \<noteq> 2 ^ 24 - 1"
      proof
        assume "a + j = 2 ^ 24 - 1"
        then have "a + 1 + j = 2 ^ 24" by simp
        with j(2) pow_mod(2) [OF k] r0 show False by simp
      qed
      then have gt: "2 ^ 24 - 1 < a + j" using False by simp
      have "j \<noteq> 0" using gt a by auto
      then obtain i where i: "j = Suc i" by (cases j) auto
      have "2 ^ 24 - 1 \<le> a + i" "a + i < 2 * (2 ^ 24 - 1)" using gt i a ne j(1) pk by auto
      from cand_slot_after [OF k this] i j show ?thesis
        by (intro exI [of _ i]) (simp add: ac_simps numeral_2_eq_2)
    qed
  qed
qed

text \<open>When the scan wraps, no round tries slot 0.\<close>

lemma scan_skips_zero:
  assumes k: "k \<le> 24" and c: "k = 24 \<or> (a < 2 ^ 24 - 1 \<and> 2 ^ 24 - 1 < a + 2 ^ k)" and j: "j < 2 ^ k"
  shows "cand a j mod 2 ^ k \<noteq> 0"
proof (cases "k = 24")
  case True
  have "cand a j < 2 ^ 24" "cand a j \<noteq> 0" using cand_bounds [of a j] by linarith+
  with True show ?thesis by simp
next
  case False
  then have a: "a < 2 ^ 24 - 1" "2 ^ 24 - 1 < a + 2 ^ k" using c by auto
  show ?thesis
proof (cases "a + j < 2 ^ 24 - 1")
  case True
  show ?thesis
  proof
    assume z: "cand a j mod 2 ^ k = 0"
    then have "(2::nat) ^ k dvd a + j + 1" using cand_slot_before [OF True, of k] by auto
    moreover have "(2::nat) ^ k dvd 2 ^ 24" using k by (rule le_imp_power_dvd)
    ultimately have "(2::nat) ^ k dvd 2 ^ 24 - (a + j + 1)" by (rule dvd_diff_nat [rotated])
    moreover have "0 < 2 ^ 24 - (a + j + 1)" "2 ^ 24 - (a + j + 1) < (2::nat) ^ k + 0"
      using True a by auto
    ultimately show False by (auto dest: dvd_imp_le)
  qed
next
  case False
  have pk: "(2::nat) ^ k \<le> 2 ^ 24" using k by (rule power_increasing) simp
  have w: "2 ^ 24 - 1 \<le> a + j" "a + j < 2 * (2 ^ 24 - 1)" using False a j pk by auto
  then have "cand a j + (2 ^ 24 - 1) = a + j + 1" by (rule cand_wrap)
  then have "1 \<le> cand a j" "cand a j < 2 ^ k" using a j cand_bounds [of a j] w by auto
  then show ?thesis by simp
qed
qed

section \<open>Registration\<close>

lemma rehash_ok:
  assumes "distinct (map (\<lambda>c. hash_of (H c) sz) cs)"
    and "\<forall>c \<in> set cs. hash_of (H c) sz < length new \<and> new ! hash_of (H c) sz = None"
  shows "\<exists>new'. rehash H sz (map Some cs) new = Some new' \<and> length new' = length new \<and>
     (\<forall>p < length new. new' ! p = (case find (\<lambda>c. hash_of (H c) sz = p) cs of Some c \<Rightarrow> Some c | None \<Rightarrow> new ! p))"
  using assms
proof (induction cs arbitrary: new)
  case Nil
  then show ?case by simp
next
  case (Cons c cs)
  let ?h = "hash_of (H c) sz"
  let ?new = "new[?h := Some c]"
  have h: "?h < length new" "new ! ?h = None" using Cons.prems(2) by auto
  have "\<forall>c \<in> set cs. hash_of (H c) sz < length ?new \<and> ?new ! hash_of (H c) sz = None"
    using Cons.prems by (auto simp: nth_list_update)
  with Cons.IH [of ?new] Cons.prems(1) obtain new' where new':
    "rehash H sz (map Some cs) ?new = Some new'" "length new' = length new"
    "\<forall>p < length new. new' ! p = (case find (\<lambda>c. hash_of (H c) sz = p) cs of Some c \<Rightarrow> Some c | None \<Rightarrow> ?new ! p)"
    by auto
  have notin: "find (\<lambda>d. hash_of (H d) sz = ?h) cs = None"
    using Cons.prems(1) by (auto simp: find_None_iff) (metis image_eqI)
  have "rehash H sz (map Some (c # cs)) new = Some new'"
    using new'(1) h by (simp add: bind_c_assert)
  moreover have "new' ! p = (case find (\<lambda>c. hash_of (H c) sz = p) (c # cs) of Some c \<Rightarrow> Some c | None \<Rightarrow> new ! p)"
    if "p < length new" for p
    using new'(3) that notin by (cases "p = ?h") (auto split: option.splits)
  ultimately show ?case using new'(2) by blast
qed

text \<open>A null slot anywhere in the table makes the rehash loop fail.\<close>

lemma rehash_null: "None \<in> set cs \<Longrightarrow> rehash H sz cs new = None"
proof (induction cs arbitrary: new)
  case (Cons c cs)
  then show ?case by (cases c) (auto split: option.splits simp: bind_c_assert Option.bind_eq_None_conv)
qed simp

lemma hash_double: "hash_of h (2 ^ Suc k) mod 2 ^ k = hash_of h (2 ^ k)"
proof -
  have "(2::nat) ^ k dvd 2 ^ Suc k" by (rule le_imp_power_dvd) simp
  then show ?thesis unfolding hash_of_power by (rule mod_mod_cancel)
qed

lemma expand_ok:
  assumes wf: "slots_wf (s, H)" and full: "None \<notin> set (slot s)" and room: "slot_size s < 2 ^ 24"
  shows "\<exists>s'. expand_slots H s = Some s' \<and> slots_wf (s', H) \<and> slot_size s' = 2 * slot_size s \<and>
     (\<forall>c. Some c \<in> set (slot s') \<longleftrightarrow> Some c \<in> set (slot s)) \<and>
     (\<exists>i < slot_size s'. i \<noteq> 0 \<and> slot s' ! i = None) \<and>
     s' = s\<lparr>slot := slot s', slot_size := slot_size s'\<rparr>"
proof -
  obtain k where k: "2 \<le> k" "k \<le> 24" "slot_size s = 2 ^ k" "length (slot s) = 2 ^ k"
    "\<forall>i c. i < 2 ^ k \<longrightarrow> slot s ! i = Some c \<longrightarrow> hash_of (H c) (2 ^ k) = i"
    "harbor s AND HANDLE_MASK = 0" "1 \<le> unat (handle_index s)" "unat (handle_index s) \<le> 2 ^ 24"
    using wf by (rule slots_wfE)
  have k24: "Suc k \<le> 24" using room k(2,3) by (cases "k = 24") auto
  define cs where "cs = map the (slot s)"
  have sl: "slot s = map Some cs"
    using full unfolding cs_def map_map by (intro map_idI [symmetric]) (metis comp_apply option.collapse)
  have len: "length cs = 2 ^ k" using k(4) sl by simp
  have at: "hash_of (H (cs ! i)) (2 ^ k) = i" if "i < 2 ^ k" for i
    using k(5) that sl len by simp
  have "distinct (map (\<lambda>c. hash_of (H c) (2 ^ Suc k)) cs)"
    unfolding distinct_conv_nth length_map
  proof (intro allI impI)
    fix i j assume ij: "i < length cs" "j < length cs" "i \<noteq> j"
    have "hash_of (H (cs ! i)) (2 ^ Suc k) mod 2 ^ k \<noteq> hash_of (H (cs ! j)) (2 ^ Suc k) mod 2 ^ k"
      using at ij len by (simp only: hash_double) simp
    then show "map (\<lambda>c. hash_of (H c) (2 ^ Suc k)) cs ! i \<noteq> map (\<lambda>c. hash_of (H c) (2 ^ Suc k)) cs ! j"
      using ij by auto
  qed
  from rehash_ok [OF this, of "replicate (2 ^ Suc k) None"] obtain new where new:
    "rehash H (2 ^ Suc k) (map Some cs) (replicate (2 ^ Suc k) None) = Some new" "length new = 2 ^ Suc k"
    "\<forall>p < 2 ^ Suc k. new ! p = find (\<lambda>c. hash_of (H c) (2 ^ Suc k) = p) cs"
    using hash_lt by (auto split: option.splits simp del: power_Suc) force
  let ?s = "s\<lparr>slot := new, slot_size := slot_size s * 2\<rparr>"
  have sz: "slot_size s * 2 = 2 ^ Suc k" using k(3) by simp
  have "(2::nat) ^ Suc k \<le> 2 ^ 24" using k24 by (rule power_increasing) simp
  then have eq: "expand_slots H s = Some ?s"
    using new(1) unfolding expand_slots_def sz sl by (simp add: bind_c_assert)
  have bwd: "c \<in> set cs \<and> hash_of (H c) (2 ^ Suc k) = p" if "p < 2 ^ Suc k" "new ! p = Some c" for p c
    using new(3) that by (auto simp: find_Some_iff)
  have fwd: "\<exists>p < 2 ^ Suc k. new ! p = Some c" if c: "c \<in> set cs" for c
  proof -
    let ?p = "hash_of (H c) (2 ^ Suc k)"
    have "find (\<lambda>d. hash_of (H d) (2 ^ Suc k) = ?p) cs \<noteq> None" using c by (auto simp: find_None_iff)
    then obtain d where d: "find (\<lambda>d. hash_of (H d) (2 ^ Suc k) = ?p) cs = Some d" by auto
    then have d': "d \<in> set cs" "hash_of (H d) (2 ^ Suc k) = ?p" by (auto simp: find_Some_iff)
    then have "hash_of (H d) (2 ^ k) = hash_of (H c) (2 ^ k)" by (metis hash_double)
    moreover obtain i j where "i < 2 ^ k" "cs ! i = c" "j < 2 ^ k" "cs ! j = d"
      using c d'(1) len by (metis in_set_conv_nth)
    ultimately have "d = c" using at by metis
    with d new(3) hash_lt [of "H c" "Suc k"] show ?thesis by auto
  qed
  have members: "Some c \<in> set new \<longleftrightarrow> c \<in> set cs" for c
    using bwd fwd new(2) by (metis in_set_conv_nth)
  have wf': "slots_wf (?s, H)"
    using k k24 new(2) bwd sz by (auto simp: slots_wf_def simp del: power_Suc)
  have "\<exists>i < 2 ^ Suc k. i \<noteq> 0 \<and> new ! i = None"
  proof (rule ccontr)
    assume "\<not> ?thesis"
    then have all: "new ! i \<in> Some ` set cs" if "i < 2 ^ Suc k" "i \<noteq> 0" for i
      using that bwd by (metis image_eqI not_None_eq)
    have inj: "inj_on ((!) new) {1..<2 ^ Suc k}"
    proof (rule inj_onI)
      fix i j assume ij: "i \<in> {1..<2 ^ Suc k}" "j \<in> {1..<2 ^ Suc k}" "new ! i = new ! j"
      then obtain c where "new ! i = Some c" "new ! j = Some c" using all [of i] by auto
      with bwd ij show "i = j" by (metis atLeastLessThan_iff)
    qed
    have "(!) new ` {1..<2 ^ Suc k} \<subseteq> Some ` set cs" using all by auto
    then have "card {1..<(2::nat) ^ Suc k} \<le> card (Some ` set cs)"
      by (intro card_inj_on_le [OF inj]) auto
    also have "\<dots> \<le> 2 ^ k" using card_length [of cs] len card_image_le [of "set cs" Some] by simp
    finally have "(2::nat) ^ k \<le> 1" by simp
    moreover have "(2::nat) ^ 2 \<le> 2 ^ k" using k(1) by (rule power_increasing) simp
    ultimately show False by simp
  qed
  then have "\<exists>i < slot_size ?s. i \<noteq> 0 \<and> slot ?s ! i = None" using sz by (simp add: mult.commute)
  moreover have "\<forall>c. Some c \<in> set (slot ?s) \<longleftrightarrow> Some c \<in> set (slot s)" using members sl by auto
  ultimately show ?thesis using eq wf' by (intro exI [of _ ?s]) simp
qed

lemma members_set:
  "p < length xs \<Longrightarrow> xs ! p = None \<Longrightarrow> Some c \<in> set (xs[p := Some d]) \<longleftrightarrow> c = d \<or> Some c \<in> set xs"
  by (induction xs arbitrary: p) (auto split: nat.splits)

text \<open>A free slot that the scan finds.\<close>

lemma register_found:
  assumes wf: "slots_wf (s, H)"
    and free: "\<exists>i < slot_size s. slot s ! i = None \<and> (i \<noteq> 0 \<or> \<not> wraps s)"
    and new: "Some ctx \<notin> set (slot s)"
  shows "\<exists>h s'. skynet_handle_register H ctx s = Some (h, s') \<and> slots_wf (s', H(ctx := h)) \<and>
     skynet_handle_grab H h s = None \<and>
     (\<forall>c. Some c \<in> set (slot s') \<longleftrightarrow> c = ctx \<or> Some c \<in> set (slot s)) \<and>
     s' = s\<lparr>slot := slot s', handle_index := handle_index s'\<rparr>"
proof -
  obtain k where k: "2 \<le> k" "k \<le> 24" "slot_size s = 2 ^ k" "length (slot s) = 2 ^ k"
    "\<forall>i c. i < 2 ^ k \<longrightarrow> slot s ! i = Some c \<longrightarrow> hash_of (H c) (2 ^ k) = i"
    "harbor s AND HANDLE_MASK = 0" "1 \<le> unat (handle_index s)" "unat (handle_index s) \<le> 2 ^ 24"
    using wf by (rule slots_wfE)
  define a where "a = unat (handle_index s) - 1"
  have tr: "tries (handle_index s) (cand a 0)" unfolding a_def by (rule tries_start [OF k(7,8)])
  obtain i where i: "i < 2 ^ k" "slot s ! i = None" "i \<noteq> 0 \<or> \<not> wraps s" using free k(3) by auto
  have "a \<le> 2 ^ 24 - 1" using k(8) by (simp add: a_def)
  moreover have "i \<noteq> 0 \<or> a + 2 ^ k \<le> 2 ^ 24 - 1 \<or> (a = 2 ^ 24 - 1 \<and> k \<noteq> 24)"
    using i(3) k(3,7,8) unfolding wraps_def a_def by auto
  ultimately obtain j where j: "j < 2 ^ k" "cand a j mod 2 ^ k = i"
    using scan_covers [OF k(2) _ i(1)] by blast
  from reg_scan_ok [OF k(3,4) _ tr] j i(2) obtain j where j: "j < 2 ^ k"
    "reg_scan 0 (handle_index s) s = Some (Some (of_nat (cand a j)))" "slot s ! (cand a j mod 2 ^ k) = None"
    by auto
  define h where "h = (of_nat (cand a j) :: u32)"
  define p where "p = cand a j mod 2 ^ k"
  have hp: "hash_of h (2 ^ k) = p" by (simp add: h_def p_def hash_of_power)
  have p: "p < 2 ^ k" by (simp add: p_def)
  have hhp: "hash_of (h OR harbor s) (2 ^ k) = p" using hash_of_harbor [OF k(6,2)] hp by simp
  let ?s = "s\<lparr>slot := (slot s)[p := Some ctx], handle_index := h + 1\<rparr>"
  have eq: "skynet_handle_register H ctx s = Some (h OR harbor s, ?s)"
    using j(2) hp k(3) by (subst skynet_handle_register.simps) (simp add: h_def [symmetric])
  have nidx: "unat (h + 1) = cand a j + 1"
    using cand_bounds [of a j] by (simp add: h_def unat_word_ariths(1) take_bit_nat_eq_self)
  have members: "Some c \<in> set ((slot s)[p := Some ctx]) \<longleftrightarrow> c = ctx \<or> Some c \<in> set (slot s)" for c
    using members_set [of p "slot s"] p k(4) j(3) by (simp add: p_def)
  have wf': "slots_wf (?s, H(ctx := h OR harbor s))"
  proof -
    have "hash_of ((H(ctx := h OR harbor s)) c) (2 ^ k) = i"
      if "i < 2 ^ k" "(slot s)[p := Some ctx] ! i = Some c" for i c
    proof (cases "i = p")
      case True
      with that p k(4) hhp show ?thesis by simp
    next
      case False
      with that have sl: "slot s ! i = Some c" by simp
      then have "c \<noteq> ctx" using new that(1) k(4) by (metis nth_mem)
      with k(5) that(1) sl show ?thesis by simp
    qed
    then show ?thesis
      using k nidx cand_bounds [of a j] by (auto simp: slots_wf_def)
  qed
  have "skynet_handle_grab H (h OR harbor s) s = None"
    using hhp k(3,4) j(3) p by (simp add: skynet_handle_grab_def p_def)
  with eq wf' members show ?thesis by (intro exI [of _ "h OR harbor s"] exI [of _ ?s]) simp
qed

text \<open>
  What the table must offer so that \<open>skynet_handle_register\<close> succeeds: the context is not yet
  registered, and a free slot is tried, or the table is full and may still double.
\<close>

definition can_register :: "handle_storage \<times> (nat \<Rightarrow> u32) \<Rightarrow> nat \<Rightarrow> bool" where
  "can_register sH ctx \<longleftrightarrow> (case sH of (s, H) \<Rightarrow> Some ctx \<notin> set (slot s) \<and>
     ((\<exists>i < slot_size s. slot s ! i = None \<and> (i \<noteq> 0 \<or> \<not> wraps s)) \<or>
      (None \<notin> set (slot s) \<and> slot_size s < 2 ^ 24)))"

lemma register_ok:
  assumes wf: "slots_wf (s, H)" and room: "can_register (s, H) ctx"
  shows "\<exists>h s'. skynet_handle_register H ctx s = Some (h, s') \<and> slots_wf (s', H(ctx := h)) \<and>
     skynet_handle_grab H h s = None \<and>
     (\<forall>c. Some c \<in> set (slot s') \<longleftrightarrow> c = ctx \<or> Some c \<in> set (slot s)) \<and>
     name s' = name s \<and> name_count s' = name_count s \<and> name_cap s' = name_cap s"
proof (cases "\<exists>i < slot_size s. slot s ! i = None \<and> (i \<noteq> 0 \<or> \<not> wraps s)")
  case True
  have "Some ctx \<notin> set (slot s)" using room by (simp add: can_register_def)
  from register_found [OF wf True this] obtain h s' where
    r: "skynet_handle_register H ctx s = Some (h, s')" "slots_wf (s', H(ctx := h))"
    "skynet_handle_grab H h s = None"
    "\<forall>c. Some c \<in> set (slot s') \<longleftrightarrow> c = ctx \<or> Some c \<in> set (slot s)"
    "s' = s\<lparr>slot := slot s', handle_index := handle_index s'\<rparr>" by blast
  have "name s' = name s" "name_count s' = name_count s" "name_cap s' = name_cap s"
    by (subst r(5), simp)+
  with r show ?thesis by blast
next
  case False
  then have full: "None \<notin> set (slot s)" "slot_size s < 2 ^ 24" and new: "Some ctx \<notin> set (slot s)"
    using room by (auto simp: can_register_def)
  obtain s1 where s1: "expand_slots H s = Some s1" "slots_wf (s1, H)" "slot_size s1 = 2 * slot_size s"
    "\<forall>c. Some c \<in> set (slot s1) \<longleftrightarrow> Some c \<in> set (slot s)"
    "\<exists>i < slot_size s1. i \<noteq> 0 \<and> slot s1 ! i = None"
    "s1 = s\<lparr>slot := slot s1, slot_size := slot_size s1\<rparr>"
    using expand_ok [OF wf full] by blast
  have free1: "\<exists>i < slot_size s1. slot s1 ! i = None \<and> (i \<noteq> 0 \<or> \<not> wraps s1)" using s1(5) by blast
  have new1: "Some ctx \<notin> set (slot s1)" using s1(4) new by blast
  from register_found [OF s1(2) free1 new1] obtain h s' where
    r: "skynet_handle_register H ctx s1 = Some (h, s')" "slots_wf (s', H(ctx := h))"
    "skynet_handle_grab H h s1 = None"
    "\<forall>c. Some c \<in> set (slot s') \<longleftrightarrow> c = ctx \<or> Some c \<in> set (slot s1)"
    "s' = s1\<lparr>slot := slot s', handle_index := handle_index s'\<rparr>" by blast
  have names: "name s' = name s" "name_count s' = name_count s" "name_cap s' = name_cap s"
    by (subst r(5), subst s1(6), simp)+
  have "reg_scan 0 (handle_index s) s = Some None"
  proof -
    obtain k where k: "2 \<le> k" "k \<le> 24" "slot_size s = 2 ^ k" "length (slot s) = 2 ^ k"
      "\<forall>i c. i < 2 ^ k \<longrightarrow> slot s ! i = Some c \<longrightarrow> hash_of (H c) (2 ^ k) = i"
      "harbor s AND HANDLE_MASK = 0" "1 \<le> unat (handle_index s)" "unat (handle_index s) \<le> 2 ^ 24"
      using wf by (rule slots_wfE)
    have "slot s ! (c mod 2 ^ k) \<noteq> None" for c
      using full(1) k(4) nth_mem [of "c mod 2 ^ k" "slot s"] by (metis mod_less_divisor zero_less_power zero_less_numeral)
    with reg_scan_ok [OF k(3,4) _ tries_start [OF k(7,8)]] show ?thesis by auto
  qed
  then have "skynet_handle_register H ctx s = skynet_handle_register H ctx s1"
    using s1(1) by (subst skynet_handle_register.simps) simp
  moreover have "skynet_handle_grab H h s = None"
    using r(3) grab_iff [OF wf, of h] grab_iff [OF s1(2), of h] s1(4) by (metis not_Some_eq)
  ultimately show ?thesis using r names s1(4) by auto
qed

section \<open>The name table\<close>

lemma strcmp_zero: "strcmp a b = 0 \<longleftrightarrow> a = b"
  by (induction a b rule: strcmp.induct) auto

lemma strcmp_less: "strcmp a b < 0 \<longleftrightarrow> a < b"
  by (induction a b rule: strcmp.induct) auto

definition entries :: "handle_storage \<Rightarrow> handle_name list" where
  "entries s = map the (take (name_count s) (name s))"

definition names_wf :: "handle_storage \<Rightarrow> bool" where
  "names_wf s \<longleftrightarrow> length (name s) = name_cap s \<and> name_count s \<le> name_cap s \<and> 1 \<le> name_cap s \<and>
     None \<notin> set (take (name_count s) (name s)) \<and> sorted_wrt (<) (map hn_name (entries s))"

definition name_map :: "handle_storage \<Rightarrow> bytes \<Rightarrow> u32 option" where
  "name_map s = map_of (map (\<lambda>e. (hn_name e, hn_handle e)) (entries s))"

lemma names_wf_facts:
  assumes "names_wf s"
  shows "take (name_count s) (name s) = map Some (entries s)" "length (entries s) = name_count s"
    "sorted_wrt (<) (map hn_name (entries s))" "length (name s) = name_cap s" "name_count s \<le> name_cap s"
  using assms unfolding names_wf_def entries_def
  by (auto intro!: nth_equalityI simp: in_set_conv_nth)

lemma names_nth: "names_wf s \<Longrightarrow> i < name_count s \<Longrightarrow> name s ! i = Some (entries s ! i)"
  using names_wf_facts(1,2) [of s] by (metis nth_map nth_take)

lemma names_wfI:
  assumes "length (name s) = name_cap s" "name_count s \<le> name_cap s" "1 \<le> name_cap s"
    "take (name_count s) (name s) = map Some es" "sorted_wrt (<) (map hn_name es)"
  shows "names_wf s" "entries s = es"
proof -
  show "entries s = es" using assms(4) by (simp add: entries_def comp_def)
  with assms show "names_wf s" by (simp add: names_wf_def)
qed

declare bsearch.simps [simp del] drop_names.simps [simp del]

lemma bsearch_ok:
  assumes ns: "\<forall>i < length es. i < length ns \<and> ns ! i = Some (es ! i)"
    and srt: "sorted_wrt (<) (map hn_name es)"
    and "0 \<le> b" "b \<le> int (length es)" "e < int (length es)" "- 1 \<le> e"
    and "\<forall>i < length es. int i < b \<longrightarrow> hn_name (es ! i) < nm"
    and "\<forall>i < length es. e < int i \<longrightarrow> nm < hn_name (es ! i)"
  shows "(\<exists>n \<in> set es. hn_name n = nm \<and> bsearch ns nm b e = Some (Inl n)) \<or>
     (\<exists>k \<le> length es. bsearch ns nm b e = Some (Inr (int k)) \<and>
        (\<forall>i < k. hn_name (es ! i) < nm) \<and> (\<forall>i < length es. k \<le> i \<longrightarrow> nm < hn_name (es ! i)))"
  using assms(3-)
proof (induction "nat (e + 1 - b)" arbitrary: b e rule: less_induct)
  case less
  have mono: "hn_name (es ! i) < hn_name (es ! j)" if "i < j" "j < length es" for i j
    using srt that by (simp add: sorted_wrt_iff_nth_less)
  show ?case
  proof (cases "b \<le> e")
    case False
    have all: "\<forall>i < length es. nat b \<le> i \<longrightarrow> nm < hn_name (es ! i)"
      using less.prems(6) False less.prems(1) by auto
    have "bsearch ns nm b e = Some (Inr b)" using False by (subst bsearch.simps) simp
    with all less.prems(1,2,5) show ?thesis by (intro disjI2 exI [of _ "nat b"]) auto
  next
    case True
    define k where "k = nat ((b + e) div 2)"
    have mid: "(b + e) div 2 = int k" "b \<le> int k" "int k \<le> e" "k < length es"
      using True less.prems(1,3) by (auto simp: k_def)
    have eq: "bsearch ns nm b e = (if strcmp (hn_name (es ! k)) nm = 0 then Some (Inl (es ! k))
        else if strcmp (hn_name (es ! k)) nm < 0 then bsearch ns nm (int k + 1) e
        else bsearch ns nm b (int k - 1))"
      using True ns mid by (subst bsearch.simps) (simp add: Let_def)
    consider (found) "hn_name (es ! k) = nm" | (right) "hn_name (es ! k) < nm" | (left) "nm < hn_name (es ! k)"
      by (rule linorder_cases)
    then show ?thesis
    proof cases
      case found
      then show ?thesis using eq mid(4) by (simp add: strcmp_zero)
    next
      case right
      then have eq': "bsearch ns nm b e = bsearch ns nm (int k + 1) e"
        using eq by (auto simp: strcmp_zero strcmp_less)
      have "\<forall>i < length es. int i < int k + 1 \<longrightarrow> hn_name (es ! i) < nm"
        using right mono mid(4) by (metis less_trans of_nat_less_iff zless_add1_eq order_less_irrefl linorder_less_linear of_nat_eq_iff)
      with less.hyps [of e "int k + 1"] less.prems mid show ?thesis unfolding eq' by auto
    next
      case left
      then have eq': "bsearch ns nm b e = bsearch ns nm b (int k - 1)"
        using eq by (auto simp: strcmp_zero strcmp_less)
      have "nm < hn_name (es ! i)" if "i < length es" "int k - 1 < int i" for i
        using left mono [of k i] that by (cases "i = k") (auto intro: less_trans)
      with less.hyps [of "int k - 1" b] less.prems mid show ?thesis unfolding eq' by auto
    qed
  qed
qed

lemma search_names:
  assumes "names_wf s"
  shows "(\<exists>n \<in> set (entries s). hn_name n = nm \<and> bsearch (name s) nm 0 (int (name_count s) - 1) = Some (Inl n)) \<or>
     (\<exists>k \<le> name_count s. bsearch (name s) nm 0 (int (name_count s) - 1) = Some (Inr (int k)) \<and>
        (\<forall>i < k. hn_name (entries s ! i) < nm) \<and>
        (\<forall>i < name_count s. k \<le> i \<longrightarrow> nm < hn_name (entries s ! i)))"
proof -
  note f = names_wf_facts [OF assms]
  have "\<forall>i < length (entries s). i < length (name s) \<and> name s ! i = Some (entries s ! i)"
    using names_nth [OF assms] f(2,4,5) by auto
  from bsearch_ok [OF this f(3), of 0 "int (name_count s) - 1" nm] f(2) show ?thesis by simp
qed

lemma name_map_Some:
  assumes "names_wf s" "n \<in> set (entries s)"
  shows "name_map s (hn_name n) = Some (hn_handle n)"
proof -
  have "distinct (map hn_name (entries s))"
    using names_wf_facts(3) [OF assms(1)] by (simp add: strict_sorted_iff)
  then show ?thesis using assms(2) by (auto simp: name_map_def comp_def intro!: map_of_is_SomeI)
qed

lemma name_map_None: "name_map s nm = None \<longleftrightarrow> nm \<notin> hn_name ` set (entries s)"
  by (auto simp: name_map_def map_of_eq_None_iff image_image)

lemma sorted_insert_at:
  assumes "sorted_wrt (<) (xs :: 'a::linorder list)" "k \<le> length xs"
    "\<forall>i < k. xs ! i < x" "\<forall>i < length xs. k \<le> i \<longrightarrow> x < xs ! i"
  shows "sorted_wrt (<) (take k xs @ x # drop k xs)"
proof -
  have "\<forall>y \<in> set (take k xs). y < x" using assms(2,3) by (auto simp: in_set_conv_nth)
  moreover have "\<forall>y \<in> set (drop k xs). x < y" using assms(2,4) by (auto simp: in_set_conv_nth)
  moreover have "sorted_wrt (<) (take k xs @ drop k xs)" using assms(1) by simp
  ultimately show ?thesis by (auto simp: sorted_wrt_append intro: less_trans)
qed

text \<open>The shift loop opens a gap at \<open>before\<close>.\<close>

lemma shift_up_ok:
  assumes "n < length ns" "k \<le> n"
  shows "length (shift_up n k ns) = length ns \<and>
     (\<forall>i < length ns. i < k \<or> n < i \<longrightarrow> shift_up n k ns ! i = ns ! i) \<and>
     (\<forall>i. k \<le> i \<and> i < n \<longrightarrow> shift_up n k ns ! Suc i = ns ! i)"
  using assms
proof (induction n k ns rule: shift_up.induct)
  case (2 n k ns)
  show ?case
  proof (cases "Suc n > k")
    case True
    let ?ns = "ns[Suc n := ns ! n]"
    have IH: "length (shift_up n k ?ns) = length ns"
      "\<forall>i < length ns. i < k \<or> n < i \<longrightarrow> shift_up n k ?ns ! i = ?ns ! i"
      "\<forall>i. k \<le> i \<and> i < n \<longrightarrow> shift_up n k ?ns ! Suc i = ?ns ! i"
      using 2 True by auto
    have "shift_up n k ?ns ! Suc i = ns ! i" if "k \<le> i" "i < Suc n" for i
    proof (cases "i = n")
      case True
      with IH(2) 2(2) show ?thesis by simp
    next
      case False
      with that IH(3) show ?thesis by simp
    qed
    with IH True show ?thesis by simp
  next
    case False
    with 2 show ?thesis by auto
  qed
qed auto

lemma insert_before_ok:
  fixes nm h
  assumes wf: "names_wf s" and k: "k \<le> name_count s"
    and room: "name_count s < name_cap s \<or> name_cap s * 2 \<le> MAX_SLOT_SIZE"
  defines "e \<equiv> \<lparr>hn_name = nm, hn_handle = h\<rparr>"
  shows "\<exists>s'. insert_name_before nm h k s = Some s' \<and> length (name s') = name_cap s' \<and>
     name_count s' = Suc (name_count s) \<and> name_count s' \<le> name_cap s' \<and> 1 \<le> name_cap s' \<and>
     take (name_count s') (name s') = map Some (take k (entries s) @ e # drop k (entries s)) \<and>
     s' = s\<lparr>name := name s', name_count := name_count s', name_cap := name_cap s'\<rparr>"
proof (cases "name_count s \<ge> name_cap s")
  case True
  note f = names_wf_facts [OF wf]
  let ?n = "name_count s" and ?es = "entries s"
  have full: "name_cap s = ?n" "name s = map Some ?es" "1 \<le> ?n"
    using True f wf by (auto simp: names_wf_def)
  let ?ns = "map Some (take k ?es) @ [Some e] @ map Some (drop k ?es) @ replicate (?n * 2 - Suc ?n) None"
  let ?s = "s\<lparr>name_cap := ?n * 2, name := ?ns, name_count := Suc ?n\<rparr>"
  have cut: "take (?n - k) (drop k (name s)) = map Some (drop k ?es)" "take k (name s) = map Some (take k ?es)"
    using full f(2) by (simp_all add: take_map drop_map)
  have "insert_name_before nm h k s = Some ?s"
    using True room full(1) k f(2) unfolding insert_name_before_def cut
    by (simp add: bind_c_assert e_def list_update_append)
  then show ?thesis using full(3) k f(2) by (intro exI [of _ ?s]) (simp add: Suc_diff_le)
next
  case False
  note f = names_wf_facts [OF wf]
  let ?n = "name_count s" and ?es = "entries s"
  let ?sh = "shift_up ?n k (name s)"
  have n: "?n < length (name s)" using False f by simp
  note sh = shift_up_ok [OF n k]
  let ?ns = "?sh[k := Some e]"
  let ?s = "s\<lparr>name := ?ns, name_count := Suc ?n\<rparr>"
  have "insert_name_before nm h k s = Some ?s"
    using False n k sh by (simp add: insert_name_before_def e_def)
  moreover have "take (Suc ?n) ?ns = map Some (take k ?es @ e # drop k ?es)"
  proof (rule nth_equalityI)
    fix i assume "i < length (take (Suc ?n) ?ns)"
    then have i: "i \<le> ?n" using sh by simp
    consider "i < k" | "i = k" | j where "i = Suc j" "k \<le> j" "j < ?n"
      using i by (metis Suc_le_eq linorder_neqE_nat not0_implies_Suc not_less_zero less_Suc_eq_le)
    then show "take (Suc ?n) ?ns ! i = map Some (take k ?es @ e # drop k ?es) ! i"
    proof cases
      case 1
      then show ?thesis using sh n i k f(2) names_nth [OF wf, of i] by (simp add: nth_append)
    next
      case 2
      then show ?thesis using sh n i k f(2) by (simp add: nth_append)
    next
      case 3
      then show ?thesis using sh n i k f(2) names_nth [OF wf, of j] by (simp add: nth_append)
    qed
  qed (use sh n k f(2) in simp)
  ultimately show ?thesis using sh n False wf by (intro exI [of _ ?s]) (simp add: names_wf_def)
qed

lemma map_of_insert:
  "nm \<notin> hn_name ` set es \<Longrightarrow>
     map_of (map (\<lambda>e. (hn_name e, hn_handle e)) (take k es @ \<lparr>hn_name = nm, hn_handle = h\<rparr> # drop k es)) =
     (map_of (map (\<lambda>e. (hn_name e, hn_handle e)) es))(nm \<mapsto> h)"
proof -
  assume nin: "nm \<notin> hn_name ` set es"
  let ?f = "\<lambda>e. (hn_name e, hn_handle e)"
  have "nm \<notin> hn_name ` set (take k es)" using nin by (auto dest: in_set_takeD)
  then have n: "map_of (map ?f (take k es)) nm = None" by (auto simp: map_of_eq_None_iff image_image)
  have "map_of (map ?f es) = map_of (map ?f (take k es) @ map ?f (drop k es))"
    by (simp flip: map_append)
  with n show ?thesis by (auto simp: map_add_def fun_eq_iff split: option.splits)
qed

text \<open>Naming a handle: an existing name is refused, a new one is added to the map.\<close>

lemma namehandle_ok:
  assumes wf: "names_wf s"
    and room: "name_count s < name_cap s \<or> name_cap s * 2 \<le> MAX_SLOT_SIZE"
  shows "case name_map s nm of
       Some _ \<Rightarrow> skynet_handle_namehandle h nm s = Some (None, s)
     | None \<Rightarrow> \<exists>s'. skynet_handle_namehandle h nm s = Some (Some nm, s') \<and> names_wf s' \<and>
         name_map s' = (name_map s)(nm \<mapsto> h) \<and>
         s' = s\<lparr>name := name s', name_count := name_count s', name_cap := name_cap s'\<rparr>"
  using search_names [OF wf, of nm]
proof (elim disjE bexE exE conjE)
  fix n assume "n \<in> set (entries s)" "hn_name n = nm"
    "bsearch (name s) nm 0 (int (name_count s) - 1) = Some (Inl n)"
  with name_map_Some [OF wf, of n] show ?thesis
    by (simp add: skynet_handle_namehandle_def insert_name_def)
next
  fix k assume k: "k \<le> name_count s" "bsearch (name s) nm 0 (int (name_count s) - 1) = Some (Inr (int k))"
    "\<forall>i < k. hn_name (entries s ! i) < nm" "\<forall>i < name_count s. k \<le> i \<longrightarrow> nm < hn_name (entries s ! i)"
  note f = names_wf_facts [OF wf]
  let ?es = "take k (entries s) @ \<lparr>hn_name = nm, hn_handle = h\<rparr> # drop k (entries s)"
  have nin: "nm \<notin> hn_name ` set (entries s)"
    using k(3,4) f(2) by (auto simp: in_set_conv_nth) (metis less_irrefl linorder_not_less)
  obtain s' where s': "insert_name_before nm h k s = Some s'" "length (name s') = name_cap s'"
    "name_count s' \<le> name_cap s'" "1 \<le> name_cap s'" "take (name_count s') (name s') = map Some ?es"
    "s' = s\<lparr>name := name s', name_count := name_count s', name_cap := name_cap s'\<rparr>"
    using insert_before_ok [OF wf k(1) room, of nm h] by blast
  have "sorted_wrt (<) (map hn_name ?es)"
    using sorted_insert_at [OF f(3), of k nm] k f(2) by (simp add: take_map drop_map)
  note w = names_wfI [OF s'(2-5) this]
  have "name_map s' = (name_map s)(nm \<mapsto> h)"
    unfolding name_map_def w(2) by (rule map_of_insert [OF nin])
  moreover have "name_map s nm = None" using nin by (simp add: name_map_None)
  moreover have "skynet_handle_namehandle h nm s = Some (Some nm, s')"
    using k(2) s'(1) by (simp add: skynet_handle_namehandle_def insert_name_def)
  ultimately show ?thesis using w(1) s'(6) by auto
qed

lemma findname_ok:
  assumes "names_wf s"
  shows "skynet_handle_findname nm s = Some (case name_map s nm of Some h \<Rightarrow> h | None \<Rightarrow> 0)"
  using search_names [OF assms, of nm]
proof (elim disjE bexE exE conjE)
  fix n assume "n \<in> set (entries s)" "hn_name n = nm"
    "bsearch (name s) nm 0 (int (name_count s) - 1) = Some (Inl n)"
  with name_map_Some [OF assms, of n] show ?thesis by (simp add: skynet_handle_findname_def)
next
  fix k assume k: "bsearch (name s) nm 0 (int (name_count s) - 1) = Some (Inr (int k))"
    "\<forall>i < k. hn_name (entries s ! i) < nm" "\<forall>i < name_count s. k \<le> i \<longrightarrow> nm < hn_name (entries s ! i)"
  have "nm \<notin> hn_name ` set (entries s)"
    using k(2,3) names_wf_facts(2) [OF assms] by (auto simp: in_set_conv_nth) (metis less_irrefl linorder_not_less)
  then have "name_map s nm = None" by (simp add: name_map_None)
  with k(1) show ?thesis by (simp add: skynet_handle_findname_def)
qed


section \<open>Retirement\<close>

lemma drop_names_ok:
  assumes "length es = n" "n \<le> length ns" "j \<le> i" "i \<le> n"
    and "take j ns = map Some (filter (\<lambda>e. hn_handle e \<noteq> h) (take i es))"
    and "\<forall>m. i \<le> m \<and> m < n \<longrightarrow> ns ! m = Some (es ! m)"
  shows "\<exists>j' ns'. drop_names h i j n ns = Some (j', ns') \<and> length ns' = length ns \<and> j' \<le> n \<and>
     take j' ns' = map Some (filter (\<lambda>e. hn_handle e \<noteq> h) es)"
  using assms
proof (induction "n - i" arbitrary: i j ns rule: less_induct)
  case less
  show ?case
  proof (cases "i < n")
    case False
    then show ?thesis using less.prems by (subst drop_names.simps) simp
  next
    case True
    let ?e = "es ! i"
    have cell: "arr_get ns (int i) = Some (Some ?e)" using True less.prems(2,6) by simp
    have tk: "take (Suc i) es = take i es @ [?e]"
      using True less.prems(1) by (simp add: take_Suc_conv_app_nth)
    show ?thesis
    proof (cases "hn_handle ?e = h")
      case drop: True
      have eq: "drop_names h i j n ns = drop_names h (Suc i) j n ns"
        using True drop cell by (subst drop_names.simps) simp
      show ?thesis unfolding eq
        using less.prems True drop tk by (intro less.hyps) auto
    next
      case keep: False
      have eq: "drop_names h i j n ns = drop_names h (Suc i) (Suc j) n (ns[j := Some ?e])"
      proof (cases "i = j")
        case True
        then have "ns[j := Some ?e] = ns" using \<open>i < n\<close> less.prems(6) by (metis le_refl list_update_id)
        with True \<open>i < n\<close> keep cell show ?thesis by (subst drop_names.simps) simp
      next
        case False
        with True keep cell less.prems(2,3) show ?thesis by (subst drop_names.simps) simp
      qed
      have "take (Suc j) (ns[j := Some ?e]) = take j ns @ [Some ?e]"
        using True less.prems(2,3) by (simp add: take_Suc_conv_app_nth)
      then have "take (Suc j) (ns[j := Some ?e]) = map Some (filter (\<lambda>e. hn_handle e \<noteq> h) (take (Suc i) es))"
        using less.prems(5) keep tk by simp
      moreover have "\<forall>m. Suc i \<le> m \<and> m < n \<longrightarrow> ns[j := Some ?e] ! m = Some (es ! m)"
        using less.prems(3,6) by auto
      ultimately show ?thesis unfolding eq
        using less.hyps [of "Suc i" "ns[j := Some ?e]" "Suc j"] less.prems(1-4) True by auto
    qed
  qed
qed

text \<open>The whole table is well formed.\<close>

definition handles_wf :: "handle_storage \<times> (nat \<Rightarrow> u32) \<Rightarrow> bool" where
  "handles_wf sH \<longleftrightarrow> slots_wf sH \<and> names_wf (fst sH)"

definition handle_of :: "handle_storage \<times> (nat \<Rightarrow> u32) \<Rightarrow> u32 \<Rightarrow> nat option" where
  "handle_of sH h = skynet_handle_grab (snd sH) h (fst sH)"

lemma sorted_filter_names:
  "sorted_wrt (<) (map hn_name es) \<Longrightarrow> sorted_wrt (<) (map hn_name (filter P es))"
  by (induction es) auto

lemma map_of_filter_names:
  "sorted_wrt (<) (map hn_name es) \<Longrightarrow>
     map_of (map (\<lambda>e. (hn_name e, hn_handle e)) (filter (\<lambda>e. hn_handle e \<noteq> h) es)) nm =
     (case map_of (map (\<lambda>e. (hn_name e, hn_handle e)) es) nm of
        Some h' \<Rightarrow> if h' = h then None else Some h' | None \<Rightarrow> None)"
proof (induction es)
  case (Cons e es)
  have "map_of (map (\<lambda>e. (hn_name e, hn_handle e)) es) (hn_name e) = None"
    using Cons.prems by (auto simp: map_of_eq_None_iff image_image)
  with Cons show ?case by auto
qed simp

lemma retire_ok:
  assumes "slots_wf (s, H)" and names: "names_wf s"
  shows "\<exists>s'. skynet_handle_retire H h s = Some (skynet_handle_grab H h s, s') \<and>
     slots_wf (s', H) \<and> names_wf s' \<and>
     (\<forall>h'. skynet_handle_grab H h' s' = (if h' = h then None else skynet_handle_grab H h' s)) \<and>
     (skynet_handle_grab H h s = None \<longrightarrow> s' = s) \<and>
     (skynet_handle_grab H h s \<noteq> None \<longrightarrow> (\<forall>nm. name_map s' nm =
        (case name_map s nm of Some h' \<Rightarrow> if h' = h then None else Some h' | None \<Rightarrow> None)))"
proof -
  obtain k where k: "2 \<le> k" "k \<le> 24" "slot_size s = 2 ^ k" "length (slot s) = 2 ^ k"
    "\<forall>i c. i < 2 ^ k \<longrightarrow> slot s ! i = Some c \<longrightarrow> hash_of (H c) (2 ^ k) = i"
    "harbor s AND HANDLE_MASK = 0" "1 \<le> unat (handle_index s)" "unat (handle_index s) \<le> 2 ^ 24"
    using assms(1) by (rule slots_wfE)
  let ?p = "hash_of h (2 ^ k)"
  have p: "?p < 2 ^ k" by (rule hash_lt)
  show ?thesis
  proof (cases "skynet_handle_grab H h s")
    case None
    have "skynet_handle_retire H h s = Some (None, s)"
      using None p k(3,4) by (auto simp: skynet_handle_grab_def skynet_handle_retire_def
          split: option.splits if_splits)
    with None assms show ?thesis by (intro exI [of _ s]) auto
  next
    case (Some c)
    then have c: "slot s ! ?p = Some c" "H c = h"
      using p k(3,4) by (auto simp: skynet_handle_grab_def split: option.splits if_splits)
    note f = names_wf_facts [OF names]
    have "\<forall>m. 0 \<le> m \<and> m < name_count s \<longrightarrow> name s ! m = Some (entries s ! m)"
      using names_nth [OF names] by simp
    from drop_names_ok [OF f(2) _ _ _ _ this, of 0 h] f(4,5) obtain j ns where
      d: "drop_names h 0 0 (name_count s) (name s) = Some (j, ns)" "length ns = name_cap s"
      "j \<le> name_count s" "take j ns = map Some (filter (\<lambda>e. hn_handle e \<noteq> h) (entries s))"
      by auto
    let ?s = "s\<lparr>slot := (slot s)[?p := None], name := ns, name_count := j\<rparr>"
    have eq: "skynet_handle_retire H h s = Some (Some c, ?s)"
      using c d(1) p k(3,4) by (simp add: skynet_handle_retire_def)
    have "1 \<le> name_cap s" using names by (simp add: names_wf_def)
    then have nw: "names_wf ?s" "entries ?s = filter (\<lambda>e. hn_handle e \<noteq> h) (entries s)"
      using names_wfI [of ?s "filter (\<lambda>e. hn_handle e \<noteq> h) (entries s)"] d f(5)
        sorted_filter_names [OF f(3)] by auto
    have wf': "slots_wf (?s, H)"
      using k p by (auto simp: slots_wf_def nth_list_update)
    have "skynet_handle_grab H h' ?s = (if h' = h then None else skynet_handle_grab H h' s)" for h'
    proof (cases "hash_of h' (2 ^ k) = ?p")
      case True
      with c k(3,4) p show ?thesis by (auto simp: skynet_handle_grab_def)
    next
      case False
      with k(3,4) p hash_lt [of h' k] show ?thesis by (auto simp: skynet_handle_grab_def)
    qed
    moreover have "\<forall>nm. name_map ?s nm =
        (case name_map s nm of Some h' \<Rightarrow> if h' = h then None else Some h' | None \<Rightarrow> None)"
      unfolding name_map_def nw(2) using map_of_filter_names [OF f(3)] by blast
    ultimately show ?thesis using Some eq wf' nw(1) by (intro exI [of _ ?s]) simp
  qed
qed

lemma finite_handles:
  assumes "slots_wf (s, H)"
  shows "finite (dom (\<lambda>h. skynet_handle_grab H h s))"
proof -
  have "dom (\<lambda>h. skynet_handle_grab H h s) \<subseteq> H ` (the ` set (slot s))"
    using grab_iff [OF assms] by force
  then show ?thesis by (rule finite_subset) simp
qed

lemma handle_init_ok: "handles_wf (skynet_handle_init hb, H)"
proof -
  have "\<exists>k \<ge> 2. k \<le> 24 \<and> (4 :: nat) = 2 ^ k" by (rule exI [of _ 2]) simp
  moreover have "push_bit 24 (word_of_int hb AND 0xff) AND (0xffffff :: u32) = 0"
  proof -
    have m: "(0xffffff :: u32) = mask 24" by (simp add: mask_eq_exp_minus_1)
    show ?thesis unfolding m by (rule bit_word_eqI) (auto simp: bit_simps)
  qed
  ultimately show ?thesis
    by (simp add: handles_wf_def slots_wf_def names_wf_def skynet_handle_init_def DEFAULT_SLOT_SIZE_def
        HANDLE_REMOTE_SHIFT_def HANDLE_MASK_def entries_def)
qed


section \<open>The interface\<close>

lemma register_context_ok:
  assumes "handles_wf (s, H)" "can_register (s, H) ctx"
  shows "\<exists>h s'. register_context ctx (s, H) = Some (h, s', H(ctx := h)) \<and>
     handles_wf (s', H(ctx := h)) \<and> handle_of (s, H) h = None \<and>
     handle_of (s', H(ctx := h)) = (handle_of (s, H))(h \<mapsto> ctx) \<and> name_map s' = name_map s"
proof -
  have wf: "slots_wf (s, H)" "names_wf s" using assms(1) by (simp_all add: handles_wf_def)
  from register_ok [OF wf(1) assms(2)] obtain h s' where
    r: "skynet_handle_register H ctx s = Some (h, s')" "slots_wf (s', H(ctx := h))"
    "skynet_handle_grab H h s = None" "\<forall>c. Some c \<in> set (slot s') \<longleftrightarrow> c = ctx \<or> Some c \<in> set (slot s)"
    "name s' = name s" "name_count s' = name_count s" "name_cap s' = name_cap s" by blast
  have "Some ctx \<notin> set (slot s)" using assms(2) by (simp add: can_register_def)
  moreover have "\<forall>c. Some c \<in> set (slot s) \<longrightarrow> H c \<noteq> h" using r(3) grab_iff [OF wf(1), of h] by auto
  ultimately have "handle_of (s', H(ctx := h)) h' = ((handle_of (s, H))(h \<mapsto> ctx)) h'" for h'
    using r(4) grab_iff [OF wf(1)] grab_iff [OF r(2)]
    by (intro option_eqI) (auto simp: handle_of_def split: if_splits)
  moreover have "names_wf s'" "name_map s' = name_map s"
    using wf(2) r(5-7) by (simp_all add: names_wf_def entries_def name_map_def)
  ultimately show ?thesis using r(1-3)
    by (intro exI [of _ h] exI [of _ s']) (auto simp: register_context_def handles_wf_def handle_of_def)
qed

definition retire_handle :: "u32 \<Rightarrow> handle_storage \<times> (nat \<Rightarrow> u32) \<Rightarrow> (handle_storage \<times> (nat \<Rightarrow> u32)) option" where
  "retire_handle h sH = do { (r, s) \<leftarrow> skynet_handle_retire (snd sH) h (fst sH); Some (s, snd sH) }"

interpretation handles: alloc_store handles_wf handle_of retire_handle can_register register_context
proof (unfold_locales)
  fix sH :: "handle_storage \<times> (nat \<Rightarrow> u32)" and h
  assume "handles_wf sH"
  then have "slots_wf (fst sH, snd sH)" "names_wf (fst sH)" by (auto simp: handles_wf_def)
  from retire_ok [OF this, of h] obtain s' where
    "skynet_handle_retire (snd sH) h (fst sH) = Some (skynet_handle_grab (snd sH) h (fst sH), s')"
    "slots_wf (s', snd sH)" "names_wf s'"
    "\<forall>h'. skynet_handle_grab (snd sH) h' s' = (if h' = h then None else skynet_handle_grab (snd sH) h' (fst sH))"
    by blast
  then show "\<exists>s'. retire_handle h sH = Some s' \<and> handles_wf s' \<and> handle_of s' = (handle_of sH)(h := None)"
    by (intro exI [of _ "(s', snd sH)"]) (auto simp: retire_handle_def handles_wf_def handle_of_def)
next
  fix sH :: "handle_storage \<times> (nat \<Rightarrow> u32)"
  assume "handles_wf sH"
  then have "slots_wf (fst sH, snd sH)" by (auto simp: handles_wf_def)
  from finite_handles [OF this] show "finite (dom (handle_of sH))" by (simp add: handle_of_def [abs_def])
next
  fix sH :: "handle_storage \<times> (nat \<Rightarrow> u32)" and ctx
  assume "handles_wf sH" "can_register sH ctx"
  then obtain h s' where "register_context ctx sH = Some (h, s', (snd sH)(ctx := h))"
    "handles_wf (s', (snd sH)(ctx := h))" "handle_of sH h = None"
    "handle_of (s', (snd sH)(ctx := h)) = (handle_of sH)(h \<mapsto> ctx)"
    using register_context_ok [of "fst sH" "snd sH" ctx] by auto
  then show "\<exists>h s'. register_context ctx sH = Some (h, s') \<and>
      handles_wf s' \<and> handle_of sH h = None \<and> handle_of s' = (handle_of sH)(h \<mapsto> ctx)"
    by blast
qed

text \<open>Retiring every handle empties the table when the released contexts register nothing.\<close>

lemma retire_pass_ok:
  fixes rel :: "nat \<Rightarrow> handle_storage \<times> (nat \<Rightarrow> u32) \<times> 'w \<Rightarrow> handle_storage \<times> (nat \<Rightarrow> u32) \<times> 'w"
  assumes rel: "\<And>c s H w. \<exists>w'. rel c (s, H, w) = (s, H, w')"
  shows "slots_wf (s, H) \<Longrightarrow> names_wf s \<Longrightarrow> i \<le> slot_size s \<Longrightarrow> slot_size s - i < fuel \<Longrightarrow>
     \<forall>c. Some c \<in> set (slot s) \<longrightarrow> H c \<noteq> 0 \<Longrightarrow> \<forall>j<i. slot s ! j = None \<Longrightarrow>
     \<exists>n' s' w'. retire_pass rel fuel i n (s, H, w) = Some (n', s', H, w') \<and> slots_wf (s', H) \<and>
       names_wf s' \<and> slot_size s' = slot_size s \<and> (\<forall>j < slot_size s'. slot s' ! j = None) \<and>
       n \<le> n' \<and> ((\<forall>j < slot_size s. slot s ! j = None) \<longrightarrow> n' = n)"
proof (induction fuel arbitrary: i n s w)
  case (Suc fuel)
  have len: "length (slot s) = slot_size s" using Suc.prems(1) by (simp add: slots_wf_def)
  show ?case
  proof (cases "i < slot_size s")
    case False
    with Suc.prems show ?thesis by auto
  next
    case True
    show ?thesis
    proof (cases "slot s ! i")
      case None
      have "retire_pass rel (Suc fuel) i n (s, H, w) = retire_pass rel fuel (Suc i) n (s, H, w)"
        using True None len by simp
      moreover have "\<forall>j<Suc i. slot s ! j = None" using Suc.prems(6) None by (auto simp: less_Suc_eq)
      ultimately show ?thesis using Suc.IH [of s "Suc i" n w] Suc.prems True by auto
    next
      case (Some c)
      then have c: "Some c \<in> set (slot s)" using True len by (metis nth_mem)
      then have ne: "H c \<noteq> 0" and grab: "skynet_handle_grab H (H c) s = Some c"
        using Suc.prems(5) grab_iff [OF Suc.prems(1)] by auto
      from retire_ok [OF Suc.prems(1,2), of "H c"] grab obtain s1 where
        s1: "skynet_handle_retire H (H c) s = Some (Some c, s1)" "slots_wf (s1, H)" "names_wf s1" by auto
      have s1_slot: "slot s1 = (slot s)[i := None]" "slot_size s1 = slot_size s"
      proof -
        have "hash_of (H c) (slot_size s) = i"
          using Suc.prems(1) True Some by (auto simp: slots_wf_def)
        with s1(1) Some True len show "slot s1 = (slot s)[i := None]" "slot_size s1 = slot_size s"
          by (auto simp: skynet_handle_retire_def elim!: option_bind_SomeE)
      qed
      obtain w1 where w1: "rel c (s1, H, w) = (s1, H, w1)" using rel by blast
      have "retire_pass rel (Suc fuel) i n (s, H, w) = retire_pass rel fuel (Suc i) (Suc n) (s1, H, w1)"
        using True Some len ne s1(1) w1 by simp
      moreover have "\<forall>j<Suc i. slot s1 ! j = None"
        using Suc.prems(6) s1_slot True len by (auto simp: less_Suc_eq nth_list_update)
      moreover have "\<forall>c. Some c \<in> set (slot s1) \<longrightarrow> H c \<noteq> 0"
        using Suc.prems(5) s1_slot set_update_subset_insert [of "slot s" i None] by auto
      moreover have "Suc i \<le> slot_size s1" "slot_size s1 - Suc i < fuel"
        using Suc.prems(3,4) True s1_slot(2) by auto
      moreover note Suc.IH [of s1 "Suc i" "Suc n" w1, OF s1(2,3)]
      ultimately obtain n' s' w' where
        r: "retire_pass rel (Suc fuel) i n (s, H, w) = Some (n', s', H, w')" "slots_wf (s', H)"
        "names_wf s'" "slot_size s' = slot_size s1" "\<forall>j < slot_size s'. slot s' ! j = None" "Suc n \<le> n'"
        by metis
      have "\<not> (\<forall>j < slot_size s. slot s ! j = None)" using True Some by auto
      with r s1_slot(2) show ?thesis by (intro exI [of _ n'] exI [of _ s'] exI [of _ w']) simp
    qed
  qed
qed simp

lemma retireall_ok:
  fixes rel :: "nat \<Rightarrow> handle_storage \<times> (nat \<Rightarrow> u32) \<times> 'w \<Rightarrow> handle_storage \<times> (nat \<Rightarrow> u32) \<times> 'w"
  assumes rel: "\<And>c s H w. \<exists>w'. rel c (s, H, w) = (s, H, w')"
    and wf: "slots_wf (s, H)" "names_wf s" and nz: "\<forall>c. Some c \<in> set (slot s) \<longrightarrow> H c \<noteq> 0"
    and fuel: "slot_size s < pf" "2 \<le> fuel"
  shows "\<exists>s' w'. skynet_handle_retireall rel pf fuel (s, H, w) = Some (s', H, w') \<and>
     (\<forall>h. skynet_handle_grab H h s' = None)"
proof -
  obtain f where f: "fuel = Suc (Suc f)" using fuel(2) by (metis add_2_eq_Suc le_Suc_ex)
  obtain n1 s1 w1 where 1: "retire_pass rel pf 0 0 (s, H, w) = Some (n1, s1, H, w1)" "slots_wf (s1, H)"
    "names_wf s1" "slot_size s1 = slot_size s" "\<forall>j < slot_size s1. slot s1 ! j = None"
    using retire_pass_ok [where rel = rel and s = s and H = H and i = 0 and fuel = pf and n = 0 and w = w,
        OF rel wf _ _ nz] fuel(1) by auto
  have len: "length (slot s1) = slot_size s1" using 1(2) by (simp add: slots_wf_def)
  have nz1: "\<forall>c. Some c \<in> set (slot s1) \<longrightarrow> H c \<noteq> 0" using 1(5) len by (auto simp: in_set_conv_nth)
  have gone: "skynet_handle_grab H h s1 = None" for h
    using grab_iff [OF 1(2), of h] nth_all_None [of "slot s1"] 1(5) len
    by (intro option_eqI) simp
  obtain s2 w2 where 2: "retire_pass rel pf 0 0 (s1, H, w1) = Some (0, s2, H, w2)" "slots_wf (s2, H)"
    "\<forall>j < slot_size s2. slot s2 ! j = None"
    using retire_pass_ok [where rel = rel and s = s1 and H = H and i = 0 and fuel = pf and n = 0 and w = w1,
        OF rel 1(2,3) _ _ nz1] fuel(1) 1(4,5) by auto
  have len2: "length (slot s2) = slot_size s2" using 2(2) by (simp add: slots_wf_def)
  have gone2: "skynet_handle_grab H h s2 = None" for h
    using grab_iff [OF 2(2), of h] nth_all_None [of "slot s2"] 2(3) len2
    by (intro option_eqI) simp
  show ?thesis using 1(1) 2(1) gone gone2 by (cases "n1 = 0") (simp_all add: f)
qed


lemma namehandle_dup:
  assumes "names_wf s" "name_map s nm = Some h'"
  shows "skynet_handle_namehandle h nm s = Some (None, s)"
  using search_names [OF assms(1), of nm]
proof (elim disjE bexE exE conjE)
  fix k assume k: "\<forall>i < k. hn_name (entries s ! i) < nm"
    "\<forall>i < name_count s. k \<le> i \<longrightarrow> nm < hn_name (entries s ! i)"
  have "nm \<notin> hn_name ` set (entries s)"
    using k names_wf_facts(2) [OF assms(1)] by (auto simp: in_set_conv_nth) (metis less_irrefl linorder_not_less)
  then show ?thesis using assms(2) by (simp flip: name_map_None)
qed (simp add: skynet_handle_namehandle_def insert_name_def)

section \<open>Properties\<close>

text \<open>
  C18: registering a context succeeds whenever the scan tries a free slot or the table is full
  and may double; the handle is fresh, looking it up finds the context, every other handle
  keeps its context, and the names are untouched.
\<close>

theorem handle_register_fresh:
  assumes "handles_wf (s, H)" "can_register (s, H) ctx"
  shows "\<exists>h s'. register_context ctx (s, H) = Some (h, s', H(ctx := h)) \<and>
     handles_wf (s', H(ctx := h)) \<and> skynet_handle_grab H h s = None \<and>
     skynet_handle_grab (H(ctx := h)) h s' = Some ctx \<and>
     (\<forall>h'. h' \<noteq> h \<longrightarrow> skynet_handle_grab (H(ctx := h)) h' s' = skynet_handle_grab H h' s) \<and>
     (\<forall>nm. skynet_handle_findname nm s' = skynet_handle_findname nm s)"
proof -
  obtain h s' where r: "register_context ctx (s, H) = Some (h, s', H(ctx := h))"
    "handles_wf (s', H(ctx := h))" "handle_of (s, H) h = None"
    "handle_of (s', H(ctx := h)) = (handle_of (s, H))(h \<mapsto> ctx)" "name_map s' = name_map s"
    using register_context_ok [OF assms] by blast
  have grab: "skynet_handle_grab (H(ctx := h)) h' s' = ((handle_of (s, H))(h \<mapsto> ctx)) h'" for h'
    by (simp add: handle_of_def flip: r(4))
  have "skynet_handle_findname nm s' = skynet_handle_findname nm s" for nm
    using findname_ok [of s nm] findname_ok [of s' nm] r(2,5) assms(1) by (simp add: handles_wf_def)
  with r grab show ?thesis
    by (intro exI [of _ h] exI [of _ s']) (simp add: handle_of_def)
qed

lemma handle_register_fresh_witness:
  "\<exists>h s'. register_context 7 (skynet_handle_init 1, \<lambda>_. 0) = Some (h, s', (\<lambda>_. 0)(7 := h)) \<and>
     skynet_handle_grab ((\<lambda>_. 0)(7 := h)) h s' = Some 7"
proof -
  have "can_register (skynet_handle_init 1, \<lambda>_. 0) 7"
    by (auto simp: can_register_def skynet_handle_init_def DEFAULT_SLOT_SIZE_def intro!: exI [of _ 1])
  from handle_register_fresh [OF handle_init_ok this] show ?thesis by blast
qed

text \<open>
  C19: retiring a handle gives back exactly the context registered under it, so that it is
  released once; afterwards the handle and every name bound to it are gone, and all other
  handles and names are unchanged. A handle that is not registered changes nothing.
\<close>

theorem handle_retire_removes:
  assumes "handles_wf (s, H)"
  shows "\<exists>s'. skynet_handle_retire H h s = Some (skynet_handle_grab H h s, s') \<and> handles_wf (s', H) \<and>
     (\<forall>h'. skynet_handle_grab H h' s' = (if h' = h then None else skynet_handle_grab H h' s)) \<and>
     (if skynet_handle_grab H h s = None then s' = s
      else \<forall>nm. name_map s' nm = (if name_map s nm = Some h then None else name_map s nm))"
proof -
  have wf: "slots_wf (s, H)" "names_wf s" using assms by (simp_all add: handles_wf_def)
  have out: "(case nm of Some h' \<Rightarrow> if h' = h then None else Some h' | None \<Rightarrow> None) = (if nm = Some h then None else nm)"
    for nm by (cases nm) auto
  from retire_ok [OF wf, of h] show ?thesis unfolding handles_wf_def fst_conv out
    by (elim exE conjE, intro exI conjI) (assumption | simp | metis)+
qed

lemma handle_retire_removes_witness:
  "\<exists>s'. skynet_handle_retire (\<lambda>_. 0) 5 (skynet_handle_init 1) =
     Some (skynet_handle_grab (\<lambda>_. 0) 5 (skynet_handle_init 1), s')"
  using handle_retire_removes [OF handle_init_ok, of "\<lambda>_. 0" 5 1] by blast

text \<open>
  C20: naming a handle with a new name adds exactly that name to the sorted table: the binary
  search of findname then finds it, answers as before for every other name, and a second
  registration of the name is refused and changes nothing.
\<close>

theorem handle_names:
  assumes "names_wf s" "name_count s < name_cap s \<or> name_cap s * 2 \<le> MAX_SLOT_SIZE"
    and "name_map s nm = None"
  shows "\<exists>s'. skynet_handle_namehandle h nm s = Some (Some nm, s') \<and> names_wf s' \<and>
     (\<forall>nm'. skynet_handle_findname nm' s' = (if nm' = nm then Some h else skynet_handle_findname nm' s)) \<and>
     (\<forall>h'. skynet_handle_namehandle h' nm s' = Some (None, s'))"
proof -
  obtain s' where s': "skynet_handle_namehandle h nm s = Some (Some nm, s')" "names_wf s'"
    "name_map s' = (name_map s)(nm \<mapsto> h)"
    using namehandle_ok [OF assms(1,2), where nm = nm and h = h] assms(3) by auto
  have "\<forall>nm'. skynet_handle_findname nm' s' = (if nm' = nm then Some h else skynet_handle_findname nm' s)"
    using findname_ok [OF s'(2)] findname_ok [OF assms(1)] s'(3) by simp
  moreover have "\<forall>h'. skynet_handle_namehandle h' nm s' = Some (None, s')"
    using namehandle_dup [OF s'(2), where nm = nm] s'(3) by simp
  ultimately show ?thesis using s'(1,2) by blast
qed

lemma handle_names_witness:
  "\<exists>s'. skynet_handle_namehandle 9 [108, 117, 97] (skynet_handle_init 1) = Some (Some [108, 117, 97], s') \<and>
     skynet_handle_findname [108, 117, 97] s' = Some 9"
proof -
  have "names_wf (skynet_handle_init 1)" using handle_init_ok [of 1 "\<lambda>_. 0"] by (simp add: handles_wf_def)
  moreover have "name_count (skynet_handle_init 1) < name_cap (skynet_handle_init 1) \<or>
      name_cap (skynet_handle_init 1) * 2 \<le> MAX_SLOT_SIZE" by (simp add: skynet_handle_init_def)
  moreover have "name_map (skynet_handle_init 1) [108, 117, 97] = None"
    by (simp add: name_map_None entries_def skynet_handle_init_def)
  ultimately show ?thesis using handle_names [of "skynet_handle_init 1" "[108, 117, 97]" 9] by fastforce
qed



text \<open>
  C22: when the handles wrap during the scan and slot 0 is the only free slot, the scan never
  tries it (handle 0 is reserved), the table is doubled although it is not full, and the
  rehash loop dereferences the null pointer of slot 0.
\<close>

theorem handle_register_wrap_crash:
  assumes "slots_wf (s, H)" "wraps s" "slot s ! 0 = None" "\<forall>i < slot_size s. i \<noteq> 0 \<longrightarrow> slot s ! i \<noteq> None"
  shows "skynet_handle_register H ctx s = None"
proof -
  obtain k where k: "2 \<le> k" "k \<le> 24" "slot_size s = 2 ^ k" "length (slot s) = 2 ^ k"
    "\<forall>i c. i < 2 ^ k \<longrightarrow> slot s ! i = Some c \<longrightarrow> hash_of (H c) (2 ^ k) = i"
    "harbor s AND HANDLE_MASK = 0" "1 \<le> unat (handle_index s)" "unat (handle_index s) \<le> 2 ^ 24"
    using assms(1) by (rule slots_wfE)
  define a where "a = unat (handle_index s) - 1"
  have tr: "tries (handle_index s) (cand a 0)" unfolding a_def by (rule tries_start [OF k(7,8)])
  have "(2 :: nat) ^ k = 2 ^ 24 \<longleftrightarrow> k = 24" by (rule power_inject_exp) simp
  then have c: "k = 24 \<or> (a < 2 ^ 24 - 1 \<and> 2 ^ 24 - 1 < a + 2 ^ k)"
    using assms(2) k(3,7) unfolding wraps_def a_def by auto
  have "slot s ! (cand a j mod 2 ^ k) \<noteq> None" if "j < 2 ^ k" for j
    using scan_skips_zero [OF k(2) c that] assms(4) k(3) by simp
  with reg_scan_ok [OF k(3,4) _ tr] have "reg_scan 0 (handle_index s) s = Some None" by blast
  moreover have "None \<in> set (slot s)"
    using assms(3) k(4) nth_mem [of 0 "slot s"] by simp
  then have "expand_slots H s = None" by (simp add: expand_slots_def rehash_null bind_c_assert)
  ultimately show ?thesis by (subst skynet_handle_register.simps) simp
qed

definition wrapped_table :: handle_storage where
  "wrapped_table = \<lparr>harbor = 0, handle_index = 0xfffffe, slot_size = 4,
     slot = [None, Some 1, Some 2, Some 3], name_cap = 2, name_count = 0, name = [None, None]\<rparr>"

lemma handle_register_wrap_crash_witness: "skynet_handle_register of_nat 9 wrapped_table = None"
proof -
  have lt4: "i < 4 \<longleftrightarrow> i = 0 \<or> i = 1 \<or> i = 2 \<or> i = 3" for i :: nat by auto
  have "\<exists>k \<ge> 2. k \<le> 24 \<and> (4 :: nat) = 2 ^ k" by (rule exI [of _ 2]) simp
  moreover have "0 AND HANDLE_MASK = 0" by simp
  ultimately have "slots_wf (wrapped_table, of_nat)"
    by (simp add: slots_wf_def wrapped_table_def hash_of_def lt4 all_conj_distrib imp_disjL)
  moreover have "\<forall>i < slot_size wrapped_table. i \<noteq> 0 \<longrightarrow> slot wrapped_table ! i \<noteq> None"
    by (simp add: wrapped_table_def lt4)
  ultimately show ?thesis
    by (intro handle_register_wrap_crash [of wrapped_table]) (simp_all add: wraps_def wrapped_table_def)
qed

end
