(* ===== verification/Databuffer.thy ===== *)
theory Databuffer
  imports Linked
begin

text \<open>
  service-src/databuffer.h: the receive buffer of a connection, a linked list of the blocks the
  socket thread delivered, whose list nodes come from a pool shared by all connections.

  The nodes live in a heap \<open>cells\<close>; addresses from \<open>brk\<close> on are not allocated yet. A
  block of a node is its list of bytes, or None for a null pointer. The sizes are C ints; an
  addition that leaves the range of int fails.
\<close>

section \<open>State\<close>

definition MESSAGEPOOL :: nat where "MESSAGEPOOL = 1023"

record message =
  buffer :: "bytes option"
  msg_size :: int
  nxt :: "nat option"

record databuffer =
  header :: int
  offset :: int
  bsize :: int
  head :: "nat option"
  tail :: "nat option"

record messagepool =
  pools :: "nat list"
  freelist :: "nat option"
  cells :: "nat \<Rightarrow> message"
  brk :: nat

definition databuffer_zero :: databuffer where
  "databuffer_zero = \<lparr>header = 0, offset = 0, bsize = 0, head = None, tail = None\<rparr>"

definition int_add :: "int \<Rightarrow> int \<Rightarrow> int option" where
  "int_add a b = (if - (2 ^ 31) \<le> a + b \<and> a + b < 2 ^ 31 then Some (a + b) else None)"

text \<open>\<open>memcpy(dest, block + off, n)\<close>: the bytes copied.\<close>

definition c_slice :: "bytes option \<Rightarrow> int \<Rightarrow> int \<Rightarrow> bytes option" where
  "c_slice blk off n = do {
     b \<leftarrow> blk;
     c_assert (0 \<le> off \<and> 0 \<le> n \<and> off + n \<le> int (length b));
     Some (take (nat n) (drop (nat off) b))
   }"

section \<open>Operations\<close>

definition messagepool_free :: "messagepool \<Rightarrow> messagepool" where
  "messagepool_free mp = mp\<lparr>pools := [], freelist := None\<rparr>"

definition return_message :: "databuffer \<Rightarrow> messagepool \<Rightarrow> (databuffer \<times> messagepool) option" where
  "return_message db mp = do {
     m \<leftarrow> head db;
     db' \<leftarrow> (case nxt (cells mp m) of
               None \<Rightarrow> do { c_assert (tail db = Some m); Some (db\<lparr>head := None, tail := None\<rparr>) }
             | Some n \<Rightarrow> Some (db\<lparr>head := Some n\<rparr>));
     Some (db', mp\<lparr>cells := (cells mp)(m := \<lparr>buffer = None, msg_size = 0, nxt = freelist mp\<rparr>),
                   freelist := Some m\<rparr>)
   }"

text \<open>The loop of \<open>databuffer_read\<close>; the result holds the bytes written to the destination.\<close>

partial_function (option) read_loop ::
    "int \<Rightarrow> databuffer \<Rightarrow> messagepool \<Rightarrow> (bytes \<times> databuffer \<times> messagepool) option" where
  "read_loop sz db mp = Option.bind (head db) (\<lambda>current.
     let m = cells mp current; bsz = msg_size m - offset db in
     if bsz > sz then
       Option.bind (c_slice (buffer m) (offset db) sz) (\<lambda>out.
         Some (out, db\<lparr>offset := offset db + sz\<rparr>, mp))
     else if bsz = sz then
       Option.bind (c_slice (buffer m) (offset db) sz) (\<lambda>out.
       Option.bind (return_message (db\<lparr>offset := 0\<rparr>) mp) (\<lambda>r. Some (out, fst r, snd r)))
     else
       Option.bind (c_slice (buffer m) (offset db) bsz) (\<lambda>out.
       Option.bind (return_message db mp) (\<lambda>r.
       Option.bind (read_loop (sz - bsz) ((fst r)\<lparr>offset := 0\<rparr>) (snd r)) (\<lambda>r'.
         Some (out @ fst r', snd r')))))"

definition databuffer_read ::
    "databuffer \<Rightarrow> messagepool \<Rightarrow> int \<Rightarrow> (bytes \<times> databuffer \<times> messagepool) option" where
  "databuffer_read db mp sz = do {
     c_assert (bsize db \<ge> sz);
     read_loop sz (db\<lparr>bsize := bsize db - sz\<rparr>) mp
   }"

text \<open>
  Taking a node: from the free list, or the first of a new block whose other nodes become the
  free list.
\<close>

definition new_message :: "messagepool \<Rightarrow> nat \<times> messagepool" where
  "new_message mp =
     (case freelist mp of
        Some m \<Rightarrow> (m, mp\<lparr>freelist := nxt (cells mp m)\<rparr>)
      | None \<Rightarrow>
          let base = brk mp in
          (base, mp\<lparr>cells := (\<lambda>a. if base < a \<and> a < base + MESSAGEPOOL
                       then \<lparr>buffer = None, msg_size = 0,
                             nxt = (if a + 1 = base + MESSAGEPOOL then None else Some (a + 1))\<rparr>
                       else cells mp a),
                    pools := base # pools mp, freelist := Some (base + 1), brk := base + MESSAGEPOOL\<rparr>))"

definition databuffer_push ::
    "databuffer \<Rightarrow> messagepool \<Rightarrow> bytes \<Rightarrow> int \<Rightarrow> (databuffer \<times> messagepool) option" where
  "databuffer_push db mp data sz = (case new_message mp of (m, mp1) \<Rightarrow> do {
     let mp2 = mp1\<lparr>cells := (cells mp1)(m := \<lparr>buffer = Some data, msg_size = sz, nxt = None\<rparr>)\<rparr>;
     size' \<leftarrow> int_add (bsize db) sz;
     let db1 = db\<lparr>bsize := size'\<rparr>;
     (case head db of
        None \<Rightarrow> do { c_assert (tail db = None); Some (db1\<lparr>head := Some m, tail := Some m\<rparr>, mp2) }
      | Some _ \<Rightarrow> do {
          t \<leftarrow> tail db;
          Some (db1\<lparr>tail := Some m\<rparr>,
                mp2\<lparr>cells := (cells mp2)(t := (cells mp2 t)\<lparr>nxt := Some m\<rparr>)\<rparr>)
        })
   })"

text \<open>The value of a header, big endian; with four bytes it is an int and may be negative.\<close>

definition header_value :: "bytes \<Rightarrow> int" where
  "header_value pl =
     (if length pl = 2 then uint (push_bit 8 (ucast (pl ! 0)) OR ucast (pl ! 1) :: u32)
      else sint (push_bit 24 (ucast (pl ! 0)) OR push_bit 16 (ucast (pl ! 1)) OR
                 push_bit 8 (ucast (pl ! 2)) OR ucast (pl ! 3) :: u32))"

definition databuffer_readheader ::
    "databuffer \<Rightarrow> messagepool \<Rightarrow> nat \<Rightarrow> (int \<times> databuffer \<times> messagepool) option" where
  "databuffer_readheader db mp header_size =
     (if header db = 0 then
        if bsize db < int header_size then Some (- 1, db, mp)
        else do {
          (plen, db1, mp1) \<leftarrow> databuffer_read db mp (int header_size);
          let db2 = db1\<lparr>header := header_value plen\<rparr>;
          Some (if bsize db2 < header db2 then - 1 else header db2, db2, mp1)
        }
      else Some (if bsize db < header db then - 1 else header db, db, mp))"

definition databuffer_reset :: "databuffer \<Rightarrow> databuffer" where
  "databuffer_reset db = db\<lparr>header := 0\<rparr>"

partial_function (option) clear_loop ::
    "databuffer \<Rightarrow> messagepool \<Rightarrow> (databuffer \<times> messagepool) option" where
  "clear_loop db mp =
     (if head db = None then Some (db, mp)
      else Option.bind (return_message db mp) (\<lambda>r. clear_loop (fst r) (snd r)))"

definition databuffer_clear :: "databuffer \<Rightarrow> messagepool \<Rightarrow> (databuffer \<times> messagepool) option" where
  "databuffer_clear db mp = do { (_, mp') \<leftarrow> clear_loop db mp; Some (databuffer_zero, mp') }"

section \<open>Ownership\<close>

text \<open>
  \<open>nodes mp db xs\<close>: the list of \<open>db\<close> consists of the nodes \<open>xs\<close>, and its counters agree
  with them. \<open>free_nodes mp fl\<close>: the free list consists of \<open>fl\<close>.
\<close>

definition block :: "messagepool \<Rightarrow> nat \<Rightarrow> bytes" where
  "block mp a = (case buffer (cells mp a) of Some b \<Rightarrow> b | None \<Rightarrow> [])"

definition stored :: "messagepool \<Rightarrow> nat list \<Rightarrow> bytes" where
  "stored mp xs = concat (map (block mp) xs)"

definition content :: "messagepool \<Rightarrow> databuffer \<Rightarrow> nat list \<Rightarrow> bytes" where
  "content mp db xs = drop (nat (offset db)) (stored mp xs)"

definition links :: "messagepool \<Rightarrow> databuffer \<Rightarrow> nat list \<Rightarrow> bool" where
  "links mp db xs \<longleftrightarrow> chain (\<lambda>a. nxt (cells mp a)) (head db) xs None \<and>
     tail db = (if xs = [] then None else Some (last xs)) \<and>
     (\<forall>a \<in> set xs. buffer (cells mp a) = Some (block mp a) \<and> msg_size (cells mp a) = int (length (block mp a))) \<and>
     0 \<le> offset db \<and> (if xs = [] then offset db = 0 else offset db \<le> int (length (block mp (List.hd xs))))"

definition nodes :: "messagepool \<Rightarrow> databuffer \<Rightarrow> nat list \<Rightarrow> bool" where
  "nodes mp db xs \<longleftrightarrow> links mp db xs \<and> bsize db = int (length (content mp db xs))"

definition free_nodes :: "messagepool \<Rightarrow> nat list \<Rightarrow> bool" where
  "free_nodes mp fl \<longleftrightarrow> chain (\<lambda>a. nxt (cells mp a)) (freelist mp) fl None"

definition apart :: "messagepool \<Rightarrow> nat list \<Rightarrow> nat list \<Rightarrow> bool" where
  "apart mp xs fl \<longleftrightarrow> free_nodes mp fl \<and> distinct (xs @ fl) \<and> (\<forall>a \<in> set (xs @ fl). a < brk mp)"

definition owns :: "messagepool \<Rightarrow> databuffer \<Rightarrow> nat list \<Rightarrow> nat list \<Rightarrow> bool" where
  "owns mp db xs fl \<longleftrightarrow> nodes mp db xs \<and> apart mp xs fl"

text \<open>What an operation on one buffer leaves alone.\<close>

definition frame :: "messagepool \<Rightarrow> nat list \<Rightarrow> nat list \<Rightarrow> messagepool \<Rightarrow> nat list \<Rightarrow> nat list \<Rightarrow> bool" where
  "frame mp xs fl mp' xs' fl' \<longleftrightarrow> brk mp \<le> brk mp' \<and>
     (\<forall>a < brk mp. a \<notin> set (xs @ fl) \<longrightarrow> cells mp' a = cells mp a) \<and>
     (\<forall>a \<in> set (xs' @ fl'). a \<in> set (xs @ fl) \<or> brk mp \<le> a)"

lemma frame_refl: "frame mp xs fl mp xs fl"
  by (simp add: frame_def)

lemma frame_trans: "frame mp xs fl mp1 xs1 fl1 \<Longrightarrow> frame mp1 xs1 fl1 mp2 xs2 fl2 \<Longrightarrow> frame mp xs fl mp2 xs2 fl2"
  unfolding frame_def by (metis dual_order.strict_trans1 order.trans not_le)

lemma chain_cells_upd: "a \<notin> set xs \<Longrightarrow>
    chain (\<lambda>x. nxt (((cells mp)(a := v)) x)) p xs r = chain (\<lambda>x. nxt (cells mp x)) p xs r"
  by (rule chain_cong) auto

lemma block_cong: "cells mp' a = cells mp a \<Longrightarrow> block mp' a = block mp a"
  by (simp add: block_def)

lemma stored_cong: "(\<And>a. a \<in> set xs \<Longrightarrow> cells mp' a = cells mp a) \<Longrightarrow> stored mp' xs = stored mp xs"
  by (auto simp: stored_def block_def intro!: arg_cong [where f = concat] map_cong)

text \<open>Giving back the first node.\<close>

lemma return_message_ok:
  assumes links: "links mp db (x # xs)" and apart: "apart mp (x # xs) fl"
  shows "\<exists>db' mp'. return_message db mp = Some (db', mp') \<and> links mp' (db'\<lparr>offset := 0\<rparr>) xs \<and>
     apart mp' xs (x # fl) \<and> frame mp (x # xs) fl mp' xs (x # fl) \<and> brk mp' = brk mp \<and>
     stored mp' xs = stored mp xs \<and> db' = db\<lparr>head := head db', tail := tail db'\<rparr>"
proof -
  have h: "head db = Some x" and c: "chain (\<lambda>a. nxt (cells mp a)) (nxt (cells mp x)) xs None"
    using links by (auto simp: links_def)
  have x: "x \<notin> set xs" "x \<notin> set fl" using apart by (auto simp: apart_def)
  let ?mp = "mp\<lparr>cells := (cells mp)(x := \<lparr>buffer = None, msg_size = 0, nxt = freelist mp\<rparr>), freelist := Some x\<rparr>"
  let ?db = "db\<lparr>head := nxt (cells mp x), tail := (if xs = [] then None else tail db)\<rparr>"
  have same: "block ?mp a = block mp a" if "a \<noteq> x" for a using that by (simp add: block_def)
  have "return_message db mp = Some (?db, ?mp)"
    using h c links by (cases xs) (auto simp: return_message_def links_def)
  moreover have "links ?mp (?db\<lparr>offset := 0\<rparr>) xs"
    using links c x chain_cells_upd [of x xs mp] same unfolding links_def
    by (cases xs) (auto split: if_splits)
  moreover have "apart ?mp xs (x # fl)"
    using apart x chain_cells_upd [of x fl mp] by (simp add: free_nodes_def apart_def)
  moreover have "frame mp (x # xs) fl ?mp xs (x # fl)" by (auto simp: frame_def)
  moreover have "stored ?mp xs = stored mp xs" using x by (intro stored_cong) auto
  ultimately show ?thesis by (intro exI [of _ ?db] exI [of _ ?mp]) simp
qed

lemma content_Cons:
  "links mp db (x # xs) \<Longrightarrow> content mp db (x # xs) = drop (nat (offset db)) (block mp x) @ stored mp xs"
  by (auto simp: content_def links_def stored_def)

lemma content_zero: "offset db = 0 \<Longrightarrow> content mp db xs = stored mp xs"
  by (simp add: content_def)

lemma read_loop_ok:
  assumes "links mp db xs" "apart mp xs fl" "0 < sz" "sz \<le> int (length (content mp db xs))"
  shows "\<exists>db' mp' xs' fl'. read_loop sz db mp = Some (take (nat sz) (content mp db xs), db', mp') \<and>
     links mp' db' xs' \<and> apart mp' xs' fl' \<and> frame mp xs fl mp' xs' fl' \<and> brk mp' = brk mp \<and>
     content mp' db' xs' = drop (nat sz) (content mp db xs) \<and>
     header db' = header db \<and> bsize db' = bsize db"
  using assms
proof (induction xs arbitrary: sz db mp fl)
  case Nil
  then show ?case by (simp add: content_def stored_def)
next
  case (Cons x xs)
  let ?b = "block mp x"
  have x: "head db = Some x" "buffer (cells mp x) = Some ?b" "msg_size (cells mp x) = int (length ?b)"
    "0 \<le> offset db" "offset db \<le> int (length ?b)"
    using Cons.prems(1) by (auto simp: links_def)
  note cont = content_Cons [OF Cons.prems(1)]
  have slice: "c_slice (buffer (cells mp x)) (offset db) n = Some (take (nat n) (drop (nat (offset db)) ?b))"
    if "0 \<le> n" "offset db + n \<le> int (length ?b)" for n
    using that x by (simp add: c_slice_def)
  have links0: "links mp (db\<lparr>offset := 0\<rparr>) (x # xs)" using Cons.prems(1) by (auto simp: links_def)
  consider "int (length ?b) - offset db > sz" | "int (length ?b) - offset db = sz"
    | "int (length ?b) - offset db < sz" by linarith
  then show ?case
  proof cases
    case 1
    let ?db = "db\<lparr>offset := offset db + sz\<rparr>"
    have eq: "read_loop sz db mp = Some (take (nat sz) (drop (nat (offset db)) ?b), ?db, mp)"
      using 1 x slice [of sz] Cons.prems(3) by (subst read_loop.simps) simp
    have "links mp ?db (x # xs)" using Cons.prems(1,3) 1 by (auto simp: links_def)
    moreover from this have "content mp ?db (x # xs) = drop (nat sz) (content mp db (x # xs))"
      using 1 x Cons.prems(3) by (simp add: cont content_Cons nat_add_distrib add.commute)
    moreover have "take (nat sz) (drop (nat (offset db)) ?b) = take (nat sz) (content mp db (x # xs))"
      using 1 x Cons.prems(3) by (simp add: cont)
    ultimately show ?thesis using eq Cons.prems(2) frame_refl
      by (intro exI [of _ ?db] exI [of _ mp] exI [of _ "x # xs"] exI [of _ fl]) simp
  next
    case 2
    obtain db1 mp1 where r: "return_message (db\<lparr>offset := 0\<rparr>) mp = Some (db1, mp1)"
      "links mp1 (db1\<lparr>offset := 0\<rparr>) xs" "apart mp1 xs (x # fl)" "frame mp (x # xs) fl mp1 xs (x # fl)"
      "brk mp1 = brk mp" "stored mp1 xs = stored mp xs"
      "db1 = (db\<lparr>offset := 0\<rparr>)\<lparr>head := head db1, tail := tail db1\<rparr>"
      using return_message_ok [OF links0 Cons.prems(2)] by blast
    have f: "offset db1 = 0" "header db1 = header db" "bsize db1 = bsize db" by (subst r(7), simp)+
    then have db1: "db1\<lparr>offset := 0\<rparr> = db1" by simp
    have len: "nat sz = length (drop (nat (offset db)) ?b)" using 2 x by auto
    have eq: "read_loop sz db mp = Some (drop (nat (offset db)) ?b, db1, mp1)"
      using 2 x slice [of sz] Cons.prems(3) r(1) len by (subst read_loop.simps) simp
    have t: "take (nat sz) (content mp db (x # xs)) = drop (nat (offset db)) ?b"
      "drop (nat sz) (content mp db (x # xs)) = stored mp xs"
      unfolding len cont by simp_all
    show ?thesis unfolding t eq using r f db1 content_zero [OF f(1), of mp1 xs]
      by (intro exI [of _ db1] exI [of _ mp1] exI [of _ xs] exI [of _ "x # fl"]) simp
  next
    case 3
    let ?n = "int (length ?b) - offset db"
    obtain db1 mp1 where r: "return_message db mp = Some (db1, mp1)"
      "links mp1 (db1\<lparr>offset := 0\<rparr>) xs" "apart mp1 xs (x # fl)" "frame mp (x # xs) fl mp1 xs (x # fl)"
      "brk mp1 = brk mp" "stored mp1 xs = stored mp xs"
      "db1 = db\<lparr>head := head db1, tail := tail db1\<rparr>"
      using return_message_ok [OF Cons.prems(1,2)] by blast
    have f: "header db1 = header db" "bsize db1 = bsize db" by (subst r(7), simp)+
    have c1: "content mp1 (db1\<lparr>offset := 0\<rparr>) xs = stored mp xs" using r(6) by (simp add: content_zero)
    have len: "nat ?n = length (drop (nat (offset db)) ?b)" using x by auto
    have "0 < sz - ?n" "sz - ?n \<le> int (length (content mp1 (db1\<lparr>offset := 0\<rparr>) xs))"
      using 3 Cons.prems(4) x unfolding c1 cont by auto
    from Cons.IH [OF r(2,3) this] obtain db' mp' xs' fl' where i:
      "read_loop (sz - ?n) (db1\<lparr>offset := 0\<rparr>) mp1 = Some (take (nat (sz - ?n)) (stored mp xs), db', mp')"
      "links mp' db' xs'" "apart mp' xs' fl'" "frame mp1 xs (x # fl) mp' xs' fl'" "brk mp' = brk mp1"
      "content mp' db' xs' = drop (nat (sz - ?n)) (stored mp xs)" "header db' = header db1" "bsize db' = bsize db1"
      unfolding c1 by auto
    have eq: "read_loop sz db mp =
        Some (drop (nat (offset db)) ?b @ take (nat (sz - ?n)) (stored mp xs), db', mp')"
      using 3 x slice [of ?n] r(1) i(1) len by (subst read_loop.simps) simp
    have n: "nat sz - length (drop (nat (offset db)) ?b) = nat (sz - ?n)" "length (drop (nat (offset db)) ?b) \<le> nat sz"
      using 3 x by auto
    have t: "take (nat sz) (content mp db (x # xs)) = drop (nat (offset db)) ?b @ take (nat (sz - ?n)) (stored mp xs)"
      "drop (nat sz) (content mp db (x # xs)) = drop (nat (sz - ?n)) (stored mp xs)"
      unfolding cont take_append drop_append n(1) using n(2) by simp_all
    show ?thesis unfolding t eq using i r(5) f frame_trans [OF r(4) i(4)]
      by (intro exI [of _ db'] exI [of _ mp'] exI [of _ xs'] exI [of _ fl']) simp
  qed
qed


lemma databuffer_read_ok:
  assumes "owns mp db xs fl" "0 < sz" "sz \<le> bsize db"
  shows "\<exists>db' mp' xs' fl'. databuffer_read db mp sz = Some (take (nat sz) (content mp db xs), db', mp') \<and>
     owns mp' db' xs' fl' \<and> frame mp xs fl mp' xs' fl' \<and>
     content mp' db' xs' = drop (nat sz) (content mp db xs) \<and>
     header db' = header db \<and> bsize db' = bsize db - sz"
proof -
  let ?db = "db\<lparr>bsize := bsize db - sz\<rparr>"
  have l: "links mp ?db xs" "apart mp xs fl" and len: "bsize db = int (length (content mp db xs))"
    using assms(1) by (auto simp: owns_def nodes_def links_def)
  have c: "content mp ?db xs = content mp db xs" by (simp add: content_def)
  have "sz \<le> int (length (content mp ?db xs))" using assms(3) len c by simp
  from read_loop_ok [OF l assms(2) this] obtain db' mp' xs' fl' where r:
    "read_loop sz ?db mp = Some (take (nat sz) (content mp db xs), db', mp')"
    "links mp' db' xs'" "apart mp' xs' fl'" "frame mp xs fl mp' xs' fl'"
    "content mp' db' xs' = drop (nat sz) (content mp db xs)" "header db' = header db"
    "bsize db' = bsize db - sz" unfolding c by auto
  have "owns mp' db' xs' fl'"
    using r assms(2,3) len unfolding owns_def nodes_def by simp
  with r assms(3) show ?thesis
    by (intro exI [of _ db'] exI [of _ mp'] exI [of _ xs'] exI [of _ fl']) (simp add: databuffer_read_def)
qed

text \<open>The nodes of a fresh block of the pool form a list.\<close>

lemma chain_block:
  "n \<le> m \<Longrightarrow> (\<And>a. b \<le> a \<Longrightarrow> a < b + m \<Longrightarrow> nx a = (if a + 1 = b + m then None else Some (a + 1))) \<Longrightarrow>
     chain nx (if n = 0 then None else Some (b + m - n)) [b + m - n..<b + m] None"
proof (induction n)
  case (Suc n)
  let ?a = "b + m - Suc n"
  have a: "?a < b + m" "b \<le> ?a" "Suc ?a = b + m - n" using Suc.prems(1) by auto
  have "nx ?a = (if n = 0 then None else Some (b + m - n))"
    using Suc.prems(2) [OF a(2,1)] a(3) Suc.prems(1) by auto
  moreover have "[?a..<b + m] = ?a # [b + m - n..<b + m]" using upt_conv_Cons [OF a(1)] a(3) by simp
  moreover have "chain nx (if n = 0 then None else Some (b + m - n)) [b + m - n..<b + m] None"
    using Suc by auto
  ultimately show ?case by simp
qed simp

lemma new_message_ok:
  assumes "apart mp xs fl"
  shows "\<exists>m mp' fl'. new_message mp = (m, mp') \<and> free_nodes mp' fl' \<and> distinct (xs @ m # fl') \<and>
     (\<forall>a \<in> set (xs @ m # fl'). a < brk mp') \<and> frame mp xs fl mp' (m # xs) fl' \<and>
     (\<forall>a < brk mp. cells mp' a = cells mp a)"
proof (cases "freelist mp")
  case (Some m)
  have "fl \<noteq> []" using assms Some by (auto simp: apart_def free_nodes_def)
  then obtain a fl' where fl: "fl = a # fl'" by (cases fl) auto
  then have "a = m" using assms Some by (simp add: apart_def free_nodes_def)
  with Some fl assms show ?thesis
    by (intro exI [of _ m] exI [of _ "mp\<lparr>freelist := nxt (cells mp m)\<rparr>"] exI [of _ fl'])
      (auto simp: new_message_def apart_def free_nodes_def frame_def)
next
  case None
  then have fl: "fl = []" using assms by (simp add: apart_def free_nodes_def chain_None_cases)
  define b where "b = brk mp"
  define mp' where "mp' = snd (new_message mp)"
  have nm: "new_message mp = (b, mp')" by (simp add: mp'_def new_message_def None b_def Let_def)
  have cells': "cells mp' a = (if b < a \<and> a < b + MESSAGEPOOL
      then \<lparr>buffer = None, msg_size = 0, nxt = (if a + 1 = b + MESSAGEPOOL then None else Some (a + 1))\<rparr>
      else cells mp a)" and flist: "freelist mp' = Some (b + 1)" and brk': "brk mp' = b + MESSAGEPOOL" for a
    by (simp_all add: mp'_def new_message_def None b_def Let_def)
  have len: "b + 1 + (MESSAGEPOOL - 1) = b + MESSAGEPOOL" by (simp add: MESSAGEPOOL_def)
  have "chain (\<lambda>a. nxt (cells mp' a)) (Some (b + 1)) [b + 1..<b + MESSAGEPOOL] None"
    using chain_block [of "MESSAGEPOOL - 1" "MESSAGEPOOL - 1" "b + 1" "\<lambda>a. nxt (cells mp' a)"]
    unfolding len by (simp add: cells' MESSAGEPOOL_def)
  then have "free_nodes mp' [b + 1..<b + MESSAGEPOOL]" by (simp add: free_nodes_def flist)
  moreover have "\<forall>a \<in> set xs. a < b" using assms by (simp add: apart_def b_def)
  then have "distinct (xs @ b # [b + 1..<b + MESSAGEPOOL])" using assms by (auto simp: apart_def)
  moreover have "\<forall>a \<in> set (xs @ b # [b + 1..<b + MESSAGEPOOL]). a < brk mp'"
    using \<open>\<forall>a \<in> set xs. a < b\<close> by (auto simp: brk' MESSAGEPOOL_def)
  moreover have "frame mp xs fl mp' (b # xs) [b + 1..<b + MESSAGEPOOL]"
    by (auto simp: frame_def brk' cells' b_def)
  moreover have "\<forall>a < brk mp. cells mp' a = cells mp a" by (simp add: cells' b_def)
  ultimately show ?thesis using nm by blast
qed

lemma links_snoc:
  fixes d :: bytes
  assumes "links mp db xs" "m \<notin> set xs" "distinct xs"
  defines "c1 \<equiv> (cells mp)(m := \<lparr>buffer = Some d, msg_size = int (length d), nxt = None\<rparr>)"
  shows "head db = None \<Longrightarrow>
      tail db = None \<and> xs = [] \<and> links (mp\<lparr>cells := c1\<rparr>) (db\<lparr>bsize := n, head := Some m, tail := Some m\<rparr>) [m]"
    and "head db = Some h \<Longrightarrow> \<exists>t. tail db = Some t \<and> t \<in> set xs \<and>
      links (mp\<lparr>cells := c1(t := (c1 t)\<lparr>nxt := Some m\<rparr>)\<rparr>) (db\<lparr>bsize := n, tail := Some m\<rparr>) (xs @ [m])"
proof -
  assume "head db = None"
  moreover from this have "xs = []" using assms(1) by (auto simp: links_def chain_None_cases)
  ultimately show "tail db = None \<and> xs = [] \<and>
      links (mp\<lparr>cells := c1\<rparr>) (db\<lparr>bsize := n, head := Some m, tail := Some m\<rparr>) [m]"
    using assms(1) by (auto simp: links_def c1_def block_def)
next
  assume "head db = Some h"
  then have "xs \<noteq> []" using assms(1) by (auto simp: links_def)
  then obtain ys t where xs: "xs = ys @ [t]" by (cases xs rule: rev_cases) auto
  have ne: "t \<noteq> m" "t \<notin> set ys" "m \<notin> set ys" using assms(2,3) xs by auto
  have tl: "tail db = Some t" using assms(1) xs by (simp add: links_def)
  let ?c = "c1(t := (c1 t)\<lparr>nxt := Some m\<rparr>)"
  let ?mp = "mp\<lparr>cells := ?c\<rparr>"
  have bl: "buffer (?c a) = buffer (cells mp a)" "msg_size (?c a) = msg_size (cells mp a)" if "a \<noteq> m" for a
    using that by (auto simp: c1_def)
  have bl': "block ?mp a = block mp a" if "a \<noteq> m" for a using bl(1) [OF that] by (simp add: block_def)
  have nx: "(\<lambda>a. nxt (?c a)) = ((\<lambda>a. nxt (cells mp a))(m := None))(t := Some m)"
    using ne by (auto simp: c1_def fun_eq_iff)
  have ch: "chain (\<lambda>a. nxt (cells mp a)) (head db) (ys @ [t]) None" using assms(1) xs by (simp add: links_def)
  have "chain ((\<lambda>a. nxt (cells mp a))(m := None)) (head db) (ys @ [t]) None"
    by (subst chain_upd) (use ne ch in auto)
  from chain_snoc_upd [OF this ne(2), of m] ne have "chain (\<lambda>a. nxt (?c a)) (head db) (ys @ [t, m]) None"
    unfolding nx by simp
  moreover have "buffer (?c m) = Some d" "msg_size (?c m) = int (length d)" using ne by (auto simp: c1_def)
  moreover from this have "block ?mp m = d" by (simp add: block_def)
  moreover have "offset db \<le> int (length (block ?mp (List.hd (xs @ [m]))))"
    using assms(1) xs ne bl' by (cases ys) (auto simp: links_def)
  moreover have "\<forall>a \<in> set xs. buffer (?c a) = Some (block ?mp a) \<and> msg_size (?c a) = int (length (block ?mp a))"
  proof
    fix a assume a: "a \<in> set xs"
    then have am: "a \<noteq> m" using assms(2) by auto
    have "buffer (cells mp a) = Some (block mp a) \<and> msg_size (cells mp a) = int (length (block mp a))"
      using assms(1) a by (simp add: links_def)
    then show "buffer (?c a) = Some (block ?mp a) \<and> msg_size (?c a) = int (length (block ?mp a))"
      using bl [OF am] bl' [OF am] by simp
  qed
  ultimately have "links ?mp (db\<lparr>bsize := n, tail := Some m\<rparr>) (xs @ [m])"
    using assms(1) xs unfolding links_def by simp
  then show "\<exists>t. tail db = Some t \<and> t \<in> set xs \<and>
      links (mp\<lparr>cells := c1(t := (c1 t)\<lparr>nxt := Some m\<rparr>)\<rparr>) (db\<lparr>bsize := n, tail := Some m\<rparr>) (xs @ [m])"
    using tl xs by (intro exI [of _ t]) simp
qed


lemma links_cong:
  assumes "\<And>a. a \<in> set xs \<Longrightarrow> cells mp' a = cells mp a"
  shows "links mp' db xs = links mp db xs"
proof -
  have "chain (\<lambda>a. nxt (cells mp' a)) (head db) xs None = chain (\<lambda>a. nxt (cells mp a)) (head db) xs None"
    by (rule chain_cong) (simp add: assms)
  moreover have "block mp' a = block mp a" if "a \<in> set xs" for a using assms [OF that] by (rule block_cong)
  ultimately show ?thesis using assms by (cases xs) (auto simp: links_def)
qed

lemma free_nodes_cong:
  assumes "freelist mp' = freelist mp" "\<And>a. a \<in> set fl \<Longrightarrow> cells mp' a = cells mp a"
  shows "free_nodes mp' fl = free_nodes mp fl"
  unfolding free_nodes_def assms(1) by (rule chain_cong) (simp add: assms(2))

lemma databuffer_push_ok:
  assumes "owns mp db xs fl" "bsize db + int (length d) < 2 ^ 31"
  shows "\<exists>db' mp' xs' fl'. databuffer_push db mp d (int (length d)) = Some (db', mp') \<and>
     owns mp' db' xs' fl' \<and> frame mp xs fl mp' xs' fl' \<and>
     content mp' db' xs' = content mp db xs @ d \<and> header db' = header db \<and>
     bsize db' = bsize db + int (length d)"
proof -
  have l: "links mp db xs" "apart mp xs fl" and len: "bsize db = int (length (content mp db xs))"
    using assms(1) by (auto simp: owns_def nodes_def)
  obtain m mp1 fl' where n: "new_message mp = (m, mp1)" "free_nodes mp1 fl'" "distinct (xs @ m # fl')"
    "\<forall>a \<in> set (xs @ m # fl'). a < brk mp1" "frame mp xs fl mp1 (m # xs) fl'" "\<forall>a < brk mp. cells mp1 a = cells mp a"
    using new_message_ok [OF l(2)] by blast
  have agree: "cells mp1 a = cells mp a" if "a \<in> set xs" for a using l(2) n(6) that by (simp add: apart_def)
  then have l1: "links mp1 db xs" and st: "stored mp1 xs = stored mp xs"
    using l(1) links_cong [of xs mp1 mp] stored_cong [of xs mp1 mp] by auto
  let ?c = "(cells mp1)(m := \<lparr>buffer = Some d, msg_size = int (length d), nxt = None\<rparr>)"
  let ?n = "bsize db + int (length d)"
  have add: "int_add (bsize db) (int (length d)) = Some ?n" using assms(2) len by (simp add: int_add_def)
  have dm: "m \<notin> set xs" "distinct xs" using n(3) by auto
  have fin: "owns mp' db' (xs @ [m]) fl' \<and> frame mp xs fl mp' (xs @ [m]) fl' \<and>
      content mp' db' (xs @ [m]) = content mp db xs @ d"
    if c: "links mp' db' (xs @ [m])" "bsize db' = ?n" "offset db' = offset db"
      "freelist mp' = freelist mp1" "brk mp' = brk mp1" "block mp' m = d" "\<And>a. a \<in> set xs \<Longrightarrow> block mp' a = block mp1 a"
      "\<And>a. a \<noteq> m \<Longrightarrow> a \<notin> set xs \<Longrightarrow> cells mp' a = cells mp1 a" for mp' db'
  proof -
    have bl: "map (block mp') xs = map (block mp1) xs" using c(7) by simp
    have "stored mp' xs = stored mp1 xs" unfolding stored_def bl ..
    then have "stored mp' (xs @ [m]) = stored mp xs @ d"
      using c(6) st by (simp add: stored_def)
    moreover have "nat (offset db) \<le> length (stored mp xs)"
      using l(1) by (cases xs) (auto simp: links_def stored_def)
    ultimately have cont: "content mp' db' (xs @ [m]) = content mp db xs @ d"
      using c(3) by (simp add: content_def)
    have "free_nodes mp' fl'"
      using n(2,3) c(4,8) free_nodes_cong [of mp' mp1 fl'] by (metis Un_iff disjoint_iff distinct.simps(2) distinct_append list.set_intros(2) set_append)
    then have "owns mp' db' (xs @ [m]) fl'"
      using c(1,2,5) cont len n(3,4) unfolding owns_def nodes_def apart_def by auto
    moreover have "cells mp' a = cells mp a" if "a < brk mp" "a \<notin> set (xs @ fl)" for a
    proof -
      have "a \<noteq> m" using that dm(1) n(5) by (auto simp: frame_def)
      with that c(8) [of a] n(6) show ?thesis by simp
    qed
    then have "frame mp xs fl mp' (xs @ [m]) fl'"
      using n(5) c(5) unfolding frame_def by auto
    ultimately show ?thesis using cont by simp
  qed
  show ?thesis
  proof (cases "head db")
    case None
    let ?mp = "mp1\<lparr>cells := ?c\<rparr>"
    let ?db = "db\<lparr>bsize := ?n, head := Some m, tail := Some m\<rparr>"
    have k: "tail db = None" "xs = []" "links ?mp ?db (xs @ [m])"
      using links_snoc(1) [OF l1 dm None, of d ?n] by auto
    have "databuffer_push db mp d (int (length d)) = Some (?db, ?mp)"
      using None k(1) n(1) add by (simp add: databuffer_push_def)
    moreover have "owns ?mp ?db (xs @ [m]) fl' \<and> frame mp xs fl ?mp (xs @ [m]) fl' \<and>
        content ?mp ?db (xs @ [m]) = content mp db xs @ d"
      using k(2) by (intro fin k(3)) (auto simp: block_def)
    ultimately show ?thesis by (intro exI [of _ ?db] exI [of _ ?mp] exI [of _ "xs @ [m]"] exI [of _ fl']) simp
  next
    case (Some h)
    obtain t where t: "tail db = Some t" "t \<in> set xs"
      "links (mp1\<lparr>cells := ?c(t := (?c t)\<lparr>nxt := Some m\<rparr>)\<rparr>) (db\<lparr>bsize := ?n, tail := Some m\<rparr>) (xs @ [m])"
      using links_snoc(2) [OF l1 dm Some, of d ?n] by blast
    let ?mp = "mp1\<lparr>cells := ?c(t := (?c t)\<lparr>nxt := Some m\<rparr>)\<rparr>"
    let ?db = "db\<lparr>bsize := ?n, tail := Some m\<rparr>"
    have tm: "t \<noteq> m" using t(2) dm by auto
    have "databuffer_push db mp d (int (length d)) = Some (?db, ?mp)"
      using Some t(1) n(1) add by (simp add: databuffer_push_def)
    moreover have "owns ?mp ?db (xs @ [m]) fl' \<and> frame mp xs fl ?mp (xs @ [m]) fl' \<and>
        content ?mp ?db (xs @ [m]) = content mp db xs @ d"
      using tm t(2) dm by (intro fin t(3)) (auto simp: block_def)
    ultimately show ?thesis by (intro exI [of _ ?db] exI [of _ ?mp] exI [of _ "xs @ [m]"] exI [of _ fl']) simp
  qed
qed

text \<open>Clearing gives every node back.\<close>

lemma return_message_offset:
  "return_message (d\<lparr>offset := j\<rparr>) m = map_option (\<lambda>(d', m'). (d'\<lparr>offset := j\<rparr>, m')) (return_message d m)"
  by (auto simp: return_message_def bind_c_assert Let_def split: option.splits bind_splits)

lemma clear_loop_ok:
  "links mp (db\<lparr>offset := 0\<rparr>) xs \<Longrightarrow> apart mp xs fl \<Longrightarrow>
     \<exists>db' mp' fl'. clear_loop db mp = Some (db', mp') \<and> apart mp' [] fl' \<and> frame mp xs fl mp' [] fl'"
proof (induction xs arbitrary: mp db fl)
  case Nil
  then have "head db = None" by (simp add: links_def)
  then have "clear_loop db mp = Some (db, mp)" by (subst clear_loop.simps) simp
  with Nil frame_refl show ?case by blast
next
  case (Cons x xs)
  obtain db1 mp1 where r: "return_message (db\<lparr>offset := 0\<rparr>) mp = Some (db1, mp1)"
    "links mp1 (db1\<lparr>offset := 0\<rparr>) xs" "apart mp1 xs (x # fl)" "frame mp (x # xs) fl mp1 xs (x # fl)"
    using return_message_ok [OF Cons.prems] by blast
  obtain db2 where db2: "return_message db mp = Some (db2, mp1)" "db1 = db2\<lparr>offset := 0\<rparr>"
    using r(1) unfolding return_message_offset by auto
  have "head db = Some x" using Cons.prems(1) by (simp add: links_def)
  then have eq: "clear_loop db mp = clear_loop db2 mp1" using db2(1) by (subst clear_loop.simps) simp
  have "links mp1 (db2\<lparr>offset := 0\<rparr>) xs" using r(2) db2(2) by simp
  from Cons.IH [OF this r(3)] frame_trans [OF r(4)] show ?case unfolding eq by blast
qed

lemma links_offset: "links mp db xs \<Longrightarrow> links mp (db\<lparr>offset := 0\<rparr>) xs"
  by (simp add: links_def)

lemma databuffer_clear_ok:
  assumes "owns mp db xs fl"
  shows "\<exists>mp' fl'. databuffer_clear db mp = Some (databuffer_zero, mp') \<and>
     owns mp' databuffer_zero [] fl' \<and> frame mp xs fl mp' [] fl'"
proof -
  have "links mp db xs" "apart mp xs fl" using assms by (auto simp: owns_def nodes_def)
  from clear_loop_ok [OF links_offset [OF this(1)] this(2)] obtain db' mp' fl' where
    "clear_loop db mp = Some (db', mp')" "apart mp' [] fl'" "frame mp xs fl mp' [] fl'" by blast
  moreover from this have "owns mp' databuffer_zero [] fl'"
    by (simp add: owns_def nodes_def links_def content_def stored_def databuffer_zero_def)
  ultimately show ?thesis unfolding databuffer_clear_def by (intro exI conjI) auto
qed


section \<open>Headers\<close>

lemma header_value_2: "header_value [a, b] = int (unat a) * 256 + int (unat b)"
proof -
  have "unat (push_bit 8 (ucast a) OR ucast b :: u32) = unat a * 256 + unat b"
    using unat_push_bit_or [of "ucast b :: u32" 8 "ucast a"] unat_byte_less [of a] unat_byte_less [of b]
    by (simp only: unat_ucast_byte) simp
  then have "uint (push_bit 8 (ucast a) OR ucast b :: u32) = int (unat a) * 256 + int (unat b)"
    unfolding uint_nat by (simp only: of_nat_add of_nat_mult of_nat_numeral)
  then show ?thesis by (simp add: header_value_def)
qed

lemma header_value_2_bounds:
  assumes "length pl = 2"
  shows "0 \<le> header_value pl" "header_value pl < 0x10000"
proof -
  obtain a b where pl: "pl = [a, b]" using assms by (auto simp: numeral_2_eq_2 length_Suc_conv)
  have "unat a < 256" "unat b < 256" using unat_less [of a] unat_less [of b] by simp_all
  then have "int (unat a) < 256" "int (unat b) < 256" by linarith+
  then show "0 \<le> header_value pl" "header_value pl < 0x10000" unfolding pl header_value_2 by linarith+
qed

lemma readheader_ok:
  assumes "owns mp db xs fl" "0 < hs"
  shows "\<exists>db' mp' xs' fl'. databuffer_readheader db mp hs =
       Some (if header db = 0 \<and> length (content mp db xs) < hs \<or> int (length (content mp' db' xs')) < header db'
             then - 1 else header db', db', mp') \<and>
     owns mp' db' xs' fl' \<and> frame mp xs fl mp' xs' fl' \<and>
     (if header db = 0 \<and> hs \<le> length (content mp db xs)
      then header db' = header_value (take hs (content mp db xs)) \<and>
           content mp' db' xs' = drop hs (content mp db xs)
      else db' = db \<and> mp' = mp \<and> xs' = xs \<and> fl' = fl)"
proof -
  have len: "bsize db = int (length (content mp db xs))" using assms(1) by (simp add: owns_def nodes_def)
  show ?thesis
  proof (cases "header db = 0 \<and> hs \<le> length (content mp db xs)")
    case False
    with len have "databuffer_readheader db mp hs =
       Some (if header db = 0 \<and> length (content mp db xs) < hs \<or> int (length (content mp db xs)) < header db
             then - 1 else header db, db, mp)"
      by (auto simp: databuffer_readheader_def)
    with False assms(1) show ?thesis
      by (intro exI [where x = db] exI [where x = mp] exI [where x = xs] exI [where x = fl])
        (auto simp add: frame_refl)
  next
    case True
    then have "int hs \<le> bsize db" "0 < int hs" using len assms(2) by auto
    from databuffer_read_ok [OF assms(1) this(2,1)] obtain db1 mp1 xs1 fl1 where r:
      "databuffer_read db mp (int hs) = Some (take hs (content mp db xs), db1, mp1)"
      "owns mp1 db1 xs1 fl1" "frame mp xs fl mp1 xs1 fl1" "content mp1 db1 xs1 = drop hs (content mp db xs)"
      "bsize db1 = bsize db - int hs" by auto
    let ?db = "db1\<lparr>header := header_value (take hs (content mp db xs))\<rparr>"
    have c: "content mp1 ?db xs1 = content mp1 db1 xs1" by (simp add: content_def)
    have o: "owns mp1 ?db xs1 fl1" using r(2) c by (simp add: owns_def nodes_def links_def)
    then have "bsize ?db = int (length (content mp1 ?db xs1))" by (simp add: owns_def nodes_def)
    with r(1) True len have "databuffer_readheader db mp hs =
        Some (if int (length (content mp1 ?db xs1)) < header ?db then - 1 else header ?db, ?db, mp1)"
      by (simp add: databuffer_readheader_def)
    with True r(3,4) o c show ?thesis
      by (intro exI [of _ ?db] exI [of _ mp1] exI [of _ xs1] exI [of _ fl1]) simp
  qed
qed

section \<open>Properties\<close>

text \<open>The buffer of a connection that owns no node, in an empty pool.\<close>

definition pool_zero :: messagepool where
  "pool_zero = \<lparr>pools = [], freelist = None, cells = (\<lambda>_. \<lparr>buffer = None, msg_size = 0, nxt = None\<rparr>), brk = 0\<rparr>"

lemma owns_zero: "owns pool_zero databuffer_zero [] []"
  by (simp add: owns_def nodes_def links_def apart_def free_nodes_def content_def stored_def
      pool_zero_def databuffer_zero_def)

text \<open>
  \<open>databuffer_push\<close> appends a block to the byte stream of the buffer, whatever the state of
  the pool of nodes, and touches no node of another buffer.
\<close>

lemma databuffer_push_appends:
  assumes "owns mp db xs fl" "bsize db + int (length d) < 2 ^ 31"
  shows "\<exists>db' mp' xs' fl'. databuffer_push db mp d (int (length d)) = Some (db', mp') \<and>
     owns mp' db' xs' fl' \<and> content mp' db' xs' = content mp db xs @ d \<and>
     header db' = header db \<and> (\<forall>a < brk mp. a \<notin> set (xs @ fl) \<longrightarrow> cells mp' a = cells mp a)"
  using databuffer_push_ok [OF assms] unfolding frame_def by blast

lemma databuffer_push_appends_witness:
  "\<exists>db' mp' xs'. databuffer_push databuffer_zero pool_zero [1, 2, 3] 3 = Some (db', mp') \<and>
     content mp' db' xs' = [1, 2, 3]"
  using databuffer_push_appends [OF owns_zero, of "[1, 2, 3]"]
  by (auto simp: databuffer_zero_def content_def stored_def)

text \<open>
  \<open>databuffer_read\<close> returns the first \<open>sz\<close> bytes of the stream, however the stream is
  cut into blocks, and leaves the rest; it runs to its end whenever the buffer holds that many bytes.
\<close>

lemma databuffer_read_takes:
  assumes "owns mp db xs fl" "0 < sz" "sz \<le> bsize db"
  shows "\<exists>db' mp' xs' fl'. databuffer_read db mp sz = Some (take (nat sz) (content mp db xs), db', mp') \<and>
     owns mp' db' xs' fl' \<and> content mp' db' xs' = drop (nat sz) (content mp db xs) \<and>
     bsize db' = bsize db - sz \<and> (\<forall>a < brk mp. a \<notin> set (xs @ fl) \<longrightarrow> cells mp' a = cells mp a)"
  using databuffer_read_ok [OF assms] unfolding frame_def by blast

lemma databuffer_read_takes_witness:
  "\<exists>db' mp' xs'. Option.bind (databuffer_push databuffer_zero pool_zero [1, 2, 3] 3)
     (\<lambda>(db, mp). databuffer_read db mp 2) = Some ([1, 2], db', mp') \<and> content mp' db' xs' = [3]"
proof -
  obtain db mp xs fl where p: "databuffer_push databuffer_zero pool_zero [1, 2, 3] 3 = Some (db, mp)"
    "owns mp db xs fl" "content mp db xs = [1, 2, 3]" "bsize db = 3"
    using databuffer_push_ok [OF owns_zero, of "[1, 2, 3]"]
    by (auto simp: databuffer_zero_def content_def stored_def)
  then show ?thesis using databuffer_read_takes [OF p(2), of 2] by fastforce
qed

end
