(* ===== verification/Hashid.thy ===== *)
theory Hashid
  imports Interfaces Databuffer "HOL-Library.Signed_Division"
begin

text \<open>
  service-src/hashid.h: the table from socket ids to the index of a connection, a hash table
  with chained nodes taken from an array of fixed size. A node is the index of its array cell.
\<close>

section \<open>State\<close>

record hashid_node =
  nid :: int
  hnext :: "nat option"

record hashid =
  hashmod :: int
  hcap :: int
  hcount :: int
  ids :: "hashid_node list"
  hash :: "nat option list"

section \<open>Operations\<close>

partial_function (option) hashcap_loop :: "int \<Rightarrow> int \<Rightarrow> int option" where
  "hashcap_loop c maxn =
     (if c < maxn then Option.bind (int_add c c) (\<lambda>c'. hashcap_loop c' maxn) else Some c)"

definition hashid_init :: "int \<Rightarrow> hashid option" where
  "hashid_init maxn = do {
     hashcap \<leftarrow> hashcap_loop 16 maxn;
     Some \<lparr>hashmod = hashcap - 1, hcap = maxn, hcount = 0,
           ids = replicate (nat maxn) \<lparr>nid = - 1, hnext = None\<rparr>, hash = replicate (nat hashcap) None\<rparr>
   }"

definition hashid_clear :: "hashid \<Rightarrow> hashid" where
  "hashid_clear hi = hi\<lparr>ids := [], hash := [], hashmod := 1, hcap := 0, hcount := 0\<rparr>"

partial_function (option) lookup_loop :: "hashid_node list \<Rightarrow> int \<Rightarrow> nat option \<Rightarrow> int option" where
  "lookup_loop ns uid c =
     (case c of
        None \<Rightarrow> Some (- 1)
      | Some x \<Rightarrow> Option.bind (arr_get ns (int x)) (\<lambda>n.
          if nid n = uid then Some (int x) else lookup_loop ns uid (hnext n)))"

definition hashid_lookup :: "hashid \<Rightarrow> int \<Rightarrow> int option" where
  "hashid_lookup hi uid = do { c \<leftarrow> arr_get (hash hi) (uid AND hashmod hi); lookup_loop (ids hi) uid c }"

text \<open>The loop of \<open>hashid_remove\<close>: the node found and the one before it, if any.\<close>

partial_function (option) remove_loop :: "hashid_node list \<Rightarrow> int \<Rightarrow> nat \<Rightarrow> (nat \<times> nat) option option" where
  "remove_loop ns uid c =
     Option.bind (arr_get ns (int c)) (\<lambda>n.
     case hnext n of
       None \<Rightarrow> Some None
     | Some t \<Rightarrow> Option.bind (arr_get ns (int t)) (\<lambda>m.
         if nid m = uid then Some (Some (c, t)) else remove_loop ns uid t))"

text \<open>The code at the label \<open>_clear\<close>.\<close>

definition clear_node :: "nat \<Rightarrow> hashid \<Rightarrow> (int \<times> hashid) option" where
  "clear_node c hi = do {
     ns \<leftarrow> arr_set (ids hi) (int c) \<lparr>nid = - 1, hnext = None\<rparr>;
     Some (int c, hi\<lparr>ids := ns, hcount := hcount hi - 1\<rparr>)
   }"

definition hashid_remove :: "hashid \<Rightarrow> int \<Rightarrow> (int \<times> hashid) option" where
  "hashid_remove hi uid = do {
     let h = uid AND hashmod hi;
     c \<leftarrow> arr_get (hash hi) h;
     (case c of
        None \<Rightarrow> Some (- 1, hi)
      | Some x \<Rightarrow> do {
          n \<leftarrow> arr_get (ids hi) (int x);
          if nid n = uid then clear_node x (hi\<lparr>hash := (hash hi)[nat h := hnext n]\<rparr>)
          else do {
            r \<leftarrow> remove_loop (ids hi) uid x;
            (case r of
               None \<Rightarrow> Some (- 1, hi)
             | Some (p, t) \<Rightarrow> do {
                 pn \<leftarrow> arr_get (ids hi) (int p);
                 tn \<leftarrow> arr_get (ids hi) (int t);
                 clear_node t (hi\<lparr>ids := (ids hi)[p := pn\<lparr>hnext := hnext tn\<rparr>]\<rparr>)
               })
          }
        })
   }"

text \<open>The scan for a free node, from cell \<open>uid % cap\<close> on; \<open>smod\<close> is the remainder of C.\<close>

function insert_scan :: "hashid \<Rightarrow> int \<Rightarrow> int \<Rightarrow> nat option option" where
  "insert_scan hi uid i =
     (if i < hcap hi then do {
        k \<leftarrow> int_add i uid;
        let index = k smod hcap hi;
        n \<leftarrow> arr_get (ids hi) index;
        if nid n = - 1 then Some (Some (nat index)) else insert_scan hi uid (i + 1)
      } else Some None)"
  by pat_completeness auto
termination
  by (relation "measure (\<lambda>(hi, uid, i). nat (hcap hi - i))") auto

definition hashid_insert :: "hashid \<Rightarrow> int \<Rightarrow> (int \<times> hashid) option" where
  "hashid_insert hi uid = do {
     found \<leftarrow> insert_scan hi uid 0;
     c \<leftarrow> found;
     n \<leftarrow> arr_get (ids hi) (int c);
     c_assert (hnext n = None);
     let h = uid AND hashmod hi;
     old \<leftarrow> arr_get (hash hi) h;
     Some (int c, hi\<lparr>hcount := hcount hi + 1, ids := (ids hi)[c := \<lparr>nid = uid, hnext = old\<rparr>],
                     hash := (hash hi)[nat h := Some c]\<rparr>)
   }"

definition hashid_full :: "hashid \<Rightarrow> bool" where
  "hashid_full hi \<longleftrightarrow> hcount hi = hcap hi"

section \<open>Invariant\<close>

definition used :: "hashid_node list \<Rightarrow> nat set" where
  "used ns = {x. x < length ns \<and> nid (ns ! x) \<noteq> - 1}"

text \<open>\<open>chained k ns hs ch\<close>: bucket \<open>h\<close> holds the nodes \<open>ch h\<close>.\<close>

definition chained :: "nat \<Rightarrow> hashid_node list \<Rightarrow> nat option list \<Rightarrow> (nat \<Rightarrow> nat list) \<Rightarrow> bool" where
  "chained k ns hs ch \<longleftrightarrow> length hs = 2 ^ k \<and>
     (\<forall>h < 2 ^ k. chain (\<lambda>x. hnext (ns ! x)) (hs ! h) (ch h) None \<and>
        set (ch h) = {x \<in> used ns. nid (ns ! x) mod 2 ^ k = int h})"

definition hashid_wf :: "hashid \<Rightarrow> bool" where
  "hashid_wf hi \<longleftrightarrow> (\<exists>k ch. hashmod hi = 2 ^ k - 1 \<and> chained k (ids hi) (hash hi) ch) \<and>
     hcap hi = int (length (ids hi)) \<and> 0 < hcap hi \<and> hcap hi < 2 ^ 31 \<and>
     hcount hi = int (card (used (ids hi))) \<and>
     (\<forall>x < length (ids hi). nid (ids hi ! x) = - 1 \<longrightarrow> hnext (ids hi ! x) = None) \<and>
     (\<forall>x < length (ids hi). nid (ids hi ! x) \<ge> - 1) \<and>
     inj_on (\<lambda>x. nid (ids hi ! x)) (used (ids hi))"

definition index_of :: "hashid \<Rightarrow> int \<Rightarrow> nat option" where
  "index_of hi uid = (case hashid_lookup hi uid of
     Some r \<Rightarrow> if r \<ge> 0 then Some (nat r) else None | None \<Rightarrow> None)"

lemma hashid_wfE:
  assumes "hashid_wf hi"
  obtains k ch where "hashmod hi = 2 ^ k - 1" "chained k (ids hi) (hash hi) ch"
  using assms unfolding hashid_wf_def by blast

lemma and_hashmod: "(uid :: int) AND (2 ^ k - 1) = uid mod 2 ^ k"
  by (metis mask_eq_exp_minus_1 take_bit_eq_mask take_bit_eq_mod)

lemma bucket_lt: "nat ((uid :: int) mod 2 ^ k) < 2 ^ k"
proof -
  have "uid mod 2 ^ k < 2 ^ k" by simp
  then have "nat (uid mod 2 ^ k) < nat (2 ^ k)" by (subst nat_less_eq_zless) auto
  also have "nat (2 ^ k) = 2 ^ k" by (simp add: nat_power_eq)
  finally show ?thesis .
qed

lemma get_bucket:
  "length hs = 2 ^ k \<Longrightarrow> arr_get hs ((uid :: int) mod 2 ^ k) = Some (hs ! nat (uid mod 2 ^ k))"
  using bucket_lt [of uid k] by (simp add: arr_get_def)

lemma lookup_loop_ok:
  assumes "chain (\<lambda>x. hnext (ns ! x)) c xs None" "\<forall>x \<in> set xs. x < length ns"
  shows "lookup_loop ns uid c = Some (case find (\<lambda>x. nid (ns ! x) = uid) xs of Some x \<Rightarrow> int x | None \<Rightarrow> - 1)"
  using assms by (induction xs arbitrary: c) (subst lookup_loop.simps; simp)+

lemma lookup_ok:
  assumes wf: "hashid_wf hi"
  shows "(\<exists>x \<in> used (ids hi). nid (ids hi ! x) = uid \<and> hashid_lookup hi uid = Some (int x)) \<or>
     ((\<forall>x \<in> used (ids hi). nid (ids hi ! x) \<noteq> uid) \<and> hashid_lookup hi uid = Some (- 1))"
proof -
  obtain k ch where k: "hashmod hi = 2 ^ k - 1" "chained k (ids hi) (hash hi) ch" using wf by (rule hashid_wfE)
  let ?h = "nat (uid mod 2 ^ k)"
  have h: "?h < 2 ^ k" by (rule bucket_lt)
  have ih: "int ?h = uid mod 2 ^ k" by simp
  have c: "chain (\<lambda>x. hnext (ids hi ! x)) (hash hi ! ?h) (ch ?h) None"
    and s: "set (ch ?h) = {x \<in> used (ids hi). nid (ids hi ! x) mod 2 ^ k = uid mod 2 ^ k}"
    using k(2) h ih unfolding chained_def by auto
  have "\<forall>x \<in> set (ch ?h). x < length (ids hi)" using s by (auto simp: used_def)
  from lookup_loop_ok [OF c this, of uid] have eq: "hashid_lookup hi uid =
      Some (case find (\<lambda>x. nid (ids hi ! x) = uid) (ch ?h) of Some x \<Rightarrow> int x | None \<Rightarrow> - 1)"
    using k by (simp add: hashid_lookup_def and_hashmod get_bucket chained_def)
  show ?thesis
  proof (cases "find (\<lambda>x. nid (ids hi ! x) = uid) (ch ?h)")
    case None
    then have "\<forall>x \<in> used (ids hi). nid (ids hi ! x) \<noteq> uid" using s by (auto simp: find_None_iff)
    with None eq show ?thesis by simp
  next
    case (Some x)
    then have "x \<in> set (ch ?h)" "nid (ids hi ! x) = uid" by (auto simp: find_Some_iff)
    with Some eq s show ?thesis by auto
  qed
qed

lemma index_of_Some:
  assumes "hashid_wf hi"
  shows "index_of hi uid = Some x \<longleftrightarrow> x \<in> used (ids hi) \<and> nid (ids hi ! x) = uid"
proof -
  have inj: "inj_on (\<lambda>x. nid (ids hi ! x)) (used (ids hi))" using assms by (simp add: hashid_wf_def)
  from lookup_ok [OF assms, of uid] show ?thesis
    by (elim disjE bexE conjE) (auto simp: index_of_def dest: inj_onD [OF inj])
qed

lemma lookup_index:
  assumes "hashid_wf hi"
  shows "hashid_lookup hi uid = Some (case index_of hi uid of Some x \<Rightarrow> int x | None \<Rightarrow> - 1)"
  using lookup_ok [OF assms, of uid] by (auto simp: index_of_def)


section \<open>Updating a bucket\<close>

definition bucket :: "nat \<Rightarrow> hashid_node list \<Rightarrow> nat \<Rightarrow> nat set" where
  "bucket k ns h = {x \<in> used ns. nid (ns ! x) mod 2 ^ k = int h}"

lemma bucket_disjoint: "x \<in> bucket k ns h \<Longrightarrow> x \<in> bucket k ns h' \<Longrightarrow> h = h'"
  by (simp add: bucket_def)

lemma chained_def': "chained k ns hs ch \<longleftrightarrow> length hs = 2 ^ k \<and>
     (\<forall>h < 2 ^ k. chain (\<lambda>x. hnext (ns ! x)) (hs ! h) (ch h) None \<and> set (ch h) = bucket k ns h)"
  by (simp add: chained_def bucket_def)

lemma chained_replace:
  assumes "chained k ns hs ch" "h < 2 ^ k" "chain (\<lambda>x. hnext (ns' ! x)) q xs None" "set xs = bucket k ns' h"
    and "\<And>g. g \<noteq> h \<Longrightarrow> bucket k ns' g = bucket k ns g"
    and "\<And>g x. g \<noteq> h \<Longrightarrow> x \<in> bucket k ns g \<Longrightarrow> hnext (ns' ! x) = hnext (ns ! x)"
  shows "chained k ns' (hs[h := q]) (ch(h := xs))"
proof -
  have "chain (\<lambda>x. hnext (ns' ! x)) (hs ! g) (ch g) None \<and> set (ch g) = bucket k ns' g"
    if g: "g < 2 ^ k" "g \<noteq> h" for g
  proof -
    have c: "chain (\<lambda>x. hnext (ns ! x)) (hs ! g) (ch g) None" "set (ch g) = bucket k ns g"
      using assms(1) g(1) by (auto simp: chained_def')
    have "chain (\<lambda>x. hnext (ns' ! x)) (hs ! g) (ch g) None = chain (\<lambda>x. hnext (ns ! x)) (hs ! g) (ch g) None"
      by (rule chain_cong) (use c(2) assms(6) g(2) in auto)
    with c assms(5) g(2) show ?thesis by simp
  qed
  with assms(1-4) show ?thesis by (auto simp: chained_def' nth_list_update)
qed

text \<open>Clearing a used node, and using a free one.\<close>

lemma wf_clear:
  assumes wf: "hashid_wf hi" and t: "t \<in> used (ids hi)" "nid (ids hi ! t) = uid"
    and ns: "length ns = length (ids hi)" "nid (ns ! t) = - 1" "hnext (ns ! t) = None"
      "\<And>x. x \<noteq> t \<Longrightarrow> x < length ns \<Longrightarrow> nid (ns ! x) = nid (ids hi ! x)"
      "\<And>x. x < length ns \<Longrightarrow> x \<notin> used (ids hi) \<Longrightarrow> hnext (ns ! x) = hnext (ids hi ! x)"
    and ch: "hashmod hi = 2 ^ k - 1" "chained k ns hs ch"
  defines "hi' \<equiv> hi\<lparr>ids := ns, hash := hs, hcount := hcount hi - 1\<rparr>"
  shows "hashid_wf hi'" "index_of hi' = (index_of hi)(uid := None)"
proof -
  have u: "used ns = used (ids hi) - {t}"
  proof (rule set_eqI)
    fix x show "x \<in> used ns \<longleftrightarrow> x \<in> used (ids hi) - {t}"
      using ns(1,2) ns(4) [of x] by (cases "x = t") (auto simp: used_def)
  qed
  have inj: "inj_on (\<lambda>x. nid (ids hi ! x)) (used (ids hi))" using wf by (simp add: hashid_wf_def)
  have "inj_on (\<lambda>x. nid (ns ! x)) (used ns)"
    using inj ns(1,4) unfolding u by (auto simp: inj_on_def used_def)
  moreover have "card (used ns) = card (used (ids hi)) - 1" "0 < card (used (ids hi))"
  proof -
    have "finite (used (ids hi))" by (simp add: used_def)
    then show "card (used ns) = card (used (ids hi)) - 1" "0 < card (used (ids hi))"
      using t(1) unfolding u by (auto simp: card_gt_0_iff)
  qed
  moreover have "\<forall>x < length ns. nid (ns ! x) = - 1 \<longrightarrow> hnext (ns ! x) = None"
  proof (intro allI impI)
    fix x assume x: "x < length ns" "nid (ns ! x) = - 1"
    show "hnext (ns ! x) = None"
    proof (cases "x = t")
      case False
      then have "nid (ids hi ! x) = - 1" using ns(4) x by simp
      then show ?thesis using wf ns(1,5) x(1) by (auto simp: hashid_wf_def used_def)
    qed (simp add: ns(3))
  qed
  moreover have "\<forall>x < length ns. - 1 \<le> nid (ns ! x)"
  proof (intro allI impI)
    fix x assume x: "x < length ns"
    have "\<forall>y < length (ids hi). - 1 \<le> nid (ids hi ! y)" using wf by (simp add: hashid_wf_def)
    then show "- 1 \<le> nid (ns ! x)" using ns(1,2) ns(4) [OF _ x] x by (cases "x = t") auto
  qed
  ultimately show wf': "hashid_wf hi'" using wf ns(1) ch
    unfolding hashid_wf_def hi'_def by (auto simp: of_nat_diff)
  show "index_of hi' = (index_of hi)(uid := None)"
  proof
    fix v
    show "index_of hi' v = ((index_of hi)(uid := None)) v"
    proof (rule option_eqI)
      fix x
      have "x \<in> used ns \<and> nid (ns ! x) = v \<longleftrightarrow> v \<noteq> uid \<and> x \<in> used (ids hi) \<and> nid (ids hi ! x) = v"
      proof (cases "x = t")
        case False
        have "nid (ids hi ! x) \<noteq> uid" if "x \<in> used (ids hi)"
          using inj_onD [OF inj _ that t(1)] t(2) False by auto
        moreover have "x \<in> used (ids hi) \<Longrightarrow> nid (ns ! x) = nid (ids hi ! x)"
          using ns(1) ns(4) [OF False] by (simp add: used_def)
        ultimately show ?thesis using False unfolding u by auto
      qed (use t in \<open>auto simp: u\<close>)
      then show "index_of hi' v = Some x \<longleftrightarrow> ((index_of hi)(uid := None)) v = Some x"
        using index_of_Some [OF wf'] index_of_Some [OF wf] by (auto simp: hi'_def)
    qed
  qed
qed

lemma wf_use:
  assumes wf: "hashid_wf hi" and c: "c < length (ids hi)" "nid (ids hi ! c) = - 1"
    and uid: "0 \<le> uid" "index_of hi uid = None"
    and ch: "hashmod hi = 2 ^ k - 1" "chained k ((ids hi)[c := \<lparr>nid = uid, hnext = q\<rparr>]) hs ch"
  defines "hi' \<equiv> hi\<lparr>hcount := hcount hi + 1, ids := (ids hi)[c := \<lparr>nid = uid, hnext = q\<rparr>], hash := hs\<rparr>"
  shows "hashid_wf hi'" "index_of hi' = (index_of hi)(uid \<mapsto> c)"
proof -
  let ?ns = "(ids hi)[c := \<lparr>nid = uid, hnext = q\<rparr>]"
  have u: "used ?ns = insert c (used (ids hi))" "c \<notin> used (ids hi)"
    using c uid by (auto simp: used_def nth_list_update split: if_splits)
  have inj: "inj_on (\<lambda>x. nid (ids hi ! x)) (used (ids hi))" using wf by (simp add: hashid_wf_def)
  have fresh: "nid (ids hi ! x) \<noteq> uid" if "x \<in> used (ids hi)" for x
    using uid(2) index_of_Some [OF wf, of uid x] that by auto
  have "inj_on (\<lambda>x. nid (?ns ! x)) (used ?ns)"
    using inj fresh c(1) u(2) unfolding u(1) by (auto simp: inj_on_def nth_list_update split: if_splits)
  moreover have "card (used ?ns) = card (used (ids hi)) + 1"
    unfolding u(1) using u(2) by (simp add: used_def)
  moreover have "(nid (?ns ! x) = - 1 \<longrightarrow> hnext (?ns ! x) = None) \<and> - 1 \<le> nid (?ns ! x)" if "x < length ?ns" for x
    using wf uid(1) that c(1) by (cases "x = c") (auto simp: hashid_wf_def)
  ultimately show wf': "hashid_wf hi'" using wf ch unfolding hashid_wf_def hi'_def by auto
  show "index_of hi' = (index_of hi)(uid \<mapsto> c)"
  proof
    fix v
    show "index_of hi' v = ((index_of hi)(uid \<mapsto> c)) v"
    proof (rule option_eqI)
      fix x
      have "x \<in> used ?ns \<and> nid (?ns ! x) = v \<longleftrightarrow>
          (if v = uid then x = c else x \<in> used (ids hi) \<and> nid (ids hi ! x) = v)"
        using c fresh u(2) unfolding u(1) by (auto simp: nth_list_update split: if_splits)
      then show "index_of hi' v = Some x \<longleftrightarrow> ((index_of hi)(uid \<mapsto> c)) v = Some x"
        using index_of_Some [OF wf'] index_of_Some [OF wf] by (auto simp: hi'_def)
    qed
  qed
qed

section \<open>Insertion\<close>

declare insert_scan.simps [simp del]

lemma smod_pos: "0 \<le> a \<Longrightarrow> 0 < (b :: int) \<Longrightarrow> a smod b = a mod b"
  by (cases "a = 0") (simp_all add: signed_modulo_int_def)

lemma insert_scan_ok:
  assumes "hcap hi = int (length (ids hi))" "0 \<le> uid" "uid + hcap hi \<le> 2 ^ 31" "0 \<le> i"
    and "\<exists>j. i \<le> j \<and> j < hcap hi \<and> nid (ids hi ! nat ((j + uid) mod hcap hi)) = - 1"
  shows "\<exists>c. insert_scan hi uid i = Some (Some c) \<and> c < length (ids hi) \<and> nid (ids hi ! c) = - 1"
  using assms
proof (induction "nat (hcap hi - i)" arbitrary: i rule: less_induct)
  case less
  obtain j where j: "i \<le> j" "j < hcap hi" "nid (ids hi ! nat ((j + uid) mod hcap hi)) = - 1"
    using less.prems(5) by blast
  let ?k = "(i + uid) mod hcap hi"
  have add: "int_add i uid = Some (i + uid)" using less.prems(2,3,4) j by (simp add: int_add_def)
  have "0 < hcap hi" using less.prems(4) j by simp
  then have k: "0 \<le> ?k" "?k < int (length (ids hi))" and sm: "(i + uid) smod hcap hi = ?k"
    using smod_pos [of "i + uid" "hcap hi"] less.prems(2,4) unfolding less.prems(1) by simp_all
  have eq: "insert_scan hi uid i = (if nid (ids hi ! nat ?k) = - 1 then Some (Some (nat ?k))
      else insert_scan hi uid (i + 1))"
    using add k sm j less.prems(2,4) by (subst insert_scan.simps) (simp add: Let_def)
  show ?case
  proof (cases "nid (ids hi ! nat ?k) = - 1")
    case True
    with eq k show ?thesis by simp
  next
    case False
    then have "i \<noteq> j" using j(3) by auto
    then have "\<exists>j. i + 1 \<le> j \<and> j < hcap hi \<and> nid (ids hi ! nat ((j + uid) mod hcap hi)) = - 1"
      using j by (intro exI [of _ j]) simp
    from less.hyps [OF _ less.prems(1-3) _ this] less.prems(4) j False eq show ?thesis by simp
  qed
qed

lemma some_free:
  assumes "hashid_wf hi" "hcount hi < hcap hi"
  shows "\<exists>j. 0 \<le> j \<and> j < hcap hi \<and> nid (ids hi ! nat ((j + uid) mod hcap hi)) = - 1"
proof -
  let ?n = "hcap hi"
  have n: "?n = int (length (ids hi))" "0 < ?n" "hcount hi = int (card (used (ids hi)))"
    using assms(1) by (auto simp: hashid_wf_def)
  have "card (used (ids hi)) < length (ids hi)" using assms(2) n by simp
  then obtain x where x: "x < length (ids hi)" "nid (ids hi ! x) = - 1"
    using card_mono [of "used (ids hi)" "{..<length (ids hi)}"] by (force simp: used_def)
  let ?j = "(int x - uid) mod ?n"
  have "(?j + uid) mod ?n = int x" using x(1) n by (simp add: mod_simps)
  with x n show ?thesis by (intro exI [of _ ?j]) simp
qed

lemma insert_ok:
  assumes wf: "hashid_wf hi" and room: "hcount hi < hcap hi" "0 \<le> uid" "uid + hcap hi \<le> 2 ^ 31"
    and new: "index_of hi uid = None"
  shows "\<exists>c hi'. hashid_insert hi uid = Some (int c, hi') \<and> hashid_wf hi' \<and> c < length (ids hi) \<and>
     c \<notin> used (ids hi) \<and> index_of hi' = (index_of hi)(uid \<mapsto> c) \<and> hcap hi' = hcap hi \<and> hcount hi' = hcount hi + 1"
proof -
  obtain k ch where k: "hashmod hi = 2 ^ k - 1" "chained k (ids hi) (hash hi) ch" using wf by (rule hashid_wfE)
  have cap: "hcap hi = int (length (ids hi))" using wf by (simp add: hashid_wf_def)
  obtain c where c: "insert_scan hi uid 0 = Some (Some c)" "c < length (ids hi)" "nid (ids hi ! c) = - 1"
    using insert_scan_ok [OF cap room(2,3) _ some_free [OF wf room(1)]] by auto
  have free: "hnext (ids hi ! c) = None" using wf c(2,3) by (simp add: hashid_wf_def)
  let ?h = "nat (uid mod 2 ^ k)"
  have h: "?h < 2 ^ k" by (rule bucket_lt)
  have ih: "int ?h = uid mod 2 ^ k" by simp
  let ?ns = "(ids hi)[c := \<lparr>nid = uid, hnext = hash hi ! ?h\<rparr>]"
  have nu: "c \<notin> used (ids hi)" using c(3) by (simp add: used_def)
  have b: "bucket k ?ns g = (if g = ?h then insert c (bucket k (ids hi) g) else bucket k (ids hi) g)" for g
    using c nu room(2) ih by (auto simp: bucket_def used_def nth_list_update split: if_splits)
  have old: "chain (\<lambda>x. hnext (ids hi ! x)) (hash hi ! ?h) (ch ?h) None" "set (ch ?h) = bucket k (ids hi) ?h"
    using k(2) h by (auto simp: chained_def')
  have other: "hnext (?ns ! x) = hnext (ids hi ! x)" if "x \<in> bucket k (ids hi) g" for x g
    using that nu by (cases "x = c") (auto simp: bucket_def)
  have "chain (\<lambda>x. hnext (?ns ! x)) (hash hi ! ?h) (ch ?h) None"
    using old(1) by (subst chain_cong [where ny = "\<lambda>x. hnext (ids hi ! x)"]) (use other old(2) in auto)
  then have "chain (\<lambda>x. hnext (?ns ! x)) (Some c) (c # ch ?h) None" using c(2) by simp
  moreover have "set (c # ch ?h) = bucket k ?ns ?h" using old(2) b by simp
  ultimately have "chained k ?ns ((hash hi)[?h := Some c]) (ch(?h := c # ch ?h))"
    using b other by (intro chained_replace [OF k(2) h]) auto
  note w = wf_use [OF wf c(2,3) room(2) new k(1) this]
  define hi' where "hi' = hi\<lparr>hcount := hcount hi + 1, ids := ?ns, hash := (hash hi)[?h := Some c]\<rparr>"
  have "hashid_insert hi uid = Some (int c, hi')" unfolding hi'_def
    using c free k by (simp add: hashid_insert_def and_hashmod get_bucket chained_def Let_def)
  moreover have "hcap hi' = hcap hi" "hcount hi' = hcount hi + 1" by (simp_all add: hi'_def)
  ultimately show ?thesis using w [folded hi'_def] c(2) nu by blast
qed


section \<open>Removal\<close>

lemma remove_loop_ok:
  assumes "chain (\<lambda>x. hnext (ns ! x)) (hnext (ns ! c)) xs None" "c < length ns" "\<forall>x \<in> set xs. x < length ns"
  shows "(remove_loop ns uid c = Some None \<and> (\<forall>x \<in> set xs. nid (ns ! x) \<noteq> uid)) \<or>
     (\<exists>as t bs. xs = as @ t # bs \<and> nid (ns ! t) = uid \<and> remove_loop ns uid c = Some (Some (last (c # as), t)))"
  using assms
proof (induction xs arbitrary: c)
  case Nil
  then show ?case by (subst (1 2) remove_loop.simps) simp
next
  case (Cons x xs)
  have eq: "remove_loop ns uid c = (if nid (ns ! x) = uid then Some (Some (c, x)) else remove_loop ns uid x)"
    using Cons.prems by (subst remove_loop.simps) simp
  show ?case
  proof (cases "nid (ns ! x) = uid")
    case True
    with eq show ?thesis by (intro disjI2 exI [of _ "[]"] exI [of _ x] exI [of _ xs]) simp
  next
    case False
    with Cons.IH [of x] Cons.prems have "(remove_loop ns uid x = Some None \<and> (\<forall>x \<in> set xs. nid (ns ! x) \<noteq> uid)) \<or>
      (\<exists>as t bs. xs = as @ t # bs \<and> nid (ns ! t) = uid \<and> remove_loop ns uid x = Some (Some (last (x # as), t)))"
      by simp
    then show ?thesis
    proof (elim disjE exE conjE)
      fix as t bs assume a: "xs = as @ t # bs" "nid (ns ! t) = uid"
        "remove_loop ns uid x = Some (Some (last (x # as), t))"
      with eq False show ?thesis
        by (intro disjI2 exI [of _ "x # as"] exI [of _ t] exI [of _ bs]) simp
    qed (use eq False in simp)
  qed
qed

lemma chain_unlink:
  assumes "chain nx q (as @ p # t # bs) None" "distinct (as @ p # t # bs)"
  shows "chain (nx(p := nx t)) q (as @ p # bs) None"
  using assms by (auto simp: chain_append)

lemma bucket_without:
  assumes "length ns' = length ns" "nid (ns' ! t) = - 1" "\<And>x. x \<noteq> t \<Longrightarrow> nid (ns' ! x) = nid (ns ! x)"
  shows "bucket k ns' g = bucket k ns g - {t}"
proof (rule set_eqI)
  fix x show "x \<in> bucket k ns' g \<longleftrightarrow> x \<in> bucket k ns g - {t}"
    using assms(1,2) assms(3) [of x] by (cases "x = t") (auto simp: bucket_def used_def)
qed

lemma remove_ok:
  assumes wf: "hashid_wf hi"
  shows "\<exists>hi'. hashid_remove hi uid = Some (case index_of hi uid of Some x \<Rightarrow> int x | None \<Rightarrow> - 1, hi') \<and>
     hashid_wf hi' \<and> index_of hi' = (index_of hi)(uid := None) \<and> hcap hi' = hcap hi"
proof -
  obtain k ch where k: "hashmod hi = 2 ^ k - 1" "chained k (ids hi) (hash hi) ch" using wf by (rule hashid_wfE)
  let ?h = "nat (uid mod 2 ^ k)" and ?ns = "ids hi"
  have h: "?h < 2 ^ k" by (rule bucket_lt)
  have ih: "int ?h = uid mod 2 ^ k" by simp
  have c: "chain (\<lambda>x. hnext (?ns ! x)) (hash hi ! ?h) (ch ?h) None" and s: "set (ch ?h) = bucket k ?ns ?h"
    using k(2) h by (auto simp: chained_def')
  have dis: "distinct (ch ?h)" using c by (rule chain_distinct)
  have get: "arr_get (hash hi) (uid AND hashmod hi) = Some (hash hi ! ?h)" and nh: "nat (uid AND hashmod hi) = ?h"
    using k by (simp_all add: and_hashmod get_bucket chained_def)
  have inl: "x < length ?ns" "x \<in> used ?ns" if "x \<in> set (ch ?h)" for x using that s by (auto simp: bucket_def used_def)
  have none: "index_of hi uid = None" if "\<forall>x \<in> set (ch ?h). nid (?ns ! x) \<noteq> uid"
  proof (rule ccontr)
    assume "index_of hi uid \<noteq> None"
    then obtain y where y: "y \<in> used ?ns" "nid (?ns ! y) = uid" using index_of_Some [OF wf] by auto
    then have "y \<in> set (ch ?h)" using s ih by (simp add: bucket_def)
    with that y(2) show False by blast
  qed
  have cleared: ?thesis
    if rm: "hashid_remove hi uid = clear_node t (hi\<lparr>ids := ms, hash := (hash hi)[?h := q]\<rparr>)"
      and t: "t \<in> set (ch ?h)" "nid (?ns ! t) = uid"
      and ms: "length ms = length ?ns" "\<And>x. nid (ms ! x) = nid (?ns ! x)"
        "\<And>x. x \<notin> set (ch ?h) \<Longrightarrow> hnext (ms ! x) = hnext (?ns ! x)"
      and cs: "chain (\<lambda>x. hnext (ms ! x)) q cs None" "set cs = set (ch ?h) - {t}" for t ms q cs
  proof -
    let ?ms = "ms[t := \<lparr>nid = - 1, hnext = None\<rparr>]"
    have tl: "t < length ms" using inl [OF t(1)] ms(1) by simp
    have nid': "nid (?ms ! x) = nid (?ns ! x)" if "x \<noteq> t" for x using that ms(2) by simp
    have b: "bucket k ?ms g = bucket k ?ns g - {t}" for g
      using tl ms(1) nid' by (intro bucket_without) auto
    have tb: "t \<in> bucket k ?ns ?h" using t(1) s by simp
    have c': "chain (\<lambda>x. hnext (?ms ! x)) q cs None"
      using cs by (subst chain_cong [where ny = "\<lambda>x. hnext (ms ! x)"]) auto
    have "chained k ?ms ((hash hi)[?h := q]) (ch(?h := cs))"
    proof (rule chained_replace [OF k(2) h c'])
      show "set cs = bucket k ?ms ?h" using cs(2) s b by simp
      show "bucket k ?ms g = bucket k ?ns g" if "g \<noteq> ?h" for g
        using b bucket_disjoint [OF tb, of g] that by auto
      show "hnext (?ms ! x) = hnext (?ns ! x)" if "g \<noteq> ?h" "x \<in> bucket k ?ns g" for g x
        using that bucket_disjoint [of x k ?ns ?h g] tb ms(3) [of x] s by (cases "x = t") auto
    qed
    note w = wf_clear [OF wf inl(2) [OF t(1)] t(2) _ _ _ _ _ k(1) this]
    have nx: "hnext (?ms ! x) = hnext (?ns ! x)" if "x \<notin> used ?ns" for x
    proof -
      have "x \<noteq> t" "x \<notin> set (ch ?h)" using that inl(2) t(1) by auto
      then show ?thesis using ms(3) by simp
    qed
    define hi' where "hi' = hi\<lparr>ids := ?ms, hash := (hash hi)[?h := q], hcount := hcount hi - 1\<rparr>"
    have "hashid_wf hi'" "index_of hi' = (index_of hi)(uid := None)"
      unfolding hi'_def using tl ms(1) nid' nx by (intro w; simp)+
    moreover have "hashid_remove hi uid = Some (int t, hi')" using tl by (simp add: rm clear_node_def hi'_def)
    moreover have "index_of hi uid = Some t" using index_of_Some [OF wf] inl(2) [OF t(1)] t(2) by simp
    moreover have "hcap hi' = hcap hi" by (simp add: hi'_def)
    ultimately show ?thesis by auto
  qed
  show ?thesis
  proof (cases "ch ?h")
    case Nil
    then have "hashid_remove hi uid = Some (- 1, hi)" using c get by (simp add: hashid_remove_def Let_def)
    with none Nil wf show ?thesis by auto
  next
    case (Cons x xs)
    have x: "hash hi ! ?h = Some x" "chain (\<lambda>x. hnext (?ns ! x)) (hnext (?ns ! x)) xs None" "x < length ?ns"
      using c Cons inl [of x] by auto
    show ?thesis
    proof (cases "nid (?ns ! x) = uid")
      case True
      have "hashid_remove hi uid = clear_node x (hi\<lparr>ids := ?ns, hash := (hash hi)[?h := hnext (?ns ! x)]\<rparr>)"
        using True x get nh by (simp add: hashid_remove_def Let_def)
      then show ?thesis using True x(2) Cons dis by (intro cleared) auto
    next
      case False
      have "\<forall>y \<in> set xs. y < length ?ns" using inl Cons by auto
      from remove_loop_ok [OF x(2,3) this, of uid] show ?thesis
      proof (elim disjE exE conjE)
        assume r: "remove_loop ?ns uid x = Some None" "\<forall>y \<in> set xs. nid (?ns ! y) \<noteq> uid"
        have "hashid_remove hi uid = Some (- 1, hi)"
          using False x get r(1) by (simp add: hashid_remove_def Let_def)
        moreover have "index_of hi uid = None" using none Cons False r(2) by simp
        ultimately show ?thesis using wf by auto
      next
        fix as t bs assume r: "xs = as @ t # bs" "nid (?ns ! t) = uid"
          "remove_loop ?ns uid x = Some (Some (last (x # as), t))"
        define p where "p = last (x # as)"
        define ps where "ps = butlast (x # as)"
        have ps: "x # as = ps @ [p]" by (simp add: p_def ps_def)
        then have chh: "ch ?h = ps @ p # t # bs" using Cons r(1) by simp
        have pl: "p < length ?ns" "t < length ?ns" "t \<noteq> p" using inl chh dis by auto
        let ?ms = "?ns[p := (?ns ! p)\<lparr>hnext := hnext (?ns ! t)\<rparr>]"
        have same: "(hash hi)[?h := Some x] = hash hi" using x(1) by (metis list_update_id)
        have "hashid_remove hi uid = clear_node t (hi\<lparr>ids := ?ms, hash := (hash hi)[?h := Some x]\<rparr>)"
          using False x get r(3) pl unfolding same p_def [symmetric] by (simp add: hashid_remove_def Let_def)
        moreover have "chain (\<lambda>x. hnext (?ms ! x)) (Some x) (ps @ p # bs) None"
        proof -
          have "chain ((\<lambda>x. hnext (?ns ! x))(p := hnext (?ns ! t))) (Some x) (ps @ p # bs) None"
            using chain_unlink c dis x(1) unfolding chh by metis
          moreover have "(\<lambda>x. hnext (?ms ! x)) = (\<lambda>x. hnext (?ns ! x))(p := hnext (?ns ! t))"
            using pl(1) by (auto simp: fun_eq_iff)
          ultimately show ?thesis by simp
        qed
        moreover have "set (ps @ p # bs) = set (ch ?h) - {t}" using chh dis by auto
        moreover have "nid (?ms ! y) = nid (?ns ! y)" for y using pl(1) by (cases "y = p") auto
        moreover have "hnext (?ms ! y) = hnext (?ns ! y)" if "y \<notin> set (ch ?h)" for y
          using that chh by (cases "y = p") auto
        ultimately show ?thesis using chh r(2) by (intro cleared [where t = t and ms = ?ms and q = "Some x" and cs = "ps @ p # bs"]) auto
      qed
    qed
  qed
qed


section \<open>The interface\<close>

definition hid_remove :: "int \<Rightarrow> hashid \<Rightarrow> hashid option" where
  "hid_remove uid hi = map_option snd (hashid_remove hi uid)"

definition hid_insert :: "int \<Rightarrow> hashid \<Rightarrow> (nat \<times> hashid) option" where
  "hid_insert uid hi = map_option (\<lambda>(r, h). (nat r, h)) (hashid_insert hi uid)"

definition hid_room :: "hashid \<Rightarrow> int \<Rightarrow> bool" where
  "hid_room hi uid \<longleftrightarrow> \<not> hashid_full hi \<and> 0 \<le> uid \<and> uid + hcap hi \<le> 2 ^ 31"

lemma count_le_cap: "hashid_wf hi \<Longrightarrow> hcount hi \<le> hcap hi"
proof -
  assume wf: "hashid_wf hi"
  have "used (ids hi) \<subseteq> {..<length (ids hi)}" by (auto simp: used_def)
  from card_mono [OF _ this] wf show ?thesis by (simp add: hashid_wf_def)
qed

interpretation hid: keyed_store hashid_wf index_of hid_remove hid_room hid_insert
proof unfold_locales
  fix hi :: hashid and uid
  assume "hashid_wf hi"
  from remove_ok [OF this, of uid]
  show "\<exists>s'. hid_remove uid hi = Some s' \<and> hashid_wf s' \<and> index_of s' = (index_of hi)(uid := None)"
    by (auto simp: hid_remove_def)
next
  fix hi :: hashid
  assume wf: "hashid_wf hi"
  have "dom (index_of hi) \<subseteq> (\<lambda>x. nid (ids hi ! x)) ` used (ids hi)"
    using index_of_Some [OF wf] by (force simp: dom_def)
  then show "finite (dom (index_of hi))" by (rule finite_subset) (simp add: used_def)
next
  fix hi :: hashid and uid
  assume wf: "hashid_wf hi" and "hid_room hi uid" "index_of hi uid = None"
  then have "hcount hi < hcap hi" "0 \<le> uid" "uid + hcap hi \<le> 2 ^ 31"
    using count_le_cap [OF wf] by (auto simp: hid_room_def hashid_full_def)
  from insert_ok [OF wf this \<open>index_of hi uid = None\<close>] obtain c hi' where
    "hashid_insert hi uid = Some (int c, hi')" "hashid_wf hi'" "c \<notin> used (ids hi)"
    "index_of hi' = (index_of hi)(uid \<mapsto> c)" by blast
  moreover from this have "c \<notin> ran (index_of hi)" using index_of_Some [OF wf] by (auto simp: ran_def)
  ultimately show "\<exists>v s'. hid_insert uid hi = Some (v, s') \<and> hashid_wf s' \<and> v \<notin> ran (index_of hi) \<and>
      index_of s' = (index_of hi)(uid \<mapsto> v)" by (auto simp: hid_insert_def)
next
  fix hi :: hashid
  assume wf: "hashid_wf hi"
  show "inj_on (index_of hi) (dom (index_of hi))"
  proof (rule inj_onI)
    fix u v assume "u \<in> dom (index_of hi)" "index_of hi u = index_of hi v"
    then show "u = v" using index_of_Some [OF wf] by (metis domD)
  qed
qed

lemma hashcap_loop_ok:
  "4 \<le> k \<Longrightarrow> k \<le> 30 \<Longrightarrow> maxn \<le> 2 ^ 30 \<Longrightarrow> \<exists>j \<ge> k. hashcap_loop (2 ^ k) maxn = Some (2 ^ j)"
proof (induction "30 - k" arbitrary: k)
  case 0
  then have "\<not> (2 ^ k < maxn)" by simp
  then show ?case by (subst hashcap_loop.simps) auto
next
  case (Suc n)
  show ?case
  proof (cases "2 ^ k < maxn")
    case True
    have "k < 30" using Suc.hyps(2) by simp
    then have "(2::int) ^ Suc k \<le> 2 ^ 30" by (intro power_increasing) auto
    then have b: "(2::int) ^ k + 2 ^ k \<le> 1073741824" by simp
    have a: "(0::int) \<le> 2 ^ k" by (rule zero_le_power) simp
    have "- 2147483648 \<le> (2 :: int) ^ k + 2 ^ k" using a by linarith
    then have "int_add (2 ^ k) (2 ^ k) = Some (2 ^ Suc k)" using b by (simp add: int_add_def)
    then have "hashcap_loop (2 ^ k) maxn = hashcap_loop (2 ^ Suc k) maxn"
      using True by (subst hashcap_loop.simps) (simp del: power_Suc)
    moreover have "\<exists>j \<ge> Suc k. hashcap_loop (2 ^ Suc k) maxn = Some (2 ^ j)"
      using Suc.hyps(2) Suc.prems \<open>k < 30\<close> by (intro Suc.hyps(1)) auto
    ultimately show ?thesis using Suc_leD by metis
  qed (subst hashcap_loop.simps, auto)
qed

lemma init_ok:
  assumes "0 < maxn" "maxn \<le> 2 ^ 30"
  shows "\<exists>hi. hashid_init maxn = Some hi \<and> hashid_wf hi \<and> index_of hi = (\<lambda>_. None) \<and> hcap hi = maxn \<and> hcount hi = 0"
proof -
  obtain j where j: "hashcap_loop 16 maxn = Some (2 ^ j)" using hashcap_loop_ok [of 4 maxn] assms by auto
  define hi where "hi = \<lparr>hashmod = 2 ^ j - 1, hcap = maxn, hcount = 0,
      ids = replicate (nat maxn) \<lparr>nid = - 1, hnext = None\<rparr>, hash = replicate (nat (2 ^ j)) None\<rparr>"
  have u: "used (ids hi) = {}" by (auto simp: hi_def used_def)
  have "chained j (ids hi) (hash hi) (\<lambda>_. [])"
    unfolding chained_def u by (simp add: hi_def nat_power_eq)
  then have "hashid_wf hi" using assms u by (auto simp: hashid_wf_def) (auto simp: hi_def)
  moreover from this have "index_of hi = (\<lambda>_. None)"
    by (intro ext option_eqI) (simp only: index_of_Some u empty_iff simp_thms option.distinct)
  ultimately show ?thesis using j by (auto simp: hashid_init_def hi_def)
qed

section \<open>Properties\<close>

text \<open>
  C26: the connection table is an injective finite map from socket ids to cells: an insertion
  with room succeeds with a cell that no other id has and changes no other id, lookups read the
  map, and a removal gives back the cell and forgets exactly that id.
\<close>

theorem hashid_is_map:
  assumes "hashid_wf hi" "\<not> hashid_full hi" "0 \<le> uid" "uid + hcap hi \<le> 2 ^ 31" "hashid_lookup hi uid = Some (- 1)"
  shows "\<exists>c hi'. hashid_insert hi uid = Some (int c, hi') \<and> hashid_wf hi' \<and>
     (\<forall>v. hashid_lookup hi v \<noteq> Some (int c)) \<and>
     (\<forall>v. hashid_lookup hi' v = (if v = uid then Some (int c) else hashid_lookup hi v)) \<and>
     (\<exists>hi''. hashid_remove hi' uid = Some (int c, hi'') \<and> (\<forall>v. hashid_lookup hi'' v = hashid_lookup hi v))"
proof -
  have none: "index_of hi uid = None" using assms(5) by (simp add: index_of_def)
  have room: "hcount hi < hcap hi" using assms(2) count_le_cap [OF assms(1)] by (simp add: hashid_full_def)
  obtain c hi' where i: "hashid_insert hi uid = Some (int c, hi')" "hashid_wf hi'" "c \<notin> used (ids hi)"
    "index_of hi' = (index_of hi)(uid \<mapsto> c)"
    using insert_ok [OF assms(1) room assms(3,4) none] by blast
  obtain hi'' where r: "hashid_remove hi' uid = Some (int c, hi'')" "hashid_wf hi''"
    "index_of hi'' = (index_of hi')(uid := None)"
    using remove_ok [OF i(2), of uid] i(4) by auto
  have "hashid_lookup hi v \<noteq> Some (int c)" for v
    using lookup_ok [OF assms(1), of v] i(3) by auto
  moreover have "hashid_lookup hi' v = (if v = uid then Some (int c) else hashid_lookup hi v)" for v
    using lookup_index [OF i(2)] lookup_index [OF assms(1)] i(4) by simp
  moreover have "hashid_lookup hi'' v = hashid_lookup hi v" for v
    using lookup_index [OF r(2)] lookup_index [OF assms(1)] r(3) i(4) none by simp
  ultimately show ?thesis using i(1,2) r(1) by blast
qed

lemma hashid_is_map_witness:
  "\<exists>hi c hi'. hashid_init 8 = Some hi \<and> hashid_insert hi 5 = Some (int c, hi') \<and> hashid_lookup hi' 5 = Some (int c)"
proof -
  obtain hi where hi: "hashid_init 8 = Some hi" "hashid_wf hi" "index_of hi = (\<lambda>_. None)" "hcap hi = 8" "hcount hi = 0"
    using init_ok [of 8] by auto
  have "\<not> hashid_full hi" "hashid_lookup hi 5 = Some (- 1)"
    using hi lookup_index [OF hi(2)] by (simp_all add: hashid_full_def)
  from hashid_is_map [OF hi(2) this(1) _ _ this(2)] hi(1,4) show ?thesis by fastforce
qed

end
