(* ===== verification/CString.thy ===== *)
theory CString
  imports Prelude "HOL-Library.Code_Target_Numeral"
begin

text \<open>
  The parts of the C string library the services use, on lists of bytes: decimal and hexadecimal
  printing, strtol and strtoul, memcmp, and NUL-terminated strings inside a char array with the
  in-place tokenizer strsep.
\<close>

definition bs :: "string \<Rightarrow> bytes" where
  "bs s = map (\<lambda>c. of_nat (of_char c)) s"

text \<open>The string literal in memory, with its terminator.\<close>

definition lit :: "string \<Rightarrow> bytes" where
  "lit s = bs s @ [0]"

section \<open>Printing\<close>

fun show_nat :: "nat \<Rightarrow> bytes" where
  "show_nat n = (if n < 10 then [of_nat (48 + n)] else show_nat (n div 10) @ [of_nat (48 + n mod 10)])"

definition show_int :: "int \<Rightarrow> bytes" where
  "show_int i = (if i < 0 then 45 # show_nat (nat (- i)) else show_nat (nat i))"

definition hex_digit :: "nat \<Rightarrow> u8" where
  "hex_digit d = of_nat (if d < 10 then 48 + d else 87 + d)"

fun show_hex :: "nat \<Rightarrow> bytes" where
  "show_hex n = (if n < 16 then [hex_digit n] else show_hex (n div 16) @ [hex_digit (n mod 16)])"

declare show_nat.simps [simp del] show_hex.simps [simp del]

section \<open>Numbers\<close>

definition is_space :: "u8 \<Rightarrow> bool" where
  "is_space c \<longleftrightarrow> c = 32 \<or> (9 \<le> c \<and> c \<le> 13)"

definition digit_value :: "u8 \<Rightarrow> nat option" where
  "digit_value c =
     (if 48 \<le> c \<and> c \<le> 57 then Some (unat c - 48)
      else if 97 \<le> c \<and> c \<le> 122 then Some (unat c - 87)
      else if 65 \<le> c \<and> c \<le> 90 then Some (unat c - 55)
      else None)"

text \<open>The value of the longest prefix of digits below the base.\<close>

fun digits :: "nat \<Rightarrow> nat \<Rightarrow> bytes \<Rightarrow> nat" where
  "digits base acc [] = acc"
| "digits base acc (c # cs) =
     (case digit_value c of
        Some d \<Rightarrow> if d < base then digits base (acc * base + d) cs else acc
      | None \<Rightarrow> acc)"

definition split_sign :: "bytes \<Rightarrow> bool \<times> bytes" where
  "split_sign s = (case dropWhile is_space s of
       c # cs \<Rightarrow> if c = 45 then (True, cs) else if c = 43 then (False, cs) else (False, c # cs)
     | [] \<Rightarrow> (False, []))"

text \<open>\<open>(int)strtol(s, NULL, 10)\<close>: the value is clamped to a 64-bit long, then cut to an int.\<close>

definition strtol10 :: "bytes \<Rightarrow> int" where
  "strtol10 s = (case split_sign s of (neg, cs) \<Rightarrow>
     let v = int (digits 10 0 cs);
         l = (if neg then max (- v) (- (2 ^ 63)) else min v (2 ^ 63 - 1))
     in signed_take_bit 31 l)"

text \<open>\<open>(uint32_t)strtoul(s, NULL, 16)\<close>: clamped to a 64-bit unsigned long, negated there, then cut.\<close>

definition strip_0x :: "bytes \<Rightarrow> bytes" where
  "strip_0x cs = (case cs of
       z # x # d # r \<Rightarrow>
         if z = 48 \<and> (x = 120 \<or> x = 88) \<and> (case digit_value d of Some v \<Rightarrow> v < 16 | None \<Rightarrow> False)
         then d # r else cs
     | _ \<Rightarrow> cs)"

definition strtoul16 :: "bytes \<Rightarrow> u32" where
  "strtoul16 s = (case split_sign s of (neg, cs) \<Rightarrow>
     let v = digits 16 0 (strip_0x cs)
     in if v < 2 ^ 64 then (if neg then - of_nat v else of_nat v) else of_nat (2 ^ 64 - 1))"

section \<open>Memory\<close>

text \<open>\<open>memcmp(a, b, n) == 0\<close>; None when the comparison reads past one of the objects.\<close>

fun memcmp_eq :: "bytes \<Rightarrow> bytes \<Rightarrow> nat \<Rightarrow> bool option" where
  "memcmp_eq a b 0 = Some True"
| "memcmp_eq (x # xs) (y # ys) (Suc n) = (if x = y then memcmp_eq xs ys n else Some False)"
| "memcmp_eq [] b (Suc n) = None"
| "memcmp_eq (x # xs) [] (Suc n) = None"

text \<open>The string that starts at offset \<open>p\<close> of a char array; None when it has no terminator.\<close>

definition cstr_at :: "bytes \<Rightarrow> nat \<Rightarrow> bytes option" where
  "cstr_at m p = (if 0 \<in> set (drop p m) then Some (takeWhile (\<lambda>c. c \<noteq> 0) (drop p m)) else None)"

text \<open>
  \<open>strsep\<close> with the delimiter set " ": the token starts at \<open>p\<close>; its first blank is overwritten
  by NUL and the rest starts after it. The second result is None for a null pointer.
\<close>

definition strsep_at :: "bytes \<Rightarrow> nat \<Rightarrow> (bytes \<times> nat option) option" where
  "strsep_at m p = do {
     s \<leftarrow> cstr_at m p;
     let k = length (takeWhile (\<lambda>c. c \<noteq> 32) s);
     Some (if k < length s then (m[p + k := 0], Some (p + k + 1)) else (m, None))
   }"

section \<open>Facts\<close>

lemma show_nat_simps: "n < 10 \<Longrightarrow> show_nat n = [of_nat (48 + n)]"
  "\<not> n < 10 \<Longrightarrow> show_nat n = show_nat (n div 10) @ [of_nat (48 + n mod 10)]"
  by (subst show_nat.simps, simp)+

lemma digit_value_dec: "d < 10 \<Longrightarrow> digit_value (of_nat (48 + d)) = Some d"
proof -
  assume d: "d < 10"
  have u: "unat (of_nat (48 + d) :: u8) = 48 + d"
    using d unfolding unat_of_nat by (simp add: take_bit_nat_eq_self)
  show ?thesis using d u unfolding digit_value_def word_le_nat_alt by simp
qed

lemma digits_append:
  "(\<forall>c \<in> set xs. \<exists>d. digit_value c = Some d \<and> d < base) \<Longrightarrow>
     digits base acc (xs @ ys) = digits base (digits base acc xs) ys"
  by (induction xs arbitrary: acc) auto

lemma show_nat_digits: "\<forall>c \<in> set (show_nat n). \<exists>d. digit_value c = Some d \<and> d < 10"
proof (induction n rule: less_induct)
  case (less n)
  show ?case
  proof (cases "n < 10")
    case True
    then show ?thesis by (simp add: show_nat_simps digit_value_dec del: of_nat_add)
  next
    case False
    then show ?thesis using less [of "n div 10"] digit_value_dec [of "n mod 10"]
      by (auto simp add: show_nat_simps simp del: of_nat_add)
  qed
qed

lemma digits_show_nat: "digits 10 0 (show_nat n) = n"
proof (induction n rule: less_induct)
  case (less n)
  show ?case
  proof (cases "n < 10")
    case True
    then show ?thesis by (simp add: show_nat_simps digit_value_dec del: of_nat_add)
  next
    case False
    have "digits 10 0 (show_nat n) = digits 10 (digits 10 0 (show_nat (n div 10))) [of_nat (48 + n mod 10)]"
      using digits_append [OF show_nat_digits [of "n div 10"]] False by (simp only: show_nat_simps simp_thms)
    also have "\<dots> = (n div 10) * 10 + n mod 10"
      using False less [of "n div 10"] digit_value_dec [of "n mod 10"] by (simp del: of_nat_add)
    finally show ?thesis by simp
  qed
qed

lemma show_nat_nonempty: "show_nat n \<noteq> []"
  by (subst show_nat.simps) simp

text \<open>Reading back a printed int gives the int.\<close>

lemma hd_show_nat: "\<exists>d. digit_value (List.hd (show_nat n)) = Some d \<and> d < 10"
  using show_nat_digits [of n] show_nat_nonempty [of n] by (metis list.set_sel(1))

lemma digit_not_special:
  assumes "digit_value c = Some d" shows "\<not> is_space c" "c \<noteq> 45" "c \<noteq> 43" "c \<noteq> 32" "c \<noteq> 0"
proof -
  have "48 \<le> c" using assms by (auto simp: digit_value_def word_le_nat_alt split: if_splits)
  then show "\<not> is_space c" "c \<noteq> 45" "c \<noteq> 43" "c \<noteq> 32" "c \<noteq> 0"
    by (auto simp: is_space_def word_le_nat_alt)
qed

lemma strtol10_show_int:
  assumes "- (2 ^ 31) \<le> i" "i < 2 ^ 31"
  shows "strtol10 (show_int i) = i"
proof -
  have sp: "split_sign (show_nat n) = (False, show_nat n)" for n
  proof -
    obtain c cs where c: "show_nat n = c # cs" using show_nat_nonempty [of n] by (cases "show_nat n") auto
    then obtain d where "digit_value c = Some d" using hd_show_nat [of n] by auto
    from digit_not_special [OF this] show ?thesis by (simp add: split_sign_def c)
  qed
  have "split_sign (45 # xs) = (True, xs)" for xs by (simp add: split_sign_def is_space_def word_le_nat_alt)
  moreover have "signed_take_bit 31 i = i" using assms by (intro signed_take_bit_int_eq_self) auto
  ultimately show ?thesis using assms sp
    by (cases "i < 0") (simp_all add: strtol10_def show_int_def digits_show_nat Let_def)
qed


lemma length_show_nat: "n < 10 ^ Suc k \<Longrightarrow> length (show_nat n) \<le> Suc k"
proof (induction k arbitrary: n)
  case 0
  then show ?case by (simp add: show_nat_simps)
next
  case (Suc k)
  show ?case
  proof (cases "n < 10")
    case False
    have "n div 10 < 10 ^ Suc k" using Suc.prems by (simp add: div_less_iff_less_mult mult.commute)
    from Suc.IH [OF this] False show ?thesis by (simp add: show_nat_simps)
  qed (simp add: show_nat_simps)
qed

lemma length_show_int: "- (2 ^ 31) \<le> i \<Longrightarrow> i < 2 ^ 31 \<Longrightarrow> length (show_int i) \<le> 11"
  using length_show_nat [of "nat i" 9] length_show_nat [of "nat (- i)" 9]
  by (auto simp: show_int_def nat_less_iff)

lemma length_bs [simp]: "length (bs s) = length s"
  by (simp add: bs_def)


section \<open>Tokens\<close>

lemma cstr_at_mid: "0 \<notin> set s \<Longrightarrow> n = length xs \<Longrightarrow> cstr_at (xs @ s @ 0 # ys) n = Some s"
  by (auto simp: cstr_at_def takeWhile_append)

lemma strsep_at_mid:
  assumes "0 \<notin> set s" "0 \<notin> set t" "32 \<notin> set s" "n = length xs"
  shows "strsep_at (xs @ s @ 32 # t @ 0 # ys) n = Some (xs @ s @ 0 # t @ 0 # ys, Some (n + length s + 1))"
proof -
  have "cstr_at (xs @ (s @ 32 # t) @ 0 # ys) n = Some (s @ 32 # t)"
    using assms by (intro cstr_at_mid) auto
  moreover have "takeWhile (\<lambda>c. c \<noteq> 32) (s @ 32 # t) = s"
    using assms(3) by (auto simp: takeWhile_append)
  moreover have "(xs @ s @ 32 # t @ 0 # ys)[n + length s := 0] = xs @ s @ 0 # t @ 0 # ys"
    using assms(4) by (simp add: list_update_append)
  ultimately show ?thesis by (simp add: strsep_at_def)
qed

lemma digit_value_hex: "d < 16 \<Longrightarrow> digit_value (hex_digit d) = Some d"
proof -
  assume d: "d < 16"
  have u: "unat (of_nat (48 + d) :: u8) = 48 + d" "unat (of_nat (87 + d) :: u8) = 87 + d"
    using d unfolding unat_of_nat by (simp_all add: take_bit_nat_eq_self)
  show ?thesis
    using d u unfolding digit_value_def hex_digit_def word_le_nat_alt by (cases "d < 10") (simp_all del: of_nat_add)
qed

lemma show_hex_simps: "n < 16 \<Longrightarrow> show_hex n = [hex_digit n]"
  "\<not> n < 16 \<Longrightarrow> show_hex n = show_hex (n div 16) @ [hex_digit (n mod 16)]"
  by (subst show_hex.simps, simp)+

lemma show_hex_digits: "\<forall>c \<in> set (show_hex n). \<exists>d. digit_value c = Some d \<and> d < 16"
proof (induction n rule: less_induct)
  case (less n)
  show ?case
  proof (cases "n < 16")
    case True
    then show ?thesis by (simp add: show_hex_simps digit_value_hex)
  next
    case False
    then show ?thesis using less [of "n div 16"] digit_value_hex [of "n mod 16"]
      by (auto simp add: show_hex_simps)
  qed
qed

lemma digits_show_hex: "digits 16 0 (show_hex n) = n"
proof (induction n rule: less_induct)
  case (less n)
  show ?case
  proof (cases "n < 16")
    case True
    then show ?thesis by (simp add: show_hex_simps digit_value_hex)
  next
    case False
    have "digits 16 0 (show_hex n) = digits 16 (digits 16 0 (show_hex (n div 16))) [hex_digit (n mod 16)]"
      using digits_append [OF show_hex_digits [of "n div 16"]] False by (simp only: show_hex_simps simp_thms)
    also have "\<dots> = (n div 16) * 16 + n mod 16"
      using False less [of "n div 16"] digit_value_hex [of "n mod 16"] by simp
    finally show ?thesis by simp
  qed
qed

lemma show_hex_nonempty: "show_hex n \<noteq> []"
  by (subst show_hex.simps) simp

lemma digits_skip_zero: "digits 16 0 (48 # cs) = digits 16 0 cs"
  by (simp add: digit_value_def word_le_nat_alt)

lemma strtoul16_show_hex: "strtoul16 (show_hex (unat (w :: u32))) = w"
proof -
  let ?s = "show_hex (unat w)"
  have d: "\<exists>d. digit_value c = Some d \<and> d < 16" if "c \<in> set ?s" for c using show_hex_digits that by blast
  obtain c cs where c: "?s = c # cs" using show_hex_nonempty by (cases ?s) auto
  then obtain v where "digit_value c = Some v" using d [of c] by auto
  from digit_not_special [OF this] have sp: "split_sign ?s = (False, ?s)" by (simp add: split_sign_def c)
  have nx: "strip_0x ?s = ?s"
  proof -
    have "\<not> (x = 120 \<or> x = 88)" if "x \<in> set ?s" for x
      using d [OF that] by (auto simp: digit_value_def word_le_nat_alt split: if_splits)
    then show ?thesis by (auto simp: strip_0x_def split: list.splits)
  qed
  have "unat w < 2 ^ 64" using unat_u32_less [of w] by simp
  then show ?thesis unfolding strtoul16_def sp by (simp add: nx digits_show_hex Let_def)
qed

lemma show_nat_chars: "c \<in> set (show_nat n) \<Longrightarrow> c \<noteq> 32 \<and> c \<noteq> 0"
  using show_nat_digits digit_not_special(4,5) by blast

lemma show_int_chars: "c \<in> set (show_int i) \<Longrightarrow> c \<noteq> 32 \<and> c \<noteq> 0"
  using show_nat_chars [of c] by (auto simp: show_int_def split: if_splits)

lemma show_hex_chars: "c \<in> set (show_hex n) \<Longrightarrow> c \<noteq> 32 \<and> c \<noteq> 0"
  using show_hex_digits digit_not_special(4,5) by blast

end
