(* ===== verification/Gate.thy ===== *)
theory Gate
  imports Hashid CString
begin

text \<open>
  service-src/service\_gate.c: the gate service. It accepts connections, cuts the byte stream of
  each connection into messages with a two or four byte length header, and forwards the messages
  to the broker, to the agent of the connection or to the watchdog.

  The calls to the rest of skynet are the events of a handler, in order. The replies of
  \<open>skynet_queryname\<close> and \<open>skynet_socket_listen\<close> are arguments.
\<close>

section \<open>State\<close>

definition BACKLOG :: int where "BACKLOG = 128"

record connection =
  cid :: int
  agent :: u32
  client :: u32
  remote_name :: bytes
  cbuf :: databuffer

record gate =
  listen_id :: int
  watchdog :: u32
  broker :: u32
  client_tag :: int
  header_size :: nat
  max_connection :: int
  ghash :: hashid
  conn :: "connection list"
  gmp :: messagepool

datatype event =
    SocketClose int
  | SocketStart int
  | SocketSend int bytes
  | Send u32 u32 int int bytes
  | LogError bytes
  | SetCallback

datatype socket_type = SDATA | SCONNECT | SCLOSE | SACCEPT | SERROR | SUDP | SWARNING

record socket_message =
  sm_type :: socket_type
  sm_id :: int
  sm_ud :: int
  sm_buffer :: bytes

definition zero_connection :: connection where
  "zero_connection = \<lparr>cid = 0, agent = 0, client = 0, remote_name = replicate 32 0, cbuf = databuffer_zero\<rparr>"

definition gate_create :: gate where
  "gate_create = \<lparr>listen_id = - 1, watchdog = 0, broker = 0, client_tag = 0, header_size = 0,
     max_connection = 0, ghash = \<lparr>hashmod = 0, hcap = 0, hcount = 0, ids = [], hash = []\<rparr>,
     conn = [], gmp = pool_zero\<rparr>"

definition gate_release :: "gate \<Rightarrow> event list" where
  "gate_release g =
     map (\<lambda>c. SocketClose (cid c)) (filter (\<lambda>c. cid c \<ge> 0) (take (nat (max_connection g)) (conn g))) @
     (if listen_id g \<ge> 0 then [SocketClose (listen_id g)] else [])"

section \<open>Commands\<close>

text \<open>
  \<open>_parm\<close>: drops the command and the blanks after it, in place. \<open>tmp\<close> has \<open>sz + 1\<close> bytes.
\<close>

function skip_blanks :: "bytes \<Rightarrow> nat \<Rightarrow> nat \<Rightarrow> nat" where
  "skip_blanks tmp sz k = (if k < sz then if tmp ! k \<noteq> 32 then k else skip_blanks tmp sz (k + 1) else k)"
  by pat_completeness auto
termination
  by (relation "measure (\<lambda>(tmp, sz, k). sz - k)") auto

declare skip_blanks.simps [simp del]

definition parm :: "bytes \<Rightarrow> nat \<Rightarrow> nat \<Rightarrow> bytes" where
  "parm tmp sz command_sz =
     (let k = skip_blanks tmp sz command_sz; n = max k sz - k
      in take n (drop k tmp) @ [0] @ drop (n + 1) tmp)"

definition forward_agent :: "gate \<Rightarrow> int \<Rightarrow> u32 \<Rightarrow> u32 \<Rightarrow> gate option" where
  "forward_agent g fd agentaddr clientaddr = do {
     i \<leftarrow> hashid_lookup (ghash g) fd;
     if i \<ge> 0 then do {
       c \<leftarrow> arr_get (conn g) i;
       cs \<leftarrow> arr_set (conn g) i (c\<lparr>agent := agentaddr, client := clientaddr\<rparr>);
       Some (g\<lparr>conn := cs\<rparr>)
     } else Some g
   }"

definition ctrl :: "(bytes \<Rightarrow> u32) \<Rightarrow> gate \<Rightarrow> bytes \<Rightarrow> (event list \<times> gate) option" where
  "ctrl query g msg = (
     let sz = length msg; tmp = msg @ [0]; i = length (takeWhile (\<lambda>c. c \<noteq> 32) msg) in
     if sz = 0 then Some ([], g) else do {
       kick \<leftarrow> memcmp_eq tmp (lit ''kick'') i;
       if kick then do {
         s \<leftarrow> cstr_at (parm tmp sz i) 0;
         let uid = strtol10 s;
         k \<leftarrow> hashid_lookup (ghash g) uid;
         Some (if k \<ge> 0 then [SocketClose uid] else [], g)
       } else do {
       forward \<leftarrow> memcmp_eq tmp (lit ''forward'') i;
       if forward then do {
         (m1, c1) \<leftarrow> strsep_at (parm tmp sz i) 0;
         (case c1 of
            None \<Rightarrow> Some ([], g)
          | Some p1 \<Rightarrow> do {
              idstr \<leftarrow> cstr_at m1 0;
              (m2, c2) \<leftarrow> strsep_at m1 p1;
              (case c2 of
                 None \<Rightarrow> Some ([], g)
               | Some p2 \<Rightarrow> do {
                   agent_str \<leftarrow> cstr_at m2 (p1 + 1);
                   client_str \<leftarrow> cstr_at m2 (p2 + 1);
                   g' \<leftarrow> forward_agent g (strtol10 idstr) (strtoul16 agent_str) (strtoul16 client_str);
                   Some ([], g')
                 })
            })
       } else do {
       brk \<leftarrow> memcmp_eq tmp (lit ''broker'') i;
       if brk then do {
         s \<leftarrow> cstr_at (parm tmp sz i) 0;
         Some ([], g\<lparr>broker := query s\<rparr>)
       } else do {
       start \<leftarrow> memcmp_eq tmp (lit ''start'') i;
       if start then do {
         s \<leftarrow> cstr_at (parm tmp sz i) 0;
         let uid = strtol10 s;
         k \<leftarrow> hashid_lookup (ghash g) uid;
         Some (if k \<ge> 0 then [SocketStart uid] else [], g)
       } else do {
       close \<leftarrow> memcmp_eq tmp (lit ''close'') i;
       if close then
         Some (if listen_id g \<ge> 0 then ([SocketClose (listen_id g)], g\<lparr>listen_id := - 1\<rparr>) else ([], g))
       else do {
         s \<leftarrow> cstr_at tmp 0;
         Some ([LogError (bs ''[gate] Unkown command : '' @ s)], g)
       }}}}}})"

section \<open>Messages\<close>

definition report :: "gate \<Rightarrow> bytes \<Rightarrow> event list option" where
  "report g data =
     (if watchdog g = 0 then Some []
      else do { c_assert (length data < 1024); Some [Send 0 (watchdog g) PTYPE_TEXT 0 data] })"

definition read_conn :: "gate \<Rightarrow> nat \<Rightarrow> int \<Rightarrow> (bytes \<times> gate) option" where
  "read_conn g k sz = do {
     c \<leftarrow> arr_get (conn g) (int k);
     (out, db, mp) \<leftarrow> databuffer_read (cbuf c) (gmp g) sz;
     Some (out, g\<lparr>conn := (conn g)[k := c\<lparr>cbuf := db\<rparr>], gmp := mp\<rparr>)
   }"

definition forward_msg :: "gate \<Rightarrow> nat \<Rightarrow> int \<Rightarrow> (event list \<times> gate) option" where
  "forward_msg g k sz = do {
     c \<leftarrow> arr_get (conn g) (int k);
     let fd = cid c;
     if fd \<le> 0 then Some ([], g)
     else if broker g \<noteq> 0 then do {
       (data, g') \<leftarrow> read_conn g k sz;
       Some ([Send 0 (broker g) (client_tag g OR PTYPE_TAG_DONTCOPY) fd data], g')
     } else if agent c \<noteq> 0 then do {
       (data, g') \<leftarrow> read_conn g k sz;
       Some ([Send (client c) (agent c) (client_tag g OR PTYPE_TAG_DONTCOPY) fd data], g')
     } else if watchdog g \<noteq> 0 then do {
       (data, g') \<leftarrow> read_conn g k sz;
       Some ([Send 0 (watchdog g) (PTYPE_TEXT OR PTYPE_TAG_DONTCOPY) fd
               (take 31 (show_int (cid c) @ bs '' data '') @ data)], g')
     } else Some ([], g)
   }"

partial_function (option) dispatch_loop :: "gate \<Rightarrow> nat \<Rightarrow> int \<Rightarrow> (event list \<times> gate) option" where
  "dispatch_loop g k uid =
     Option.bind (arr_get (conn g) (int k)) (\<lambda>c.
     Option.bind (databuffer_readheader (cbuf c) (gmp g) (header_size g)) (\<lambda>r.
     let sz = fst r; g1 = g\<lparr>conn := (conn g)[k := c\<lparr>cbuf := fst (snd r)\<rparr>], gmp := snd (snd r)\<rparr> in
     if sz < 0 then Some ([], g1)
     else if sz > 0 then
       if sz \<ge> 0x1000000 then
         Option.bind (databuffer_clear (fst (snd r)) (gmp g1)) (\<lambda>r'.
           Some ([SocketClose uid, LogError (bs ''Recv socket message > 16M'')],
             g1\<lparr>conn := (conn g1)[k := c\<lparr>cbuf := fst r'\<rparr>], gmp := snd r'\<rparr>))
       else
         Option.bind (forward_msg g1 k sz) (\<lambda>f.
         Option.bind (arr_get (conn (snd f)) (int k)) (\<lambda>c'.
         Option.bind (dispatch_loop ((snd f)\<lparr>conn := (conn (snd f))[k := c'\<lparr>cbuf := databuffer_reset (cbuf c')\<rparr>]\<rparr>) k uid)
           (\<lambda>rest. Some (fst f @ fst rest, snd rest))))
     else dispatch_loop g1 k uid))"

definition dispatch_message :: "gate \<Rightarrow> nat \<Rightarrow> int \<Rightarrow> bytes \<Rightarrow> int \<Rightarrow> (event list \<times> gate) option" where
  "dispatch_message g k uid data sz = do {
     c \<leftarrow> arr_get (conn g) (int k);
     (db, mp) \<leftarrow> databuffer_push (cbuf c) (gmp g) data sz;
     dispatch_loop (g\<lparr>conn := (conn g)[k := c\<lparr>cbuf := db\<rparr>], gmp := mp\<rparr>) k uid
   }"

text \<open>
  Socket messages. \<open>name\<close> are the \<open>sz\<close> bytes that follow the struct in memory: the address of the
  peer of an accepted connection.
\<close>

definition accept_conn :: "gate \<Rightarrow> int \<Rightarrow> bytes \<Rightarrow> (event list \<times> gate) option" where
  "accept_conn g uid nm =
     (if hashid_full (ghash g) then Some ([SocketClose uid], g)
      else do {
        (i, h) \<leftarrow> hashid_insert (ghash g) uid;
        c \<leftarrow> arr_get (conn g) i;
        let nm' = take 31 nm;
        let c' = c\<lparr>cid := uid, remote_name := nm' @ [0] @ drop (length nm' + 1) (remote_name c)\<rparr>;
        addr \<leftarrow> cstr_at (remote_name c') 0;
        let g' = g\<lparr>ghash := h, conn := (conn g)[nat i := c']\<rparr>;
        ev \<leftarrow> report g' (show_int uid @ bs '' open '' @ show_int uid @ bs '' '' @ addr @ bs '':0'');
        Some (ev @ [LogError (bs ''socket open: '' @ show_hex (unat (word_of_int uid :: u32)))], g')
      })"

definition close_conn :: "gate \<Rightarrow> int \<Rightarrow> (event list \<times> gate) option" where
  "close_conn g uid = do {
     (i, h) \<leftarrow> hashid_remove (ghash g) uid;
     if i \<ge> 0 then do {
       c \<leftarrow> arr_get (conn g) i;
       (db, mp) \<leftarrow> databuffer_clear (cbuf c) (gmp g);
       let g' = g\<lparr>ghash := h, gmp := mp, conn := (conn g)[nat i := zero_connection\<lparr>cid := - 1\<rparr>]\<rparr>;
       ev \<leftarrow> report g' (show_int uid @ bs '' close'');
       Some (ev, g')
     } else Some ([], g\<lparr>ghash := h\<rparr>)
   }"

definition dispatch_socket_message ::
    "gate \<Rightarrow> socket_message \<Rightarrow> bytes \<Rightarrow> (event list \<times> gate) option" where
  "dispatch_socket_message g m nm =
     (case sm_type m of
        SDATA \<Rightarrow> do {
          i \<leftarrow> hashid_lookup (ghash g) (sm_id m);
          if i \<ge> 0 then dispatch_message g (nat i) (sm_id m) (sm_buffer m) (sm_ud m)
          else Some ([LogError (bs ''Drop unknown connection '' @ show_int (sm_id m) @ bs '' message''),
                      SocketClose (sm_id m)], g)
        }
      | SCONNECT \<Rightarrow>
          if sm_id m = listen_id g then Some ([], g)
          else do {
            i \<leftarrow> hashid_lookup (ghash g) (sm_id m);
            Some (if i < 0 then [LogError (bs ''Close unknown connection '' @ show_int (sm_id m)),
                                 SocketClose (sm_id m)] else [], g)
          }
      | SCLOSE \<Rightarrow> close_conn g (sm_id m)
      | SERROR \<Rightarrow> close_conn g (sm_id m)
      | SACCEPT \<Rightarrow> do { c_assert (listen_id g = sm_id m); accept_conn g (sm_ud m) nm }
      | SWARNING \<Rightarrow> Some ([LogError (bs ''fd ('' @ show_int (sm_id m) @ bs '') send buffer ('' @
                            show_int (sm_ud m) @ bs '')K'')], g)
      | SUDP \<Rightarrow> Some ([], g))"

text \<open>The message callback: the result 1 keeps the message alive.\<close>

datatype gate_msg = TextMsg bytes | ClientMsg bytes | SocketMsg socket_message bytes | OtherMsg

definition cb :: "(bytes \<Rightarrow> u32) \<Rightarrow> gate \<Rightarrow> u32 \<Rightarrow> gate_msg \<Rightarrow> (int \<times> event list \<times> gate) option" where
  "cb query g source m =
     (case m of
        TextMsg t \<Rightarrow> do { (ev, g') \<leftarrow> ctrl query g t; Some (0, ev, g') }
      | ClientMsg t \<Rightarrow>
          if length t \<le> 4 then
            Some (0, [LogError (bs ''Invalid client message from '' @ show_hex (unat source))], g)
          else do {
            let idbuf = drop (length t - 4) t;
            let uid = (ucast (idbuf ! 0) OR push_bit 8 (ucast (idbuf ! 1)) OR
                       push_bit 16 (ucast (idbuf ! 2)) OR push_bit 24 (ucast (idbuf ! 3)) :: u32);
            i \<leftarrow> hashid_lookup (ghash g) (sint uid);
            Some (if i \<ge> 0 then (1, [SocketSend (sint uid) (take (length t - 4) t)], g)
                  else (0, [LogError (bs ''Invalid client id '' @ show_int (sint uid) @ bs '' from '' @
                                      show_hex (unat source))], g))
          }
      | SocketMsg sm nm \<Rightarrow> do { (ev, g') \<leftarrow> dispatch_socket_message g sm nm; Some (0, ev, g') }
      | OtherMsg \<Rightarrow> Some (0, [], g))"

section \<open>Starting\<close>

definition start_listen :: "(bytes \<Rightarrow> int \<Rightarrow> int \<Rightarrow> int) \<Rightarrow> gate \<Rightarrow> bytes \<Rightarrow> int \<times> event list \<times> gate" where
  "start_listen listen g addr = (
     let bad = LogError (bs ''Invalid gate address '' @ addr);
         portstr = rev (takeWhile (\<lambda>c. c \<noteq> 58) (rev addr));
         (host, port) =
           (if 58 \<in> set addr then (take (length addr - length portstr - 1) addr, strtol10 portstr)
            else ([], strtol10 addr))
     in if port \<le> 0 then (1, [bad], g)
        else let r = listen host port BACKLOG; g' = g\<lparr>listen_id := r\<rparr>
             in if r < 0 then (1, [], g') else (0, [SocketStart r], g'))"

text \<open>The conversions of \<open>sscanf(parm, "%c %s %s %d %d", ...)\<close>.\<close>

definition scan_word :: "bytes \<Rightarrow> (bytes \<times> bytes) option" where
  "scan_word s = (let t = dropWhile is_space s; w = takeWhile (\<lambda>c. \<not> is_space c) t
     in if w = [] then None else Some (w, drop (length w) t))"

definition scan_int :: "bytes \<Rightarrow> (int \<times> bytes) option" where
  "scan_int s = (case split_sign s of (neg, cs) \<Rightarrow>
     let ds = takeWhile (\<lambda>c. 48 \<le> c \<and> c \<le> 57) cs
     in if ds = [] then None
        else Some (strtol10 ((if neg then [45] else []) @ ds), drop (length ds) cs))"

definition scan_parm :: "bytes \<Rightarrow> (u8 \<times> bytes \<times> bytes \<times> int \<times> int) option" where
  "scan_parm s = (case s of [] \<Rightarrow> None | h # r \<Rightarrow> do {
     (w, r1) \<leftarrow> scan_word r;
     (b, r2) \<leftarrow> scan_word r1;
     (t, r3) \<leftarrow> scan_int r2;
     Some (h, w, b, t, (case scan_int r3 of Some (m, _) \<Rightarrow> m | None \<Rightarrow> 0))
   })"

definition gate_init :: "(bytes \<Rightarrow> u32) \<Rightarrow> (bytes \<Rightarrow> int \<Rightarrow> int \<Rightarrow> int) \<Rightarrow> gate \<Rightarrow> bytes option \<Rightarrow>
    (int \<times> event list \<times> gate) option" where
  "gate_init query listen g arg =
     (case arg of None \<Rightarrow> Some (1, [], g) | Some s \<Rightarrow>
      (case scan_parm s of
         None \<Rightarrow> Some (1, [LogError (bs ''Invalid gate parm '' @ s)], g)
       | Some (hdr, wd, binding, tag, maxn) \<Rightarrow>
           if maxn \<le> 0 then Some (1, [LogError (bs ''Need max connection'')], g)
           else if hdr \<noteq> 83 \<and> hdr \<noteq> 76 then Some (1, [LogError (bs ''Invalid data header style'')], g)
           else
             let w = (if wd ! 0 = 33 then 0 else query wd); g1 = g\<lparr>watchdog := w\<rparr> in
             if wd ! 0 \<noteq> 33 \<and> w = 0 then Some (1, [LogError (bs ''Invalid watchdog '' @ wd)], g1)
             else do {
               h \<leftarrow> hashid_init maxn;
               let g2 = g1\<lparr>ghash := h, conn := replicate (nat maxn) (zero_connection\<lparr>cid := - 1\<rparr>),
                          max_connection := maxn,
                          client_tag := (if tag = 0 then PTYPE_CLIENT else tag),
                          header_size := (if hdr = 83 then 2 else 4)\<rparr>;
               (case start_listen listen g2 binding of (r, ev, g3) \<Rightarrow> Some (r, SetCallback # ev, g3))
             }))"


section \<open>Ownership of the buffers\<close>

text \<open>
  All buffers share one pool: buffer \<open>i\<close> owns the nodes \<open>xss ! i\<close>, the pool the free
  nodes \<open>fl\<close>, and no node has two owners.
\<close>

definition bufs_inv :: "messagepool \<Rightarrow> databuffer list \<Rightarrow> nat list list \<Rightarrow> nat list \<Rightarrow> bool" where
  "bufs_inv mp dbs xss fl \<longleftrightarrow> length xss = length dbs \<and>
     (\<forall>i < length dbs. owns mp (dbs ! i) (xss ! i) fl) \<and>
     (\<forall>i < length dbs. \<forall>j < length dbs. i \<noteq> j \<longrightarrow> set (xss ! i) \<inter> set (xss ! j) = {})"

lemma owns_other:
  assumes "owns mp db xs fl" "owns mp dk xk fl" "set xs \<inter> set xk = {}"
    and "owns mp' dk' xk' fl'" "frame mp xk fl mp' xk' fl'"
  shows "owns mp' db xs fl'" "content mp' db xs = content mp db xs" "set xs \<inter> set xk' = {}"
proof -
  have in_xs: "a < brk mp" "a \<notin> set xk" "a \<notin> set fl" if "a \<in> set xs" for a
    using assms(1,3) that by (auto simp: owns_def apart_def)
  have same: "cells mp' a = cells mp a" if "a \<in> set xs" for a
    using in_xs [OF that] assms(5) by (simp add: frame_def)
  have st: "stored mp' xs = stored mp xs" using same by (rule stored_cong)
  then show c: "content mp' db xs = content mp db xs" by (simp add: content_def)
  have "links mp' db xs" using links_cong [of xs mp' mp db] same assms(1) by (simp add: owns_def nodes_def)
  then have n: "nodes mp' db xs" using assms(1) c by (simp add: owns_def nodes_def)
  have out: "a \<notin> set (xk' @ fl')" if "a \<in> set xs" for a
    using assms(5) in_xs [OF that] unfolding frame_def by auto
  then show "set xs \<inter> set xk' = {}" by auto
  have "apart mp' xs fl'"
    using assms(1,4,5) out in_xs unfolding owns_def apart_def frame_def
    by (auto dest: order_less_le_trans)
  with n show "owns mp' db xs fl'" by (simp add: owns_def)
qed

lemma bufs_step:
  assumes inv: "bufs_inv mp dbs xss fl" and k: "k < length dbs"
    and op: "owns mp' db' xs' fl'" "frame mp (xss ! k) fl mp' xs' fl'"
  shows "bufs_inv mp' (dbs[k := db']) (xss[k := xs']) fl'"
    and "\<And>j. j < length dbs \<Longrightarrow> j \<noteq> k \<Longrightarrow> content mp' (dbs ! j) (xss ! j) = content mp (dbs ! j) (xss ! j)"
proof -
  have o: "owns mp (dbs ! i) (xss ! i) fl" if "i < length dbs" for i using inv that by (simp add: bufs_inv_def)
  have d: "set (xss ! i) \<inter> set (xss ! j) = {}" if "i < length dbs" "j < length dbs" "i \<noteq> j" for i j
    using inv that by (simp add: bufs_inv_def)
  note other = owns_other [OF o o [OF k] d op]
  show "bufs_inv mp' (dbs[k := db']) (xss[k := xs']) fl'"
    unfolding bufs_inv_def
  proof (intro conjI allI impI)
    show "length (xss[k := xs']) = length (dbs[k := db'])" using inv by (simp add: bufs_inv_def)
    fix i assume i: "i < length (dbs[k := db'])"
    show "owns mp' (dbs[k := db'] ! i) (xss[k := xs'] ! i) fl'"
      using i k op(1) other(1) [of i] inv by (cases "i = k") (auto simp: bufs_inv_def)
    fix j assume j: "j < length (dbs[k := db'])" "i \<noteq> j"
    show "set (xss[k := xs'] ! i) \<inter> set (xss[k := xs'] ! j) = {}"
      using i j k d other(3) [of i] other(3) [of j] inv
      by (cases "i = k"; cases "j = k") (auto simp: bufs_inv_def Int_commute)
  qed
  show "content mp' (dbs ! j) (xss ! j) = content mp (dbs ! j) (xss ! j)" if "j < length dbs" "j \<noteq> k" for j
    using that other(2) [of j] k by simp
qed

section \<open>The framing\<close>

text \<open>
  What the bytes of a stream mean: the messages they hold, and what is left over. \<open>h\<close> is the
  value of a header already read, or 0.
\<close>

datatype rest = Wait int bytes | TooBig bytes

function parse :: "nat \<Rightarrow> int \<Rightarrow> bytes \<Rightarrow> bytes list \<times> rest" where
  "parse hs h s =
     (if hs = 0 \<or> (h = 0 \<and> length s < hs) then ([], Wait h s)
      else
        let h' = (if h = 0 then header_value (take hs s) else h);
            s' = (if h = 0 then drop hs s else s)
        in if h' < 0 \<or> int (length s') < h' then ([], Wait h' s')
           else if h' = 0 then parse hs 0 s'
           else if h' \<ge> 0x1000000 then ([], TooBig s')
           else (case parse hs 0 (drop (nat h') s') of (fs, r) \<Rightarrow> (take (nat h') s' # fs, r)))"
  by pat_completeness auto
termination
  by (relation "measure (\<lambda>(hs, h, s). length s)") (auto split: if_splits)

declare parse.simps [simp del]

text \<open>The messages do not depend on how the network cut the stream into blocks.\<close>

lemma parse_append:
  "parse hs h s = (fs, Wait h' s') \<Longrightarrow>
     parse hs h (s @ t) = (case parse hs h' (s' @ t) of (gs, r) \<Rightarrow> (fs @ gs, r))"
proof (induction hs h s arbitrary: fs rule: parse.induct)
  case (1 hs h s)
  show ?case
  proof (cases "hs = 0 \<or> (h = 0 \<and> length s < hs)")
    case True
    then have "fs = []" "h' = h" "s' = s" using 1(3) by (subst (asm) parse.simps, simp)+
    then show ?thesis by (simp split: prod.splits)
  next
    case False
    let ?h = "if h = 0 then header_value (take hs s) else h"
    let ?s = "if h = 0 then drop hs s else s"
    have ht: "(if h = 0 then header_value (take hs (s @ t)) else h) = ?h"
      "(if h = 0 then drop hs (s @ t) else s @ t) = ?s @ t" using False by auto
    have F2: "\<not> (hs = 0 \<or> (h = 0 \<and> length (s @ t) < hs))" using False by auto
    note step = parse.simps [of hs h s, unfolded if_not_P [OF False] Let_def]
    note step2 = parse.simps [of hs h "s @ t", unfolded if_not_P [OF F2] Let_def, unfolded ht]
    consider (wait) "?h < 0 \<or> int (length ?s) < ?h" | (zero) "\<not> (?h < 0 \<or> int (length ?s) < ?h)" "?h = 0"
      | (big) "\<not> (?h < 0 \<or> int (length ?s) < ?h)" "?h \<noteq> 0" "?h \<ge> 0x1000000"
      | (msg) "\<not> (?h < 0 \<or> int (length ?s) < ?h)" "?h \<noteq> 0" "\<not> ?h \<ge> 0x1000000"
      by blast
    then show ?thesis
    proof cases
      case wait
      then have e: "fs = []" "h' = ?h" "s' = ?s" using 1(3) step by simp_all
      then have "h' \<noteq> 0" using wait by auto
      have "parse hs h (s @ t) = parse hs h' (s' @ t)"
        unfolding step2 e(2,3) [symmetric]
        using parse.simps [of hs h' "s' @ t"] \<open>h' \<noteq> 0\<close> F2 by (simp add: Let_def)
      then show ?thesis using e(1) by (simp split: prod.splits)
    next
      case zero
      then have "parse hs 0 ?s = (fs, Wait h' s')" using 1(3) step by simp
      from 1(1) [OF False refl refl _ _ this] zero
      have "parse hs 0 (?s @ t) = (case parse hs h' (s' @ t) of (gs, r) \<Rightarrow> (fs @ gs, r))" by blast
      moreover have "\<not> (?h < 0 \<or> int (length (?s @ t)) < ?h)" using zero by simp
      ultimately show ?thesis using step2 zero(2) by simp
    next
      case big
      then show ?thesis using 1(3) step by simp
    next
      case msg
      let ?n = "nat ?h"
      obtain gs where g: "parse hs 0 (drop ?n ?s) = (gs, Wait h' s')" "fs = take ?n ?s # gs"
        using 1(3) step msg by (auto split: prod.splits)
      from 1(2) [OF False refl refl _ _ _ g(1)] msg
      have i: "parse hs 0 (drop ?n ?s @ t) = (case parse hs h' (s' @ t) of (gs', r) \<Rightarrow> (gs @ gs', r))" by blast
      have n: "?n \<le> length ?s" using msg by auto
      have "\<not> (?h < 0 \<or> int (length (?s @ t)) < ?h)" using msg by auto
      then have "parse hs h (s @ t) = (case parse hs 0 (drop ?n (?s @ t)) of (fs, r) \<Rightarrow> (take ?n (?s @ t) # fs, r))"
        using step2 msg(2,3) by simp
      with i n g(2) show ?thesis by (simp split: prod.splits)
    qed
  qed
qed


lemma parse_len: "parse hs h s = (fs, Wait h' s') \<Longrightarrow> length s' \<le> length s"
proof (induction hs h s arbitrary: fs rule: parse.induct)
  case (1 hs h s)
  show ?case
  proof (cases "hs = 0 \<or> (h = 0 \<and> length s < hs)")
    case True
    then show ?thesis using 1(3) by (subst (asm) parse.simps) simp
  next
    case False
    let ?h = "if h = 0 then header_value (take hs s) else h"
    let ?s = "if h = 0 then drop hs s else s"
    note step = parse.simps [of hs h s, unfolded if_not_P [OF False] Let_def]
    have ls: "length ?s \<le> length s" by simp
    consider (wait) "?h < 0 \<or> int (length ?s) < ?h" | (zero) "\<not> (?h < 0 \<or> int (length ?s) < ?h)" "?h = 0"
      | (big) "\<not> (?h < 0 \<or> int (length ?s) < ?h)" "?h \<noteq> 0" "?h \<ge> 0x1000000"
      | (msg) "\<not> (?h < 0 \<or> int (length ?s) < ?h)" "?h \<noteq> 0" "\<not> ?h \<ge> 0x1000000"
      by blast
    then show ?thesis
    proof cases
      case wait
      then show ?thesis using 1(3) step ls by simp
    next
      case zero
      then have "parse hs 0 ?s = (fs, Wait h' s')" using 1(3) step by simp
      from 1(1) [OF False refl refl zero this] ls show ?thesis by linarith
    next
      case big
      then show ?thesis using 1(3) step by simp
    next
      case msg
      then obtain gs where "parse hs 0 (drop (nat ?h) ?s) = (gs, Wait h' s')"
        using 1(3) step by (auto split: prod.splits)
      from 1(2) [OF False refl refl msg this] ls show ?thesis by simp
    qed
  qed
qed

section \<open>Invariant\<close>

definition conns_inv :: "hashid_node list \<Rightarrow> connection list \<Rightarrow> bool" where
  "conns_inv ns cs \<longleftrightarrow> length ns = length cs \<and>
     (\<forall>x < length cs. cid (cs ! x) = nid (ns ! x) \<and> cid (cs ! x) < 2 ^ 31 \<and>
        length (remote_name (cs ! x)) = 32 \<and> (cid (cs ! x) = - 1 \<longrightarrow> cbuf (cs ! x) = databuffer_zero))"

definition gate_inv :: "gate \<Rightarrow> nat list list \<Rightarrow> nat list \<Rightarrow> bool" where
  "gate_inv g xss fl \<longleftrightarrow> hashid_wf (ghash g) \<and> max_connection g = int (length (conn g)) \<and>
     header_size g \<in> {2, 4} \<and> bufs_inv (gmp g) (map cbuf (conn g)) xss fl \<and>
     conns_inv (ids (ghash g)) (conn g)"

lemma conns_inv_upd:
  assumes "conns_inv ns cs" "k < length cs" "cid c = nid (ns ! k)" "cid c < 2 ^ 31"
    "length (remote_name c) = 32" "cid c = - 1 \<longrightarrow> cbuf c = databuffer_zero"
  shows "conns_inv ns (cs[k := c])"
  using assms by (auto simp: conns_inv_def nth_list_update)

lemma conns_invD:
  assumes "conns_inv ns cs" "k < length cs"
  shows "cid (cs ! k) = nid (ns ! k)" "cid (cs ! k) < 2 ^ 31" "length (remote_name (cs ! k)) = 32"
    "cid (cs ! k) = - 1 \<Longrightarrow> cbuf (cs ! k) = databuffer_zero"
proof -
  have "cid (cs ! k) = nid (ns ! k) \<and> cid (cs ! k) < 2 ^ 31 \<and> length (remote_name (cs ! k)) = 32 \<and>
      (cid (cs ! k) = - 1 \<longrightarrow> cbuf (cs ! k) = databuffer_zero)"
    using assms(1) [unfolded conns_inv_def, THEN conjunct2, rule_format, OF assms(2)] .
  then show "cid (cs ! k) = nid (ns ! k)" "cid (cs ! k) < 2 ^ 31" "length (remote_name (cs ! k)) = 32"
    "cid (cs ! k) = - 1 \<Longrightarrow> cbuf (cs ! k) = databuffer_zero" by simp_all
qed

definition stream :: "gate \<Rightarrow> nat list list \<Rightarrow> nat \<Rightarrow> bytes" where
  "stream g xss k = content (gmp g) (cbuf (conn g ! k)) (xss ! k)"

text \<open>A step on the buffer of connection \<open>k\<close>.\<close>

definition put_buf :: "gate \<Rightarrow> nat \<Rightarrow> databuffer \<Rightarrow> messagepool \<Rightarrow> gate" where
  "put_buf g k db mp = g\<lparr>conn := (conn g)[k := (conn g ! k)\<lparr>cbuf := db\<rparr>], gmp := mp\<rparr>"

lemma put_buf_simps [simp]:
  "ghash (put_buf g k db mp) = ghash g" "header_size (put_buf g k db mp) = header_size g"
  "gmp (put_buf g k db mp) = mp" "length (conn (put_buf g k db mp)) = length (conn g)"
  "k < length (conn g) \<Longrightarrow> conn (put_buf g k db mp) ! k = (conn g ! k)\<lparr>cbuf := db\<rparr>"
  "j \<noteq> k \<Longrightarrow> conn (put_buf g k db mp) ! j = conn g ! j"
  "put_buf (put_buf g k db mp) k db' mp' = put_buf g k db' mp'"
  "broker (put_buf g k db mp) = broker g" "watchdog (put_buf g k db mp) = watchdog g"
  "client_tag (put_buf g k db mp) = client_tag g"
  by (simp_all add: put_buf_def) (cases "k < length (conn g)"; simp add: list_update_beyond)

lemma gate_owns:
  "gate_inv g xss fl \<Longrightarrow> k < length (conn g) \<Longrightarrow> owns (gmp g) (cbuf (conn g ! k)) (xss ! k) fl"
  by (simp add: gate_inv_def bufs_inv_def)

lemma gate_len: "gate_inv g xss fl \<Longrightarrow> length xss = length (conn g)"
  by (simp add: gate_inv_def bufs_inv_def)

lemma put_buf_ok:
  assumes inv: "gate_inv g xss fl" and k: "k < length (conn g)" "cid (conn g ! k) \<noteq> - 1 \<or> db = databuffer_zero"
    and op: "owns mp db xs fl'" "frame (gmp g) (xss ! k) fl mp xs fl'"
  shows "gate_inv (put_buf g k db mp) (xss[k := xs]) fl'"
    and "stream (put_buf g k db mp) (xss[k := xs]) k = content mp db xs"
    and "\<And>j. j < length (conn g) \<Longrightarrow> j \<noteq> k \<Longrightarrow> stream (put_buf g k db mp) (xss[k := xs]) j = stream g xss j"
proof -
  have b: "bufs_inv (gmp g) (map cbuf (conn g)) xss fl" using inv by (simp add: gate_inv_def)
  have k': "k < length (map cbuf (conn g))" using k by simp
  note st = bufs_step [OF b k' op]
  have m: "map cbuf (conn (put_buf g k db mp)) = (map cbuf (conn g))[k := db]"
    using k by (simp add: put_buf_def map_update)
  have ci: "conns_inv (ids (ghash g)) (conn g)" using inv by (simp add: gate_inv_def)
  have "conns_inv (ids (ghash g)) ((conn g)[k := (conn g ! k)\<lparr>cbuf := db\<rparr>])"
    by (rule conns_inv_upd [OF ci k(1)]) (use conns_invD [OF ci k(1)] k(2) in auto)
  with inv st(1) m show "gate_inv (put_buf g k db mp) (xss[k := xs]) fl'"
    by (simp add: gate_inv_def put_buf_def)
  show "stream (put_buf g k db mp) (xss[k := xs]) k = content mp db xs"
    using k gate_len [OF inv] by (simp add: stream_def)
  show "stream (put_buf g k db mp) (xss[k := xs]) j = stream g xss j" if "j < length (conn g)" "j \<noteq> k" for j
    using st(2) [of j] that by (simp add: stream_def)
qed

section \<open>Forwarding\<close>

definition deliverable :: "gate \<Rightarrow> connection \<Rightarrow> bool" where
  "deliverable g c \<longleftrightarrow> 0 < cid c \<and> (broker g \<noteq> 0 \<or> agent c \<noteq> 0 \<or> watchdog g \<noteq> 0)"

definition msg_event :: "gate \<Rightarrow> connection \<Rightarrow> bytes \<Rightarrow> event" where
  "msg_event g c d =
     (if broker g \<noteq> 0 then Send 0 (broker g) (client_tag g OR PTYPE_TAG_DONTCOPY) (cid c) d
      else if agent c \<noteq> 0 then Send (client c) (agent c) (client_tag g OR PTYPE_TAG_DONTCOPY) (cid c) d
      else Send 0 (watchdog g) (PTYPE_TEXT OR PTYPE_TAG_DONTCOPY) (cid c)
             (show_int (cid c) @ bs '' data '' @ d))"

lemma read_conn_ok:
  assumes inv: "gate_inv g xss fl" and k: "k < length (conn g)" "0 < cid (conn g ! k)"
    and sz: "0 < sz" "sz \<le> int (length (stream g xss k))"
  shows "\<exists>db mp xs fl'. read_conn g k sz = Some (take (nat sz) (stream g xss k), put_buf g k db mp) \<and>
     gate_inv (put_buf g k db mp) (xss[k := xs]) fl' \<and> header db = header (cbuf (conn g ! k)) \<and>
     owns mp db xs fl' \<and> frame (gmp g) (xss ! k) fl mp xs fl' \<and>
     content mp db xs = drop (nat sz) (stream g xss k)"
proof -
  note o = gate_owns [OF inv k(1)]
  have "sz \<le> bsize (cbuf (conn g ! k))" using sz(2) o by (simp add: owns_def nodes_def stream_def)
  from databuffer_read_ok [OF o sz(1) this] obtain db mp xs fl' where r:
    "databuffer_read (cbuf (conn g ! k)) (gmp g) sz = Some (take (nat sz) (stream g xss k), db, mp)"
    "owns mp db xs fl'" "frame (gmp g) (xss ! k) fl mp xs fl'"
    "content mp db xs = drop (nat sz) (stream g xss k)" "header db = header (cbuf (conn g ! k))"
    unfolding stream_def by blast
  have "read_conn g k sz = Some (take (nat sz) (stream g xss k), put_buf g k db mp)"
    using r(1) k(1) by (simp add: read_conn_def put_buf_def)
  with put_buf_ok(1) [OF inv k(1) _ r(2,3)] r k(2) show ?thesis by auto
qed

lemma forward_msg_ok:
  assumes inv: "gate_inv g xss fl" and k: "k < length (conn g)" "deliverable g (conn g ! k)"
    and sz: "0 < sz" "sz \<le> int (length (stream g xss k))"
  shows "\<exists>db mp xs fl'. forward_msg g k sz =
       Some ([msg_event g (conn g ! k) (take (nat sz) (stream g xss k))], put_buf g k db mp) \<and>
     gate_inv (put_buf g k db mp) (xss[k := xs]) fl' \<and> owns mp db xs fl' \<and>
     frame (gmp g) (xss ! k) fl mp xs fl' \<and> content mp db xs = drop (nat sz) (stream g xss k)"
proof -
  let ?c = "conn g ! k"
  have c: "0 < cid ?c" "cid ?c < 2 ^ 31" using inv k by (auto simp: deliverable_def gate_inv_def dest: conns_invD)
  have tk: "take 31 (show_int (cid ?c) @ bs '' data '') = show_int (cid ?c) @ bs '' data ''"
    using length_show_int [of "cid ?c"] c by simp
  from read_conn_ok [OF inv k(1) c(1) sz] obtain db mp xs fl' where
    "read_conn g k sz = Some (take (nat sz) (stream g xss k), put_buf g k db mp)"
    "gate_inv (put_buf g k db mp) (xss[k := xs]) fl'" "owns mp db xs fl'"
    "frame (gmp g) (xss ! k) fl mp xs fl'" "content mp db xs = drop (nat sz) (stream g xss k)" by blast
  moreover from this(1) have "forward_msg g k sz =
      Some ([msg_event g ?c (take (nat sz) (stream g xss k))], put_buf g k db mp)"
    using k c(1) tk unfolding forward_msg_def deliverable_def msg_event_def
    by (simp add: Let_def del: take_append)
  ultimately show ?thesis by blast
qed


lemma msg_event_buf [simp]: "msg_event (put_buf g k db mp) (c\<lparr>cbuf := db'\<rparr>) d = msg_event g c d"
  by (simp add: msg_event_def)

lemma deliverable_buf [simp]: "deliverable (put_buf g k db mp) (c\<lparr>cbuf := db'\<rparr>) = deliverable g c"
  by (simp add: deliverable_def)

fun rest_events :: "int \<Rightarrow> rest \<Rightarrow> event list" where
  "rest_events uid (Wait h s) = []"
| "rest_events uid (TooBig s) = [SocketClose uid, LogError (bs ''Recv socket message > 16M'')]"

fun left_over :: "rest \<Rightarrow> databuffer \<Rightarrow> bytes \<Rightarrow> bool" where
  "left_over (Wait h s) db c = (header db = h \<and> c = s)"
| "left_over (TooBig s) db c = (db = databuffer_zero \<and> c = [])"

lemma owns_reset: "owns mp db xs fl \<Longrightarrow> owns mp (databuffer_reset db) xs fl"
  "content mp (databuffer_reset db) xs = content mp db xs" "header (databuffer_reset db) = 0"
  by (simp_all add: databuffer_reset_def owns_def nodes_def links_def content_def)

text \<open>One round of the loop.\<close>

lemma dispatch_loop_unfold:
  assumes k: "k < length (conn g)"
    and r: "databuffer_readheader (cbuf (conn g ! k)) (gmp g) (header_size g) = Some (sz, db, mp)"
  shows "dispatch_loop g k uid =
     (if sz < 0 then Some ([], put_buf g k db mp)
      else if sz > 0 then
        if sz \<ge> 0x1000000 then
          Option.bind (databuffer_clear db mp) (\<lambda>r'.
            Some ([SocketClose uid, LogError (bs ''Recv socket message > 16M'')], put_buf g k (fst r') (snd r')))
        else
          Option.bind (forward_msg (put_buf g k db mp) k sz) (\<lambda>f.
          Option.bind (arr_get (conn (snd f)) (int k)) (\<lambda>c'.
          Option.bind (dispatch_loop (put_buf (snd f) k (databuffer_reset (cbuf c')) (gmp (snd f))) k uid)
            (\<lambda>rest. Some (fst f @ fst rest, snd rest))))
      else dispatch_loop (put_buf g k db mp) k uid)"
proof -
  have g1: "g\<lparr>conn := (conn g)[k := (conn g ! k)\<lparr>cbuf := db\<rparr>], gmp := mp\<rparr> = put_buf g k db mp"
    by (simp add: put_buf_def)
  have clr: "(put_buf g k db mp)\<lparr>conn := (conn (put_buf g k db mp))[k := (conn g ! k)\<lparr>cbuf := d\<rparr>], gmp := m\<rparr>
      = put_buf g k d m" for d m
    by (simp add: put_buf_def)
  have loop: "Option.bind (arr_get (conn g') (int k)) (\<lambda>c'. Option.bind (dispatch_loop
        (g'\<lparr>conn := (conn g')[k := c'\<lparr>cbuf := databuffer_reset (cbuf c')\<rparr>]\<rparr>) k uid) F) =
      Option.bind (arr_get (conn g') (int k)) (\<lambda>c'. Option.bind (dispatch_loop
        (put_buf g' k (databuffer_reset (cbuf c')) (gmp g')) k uid) F)"
    for g' :: gate and F :: "event list \<times> gate \<Rightarrow> (event list \<times> gate) option"
    by (rule Option.bind_cong) (auto simp: arr_get_def put_buf_def split: if_splits)
  show ?thesis using k r by (subst dispatch_loop.simps) (simp add: Let_def g1 clr loop)
qed

lemma dispatch_loop_ok:
  assumes "gate_inv g xss fl" "k < length (conn g)" "deliverable g (conn g ! k)"
    and "hs = header_size g" "h = header (cbuf (conn g ! k))" "s = stream g xss k" "parse hs h s = (fs, r)"
  shows "\<exists>db mp xs fl'. dispatch_loop g k uid =
       Some (map (msg_event g (conn g ! k)) fs @ rest_events uid r, put_buf g k db mp) \<and>
     owns mp db xs fl' \<and> frame (gmp g) (xss ! k) fl mp xs fl' \<and> left_over r db (content mp db xs)"
  using assms
proof (induction hs h s arbitrary: g xss fl fs r rule: parse.induct)
  case (1 hs h s)
  note inv = 1(3) and k = 1(4) and del = 1(5) and hs = 1(6) and h = 1(7) and s = 1(8) and pr = 1(9)
  have c0: "0 < cid (conn g ! k)" using del by (simp add: deliverable_def)
  have hs0: "0 < hs" using inv hs by (auto simp: gate_inv_def)
  note own = gate_owns [OF inv k]
  from readheader_ok [OF own hs0] obtain db mp xs fl' where rd:
    "databuffer_readheader (cbuf (conn g ! k)) (gmp g) hs =
       Some (if h = 0 \<and> length s < hs \<or> int (length (content mp db xs)) < header db then - 1 else header db, db, mp)"
    "owns mp db xs fl'" "frame (gmp g) (xss ! k) fl mp xs fl'"
    "if h = 0 \<and> hs \<le> length s then header db = header_value (take hs s) \<and> content mp db xs = drop hs s
     else db = cbuf (conn g ! k) \<and> mp = gmp g \<and> xs = xss ! k \<and> fl' = fl"
    unfolding h s stream_def by blast
  note unf = dispatch_loop_unfold [OF k rd(1) [unfolded hs], of uid]
  have inv1: "gate_inv (put_buf g k db mp) (xss[k := xs]) fl'"
    using put_buf_ok(1) [OF inv k _ rd(2,3)] c0 by simp
  have st1: "stream (put_buf g k db mp) (xss[k := xs]) k = content mp db xs"
    using put_buf_ok(2) [OF inv k _ rd(2,3)] c0 by simp
  have len: "length xss = length (conn g)" by (rule gate_len [OF inv])
  show ?case
  proof (cases "hs = 0 \<or> (h = 0 \<and> length s < hs)")
    case True
    then have sm: "h = 0" "length s < hs" using hs0 by auto
    then have same: "db = cbuf (conn g ! k)" "mp = gmp g" "xs = xss ! k" using rd(4) by auto
    have "dispatch_loop g k uid = Some ([], put_buf g k db mp)" using unf sm hs by simp
    moreover have "fs = []" "r = Wait h s" using pr True by (subst (asm) parse.simps, simp)+
    ultimately show ?thesis using rd(2,3) same h s
      by (intro exI [of _ db] exI [of _ mp] exI [of _ xs] exI [of _ fl']) (simp add: stream_def)
  next
    case False
    let ?h = "if h = 0 then header_value (take hs s) else h"
    let ?s = "if h = 0 then drop hs s else s"
    have hdr: "header db = ?h" "content mp db xs = ?s"
      using rd(4) False h s by (auto simp: stream_def split: if_splits)
    have nsm: "\<not> (h = 0 \<and> length s < hs)" using False by auto
    note step = parse.simps [of hs h s, unfolded if_not_P [OF False] Let_def]
    consider (wait) "?h < 0 \<or> int (length ?s) < ?h" | (zero) "\<not> (?h < 0 \<or> int (length ?s) < ?h)" "?h = 0"
      | (big) "\<not> (?h < 0 \<or> int (length ?s) < ?h)" "?h \<noteq> 0" "?h \<ge> 0x1000000"
      | (msg) "\<not> (?h < 0 \<or> int (length ?s) < ?h)" "?h \<noteq> 0" "\<not> ?h \<ge> 0x1000000"
      by blast
    then show ?thesis
    proof cases
      case wait
      then have "dispatch_loop g k uid = Some ([], put_buf g k db mp)" using unf nsm hs hdr by auto
      moreover have "fs = []" "r = Wait ?h ?s" using pr step wait by simp_all
      ultimately show ?thesis using rd(2,3) hdr
        by (intro exI [of _ db] exI [of _ mp] exI [of _ xs] exI [of _ fl']) simp
    next
      case zero
      have eq: "dispatch_loop g k uid = dispatch_loop (put_buf g k db mp) k uid"
        using unf nsm hs hdr zero by auto
      have p: "parse hs 0 ?s = (fs, r)" using pr step zero by simp
      have k1: "k < length (conn (put_buf g k db mp))" "deliverable (put_buf g k db mp) (conn (put_buf g k db mp) ! k)"
        using k del by simp_all
      have a: "hs = header_size (put_buf g k db mp)" "0 = header (cbuf (conn (put_buf g k db mp) ! k))"
        "?s = stream (put_buf g k db mp) (xss[k := xs]) k"
        using hs hdr zero(2) st1 k by simp_all
      note 1(1) [OF False refl refl zero inv1 k1 a p]
      then obtain db' mp' xs' fl'' where q: "dispatch_loop (put_buf g k db mp) k uid =
          Some (map (msg_event g (conn g ! k)) fs @ rest_events uid r, put_buf g k db' mp')"
          "owns mp' db' xs' fl''" "frame mp xs fl' mp' xs' fl''" "left_over r db' (content mp' db' xs')"
        using k len by (auto simp del: left_over.simps rest_events.simps)
      with eq frame_trans [OF rd(3) q(3)] show ?thesis by auto
    next
      case big
      obtain mp' fl'' where c: "databuffer_clear db mp = Some (databuffer_zero, mp')"
        "owns mp' databuffer_zero [] fl''" "frame mp xs fl' mp' [] fl''"
        using databuffer_clear_ok [OF rd(2)] by blast
      have "dispatch_loop g k uid =
          Some ([SocketClose uid, LogError (bs ''Recv socket message > 16M'')], put_buf g k databuffer_zero mp')"
        using unf nsm hs hdr big c(1) by auto
      moreover have "fs = []" "r = TooBig ?s" using pr step big by simp_all
      moreover have "content mp' databuffer_zero [] = []" by (simp add: content_def stored_def)
      ultimately show ?thesis using c(2) frame_trans [OF rd(3) c(3)]
        by (intro exI [of _ databuffer_zero] exI [of _ mp'] exI [of _ "[]"] exI [of _ fl'']) simp
    next
      case msg
      let ?n = "nat ?h" and ?g1 = "put_buf g k db mp"
      have k1: "k < length (conn ?g1)" "deliverable ?g1 (conn ?g1 ! k)" using k del by simp_all
      have n: "0 < ?h" "?h \<le> int (length (stream ?g1 (xss[k := xs]) k))" using msg st1 hdr by auto
      from forward_msg_ok [OF inv1 k1 n] obtain db2 mp2 xs2 fl2 where f:
        "forward_msg ?g1 k ?h = Some ([msg_event g (conn g ! k) (take ?n ?s)], put_buf g k db2 mp2)"
        "owns mp2 db2 xs2 fl2" "frame mp xs fl' mp2 xs2 fl2" "content mp2 db2 xs2 = drop ?n ?s"
        using k st1 hdr len by (auto split del: if_split)
      let ?db3 = "databuffer_reset db2" and ?g3 = "put_buf g k (databuffer_reset db2) mp2"
      have fr2: "frame (gmp g) (xss ! k) fl mp2 xs2 fl2" by (rule frame_trans [OF rd(3) f(3)])
      have inv3: "gate_inv ?g3 (xss[k := xs2]) fl2"
        using put_buf_ok(1) [OF inv k _ owns_reset(1) [OF f(2)] fr2] c0 by simp
      have st3: "stream ?g3 (xss[k := xs2]) k = drop ?n ?s"
        using put_buf_ok(2) [OF inv k _ owns_reset(1) [OF f(2)] fr2] c0 f(4) owns_reset(2) by simp
      obtain gs where g: "parse hs 0 (drop ?n ?s) = (gs, r)" "fs = take ?n ?s # gs"
        using pr step msg by (auto split: prod.splits)
      have k3: "k < length (conn ?g3)" "deliverable ?g3 (conn ?g3 ! k)" using k del by simp_all
      have a: "hs = header_size ?g3" "0 = header (cbuf (conn ?g3 ! k))" "drop ?n ?s = stream ?g3 (xss[k := xs2]) k"
        using hs st3 k owns_reset(3) by simp_all
      note 1(2) [OF False refl refl msg inv3 k3 a g(1)]
      then obtain db' mp' xs' fl'' where q: "dispatch_loop ?g3 k uid =
          Some (map (msg_event g (conn g ! k)) gs @ rest_events uid r, put_buf g k db' mp')"
          "owns mp' db' xs' fl''" "frame mp2 xs2 fl2 mp' xs' fl''" "left_over r db' (content mp' db' xs')"
        using k len by (auto simp del: left_over.simps rest_events.simps)
      have "dispatch_loop g k uid = Some (map (msg_event g (conn g ! k)) fs @ rest_events uid r, put_buf g k db' mp')"
        using unf nsm hs hdr msg f(1) q(1) k g(2) by (auto split del: if_split simp del: rest_events.simps)
      with q(2,4) frame_trans [OF fr2 q(3)] show ?thesis by auto
    qed
  qed
qed


section \<open>A block of data\<close>

text \<open>The messages of connection \<open>k\<close> that block \<open>d\<close> completes, and what remains.\<close>

definition frames :: "gate \<Rightarrow> nat list list \<Rightarrow> nat \<Rightarrow> bytes \<Rightarrow> bytes list \<times> rest" where
  "frames g xss k d = parse (header_size g) (header (cbuf (conn g ! k))) (stream g xss k @ d)"

lemma dispatch_message_ok:
  assumes inv: "gate_inv g xss fl" and k: "k < length (conn g)" "deliverable g (conn g ! k)"
    and room: "bsize (cbuf (conn g ! k)) + int (length d) < 2 ^ 31"
    and pr: "frames g xss k d = (fs, r)"
  shows "\<exists>db mp xs fl'. dispatch_message g k uid d (int (length d)) =
       Some (map (msg_event g (conn g ! k)) fs @ rest_events uid r, put_buf g k db mp) \<and>
     owns mp db xs fl' \<and> frame (gmp g) (xss ! k) fl mp xs fl' \<and> left_over r db (content mp db xs)"
proof -
  have c0: "0 < cid (conn g ! k)" using k(2) by (simp add: deliverable_def)
  from databuffer_push_ok [OF gate_owns [OF inv k(1)] room] obtain db mp xs fl' where p:
    "databuffer_push (cbuf (conn g ! k)) (gmp g) d (int (length d)) = Some (db, mp)" "owns mp db xs fl'"
    "frame (gmp g) (xss ! k) fl mp xs fl'" "content mp db xs = stream g xss k @ d"
    "header db = header (cbuf (conn g ! k))"
    unfolding stream_def by blast
  have inv1: "gate_inv (put_buf g k db mp) (xss[k := xs]) fl'"
    using put_buf_ok(1) [OF inv k(1) _ p(2,3)] c0 by simp
  have st: "stream (put_buf g k db mp) (xss[k := xs]) k = stream g xss k @ d"
    using put_buf_ok(2) [OF inv k(1) _ p(2,3)] c0 p(4) by simp
  have eq: "dispatch_message g k uid d (int (length d)) = dispatch_loop (put_buf g k db mp) k uid"
    using p(1) k(1) by (simp add: dispatch_message_def put_buf_def)
  have pr': "parse (header_size (put_buf g k db mp)) (header (cbuf (conn (put_buf g k db mp) ! k)))
      (stream (put_buf g k db mp) (xss[k := xs]) k) = (fs, r)"
    using pr p(5) k(1) st by (simp add: frames_def)
  have len: "length xss = length (conn g)" by (rule gate_len [OF inv])
  have "k < length (conn (put_buf g k db mp))" "deliverable (put_buf g k db mp) (conn (put_buf g k db mp) ! k)"
    using k by simp_all
  from dispatch_loop_ok [OF inv1 this refl refl refl pr', of uid] obtain db' mp' xs' fl'' where q:
    "dispatch_loop (put_buf g k db mp) k uid =
       Some (map (msg_event g (conn g ! k)) fs @ rest_events uid r, put_buf g k db' mp')"
    "owns mp' db' xs' fl''" "frame mp xs fl' mp' xs' fl''" "left_over r db' (content mp' db' xs')"
    using k len by (auto simp del: left_over.simps rest_events.simps)
  with eq frame_trans [OF p(3) q(3)] show ?thesis by auto
qed

text \<open>The whole effect, with the invariant and the other connections.\<close>

lemma dispatch_message_inv:
  assumes inv: "gate_inv g xss fl" and k: "k < length (conn g)" "deliverable g (conn g ! k)"
    and room: "bsize (cbuf (conn g ! k)) + int (length d) < 2 ^ 31"
    and pr: "frames g xss k d = (fs, r)"
  shows "\<exists>g' xss' fl'. dispatch_message g k uid d (int (length d)) =
       Some (map (msg_event g (conn g ! k)) fs @ rest_events uid r, g') \<and> gate_inv g' xss' fl' \<and>
     left_over r (cbuf (conn g' ! k)) (stream g' xss' k) \<and>
     (\<forall>j < length (conn g). j \<noteq> k \<longrightarrow> conn g' ! j = conn g ! j \<and> stream g' xss' j = stream g xss j) \<and>
     g' = put_buf g k (cbuf (conn g' ! k)) (gmp g')"
proof -
  from dispatch_message_ok [OF assms, of uid] obtain db mp xs fl' where q:
    "dispatch_message g k uid d (int (length d)) =
       Some (map (msg_event g (conn g ! k)) fs @ rest_events uid r, put_buf g k db mp)"
    "owns mp db xs fl'" "frame (gmp g) (xss ! k) fl mp xs fl'" "left_over r db (content mp db xs)" by blast
  have "cid (conn g ! k) \<noteq> - 1" using k(2) by (simp add: deliverable_def)
  note p = put_buf_ok [OF inv k(1) disjI1 [OF this] q(2,3)]
  show ?thesis
    using q(1,4) p k(1) by (intro exI [of _ "put_buf g k db mp"] exI [of _ "xss[k := xs]"] exI [of _ fl']) simp
qed


section \<open>Opening and closing connections\<close>

lemma same_cell:
  assumes "hashid_wf hi" "hashid_wf hi'" "length (ids hi') = length (ids hi)" "x < length (ids hi)"
    and "\<And>v. index_of hi' v = Some x \<longleftrightarrow> index_of hi v = Some x"
  shows "nid (ids hi' ! x) = nid (ids hi ! x)"
proof (cases "x \<in> used (ids hi)")
  case True
  then have "index_of hi (nid (ids hi ! x)) = Some x" using index_of_Some [OF assms(1)] by simp
  then have "index_of hi' (nid (ids hi ! x)) = Some x" by (simp only: assms(5))
  then show ?thesis using index_of_Some [OF assms(2)] by simp
next
  case False
  have "x \<notin> used (ids hi')"
    using False assms(5) index_of_Some [OF assms(1)] index_of_Some [OF assms(2)] by blast
  with False assms(3,4) show ?thesis by (simp add: used_def)
qed

lemma gate_hash: "gate_inv g xss fl \<Longrightarrow> hashid_wf (ghash g) \<and> hcap (ghash g) = int (length (conn g)) \<and>
    length (ids (ghash g)) = length (conn g)"
  by (auto simp: gate_inv_def conns_inv_def hashid_wf_def)

lemma cell_free:
  assumes "gate_inv g xss fl" "k < length (conn g)" "k \<notin> used (ids (ghash g))"
  shows "cid (conn g ! k) = - 1" "cbuf (conn g ! k) = databuffer_zero"
proof -
  have ci: "conns_inv (ids (ghash g)) (conn g)" using assms(1) by (simp add: gate_inv_def)
  show "cid (conn g ! k) = - 1"
    using conns_invD(1) [OF ci assms(2)] assms(2,3) gate_hash [OF assms(1)] by (simp add: used_def)
  then show "cbuf (conn g ! k) = databuffer_zero" by (rule conns_invD(4) [OF ci assms(2)])
qed

lemma cell_used:
  assumes "gate_inv g xss fl" "index_of (ghash g) uid = Some k"
  shows "k < length (conn g)" "cid (conn g ! k) = uid" "uid < 2 ^ 31"
proof -
  have ci: "conns_inv (ids (ghash g)) (conn g)" using assms(1) by (simp add: gate_inv_def)
  have u: "k \<in> used (ids (ghash g))" "nid (ids (ghash g) ! k) = uid"
    using index_of_Some assms gate_hash by blast+
  then show k: "k < length (conn g)" using gate_hash [OF assms(1)] by (simp add: used_def)
  show "cid (conn g ! k) = uid" using conns_invD(1) [OF ci k] u(2) by simp
  then show "uid < 2 ^ 31" using conns_invD(2) [OF ci k] by simp
qed

lemma report_ok: "length t < 1024 \<Longrightarrow>
    report g t = Some (if watchdog g = 0 then [] else [Send 0 (watchdog g) PTYPE_TEXT 0 t])"
  by (simp add: report_def)

lemma conns_inv_cells:
  assumes "conns_inv ns cs" "length ns' = length ns" "\<And>x. x < length ns \<Longrightarrow> x \<noteq> k \<Longrightarrow> nid (ns' ! x) = nid (ns ! x)"
    and "k < length cs" "cid c = nid (ns' ! k)" "cid c < 2 ^ 31" "length (remote_name c) = 32"
      "cid c = - 1 \<longrightarrow> cbuf c = databuffer_zero"
  shows "conns_inv ns' (cs[k := c])"
  using assms by (auto simp: conns_inv_def nth_list_update)

lemma accept_ok:
  assumes inv: "gate_inv g xss fl" and uid: "0 \<le> uid" "uid + hcap (ghash g) \<le> 2 ^ 31"
    and new: "index_of (ghash g) uid = None" and room: "\<not> hashid_full (ghash g)"
  shows "\<exists>ev g' k. accept_conn g uid nm = Some (ev, g') \<and> gate_inv g' xss fl \<and>
     k \<notin> used (ids (ghash g)) \<and> k < length (conn g) \<and> index_of (ghash g') = (index_of (ghash g))(uid \<mapsto> k) \<and>
     cid (conn g' ! k) = uid \<and> header (cbuf (conn g' ! k)) = 0 \<and> stream g' xss k = [] \<and>
     (\<forall>j. j \<noteq> k \<longrightarrow> conn g' ! j = conn g ! j \<and> stream g' xss j = stream g xss j) \<and>
     g' = g\<lparr>ghash := ghash g', conn := conn g'\<rparr>"
proof -
  note gh = gate_hash [OF inv]
  have wf: "hashid_wf (ghash g)" and cap: "hcap (ghash g) = int (length (conn g))"
    and len: "length (ids (ghash g)) = length (conn g)" using gh by auto
  have "hcount (ghash g) < hcap (ghash g)"
    using room count_le_cap [OF wf] by (simp add: hashid_full_def)
  from insert_ok [OF wf this uid new] obtain k h where i: "hashid_insert (ghash g) uid = Some (int k, h)"
    "hashid_wf h" "k < length (ids (ghash g))" "k \<notin> used (ids (ghash g))"
    "index_of h = (index_of (ghash g))(uid \<mapsto> k)" "hcap h = hcap (ghash g)" by blast
  have k: "k < length (conn g)" using i(3) len by simp
  have lenh: "length (ids h) = length (ids (ghash g))" using i(2,6) wf by (auto simp: hashid_wf_def)
  have ci: "conns_inv (ids (ghash g)) (conn g)" using inv by (simp add: gate_inv_def)
  note free = cell_free [OF inv k i(4)]
  let ?c = "conn g ! k" and ?nm = "take 31 nm"
  define c' where "c' = ?c\<lparr>cid := uid, remote_name := ?nm @ [0] @ drop (length ?nm + 1) (remote_name ?c)\<rparr>"
  define addr where "addr = takeWhile (\<lambda>c. c \<noteq> 0) (remote_name c')"
  define g' where "g' = g\<lparr>ghash := h, conn := (conn g)[k := c']\<rparr>"
  have ca: "cstr_at (remote_name c') 0 = Some addr" by (simp add: c'_def addr_def cstr_at_def)
  have la: "length addr \<le> 31"
  proof -
    have "addr = takeWhile (\<lambda>c. c \<noteq> 0) ?nm"
      unfolding addr_def c'_def by (simp add: takeWhile_append)
        (metis (mono_tags) takeWhile_eq_all_conv)
    then have "length addr \<le> length ?nm" by (simp only: length_takeWhile_le)
    then show ?thesis by simp
  qed
  have lr: "length (remote_name c') = 32"
    using conns_invD(3) [OF ci k] by (simp add: c'_def)
  have u31: "uid < 2 ^ 31" using uid cap k by linarith
  have "length (show_int uid @ bs '' open '' @ show_int uid @ bs '' '' @ addr @ bs '':0'') < 1024"
    using length_show_int [of uid] uid u31 la by simp
  note rp = report_ok [OF this, of g']
  obtain ev where ac: "accept_conn g uid nm = Some (ev, g')"
    using room i(1) k ca [unfolded c'_def] rp [unfolded g'_def c'_def]
    unfolding accept_conn_def g'_def c'_def by (simp add: Let_def)
  have nk: "nid (ids h ! k) = uid" using index_of_Some [OF i(2), of uid k] i(5) by simp
  have "conns_inv (ids h) ((conn g)[k := c'])"
  proof (rule conns_inv_cells [OF ci lenh])
    show "nid (ids h ! x) = nid (ids (ghash g) ! x)" if "x < length (ids (ghash g))" "x \<noteq> k" for x
      using that i(5) new by (intro same_cell [OF wf i(2) lenh]) auto
  qed (use k nk u31 lr uid in \<open>auto simp: c'_def\<close>)
  moreover have "cbuf c' = cbuf ?c" by (simp add: c'_def)
  then have "map cbuf ((conn g)[k := c']) = map cbuf (conn g)"
    by (metis list_update_id map_update)
  ultimately have inv': "gate_inv g' xss fl" using inv i(2) by (simp add: gate_inv_def g'_def)
  have hz: "header (cbuf c') = 0" using free(2) by (simp add: c'_def databuffer_zero_def)
  have ns: "nodes (gmp g) databuffer_zero (xss ! k)" using gate_owns [OF inv k] free(2) by (simp add: owns_def)
  then have "xss ! k = []" by (auto simp: nodes_def links_def databuffer_zero_def chain_None_cases)
  then have "stream g' xss k = []" by (simp add: stream_def content_def stored_def)
  then show ?thesis using ac inv' i(4,5) k hz
    by (intro exI [of _ ev] exI [of _ g'] exI [of _ k]) (simp add: g'_def stream_def c'_def)
qed

lemma close_ok:
  assumes inv: "gate_inv g xss fl"
  shows "\<exists>ev g' xss' fl'. close_conn g uid = Some (ev, g') \<and> gate_inv g' xss' fl' \<and>
     index_of (ghash g') = (index_of (ghash g))(uid := None) \<and>
     (\<forall>j < length (conn g). index_of (ghash g) uid \<noteq> Some j \<longrightarrow>
        conn g' ! j = conn g ! j \<and> stream g' xss' j = stream g xss j)"
proof -
  note gh = gate_hash [OF inv]
  have wf: "hashid_wf (ghash g)" and len: "length (ids (ghash g)) = length (conn g)" using gh by auto
  have ci: "conns_inv (ids (ghash g)) (conn g)" using inv by (simp add: gate_inv_def)
  obtain h where r: "hashid_remove (ghash g) uid = Some (case index_of (ghash g) uid of Some x \<Rightarrow> int x | None \<Rightarrow> - 1, h)"
    "hashid_wf h" "index_of h = (index_of (ghash g))(uid := None)" "hcap h = hcap (ghash g)"
    using remove_ok [OF wf] by blast
  have lenh: "length (ids h) = length (ids (ghash g))" using r(2,4) wf by (auto simp: hashid_wf_def)
  show ?thesis
  proof (cases "index_of (ghash g) uid")
    case None
    have same: "index_of h v = index_of (ghash g) v" for v using r(3) None by simp
    have nids: "nid (ids h ! x) = nid (ids (ghash g) ! x)" if "x < length (conn g)" for x
      using same that len by (intro same_cell [OF wf r(2) lenh]) auto
    then have "conns_inv (ids h) (conn g)" using ci lenh by (auto simp: conns_inv_def)
    then have "gate_inv (g\<lparr>ghash := h\<rparr>) xss fl" using inv r(2) by (simp add: gate_inv_def)
    moreover have "close_conn g uid = Some ([], g\<lparr>ghash := h\<rparr>)" using r(1) None by (simp add: close_conn_def)
    ultimately show ?thesis using r(3)
      by (intro exI [of _ "[]"] exI [of _ "g\<lparr>ghash := h\<rparr>"] exI [of _ xss] exI [of _ fl]) (simp add: stream_def)
  next
    case (Some k)
    note cu = cell_used [OF inv Some]
    obtain mp fl' where c: "databuffer_clear (cbuf (conn g ! k)) (gmp g) = Some (databuffer_zero, mp)"
      "owns mp databuffer_zero [] fl'" "frame (gmp g) (xss ! k) fl mp [] fl'"
      using databuffer_clear_ok [OF gate_owns [OF inv cu(1)]] by blast
    have "- 1 \<le> uid"
      using index_of_Some [OF wf, of uid k] Some wf len cu(1) by (auto simp: hashid_wf_def)
    then have "length (show_int uid @ bs '' close'') < 1024" using length_show_int [of uid] cu(3) by simp
    define g' where "g' = g\<lparr>ghash := h, gmp := mp, conn := (conn g)[k := zero_connection\<lparr>cid := - 1\<rparr>]\<rparr>"
    note rp = report_ok [OF \<open>length (show_int uid @ bs '' close'') < 1024\<close>, of g']
    obtain ev where cl: "close_conn g uid = Some (ev, g')"
      using r(1) Some c(1) cu(1) rp by (simp add: close_conn_def g'_def [symmetric] Let_def)
    have b: "bufs_inv (gmp g) (map cbuf (conn g)) xss fl" using inv by (simp add: gate_inv_def)
    have k': "k < length (map cbuf (conn g))" using cu(1) by simp
    note st = bufs_step [OF b k' c(2,3)]
    have "index_of h uid = None" using r(3) by simp
    have nk: "nid (ids h ! k) = - 1"
    proof (rule ccontr)
      assume "nid (ids h ! k) \<noteq> - 1"
      then have "index_of h (nid (ids h ! k)) = Some k"
        using index_of_Some [OF r(2)] lenh len cu(1) by (simp add: used_def)
      then have "index_of (ghash g) (nid (ids h ! k)) = Some k" "nid (ids h ! k) \<noteq> uid"
        using r(3) by (auto split: if_splits)
      with Some hid.distinct_values [OF wf] show False by blast
    qed
    have "conns_inv (ids h) ((conn g)[k := zero_connection\<lparr>cid := - 1\<rparr>])"
    proof (rule conns_inv_cells [OF ci lenh])
      show "nid (ids h ! x) = nid (ids (ghash g) ! x)" if "x < length (ids (ghash g))" "x \<noteq> k" for x
        using that r(3) Some by (intro same_cell [OF wf r(2) lenh]) auto
    qed (use cu(1) nk in \<open>auto simp: zero_connection_def\<close>)
    moreover have "map cbuf (conn g') = (map cbuf (conn g))[k := databuffer_zero]"
      by (simp add: g'_def map_update zero_connection_def)
    ultimately have "gate_inv g' (xss[k := []]) fl'"
      using inv st(1) r(2) by (simp add: gate_inv_def g'_def)
    moreover have "conn g' ! j = conn g ! j \<and> stream g' (xss[k := []]) j = stream g xss j"
      if "j < length (conn g)" "j \<noteq> k" for j
      using st(2) [of j] that by (simp add: g'_def stream_def)
    moreover have "ghash g' = h" by (simp add: g'_def)
    ultimately show ?thesis using cl r(3) Some
      by (intro exI [of _ ev] exI [of _ g'] exI [of _ "xss[k := []]"] exI [of _ fl']) auto
  qed
qed


section \<open>Starting\<close>

lemma gate_init_ok:
  assumes sc: "scan_parm s = Some (hdr, wd, addr, tag, maxn)" and m: "0 < maxn" "maxn \<le> 2 ^ 30"
    and hdr: "hdr \<in> {83, 76}" and w: "wd ! 0 = 33 \<or> query wd \<noteq> 0"
  shows "\<exists>r ev g'. gate_init query listen gate_create (Some s) = Some (r, ev, g') \<and>
     gate_inv g' (replicate (nat maxn) []) [] \<and> index_of (ghash g') = (\<lambda>_. None) \<and> hcap (ghash g') = maxn \<and>
     \<not> hashid_full (ghash g') \<and>
     header_size g' = (if hdr = 83 then 2 else 4) \<and> watchdog g' = (if wd ! 0 = 33 then 0 else query wd) \<and>
     broker g' = 0 \<and> length (conn g') = nat maxn"
proof -
  obtain h where h: "hashid_init maxn = Some h" "hashid_wf h" "index_of h = (\<lambda>_. None)" "hcap h = maxn" "hcount h = 0"
    using init_ok [OF m] by blast
  have li: "length (ids h) = nat maxn" using h(2,4) by (simp add: hashid_wf_def)
  define g2 where "g2 = gate_create\<lparr>watchdog := (if wd ! 0 = 33 then 0 else query wd), ghash := h,
      conn := replicate (nat maxn) (zero_connection\<lparr>cid := - 1\<rparr>), max_connection := maxn,
      client_tag := (if tag = 0 then PTYPE_CLIENT else tag), header_size := (if hdr = 83 then 2 else 4)\<rparr>"
  obtain r ev g3 where sl: "start_listen listen g2 addr = (r, ev, g3)" by (metis prod_cases3)
  have g3: "\<exists>v. g3 = g2\<lparr>listen_id := v\<rparr>"
  proof -
    have self: "\<exists>v. g = g\<lparr>listen_id := v\<rparr>" for g :: gate by (rule exI [of _ "listen_id g"]) simp
    show ?thesis using sl self by (auto simp: start_listen_def Let_def split: if_splits prod.splits)
  qed
  then obtain v where v: "g3 = g2\<lparr>listen_id := v\<rparr>" by blast
  have eq: "gate_init query listen gate_create (Some s) = Some (r, SetCallback # ev, g3)"
    using sc m hdr w h(1) sl by (auto simp: gate_init_def Let_def g2_def)
  have used0: "used (ids h) = {}" using h(3) index_of_Some [OF h(2)] by (auto simp: fun_eq_iff)
  have "conns_inv (ids h) (replicate (nat maxn) (zero_connection\<lparr>cid := - 1\<rparr>))"
    using li used0 by (auto simp: conns_inv_def zero_connection_def used_def)
  moreover have "bufs_inv pool_zero (replicate (nat maxn) databuffer_zero) (replicate (nat maxn) []) []"
    using owns_zero by (auto simp: bufs_inv_def)
  ultimately have "gate_inv g3 (replicate (nat maxn) []) []"
    using h(2,4) m by (simp add: gate_inv_def v g2_def gate_create_def zero_connection_def)
  moreover have "\<not> hashid_full h" using h(4,5) m by (simp add: hashid_full_def)
  ultimately show ?thesis using eq h(3,4)
    by (intro exI [of _ r] exI [of _ "SetCallback # ev"] exI [of _ g3]) (simp add: v g2_def gate_create_def)
qed

section \<open>Properties\<close>

definition data_msg :: "int \<Rightarrow> bytes \<Rightarrow> socket_message" where
  "data_msg uid d = \<lparr>sm_type = SDATA, sm_id = uid, sm_ud = int (length d), sm_buffer = d\<rparr>"

lemma data_dispatch:
  assumes "hashid_lookup (ghash g) uid = Some (int k)"
  shows "dispatch_socket_message g (data_msg uid d) nm = dispatch_message g k uid d (int (length d))"
  using assms by (simp add: dispatch_socket_message_def data_msg_def)

lemma lookup_cell:
  assumes "gate_inv g xss fl" "hashid_lookup (ghash g) uid = Some (int k)"
  shows "k < length (conn g)" "cid (conn g ! k) = uid"
proof -
  have "index_of (ghash g) uid = Some k" using assms(2) by (simp add: index_of_def)
  from cell_used [OF assms(1) this] show "k < length (conn g)" "cid (conn g ! k) = uid" by auto
qed

text \<open>
  C23: a block of data for an open connection yields exactly the messages that the length headers
  of its stream delimit, each sent whole and in order to the receiver of the connection; what
  is left stays in the buffer, and no other connection is touched.
\<close>

theorem gate_forwards_frames:
  assumes "gate_inv g xss fl" "hashid_lookup (ghash g) uid = Some (int k)" "deliverable g (conn g ! k)"
    and "bsize (cbuf (conn g ! k)) + int (length d) < 2 ^ 31" "frames g xss k d = (fs, r)"
  shows "\<exists>g' xss' fl'. dispatch_socket_message g (data_msg uid d) nm =
       Some (map (msg_event g (conn g ! k)) fs @ rest_events uid r, g') \<and> gate_inv g' xss' fl' \<and>
     left_over r (cbuf (conn g' ! k)) (stream g' xss' k) \<and>
     (\<forall>j < length (conn g). j \<noteq> k \<longrightarrow> conn g' ! j = conn g ! j \<and> stream g' xss' j = stream g xss j)"
  using dispatch_message_inv [OF assms(1) lookup_cell(1) [OF assms(1,2)] assms(3-5), of uid]
    data_dispatch [OF assms(2)] by auto



text \<open>A gate with four cells, a watchdog and one open connection, with socket id 5.\<close>

lemma demo_parm: "scan_parm (bs ''S w :8000 0 4'') = Some (83, [119], bs '':8000'', 0, 4)"
  by code_simp

lemma demo_gate:
  "\<exists>g xss fl k. gate_inv g xss fl \<and> hashid_lookup (ghash g) 5 = Some (int k) \<and> k < length (conn g) \<and>
     deliverable g (conn g ! k) \<and> header_size g = 2 \<and> watchdog g = 7 \<and> broker g = 0 \<and>
     header (cbuf (conn g ! k)) = 0 \<and> stream g xss k = [] \<and> bsize (cbuf (conn g ! k)) = 0"
proof -
  obtain g where g: "gate_inv g (replicate (nat 4) []) []" "index_of (ghash g) = (\<lambda>_. None)" "hcap (ghash g) = 4"
    "\<not> hashid_full (ghash g)" "header_size g = 2" "watchdog g = 7" "broker g = 0"
    using gate_init_ok [OF demo_parm, where query = "\<lambda>_. 7" and listen = "\<lambda>_ _ _. 3"] by auto
  obtain ev g' k where a: "accept_conn g 5 [] = Some (ev, g')" "gate_inv g' (replicate (nat 4) []) []"
    "k < length (conn g)" "index_of (ghash g') = (index_of (ghash g))(5 \<mapsto> k)" "cid (conn g' ! k) = 5"
    "header (cbuf (conn g' ! k)) = 0" "stream g' (replicate (nat 4) []) k = []"
    "g' = g\<lparr>ghash := ghash g', conn := conn g'\<rparr>"
    using accept_ok [OF g(1), of 5 "[]"] g(2,3,4) by auto
  have f: "header_size g' = 2" "watchdog g' = 7" "broker g' = 0" using g(5-7) by (subst a(8), simp)+
  have wf: "hashid_wf (ghash g')" using a(2) by (simp add: gate_inv_def)
  have lk: "hashid_lookup (ghash g') 5 = Some (int k)" using lookup_index [OF wf, of 5] a(4) by simp
  note k = lookup_cell(1) [OF a(2) lk]
  have "bsize (cbuf (conn g' ! k)) = 0"
    using gate_owns [OF a(2) k] a(7) by (simp add: owns_def nodes_def stream_def)
  moreover have "deliverable g' (conn g' ! k)" using a(5) f by (simp add: deliverable_def)
  ultimately show ?thesis using a(2,6,7) lk k f by blast
qed

lemma demo_frames: "parse 2 0 [0, 1, 65] = ([[65]], Wait 0 [])" "parse 2 0 [0, 1] = ([], Wait 1 [])"
proof -
  have "parse 2 0 [] = ([], Wait 0 [])" by (subst parse.simps) simp
  moreover have "header_value [0, 1] = 1" by (simp add: header_value_2)
  ultimately show "parse 2 0 [0, 1, 65] = ([[65]], Wait 0 [])" "parse 2 0 [0, 1] = ([], Wait 1 [])"
    by (subst parse.simps, simp add: Let_def numeral_2_eq_2)+
qed

lemma gate_forwards_frames_witness:
  "\<exists>g c g'. dispatch_socket_message g (data_msg 5 [0, 1, 65]) [] = Some ([msg_event g c [65]], g')"
proof -
  obtain g xss fl k where g: "gate_inv g xss fl" "hashid_lookup (ghash g) 5 = Some (int k)"
    "deliverable g (conn g ! k)" "header_size g = 2" "header (cbuf (conn g ! k)) = 0" "stream g xss k = []"
    "bsize (cbuf (conn g ! k)) = 0"
    using demo_gate by blast
  have "frames g xss k [0, 1, 65] = ([[65]], Wait 0 [])" using g(4-6) demo_frames by (simp add: frames_def)
  from gate_forwards_frames [OF g(1-3) _ this, of "[]"] g(7) show ?thesis by fastforce
qed


text \<open>
  an accepted connection gets a cell of its own with an empty stream while every other
  connection keeps its cell, its id and its stream; closing the connection forgets exactly its id.
\<close>

lemma gate_accept_close:
  assumes "gate_inv g xss fl" "\<not> hashid_full (ghash g)" "0 \<le> uid" "uid + hcap (ghash g) \<le> 2 ^ 31"
    and "hashid_lookup (ghash g) uid = Some (- 1)" "listen_id g = lid"
  shows "\<exists>e1 g1 k e2 g2 xss2 fl2.
     dispatch_socket_message g \<lparr>sm_type = SACCEPT, sm_id = lid, sm_ud = uid, sm_buffer = []\<rparr> nm = Some (e1, g1) \<and>
     gate_inv g1 xss fl \<and> stream g1 xss k = [] \<and> cid (conn g1 ! k) = uid \<and>
     (\<forall>v. hashid_lookup (ghash g1) v = (if v = uid then Some (int k) else hashid_lookup (ghash g) v)) \<and>
     (\<forall>j. j \<noteq> k \<longrightarrow> conn g1 ! j = conn g ! j \<and> stream g1 xss j = stream g xss j) \<and>
     dispatch_socket_message g1 \<lparr>sm_type = SCLOSE, sm_id = uid, sm_ud = 0, sm_buffer = []\<rparr> [] = Some (e2, g2) \<and>
     gate_inv g2 xss2 fl2 \<and> (\<forall>v. hashid_lookup (ghash g2) v = hashid_lookup (ghash g) v)"
proof -
  have none: "index_of (ghash g) uid = None" using assms(5) by (simp add: index_of_def)
  obtain e1 g1 k where 1: "accept_conn g uid nm = Some (e1, g1)" "gate_inv g1 xss fl"
    "index_of (ghash g1) = (index_of (ghash g))(uid \<mapsto> k)" "cid (conn g1 ! k) = uid" "stream g1 xss k = []"
    "\<forall>j. j \<noteq> k \<longrightarrow> conn g1 ! j = conn g ! j \<and> stream g1 xss j = stream g xss j"
    using accept_ok [OF assms(1,3,4) none assms(2), of nm] by blast
  obtain e2 g2 xss2 fl2 where 2: "close_conn g1 uid = Some (e2, g2)" "gate_inv g2 xss2 fl2"
    "index_of (ghash g2) = (index_of (ghash g1))(uid := None)"
    using close_ok [OF 1(2), of uid] by blast
  have wf: "hashid_wf (ghash g)" "hashid_wf (ghash g1)" "hashid_wf (ghash g2)"
    using assms(1) 1(2) 2(2) by (simp_all add: gate_inv_def)
  have "hashid_lookup (ghash g1) v = (if v = uid then Some (int k) else hashid_lookup (ghash g) v)" for v
    using lookup_index [OF wf(1), of v] lookup_index [OF wf(2), of v] 1(3) by simp
  moreover have "hashid_lookup (ghash g2) v = hashid_lookup (ghash g) v" for v
    using lookup_index [OF wf(1), of v] lookup_index [OF wf(3), of v] 1(3) 2(3) none by simp
  ultimately show ?thesis using 1 2(1,2) assms(6)
    by (intro exI [of _ e1] exI [of _ g1] exI [of _ k] exI [of _ e2] exI [of _ g2] exI [of _ xss2] exI [of _ fl2])
      (simp add: dispatch_socket_message_def)
qed

lemma gate_accept_close_witness:
  "\<exists>g e1 g1 e2 g2. dispatch_socket_message g \<lparr>sm_type = SACCEPT, sm_id = listen_id g, sm_ud = 6, sm_buffer = []\<rparr> [49] = Some (e1, g1) \<and>
     dispatch_socket_message g1 \<lparr>sm_type = SCLOSE, sm_id = 6, sm_ud = 0, sm_buffer = []\<rparr> [] = Some (e2, g2)"
proof -
  obtain g where g: "gate_inv g (replicate (nat 4) []) []" "index_of (ghash g) = (\<lambda>_. None)" "hcap (ghash g) = 4"
    "\<not> hashid_full (ghash g)"
    using gate_init_ok [OF demo_parm, where query = "\<lambda>_. 7" and listen = "\<lambda>_ _ _. 3"] by auto
  have wf: "hashid_wf (ghash g)" using g(1) by (simp add: gate_inv_def)
  have "hashid_lookup (ghash g) 6 = Some (- 1)" using lookup_index [OF wf, of 6] g(2) by simp
  from gate_accept_close [OF g(1,4) _ _ this refl, of "[49]"] g(3) show ?thesis by fastforce
qed

text \<open>
  C25: a four byte header whose first byte is 128 or more makes the value negative. The test of
  16M, made only on positive sizes, is skipped: the connection is never closed and no message
  is ever forwarded again, while every later block is stored in the buffer.
\<close>

theorem gate_negative_header_stalls:
  assumes "gate_inv g xss fl" "hashid_lookup (ghash g) uid = Some (int k)" "deliverable g (conn g ! k)"
    and "header_size g = 4" "header (cbuf (conn g ! k)) = 0" "stream g xss k @ d1 = [a, b, c, e] @ s" "128 \<le> a"
    and "bsize (cbuf (conn g ! k)) + int (length d1) + int (length d2) < 2 ^ 31"
  shows "\<exists>g1 g2 xss2 fl2. dispatch_socket_message g (data_msg uid d1) nm = Some ([], g1) \<and>
     dispatch_socket_message g1 (data_msg uid d2) nm = Some ([], g2) \<and>
     gate_inv g2 xss2 fl2 \<and> stream g2 xss2 k = s @ d2 \<and> header (cbuf (conn g2 ! k)) < 0"
proof -
  have "sint (push_bit 24 (ucast a) OR push_bit 16 (ucast b) OR push_bit 8 (ucast c) OR ucast e :: u32) < 0"
  proof -
    have "bit a 7"
    proof (rule ccontr)
      assume "\<not> bit a 7"
      then have "take_bit 7 a = a" by (intro bit_word_eqI) (auto simp: bit_simps less_Suc_eq numeral_eq_Suc)
      then have "unat a < 2 ^ 7" by (metis take_bit_nat_less_exp unsigned_take_bit_eq)
      with assms(7) show False by (simp add: word_le_nat_alt)
    qed
    then have "bit (push_bit 24 (ucast a) OR push_bit 16 (ucast b) OR push_bit 8 (ucast c) OR ucast e :: u32) 31"
      by (simp add: bit_simps)
    then show ?thesis using bit_last_iff [where 'a = 32] by simp
  qed
  then have neg: "header_value [a, b, c, e] < 0" by (simp add: header_value_def)
  let ?h = "header_value [a, b, c, e]"
  note k = lookup_cell(1) [OF assms(1,2)]
  have f1: "frames g xss k d1 = ([], Wait ?h s)"
    using neg assms(4,5,6) by (subst frames_def, subst parse.simps) (simp add: Let_def)
  from dispatch_message_inv [OF assms(1) k assms(3) _ f1, of uid] assms(8) obtain g1 xss1 fl1 where 1:
    "dispatch_message g k uid d1 (int (length d1)) = Some ([], g1)" "gate_inv g1 xss1 fl1"
    "header (cbuf (conn g1 ! k)) = ?h" "stream g1 xss1 k = s" "g1 = put_buf g k (cbuf (conn g1 ! k)) (gmp g1)"
    by auto
  have g1: "ghash g1 = ghash g" "header_size g1 = header_size g" "length (conn g1) = length (conn g)"
    by (subst 1(5), simp)+
  have ev: "deliverable g1 (conn g1 ! k)"
    using k assms(3) by (subst (1 2) 1(5)) simp
  have f2: "frames g1 xss1 k d2 = ([], Wait ?h (s @ d2))"
    using neg 1(3,4) g1(2) assms(4) by (subst frames_def, subst parse.simps) (simp add: Let_def)
  have b: "bsize (cbuf (conn g ! k)) = int (length (stream g xss k))" "bsize (cbuf (conn g1 ! k)) = int (length s)"
    using gate_owns [OF assms(1) k] gate_owns [OF 1(2), of k] g1(3) k 1(4)
    by (simp_all add: owns_def nodes_def stream_def)
  have "length (stream g xss k @ d1) = length ([a, b, c, e] @ s)" by (simp only: assms(6))
  then have "length s \<le> length (stream g xss k) + length d1" by simp
  with b assms(8) have "bsize (cbuf (conn g1 ! k)) + int (length d2) < 2 ^ 31" by simp
  from dispatch_message_inv [OF 1(2) _ ev this f2, of uid] g1(3) k obtain g2 xss2 fl2 where 2:
    "dispatch_message g1 k uid d2 (int (length d2)) = Some ([], g2)" "gate_inv g2 xss2 fl2"
    "header (cbuf (conn g2 ! k)) = ?h" "stream g2 xss2 k = s @ d2" by auto
  have "hashid_lookup (ghash g1) uid = Some (int k)" using assms(2) g1(1) by simp
  with 1(1) 2 neg show ?thesis using data_dispatch [OF assms(2)] data_dispatch [of g1 uid k d2 nm] by auto
qed


lemma gate_negative_header_stalls_witness:
  "\<exists>g g1 g2. dispatch_socket_message g (data_msg 5 [128, 0, 0, 0]) [] = Some ([], g1) \<and>
     dispatch_socket_message g1 (data_msg 5 [1, 2, 3]) [] = Some ([], g2)"
proof -
  have sc: "scan_parm (bs ''L w :8000 0 4'') = Some (76, [119], bs '':8000'', 0, 4)" by code_simp
  obtain g where g: "gate_inv g (replicate (nat 4) []) []" "index_of (ghash g) = (\<lambda>_. None)" "hcap (ghash g) = 4"
    "\<not> hashid_full (ghash g)" "header_size g = 4" "watchdog g = 7" "broker g = 0"
    using gate_init_ok [OF sc, where query = "\<lambda>_. 7" and listen = "\<lambda>_ _ _. 3"] by auto
  obtain ev g' k where a: "gate_inv g' (replicate (nat 4) []) []"
    "index_of (ghash g') = (index_of (ghash g))(5 \<mapsto> k)" "cid (conn g' ! k) = 5"
    "header (cbuf (conn g' ! k)) = 0" "stream g' (replicate (nat 4) []) k = []"
    "g' = g\<lparr>ghash := ghash g', conn := conn g'\<rparr>"
    using accept_ok [OF g(1), of 5 "[]"] g(2,3,4) by auto
  have f: "header_size g' = 4" "watchdog g' = 7" "broker g' = 0" using g(5-7) by (subst a(6), simp)+
  have wf: "hashid_wf (ghash g')" using a(1) by (simp add: gate_inv_def)
  have lk: "hashid_lookup (ghash g') 5 = Some (int k)" using lookup_index [OF wf, of 5] a(2) by simp
  note k = lookup_cell(1) [OF a(1) lk]
  have "bsize (cbuf (conn g' ! k)) = 0"
    using gate_owns [OF a(1) k] a(5) by (simp add: owns_def nodes_def stream_def)
  moreover have "deliverable g' (conn g' ! k)" using a(3) f by (simp add: deliverable_def)
  ultimately show ?thesis
    using gate_negative_header_stalls [OF a(1) lk, of "[128, 0, 0, 0]" 128 0 0 0 "[]" "[1, 2, 3]" "[]"] f(1) a(4,5)
    by fastforce
qed

subsection \<open>Commands\<close>

lemma skip_blanks_stop: "k < sz \<Longrightarrow> tmp ! k \<noteq> 32 \<Longrightarrow> skip_blanks tmp sz k = k"
  "k < sz \<Longrightarrow> tmp ! k = 32 \<Longrightarrow> skip_blanks tmp sz k = skip_blanks tmp sz (Suc k)"
  by (subst skip_blanks.simps, simp)+

lemma parm_cmd:
  assumes "arg \<noteq> []" "List.hd arg \<noteq> 32"
  shows "parm ((w @ 32 # arg) @ [0]) (length (w @ 32 # arg)) (length w) =
     arg @ 0 # drop (length arg + 1) ((w @ 32 # arg) @ [0])"
proof -
  let ?m = "(w @ 32 # arg) @ [0]"
  have "?m ! length w = 32" "?m ! Suc (length w) = List.hd arg"
    using assms(1) by (cases arg; simp add: nth_append)+
  then have "skip_blanks ?m (length (w @ 32 # arg)) (length w) = Suc (length w)"
    using assms skip_blanks_stop(1) [of "Suc (length w)" "length (w @ 32 # arg)" ?m]
      skip_blanks_stop(2) [of "length w" "length (w @ 32 # arg)" ?m] by (cases arg) auto
  then show ?thesis using assms(1) unfolding parm_def by (cases arg) (simp_all add: Let_def max_def)
qed

lemma memcmp_same: "memcmp_eq (w @ a) (w @ b) (length w) = Some True"
  by (induction w) auto

lemma memcmp_differ: "x \<noteq> y \<Longrightarrow> 0 < n \<Longrightarrow> memcmp_eq (x # a) (y # b) n = Some False"
  by (cases n) auto

lemma word_of_cmd: "32 \<notin> set w \<Longrightarrow> takeWhile (\<lambda>c. c \<noteq> 32) (w @ 32 # arg) = w"
  by (auto simp: takeWhile_append)

text \<open>
  the command \<open>kick\<close> (n = 4) closes exactly the named connection, and nothing when it is
  not open. As memcmp only compares the typed bytes, every prefix of \<open>kick\<close>, down to the empty
  word, is taken for the same command.
\<close>

lemma gate_kick:
  assumes "hashid_wf (ghash g)" "- (2 ^ 31) \<le> fd" "fd < 2 ^ 31"
  shows "ctrl query g (take n (bs ''kick'') @ 32 # show_int fd) =
     Some (if hashid_lookup (ghash g) fd = Some (- 1) then [] else [SocketClose fd], g)"
proof -
  let ?arg = "show_int fd" and ?w = "take n (bs ''kick'')"
  have ne: "?arg \<noteq> []" using show_nat_nonempty by (simp add: show_int_def)
  have h: "List.hd ?arg \<noteq> 32" using show_int_chars [of "List.hd ?arg" fd] ne by auto
  have "32 \<notin> set (bs ''kick'')" by (simp add: bs_def)
  then have tw: "takeWhile (\<lambda>c. c \<noteq> 32) (?w @ 32 # ?arg) = ?w"
    by (intro word_of_cmd) (auto dest: in_set_takeD)
  have "lit ''kick'' = ?w @ (drop n (bs ''kick'') @ [0])" by (simp add: lit_def)
  then have mc: "memcmp_eq ((?w @ 32 # ?arg) @ [0]) (lit ''kick'') (length ?w) = Some True"
    by (metis append_assoc memcmp_same)
  have "cstr_at (parm ((?w @ 32 # ?arg) @ [0]) (length (?w @ 32 # ?arg)) (length ?w)) 0 = Some ?arg"
    unfolding parm_cmd [OF ne h] using cstr_at_mid [of ?arg 0 "[]"] show_int_chars [of _ fd] by force
  moreover have "hashid_lookup (ghash g) fd = Some (case index_of (ghash g) fd of Some x \<Rightarrow> int x | None \<Rightarrow> - 1)"
    by (rule lookup_index [OF assms(1)])
  ultimately show ?thesis
    unfolding ctrl_def Let_def tw mc using strtol10_show_int [OF assms(2,3)]
    by (simp split: option.splits del: append_assoc length_append)
qed

lemma gate_kick_witness:
  "\<exists>g. ctrl (\<lambda>_. 0) g (take 4 (bs ''kick'') @ 32 # show_int 6) = Some ([], g)"
proof -
  obtain h where h: "hashid_wf h" "index_of h = (\<lambda>_. None)" using init_ok [of 8] by auto
  have "hashid_lookup h 6 = Some (- 1)" using lookup_index [OF h(1), of 6] h(2) by simp
  with gate_kick [of "gate_create\<lparr>ghash := h\<rparr>" 6 "\<lambda>_. 0" 4] h(1) show ?thesis by auto
qed

text \<open>
  the command \<open>forward fd :agent :client\<close>, with the addresses in hexadecimal, sets the agent
  and the client of the named connection and nothing else.
\<close>

lemma gate_forward_command:
  assumes "- (2 ^ 31) \<le> fd" "fd < 2 ^ 31"
  shows "ctrl query g (bs ''forward '' @ show_int fd @ bs '' :'' @ show_hex (unat a) @ bs '' :'' @ show_hex (unat c)) =
     map_option (Pair []) (forward_agent g fd a c)"
proof -
  let ?f = "show_int fd" and ?A = "58 # show_hex (unat a)" and ?C = "58 # show_hex (unat c)" and ?w = "bs ''forward''"
  let ?arg = "?f @ 32 # ?A @ 32 # ?C"
  have ne: "?f \<noteq> []" using show_nat_nonempty by (simp add: show_int_def)
  have h: "List.hd ?arg \<noteq> 32" using show_int_chars [of "List.hd ?f" fd] ne by auto
  have msg: "bs ''forward '' @ ?f @ bs '' :'' @ show_hex (unat a) @ bs '' :'' @ show_hex (unat c) = ?w @ 32 # ?arg"
    by (simp add: bs_def)
  have tw: "takeWhile (\<lambda>c. c \<noteq> 32) (?w @ 32 # ?arg) = ?w" by (intro word_of_cmd) (simp add: bs_def)
  have mk: "memcmp_eq ((?w @ 32 # ?arg) @ [0]) (lit ''kick'') (length ?w) = Some False"
  proof -
    have w: "bs ''forward'' = 102 # bs ''orward''" and l: "lit ''kick'' = 107 # lit ''ick''"
      by (simp_all add: bs_def lit_def)
    show ?thesis unfolding w l by (simp del: length_bs)
  qed
  have mf: "memcmp_eq ((?w @ 32 # ?arg) @ [0]) (lit ''forward'') (length ?w) = Some True"
    unfolding lit_def append_assoc by (rule memcmp_same)
  have z: "0 \<notin> set ?f" "0 \<notin> set ?A" "0 \<notin> set ?C" "32 \<notin> set ?f" "32 \<notin> set ?A"
    using show_int_chars [of _ fd] show_hex_chars [of _ "unat a"] show_hex_chars [of _ "unat c"] by auto
  obtain ys where pm: "parm ((?w @ 32 # ?arg) @ [0]) (length (?w @ 32 # ?arg)) (length ?w) = ?arg @ 0 # ys"
  proof -
    have "?arg \<noteq> []" by simp
    from parm_cmd [OF this h, of ?w] show ?thesis by (intro that) (simp only: append_Cons append_assoc)
  qed
  let ?m1 = "?f @ 0 # ?A @ 32 # ?C @ 0 # ys" and ?m2 = "?f @ 0 # ?A @ 0 # ?C @ 0 # ys"
  let ?p1 = "length ?f + 1" and ?p2 = "length ?f + 1 + length ?A + 1"
  have s1: "strsep_at (?arg @ 0 # ys) 0 = Some (?m1, Some ?p1)"
    using strsep_at_mid [of ?f "?A @ 32 # ?C" 0 "[]" ys] z by auto
  have s2: "strsep_at ?m1 ?p1 = Some (?m2, Some ?p2)"
    using strsep_at_mid [of ?A ?C ?p1 "?f @ [0]" ys] z by simp
  have i: "cstr_at ?m1 0 = Some ?f" using cstr_at_mid [of ?f 0 "[]"] z by simp
  have ag: "cstr_at ?m2 (?p1 + 1) = Some (show_hex (unat a))"
    using cstr_at_mid [of "show_hex (unat a)" "?p1 + 1" "?f @ [0, 58]"] z by simp
  have cl: "cstr_at ?m2 (?p2 + 1) = Some (show_hex (unat c))"
    using cstr_at_mid [of "show_hex (unat c)" "?p2 + 1" "?f @ [0] @ ?A @ [0, 58]"] z by simp
  have "ctrl query g (?w @ 32 # ?arg) = do {
      g' \<leftarrow> forward_agent g (strtol10 ?f) (strtoul16 (show_hex (unat a))) (strtoul16 (show_hex (unat c)));
      Some ([], g') }"
    unfolding ctrl_def Let_def tw mk mf pm using s1 s2 i ag cl by (simp del: append_assoc)
  then show ?thesis
    unfolding msg strtol10_show_int [OF assms] strtoul16_show_hex
    by (cases "forward_agent g fd a c") simp_all
qed


lemma gate_forward_command_witness:
  "\<exists>g g' k. ctrl (\<lambda>_. 0) g (bs ''forward '' @ show_int 5 @ bs '' :'' @ show_hex (unat (0x1f :: u32)) @ bs '' :'' @ show_hex (unat (2 :: u32))) = Some ([], g') \<and>
     agent (conn g' ! k) = 0x1f \<and> client (conn g' ! k) = 2"
proof -
  obtain g xss fl k where g: "gate_inv g xss fl" "hashid_lookup (ghash g) 5 = Some (int k)" "k < length (conn g)"
    using demo_gate by (elim exE conjE) (rule that)
  let ?g = "g\<lparr>conn := (conn g)[k := (conn g ! k)\<lparr>agent := 0x1f, client := 2\<rparr>]\<rparr>"
  have "forward_agent g 5 0x1f 2 = Some ?g" using g by (simp add: forward_agent_def)
  then have "map_option (Pair []) (forward_agent g 5 0x1f 2) = Some ([] :: event list, ?g)" by simp
  with gate_forward_command [of 5 "\<lambda>_. 0" g "0x1f" 2] g(3) show ?thesis
    by (intro exI [of _ g] exI [of _ ?g] exI [of _ k]) (simp only:, simp)
qed

end
