(* ===== verification/Des.thy ===== *)
theory Des
  imports Prelude
begin

text \<open>
  The DES part of lualib-src/lua-crypt.c: the tables, the key schedule, the block cipher, the two
  padding modes and \<open>desencode\<close>, \<open>desdecode\<close>. A Lua string is a list of bytes; a Lua error
  and an access outside a buffer are None. The texts are shorter than 2 GB, as the code counts
  them with an int.
\<close>

section \<open>Tables\<close>

definition SB1 :: "u32 list" where
  "SB1 = [
     0x01010400, 0x00000000, 0x00010000, 0x01010404, 0x01010004, 0x00010404,
     0x00000004, 0x00010000, 0x00000400, 0x01010400, 0x01010404, 0x00000400,
     0x01000404, 0x01010004, 0x01000000, 0x00000004, 0x00000404, 0x01000400,
     0x01000400, 0x00010400, 0x00010400, 0x01010000, 0x01010000, 0x01000404,
     0x00010004, 0x01000004, 0x01000004, 0x00010004, 0x00000000, 0x00000404,
     0x00010404, 0x01000000, 0x00010000, 0x01010404, 0x00000004, 0x01010000,
     0x01010400, 0x01000000, 0x01000000, 0x00000400, 0x01010004, 0x00010000,
     0x00010400, 0x01000004, 0x00000400, 0x00000004, 0x01000404, 0x00010404,
     0x01010404, 0x00010004, 0x01010000, 0x01000404, 0x01000004, 0x00000404,
     0x00010404, 0x01010400, 0x00000404, 0x01000400, 0x01000400, 0x00000000,
     0x00010004, 0x00010400, 0x00000000, 0x01010004]"

definition SB2 :: "u32 list" where
  "SB2 = [
     0x80108020, 0x80008000, 0x00008000, 0x00108020, 0x00100000, 0x00000020,
     0x80100020, 0x80008020, 0x80000020, 0x80108020, 0x80108000, 0x80000000,
     0x80008000, 0x00100000, 0x00000020, 0x80100020, 0x00108000, 0x00100020,
     0x80008020, 0x00000000, 0x80000000, 0x00008000, 0x00108020, 0x80100000,
     0x00100020, 0x80000020, 0x00000000, 0x00108000, 0x00008020, 0x80108000,
     0x80100000, 0x00008020, 0x00000000, 0x00108020, 0x80100020, 0x00100000,
     0x80008020, 0x80100000, 0x80108000, 0x00008000, 0x80100000, 0x80008000,
     0x00000020, 0x80108020, 0x00108020, 0x00000020, 0x00008000, 0x80000000,
     0x00008020, 0x80108000, 0x00100000, 0x80000020, 0x00100020, 0x80008020,
     0x80000020, 0x00100020, 0x00108000, 0x00000000, 0x80008000, 0x00008020,
     0x80000000, 0x80100020, 0x80108020, 0x00108000]"

definition SB3 :: "u32 list" where
  "SB3 = [
     0x00000208, 0x08020200, 0x00000000, 0x08020008, 0x08000200, 0x00000000,
     0x00020208, 0x08000200, 0x00020008, 0x08000008, 0x08000008, 0x00020000,
     0x08020208, 0x00020008, 0x08020000, 0x00000208, 0x08000000, 0x00000008,
     0x08020200, 0x00000200, 0x00020200, 0x08020000, 0x08020008, 0x00020208,
     0x08000208, 0x00020200, 0x00020000, 0x08000208, 0x00000008, 0x08020208,
     0x00000200, 0x08000000, 0x08020200, 0x08000000, 0x00020008, 0x00000208,
     0x00020000, 0x08020200, 0x08000200, 0x00000000, 0x00000200, 0x00020008,
     0x08020208, 0x08000200, 0x08000008, 0x00000200, 0x00000000, 0x08020008,
     0x08000208, 0x00020000, 0x08000000, 0x08020208, 0x00000008, 0x00020208,
     0x00020200, 0x08000008, 0x08020000, 0x08000208, 0x00000208, 0x08020000,
     0x00020208, 0x00000008, 0x08020008, 0x00020200]"

definition SB4 :: "u32 list" where
  "SB4 = [
     0x00802001, 0x00002081, 0x00002081, 0x00000080, 0x00802080, 0x00800081,
     0x00800001, 0x00002001, 0x00000000, 0x00802000, 0x00802000, 0x00802081,
     0x00000081, 0x00000000, 0x00800080, 0x00800001, 0x00000001, 0x00002000,
     0x00800000, 0x00802001, 0x00000080, 0x00800000, 0x00002001, 0x00002080,
     0x00800081, 0x00000001, 0x00002080, 0x00800080, 0x00002000, 0x00802080,
     0x00802081, 0x00000081, 0x00800080, 0x00800001, 0x00802000, 0x00802081,
     0x00000081, 0x00000000, 0x00000000, 0x00802000, 0x00002080, 0x00800080,
     0x00800081, 0x00000001, 0x00802001, 0x00002081, 0x00002081, 0x00000080,
     0x00802081, 0x00000081, 0x00000001, 0x00002000, 0x00800001, 0x00002001,
     0x00802080, 0x00800081, 0x00002001, 0x00002080, 0x00800000, 0x00802001,
     0x00000080, 0x00800000, 0x00002000, 0x00802080]"

definition SB5 :: "u32 list" where
  "SB5 = [
     0x00000100, 0x02080100, 0x02080000, 0x42000100, 0x00080000, 0x00000100,
     0x40000000, 0x02080000, 0x40080100, 0x00080000, 0x02000100, 0x40080100,
     0x42000100, 0x42080000, 0x00080100, 0x40000000, 0x02000000, 0x40080000,
     0x40080000, 0x00000000, 0x40000100, 0x42080100, 0x42080100, 0x02000100,
     0x42080000, 0x40000100, 0x00000000, 0x42000000, 0x02080100, 0x02000000,
     0x42000000, 0x00080100, 0x00080000, 0x42000100, 0x00000100, 0x02000000,
     0x40000000, 0x02080000, 0x42000100, 0x40080100, 0x02000100, 0x40000000,
     0x42080000, 0x02080100, 0x40080100, 0x00000100, 0x02000000, 0x42080000,
     0x42080100, 0x00080100, 0x42000000, 0x42080100, 0x02080000, 0x00000000,
     0x40080000, 0x42000000, 0x00080100, 0x02000100, 0x40000100, 0x00080000,
     0x00000000, 0x40080000, 0x02080100, 0x40000100]"

definition SB6 :: "u32 list" where
  "SB6 = [
     0x20000010, 0x20400000, 0x00004000, 0x20404010, 0x20400000, 0x00000010,
     0x20404010, 0x00400000, 0x20004000, 0x00404010, 0x00400000, 0x20000010,
     0x00400010, 0x20004000, 0x20000000, 0x00004010, 0x00000000, 0x00400010,
     0x20004010, 0x00004000, 0x00404000, 0x20004010, 0x00000010, 0x20400010,
     0x20400010, 0x00000000, 0x00404010, 0x20404000, 0x00004010, 0x00404000,
     0x20404000, 0x20000000, 0x20004000, 0x00000010, 0x20400010, 0x00404000,
     0x20404010, 0x00400000, 0x00004010, 0x20000010, 0x00400000, 0x20004000,
     0x20000000, 0x00004010, 0x20000010, 0x20404010, 0x00404000, 0x20400000,
     0x00404010, 0x20404000, 0x00000000, 0x20400010, 0x00000010, 0x00004000,
     0x20400000, 0x00404010, 0x00004000, 0x00400010, 0x20004010, 0x00000000,
     0x20404000, 0x20000000, 0x00400010, 0x20004010]"

definition SB7 :: "u32 list" where
  "SB7 = [
     0x00200000, 0x04200002, 0x04000802, 0x00000000, 0x00000800, 0x04000802,
     0x00200802, 0x04200800, 0x04200802, 0x00200000, 0x00000000, 0x04000002,
     0x00000002, 0x04000000, 0x04200002, 0x00000802, 0x04000800, 0x00200802,
     0x00200002, 0x04000800, 0x04000002, 0x04200000, 0x04200800, 0x00200002,
     0x04200000, 0x00000800, 0x00000802, 0x04200802, 0x00200800, 0x00000002,
     0x04000000, 0x00200800, 0x04000000, 0x00200800, 0x00200000, 0x04000802,
     0x04000802, 0x04200002, 0x04200002, 0x00000002, 0x00200002, 0x04000000,
     0x04000800, 0x00200000, 0x04200800, 0x00000802, 0x00200802, 0x04200800,
     0x00000802, 0x04000002, 0x04200802, 0x04200000, 0x00200800, 0x00000000,
     0x00000002, 0x04200802, 0x00000000, 0x00200802, 0x04200000, 0x00000800,
     0x04000002, 0x04000800, 0x00000800, 0x00200002]"

definition SB8 :: "u32 list" where
  "SB8 = [
     0x10001040, 0x00001000, 0x00040000, 0x10041040, 0x10000000, 0x10001040,
     0x00000040, 0x10000000, 0x00040040, 0x10040000, 0x10041040, 0x00041000,
     0x10041000, 0x00041040, 0x00001000, 0x00000040, 0x10040000, 0x10000040,
     0x10001000, 0x00001040, 0x00041000, 0x00040040, 0x10040040, 0x10041000,
     0x00001040, 0x00000000, 0x00000000, 0x10040040, 0x10000040, 0x10001000,
     0x00041040, 0x00040000, 0x00041040, 0x00040000, 0x10041000, 0x00001000,
     0x00000040, 0x10040040, 0x00001000, 0x00041040, 0x10001000, 0x00000040,
     0x10000040, 0x10040000, 0x10040040, 0x10000000, 0x00040000, 0x10001040,
     0x00000000, 0x10041040, 0x00040040, 0x10000040, 0x10040000, 0x10001000,
     0x10001040, 0x00000000, 0x10041040, 0x00041000, 0x00041000, 0x00001040,
     0x00001040, 0x00040040, 0x10000000, 0x10041000]"

definition LHs :: "u32 list" where
  "LHs = [
     0x00000000, 0x00000001, 0x00000100, 0x00000101, 0x00010000, 0x00010001,
     0x00010100, 0x00010101, 0x01000000, 0x01000001, 0x01000100, 0x01000101,
     0x01010000, 0x01010001, 0x01010100, 0x01010101]"

definition RHs :: "u32 list" where
  "RHs = [
     0x00000000, 0x01000000, 0x00010000, 0x01010000, 0x00000100, 0x01000100,
     0x00010100, 0x01010100, 0x00000001, 0x01000001, 0x00010001, 0x01010001,
     0x00000101, 0x01000101, 0x00010101, 0x01010101]"

section \<open>Words and bytes\<close>

definition get_uint32 :: "bytes \<Rightarrow> nat \<Rightarrow> u32" where
  "get_uint32 b i =
     push_bit 24 (ucast (b ! i)) OR push_bit 16 (ucast (b ! (i + 1))) OR
     push_bit 8 (ucast (b ! (i + 2))) OR ucast (b ! (i + 3))"

definition put_uint32 :: "u32 \<Rightarrow> bytes" where
  "put_uint32 n = [ucast (drop_bit 24 n), ucast (drop_bit 16 n), ucast (drop_bit 8 n), ucast n]"

text \<open>
  The step \<open>T = ((X >> k) ^ Y) & m; Y ^= T; X ^= (T << k)\<close> of the permutations, and the rotations.
\<close>

definition swap_bits :: "nat \<Rightarrow> u32 \<Rightarrow> u32 \<times> u32 \<Rightarrow> u32 \<times> u32" where
  "swap_bits k m p = (case p of (X, Y) \<Rightarrow>
     let T = (drop_bit k X XOR Y) AND m in (X XOR push_bit k T, Y XOR T))"

definition rotl1 :: "u32 \<Rightarrow> u32" where
  "rotl1 x = (push_bit 1 x OR drop_bit 31 x) AND 0xFFFFFFFF"

definition rotr1 :: "u32 \<Rightarrow> u32" where
  "rotr1 x = (push_bit 31 x OR drop_bit 1 x) AND 0xFFFFFFFF"

definition des_ip :: "u32 \<times> u32 \<Rightarrow> u32 \<times> u32" where
  "des_ip p = (
     let (X, Y) = swap_bits 4 0x0F0F0F0F p;
         (X, Y) = swap_bits 16 0x0000FFFF (X, Y);
         (Y, X) = swap_bits 2 0x33333333 (Y, X);
         (Y, X) = swap_bits 8 0x00FF00FF (Y, X);
         Y = rotl1 Y;
         T = (X XOR Y) AND 0xAAAAAAAA;
         Y = Y XOR T; X = X XOR T;
         X = rotl1 X
     in (X, Y))"

definition des_fp :: "u32 \<times> u32 \<Rightarrow> u32 \<times> u32" where
  "des_fp p = (
     let (X, Y) = p;
         X = rotr1 X;
         T = (X XOR Y) AND 0xAAAAAAAA;
         X = X XOR T; Y = Y XOR T;
         Y = rotr1 Y;
         (Y, X) = swap_bits 8 0x00FF00FF (Y, X);
         (Y, X) = swap_bits 2 0x33333333 (Y, X);
         (X, Y) = swap_bits 16 0x0000FFFF (X, Y);
         (X, Y) = swap_bits 4 0x0F0F0F0F (X, Y)
     in (X, Y))"

section \<open>Rounds\<close>

definition sbox :: "u32 list \<Rightarrow> u32 \<Rightarrow> nat \<Rightarrow> u32" where
  "sbox tab T k = tab ! unat (drop_bit k T AND 0x3F)"

text \<open>What DES\_ROUND(X, Y) xors into Y, for the two keys it consumes.\<close>

definition round_f :: "u32 \<Rightarrow> u32 \<Rightarrow> u32 \<Rightarrow> u32" where
  "round_f k1 k2 X = (
     let T = k1 XOR X; U = k2 XOR (push_bit 28 X OR drop_bit 4 X) in
     (sbox SB8 T 0 XOR sbox SB6 T 8 XOR sbox SB4 T 16 XOR sbox SB2 T 24) XOR
     (sbox SB7 U 0 XOR sbox SB5 U 8 XOR sbox SB3 U 16 XOR sbox SB1 U 24))"

text \<open>\<open>DES_ROUND(Y, X); DES_ROUND(X, Y);\<close> eight times.\<close>

fun des_rounds :: "u32 list \<Rightarrow> u32 \<times> u32 \<Rightarrow> u32 \<times> u32" where
  "des_rounds (k1 # k2 # k3 # k4 # ks) (X, Y) = (
     let X = X XOR round_f k1 k2 Y; Y = Y XOR round_f k3 k4 X in des_rounds ks (X, Y))"
| "des_rounds _ p = p"

definition des_crypt :: "u32 list \<Rightarrow> bytes \<Rightarrow> bytes" where
  "des_crypt SK input = (
     let p = des_ip (get_uint32 input 0, get_uint32 input 4);
         (X, Y) = des_rounds SK p;
         (Y, X) = des_fp (Y, X)
     in put_uint32 Y @ put_uint32 X)"

section \<open>Key schedule\<close>

definition pc1_x :: "u32 \<Rightarrow> u32" where
  "pc1_x X = (let t = \<lambda>k s. push_bit s (LHs ! unat (drop_bit k X AND 0xF)) in
     (t 0 3 OR t 8 2 OR t 16 1 OR t 24 0 OR t 5 7 OR t 13 6 OR t 21 5 OR t 29 4) AND 0x0FFFFFFF)"

definition pc1_y :: "u32 \<Rightarrow> u32" where
  "pc1_y Y = (let t = \<lambda>k s. push_bit s (RHs ! unat (drop_bit k Y AND 0xF)) in
     (t 1 3 OR t 9 2 OR t 17 1 OR t 25 0 OR t 4 7 OR t 12 6 OR t 20 5 OR t 28 4) AND 0x0FFFFFFF)"

definition rot28 :: "nat \<Rightarrow> u32 \<Rightarrow> u32" where
  "rot28 n X = (push_bit n X OR drop_bit (28 - n) X) AND 0x0FFFFFFF"

definition subkey1 :: "u32 \<Rightarrow> u32 \<Rightarrow> u32" where
  "subkey1 X Y =
     ((push_bit 4 X) AND 0x24000000) OR ((push_bit 28 X) AND 0x10000000) OR
     ((push_bit 14 X) AND 0x08000000) OR ((push_bit 18 X) AND 0x02080000) OR
     ((push_bit 6 X) AND 0x01000000) OR ((push_bit 9 X) AND 0x00200000) OR
     ((drop_bit 1 X) AND 0x00100000) OR ((push_bit 10 X) AND 0x00040000) OR
     ((push_bit 2 X) AND 0x00020000) OR ((drop_bit 10 X) AND 0x00010000) OR
     ((drop_bit 13 Y) AND 0x00002000) OR ((drop_bit 4 Y) AND 0x00001000) OR
     ((push_bit 6 Y) AND 0x00000800) OR ((drop_bit 1 Y) AND 0x00000400) OR
     ((drop_bit 14 Y) AND 0x00000200) OR (Y AND 0x00000100) OR
     ((drop_bit 5 Y) AND 0x00000020) OR ((drop_bit 10 Y) AND 0x00000010) OR
     ((drop_bit 3 Y) AND 0x00000008) OR ((drop_bit 18 Y) AND 0x00000004) OR
     ((drop_bit 26 Y) AND 0x00000002) OR ((drop_bit 24 Y) AND 0x00000001)"

definition subkey2 :: "u32 \<Rightarrow> u32 \<Rightarrow> u32" where
  "subkey2 X Y =
     ((push_bit 15 X) AND 0x20000000) OR ((push_bit 17 X) AND 0x10000000) OR
     ((push_bit 10 X) AND 0x08000000) OR ((push_bit 22 X) AND 0x04000000) OR
     ((drop_bit 2 X) AND 0x02000000) OR ((push_bit 1 X) AND 0x01000000) OR
     ((push_bit 16 X) AND 0x00200000) OR ((push_bit 11 X) AND 0x00100000) OR
     ((push_bit 3 X) AND 0x00080000) OR ((drop_bit 6 X) AND 0x00040000) OR
     ((push_bit 15 X) AND 0x00020000) OR ((drop_bit 4 X) AND 0x00010000) OR
     ((drop_bit 2 Y) AND 0x00002000) OR ((push_bit 8 Y) AND 0x00001000) OR
     ((drop_bit 14 Y) AND 0x00000808) OR ((drop_bit 9 Y) AND 0x00000400) OR
     (Y AND 0x00000200) OR ((push_bit 7 Y) AND 0x00000100) OR
     ((drop_bit 7 Y) AND 0x00000020) OR ((drop_bit 3 Y) AND 0x00000011) OR
     ((push_bit 2 Y) AND 0x00000004) OR ((drop_bit 21 Y) AND 0x00000002)"

fun subkeys :: "nat list \<Rightarrow> u32 \<Rightarrow> u32 \<Rightarrow> u32 list" where
  "subkeys [] X Y = []"
| "subkeys (i # is) X Y = (
     let n = (if i < 2 \<or> i = 8 \<or> i = 15 then 1 else 2); X = rot28 n X; Y = rot28 n Y in
     subkey1 X Y # subkey2 X Y # subkeys is X Y)"

definition des_main_ks :: "bytes \<Rightarrow> u32 list" where
  "des_main_ks key = (
     let X = get_uint32 key 0; Y = get_uint32 key 4;
         T = (drop_bit 4 Y XOR X) AND 0x0F0F0F0F; X = X XOR T; Y = Y XOR push_bit 4 T;
         T = (Y XOR X) AND 0x10101010; X = X XOR T; Y = Y XOR T
     in subkeys [0..<16] (pc1_x X) (pc1_y Y))"

section \<open>Padding\<close>

definition PADDING_MODE_ISO7816_4 :: int where "PADDING_MODE_ISO7816_4 = 0"
definition PADDING_MODE_PKCS7 :: int where "PADDING_MODE_PKCS7 = 1"
definition PADDING_MODE_COUNT :: int where "PADDING_MODE_COUNT = 2"

definition padding_add_iso7816_4 :: "bytes \<Rightarrow> bytes" where
  "padding_add_iso7816_4 r = r @ [0x80] @ replicate (7 - length r) 0"

definition padding_add_pkcs7 :: "bytes \<Rightarrow> bytes" where
  "padding_add_pkcs7 r = r @ replicate (8 - length r) (of_nat (8 - length r))"

text \<open>
  The removal functions walk backwards from the last byte; the argument is the decoded text
  reversed. Walking past its first byte is an access out of bounds.
\<close>

fun iso_scan :: "nat \<Rightarrow> nat \<Rightarrow> bytes \<Rightarrow> nat option" where
  "iso_scan 0 padding r = Some 0"
| "iso_scan (Suc n) padding [] = None"
| "iso_scan (Suc n) padding (b # r) =
     (if b = 0 then iso_scan n (padding + 1) r else if b = 0x80 then Some padding else Some 0)"

definition padding_remove_iso7816_4 :: "bytes \<Rightarrow> nat option" where
  "padding_remove_iso7816_4 r = iso_scan 8 1 r"

fun pkcs_scan :: "nat \<Rightarrow> nat \<Rightarrow> bytes \<Rightarrow> nat option" where
  "pkcs_scan 0 padding r = Some padding"
| "pkcs_scan (Suc n) padding [] = None"
| "pkcs_scan (Suc n) padding (b # r) = (if unat b \<noteq> padding then Some 0 else pkcs_scan n padding r)"

definition padding_remove_pkcs7 :: "bytes \<Rightarrow> nat option" where
  "padding_remove_pkcs7 r = (case r of [] \<Rightarrow> None | b # r' \<Rightarrow> pkcs_scan (unat b - 1) (unat b) r')"

definition check_padding_mode :: "int \<Rightarrow> unit option" where
  "check_padding_mode mode = (if mode < 0 \<or> mode \<ge> PADDING_MODE_COUNT then None else Some ())"

definition add_padding :: "bytes \<Rightarrow> int \<Rightarrow> bytes option" where
  "add_padding src mode = do {
     check_padding_mode mode;
     if length src \<ge> 8 then None
     else Some (([padding_add_iso7816_4, padding_add_pkcs7] ! nat mode) src)
   }"

definition remove_padding :: "bytes \<Rightarrow> int \<Rightarrow> nat option" where
  "remove_padding r mode = do {
     check_padding_mode mode;
     ([padding_remove_iso7816_4, padding_remove_pkcs7] ! nat mode) r
   }"

section \<open>The Lua functions\<close>

definition des_key :: "bytes \<Rightarrow> u32 list option" where
  "des_key key = (if length key \<noteq> 8 then None else Some (des_main_ks key))"

function encode_loop :: "u32 list \<Rightarrow> bytes \<Rightarrow> bytes \<times> bytes" where
  "encode_loop SK text =
     (if 8 \<le> length text then
        (case encode_loop SK (drop 8 text) of (out, rest) \<Rightarrow> (des_crypt SK (take 8 text) @ out, rest))
      else ([], text))"
  by pat_completeness auto
termination
  by (relation "measure (\<lambda>(SK, text). length text)") auto

declare encode_loop.simps [simp del]

definition ldesencode :: "bytes \<Rightarrow> bytes \<Rightarrow> int \<Rightarrow> bytes option" where
  "ldesencode key text mode = do {
     SK \<leftarrow> des_key key;
     (case encode_loop SK text of (out, rest) \<Rightarrow> do {
        tail \<leftarrow> add_padding rest mode;
        Some (out @ des_crypt SK tail)
      })
   }"

definition decode_keys :: "u32 list \<Rightarrow> u32 list" where
  "decode_keys ESK = concat (map (\<lambda>j. [ESK ! (30 - 2 * j), ESK ! (31 - 2 * j)]) [0..<16])"

fun decode_blocks :: "u32 list \<Rightarrow> nat \<Rightarrow> bytes \<Rightarrow> bytes" where
  "decode_blocks SK 0 text = []"
| "decode_blocks SK (Suc n) text = des_crypt SK (take 8 text) @ decode_blocks SK n (drop 8 text)"

definition ldesdecode :: "bytes \<Rightarrow> bytes \<Rightarrow> int \<Rightarrow> bytes option" where
  "ldesdecode key text mode = do {
     ESK \<leftarrow> des_key key;
     let SK = decode_keys ESK;
     if length text mod 8 \<noteq> 0 \<or> text = [] then None
     else do {
       let buffer = decode_blocks SK (length text div 8) text;
       padding \<leftarrow> remove_padding (rev buffer) mode;
       if padding \<le> 0 \<or> padding > 8 then None
       else Some (take (length text - padding) buffer)
     }
   }"


section \<open>The permutations are inverse to each other\<close>

lemma xor_cancel: "(X XOR T) XOR T = (X :: 'a :: len word)"
  by (simp add: xor.assoc)

lemma swap_bits_inv:
  assumes "take_bit (32 - k) m = m"
  shows "swap_bits k m (swap_bits k m p) = p"
proof -
  obtain X Y where p: "p = (X, Y)" by (cases p)
  have m: "bit m n \<Longrightarrow> n + k < 32" for n
    using assms by (metis bit_take_bit_iff less_diff_conv)
  obtain T where T: "T = (drop_bit k X XOR Y) AND m" by blast
  have T': "(drop_bit k (X XOR push_bit k T) XOR (Y XOR T)) AND m = T"
    unfolding T by (rule bit_word_eqI) (auto simp: bit_simps dest: m)
  have 1: "swap_bits k m p = (X XOR push_bit k T, Y XOR T)"
    unfolding p swap_bits_def T by (simp only: prod.case Let_def)
  show ?thesis
    unfolding 1 unfolding p swap_bits_def by (simp only: prod.case Let_def T' xor_cancel)
qed

lemma swap_inv: "swap_bits 4 0x0F0F0F0F (swap_bits 4 0x0F0F0F0F p) = p"
  "swap_bits 16 0x0000FFFF (swap_bits 16 0x0000FFFF p) = p"
  "swap_bits 2 0x33333333 (swap_bits 2 0x33333333 p) = p"
  "swap_bits 8 0x00FF00FF (swap_bits 8 0x00FF00FF p) = p"
  by (rule swap_bits_inv; simp)+

lemma rot_inv: "rotr1 (rotl1 x) = x" "rotl1 (rotr1 x) = x"
proof -
  have full: "y AND 0xFFFFFFFF = y" for y :: u32
  proof -
    have "(0xFFFFFFFF :: u32) = - 1" by simp
    then show ?thesis by (simp only: bit.conj_one_right)
  qed
  show "rotr1 (rotl1 x) = x" unfolding rotl1_def rotr1_def full
  proof (rule bit_word_eqI)
    fix n assume "n < LENGTH(32)"
    then have "n = 31 \<or> n < 31" by auto
    then show "bit (push_bit 31 (push_bit 1 x OR drop_bit 31 x) OR drop_bit 1 (push_bit 1 x OR drop_bit 31 x)) n
        = bit x n"
      by (auto simp only: bit_or_iff bit_push_bit_iff bit_drop_bit_eq o_def possible_bit_word)
        (auto dest: bit_imp_le_length)
  qed
  show "rotl1 (rotr1 x) = x" unfolding rotl1_def rotr1_def full
  proof (rule bit_word_eqI)
    fix n assume "n < LENGTH(32)"
    then have "n = 0 \<or> 0 < n \<and> n < 32" by auto
    then show "bit (push_bit 1 (push_bit 31 x OR drop_bit 1 x) OR drop_bit 31 (push_bit 31 x OR drop_bit 1 x)) n
        = bit x n"
      by (auto simp only: bit_or_iff bit_push_bit_iff bit_drop_bit_eq o_def possible_bit_word)
        (auto dest: bit_imp_le_length)
  qed
qed

lemma des_fp_ip: "des_fp (des_ip p) = p"
proof -
  obtain a b where 1: "swap_bits 4 0x0F0F0F0F p = (a, b)" by fastforce
  obtain c d where 2: "swap_bits 16 0x0000FFFF (a, b) = (c, d)" by fastforce
  obtain e f where 3: "swap_bits 2 0x33333333 (d, c) = (e, f)" by fastforce
  obtain g h where 4: "swap_bits 8 0x00FF00FF (e, f) = (g, h)" by fastforce
  have inv: "swap_bits 4 0x0F0F0F0F (a, b) = p" "swap_bits 16 0x0000FFFF (c, d) = (a, b)"
    "swap_bits 2 0x33333333 (e, f) = (d, c)" "swap_bits 8 0x00FF00FF (g, h) = (e, f)"
    using swap_inv 1 2 3 4 by metis+
  obtain T where T: "T = (h XOR rotl1 g) AND 0xAAAAAAAA" by blast
  have ip: "des_ip p = (rotl1 (h XOR T), rotl1 g XOR T)"
    unfolding des_ip_def 1 Let_def prod.case 2 3 4 T ..
  have T': "((h XOR T) XOR (rotl1 g XOR T)) AND 0xAAAAAAAA = T"
    unfolding T by (rule bit_word_eqI) (auto simp only: bit_xor_iff bit_and_iff)
  obtain X Y where p: "p = (X, Y)" by (cases p)
  show ?thesis
    unfolding ip des_fp_def Let_def prod.case rot_inv T' xor_cancel inv
    unfolding p prod.case ..
qed

lemma des_ip_fp: "des_ip (des_fp p) = p"
proof -
  obtain X Y where p: "p = (X, Y)" by (cases p)
  obtain T where T: "T = (rotr1 X XOR Y) AND 0xAAAAAAAA" by blast
  obtain a b where 1: "swap_bits 8 0x00FF00FF (rotr1 (Y XOR T), rotr1 X XOR T) = (a, b)" by fastforce
  obtain c d where 2: "swap_bits 2 0x33333333 (a, b) = (c, d)" by fastforce
  obtain e f where 3: "swap_bits 16 0x0000FFFF (d, c) = (e, f)" by fastforce
  obtain g h where 4: "swap_bits 4 0x0F0F0F0F (e, f) = (g, h)" by fastforce
  have inv: "swap_bits 8 0x00FF00FF (a, b) = (rotr1 (Y XOR T), rotr1 X XOR T)"
    "swap_bits 2 0x33333333 (c, d) = (a, b)" "swap_bits 16 0x0000FFFF (e, f) = (d, c)"
    "swap_bits 4 0x0F0F0F0F (g, h) = (e, f)"
    using swap_inv 1 2 3 4 by metis+
  have fp: "des_fp p = (g, h)"
    unfolding des_fp_def Let_def p prod.case T [symmetric] 1 2 3 4 ..
  have T': "((rotr1 X XOR T) XOR (Y XOR T)) AND 0xAAAAAAAA = T"
    unfolding T by (rule bit_word_eqI) (auto simp only: bit_xor_iff bit_and_iff)
  show ?thesis
    unfolding fp des_ip_def inv prod.case Let_def rot_inv T' xor_cancel
    unfolding p ..
qed

section \<open>Decryption inverts encryption of a block\<close>

fun pairs :: "'a list \<Rightarrow> ('a \<times> 'a) list" where
  "pairs (a # b # xs) = (a, b) # pairs xs"
| "pairs _ = []"

fun feistel :: "u32 \<times> u32 \<Rightarrow> u32 \<times> u32 \<Rightarrow> u32 \<times> u32" where
  "feistel (k1, k2) (X, Y) = (Y, X XOR round_f k1 k2 Y)"

lemma des_rounds_feistel: "length ks mod 4 = 0 \<Longrightarrow> des_rounds ks p = fold feistel (pairs ks) p"
  by (induction ks p rule: des_rounds.induct) (auto simp: Let_def)

lemma feistel_swap: "feistel k (prod.swap (feistel k p)) = prod.swap p"
  by (cases k; cases p) (simp add: xor_cancel)

lemma feistel_inverse: "fold feistel (rev ps) (prod.swap (fold feistel ps p)) = prod.swap p"
  by (induction ps arbitrary: p) (simp_all add: feistel_swap)

lemma pairs_concat: "pairs (concat (map (\<lambda>j. [f j, g j]) js)) = map (\<lambda>j. (f j, g j)) js"
  by (induction js) simp_all

lemma length_pairs: "length (pairs ks) = length ks div 2"
  by (induction ks rule: pairs.induct) simp_all

lemma nth_pairs: "j < length ks div 2 \<Longrightarrow> pairs ks ! j = (ks ! (2 * j), ks ! (2 * j + 1))"
  by (induction ks arbitrary: j rule: pairs.induct) (auto simp: nth_Cons split: nat.splits)

lemma pairs_decode_keys:
  assumes "length ESK = 32"
  shows "pairs (decode_keys ESK) = rev (pairs ESK)"
proof (rule nth_equalityI)
  show "length (pairs (decode_keys ESK)) = length (rev (pairs ESK))"
    by (simp add: decode_keys_def pairs_concat length_pairs assms)
  fix j assume "j < length (pairs (decode_keys ESK))"
  then have j: "j < 16" by (simp add: decode_keys_def pairs_concat)
  then have "2 * (15 - j) = 30 - 2 * j" "2 * (15 - j) + 1 = 31 - 2 * j" by auto
  with j show "pairs (decode_keys ESK) ! j = rev (pairs ESK) ! j"
    by (simp add: decode_keys_def pairs_concat rev_nth length_pairs assms nth_pairs)
qed

lemma length_decode_keys: "length (decode_keys ESK) = 32"
  by (simp add: decode_keys_def length_concat comp_def sum_list_triv)

lemma length_subkeys: "length (subkeys is X Y) = 2 * length is"
  by (induction "is" arbitrary: X Y) (simp_all add: Let_def)

lemma length_des_main_ks: "length (des_main_ks key) = 32"
  by (simp add: des_main_ks_def Let_def length_subkeys)

definition get_pair :: "bytes \<Rightarrow> u32 \<times> u32" where
  "get_pair b = (get_uint32 b 0, get_uint32 b 4)"

definition put_pair :: "u32 \<times> u32 \<Rightarrow> bytes" where
  "put_pair p = put_uint32 (fst p) @ put_uint32 (snd p)"

lemma des_crypt_pair:
  assumes "length SK mod 4 = 0"
  shows "des_crypt SK b = put_pair (des_fp (prod.swap (fold feistel (pairs SK) (des_ip (get_pair b)))))"
  by (simp add: des_crypt_def get_pair_def put_pair_def des_rounds_feistel [OF assms] prod.swap_def Let_def
      split: prod.split)

lemma get_put_uint32: "get_uint32 (put_uint32 x @ r) 0 = x"
proof (rule bit_word_eqI)
  fix n assume "n < LENGTH(32)"
  then consider "n < 8" | "8 \<le> n" "n < 16" | "16 \<le> n" "n < 24" | "24 \<le> n" "n < 32" by fastforce
  then show "bit (get_uint32 (put_uint32 x @ r) 0) n = bit x n"
    by cases (auto simp: get_uint32_def put_uint32_def bit_simps u8_bit)
qed

lemma put_get_uint32: "put_uint32 (get_uint32 [a, b, c, d] 0) = [a, b, c, d]"
  unfolding get_uint32_def put_uint32_def
  by (auto intro!: bit_word_eqI simp: bit_simps u8_bit)

lemma get_uint32_at: "get_uint32 (u # v # w # x # r) (i + 4) = get_uint32 r i"
  unfolding get_uint32_def by (simp add: numeral_eq_Suc)

lemma get_put_pair: "get_pair (put_pair p) = p"
  using get_uint32_at [of _ _ _ _ _ 0] get_put_uint32 [of "fst p"] get_put_uint32 [of "snd p" "[]"]
  by (simp add: get_pair_def put_pair_def) (simp add: put_uint32_def [of "fst p"])

lemma put_get_pair:
  assumes "length b = 8"
  shows "put_pair (get_pair b) = b"
proof -
  obtain b0 b1 b2 b3 b4 b5 b6 b7 where b: "b = [b0, b1, b2, b3, b4, b5, b6, b7]"
    using assms by (auto simp: numeral_eq_Suc length_Suc_conv)
  have "get_uint32 b 0 = get_uint32 [b0, b1, b2, b3] 0" by (simp add: b get_uint32_def)
  moreover have "get_uint32 b 4 = get_uint32 [b4, b5, b6, b7] 0" by (simp add: b get_uint32_def)
  ultimately show ?thesis by (simp only: get_pair_def put_pair_def fst_conv snd_conv put_get_uint32) (simp add: b)
qed

lemma length_des_crypt: "length (des_crypt SK b) = 8"
  by (simp add: des_crypt_def Let_def put_uint32_def split: prod.split)

lemma des_crypt_inverse:
  assumes "length ESK = 32" "length b = 8"
  shows "des_crypt (decode_keys ESK) (des_crypt ESK b) = b"
proof -
  have 1: "length ESK mod 4 = 0" "length (decode_keys ESK) mod 4 = 0"
    by (simp_all add: assms length_decode_keys)
  show ?thesis
    unfolding des_crypt_pair [OF 1(1)] des_crypt_pair [OF 1(2)] get_put_pair des_ip_fp
      pairs_decode_keys [OF assms(1)] feistel_inverse swap_swap des_fp_ip put_get_pair [OF assms(2)] ..
qed

section \<open>Decryption inverts encryption of a text\<close>

lemma encode_loop_rest:
  "encode_loop SK text = (concat_blocks, rest) \<Longrightarrow>
     length rest < 8 \<and> length concat_blocks mod 8 = 0 \<and> length concat_blocks + length rest = length text"
proof (induction SK "text" arbitrary: concat_blocks rest rule: encode_loop.induct)
  case (1 SK "text")
  show ?case
  proof (cases "8 \<le> length text")
    case True
    obtain out where e: "encode_loop SK (drop 8 text) = (out, rest)" "concat_blocks = des_crypt SK (take 8 text) @ out"
      using 1(2) True by (auto simp: encode_loop.simps [of SK "text"] split: prod.splits)
    show ?thesis using 1(1) [OF True e(1)] True by (auto simp: e(2) length_des_crypt)
  next
    case False
    then show ?thesis using 1(2) by (auto simp: encode_loop.simps [of SK "text"])
  qed
qed

lemma decode_encode_blocks:
  assumes "length ESK = 32" "encode_loop ESK text = (out, rest)"
  shows "\<exists>blocks. text = blocks @ rest \<and> length blocks = length out
     \<and> decode_blocks (decode_keys ESK) (length out div 8 + n) (out @ r)
       = blocks @ decode_blocks (decode_keys ESK) n r"
  using assms
proof (induction ESK "text" arbitrary: out rest rule: encode_loop.induct)
  case (1 ESK "text")
  show ?case
  proof (cases "8 \<le> length text")
    case True
    obtain out' where e: "encode_loop ESK (drop 8 text) = (out', rest)" "out = des_crypt ESK (take 8 text) @ out'"
      using 1(3) True by (auto simp: encode_loop.simps [of ESK "text"] split: prod.splits)
    obtain bl where bl: "drop 8 text = bl @ rest" "length bl = length out'"
      "decode_blocks (decode_keys ESK) (length out' div 8 + n) (out' @ r) = bl @ decode_blocks (decode_keys ESK) n r"
      using 1(1) [OF True 1(2) e(1)] by blast
    have "text = (take 8 text @ bl) @ rest" by (metis append_take_drop_id append_assoc bl(1))
    moreover have "length (take 8 text @ bl) = length out" using True by (simp add: e(2) bl(2) length_des_crypt)
    moreover have "decode_blocks (decode_keys ESK) (length out div 8 + n) (out @ r)
        = (take 8 text @ bl) @ decode_blocks (decode_keys ESK) n r"
    proof -
      have "length out div 8 + n = Suc (length out' div 8 + n)" by (simp add: e(2) length_des_crypt)
      then show ?thesis using True by (simp add: e(2) length_des_crypt bl(3) des_crypt_inverse [OF 1(2)])
    qed
    ultimately show ?thesis by blast
  next
    case False
    then show ?thesis using 1(3) by (auto simp: encode_loop.simps [of ESK "text"])
  qed
qed

lemma iso_scan_zeros: "k < n \<Longrightarrow> iso_scan n p (replicate k 0 @ 0x80 # z) = Some (p + k)"
proof (induction k arbitrary: n p)
  case 0
  then show ?case by (cases n) auto
next
  case (Suc k)
  then obtain m where "n = Suc m" "k < m" by (cases n) auto
  then show ?case using Suc.IH [of m "Suc p"] by simp
qed

lemma pkcs_scan_copies: "unat c = p \<Longrightarrow> pkcs_scan k p (replicate k c @ z) = Some p"
  by (induction k) auto

lemma add_remove_padding:
  assumes "length r < 8" "mode = 0 \<or> mode = 1"
  shows "\<exists>pad. add_padding r mode = Some (r @ pad) \<and> length (r @ pad) = 8
    \<and> remove_padding (rev (r @ pad) @ z) mode = Some (8 - length r)"
proof (cases "mode = 0")
  case True
  let ?pad = "0x80 # replicate (7 - length r) (0 :: u8)"
  have "remove_padding (rev (r @ ?pad) @ z) mode = Some (8 - length r)"
    using iso_scan_zeros [of "7 - length r" 8 1 "rev r @ z"] assms(1)
    by (simp add: remove_padding_def check_padding_mode_def PADDING_MODE_COUNT_def True padding_remove_iso7816_4_def)
  then show ?thesis
    using assms(1) by (intro exI [of _ ?pad])
      (simp add: add_padding_def check_padding_mode_def PADDING_MODE_COUNT_def True padding_add_iso7816_4_def)
next
  case False
  let ?c = "of_nat (8 - length r) :: u8"
  let ?pad = "replicate (8 - length r) ?c"
  obtain k where k: "8 - length r = Suc k" using assms(1) by (metis Suc_diff_Suc)
  have c: "unat ?c = Suc k" unfolding k unat_of_nat using k by simp
  have "remove_padding (rev (r @ ?pad) @ z) mode = Some (8 - length r)"
    using pkcs_scan_copies [of ?c "Suc k" k "rev r @ z"] c False assms(2)
    by (simp add: remove_padding_def check_padding_mode_def PADDING_MODE_COUNT_def padding_remove_pkcs7_def k
      replicate_app_Cons_same)
  then show ?thesis
    using assms False by (intro exI [of _ ?pad])
      (auto simp: add_padding_def check_padding_mode_def PADDING_MODE_COUNT_def padding_add_pkcs7_def)
qed

text \<open>
  C27: with a key of eight bytes and one of the two padding modes, every text encodes, and decoding
  the result gives the text back, through the key schedule, the sixteen rounds run with the keys in
  the opposite order, and the removal of the padding.
\<close>

theorem des_roundtrip:
  assumes "length key = 8" "mode = 0 \<or> mode = 1"
  shows "\<exists>crypt. ldesencode key msg mode = Some crypt \<and> ldesdecode key crypt mode = Some msg"
proof -
  define ESK where "ESK = des_main_ks key"
  have l: "length ESK = 32" by (simp add: ESK_def length_des_main_ks)
  have k: "des_key key = Some ESK" using assms(1) by (simp add: des_key_def ESK_def)
  obtain out rest where e: "encode_loop ESK msg = (out, rest)" by fastforce
  note r = encode_loop_rest [OF e]
  obtain blocks where b: "msg = blocks @ rest" "length blocks = length out"
    "\<And>z. decode_blocks (decode_keys ESK) (length out div 8 + 1) (out @ z)
      = blocks @ decode_blocks (decode_keys ESK) 1 z"
    using decode_encode_blocks [OF l e, of 1] by (metis append_same_eq)
  obtain pad where p: "add_padding rest mode = Some (rest @ pad)" "length (rest @ pad) = 8"
    "remove_padding (rev (rest @ pad) @ rev blocks) mode = Some (8 - length rest)"
    using add_remove_padding [of rest mode "rev blocks"] r assms(2) by blast
  let ?c = "out @ des_crypt ESK (rest @ pad)"
  have enc: "ldesencode key msg mode = Some ?c" by (simp add: ldesencode_def k e p(1))
  have lc: "length ?c = length out + 8" by (simp add: length_des_crypt)
  have dec: "decode_blocks (decode_keys ESK) (length ?c div 8) ?c = blocks @ rest @ pad"
  proof -
    have "length ?c div 8 = length out div 8 + 1" unfolding lc by simp
    moreover have "decode_blocks (decode_keys ESK) 1 (des_crypt ESK (rest @ pad)) = rest @ pad"
      by (simp add: length_des_crypt des_crypt_inverse [OF l p(2)])
    ultimately show ?thesis using b(3) [of "des_crypt ESK (rest @ pad)"] by (simp only:)
  qed
  have "take (length ?c - (8 - length rest)) (blocks @ rest @ pad) = msg"
    using b(1,2) r p(2) by (simp add: length_des_crypt)
  moreover obtain ct where ct: "ct = ?c" by blast
  ultimately have "take (length ct - (8 - length rest)) (decode_blocks (decode_keys ESK) (length ct div 8) ct) = msg"
    by (simp only: dec)
  moreover have "remove_padding (rev (decode_blocks (decode_keys ESK) (length ct div 8) ct)) mode = Some (8 - length rest)"
    using p(3) unfolding ct dec by simp
  moreover have "length ct mod 8 = 0" "ct \<noteq> []" using r lc by (auto simp: ct)
  ultimately have "ldesdecode key ct mode = Some msg"
    using r by (simp add: ldesdecode_def k Let_def)
  with enc ct show ?thesis by blast
qed

lemma des_roundtrip_witness:
  "\<exists>crypt. ldesencode [1, 2, 3, 4, 5, 6, 7, 8] [104, 105] 1 = Some crypt
    \<and> ldesdecode [1, 2, 3, 4, 5, 6, 7, 8] crypt 1 = Some [104, 105]"
  by (rule des_roundtrip) simp_all

end
