(* ===== verification/Crypt.thy ===== *)
theory Crypt
  imports CString
begin

text \<open>
  The rest of lualib-src/lua-crypt.c: random keys, the hash of a string, hexadecimal, the MD5 based
  authenticators, the Diffie-Hellman exchange modulo P, base64 and xor. A Lua string is a list of
  bytes, a Lua error is None; the texts are shorter than 1 GB, as the code computes their encoded
  size in an int.
\<close>

section \<open>Random keys\<close>

text \<open>\<open>rs\<close> are the eight values of \<open>random() & 0xff\<close>.\<close>

definition lrandomkey :: "bytes \<Rightarrow> bytes" where
  "lrandomkey rs = (
     let x = foldl (\<lambda>x t. x XOR t) 0 rs in
     if x = 0 then rs[0 := rs ! 0 OR 1] else rs)"

section \<open>Bytes of words\<close>

text \<open>\<open>b[i] | b[i+1]<<8 | b[i+2]<<16 | b[i+3]<<24\<close>, and the opposite.\<close>

definition get_le32 :: "bytes \<Rightarrow> nat \<Rightarrow> u32" where
  "get_le32 b i =
     ucast (b ! i) OR push_bit 8 (ucast (b ! (i + 1))) OR
     push_bit 16 (ucast (b ! (i + 2))) OR push_bit 24 (ucast (b ! (i + 3)))"

definition put_le32 :: "u32 \<Rightarrow> bytes" where
  "put_le32 r =
     [ucast (r AND 0xff), ucast (drop_bit 8 r AND 0xff), ucast (drop_bit 16 r AND 0xff),
      ucast (drop_bit 24 r AND 0xff)]"

section \<open>String hash\<close>

fun hash_loop :: "bytes \<Rightarrow> u32 \<times> u32 \<Rightarrow> u32 \<times> u32" where
  "hash_loop [] h = h"
| "hash_loop (c # str) (djb_hash, js_hash) =
     hash_loop str
       (djb_hash + (push_bit 5 djb_hash + ucast c),
        js_hash XOR (push_bit 5 js_hash + ucast c + drop_bit 2 js_hash))"

definition Hash :: "bytes \<Rightarrow> bytes" where
  "Hash str = (case hash_loop str (5381, 1315423911) of (djb_hash, js_hash) \<Rightarrow>
     put_le32 djb_hash @ put_le32 js_hash)"

definition lhashkey :: "bytes \<Rightarrow> bytes" where
  "lhashkey key = Hash key"

section \<open>Hexadecimal\<close>

definition hex :: bytes where
  "hex = bs ''0123456789abcdef''"

definition ltohex :: "bytes \<Rightarrow> bytes" where
  "ltohex t = concat (map (\<lambda>c. [hex ! unat (drop_bit 4 c), hex ! unat (c AND 0xf)]) t)"

text \<open>The macro HEX; the subtraction wraps in the \<open>uint8_t\<close>.\<close>

definition HEX :: "u8 \<Rightarrow> u8" where
  "HEX c = (if 48 \<le> c \<and> c \<le> 57 then c - 48 else c - 97 + 10)"

fun fromhex_loop :: "bytes \<Rightarrow> bytes option" where
  "fromhex_loop (t0 # t1 # t) = (
     let hi = HEX t0; low = HEX t1 in
     if hi > 16 \<or> low > 16 then None
     else do { r \<leftarrow> fromhex_loop t; Some ((push_bit 4 hi OR low) # r) })"
| "fromhex_loop _ = Some []"

definition lfromhex :: "bytes \<Rightarrow> bytes option" where
  "lfromhex t = (if odd (length t) then None else fromhex_loop t)"

section \<open>MD5\<close>

definition md5_k :: "u32 list" where
  "md5_k = [
     0xd76aa478, 0xe8c7b756, 0x242070db, 0xc1bdceee, 0xf57c0faf, 0x4787c62a,
     0xa8304613, 0xfd469501, 0x698098d8, 0x8b44f7af, 0xffff5bb1, 0x895cd7be,
     0x6b901122, 0xfd987193, 0xa679438e, 0x49b40821, 0xf61e2562, 0xc040b340,
     0x265e5a51, 0xe9b6c7aa, 0xd62f105d, 0x02441453, 0xd8a1e681, 0xe7d3fbc8,
     0x21e1cde6, 0xc33707d6, 0xf4d50d87, 0x455a14ed, 0xa9e3e905, 0xfcefa3f8,
     0x676f02d9, 0x8d2a4c8a, 0xfffa3942, 0x8771f681, 0x6d9d6122, 0xfde5380c,
     0xa4beea44, 0x4bdecfa9, 0xf6bb4b60, 0xbebfbc70, 0x289b7ec6, 0xeaa127fa,
     0xd4ef3085, 0x04881d05, 0xd9d4d039, 0xe6db99e5, 0x1fa27cf8, 0xc4ac5665,
     0xf4292244, 0x432aff97, 0xab9423a7, 0xfc93a039, 0x655b59c3, 0x8f0ccc92,
     0xffeff47d, 0x85845dd1, 0x6fa87e4f, 0xfe2ce6e0, 0xa3014314, 0x4e0811a1,
     0xf7537e82, 0xbd3af235, 0x2ad7d2bb, 0xeb86d391]"

definition md5_r :: "nat list" where
  "md5_r = [
     7, 12, 17, 22, 7, 12, 17, 22, 7, 12, 17, 22, 7, 12, 17, 22,
     5, 9, 14, 20, 5, 9, 14, 20, 5, 9, 14, 20, 5, 9, 14, 20,
     4, 11, 16, 23, 4, 11, 16, 23, 4, 11, 16, 23, 4, 11, 16, 23,
     6, 10, 15, 21, 6, 10, 15, 21, 6, 10, 15, 21, 6, 10, 15, 21]"

definition LEFTROTATE :: "u32 \<Rightarrow> nat \<Rightarrow> u32" where
  "LEFTROTATE x c = push_bit c x OR drop_bit (32 - c) x"

fun md5_round :: "u32 list \<Rightarrow> nat \<Rightarrow> u32 \<times> u32 \<times> u32 \<times> u32 \<Rightarrow> u32 \<times> u32 \<times> u32 \<times> u32" where
  "md5_round w i (a, b, c, d) = (
     let (f, g) =
       (if i < 16 then ((b AND c) OR (NOT b AND d), i)
        else if i < 32 then ((d AND b) OR (NOT d AND c), (5 * i + 1) mod 16)
        else if i < 48 then (b XOR c XOR d, (3 * i + 5) mod 16)
        else (c XOR (b OR NOT d), (7 * i) mod 16))
     in (d, b + LEFTROTATE (a + f + md5_k ! i + w ! g) (md5_r ! i), b, c))"

definition digest_md5 :: "u32 list \<Rightarrow> u32 \<times> u32 \<times> u32 \<times> u32" where
  "digest_md5 w = fold (md5_round w) [0..<64] (0x67452301, 0xefcdab89, 0x98badcfe, 0x10325476)"

definition hmac :: "u32 \<times> u32 \<Rightarrow> u32 \<times> u32 \<Rightarrow> u32 \<times> u32" where
  "hmac x y = (
     let w = concat (replicate 4 [snd x, fst x, snd y, fst y]);
         (r0, r1, r2, r3) = digest_md5 w
     in (r2 XOR r3, r0 XOR r1))"

definition hmac_md5 :: "u32 \<times> u32 \<Rightarrow> u32 \<times> u32 \<Rightarrow> u32 \<times> u32" where
  "hmac_md5 x y = (
     let w = concat (replicate 3 [fst x, snd x, fst y, snd y]) @ [0x80, 0, 384, 0];
         (r0, r1, r2, r3) = digest_md5 w
     in ((r0 + 0x67452301) XOR (r2 + 0x98badcfe), (r1 + 0xefcdab89) XOR (r3 + 0x10325476)))"

definition read64 :: "bytes \<Rightarrow> bytes \<Rightarrow> ((u32 \<times> u32) \<times> (u32 \<times> u32)) option" where
  "read64 x y =
     (if length x \<noteq> 8 then None
      else if length y \<noteq> 8 then None
      else Some ((get_le32 x 0, get_le32 x 4), (get_le32 y 0, get_le32 y 4)))"

definition pushqword :: "u32 \<times> u32 \<Rightarrow> bytes" where
  "pushqword r = put_le32 (fst r) @ put_le32 (snd r)"

definition lhmac64 :: "bytes \<Rightarrow> bytes \<Rightarrow> bytes option" where
  "lhmac64 x y = do { (xx, yy) \<leftarrow> read64 x y; Some (pushqword (hmac xx yy)) }"

definition lhmac64_md5 :: "bytes \<Rightarrow> bytes \<Rightarrow> bytes option" where
  "lhmac64_md5 x y = do { (xx, yy) \<leftarrow> read64 x y; Some (pushqword (hmac_md5 xx yy)) }"

definition lhmac_hash :: "bytes \<Rightarrow> bytes \<Rightarrow> bytes option" where
  "lhmac_hash x t =
     (if length x \<noteq> 8 then None
      else let key = (get_le32 x 0, get_le32 x 4);
               h = Hash t;
               htext = (get_le32 h 0, get_le32 h 4)
           in Some (pushqword (hmac htext key)))"

section \<open>Diffie-Hellman\<close>

definition P :: u64 where
  "P = 0xffffffffffffffc5"

function mul_loop :: "u64 \<Rightarrow> u64 \<Rightarrow> u64 \<Rightarrow> u64" where
  "mul_loop m a b =
     (if b = 0 then m
      else
        let m = (if b AND 1 \<noteq> 0 then (let t = P - a in if m \<ge> t then m - t else m + a) else m);
            a = (if a \<ge> P - a then a * 2 - P else a * 2)
        in mul_loop m a (drop_bit 1 b))"
  by pat_completeness auto
termination
proof (relation "measure (\<lambda>(m, a, b). unat b)")
  fix m a b x xa :: u64
  assume "b \<noteq> 0"
  then have "0 < unat b" by (simp add: unat_gt_0)
  then show "((x, xa, drop_bit 1 b), m, a, b) \<in> measure (\<lambda>(m, a, b). unat b)"
    by (simp add: unat_drop_bit_div del: drop_bit_numeral_bit1)
qed simp

declare mul_loop.simps [simp del]

definition mul_mod_p :: "u64 \<Rightarrow> u64 \<Rightarrow> u64" where
  "mul_mod_p a b = mul_loop 0 a b"

text \<open>The recursion only ends at an exponent of 1; from 0 it does not return.\<close>

partial_function (option) pow_mod_p :: "u64 \<Rightarrow> u64 \<Rightarrow> u64 option" where
  "pow_mod_p a b =
     (if b = 1 then Some a
      else do {
        t \<leftarrow> pow_mod_p a (drop_bit 1 b);
        let t = mul_mod_p t t;
        Some (if b mod 2 \<noteq> 0 then mul_mod_p t a else t)
      })"

definition powmodp :: "u64 \<Rightarrow> u64 \<Rightarrow> u64 option" where
  "powmodp a b = (let a = (if a > P then a mod P else a) in pow_mod_p a b)"

definition push64 :: "u64 \<Rightarrow> bytes" where
  "push64 r =
     [ucast (r AND 0xff), ucast (drop_bit 8 r AND 0xff), ucast (drop_bit 16 r AND 0xff),
      ucast (drop_bit 24 r AND 0xff), ucast (drop_bit 32 r AND 0xff), ucast (drop_bit 40 r AND 0xff),
      ucast (drop_bit 48 r AND 0xff), ucast (drop_bit 56 r AND 0xff)]"

text \<open>\<open>(uint64_t)x[0] | (uint64_t)x[1]<<32\<close>\<close>

definition join64 :: "u32 \<times> u32 \<Rightarrow> u64" where
  "join64 x = ucast (fst x) OR push_bit 32 (ucast (snd x))"

definition ldhsecret :: "bytes \<Rightarrow> bytes \<Rightarrow> bytes option" where
  "ldhsecret x y = do {
     (x, y) \<leftarrow> read64 x y;
     let xx = join64 x;
     let yy = join64 y;
     if xx = 0 \<or> yy = 0 then None
     else do { r \<leftarrow> powmodp xx yy; Some (push64 r) }
   }"

definition G :: u64 where
  "G = 5"

definition ldhexchange :: "bytes \<Rightarrow> bytes option" where
  "ldhexchange x =
     (if length x \<noteq> 8 then None
      else
        let x64 = join64 (get_le32 x 0, get_le32 x 4) in
        if x64 = 0 then None
        else do { r \<leftarrow> powmodp G x64; Some (push64 r) })"

section \<open>Base64\<close>

definition encoding :: bytes where
  "encoding = bs ''ABCDEFGHIJKLMNOPQRSTUVWXYZabcdefghijklmnopqrstuvwxyz0123456789+/''"

definition enc :: "u32 \<Rightarrow> u8" where
  "enc v = encoding ! unat v"

fun lb64encode :: "bytes \<Rightarrow> bytes" where
  "lb64encode (t0 # t1 # t2 # t) = (
     let v = push_bit 16 (ucast t0) OR push_bit 8 (ucast t1) OR ucast t2 :: u32 in
     enc (drop_bit 18 v) # enc (drop_bit 12 v AND 0x3f) # enc (drop_bit 6 v AND 0x3f) # enc (v AND 0x3f)
       # lb64encode t)"
| "lb64encode [] = []"
| "lb64encode [t0] = (
     let v = ucast t0 :: u32 in [enc (drop_bit 2 v), enc (push_bit 4 (v AND 3)), 61, 61])"
| "lb64encode [t0, t1] = (
     let v = push_bit 8 (ucast t0) OR ucast t1 :: u32 in
     [enc (drop_bit 10 v), enc (drop_bit 4 v AND 0x3f), enc (push_bit 2 (v AND 0xf)), 61])"

definition decoding :: "int list" where
  "decoding = [
     62, -1, -1, -1, 63, 52, 53, 54, 55, 56, 57, 58, 59, 60, 61, -1, -1, -1, -2, -1, -1, -1,
     0, 1, 2, 3, 4, 5, 6, 7, 8, 9, 10, 11, 12, 13, 14, 15, 16, 17, 18, 19, 20, 21, 22, 23, 24, 25,
     -1, -1, -1, -1, -1, -1,
     26, 27, 28, 29, 30, 31, 32, 33, 34, 35, 36, 37, 38, 39, 40, 41, 42, 43, 44, 45, 46, 47, 48, 49,
     50, 51]"

definition b64index :: "u8 \<Rightarrow> int" where
  "b64index c =
     (if c < 43 then -1
      else let c = c - 43 in if unat c \<ge> length decoding then -1 else decoding ! unat c)"

text \<open>
  The inner loop: the next \<open>n\<close> characters of the alphabet, the others skipped, and the text after
  them; None at the end of the text.
\<close>

fun b64group :: "nat \<Rightarrow> bytes \<Rightarrow> (int list \<times> bytes) option" where
  "b64group 0 t = Some ([], t)"
| "b64group (Suc n) [] = None"
| "b64group (Suc n) (ch # t) =
     (if b64index ch = -1 then b64group (Suc n) t
      else do { (c, r) \<leftarrow> b64group n t; Some (b64index ch # c, r) })"

definition b64value :: "int list \<Rightarrow> bytes option" where
  "b64value c = (
     let padding = length (filter (\<lambda>x. x = -2) c);
         w = \<lambda>j. of_int (c ! j) :: u32 in
     if padding = 0 then
       let v = push_bit 18 (w 0) OR push_bit 12 (w 1) OR push_bit 6 (w 2) OR w 3 in
       Some [ucast (drop_bit 16 v), ucast (drop_bit 8 v AND 0xff), ucast (v AND 0xff)]
     else if padding = 1 then
       if c ! 3 \<noteq> -2 \<or> c ! 2 AND 3 \<noteq> 0 then None
       else let v = push_bit 10 (w 0) OR push_bit 4 (w 1) OR drop_bit 2 (w 2) in
         Some [ucast (drop_bit 8 v), ucast (v AND 0xff)]
     else if padding = 2 then
       if c ! 3 \<noteq> -2 \<or> c ! 2 \<noteq> -2 \<or> c ! 1 AND 0xf \<noteq> 0 then None
       else let v = push_bit 2 (w 0) OR drop_bit 4 (w 1) in Some [ucast v]
     else None)"

lemma b64group_shorter: "b64group n t = Some (c, r) \<Longrightarrow> length c = n \<and> length r + n \<le> length t"
  by (induction n t arbitrary: c r rule: b64group.induct)
    (auto split: if_splits prod.splits option.splits simp: bind_eq_Some_conv)

function lb64decode :: "bytes \<Rightarrow> bytes option" where
  "lb64decode t =
     (if t = [] then Some []
      else case b64group 4 t of
        None \<Rightarrow> None
      | Some (c, r) \<Rightarrow> do {
          v \<leftarrow> b64value c;
          out \<leftarrow> lb64decode r;
          Some (v @ out)
        })"
  by pat_completeness auto
termination
  by (relation "measure length") (auto dest: b64group_shorter)

declare lb64decode.simps [simp del]

section \<open>Xor\<close>

definition lxor_str :: "bytes \<Rightarrow> bytes \<Rightarrow> bytes option" where
  "lxor_str s1 s2 =
     (if s2 = [] then None
      else Some (map (\<lambda>i. s1 ! i XOR s2 ! (i mod length s2)) [0..<length s1]))"

section \<open>Hexadecimal: facts\<close>

lemma hex_digits: "\<forall>k \<in> set [0..<16]. HEX (hex ! k) = of_nat k"
  by (simp add: upt_rec hex_def bs_def HEX_def)

lemma HEX_hex:
  assumes "unat n < 16"
  shows "HEX (hex ! unat n) = n"
  using hex_digits assms by simp

lemma nibbles: "unat (drop_bit 4 (c :: u8)) < 16" "unat (c AND 0xf) < 16"
proof -
  have "(0xf :: u8) = mask 4" by (simp add: mask_eq_exp_minus_1)
  then show "unat (c AND 0xf) < 16" by (simp only: unat_and_mask)  simp
  show "unat (drop_bit 4 c) < 16" using unat_byte_less [of c] unfolding unat_drop_bit_div by simp
qed

lemma bit_masks:
  "bit (0xf :: int) n \<longleftrightarrow> n < 4" "bit (0x3f :: int) n \<longleftrightarrow> n < 6"
  "bit (0xff :: int) n \<longleftrightarrow> n < 8" "bit (3 :: int) n \<longleftrightarrow> n < 2"
proof -
  have m: "(0xf :: int) = mask 4" "(0x3f :: int) = mask 6" "(0xff :: int) = mask 8" "(3 :: int) = mask 2"
    by (simp_all add: mask_eq_exp_minus_1)
  show "bit (0xf :: int) n \<longleftrightarrow> n < 4" "bit (0x3f :: int) n \<longleftrightarrow> n < 6"
    "bit (0xff :: int) n \<longleftrightarrow> n < 8" "bit (3 :: int) n \<longleftrightarrow> n < 2"
    unfolding m by (auto simp: bit_mask_iff)
qed

lemma join_nibbles: "push_bit 4 (drop_bit 4 c) OR (c AND 0xf) = (c :: u8)"
proof (rule bit_word_eqI)
  fix n
  show "bit (push_bit 4 (drop_bit 4 c) OR (c AND 0xf)) n = bit c n"
    by (cases "n < 4") (auto simp: bit_simps bit_masks dest: bit_imp_le_length)
qed

lemma fromhex_tohex: "fromhex_loop (ltohex t) = Some t"
proof (induction t)
  case (Cons c t)
  have "\<not> drop_bit 4 c > 16" "\<not> c AND 0xf > 16"
    using nibbles [of c] by (simp_all add: word_less_nat_alt)
  then show ?case
    using Cons by (simp add: ltohex_def HEX_hex nibbles join_nibbles Let_def)
qed (simp add: ltohex_def)

lemma length_ltohex: "length (ltohex t) = 2 * length t"
  by (induction t) (simp_all add: ltohex_def)

text \<open>
  Every string decodes from its hexadecimal form.
\<close>

lemma hex_roundtrip: "lfromhex (ltohex t) = Some t"
  by (simp add: lfromhex_def fromhex_tohex length_ltohex)

lemma HEX_range: "HEX c \<le> 16 \<longleftrightarrow> (48 \<le> c \<and> c \<le> 57) \<or> (87 \<le> c \<and> c \<le> 103)"
proof -
  have u: "unat (c - 97 + 10) = (if 87 \<le> unat c then unat c - 87 else unat c + 169)"
    by (unat_arith; simp)
  show ?thesis
    using unat_byte_less [of c] by (auto simp: HEX_def word_le_nat_alt u unat_sub_if_size word_size)
qed

lemma fromhex_loop_accepts:
  "even (length t) \<Longrightarrow> fromhex_loop t \<noteq> None \<longleftrightarrow> (\<forall>c \<in> set t. HEX c \<le> 16)"
  by (induction t rule: fromhex_loop.induct)
    (auto simp: Let_def bind_eq_Some_conv not_less split: if_splits)

text \<open>
  the strings hexdecode accepts are those of even length over the digits and the
  characters from W to g. Beside the digits and a to f these are W, X, Y, Z, five punctuation
  characters and the backquote, which read as 0 to 9, and g, which reads as 16 because the test of
  a digit is off by one; the hexadecimal capitals A to F are refused.
\<close>

lemma fromhex_accepts:
  "lfromhex t \<noteq> None \<longleftrightarrow>
     even (length t) \<and> (\<forall>c \<in> set t. (48 \<le> c \<and> c \<le> 57) \<or> (87 \<le> c \<and> c \<le> 103))"
  using fromhex_loop_accepts [of t] by (auto simp: lfromhex_def HEX_range)

lemma fromhex_accepts_witness: "lfromhex [103, 87] \<noteq> None \<and> lfromhex [65, 70] = None"
  using fromhex_accepts [of "[103, 87]"] fromhex_accepts [of "[65, 70]"] by simp

section \<open>Base64: facts\<close>

lemma b64_alphabet: "\<forall>k \<in> set [0..<64]. b64index (encoding ! k) = int k"
  by code_simp

lemma b64index_enc:
  assumes "unat v < 64"
  shows "b64index (enc v) = uint v"
  using b64_alphabet assms by (simp add: enc_def)

lemma sixbits: "unat (v AND 0x3f :: u32) < 64"
proof -
  have "(0x3f :: u32) = mask 6" by (simp add: mask_eq_exp_minus_1)
  then show ?thesis by (simp only: unat_and_mask) simp
qed

lemma b64_join: "push_bit 18 (drop_bit 18 v) OR push_bit 12 (drop_bit 12 v AND 0x3f)
    OR push_bit 6 (drop_bit 6 v AND 0x3f) OR (v AND 0x3f) = (v :: u32)"
proof (rule bit_word_eqI)
  fix n assume "n < LENGTH(32)"
  then consider "n < 6" | "6 \<le> n" "n < 12" | "12 \<le> n" "n < 18" | "18 \<le> n" "n < 32" by fastforce
  then show "bit (push_bit 18 (drop_bit 18 v) OR push_bit 12 (drop_bit 12 v AND 0x3f)
    OR push_bit 6 (drop_bit 6 v AND 0x3f) OR (v AND 0x3f)) n = bit v n"
    by cases (auto simp: bit_simps bit_masks simp del: push_bit_and)
qed

lemma b64group_enc:
  assumes "unat a < 64" "unat b < 64" "unat c < 64" "unat d < 64"
  shows "b64group 4 (enc a # enc b # enc c # enc d # t)
      = Some ([uint a, uint b, uint c, uint d], t)"
    "b64group 4 (enc a # enc b # enc c # 61 # t) = Some ([uint a, uint b, uint c, - 2], t)"
    "b64group 4 (enc a # enc b # 61 # 61 # t) = Some ([uint a, uint b, - 2, - 2], t)"
proof -
  have eq: "b64index 61 = - 2" by code_simp
  have n: "uint (x :: u32) \<noteq> - 1" for x using uint_ge_0 [of x] by linarith
  have 4: "4 = Suc (Suc (Suc (Suc 0)))" by simp
  show "b64group 4 (enc a # enc b # enc c # enc d # t)
      = Some ([uint a, uint b, uint c, uint d], t)"
    "b64group 4 (enc a # enc b # enc c # 61 # t) = Some ([uint a, uint b, uint c, - 2], t)"
    "b64group 4 (enc a # enc b # 61 # 61 # t) = Some ([uint a, uint b, - 2, - 2], t)"
    using assms unfolding 4 by (simp_all add: b64index_enc eq n)
qed

lemma word_index: "of_int (uint (v :: u32)) = v"
  by simp

lemma index_and: "uint (v :: u32) AND uint w = uint (v AND w)"
  by (simp add: unsigned_and_eq)

lemma b64value_enc:
  fixes a b c d :: u32
  shows "b64value [uint a, uint b, uint c, uint d] =
     (let v = push_bit 18 a OR push_bit 12 b OR push_bit 6 c OR d in
      Some [ucast (drop_bit 16 v), ucast (drop_bit 8 v AND 0xff), ucast (v AND 0xff)])"
  "c AND 3 = 0 \<Longrightarrow> b64value [uint a, uint b, uint c, - 2] =
     (let v = push_bit 10 a OR push_bit 4 b OR drop_bit 2 c in
      Some [ucast (drop_bit 8 v), ucast (v AND 0xff)])"
  "b AND 0xf = 0 \<Longrightarrow> b64value [uint a, uint b, - 2, - 2] =
     Some [ucast (push_bit 2 a OR drop_bit 4 b)]"
proof -
  have n: "uint (x :: u32) \<noteq> - 2" for x using uint_ge_0 [of x] by linarith
  have m: "uint (c :: u32) AND 3 = uint (c AND 3)" for c using index_and [of c "3 :: u32"] by simp
  have m': "uint (c :: u32) AND 0xf = uint (c AND 0xf)" for c using index_and [of c "0xf :: u32"] by simp
  show "b64value [uint a, uint b, uint c, uint d] =
     (let v = push_bit 18 a OR push_bit 12 b OR push_bit 6 c OR d in
      Some [ucast (drop_bit 16 v), ucast (drop_bit 8 v AND 0xff), ucast (v AND 0xff)])"
    by (simp add: b64value_def n word_index Let_def)
  show "c AND 3 = 0 \<Longrightarrow> b64value [uint a, uint b, uint c, - 2] =
     (let v = push_bit 10 a OR push_bit 4 b OR drop_bit 2 c in
      Some [ucast (drop_bit 8 v), ucast (v AND 0xff)])"
    by (simp add: b64value_def n word_index Let_def m)
  show "b AND 0xf = 0 \<Longrightarrow> b64value [uint a, uint b, - 2, - 2] =
     Some [ucast (push_bit 2 a OR drop_bit 4 b)]"
    by (simp add: b64value_def n word_index Let_def m')
qed

lemma b64_bytes3:
  fixes t0 t1 t2 :: u8
  defines "v \<equiv> push_bit 16 (ucast t0) OR push_bit 8 (ucast t1) OR ucast t2 :: u32"
  shows "ucast (drop_bit 16 v) = t0" "ucast (drop_bit 8 v AND 0xff) = t1" "ucast (v AND 0xff) = t2"
    "unat (drop_bit 18 v) < 64"
proof -
  show "ucast (drop_bit 16 v) = t0" "ucast (drop_bit 8 v AND 0xff) = t1" "ucast (v AND 0xff) = t2"
    unfolding v_def by (rule bit_word_eqI; auto simp: bit_simps bit_masks dest: bit_imp_le_length)+
  have "take_bit 24 v = v"
    unfolding v_def by (rule bit_word_eqI) (auto simp: bit_simps dest: bit_imp_le_length)
  then have "unat v < 2 ^ 24" by (metis take_bit_nat_less_exp unsigned_take_bit_eq)
  then show "unat (drop_bit 18 v) < 64" unfolding unat_drop_bit_div by simp
qed

lemma below64: "take_bit 6 (x :: u32) = x \<Longrightarrow> unat x < 64"
proof -
  assume "take_bit 6 x = x"
  then have "unat x < 2 ^ 6" by (metis take_bit_nat_less_exp unsigned_take_bit_eq)
  then show ?thesis by simp
qed

lemma b64_bytes2:
  fixes t0 t1 :: u8
  defines "v \<equiv> push_bit 8 (ucast t0) OR ucast t1 :: u32"
  shows "unat (drop_bit 10 v) < 64" "unat (push_bit 2 (v AND 0xf)) < 64" "push_bit 2 (v AND 0xf) AND 3 = 0"
    "push_bit 10 (drop_bit 10 v) OR push_bit 4 (drop_bit 4 v AND 0x3f) OR drop_bit 2 (push_bit 2 (v AND 0xf)) = v"
    "ucast (drop_bit 8 v) = t0" "ucast (v AND 0xff) = t1"
proof -
  show "unat (drop_bit 10 v) < 64"
    unfolding v_def by (rule below64, rule bit_word_eqI) (auto simp: bit_simps dest: bit_imp_le_length)
  show "unat (push_bit 2 (v AND 0xf)) < 64"
    by (rule below64, rule bit_word_eqI)
      (auto simp: bit_simps bit_masks simp del: push_bit_and push_bit_numeral)
  show "push_bit 2 (v AND 0xf) AND 3 = 0"
    by (rule bit_word_eqI) (auto simp: bit_simps bit_masks simp del: push_bit_and)
  show "push_bit 10 (drop_bit 10 v) OR push_bit 4 (drop_bit 4 v AND 0x3f) OR drop_bit 2 (push_bit 2 (v AND 0xf)) = v"
  proof (rule bit_word_eqI)
    fix n assume "n < LENGTH(32)"
    then consider "n < 4" | "4 \<le> n" "n < 10" | "10 \<le> n" "n < 32" by fastforce
    then show "bit (push_bit 10 (drop_bit 10 v) OR push_bit 4 (drop_bit 4 v AND 0x3f)
        OR drop_bit 2 (push_bit 2 (v AND 0xf))) n = bit v n"
      by cases (auto simp: bit_simps bit_masks Suc_diff_le simp del: push_bit_and)
  qed
  show "ucast (drop_bit 8 v) = t0" "ucast (v AND 0xff) = t1"
    unfolding v_def by (rule bit_word_eqI; auto simp: bit_simps bit_masks dest: bit_imp_le_length)+
qed

lemma b64_bytes1:
  fixes t0 :: u8
  defines "v \<equiv> ucast t0 :: u32"
  shows "unat (drop_bit 2 v) < 64" "unat (push_bit 4 (v AND 3)) < 64" "push_bit 4 (v AND 3) AND 0xf = 0"
    "ucast (push_bit 2 (drop_bit 2 v) OR drop_bit 4 (push_bit 4 (v AND 3))) = t0"
proof -
  show "unat (drop_bit 2 v) < 64"
    unfolding v_def by (rule below64, rule bit_word_eqI) (auto simp: bit_simps dest: bit_imp_le_length)
  show "unat (push_bit 4 (v AND 3)) < 64"
    by (rule below64, rule bit_word_eqI) (auto simp: bit_simps bit_masks simp del: push_bit_and)
  show "push_bit 4 (v AND 3) AND 0xf = 0"
    by (rule bit_word_eqI) (auto simp: bit_simps bit_masks simp del: push_bit_and)
  show "ucast (push_bit 2 (drop_bit 2 v) OR drop_bit 4 (push_bit 4 (v AND 3))) = t0"
  proof (rule bit_word_eqI)
    fix n assume "n < LENGTH(8)"
    then have "n < 2 \<or> (\<exists>k < 6. n = k + 2)" by (cases "n < 2") (auto intro: exI [of _ "n - 2"])
    then show "bit (ucast (push_bit 2 (drop_bit 2 v) OR drop_bit 4 (push_bit 4 (v AND 3))) :: u8) n = bit t0 n"
      unfolding v_def by (auto simp: bit_simps bit_masks simp del: push_bit_and)
  qed
qed

lemma decode_group:
  assumes "b64group 4 t = Some (c, r)" "b64value c = Some w"
  shows "lb64decode t = map_option (\<lambda>out. w @ out) (lb64decode r)"
proof -
  have "t \<noteq> []" using assms(1) by (auto simp: numeral_eq_Suc)
  then show ?thesis
    using assms by (subst lb64decode.simps) (simp add: map_option_case split: option.split)
qed

lemma decode_encode_app: "lb64decode (lb64encode t @ r) = map_option (\<lambda>out. t @ out) (lb64decode r)"
proof (induction t rule: lb64encode.induct)
  case (1 t0 t1 t2 t)
  obtain v :: u32 where v: "v = push_bit 16 (ucast t0) OR push_bit 8 (ucast t1) OR ucast t2" by blast
  note facts = b64_bytes3 [of t0 t1 t2, folded v]
  have e: "lb64encode (t0 # t1 # t2 # t) @ r = enc (drop_bit 18 v) # enc (drop_bit 12 v AND 0x3f)
      # enc (drop_bit 6 v AND 0x3f) # enc (v AND 0x3f) # (lb64encode t @ r)"
    unfolding v by (simp only: lb64encode.simps Let_def append_Cons)
  have w: "b64value [uint (drop_bit 18 v), uint (drop_bit 12 v AND 0x3f), uint (drop_bit 6 v AND 0x3f),
      uint (v AND 0x3f)] = Some [t0, t1, t2]"
    unfolding b64value_enc(1) Let_def b64_join facts(1-3) ..
  show ?case
    unfolding e decode_group [OF b64group_enc(1) [OF facts(4) sixbits sixbits sixbits] w]
    by (simp add: 1 option.map_comp comp_def)
next
  case 2
  then show ?case by (simp add: option.map_ident)
next
  case (3 t0)
  obtain v :: u32 where v: "v = ucast t0" by blast
  note facts = b64_bytes1 [of t0, folded v]
  have e: "lb64encode [t0] @ r = enc (drop_bit 2 v) # enc (push_bit 4 (v AND 3)) # 61 # 61 # r"
    unfolding v by (simp only: lb64encode.simps Let_def append_Cons append_Nil)
  have w: "b64value [uint (drop_bit 2 v), uint (push_bit 4 (v AND 3)), - 2, - 2] = Some [t0]"
    unfolding b64value_enc(3) [OF facts(3)] facts(4) ..
  show ?case
    unfolding e by (rule decode_group [OF b64group_enc(3) [OF facts(1,2) sixbits [of 0] sixbits [of 0]] w])
next
  case (4 t0 t1)
  obtain v :: u32 where v: "v = push_bit 8 (ucast t0) OR ucast t1" by blast
  note facts = b64_bytes2 [of t0 t1, folded v]
  have e: "lb64encode [t0, t1] @ r = enc (drop_bit 10 v) # enc (drop_bit 4 v AND 0x3f)
      # enc (push_bit 2 (v AND 0xf)) # 61 # r"
    unfolding v by (simp only: lb64encode.simps Let_def append_Cons append_Nil)
  have w: "b64value [uint (drop_bit 10 v), uint (drop_bit 4 v AND 0x3f), uint (push_bit 2 (v AND 0xf)), - 2]
      = Some [t0, t1]"
    unfolding b64value_enc(2) [OF facts(3)] Let_def facts(4-6) ..
  show ?case
    unfolding e decode_group [OF b64group_enc(2) [OF facts(1) sixbits facts(2) sixbits [of 0]] w]
    by (rule refl)
qed


text \<open>
  a base64 text followed by a character outside of the alphabet, such as a newline, is refused:
  the decoder skips such characters, but only when a character of the alphabet follows.
\<close>

lemma base64_trailing_newline: "lb64decode (lb64encode t @ bs [CHR 0x0A]) = None"
proof -
  have "b64index 10 = - 1" by (simp add: b64index_def)
  then have "lb64decode (bs [CHR 0x0A]) = None"
    by (simp add: lb64decode.simps numeral_eq_Suc bs_def)
  then show ?thesis by (simp add: decode_encode_app)
qed

section \<open>Diffie-Hellman: facts\<close>

lemma unat_P: "unat P = 18446744073709551557"
  by (simp add: P_def)

lemma P_less: "unat P < 2 ^ 64"
  by (simp add: unat_P)

lemma mod_once: "p \<le> x \<Longrightarrow> x < 2 * p \<Longrightarrow> x - p = x mod (p :: nat)"
  by (simp add: le_mod_geq)

text \<open>One step of the loop of \<open>mul_mod_p\<close>: an addition modulo P that does not overflow.\<close>

lemma add_mod_step:
  assumes "unat m < unat P" "unat a < unat P"
  shows "unat (if m \<ge> P - a then m - (P - a) else m + a) = (unat m + unat a) mod unat P"
proof -
  have t: "unat (P - a) = unat P - unat a"
    using assms(2) by (simp add: unat_sub_if_size)
  show ?thesis
  proof (cases "P - a \<le> m")
    case True
    then have le: "unat P - unat a \<le> unat m" using t by (simp add: word_le_nat_alt)
    then have "unat (m - (P - a)) = unat m - (unat P - unat a)"
      using t by (simp add: unat_sub_if_size)
    also have "\<dots> = (unat m + unat a) - unat P" using le assms(2) by linarith
    also have "\<dots> = (unat m + unat a) mod unat P"
      using le assms by (intro mod_once) linarith+
    finally show ?thesis using True by simp
  next
    case False
    then have "unat m + unat a < unat P" using t assms(2) by (simp add: word_le_nat_alt)
    moreover from this have "unat (m + a) = unat m + unat a"
      using P_less by (subst unat_add_lem [symmetric]) simp
    ultimately show ?thesis using False by simp
  qed
qed

lemma double_step:
  assumes "unat a < unat P"
  shows "unat (if a \<ge> P - a then a * 2 - P else a * 2) = (2 * unat a) mod unat P"
proof -
  have "a * 2 - P = a - (P - a)" "a * 2 = a + a" by (simp_all only: diff_diff_eq2 mult_2_right)
  then have "(if a \<ge> P - a then a * 2 - P else a * 2) = (if a \<ge> P - a then a - (P - a) else a + a)" by (cases "P - a \<le> a") (simp_all only: if_P if_not_P not_False_eq_True)
  then show ?thesis unfolding mult_2 by (rule ssubst) (rule add_mod_step [OF assms assms])
qed

lemma mod_2_odd: "b mod 2 \<noteq> 0 \<longleftrightarrow> odd (unat (b :: u64))"
proof -
  have "unat (b mod 2) = unat b mod 2" by (simp add: unat_mod_distrib)
  then show ?thesis by (metis even_iff_mod_2_eq_zero unat_eq_0)
qed

lemma and_1_odd: "b AND 1 \<noteq> 0 \<longleftrightarrow> odd (unat (b :: u64))"
  unfolding and_one_eq by (rule mod_2_odd)

lemma mul_loop_mod:
  assumes "unat m < unat P" "unat a < unat P"
  shows "unat (mul_loop m a b) = (unat m + unat a * unat b) mod unat P"
  using assms
proof (induction m a b rule: mul_loop.induct)
  case (1 m a b)
  show ?case
  proof (cases "b = 0")
    case True
    then show ?thesis using 1(2) by (simp add: mul_loop.simps)
  next
    case False
    define m' where "m' = (if b AND 1 \<noteq> 0 then (if m \<ge> P - a then m - (P - a) else m + a) else m)"
    define a' where "a' = (if a \<ge> P - a then a * 2 - P else a * 2)"
    have p: "0 < unat P" by (simp add: unat_P)
    have m': "unat m' = (unat m + unat a * (unat b mod 2)) mod unat P"
      using add_mod_step [OF 1(2,3)] 1(2) unfolding m'_def and_1_odd by (simp add: odd_iff_mod_2_eq_one even_iff_mod_2_eq_zero)
    have a': "unat a' = (2 * unat a) mod unat P"
      unfolding a'_def by (rule double_step [OF 1(3)])
    have "mul_loop m a b = mul_loop m' a' (drop_bit 1 b)"
      using False by (subst mul_loop.simps) (simp only: Let_def m'_def a'_def if_False)
    also have "unat \<dots> = (unat m' + unat a' * (unat b div 2)) mod unat P"
    proof -
      have l: "unat m' < unat P" "unat a' < unat P" unfolding m' a' using p by simp_all
      have "unat (mul_loop m' a' (drop_bit 1 b)) = (unat m' + unat a' * unat (drop_bit 1 b)) mod unat P"
        by (rule 1(1) [OF False _ _ l]) (simp_all only: m'_def a'_def Let_def)
      then show ?thesis unfolding unat_drop_bit_div power_one_right .
    qed
    also have "\<dots> = (unat m + unat a * (unat b mod 2) + 2 * unat a * (unat b div 2)) mod unat P"
      unfolding m' a' by (rule mod_add_cong [OF mod_mod_trivial mod_mult_left_eq])
    also have "unat m + unat a * (unat b mod 2) + 2 * unat a * (unat b div 2) = unat m + unat a * unat b"
      by (metis (no_types) add.assoc add_mult_distrib2 mod_mult_div_eq mult.assoc mult.commute)
    finally show ?thesis .
  qed
qed

lemma mul_mod_p_mod: "unat a < unat P \<Longrightarrow> unat (mul_mod_p a b) = (unat a * unat b) mod unat P"
  using mul_loop_mod [of 0 a b] by (simp add: mul_mod_p_def unat_P)

lemma pow_mod_p_correct:
  assumes "b \<noteq> 0" "unat a < unat P"
  shows "\<exists>r. pow_mod_p a b = Some r \<and> unat r = (unat a ^ unat b) mod unat P"
  using assms(1)
proof (induction "unat b" arbitrary: b rule: less_induct)
  case less
  show ?case
  proof (cases "b = 1")
    case True
    then show ?thesis using assms(2) by (simp add: pow_mod_p.simps)
  next
    case False
    then have b: "2 \<le> unat b" using less(2) by unat_arith
    have h: "unat (drop_bit 1 b) = unat b div 2" using unat_drop_bit_div [of 1 b] by simp
    then have "unat (drop_bit 1 b) < unat b" "drop_bit 1 b \<noteq> 0" using b by (auto simp: unat_eq_0 dest: arg_cong [of _ _ unat])
    from less(1) [OF this] obtain t where
      t: "pow_mod_p a (drop_bit 1 b) = Some t" "unat t = unat a ^ (unat b div 2) mod unat P"
      unfolding h by blast
    have tl: "unat t < unat P" by (simp add: t(2) unat_P)
    have sq: "unat (mul_mod_p t t) = unat a ^ (2 * (unat b div 2)) mod unat P"
      using mul_mod_p_mod [OF tl] by (simp add: t(2) mod_mult_eq power_add [symmetric] mult_2)
    have sl: "unat (mul_mod_p t t) < unat P" by (simp add: sq unat_P)
    have odd: "unat (mul_mod_p (mul_mod_p t t) a) = unat a ^ (2 * (unat b div 2) + 1) mod unat P"
      unfolding mul_mod_p_mod [OF sl] sq mod_mult_left_eq by (simp add: mult.commute)
    have res: "pow_mod_p a b = Some (if b mod 2 \<noteq> 0 then mul_mod_p (mul_mod_p t t) a else mul_mod_p t t)"
      using False t(1) by (subst pow_mod_p.simps) (simp add: Let_def)
    show ?thesis
    proof (cases "odd (unat b)")
      case True
      then have "2 * (unat b div 2) + 1 = unat b" by simp
      then show ?thesis unfolding res mod_2_odd if_P [OF True] using odd by metis
    next
      case False
      then have "2 * (unat b div 2) = unat b" by simp
      then show ?thesis unfolding res mod_2_odd if_not_P [OF False] using sq by metis
    qed
  qed
qed

lemma pow_mod_p_returns: "pow_mod_p a b = Some r \<Longrightarrow> b \<noteq> 0"
proof (induction rule: pow_mod_p.raw_induct [rotated, consumes 1])
  case (1 pow_mod_p a b r)
  then show ?case by (auto simp: bind_eq_Some_conv split: if_splits) blast
qed

text \<open>
  the recursion of pow\_mod\_p ends exactly for the exponents that are not 0, which is why its
  callers refuse a zero key.
\<close>

lemma pow_mod_p_terminates_iff:
  "unat a < unat P \<longrightarrow> (pow_mod_p a b \<noteq> None \<longleftrightarrow> b \<noteq> 0)"
  using pow_mod_p_returns pow_mod_p_correct by fastforce

lemma pow_mod_p_terminates_iff_witness: "pow_mod_p 5 0 = None \<and> pow_mod_p 5 7 \<noteq> None"
proof -
  have "unat (5 :: u64) < unat P" by (simp add: P_def)
  then show ?thesis
    using pow_mod_p_terminates_iff [of 5 0] pow_mod_p_terminates_iff [of 5 7] by auto
qed

lemma get_put_le32: "get_le32 (put_le32 x @ r) 0 = x"
proof (rule bit_word_eqI)
  fix n assume "n < LENGTH(32)"
  then consider "n < 8" | "8 \<le> n" "n < 16" | "16 \<le> n" "n < 24" | "24 \<le> n" "n < 32" by fastforce
  then show "bit (get_le32 (put_le32 x @ r) 0) n = bit x n"
    by cases (auto simp: get_le32_def put_le32_def bit_simps bit_masks u8_bit)
qed

lemma get_le32_skip: "length u = i \<Longrightarrow> get_le32 (u @ r) (i + j) = get_le32 r j"
  by (simp add: get_le32_def nth_append)

lemma push64_le32: "push64 r = put_le32 (ucast r) @ put_le32 (ucast (drop_bit 32 r))"
  by (auto simp: push64_def put_le32_def bit_simps bit_masks intro!: bit_word_eqI)

lemma join64_split: "join64 (ucast r, ucast (drop_bit 32 r)) = r"
proof (rule bit_word_eqI)
  fix n assume "n < LENGTH(64)"
  then consider "n < 32" | "32 \<le> n" "n < 64" by fastforce
  then show "bit (join64 (ucast r, ucast (drop_bit 32 r))) n = bit r n"
    by cases (auto simp: join64_def bit_simps)
qed

lemma length_put_le32: "length (put_le32 x) = 4"
  by (simp add: put_le32_def)

lemma get_push64: "get_le32 (push64 r) 0 = ucast r" "get_le32 (push64 r) 4 = ucast (drop_bit 32 r)"
  using get_put_le32 [of "ucast r" "put_le32 (ucast (drop_bit 32 r))"]
    get_le32_skip [OF length_put_le32, of "ucast r" "put_le32 (ucast (drop_bit 32 r))" 0]
    get_put_le32 [of "ucast (drop_bit 32 r)" "[]"]
  by (simp_all add: push64_le32)

lemma length_push64: "length (push64 r) = 8"
  by (simp add: push64_def)

text \<open>The value of a key of eight bytes.\<close>

definition key_value :: "bytes \<Rightarrow> u64" where
  "key_value x = join64 (get_le32 x 0, get_le32 x 4)"

lemma key_value_push64: "key_value (push64 r) = r"
  by (simp add: key_value_def get_push64 join64_split)

lemma power_5_nonzero: "(5 :: nat) ^ n mod unat P \<noteq> 0"
proof
  assume "5 ^ n mod unat P = 0"
  then have d: "unat P dvd 5 ^ n" by (rule mod_0_imp_dvd)
  have "coprime (unat P) 5"
  proof (rule coprimeI)
    fix c assume c: "c dvd unat P" "c dvd (5 :: nat)"
    have "unat P = 5 * 3689348814741910311 + 2" by (simp add: unat_P)
    then have "c dvd 2" using c by (metis dvd_add_right_iff dvd_mult2)
    then have "c dvd 5 - 2 * 2" using c(2) by (metis dvd_diff_nat dvd_mult2 mult.commute)
    then show "is_unit c" by simp
  qed
  then have "coprime (unat P) (5 ^ n)" by simp
  then have "is_unit (unat P)" using d by (metis coprime_absorb_left dvd_refl coprime_common_divisor)
  then show False by (simp add: unat_P)
qed

lemma ldhexchange_value:
  assumes "length x = 8" "key_value x \<noteq> 0"
  shows "\<exists>r. ldhexchange x = Some (push64 r) \<and> unat r = 5 ^ unat (key_value x) mod unat P"
proof -
  have "unat G < unat P" "\<not> G > P" by (simp_all add: G_def P_def)
  with pow_mod_p_correct [OF assms(2), of G] obtain r where
    "powmodp G (key_value x) = Some r" "unat r = 5 ^ unat (key_value x) mod unat P"
    by (auto simp: powmodp_def Let_def G_def)
  then show ?thesis using assms by (intro exI [of _ r]) (simp add: ldhexchange_def Let_def key_value_def)
qed

lemma ldhsecret_value:
  assumes "unat r < unat P" "r \<noteq> 0" "length y = 8" "key_value y \<noteq> 0"
  shows "\<exists>s. ldhsecret (push64 r) y = Some (push64 s)
    \<and> unat s = unat r ^ unat (key_value y) mod unat P"
proof -
  have "\<not> r > P" using assms(1) by (simp add: word_less_nat_alt)
  with pow_mod_p_correct [OF assms(4,1)] obtain s where
    "powmodp r (key_value y) = Some s" "unat s = unat r ^ unat (key_value y) mod unat P"
    by (auto simp: powmodp_def Let_def)
  then show ?thesis
    using assms key_value_push64 [of r]
    by (intro exI [of _ s]) (simp add: ldhsecret_def read64_def length_push64 Let_def key_value_def)
qed

text \<open>
  C37: two parties with secret keys that are not zero compute the same secret, 5 to the product of
  their keys modulo P, from the values they exchange; neither call fails.
\<close>

theorem dh_agreement:
  assumes "length x = 8" "length y = 8" "key_value x \<noteq> 0" "key_value y \<noteq> 0"
  shows "\<exists>X Y s. ldhexchange x = Some X \<and> ldhexchange y = Some Y
    \<and> ldhsecret X y = Some (push64 s) \<and> ldhsecret Y x = Some (push64 s)
    \<and> unat s = 5 ^ (unat (key_value x) * unat (key_value y)) mod unat P"
proof -
  obtain rx where rx: "ldhexchange x = Some (push64 rx)" "unat rx = 5 ^ unat (key_value x) mod unat P"
    using ldhexchange_value [OF assms(1,3)] by blast
  obtain ry where ry: "ldhexchange y = Some (push64 ry)" "unat ry = 5 ^ unat (key_value y) mod unat P"
    using ldhexchange_value [OF assms(2,4)] by blast
  have lt: "unat rx < unat P" "unat ry < unat P" using rx(2) ry(2) by (simp_all add: unat_P)
  have nz: "rx \<noteq> 0" "ry \<noteq> 0" using rx(2) ry(2) power_5_nonzero by (metis unat_0)+
  obtain s where s: "ldhsecret (push64 rx) y = Some (push64 s)"
    "unat s = unat rx ^ unat (key_value y) mod unat P"
    using ldhsecret_value [OF lt(1) nz(1) assms(2,4)] by blast
  obtain s' where s': "ldhsecret (push64 ry) x = Some (push64 s')"
    "unat s' = unat ry ^ unat (key_value x) mod unat P"
    using ldhsecret_value [OF lt(2) nz(2) assms(1,3)] by blast
  have v: "unat s = 5 ^ (unat (key_value x) * unat (key_value y)) mod unat P"
    unfolding s(2) rx(2) power_mod power_mult ..
  have "unat s' = 5 ^ (unat (key_value x) * unat (key_value y)) mod unat P"
    unfolding s'(2) ry(2) power_mod power_mult [symmetric] by (simp only: mult.commute)
  then have "s' = s" using v by (metis word_unat_eq_iff)
  then show ?thesis using rx(1) ry(1) s(1) s'(1) v by blast
qed

lemma dh_agreement_witness:
  "\<exists>X Y s. ldhexchange [3, 0, 0, 0, 0, 0, 0, 0] = Some X \<and> ldhexchange [4, 0, 0, 0, 0, 0, 0, 0] = Some Y
    \<and> ldhsecret X [4, 0, 0, 0, 0, 0, 0, 0] = Some (push64 s)
    \<and> ldhsecret Y [3, 0, 0, 0, 0, 0, 0, 0] = Some (push64 s)
    \<and> unat s = 5 ^ (3 * 4) mod unat P"
proof -
  have k: "key_value [3, 0, 0, 0, 0, 0, 0, 0] = 3" "key_value [4, 0, 0, 0, 0, 0, 0, 0] = 4"
    by (simp_all add: key_value_def join64_def get_le32_def)
  show ?thesis
    using dh_agreement [of "[3, 0, 0, 0, 0, 0, 0, 0]" "[4, 0, 0, 0, 0, 0, 0, 0]"] by (simp add: k)
qed

section \<open>The MD5 authenticator\<close>

text \<open>
  MD5 of a message that fits one block (RFC 1321): the message, the byte 0x80, zeros and the length
  in bits, as sixteen little-endian words; the digest of the block is added to the initial state.
\<close>

definition md5_block :: "bytes \<Rightarrow> bytes" where
  "md5_block msg = msg @ [0x80] @ replicate (55 - length msg) 0
     @ push64 (of_nat (8 * length msg))"

definition md5_short :: "bytes \<Rightarrow> bytes" where
  "md5_short msg = (
     let b = md5_block msg;
         (r0, r1, r2, r3) = digest_md5 (map (\<lambda>i. get_le32 b (4 * i)) [0..<16])
     in put_le32 (r0 + 0x67452301) @ put_le32 (r1 + 0xefcdab89)
        @ put_le32 (r2 + 0x98badcfe) @ put_le32 (r3 + 0x10325476))"

lemma md5_words:
  assumes "length x = 8" "length y = 8"
  shows "map (\<lambda>i. get_le32 (md5_block (concat (replicate 3 (x @ y)))) (4 * i)) [0..<16]
    = concat (replicate 3 [get_le32 x 0, get_le32 x 4, get_le32 y 0, get_le32 y 4]) @ [0x80, 0, 384, 0]"
proof -
  obtain x0 x1 x2 x3 x4 x5 x6 x7 where x: "x = [x0, x1, x2, x3, x4, x5, x6, x7]"
    using assms(1) by (auto simp: numeral_eq_Suc length_Suc_conv)
  obtain y0 y1 y2 y3 y4 y5 y6 y7 where y: "y = [y0, y1, y2, y3, y4, y5, y6, y7]"
    using assms(2) by (auto simp: numeral_eq_Suc length_Suc_conv)
  have three: "replicate 3 z = [z, z, z]" for z :: "'a list" by (simp add: numeral_eq_Suc)
  have zeros: "replicate 7 (0 :: u8) = [0, 0, 0, 0, 0, 0, 0]" by (simp add: numeral_eq_Suc)
  have b: "md5_block (concat (replicate 3 (x @ y))) =
    (x @ y) @ (x @ y) @ (x @ y) @ [0x80, 0, 0, 0, 0, 0, 0, 0, 128, 1, 0, 0, 0, 0, 0, 0]"
    by (simp add: md5_block_def three x y zeros push64_def)
  have u: "[0..<16] = [0, 1, 2, 3, 4, 5, 6, 7, 8, 9, 10, 11, 12, 13, 14, 15]" by (simp add: upt_rec)
  show ?thesis unfolding b u by (simp add: three x y get_le32_def)
qed

lemma xor_put_le32: "lxor_str (put_le32 a @ put_le32 b) (put_le32 c @ put_le32 d)
    = Some (put_le32 (a XOR c) @ put_le32 (b XOR d))"
proof -
  have u: "[0..<8] = [0, 1, 2, 3, 4, 5, 6, 7]" by (simp add: upt_rec)
  have m: "ucast (drop_bit k (v XOR w) AND 0xff) = (ucast (drop_bit k v AND 0xff) XOR ucast (drop_bit k w AND 0xff) :: u8)"
    "ucast ((v XOR w) AND 0xff) = (ucast (v AND 0xff) XOR ucast (w AND 0xff) :: u8)" for k and v w :: u32
    by (rule bit_word_eqI; auto simp: bit_simps bit_masks)+
  show ?thesis
    unfolding lxor_str_def put_le32_def m by (simp add: u)
qed



section \<open>Random keys and xor: facts\<close>

text \<open>
  A random key is never eight zero bytes, whatever the random numbers.
\<close>

lemma randomkey_not_zero:
  "length rs = 8 \<longrightarrow> length (lrandomkey rs) = 8 \<and> lrandomkey rs \<noteq> replicate 8 0"
proof
  assume l: "length rs = 8"
  have "foldl (\<lambda>x t. x XOR t) 0 (replicate n (0 :: u8)) = 0" for n by (induction n) simp_all
  moreover have "rs ! 0 OR 1 \<noteq> 0"
  proof
    assume "rs ! 0 OR 1 = 0"
    then have "bit (rs ! 0 OR 1) 0 = bit (0 :: u8) 0" by (simp only:)
    then show False by (simp add: bit_or_iff)
  qed
  moreover from this have "rs[0 := rs ! 0 OR 1] \<noteq> replicate 8 0"
    using l by (metis length_greater_0_conv length_replicate nth_list_update_eq nth_replicate zero_less_numeral)
  ultimately show "length (lrandomkey rs) = 8 \<and> lrandomkey rs \<noteq> replicate 8 0"
    using l by (auto simp: lrandomkey_def Let_def)
qed

lemma randomkey_not_zero_witness: "lrandomkey (replicate 8 0) \<noteq> replicate 8 0"
  using randomkey_not_zero [of "replicate 8 0"] by simp

end
