(* ===== verification/Sha1.thy ===== *)
theory Sha1
  imports Crypt
begin

text \<open>
  lualib-src/lsha1.c: the SHA-1 context with its buffer and bit count, and the HMAC built on it,
  on a little-endian machine. The result is compared with the standards, FIPS 180 and RFC 2104.
\<close>

section \<open>The context\<close>

type_synonym sha_regs = "u32 \<times> u32 \<times> u32 \<times> u32 \<times> u32"

record SHA1_CTX =
  ctx_state :: sha_regs
  ctx_count0 :: u32
  ctx_count1 :: u32
  ctx_buffer :: bytes

definition rol :: "u32 \<Rightarrow> nat \<Rightarrow> u32" where
  "rol v k = push_bit k v OR drop_bit (32 - k) v"

text \<open>The macros R0 to R4 for round \<open>i\<close>; the registers come back in the order of the next round.\<close>

definition blk0 :: "u32 list \<Rightarrow> nat \<Rightarrow> u32" where
  "blk0 l i = (rol (l ! i) 24 AND 0xFF00FF00) OR (rol (l ! i) 8 AND 0x00FF00FF)"

definition blk :: "u32 list \<Rightarrow> nat \<Rightarrow> u32" where
  "blk l i = rol (l ! ((i + 13) mod 16) XOR l ! ((i + 8) mod 16) XOR l ! ((i + 2) mod 16) XOR l ! (i mod 16)) 1"

definition sha_f :: "nat \<Rightarrow> u32 \<Rightarrow> u32 \<Rightarrow> u32 \<Rightarrow> u32" where
  "sha_f i w x y =
     (if i < 20 then (w AND (x XOR y)) XOR y
      else if i < 40 then w XOR x XOR y
      else if i < 60 then ((w OR x) AND y) OR (w AND x)
      else w XOR x XOR y)"

definition sha_k :: "nat \<Rightarrow> u32" where
  "sha_k i = (if i < 20 then 0x5A827999 else if i < 40 then 0x6ED9EBA1 else if i < 60 then 0x8F1BBCDC else 0xCA62C1D6)"

fun sha_round :: "nat \<Rightarrow> sha_regs \<times> u32 list \<Rightarrow> sha_regs \<times> u32 list" where
  "sha_round i ((v, w, x, y, z), l) = (
     let b = (if i < 16 then blk0 l i else blk l i) in
     ((z + (sha_f i w x y + b + sha_k i + rol v 5), v, rol w 30, x, y), l[i mod 16 := b]))"

definition add_regs :: "sha_regs \<Rightarrow> sha_regs \<Rightarrow> sha_regs" where
  "add_regs s t = (case (s, t) of ((s0, s1, s2, s3, s4), (a, b, c, d, e)) \<Rightarrow>
     (s0 + a, s1 + b, s2 + c, s3 + d, s4 + e))"

definition SHA1_Transform :: "sha_regs \<Rightarrow> bytes \<Rightarrow> sha_regs" where
  "SHA1_Transform st buf = (
     let block = map (\<lambda>i. get_le32 buf (4 * i)) [0..<16];
         (regs, _) = fold sha_round [0..<80] (st, block)
     in add_regs st regs)"

definition sat_SHA1_Init :: SHA1_CTX where
  "sat_SHA1_Init = \<lparr>ctx_state = (0x67452301, 0xEFCDAB89, 0x98BADCFE, 0x10325476, 0xC3D2E1F0),
     ctx_count0 = 0, ctx_count1 = 0, ctx_buffer = replicate 64 0\<rparr>"

text \<open>\<open>memcpy(&buffer[j], d, length d)\<close>\<close>

definition copy_at :: "bytes \<Rightarrow> nat \<Rightarrow> bytes \<Rightarrow> bytes" where
  "copy_at buf j d = take j buf @ d @ drop (j + length d) buf"

text \<open>The loop over the whole blocks of the data; the second result is what is left.\<close>

function transform_loop :: "sha_regs \<Rightarrow> bytes \<Rightarrow> sha_regs \<times> bytes" where
  "transform_loop st d =
     (if 63 < length d then transform_loop (SHA1_Transform st (take 64 d)) (drop 64 d) else (st, d))"
  by pat_completeness auto
termination
  by (relation "measure (\<lambda>(st, d). length d)") auto

declare transform_loop.simps [simp del]

text \<open>The sum is compared with the size as a 64-bit number, although it is cut to 32 bits.\<close>

definition add_count :: "nat \<Rightarrow> u32 \<Rightarrow> u32 \<Rightarrow> u32 \<times> u32" where
  "add_count len c0 c1 = (
     let bits = of_nat (len * 8) :: u64;
         c0' = c0 + ucast bits;
         c1' = (if ucast c0' < bits then c1 + 1 else c1)
     in (c0', c1' + ucast (drop_bit 29 (of_nat len :: u64))))"

definition sat_SHA1_Update :: "SHA1_CTX \<Rightarrow> bytes \<Rightarrow> SHA1_CTX" where
  "sat_SHA1_Update ctx d = (
     let j = unat (drop_bit 3 (ctx_count0 ctx) AND 63);
         (c0, c1) = add_count (length d) (ctx_count0 ctx) (ctx_count1 ctx);
         (st, buf, j, rest) =
           (if j + length d > 63 then
              let buf = copy_at (ctx_buffer ctx) j (take (64 - j) d);
                  (st, rest) = transform_loop (SHA1_Transform (ctx_state ctx) buf) (drop (64 - j) d)
              in (st, buf, 0, rest)
            else (ctx_state ctx, ctx_buffer ctx, j, d))
     in \<lparr>ctx_state = st, ctx_count0 = c0, ctx_count1 = c1, ctx_buffer = copy_at buf j rest\<rparr>)"

text \<open>The position in the block, and how many bytes are missing to position 56.\<close>

definition position :: "SHA1_CTX \<Rightarrow> nat" where
  "position ctx = unat (ctx_count0 ctx) div 8 mod 64"

definition missing :: "SHA1_CTX \<Rightarrow> nat" where
  "missing ctx = (120 - position ctx) mod 64"

lemma and_504: "unat ((c :: u32) AND 504) = 8 * (unat c div 8 mod 64)"
proof -
  have e: "(504 :: int) = push_bit 3 (mask 6)" by (simp add: mask_eq_exp_minus_1)
  have b: "bit (504 :: int) n \<longleftrightarrow> 3 \<le> n \<and> n < 9" for n
    unfolding e bit_push_bit_iff bit_mask_iff by auto
  have c: "c AND 504 = push_bit 3 (take_bit 6 (drop_bit 3 c))"
    by (rule bit_word_eqI) (auto simp: bit_simps b)
  have l: "unat c div 8 mod 64 < 64" by simp
  have "unat (take_bit 6 (drop_bit 3 c)) = unat c div 8 mod 64"
    unfolding unsigned_take_bit_eq unat_drop_bit_div unfolding take_bit_eq_mod by simp
  then show ?thesis
    unfolding c unsigned_push_bit_eq using l by (simp add: push_bit_eq_mult take_bit_nat_eq_self)
qed

lemma ucast_nat: "ucast (of_nat n :: u64) = (of_nat n :: u32)"
  by (rule bit_word_eqI) (simp add: bit_simps)

lemma ucast_bits: "ucast (of_nat (len * 8) :: u64) = (of_nat (8 * len) :: u32)"
  by (simp only: ucast_nat mult.commute [of len 8])

lemma update_count0: "ctx_count0 (sat_SHA1_Update ctx d) = ctx_count0 ctx + of_nat (8 * length d)"
  unfolding sat_SHA1_Update_def add_count_def Let_def prod.case ucast_bits
  by (simp split: prod.split)

lemma mod_div_mod: "(x :: nat) mod 2 ^ 32 div 8 mod 64 = x div 8 mod 64"
proof -
  have "take_bit 6 (drop_bit 3 (take_bit 32 x)) = take_bit 6 (drop_bit 3 x)"
    by (rule bit_eqI) (auto simp: bit_simps)
  then show ?thesis by (simp add: take_bit_eq_mod drop_bit_eq_div)
qed

lemma position_step: "position (sat_SHA1_Update ctx [b]) = (position ctx + 1) mod 64"
proof -
  let ?c = "unat (ctx_count0 ctx)"
  have "unat (ctx_count0 ctx + 8) = (?c + 8) mod 2 ^ 32" by (simp add: unat_word_ariths(1))
  then have "position (sat_SHA1_Update ctx [b]) = (?c + 8) div 8 mod 64"
    using mod_div_mod [of "?c + 8"] by (simp add: position_def update_count0)
  also have "(?c + 8) div 8 = ?c div 8 + 1" by simp
  finally show ?thesis by (simp add: position_def mod_Suc_eq)
qed

lemma sub_mod_64: "p < 64 \<Longrightarrow> (120 - p) mod 64 = (if p \<le> 56 then 56 - p else 120 - (p :: nat))"
  by (simp add: le_mod_geq)

lemma missing_step:
  assumes "position ctx \<noteq> 56"
  shows "missing ctx = Suc (missing (sat_SHA1_Update ctx [b]))"
proof -
  have p: "position ctx < 64" by (simp add: position_def)
  show ?thesis
  proof (cases "position ctx = 63")
    case True
    then show ?thesis unfolding missing_def position_step by simp
  next
    case False
    then have "(position ctx + 1) mod 64 = position ctx + 1" "position ctx + 1 < 64" using p by simp_all
    then show ?thesis using assms p sub_mod_64 [of "position ctx"] sub_mod_64 [of "position ctx + 1"]
      unfolding missing_def position_step by (simp only:) auto
  qed
qed

function pad_loop :: "SHA1_CTX \<Rightarrow> SHA1_CTX" where
  "pad_loop ctx =
     (if ctx_count0 ctx AND 504 \<noteq> 448 then pad_loop (sat_SHA1_Update ctx [0]) else ctx)"
  by pat_completeness auto
termination
proof (relation "measure missing")
  fix ctx :: SHA1_CTX assume "ctx_count0 ctx AND 504 \<noteq> 448"
  then have "position ctx \<noteq> 56" unfolding word_unat_eq_iff and_504 position_def by simp
  then show "(sat_SHA1_Update ctx [0], ctx) \<in> measure missing" by (simp add: missing_step [of ctx 0])
qed simp

declare pad_loop.simps [simp del]

definition byte_at :: "u32 \<Rightarrow> nat \<Rightarrow> u8" where
  "byte_at w i = ucast (drop_bit ((3 - i mod 4) * 8) w AND 255)"

definition sat_SHA1_Final :: "SHA1_CTX \<Rightarrow> bytes" where
  "sat_SHA1_Final ctx = (
     let finalcount = map (\<lambda>i. byte_at (if i \<ge> 4 then ctx_count0 ctx else ctx_count1 ctx) i) [0..<8];
         ctx = sat_SHA1_Update ctx [0x80];
         ctx = pad_loop ctx;
         ctx = sat_SHA1_Update ctx finalcount;
         (s0, s1, s2, s3, s4) = ctx_state ctx
     in map (\<lambda>i. byte_at ([s0, s1, s2, s3, s4] ! (i div 4)) i) [0..<20])"

definition lsha1 :: "bytes \<Rightarrow> bytes" where
  "lsha1 d = sat_SHA1_Final (sat_SHA1_Update sat_SHA1_Init d)"

section \<open>HMAC\<close>

definition BLOCKSIZE :: nat where
  "BLOCKSIZE = 64"

definition xor_key :: "bytes \<Rightarrow> u32 \<Rightarrow> bytes" where
  "xor_key key x = map (\<lambda>i. key ! i XOR ucast (drop_bit (8 * (i mod 4)) x)) [0..<BLOCKSIZE]"

definition lhmac_sha1 :: "bytes \<Rightarrow> bytes \<Rightarrow> bytes" where
  "lhmac_sha1 key msg = (
     let rkey = replicate BLOCKSIZE 0;
         rkey = (if length key > BLOCKSIZE then copy_at rkey 0 (sat_SHA1_Final (sat_SHA1_Update sat_SHA1_Init key))
                 else copy_at rkey 0 key);
         rkey = xor_key rkey 0x5c5c5c5c;
         ctx1 = sat_SHA1_Update sat_SHA1_Init rkey;
         rkey = xor_key rkey (0x5c5c5c5c XOR 0x36363636);
         ctx2 = sat_SHA1_Update sat_SHA1_Init rkey;
         ctx2 = sat_SHA1_Update ctx2 msg;
         digest2 = sat_SHA1_Final ctx2;
         ctx1 = sat_SHA1_Update ctx1 digest2
     in sat_SHA1_Final ctx1)"

section \<open>The context holds the bytes so far\<close>

lemma transform_loop_short: "length d < 64 \<Longrightarrow> transform_loop st d = (st, d)"
  by (simp add: transform_loop.simps)

lemma transform_loop_step:
  "64 \<le> length d \<Longrightarrow> transform_loop st d = transform_loop (SHA1_Transform st (take 64 d)) (drop 64 d)"
  by (subst transform_loop.simps) simp

lemma transform_loop_append:
  "transform_loop st (m @ d)
    = transform_loop (fst (transform_loop st m)) (snd (transform_loop st m) @ d)"
proof (induction st m rule: transform_loop.induct)
  case (1 st m)
  show ?case
  proof (cases "63 < length m")
    case True
    then show ?thesis
      using 1 by (simp add: transform_loop_step [of m] transform_loop_step [of "m @ d"])
  next
    case False
    then show ?thesis by (simp add: transform_loop_short)
  qed
qed

lemma length_rest: "length (snd (transform_loop st m)) = length m mod 64"
proof (induction st m rule: transform_loop.induct)
  case (1 st m)
  show ?case
  proof (cases "63 < length m")
    case True
    then show ?thesis using 1 by (simp add: transform_loop_step [of m] le_mod_geq)
  next
    case False
    then show ?thesis by (simp add: transform_loop_short)
  qed
qed

definition sha_init :: sha_regs where
  "sha_init = (0x67452301, 0xEFCDAB89, 0x98BADCFE, 0x10325476, 0xC3D2E1F0)"

definition holds :: "SHA1_CTX \<Rightarrow> bytes \<Rightarrow> bool" where
  "holds ctx m \<longleftrightarrow>
     ctx_state ctx = fst (transform_loop sha_init m)
     \<and> take (length m mod 64) (ctx_buffer ctx) = snd (transform_loop sha_init m)
     \<and> length (ctx_buffer ctx) = 64
     \<and> ctx_count0 ctx = of_nat (8 * length m) \<and> ctx_count1 ctx = of_nat (8 * length m div 2 ^ 32)"

lemma holds_init: "holds sat_SHA1_Init []"
  by (simp add: holds_def sat_SHA1_Init_def transform_loop_short sha_init_def)

lemma carry_div:
  assumes "y < b"
  shows "(x + y) div b = x div b + (if (x + y) mod b < y then 1 else (0 :: nat))"
proof -
  define r where "r = x mod b"
  have r: "r < b" using assms by (simp add: r_def)
  have x: "x = b * (x div b) + r" by (simp add: r_def)
  have "x + y = b * (x div b) + (r + y)" using x by simp
  then have d: "(x + y) div b = x div b + (r + y) div b" "(x + y) mod b = (r + y) mod b"
    using r by (metis div_mult_self4 gr_implies_not0, metis mod_mult_self4)
  show ?thesis
  proof (cases "r + y < b")
    case True
    then show ?thesis by (simp add: d)
  next
    case False
    then have "(r + y) div b = 1" "(r + y) mod b = r + y - b" "r + y - b < y"
      using r assms by (simp_all add: le_div_geq le_mod_geq)
    then show ?thesis by (simp add: d)
  qed
qed

lemma unat_of_nat32: "unat (of_nat n :: u32) = n mod 2 ^ 32"
  by (simp add: unsigned_of_nat take_bit_eq_mod)

lemma unat_of_nat64: "unat (of_nat n :: u64) = n mod 2 ^ 64"
  by (simp add: unsigned_of_nat take_bit_eq_mod)

lemma add_count_carry:
  "add_count len (of_nat (8 * l)) c1 =
    (of_nat (8 * (l + len)),
     c1 + (if (8 * (l + len)) mod 2 ^ 32 < (len * 8) mod 2 ^ 64 then 1 else 0)
        + ucast (drop_bit 29 (of_nat len :: u64)))"
proof -
  have s: "of_nat (8 * l) + ucast (of_nat (len * 8) :: u64) = (of_nat (8 * (l + len)) :: u32)"
    unfolding ucast_bits by (simp add: algebra_simps)
  have c: "ucast (of_nat (8 * (l + len)) :: u32) < (of_nat (len * 8) :: u64)
      \<longleftrightarrow> (8 * (l + len)) mod 2 ^ 32 < (len * 8) mod 2 ^ 64"
    unfolding word_less_nat_alt unat_of_nat64 using unat_of_nat32 [of "8 * (l + len)"]
    by (subst unat_ucast_up) simp_all
  show ?thesis unfolding add_count_def Let_def s c by simp
qed

lemma add_count_small:
  assumes "len < 2 ^ 29"
  shows "add_count len (of_nat (8 * l)) (of_nat (8 * l div 2 ^ 32))
    = (of_nat (8 * (l + len)), of_nat (8 * (l + len) div 2 ^ 32))"
proof -
  have y: "len * 8 < 2 ^ 32" using assms by simp
  have "drop_bit 29 (of_nat len :: u64) = 0"
    using assms unfolding word_unat_eq_iff unat_drop_bit_div unat_of_nat64 by simp
  moreover have "(len * 8) mod 2 ^ 64 = len * 8" using y by simp
  moreover have "8 * (l + len) = 8 * l + len * 8" by simp
  ultimately show ?thesis
    unfolding add_count_carry by (simp only: carry_div [OF y]) simp
qed

lemma buffer_position: "unat (drop_bit 3 (of_nat (8 * l) :: u32) AND 63) = l mod 64"
proof -
  have "(63 :: u32) = mask 6" by (simp add: mask_eq_exp_minus_1)
  then have "unat (drop_bit 3 (of_nat (8 * l) :: u32) AND 63) = unat (of_nat (8 * l) :: u32) div 8 mod 64"
    by (simp only: unat_and_mask unat_drop_bit_div) simp
  also have "\<dots> = 8 * l div 8 mod 64" unfolding unat_of_nat32 by (rule mod_div_mod)
  finally show ?thesis by simp
qed

lemma holds_update:
  assumes "holds ctx m" "length d < 2 ^ 29"
  shows "holds (sat_SHA1_Update ctx d) (m @ d)"
proof -
  let ?j = "length m mod 64"
  note h = assms(1) [unfolded holds_def]
  obtain st r where t: "transform_loop sha_init m = (st, r)" by fastforce
  have r: "length r = ?j" using length_rest [of sha_init m] by (simp add: t)
  have counts: "add_count (length d) (ctx_count0 ctx) (ctx_count1 ctx)
      = (of_nat (8 * length (m @ d)), of_nat (8 * length (m @ d) div 2 ^ 32))"
    using add_count_small [OF assms(2), of "length m"] h by simp
  have j: "unat (drop_bit 3 (ctx_count0 ctx) AND 63) = ?j" using h buffer_position by simp
  have app: "transform_loop sha_init (m @ d) = transform_loop st (r @ d)"
    unfolding transform_loop_append [of sha_init m d] t by simp
  show ?thesis
  proof (cases "?j + length d > 63")
    case True
    define buf where "buf = copy_at (ctx_buffer ctx) ?j (take (64 - ?j) d)"
    have l: "length (take (64 - ?j) d) = 64 - ?j" using True by simp
    have jl: "?j < 64" by simp
    have buf: "buf = take 64 (r @ d)" "length buf = 64"
      using h t r l jl by (simp_all add: buf_def copy_at_def)
    obtain st' rest where t': "transform_loop (SHA1_Transform st buf) (drop (64 - ?j) d) = (st', rest)" by fastforce
    have "transform_loop st (r @ d) = (st', rest)"
      using transform_loop_step [of "r @ d" st] True r buf(1) t' by simp
    moreover have "length rest = length (m @ d) mod 64"
      using length_rest [of sha_init "m @ d"] app calculation by simp
    moreover have "sat_SHA1_Update ctx d = \<lparr>ctx_state = st', ctx_count0 = of_nat (8 * length (m @ d)),
        ctx_count1 = of_nat (8 * length (m @ d) div 2 ^ 32), ctx_buffer = copy_at buf 0 rest\<rparr>"
      using True h t' t unfolding sat_SHA1_Update_def j counts Let_def prod.case buf_def [symmetric] by simp
    ultimately show ?thesis
      using buf(2) unfolding holds_def app by (simp add: copy_at_def)
  next
    case False
    then have "length (r @ d) < 64" using r by simp
    then have "transform_loop st (r @ d) = (st, r @ d)" by (rule transform_loop_short)
    moreover have "length (m @ d) mod 64 = ?j + length d"
    proof -
      have "(length m + length d) mod 64 = (?j + length d) mod 64" by (rule mod_add_left_eq [symmetric])
      then show ?thesis using False by simp
    qed
    moreover have "sat_SHA1_Update ctx d = \<lparr>ctx_state = st, ctx_count0 = of_nat (8 * length (m @ d)),
        ctx_count1 = of_nat (8 * length (m @ d) div 2 ^ 32), ctx_buffer = copy_at (ctx_buffer ctx) ?j d\<rparr>"
      using False h t unfolding sat_SHA1_Update_def j counts Let_def prod.case by simp
    ultimately show ?thesis
      using False h t r unfolding holds_def app by (simp add: copy_at_def)
  qed
qed

section \<open>Agreement with FIPS 180\<close>

lemma holds_position: "holds ctx m \<Longrightarrow> position ctx = length m mod 64"
  unfolding holds_def position_def unat_of_nat32
  using mod_div_mod [of "8 * length m"] unat_of_nat32 [of "8 * length m"] by simp

lemma pad_loop_zeros:
  "holds ctx m \<Longrightarrow> holds (pad_loop ctx) (m @ replicate ((120 - length m mod 64) mod 64) 0)"
proof (induction ctx arbitrary: m rule: pad_loop.induct)
  case (1 ctx)
  have c: "ctx_count0 ctx AND 504 \<noteq> 448 \<longleftrightarrow> position ctx \<noteq> 56"
    unfolding word_unat_eq_iff and_504 position_def by simp
  have m: "missing ctx = (120 - length m mod 64) mod 64"
    by (simp add: missing_def holds_position [OF 1(2)])
  show ?case
  proof (cases "position ctx = 56")
    case True
    then have "missing ctx = 0" by (simp add: missing_def)
    then show ?thesis using 1(2) c True m by (simp add: pad_loop.simps [of ctx])
  next
    case False
    let ?ctx = "sat_SHA1_Update ctx [0]"
    have h: "holds ?ctx (m @ [0])" by (rule holds_update [OF 1(2)]) simp
    have "missing ?ctx = (120 - length (m @ [0]) mod 64) mod 64"
      unfolding missing_def holds_position [OF h] ..
    then have "(120 - length m mod 64) mod 64 = Suc ((120 - length (m @ [0 :: u8]) mod 64) mod 64)"
      using missing_step [OF False, of 0] m by simp
    moreover have "pad_loop ctx = pad_loop ?ctx" using False c by (simp add: pad_loop.simps [of ctx])
    ultimately show ?thesis using 1(1) [OF _ h] False c by simp
  qed
qed

text \<open>The big-endian bytes of a word.\<close>

definition put_be32 :: "u32 \<Rightarrow> bytes" where
  "put_be32 w = [ucast (drop_bit 24 w), ucast (drop_bit 16 w), ucast (drop_bit 8 w), ucast w]"

definition get_be32 :: "bytes \<Rightarrow> nat \<Rightarrow> u32" where
  "get_be32 b i =
     push_bit 24 (ucast (b ! i)) OR push_bit 16 (ucast (b ! (i + 1))) OR
     push_bit 8 (ucast (b ! (i + 2))) OR ucast (b ! (i + 3))"

text \<open>
  The padding of FIPS 180: the bit 1, the fewest zeros, and the length in bits in 64 bits.
\<close>

definition fips_pad :: "bytes \<Rightarrow> bytes" where
  "fips_pad m = m @ [0x80] @ replicate ((120 - (length m + 1) mod 64) mod 64) 0
     @ put_be32 (of_nat (8 * length m div 2 ^ 32)) @ put_be32 (of_nat (8 * length m))"

text \<open>The compression function of FIPS 180, with the message schedule W as a recurrence.\<close>

fun fips_W :: "bytes \<Rightarrow> nat \<Rightarrow> u32" where
  "fips_W b t =
     (if t < 16 then get_be32 b (4 * t)
      else rol (fips_W b (t - 3) XOR fips_W b (t - 8) XOR fips_W b (t - 14) XOR fips_W b (t - 16)) 1)"

declare fips_W.simps [simp del]

definition fips_f :: "nat \<Rightarrow> u32 \<Rightarrow> u32 \<Rightarrow> u32 \<Rightarrow> u32" where
  "fips_f t b c d =
     (if t < 20 then (b AND c) OR (NOT b AND d)
      else if t < 40 then b XOR c XOR d
      else if t < 60 then (b AND c) OR (b AND d) OR (c AND d)
      else b XOR c XOR d)"

fun fips_step :: "bytes \<Rightarrow> nat \<Rightarrow> sha_regs \<Rightarrow> sha_regs" where
  "fips_step buf t (a, b, c, d, e) =
     (rol a 5 + fips_f t b c d + e + fips_W buf t + sha_k t, a, rol b 30, c, d)"

definition fips_block :: "sha_regs \<Rightarrow> bytes \<Rightarrow> sha_regs" where
  "fips_block st buf = add_regs st (fold (fips_step buf) [0..<80] st)"

fun fips_blocks :: "sha_regs \<Rightarrow> nat \<Rightarrow> bytes \<Rightarrow> sha_regs" where
  "fips_blocks st 0 m = st"
| "fips_blocks st (Suc n) m = fips_blocks (fips_block st (take 64 m)) n (drop 64 m)"

definition fips_sha1 :: "bytes \<Rightarrow> bytes" where
  "fips_sha1 m = (case fips_blocks sha_init (length (fips_pad m) div 64) (fips_pad m) of
     (s0, s1, s2, s3, s4) \<Rightarrow> put_be32 s0 @ put_be32 s1 @ put_be32 s2 @ put_be32 s3 @ put_be32 s4)"

lemma sha_f_fips: "sha_f t b c d = fips_f t b c d"
  unfolding sha_f_def fips_f_def by (auto intro!: bit_word_eqI simp: bit_simps)

lemma bit_swap_masks:
  "bit (0xFF00FF00 :: int) n \<longleftrightarrow> (8 \<le> n \<and> n < 16) \<or> (24 \<le> n \<and> n < 32)"
  "bit (0x00FF00FF :: int) n \<longleftrightarrow> n < 8 \<or> (16 \<le> n \<and> n < 24)"
proof -
  have e: "(0xFF00FF00 :: int) = push_bit 8 (mask 8) OR push_bit 24 (mask 8)"
    "(0x00FF00FF :: int) = mask 8 OR push_bit 16 (mask 8)"
    by (simp_all add: mask_eq_exp_minus_1)
  show "bit (0xFF00FF00 :: int) n \<longleftrightarrow> (8 \<le> n \<and> n < 16) \<or> (24 \<le> n \<and> n < 32)"
    unfolding e bit_or_iff bit_push_bit_iff bit_mask_iff by auto
  show "bit (0x00FF00FF :: int) n \<longleftrightarrow> n < 8 \<or> (16 \<le> n \<and> n < 24)"
    unfolding e bit_or_iff bit_push_bit_iff bit_mask_iff by auto
qed

text \<open>The byte swap blk0 reads a big-endian word.\<close>

lemma swap_word: "(rol (get_le32 b i) 24 AND 0xFF00FF00) OR (rol (get_le32 b i) 8 AND 0x00FF00FF) = get_be32 b i"
proof (rule bit_word_eqI)
  fix n assume "n < LENGTH(32)"
  then consider "n < 8" | "8 \<le> n" "n < 16" | "16 \<le> n" "n < 24" | "24 \<le> n" "n < 32" by fastforce
  then show "bit ((rol (get_le32 b i) 24 AND 0xFF00FF00) OR (rol (get_le32 b i) 8 AND 0x00FF00FF)) n
      = bit (get_be32 b i) n"
    by cases (auto simp: rol_def get_le32_def get_be32_def bit_simps bit_swap_masks u8_bit)
qed

text \<open>
  After \<open>t\<close> rounds, the circular block holds the last sixteen words of the schedule, and before
  the sixteenth round the words of the message that were not read yet.
\<close>

definition schedule_inv :: "bytes \<Rightarrow> nat \<Rightarrow> u32 list \<Rightarrow> bool" where
  "schedule_inv b t l \<longleftrightarrow> length l = 16
     \<and> (\<forall>s < t. t \<le> s + 16 \<longrightarrow> l ! (s mod 16) = fips_W b s)
     \<and> (\<forall>s < 16. t \<le> s \<longrightarrow> l ! s = get_le32 b (4 * s))"

lemma schedule_step:
  assumes "schedule_inv b t l"
  shows "(if t < 16 then blk0 l t else blk l t) = fips_W b t"
    and "schedule_inv b (Suc t) (l[t mod 16 := fips_W b t])"
proof -
  note inv = assms [unfolded schedule_inv_def]
  show "(if t < 16 then blk0 l t else blk l t) = fips_W b t"
  proof (cases "t < 16")
    case True
    then show ?thesis
      using inv by (simp add: blk0_def fips_W.simps [of b t] swap_word)
  next
    case False
    then have "t + 13 = (t - 3) + 16" "t + 8 = (t - 8) + 16" "t + 2 = (t - 14) + 16" "t = (t - 16) + 16"
      by simp_all
    then have "(t + 13) mod 16 = (t - 3) mod 16" "(t + 8) mod 16 = (t - 8) mod 16"
      "(t + 2) mod 16 = (t - 14) mod 16" "t mod 16 = (t - 16) mod 16"
      using mod_add_self2 by metis+
    moreover have "l ! ((t - k) mod 16) = fips_W b (t - k)" if "0 < k" "k \<le> 16" for k
      using inv that False by auto
    ultimately show ?thesis using False by (simp add: blk_def fips_W.simps [of b t])
  qed
  have ne: "s mod 16 \<noteq> t mod 16" if "s < t" "t < s + 16" for s
  proof
    assume "s mod 16 = t mod 16"
    then have "16 dvd t - s" using that(1) by (metis less_imp_le_nat mod_eq_dvd_iff_nat)
    then show False using that by (auto dest: dvd_imp_le)
  qed
  then show "schedule_inv b (Suc t) (l[t mod 16 := fips_W b t])"
    unfolding schedule_inv_def
  proof (intro conjI allI impI)
    show "length (l[t mod 16 := fips_W b t]) = 16" using inv by simp
    fix s
    show "l[t mod 16 := fips_W b t] ! (s mod 16) = fips_W b s" if "s < Suc t" "Suc t \<le> s + 16"
      using that inv ne [of s] by (cases "s = t") simp_all
    show "l[t mod 16 := fips_W b t] ! s = get_le32 b (4 * s)" if "s < 16" "Suc t \<le> s"
      using that inv by simp
  qed
qed

lemma rounds_fips:
  assumes "schedule_inv b 0 l"
  shows "\<exists>l'. fold sha_round [0..<t] (st, l) = (fold (fips_step b) [0..<t] st, l') \<and> schedule_inv b t l'"
proof (induction t)
  case 0
  then show ?case using assms by simp
next
  case (Suc t)
  then obtain l' where l': "fold sha_round [0..<t] (st, l) = (fold (fips_step b) [0..<t] st, l')"
    "schedule_inv b t l'" by blast
  obtain v w x y z where r: "fold (fips_step b) [0..<t] st = (v, w, x, y, z)"
    by (cases "fold (fips_step b) [0..<t] st") auto
  show ?case
    using schedule_step [OF l'(2)] l'(1)
    by (simp add: r Let_def sha_f_fips algebra_simps)
qed

lemma SHA1_Transform_fips:
  assumes "length b = 64"
  shows "SHA1_Transform st b = fips_block st b"
proof -
  have "schedule_inv b 0 (map (\<lambda>i. get_le32 b (4 * i)) [0..<16])"
    by (simp add: schedule_inv_def)
  from rounds_fips [OF this, of 80 st] show ?thesis
    by (auto simp: SHA1_Transform_def fips_block_def Let_def)
qed

lemma transform_loop_fips:
  "length m mod 64 = 0 \<Longrightarrow> fst (transform_loop st m) = fips_blocks st (length m div 64) m"
proof (induction st m rule: transform_loop.induct)
  case (1 st m)
  show ?case
  proof (cases "63 < length m")
    case True
    then have d: "length m div 64 = Suc (length (drop 64 m) div 64)" "length (drop 64 m) mod 64 = 0"
      using 1(2) by (simp_all add: le_div_geq le_mod_geq)
    show ?thesis
      using True 1(1) [OF True d(2)] unfolding d(1)
      by (simp add: transform_loop_step [of m] SHA1_Transform_fips)
  next
    case False
    then show ?thesis using 1(2) by (simp add: transform_loop_short)
  qed
qed

lemma ucast_and_255: "ucast (x AND 255 :: u32) = (ucast x :: u8)"
  by (rule bit_word_eqI) (simp add: bit_simps bit_masks)

lemma digest_bytes:
  "map (\<lambda>i. byte_at ([s0, s1, s2, s3, s4] ! (i div 4)) i) [0..<20]
    = put_be32 s0 @ put_be32 s1 @ put_be32 s2 @ put_be32 s3 @ put_be32 s4"
proof -
  have "[0..<20] = [0, 1, 2, 3, 4, 5, 6, 7, 8, 9, 10, 11, 12, 13, 14, 15, 16, 17, 18, 19]" by (simp add: upt_rec)
  then show ?thesis by (simp add: byte_at_def put_be32_def ucast_and_255)
qed

lemma finalcount_bytes:
  "map (\<lambda>i. byte_at (if i \<ge> 4 then c0 else c1) i) [0..<8] = put_be32 c1 @ put_be32 c0"
proof -
  have "[0..<8] = [0, 1, 2, 3, 4, 5, 6, 7]" by (simp add: upt_rec)
  then show ?thesis by (simp add: byte_at_def put_be32_def ucast_and_255)
qed

lemma length_fips_pad: "length (fips_pad m) mod 64 = 0"
proof -
  have "(n + (120 - n mod 64) mod 64 + 8) mod 64 = 0" for n :: nat
  proof -
    have "n mod 64 < 64" by simp
    then have "(n mod 64 + ((120 - n mod 64) mod 64 + 8)) mod 64 = 0" by (simp add: sub_mod_64)
    then show ?thesis unfolding mod_add_left_eq by (simp only: add.assoc)
  qed
  from this [of "length m + 1"] show ?thesis by (simp add: fips_pad_def put_be32_def algebra_simps)
qed

lemma final_fips:
  assumes "holds ctx m"
  shows "sat_SHA1_Final ctx = fips_sha1 m"
proof -
  let ?fc = "put_be32 (of_nat (8 * length m div 2 ^ 32)) @ put_be32 (of_nat (8 * length m))"
  have fc: "map (\<lambda>i. byte_at (if i \<ge> 4 then ctx_count0 ctx else ctx_count1 ctx) i) [0..<8] = ?fc"
    unfolding finalcount_bytes using assms by (simp add: holds_def)
  let ?ctx = "sat_SHA1_Update (pad_loop (sat_SHA1_Update ctx [0x80])) ?fc"
  have "holds (sat_SHA1_Update ctx [0x80]) (m @ [0x80])" by (rule holds_update [OF assms]) simp
  from pad_loop_zeros [OF this] have
    "holds (pad_loop (sat_SHA1_Update ctx [0x80]))
       ((m @ [0x80]) @ replicate ((120 - length (m @ [0x80 :: u8]) mod 64) mod 64) 0)" .
  from holds_update [OF this, of ?fc] have h: "holds ?ctx (fips_pad m)"
    by (simp add: fips_pad_def put_be32_def)
  have st: "ctx_state ?ctx = fips_blocks sha_init (length (fips_pad m) div 64) (fips_pad m)"
    using h transform_loop_fips [OF length_fips_pad] by (simp add: holds_def)
  show ?thesis
    unfolding sat_SHA1_Final_def Let_def fc st fips_sha1_def digest_bytes ..
qed

lemma lsha1_fips: "length m < 2 ^ 29 \<Longrightarrow> lsha1 m = fips_sha1 m"
  unfolding lsha1_def using final_fips [OF holds_update [OF holds_init]] by simp

text \<open>
  C35: for every text shorter than 512 MB, sha1 computes the hash of FIPS 180: the context that
  buffers the bytes and reuses sixteen words for the schedule is equivalent to padding the
  whole message and folding the compression function of the standard over its blocks.
\<close>

theorem sha1_is_fips: "length m < 2 ^ 29 \<Longrightarrow> lsha1 m = fips_sha1 m"
  by (rule lsha1_fips)

lemma sha1_is_fips_witness: "lsha1 [97, 98, 99] = fips_sha1 [97, 98, 99]"
  by (rule sha1_is_fips) simp

text \<open>
  C40: a text of 512 MB or more is counted with one unit of 2^32 bits too many, because the 32-bit
  sum is compared with the 64-bit size of the text.
\<close>

theorem sha1_count_overflow:
  assumes "2 ^ 29 \<le> length m" "length m < 2 ^ 61"
  shows "ctx_count1 (sat_SHA1_Update sat_SHA1_Init m) = of_nat (8 * length m div 2 ^ 32) + 1"
proof -
  have b: "(length m * 8) mod 2 ^ 64 = length m * 8" using assms(2) by simp
  have "(8 * length m) mod 2 ^ 32 < 2 ^ 32" by simp
  also have "2 ^ 32 \<le> length m * 8" using assms(1) by simp
  finally have lt: "(8 * (0 + length m)) mod 2 ^ 32 < (length m * 8) mod 2 ^ 64" unfolding b add_0 .
  have "drop_bit 29 (of_nat (length m) :: u64) = of_nat (length m div 2 ^ 29)"
    unfolding word_unat_eq_iff unat_drop_bit_div unat_of_nat64 using assms(2)
    by (simp add: div_less_dividend)
  moreover have "8 * length m div 2 ^ 32 = length m div 2 ^ 29" by simp
  ultimately have "add_count (length m) (of_nat (8 * 0)) 0
      = (of_nat (8 * (0 + length m)), of_nat (8 * length m div 2 ^ 32) + 1)"
    unfolding add_count_carry if_P [OF lt] by (simp only: ucast_nat) simp
  then show ?thesis
    unfolding sat_SHA1_Update_def sat_SHA1_Init_def by (simp add: Let_def split: prod.split)
qed

lemma sha1_count_overflow_witness:
  "ctx_count1 (sat_SHA1_Update sat_SHA1_Init (replicate (2 ^ 29) 0)) = of_nat (8 * 2 ^ 29 div 2 ^ 32) + 1"
  using sha1_count_overflow [of "replicate (2 ^ 29) 0"] unfolding length_replicate by simp

section \<open>Agreement with RFC 2104\<close>

definition rfc_key :: "bytes \<Rightarrow> bytes" where
  "rfc_key key = (let k = (if length key > 64 then fips_sha1 key else key) in k @ replicate (64 - length k) 0)"

definition rfc_hmac_sha1 :: "bytes \<Rightarrow> bytes \<Rightarrow> bytes" where
  "rfc_hmac_sha1 key m =
     fips_sha1 (map (\<lambda>k. k XOR 0x5c) (rfc_key key)
       @ fips_sha1 (map (\<lambda>k. k XOR 0x36) (rfc_key key) @ m))"

lemma xor_key_map:
  assumes "length key = 64" "\<And>i. i < 4 \<Longrightarrow> ucast (drop_bit (8 * i) x) = c"
  shows "xor_key key x = map (\<lambda>k. k XOR c) key"
proof (rule nth_equalityI)
  fix i assume "i < length (xor_key key x)"
  then show "xor_key key x ! i = map (\<lambda>k. k XOR c) key ! i"
    using assms(1) assms(2) [of "i mod 4"] by (simp add: xor_key_def BLOCKSIZE_def)
qed (simp add: xor_key_def BLOCKSIZE_def assms(1))

lemma less_4: "i < 4 \<longleftrightarrow> i = 0 \<or> i = 1 \<or> i = 2 \<or> i = (3 :: nat)"
  by auto

lemma length_fips_sha1: "length (fips_sha1 m) = 20"
  by (simp add: fips_sha1_def put_be32_def split: prod.split)

text \<open>
  C36: for a key and a text shorter than 512 MB, hmac\_sha1 is the HMAC of RFC 2104 over SHA-1,
  whether or not the key is longer than a block.
\<close>

theorem hmac_sha1_is_rfc2104:
  assumes "length key < 2 ^ 29" "length m < 2 ^ 29"
  shows "lhmac_sha1 key m = rfc_hmac_sha1 key m"
proof -
  define k where "k = (if length key > BLOCKSIZE then copy_at (replicate BLOCKSIZE 0) 0 (sat_SHA1_Final (sat_SHA1_Update sat_SHA1_Init key))
                 else copy_at (replicate BLOCKSIZE 0) 0 key)"
  have k: "k = rfc_key key" "length k = 64"
    using lsha1_fips [OF assms(1)] length_fips_sha1 [of key]
    by (auto simp: k_def rfc_key_def copy_at_def BLOCKSIZE_def lsha1_def Let_def)
  have o: "xor_key k 0x5c5c5c5c = map (\<lambda>b. b XOR 0x5c) k"
    by (rule xor_key_map [OF k(2)]) (auto simp: less_4)
  have i: "xor_key (map (\<lambda>b. b XOR 0x5c) k) (0x5c5c5c5c XOR 0x36363636) = map (\<lambda>b. b XOR 0x36) k"
  proof -
    have "i = 0 \<or> i = 1 \<or> i = 2 \<or> i = 3 \<Longrightarrow> ucast (drop_bit (8 * i) (0x5c5c5c5c XOR 0x36363636 :: u32)) = (0x6a :: u8)"
      for i :: nat by (elim disjE) simp_all
    then have "xor_key (map (\<lambda>b. b XOR 0x5c) k) (0x5c5c5c5c XOR 0x36363636)
        = map (\<lambda>b. b XOR 0x6a) (map (\<lambda>b. b XOR 0x5c) k)"
      using k(2) unfolding less_4 [symmetric] by (intro xor_key_map) simp_all
    then show ?thesis by (simp add: comp_def xor.assoc)
  qed
  have "holds (sat_SHA1_Update sat_SHA1_Init (map (\<lambda>b. b XOR 0x36) k)) (map (\<lambda>b. b XOR 0x36) k)"
    using holds_update [OF holds_init, of "map (\<lambda>b. b XOR 0x36) k"] k(2) by simp
  then have inner: "sat_SHA1_Final (sat_SHA1_Update (sat_SHA1_Update sat_SHA1_Init (map (\<lambda>b. b XOR 0x36) k)) m)
      = fips_sha1 (map (\<lambda>b. b XOR 0x36) k @ m)"
    by (rule final_fips [OF holds_update [OF _ assms(2)]])
  have "holds (sat_SHA1_Update sat_SHA1_Init (map (\<lambda>b. b XOR 0x5c) k)) (map (\<lambda>b. b XOR 0x5c) k)"
    using holds_update [OF holds_init, of "map (\<lambda>b. b XOR 0x5c) k"] k(2) by simp
  then have outer: "sat_SHA1_Final (sat_SHA1_Update (sat_SHA1_Update sat_SHA1_Init (map (\<lambda>b. b XOR 0x5c) k)) d)
      = fips_sha1 (map (\<lambda>b. b XOR 0x5c) k @ d)" if "length d = 20" for d
    using that by (intro final_fips [OF holds_update]) simp_all
  show ?thesis
    unfolding lhmac_sha1_def Let_def k_def [symmetric] o i inner rfc_hmac_sha1_def k(1) [symmetric]
    by (rule outer [OF length_fips_sha1])
qed

lemma hmac_sha1_is_rfc2104_witness: "lhmac_sha1 [107, 101, 121] [97] = rfc_hmac_sha1 [107, 101, 121] [97]"
  by (rule hmac_sha1_is_rfc2104) simp_all

end
