(* ===== verification/Server.thy ===== *)
theory Server
  imports Mq Timer Handle CString
begin

text \<open>
  skynet-src/skynet\_server.c with the parts of the node it ties together: the contexts and their
  reference counts, launching and dispatching, sending local and remote messages, and the text
  commands; skynet\_error.c, skynet\_env.c, skynet\_harbor.c, skynet\_monitor.c and skynet\_log.c.

  One thread runs one function at a time; the interleavings of the queue operations are the
  subject of the theory Sched. The functions of a dynamically loaded module and the callback it
  installs are parameters, as are the clock of the thread and fopen. A failed assert and an
  access to freed memory or through a null pointer are None. The length of a text is below 2 GB.
\<close>

section \<open>State\<close>

record skynet_context =
  c_mod :: nat
  c_instance :: nat
  c_cb :: "nat option"
  c_queue :: nat
  c_logfile :: bool
  c_cpu_cost :: u64
  c_cpu_start :: u64
  c_result :: bytes
  c_handle :: u32
  c_session_id :: int
  c_ref :: int
  c_message_count :: int
  c_init :: bool
  c_endless :: bool
  c_profile :: bool

text \<open>What is written to the log files of the services.\<close>

datatype file_op =
    LogOpened nat u32
  | LogClosed nat u32
  | LogOutput nat u32 int int payload u64

text \<open>
  The state of the node: the contexts by address, the components, \<open>G_NODE\<close>, the logger that
  \<open>skynet_error\<close> remembers, \<open>HARBOR\<close> and \<open>REMOTE\<close>. \<open>n_reads\<close> counts the readings of the clock.
\<close>

record system =
  n_ctx :: "nat \<Rightarrow> skynet_context option"
  n_mq :: mq_store
  n_hs :: handle_storage
  n_timer :: timer
  n_env :: "bytes \<Rightarrow> bytes option"
  n_total :: int
  n_monitor_exit :: u32
  n_profile :: bool
  n_current :: u32
  n_logger :: u32
  n_harbor :: u32
  n_remote :: "nat option"
  n_reads :: nat
  n_files :: "file_op list"

text \<open>The module functions, the callback by its user data, fopen and the clock of the thread.\<close>

record host =
  module_query :: "bytes \<Rightarrow> nat option"
  module_instance_create :: "nat \<Rightarrow> nat option"
  module_instance_init :: "nat \<Rightarrow> nat \<Rightarrow> nat \<Rightarrow> bytes option \<Rightarrow> system \<Rightarrow> (int \<times> system) option"
  module_instance_release :: "nat \<Rightarrow> nat \<Rightarrow> system \<Rightarrow> system option"
  module_instance_signal :: "nat \<Rightarrow> nat \<Rightarrow> int \<Rightarrow> system \<Rightarrow> system option"
  callback :: "nat \<Rightarrow> nat \<Rightarrow> int \<Rightarrow> int \<Rightarrow> u32 \<Rightarrow> payload \<Rightarrow> u64 \<Rightarrow> system \<Rightarrow> (bool \<times> system) option"
  thread_time :: "nat \<Rightarrow> u64"
  file_opens :: "bytes \<Rightarrow> bool"

definition handles_of :: "system \<Rightarrow> nat \<Rightarrow> u32" where
  "handles_of s a = (case n_ctx s a of Some c \<Rightarrow> c_handle c | None \<Rightarrow> 0)"

definition upd_ctx :: "nat \<Rightarrow> (skynet_context \<Rightarrow> skynet_context) \<Rightarrow> system \<Rightarrow> system option" where
  "upd_ctx a f s = do { c \<leftarrow> n_ctx s a; Some (s\<lparr>n_ctx := (n_ctx s)(a \<mapsto> f c)\<rparr>) }"

definition context_inc :: "system \<Rightarrow> system" where "context_inc s = s\<lparr>n_total := n_total s + 1\<rparr>"
definition context_dec :: "system \<Rightarrow> system" where "context_dec s = s\<lparr>n_total := n_total s - 1\<rparr>"
definition skynet_context_total :: "system \<Rightarrow> int" where "skynet_context_total s = n_total s"

section \<open>Constants\<close>

definition GLOBALNAME_LENGTH :: nat where "GLOBALNAME_LENGTH = 16"

definition type_bits :: "int \<Rightarrow> u64" where
  "type_bits ty = push_bit MESSAGE_TYPE_SHIFT (of_int ty)"

section \<open>References\<close>

definition skynet_context_grab :: "nat \<Rightarrow> system \<Rightarrow> system option" where
  "skynet_context_grab a s = upd_ctx a (\<lambda>c. c\<lparr>c_ref := c_ref c + 1\<rparr>) s"

definition skynet_context_reserve :: "nat \<Rightarrow> system \<Rightarrow> system option" where
  "skynet_context_reserve a s = do { s \<leftarrow> skynet_context_grab a s; Some (context_dec s) }"

definition delete_context :: "host \<Rightarrow> nat \<Rightarrow> system \<Rightarrow> system option" where
  "delete_context W a s = do {
     c \<leftarrow> n_ctx s a;
     s \<leftarrow> module_instance_release W (c_mod c) (c_instance c) s;
     q \<leftarrow> skynet_mq_mark_release (c_queue c) (n_mq s);
     Some (context_dec (s\<lparr>n_mq := q, n_ctx := (n_ctx s)(a := None)\<rparr>))
   }"

text \<open>The first component is the returned pointer: None when the context was deleted.\<close>

definition skynet_context_release :: "host \<Rightarrow> nat \<Rightarrow> system \<Rightarrow> (nat option \<times> system) option" where
  "skynet_context_release W a s = do {
     c \<leftarrow> n_ctx s a;
     s \<leftarrow> upd_ctx a (\<lambda>c. c\<lparr>c_ref := c_ref c - 1\<rparr>) s;
     if c_ref c = 1 then do { s \<leftarrow> delete_context W a s; Some (None, s) }
     else Some (Some a, s)
   }"

text \<open>\<open>skynet_handle_grab\<close> with the reference it takes, under the read lock of the table.\<close>

definition handle_grab :: "u32 \<Rightarrow> system \<Rightarrow> (nat option \<times> system) option" where
  "handle_grab h s = (case skynet_handle_grab (handles_of s) h (n_hs s) of
     None \<Rightarrow> Some (None, s)
   | Some a \<Rightarrow> do { s \<leftarrow> skynet_context_grab a s; Some (Some a, s) })"

text \<open>\<open>skynet_handle_retire\<close> with the release of the reference that the table held.\<close>

definition handle_retire :: "host \<Rightarrow> u32 \<Rightarrow> system \<Rightarrow> system option" where
  "handle_retire W h s = do {
     (r, hs) \<leftarrow> skynet_handle_retire (handles_of s) h (n_hs s);
     let s = s\<lparr>n_hs := hs\<rparr>;
     (case r of None \<Rightarrow> Some s | Some a \<Rightarrow> map_option snd (skynet_context_release W a s))
   }"

section \<open>Sending to a context\<close>

definition mq_push_at :: "nat \<Rightarrow> skynet_message \<Rightarrow> system \<Rightarrow> system option" where
  "mq_push_at a m s = do {
     c \<leftarrow> n_ctx s a;
     q \<leftarrow> skynet_mq_push (c_queue c) m (n_mq s);
     Some (s\<lparr>n_mq := q\<rparr>)
   }"

definition skynet_context_push :: "host \<Rightarrow> u32 \<Rightarrow> skynet_message \<Rightarrow> system \<Rightarrow> (int \<times> system) option" where
  "skynet_context_push W h m s = do {
     (ctx, s) \<leftarrow> handle_grab h s;
     (case ctx of
        None \<Rightarrow> Some (-1, s)
      | Some a \<Rightarrow> do {
          s \<leftarrow> mq_push_at a m s;
          (_, s) \<leftarrow> skynet_context_release W a s;
          Some (0, s)
        })
   }"

definition skynet_context_endless :: "host \<Rightarrow> u32 \<Rightarrow> system \<Rightarrow> system option" where
  "skynet_context_endless W h s = do {
     (ctx, s) \<leftarrow> handle_grab h s;
     (case ctx of
        None \<Rightarrow> Some s
      | Some a \<Rightarrow> do {
          s \<leftarrow> upd_ctx a (\<lambda>c. c\<lparr>c_endless := True\<rparr>) s;
          map_option snd (skynet_context_release W a s)
        })
   }"

text \<open>The message of \<open>skynet_error\<close>, already formatted; it goes to the service named logger.\<close>

definition skynet_error :: "host \<Rightarrow> nat option \<Rightarrow> bytes \<Rightarrow> system \<Rightarrow> system option" where
  "skynet_error W ctx msg s = do {
     logger \<leftarrow> (if n_logger s = 0 then skynet_handle_findname (bs ''logger'') (n_hs s) else Some (n_logger s));
     let s = s\<lparr>n_logger := logger\<rparr>;
     if logger = 0 then Some s
     else do {
       source \<leftarrow> (case ctx of None \<Rightarrow> Some 0 | Some a \<Rightarrow> map_option c_handle (n_ctx s a));
       let m = \<lparr>msg_source = source, msg_session = 0, msg_data = Bytes (msg @ [0]),
                msg_sz = of_nat (length msg) OR type_bits PTYPE_TEXT\<rparr>;
       map_option snd (skynet_context_push W logger m s)
     }
   }"

text \<open>\<open>++ctx->session_id\<close> in an int that wraps.\<close>

definition skynet_context_newsession :: "nat \<Rightarrow> system \<Rightarrow> (int \<times> system) option" where
  "skynet_context_newsession a s = do {
     c \<leftarrow> n_ctx s a;
     let session = signed_take_bit 31 (c_session_id c + 1);
     if session \<le> 0
     then Some (1, s\<lparr>n_ctx := (n_ctx s)(a \<mapsto> c\<lparr>c_session_id := 1\<rparr>)\<rparr>)
     else Some (session, s\<lparr>n_ctx := (n_ctx s)(a \<mapsto> c\<lparr>c_session_id := session\<rparr>)\<rparr>)
   }"

section \<open>The harbor\<close>

definition skynet_harbor_init :: "int \<Rightarrow> system \<Rightarrow> system" where
  "skynet_harbor_init hb s = s\<lparr>n_harbor := push_bit HANDLE_REMOTE_SHIFT (of_int hb)\<rparr>"

definition invalid_type :: "int \<Rightarrow> bool" where
  "invalid_type ty \<longleftrightarrow> ty \<noteq> PTYPE_SYSTEM \<and> ty \<noteq> PTYPE_HARBOR"

definition skynet_harbor_message_isremote :: "u32 \<Rightarrow> system \<Rightarrow> bool option" where
  "skynet_harbor_message_isremote h s = do {
     c_assert (n_harbor s \<noteq> - 1);
     let hb = h AND NOT HANDLE_MASK;
     Some (hb \<noteq> n_harbor s \<and> hb \<noteq> 0)
   }"

definition skynet_isremote :: "u32 \<Rightarrow> system \<Rightarrow> (bool \<times> int) option" where
  "skynet_isremote h s = do {
     r \<leftarrow> skynet_harbor_message_isremote h s;
     Some (r, sint (drop_bit HANDLE_REMOTE_SHIFT h))
   }"

definition skynet_context_send :: "nat \<Rightarrow> payload \<Rightarrow> u64 \<Rightarrow> u32 \<Rightarrow> int \<Rightarrow> int \<Rightarrow> system \<Rightarrow> system option" where
  "skynet_context_send a d sz source ty session s =
     mq_push_at a \<lparr>msg_source = source, msg_session = session, msg_data = d, msg_sz = sz OR type_bits ty\<rparr> s"

text \<open>A struct \<open>remote_message\<close> takes 48 bytes.\<close>

definition skynet_harbor_send :: "bytes \<Rightarrow> u32 \<Rightarrow> payload \<Rightarrow> u64 \<Rightarrow> int \<Rightarrow> u32 \<Rightarrow> int \<Rightarrow> system \<Rightarrow> system option" where
  "skynet_harbor_send nm h d sz ty source session s = do {
     c_assert (invalid_type ty);
     remote \<leftarrow> n_remote s;
     skynet_context_send remote (Remote nm h d sz ty) 48 source PTYPE_SYSTEM session s
   }"

definition skynet_harbor_start :: "nat \<Rightarrow> system \<Rightarrow> system option" where
  "skynet_harbor_start a s = do { s \<leftarrow> skynet_context_reserve a s; Some (s\<lparr>n_remote := Some a\<rparr>) }"

definition skynet_harbor_exit :: "host \<Rightarrow> system \<Rightarrow> system option" where
  "skynet_harbor_exit W s = (case n_remote s of
     None \<Rightarrow> Some s
   | Some a \<Rightarrow> map_option snd (skynet_context_release W a (s\<lparr>n_remote := None\<rparr>)))"

section \<open>skynet\_send\<close>

definition filter_args :: "nat option \<Rightarrow> int \<Rightarrow> int \<Rightarrow> payload \<Rightarrow> u64 \<Rightarrow> system \<Rightarrow>
    ((int \<times> payload \<times> u64) \<times> system) option" where
  "filter_args ctx ty session d sz s = do {
     (session, s) \<leftarrow>
       (if ty AND PTYPE_TAG_ALLOCSESSION \<noteq> 0 then do {
          c_assert (session = 0);
          a \<leftarrow> ctx;
          skynet_context_newsession a s
        } else Some (session, s));
     d \<leftarrow>
       (if ty AND PTYPE_TAG_DONTCOPY = 0 then
          (case d of
             NullData \<Rightarrow> Some NullData
           | Bytes b \<Rightarrow> if unat sz \<le> length b then Some (Bytes (take (unat sz) b @ [0])) else None
           | Remote _ _ _ _ _ \<Rightarrow> None
           | SocketMsg _ _ _ _ _ \<Rightarrow> None)
        else Some d);
     Some ((session, d, sz OR type_bits (ty AND 0xff)), s)
   }"

definition text_hex :: "u32 \<Rightarrow> bytes" where "text_hex h = show_hex (unat h)"

definition skynet_send :: "host \<Rightarrow> nat option \<Rightarrow> u32 \<Rightarrow> u32 \<Rightarrow> int \<Rightarrow> int \<Rightarrow> payload \<Rightarrow> u64 \<Rightarrow>
    system \<Rightarrow> (int \<times> system) option" where
  "skynet_send W ctx source destination ty session d sz s =
     (if sz AND MESSAGE_TYPE_MASK \<noteq> sz then do {
        s \<leftarrow> skynet_error W ctx (bs ''The message to '' @ text_hex destination @ bs '' is too large'') s;
        Some (-2, s)
      } else do {
        ((session, d, sz), s) \<leftarrow> filter_args ctx ty session d sz s;
        source \<leftarrow> (if source = 0 then do { a \<leftarrow> ctx; map_option c_handle (n_ctx s a) } else Some source);
        if destination = 0 then
          if d \<noteq> NullData then do {
            s \<leftarrow> skynet_error W ctx (bs ''Destination address can'' @ [39] @ bs ''t be 0'') s;
            Some (-1, s)
          } else Some (session, s)
        else do {
          remote \<leftarrow> skynet_harbor_message_isremote destination s;
          if remote then do {
            s \<leftarrow> skynet_harbor_send [] destination d (sz AND MESSAGE_TYPE_MASK)
                   (uint (drop_bit MESSAGE_TYPE_SHIFT sz)) source session s;
            Some (session, s)
          } else do {
            (r, s) \<leftarrow> skynet_context_push W destination
                   \<lparr>msg_source = source, msg_session = session, msg_data = d, msg_sz = sz\<rparr> s;
            Some (if r \<noteq> 0 then -1 else session, s)
          }
        }
      })"

definition copy_name :: "bytes \<Rightarrow> bytes" where
  "copy_name addr = (let n = take GLOBALNAME_LENGTH addr in n @ replicate (GLOBALNAME_LENGTH - length n) 0)"

definition too_large :: "host \<Rightarrow> nat option \<Rightarrow> bytes \<Rightarrow> system \<Rightarrow> system option" where
  "too_large W ctx addr s = skynet_error W ctx (bs ''The message to '' @ addr @ bs '' is too large'') s"

definition skynet_sendname :: "host \<Rightarrow> nat \<Rightarrow> u32 \<Rightarrow> bytes \<Rightarrow> int \<Rightarrow> int \<Rightarrow> payload \<Rightarrow> u64 \<Rightarrow>
    system \<Rightarrow> (int \<times> system) option" where
  "skynet_sendname W a source addr ty session d sz s = do {
     source \<leftarrow> (if source = 0 then map_option c_handle (n_ctx s a) else Some source);
     (if addr \<noteq> [] \<and> hd addr = 58 then
        skynet_send W (Some a) source (strtoul16 (tl addr)) ty session d sz s
      else if addr \<noteq> [] \<and> hd addr = 46 then do {
        des \<leftarrow> skynet_handle_findname (tl addr) (n_hs s);
        if des = 0 then Some (-1, s)
        else skynet_send W (Some a) source des ty session d sz s
      } else if sz AND MESSAGE_TYPE_MASK \<noteq> sz then do {
        s \<leftarrow> too_large W (Some a) addr s;
        Some (-2, s)
      } else do {
        ((session, d, sz), s) \<leftarrow> filter_args (Some a) ty session d sz s;
        s \<leftarrow> skynet_harbor_send (copy_name addr) 0 d (sz AND MESSAGE_TYPE_MASK)
               (uint (drop_bit MESSAGE_TYPE_SHIFT sz)) source session s;
        Some (session, s)
      })
   }"

section \<open>Dispatching\<close>

text \<open>\<open>fprintf\<close> to the log file of a service.\<close>

definition context_dispatch :: "host \<Rightarrow> nat \<Rightarrow> skynet_message \<Rightarrow> system \<Rightarrow> system option" where
  "context_dispatch W a m s = do {
     c \<leftarrow> n_ctx s a;
     c_assert (c_init c);
     let s = s\<lparr>n_current := c_handle c\<rparr>;
     let ty = uint (drop_bit MESSAGE_TYPE_SHIFT (msg_sz m));
     let sz = msg_sz m AND MESSAGE_TYPE_MASK;
     let s = (if c_logfile c
              then s\<lparr>n_files := n_files s @ [LogOutput a (msg_source m) ty (msg_session m) (msg_data m) sz]\<rparr>
              else s);
     s \<leftarrow> upd_ctx a (\<lambda>c. c\<lparr>c_message_count := signed_take_bit 31 (c_message_count c + 1)\<rparr>) s;
     ud \<leftarrow> c_cb c;
     if c_profile c then do {
       s \<leftarrow> upd_ctx a (\<lambda>c. c\<lparr>c_cpu_start := thread_time W (n_reads s)\<rparr>) s;
       (_, s) \<leftarrow> callback W ud a ty (msg_session m) (msg_source m) (msg_data m) sz
                   (s\<lparr>n_reads := n_reads s + 1\<rparr>);
       s \<leftarrow> upd_ctx a (\<lambda>c. c\<lparr>c_cpu_cost := c_cpu_cost c + (thread_time W (n_reads s) - c_cpu_start c)\<rparr>) s;
       Some (s\<lparr>n_reads := n_reads s + 1\<rparr>)
     } else
       map_option snd (callback W ud a ty (msg_session m) (msg_source m) (msg_data m) sz s)
   }"

text \<open>The error that goes back to the source of a message dropped with its queue.\<close>

definition drop_message :: "host \<Rightarrow> u32 \<Rightarrow> skynet_message \<Rightarrow> system \<Rightarrow> system option" where
  "drop_message W h m s = do {
     c_assert (h \<noteq> 0);
     map_option snd (skynet_send W None h (msg_source m) PTYPE_ERROR 0 NullData 0 s)
   }"

text \<open>\<open>skynet_mq_release\<close> on the node, with the callback \<open>drop_message\<close>.\<close>

definition release_queue :: "host \<Rightarrow> nat \<Rightarrow> u32 \<Rightarrow> nat \<Rightarrow> system \<Rightarrow> system option" where
  "release_queue W fuel h q s = do {
     (mq, s) \<leftarrow> skynet_mq_release fuel
        (\<lambda>m (mq, s). do { s \<leftarrow> drop_message W h m (s\<lparr>n_mq := mq\<rparr>); Some (n_mq s, s) }) q (n_mq s, s);
     Some (s\<lparr>n_mq := mq\<rparr>)
   }"

text \<open>A struct \<open>skynet_monitor\<close>.\<close>

record skynet_monitor =
  m_version :: int
  m_check_version :: int
  m_source :: u32
  m_destination :: u32

definition skynet_monitor_new :: skynet_monitor where
  "skynet_monitor_new = \<lparr>m_version = 0, m_check_version = 0, m_source = 0, m_destination = 0\<rparr>"

definition skynet_monitor_trigger :: "skynet_monitor \<Rightarrow> u32 \<Rightarrow> u32 \<Rightarrow> skynet_monitor" where
  "skynet_monitor_trigger sm source destination =
     sm\<lparr>m_source := source, m_destination := destination, m_version := signed_take_bit 31 (m_version sm + 1)\<rparr>"

definition hex8 :: "u32 \<Rightarrow> bytes" where
  "hex8 h = (let t = text_hex h in replicate (8 - length t) 48 @ t)"

definition skynet_monitor_check :: "host \<Rightarrow> skynet_monitor \<Rightarrow> system \<Rightarrow> (skynet_monitor \<times> system) option" where
  "skynet_monitor_check W sm s =
     (if m_version sm = m_check_version sm then
        if m_destination sm \<noteq> 0 then do {
          s \<leftarrow> skynet_context_endless W (m_destination sm) s;
          s \<leftarrow> skynet_error W None (bs ''A message from [ :'' @ hex8 (m_source sm) @ bs '' ] to [ :''
                 @ hex8 (m_destination sm) @ bs '' ] maybe in an endless loop (version = ''
                 @ show_int (m_version sm) @ bs '')'') s;
          Some (sm, s)
        } else Some (sm, s)
      else Some (sm\<lparr>m_check_version := m_version sm\<rparr>, s))"

definition globalmq_pop :: "system \<Rightarrow> (nat option \<times> system) option" where
  "globalmq_pop s = do { (q, mq) \<leftarrow> skynet_globalmq_pop (n_mq s); Some (q, s\<lparr>n_mq := mq\<rparr>) }"

text \<open>What the loop of \<open>skynet_context_message_dispatch\<close> does with a message it popped.\<close>

definition handle_message :: "host \<Rightarrow> nat \<Rightarrow> u32 \<Rightarrow> nat \<Rightarrow> skynet_message \<Rightarrow>
    skynet_monitor \<Rightarrow> system \<Rightarrow> (skynet_monitor \<times> system) option" where
  "handle_message W q h a m sm s = do {
     (overload, mq) \<leftarrow> skynet_mq_overload q (n_mq s);
     let s = s\<lparr>n_mq := mq\<rparr>;
     s \<leftarrow> (if overload \<noteq> 0
            then skynet_error W (Some a) (bs ''May overload, message queue length = '' @ show_int overload) s
            else Some s);
     let sm = skynet_monitor_trigger sm (msg_source m) h;
     c \<leftarrow> n_ctx s a;
     s \<leftarrow> (case c_cb c of None \<Rightarrow> Some s | Some _ \<Rightarrow> context_dispatch W a m s);
     Some (skynet_monitor_trigger sm 0 0, s)
   }"

text \<open>The rounds after the first one; the first component says whether the queue ran empty.\<close>

fun dispatch_rounds :: "host \<Rightarrow> nat \<Rightarrow> nat \<Rightarrow> u32 \<Rightarrow> nat \<Rightarrow> skynet_monitor \<Rightarrow> system \<Rightarrow>
    (bool \<times> skynet_monitor \<times> system) option" where
  "dispatch_rounds W 0 q h a sm s = Some (False, sm, s)"
| "dispatch_rounds W (Suc k) q h a sm s = do {
     (r, mq) \<leftarrow> skynet_mq_pop q (n_mq s);
     let s = s\<lparr>n_mq := mq\<rparr>;
     (case r of
        None \<Rightarrow> Some (True, sm, s)
      | Some m \<Rightarrow> do {
          (sm, s) \<leftarrow> handle_message W q h a m sm s;
          dispatch_rounds W k q h a sm s
        })
   }"

text \<open>
  The result is the queue to dispatch next. \<open>fuel\<close> bounds the messages dropped with the queue of
  a retired handle.
\<close>

definition skynet_context_message_dispatch :: "host \<Rightarrow> nat \<Rightarrow> skynet_monitor \<Rightarrow> nat option \<Rightarrow> int \<Rightarrow>
    system \<Rightarrow> (nat option \<times> skynet_monitor \<times> system) option" where
  "skynet_context_message_dispatch W fuel sm q weight s = do {
     (q, s) \<leftarrow> (case q of None \<Rightarrow> globalmq_pop s | Some _ \<Rightarrow> Some (q, s));
     (case q of
        None \<Rightarrow> Some (None, sm, s)
      | Some q \<Rightarrow> do {
          h \<leftarrow> skynet_mq_handle q (n_mq s);
          (ctx, s) \<leftarrow> handle_grab h s;
          (case ctx of
             None \<Rightarrow> do {
               s \<leftarrow> release_queue W fuel h q s;
               (q, s) \<leftarrow> globalmq_pop s;
               Some (q, sm, s)
             }
           | Some a \<Rightarrow> do {
               (r, mq) \<leftarrow> skynet_mq_pop q (n_mq s);
               let s = s\<lparr>n_mq := mq\<rparr>;
               (empty, sm, s) \<leftarrow> (case r of
                   None \<Rightarrow> Some (True, sm, s)
                 | Some m \<Rightarrow> do {
                     len \<leftarrow> skynet_mq_length q (n_mq s);
                     let n = (if weight \<ge> 0 then len div 2 ^ nat weight else 1);
                     (sm, s) \<leftarrow> handle_message W q h a m sm s;
                     dispatch_rounds W (nat n - 1) q h a sm s
                   });
               if empty then do {
                 (_, s) \<leftarrow> skynet_context_release W a s;
                 (q, s) \<leftarrow> globalmq_pop s;
                 Some (q, sm, s)
               } else do {
                 c \<leftarrow> n_ctx s a;
                 c_assert (q = c_queue c);
                 (nq, s) \<leftarrow> globalmq_pop s;
                 (q, s) \<leftarrow> (case nq of
                     None \<Rightarrow> Some (q, s)
                   | Some nq \<Rightarrow> do {
                       mq \<leftarrow> skynet_globalmq_push q (n_mq s);
                       Some (nq, s\<lparr>n_mq := mq\<rparr>)
                     });
                 (_, s) \<leftarrow> skynet_context_release W a s;
                 Some (Some q, sm, s)
               }
             })
        })
   }"

text \<open>\<open>skynet_context_dispatchall\<close>; the fuel bounds the messages.\<close>

fun skynet_context_dispatchall :: "host \<Rightarrow> nat \<Rightarrow> nat \<Rightarrow> system \<Rightarrow> system option" where
  "skynet_context_dispatchall W 0 a s = None"
| "skynet_context_dispatchall W (Suc fuel) a s = do {
     c \<leftarrow> n_ctx s a;
     (r, mq) \<leftarrow> skynet_mq_pop (c_queue c) (n_mq s);
     let s = s\<lparr>n_mq := mq\<rparr>;
     (case r of
        None \<Rightarrow> Some s
      | Some m \<Rightarrow> do { s \<leftarrow> context_dispatch W a m s; skynet_context_dispatchall W fuel a s })
   }"

section \<open>Launching\<close>

text \<open>
  \<open>a\<close> and \<open>q\<close> are the addresses that malloc gives to the context and to its queue. The context
  is visible in the table, with handle 0, before \<open>skynet_handle_register\<close> returns.
\<close>

definition fresh_context :: "system \<Rightarrow> nat \<Rightarrow> nat \<Rightarrow> nat \<Rightarrow> skynet_context" where
  "fresh_context s md inst q =
     \<lparr>c_mod = md, c_instance = inst, c_cb = None, c_queue = q, c_logfile = False, c_cpu_cost = 0,
      c_cpu_start = 0, c_result = [], c_handle = 0, c_session_id = 0, c_ref = 2, c_message_count = 0,
      c_init = False, c_endless = False, c_profile = n_profile s\<rparr>"

definition skynet_context_new :: "host \<Rightarrow> nat \<Rightarrow> nat \<Rightarrow> nat \<Rightarrow> bytes \<Rightarrow> bytes option \<Rightarrow> system \<Rightarrow>
    (nat option \<times> system) option" where
  "skynet_context_new W fuel a q nm param s =
     (case module_query W nm of
        None \<Rightarrow> Some (None, s)
      | Some md \<Rightarrow>
     (case module_instance_create W md of
        None \<Rightarrow> Some (None, s)
      | Some inst \<Rightarrow> do {
          let s = s\<lparr>n_ctx := (n_ctx s)(a \<mapsto> fresh_context s md inst q)\<rparr>;
          (h, hs) \<leftarrow> skynet_handle_register (handles_of s) a (n_hs s);
          s \<leftarrow> upd_ctx a (\<lambda>c. c\<lparr>c_handle := h\<rparr>) (s\<lparr>n_hs := hs\<rparr>);
          let s = context_inc (s\<lparr>n_mq := skynet_mq_create q h (n_mq s)\<rparr>);
          (r, s) \<leftarrow> module_instance_init W md inst a param s;
          if r = 0 then do {
            (ret, s) \<leftarrow> skynet_context_release W a s;
            s \<leftarrow> (if ret = None then Some s else upd_ctx a (\<lambda>c. c\<lparr>c_init := True\<rparr>) s);
            mq \<leftarrow> skynet_globalmq_push q (n_mq s);
            let s = s\<lparr>n_mq := mq\<rparr>;
            s \<leftarrow> (if ret = None then Some s
                   else skynet_error W ret (bs ''LAUNCH '' @ nm @ [32] @ (case param of Some p \<Rightarrow> p | None \<Rightarrow> [])) s);
            Some (ret, s)
          } else do {
            s \<leftarrow> skynet_error W (Some a) (bs ''FAILED launch '' @ nm) s;
            c \<leftarrow> n_ctx s a;
            (_, s) \<leftarrow> skynet_context_release W a s;
            s \<leftarrow> handle_retire W (c_handle c) s;
            s \<leftarrow> release_queue W fuel (c_handle c) q s;
            Some (None, s)
          }
        }))"

section \<open>Names and commands\<close>

definition skynet_queryname :: "host \<Rightarrow> nat \<Rightarrow> bytes \<Rightarrow> system \<Rightarrow> (u32 \<times> system) option" where
  "skynet_queryname W a nm s =
     (if nm \<noteq> [] \<and> hd nm = 58 then Some (strtoul16 (tl nm), s)
      else if nm \<noteq> [] \<and> hd nm = 46 then map_option (\<lambda>h. (h, s)) (skynet_handle_findname (tl nm) (n_hs s))
      else do {
        s \<leftarrow> skynet_error W (Some a) (bs ''Don'' @ [39] @ bs ''t support query global name '' @ nm) s;
        Some (0, s)
      })"

definition upper_hex :: bytes where
  "upper_hex = bs ''0123456789ABCDEF''"

definition id_to_hex :: "u32 \<Rightarrow> bytes" where
  "id_to_hex h = 58 # map (\<lambda>i. upper_hex ! unat (drop_bit ((7 - i) * 4) h AND 0xf)) [0..<8]"

definition tohandle :: "host \<Rightarrow> nat \<Rightarrow> bytes \<Rightarrow> system \<Rightarrow> (u32 \<times> system) option" where
  "tohandle W a param s =
     (if param \<noteq> [] \<and> hd param = 58 then Some (strtoul16 (tl param), s)
      else if param \<noteq> [] \<and> hd param = 46 then
        map_option (\<lambda>h. (h, s)) (skynet_handle_findname (tl param) (n_hs s))
      else do {
        s \<leftarrow> skynet_error W (Some a) (bs ''Can'' @ [39] @ bs ''t convert '' @ param @ bs '' to handle'') s;
        Some (0, s)
      })"

definition handle_exit :: "host \<Rightarrow> nat \<Rightarrow> u32 \<Rightarrow> system \<Rightarrow> system option" where
  "handle_exit W a h s = do {
     c \<leftarrow> n_ctx s a;
     (h, s) \<leftarrow>
       (if h = 0 then map_option (\<lambda>s. (c_handle c, s)) (skynet_error W (Some a) (bs ''KILL self'') s)
        else map_option (\<lambda>s. (h, s)) (skynet_error W (Some a) (bs ''KILL :'' @ text_hex h) s));
     s \<leftarrow> (if n_monitor_exit s \<noteq> 0
            then map_option snd (skynet_send W (Some a) h (n_monitor_exit s) PTYPE_CLIENT 0 NullData 0 s)
            else Some s);
     handle_retire W h s
   }"

text \<open>Every command returns null or a text, which may be the \<open>result\<close> field of the context.\<close>

type_synonym reply = "bytes option \<times> system"

definition set_result :: "nat \<Rightarrow> bytes \<Rightarrow> system \<Rightarrow> reply option" where
  "set_result a tx s = do { s \<leftarrow> upd_ctx a (\<lambda>c. c\<lparr>c_result := tx\<rparr>) s; Some (Some tx, s) }"

definition reply_handle :: "nat \<Rightarrow> u32 \<Rightarrow> system \<Rightarrow> reply option" where
  "reply_handle a h s = set_result a (58 # text_hex h) s"

text \<open>The command runs on the timer and on the rest of the node, as \<open>skynet_timeout\<close> does.\<close>

definition push_total :: "host \<Rightarrow> u32 \<Rightarrow> skynet_message \<Rightarrow> system option \<Rightarrow> int \<times> system option" where
  "push_total W h m w = (case w of
     None \<Rightarrow> (0, None)
   | Some s \<Rightarrow> (case skynet_context_push W h m s of None \<Rightarrow> (0, None) | Some (r, s) \<Rightarrow> (r, Some s)))"

definition cmd_timeout :: "host \<Rightarrow> nat \<Rightarrow> bytes \<Rightarrow> system \<Rightarrow> reply option" where
  "cmd_timeout W a param s = do {
     let ti = strtol10 param;
     (session, s) \<leftarrow> skynet_context_newsession a s;
     c \<leftarrow> n_ctx s a;
     let (_, T, w) = skynet_timeout (push_total W) (c_handle c) ti session (n_timer s, Some s);
     s \<leftarrow> w;
     set_result a (show_int session) (s\<lparr>n_timer := T\<rparr>)
   }"

definition namehandle :: "u32 \<Rightarrow> bytes \<Rightarrow> system \<Rightarrow> reply option" where
  "namehandle h nm s = do {
     (r, hs) \<leftarrow> skynet_handle_namehandle h nm (n_hs s);
     Some (r, s\<lparr>n_hs := hs\<rparr>)
   }"

definition cmd_reg :: "host \<Rightarrow> nat \<Rightarrow> bytes option \<Rightarrow> system \<Rightarrow> reply option" where
  "cmd_reg W a param s = do {
     c \<leftarrow> n_ctx s a;
     (if param = None \<or> param = Some [] then reply_handle a (c_handle c) s
      else if hd (the param) = 46 then namehandle (c_handle c) (tl (the param)) s
      else do {
        s \<leftarrow> skynet_error W (Some a) (bs ''Can'' @ [39] @ bs ''t register global name '' @ the param @ bs '' in C'') s;
        Some (None, s)
      })
   }"

definition cmd_query :: "host \<Rightarrow> nat \<Rightarrow> bytes \<Rightarrow> system \<Rightarrow> reply option" where
  "cmd_query W a param s =
     (if param \<noteq> [] \<and> hd param = 46 then do {
        h \<leftarrow> skynet_handle_findname (tl param) (n_hs s);
        if h \<noteq> 0 then reply_handle a h s else Some (None, s)
      } else Some (None, s))"

text \<open>The words that \<open>sscanf("%s %s")\<close> reads; a word that is missing is read uninitialised.\<close>

definition sscanf_word :: "bytes \<Rightarrow> bytes \<times> bytes" where
  "sscanf_word tx = (let tx = dropWhile is_space tx in (takeWhile (\<lambda>c. \<not> is_space c) tx, dropWhile (\<lambda>c. \<not> is_space c) tx))"

definition cmd_name :: "host \<Rightarrow> nat \<Rightarrow> bytes \<Rightarrow> system \<Rightarrow> reply option" where
  "cmd_name W a param s = do {
     let (nm, rest) = sscanf_word param;
     let (h, _) = sscanf_word rest;
     c_assert (h \<noteq> []);
     if hd h \<noteq> 58 then Some (None, s)
     else let hid = strtoul16 (tl h) in
       if hid = 0 then Some (None, s)
       else if hd nm = 46 then namehandle hid (tl nm) s
       else do {
         s \<leftarrow> skynet_error W (Some a) (bs ''Can'' @ [39] @ bs ''t set global name '' @ nm @ bs '' in C'') s;
         Some (None, s)
       }
   }"

definition cmd_exit :: "host \<Rightarrow> nat \<Rightarrow> system \<Rightarrow> reply option" where
  "cmd_exit W a s = map_option (\<lambda>s. (None, s)) (handle_exit W a 0 s)"

definition cmd_kill :: "host \<Rightarrow> nat \<Rightarrow> bytes \<Rightarrow> system \<Rightarrow> reply option" where
  "cmd_kill W a param s = do {
     (h, s) \<leftarrow> tohandle W a param s;
     if h \<noteq> 0 then map_option (\<lambda>s. (None, s)) (handle_exit W a h s) else Some (None, s)
   }"

text \<open>\<open>strsep\<close> on a text that is not null: the token, and the rest unless no delimiter was found.\<close>

definition split_at :: "bytes \<Rightarrow> bytes \<Rightarrow> bytes \<times> bytes option" where
  "split_at delims tx = (let tok = takeWhile (\<lambda>c. c \<notin> set delims) tx in
     (tok, if length tok < length tx then Some (drop (length tok + 1) tx) else None))"

definition cmd_launch :: "host \<Rightarrow> nat \<Rightarrow> nat \<Rightarrow> nat \<Rightarrow> nat \<Rightarrow> bytes \<Rightarrow> system \<Rightarrow> reply option" where
  "cmd_launch W fuel b q a param s = do {
     let (md, args) = split_at [32, 9, 13, 10] param;
     let args = map_option (\<lambda>tx. fst (split_at [13, 10] tx)) args;
     (inst, s) \<leftarrow> skynet_context_new W fuel b q md args s;
     (case inst of
        None \<Rightarrow> Some (None, s)
      | Some i \<Rightarrow> do { c \<leftarrow> n_ctx s i; set_result a (id_to_hex (c_handle c)) s })
   }"

definition skynet_getenv :: "bytes \<Rightarrow> system \<Rightarrow> bytes option" where
  "skynet_getenv key s = n_env s key"

definition skynet_setenv :: "bytes \<Rightarrow> bytes \<Rightarrow> system \<Rightarrow> system option" where
  "skynet_setenv key val s = do {
     c_assert (n_env s key = None);
     Some (s\<lparr>n_env := (n_env s)(key \<mapsto> val)\<rparr>)
   }"

definition cmd_getenv :: "bytes \<Rightarrow> system \<Rightarrow> reply option" where
  "cmd_getenv param s = Some (skynet_getenv param s, s)"

definition cmd_setenv :: "bytes \<Rightarrow> system \<Rightarrow> reply option" where
  "cmd_setenv param s = (case split_at [32] param of
     (key, None) \<Rightarrow> Some (None, s)
   | (key, Some val) \<Rightarrow> map_option (\<lambda>s. (None, s)) (skynet_setenv key val s))"

definition cmd_starttime :: "nat \<Rightarrow> system \<Rightarrow> reply option" where
  "cmd_starttime a s = set_result a (show_nat (unat (skynet_starttime (n_timer s)))) s"

text \<open>\<open>skynet_handle_retireall\<close> on the node.\<close>

definition release_total :: "host \<Rightarrow> nat \<Rightarrow> handle_storage \<times> (nat \<Rightarrow> u32) \<times> system option \<Rightarrow>
    handle_storage \<times> (nat \<Rightarrow> u32) \<times> system option" where
  "release_total W a hHw = (case hHw of (hs, H, w) \<Rightarrow>
     (case Option.bind w (\<lambda>s. skynet_context_release W a (s\<lparr>n_hs := hs\<rparr>)) of
        None \<Rightarrow> (hs, H, None)
      | Some (_, s) \<Rightarrow> (n_hs s, handles_of s, Some s)))"

definition cmd_abort :: "host \<Rightarrow> nat \<Rightarrow> nat \<Rightarrow> system \<Rightarrow> reply option" where
  "cmd_abort W pass_fuel fuel s = do {
     (hs, H, w) \<leftarrow> skynet_handle_retireall (release_total W) pass_fuel fuel (n_hs s, handles_of s, Some s);
     s \<leftarrow> w;
     Some (None, s\<lparr>n_hs := hs\<rparr>)
   }"

definition cmd_monitor :: "host \<Rightarrow> nat \<Rightarrow> bytes option \<Rightarrow> system \<Rightarrow> reply option" where
  "cmd_monitor W a param s =
     (if param = None \<or> param = Some [] then
        (if n_monitor_exit s \<noteq> 0 then reply_handle a (n_monitor_exit s) s else Some (None, s))
      else do {
        (h, s) \<leftarrow> tohandle W a (the param) s;
        Some (None, s\<lparr>n_monitor_exit := h\<rparr>)
      })"

text \<open>\<open>%lf\<close> of microseconds as seconds; exact below 2^53 microseconds.\<close>

definition show_seconds :: "u64 \<Rightarrow> bytes" where
  "show_seconds tx = (let f = show_nat (unat tx mod 1000000) in
     show_nat (unat tx div 1000000) @ [46] @ replicate (6 - length f) 48 @ f)"

definition cmd_stat :: "host \<Rightarrow> nat \<Rightarrow> bytes \<Rightarrow> system \<Rightarrow> reply option" where
  "cmd_stat W a param s = do {
     c \<leftarrow> n_ctx s a;
     (if param = bs ''mqlen'' then do {
        len \<leftarrow> skynet_mq_length (c_queue c) (n_mq s);
        set_result a (show_int len) s
      } else if param = bs ''endless'' then
        if c_endless c then do {
          s \<leftarrow> upd_ctx a (\<lambda>c. c\<lparr>c_endless := False\<rparr>) s;
          set_result a (bs ''1'') s
        } else set_result a (bs ''0'') s
      else if param = bs ''cpu'' then set_result a (show_seconds (c_cpu_cost c)) s
      else if param = bs ''time'' then
        if c_profile c then
          set_result a (show_seconds (thread_time W (n_reads s) - c_cpu_start c)) (s\<lparr>n_reads := n_reads s + 1\<rparr>)
        else set_result a (bs ''0'') s
      else if param = bs ''message'' then set_result a (show_int (c_message_count c)) s
      else set_result a [] s)
   }"

definition skynet_log_open :: "host \<Rightarrow> nat \<Rightarrow> u32 \<Rightarrow> system \<Rightarrow> (bool \<times> system) option" where
  "skynet_log_open W a h s =
     (case skynet_getenv (bs ''logpath'') s of
        None \<Rightarrow> Some (False, s)
      | Some logpath \<Rightarrow>
          let tmp = logpath @ [47] @ hex8 h @ bs ''.log'' in
          if file_opens W tmp
          then map_option (\<lambda>s. (True, s)) (skynet_error W (Some a) (bs ''Open log file '' @ tmp) s)
          else map_option (\<lambda>s. (False, s)) (skynet_error W (Some a) (bs ''Open log file '' @ tmp @ bs '' fail'') s))"

definition skynet_log_close :: "host \<Rightarrow> nat \<Rightarrow> u32 \<Rightarrow> system \<Rightarrow> system option" where
  "skynet_log_close W a h s = skynet_error W (Some a) (bs ''Close log file :'' @ hex8 h) s"

definition cmd_logon :: "host \<Rightarrow> nat \<Rightarrow> bytes \<Rightarrow> system \<Rightarrow> reply option" where
  "cmd_logon W a param s = do {
     (h, s) \<leftarrow> tohandle W a param s;
     if h = 0 then Some (None, s)
     else do {
       (ctx, s) \<leftarrow> handle_grab h s;
       (case ctx of
          None \<Rightarrow> Some (None, s)
        | Some b \<Rightarrow> do {
            c \<leftarrow> n_ctx s b;
            s \<leftarrow> (if c_logfile c then Some s
                   else do {
                     (f, s) \<leftarrow> skynet_log_open W a h s;
                     if f then do {
                       s \<leftarrow> upd_ctx b (\<lambda>c. c\<lparr>c_logfile := True\<rparr>) s;
                       Some (s\<lparr>n_files := n_files s @ [LogOpened b h]\<rparr>)
                     } else Some s
                   });
            (_, s) \<leftarrow> skynet_context_release W b s;
            Some (None, s)
          })
     }
   }"

definition cmd_logoff :: "host \<Rightarrow> nat \<Rightarrow> bytes \<Rightarrow> system \<Rightarrow> reply option" where
  "cmd_logoff W a param s = do {
     (h, s) \<leftarrow> tohandle W a param s;
     if h = 0 then Some (None, s)
     else do {
       (ctx, s) \<leftarrow> handle_grab h s;
       (case ctx of
          None \<Rightarrow> Some (None, s)
        | Some b \<Rightarrow> do {
            c \<leftarrow> n_ctx s b;
            s \<leftarrow> (if c_logfile c then do {
                     s \<leftarrow> upd_ctx b (\<lambda>c. c\<lparr>c_logfile := False\<rparr>) s;
                     s \<leftarrow> skynet_log_close W a h s;
                     Some (s\<lparr>n_files := n_files s @ [LogClosed b h]\<rparr>)
                   } else Some s);
            (_, s) \<leftarrow> skynet_context_release W b s;
            Some (None, s)
          })
     }
   }"

text \<open>\<open>(int)strtol(t, NULL, 0)\<close>: the base follows from the prefix.\<close>

definition strtol0 :: "bytes \<Rightarrow> int" where
  "strtol0 tx = (case split_sign tx of (neg, cs) \<Rightarrow>
     let v = int (if strip_0x cs \<noteq> cs then digits 16 0 (strip_0x cs)
                  else if cs \<noteq> [] \<and> hd cs = 48 then digits 8 0 cs else digits 10 0 cs);
         l = (if neg then max (- v) (- (2 ^ 63)) else min v (2 ^ 63 - 1))
     in signed_take_bit 31 l)"

definition cmd_signal :: "host \<Rightarrow> nat \<Rightarrow> bytes \<Rightarrow> system \<Rightarrow> reply option" where
  "cmd_signal W a param s = do {
     (h, s) \<leftarrow> tohandle W a param s;
     if h = 0 then Some (None, s)
     else do {
       (ctx, s) \<leftarrow> handle_grab h s;
       (case ctx of
          None \<Rightarrow> Some (None, s)
        | Some b \<Rightarrow> do {
            let rest = dropWhile (\<lambda>c. c \<noteq> 32) param;
            let sig = (if rest = [] then 0 else strtol0 rest);
            c \<leftarrow> n_ctx s b;
            s \<leftarrow> module_instance_signal W (c_mod c) (c_instance c) sig s;
            (_, s) \<leftarrow> skynet_context_release W b s;
            Some (None, s)
          })
     }
   }"

text \<open>
  The table of commands. Only REG and MONITOR test for a null parameter; the others read through
  it. \<open>b\<close> and \<open>q\<close> are the addresses for a context launched, the three fuels are those of the queue
  of a failed launch and of \<open>skynet_handle_retireall\<close>.
\<close>

definition skynet_command :: "host \<Rightarrow> nat \<times> nat \<times> nat \<Rightarrow> nat \<times> nat \<Rightarrow> nat \<Rightarrow> bytes \<Rightarrow> bytes option \<Rightarrow>
    system \<Rightarrow> reply option" where
  "skynet_command W fuels bq a cmd param s =
     (if cmd = bs ''TIMEOUT'' then do { p \<leftarrow> param; cmd_timeout W a p s }
      else if cmd = bs ''REG'' then cmd_reg W a param s
      else if cmd = bs ''QUERY'' then do { p \<leftarrow> param; cmd_query W a p s }
      else if cmd = bs ''NAME'' then do { p \<leftarrow> param; cmd_name W a p s }
      else if cmd = bs ''EXIT'' then cmd_exit W a s
      else if cmd = bs ''KILL'' then do { p \<leftarrow> param; cmd_kill W a p s }
      else if cmd = bs ''LAUNCH'' then do { p \<leftarrow> param; cmd_launch W (fst fuels) (fst bq) (snd bq) a p s }
      else if cmd = bs ''GETENV'' then do { p \<leftarrow> param; cmd_getenv p s }
      else if cmd = bs ''SETENV'' then do { p \<leftarrow> param; cmd_setenv p s }
      else if cmd = bs ''STARTTIME'' then cmd_starttime a s
      else if cmd = bs ''ABORT'' then cmd_abort W (fst (snd fuels)) (snd (snd fuels)) s
      else if cmd = bs ''MONITOR'' then cmd_monitor W a param s
      else if cmd = bs ''STAT'' then do { p \<leftarrow> param; cmd_stat W a p s }
      else if cmd = bs ''LOGON'' then do { p \<leftarrow> param; cmd_logon W a p s }
      else if cmd = bs ''LOGOFF'' then do { p \<leftarrow> param; cmd_logoff W a p s }
      else if cmd = bs ''SIGNAL'' then do { p \<leftarrow> param; cmd_signal W a p s }
      else Some (None, s))"

section \<open>The rest of the node\<close>

definition skynet_context_handle :: "nat \<Rightarrow> system \<Rightarrow> u32 option" where
  "skynet_context_handle a s = map_option c_handle (n_ctx s a)"

definition skynet_callback :: "nat \<Rightarrow> nat option \<Rightarrow> system \<Rightarrow> system option" where
  "skynet_callback a ud s = upd_ctx a (\<lambda>c. c\<lparr>c_cb := ud\<rparr>) s"

definition skynet_current_handle :: "system \<Rightarrow> u32" where
  "skynet_current_handle s = n_current s"

definition skynet_initthread :: "int \<Rightarrow> system \<Rightarrow> system" where
  "skynet_initthread m s = s\<lparr>n_current := of_int (- m)\<rparr>"

definition skynet_globalinit :: "system \<Rightarrow> system" where
  "skynet_globalinit s = skynet_initthread 1 (s\<lparr>n_total := 0, n_monitor_exit := 0\<rparr>)"

definition skynet_profile_enable :: "int \<Rightarrow> system \<Rightarrow> system" where
  "skynet_profile_enable enable s = s\<lparr>n_profile := (enable \<noteq> 0)\<rparr>"

section \<open>The invariant of the node\<close>

text \<open>
  The table finds live contexts only; every context has a reference and a queue of its own that is
  live, well formed and not marked; a queue whose flag is clear is not in the global queue.
\<close>

definition queue_inv :: "nat list \<Rightarrow> nat \<Rightarrow> message_queue \<Rightarrow> bool" where
  "queue_inv xs q b \<longleftrightarrow> mq_wf b \<and> mq_release b = 0 \<and>
     (mq_in_global b = 0 \<or> mq_in_global b = MQ_IN_GLOBAL) \<and> (mq_in_global b = 0 \<longrightarrow> q \<notin> set xs)"

definition node_inv :: "system \<Rightarrow> nat list \<Rightarrow> bool" where
  "node_inv s xs \<longleftrightarrow> handles_wf (n_hs s, handles_of s) \<and> gq_inv (n_mq s) xs \<and>
     (\<forall>a. Some a \<in> set (slot (n_hs s)) \<longrightarrow> n_ctx s a \<noteq> None) \<and>
     (\<forall>a c. n_ctx s a = Some c \<longrightarrow> 1 \<le> c_ref c \<and>
        (\<exists>b. body (n_mq s) (c_queue c) = Some b \<and> queue_inv xs (c_queue c) b)) \<and>
     (\<forall>a a' c c'. n_ctx s a = Some c \<longrightarrow> n_ctx s a' = Some c' \<longrightarrow> c_queue c = c_queue c' \<longrightarrow> a = a')"

text \<open>The messages waiting for a context.\<close>

definition inbox :: "system \<Rightarrow> nat \<Rightarrow> skynet_message list option" where
  "inbox s a = do { c \<leftarrow> n_ctx s a; b \<leftarrow> body (n_mq s) (c_queue c); Some (mq_list b) }"

abbreviation lookup :: "system \<Rightarrow> u32 \<Rightarrow> nat option" where
  "lookup s h \<equiv> skynet_handle_grab (handles_of s) h (n_hs s)"

lemma handles_of_put: "handles_of (s\<lparr>n_ctx := (n_ctx s)(a \<mapsto> c)\<rparr>) = (handles_of s)(a := c_handle c)"
  by (auto simp: handles_of_def)

lemma handles_of_frame [simp]:
  "handles_of (s\<lparr>n_mq := q\<rparr>) = handles_of s" "handles_of (s\<lparr>n_hs := hs\<rparr>) = handles_of s"
  "handles_of (s\<lparr>n_logger := l\<rparr>) = handles_of s" "handles_of (s\<lparr>n_total := n\<rparr>) = handles_of s"
  by (auto simp: handles_of_def)

lemma node_inv_ctx:
  assumes "node_inv s xs" "n_ctx s a = Some c"
  obtains b where "body (n_mq s) (c_queue c) = Some b" "queue_inv xs (c_queue c) b" "1 \<le> c_ref c"
  using assms unfolding node_inv_def by blast

lemma lookup_ctx:
  assumes "node_inv s xs" "lookup s h = Some a"
  obtains c where "n_ctx s a = Some c" "c_handle c = h"
proof -
  have "slots_wf (n_hs s, handles_of s)" using assms(1) by (simp add: node_inv_def handles_wf_def)
  from grab_iff [OF this, of h a] assms(2) have "Some a \<in> set (slot (n_hs s))" "handles_of s a = h" by simp_all
  then show thesis using that assms(1) unfolding node_inv_def handles_of_def by (auto split: option.splits)
qed

text \<open>Pushing a message to a live context.\<close>

lemma mq_push_at_ok:
  assumes "node_inv s xs" "n_ctx s a = Some c"
  shows "\<exists>q ys. mq_push_at a m s = Some (s\<lparr>n_mq := q\<rparr>) \<and> node_inv (s\<lparr>n_mq := q\<rparr>) ys \<and>
    (\<forall>a'. inbox (s\<lparr>n_mq := q\<rparr>) a' = (if a' = a then map_option (\<lambda>ms. ms @ [m]) (inbox s a) else inbox s a'))"
proof -
  obtain b where b: "body (n_mq s) (c_queue c) = Some b" "queue_inv xs (c_queue c) b"
    using assms by (rule node_inv_ctx)
  then obtain q0 where q0: "mqs (n_mq s) (c_queue c) = Some q0" "b = q0\<lparr>mq_next := None\<rparr>"
    by (auto simp: body_Some)
  have gq: "gq_inv (n_mq s) xs" using assms(1) by (simp add: node_inv_def)
  have wf: "mq_wf q0" "mq_release q0 = 0" "mq_in_global q0 = 0 \<Longrightarrow> c_queue c \<notin> set xs"
    using b(2) q0(2) by (simp_all add: queue_inv_def)
  from skynet_mq_push_ok [OF gq q0(1) wf(1,3), of m] obtain q q' where
    q: "skynet_mq_push (c_queue c) m (n_mq s) = Some q"
    "gq_inv q (if mq_in_global q0 = 0 then xs @ [c_queue c] else xs)" "body q = put_body (n_mq s) (c_queue c) q'"
    "mq_wf q'" "mq_list q' = mq_list q0 @ [m]" "mq_release q' = mq_release q0"
    "mq_in_global q' = (if mq_in_global q0 = 0 then MQ_IN_GLOBAL else mq_in_global q0)"
    by blast
  define ys where "ys = (if mq_in_global q0 = 0 then xs @ [c_queue c] else xs)"
  have own: "a' = a" if "n_ctx s a' = Some c'" "c_queue c' = c_queue c" for a' c'
    using assms that unfolding node_inv_def by blast
  have "\<exists>b. body q (c_queue c') = Some b \<and> queue_inv ys (c_queue c') b" if c': "n_ctx s a' = Some c'" for a' c'
  proof (cases "a' = a")
    case True
    then show ?thesis using c' assms(2) q q0 b(2) by (auto simp: put_body_def queue_inv_def ys_def MQ_IN_GLOBAL_def)
  next
    case False
    then have ne: "c_queue c' \<noteq> c_queue c" using own c' by blast
    obtain b' where "body (n_mq s) (c_queue c') = Some b'" "queue_inv xs (c_queue c') b'"
      using assms(1) c' by (rule node_inv_ctx)
    then show ?thesis using ne q(3) by (auto simp: put_body_def queue_inv_def ys_def)
  qed
  then have "node_inv (s\<lparr>n_mq := q\<rparr>) ys"
    using assms(1) q(2) unfolding node_inv_def ys_def [symmetric] by simp
  moreover have "inbox (s\<lparr>n_mq := q\<rparr>) a' = (if a' = a then map_option (\<lambda>ms. ms @ [m]) (inbox s a) else inbox s a')" for a'
  proof (cases "n_ctx s a'")
    case None
    then show ?thesis using assms(2) by (auto simp: inbox_def)
  next
    case (Some c')
    then show ?thesis
      using own [of a' c'] assms(2) q(3,5) b(1) q0 by (auto simp: inbox_def put_body_def)
  qed
  moreover have "mq_push_at a m s = Some (s\<lparr>n_mq := q\<rparr>)" by (simp add: mq_push_at_def assms(2) q(1))
  ultimately show ?thesis by blast
qed

lemma node_inv_upd:
  assumes "node_inv s xs" "n_ctx s a = Some c" "1 \<le> c_ref c'" "c_handle c' = c_handle c" "c_queue c' = c_queue c"
  shows "node_inv (s\<lparr>n_ctx := (n_ctx s)(a \<mapsto> c')\<rparr>) xs"
proof -
  have "(handles_of s)(a := c_handle c') = handles_of s" using assms(2,4) by (auto simp: handles_of_def)
  then show ?thesis
    using assms(1,2,3,5) unfolding node_inv_def handles_of_put by (auto split: if_splits)
qed

lemma inbox_upd: "n_ctx s a = Some c \<Longrightarrow> c_queue c' = c_queue c \<Longrightarrow>
    inbox (s\<lparr>n_ctx := (n_ctx s)(a \<mapsto> c')\<rparr>) a' = inbox s a'"
  by (auto simp: inbox_def)

lemma handles_of_upd: "n_ctx s a = Some c \<Longrightarrow> c_handle c' = c_handle c \<Longrightarrow>
    handles_of (s\<lparr>n_ctx := (n_ctx s)(a \<mapsto> c')\<rparr>) = handles_of s"
  by (auto simp: handles_of_def)

text \<open>The reference taken by \<open>skynet_context_push\<close> is given back, so the contexts are unchanged.\<close>

lemma context_push_ok:
  assumes inv: "node_inv s xs" and found: "lookup s h = Some a"
  shows "\<exists>s' ys. skynet_context_push W h m s = Some (0, s') \<and> node_inv s' ys \<and> n_ctx s' = n_ctx s \<and>
    n_hs s' = n_hs s \<and> n_total s' = n_total s \<and>
    (\<forall>a'. inbox s' a' = (if a' = a then map_option (\<lambda>ms. ms @ [m]) (inbox s a) else inbox s a'))"
proof -
  obtain c where c: "n_ctx s a = Some c" using inv found by (rule lookup_ctx)
  have ref: "1 \<le> c_ref c" using inv c by (rule node_inv_ctx)
  let ?s1 = "s\<lparr>n_ctx := (n_ctx s)(a \<mapsto> c\<lparr>c_ref := c_ref c + 1\<rparr>)\<rparr>"
  have inv1: "node_inv ?s1 xs" using ref by (intro node_inv_upd [OF inv c]) simp_all
  have c1: "n_ctx ?s1 a = Some (c\<lparr>c_ref := c_ref c + 1\<rparr>)" by simp
  from mq_push_at_ok [OF inv1 c1, of m] obtain q ys where
    q: "mq_push_at a m ?s1 = Some (?s1\<lparr>n_mq := q\<rparr>)" "node_inv (?s1\<lparr>n_mq := q\<rparr>) ys"
    "\<forall>a'. inbox (?s1\<lparr>n_mq := q\<rparr>) a' = (if a' = a then map_option (\<lambda>ms. ms @ [m]) (inbox ?s1 a) else inbox ?s1 a')"
    by blast
  let ?s2 = "?s1\<lparr>n_mq := q\<rparr>"
  let ?s3 = "?s2\<lparr>n_ctx := (n_ctx ?s2)(a \<mapsto> (c\<lparr>c_ref := c_ref c + 1\<rparr>)\<lparr>c_ref := c_ref c\<rparr>)\<rparr>"
  have c2: "n_ctx ?s2 a = Some (c\<lparr>c_ref := c_ref c + 1\<rparr>)" by simp
  have run: "skynet_context_push W h m s = Some (0, ?s3)"
    using ref q(1) found c by (simp add: skynet_context_push_def handle_grab_def skynet_context_grab_def upd_ctx_def
        skynet_context_release_def)
  have "n_ctx ?s3 = n_ctx s" using c by (auto simp: fun_eq_iff)
  moreover have "node_inv ?s3 ys" using node_inv_upd [OF q(2) c2, of "(c\<lparr>c_ref := c_ref c + 1\<rparr>)\<lparr>c_ref := c_ref c\<rparr>"] ref by simp
  moreover have "inbox ?s3 a' = (if a' = a then map_option (\<lambda>ms. ms @ [m]) (inbox s a) else inbox s a')" for a'
  proof -
    have "inbox ?s3 a' = inbox ?s2 a'" by (rule inbox_upd [OF c2]) simp
    moreover have "inbox ?s1 b = inbox s b" for b by (rule inbox_upd [OF c]) simp
    ultimately show ?thesis unfolding q(3) [rule_format] by simp
  qed
  ultimately show ?thesis using run by (intro exI [of _ ?s3] exI [of _ ys]) simp
qed

lemma context_push_unknown: "lookup s h = None \<Longrightarrow> skynet_context_push W h m s = Some (-1, s)"
  by (simp add: skynet_context_push_def handle_grab_def)

lemma error_silent:
  assumes "n_logger s = 0" "skynet_handle_findname (bs ''logger'') (n_hs s) = Some 0"
  shows "skynet_error W ctx msg s = Some s"
proof -
  have "s\<lparr>n_logger := 0\<rparr> = s" using assms(1) by (metis system.surjective system.update_convs(10))
  then show ?thesis using assms by (simp add: skynet_error_def)
qed

section \<open>Launching: facts\<close>

lemma new_queue_inv: "queue_inv xs q ((new_queue h)\<lparr>mq_next := None\<rparr>)"
proof -
  have "mq_release (new_queue h) = 0" "mq_in_global (new_queue h) = MQ_IN_GLOBAL" "MQ_IN_GLOBAL \<noteq> 0"
    by (simp_all add: new_queue_def MQ_IN_GLOBAL_def)
  then show ?thesis by (simp add: queue_inv_def)
qed

text \<open>The state in which \<open>skynet_context_new\<close> runs the init function.\<close>

lemma launch_prepared:
  assumes inv: "node_inv s xs" and a: "n_ctx s a = None" and q: "mqs (n_mq s) q = None"
    and room: "can_register (n_hs s, handles_of s) a"
  shows "\<exists>h hs. skynet_handle_register (handles_of s) a (n_hs s) = Some (h, hs) \<and> lookup s h = None \<and>
    (let s1 = s\<lparr>n_ctx := (n_ctx s)(a \<mapsto> (fresh_context s md inst q)\<lparr>c_handle := h\<rparr>), n_hs := hs,
            n_mq := skynet_mq_create q h (n_mq s), n_total := n_total s + 1\<rparr> in
     node_inv s1 xs \<and> (\<forall>h'. lookup s1 h' = ((lookup s)(h \<mapsto> a)) h') \<and>
     inbox s1 a = Some [] \<and> (\<forall>a'. a' \<noteq> a \<longrightarrow> inbox s1 a' = inbox s a') \<and>
     (\<forall>nm. skynet_handle_findname nm (n_hs s1) = skynet_handle_findname nm (n_hs s)))"
proof -
  have hw: "handles_wf (n_hs s, handles_of s)" "gq_inv (n_mq s) xs" using inv by (simp_all add: node_inv_def)
  then have sw: "slots_wf (n_hs s, handles_of s)" by (simp add: handles_wf_def)
  from register_ok [OF sw room] obtain h hs where
    r: "skynet_handle_register (handles_of s) a (n_hs s) = Some (h, hs)" "slots_wf (hs, (handles_of s)(a := h))"
    "lookup s h = None" "\<forall>c. Some c \<in> set (slot hs) \<longleftrightarrow> c = a \<or> Some c \<in> set (slot (n_hs s))" by blast
  from register_context_ok [OF hw(1) room] r(1) have
    w: "handles_wf (hs, (handles_of s)(a := h))"
      "handle_of (hs, (handles_of s)(a := h)) = (handle_of (n_hs s, handles_of s))(h \<mapsto> a)"
      "name_map hs = name_map (n_hs s)"
    by (auto simp: register_context_def)
  let ?s1 = "s\<lparr>n_ctx := (n_ctx s)(a \<mapsto> (fresh_context s md inst q)\<lparr>c_handle := h\<rparr>), n_hs := hs,
            n_mq := skynet_mq_create q h (n_mq s), n_total := n_total s + 1\<rparr>"
  have H: "handles_of ?s1 = (handles_of s)(a := h)" by (auto simp: handles_of_def)
  have gq: "gq_inv (n_mq ?s1) xs" "body (n_mq ?s1) = put_body (n_mq s) q (new_queue h)"
    using skynet_mq_create_ok [OF hw(2) q, of h] by simp_all
  have nq: "q \<notin> set xs" using hw(2) q by (auto simp: gq_inv_def)
  have live: "c_queue c' \<noteq> q \<and> 1 \<le> c_ref c' \<and> (\<exists>b. body (n_mq s) (c_queue c') = Some b \<and> queue_inv xs (c_queue c') b)"
    if c': "n_ctx s a' = Some c'" for a' c'
  proof -
    obtain b where b: "body (n_mq s) (c_queue c') = Some b" "queue_inv xs (c_queue c') b" "1 \<le> c_ref c'"
      using inv c' by (rule node_inv_ctx)
    then show ?thesis using q by (auto simp: body_def)
  qed
  have "node_inv ?s1 xs"
    unfolding node_inv_def
  proof (intro conjI allI impI)
    show "handles_wf (n_hs ?s1, handles_of ?s1)" unfolding H using w(1) by simp
    show "gq_inv (n_mq ?s1) xs" by (rule gq(1))
    fix a1 assume "Some a1 \<in> set (slot (n_hs ?s1))"
    then show "n_ctx ?s1 a1 \<noteq> None" using r(4) inv unfolding node_inv_def by auto
  next
    fix a1 c assume c: "n_ctx ?s1 a1 = Some c"
    show "1 \<le> c_ref c" using c live by (auto simp: fresh_context_def split: if_splits)
    show "\<exists>b. body (n_mq ?s1) (c_queue c) = Some b \<and> queue_inv xs (c_queue c) b"
      using c live unfolding gq(2)
      using new_queue_inv [of xs q h] by (auto simp: put_body_def fresh_context_def split: if_splits)
  next
    fix a1 a2 c c' assume c: "n_ctx ?s1 a1 = Some c" "n_ctx ?s1 a2 = Some c'" "c_queue c = c_queue c'"
    show "a1 = a2"
    proof (cases "a1 = a \<or> a2 = a")
      case True
      then show ?thesis
        using c live [of a1 c] live [of a2 c'] by (auto simp: fresh_context_def split: if_splits)
    next
      case False
      then show ?thesis using c inv unfolding node_inv_def by auto
    qed
  qed
  moreover have "lookup ?s1 h' = ((lookup s)(h \<mapsto> a)) h'" for h'
    unfolding H using fun_cong [OF w(2), of h'] by (simp add: handle_of_def)
  moreover have "inbox ?s1 a = Some []"
    unfolding inbox_def gq(2) by (simp add: put_body_def fresh_context_def)
  moreover have "inbox ?s1 a' = inbox s a'" if "a' \<noteq> a" for a'
    using that live [of a'] unfolding inbox_def gq(2) by (cases "n_ctx s a'") (auto simp: put_body_def)
  moreover have "skynet_handle_findname nm hs = skynet_handle_findname nm (n_hs s)" for nm
    using findname_ok [of hs nm] findname_ok [of "n_hs s" nm] w(1,3) hw(1) by (simp add: handles_wf_def)
  ultimately show ?thesis using r(1,3) unfolding Let_def by simp
qed

text \<open>An init function that installs the callback \<open>ud\<close> and returns \<open>r\<close>.\<close>

definition simple_init :: "host \<Rightarrow> nat \<Rightarrow> nat \<Rightarrow> nat \<Rightarrow> bytes option \<Rightarrow> nat option \<Rightarrow> int \<Rightarrow> bool" where
  "simple_init W md inst a param ud r \<longleftrightarrow>
     (\<forall>s. module_instance_init W md inst a param s = map_option (Pair r) (skynet_callback a ud s))"

lemma globalpush_ok:
  assumes inv: "node_inv s xs" and c: "n_ctx s a = Some c" and b: "body (n_mq s) (c_queue c) = Some b"
    and free: "c_queue c \<notin> set xs" "mq_in_global b \<noteq> 0"
  shows "\<exists>mq. skynet_globalmq_push (c_queue c) (n_mq s) = Some mq \<and> body mq = body (n_mq s) \<and>
    node_inv (s\<lparr>n_mq := mq\<rparr>) (xs @ [c_queue c])"
proof -
  obtain q where q: "mqs (n_mq s) (c_queue c) = Some q" using b by (auto simp: body_Some)
  have gq: "gq_inv (n_mq s) xs" using inv by (simp add: node_inv_def)
  from globalmq_push_ok [OF gq q free(1)] obtain mq where
    mq: "skynet_globalmq_push (c_queue c) (n_mq s) = Some mq" "gq_inv mq (xs @ [c_queue c])" "body mq = body (n_mq s)"
    by blast
  have "\<exists>b'. body mq (c_queue c') = Some b' \<and> queue_inv (xs @ [c_queue c]) (c_queue c') b'"
    if c': "n_ctx s a' = Some c'" for a' c'
  proof -
    obtain b' where b': "body (n_mq s) (c_queue c') = Some b'" "queue_inv xs (c_queue c') b'"
      using inv c' by (rule node_inv_ctx)
    then show ?thesis using mq(3) b free(2) by (auto simp: queue_inv_def)
  qed
  then have "node_inv (s\<lparr>n_mq := mq\<rparr>) (xs @ [c_queue c])"
    using inv mq(2) unfolding node_inv_def by simp
  then show ?thesis using mq by blast
qed

lemma name_logger_frame: "n_logger s = 0 \<Longrightarrow> n_logger s' = 0 \<Longrightarrow>
    skynet_handle_findname (bs ''logger'') (n_hs s) = Some 0 \<Longrightarrow>
    skynet_handle_findname (bs ''logger'') (n_hs s') = skynet_handle_findname (bs ''logger'') (n_hs s) \<Longrightarrow>
    skynet_error W ctx msg s' = Some s'"
  by (rule error_silent) simp_all

lemma launch_ok:
  assumes inv: "node_inv s xs" and a: "n_ctx s a = None" and q: "mqs (n_mq s) q = None"
    and room: "can_register (n_hs s, handles_of s) a"
    and host: "module_query W nm = Some md" "module_instance_create W md = Some inst"
      "simple_init W md inst a param ud 0"
    and log: "n_logger s = 0" "skynet_handle_findname (bs ''logger'') (n_hs s) = Some 0"
  shows "\<exists>h s' c. skynet_context_new W fuel a q nm param s = Some (Some a, s') \<and> node_inv s' (xs @ [q]) \<and>
    lookup s h = None \<and> (\<forall>h'. lookup s' h' = ((lookup s)(h \<mapsto> a)) h') \<and>
    n_ctx s' = (n_ctx s)(a \<mapsto> c) \<and> c_handle c = h \<and> c_ref c = 1 \<and> c_init c \<and> c_cb c = ud \<and>
    n_total s' = n_total s + 1 \<and>
    (\<forall>a'. inbox s' a' = (if a' = a then Some [] else inbox s a'))"
proof -
  from launch_prepared [OF inv a q room, of md inst] obtain h hs where
    r: "skynet_handle_register (handles_of s) a (n_hs s) = Some (h, hs)" "lookup s h = None" and
    p: "let s1 = s\<lparr>n_ctx := (n_ctx s)(a \<mapsto> (fresh_context s md inst q)\<lparr>c_handle := h\<rparr>), n_hs := hs,
            n_mq := skynet_mq_create q h (n_mq s), n_total := n_total s + 1\<rparr> in
     node_inv s1 xs \<and> (\<forall>h'. lookup s1 h' = ((lookup s)(h \<mapsto> a)) h') \<and>
     inbox s1 a = Some [] \<and> (\<forall>a'. a' \<noteq> a \<longrightarrow> inbox s1 a' = inbox s a') \<and>
     (\<forall>nm. skynet_handle_findname nm (n_hs s1) = skynet_handle_findname nm (n_hs s))"
    by blast
  define c1 where "c1 = (fresh_context s md inst q)\<lparr>c_handle := h\<rparr>"
  define s1 where "s1 = s\<lparr>n_ctx := (n_ctx s)(a \<mapsto> c1), n_hs := hs,
            n_mq := skynet_mq_create q h (n_mq s), n_total := n_total s + 1\<rparr>"
  note p1 = p [folded c1_def, folded s1_def, unfolded Let_def]
  define c where "c = c1\<lparr>c_cb := ud, c_ref := 1, c_init := True\<rparr>"
  define s2 where "s2 = s1\<lparr>n_ctx := (n_ctx s1)(a \<mapsto> c)\<rparr>"
  have c1: "n_ctx s1 a = Some c1" "c_queue c1 = q" "c_handle c1 = h" "c_ref c1 = 2"
    by (simp_all add: s1_def c1_def fresh_context_def)
  have inv1: "node_inv s1 xs" using p1 by blast
  have inv2: "node_inv s2 xs" unfolding s2_def by (rule node_inv_upd [OF inv1 c1(1)]) (simp_all add: c_def)
  have c2: "n_ctx s2 a = Some c" "c_queue c = q" using c1 by (simp_all add: s2_def c_def)
  have gq: "gq_inv (n_mq s) xs" using inv by (simp add: node_inv_def)
  have b: "body (n_mq s2) q = Some ((new_queue h)\<lparr>mq_next := None\<rparr>)"
    using skynet_mq_create_ok(2) [OF gq q, of h] by (simp add: s2_def s1_def put_body_def)
  have nq: "q \<notin> set xs" using gq q by (auto simp: gq_inv_def)
  have "mq_in_global ((new_queue h)\<lparr>mq_next := None\<rparr>) \<noteq> 0" by (simp add: new_queue_def MQ_IN_GLOBAL_def)
  from globalpush_ok [OF inv2 c2(1), unfolded c2(2), OF b nq this] obtain mq where
    mq: "skynet_globalmq_push q (n_mq s2) = Some mq" "body mq = body (n_mq s2)" "node_inv (s2\<lparr>n_mq := mq\<rparr>) (xs @ [q])"
    by blast
  let ?s3 = "s2\<lparr>n_mq := mq\<rparr>"
  have silent: "skynet_error W ctx msg ?s3 = Some ?s3" for ctx msg
    by (rule name_logger_frame [OF log(1) _ log(2)]) (use p1 log in \<open>simp_all add: s2_def s1_def\<close>)
  have H: "handles_of (s\<lparr>n_ctx := (n_ctx s)(a \<mapsto> fresh_context s md inst q)\<rparr>) = handles_of s"
    using a by (auto simp: handles_of_def fresh_context_def)
  have init: "module_instance_init W md inst a param s1 = Some (0, s1\<lparr>n_ctx := (n_ctx s1)(a \<mapsto> c1\<lparr>c_cb := ud\<rparr>)\<rparr>)"
    using host(3) c1(1) by (simp add: simple_init_def skynet_callback_def upd_ctx_def)
  have rel: "skynet_context_release W a (s1\<lparr>n_ctx := (n_ctx s1)(a \<mapsto> c1\<lparr>c_cb := ud\<rparr>)\<rparr>)
      = Some (Some a, s1\<lparr>n_ctx := (n_ctx s1)(a \<mapsto> c1\<lparr>c_cb := ud, c_ref := 1\<rparr>)\<rparr>)"
    using c1(4) by (simp add: skynet_context_release_def upd_ctx_def)
  have s2: "upd_ctx a (\<lambda>c. c\<lparr>c_init := True\<rparr>) (s1\<lparr>n_ctx := (n_ctx s1)(a \<mapsto> c1\<lparr>c_cb := ud, c_ref := 1\<rparr>)\<rparr>) = Some s2"
    by (simp add: upd_ctx_def s2_def c_def)
  have pre: "upd_ctx a (\<lambda>c. c\<lparr>c_handle := h\<rparr>)
       (s\<lparr>n_ctx := (n_ctx s)(a \<mapsto> fresh_context s md inst q), n_hs := hs\<rparr>)
      = Some (s\<lparr>n_ctx := (n_ctx s)(a \<mapsto> c1), n_hs := hs\<rparr>)"
    by (simp add: upd_ctx_def c1_def)
  have inc: "context_inc (s\<lparr>n_ctx := (n_ctx s)(a \<mapsto> c1), n_hs := hs, n_mq := skynet_mq_create q h (n_mq s)\<rparr>) = s1"
    by (simp add: context_inc_def s1_def)
  have run: "skynet_context_new W fuel a q nm param s = Some (Some a, ?s3)"
    using r(1) by (simp add: skynet_context_new_def host(1,2) H pre inc init rel s2 mq(1) silent)
  have "lookup ?s3 h' = ((lookup s)(h \<mapsto> a)) h'" for h'
  proof -
    have "handles_of ?s3 = handles_of s1" using handles_of_upd [OF c1(1), of c] by (simp add: s2_def c_def)
    moreover have "n_hs ?s3 = n_hs s1" by (simp add: s2_def)
    ultimately show ?thesis using p1 by simp
  qed
  moreover have "inbox ?s3 a' = (if a' = a then Some [] else inbox s a')" for a'
  proof -
    have "inbox ?s3 a' = inbox s2 a'" by (simp add: inbox_def mq(2))
    also have "\<dots> = inbox s1 a'" unfolding s2_def by (rule inbox_upd [OF c1(1)]) (simp add: c_def)
    finally show ?thesis using p1 by simp
  qed
  moreover have "n_ctx ?s3 = (n_ctx s)(a \<mapsto> c)" "n_total ?s3 = n_total s + 1" by (simp_all add: s2_def s1_def)
  moreover have "c_handle c = h" "c_ref c = 1" "c_init c" "c_cb c = ud" using c1 by (simp_all add: c_def)
  ultimately show ?thesis using run mq(3) r(2) by blast
qed

text \<open>A handle value that no entry of the table uses may change.\<close>

lemma slots_wf_unused:
  assumes "slots_wf (hs, H)" "Some a \<notin> set (slot hs)"
  shows "slots_wf (hs, H(a := h))"
proof -
  have ne: "c \<noteq> a" if "i < slot_size hs" "slot hs ! i = Some c" for i c
  proof
    assume "c = a"
    moreover have "i < length (slot hs)" using assms(1) that(1) by (auto simp: slots_wf_def)
    ultimately show False using assms(2) that(2) by (metis nth_mem)
  qed
  from assms(1) obtain k where "2 \<le> k" "k \<le> 24" "slot_size hs = 2 ^ k" "length (slot hs) = 2 ^ k"
    "\<forall>i c. i < 2 ^ k \<longrightarrow> slot hs ! i = Some c \<longrightarrow> hash_of (H c) (2 ^ k) = i"
    "harbor hs AND HANDLE_MASK = 0" "1 \<le> unat (handle_index hs)" "unat (handle_index hs) \<le> 2 ^ 24"
    by (rule slots_wfE)
  then show ?thesis using ne by (auto simp: slots_wf_def)
qed

lemma launch_failed:
  assumes inv: "node_inv s xs" and a: "n_ctx s a = None" and q: "mqs (n_mq s) q = None"
    and room: "can_register (n_hs s, handles_of s) a"
    and host: "module_query W nm = Some md" "module_instance_create W md = Some inst"
      "simple_init W md inst a param ud r" "r \<noteq> 0" "\<And>s. module_instance_release W md inst s = Some s"
    and log: "n_logger s = 0" "skynet_handle_findname (bs ''logger'') (n_hs s) = Some 0"
    and fuel: "0 < fuel"
  shows "\<exists>s'. skynet_context_new W fuel a q nm param s = Some (None, s') \<and> node_inv s' xs \<and>
    n_ctx s' = n_ctx s \<and> n_total s' = n_total s \<and> body (n_mq s') = body (n_mq s) \<and>
    (\<forall>h. lookup s' h = lookup s h)"
proof -
  from launch_prepared [OF inv a q room, of md inst] obtain h hs where
    r: "skynet_handle_register (handles_of s) a (n_hs s) = Some (h, hs)" "lookup s h = None" and
    p: "let s1 = s\<lparr>n_ctx := (n_ctx s)(a \<mapsto> (fresh_context s md inst q)\<lparr>c_handle := h\<rparr>), n_hs := hs,
            n_mq := skynet_mq_create q h (n_mq s), n_total := n_total s + 1\<rparr> in
     node_inv s1 xs \<and> (\<forall>h'. lookup s1 h' = ((lookup s)(h \<mapsto> a)) h') \<and>
     inbox s1 a = Some [] \<and> (\<forall>a'. a' \<noteq> a \<longrightarrow> inbox s1 a' = inbox s a') \<and>
     (\<forall>nm. skynet_handle_findname nm (n_hs s1) = skynet_handle_findname nm (n_hs s))"
    by blast
  define c1 where "c1 = (fresh_context s md inst q)\<lparr>c_handle := h, c_cb := ud\<rparr>"
  define s1 where "s1 = s\<lparr>n_ctx := (n_ctx s)(a \<mapsto> (fresh_context s md inst q)\<lparr>c_handle := h\<rparr>), n_hs := hs,
            n_mq := skynet_mq_create q h (n_mq s), n_total := n_total s + 1\<rparr>"
  note p1 = p [folded s1_def, unfolded Let_def]
  define s2 where "s2 = s1\<lparr>n_ctx := (n_ctx s1)(a \<mapsto> c1)\<rparr>"
  define s3 where "s3 = s1\<lparr>n_ctx := (n_ctx s1)(a \<mapsto> c1\<lparr>c_ref := 1\<rparr>)\<rparr>"
  have c1: "n_ctx s1 a = Some ((fresh_context s md inst q)\<lparr>c_handle := h\<rparr>)"
    "c_queue c1 = q" "c_handle c1 = h" "c_ref c1 = 2" "c_mod c1 = md" "c_instance c1 = inst"
    by (simp_all add: s1_def c1_def fresh_context_def)
  have gq: "gq_inv (n_mq s) xs" using inv by (simp add: node_inv_def)
  have nq: "q \<notin> set xs" using gq q by (auto simp: gq_inv_def)
  have H: "handles_of (s\<lparr>n_ctx := (n_ctx s)(a \<mapsto> fresh_context s md inst q)\<rparr>) = handles_of s"
    using a by (auto simp: handles_of_def fresh_context_def)
  have Ha: "handles_of s a = 0" using a by (simp add: handles_of_def)
  have H3: "handles_of s3 = (handles_of s)(a := h)"
    by (auto simp: handles_of_def s3_def s1_def c1_def fresh_context_def)
  have inv1: "node_inv s1 xs" using p1 by blast
  have hw: "handles_wf (hs, handles_of s1)" using inv1 by (simp add: node_inv_def s1_def)
  have H1: "handles_of s1 = (handles_of s)(a := h)"
    by (auto simp: handles_of_def s1_def fresh_context_def)
  have sw: "slots_wf (hs, (handles_of s)(a := h))" "names_wf hs" using hw unfolding H1 by (simp_all add: handles_wf_def)
  have lk: "skynet_handle_grab ((handles_of s)(a := h)) h' hs = ((lookup s)(h \<mapsto> a)) h'" for h'
    using p1 unfolding H1 by (simp add: s1_def)
  from retire_ok [OF sw, of h] obtain hs' where
    hs': "skynet_handle_retire ((handles_of s)(a := h)) h hs = Some (Some a, hs')"
    "slots_wf (hs', (handles_of s)(a := h))" "names_wf hs'"
    "\<forall>h'. skynet_handle_grab ((handles_of s)(a := h)) h' hs' = (if h' = h then None else ((lookup s)(h \<mapsto> a)) h')"
    unfolding lk by auto
  have lk': "skynet_handle_grab ((handles_of s)(a := h)) h' hs' = lookup s h'" for h'
    using hs'(4) r(2) by simp
  have out: "Some a \<notin> set (slot hs')"
    using grab_iff [OF hs'(2), of h a] hs'(4) by simp
  have sw': "slots_wf (hs', handles_of s)"
    using slots_wf_unused [OF hs'(2) out, of "handles_of s a"] by (simp add: fun_upd_idem)
  have lk2: "skynet_handle_grab (handles_of s) h' hs' = lookup s h'" for h'
    unfolding lk' [symmetric]
    by (rule option_eqI) (use out in \<open>auto simp: grab_iff [OF sw'] grab_iff [OF hs'(2)]\<close>)
  have silent: "skynet_error W ctx msg s2 = Some s2" for ctx msg
    by (rule name_logger_frame [OF log(1) _ log(2)]) (use p1 log in \<open>simp_all add: s2_def s1_def\<close>)
  let ?q0 = "(new_queue h)\<lparr>mq_next := None\<rparr>"
  have nqh: "mq_in_global (new_queue h) = MQ_IN_GLOBAL" "mq_release (new_queue h) = 0" "mq_next (new_queue h) = None"
    by (simp_all add: new_queue_def)
  have q1: "mqs (skynet_mq_create q h (n_mq s)) q = Some (new_queue h)" by (simp add: skynet_mq_create_def)
  note gq1 = skynet_mq_create_ok [OF gq q, of h]
  from skynet_mq_mark_release_ok [OF gq1(1) q1 nqh(2)] nqh(1) obtain m1 where
    m1: "skynet_mq_mark_release q (skynet_mq_create q h (n_mq s)) = Some m1" "gq_inv m1 xs"
    "body m1 = put_body (skynet_mq_create q h (n_mq s)) q ((new_queue h)\<lparr>mq_release := 1\<rparr>)" by auto
  have "body m1 q = Some ((new_queue h)\<lparr>mq_release := 1, mq_next := None\<rparr>)" by (simp add: m1(3) put_body_def)
  then obtain qr where qr: "mqs m1 q = Some qr" "qr\<lparr>mq_next := None\<rparr> = (new_queue h)\<lparr>mq_release := 1, mq_next := None\<rparr>"
    by (auto simp: body_Some)
  have qr': "mq_release qr = 1" "mq_wf qr" "mq_list qr = []"
  proof -
    show "mq_release qr = 1" using arg_cong [OF qr(2), of mq_release] by simp
    have "mq_wf (qr\<lparr>mq_next := None\<rparr>)" "mq_list (qr\<lparr>mq_next := None\<rparr>) = []" unfolding qr(2) by simp_all
    then show "mq_wf qr" "mq_list qr = []" by simp_all
  qed
  from skynet_mq_pop_ok [OF m1(2) qr(1) qr'(2)] qr'(3) obtain m2 q2 where
    m2: "skynet_mq_pop q m1 = Some (None, m2)" "gq_inv m2 xs" "body m2 = put_body m1 q q2" by auto
  have "mqs m2 q \<noteq> None"
  proof -
    have "body m2 q \<noteq> None" by (simp add: m2(3) put_body_def)
    then show ?thesis by (simp add: body_def)
  qed
  then obtain q3 where q3: "mqs m2 q = Some q3" by blast
  from mq_free_ok [OF m2(2) q3 nq] obtain m3 where
    m3: "mq_free q m2 = Some m3" "gq_inv m3 xs" "body m3 = (body m2)(q := None)" by blast
  have body: "body m3 = body (n_mq s)"
  proof -
    have "body (n_mq s) q = None" using q by (simp add: body_def)
    then show ?thesis unfolding m3(3) m2(3) put_body_def m1(3) gq1(2) by (auto simp: fun_eq_iff)
  qed
  define s4 where "s4 = s\<lparr>n_hs := hs', n_mq := m3\<rparr>"
  have init: "module_instance_init W md inst a param s1 = Some (r, s2)"
    using host(3) c1(1) by (simp add: simple_init_def skynet_callback_def upd_ctx_def s2_def c1_def)
  have c2: "n_ctx s2 a = Some c1" by (simp add: s2_def)
  have rel: "skynet_context_release W a s2 = Some (Some a, s3)"
    using c1(4) by (simp add: skynet_context_release_def upd_ctx_def s2_def s3_def)
  have ret: "handle_retire W h s3 = Some (s\<lparr>n_hs := hs', n_mq := m1\<rparr>)"
  proof -
    have n3: "n_hs s3 = hs" "n_ctx s3 a = Some (c1\<lparr>c_ref := 1\<rparr>)" "n_mq s3 = skynet_mq_create q h (n_mq s)"
      by (simp_all add: s3_def s1_def)
    have "context_dec (s3\<lparr>n_hs := hs', n_mq := m1, n_ctx := (n_ctx s3)(a := None)\<rparr>) = s\<lparr>n_hs := hs', n_mq := m1\<rparr>"
      using a by (simp add: context_dec_def s3_def s1_def fun_upd_idem)
    then show ?thesis
      using hs'(1) m1(1) c1
      by (simp add: handle_retire_def H3 n3 skynet_context_release_def upd_ctx_def delete_context_def host(5))
  qed
  obtain n where n: "fuel = Suc n" using fuel by (cases fuel) auto
  have drop: "release_queue W fuel h q (s\<lparr>n_hs := hs', n_mq := m1\<rparr>) = Some s4"
    by (simp add: release_queue_def skynet_mq_release_def qr(1) qr'(1) n m2(1) m3(1) s4_def)
  have pre: "upd_ctx a (\<lambda>c. c\<lparr>c_handle := h\<rparr>)
       (s\<lparr>n_ctx := (n_ctx s)(a \<mapsto> fresh_context s md inst q), n_hs := hs\<rparr>)
      = Some (s\<lparr>n_ctx := (n_ctx s)(a \<mapsto> (fresh_context s md inst q)\<lparr>c_handle := h\<rparr>), n_hs := hs\<rparr>)"
    by (simp add: upd_ctx_def)
  have inc: "context_inc (s\<lparr>n_ctx := (n_ctx s)(a \<mapsto> (fresh_context s md inst q)\<lparr>c_handle := h\<rparr>), n_hs := hs,
      n_mq := skynet_mq_create q h (n_mq s)\<rparr>) = s1"
    by (simp add: context_inc_def s1_def)
  have run: "skynet_context_new W fuel a q nm param s = Some (None, s4)"
    using r(1) by (simp add: skynet_context_new_def host(1,2,4) H pre inc init silent c2 rel c1(3) ret drop)
  have "handles_of s4 = handles_of s" "n_hs s4 = hs'" "n_ctx s4 = n_ctx s" "n_mq s4 = m3" "n_total s4 = n_total s"
    by (simp_all add: s4_def handles_of_def fun_eq_iff)
  moreover have "Some a' \<in> set (slot hs') \<Longrightarrow> n_ctx s a' \<noteq> None" for a'
  proof -
    assume m: "Some a' \<in> set (slot hs')"
    then have "lookup s (handles_of s a') = Some a'" using lk2 grab_iff [OF sw'] by metis
    then show ?thesis by (metis inv lookup_ctx option.distinct(1))
  qed
  ultimately have "node_inv s4 xs"
    using inv m3(2) body sw' hs'(3) unfolding node_inv_def by (auto simp: handles_wf_def)
  then show ?thesis using run body lk2 by (intro exI [of _ s4]) (simp add: s4_def)
qed

section \<open>Sending: facts\<close>

lemma bit_flags:
  "bit (0xff :: int) n \<longleftrightarrow> n < 8" "bit (0x10000 :: int) n \<longleftrightarrow> n = 16" "bit (0x20000 :: int) n \<longleftrightarrow> n = 17"
proof -
  have "(0xff :: int) = mask 8" "(0x10000 :: int) = push_bit 16 1" "(0x20000 :: int) = push_bit 17 1"
    by (simp_all add: mask_eq_exp_minus_1)
  then show "bit (0xff :: int) n \<longleftrightarrow> n < 8" "bit (0x10000 :: int) n \<longleftrightarrow> n = 16" "bit (0x20000 :: int) n \<longleftrightarrow> n = 17"
    by (simp_all only: bit_mask_iff bit_push_bit_iff bit_1_iff) auto
qed

text \<open>A plain type has no tag bits.\<close>

lemma plain_type:
  assumes "0 \<le> ty" "ty < 256"
  shows "ty AND PTYPE_TAG_ALLOCSESSION = 0" "ty AND PTYPE_TAG_DONTCOPY = 0" "ty AND 0xff = ty"
proof -
  have t: "take_bit 8 ty = ty" using assms by (simp add: take_bit_int_eq_self)
  have b: "bit ty n \<Longrightarrow> n < 8" for n by (subst (asm) t [symmetric]) (simp add: bit_take_bit_iff)
  show "ty AND PTYPE_TAG_ALLOCSESSION = 0" "ty AND PTYPE_TAG_DONTCOPY = 0" "ty AND 0xff = ty"
    unfolding PTYPE_TAG_ALLOCSESSION_def PTYPE_TAG_DONTCOPY_def
    by (rule bit_eqI; auto simp: bit_and_iff bit_flags dest: b)+
qed

lemma MASK_mask: "MESSAGE_TYPE_MASK = mask 56"
proof -
  have "drop_bit 8 (- 1 :: u64) = mask 56" by (rule bit_word_eqI) (auto simp: bit_simps)
  then show ?thesis by (simp add: MESSAGE_TYPE_MASK_def)
qed

lemma size_type_bits:
  assumes "sz AND MESSAGE_TYPE_MASK = sz" "0 \<le> ty" "ty < 256"
  shows "(sz OR type_bits ty) AND MESSAGE_TYPE_MASK = sz"
    and "uint (drop_bit MESSAGE_TYPE_SHIFT (sz OR type_bits ty)) = ty"
proof -
  have s: "bit sz n \<Longrightarrow> n < 56" for n
    by (subst (asm) assms(1) [symmetric]) (simp add: MASK_mask bit_simps)
  show "(sz OR type_bits ty) AND MESSAGE_TYPE_MASK = sz"
    by (rule bit_word_eqI) (auto simp: MASK_mask type_bits_def MESSAGE_TYPE_SHIFT_def bit_simps dest: s)
  have "drop_bit 56 (sz OR push_bit 56 (of_int ty)) = (of_int (take_bit 8 ty) :: u64)"
    by (rule bit_word_eqI) (auto simp: bit_simps dest: s)
  moreover have "take_bit 8 ty = ty" using assms(2,3) by (simp add: take_bit_int_eq_self)
  moreover have "uint (of_int ty :: u64) = ty" using assms(2,3) by (simp add: unsigned_of_int take_bit_int_eq_self)
  ultimately show "uint (drop_bit MESSAGE_TYPE_SHIFT (sz OR type_bits ty)) = ty"
    by (simp add: type_bits_def MESSAGE_TYPE_SHIFT_def)
qed

definition sent_message :: "u32 \<Rightarrow> int \<Rightarrow> bytes \<Rightarrow> u64 \<Rightarrow> int \<Rightarrow> skynet_message" where
  "sent_message source session d sz ty =
     \<lparr>msg_source = source, msg_session = session, msg_data = Bytes (take (unat sz) d @ [0]),
      msg_sz = sz OR type_bits ty\<rparr>"

lemma filter_args_plain:
  assumes "0 \<le> ty" "ty < 256" "unat sz \<le> length d"
  shows "filter_args ctx ty session (Bytes d) sz s
    = Some ((session, Bytes (take (unat sz) d @ [0]), sz OR type_bits ty), s)"
  using assms(3) plain_type [OF assms(1,2)] by (simp add: filter_args_def)

lemma send_local:
  assumes "sz AND MESSAGE_TYPE_MASK = sz" "unat sz \<le> length d" "0 \<le> ty" "ty < 256"
    and "n_ctx s a = Some c" "dest \<noteq> 0" "skynet_harbor_message_isremote dest s = Some False"
  shows "skynet_send W (Some a) source dest ty session (Bytes d) sz s = do {
      (r, s') \<leftarrow> skynet_context_push W dest (sent_message (if source = 0 then c_handle c else source) session d sz ty) s;
      Some (if r \<noteq> 0 then -1 else session, s')
    }"
  using assms(1,5-) by (simp add: skynet_send_def filter_args_plain [OF assms(3,4,2)] sent_message_def)

section \<open>Properties\<close>

text \<open>
  C15: sending bytes to a local service that the handle table knows returns the session and appends
  one message to the queue of that service, with a copy of the bytes, the sender's own handle when
  no source is given, and the type in the top byte of the size; every other queue, the contexts
  with their reference counts and the handle table are unchanged.
\<close>

theorem send_delivers:
  assumes "node_inv s xs" "n_ctx s a = Some c" "lookup s dest = Some b"
    and "dest \<noteq> 0" "skynet_harbor_message_isremote dest s = Some False"
    and "sz AND MESSAGE_TYPE_MASK = sz" "unat sz \<le> length d" "0 \<le> ty" "ty < 256"
  shows "\<exists>s' ys. skynet_send W (Some a) source dest ty session (Bytes d) sz s = Some (session, s') \<and>
    node_inv s' ys \<and> n_ctx s' = n_ctx s \<and> n_hs s' = n_hs s \<and>
    (\<forall>a'. inbox s' a' = (if a' = b
       then map_option (\<lambda>ms. ms @ [sent_message (if source = 0 then c_handle c else source) session d sz ty]) (inbox s b)
       else inbox s a'))"
  using context_push_ok [OF assms(1,3), of W "sent_message (if source = 0 then c_handle c else source) session d sz ty"]
  by (elim exE conjE) (simp add: send_local [OF assms(6-9,2,4,5)], blast)

text \<open>
  Sending to a handle that the table does not know returns -1 and changes nothing; a message
  whose size reaches into the type byte is refused with -2; both for a node without a logger.
\<close>

theorem send_refused:
  assumes "n_ctx s a = Some c" "dest \<noteq> 0" "skynet_harbor_message_isremote dest s = Some False"
    and "n_logger s = 0" "skynet_handle_findname (bs ''logger'') (n_hs s) = Some 0"
    and "0 \<le> ty" "ty < 256" "unat sz \<le> length d" "lookup s dest = None"
  shows "skynet_send W (Some a) source dest ty session (Bytes d) sz s =
    Some (if sz AND MESSAGE_TYPE_MASK = sz then - 1 else - 2, s)"
proof (cases "sz AND MESSAGE_TYPE_MASK = sz")
  case True
  then show ?thesis
    by (simp add: send_local [OF True assms(8,6,7,1,2,3)] context_push_unknown [OF assms(9)])
next
  case False
  then show ?thesis by (simp add: skynet_send_def error_silent [OF assms(4,5)])
qed



text \<open>
  The sessions of a service stay positive 32-bit numbers: from any valid counter the next session
  is the next number, and 1 again after the largest.
\<close>

theorem newsession_positive:
  assumes "n_ctx s a = Some c" "0 \<le> c_session_id c" "c_session_id c < 2 ^ 31"
  shows "\<exists>id. skynet_context_newsession a s = Some (id, s\<lparr>n_ctx := (n_ctx s)(a \<mapsto> c\<lparr>c_session_id := id\<rparr>)\<rparr>) \<and>
    1 \<le> id \<and> id < 2 ^ 31 \<and> id = (if c_session_id c = 2 ^ 31 - 1 then 1 else c_session_id c + 1)"
proof (cases "c_session_id c = 2 ^ 31 - 1")
  case True
  then have "signed_take_bit 31 (c_session_id c + 1) = - (2 ^ 31)" by simp
  then show ?thesis using assms True by (simp add: skynet_context_newsession_def)
next
  case False
  then have "signed_take_bit 31 (c_session_id c + 1) = c_session_id c + 1"
    using assms(2,3) by (intro signed_take_bit_int_eq_self) simp_all
  then show ?thesis using assms False by (simp add: skynet_context_newsession_def Let_def)
qed

lemma upper_hex_digits:
  "\<forall>k \<in> set [0..<16]. digit_value (upper_hex ! k) = Some k \<and> \<not> is_space (upper_hex ! k) \<and> upper_hex ! k \<notin> {45, 43, 120, 88}"
  by code_simp

lemma nibble_step: "(n :: nat) div 16 ^ Suc k * 16 + n div 16 ^ k mod 16 = n div 16 ^ k"
proof -
  have "n div 16 ^ Suc k = n div 16 ^ k div 16" by (simp only: power_Suc2 div_mult2_eq)
  then show ?thesis by simp
qed

lemma unat_nibble: "unat (drop_bit (k * 4) (h :: u32) AND 0xf) = unat h div 16 ^ k mod 16"
proof -
  have "(0xf :: u32) = mask 4" by (simp add: mask_eq_exp_minus_1)
  moreover have "(2 :: nat) ^ (k * 4) = 16 ^ k" by (simp only: mult.commute [of k 4] power_mult) simp
  ultimately show ?thesis by (simp only: unat_and_mask unat_drop_bit_div) simp
qed

text \<open>
  the text that LAUNCH returns for a service, a colon and eight capital hexadecimal digits, is
  read back to the same handle by the functions that take an address.
\<close>

lemma id_to_hex_queryname: "skynet_queryname W a (id_to_hex h) s = Some (h, s)"
proof -
  define d where "d k = unat h div 16 ^ k mod 16" for k
  have cs: "tl (id_to_hex h) = map (\<lambda>k. upper_hex ! d k) [7, 6, 5, 4, 3, 2, 1, 0]"
    by (simp add: id_to_hex_def unat_nibble d_def upt_rec)
  have u: "digit_value (upper_hex ! d k) = Some (d k)" "\<not> is_space (upper_hex ! d k)"
    "upper_hex ! d k \<noteq> 45" "upper_hex ! d k \<noteq> 43" "upper_hex ! d k \<noteq> 120" "upper_hex ! d k \<noteq> 88" "d k < 16" for k
    using bspec [OF upper_hex_digits, of "d k"] by (auto simp: d_def)
  have "unat h div 16 ^ 8 = 0" using unat_u32_less [of h] by simp
  then have "digits 16 0 (tl (id_to_hex h)) = digits 16 (unat h div 16 ^ 8) (tl (id_to_hex h))" by simp
  also have "\<dots> = unat h"
  proof -
    have st: "unat h div 16 ^ Suc k * 16 + d k = unat h div 16 ^ k" for k unfolding d_def by (rule nibble_step)
    show ?thesis
      unfolding cs using st [of 7] st [of 6] st [of 5] st [of 4] st [of 3] st [of 2] st [of 1] st [of 0]
      by (simp add: u)
  qed
  finally have v: "digits 16 0 (tl (id_to_hex h)) = unat h" .
  have sg: "split_sign (tl (id_to_hex h)) = (False, tl (id_to_hex h))"
    unfolding cs by (simp add: split_sign_def u)
  have sx: "strip_0x (tl (id_to_hex h)) = tl (id_to_hex h)"
    unfolding cs by (simp add: strip_0x_def u)
  have "unat h < 2 ^ 64" using unat_u32_less [of h] by simp
  then have "strtoul16 (tl (id_to_hex h)) = h" by (simp add: strtoul16_def sg sx v)
  moreover have "id_to_hex h \<noteq> []" "hd (id_to_hex h) = 58" by (simp_all add: id_to_hex_def)
  ultimately show ?thesis by (simp add: skynet_queryname_def)
qed

section \<open>Witnesses\<close>

text \<open>A node without services, a node with one service, and a host with one module.\<close>

definition demo_host :: "int \<Rightarrow> host" where
  "demo_host r = \<lparr>module_query = (\<lambda>_. Some 1), module_instance_create = (\<lambda>_. Some 2),
     module_instance_init = (\<lambda>md inst a param s. map_option (Pair r) (skynet_callback a (Some 3) s)),
     module_instance_release = (\<lambda>md inst s. Some s), module_instance_signal = (\<lambda>md inst sig s. Some s),
     callback = (\<lambda>ud a ty session source d sz s. Some (False, s)), thread_time = (\<lambda>_. 0), file_opens = (\<lambda>_. False)\<rparr>"

definition empty_node :: system where
  "empty_node = \<lparr>n_ctx = (\<lambda>_. None), n_mq = skynet_mq_init, n_hs = skynet_handle_init 1,
     n_timer = timer_create_timer, n_env = (\<lambda>_. None), n_total = 0, n_monitor_exit = 0, n_profile = False,
     n_current = 0, n_logger = 0, n_harbor = 0x01000000, n_remote = None, n_reads = 0, n_files = []\<rparr>"

definition demo_ctx :: skynet_context where
  "demo_ctx = (fresh_context empty_node 1 2 9)\<lparr>c_handle := 0x01000001, c_ref := 1, c_init := True\<rparr>"

definition demo_node :: system where
  "demo_node = empty_node\<lparr>n_ctx := [5 \<mapsto> demo_ctx], n_total := 1,
     n_mq := skynet_mq_create 9 0x01000001 skynet_mq_init,
     n_hs := (skynet_handle_init 1)\<lparr>slot := [None, Some 5, None, None], handle_index := 2\<rparr>\<rparr>"

lemma empty_node_inv: "node_inv empty_node []"
proof -
  have "handles_wf (skynet_handle_init 1, handles_of empty_node)" by (rule handle_init_ok)
  then show ?thesis
    using skynet_mq_init_inv
    by (simp add: node_inv_def empty_node_def) (simp add: skynet_handle_init_def DEFAULT_SLOT_SIZE_def)
qed

lemma empty_node_room: "can_register (n_hs empty_node, handles_of empty_node) 5"
  by (auto simp: empty_node_def can_register_def skynet_handle_init_def DEFAULT_SLOT_SIZE_def intro!: exI [of _ 1])

lemma empty_node_logger: "skynet_handle_findname nm (n_hs empty_node) = Some 0"
  by (simp add: empty_node_def skynet_handle_init_def skynet_handle_findname_def bsearch.simps)

lemma demo_simple_init: "simple_init (demo_host r) 1 2 a param (Some 3) r"
  by (simp add: simple_init_def demo_host_def)



lemma demo_node_handles: "handles_of demo_node = (\<lambda>_. 0)(5 := 0x01000001)"
  by (auto simp: handles_of_def demo_node_def demo_ctx_def)

lemma demo_node_inv: "node_inv demo_node []"
proof -
  have "hash_of (0x01000001 :: u32) (2 ^ 2) = 1" by (simp add: hash_of_def)
  moreover have "slot_size (skynet_handle_init 1) = 2 ^ 2" by (simp add: skynet_handle_init_def DEFAULT_SLOT_SIZE_def)
  moreover have "handles_wf (skynet_handle_init 1, \<lambda>_. 0)" by (rule handle_init_ok)
  moreover have "i < 4 \<Longrightarrow> [None, Some 5, None, None] ! i = Some c \<Longrightarrow> i = 1 \<and> c = (5 :: nat)" for i c
    by (cases i) (auto simp: nth_Cons split: nat.splits)
  ultimately have h: "handles_wf (n_hs demo_node, handles_of demo_node)"
    unfolding demo_node_handles by (auto simp: handles_wf_def slots_wf_def demo_node_def names_wf_def entries_def)
  have "mqs skynet_mq_init 9 = None" by (simp add: skynet_mq_init_def)
  note q = skynet_mq_create_ok [OF skynet_mq_init_inv this, of "0x01000001"]
  have c: "n_ctx demo_node a = Some c \<longleftrightarrow> a = 5 \<and> c = demo_ctx" for a c by (auto simp: demo_node_def)
  have b: "body (n_mq demo_node) 9 = Some ((new_queue 0x01000001)\<lparr>mq_next := None\<rparr>)"
    using q(2) by (simp add: demo_node_def put_body_def)
  have d: "c_queue demo_ctx = 9" "c_ref demo_ctx = 1" by (simp_all add: demo_ctx_def fresh_context_def)
  have "gq_inv (n_mq demo_node) []" using q(1) by (simp add: demo_node_def)
  moreover have "Some a \<in> set (slot (n_hs demo_node)) \<Longrightarrow> n_ctx demo_node a \<noteq> None" for a
    by (auto simp: demo_node_def)
  ultimately show ?thesis using h b new_queue_inv [of "[]" 9 "0x01000001"] unfolding node_inv_def c by (auto simp: d)
qed

lemma demo_lookup: "lookup demo_node 0x01000001 = Some 5" "lookup demo_node 2 = None"
  unfolding demo_node_handles
  by (simp_all add: skynet_handle_grab_def demo_node_def skynet_handle_init_def DEFAULT_SLOT_SIZE_def hash_of_def)

lemma demo_local: "skynet_harbor_message_isremote 0x01000001 demo_node = Some False"
  "skynet_harbor_message_isremote 2 demo_node = Some False"
  by (simp_all add: skynet_harbor_message_isremote_def demo_node_def empty_node_def HANDLE_MASK_def)

lemma demo_fields: "n_ctx demo_node 5 = Some demo_ctx" "n_logger demo_node = 0" "c_handle demo_ctx = 0x01000001"
  "c_session_id demo_ctx = 0"
  "skynet_handle_findname nm (n_hs demo_node) = Some 0"
  by (simp_all add: demo_node_def empty_node_def demo_ctx_def fresh_context_def
      skynet_handle_init_def skynet_handle_findname_def bsearch.simps)

lemma demo_size: "(3 :: u64) AND MESSAGE_TYPE_MASK = 3"
  unfolding MASK_mask take_bit_eq_mask [symmetric] by simp

lemma send_delivers_witness:
  "\<exists>s'. skynet_send (demo_host 0) (Some 5) 0 0x01000001 0 7 (Bytes [1, 2, 3]) 3 demo_node = Some (7, s') \<and>
    n_ctx s' = n_ctx demo_node"
  using send_delivers [OF demo_node_inv demo_fields(1) demo_lookup(1) _ demo_local(1) demo_size, of "[1, 2, 3]" 0
      "demo_host 0" 0 7] by auto

lemma send_refused_witness:
  "skynet_send (demo_host 0) (Some 5) 0 2 0 7 (Bytes [1, 2, 3]) 3 demo_node = Some (- 1, demo_node)"
  using send_refused [OF demo_fields(1) _ demo_local(2) demo_fields(2,5) _ _ _ demo_lookup(2), of 0 3 "[1, 2, 3]"]
    demo_size by simp

lemma newsession_positive_witness:
  "\<exists>id s'. skynet_context_newsession 5 demo_node = Some (id, s') \<and> id = 1"
  using newsession_positive [OF demo_fields(1)] by (auto simp: demo_fields(4))

end
