(* ===== verification/Seri.thy ===== *)
theory Seri
  imports Prelude "HOL-Library.Multiset"
begin

text \<open>
  The serializer of Lua values, \<open>lualib-src/lua-seri.c\<close>: the chain of 128-byte blocks that
  receives the stream, the packer over the Lua heap with its depth limit, and the reader of a
  received buffer. A Lua table is an address of the heap, so shared and cyclic tables are
  covered; the reader builds fresh tables, which are trees.

  Multi-byte values are copied with \<open>memcpy\<close>: the byte order is the one of the machine, here
  little endian. The errors are the Lua errors that the functions raise.
\<close>

section \<open>Lua values\<close>

text \<open>Integers and floats are their 64 bits, a light userdata is its address.\<close>

datatype atom = LNil | LBoolean bool | LInteger u64 | LNumber u64 | LString bytes | LPointer u64

text \<open>\<open>Other\<close> stands for functions, threads and full userdata, with the name of the type.\<close>

datatype lval = Atom atom | Tab nat | Other bytes

text \<open>
  A table: what \<open>lua_rawlen\<close> returns, its pairs in the order of \<open>lua_next\<close>, and, when its
  metatable has \<open>__pairs\<close>, the pairs that the iterator returns.
\<close>

record ltable =
  raw_len :: nat
  entries :: "(lval \<times> lval) list"
  pairs_of :: "(lval \<times> lval) list option"

type_synonym lheap = "nat \<Rightarrow> ltable"

datatype tree = Leaf atom | Node "(tree \<times> tree) list"

datatype seri_error = TooDeep | Unsupported bytes | InvalidStream int | NilKey | NanKey
  | TooBig | NullPointer | BadRead | OutOfFuel

fun on_ok :: "'e + 'a \<Rightarrow> ('a \<Rightarrow> 'e + 'b) \<Rightarrow> 'e + 'b" where
  "on_ok (Inl e) f = Inl e"
| "on_ok (Inr x) f = f x"

lemma on_ok_cong [fundef_cong]:
  "m = m' \<Longrightarrow> (\<And>x. m' = Inr x \<Longrightarrow> f x = g x) \<Longrightarrow> on_ok m f = on_ok m' g"
  by (cases m') auto

text \<open>Conversion to a C int.\<close>

definition c_int :: "int \<Rightarrow> int" where "c_int x = sint (word_of_int x :: u32)"

section \<open>The stream being written\<close>

definition TYPE_NIL :: int where "TYPE_NIL = 0"
definition TYPE_BOOLEAN :: int where "TYPE_BOOLEAN = 1"
definition TYPE_NUMBER :: int where "TYPE_NUMBER = 2"
definition TYPE_NUMBER_ZERO :: int where "TYPE_NUMBER_ZERO = 0"
definition TYPE_NUMBER_BYTE :: int where "TYPE_NUMBER_BYTE = 1"
definition TYPE_NUMBER_WORD :: int where "TYPE_NUMBER_WORD = 2"
definition TYPE_NUMBER_DWORD :: int where "TYPE_NUMBER_DWORD = 4"
definition TYPE_NUMBER_QWORD :: int where "TYPE_NUMBER_QWORD = 6"
definition TYPE_NUMBER_REAL :: int where "TYPE_NUMBER_REAL = 8"
definition TYPE_USERDATA :: int where "TYPE_USERDATA = 3"
definition TYPE_SHORT_STRING :: int where "TYPE_SHORT_STRING = 4"
definition TYPE_LONG_STRING :: int where "TYPE_LONG_STRING = 5"
definition TYPE_TABLE :: int where "TYPE_TABLE = 6"
definition MAX_COOKIE :: int where "MAX_COOKIE = 32"
definition BLOCK_SIZE :: nat where "BLOCK_SIZE = 128"
definition MAX_DEPTH :: nat where "MAX_DEPTH = 32"

lemmas type_defs = TYPE_NIL_def TYPE_BOOLEAN_def TYPE_NUMBER_def TYPE_NUMBER_ZERO_def
  TYPE_NUMBER_BYTE_def TYPE_NUMBER_WORD_def TYPE_NUMBER_DWORD_def TYPE_NUMBER_QWORD_def
  TYPE_NUMBER_REAL_def TYPE_USERDATA_def TYPE_SHORT_STRING_def TYPE_LONG_STRING_def
  TYPE_TABLE_def MAX_COOKIE_def

definition COMBINE_TYPE :: "int \<Rightarrow> int \<Rightarrow> u8" where
  "COMBINE_TYPE ty v = word_of_int (ty OR push_bit 3 v)"

text \<open>
  The chain from the head to the current block: \<open>wb_full\<close> are the blocks before the current one.
  A byte that was never written is None.
\<close>

record write_block =
  wb_full :: "u8 option list list"
  wb_current :: "u8 option list"
  wb_len :: int
  wb_ptr :: nat

definition blk_alloc :: "u8 option list" where "blk_alloc = replicate BLOCK_SIZE None"

definition wb_init :: write_block where
  "wb_init = \<lparr>wb_full = [], wb_current = blk_alloc, wb_len = 0, wb_ptr = 0\<rparr>"

text \<open>The two statements at the label \<open>_again\<close>.\<close>

definition wb_again :: "write_block \<Rightarrow> write_block" where
  "wb_again b = b\<lparr>wb_full := wb_full b @ [wb_current b], wb_current := blk_alloc, wb_ptr := 0\<rparr>"

definition wb_copy :: "bytes \<Rightarrow> write_block \<Rightarrow> write_block" where
  "wb_copy buf b =
     b\<lparr>wb_current := take (wb_ptr b) (wb_current b) @ map Some buf @
                      drop (wb_ptr b + length buf) (wb_current b),
       wb_len := wb_len b + int (length buf)\<rparr>"

function wb_fill :: "bytes \<Rightarrow> write_block \<Rightarrow> write_block" where
  "wb_fill buf b =
     (if wb_ptr b + length buf \<le> BLOCK_SIZE
      then (wb_copy buf b)\<lparr>wb_ptr := wb_ptr b + length buf\<rparr>
      else let n = BLOCK_SIZE - wb_ptr b in
           wb_fill (drop n buf) (wb_again (wb_copy (take n buf) b)))"
  by pat_completeness auto
termination
  by (relation "measure (\<lambda>(buf, b). 2 * length buf + (if wb_ptr b < BLOCK_SIZE then 0 else 1))")
    (auto simp: wb_again_def BLOCK_SIZE_def)

declare wb_fill.simps [simp del]

definition wb_push :: "bytes \<Rightarrow> write_block \<Rightarrow> write_block" where
  "wb_push buf b = wb_fill buf (if wb_ptr b = BLOCK_SIZE then wb_again b else b)"

text \<open>A value of \<open>n\<close> bytes in memory.\<close>

definition le_bytes :: "nat \<Rightarrow> int \<Rightarrow> bytes" where
  "le_bytes n x = map (\<lambda>i. word_of_int (x div 256 ^ i)) [0..<n]"

definition wb_nil :: "write_block \<Rightarrow> write_block" where
  "wb_nil b = wb_push [word_of_int TYPE_NIL] b"

definition wb_boolean :: "bool \<Rightarrow> write_block \<Rightarrow> write_block" where
  "wb_boolean v b = wb_push [COMBINE_TYPE TYPE_BOOLEAN (if v then 1 else 0)] b"

definition wb_integer :: "u64 \<Rightarrow> write_block \<Rightarrow> write_block" where
  "wb_integer v b = (
     if v = 0 then wb_push [COMBINE_TYPE TYPE_NUMBER TYPE_NUMBER_ZERO] b
     else if sint v \<noteq> sint (ucast v :: u32) then
       wb_push (le_bytes 8 (uint v)) (wb_push [COMBINE_TYPE TYPE_NUMBER TYPE_NUMBER_QWORD] b)
     else if sint v < 0 then
       wb_push (le_bytes 4 (uint (ucast v :: u32))) (wb_push [COMBINE_TYPE TYPE_NUMBER TYPE_NUMBER_DWORD] b)
     else if sint v < 0x100 then
       wb_push (le_bytes 1 (uint (ucast v :: u8))) (wb_push [COMBINE_TYPE TYPE_NUMBER TYPE_NUMBER_BYTE] b)
     else if sint v < 0x10000 then
       wb_push (le_bytes 2 (uint (ucast v :: u16))) (wb_push [COMBINE_TYPE TYPE_NUMBER TYPE_NUMBER_WORD] b)
     else
       wb_push (le_bytes 4 (uint (ucast v :: u32))) (wb_push [COMBINE_TYPE TYPE_NUMBER TYPE_NUMBER_DWORD] b))"

definition wb_real :: "u64 \<Rightarrow> write_block \<Rightarrow> write_block" where
  "wb_real v b = wb_push (le_bytes 8 (uint v)) (wb_push [COMBINE_TYPE TYPE_NUMBER TYPE_NUMBER_REAL] b)"

definition wb_pointer :: "u64 \<Rightarrow> write_block \<Rightarrow> write_block" where
  "wb_pointer v b = wb_push (le_bytes 8 (uint v)) (wb_push [word_of_int TYPE_USERDATA] b)"

text \<open>The caller converts the length of the string to int.\<close>

definition wb_string :: "bytes \<Rightarrow> int \<Rightarrow> write_block \<Rightarrow> write_block" where
  "wb_string str len b = (
     if len < MAX_COOKIE then
       let b = wb_push [COMBINE_TYPE TYPE_SHORT_STRING len] b in
       if len > 0 then wb_push (take (nat len) str) b else b
     else
       let b = (if len < 0x10000
                then wb_push (le_bytes 2 len) (wb_push [COMBINE_TYPE TYPE_LONG_STRING 2] b)
                else wb_push (le_bytes 4 len) (wb_push [COMBINE_TYPE TYPE_LONG_STRING 4] b))
       in wb_push (take (nat len) str) b)"

text \<open>The header that \<open>wb_table_array\<close> writes for an array part of n elements.\<close>

definition table_header :: "int \<Rightarrow> write_block \<Rightarrow> write_block" where
  "table_header n b = (
     if n \<ge> MAX_COOKIE - 1
     then wb_integer (word_of_int n) (wb_push [COMBINE_TYPE TYPE_TABLE (MAX_COOKIE - 1)] b)
     else wb_push [COMBINE_TYPE TYPE_TABLE n] b)"

section \<open>Packing\<close>

definition raw_geti :: "ltable \<Rightarrow> int \<Rightarrow> lval" where
  "raw_geti t i = (case map_of (entries t) (Atom (LInteger (word_of_int i))) of
     Some v \<Rightarrow> v | None \<Rightarrow> Atom LNil)"

text \<open>The values that the loop of \<open>wb_table_array\<close> packs.\<close>

definition array_values :: "ltable \<Rightarrow> int \<Rightarrow> lval list" where
  "array_values t n = map (\<lambda>i. raw_geti t (int i)) [1..<Suc (nat n)]"

text \<open>The loop of \<open>wb_table_hash\<close> skips the integer keys of the array part.\<close>

definition in_array :: "int \<Rightarrow> lval \<Rightarrow> bool" where
  "in_array n k = (case k of Atom (LInteger x) \<Rightarrow> sint x > 0 \<and> sint x \<le> n | _ \<Rightarrow> False)"

definition hash_values :: "ltable \<Rightarrow> int \<Rightarrow> lval list" where
  "hash_values t n = concat (map (\<lambda>(k, v). if in_array n k then [] else [k, v]) (entries t))"

text \<open>The loop of \<open>wb_table_metapairs\<close> ends at the first nil key.\<close>

fun pair_values :: "(lval \<times> lval) list \<Rightarrow> lval list" where
  "pair_values [] = []"
| "pair_values ((k, v) # ps) = (if k = Atom LNil then [] else k # v # pair_values ps)"

definition pack_atom :: "atom \<Rightarrow> write_block \<Rightarrow> write_block" where
  "pack_atom a b = (case a of
     LNil \<Rightarrow> wb_nil b
   | LBoolean v \<Rightarrow> wb_boolean v b
   | LInteger x \<Rightarrow> wb_integer x b
   | LNumber n \<Rightarrow> wb_real n b
   | LString s \<Rightarrow> wb_string s (c_int (int (length s))) b
   | LPointer p \<Rightarrow> wb_pointer p b)"

text \<open>
  The recursion ends by the depth limit, on a cyclic heap as well. \<open>pack_all\<close> packs a sequence
  of values: the bodies of the loops of the table functions.
\<close>

function (sequential) pack_one :: "lheap \<Rightarrow> lval \<Rightarrow> nat \<Rightarrow> write_block \<Rightarrow> seri_error + write_block"
  and wb_table :: "lheap \<Rightarrow> nat \<Rightarrow> nat \<Rightarrow> write_block \<Rightarrow> seri_error + write_block"
  and pack_all :: "lheap \<Rightarrow> lval list \<Rightarrow> nat \<Rightarrow> write_block \<Rightarrow> seri_error + write_block" where
  "pack_one H v depth b =
     (if depth > MAX_DEPTH then Inl TooDeep
      else (case v of
        Atom a \<Rightarrow> Inr (pack_atom a b)
      | Tab a \<Rightarrow> wb_table H a (depth + 1) b
      | Other ty \<Rightarrow> Inl (Unsupported ty)))"
| "wb_table H a depth b =
     (case pairs_of (H a) of
        Some ps \<Rightarrow>
          on_ok (pack_all H (pair_values ps) depth (wb_push [COMBINE_TYPE TYPE_TABLE 0] b)) (\<lambda>b. Inr (wb_nil b))
      | None \<Rightarrow>
          let n = c_int (int (raw_len (H a))) in
          on_ok (pack_all H (array_values (H a) n) depth (table_header n b)) (\<lambda>b.
          on_ok (pack_all H (hash_values (H a) n) depth b) (\<lambda>b. Inr (wb_nil b))))"
| "pack_all H [] depth b = Inr b"
| "pack_all H (v # vs) depth b = on_ok (pack_one H v depth b) (\<lambda>b. pack_all H vs depth b)"
  by pat_completeness auto
termination
  by (relation "inv_image (less_than <*lex*> less_than) (\<lambda>s. case s of
        Inl (H, v, d, b) \<Rightarrow> (34 - d, 0)
      | Inr (Inl (H, a, d, b)) \<Rightarrow>
          (34 - d, 2 + (case pairs_of (H a) of Some ps \<Rightarrow> length (pair_values ps)
             | None \<Rightarrow> length (array_values (H a) (c_int (int (raw_len (H a)))))
                     + length (hash_values (H a) (c_int (int (raw_len (H a)))))))
      | Inr (Inr (H, vs, d, b)) \<Rightarrow> (34 - d, 1 + length vs))")
    (auto simp: MAX_DEPTH_def)

declare pack_one.simps [simp del] wb_table.simps [simp del]

text \<open>\<open>seri\<close> copies the chain into one buffer.\<close>

fun seri_loop :: "int \<Rightarrow> u8 option list list \<Rightarrow> u8 option list option" where
  "seri_loop len [] = (if len > 0 then None else Some [])"
| "seri_loop len (blk # blks) =
     (if len > 0 then
        if len \<ge> int BLOCK_SIZE then map_option ((@) blk) (seri_loop (len - int BLOCK_SIZE) blks)
        else Some (take (nat len) blk)
      else Some [])"

definition seri :: "write_block \<Rightarrow> bytes option" where
  "seri b = Option.bind (seri_loop (wb_len b) (wb_full b @ [wb_current b])) those"

text \<open>The arguments of the Lua call are packed at depth 0.\<close>

definition luaseri_pack :: "lheap \<Rightarrow> lval list \<Rightarrow> seri_error + bytes" where
  "luaseri_pack H vs = on_ok (pack_all H vs 0 wb_init) (\<lambda>b.
     case seri b of Some bs \<Rightarrow> Inr bs | None \<Rightarrow> Inl BadRead)"

section \<open>Reading\<close>

record read_block =
  rb_buffer :: bytes
  rb_len :: int
  rb_ptr :: int

definition rball_init :: "bytes \<Rightarrow> int \<Rightarrow> read_block" where
  "rball_init buffer sz = \<lparr>rb_buffer = buffer, rb_len = sz, rb_ptr = 0\<rparr>"

text \<open>\<open>rb_read\<close> returns the position of the bytes, which the caller reads.\<close>

definition rb_read :: "read_block \<Rightarrow> int \<Rightarrow> (int \<times> read_block) option" where
  "rb_read rb sz =
     (if rb_len rb < sz then None
      else Some (rb_ptr rb, rb\<lparr>rb_ptr := rb_ptr rb + sz, rb_len := rb_len rb - sz\<rparr>))"

definition peek :: "read_block \<Rightarrow> int \<Rightarrow> int \<Rightarrow> seri_error + bytes" where
  "peek rb p n =
     (if 0 \<le> p \<and> 0 \<le> n \<and> p + n \<le> int (length (rb_buffer rb))
      then Inr (take (nat n) (drop (nat p) (rb_buffer rb))) else Inl BadRead)"

definition invalid_stream :: "read_block \<Rightarrow> seri_error + 'a" where
  "invalid_stream rb = Inl (InvalidStream (rb_len rb))"

text \<open>\<open>rb_read\<close>, the test for NULL, and the copy of the bytes.\<close>

definition get_bytes :: "read_block \<Rightarrow> int \<Rightarrow> seri_error + (bytes \<times> read_block)" where
  "get_bytes rb n = (case rb_read rb n of
     None \<Rightarrow> invalid_stream rb
   | Some (p, rb') \<Rightarrow> on_ok (peek rb p n) (\<lambda>bs. Inr (bs, rb')))"

definition le_value :: "bytes \<Rightarrow> int" where
  "le_value bs = foldr (\<lambda>x acc. uint x + 256 * acc) bs 0"

definition get_integer :: "read_block \<Rightarrow> int \<Rightarrow> seri_error + (u64 \<times> read_block)" where
  "get_integer rb cookie = (
     if cookie = TYPE_NUMBER_ZERO then Inr (0, rb)
     else if cookie = TYPE_NUMBER_BYTE then
       on_ok (get_bytes rb 1) (\<lambda>(bs, rb). Inr (word_of_int (le_value bs), rb))
     else if cookie = TYPE_NUMBER_WORD then
       on_ok (get_bytes rb 2) (\<lambda>(bs, rb). Inr (word_of_int (le_value bs), rb))
     else if cookie = TYPE_NUMBER_DWORD then
       on_ok (get_bytes rb 4) (\<lambda>(bs, rb). Inr (word_of_int (c_int (le_value bs)), rb))
     else if cookie = TYPE_NUMBER_QWORD then
       on_ok (get_bytes rb 8) (\<lambda>(bs, rb). Inr (word_of_int (le_value bs), rb))
     else invalid_stream rb)"

definition get_real :: "read_block \<Rightarrow> seri_error + (u64 \<times> read_block)" where
  "get_real rb = on_ok (get_bytes rb 8) (\<lambda>(bs, rb). Inr (word_of_int (le_value bs), rb))"

definition get_pointer :: "read_block \<Rightarrow> seri_error + (u64 \<times> read_block)" where
  "get_pointer rb = on_ok (get_bytes rb 8) (\<lambda>(bs, rb). Inr (word_of_int (le_value bs), rb))"

text \<open>\<open>lua_pushlstring\<close> takes the int as a size: a negative one is a string too big for Lua.\<close>

definition get_buffer :: "read_block \<Rightarrow> int \<Rightarrow> seri_error + (bytes \<times> read_block)" where
  "get_buffer rb len = (case rb_read rb len of
     None \<Rightarrow> invalid_stream rb
   | Some (p, rb') \<Rightarrow> if len < 0 then Inl TooBig else on_ok (peek rb p len) (\<lambda>bs. Inr (bs, rb')))"

section \<open>Tables being built\<close>

text \<open>The bits of a double: NaN, and the integer it is equal to, if it fits a Lua integer.\<close>

definition float_exp :: "u64 \<Rightarrow> int" where "float_exp r = uint (drop_bit 52 r AND 0x7FF)"
definition float_frac :: "u64 \<Rightarrow> int" where "float_frac r = uint (r AND 0xFFFFFFFFFFFFF)"

definition is_nan :: "u64 \<Rightarrow> bool" where
  "is_nan r \<longleftrightarrow> float_exp r = 0x7FF \<and> float_frac r \<noteq> 0"

definition float_int :: "u64 \<Rightarrow> int option" where
  "float_int r =
     (if float_exp r = 0x7FF then None
      else
        let e = max 1 (float_exp r);
            m = (if float_exp r = 0 then float_frac r else float_frac r + 2 ^ 52);
            x = (if bit r 63 then - m else m);
            whole = (if e \<ge> 1075 then Some (x * 2 ^ nat (e - 1075))
                     else if x mod 2 ^ nat (1075 - e) = 0 then Some (x div 2 ^ nat (1075 - e)) else None)
        in (case whole of
              None \<Rightarrow> None
            | Some x \<Rightarrow> if - (2 ^ 63) \<le> x \<and> x < 2 ^ 63 then Some x else None))"

text \<open>The key under which a value is stored: a float equal to an integer is that integer.\<close>

definition norm_key :: "tree \<Rightarrow> seri_error + tree" where
  "norm_key k = (case k of
     Leaf LNil \<Rightarrow> Inl NilKey
   | Leaf (LNumber r) \<Rightarrow>
       (case float_int r of
          Some x \<Rightarrow> Inr (Leaf (LInteger (word_of_int x)))
        | None \<Rightarrow> if is_nan r then Inl NanKey else Inr k)
   | _ \<Rightarrow> Inr k)"

text \<open>A table that was just read is a new object, equal to no other key.\<close>

fun same_key :: "tree \<Rightarrow> tree \<Rightarrow> bool" where
  "same_key (Leaf a) (Leaf b) = (a = b)"
| "same_key _ _ = False"

definition assign :: "tree \<Rightarrow> tree \<Rightarrow> (tree \<times> tree) list \<Rightarrow> (tree \<times> tree) list" where
  "assign k v es =
     (if v = Leaf LNil then filter (\<lambda>e. \<not> same_key (fst e) k) es
      else if \<exists>e \<in> set es. same_key (fst e) k
      then map (\<lambda>e. if same_key (fst e) k then (fst e, v) else e) es
      else es @ [(k, v)])"

definition raw_set :: "(tree \<times> tree) list \<Rightarrow> tree \<Rightarrow> tree \<Rightarrow> seri_error + (tree \<times> tree) list" where
  "raw_set es k v = on_ok (norm_key k) (\<lambda>k. Inr (assign k v es))"

section \<open>Unpacking\<close>

text \<open>The count of the array part: the cookie, or a number that follows it.\<close>

definition table_count :: "read_block \<Rightarrow> int \<Rightarrow> seri_error + (int \<times> read_block)" where
  "table_count rb array_size =
     (if array_size = MAX_COOKIE - 1 then
        on_ok (get_bytes rb 1) (\<lambda>(bs, rb).
          let ty = hd bs; cookie = uint (drop_bit 3 ty) in
          if uint (ty AND 7) \<noteq> TYPE_NUMBER \<or> cookie = TYPE_NUMBER_REAL then invalid_stream rb
          else on_ok (get_integer rb cookie) (\<lambda>(n, rb). Inr (c_int (uint n), rb)))
      else Inr (array_size, rb))"

definition push_long_string :: "read_block \<Rightarrow> int \<Rightarrow> seri_error + (bytes \<times> read_block)" where
  "push_long_string rb cookie = (
     if cookie = 2 then on_ok (get_bytes rb 2) (\<lambda>(bs, rb). get_buffer rb (le_value bs))
     else if cookie \<noteq> 4 then invalid_stream rb
     else on_ok (get_bytes rb 4) (\<lambda>(bs, rb). get_buffer rb (c_int (le_value bs))))"

fun leaf :: "('a \<Rightarrow> atom) \<Rightarrow> 'a \<times> read_block \<Rightarrow> seri_error + (tree \<times> read_block)" where
  "leaf f (x, rb) = Inr (Leaf (f x), rb)"

text \<open>
  The functions that read a value call each other; \<open>one\<close> is \<open>unpack_one\<close> in the functions it
  calls. It reads at least a byte, so the nesting and the length of the loops, which the stream
  controls, are bounded by the length of the buffer: this is the fuel.
\<close>

type_synonym reader = "read_block \<Rightarrow> seri_error + (tree \<times> read_block)"

fun unpack_array :: "reader \<Rightarrow> nat \<Rightarrow> read_block \<Rightarrow> int \<Rightarrow> int \<Rightarrow> (tree \<times> tree) list \<Rightarrow>
    seri_error + ((tree \<times> tree) list \<times> read_block)" where
  "unpack_array one 0 rb i cnt es = Inl OutOfFuel"
| "unpack_array one (Suc n) rb i cnt es =
     (if i \<le> cnt then
        on_ok (one rb) (\<lambda>(v, rb).
        on_ok (raw_set es (Leaf (LInteger (word_of_int i))) v) (\<lambda>es.
        unpack_array one n rb (i + 1) cnt es))
      else Inr (es, rb))"

fun unpack_hash :: "reader \<Rightarrow> nat \<Rightarrow> read_block \<Rightarrow> (tree \<times> tree) list \<Rightarrow>
    seri_error + ((tree \<times> tree) list \<times> read_block)" where
  "unpack_hash one 0 rb es = Inl OutOfFuel"
| "unpack_hash one (Suc n) rb es =
     on_ok (one rb) (\<lambda>(k, rb).
       if k = Leaf LNil then Inr (es, rb)
       else on_ok (one rb) (\<lambda>(v, rb).
            on_ok (raw_set es k v) (\<lambda>es. unpack_hash one n rb es)))"

definition unpack_table :: "reader \<Rightarrow> nat \<Rightarrow> read_block \<Rightarrow> int \<Rightarrow> seri_error + (tree \<times> read_block)" where
  "unpack_table one n rb array_size =
     on_ok (table_count rb array_size) (\<lambda>(cnt, rb).
     on_ok (unpack_array one n rb 1 cnt []) (\<lambda>(es, rb).
     on_ok (unpack_hash one n rb es) (\<lambda>(es, rb). Inr (Node es, rb))))"

definition push_value :: "reader \<Rightarrow> nat \<Rightarrow> read_block \<Rightarrow> int \<Rightarrow> int \<Rightarrow> seri_error + (tree \<times> read_block)" where
  "push_value one n rb ty cookie = (
     if ty = TYPE_NIL then Inr (Leaf LNil, rb)
     else if ty = TYPE_BOOLEAN then Inr (Leaf (LBoolean (cookie \<noteq> 0)), rb)
     else if ty = TYPE_NUMBER then
       if cookie = TYPE_NUMBER_REAL then on_ok (get_real rb) (leaf LNumber)
       else on_ok (get_integer rb cookie) (leaf LInteger)
     else if ty = TYPE_USERDATA then on_ok (get_pointer rb) (leaf LPointer)
     else if ty = TYPE_SHORT_STRING then on_ok (get_buffer rb cookie) (leaf LString)
     else if ty = TYPE_LONG_STRING then on_ok (push_long_string rb cookie) (leaf LString)
     else if ty = TYPE_TABLE then unpack_table one n rb cookie
     else invalid_stream rb)"

primrec unpack_one :: "nat \<Rightarrow> reader" where
  "unpack_one 0 = (\<lambda>rb. Inl OutOfFuel)"
| "unpack_one (Suc n) = (\<lambda>rb. on_ok (get_bytes rb 1) (\<lambda>(bs, rb).
     push_value (unpack_one n) n rb (uint (hd bs AND 7)) (uint (drop_bit 3 (hd bs)))))"

text \<open>The loop of \<open>luaseri_unpack\<close>.\<close>

fun unpack_loop :: "nat \<Rightarrow> read_block \<Rightarrow> seri_error + tree list" where
  "unpack_loop 0 rb = Inl OutOfFuel"
| "unpack_loop (Suc n) rb = (case rb_read rb 1 of
     None \<Rightarrow> Inr []
   | Some (p, rb') \<Rightarrow> on_ok (peek rb p 1) (\<lambda>bs.
       on_ok (push_value (unpack_one n) n rb' (uint (hd bs AND 7)) (uint (drop_bit 3 (hd bs)))) (\<lambda>(v, rb).
       on_ok (unpack_loop n rb) (\<lambda>vs. Inr (v # vs)))))"

text \<open>
  The argument: nothing or nil, a string, or a pointer and a length; the pointer is None when
  it is NULL.
\<close>

datatype unpack_arg = NoArg | StringArg bytes | BufferArg "bytes option" int

definition unpack_buffer :: "bytes option \<Rightarrow> int \<Rightarrow> seri_error + tree list" where
  "unpack_buffer buffer len =
     (if len = 0 then Inr []
      else (case buffer of
          None \<Rightarrow> Inl NullPointer
        | Some bs \<Rightarrow> unpack_loop (nat len + 1) (rball_init bs len)))"

fun luaseri_unpack :: "unpack_arg \<Rightarrow> seri_error + tree list" where
  "luaseri_unpack NoArg = Inr []"
| "luaseri_unpack (StringArg bs) = unpack_buffer (Some bs) (c_int (int (length bs)))"
| "luaseri_unpack (BufferArg buffer len) = unpack_buffer buffer (c_int len)"

section \<open>The block chain is a byte string\<close>

definition wb_ok :: "write_block \<Rightarrow> bytes \<Rightarrow> bool" where
  "wb_ok b c \<longleftrightarrow> (\<forall>blk \<in> set (wb_full b). length blk = BLOCK_SIZE) \<and> length (wb_current b) = BLOCK_SIZE \<and>
     wb_ptr b \<le> BLOCK_SIZE \<and> concat (wb_full b) @ take (wb_ptr b) (wb_current b) = map Some c \<and>
     wb_len b = int (length c)"

lemma wb_init_ok: "wb_ok wb_init []"
  by (simp add: wb_ok_def wb_init_def blk_alloc_def)

lemma wb_again_ok: "wb_ok b c \<Longrightarrow> wb_ptr b = BLOCK_SIZE \<Longrightarrow> wb_ok (wb_again b) c"
  by (auto simp: wb_ok_def wb_again_def blk_alloc_def)

lemma wb_split_ok:
  assumes "wb_ok b c" "\<not> wb_ptr b + length buf \<le> BLOCK_SIZE"
  defines "n \<equiv> BLOCK_SIZE - wb_ptr b"
  shows "wb_ok (wb_again (wb_copy (take n buf) b)) (c @ take n buf)"
proof -
  have "length (take n buf) = n" "wb_ptr b + n = BLOCK_SIZE"
    using assms by (auto simp: wb_ok_def)
  with assms(1) show ?thesis
    by (auto simp: wb_ok_def wb_again_def wb_copy_def blk_alloc_def take_map)
qed

lemma wb_fill_ok: "wb_ok b c \<Longrightarrow> wb_ok (wb_fill buf b) (c @ buf)"
proof (induction buf b arbitrary: c rule: wb_fill.induct)
  case (1 buf b)
  show ?case
  proof (cases "wb_ptr b + length buf \<le> BLOCK_SIZE")
    case True
    with 1(2) show ?thesis
      by (subst wb_fill.simps) (auto simp: wb_ok_def wb_copy_def)
  next
    case False
    from 1(1) [OF this refl wb_split_ok [OF 1(2) False]] False show ?thesis
      by (subst wb_fill.simps) (simp add: Let_def del: take_append)
  qed
qed

lemma wb_push_ok: "wb_ok b c \<Longrightarrow> wb_ok (wb_push buf b) (c @ buf)"
  by (simp add: wb_push_def wb_fill_ok wb_again_ok)

lemma seri_loop_ok:
  "\<forall>blk \<in> set blks. length blk = BLOCK_SIZE \<Longrightarrow> length blk = BLOCK_SIZE \<Longrightarrow> p \<le> BLOCK_SIZE \<Longrightarrow>
   seri_loop (int (length blks * BLOCK_SIZE + p)) (blks @ [blk]) = Some (concat blks @ take p blk)"
  by (induction blks) (auto simp: BLOCK_SIZE_def)

lemma those_Some: "those (map Some xs) = Some xs"
  by (induction xs) simp_all

lemma seri_ok:
  assumes "wb_ok b c"
  shows "seri b = Some c"
proof -
  have all: "\<forall>blk \<in> set (wb_full b). length blk = BLOCK_SIZE" and "length (wb_current b) = BLOCK_SIZE"
    and p: "wb_ptr b \<le> BLOCK_SIZE" and c: "concat (wb_full b) @ take (wb_ptr b) (wb_current b) = map Some c"
    and len: "wb_len b = int (length c)"
    using assms by (auto simp: wb_ok_def)
  have "length (concat blks) = length blks * BLOCK_SIZE" if "\<forall>blk \<in> set blks. length blk = BLOCK_SIZE"
    for blks :: "u8 option list list" using that by (induction blks) auto
  then have "length (concat (wb_full b)) = length (wb_full b) * BLOCK_SIZE" using all .
  then have "length c = length (wb_full b) * BLOCK_SIZE + wb_ptr b"
    using arg_cong [OF c, of length] p \<open>length (wb_current b) = BLOCK_SIZE\<close> by simp
  then show ?thesis
    using seri_loop_ok [OF all \<open>length (wb_current b) = BLOCK_SIZE\<close> p] len c
    by (simp add: seri_def those_Some)
qed

section \<open>Little-endian values\<close>

lemma length_le_bytes [simp]: "length (le_bytes n x) = n"
  by (simp add: le_bytes_def)

lemma le_bytes_Suc: "le_bytes (Suc n) x = word_of_int x # le_bytes n (x div 256)"
  by (simp add: le_bytes_def upt_conv_Cons map_Suc_upt [symmetric] div_mult2_eq' zdiv_zmult2_eq
      del: upt_Suc)

lemma le_value_Cons: "le_value (x # xs) = uint x + 256 * le_value xs"
  by (simp add: le_value_def)

lemma le_value_bytes: "le_value (le_bytes n x) = x mod 256 ^ n"
proof (induction n arbitrary: x)
  case 0
  then show ?case by (simp add: le_value_def le_bytes_def)
next
  case (Suc n)
  have "uint (word_of_int x :: u8) = x mod 256" by (simp add: uint_word_of_int)
  with Suc show ?case
    by (simp add: le_bytes_Suc le_value_Cons mod_mult2_eq' zmod_zmult2_eq)
qed

lemma le_value_word: "le_value (le_bytes n (uint (w :: 'a::len word))) = uint w" if "2 ^ LENGTH('a) = (256 :: int) ^ n"
  using uint_lt2p [of w] that by (simp add: le_value_bytes)

section \<open>Reading what was written\<close>

definition rb_at :: "read_block \<Rightarrow> bytes \<Rightarrow> bool" where
  "rb_at rb bs \<longleftrightarrow> rb_len rb = int (length bs) \<and>
     (\<exists>pre post. rb_buffer rb = pre @ bs @ post \<and> rb_ptr rb = int (length pre))"

definition adv :: "nat \<Rightarrow> read_block \<Rightarrow> read_block" where
  "adv n rb = rb\<lparr>rb_ptr := rb_ptr rb + int n, rb_len := rb_len rb - int n\<rparr>"

lemma adv_adv [simp]: "adv a (adv b rb) = adv (b + a) rb"
  by (simp add: adv_def algebra_simps)

lemma adv_0 [simp]: "adv 0 rb = rb" by (simp add: adv_def)

lemma rb_at_adv: "rb_at rb (xs @ ys) \<Longrightarrow> rb_at (adv (length xs) rb) ys"
proof -
  assume "rb_at rb (xs @ ys)"
  then obtain pre post where *: "rb_buffer rb = pre @ (xs @ ys) @ post" "rb_ptr rb = int (length pre)"
    "rb_len rb = int (length (xs @ ys))" by (auto simp: rb_at_def)
  have "rb_buffer rb = (pre @ xs) @ ys @ post \<and> rb_ptr rb + int (length xs) = int (length (pre @ xs))"
    using * by simp
  then have "\<exists>pre post. rb_buffer rb = pre @ ys @ post \<and> rb_ptr rb + int (length xs) = int (length pre)"
    by blast
  then show ?thesis using * by (simp add: rb_at_def adv_def)
qed

lemma rb_at_Cons: "rb_at rb (x # ys) \<Longrightarrow> rb_at (adv 1 rb) ys"
  using rb_at_adv [of rb "[x]" ys] by simp

lemma rb_at_init: "rb_at (rball_init bs (int (length bs))) bs"
  by (auto simp: rb_at_def rball_init_def)

lemma rb_read_at: "rb_at rb (xs @ ys) \<Longrightarrow> rb_read rb (int (length xs)) = Some (rb_ptr rb, adv (length xs) rb)"
  by (simp add: rb_at_def rb_read_def adv_def)

lemma peek_at: "rb_at rb (xs @ ys) \<Longrightarrow> peek rb (rb_ptr rb) (int (length xs)) = Inr xs"
  by (auto simp: rb_at_def peek_def)

lemma get_bytes_at:
  "rb_at rb (xs @ ys) \<Longrightarrow> k = int (length xs) \<Longrightarrow> get_bytes rb k = Inr (xs, adv (length xs) rb)"
  by (simp add: get_bytes_def rb_read_at peek_at)

lemma get_bytes_1: "rb_at rb (x # ys) \<Longrightarrow> get_bytes rb 1 = Inr ([x], adv 1 rb)"
  using get_bytes_at [of rb "[x]" ys 1] by simp

lemma get_buffer_at:
  "rb_at rb (xs @ ys) \<Longrightarrow> k = int (length xs) \<Longrightarrow> get_buffer rb k = Inr (xs, adv (length xs) rb)"
  by (simp add: get_buffer_def rb_read_at peek_at)

text \<open>\<open>reads bs t\<close>: wherever the bytes stand in a stream, one value is read from them, \<open>t\<close>.\<close>

definition reads :: "bytes \<Rightarrow> tree \<Rightarrow> bool" where
  "reads bs v \<longleftrightarrow> bs \<noteq> [] \<and> (\<forall>rb ys n. rb_at rb (bs @ ys) \<longrightarrow> length bs \<le> n \<longrightarrow>
     unpack_one n rb = Inr (v, adv (length bs) rb))"

lemma or_shift: "0 \<le> ty \<Longrightarrow> ty < 8 \<Longrightarrow> ty OR push_bit 3 v = ty + 8 * (v :: int)"
proof -
  assume ty: "0 \<le> ty" "ty < 8"
  then have "take_bit 3 ty = ty" by (simp add: take_bit_int_eq_self)
  then have "ty AND push_bit 3 v = 0"
    by (intro bit_eqI) (metis bit_0_eq bit_and_iff bit_push_bit_iff bit_take_bit_iff bot_apply bot_bool_def linorder_not_le)
  then have "ty OR push_bit 3 v = ty + push_bit 3 v" by (simp add: disjunctive_add_eq_or)
  then show ?thesis by (simp add: push_bit_eq_mult)
qed

lemma combine_parts:
  assumes "0 \<le> ty" "ty < 8" "0 \<le> v" "v < 32"
  shows "uint (COMBINE_TYPE ty v AND 7) = ty" "uint (drop_bit 3 (COMBINE_TYPE ty v)) = v"
proof -
  have "uint (COMBINE_TYPE ty v) = (ty + 8 * v) mod 2 ^ 8"
    unfolding COMBINE_TYPE_def or_shift [OF assms(1,2)] by (simp only: uint_word_of_int) simp
  then have u: "uint (COMBINE_TYPE ty v) = ty + 8 * v" using assms by simp
  have "uint (COMBINE_TYPE ty v AND 7) = uint (COMBINE_TYPE ty v) mod 8"
    using take_bit_eq_mask [of 3 "uint (COMBINE_TYPE ty v)"]
    by (simp add: uint_and take_bit_eq_mod mask_eq_exp_minus_1)
  then show "uint (COMBINE_TYPE ty v AND 7) = ty" using assms u by simp
  show "uint (drop_bit 3 (COMBINE_TYPE ty v)) = v"
    using assms u by (simp add: drop_bit_eq_div uint_div_distrib)
qed

lemma reads_header:
  assumes "0 \<le> ty" "ty < 8" "0 \<le> c" "c < 32"
    and "\<And>rb ys n. rb_at rb (bs @ ys) \<Longrightarrow> length bs \<le> n \<Longrightarrow>
      push_value (unpack_one n) n rb ty c = Inr (v, adv (length bs) rb)"
  shows "reads (COMBINE_TYPE ty c # bs) v"
  unfolding reads_def
proof (intro conjI allI impI)
  fix rb ys and n :: nat
  assume at: "rb_at rb ((COMBINE_TYPE ty c # bs) @ ys)" and n: "length (COMBINE_TYPE ty c # bs) \<le> n"
  then obtain m where m: "n = Suc m" "length bs \<le> m" by (cases n) auto
  have "rb_at (adv 1 rb) (bs @ ys)" using at rb_at_Cons by simp
  from assms(5) [OF this m(2)] get_bytes_1 [of rb "COMBINE_TYPE ty c" "bs @ ys"] at
  show "unpack_one n rb = Inr (v, adv (length (COMBINE_TYPE ty c # bs)) rb)"
    by (simp add: m(1) combine_parts [OF assms(1-4)])
qed simp

lemma zero_byte: "word_of_int TYPE_NIL = COMBINE_TYPE TYPE_NIL 0"
  "word_of_int TYPE_USERDATA = COMBINE_TYPE TYPE_USERDATA 0"
  by (simp_all add: COMBINE_TYPE_def)

lemma reads_nil: "reads [COMBINE_TYPE TYPE_NIL 0] (Leaf LNil)"
  by (rule reads_header) (simp_all add: type_defs push_value_def)

text \<open>The bytes of an integer after its type byte with cookie \<open>c\<close>.\<close>

definition int_bytes :: "int \<Rightarrow> bytes \<Rightarrow> u64 \<Rightarrow> bool" where
  "int_bytes c bs v \<longleftrightarrow> 0 \<le> c \<and> c < 8 \<and>
     (\<forall>rb ys. rb_at rb (bs @ ys) \<longrightarrow> get_integer rb c = Inr (v, adv (length bs) rb))"

lemma wb_integer_bytes:
  assumes "wb_ok b s"
  shows "\<exists>c bs. int_bytes c bs v \<and> wb_ok (wb_integer v b) (s @ COMBINE_TYPE TYPE_NUMBER c # bs)"
proof -
  let ?w = "\<lambda>c bs. wb_push bs (wb_push [COMBINE_TYPE TYPE_NUMBER c] b)"
  have two: "wb_ok (?w c bs) (s @ COMBINE_TYPE TYPE_NUMBER c # bs)" for c bs
    using wb_push_ok [OF wb_push_ok [OF assms], of bs "[COMBINE_TYPE TYPE_NUMBER c]"] by simp
  have dword: "int_bytes TYPE_NUMBER_DWORD (le_bytes 4 (uint (ucast v :: u32))) v"
    if "sint v = sint (ucast v :: u32)"
  proof -
    have "c_int (le_value (le_bytes 4 (uint (ucast v :: u32)))) = sint v"
      using that by (subst le_value_word) (simp_all add: c_int_def)
    then show ?thesis
      by (auto simp: int_bytes_def get_integer_def type_defs get_bytes_at)
  qed
  have pos: "uint v = sint v" if "0 \<le> sint v"
    using that sint_lt [of v] by (subst uint_sint) (simp add: take_bit_int_eq_self)
  have byte: "int_bytes TYPE_NUMBER_BYTE (le_bytes 1 (uint (ucast v :: u8))) v" if "0 \<le> sint v" "sint v < 0x100"
  proof -
    have "uint (ucast v :: u8) = uint v"
      using that pos by (simp add: unsigned_ucast_eq take_bit_int_eq_self)
    then have "le_value (le_bytes 1 (uint (ucast v :: u8))) = uint v"
      by (subst le_value_word) simp_all
    then show ?thesis
      by (auto simp: int_bytes_def get_integer_def type_defs get_bytes_at)
  qed
  have short: "int_bytes TYPE_NUMBER_WORD (le_bytes 2 (uint (ucast v :: u16))) v" if "0 \<le> sint v" "sint v < 0x10000"
  proof -
    have "uint (ucast v :: u16) = uint v"
      using that pos by (simp add: unsigned_ucast_eq take_bit_int_eq_self)
    then have "le_value (le_bytes 2 (uint (ucast v :: u16))) = uint v"
      by (subst le_value_word) simp_all
    then show ?thesis
      by (auto simp: int_bytes_def get_integer_def type_defs get_bytes_at)
  qed
  have quad: "int_bytes TYPE_NUMBER_QWORD (le_bytes 8 (uint v)) v"
    by (auto simp: int_bytes_def get_integer_def type_defs get_bytes_at le_value_word)
  have zero: "int_bytes TYPE_NUMBER_ZERO [] 0"
    by (simp add: int_bytes_def get_integer_def type_defs)
  show ?thesis
  proof (cases "v = 0")
    case True
    then show ?thesis
      using zero wb_push_ok [OF assms, of "[COMBINE_TYPE TYPE_NUMBER TYPE_NUMBER_ZERO]"]
      by (auto simp: wb_integer_def)
  next
    case False
    consider "sint v \<noteq> sint (ucast v :: u32)" | "sint v = sint (ucast v :: u32)" "0 \<le> sint v" "sint v < 0x100"
      | "sint v = sint (ucast v :: u32)" "0x100 \<le> sint v" "sint v < 0x10000"
      | "sint v = sint (ucast v :: u32)" "sint v < 0 \<or> 0x10000 \<le> sint v" by linarith
    then show ?thesis
    proof cases
      case 1
      with False quad two show ?thesis by (auto simp: wb_integer_def)
    next
      case 2
      with False byte two show ?thesis by (auto simp: wb_integer_def)
    next
      case 3
      with False short two show ?thesis by (auto simp: wb_integer_def)
    next
      case 4
      with False dword two show ?thesis by (auto simp: wb_integer_def)
    qed
  qed
qed

subsection \<open>Atoms\<close>

lemma c_int_id: "- (2 ^ 31) \<le> x \<Longrightarrow> x < 2 ^ 31 \<Longrightarrow> c_int x = x"
  by (simp add: c_int_def sint_sbintrunc' signed_take_bit_int_eq_self)

lemma c_int_range: "- (2 ^ 31) \<le> c_int x" "c_int x < 2 ^ 31"
  using sint_ge [of "word_of_int x :: u32"] sint_lt [of "word_of_int x :: u32"] by (simp_all add: c_int_def)

text \<open>A string of less than 2 GB.\<close>

fun small :: "lval \<Rightarrow> bool" where
  "small (Atom (LString s)) = (length s < 2 ^ 31)"
| "small v = True"

lemma wb_push_two:
  "wb_ok b s \<Longrightarrow> wb_ok (wb_push bs (wb_push [x] b)) (s @ x # bs)"
  using wb_push_ok [of "wb_push [x] b" "s @ [x]" bs] wb_push_ok [of b s "[x]"] by simp

lemma wb_push_three:
  "wb_ok b s \<Longrightarrow> wb_ok (wb_push cs (wb_push bs (wb_push [x] b))) (s @ x # bs @ cs)"
  using wb_push_ok [of "wb_push bs (wb_push [x] b)" "s @ x # bs" cs] wb_push_two [of b s bs x] by simp

lemma reads_short_string:
  "int (length s) < MAX_COOKIE \<Longrightarrow> reads (COMBINE_TYPE TYPE_SHORT_STRING (int (length s)) # s) (Leaf (LString s))"
  by (rule reads_header) (simp_all add: type_defs push_value_def get_buffer_at)

lemma reads_long_string:
  assumes "(n = 2 \<and> int (length s) < 2 ^ 16) \<or> (n = 4 \<and> int (length s) < 2 ^ 31)"
  shows "reads (COMBINE_TYPE TYPE_LONG_STRING (int n) # le_bytes n (int (length s)) @ s) (Leaf (LString s))"
proof (rule reads_header)
  fix rb ys and m :: nat
  assume at: "rb_at rb ((le_bytes n (int (length s)) @ s) @ ys)"
  have get: "get_bytes rb (int n) = Inr (le_bytes n (int (length s)), adv n rb)"
    using get_bytes_at [of rb "le_bytes n (int (length s))" "s @ ys"] at by simp
  have at': "rb_at (adv n rb) (s @ ys)"
    using rb_at_adv [of rb "le_bytes n (int (length s))"] at by simp
  have val: "le_value (le_bytes n (int (length s))) = int (length s)"
    using assms by (auto simp: le_value_bytes)
  show "push_value (unpack_one m) m rb TYPE_LONG_STRING (int n) =
      Inr (Leaf (LString s), adv (length (le_bytes n (int (length s)) @ s)) rb)"
    using assms get val get_buffer_at [OF at' refl]
    by (auto simp: push_value_def push_long_string_def type_defs c_int_id)
qed (use assms in \<open>auto simp: type_defs\<close>)

lemma pack_atom_reads:
  assumes b: "wb_ok b s" and small: "small (Atom a)"
  shows "\<exists>bs. wb_ok (pack_atom a b) (s @ bs) \<and> reads bs (Leaf a)"
proof (cases a)
  case LNil
  then show ?thesis
    using wb_push_ok [OF b] reads_nil by (auto simp: pack_atom_def wb_nil_def zero_byte)
next
  case (LBoolean v)
  have "reads [COMBINE_TYPE TYPE_BOOLEAN (if v then 1 else 0)] (Leaf (LBoolean v))"
    by (rule reads_header) (simp_all add: type_defs push_value_def)
  moreover have "wb_ok (pack_atom a b) (s @ [COMBINE_TYPE TYPE_BOOLEAN (if v then 1 else 0)])"
    unfolding LBoolean pack_atom_def wb_boolean_def atom.case by (rule wb_push_ok [OF b])
  ultimately show ?thesis using LBoolean by blast
next
  case (LInteger v)
  from wb_integer_bytes [OF b] obtain c bs where
    i: "int_bytes c bs v" "wb_ok (wb_integer v b) (s @ COMBINE_TYPE TYPE_NUMBER c # bs)" by blast
  have "reads (COMBINE_TYPE TYPE_NUMBER c # bs) (Leaf (LInteger v))"
    by (rule reads_header) (use i(1) in \<open>auto simp: int_bytes_def type_defs push_value_def\<close>)
  with LInteger i(2) show ?thesis by (auto simp: pack_atom_def)
next
  case (LNumber v)
  have "reads (COMBINE_TYPE TYPE_NUMBER TYPE_NUMBER_REAL # le_bytes 8 (uint v)) (Leaf (LNumber v))"
    by (rule reads_header) (simp_all add: type_defs push_value_def get_real_def get_bytes_at le_value_word)
  with LNumber show ?thesis
    using wb_push_two [OF b] by (auto simp: pack_atom_def wb_real_def)
next
  case (LPointer v)
  have "reads (COMBINE_TYPE TYPE_USERDATA 0 # le_bytes 8 (uint v)) (Leaf (LPointer v))"
    by (rule reads_header) (simp_all add: type_defs push_value_def get_pointer_def get_bytes_at le_value_word)
  with LPointer show ?thesis
    using wb_push_two [OF b] by (auto simp: pack_atom_def wb_pointer_def zero_byte)
next
  case (LString str)
  let ?n = "int (length str)"
  have n: "c_int ?n = ?n" "?n < 2 ^ 31" using small LString by (simp_all add: c_int_id)
  consider "?n < MAX_COOKIE" | "MAX_COOKIE \<le> ?n" "?n < 0x10000" | "0x10000 \<le> ?n" by linarith
  then show ?thesis
  proof cases
    case 1
    have "wb_ok (pack_atom a b) (s @ COMBINE_TYPE TYPE_SHORT_STRING ?n # str)"
      using 1 n wb_push_two [OF b] wb_push_ok [OF b, of "[COMBINE_TYPE TYPE_SHORT_STRING 0]"] LString
      by (cases "str = []") (auto simp: pack_atom_def wb_string_def)
    with reads_short_string [OF 1] LString show ?thesis by blast
  next
    case 2
    then have "wb_ok (pack_atom a b) (s @ COMBINE_TYPE TYPE_LONG_STRING 2 # le_bytes 2 ?n @ str)"
      using n wb_push_three [OF b] LString by (simp add: pack_atom_def wb_string_def)
    with reads_long_string [of 2 str] 2 LString show ?thesis by auto
  next
    case 3
    then have "wb_ok (pack_atom a b) (s @ COMBINE_TYPE TYPE_LONG_STRING 4 # le_bytes 4 ?n @ str)"
      using n wb_push_three [OF b] LString by (simp add: pack_atom_def wb_string_def type_defs)
    with reads_long_string [of 4 str] n LString show ?thesis by auto
  qed
qed

subsection \<open>Tables\<close>

definition flat :: "('a \<times> 'a) list \<Rightarrow> 'a list" where "flat ps = concat (map (\<lambda>(k, v). [k, v]) ps)"

lemma flat_simps [simp]: "flat [] = []" "flat ((k, v) # ps) = k # v # flat ps"
  by (simp_all add: flat_def)

lemma length_flat: "length (flat ps) = 2 * length ps"
  by (induction ps) (auto simp: flat_def)

text \<open>A sequence of assignments to a table.\<close>

fun sets :: "(tree \<times> tree) list \<Rightarrow> (tree \<times> tree) list \<Rightarrow> seri_error + (tree \<times> tree) list" where
  "sets es [] = Inr es"
| "sets es ((k, v) # ps) = on_ok (raw_set es k v) (\<lambda>es. sets es ps)"

lemma sets_append: "sets es (ps @ qs) = on_ok (sets es ps) (\<lambda>es. sets es qs)"
proof (induction ps arbitrary: es)
  case (Cons p ps)
  then show ?case by (cases p; cases "raw_set es (fst p) (snd p)") auto
qed simp

fun indexed :: "int \<Rightarrow> tree list \<Rightarrow> (tree \<times> tree) list" where
  "indexed i [] = []"
| "indexed i (v # vs) = (Leaf (LInteger (word_of_int i)), v) # indexed (i + 1) vs"

lemma reads_one:
  "reads bs v \<Longrightarrow> rb_at rb (bs @ ys) \<Longrightarrow> length bs \<le> n \<Longrightarrow> unpack_one n rb = Inr (v, adv (length bs) rb)"
  by (auto simp: reads_def)

lemma unpack_array_reads:
  assumes "list_all2 reads bss vs" "rb_at rb (concat bss @ ys)" "\<forall>bs \<in> set bss. length bs \<le> m"
    "length bss < n" "sets es (indexed i vs) = Inr es'"
  shows "unpack_array (unpack_one m) n rb i (i + int (length vs) - 1) es = Inr (es', adv (length (concat bss)) rb)"
  using assms
proof (induction bss vs arbitrary: rb n es i rule: list_all2_induct)
  case Nil
  then show ?case by (cases n) auto
next
  case (Cons bs bss v vs)
  obtain n' where n: "n = Suc n'" "length bss < n'" using Cons.prems(3) by (cases n) auto
  from Cons.prems(4) obtain es1 where es1: "raw_set es (Leaf (LInteger (word_of_int i))) v = Inr es1"
    "sets es1 (indexed (i + 1) vs) = Inr es'"
    by (cases "raw_set es (Leaf (LInteger (word_of_int i))) v") auto
  have one: "unpack_one m rb = Inr (v, adv (length bs) rb)"
    using Cons.hyps(1) Cons.prems(1,2) by (intro reads_one) auto
  have at: "rb_at (adv (length bs) rb) (concat bss @ ys)"
    using Cons.prems(1) by (intro rb_at_adv) simp
  from Cons.IH [OF at _ n(2) es1(2)] Cons.prems(2)
  have "unpack_array (unpack_one m) n' (adv (length bs) rb) (i + 1) (i + int (length (v # vs)) - 1) es1 =
      Inr (es', adv (length (concat (bs # bss))) rb)"
    by (simp add: algebra_simps)
  then show ?case using one es1 by (simp add: n)
qed

lemma unpack_hash_reads:
  assumes "list_all2 reads bss (flat ps)" "rb_at rb (concat bss @ COMBINE_TYPE TYPE_NIL 0 # ys)"
    "\<forall>bs \<in> set bss. length bs \<le> m" "1 \<le> m" "length ps < n" "\<forall>(k, v) \<in> set ps. k \<noteq> Leaf LNil" "sets es ps = Inr es'"
  shows "unpack_hash (unpack_one m) n rb es = Inr (es', adv (Suc (length (concat bss))) rb)"
  using assms
proof (induction ps arbitrary: bss rb n es)
  case Nil
  then have "bss = []" by simp
  then have "unpack_one m rb = Inr (Leaf LNil, adv 1 rb)"
    using reads_one [OF reads_nil, of rb ys m] Nil by simp
  then show ?case using Nil \<open>bss = []\<close> by (cases n) auto
next
  case (Cons p ps)
  obtain k v where p: "p = (k, v)" by (cases p)
  obtain kb vb bss' where bss: "bss = kb # vb # bss'" and kv: "reads kb k" "reads vb v"
    and rest: "list_all2 reads bss' (flat ps)"
    using Cons.prems(1) by (auto simp: p list_all2_Cons2)
  obtain n' where n: "n = Suc n'" "length ps < n'" using Cons.prems(5) by (cases n) auto
  from Cons.prems(7) obtain es1 where es1: "raw_set es k v = Inr es1" "sets es1 ps = Inr es'"
    by (cases "raw_set es k v") (auto simp: p)
  have at: "rb_at rb (kb @ vb @ concat bss' @ COMBINE_TYPE TYPE_NIL 0 # ys)"
    using Cons.prems(2) by (simp add: bss)
  note at1 = rb_at_adv [OF at]
  note at2 = rb_at_adv [OF at1]
  have "unpack_one m rb = Inr (k, adv (length kb) rb)"
    "unpack_one m (adv (length kb) rb) = Inr (v, adv (length vb) (adv (length kb) rb))"
    using Cons.prems(3) reads_one [OF kv(1) at] reads_one [OF kv(2) at1] by (auto simp: bss)
  moreover have "k \<noteq> Leaf LNil" using Cons.prems(6) by (auto simp: p)
  moreover have "unpack_hash (unpack_one m) n' (adv (length vb) (adv (length kb) rb)) es1 =
      Inr (es', adv (Suc (length (concat bss'))) (adv (length vb) (adv (length kb) rb)))"
    using Cons.prems by (intro Cons.IH [OF rest at2 _ _ n(2) _ es1(2)]) (auto simp: bss)
  ultimately show ?case using es1 by (simp add: n bss add.assoc)
qed

lemma table_header_reads:
  assumes b: "wb_ok b s" and n: "0 \<le> n" "n < 2 ^ 31"
  shows "\<exists>c bs. 0 \<le> c \<and> c < 32 \<and> wb_ok (table_header n b) (s @ COMBINE_TYPE TYPE_TABLE c # bs) \<and>
    (\<forall>rb ys. rb_at rb (bs @ ys) \<longrightarrow> table_count rb c = Inr (n, adv (length bs) rb))"
proof (cases "n \<ge> MAX_COOKIE - 1")
  case False
  then have "wb_ok (table_header n b) (s @ [COMBINE_TYPE TYPE_TABLE n])"
    "\<forall>rb. table_count rb n = Inr (n, rb)" "n < 32"
    using wb_push_ok [OF b, of "[COMBINE_TYPE TYPE_TABLE n]"]
    by (auto simp: table_header_def table_count_def type_defs)
  with n show ?thesis by (intro exI [of _ n] exI [of _ "[]"]) simp
next
  case True
  let ?b = "wb_push [COMBINE_TYPE TYPE_TABLE (MAX_COOKIE - 1)] b"
  have "wb_ok ?b (s @ [COMBINE_TYPE TYPE_TABLE 31])"
    using wb_push_ok [OF b, of "[COMBINE_TYPE TYPE_TABLE 31]"] by (simp add: type_defs)
  from wb_integer_bytes [OF this, of "word_of_int n"] obtain c bs where
    i: "int_bytes c bs (word_of_int n)"
    and ok: "wb_ok (wb_integer (word_of_int n) ?b) (s @ COMBINE_TYPE TYPE_TABLE 31 # COMBINE_TYPE TYPE_NUMBER c # bs)"
    by auto
  have c: "0 \<le> c" "c < 8" using i by (auto simp: int_bytes_def)
  have "uint (word_of_int n :: u64) = n" using n by (simp add: uint_word_of_int)
  then have val: "c_int (uint (word_of_int n :: u64)) = n" using n by (simp add: c_int_id)
  have "table_count rb 31 = Inr (n, adv (length (COMBINE_TYPE TYPE_NUMBER c # bs)) rb)"
    if at: "rb_at rb ((COMBINE_TYPE TYPE_NUMBER c # bs) @ ys)" for rb ys
  proof -
    have "get_integer (adv 1 rb) c = Inr (word_of_int n, adv (length bs) (adv 1 rb))"
      using i rb_at_Cons [of rb "COMBINE_TYPE TYPE_NUMBER c" "bs @ ys"] at by (auto simp: int_bytes_def)
    then show ?thesis
      using get_bytes_1 [of rb "COMBINE_TYPE TYPE_NUMBER c" "bs @ ys"] at c val
        combine_parts [of TYPE_NUMBER c]
      by (simp add: table_count_def type_defs)
  qed
  then show ?thesis
    using ok True by (intro exI [of _ 31] exI [of _ "COMBINE_TYPE TYPE_NUMBER c # bs"]) (simp add: table_header_def type_defs)
qed

text \<open>A table read from its header, its array values, its pairs and the final nil.\<close>

lemma reads_table:
  assumes c: "0 \<le> c" "c < 32"
    and hdr: "\<And>rb ys. rb_at rb (hs @ ys) \<Longrightarrow> table_count rb c = Inr (int (length vs), adv (length hs) rb)"
    and arr: "list_all2 reads bss vs" and hash: "list_all2 reads css (flat ps)"
    and keys: "\<forall>(k, v) \<in> set ps. k \<noteq> Leaf LNil" and sets: "sets [] (indexed 1 vs @ ps) = Inr es"
  shows "reads (COMBINE_TYPE TYPE_TABLE c # hs @ concat bss @ concat css @ [COMBINE_TYPE TYPE_NIL 0]) (Node es)"
proof (rule reads_header)
  fix rb ys and n :: nat
  let ?body = "hs @ concat bss @ concat css @ [COMBINE_TYPE TYPE_NIL 0]"
  assume at: "rb_at rb (?body @ ys)" and n: "length ?body \<le> n"
  obtain es1 where es1: "sets [] (indexed 1 vs) = Inr es1" "sets es1 ps = Inr es"
    using sets by (cases "sets [] (indexed 1 vs)") (auto simp: sets_append)
  have at1: "rb_at (adv (length hs) rb) (concat bss @ concat css @ COMBINE_TYPE TYPE_NIL 0 # ys)"
    using at by (intro rb_at_adv) simp
  note at2 = rb_at_adv [OF at1]
  have ne: "length xss \<le> length (concat xss)" if "list_all2 reads xss us" for xss us
    using that
  proof (induction rule: list_all2_induct)
    case (Cons xs xss u us)
    then have "1 \<le> length xs" by (simp add: reads_def Suc_le_eq)
    with Cons.IH show ?case by simp
  qed simp
  have le: "length xs \<le> length (concat xss)" if "xs \<in> set xss" for xs and xss :: "bytes list"
    using that by (induction xss) auto
  have "length css = 2 * length ps" using list_all2_lengthD [OF hash] by (simp add: length_flat)
  then have fuel: "length bss < n" "length ps < n" "1 \<le> n" using n ne [OF arr] ne [OF hash] by auto
  have "unpack_array (unpack_one n) n (adv (length hs) rb) 1 (int (length vs)) [] =
      Inr (es1, adv (length (concat bss)) (adv (length hs) rb))"
    using unpack_array_reads [OF arr at1 _ fuel(1) es1(1), of n] le [of _ bss] n by fastforce
  moreover have "unpack_hash (unpack_one n) n (adv (length (concat bss)) (adv (length hs) rb)) es1 =
      Inr (es, adv (Suc (length (concat css))) (adv (length (concat bss)) (adv (length hs) rb)))"
    using le [of _ css] n fuel by (intro unpack_hash_reads [OF hash at2 _ _ _ keys es1(2)]) fastforce+
  ultimately show "push_value (unpack_one n) n rb TYPE_TABLE c = Inr (Node es, adv (length ?body) rb)"
    using hdr [of rb "concat bss @ concat css @ COMBINE_TYPE TYPE_NIL 0 # ys"] at
    by (simp add: push_value_def unpack_table_def type_defs add.assoc)
qed (use c in \<open>simp_all add: type_defs\<close>)

section \<open>Round trip\<close>

text \<open>
  A key that a Lua table can have: not nil, not NaN, and not a float that is an integer (Lua
  stores these as integers).
\<close>

fun good_key :: "lval \<Rightarrow> bool" where
  "good_key (Atom LNil) = False"
| "good_key (Atom (LNumber r)) = (\<not> is_nan r \<and> float_int r = None)"
| "good_key v = True"

fun is_atom :: "lval \<Rightarrow> bool" where "is_atom (Atom a) = True" | "is_atom v = False"

definition good_pairs :: "(lval \<times> lval) list \<Rightarrow> bool" where
  "good_pairs ps \<longleftrightarrow> (\<forall>(k, v) \<in> set ps. good_key k \<and> v \<noteq> Atom LNil \<and> small k \<and> small v) \<and>
     distinct (filter is_atom (map fst ps))"

text \<open>
  What Lua guarantees of a table: its keys are good and distinct, no value is nil, and the
  length is a border, so all of 1, ..., length are keys. An iterator of \<open>__pairs\<close> is assumed to
  yield such pairs.
\<close>

definition table_ok :: "ltable \<Rightarrow> bool" where
  "table_ok t \<longleftrightarrow> (case pairs_of t of
     Some ps \<Rightarrow> good_pairs ps
   | None \<Rightarrow> good_pairs (entries t) \<and> raw_len t < 2 ^ 31 \<and>
       (\<forall>i \<in> {1..raw_len t}. raw_geti t (int i) \<noteq> Atom LNil))"

text \<open>The pairs of a table in the order in which they are written: first the array part.\<close>

definition array_pairs :: "ltable \<Rightarrow> (lval \<times> lval) list" where
  "array_pairs t = map (\<lambda>i. (Atom (LInteger (word_of_int (int i))), raw_geti t (int i))) [1..<Suc (raw_len t)]"

definition other_pairs :: "ltable \<Rightarrow> (lval \<times> lval) list" where
  "other_pairs t = filter (\<lambda>(k, v). \<not> in_array (int (raw_len t)) k) (entries t)"

definition items :: "ltable \<Rightarrow> (lval \<times> lval) list" where
  "items t = (case pairs_of t of Some ps \<Rightarrow> ps | None \<Rightarrow> array_pairs t @ other_pairs t)"

text \<open>A value of the heap unfolded to the depth \<open>n\<close>, shared tables duplicated.\<close>

primrec tree_of :: "nat \<Rightarrow> lheap \<Rightarrow> lval \<Rightarrow> tree" where
  "tree_of 0 H v = Node []"
| "tree_of (Suc n) H v = (case v of
     Atom a \<Rightarrow> Leaf a
   | Tab a \<Rightarrow> Node (map (\<lambda>(k, x). (tree_of n H k, tree_of n H x)) (items (H a)))
   | Other _ \<Rightarrow> Node [])"

lemma in_array_iff:
  "n < 2 ^ 31 \<Longrightarrow> in_array n k \<longleftrightarrow> (\<exists>i. 1 \<le> i \<and> i \<le> n \<and> k = Atom (LInteger (word_of_int i)))"
proof
  assume n: "n < 2 ^ 31" and "in_array n k"
  then obtain x where x: "k = Atom (LInteger x)" "0 < sint x" "sint x \<le> n"
    by (auto simp: in_array_def split: lval.splits atom.splits)
  then have "x = word_of_int (sint x)" by simp
  with x show "\<exists>i. 1 \<le> i \<and> i \<le> n \<and> k = Atom (LInteger (word_of_int i))" by (intro exI [of _ "sint x"]) auto
next
  assume n: "n < 2 ^ 31" and "\<exists>i. 1 \<le> i \<and> i \<le> n \<and> k = Atom (LInteger (word_of_int i))"
  then obtain i where i: "1 \<le> i" "i \<le> n" "k = Atom (LInteger (word_of_int i))" by blast
  have "sint (word_of_int i :: u64) = i" using i n by (simp add: sint_sbintrunc' signed_take_bit_int_eq_self)
  with i show "in_array n k" by (simp add: in_array_def)
qed

lemma word_of_nat_inj:
  assumes "i < 2 ^ 31" "j < 2 ^ 31" "(word_of_nat i :: u64) = word_of_nat j"
  shows "i = j"
proof -
  have "unat (word_of_nat i :: u64) = unat (word_of_nat j :: u64)" using assms(3) by simp
  then show ?thesis using assms(1,2) by (simp add: unsigned_of_nat take_bit_nat_eq_self)
qed

lemma distinct_filter_keys:
  "distinct (filter P (map fst ps)) \<Longrightarrow> distinct (filter P (map fst (filter Q ps)))"
proof (induction ps)
  case (Cons p ps)
  have "set (filter P (map fst (filter Q ps))) \<subseteq> set (filter P (map fst ps))" by auto
  with Cons show ?case by (auto split: if_splits)
qed simp

lemma items_good:
  assumes "table_ok t"
  shows "good_pairs (items t)"
proof (cases "pairs_of t")
  case (Some ps)
  then show ?thesis using assms by (simp add: table_ok_def items_def)
next
  case None
  let ?n = "raw_len t"
  have g: "good_pairs (entries t)" and n: "?n < 2 ^ 31"
    and full: "\<And>i. i \<in> {1..?n} \<Longrightarrow> raw_geti t (int i) \<noteq> Atom LNil"
    using assms None by (auto simp: table_ok_def)
  have vals: "raw_geti t (int i) \<noteq> Atom LNil \<and> small (raw_geti t (int i))" if i: "1 \<le> i" "i \<le> ?n" for i
  proof -
    have ne: "raw_geti t (int i) \<noteq> Atom LNil" using full [of i] i by auto
    then obtain v where "map_of (entries t) (Atom (LInteger (word_of_int (int i)))) = Some v" "raw_geti t (int i) = v"
      by (auto simp: raw_geti_def split: option.splits)
    then have "(Atom (LInteger (word_of_int (int i))), raw_geti t (int i)) \<in> set (entries t)"
      by (blast intro: map_of_SomeD)
    then show ?thesis using g ne unfolding good_pairs_def by blast
  qed
  have "inj_on (\<lambda>i. Atom (LInteger (word_of_nat i))) (set [1..<Suc ?n])"
  proof (rule inj_onI)
    fix i j assume "i \<in> set [1..<Suc ?n]" "j \<in> set [1..<Suc ?n]"
      "Atom (LInteger (word_of_nat i)) = Atom (LInteger (word_of_nat j))"
    then show "i = j" using word_of_nat_inj [of i j] n by (simp del: upt_Suc)
  qed
  then have "distinct (map (\<lambda>i. Atom (LInteger (word_of_nat i))) [1..<Suc ?n])"
    by (simp only: distinct_map distinct_upt simp_thms)
  moreover have "map fst (array_pairs t) = map (\<lambda>i. Atom (LInteger (word_of_nat i))) [1..<Suc ?n]"
    by (simp add: array_pairs_def del: upt_Suc)
  ultimately have "distinct (map fst (array_pairs t))" by simp
  moreover have "filter is_atom (map fst (array_pairs t)) = map fst (array_pairs t)"
    by (simp add: array_pairs_def o_def filter_id_conv del: upt_Suc)
  moreover have "distinct (filter is_atom (map fst (other_pairs t)))"
    using g by (simp add: good_pairs_def other_pairs_def distinct_filter_keys)
  moreover have "set (map fst (array_pairs t)) \<inter> set (map fst (other_pairs t)) = {}"
  proof -
    have "in_array (int ?n) k" if k: "k \<in> set (map fst (array_pairs t))" for k
    proof -
      from k obtain i where "1 \<le> int i" "int i \<le> int ?n" "k = Atom (LInteger (word_of_int (int i)))"
        by (auto simp: array_pairs_def simp del: upt_Suc)
      moreover have "int ?n < 2 ^ 31" using n by simp
      ultimately show ?thesis using in_array_iff by blast
    qed
    moreover have "\<not> in_array (int ?n) k" if "k \<in> set (map fst (other_pairs t))" for k
      using that by (auto simp: other_pairs_def)
    ultimately show ?thesis by blast
  qed
  ultimately have "distinct (filter is_atom (map fst (items t)))"
    using None by (auto simp: items_def)
  moreover have "good_key k \<and> v \<noteq> Atom LNil \<and> small k \<and> small v" if "(k, v) \<in> set (items t)" for k v
    using that None g vals by (auto simp: items_def array_pairs_def other_pairs_def good_pairs_def simp del: upt_Suc)
  ultimately show ?thesis by (auto simp: good_pairs_def)
qed

lemma tree_of_not_nil: "v \<noteq> Atom LNil \<Longrightarrow> tree_of n H v \<noteq> Leaf LNil"
  by (cases n; cases v) auto

lemma norm_key_tree: "good_key k \<Longrightarrow> norm_key (tree_of n H k) = Inr (tree_of n H k)"
proof (cases n)
  case (Suc m)
  assume "good_key k"
  then show ?thesis by (cases k rule: good_key.cases) (auto simp: norm_key_def Suc)
qed (simp add: norm_key_def)

text \<open>Assignments to new keys append.\<close>

definition fresh_keys :: "(tree \<times> tree) list \<Rightarrow> bool" where
  "fresh_keys es \<longleftrightarrow> sorted_wrt (\<lambda>e f. \<not> same_key (fst e) (fst f)) es"

lemma sets_fresh:
  "fresh_keys (es @ ps) \<Longrightarrow> \<forall>(k, v) \<in> set ps. norm_key k = Inr k \<and> v \<noteq> Leaf LNil \<Longrightarrow> sets es ps = Inr (es @ ps)"
proof (induction ps arbitrary: es)
  case (Cons p ps)
  obtain k v where p: "p = (k, v)" by (cases p)
  have "\<forall>e \<in> set es. \<not> same_key (fst e) k"
    using Cons.prems(1) by (auto simp: fresh_keys_def sorted_wrt_append p)
  then have "raw_set es k v = Inr (es @ [(k, v)])"
    using Cons.prems(2) by (auto simp: raw_set_def assign_def p)
  then show ?case using Cons.IH [of "es @ [(k, v)]"] Cons.prems by (simp add: p)
qed simp

lemma same_key_tree:
  assumes "same_key (tree_of n H j) (tree_of n H k)"
  shows "is_atom j \<and> j = k"
proof (cases n)
  case (Suc m)
  then show ?thesis using assms by (cases j; cases k) auto
qed (use assms in simp)

lemma fresh_items:
  assumes "distinct (filter is_atom (map fst ps))"
  shows "fresh_keys (map (\<lambda>(k, v). (tree_of n H k, tree_of n H v)) ps)"
  using assms
proof (induction ps)
  case (Cons p ps)
  obtain k v where p: "p = (k, v)" by (cases p)
  have "\<not> same_key (tree_of n H k) (tree_of n H k')" if "(k', v') \<in> set ps" for k' v'
  proof
    assume "same_key (tree_of n H k) (tree_of n H k')"
    then have "is_atom k" "k = k'" using same_key_tree by blast+
    then show False using Cons.prems that by (force simp: p)
  qed
  with Cons show ?case by (auto simp: fresh_keys_def p split: if_splits)
qed (simp add: fresh_keys_def)

lemma sets_items:
  assumes "good_pairs ps"
  shows "sets [] (map (\<lambda>(k, v). (tree_of n H k, tree_of n H v)) ps) =
    Inr (map (\<lambda>(k, v). (tree_of n H k, tree_of n H v)) ps)"
proof -
  have "fresh_keys ([] @ map (\<lambda>(k, v). (tree_of n H k, tree_of n H v)) ps)"
    using fresh_items assms by (simp add: good_pairs_def)
  moreover have "\<forall>(k, v) \<in> set (map (\<lambda>(k, v). (tree_of n H k, tree_of n H v)) ps). norm_key k = Inr k \<and> v \<noteq> Leaf LNil"
    using assms by (auto simp: good_pairs_def norm_key_tree tree_of_not_nil)
  ultimately show ?thesis using sets_fresh by fastforce
qed

definition tree_pair :: "nat \<Rightarrow> lheap \<Rightarrow> lval \<times> lval \<Rightarrow> tree \<times> tree" where
  "tree_pair n H p = (tree_of n H (fst p), tree_of n H (snd p))"

lemma tree_pair_eq: "(\<lambda>(k, v). (tree_of n H k, tree_of n H v)) = tree_pair n H"
  by (auto simp: tree_pair_def)

lemma all_flat: "(\<forall>v \<in> set (flat ps). P v) \<longleftrightarrow> (\<forall>p \<in> set ps. P (fst p) \<and> P (snd p))"
  by (induction ps) auto

lemma map_flat: "map f (flat ps) = flat (map (\<lambda>p. (f (fst p), f (snd p))) ps)"
  by (induction ps) (auto simp: flat_def)

lemma flat_trees: "map (tree_of n H) (flat ps) = flat (map (tree_pair n H) ps)"
  by (simp add: map_flat tree_pair_def [abs_def])

lemma indexed_upt:
  "indexed (int k) (map f [k..<m]) = map (\<lambda>j. (Leaf (LInteger (word_of_int (int j))), f j)) [k..<m]"
proof (induction "m - k" arbitrary: k)
  case (Suc x)
  then have "k < m" "x = m - Suc k" by auto
  with Suc.hyps(1) [of "Suc k"] show ?case by (simp add: upt_conv_Cons add.commute)
qed simp

lemma array_values_eq: "array_values t (int (raw_len t)) = map snd (array_pairs t)"
  by (simp add: array_values_def array_pairs_def del: upt_Suc)

lemma indexed_array:
  assumes "1 \<le> n"
  shows "indexed 1 (map (tree_of n H) (array_values t (int (raw_len t)))) = map (tree_pair n H) (array_pairs t)"
proof -
  obtain m where n: "n = Suc m" using assms by (cases n) auto
  have "tree_of n H (Atom a) = Leaf a" for a by (simp add: n)
  then show ?thesis
    using indexed_upt [of 1 "\<lambda>i. tree_of n H (raw_geti t (int i))" "Suc (raw_len t)"]
    by (simp add: array_values_eq array_pairs_def o_def tree_pair_def del: upt_Suc tree_of.simps)
qed

lemma hash_values_eq: "hash_values t (int (raw_len t)) = flat (other_pairs t)"
proof -
  have "concat (map (\<lambda>(k, v). if P k then [] else [k, v]) es) = flat (filter (\<lambda>(k, v). \<not> P k) es)"
    for P and es :: "(lval \<times> lval) list" by (induction es) auto
  then show ?thesis by (simp add: hash_values_def other_pairs_def)
qed

lemma pair_values_eq: "\<forall>(k, v) \<in> set ps. k \<noteq> Atom LNil \<Longrightarrow> pair_values ps = flat ps"
  by (induction ps) auto

lemma good_pairs_facts:
  assumes "good_pairs ps"
  shows "\<forall>v \<in> set (flat ps). small v" "\<forall>(k, v) \<in> set ps. k \<noteq> Atom LNil"
    "\<forall>(k, v) \<in> set (map (tree_pair n H) ps). k \<noteq> Leaf LNil"
    "sets [] (map (tree_pair n H) ps) = Inr (map (tree_pair n H) ps)"
proof -
  show "\<forall>(k, v) \<in> set ps. k \<noteq> Atom LNil" using assms by (auto simp: good_pairs_def)
  then show "\<forall>(k, v) \<in> set (map (tree_pair n H) ps). k \<noteq> Leaf LNil"
    by (auto simp: tree_pair_def tree_of_not_nil)
  show "\<forall>v \<in> set (flat ps). small v" unfolding all_flat using assms by (fastforce simp: good_pairs_def)
  show "sets [] (map (tree_pair n H) ps) = Inr (map (tree_pair n H) ps)"
    using sets_items [OF assms, of n H] by (simp only: tree_pair_eq)
qed

lemma on_ok_Inr: "on_ok m f = Inr y \<longleftrightarrow> (\<exists>x. m = Inr x \<and> f x = Inr y)"
  by (cases m) auto

lemma wb_nil_ok: "wb_ok b s \<Longrightarrow> wb_ok (wb_nil b) (s @ [COMBINE_TYPE TYPE_NIL 0])"
  unfolding wb_nil_def zero_byte by (rule wb_push_ok)

lemma pack_reads:
  assumes H: "\<forall>a. table_ok (H a)"
  shows "wb_ok b s \<Longrightarrow> small v \<Longrightarrow> pack_one H v d b = Inr b' \<Longrightarrow>
      \<exists>bs. wb_ok b' (s @ bs) \<and> reads bs (tree_of (34 - d + k) H v)"
    "wb_ok b s \<Longrightarrow> d \<le> 33 \<Longrightarrow> wb_table H a d b = Inr b' \<Longrightarrow>
      \<exists>bs. wb_ok b' (s @ bs) \<and> reads bs (tree_of (Suc (34 - d + k)) H (Tab a))"
    "wb_ok b s \<Longrightarrow> \<forall>v \<in> set vs. small v \<Longrightarrow> pack_all H vs d b = Inr b' \<Longrightarrow>
      \<exists>bss. wb_ok b' (s @ concat bss) \<and> list_all2 reads bss (map (tree_of (34 - d + k) H) vs)"
  using H
proof (induction H v d b and H a d b and H vs d b arbitrary: s b' and s b' and s b'
    rule: pack_one_wb_table_pack_all.induct)
  case (1 H v d b)
  have d: "d \<le> 32" using 1(4) by (simp add: pack_one.simps MAX_DEPTH_def split: if_splits)
  then have eq: "34 - d + k = Suc (33 - d + k)" by simp
  show ?case
  proof (cases v)
    case (Atom a)
    then have "b' = pack_atom a b" using 1(4) d by (simp add: pack_one.simps MAX_DEPTH_def)
    with Atom pack_atom_reads [OF 1(2)] 1(3) show ?thesis by (simp add: eq)
  next
    case (Tab a)
    then have "wb_table H a (d + 1) b = Inr b'" using 1(4) d by (simp add: pack_one.simps MAX_DEPTH_def)
    from 1(1) [OF _ Tab 1(2) _ this 1(5)] d Tab show ?thesis by (simp add: eq MAX_DEPTH_def)
  next
    case (Other ty)
    then show ?thesis using 1(4) d by (simp add: pack_one.simps MAX_DEPTH_def)
  qed
next
  case (2 H a d b)
  let ?n = "34 - d + k" and ?t = "H a"
  have n: "1 \<le> ?n" using 2(5) by simp
  have tree: "tree_of (Suc ?n) H (Tab a) = Node (map (tree_pair ?n H) (items ?t))"
    by (simp add: tree_pair_eq)
  have good: "good_pairs (items ?t)" using 2(7) items_good by blast
  note facts = good_pairs_facts [OF good]
  show ?case
  proof (cases "pairs_of ?t")
    case (Some ps)
    then have items: "items ?t = ps" by (simp add: items_def)
    have pv: "pair_values ps = flat ps" using facts(2) by (simp add: items pair_values_eq)
    obtain b1 where b1: "pack_all H (flat ps) d (wb_push [COMBINE_TYPE TYPE_TABLE 0] b) = Inr b1" "b' = wb_nil b1"
      using 2(6) Some pv by (auto simp: wb_table.simps on_ok_Inr)
    from 2(3) [OF Some wb_push_ok [OF 2(4)], unfolded pv, OF _ b1(1) 2(7)] facts(1)
    obtain css where css: "wb_ok b1 ((s @ [COMBINE_TYPE TYPE_TABLE 0]) @ concat css)"
      "list_all2 reads css (flat (map (tree_pair ?n H) ps))"
      by (auto simp: items flat_trees)
    have "reads (COMBINE_TYPE TYPE_TABLE 0 # [] @ concat [] @ concat css @ [COMBINE_TYPE TYPE_NIL 0])
        (Node (map (tree_pair ?n H) ps))"
      using facts(4) [of ?n H] unfolding items
      by (intro reads_table [where vs = "[]", OF _ _ _ _ css(2) facts(3) [unfolded items]])
        (simp_all add: table_count_def type_defs)
    with wb_nil_ok [OF css(1)] b1(2) show ?thesis unfolding tree items by auto
  next
    case None
    have items: "items ?t = array_pairs ?t @ other_pairs ?t" using None by (simp add: items_def)
    have len: "c_int (int (raw_len ?t)) = int (raw_len ?t)" "int (raw_len ?t) < 2 ^ 31"
      using 2(7) None by (auto simp: table_ok_def c_int_id dest!: spec [of _ a])
    obtain b1 b2 where b1: "pack_all H (array_values ?t (int (raw_len ?t))) d (table_header (int (raw_len ?t)) b) = Inr b1"
      and b2: "pack_all H (flat (other_pairs ?t)) d b1 = Inr b2" "b' = wb_nil b2"
      using 2(6) None by (auto simp: wb_table.simps on_ok_Inr len(1) hash_values_eq Let_def)
    from table_header_reads [OF 2(4) _ len(2)] obtain c hs where c: "0 \<le> c" "c < 32"
      and hs: "wb_ok (table_header (int (raw_len ?t)) b) (s @ COMBINE_TYPE TYPE_TABLE c # hs)"
      and cnt: "\<And>rb ys. rb_at rb (hs @ ys) \<Longrightarrow> table_count rb c = Inr (int (raw_len ?t), adv (length hs) rb)"
      by auto
    let ?vs = "map (tree_of ?n H) (array_values ?t (int (raw_len ?t)))"
    have small: "\<forall>v \<in> set (array_values ?t (int (raw_len ?t))). small v" "\<forall>v \<in> set (flat (other_pairs ?t)). small v"
      using facts(1) by (simp_all add: items array_values_eq all_flat)
    from 2(1) [OF None refl, unfolded len(1), OF hs small(1) b1 2(7)] obtain bss where
      bss: "wb_ok b1 ((s @ COMBINE_TYPE TYPE_TABLE c # hs) @ concat bss)" "list_all2 reads bss ?vs" by blast
    from 2(2) [OF None refl, unfolded len(1) hash_values_eq, OF b1 bss(1) small(2) b2(1) 2(7)] obtain css where
      css: "wb_ok b2 (((s @ COMBINE_TYPE TYPE_TABLE c # hs) @ concat bss) @ concat css)"
      "list_all2 reads css (flat (map (tree_pair ?n H) (other_pairs ?t)))"
      by (auto simp: flat_trees)
    have vs: "length ?vs = raw_len ?t" "indexed 1 ?vs = map (tree_pair ?n H) (array_pairs ?t)"
      using indexed_array [OF n] by (simp_all add: array_values_def)
    have keys: "\<forall>(k, v) \<in> set (map (tree_pair ?n H) (other_pairs ?t)). k \<noteq> Leaf LNil"
      using facts(3) [of ?n H] unfolding items map_append set_append by blast
    have "reads (COMBINE_TYPE TYPE_TABLE c # hs @ concat bss @ concat css @ [COMBINE_TYPE TYPE_NIL 0])
        (Node (map (tree_pair ?n H) (items ?t)))"
    proof (rule reads_table [OF c _ bss(2) css(2) keys])
      show "table_count rb c = Inr (int (length ?vs), adv (length hs) rb)" if "rb_at rb (hs @ ys)" for rb ys
        using cnt [OF that] by (simp only: vs(1))
      show "sets [] (indexed 1 ?vs @ map (tree_pair ?n H) (other_pairs ?t)) = Inr (map (tree_pair ?n H) (items ?t))"
        using facts(4) [of ?n H] by (simp only: vs(2) items map_append)
    qed
    with wb_nil_ok [OF css(1)] b2(2) show ?thesis unfolding tree by auto
  qed
next
  case (3 H d b)
  then show ?case by (intro exI [of _ "[]"]) simp
next
  case (4 H v vs d b)
  obtain b1 where b1: "pack_one H v d b = Inr b1" "pack_all H vs d b1 = Inr b'"
    using 4(5) by (auto simp: on_ok_Inr)
  from 4(1) [OF 4(3) _ b1(1) 4(6)] 4(4) obtain bs where
    bs: "wb_ok b1 (s @ bs)" "reads bs (tree_of (34 - d + k) H v)" by auto
  from 4(2) [OF b1(1) bs(1) _ b1(2) 4(6)] 4(4) obtain bss where
    bss: "wb_ok b' ((s @ bs) @ concat bss)" "list_all2 reads bss (map (tree_of (34 - d + k) H) vs)" by auto
  with bs(2) show ?case by (intro exI [of _ "bs # bss"]) simp
qed

lemma map_of_unique:
  "distinct (filter P (map fst ps)) \<Longrightarrow> P k \<Longrightarrow> (k, v) \<in> set ps \<Longrightarrow> map_of ps k = Some v"
proof (induction ps)
  case (Cons p ps)
  have "k \<in> set (filter P (map fst ps))" if "(k, v) \<in> set ps" using that Cons.prems(2) by force
  with Cons show ?case by (cases p) (auto split: if_splits)
qed simp

lemma array_pairs_iff:
  "(k, v) \<in> set (array_pairs t) \<longleftrightarrow> (\<exists>i. i \<in> {1..raw_len t} \<and>
     k = Atom (LInteger (word_of_int (int i))) \<and> v = raw_geti t (int i))"
  by (auto simp: array_pairs_def image_iff less_Suc_eq_le simp del: upt_Suc)

text \<open>The pairs that are written are the pairs of the table, in another order.\<close>

lemma items_perm:
  assumes ok: "table_ok t" and None: "pairs_of t = None"
  shows "mset (items t) = mset (entries t)"
proof -
  let ?n = "int (raw_len t)"
  let ?A = "filter (\<lambda>(k, v). in_array ?n k) (entries t)"
  have g: "good_pairs (entries t)" and n: "?n < 2 ^ 31"
    and full: "\<And>i. i \<in> {1..raw_len t} \<Longrightarrow> raw_geti t (int i) \<noteq> Atom LNil"
    using ok None by (auto simp: table_ok_def)
  have dist: "distinct (filter is_atom (map fst (entries t)))" using g by (simp add: good_pairs_def)
  have geti: "raw_geti t i = v" if "(Atom (LInteger (word_of_int i)), v) \<in> set (entries t)" for i v
    using map_of_unique [OF dist _ that] by (simp add: raw_geti_def)
  have mem: "(Atom (LInteger (word_of_int i)), raw_geti t i) \<in> set (entries t)" if "raw_geti t i \<noteq> Atom LNil" for i
    using that by (auto simp: raw_geti_def split: option.splits intro: map_of_SomeD)
  have "(k, v) \<in> set ?A \<longleftrightarrow> (k, v) \<in> set (array_pairs t)" for k v
  proof
    assume kv: "(k, v) \<in> set ?A"
    then obtain i where i: "1 \<le> i" "i \<le> ?n" "k = Atom (LInteger (word_of_int i))"
      using in_array_iff [OF n] by auto
    then have "raw_geti t i = v" using geti kv by auto
    with i show "(k, v) \<in> set (array_pairs t)"
      unfolding array_pairs_iff by (intro exI [of _ "nat i"]) auto
  next
    assume "(k, v) \<in> set (array_pairs t)"
    then obtain i where i: "i \<in> {1..raw_len t}" "k = Atom (LInteger (word_of_int (int i)))" "v = raw_geti t (int i)"
      unfolding array_pairs_iff by blast
    then have "(k, v) \<in> set (entries t)" using mem [OF full [OF i(1)]] by simp
    moreover have "in_array ?n k"
      unfolding in_array_iff [OF n] using i by (intro exI [of _ "int i"]) auto
    ultimately show "(k, v) \<in> set ?A" by simp
  qed
  then have "set ?A = set (array_pairs t)" by auto
  moreover have "distinct (map fst ?A)"
  proof -
    have "filter is_atom (map fst ?A) = map fst ?A"
      by (auto simp: filter_id_conv in_array_def split: lval.splits)
    then show ?thesis using distinct_filter_keys [OF dist] by metis
  qed
  moreover have "distinct (array_pairs t)"
  proof -
    have "distinct (filter is_atom (map fst (items t)))"
      using items_good [OF ok] by (simp add: good_pairs_def)
    moreover have "filter is_atom (map fst (array_pairs t)) = map fst (array_pairs t)"
      by (auto simp: array_pairs_def filter_id_conv simp del: upt_Suc)
    ultimately show ?thesis using None by (simp add: items_def distinct_map)
  qed
  ultimately have "mset ?A = mset (array_pairs t)"
    using set_eq_iff_mset_eq_distinct [of ?A "array_pairs t"] unfolding distinct_map by blast
  then have "mset (items t) = mset ?A + mset (filter (\<lambda>p. \<not> (case p of (k, v) \<Rightarrow> in_array ?n k)) (entries t))"
    using None by (simp add: items_def other_pairs_def case_prod_unfold)
  also have "\<dots> = mset (entries t)" by (simp only: mset_filter) (rule multiset_partition [symmetric])
  finally show ?thesis .
qed

lemma unpack_loop_step:
  "1 \<le> rb_len rb \<Longrightarrow> unpack_loop (Suc n) rb =
     on_ok (unpack_one (Suc n) rb) (\<lambda>(v, rb). on_ok (unpack_loop n rb) (\<lambda>vs. Inr (v # vs)))"
  by (cases "peek rb (rb_ptr rb) 1")
    (auto simp: get_bytes_def rb_read_def)

lemma unpack_loop_reads:
  assumes "list_all2 reads bss vs" "rb_at rb (concat bss)" "length (concat bss) < n"
  shows "unpack_loop n rb = Inr vs"
  using assms
proof (induction bss vs arbitrary: rb n rule: list_all2_induct)
  case Nil
  then show ?case by (cases n) (auto simp: rb_at_def rb_read_def)
next
  case (Cons bs bss v vs)
  have bs: "1 \<le> length bs" using Cons.hyps(1) by (simp add: reads_def Suc_le_eq)
  obtain n' where n: "n = Suc n'" "length (concat bss) < n'" using Cons.prems(2) bs by (cases n) auto
  have "1 \<le> rb_len rb" using Cons.prems(1) bs by (simp add: rb_at_def)
  moreover have "unpack_one n rb = Inr (v, adv (length bs) rb)"
    using Cons.prems Cons.hyps(1) by (intro reads_one [of bs v rb "concat bss"]) auto
  moreover have "unpack_loop n' (adv (length bs) rb) = Inr vs"
    using Cons.prems(1) n(2) by (intro Cons.IH rb_at_adv) simp_all
  ultimately show ?case by (simp add: n unpack_loop_step del: unpack_one.simps unpack_loop.simps)
qed

lemma pack_all_bytes:
  assumes "\<forall>a. table_ok (H a)" "\<forall>v \<in> set vs. small v" "luaseri_pack H vs = Inr bs"
  shows "\<exists>bss. bs = concat bss \<and> list_all2 reads bss (map (tree_of (34 + k) H) vs)"
proof -
  obtain b where b: "pack_all H vs 0 wb_init = Inr b" "(case seri b of Some bs \<Rightarrow> Inr bs | None \<Rightarrow> Inl BadRead) = Inr bs"
    using assms(3) by (auto simp: luaseri_pack_def on_ok_Inr)
  from pack_reads(3) [OF assms(1) wb_init_ok assms(2) b(1), of k] obtain bss where
    bss: "wb_ok b (concat bss)" "list_all2 reads bss (map (tree_of (34 + k) H) vs)" by auto
  then show ?thesis using b(2) seri_ok [OF bss(1)] by auto
qed

lemma seri_roundtrip_helper:
  assumes "\<forall>a. table_ok (H a)" "\<forall>v \<in> set vs. small v" "luaseri_pack H vs = Inr bs" "length bs < 2 ^ 31"
  shows "unpack_buffer (Some bs) (c_int (int (length bs))) = Inr (map (tree_of (34 + k) H) vs)"
proof -
  from pack_all_bytes [OF assms(1-3)] obtain bss where
    bss: "bs = concat bss" "list_all2 reads bss (map (tree_of (34 + k) H) vs)" by blast
  have "unpack_loop (nat (int (length bs)) + 1) (rball_init bs (int (length bs))) = Inr (map (tree_of (34 + k) H) vs)"
    using rb_at_init [of bs] by (intro unpack_loop_reads [OF bss(2)]) (auto simp: bss(1))
  moreover have "vs = []" if "bs = []"
    using bss that by (cases vs) (auto simp: list_all2_Cons2 reads_def)
  moreover have "c_int (int (length bs)) = int (length bs)" using assms(4) by (simp add: c_int_id)
  ultimately show ?thesis by (simp add: unpack_buffer_def del: unpack_loop.simps)
qed

section \<open>Reading any stream\<close>

text \<open>
  The read block lies in its buffer; \<open>steps L r\<close>: the reader did not run out of fuel, read only
  inside the buffer, and leaves at most \<open>L\<close> bytes.
\<close>

definition rb_in :: "read_block \<Rightarrow> bool" where
  "rb_in rb \<longleftrightarrow> 0 \<le> rb_ptr rb \<and> 0 \<le> rb_len rb \<and> rb_ptr rb + rb_len rb \<le> int (length (rb_buffer rb))"

definition steps :: "int \<Rightarrow> seri_error + ('a \<times> read_block) \<Rightarrow> bool" where
  "steps L r = (case r of Inl e \<Rightarrow> e \<noteq> OutOfFuel \<and> e \<noteq> BadRead | Inr (_, rb) \<Rightarrow> rb_in rb \<and> rb_len rb \<le> L)"

lemma steps_Inr [simp]: "steps L (Inr (x, rb)) \<longleftrightarrow> rb_in rb \<and> rb_len rb \<le> L"
  by (simp add: steps_def)

lemma steps_Inl [simp]: "steps L (Inl e) \<longleftrightarrow> e \<noteq> OutOfFuel \<and> e \<noteq> BadRead"
  by (simp add: steps_def)

lemma steps_on_ok:
  assumes "steps L m" "\<And>x rb. rb_in rb \<Longrightarrow> rb_len rb \<le> L \<Longrightarrow> steps L' (f (x, rb))"
  shows "steps L' (on_ok m f)"
proof (cases m)
  case (Inr p)
  with assms show ?thesis by (cases p) auto
qed (use assms(1) in simp)

lemma steps_mono: "steps L m \<Longrightarrow> L \<le> L' \<Longrightarrow> steps L' m"
  by (auto simp: steps_def split: sum.splits)

lemma steps_invalid: "steps L (invalid_stream rb)"
  by (simp add: invalid_stream_def)

lemma steps_get_bytes: "rb_in rb \<Longrightarrow> 0 \<le> n \<Longrightarrow> steps (rb_len rb - n) (get_bytes rb n)"
  by (auto simp: get_bytes_def rb_read_def peek_def rb_in_def invalid_stream_def)

lemma steps_get_bytes_le: "rb_in rb \<Longrightarrow> 0 \<le> n \<Longrightarrow> rb_len rb \<le> L \<Longrightarrow> steps L (get_bytes rb n)"
  using steps_get_bytes steps_mono [of "rb_len rb - n"] by fastforce

lemma steps_get_buffer: "rb_in rb \<Longrightarrow> rb_len rb \<le> L \<Longrightarrow> steps L (get_buffer rb n)"
  by (auto simp: get_buffer_def rb_read_def peek_def rb_in_def invalid_stream_def)

lemma steps_leaf: "steps L m \<Longrightarrow> steps L (on_ok m (leaf f))"
  by (erule steps_on_ok) simp

lemma steps_get_integer: "rb_in rb \<Longrightarrow> rb_len rb \<le> L \<Longrightarrow> steps L (get_integer rb c)"
  by (auto simp: get_integer_def intro!: steps_on_ok [OF steps_get_bytes_le] steps_invalid)

lemma steps_get_real: "rb_in rb \<Longrightarrow> rb_len rb \<le> L \<Longrightarrow> steps L (get_real rb)"
  by (auto simp: get_real_def intro!: steps_on_ok [OF steps_get_bytes_le])

lemma steps_get_pointer: "rb_in rb \<Longrightarrow> rb_len rb \<le> L \<Longrightarrow> steps L (get_pointer rb)"
  by (auto simp: get_pointer_def intro!: steps_on_ok [OF steps_get_bytes_le])

lemma steps_long_string: "rb_in rb \<Longrightarrow> rb_len rb \<le> L \<Longrightarrow> steps L (push_long_string rb c)"
  by (auto simp: push_long_string_def intro!: steps_on_ok [OF steps_get_bytes_le] steps_get_buffer steps_invalid)

lemma steps_table_count: "rb_in rb \<Longrightarrow> rb_len rb \<le> L \<Longrightarrow> steps L (table_count rb n)"
  by (auto simp: table_count_def Let_def
      intro!: steps_on_ok [OF steps_get_bytes_le] steps_on_ok [OF steps_get_integer] steps_invalid)

lemma steps_raw_set:
  "(\<And>es'. steps L (f es')) \<Longrightarrow> steps L (on_ok (raw_set es k v) f)"
  by (auto simp: raw_set_def norm_key_def split: tree.splits atom.splits option.splits)

text \<open>The function that reads one value, on at most \<open>L\<close> bytes.\<close>

definition reader_ok :: "int \<Rightarrow> reader \<Rightarrow> bool" where
  "reader_ok L one \<longleftrightarrow> (\<forall>rb. rb_in rb \<longrightarrow> rb_len rb \<le> L \<longrightarrow> steps (rb_len rb - 1) (one rb))"

lemma reader_okD: "reader_ok L one \<Longrightarrow> rb_in rb \<Longrightarrow> rb_len rb \<le> L \<Longrightarrow> steps (rb_len rb - 1) (one rb)"
  by (simp add: reader_ok_def)

lemma steps_array:
  "reader_ok L one \<Longrightarrow> rb_in rb \<Longrightarrow> rb_len rb \<le> L \<Longrightarrow> rb_len rb < int n \<Longrightarrow>
   steps (rb_len rb) (unpack_array one n rb i cnt es)"
proof (induction n arbitrary: rb i es)
  case 0
  then show ?case by (simp add: rb_in_def)
next
  case (Suc n)
  have "steps (rb_len rb) (unpack_array one n rb' (i + 1) cnt es')"
    if "rb_in rb'" "rb_len rb' \<le> rb_len rb - 1" for rb' es'
    by (rule steps_mono [OF Suc.IH [OF Suc.prems(1) that(1)]]) (use that Suc.prems(3,4) in auto)
  then show ?case
    using Suc.prems(2) by (auto intro!: steps_on_ok [OF reader_okD [OF Suc.prems(1-3)]] steps_raw_set)
qed

lemma steps_hash:
  "reader_ok L one \<Longrightarrow> rb_in rb \<Longrightarrow> rb_len rb \<le> L \<Longrightarrow> rb_len rb < int n \<Longrightarrow>
   steps (rb_len rb) (unpack_hash one n rb es)"
proof (induction n arbitrary: rb es)
  case 0
  then show ?case by (simp add: rb_in_def)
next
  case (Suc n)
  have rest: "steps (rb_len rb) (unpack_hash one n rb' es')"
    if "rb_in rb'" "rb_len rb' \<le> rb_len rb - 1" for rb' es'
    by (rule steps_mono [OF Suc.IH [OF Suc.prems(1) that(1)]]) (use that Suc.prems(3,4) in auto)
  have second: "steps (rb_len rb - 1) (one rb')" if "rb_in rb'" "rb_len rb' \<le> rb_len rb - 1" for rb'
    by (rule steps_mono [OF reader_okD [OF Suc.prems(1) that(1)]]) (use that Suc.prems(3) in auto)
  show ?case
    by (auto intro!: steps_on_ok [OF reader_okD [OF Suc.prems(1-3)]] steps_on_ok [OF second] steps_raw_set rest)
qed

lemma steps_value:
  assumes "reader_ok L one" "rb_in rb" "rb_len rb \<le> L" "rb_len rb < int n"
  shows "steps (rb_len rb) (push_value one n rb ty c)"
proof -
  have hash: "steps (rb_len rb) (on_ok (unpack_hash one n rb' es) (\<lambda>(es, rb). Inr (Node es, rb)))"
    if "rb_in rb'" "rb_len rb' \<le> rb_len rb" for rb' es
    using that assms by (intro steps_on_ok [OF steps_mono [OF steps_hash [OF assms(1)]]]) auto
  have arr: "steps (rb_len rb) (unpack_array one n rb' 1 cnt [])"
    if "rb_in rb'" "rb_len rb' \<le> rb_len rb" for rb' cnt
    using that assms by (intro steps_mono [OF steps_array [OF assms(1)]]) auto
  have "steps (rb_len rb) (unpack_table one n rb c)"
    unfolding unpack_table_def using assms(2)
    by (auto intro!: steps_on_ok [OF steps_table_count] steps_on_ok [OF arr] hash)
  then show ?thesis
    using assms(2) by (auto simp: push_value_def intro!: steps_leaf steps_get_integer steps_get_real
        steps_get_pointer steps_get_buffer steps_long_string steps_invalid)
qed

lemma unpack_one_ok: "reader_ok (int n - 1) (unpack_one n)"
proof (induction n)
  case 0
  then show ?case by (auto simp: reader_ok_def rb_in_def)
next
  case (Suc n)
  have "steps (rb_len rb - 1) (push_value (unpack_one n) n rb' ty c)"
    if "rb_in rb" "rb_len rb \<le> int n" "rb_in rb'" "rb_len rb' \<le> rb_len rb - 1" for rb rb' ty c
    by (rule steps_mono [OF steps_value [OF Suc that(3)]]) (use that in auto)
  then show ?case
    by (auto simp: reader_ok_def intro!: steps_on_ok [OF steps_get_bytes])
qed

lemma unpack_loop_ok:
  "rb_in rb \<Longrightarrow> rb_len rb < int n \<Longrightarrow> unpack_loop n rb \<notin> {Inl OutOfFuel, Inl BadRead}"
proof (induction n arbitrary: rb)
  case 0
  then show ?case by (simp add: rb_in_def)
next
  case (Suc n)
  show ?case
  proof (cases "1 \<le> rb_len rb")
    case False
    then show ?thesis by (simp add: rb_read_def)
  next
    case True
    have one: "steps (rb_len rb - 1) (unpack_one (Suc n) rb)"
      using Suc.prems by (intro reader_okD [OF unpack_one_ok]) auto
    show ?thesis
    proof (cases "unpack_one (Suc n) rb")
      case (Inl e)
      then show ?thesis using one True by (simp add: unpack_loop_step del: unpack_one.simps unpack_loop.simps)
    next
      case (Inr p)
      then obtain v rb' where p: "p = (v, rb')" "rb_in rb'" "rb_len rb' \<le> rb_len rb - 1"
        using one by (cases p) auto
      then have "unpack_loop n rb' \<notin> {Inl OutOfFuel, Inl BadRead}" using Suc by simp
      then show ?thesis using Inr p(1) True
        by (cases "unpack_loop n rb'") (auto simp: unpack_loop_step simp del: unpack_one.simps unpack_loop.simps)
    qed
  qed
qed

lemma unpack_buffer_ok:
  assumes "len \<le> int (length bs)"
  shows "unpack_buffer (Some bs) len \<notin> {Inl OutOfFuel, Inl BadRead}"
proof (cases "0 \<le> len")
  case True
  then show ?thesis
    using assms unpack_loop_ok [of "rball_init bs len" "nat len + 1"]
    by (auto simp: unpack_buffer_def rb_in_def rball_init_def simp del: unpack_loop.simps)
next
  case False
  then show ?thesis by (simp add: unpack_buffer_def rb_read_def rball_init_def)
qed

lemma c_int_le: "0 \<le> x \<Longrightarrow> c_int x \<le> x"
proof (cases "x < 2 ^ 31")
  case False
  then show ?thesis using c_int_range(2) [of x] by linarith
qed (simp add: c_int_id)

section \<open>Cyclic tables\<close>

text \<open>\<open>S\<close> is a set of tables each of which holds one of the set, as a key or as a value.\<close>

definition cyclic :: "lheap \<Rightarrow> nat set \<Rightarrow> bool" where
  "cyclic H S \<longleftrightarrow> (\<forall>a \<in> S. pairs_of (H a) = None \<and>
     (\<exists>(k, v) \<in> set (entries (H a)). k \<in> Tab ` S \<or> v \<in> Tab ` S))"

lemma pack_all_fails:
  "v \<in> set vs \<Longrightarrow> (\<And>b. \<exists>e. pack_one H v d b = Inl e) \<Longrightarrow> \<exists>e. pack_all H vs d b = Inl e"
proof (induction vs arbitrary: b)
  case (Cons x xs)
  show ?case
  proof (cases "pack_one H x d b")
    case (Inr b')
    then have "v \<in> set xs" using Cons.prems(1) Cons.prems(2) [of b] by auto
    with Cons.IH [OF _ Cons.prems(2)] Inr show ?thesis by simp
  qed simp
qed simp

lemma pack_cyclic_fails:
  assumes H: "\<forall>a. table_ok (H a)" and S: "cyclic H S"
  shows "a \<in> S \<Longrightarrow> \<exists>e. pack_one H (Tab a) d b = Inl e"
proof (induction "33 - d" arbitrary: a d b)
  case 0
  then show ?case by (simp add: pack_one.simps MAX_DEPTH_def)
next
  case (Suc m)
  have None: "pairs_of (H a) = None" using S Suc.prems by (simp add: cyclic_def)
  have len: "c_int (int (raw_len (H a))) = int (raw_len (H a))"
    using H None by (auto simp: table_ok_def c_int_id dest!: spec [of _ a])
  obtain k v a' where kv: "(k, v) \<in> set (entries (H a))" "a' \<in> S" "k = Tab a' \<or> v = Tab a'"
    using S Suc.prems by (force simp: cyclic_def)
  have "(k, v) \<in> set (items (H a))"
    using kv(1) items_perm [of "H a"] H None by (metis set_mset_mset)
  then have mem: "Tab a' \<in> set (array_values (H a) (int (raw_len (H a)))) \<union> set (flat (other_pairs (H a)))"
  proof -
    assume "(k, v) \<in> set (items (H a))"
    then consider "(k, v) \<in> set (array_pairs (H a))" | "(k, v) \<in> set (other_pairs (H a))"
      using None by (auto simp: items_def)
    then show ?thesis
    proof cases
      case 1
      then have "v = Tab a'" using kv(3) by (auto simp: array_pairs_iff)
      with 1 show ?thesis by (force simp: array_values_eq)
    next
      case 2
      then have "k \<in> set (flat (other_pairs (H a))) \<and> v \<in> set (flat (other_pairs (H a)))"
        using all_flat [of "other_pairs (H a)" "\<lambda>v. v \<in> set (flat (other_pairs (H a)))"] by auto
      with kv(3) show ?thesis by auto
    qed
  qed
  have ih: "\<exists>e. pack_one H (Tab a') (d + 1) b = Inl e" for b
    using Suc.hyps(2) kv(2) by (intro Suc.hyps(1)) auto
  have "\<exists>e. wb_table H a (d + 1) b = Inl e"
  proof (cases "Tab a' \<in> set (array_values (H a) (int (raw_len (H a))))")
    case True
    from pack_all_fails [OF this ih] obtain e where
      "pack_all H (array_values (H a) (int (raw_len (H a)))) (d + 1) (table_header (int (raw_len (H a))) b) = Inl e"
      by blast
    then show ?thesis by (simp add: wb_table.simps None len Let_def)
  next
    case False
    then have "Tab a' \<in> set (flat (other_pairs (H a)))" using mem by blast
    from pack_all_fails [OF this ih] have
      "\<exists>e. pack_all H (flat (other_pairs (H a))) (d + 1) b = Inl e" for b .
    then show ?thesis
      by (cases "pack_all H (array_values (H a) (int (raw_len (H a)))) (d + 1) (table_header (int (raw_len (H a))) b)")
        (auto simp: wb_table.simps None len Let_def hash_values_eq, metis on_ok.simps(1))
  qed
  then show ?case using Suc.hyps(2) by (simp add: pack_one.simps MAX_DEPTH_def)
qed

section \<open>Properties\<close>

text \<open>
  C28: what \<open>luaseri_pack\<close> writes for any list of Lua values, \<open>luaseri_unpack\<close> reads back as the
  same values: every table is rebuilt with the same pairs, to any depth (\<open>k\<close>), its array part
  first. This covers the integers of every width, strings on both sides of the length limits,
  the counts of large arrays, and the cutting of the stream into blocks.
\<close>

theorem seri_roundtrip:
  assumes "\<forall>a. table_ok (H a)" "\<forall>v \<in> set vs. small v"
    and "luaseri_pack H vs = Inr bs" "length bs < 2 ^ 31"
  shows "luaseri_unpack (StringArg bs) = Inr (map (tree_of (34 + k) H) vs) \<and>
    luaseri_unpack (BufferArg (Some bs) (int (length bs))) = Inr (map (tree_of (34 + k) H) vs) \<and>
    (\<forall>a. pairs_of (H a) = None \<longrightarrow> mset (items (H a)) = mset (entries (H a)))"
  using seri_roundtrip_helper [OF assms] items_perm assms(1) by simp

definition demo_heap :: lheap where
  "demo_heap = (\<lambda>a.
     if a = 0 then \<lparr>raw_len = 2, entries = [(Atom (LInteger 1), Tab 1), (Atom (LString [65]), Tab 1),
       (Atom (LInteger 2), Atom (LInteger 300))], pairs_of = None\<rparr>
     else \<lparr>raw_len = 0, entries = [(Atom (LBoolean True), Atom (LInteger (- 5)))], pairs_of = None\<rparr>)"

lemma demo_heap_ok: "\<forall>a. table_ok (demo_heap a)"
proof
  fix a
  have "{1..2::nat} = {1, 2}" by auto
  then show "table_ok (demo_heap a)"
    by (auto simp: table_ok_def demo_heap_def good_pairs_def raw_geti_def)
qed

lemma wb_len_fill: "wb_len (wb_fill buf b) = wb_len b + int (length buf)"
proof (induction buf b rule: wb_fill.induct)
  case (1 buf b)
  then show ?case
    by (subst wb_fill.simps) (auto simp: wb_copy_def wb_again_def Let_def)
qed

lemma wb_len_push: "wb_len (wb_push buf b) = wb_len b + int (length buf)"
  by (simp add: wb_push_def wb_len_fill wb_again_def)

lemma demo_pack: "\<exists>bs. luaseri_pack demo_heap [Tab 0] = Inr bs \<and> length bs < 2 ^ 31"
proof -
  obtain b where b: "pack_all demo_heap [Tab 0] 0 wb_init = Inr b" "wb_len b = 23"
    by (simp add: pack_one.simps wb_table.simps MAX_DEPTH_def demo_heap_def c_int_id array_values_def
        hash_values_def in_array_def raw_geti_def pack_atom_def wb_nil_def wb_boolean_def wb_integer_def
        wb_string_def table_header_def type_defs wb_len_push wb_init_def upt_conv_Cons)
  from pack_reads(3) [OF demo_heap_ok wb_init_ok _ b(1)] obtain bss where "wb_ok b (concat bss)"
    by auto
  then show ?thesis
    using b seri_ok [of b "concat bss"] by (simp add: luaseri_pack_def wb_ok_def)
qed

theorem seri_roundtrip_witness:
  "\<exists>bs. luaseri_pack demo_heap [Tab 0] = Inr bs \<and>
     luaseri_unpack (StringArg bs) = Inr [Node [
       (Leaf (LInteger 1), Node [(Leaf (LBoolean True), Leaf (LInteger (- 5)))]),
       (Leaf (LInteger 2), Leaf (LInteger 300)),
       (Leaf (LString [65]), Node [(Leaf (LBoolean True), Leaf (LInteger (- 5)))])]]"
proof -
  have tree: "tree_of 34 demo_heap (Tab 0) = Node [
       (Leaf (LInteger 1), Node [(Leaf (LBoolean True), Leaf (LInteger (- 5)))]),
       (Leaf (LInteger 2), Leaf (LInteger 300)),
       (Leaf (LString [65]), Node [(Leaf (LBoolean True), Leaf (LInteger (- 5)))])]"
    by (simp add: eval_nat_numeral demo_heap_def items_def array_pairs_def other_pairs_def in_array_def raw_geti_def)
  obtain bs where bs: "luaseri_pack demo_heap [Tab 0] = Inr bs" "length bs < 2 ^ 31"
    using demo_pack by blast
  show ?thesis
    using seri_roundtrip [OF demo_heap_ok _ bs, of 0] bs(1) tree by auto
qed

text \<open>
  C29: \<open>luaseri_unpack\<close> ends on every stream, however it is damaged, and reads no byte outside
  the buffer it is given: a string, or a pointer with a length that is not larger than the
  memory it points to.
\<close>

theorem seri_unpack_safe:
  assumes "c_int n \<le> int (length bs)"
  shows "luaseri_unpack (StringArg bs) \<notin> {Inl OutOfFuel, Inl BadRead} \<and>
    luaseri_unpack (BufferArg (Some bs) n) \<notin> {Inl OutOfFuel, Inl BadRead}"
  using unpack_buffer_ok [OF assms] unpack_buffer_ok [OF c_int_le [of "int (length bs)"]] by simp

theorem seri_unpack_safe_witness:
  "luaseri_unpack (BufferArg (Some [6, 6, 6]) 3) \<notin> {Inl OutOfFuel, Inl BadRead}"
  using seri_unpack_safe [of 3 "[6, 6, 6]"] by (simp add: c_int_id)

text \<open>
  C30: packing always ends: a table that can be reached from itself through its keys and values
  is refused with a Lua error, by the depth limit at the latest.
\<close>

theorem seri_cycle_refused:
  assumes "\<forall>a. table_ok (H a)" "cyclic H S" "a \<in> S" "Tab a \<in> set vs"
  shows "\<exists>e. luaseri_pack H vs = Inl e"
  using pack_all_fails [OF assms(4) pack_cyclic_fails [OF assms(1-3)], of 0 wb_init]
  by (auto simp: luaseri_pack_def)

definition loop_heap :: lheap where
  "loop_heap = (\<lambda>a. \<lparr>raw_len = 0, entries = [(Atom (LString [65]), Tab 0)], pairs_of = None\<rparr>)"

theorem seri_cycle_refused_witness: "\<exists>e. luaseri_pack loop_heap [Atom LNil, Tab 0] = Inl e"
proof (rule seri_cycle_refused)
  show "\<forall>a. table_ok (loop_heap a)" by (simp add: table_ok_def loop_heap_def good_pairs_def)
  show "cyclic loop_heap {0}" by (simp add: cyclic_def loop_heap_def)
qed simp_all

end
