(* ===== verification/Netpack.thy ===== *)
theory Netpack
  imports Mq
begin

text \<open>
  \<open>lualib-src/lua-netpack.c\<close>: the filter that cuts the data of the sockets into packages with a
  two byte header. Packages that are not complete are kept in a hash table of chains, complete
  ones in a ring buffer, which the Lua code drains with \<open>pop\<close>.

  The queue is a Lua userdata that does not exist before its first use: None is the NULL pointer.
  A buffer that malloc returned holds None where nothing was copied yet.
\<close>

section \<open>State\<close>

definition QUEUESIZE :: int where "QUEUESIZE = 1024"
definition HASHSIZE :: nat where "HASHSIZE = 4096"

definition SKYNET_SOCKET_TYPE_DATA :: int where "SKYNET_SOCKET_TYPE_DATA = 1"
definition SKYNET_SOCKET_TYPE_CONNECT :: int where "SKYNET_SOCKET_TYPE_CONNECT = 2"
definition SKYNET_SOCKET_TYPE_CLOSE :: int where "SKYNET_SOCKET_TYPE_CLOSE = 3"
definition SKYNET_SOCKET_TYPE_ACCEPT :: int where "SKYNET_SOCKET_TYPE_ACCEPT = 4"
definition SKYNET_SOCKET_TYPE_ERROR :: int where "SKYNET_SOCKET_TYPE_ERROR = 5"
definition SKYNET_SOCKET_TYPE_WARNING :: int where "SKYNET_SOCKET_TYPE_WARNING = 7"

lemmas socket_type_defs = SKYNET_SOCKET_TYPE_DATA_def SKYNET_SOCKET_TYPE_CONNECT_def
  SKYNET_SOCKET_TYPE_CLOSE_def SKYNET_SOCKET_TYPE_ACCEPT_def SKYNET_SOCKET_TYPE_ERROR_def
  SKYNET_SOCKET_TYPE_WARNING_def

record netpack =
  np_id :: int
  np_size :: int
  np_buffer :: bytes

record uncomplete =
  uc_id :: int
  uc_size :: int
  uc_buffer :: "u8 option list"
  uc_read :: int
  uc_header :: int

record np_queue =
  q_cap :: int
  q_head :: int
  q_tail :: int
  q_hash :: "nat \<Rightarrow> uncomplete list"
  q_queue :: "netpack option list"

definition hash_fd :: "int \<Rightarrow> nat" where
  "hash_fd fd = (let a = fd div 2 ^ 24; b = fd div 2 ^ 12; c = fd
                 in unat (word_of_int (a + b + c) :: u32) mod HASHSIZE)"

text \<open>The walk along a chain, which unlinks the entry it finds.\<close>

fun unlink :: "int \<Rightarrow> uncomplete list \<Rightarrow> uncomplete option \<times> uncomplete list" where
  "unlink fd [] = (None, [])"
| "unlink fd (uc # us) =
     (if uc_id uc = fd then (Some uc, us)
      else case unlink fd us of (r, us') \<Rightarrow> (r, uc # us'))"

definition find_uncomplete :: "np_queue option \<Rightarrow> int \<Rightarrow> uncomplete option \<times> np_queue option" where
  "find_uncomplete qo fd = (case qo of
     None \<Rightarrow> (None, None)
   | Some q \<Rightarrow>
       let h = hash_fd fd in
       case unlink fd (q_hash q h) of (r, us) \<Rightarrow> (r, Some (q\<lparr>q_hash := (q_hash q)(h := us)\<rparr>)))"

definition get_queue :: "np_queue option \<Rightarrow> np_queue" where
  "get_queue qo = (case qo of
     Some q \<Rightarrow> q
   | None \<Rightarrow> \<lparr>q_cap = QUEUESIZE, q_head = 0, q_tail = 0, q_hash = (\<lambda>_. []),
              q_queue = replicate (nat QUEUESIZE) None\<rparr>)"

definition expand_packs :: "np_queue \<Rightarrow> np_queue option" where
  "expand_packs q = do {
     cells \<leftarrow> those (map (\<lambda>i. arr_get (q_queue q) ((q_head q + int i) mod q_cap q)) [0..<nat (q_cap q)]);
     Some \<lparr>q_cap = q_cap q + QUEUESIZE, q_head = 0, q_tail = q_cap q, q_hash = q_hash q,
           q_queue = cells @ replicate (nat QUEUESIZE) None\<rparr>
   }"

text \<open>
  \<open>push_data\<close>: the queue becomes the owner of the bytes, a copy of the caller's buffer when
  \<open>clone\<close> is set and the buffer itself otherwise.
\<close>

definition push_data :: "int \<Rightarrow> bytes \<Rightarrow> int \<Rightarrow> np_queue option \<Rightarrow> np_queue option option" where
  "push_data fd buffer sz qo = do {
     let q = get_queue qo;
     cells \<leftarrow> arr_set (q_queue q) (q_tail q) (Some \<lparr>np_id = fd, np_size = sz, np_buffer = buffer\<rparr>);
     let tail = q_tail q + 1;
     let tail = (if tail \<ge> q_cap q then tail - q_cap q else tail);
     let q = q\<lparr>q_tail := tail, q_queue := cells\<rparr>;
     q \<leftarrow> (if q_head q = q_tail q then expand_packs q else Some q);
     Some (Some q)
   }"

text \<open>\<open>save_uncomplete\<close> puts a new entry in front of its chain; the caller's fields are set in it.\<close>

definition save_uncomplete :: "uncomplete \<Rightarrow> np_queue option \<Rightarrow> np_queue option" where
  "save_uncomplete uc qo =
     (let q = get_queue qo; h = hash_fd (uc_id uc)
      in Some (q\<lparr>q_hash := (q_hash q)(h := uc # q_hash q h)\<rparr>))"

definition read_size :: "u8 \<Rightarrow> u8 \<Rightarrow> int" where
  "read_size b0 b1 = push_bit 8 (uint b0) OR uint b1"

definition half_header :: "int \<Rightarrow> u8 \<Rightarrow> uncomplete" where
  "half_header fd b = \<lparr>uc_id = fd, uc_size = 0, uc_buffer = [], uc_read = - 1, uc_header = uint b\<rparr>"

definition copy_into :: "u8 option list \<Rightarrow> int \<Rightarrow> bytes \<Rightarrow> u8 option list" where
  "copy_into buf at data = take (nat at) buf @ map Some data @ drop (nat at + length data) buf"

definition partial_pack :: "int \<Rightarrow> int \<Rightarrow> bytes \<Rightarrow> uncomplete" where
  "partial_pack fd pack_size data =
     \<lparr>uc_id = fd, uc_size = pack_size, uc_buffer = copy_into (replicate (nat pack_size) None) 0 data,
      uc_read = int (length data), uc_header = 0\<rparr>"

text \<open>Reading the size of fewer than two bytes is outside of the buffer.\<close>

function push_more :: "int \<Rightarrow> bytes \<Rightarrow> np_queue option \<Rightarrow> np_queue option option" where
  "push_more fd [] qo = None"
| "push_more fd [b] qo = Some (save_uncomplete (half_header fd b) qo)"
| "push_more fd (b0 # b1 # buffer) qo =
     (let pack_size = read_size b0 b1 in
      if int (length buffer) < pack_size then Some (save_uncomplete (partial_pack fd pack_size buffer) qo)
      else Option.bind (push_data fd (take (nat pack_size) buffer) pack_size qo) (\<lambda>qo.
        if drop (nat pack_size) buffer \<noteq> [] then push_more fd (drop (nat pack_size) buffer) qo
        else Some qo))"
  by pat_completeness auto
termination
  by (relation "measure (\<lambda>(fd, buffer, qo). length buffer)") auto

definition close_uncomplete :: "int \<Rightarrow> np_queue option \<Rightarrow> np_queue option" where
  "close_uncomplete fd qo = snd (find_uncomplete qo fd)"

datatype filter_result = NpNone | NpData int bytes int | NpMore | NpError int bytes
  | NpOpen int bytes | NpClose int | NpWarning int int

text \<open>The first bytes after the header was cut in two.\<close>

definition start_pack :: "uncomplete \<Rightarrow> bytes \<Rightarrow> (uncomplete \<times> bytes) option" where
  "start_pack uc buffer =
     (if uc_read uc < 0 then
        (case buffer of
           [] \<Rightarrow> None
         | b # buffer \<Rightarrow>
             let pack_size = uint b OR push_bit 8 (uc_header uc) in
             if uc_read uc = - 1 then
               Some (uc\<lparr>uc_size := pack_size, uc_buffer := replicate (nat pack_size) None, uc_read := 0\<rparr>, buffer)
             else None)
      else Some (uc, buffer))"

text \<open>The rest of the branch for a package that was begun, and the branch for a new one.\<close>

definition fill_pack :: "int \<Rightarrow> uncomplete \<Rightarrow> bytes \<Rightarrow> np_queue option \<Rightarrow> (filter_result \<times> np_queue option) option" where
  "fill_pack fd uc buffer qo = (
     let need = uc_size uc - uc_read uc in
     if int (length buffer) < need then
       Some (NpNone, save_uncomplete
         (uc\<lparr>uc_buffer := copy_into (uc_buffer uc) (uc_read uc) buffer,
             uc_read := uc_read uc + int (length buffer)\<rparr>) qo)
     else do {
       pack \<leftarrow> those (copy_into (uc_buffer uc) (uc_read uc) (take (nat need) buffer));
       let buffer = drop (nat need) buffer;
       if buffer = [] then Some (NpData fd pack (uc_size uc), qo)
       else do {
         qo \<leftarrow> push_data fd pack (uc_size uc) qo;
         qo \<leftarrow> push_more fd buffer qo;
         Some (NpMore, qo)
       }
     })"

fun new_pack :: "int \<Rightarrow> bytes \<Rightarrow> np_queue option \<Rightarrow> (filter_result \<times> np_queue option) option" where
  "new_pack fd [] qo = None"
| "new_pack fd [b] qo = Some (NpNone, save_uncomplete (half_header fd b) qo)"
| "new_pack fd (b0 # b1 # buffer) qo = (
     let pack_size = read_size b0 b1 in
     if int (length buffer) < pack_size then
       Some (NpNone, save_uncomplete (partial_pack fd pack_size buffer) qo)
     else if int (length buffer) = pack_size then Some (NpData fd buffer (int (length buffer)), qo)
     else do {
       qo \<leftarrow> push_data fd (take (nat pack_size) buffer) pack_size qo;
       qo \<leftarrow> push_more fd (drop (nat pack_size) buffer) qo;
       Some (NpMore, qo)
     })"

definition filter_data :: "int \<Rightarrow> bytes \<Rightarrow> np_queue option \<Rightarrow> (filter_result \<times> np_queue option) option" where
  "filter_data fd buffer qo = (case find_uncomplete qo fd of
     (Some uc, qo) \<Rightarrow> do { (uc, buffer) \<leftarrow> start_pack uc buffer; fill_pack fd uc buffer qo }
   | (None, qo) \<Rightarrow> new_pack fd buffer qo)"

section \<open>The functions called from Lua\<close>

text \<open>
  A socket message: with \<open>buffer\<close> NULL a string follows the struct. A string that does not, of
  size -1, is a Lua error.
\<close>

record socket_msg =
  m_type :: int
  m_id :: int
  m_ud :: int
  m_buffer :: "bytes option"
  m_text :: bytes

definition pushstring :: "socket_msg \<Rightarrow> bytes option" where
  "pushstring msg = (case m_buffer msg of None \<Rightarrow> Some (m_text msg) | Some _ \<Rightarrow> None)"

definition lfilter :: "socket_msg \<Rightarrow> np_queue option \<Rightarrow> (filter_result \<times> np_queue option) option" where
  "lfilter msg qo = (
     if m_type msg = SKYNET_SOCKET_TYPE_DATA then
       (case m_buffer msg of
          None \<Rightarrow> None
        | Some buffer \<Rightarrow>
            if 0 \<le> m_ud msg \<and> m_ud msg \<le> int (length buffer)
            then filter_data (m_id msg) (take (nat (m_ud msg)) buffer) qo else None)
     else if m_type msg = SKYNET_SOCKET_TYPE_CONNECT then Some (NpNone, qo)
     else if m_type msg = SKYNET_SOCKET_TYPE_CLOSE then
       Some (NpClose (m_id msg), close_uncomplete (m_id msg) qo)
     else if m_type msg = SKYNET_SOCKET_TYPE_ACCEPT then
       map_option (\<lambda>s. (NpOpen (m_ud msg) s, qo)) (pushstring msg)
     else if m_type msg = SKYNET_SOCKET_TYPE_ERROR then
       map_option (\<lambda>s. (NpError (m_id msg) s, close_uncomplete (m_id msg) qo)) (pushstring msg)
     else if m_type msg = SKYNET_SOCKET_TYPE_WARNING then
       Some (NpWarning (m_id msg) (m_ud msg), qo)
     else Some (NpNone, qo))"

definition lpop :: "np_queue option \<Rightarrow> (netpack option \<times> np_queue option) option" where
  "lpop qo = (case qo of
     None \<Rightarrow> Some (None, None)
   | Some q \<Rightarrow>
       if q_head q = q_tail q then Some (None, Some q)
       else do {
         cell \<leftarrow> arr_get (q_queue q) (q_head q);
         np \<leftarrow> cell;
         let head = q_head q + 1;
         let head = (if head \<ge> q_cap q then 0 else head);
         Some (Some np, Some (q\<lparr>q_head := head\<rparr>))
       })"

definition write_size :: "int \<Rightarrow> bytes" where
  "write_size len = [word_of_int (len div 2 ^ 8 mod 256), word_of_int (len mod 256)]"

text \<open>None is the Lua error of a string that is too long.\<close>

definition lpack :: "bytes \<Rightarrow> bytes option" where
  "lpack data = (if length data \<ge> 0x10000 then None else Some (write_size (int (length data)) @ data))"

definition ltostring :: "bytes option \<Rightarrow> int \<Rightarrow> bytes option" where
  "ltostring ptr sz = (case ptr of
     None \<Rightarrow> Some []
   | Some buf \<Rightarrow> if 0 \<le> sz \<and> sz \<le> int (length buf) then Some (take (nat sz) buf) else None)"

text \<open>\<open>lclear\<close> with the buffers that it frees: those of the chains, then those of the ring.\<close>

definition lclear :: "np_queue option \<Rightarrow> (u8 option list list \<times> bytes list \<times> np_queue option) option" where
  "lclear qo = (case qo of
     None \<Rightarrow> Some ([], [], None)
   | Some q \<Rightarrow> do {
       let tail = (if q_head q > q_tail q then q_tail q + q_cap q else q_tail q);
       cells \<leftarrow> those (map (\<lambda>i. Option.bind (arr_get (q_queue q) ((q_head q + int i) mod q_cap q)) id)
                          [0..<nat (tail - q_head q)]);
       Some (concat (map (\<lambda>h. map uc_buffer (q_hash q h)) [0..<HASHSIZE]), map np_buffer cells,
             Some (q\<lparr>q_hash := (\<lambda>h. if h < HASHSIZE then [] else q_hash q h), q_head := 0, q_tail := 0\<rparr>))
     })"

section \<open>The ring buffer\<close>

definition ring :: "'a list \<Rightarrow> int \<Rightarrow> int \<Rightarrow> 'a list" where
  "ring xs h k = map (\<lambda>i. xs ! nat ((h + int i) mod int (length xs)))
     [0..<nat (if h \<le> k then k - h else k + int (length xs) - h)]"

definition ring_next :: "'a list \<Rightarrow> int \<Rightarrow> int" where
  "ring_next xs i = (if i + 1 \<ge> int (length xs) then 0 else i + 1)"

definition ring_pos :: "'a list \<Rightarrow> int \<Rightarrow> bool" where
  "ring_pos xs i \<longleftrightarrow> 0 \<le> i \<and> i < int (length xs)"

lemma ring_pos_next: "ring_pos xs i \<Longrightarrow> ring_pos xs (ring_next xs i)"
  by (auto simp: ring_pos_def ring_next_def)

lemma ring_empty_iff: "ring_pos xs h \<Longrightarrow> ring_pos xs k \<Longrightarrow> ring xs h k = [] \<longleftrightarrow> h = k"
  by (auto simp: ring_def ring_pos_def)

lemma ring_pop:
  assumes "ring_pos xs h" "ring_pos xs k" "h \<noteq> k"
  shows "ring xs h k = xs ! nat h # ring xs (ring_next xs h) k"
proof -
  let ?c = "int (length xs)" and ?h' = "ring_next xs h"
  define n where "n = nat (if ?h' \<le> k then k - ?h' else k + ?c - ?h')"
  have len: "nat (if h \<le> k then k - h else k + ?c - h) = Suc n"
    using assms by (auto simp: n_def ring_next_def ring_pos_def split: if_splits)
  have shift: "(h + (1 + int i)) mod ?c = (?h' + int i) mod ?c" for i
  proof (cases "h + 1 \<ge> ?c")
    case True
    then have "h + (1 + int i) = int i + ?c" using assms by (auto simp: ring_pos_def)
    then show ?thesis using True by (simp only: ring_next_def if_True mod_add_self2 add_0)
  qed (simp add: ring_next_def add.assoc)
  have "h mod ?c = h" using assms(1) by (simp add: ring_pos_def)
  then show ?thesis
    unfolding ring_def len n_def [symmetric]
    by (simp add: upt_conv_Cons map_Suc_upt [symmetric] shift o_def del: upt_Suc)
qed

text \<open>Writing at the tail: the ring grows by one, also when it becomes full.\<close>

lemma np_ring_write:
  assumes "ring_pos xs h" "ring_pos xs k"
  defines "n \<equiv> length (ring xs h k)"
  shows "map (\<lambda>i. xs[nat k := x] ! nat ((h + int i) mod int (length xs))) [0..<Suc n] = ring xs h k @ [x]"
    "Suc n \<le> length xs" "h = ring_next xs k \<longleftrightarrow> Suc n = length xs"
    "h \<noteq> ring_next xs k \<Longrightarrow> Suc n = nat (if h \<le> ring_next xs k then ring_next xs k - h else ring_next xs k + int (length xs) - h)"
proof -
  let ?c = "int (length xs)"
  have n: "int n = (if h \<le> k then k - h else k + ?c - h)"
    using assms(1,2) by (simp add: n_def ring_def ring_pos_def)
  have c: "0 < ?c" using assms(1) unfolding ring_pos_def by linarith
  show "Suc n \<le> length xs" using n assms(1,2) by (auto simp: ring_pos_def split: if_splits)
  show "h = ring_next xs k \<longleftrightarrow> Suc n = length xs"
    using n assms(1,2) by (auto simp: ring_pos_def ring_next_def split: if_splits)
  show "h \<noteq> ring_next xs k \<Longrightarrow> Suc n = nat (if h \<le> ring_next xs k then ring_next xs k - h else ring_next xs k + ?c - h)"
    using n assms(1,2) by (auto simp: ring_pos_def ring_next_def split: if_splits)
  have at: "(h + int n) mod ?c = k"
    using n assms(1,2) c by (subst ring_index) (auto simp: ring_pos_def split: if_splits)
  have other: "(h + int i) mod ?c \<noteq> k" if "i < n" for i
    using n assms(1,2) c that by (subst ring_index) (auto simp: ring_pos_def split: if_splits)
  have "xs[nat k := x] ! nat ((h + int i) mod ?c) = xs ! nat ((h + int i) mod ?c)" if "i < n" for i
  proof -
    have "0 \<le> (h + int i) mod ?c" using c by simp
    with other [OF that] assms(2) show ?thesis by (subst nth_list_update_neq) (auto simp: nat_eq_iff ring_pos_def)
  qed
  moreover have "nat k < length xs" using assms(2) unfolding ring_pos_def by linarith
  then have "xs[nat k := x] ! nat k = x" by simp
  moreover have "ring xs h k = map (\<lambda>i. xs ! nat ((h + int i) mod ?c)) [0..<n]"
    by (simp add: ring_def n_def)
  ultimately show "map (\<lambda>i. xs[nat k := x] ! nat ((h + int i) mod ?c)) [0..<Suc n] = ring xs h k @ [x]"
    using at by simp
qed

section \<open>Abstraction\<close>

definition queued :: "np_queue option \<Rightarrow> (int \<times> bytes) list" where
  "queued qo = (case qo of None \<Rightarrow> []
   | Some q \<Rightarrow> map (\<lambda>c. (np_id (the c), np_buffer (the c))) (ring (q_queue q) (q_head q) (q_tail q)))"

definition ring_ok :: "np_queue \<Rightarrow> bool" where
  "ring_ok q \<longleftrightarrow> q_cap q = int (length (q_queue q)) \<and> QUEUESIZE \<le> q_cap q \<and>
     ring_pos (q_queue q) (q_head q) \<and> ring_pos (q_queue q) (q_tail q) \<and>
     (\<forall>c \<in> set (ring (q_queue q) (q_head q) (q_tail q)). \<exists>np. c = Some np \<and> np_size np = int (length (np_buffer np)))"

text \<open>What is known of a package that is not complete: the bytes of the stream it stands for.\<close>

definition uc_ok :: "uncomplete \<Rightarrow> bytes \<Rightarrow> bool" where
  "uc_ok uc bs \<longleftrightarrow>
     (\<exists>b. bs = [b] \<and> uc_read uc = - 1 \<and> uc_header uc = uint b) \<or>
     (\<exists>b0 b1 data. bs = b0 # b1 # data \<and> uc_size uc = read_size b0 b1 \<and> uc_read uc = int (length data) \<and>
        int (length data) < uc_size uc \<and>
        uc_buffer uc = map Some data @ replicate (nat (uc_size uc) - length data) None)"

text \<open>\<open>pending qo p\<close>: \<open>p\<close> gives for every socket the bytes that are not part of a package yet.\<close>

definition chain_ok :: "uncomplete list \<Rightarrow> nat \<Rightarrow> (int \<Rightarrow> bytes) \<Rightarrow> bool" where
  "chain_ok us h p \<longleftrightarrow> distinct (map uc_id us) \<and>
     (\<forall>fd. hash_fd fd = h \<longrightarrow> (if p fd = [] then fd \<notin> uc_id ` set us
        else \<exists>uc \<in> set us. uc_id uc = fd \<and> uc_ok uc (p fd))) \<and>
     (\<forall>uc \<in> set us. hash_fd (uc_id uc) = h)"

definition pending :: "np_queue option \<Rightarrow> (int \<Rightarrow> bytes) \<Rightarrow> bool" where
  "pending qo p \<longleftrightarrow> (case qo of None \<Rightarrow> p = (\<lambda>_. []) | Some q \<Rightarrow> \<forall>h. chain_ok (q_hash q h) h p)"

definition np_ok :: "np_queue option \<Rightarrow> (int \<times> bytes) list \<Rightarrow> (int \<Rightarrow> bytes) \<Rightarrow> bool" where
  "np_ok qo ps p \<longleftrightarrow> ps = queued qo \<and> pending qo p \<and> (case qo of None \<Rightarrow> True | Some q \<Rightarrow> ring_ok q)"

lemma np_ok_get_queue: "np_ok qo ps p \<Longrightarrow> np_ok (Some (get_queue qo)) ps p"
proof (cases qo)
  case None
  assume "np_ok qo ps p"
  with None have "ps = []" "p = (\<lambda>_. [])" by (simp_all add: np_ok_def queued_def pending_def)
  then show ?thesis
    by (simp add: None np_ok_def queued_def pending_def get_queue_def ring_def ring_ok_def ring_pos_def chain_ok_def
        QUEUESIZE_def)
qed (simp add: get_queue_def)

lemma np_ok_None: "np_ok None [] (\<lambda>_. [])"
  by (simp add: np_ok_def queued_def pending_def)

section \<open>The operations on the abstraction\<close>

lemma unlink_eq:
  "distinct (map uc_id us) \<Longrightarrow> unlink fd us = (find (\<lambda>uc. uc_id uc = fd) us, filter (\<lambda>uc. uc_id uc \<noteq> fd) us)"
proof (induction us)
  case (Cons uc us)
  then have "filter (\<lambda>uc. uc_id uc \<noteq> fd) us = us" if "uc_id uc = fd"
  proof -
    have "fd \<notin> set (map uc_id us)" using Cons.prems that by simp
    then show ?thesis by (induction us) auto
  qed
  with Cons show ?case by auto
qed simp

lemma find_uncomplete_ok:
  assumes "np_ok qo ps p"
  obtains r qo' where "find_uncomplete qo fd = (r, qo')" "np_ok qo' ps (p(fd := []))"
    "if p fd = [] then r = None else \<exists>uc. r = Some uc \<and> uc_id uc = fd \<and> uc_ok uc (p fd)"
proof (cases qo)
  case None
  then have p: "p = (\<lambda>_. [])" using assms by (simp add: np_ok_def pending_def)
  then have "p(fd := []) = p" by auto
  with None p assms that show ?thesis by (simp add: find_uncomplete_def)
next
  case (Some q)
  let ?h = "hash_fd fd" and ?us = "q_hash q (hash_fd fd)"
  let ?us' = "filter (\<lambda>uc. uc_id uc \<noteq> fd) ?us"
  let ?q = "q\<lparr>q_hash := (q_hash q)(?h := ?us')\<rparr>"
  have ch: "chain_ok (q_hash q h) h p" for h using assms by (simp add: Some np_ok_def pending_def)
  have d: "distinct (map uc_id ?us)" using ch by (simp add: chain_ok_def)
  have eq: "find_uncomplete qo fd = (find (\<lambda>uc. uc_id uc = fd) ?us, Some ?q)"
    by (simp add: find_uncomplete_def Some unlink_eq [OF d] Let_def)
  have "chain_ok ?us' ?h (p(fd := []))"
    using ch [of ?h] unfolding chain_ok_def by (auto simp: distinct_map_filter split: if_splits)
  moreover have "chain_ok (q_hash q h) h (p(fd := []))" if "h \<noteq> ?h" for h
    using ch [of h] that unfolding chain_ok_def by auto
  ultimately have "np_ok (Some ?q) ps (p(fd := []))"
    using assms by (auto simp: Some np_ok_def pending_def queued_def ring_ok_def)
  moreover have "if p fd = [] then find (\<lambda>uc. uc_id uc = fd) ?us = None
      else \<exists>uc. find (\<lambda>uc. uc_id uc = fd) ?us = Some uc \<and> uc_id uc = fd \<and> uc_ok uc (p fd)"
  proof (cases "p fd = []")
    case True
    then have "fd \<notin> uc_id ` set ?us" using ch [of ?h] unfolding chain_ok_def by (metis (full_types))
    then show ?thesis using True by (auto simp: find_None_iff)
  next
    case False
    then obtain uc where uc: "uc \<in> set ?us" "uc_id uc = fd" "uc_ok uc (p fd)"
      using ch [of ?h] unfolding chain_ok_def by (metis (full_types))
    then obtain uc' where uc': "find (\<lambda>uc. uc_id uc = fd) ?us = Some uc'"
      by (cases "find (\<lambda>uc. uc_id uc = fd) ?us") (auto simp: find_None_iff)
    then have "uc' \<in> set ?us" "uc_id uc' = fd" by (auto simp: find_Some_iff)
    then have "uc' = uc" using uc d by (auto simp: distinct_map inj_on_def)
    with uc uc' False show ?thesis by simp
  qed
  ultimately show ?thesis by (rule that [OF eq])
qed

lemma save_uncomplete_ok:
  assumes ok: "np_ok qo ps p" and fd: "p (uc_id uc) = []" and uc: "uc_ok uc bs" "bs \<noteq> []"
  shows "np_ok (save_uncomplete uc qo) ps (p(uc_id uc := bs))"
proof -
  obtain q where q: "get_queue qo = q" by blast
  have okq: "np_ok (Some q) ps p" using np_ok_get_queue [OF ok] q by simp
  let ?h = "hash_fd (uc_id uc)"
  let ?us = "uc # q_hash q ?h"
  have ch: "chain_ok (q_hash q h) h p" for h using okq by (simp add: np_ok_def pending_def)
  have new: "uc_id uc \<notin> uc_id ` set (q_hash q ?h)"
    using ch [of ?h] fd unfolding chain_ok_def by (metis (full_types))
  have "chain_ok ?us ?h (p(uc_id uc := bs))"
    using ch [of ?h] new uc unfolding chain_ok_def by auto
  moreover have "chain_ok (q_hash q h) h (p(uc_id uc := bs))" if "h \<noteq> ?h" for h
    using ch [of h] that unfolding chain_ok_def by auto
  ultimately show ?thesis
    using okq by (auto simp: save_uncomplete_def q np_ok_def pending_def queued_def ring_ok_def Let_def)
qed

lemma those_arr_get:
  "(\<And>i. i \<in> set is \<Longrightarrow> 0 \<le> f i \<and> f i < int (length xs)) \<Longrightarrow>
   those (map (\<lambda>i. arr_get xs (f i)) is) = Some (map (\<lambda>i. xs ! nat (f i)) is)"
  by (rule those_map_Some) simp

lemma push_data_ok:
  assumes ok: "np_ok qo ps p"
  obtains qo' where "push_data fd buf (int (length buf)) qo = Some qo'" "np_ok qo' (ps @ [(fd, buf)]) p"
proof -
  obtain q where q: "get_queue qo = q" by blast
  have okq: "np_ok (Some q) ps p" using np_ok_get_queue [OF ok] q by simp
  let ?xs = "q_queue q" and ?h = "q_head q" and ?k = "q_tail q"
  let ?np = "Some \<lparr>np_id = fd, np_size = int (length buf), np_buffer = buf\<rparr>"
  let ?ys = "?xs[nat ?k := ?np]" and ?k' = "ring_next ?xs ?k"
  have r: "ring_ok q" and ps: "ps = queued (Some q)" and pend: "pending (Some q) p"
    using okq by (simp_all add: np_ok_def)
  have cap: "q_cap q = int (length ?xs)" "QUEUESIZE \<le> q_cap q" and pos: "ring_pos ?xs ?h" "ring_pos ?xs ?k"
    and cells: "\<forall>c \<in> set (ring ?xs ?h ?k). \<exists>np. c = Some np \<and> np_size np = int (length (np_buffer np))"
    using r by (auto simp: ring_ok_def)
  note w = np_ring_write(1) [OF pos, of ?np] np_ring_write(2-4) [OF pos]
  have set: "arr_set ?xs ?k ?np = Some ?ys" using pos(2) by (simp add: ring_pos_def)
  have tail: "(if ?k + 1 \<ge> q_cap q then ?k + 1 - q_cap q else ?k + 1) = ?k'"
    using pos(2) cap(1) by (auto simp: ring_next_def ring_pos_def)
  let ?q1 = "q\<lparr>q_tail := ?k', q_queue := ?ys\<rparr>"
  have eq: "push_data fd buf (int (length buf)) qo = map_option Some (if ?h = ?k' then expand_packs ?q1 else Some ?q1)"
    unfolding push_data_def q Let_def using set tail
    by (simp add: option.map_comp) (cases "?h = ?k'"; simp add: map_option_case split: option.splits)
  have good: "\<forall>c \<in> set (ring ?xs ?h ?k @ [?np]). \<exists>np. c = Some np \<and> np_size np = int (length (np_buffer np))"
    using cells by auto
  have abs: "map (\<lambda>c. (np_id (the c), np_buffer (the c))) (ring ?xs ?h ?k @ [?np]) = ps @ [(fd, buf)]"
    by (simp add: ps queued_def)
  show ?thesis
  proof (cases "?h = ?k'")
    case False
    have "ring ?ys ?h ?k' = ring ?xs ?h ?k @ [?np]"
      unfolding ring_def [of ?ys] length_list_update w(4) [OF False, symmetric] by (rule w(1))
    then have "np_ok (Some ?q1) (ps @ [(fd, buf)]) p"
      using good abs pend cap pos ring_pos_next [OF pos(2)]
      by (simp add: np_ok_def queued_def pending_def ring_ok_def ring_pos_def ring_next_def)
    then show ?thesis using that eq False by simp
  next
    case True
    have len: "Suc (length (ring ?xs ?h ?k)) = length ?xs" using w(3) True by simp
    have cells_eq: "those (map (\<lambda>i. arr_get ?ys ((?h + int i) mod q_cap q)) [0..<nat (q_cap q)]) = Some (ring ?xs ?h ?k @ [?np])"
    proof -
      have "0 < q_cap q" using cap(2) by (simp add: QUEUESIZE_def)
      then have "those (map (\<lambda>i. arr_get ?ys ((?h + int i) mod q_cap q)) [0..<nat (q_cap q)]) =
          Some (map (\<lambda>i. ?ys ! nat ((?h + int i) mod q_cap q)) [0..<nat (q_cap q)])"
        by (intro those_arr_get) (simp add: cap(1))
      then show ?thesis using w(1) len by (simp add: cap(1) del: upt_Suc)
    qed
    let ?q2 = "\<lparr>q_cap = q_cap q + QUEUESIZE, q_head = 0, q_tail = q_cap q, q_hash = q_hash q,
      q_queue = (ring ?xs ?h ?k @ [?np]) @ replicate (nat QUEUESIZE) None\<rparr>"
    have ex: "expand_packs ?q1 = Some ?q2" using cells_eq by (simp add: expand_packs_def)
    have "ring (q_queue ?q2) 0 (q_cap q) = ring ?xs ?h ?k @ [?np]"
      unfolding ring_def [of "q_queue ?q2"]
      using len cap by (intro map_upt_eqI) (simp_all add: QUEUESIZE_def nth_append)
    then have "np_ok (Some ?q2) (ps @ [(fd, buf)]) p"
      using good abs pend cap len
      by (simp add: np_ok_def queued_def pending_def ring_ok_def ring_pos_def QUEUESIZE_def)
    then show ?thesis using that eq True ex by simp
  qed
qed

section \<open>The packages of a stream\<close>

function packets :: "bytes \<Rightarrow> bytes list \<times> bytes" where
  "packets [] = ([], [])"
| "packets [b] = ([], [b])"
| "packets (b0 # b1 # data) =
     (let n = nat (read_size b0 b1) in
      if length data < n then ([], b0 # b1 # data)
      else case packets (drop n data) of (fs, r) \<Rightarrow> (take n data # fs, r))"
  by pat_completeness auto
termination
  by (relation "measure length") auto

lemma read_size_eq: "read_size b0 b1 = 256 * uint b0 + uint b1"
proof -
  have "take_bit 8 (uint b1) = uint b1" using uint_lt2p [of b1] by (simp add: take_bit_int_eq_self)
  then have "push_bit 8 (uint b0) AND uint b1 = 0"
    by (intro bit_eqI) (metis bit_0_eq bit_and_iff bit_push_bit_iff bit_take_bit_iff bot_apply bot_bool_def linorder_not_le)
  then have "push_bit 8 (uint b0) OR uint b1 = push_bit 8 (uint b0) + uint b1"
    by (simp add: disjunctive_add_eq_or)
  then show ?thesis by (simp add: read_size_def push_bit_eq_mult)
qed

lemma read_size_bounds: "0 \<le> read_size b0 b1" "read_size b0 b1 < 65536"
  using uint_lt2p [of b0] uint_lt2p [of b1] by (simp_all add: read_size_eq)

lemma packets_append:
  "packets xs = (fs, r) \<Longrightarrow> packets (xs @ ys) = (fs @ fst (packets (r @ ys)), snd (packets (r @ ys)))"
proof (induction xs arbitrary: fs r rule: packets.induct)
  case (3 b0 b1 data)
  let ?n = "nat (read_size b0 b1)"
  show ?case
  proof (cases "length data < ?n")
    case True
    with 3 show ?thesis by (auto simp: Let_def)
  next
    case False
    obtain fs' r' where p: "packets (drop ?n data) = (fs', r')" by (cases "packets (drop ?n data)")
    with 3(2) False have "fs = take ?n data # fs'" "r = r'" by (auto simp: Let_def)
    with 3(1) [OF refl False p] False show ?thesis by (simp add: Let_def)
  qed
qed auto

lemma packets_rest: "packets xs = (fs, r) \<Longrightarrow> packets r = ([], r)"
proof (induction xs arbitrary: fs r rule: packets.induct)
  case (3 b0 b1 data)
  then show ?case by (auto simp: Let_def split: if_splits prod.splits)
qed auto

lemma copy_into_eq:
  "copy_into (map Some d @ replicate n None) (int (length d)) data =
     map Some (d @ data) @ replicate (n - length data) None"
  by (simp add: copy_into_def)

lemma partial_pack_ok:
  "int (length data) < read_size b0 b1 \<Longrightarrow> uc_ok (partial_pack fd (read_size b0 b1) data) (b0 # b1 # data)"
  using copy_into_eq [of "[]" "nat (read_size b0 b1)" data]
  by (simp add: uc_ok_def partial_pack_def nat_diff_distrib)

lemma half_header_ok: "uc_ok (half_header fd b) [b]"
  by (simp add: uc_ok_def half_header_def)

lemma push_more_ok:
  "np_ok qo ps p \<Longrightarrow> p fd = [] \<Longrightarrow> buffer \<noteq> [] \<Longrightarrow> packets buffer = (fs, r) \<Longrightarrow>
   \<exists>qo'. push_more fd buffer qo = Some qo' \<and> np_ok qo' (ps @ map (Pair fd) fs) (p(fd := r))"
proof (induction fd buffer qo arbitrary: ps fs rule: push_more.induct)
  case (2 fd b qo)
  have "fs = []" "r = [b]" using 2(4) by auto
  moreover have "np_ok (save_uncomplete (half_header fd b) qo) ps (p(uc_id (half_header fd b) := [b]))"
    using 2(2) half_header_ok by (intro save_uncomplete_ok [OF 2(1)]) (simp_all add: half_header_def)
  ultimately show ?case by (simp add: half_header_def fun_upd_def)
next
  case (3 fd b0 b1 data qo)
  let ?n = "nat (read_size b0 b1)"
  show ?case
  proof (cases "int (length data) < read_size b0 b1")
    case True
    then have "fs = []" "r = b0 # b1 # data" using 3(5) True by (auto simp: Let_def zless_nat_eq_int_zless)
    then show ?thesis
      using True save_uncomplete_ok [OF 3(2), of "partial_pack fd (read_size b0 b1) data" "b0 # b1 # data"]
        partial_pack_ok [OF True, of fd] 3(3)
      by (simp add: partial_pack_def Let_def fun_upd_def)
  next
    case False
    then have len: "int (length (take ?n data)) = read_size b0 b1" using read_size_bounds [of b0 b1] by simp
    obtain fs' where fs: "packets (drop ?n data) = (fs', r)" "fs = take ?n data # fs'"
      using 3(5) False by (auto simp: Let_def zless_nat_eq_int_zless split: prod.splits)
    from push_data_ok [OF 3(2), of fd "take ?n data"] obtain qo1 where
      qo1: "push_data fd (take ?n data) (read_size b0 b1) qo = Some qo1" "np_ok qo1 (ps @ [(fd, take ?n data)]) p"
      unfolding len by blast
    show ?thesis
    proof (cases "drop ?n data = []")
      case True
      then have "fs' = []" "r = []" using fs(1) by simp_all
      moreover have "(\<lambda>a. if a = fd then [] else p a) = p" using 3(3) by auto
      ultimately show ?thesis using qo1 False True fs(2) by (simp add: Let_def)
    next
      case not_empty: False
      from 3(1) [OF refl False qo1(1) not_empty qo1(2) 3(3) not_empty fs(1)] qo1(1) False not_empty fs(2)
      show ?thesis by (simp add: Let_def)
    qed
  qed
qed simp

text \<open>What one block of data does: nothing, one package, or packages in the queue.\<close>

definition filtered :: "int \<Rightarrow> bytes list \<Rightarrow> bytes \<Rightarrow> (int \<times> bytes) list \<Rightarrow> (int \<Rightarrow> bytes) \<Rightarrow>
    filter_result \<Rightarrow> np_queue option \<Rightarrow> bool" where
  "filtered fd fs r ps p res qo' \<longleftrightarrow>
     (case res of
        NpNone \<Rightarrow> fs = [] \<and> np_ok qo' ps (p(fd := r))
      | NpData fd' f n \<Rightarrow> fd' = fd \<and> fs = [f] \<and> r = [] \<and> n = int (length f) \<and> np_ok qo' ps (p(fd := r))
      | NpMore \<Rightarrow> np_ok qo' (ps @ map (Pair fd) fs) (p(fd := r))
      | _ \<Rightarrow> False)"

lemma push_both_ok:
  assumes ok: "np_ok qo ps p" "p fd = []" and more: "buffer \<noteq> []" "packets buffer = (fs, r)"
  shows "\<exists>qo1 qo2. push_data fd f (int (length f)) qo = Some qo1 \<and> push_more fd buffer qo1 = Some qo2 \<and>
    filtered fd (f # fs) r ps p NpMore qo2"
proof -
  from push_data_ok [OF ok(1), of fd f] obtain qo1 where
    qo1: "push_data fd f (int (length f)) qo = Some qo1" "np_ok qo1 (ps @ [(fd, f)]) p" .
  from push_more_ok [OF qo1(2) ok(2) more] qo1(1) show ?thesis by (auto simp: filtered_def)
qed

lemma fill_pack_ok:
  assumes ok: "np_ok qo ps p" "p fd = []" and uc: "uc_id uc = fd" "uc_size uc = read_size b0 b1"
    "uc_read uc = int (length d)" "int (length d) \<le> uc_size uc"
    "uc_buffer uc = map Some d @ replicate (nat (uc_size uc) - length d) None"
    and pk: "packets (b0 # b1 # d @ buffer) = (fs, r)"
  shows "\<exists>res qo'. fill_pack fd uc buffer qo = Some (res, qo') \<and> filtered fd fs r ps p res qo'"
proof -
  let ?S = "nat (read_size b0 b1)" and ?need = "nat (uc_size uc - uc_read uc)"
  have need: "?need = ?S - length d" using uc(2-4) by simp
  have copy: "copy_into (uc_buffer uc) (uc_read uc) xs = map Some (d @ xs) @ replicate (?S - length d - length xs) None" for xs
    using copy_into_eq [of d "?S - length d" xs] uc(2,3,5) by simp
  show ?thesis
  proof (cases "int (length buffer) < uc_size uc - uc_read uc")
    case True
    let ?uc = "uc\<lparr>uc_buffer := copy_into (uc_buffer uc) (uc_read uc) buffer, uc_read := uc_read uc + int (length buffer)\<rparr>"
    have rest: "fs = []" "r = b0 # b1 # d @ buffer"
      using pk True uc(2,3) by (auto simp: Let_def zless_nat_eq_int_zless)
    have "uc_ok ?uc (b0 # b1 # d @ buffer)"
      using True uc(2-4) copy [of buffer] by (simp add: uc_ok_def)
    then have "np_ok (save_uncomplete ?uc qo) ps (p(uc_id ?uc := b0 # b1 # d @ buffer))"
      using ok(2) uc(1) by (intro save_uncomplete_ok [OF ok(1)]) simp_all
    then show ?thesis using True uc(1) rest by (simp add: fill_pack_def filtered_def)
  next
    case False
    let ?f = "d @ take ?need buffer"
    have len: "length (take ?need buffer) = ?S - length d" "length d \<le> ?S" using False uc(2-4) need by auto
    then have lenf: "int (length ?f) = uc_size uc" using uc(2) read_size_bounds [of b0 b1] by simp
    have pack: "those (copy_into (uc_buffer uc) (uc_read uc) (take ?need buffer)) = Some ?f"
      using copy [of "take ?need buffer"] len(1) those_map_Some [of ?f Some id] by simp
    obtain fs' where fs: "packets (drop ?need buffer) = (fs', r)" "fs = ?f # fs'"
      using pk False len uc(2,3) need
      by (auto simp: Let_def zless_nat_eq_int_zless split: prod.splits)
    show ?thesis
    proof (cases "drop ?need buffer = []")
      case True
      then have "fs' = []" "r = []" using fs(1) by simp_all
      moreover have "p(fd := []) = p" using ok(2) by auto
      ultimately show ?thesis
        using False True pack fs(2) ok(1) lenf by (simp add: fill_pack_def filtered_def Let_def)
    next
      case more: False
      from push_both_ok [OF ok more fs(1), of ?f] show ?thesis
        using False more pack fs(2) unfolding lenf by (auto simp: fill_pack_def Let_def)
    qed
  qed
qed

lemma new_pack_ok:
  assumes ok: "np_ok qo ps p" "p fd = []" and buffer: "buffer \<noteq> []" "packets buffer = (fs, r)"
  shows "\<exists>res qo'. new_pack fd buffer qo = Some (res, qo') \<and> filtered fd fs r ps p res qo'"
proof (cases buffer rule: packets.cases)
  case (2 b)
  then have rest: "fs = []" "r = [b]" using buffer(2) by auto
  have "np_ok (save_uncomplete (half_header fd b) qo) ps (p(uc_id (half_header fd b) := [b]))"
    using ok(2) half_header_ok by (intro save_uncomplete_ok [OF ok(1)]) (simp_all add: half_header_def)
  then show ?thesis using 2 rest by (simp add: filtered_def half_header_def)
next
  case (3 b0 b1 data)
  let ?n = "nat (read_size b0 b1)" and ?uc = "partial_pack fd (read_size b0 b1) data"
  note bounds = read_size_bounds [of b0 b1]
  show ?thesis
  proof (cases "int (length data) < read_size b0 b1")
    case True
    then have rest: "fs = []" "r = b0 # b1 # data" using buffer(2) 3 by (auto simp: Let_def zless_nat_eq_int_zless)
    have "np_ok (save_uncomplete ?uc qo) ps (p(uc_id ?uc := b0 # b1 # data))"
      using ok(2) partial_pack_ok [OF True] by (intro save_uncomplete_ok [OF ok(1)]) (simp_all add: partial_pack_def)
    then show ?thesis using 3 True rest by (simp add: filtered_def partial_pack_def Let_def)
  next
    case False
    obtain fs' where fs: "packets (drop ?n data) = (fs', r)" "fs = take ?n data # fs'"
      using buffer(2) 3 False by (auto simp: Let_def zless_nat_eq_int_zless split: prod.splits)
    show ?thesis
    proof (cases "int (length data) = read_size b0 b1")
      case True
      then have "take ?n data = data" "fs' = []" "r = []" using fs(1) by auto
      moreover have "p(fd := []) = p" using ok(2) by auto
      ultimately show ?thesis using 3 False True fs(2) ok(1) by (simp add: filtered_def Let_def)
    next
      case more: False
      then have ne: "drop ?n data \<noteq> []" using False bounds by auto
      have len: "int (length (take ?n data)) = read_size b0 b1" using False bounds by simp
      from push_both_ok [OF ok ne fs(1), of "take ?n data"] show ?thesis
        using 3 False more fs(2) unfolding len by (auto simp: Let_def)
    qed
  qed
qed (use buffer(1) in simp)

lemma filter_data_ok:
  assumes ok: "np_ok qo ps p" and buffer: "buffer \<noteq> []" "packets (p fd @ buffer) = (fs, r)"
  shows "\<exists>res qo'. filter_data fd buffer qo = Some (res, qo') \<and> filtered fd fs r ps p res qo'"
proof -
  obtain u qo1 where u: "find_uncomplete qo fd = (u, qo1)" and ok1: "np_ok qo1 ps (p(fd := []))"
    and uc: "if p fd = [] then u = None else \<exists>uc. u = Some uc \<and> uc_id uc = fd \<and> uc_ok uc (p fd)"
    by (rule find_uncomplete_ok [OF ok])
  have upd: "filtered fd fs r ps (p(fd := [])) res qo' \<longleftrightarrow> filtered fd fs r ps p res qo'" for res qo'
    by (simp only: filtered_def fun_upd_upd)
  show ?thesis
  proof (cases "p fd = []")
    case True
    then show ?thesis
      using new_pack_ok [OF ok1 _ buffer(1), of fd fs r] buffer(2) u uc by (simp add: filter_data_def upd)
  next
    case False
    then obtain uc where uc: "u = Some uc" "uc_id uc = fd" "uc_ok uc (p fd)" using uc by auto
    have fill: ?thesis
      if "start_pack uc buffer = Some (uc', buffer')" "uc_id uc' = fd" "uc_size uc' = read_size b0 b1"
        "uc_read uc' = int (length d)" "int (length d) \<le> uc_size uc'"
        "uc_buffer uc' = map Some d @ replicate (nat (uc_size uc') - length d) None"
        "p fd @ buffer = b0 # b1 # d @ buffer'" for uc' buffer' b0 b1 d
      using fill_pack_ok [OF ok1 _ that(2-6), of buffer' fs r] buffer(2) that(1,7) u uc(1)
      by (simp add: filter_data_def upd)
    from uc(3) show ?thesis unfolding uc_ok_def
    proof (elim disjE exE conjE)
      fix b assume b: "p fd = [b]" "uc_read uc = - 1" "uc_header uc = uint b"
      obtain c data where c: "buffer = c # data" using buffer(1) by (cases buffer) auto
      have "uint c OR push_bit 8 (uc_header uc) = read_size b c"
        unfolding b(3) read_size_def by (rule or.commute)
      then show ?thesis
        using b c uc(2) read_size_bounds [of b c]
        by (intro fill [of "uc\<lparr>uc_size := read_size b c, uc_buffer := replicate (nat (read_size b c)) None, uc_read := 0\<rparr>"
              data b c "[]"]) (simp_all add: start_pack_def Let_def)
    next
      fix b0 b1 data assume d: "p fd = b0 # b1 # data" "uc_size uc = read_size b0 b1" "uc_read uc = int (length data)"
        "int (length data) < uc_size uc" "uc_buffer uc = map Some data @ replicate (nat (uc_size uc) - length data) None"
      then show ?thesis using uc(2) by (intro fill [of uc buffer b0 b1 data]) (simp_all add: start_pack_def)
    qed
  qed
qed

section \<open>Draining the queue\<close>

lemma lpop_empty: "np_ok qo [] p \<Longrightarrow> lpop qo = Some (None, qo)"
  by (cases qo) (auto simp: np_ok_def lpop_def queued_def ring_ok_def ring_empty_iff dest: sym)

lemma lpop_Cons:
  assumes "np_ok qo ((fd, f) # ps) p"
  shows "\<exists>qo'. lpop qo = Some (Some \<lparr>np_id = fd, np_size = int (length f), np_buffer = f\<rparr>, qo') \<and> np_ok qo' ps p"
proof -
  obtain q where q: "qo = Some q" "ring_ok q" "pending (Some q) p" "(fd, f) # ps = queued (Some q)"
    using assms by (cases qo) (auto simp: np_ok_def queued_def)
  let ?xs = "q_queue q" and ?h = "q_head q" and ?k = "q_tail q"
  have pos: "ring_pos ?xs ?h" "ring_pos ?xs ?k" and cap: "q_cap q = int (length ?xs)" "QUEUESIZE \<le> q_cap q"
    and cells: "\<forall>c \<in> set (ring ?xs ?h ?k). \<exists>np. c = Some np \<and> np_size np = int (length (np_buffer np))"
    using q(2) by (auto simp: ring_ok_def)
  have ne: "?h \<noteq> ?k"
  proof
    assume "?h = ?k"
    then have "ring ?xs ?h ?k = []" by (simp add: ring_def)
    then show False using q(4) by (simp add: queued_def)
  qed
  note pop = ring_pop [OF pos ne]
  obtain np where np: "?xs ! nat ?h = Some np" "np_size np = int (length (np_buffer np))"
    using cells unfolding pop by auto
  have abs: "np_id np = fd" "np_buffer np = f"
    "ps = map (\<lambda>c. (np_id (the c), np_buffer (the c))) (ring ?xs (ring_next ?xs ?h) ?k)"
    using q(4) np by (simp_all add: queued_def pop)
  then have np_eq: "np = \<lparr>np_id = fd, np_size = int (length f), np_buffer = f\<rparr>" using np(2) by simp
  have "lpop qo = Some (Some np, Some (q\<lparr>q_head := ring_next ?xs ?h\<rparr>))"
    using ne np(1) pos(1) cap(1) by (auto simp: lpop_def q(1) Let_def ring_next_def ring_pos_def)
  moreover have "np_ok (Some (q\<lparr>q_head := ring_next ?xs ?h\<rparr>)) ps p"
    using q(3) abs(3) cap pos ring_pos_next [OF pos(1)] cells unfolding pop
    by (simp add: np_ok_def queued_def pending_def ring_ok_def)
  ultimately show ?thesis unfolding np_eq by blast
qed

lemma queued_less_cap: "ring_ok q \<Longrightarrow> length (queued (Some q)) < nat (q_cap q)"
  by (auto simp: queued_def ring_ok_def ring_def ring_pos_def)

text \<open>
  The Lua loop over \<open>netpack.pop\<close> (\<open>dispatch_queue\<close> in snax/gateserver.lua). The queue never holds
  as many packages as its capacity, which is the fuel.
\<close>

fun drain :: "nat \<Rightarrow> np_queue option \<Rightarrow> ((int \<times> bytes) list \<times> np_queue option) option" where
  "drain 0 qo = None"
| "drain (Suc n) qo = do {
     (r, qo) \<leftarrow> lpop qo;
     (case r of
        None \<Rightarrow> Some ([], qo)
      | Some np \<Rightarrow> do { (out, qo) \<leftarrow> drain n qo; Some ((np_id np, np_buffer np) # out, qo) })
   }"

lemma drain_ok: "np_ok qo ps p \<Longrightarrow> length ps < n \<Longrightarrow> \<exists>qo'. drain n qo = Some (ps, qo') \<and> np_ok qo' [] p"
proof (induction ps arbitrary: qo n)
  case Nil
  then show ?case by (cases n) (auto simp: lpop_empty)
next
  case (Cons x ps)
  obtain fd f where x: "x = (fd, f)" by (cases x)
  obtain m where n: "n = Suc m" "length ps < m" using Cons.prems(2) by (cases n) auto
  from lpop_Cons [OF Cons.prems(1) [unfolded x]] obtain qo' where
    "lpop qo = Some (Some \<lparr>np_id = fd, np_size = int (length f), np_buffer = f\<rparr>, qo')" "np_ok qo' ps p" by blast
  with Cons.IH [OF this(2) n(2)] show ?case by (auto simp: n x)
qed

definition pops :: "np_queue option \<Rightarrow> nat" where
  "pops qo = (case qo of None \<Rightarrow> 1 | Some q \<Rightarrow> nat (q_cap q))"

text \<open>The packages that the blocks of data of several sockets give, in the order of arrival.\<close>

definition data_message :: "int \<Rightarrow> bytes \<Rightarrow> socket_msg" where
  "data_message fd data =
     \<lparr>m_type = SKYNET_SOCKET_TYPE_DATA, m_id = fd, m_ud = int (length data), m_buffer = Some data, m_text = []\<rparr>"

fun receive :: "(int \<times> bytes) list \<Rightarrow> np_queue option \<Rightarrow> ((int \<times> bytes) list \<times> np_queue option) option" where
  "receive [] qo = Some ([], qo)"
| "receive ((fd, data) # es) qo = do {
     (res, qo) \<leftarrow> lfilter (data_message fd data) qo;
     (out, qo) \<leftarrow> (case res of
        NpData fd pack sz \<Rightarrow> Some ([(fd, pack)], qo)
      | NpMore \<Rightarrow> drain (pops qo) qo
      | _ \<Rightarrow> Some ([], qo));
     (out', qo) \<leftarrow> receive es qo;
     Some (out @ out', qo)
   }"

definition of_fd :: "int \<Rightarrow> (int \<times> 'a) list \<Rightarrow> 'a list" where
  "of_fd fd xs = map snd (filter (\<lambda>x. fst x = fd) xs)"

lemma of_fd_simps [simp]:
  "of_fd fd [] = []" "of_fd fd ((a, x) # xs) = (if a = fd then x # of_fd fd xs else of_fd fd xs)"
  "of_fd fd (xs @ ys) = of_fd fd xs @ of_fd fd ys"
  "of_fd fd (map (Pair a) zs) = (if a = fd then zs else [])"
  by (simp_all add: of_fd_def filter_map o_def filter_empty_conv)

lemma filter_step_ok:
  assumes ok: "np_ok qo [] p" and data: "data \<noteq> []" "packets (p fd @ data) = (fs, r)"
  shows "\<exists>res qo1 qo2. lfilter (data_message fd data) qo = Some (res, qo1) \<and>
    (case res of NpData fd pack sz \<Rightarrow> Some ([(fd, pack)], qo1) | NpMore \<Rightarrow> drain (pops qo1) qo1
       | _ \<Rightarrow> Some ([], qo1)) = Some (map (Pair fd) fs, qo2) \<and> np_ok qo2 [] (p(fd := r))"
proof -
  from filter_data_ok [OF ok data] obtain res qo1 where
    f: "filter_data fd data qo = Some (res, qo1)" "filtered fd fs r [] p res qo1" by blast
  then have eq: "lfilter (data_message fd data) qo = Some (res, qo1)"
    by (simp add: lfilter_def data_message_def)
  show ?thesis
  proof (cases "res = NpMore")
    case True
    then have ok1: "np_ok qo1 (map (Pair fd) fs) (p(fd := r))" using f(2) by (simp add: filtered_def)
    have "length (map (Pair fd) fs) < pops qo1"
    proof (cases qo1)
      case None
      then show ?thesis using ok1 by (simp add: np_ok_def queued_def pops_def)
    next
      case (Some q)
      then show ?thesis using ok1 queued_less_cap [of q] by (simp add: np_ok_def pops_def)
    qed
    from drain_ok [OF ok1 this] eq True show ?thesis by auto
  next
    case False
    with f(2) eq show ?thesis by (cases res) (auto simp: filtered_def)
  qed
qed

lemma receive_ok:
  assumes "np_ok qo [] p" "\<forall>fd. packets (p fd) = ([], p fd)" "\<forall>e \<in> set es. snd e \<noteq> []"
  shows "\<exists>out qo'. receive es qo = Some (out, qo') \<and>
    (\<forall>fd. of_fd fd out = fst (packets (p fd @ concat (of_fd fd es)))) \<and>
    np_ok qo' [] (\<lambda>fd. snd (packets (p fd @ concat (of_fd fd es))))"
  using assms
proof (induction es arbitrary: qo p)
  case Nil
  then show ?case by simp
next
  case (Cons e es)
  obtain fd data where e: "e = (fd, data)" by (cases e)
  obtain fs r where pk: "packets (p fd @ data) = (fs, r)" by (cases "packets (p fd @ data)")
  let ?p = "p(fd := r)"
  from filter_step_ok [OF Cons.prems(1) _ pk] Cons.prems(3) obtain res qo1 qo2 where
    step: "lfilter (data_message fd data) qo = Some (res, qo1)"
      "(case res of NpData fd pack sz \<Rightarrow> Some ([(fd, pack)], qo1) | NpMore \<Rightarrow> drain (pops qo1) qo1
         | _ \<Rightarrow> Some ([], qo1)) = Some (map (Pair fd) fs, qo2)"
    and ok2: "np_ok qo2 [] ?p" by (auto simp: e)
  have rest: "\<forall>fd. packets (?p fd) = ([], ?p fd)" using Cons.prems(2) packets_rest [OF pk] by simp
  from Cons.IH [OF ok2 rest] Cons.prems(3) obtain out qo' where
    out: "receive es qo2 = Some (out, qo')"
      "\<forall>a. of_fd a out = fst (packets (?p a @ concat (of_fd a es)))"
      "np_ok qo' [] (\<lambda>a. snd (packets (?p a @ concat (of_fd a es))))" by auto
  have join: "packets (p fd @ data @ ys) = (fs @ fst (packets (r @ ys)), snd (packets (r @ ys)))" for ys
    using packets_append [OF pk, of ys] by simp
  have "receive (e # es) qo = Some (map (Pair fd) fs @ out, qo')"
    using step out(1) by (simp add: e)
  moreover have "of_fd a (map (Pair fd) fs @ out) = fst (packets (p a @ concat (of_fd a (e # es))))" for a
    using out(2) join by (cases "a = fd") (simp_all add: e)
  moreover have "(\<lambda>a. snd (packets (?p a @ concat (of_fd a es)))) = (\<lambda>a. snd (packets (p a @ concat (of_fd a (e # es)))))"
    using join by (auto simp: e)
  ultimately show ?case using out(3) by auto
qed

section \<open>Properties\<close>

lemma lpack_Some:
  assumes "lpack m = Some x"
  obtains b0 b1 where "x = b0 # b1 # m" "read_size b0 b1 = int (length m)"
proof -
  have len: "int (length m) < 65536" and x: "x = write_size (int (length m)) @ m"
    using assms by (auto simp: lpack_def split: if_splits)
  have "read_size (word_of_int (int (length m) div 2 ^ 8 mod 256)) (word_of_int (int (length m) mod 256)) = int (length m)"
    using len unfolding read_size_eq by (simp add: uint_word_of_int)
  then show ?thesis by (rule that [rotated]) (simp add: x write_size_def)
qed

lemma packets_lpack: "map lpack ms = map Some xs \<Longrightarrow> packets (concat xs) = (ms, [])"
proof (induction ms arbitrary: xs)
  case (Cons m ms)
  obtain x xs' where xs: "xs = x # xs'" "lpack m = Some x" "map lpack ms = map Some xs'"
    using Cons.prems by (cases xs) auto
  obtain b0 b1 where x: "x = b0 # b1 # m" "read_size b0 b1 = int (length m)" by (rule lpack_Some [OF xs(2)])
  then show ?case using Cons.IH [OF xs(3)] xs(1) by (simp add: Let_def)
qed simp

text \<open>
  C34: the messages that \<open>pack\<close> prefixes with their size arrive as they were sent: for any number
  of sockets whose streams are cut into blocks in any way and arrive interleaved, the filter and
  the loop over \<open>pop\<close> deliver for each socket exactly its messages, in order; nothing is left in
  the queue, also when the ring buffer has to grow.
\<close>

theorem netpack_stream:
  assumes "\<forall>e \<in> set es. snd e \<noteq> []"
    and "\<forall>fd. \<exists>xs. map lpack (ms fd) = map Some xs \<and> concat (of_fd fd es) = concat xs"
  shows "\<exists>out qo. receive es None = Some (out, qo) \<and> (\<forall>fd. of_fd fd out = ms fd) \<and> lpop qo = Some (None, qo)"
proof -
  from receive_ok [OF np_ok_None, of es] assms(1) obtain out qo where
    out: "receive es None = Some (out, qo)" "\<forall>fd. of_fd fd out = fst (packets (concat (of_fd fd es)))"
      "np_ok qo [] (\<lambda>fd. snd (packets (concat (of_fd fd es))))" by auto
  have "fst (packets (concat (of_fd fd es))) = ms fd" for fd
    using assms(2) packets_lpack by (metis fst_conv)
  with out lpop_empty [OF out(3)] show ?thesis by auto
qed

theorem netpack_stream_witness:
  "\<exists>out qo. receive [(3, [0]), (4, [0, 1, 9]), (3, [2, 7, 8, 0, 0])] None = Some (out, qo) \<and>
     of_fd 3 out = [[7, 8], []] \<and> of_fd 4 out = [[9]]"
proof -
  let ?es = "[(3, [0]), (4, [0, 1, 9]), (3, [2, 7, 8, 0, 0])] :: (int \<times> bytes) list"
  let ?ms = "\<lambda>fd :: int. if fd = 3 then [[7, 8], []] else if fd = 4 then [[9]] else [] :: bytes list"
  have "\<exists>xs. map lpack (?ms fd) = map Some xs \<and> concat (of_fd fd ?es) = concat xs" for fd
  proof (cases "fd = 3 \<or> fd = 4")
    case True
    have "map lpack (?ms 3) = map Some [[0, 2, 7, 8], [0, 0]]" "map lpack (?ms 4) = map Some [[0, 1, 9]]"
      by (simp_all add: lpack_def write_size_def)
    with True show ?thesis
      by (elim disjE) (intro exI [of _ "[[0, 2, 7, 8], [0, 0]]"], simp, intro exI [of _ "[[0, 1, 9]]"], simp)
  next
    case False
    then show ?thesis by (intro exI [of _ "[]"]) simp
  qed
  then have "\<forall>fd. \<exists>xs. map lpack (?ms fd) = map Some xs \<and> concat (of_fd fd ?es) = concat xs" by blast
  from netpack_stream [OF _ this] obtain out qo where
    "receive ?es None = Some (out, qo)" "\<forall>fd. of_fd fd out = ?ms fd" by auto
  then show ?thesis by (intro exI [of _ out] exI [of _ qo]) simp
qed

end
