(* ===== verification/Sproto.thy ===== *)
theory Sproto
  imports Prelude
begin

text \<open>
  The packing of runs of zero bytes in lualib-src/sproto/sproto.c (\<open>sproto_pack\<close>, \<open>sproto_unpack\<close>)
  and the Lua functions pack and unpack of lsproto.c that use it. The output buffer is a list of
  bytes, written at a position; a write outside of it is None. Sizes are below 1 GB, so the int
  arithmetic does not overflow.
\<close>

section \<open>Packing\<close>

text \<open>The loop of \<open>pack_seg\<close> over the indices: buffer, write position, room, header, count.\<close>

fun seg_loop :: "nat list \<Rightarrow> bytes \<Rightarrow> bytes \<Rightarrow> int \<Rightarrow> int \<Rightarrow> u8 \<Rightarrow> nat \<Rightarrow> (bytes \<times> u8 \<times> nat) option" where
  "seg_loop [] src buf pos sz hdr nz = Some (buf, hdr, nz)"
| "seg_loop (i # is) src buf pos sz hdr nz = do {
     b \<leftarrow> arr_get src (int i);
     if b \<noteq> 0 then
       (if sz > 0 then do {
          buf \<leftarrow> arr_set buf pos b;
          seg_loop is src buf (pos + 1) (sz - 1) (hdr OR push_bit i 1) (nz + 1)
        } else seg_loop is src buf pos sz (hdr OR push_bit i 1) (nz + 1))
     else seg_loop is src buf pos sz hdr nz
   }"

definition pack_seg :: "bytes \<Rightarrow> bytes \<Rightarrow> int \<Rightarrow> int \<Rightarrow> nat \<Rightarrow> (int \<times> bytes) option" where
  "pack_seg src buf pos sz n = do {
     obuffer \<leftarrow> Some (if sz - 1 < 0 then None else Some pos);
     (buf, hdr, notzero) \<leftarrow> seg_loop [0..<8] src buf (pos + 1) (sz - 1) 0 0;
     notzero \<leftarrow> Some (if (notzero = 7 \<or> notzero = 6) \<and> n > 0 then 8 else notzero);
     if notzero = 8 then Some (if n > 0 then 8 else 10, buf)
     else do {
       buf \<leftarrow> (case obuffer of Some p \<Rightarrow> arr_set buf p hdr | None \<Rightarrow> Some buf);
       Some (int notzero + 1, buf)
     }
   }"

fun put_bytes :: "bytes \<Rightarrow> int \<Rightarrow> bytes \<Rightarrow> bytes option" where
  "put_bytes [] pos buf = Some buf"
| "put_bytes (b # bs) pos buf = do { buf \<leftarrow> arr_set buf pos b; put_bytes bs (pos + 1) buf }"

text \<open>\<open>write_ff\<close> with the source pointer as an index of the whole source.\<close>

definition write_ff :: "bytes \<Rightarrow> nat \<Rightarrow> bytes \<Rightarrow> int \<Rightarrow> nat \<Rightarrow> bytes option" where
  "write_ff srcv src buf des n = do {
     buf \<leftarrow> arr_set buf des 0xff;
     buf \<leftarrow> arr_set buf (des + 1) (of_nat (n - 1));
     if src + n * 8 \<le> length srcv then put_bytes (take (n * 8) (drop src srcv)) (des + 2) buf
     else do {
       sz \<leftarrow> Some (length srcv - src);
       buf \<leftarrow> put_bytes (take sz (drop src srcv)) (des + 2) buf;
       put_bytes (replicate (n * 8 - sz) 0) (des + 2 + int sz) buf
     }
   }"

text \<open>A pointer into the source, or the local buffer \<open>tmp\<close> of the last segment.\<close>

datatype seg_pointer = At nat | Tmp

text \<open>
  The segment at \<open>i\<close>, padded with zeros in \<open>tmp\<close>. \<open>write_ff\<close> cannot start in \<open>tmp\<close>: it compares the
  pointer with the end of the source.
\<close>

definition seg_at :: "bytes \<Rightarrow> nat \<Rightarrow> seg_pointer \<times> bytes" where
  "seg_at srcv i =
     (let padding = int i + 8 - int (length srcv) in
      if padding > 0 then (Tmp, take (nat (8 - padding)) (drop i srcv) @ replicate (nat padding) 0)
      else (At i, take 8 (drop i srcv)))"

definition flush_ff :: "bytes \<Rightarrow> int \<Rightarrow> seg_pointer \<Rightarrow> int \<Rightarrow> nat \<Rightarrow> bytes \<Rightarrow> bytes option" where
  "flush_ff srcv bufsz srcstart desstart n buf =
     (if bufsz \<ge> 0 then
        (case srcstart of At k \<Rightarrow> write_ff srcv k buf desstart n | Tmp \<Rightarrow> None)
      else Some buf)"

record pack_state =
  pk_buf :: bytes
  pk_pos :: int
  pk_room :: int
  pk_size :: int
  ff_srcstart :: seg_pointer
  ff_desstart :: int
  ff_n :: nat

definition pack_step :: "bytes \<Rightarrow> nat \<Rightarrow> pack_state \<Rightarrow> pack_state option" where
  "pack_step srcv i st =
     (case seg_at srcv i of (src, seg) \<Rightarrow> do {
        (n, buf) \<leftarrow> pack_seg seg (pk_buf st) (pk_pos st) (pk_room st) (ff_n st);
        st \<leftarrow> Some (st\<lparr>pk_buf := buf, pk_room := pk_room st - n\<rparr>);
        st \<leftarrow>
          (if n = 10 then Some (st\<lparr>ff_srcstart := src, ff_desstart := pk_pos st, ff_n := 1\<rparr>)
           else if n = 8 \<and> ff_n st > 0 then do {
             st \<leftarrow> Some (st\<lparr>ff_n := ff_n st + 1\<rparr>);
             if ff_n st = 256 then do {
               buf \<leftarrow> flush_ff srcv (pk_room st) (ff_srcstart st) (ff_desstart st) 256 (pk_buf st);
               Some (st\<lparr>pk_buf := buf, ff_n := 0\<rparr>)
             } else Some st
           } else if ff_n st > 0 then do {
             buf \<leftarrow> flush_ff srcv (pk_room st) (ff_srcstart st) (ff_desstart st) (ff_n st) (pk_buf st);
             Some (st\<lparr>pk_buf := buf, ff_n := 0\<rparr>)
           } else Some st);
        Some (st\<lparr>pk_pos := pk_pos st + n, pk_size := pk_size st + n\<rparr>)
      })"

function pack_loop :: "bytes \<Rightarrow> nat \<Rightarrow> pack_state \<Rightarrow> pack_state option" where
  "pack_loop srcv i st =
     (if i < length srcv then Option.bind (pack_step srcv i st) (pack_loop srcv (i + 8)) else Some st)"
  by auto
termination by (relation "measure (\<lambda>(srcv, i, st). length srcv - i)") auto

declare pack_loop.simps [simp del]

definition sproto_pack :: "bytes \<Rightarrow> bytes \<Rightarrow> int \<Rightarrow> (int \<times> bytes) option" where
  "sproto_pack srcv buf bufsz = do {
     st \<leftarrow> pack_loop srcv 0 \<lparr>pk_buf = buf, pk_pos = 0, pk_room = bufsz, pk_size = 0,
             ff_srcstart = At 0, ff_desstart = 0, ff_n = 0\<rparr>;
     buf \<leftarrow> (if ff_n st > 0
            then flush_ff srcv (pk_room st) (ff_srcstart st) (ff_desstart st) (ff_n st) (pk_buf st)
            else Some (pk_buf st));
     Some (pk_size st, buf)
   }"

section \<open>Unpacking\<close>

text \<open>The eight bits of a header: the rest of the source, or None for a stream that ends too early.\<close>

fun unpack_bits :: "nat list \<Rightarrow> u8 \<Rightarrow> bytes \<Rightarrow> bytes \<Rightarrow> int \<Rightarrow> int
    \<Rightarrow> (bytes option \<times> bytes \<times> int \<times> int) option" where
  "unpack_bits [] hdr src buf pos bufsz = Some (Some src, buf, pos, bufsz)"
| "unpack_bits (i # is) hdr src buf pos bufsz =
     (if bit hdr i then
        (case src of
           [] \<Rightarrow> Some (None, buf, pos, bufsz)
         | b # src \<Rightarrow>
             if bufsz > 0 then do {
               buf \<leftarrow> arr_set buf pos b;
               unpack_bits is hdr src buf (pos + 1) (bufsz - 1)
             } else unpack_bits is hdr src buf pos bufsz)
      else if bufsz > 0 then do {
        buf \<leftarrow> arr_set buf pos 0;
        unpack_bits is hdr src buf (pos + 1) (bufsz - 1)
      } else unpack_bits is hdr src buf pos bufsz)"

lemma unpack_bits_shorter:
  "unpack_bits is hdr src buf pos bufsz = Some (Some src', r) \<Longrightarrow> length src' \<le> length src"
proof (induction "is" arbitrary: src buf pos bufsz)
  case (Cons i "is")
  then show ?case by (auto elim!: option_bind_SomeE split: if_splits list.splits intro: le_SucI)
qed simp

function unpack_stream :: "bytes \<Rightarrow> bytes \<Rightarrow> int \<Rightarrow> int \<Rightarrow> int \<Rightarrow> (int \<times> bytes) option" where
  "unpack_stream src buf pos bufsz outsz =
     (case src of
        [] \<Rightarrow> Some (outsz, buf)
      | hdr # src \<Rightarrow>
          if hdr = 0xff then
            (case src of
               [] \<Rightarrow> Some (- 1, buf)
             | b # src \<Rightarrow>
                 let n = (unat b + 1) * 8 in
                 if length src < n then Some (- 1, buf)
                 else Option.bind (if bufsz \<ge> int n then put_bytes (take n src) pos buf else Some buf)
                   (\<lambda>buf. unpack_stream (drop n src) buf (pos + int n) (bufsz - int n) (outsz + int n)))
          else (case unpack_bits [0..<8] hdr src buf pos bufsz of
               None \<Rightarrow> None
             | Some (None, buf, r) \<Rightarrow> Some (- 1, buf)
             | Some (Some src', buf, pos, bufsz) \<Rightarrow> unpack_stream src' buf pos bufsz (outsz + 8)))"
  by pat_completeness auto
termination
  by (relation "measure (\<lambda>(src, r). length src)") (auto dest!: unpack_bits_shorter)

declare unpack_stream.simps [simp del]

definition sproto_unpack :: "bytes \<Rightarrow> bytes \<Rightarrow> int \<Rightarrow> (int \<times> bytes) option" where
  "sproto_unpack srcv buf bufsz = unpack_stream srcv buf 0 bufsz 0"

section \<open>The Lua functions pack and unpack\<close>

text \<open>
  Each of the two functions keeps an output buffer and its size in its upvalues. A new userdata of
  \<open>n\<close> bytes holds \<open>mem n\<close>, whatever that is. An int that overflows is None.
\<close>

record out_buffer =
  ob_data :: bytes
  ob_size :: int

datatype sproto_error = ObjectTooLarge | PackingError int | InvalidUnpackStream

definition ENCODE_BUFFERSIZE :: int where "ENCODE_BUFFERSIZE = 2050"
definition ENCODE_MAXSIZE :: int where "ENCODE_MAXSIZE = 0x1000000"

definition pushfunction_withbuffer :: "(int \<Rightarrow> bytes) \<Rightarrow> out_buffer" where
  "pushfunction_withbuffer mem = \<lparr>ob_data = mem ENCODE_BUFFERSIZE, ob_size = ENCODE_BUFFERSIZE\<rparr>"

partial_function (option) expand_size :: "int \<Rightarrow> int \<Rightarrow> int option" where
  "expand_size osz nsz =
     (let osz = osz * 2 in
      if osz > 0x7fffffff then None else if osz < nsz then expand_size osz nsz else Some osz)"

definition expand_buffer :: "(int \<Rightarrow> bytes) \<Rightarrow> int \<Rightarrow> int \<Rightarrow> (sproto_error + out_buffer) option" where
  "expand_buffer mem osz nsz = do {
     osz \<leftarrow> expand_size osz nsz;
     if osz > ENCODE_MAXSIZE then Some (Inl ObjectTooLarge)
     else Some (Inr \<lparr>ob_data = mem osz, ob_size = osz\<rparr>)
   }"

definition lpack :: "(int \<Rightarrow> bytes) \<Rightarrow> bytes \<Rightarrow> out_buffer \<Rightarrow> ((sproto_error + bytes) \<times> out_buffer) option" where
  "lpack mem buffer ob = do {
     maxsz \<leftarrow> Some (int ((length buffer + 2047) div 2048 * 2 + length buffer + 2));
     r \<leftarrow> (if ob_size ob < maxsz then expand_buffer mem (ob_size ob) maxsz else Some (Inr ob));
     case r of
       Inl e \<Rightarrow> Some (Inl e, ob)
     | Inr ob \<Rightarrow> do {
         (n, out) \<leftarrow> sproto_pack buffer (ob_data ob) maxsz;
         ob \<leftarrow> Some (ob\<lparr>ob_data := out\<rparr>);
         if n > maxsz then Some (Inl (PackingError n), ob) else Some (Inr (take (nat n) out), ob)
       }
   }"

definition lunpack :: "(int \<Rightarrow> bytes) \<Rightarrow> bytes \<Rightarrow> out_buffer \<Rightarrow> ((sproto_error + bytes) \<times> out_buffer) option" where
  "lunpack mem buffer ob = do {
     (r, out) \<leftarrow> sproto_unpack buffer (ob_data ob) (ob_size ob);
     ob \<leftarrow> Some (ob\<lparr>ob_data := out\<rparr>);
     if r < 0 then Some (Inl InvalidUnpackStream, ob)
     else if r > ob_size ob then do {
       e \<leftarrow> expand_buffer mem (ob_size ob) r;
       case e of
         Inl e \<Rightarrow> Some (Inl e, ob)
       | Inr ob \<Rightarrow> do {
           (r, out) \<leftarrow> sproto_unpack buffer (ob_data ob) r;
           ob \<leftarrow> Some (ob\<lparr>ob_data := out\<rparr>);
           if r < 0 then Some (Inl InvalidUnpackStream, ob) else Some (Inr (take (nat r) out), ob)
         }
     } else Some (Inr (take (nat r) out), ob)
   }"

section \<open>The format\<close>

text \<open>
  The segments of eight bytes, the last one padded with zeros, and what they are packed to: a run of
  up to 256 segments that begins with one without zeros and goes on with ones that have at most two
  is copied behind 0xff and its length; every other segment is a header with a bit for each byte that
  is not zero, and these bytes.
\<close>

definition segment_count :: "bytes \<Rightarrow> nat" where
  "segment_count s = (length s + 7) div 8"

definition segments :: "bytes \<Rightarrow> bytes list" where
  "segments s = map (\<lambda>i. snd (seg_at s (8 * i))) [0..<segment_count s]"

definition nonzero :: "bytes \<Rightarrow> nat" where
  "nonzero seg = length (filter (\<lambda>b. b \<noteq> 0) seg)"

definition seg_header :: "bytes \<Rightarrow> u8" where
  "seg_header seg = fold (\<lambda>i hdr. if seg ! i \<noteq> 0 then hdr OR push_bit i 1 else hdr) [0..<8] 0"

definition flush_run :: "bytes list \<Rightarrow> bytes" where
  "flush_run r = (if r = [] then [] else 0xff # of_nat (length r - 1) # concat r)"

fun encode :: "bytes list \<Rightarrow> bytes list \<Rightarrow> bytes" where
  "encode r [] = flush_run r"
| "encode r (s # ss) =
     (if r = [] then
        (if nonzero s = 8 then encode [s] ss
         else seg_header s # filter (\<lambda>b. b \<noteq> 0) s @ encode [] ss)
      else if nonzero s \<ge> 6 then
        (if length r + 1 = 256 then flush_run (r @ [s]) @ encode [] ss else encode (r @ [s]) ss)
      else flush_run r @ seg_header s # filter (\<lambda>b. b \<noteq> 0) s @ encode [] ss)"

lemma segment_length:
  assumes "8 * i < length s"
  shows "length (snd (seg_at s (8 * i))) = 8"
  using assms by (auto simp: seg_at_def Let_def)

lemma segments_length: "seg \<in> set (segments s) \<Longrightarrow> length seg = 8"
  by (auto simp: segments_def segment_count_def intro!: segment_length)

lemma nonzero_le: "nonzero seg \<le> length seg"
  by (simp add: nonzero_def)

section \<open>Writing\<close>

text \<open>What a buffer holds at a position.\<close>

definition holds :: "bytes \<Rightarrow> int \<Rightarrow> bytes \<Rightarrow> bool" where
  "holds buf pos bs \<longleftrightarrow> 0 \<le> pos \<and> pos + int (length bs) \<le> int (length buf)
     \<and> take (length bs) (drop (nat pos) buf) = bs"

definition same_before :: "int \<Rightarrow> bytes \<Rightarrow> bytes \<Rightarrow> bool" where
  "same_before pos buf buf' \<longleftrightarrow> length buf' = length buf \<and> take (nat pos) buf' = take (nat pos) buf"

lemma same_before_refl [simp]: "same_before pos buf buf"
  by (simp add: same_before_def)

lemma same_before_trans: "same_before p a b \<Longrightarrow> same_before p b c \<Longrightarrow> same_before p a c"
  by (simp add: same_before_def)

lemma same_before_le: "same_before p a b \<Longrightarrow> q \<le> p \<Longrightarrow> same_before q a b"
proof -
  assume "same_before p a b" "q \<le> p"
  then have "length b = length a" "take (nat q) (take (nat p) b) = take (nat q) (take (nat p) a)"
    by (auto simp: same_before_def)
  then show ?thesis using \<open>q \<le> p\<close> by (simp add: same_before_def min_def split: if_splits)
qed

lemma same_before_set: "p \<le> q \<Longrightarrow> same_before p buf (buf[nat q := b])"
  by (simp add: same_before_def)

lemma holds_same:
  assumes "holds buf pos bs" "same_before p buf buf'" "pos + int (length bs) \<le> p"
  shows "holds buf' pos bs"
proof -
  have "take (length bs) (drop (nat pos) b) = drop (nat pos) (take (nat pos + length bs) b)" for b :: bytes
    by (simp add: drop_take)
  moreover have "take (nat pos + length bs) buf' = take (nat pos + length bs) buf"
  proof -
    have "nat pos + length bs \<le> nat p" using assms(1,3) unfolding holds_def by linarith
    then have "take (nat pos + length bs) (take (nat p) buf') = take (nat pos + length bs) (take (nat p) buf)"
      using assms(2) by (simp add: same_before_def)
    then show ?thesis using \<open>nat pos + length bs \<le> nat p\<close> by (simp add: min_def split: if_splits)
  qed
  ultimately show ?thesis using assms by (simp add: holds_def same_before_def)
qed

lemma holds_Nil [simp]: "holds buf pos [] \<longleftrightarrow> 0 \<le> pos \<and> pos \<le> int (length buf)"
  by (simp add: holds_def)

lemma holds_append:
  "holds buf pos (as @ bs) \<longleftrightarrow> holds buf pos as \<and> holds buf (pos + int (length as)) bs"
proof -
  have "take (length as + length bs) (drop (nat pos) buf) = as @ bs \<longleftrightarrow>
      take (length as) (drop (nat pos) buf) = as \<and> take (length bs) (drop (length as) (drop (nat pos) buf)) = bs"
    if "nat pos + length as + length bs \<le> length buf"
    using that by (subst take_add) (auto simp: append_eq_append_conv)
  then show ?thesis
    by (auto simp: holds_def nat_add_distrib drop_drop add.commute add.left_commute)
qed

lemma holds_Cons: "holds buf pos (b # bs) \<longleftrightarrow> holds buf pos [b] \<and> holds buf (pos + 1) bs"
  using holds_append [of buf pos "[b]" bs] by simp

lemma holds_set: "0 \<le> pos \<Longrightarrow> pos < int (length buf) \<Longrightarrow> holds (buf[nat pos := b]) pos [b]"
  by (simp add: holds_def take_Suc_conv_app_nth take_Suc hd_drop_conv_nth)

definition same_after :: "int \<Rightarrow> bytes \<Rightarrow> bytes \<Rightarrow> bool" where
  "same_after q buf buf' \<longleftrightarrow> length buf' = length buf \<and> drop (nat q) buf' = drop (nat q) buf"

lemma same_after_refl [simp]: "same_after q buf buf"
  by (simp add: same_after_def)

lemma same_after_trans: "same_after q a b \<Longrightarrow> same_after q b c \<Longrightarrow> same_after q a c"
  by (simp add: same_after_def)

lemma same_after_set: "0 \<le> p \<Longrightarrow> p < q \<Longrightarrow> same_after q buf (buf[nat p := b])"
  by (simp add: same_after_def)

lemma same_after_le: "same_after p a b \<Longrightarrow> 0 \<le> p \<Longrightarrow> p \<le> q \<Longrightarrow> same_after q a b"
proof -
  assume h: "same_after p a b" "0 \<le> p" "p \<le> q"
  then have d: "drop (nat q) x = drop (nat q - nat p) (drop (nat p) x)" for x :: bytes by simp
  have "drop (nat p) b = drop (nat p) a" "length b = length a" using h(1) by (simp_all add: same_after_def)
  then show ?thesis unfolding same_after_def d [of a] d [of b] by simp
qed

lemma holds_after:
  assumes "holds buf pos bs" "same_after q buf buf'" "0 \<le> q" "q \<le> pos"
  shows "holds buf' pos bs"
  using assms same_after_le [OF assms(2,3,4)] by (simp add: holds_def same_after_def)

lemma put_bytes_append:
  "put_bytes (as @ bs) pos buf = Option.bind (put_bytes as pos buf) (put_bytes bs (pos + int (length as)))"
proof (induction as arbitrary: pos buf)
  case (Cons a as)
  show ?case by (cases "arr_set buf pos a") (simp_all add: Cons.IH algebra_simps)
qed simp

lemma put_no_bytes [simp]: "Option.bind x (put_bytes [] pos) = x"
  by (cases x) simp_all

lemma put_bytes_ok:
  "0 \<le> pos \<Longrightarrow> pos + int (length bs) \<le> int (length buf) \<Longrightarrow>
     \<exists>buf'. put_bytes bs pos buf = Some buf' \<and> same_before pos buf buf' \<and> holds buf' pos bs
       \<and> same_after (pos + int (length bs)) buf buf'"
proof (induction bs arbitrary: pos buf)
  case (Cons b bs)
  let ?b = "buf[nat pos := b]"
  obtain buf' where f: "put_bytes bs (pos + 1) ?b = Some buf'" "same_before (pos + 1) ?b buf'" "holds buf' (pos + 1) bs"
    "same_after (pos + 1 + int (length bs)) ?b buf'"
    using Cons.IH [of "pos + 1" ?b] Cons.prems by auto
  have "holds ?b pos [b]" using Cons.prems by (simp add: holds_set)
  then have "holds buf' pos [b]" by (rule holds_same [OF _ f(2)]) simp
  moreover have "same_before pos buf buf'"
    by (rule same_before_trans [OF same_before_set same_before_le [OF f(2)]]) simp_all
  moreover have "same_after (pos + int (length (b # bs))) buf buf'"
    by (rule same_after_trans [OF same_after_set]) (use f(4) Cons.prems in \<open>simp_all add: algebra_simps\<close>)
  ultimately show ?case using Cons.prems f by (simp add: holds_Cons [of buf' pos b bs])
qed simp

section \<open>One segment\<close>

lemma seg_loop_ok:
  assumes "\<forall>i\<in>set is. i < length src" "0 \<le> pos" "pos + sz \<le> int (length buf)"
  shows "\<exists>buf'. seg_loop is src buf pos sz hdr nz =
      Some (buf', fold (\<lambda>i h. if src ! i \<noteq> 0 then h OR push_bit i 1 else h) is hdr,
            nz + length (filter (\<lambda>i. src ! i \<noteq> 0) is))
    \<and> same_before pos buf buf'
    \<and> (int (length (filter (\<lambda>i. src ! i \<noteq> 0) is)) \<le> sz \<longrightarrow>
         holds buf' pos (map ((!) src) (filter (\<lambda>i. src ! i \<noteq> 0) is)))"
  using assms
proof (induction "is" arbitrary: buf pos sz hdr nz)
  case (Cons i "is")
  have i: "i < length src" using Cons.prems by simp
  show ?case
  proof (cases "src ! i \<noteq> 0 \<and> sz > 0")
    case True
    let ?b = "buf[nat pos := src ! i]"
    obtain buf' where f: "seg_loop is src ?b (pos + 1) (sz - 1) (hdr OR push_bit i 1) (nz + 1) =
        Some (buf', fold (\<lambda>i h. if src ! i \<noteq> 0 then h OR push_bit i 1 else h) is (hdr OR push_bit i 1),
            nz + 1 + length (filter (\<lambda>i. src ! i \<noteq> 0) is))"
      "same_before (pos + 1) ?b buf'"
      "int (length (filter (\<lambda>i. src ! i \<noteq> 0) is)) \<le> sz - 1 \<longrightarrow>
         holds buf' (pos + 1) (map ((!) src) (filter (\<lambda>i. src ! i \<noteq> 0) is))"
      using Cons.IH [of "pos + 1" "sz - 1" ?b "hdr OR push_bit i 1" "nz + 1"] Cons.prems by auto
    have "holds ?b pos [src ! i]" using Cons.prems True by (simp add: holds_set)
    then have h: "holds buf' pos [src ! i]" by (rule holds_same [OF _ f(2)]) simp
    have "same_before pos buf buf'"
      by (rule same_before_trans [OF same_before_set same_before_le [OF f(2)]]) simp_all
    then show ?thesis
      using True Cons.prems i f(1,3) h holds_Cons [of buf' pos "src ! i" "map ((!) src) (filter (\<lambda>i. src ! i \<noteq> 0) is)"]
      by (intro exI [of _ buf']) simp
  next
    case False
    then show ?thesis
      using Cons.IH [of pos sz buf "hdr OR push_bit i 1" "nz + 1"] Cons.IH [of pos sz buf hdr nz] Cons.prems i
      by (cases "src ! i = 0") auto
  qed
qed simp

lemma map_nth_filter: "map ((!) xs) (filter (\<lambda>i. P (xs ! i)) [0..<length xs]) = filter P xs"
  using filter_map [of P "(!) xs" "[0..<length xs]"] by (simp add: o_def map_nth)

definition in_run :: "nat \<Rightarrow> bytes \<Rightarrow> bool" where
  "in_run n seg \<longleftrightarrow> nonzero seg = 8 \<or> n > 0 \<and> nonzero seg \<ge> 6"

lemma pack_seg_ok:
  assumes len: "length src = 8" and pos: "0 \<le> pos" "pos + sz \<le> int (length buf)"
  shows "\<exists>buf'. pack_seg src buf pos sz n =
      Some (if in_run n src then (if n > 0 then 8 else 10) else int (nonzero src) + 1, buf')
    \<and> same_before pos buf buf'
    \<and> (\<not> in_run n src \<longrightarrow> int (nonzero src) + 1 \<le> sz \<longrightarrow>
         holds buf' pos (seg_header src # filter (\<lambda>b. b \<noteq> 0) src))"
proof -
  let ?nz = "filter (\<lambda>i. src ! i \<noteq> 0) [0..<8]"
  have mf: "map ((!) src) ?nz = filter (\<lambda>b. b \<noteq> 0) src" using map_nth_filter [of src "\<lambda>b. b \<noteq> 0"] len by simp
  have nz: "length ?nz = nonzero src"
    unfolding nonzero_def mf [symmetric] by simp
  have "\<forall>i\<in>set [0..<8]. i < length src" using len by simp
  from seg_loop_ok [OF this, of "pos + 1" "sz - 1" buf 0 0]
  obtain b where b: "seg_loop [0..<8] src buf (pos + 1) (sz - 1) 0 0 = Some (b, seg_header src, nonzero src)"
    "same_before (pos + 1) buf b"
    "int (nonzero src) \<le> sz - 1 \<longrightarrow> holds b (pos + 1) (filter (\<lambda>b. b \<noteq> 0) src)"
    using pos unfolding nz mf seg_header_def by auto
  have sb: "same_before pos buf b" by (rule same_before_le [OF b(2)]) simp
  have lb: "length b = length buf" using b(2) by (simp add: same_before_def)
  have le: "nonzero src \<le> 8" using nonzero_le [of src] len by simp
  show ?thesis
  proof (cases "in_run n src")
    case True
    then show ?thesis using b sb le
      by (intro exI [of _ b]) (auto simp: pack_seg_def in_run_def)
  next
    case False
    then have nr: "nonzero src \<noteq> 8" "(nonzero src = 7 \<or> nonzero src = 6) \<and> n > 0 \<longleftrightarrow> False"
      using le by (auto simp: in_run_def)
    let ?b = "if sz - 1 < 0 then b else b[nat pos := seg_header src]"
    have run: "pack_seg src buf pos sz n = Some (int (nonzero src) + 1, ?b)"
      using b nr pos lb by (auto simp: pack_seg_def)
    have "same_before pos buf ?b" using sb same_before_trans [OF sb same_before_set [of pos pos b]] by simp
    moreover have "holds ?b pos (seg_header src # filter (\<lambda>b. b \<noteq> 0) src)" if "int (nonzero src) + 1 \<le> sz"
    proof -
      have "holds b (pos + 1) (filter (\<lambda>b. b \<noteq> 0) src)" using b(3) that by simp
      then have "holds (b[nat pos := seg_header src]) (pos + 1) (filter (\<lambda>b. b \<noteq> 0) src)"
        by (rule holds_after [OF _ same_after_set [of pos "pos + 1"]]) (use pos in simp_all)
      moreover have "holds (b[nat pos := seg_header src]) pos [seg_header src]"
        by (rule holds_set) (use pos lb that in simp_all)
      ultimately show ?thesis
        using that holds_Cons [of "b[nat pos := seg_header src]" pos "seg_header src" "filter (\<lambda>b. b \<noteq> 0) src"] by simp
    qed
    ultimately show ?thesis using run False by (intro exI [of _ ?b]) simp
  qed
qed

section \<open>A run\<close>

lemma segment_eq:
  "snd (seg_at s i) = take 8 (drop i s) @ replicate (8 - (length s - i)) 0" if "i < length s"
  using that by (auto simp: seg_at_def Let_def nat_diff_distrib)

lemma concat_segments:
  assumes "a + n \<le> segment_count s"
  shows "concat (map (\<lambda>i. snd (seg_at s (8 * i))) [a..<a + n]) =
    take (8 * n) (drop (8 * a) s) @ replicate (8 * n - (length s - 8 * a)) 0"
  using assms
proof (induction n)
  case (Suc n)
  let ?d = "drop (8 * a) s"
  have l: "8 * (a + n) < length s" using Suc.prems by (simp add: segment_count_def)
  then have z: "8 * n - (length s - 8 * a) = 0" by simp
  have "take (8 * Suc n) ?d = take (8 * n) ?d @ take 8 (drop (8 * (a + n)) s)"
    using take_add [of "8 * n" 8 ?d] by (simp add: add.commute)
  moreover have "8 * Suc n - (length s - 8 * a) = 8 - (length s - 8 * (a + n))" using l by simp
  ultimately show ?case using Suc segment_eq [OF l] z by simp
qed simp

lemma write_ff_ok:
  assumes n: "0 < n" "n \<le> 256" "a + n \<le> segment_count s"
    and r: "r = map (\<lambda>i. snd (seg_at s (8 * i))) [a..<a + n]"
    and des: "0 \<le> des" "des + 2 + 8 * int n \<le> int (length buf)"
  shows "\<exists>buf'. write_ff s (8 * a) buf des n = Some buf' \<and> same_before des buf buf'
    \<and> holds buf' des (flush_run r) \<and> same_after (des + 2 + 8 * int n) buf buf'"
proof -
  let ?b = "buf[nat des := 0xff, nat (des + 1) := of_nat (n - 1)]"
  let ?c = "concat r"
  have c: "?c = take (8 * n) (drop (8 * a) s) @ replicate (8 * n - (length s - 8 * a)) 0"
    unfolding r by (rule concat_segments [OF n(3)])
  have la: "8 * a < length s" using n by (simp add: segment_count_def)
  have lr: "length r = n" "r \<noteq> []" using n by (simp_all add: r)
  have lc: "length ?c = 8 * n" unfolding c using la by (auto simp: min_def)
  have w: "write_ff s (8 * a) buf des n = put_bytes ?c (des + 2) ?b"
    using des la n unfolding c by (auto simp: write_ff_def mult.commute min_def put_bytes_append)
  have "des + 2 + int (length ?c) \<le> int (length ?b)" using des lc by simp
  from put_bytes_ok [OF _ this] obtain buf' where f: "put_bytes ?c (des + 2) ?b = Some buf'"
    "same_before (des + 2) ?b buf'" "holds buf' (des + 2) ?c" "same_after (des + 2 + int (length ?c)) ?b buf'"
    using des by auto
  have "same_before des buf ?b" by (intro same_before_trans [OF same_before_set same_before_set]) simp_all
  then have sb: "same_before des buf buf'" by (rule same_before_trans [OF _ same_before_le [OF f(2)]]) simp
  have "same_after (des + 2) buf ?b"
    by (intro same_after_trans [OF same_after_set same_after_set]) (use des in simp_all)
  then have "same_after (des + 2 + 8 * int n) buf ?b" by (rule same_after_le) (use des in simp_all)
  then have sa: "same_after (des + 2 + 8 * int n) buf buf'" using f(4) lc by (auto intro: same_after_trans)
  have "holds (buf[nat des := 0xff]) des [0xff]" by (rule holds_set) (use des in simp_all)
  then have "holds ?b des [0xff]" by (rule holds_same [OF _ same_before_set [of "des + 1" "des + 1"]]) simp_all
  moreover have "holds ?b (des + 1) [of_nat (n - 1)]" by (rule holds_set) (use des in simp_all)
  ultimately have "holds ?b des [0xff, of_nat (n - 1)]" unfolding holds_Cons [of ?b des _ "[_]"] by simp
  then have "holds buf' des [0xff, of_nat (n - 1)]" by (rule holds_same [OF _ f(2)]) simp
  then have "holds buf' des ([0xff, of_nat (n - 1)] @ ?c)" using f(3) unfolding holds_append by simp
  then have "holds buf' des (flush_run r)" using lr by (simp add: flush_run_def)
  then show ?thesis using w f(1) sb sa by auto
qed

section \<open>One step\<close>

abbreviation segment_at :: "bytes \<Rightarrow> nat \<Rightarrow> bytes" where
  "segment_at s j \<equiv> snd (seg_at s (8 * j))"

definition run_size :: "bytes list \<Rightarrow> int" where
  "run_size r = (if r = [] then 0 else 2 + 8 * int (length r))"

text \<open>
  The state after \<open>j\<close> segments: what has been decided of the output (\<open>E\<close>) stands in the buffer as far
  as it has fitted, and the pending run \<open>r\<close> is the last segments read.
\<close>

definition packed :: "bytes \<Rightarrow> int \<Rightarrow> nat \<Rightarrow> bytes \<Rightarrow> bytes list \<Rightarrow> nat \<Rightarrow> pack_state \<Rightarrow> bool" where
  "packed s bufsz m E r j st \<longleftrightarrow>
     pk_pos st = int (length E) + run_size r \<and> pk_size st = pk_pos st \<and> pk_room st = bufsz - pk_pos st
     \<and> length (pk_buf st) = m \<and> bufsz \<le> int m \<and> (int (length E) \<le> bufsz \<longrightarrow> holds (pk_buf st) 0 E)
     \<and> ff_n st = length r
     \<and> (r \<noteq> [] \<longrightarrow> length r \<le> j \<and> length r \<le> 255 \<and> r = map (segment_at s) [j - length r..<j]
          \<and> ff_srcstart st = At (8 * (j - length r)) \<and> ff_desstart st = int (length E))"

lemma seg_at_whole:
  assumes "8 * j < length s" "nonzero (segment_at s j) = 8"
  shows "fst (seg_at s (8 * j)) = At (8 * j)"
proof (rule ccontr)
  assume "fst (seg_at s (8 * j)) \<noteq> At (8 * j)"
  then have l: "length s - 8 * j < 8" by (auto simp: seg_at_def Let_def split: if_splits)
  have "nonzero (segment_at s j) \<le> length s - 8 * j"
    using l nonzero_le [of "drop (8 * j) s"] segment_eq [OF assms(1)] by (simp add: nonzero_def)
  then show False using l assms(2) by simp
qed

lemma run_length:
  assumes "r = map (segment_at s) [a..<b]" "b \<le> segment_count s"
  shows "int (length (flush_run r)) = run_size r"
proof -
  have "length seg = 8" if "seg \<in> set r" for seg
    using that assms segment_length by (auto simp: segment_count_def)
  then have "length (concat r) = 8 * length r" by (induction r) auto
  then show ?thesis by (simp add: flush_run_def run_size_def)
qed

lemma flush_ff_ok:
  assumes run: "0 < n" "n \<le> 256" "a + n \<le> segment_count s" "r = map (segment_at s) [a..<a + n]"
    and E: "int (length E) \<le> bufsz \<longrightarrow> holds buf 0 E" "bufsz \<le> int (length buf)"
    and F: "int (length E) + run_size r + int (length F) \<le> bufsz \<longrightarrow> holds buf (int (length E) + run_size r) F"
    and room: "room \<ge> 0 \<longleftrightarrow> int (length E) + run_size r + int (length F) \<le> bufsz"
  shows "\<exists>buf'. flush_ff s room (At (8 * a)) (int (length E)) n buf = Some buf' \<and> length buf' = length buf
    \<and> (int (length (E @ flush_run r @ F)) \<le> bufsz \<longrightarrow> holds buf' 0 (E @ flush_run r @ F))"
proof -
  have rs: "run_size r = 2 + 8 * int n" using run by (simp add: run_size_def)
  have fl: "int (length (flush_run r)) = run_size r" by (rule run_length [OF run(4,3)])
  show ?thesis
  proof (cases "room \<ge> 0")
    case True
    then have le: "int (length E) + run_size r + int (length F) \<le> bufsz" using room by simp
    obtain buf' where f: "write_ff s (8 * a) buf (int (length E)) n = Some buf'"
        "same_before (int (length E)) buf buf'" "holds buf' (int (length E)) (flush_run r)"
        "same_after (int (length E) + 2 + 8 * int n) buf buf'"
      using write_ff_ok [OF run, of "int (length E)" buf] le rs E(2) by auto
    have "holds buf' 0 E" by (rule holds_same [OF _ f(2)]) (use E le rs in auto)
    moreover have "holds buf' (int (length E) + run_size r) F"
      by (rule holds_after [OF _ f(4)]) (use F le rs in \<open>auto simp: algebra_simps\<close>)
    moreover have "length buf' = length buf" using f(2) by (simp add: same_before_def)
    ultimately show ?thesis using True f(1,3) fl by (auto simp: flush_ff_def holds_append)
  next
    case False
    then show ?thesis using room fl by (simp add: flush_ff_def)
  qed
qed

lemma pack_step_ok:
  assumes inv: "packed s bufsz m E r j st" and j: "8 * j < length s"
  shows "\<exists>st' E' r'. pack_step s (8 * j) st = Some st' \<and> packed s bufsz m E' r' (Suc j) st'
    \<and> (\<forall>ss. E @ encode r (segment_at s j # ss) = E' @ encode r' ss)"
proof -
  let ?seg = "segment_at s j" and ?n = "if in_run (ff_n st) (segment_at s j) then (if ff_n st > 0 then 8 else 10) else int (nonzero (segment_at s j)) + 1"
  let ?F = "seg_header ?seg # filter (\<lambda>b. b \<noteq> 0) ?seg"
  have len: "length ?seg = 8" by (rule segment_length [OF j])
  have le: "nonzero ?seg \<le> 8" using nonzero_le [of ?seg] len by simp
  have jc: "Suc j \<le> segment_count s" using j by (simp add: segment_count_def)
  have pos: "0 \<le> pk_pos st" "pk_pos st + pk_room st \<le> int (length (pk_buf st))"
    using inv by (auto simp: packed_def run_size_def)
  obtain buf where b: "pack_seg ?seg (pk_buf st) (pk_pos st) (pk_room st) (ff_n st) = Some (?n, buf)"
      "same_before (pk_pos st) (pk_buf st) buf"
      "\<not> in_run (ff_n st) ?seg \<longrightarrow> int (nonzero ?seg) + 1 \<le> pk_room st \<longrightarrow> holds buf (pk_pos st) ?F"
    using pack_seg_ok [OF len pos, of "ff_n st"] by blast
  have lb: "length buf = length (pk_buf st)" using b(2) by (simp add: same_before_def)
  have hE: "int (length E) \<le> bufsz \<longrightarrow> holds buf 0 E"
    using inv holds_same [OF _ b(2), of 0 E] by (auto simp: packed_def run_size_def)
  have lF: "int (length ?F) = int (nonzero ?seg) + 1" by (simp add: nonzero_def)
  show ?thesis
  proof (cases "r = []")
    case True
    then have n0: "ff_n st = 0" using inv by (simp add: packed_def)
    show ?thesis
    proof (cases "nonzero ?seg = 8")
      case nz: True
      let ?st = "st\<lparr>pk_buf := buf, pk_pos := pk_pos st + 10, pk_room := pk_room st - 10, pk_size := pk_size st + 10,
        ff_srcstart := At (8 * j), ff_desstart := pk_pos st, ff_n := 1\<rparr>"
      have "pack_step s (8 * j) st = Some ?st"
        using b(1) nz n0 seg_at_whole [OF j nz] by (simp add: pack_step_def in_run_def split_beta)
      moreover have "packed s bufsz m E [?seg] (Suc j) ?st"
        using inv True hE lb by (auto simp: packed_def run_size_def)
      ultimately show ?thesis using True nz by (intro exI conjI) auto
    next
      case nz: False
      let ?st = "st\<lparr>pk_buf := buf, pk_pos := pk_pos st + (int (nonzero ?seg) + 1),
        pk_room := pk_room st - (int (nonzero ?seg) + 1), pk_size := pk_size st + (int (nonzero ?seg) + 1)\<rparr>"
      have "pack_step s (8 * j) st = Some ?st"
        using b(1) nz n0 le by (simp add: pack_step_def in_run_def split_beta)
      moreover have "packed s bufsz m (E @ ?F) [] (Suc j) ?st"
        using inv True hE lb lF b(3) nz n0 by (auto simp: packed_def run_size_def holds_append in_run_def)
      ultimately show ?thesis using True nz by (intro exI conjI) auto
    qed
  next
    case False
    then have n0: "ff_n st > 0" "ff_n st = length r" "length r \<le> j" "length r \<le> 255"
        "r = map (segment_at s) [j - length r..<j]" "ff_srcstart st = At (8 * (j - length r))"
        "ff_desstart st = int (length E)" "pk_pos st = int (length E) + 2 + 8 * int (length r)"
        "pk_room st = bufsz - pk_pos st" "pk_size st = pk_pos st" "bufsz \<le> int (length (pk_buf st))" "length (pk_buf st) = m" "bufsz \<le> int m"
      using inv by (auto simp: packed_def run_size_def)
    define a where "a = j - length r"
    have a: "a + length r = j" "r = map (segment_at s) [a..<a + length r]"
      using n0 by (simp_all add: a_def)
    show ?thesis
    proof (cases "nonzero ?seg \<ge> 6")
      case nz: True
      have n8: "pack_seg ?seg (pk_buf st) (pk_pos st) (pk_room st) (ff_n st) = Some (8, buf)"
        using b(1) nz n0(1) by (simp add: in_run_def)
      have r': "r @ [?seg] = map (segment_at s) [a..<a + (length r + 1)]"
        using a by simp
      show ?thesis
      proof (cases "length r + 1 = 256")
        case full: True
        have r256: "r @ [?seg] = map (segment_at s) [a..<a + 256]" using r' unfolding full .
        have a256: "a + 256 \<le> segment_count s" "0 < (256 :: nat)" "256 \<le> (256 :: nat)" using a(1) full jc by auto
        have rs: "run_size (r @ [?seg]) = 2 + 8 * int (length r) + 8" by (simp add: run_size_def)
        have lb': "bufsz \<le> int (length buf)" using lb n0(11) by simp
        have room: "pk_room st - 8 \<ge> 0 \<longleftrightarrow> int (length E) + run_size (r @ [?seg]) + int 0 \<le> bufsz"
          using n0(8,9) rs by auto
        have hF: "int (length E) + run_size (r @ [?seg]) + int 0 \<le> bufsz \<longrightarrow>
            holds buf (int (length E) + run_size (r @ [?seg])) []"
          using lb' rs by simp
        obtain buf' where f: "flush_ff s (pk_room st - 8) (At (8 * a)) (int (length E)) 256 buf = Some buf'"
            "length buf' = length buf"
            "int (length (E @ flush_run (r @ [?seg]))) \<le> bufsz \<longrightarrow> holds buf' 0 (E @ flush_run (r @ [?seg]))"
          using flush_ff_ok [of 256 a s "r @ [?seg]" E bufsz buf "[]" "pk_room st - 8"] r256 a256 hE lb' hF room
          by (auto simp only: append_Nil2 list.size)
        let ?st = "st\<lparr>pk_buf := buf', pk_pos := pk_pos st + 8, pk_room := pk_room st - 8, pk_size := pk_size st + 8,
          ff_n := 0\<rparr>"
        have "int (length (flush_run (r @ [?seg]))) = run_size (r @ [?seg])"
          by (rule run_length [OF r']) (use a jc in simp)
        then have "packed s bufsz m (E @ flush_run (r @ [?seg])) [] (Suc j) ?st"
          using n0 full f(2,3) lb by (simp add: packed_def run_size_def)
        moreover have "pack_step s (8 * j) st = Some ?st"
          using n8 full n0 f(1) by (simp add: pack_step_def split_beta a_def)
        ultimately show ?thesis using False nz full by (intro exI conjI) auto
      next
        case nf: False
        let ?st = "st\<lparr>pk_buf := buf, pk_pos := pk_pos st + 8, pk_room := pk_room st - 8, pk_size := pk_size st + 8,
          ff_n := length r + 1\<rparr>"
        have "pack_step s (8 * j) st = Some ?st"
          using n8 nf n0 by (simp add: pack_step_def split_beta)
        moreover have "packed s bufsz m E (r @ [?seg]) (Suc j) ?st"
          using n0 nf hE lb a r' by (auto simp: packed_def run_size_def)
        ultimately show ?thesis using False nz nf by (intro exI conjI) auto
      qed
    next
      case nz: False
      let ?m = "int (nonzero ?seg) + 1"
      have nr: "\<not> in_run (length r) ?seg" using nz by (simp add: in_run_def)
      have nm: "pack_seg ?seg (pk_buf st) (pk_pos st) (pk_room st) (ff_n st) = Some (?m, buf)"
        using b(1) nr n0(2) by simp
      have rs: "run_size r = 2 + 8 * int (length r)" using False by (simp add: run_size_def)
      have hF: "int (length E) + run_size r + int (length ?F) \<le> bufsz \<longrightarrow> holds buf (int (length E) + run_size r) ?F"
        using b(3) nr n0 lF rs by (auto simp: add.assoc)
      have room: "pk_room st - ?m \<ge> 0 \<longleftrightarrow> int (length E) + run_size r + int (length ?F) \<le> bufsz"
        using lF rs n0 by auto
      have lb': "bufsz \<le> int (length buf)" using lb n0 by simp
      obtain buf' where f: "flush_ff s (pk_room st - ?m) (At (8 * a)) (int (length E)) (length r) buf = Some buf'"
          "length buf' = length buf" "int (length (E @ flush_run r @ ?F)) \<le> bufsz \<longrightarrow> holds buf' 0 (E @ flush_run r @ ?F)"
        using flush_ff_ok [OF _ _ _ a(2) hE lb' hF room] n0 a jc by auto
      let ?st = "st\<lparr>pk_buf := buf', pk_pos := pk_pos st + ?m, pk_room := pk_room st - ?m, pk_size := pk_size st + ?m,
        ff_n := 0\<rparr>"
      have "int (length (flush_run r)) = run_size r"
        by (rule run_length [OF a(2)]) (use a jc in simp)
      then have "packed s bufsz m (E @ flush_run r @ ?F) [] (Suc j) ?st"
        using n0 f(2,3) lb lF rs by (simp add: packed_def run_size_def)
      moreover have "pack_step s (8 * j) st = Some ?st"
        using nm nz n0 f(1) by (simp add: pack_step_def split_beta a_def)
      ultimately show ?thesis using False nz by (intro exI conjI) auto
    qed
  qed
qed

section \<open>What the packer writes\<close>

lemma segments_drop: "8 * j < length s \<Longrightarrow> drop j (segments s) = segment_at s j # drop (Suc j) (segments s)"
  using upt_conv_Cons [of j "segment_count s"] unfolding segments_def drop_map drop_upt
  by (simp add: segment_count_def)

lemma pack_loop_ok:
  "packed s bufsz m E r j st \<Longrightarrow> j \<le> segment_count s \<Longrightarrow>
     \<exists>st' E' r'. pack_loop s (8 * j) st = Some st' \<and> packed s bufsz m E' r' (segment_count s) st'
       \<and> E @ encode r (drop j (segments s)) = E' @ encode r' []"
proof (induction "segment_count s - j" arbitrary: E r j st)
  case 0
  then show ?case by (subst pack_loop.simps) (auto simp: segment_count_def segments_def intro!: exI [of _ E])
next
  case (Suc k)
  then have j: "8 * j < length s" by (simp add: segment_count_def)
  obtain st' E' r' where st: "pack_step s (8 * j) st = Some st'" "packed s bufsz m E' r' (Suc j) st'"
      "\<forall>ss. E @ encode r (segment_at s j # ss) = E' @ encode r' ss"
    using pack_step_ok [OF Suc.prems(1) j] by blast
  have k: "k = segment_count s - Suc j" "Suc j \<le> segment_count s" using Suc.hyps(2) j by (auto simp: segment_count_def)
  show ?case using Suc.hyps(1) [OF k(1) st(2) k(2)] j st
    by (subst pack_loop.simps) (simp add: segments_drop [OF j] add.commute)
qed

text \<open>
  What \<open>sproto_pack\<close> does with any room: it returns the size of the packed form, it writes nowhere
  outside of the buffer, and the packed form stands in it if it fits.
\<close>

lemma sproto_pack_ok:
  assumes "bufsz \<le> int (length buf)"
  shows "\<exists>buf'. sproto_pack s buf bufsz = Some (int (length (encode [] (segments s))), buf')
    \<and> length buf' = length buf
    \<and> (int (length (encode [] (segments s))) \<le> bufsz \<longrightarrow> holds buf' 0 (encode [] (segments s)))"
proof -
  let ?st = "\<lparr>pk_buf = buf, pk_pos = 0, pk_room = bufsz, pk_size = 0,
             ff_srcstart = At 0, ff_desstart = 0, ff_n = 0\<rparr>"
  let ?c = "segment_count s"
  have "packed s bufsz (length buf) [] [] 0 ?st" using assms by (simp add: packed_def run_size_def)
  from pack_loop_ok [OF this] obtain st E r where l: "pack_loop s 0 ?st = Some st"
      "packed s bufsz (length buf) E r ?c st" "encode [] (segments s) = E @ flush_run r"
    by auto
  show ?thesis
  proof (cases "r = []")
    case True
    then show ?thesis using l(1,2) unfolding l(3)
      by (auto simp: sproto_pack_def packed_def run_size_def flush_run_def)
  next
    case False
    define a where "a = ?c - length r"
    have p: "pk_size st = int (length E) + run_size r" "pk_room st = bufsz - (int (length E) + run_size r)"
        "length (pk_buf st) = length buf" "int (length E) \<le> bufsz \<longrightarrow> holds (pk_buf st) 0 E"
        "ff_n st = length r" "length r \<le> 255" "ff_desstart st = int (length E)" "ff_srcstart st = At (8 * a)"
        "length r > 0"
      using l(2) False by (simp_all add: packed_def a_def)
    have a: "r = map (segment_at s) [a..<a + length r]" "a + length r \<le> ?c"
      using l(2) False by (simp_all add: packed_def a_def)
    have "length r \<le> 256" using p(6) by simp
    from flush_ff_ok [OF p(9) this a(2,1) p(4), of "[]" "pk_room st"]
    obtain buf' where f: "flush_ff s (pk_room st) (At (8 * a)) (int (length E)) (length r) (pk_buf st) = Some buf'"
        "length buf' = length (pk_buf st)"
        "int (length (E @ flush_run r)) \<le> bufsz \<longrightarrow> holds buf' 0 (E @ flush_run r)"
      using p(2,3) assms by (auto simp: run_size_def)
    then show ?thesis using l(1) p run_length [OF a] unfolding l(3)
      by (auto simp: sproto_pack_def)
  qed
qed

section \<open>What the unpacker reads\<close>

lemma bit_fold_header:
  assumes "\<forall>i\<in>set is. i < 8" "k < 8"
  shows "bit (fold (\<lambda>i h. if P i then h OR push_bit i 1 else h) is (h :: u8)) k \<longleftrightarrow> bit h k \<or> k \<in> set is \<and> P k"
  using assms by (induction "is" arbitrary: h) (auto simp: bit_simps)

lemma seg_header_bit: "k < 8 \<Longrightarrow> bit (seg_header seg) k \<longleftrightarrow> seg ! k \<noteq> 0"
  unfolding seg_header_def by (subst bit_fold_header) auto

lemma seg_header_ff:
  assumes "length seg = 8" "nonzero seg \<noteq> 8"
  shows "seg_header seg \<noteq> 0xff"
proof
  assume ff: "seg_header seg = 0xff"
  have "bit (0xff :: u8) k" if "k < 8" for k
  proof -
    have "(mask 8 :: u8) = 0xff" by (simp add: mask_eq_exp_minus_1)
    moreover have "bit (mask 8 :: u8) k" using that by (simp only: bit_mask_iff) simp
    ultimately show ?thesis by metis
  qed
  then have "seg ! k \<noteq> 0" if "k < 8" for k using that ff seg_header_bit by metis
  then have "b \<noteq> 0" if "b \<in> set seg" for b using that assms(1) by (auto simp: in_set_conv_nth)
  then have "nonzero seg = length seg" by (simp add: nonzero_def)
  then show False using assms by simp
qed

text \<open>The room that is left moves with the position, so both add up to the same.\<close>

lemma unpack_bits_ok:
  assumes "\<forall>i\<in>set is. bit hdr i \<longleftrightarrow> seg ! i \<noteq> 0" "0 \<le> pos" "pos + room \<le> int (length buf)"
  shows "\<exists>buf' pos' room'.
    unpack_bits is hdr (map ((!) seg) (filter (\<lambda>i. seg ! i \<noteq> 0) is) @ rest) buf pos room = Some (Some rest, buf', pos', room')
    \<and> same_before pos buf buf' \<and> pos' + room' = pos + room \<and> pos \<le> pos'
    \<and> (int (length is) \<le> room \<longrightarrow> pos' = pos + int (length is) \<and> holds buf' pos (map ((!) seg) is))"
  using assms
proof (induction "is" arbitrary: buf pos room)
  case (Cons i "is")
  let ?src = "map ((!) seg) (filter (\<lambda>i. seg ! i \<noteq> 0) is) @ rest"
  show ?case
  proof (cases "room > 0")
    case True
    let ?b = "buf[nat pos := seg ! i]"
    have "0 \<le> pos + 1" "pos + 1 + (room - 1) \<le> int (length ?b)" using Cons.prems by auto
    from Cons.IH [OF _ this] Cons.prems(1) obtain buf' pos' room' where
      f: "unpack_bits is hdr ?src ?b (pos + 1) (room - 1) = Some (Some rest, buf', pos', room')"
        "same_before (pos + 1) ?b buf'" "pos' + room' = pos + 1 + (room - 1)" "pos + 1 \<le> pos'"
        "int (length is) \<le> room - 1 \<longrightarrow> pos' = pos + 1 + int (length is) \<and> holds buf' (pos + 1) (map ((!) seg) is)"
      by auto
    have "holds ?b pos [seg ! i]" using Cons.prems True by (simp add: holds_set)
    then have "holds buf' pos [seg ! i]" by (rule holds_same [OF _ f(2)]) simp
    moreover have "same_before pos buf buf'"
      by (rule same_before_trans [OF same_before_set same_before_le [OF f(2)]]) simp_all
    ultimately show ?thesis
      using True Cons.prems f(1,3,4,5) holds_Cons [of buf' pos "seg ! i" "map ((!) seg) is"] by auto
  next
    case False
    have "\<forall>i\<in>set is. bit hdr i \<longleftrightarrow> seg ! i \<noteq> 0" using Cons.prems(1) by simp
    from Cons.IH [OF this Cons.prems(2,3)] False show ?thesis using Cons.prems by auto
  qed
qed simp

lemma unpack_segment:
  assumes "length seg = 8" "nonzero seg \<noteq> 8" "0 \<le> pos" "pos + room \<le> int (length buf)"
  shows "\<exists>buf' pos' room'.
    unpack_stream (seg_header seg # filter (\<lambda>b. b \<noteq> 0) seg @ rest) buf pos room out = unpack_stream rest buf' pos' room' (out + 8)
    \<and> same_before pos buf buf' \<and> pos' + room' = pos + room \<and> pos \<le> pos'
    \<and> (8 \<le> room \<longrightarrow> pos' = pos + 8 \<and> holds buf' pos seg)"
proof -
  have m: "map ((!) seg) [0..<8] = seg" using map_nth [of seg] assms(1) by simp
  have "map ((!) seg) (filter (\<lambda>i. seg ! i \<noteq> 0) [0..<8]) = filter (\<lambda>b. b \<noteq> 0) seg"
    using map_nth_filter [of seg "\<lambda>b. b \<noteq> 0"] assms(1) by simp
  then obtain buf' pos' room' where
    f: "unpack_bits [0..<8] (seg_header seg) (filter (\<lambda>b. b \<noteq> 0) seg @ rest) buf pos room = Some (Some rest, buf', pos', room')"
      "same_before pos buf buf' \<and> pos' + room' = pos + room \<and> pos \<le> pos'
        \<and> (8 \<le> room \<longrightarrow> pos' = pos + 8 \<and> holds buf' pos seg)"
    using unpack_bits_ok [of "[0..<8]" "seg_header seg" seg pos room buf rest] assms(3,4) m
    by (auto simp: seg_header_bit)
  have "unpack_stream (seg_header seg # filter (\<lambda>b. b \<noteq> 0) seg @ rest) buf pos room out = unpack_stream rest buf' pos' room' (out + 8)"
    using f(1) seg_header_ff [OF assms(1,2)] by (subst unpack_stream.simps) simp
  then show ?thesis using f(2) by blast
qed

lemma unpack_ff:
  assumes "n = (unat b + 1) * 8"
  shows "unpack_stream (0xff # b # src) buf pos room out =
    (if length src < n then Some (- 1, buf)
     else Option.bind (if room \<ge> int n then put_bytes (take n src) pos buf else Some buf)
       (\<lambda>buf. unpack_stream (drop n src) buf (pos + int n) (room - int n) (out + int n)))"
  unfolding assms by (subst unpack_stream.simps) (simp add: Let_def)

lemma unpack_run:
  assumes r: "r \<noteq> []" "length r \<le> 256" "\<forall>seg\<in>set r. length seg = 8"
    and pos: "0 \<le> pos" "pos + room \<le> int (length buf)"
  shows "\<exists>buf'. unpack_stream (flush_run r @ rest) buf pos room out =
      unpack_stream rest buf' (pos + 8 * int (length r)) (room - 8 * int (length r)) (out + 8 * int (length r))
    \<and> same_before pos buf buf' \<and> (8 * int (length r) \<le> room \<longrightarrow> holds buf' pos (concat r))"
proof -
  have lc: "length (concat r) = 8 * length r" using r(3) by (induction r) auto
  have "length r - 1 < 2 ^ LENGTH(8)" using r(2) by simp
  then have "unat (of_nat (length r - 1) :: u8) = length r - 1" by (simp add: unsigned_of_nat take_bit_nat_eq_self)
  moreover have "length r - 1 + 1 = length r" using r(1) by (cases r) auto
  ultimately have n: "(unat (of_nat (length r - 1) :: u8) + 1) * 8 = length (concat r)" using lc by simp
  have us: "unpack_stream (flush_run r @ rest) buf pos room out =
      Option.bind (if room \<ge> int (length (concat r)) then put_bytes (concat r) pos buf else Some buf)
        (\<lambda>buf. unpack_stream rest buf (pos + 8 * int (length r)) (room - 8 * int (length r)) (out + 8 * int (length r)))"
    using unpack_ff [OF n [symmetric], of "concat r @ rest" buf pos room out] r(1) lc by (simp add: flush_run_def)
  show ?thesis
  proof (cases "room \<ge> int (length (concat r))")
    case True
    then show ?thesis using us put_bytes_ok [of pos "concat r" buf] pos by auto
  next
    case False
    then show ?thesis using us lc by (intro exI [of _ buf]) simp
  qed
qed

lemma unpack_encode:
  "\<forall>seg\<in>set (r @ ss). length seg = 8 \<Longrightarrow> length r \<le> 255 \<Longrightarrow> 0 \<le> pos \<Longrightarrow> pos + room \<le> int (length buf) \<Longrightarrow>
    \<exists>buf'. unpack_stream (encode r ss) buf pos room out = Some (out + 8 * int (length r + length ss), buf')
      \<and> same_before pos buf buf' \<and> (8 * int (length r + length ss) \<le> room \<longrightarrow> holds buf' pos (concat (r @ ss)))"
proof (induction ss arbitrary: r buf pos room out)
  case Nil
  show ?case
  proof (cases "r = []")
    case True
    then show ?thesis using Nil.prems by (auto simp: flush_run_def unpack_stream.simps)
  next
    case False
    then show ?thesis using unpack_run [of r pos room buf "[]" out] Nil.prems
      by (auto simp: unpack_stream.simps [of "[]"])
  qed
next
  case (Cons seg ss)
  have seg: "length seg = 8" "\<forall>seg\<in>set ss. length seg = 8" "\<forall>seg\<in>set r. length seg = 8" using Cons.prems(1) by auto
  have lc: "length (concat r) = 8 * length r" using seg(3) by (induction r) auto
  note IH = Cons.IH
  have run: "\<exists>buf'. unpack_stream (flush_run r' @ encode [] ss) buf pos room out =
        Some (out + 8 * int (length r' + length ss), buf')
      \<and> same_before pos buf buf' \<and> (8 * int (length r' + length ss) \<le> room \<longrightarrow> holds buf' pos (concat (r' @ ss)))"
    if r': "r' \<noteq> []" "length r' \<le> 256" "\<forall>seg\<in>set r'. length seg = 8" for r'
  proof -
    have lr: "length (concat r') = 8 * length r'" using r'(3) by (induction r') auto
    obtain b where b: "unpack_stream (flush_run r' @ encode [] ss) buf pos room out =
      unpack_stream (encode [] ss) b (pos + 8 * int (length r')) (room - 8 * int (length r')) (out + 8 * int (length r'))"
      "same_before pos buf b" "8 * int (length r') \<le> room \<longrightarrow> holds b pos (concat r')"
      using unpack_run [OF r' Cons.prems(3,4)] by blast
    have lb: "length b = length buf" using b(2) by (simp add: same_before_def)
    obtain b' where b': "unpack_stream (encode [] ss) b (pos + 8 * int (length r')) (room - 8 * int (length r')) (out + 8 * int (length r')) =
        Some (out + 8 * int (length r') + 8 * int (length ss), b')"
      "same_before (pos + 8 * int (length r')) b b'"
      "8 * int (length ss) \<le> room - 8 * int (length r') \<longrightarrow> holds b' (pos + 8 * int (length r')) (concat ss)"
      using IH [of "[]" "pos + 8 * int (length r')" "room - 8 * int (length r')" b] seg(2) Cons.prems(3,4) lb by auto
    have "same_before pos buf b'" by (rule same_before_trans [OF b(2) same_before_le [OF b'(2)]]) simp
    moreover have "holds b' pos (concat r')" if "8 * int (length r') \<le> room"
      using b(3) that holds_same [OF _ b'(2), of pos "concat r'"] lr by simp
    ultimately show ?thesis using b(1) b'(1,3) lr by (auto simp: holds_append)
  qed
  have low: "\<exists>buf'. unpack_stream (seg_header seg # filter (\<lambda>b. b \<noteq> 0) seg @ encode [] ss) b p m ou =
        Some (ou + 8 + 8 * int (length ss), buf')
      \<and> same_before p b buf' \<and> (8 + 8 * int (length ss) \<le> m \<longrightarrow> holds buf' p (seg @ concat ss))"
    if low: "nonzero seg \<noteq> 8" "0 \<le> p" "p + m \<le> int (length b)" for b p m ou
  proof -
    obtain b1 p1 m1 where b: "unpack_stream (seg_header seg # filter (\<lambda>b. b \<noteq> 0) seg @ encode [] ss) b p m ou =
        unpack_stream (encode [] ss) b1 p1 m1 (ou + 8)"
      "same_before p b b1" "p1 + m1 = p + m" "p \<le> p1" "8 \<le> m \<longrightarrow> p1 = p + 8 \<and> holds b1 p seg"
      using unpack_segment [OF seg(1) low] by blast
    have lb: "length b1 = length b" using b(2) by (simp add: same_before_def)
    obtain b' where b': "unpack_stream (encode [] ss) b1 p1 m1 (ou + 8) = Some (ou + 8 + 8 * int (length ss), b')"
      "same_before p1 b1 b'" "8 * int (length ss) \<le> m1 \<longrightarrow> holds b' p1 (concat ss)"
      using IH [of "[]" p1 m1 b1] seg(2) low b(3,4) lb by auto
    have "same_before p b b'" by (rule same_before_trans [OF b(2) same_before_le [OF b'(2) b(4)]])
    moreover have "holds b' p seg" if "8 \<le> m"
      using b(5) that holds_same [OF _ b'(2), of p seg] seg(1) by simp
    ultimately show ?thesis using b(1,3,5) b'(1,3) seg(1) by (auto simp: holds_append)
  qed
  show ?case
  proof (cases "r = []")
    case True
    then show ?thesis
      using IH [of "[seg]" pos room buf out] low [OF _ Cons.prems(3,4), of out] Cons.prems seg
      by (cases "nonzero seg = 8") (auto simp: algebra_simps)
  next
    case False
    show ?thesis
    proof (cases "nonzero seg \<ge> 6")
      case nz: True
      then show ?thesis
        using False IH [of "r @ [seg]" pos room buf out] run [of "r @ [seg]"] Cons.prems seg
        by (cases "length r + 1 = 256") (auto simp: algebra_simps)
    next
      case nz: False
      obtain b where b: "unpack_stream (flush_run r @ seg_header seg # filter (\<lambda>b. b \<noteq> 0) seg @ encode [] ss) buf pos room out =
          unpack_stream (seg_header seg # filter (\<lambda>b. b \<noteq> 0) seg @ encode [] ss) b (pos + 8 * int (length r))
            (room - 8 * int (length r)) (out + 8 * int (length r))"
        "same_before pos buf b" "8 * int (length r) \<le> room \<longrightarrow> holds b pos (concat r)"
        using unpack_run [OF False _ seg(3) Cons.prems(3,4)] Cons.prems(2) by fastforce
      have lb: "length b = length buf" using b(2) by (simp add: same_before_def)
      obtain b' where b': "unpack_stream (seg_header seg # filter (\<lambda>b. b \<noteq> 0) seg @ encode [] ss) b (pos + 8 * int (length r))
            (room - 8 * int (length r)) (out + 8 * int (length r)) = Some (out + 8 * int (length r) + 8 + 8 * int (length ss), b')"
        "same_before (pos + 8 * int (length r)) b b'"
        "8 + 8 * int (length ss) \<le> room - 8 * int (length r) \<longrightarrow> holds b' (pos + 8 * int (length r)) (seg @ concat ss)"
        using low [of "pos + 8 * int (length r)" "room - 8 * int (length r)" b] nz Cons.prems(3,4) lb by auto
      have "same_before pos buf b'" by (rule same_before_trans [OF b(2) same_before_le [OF b'(2)]]) simp
      moreover have "holds b' pos (concat r)" if "8 * int (length r) \<le> room"
        using b(3) that holds_same [OF _ b'(2), of pos "concat r"] lc by simp
      ultimately show ?thesis using False nz b(1) b'(1,3) lc by (auto simp: holds_append algebra_simps)
    qed
  qed
qed

section \<open>The size of the packed form\<close>

lemma encode_append_low:
  "nonzero s < 6 \<Longrightarrow> encode r (ss @ [s]) = encode r ss @ seg_header s # filter (\<lambda>b. b \<noteq> 0) s"
  by (induction ss arbitrary: r) (auto simp: flush_run_def)

lemma encode_length:
  "\<forall>seg\<in>set (r @ ss). length seg = 8 \<Longrightarrow> length r \<le> 255 \<Longrightarrow>
     length (encode r ss) \<le> 8 * (length r + length ss) + (length r + length ss + 255) div 256 * 2"
proof (induction ss arbitrary: r)
  case Nil
  have "length (concat r) = 8 * length r" using Nil.prems(1) by (induction r) auto
  moreover have "1 \<le> (length r + 255) div 256" if "r \<noteq> []" using that by (cases r) simp_all
  ultimately show ?case by (auto simp: flush_run_def)
next
  case (Cons seg ss)
  have seg: "length seg = 8" "\<forall>seg\<in>set ss. length seg = 8" "\<forall>seg\<in>set r. length seg = 8" using Cons.prems(1) by auto
  have lc: "length (concat r) = 8 * length r" using seg(3) by (induction r) auto
  have nz: "length (filter (\<lambda>b. b \<noteq> 0) seg) = nonzero seg" by (simp add: nonzero_def)
  have le: "nonzero seg \<le> 8" using nonzero_le [of seg] seg(1) by simp
  have I: "length (encode [] ss) \<le> 8 * length ss + (length ss + 255) div 256 * 2" using Cons.IH [of "[]"] seg by simp
  show ?case
  proof (cases "r = []")
    case True
    have "(length ss + 255) div 256 \<le> (256 + length ss) div 256" by (rule div_le_mono) simp
    then show ?thesis using True Cons.IH [of "[seg]"] I seg nz le by (cases "nonzero seg = 8") auto
  next
    case False
    show ?thesis
    proof (cases "nonzero seg \<ge> 6 \<and> length r + 1 \<noteq> 256")
      case True
      then show ?thesis using Cons.IH [of "r @ [seg]"] False seg Cons.prems(2) by auto
    next
      case full: False
      have "(length ss + 255) div 256 \<le> (256 + (length r + length ss)) div 256" by (rule div_le_mono) simp
      moreover have "(511 + length ss) div 256 = Suc ((length ss + 255) div 256)"
        using div_add_self1 [of "256 :: nat" "length ss + 255"] by (simp add: add.commute)
      ultimately show ?thesis using full False I seg nz lc by (auto simp: flush_run_def)
    qed
  qed
qed

text \<open>The bound that \<open>lpack\<close> allocates.\<close>

lemma packed_size:
  "length (encode [] (segments s)) \<le> (length s + 2047) div 2048 * 2 + length s + 2"
proof -
  define c where "c = segment_count s"
  show ?thesis
  proof (cases c)
    case 0
    then show ?thesis by (simp add: c_def segments_def flush_run_def)
  next
    case (Suc k)
    let ?last = "segment_at s k"
    have ss: "segments s = map (segment_at s) [0..<k] @ [?last]"
      using Suc by (simp add: segments_def c_def)
    have len: "\<forall>seg\<in>set ([] @ segments s). length seg = 8" using segments_length by auto
    have c: "8 * k < length s" "length s \<le> 8 * k + 8" using Suc by (auto simp: c_def segment_count_def)
    show ?thesis
    proof (cases "nonzero ?last < 6")
      case True
      have "length (encode [] (map (segment_at s) [0..<k])) \<le> 8 * k + (k + 255) div 256 * 2"
        using encode_length [of "[]" "map (segment_at s) [0..<k]"] len ss by simp
      moreover have "nonzero ?last \<le> length s - 8 * k"
        using segment_eq [OF c(1)] nonzero_le [of "drop (8 * k) s"] nonzero_le [of ?last] segment_length [OF c(1)]
        by (cases "length s - 8 * k < 8") (auto simp: nonzero_def)
      moreover have "(k + 255) div 256 \<le> (length s + 2047) div 2048" using c by linarith
      ultimately show ?thesis
        unfolding ss encode_append_low [OF True] using c by (simp add: nonzero_def)
    next
      case False
      have "length (encode [] (segments s)) \<le> 8 * (k + 1) + (k + 1 + 255) div 256 * 2"
        using encode_length [OF len] ss by simp
      moreover have "6 \<le> length s - 8 * k"
        using False segment_eq [OF c(1)] nonzero_le [of "drop (8 * k) s"]
        by (cases "length s - 8 * k < 8") (auto simp: nonzero_def)
      moreover have "(k + 1 + 255) div 256 \<le> (length s + 2047) div 2048" using c by linarith
      moreover have "8 * (k + 1) \<le> length s + 2" using calculation(2) by arith
      ultimately show ?thesis by linarith
    qed
  qed
qed

section \<open>Any stream\<close>

text \<open>
  The size of what a stream unpacks to, or -1 for a stream that ends in the middle of a segment: the
  result of \<open>sproto_unpack\<close>, whatever the room.
\<close>

definition bits_rest :: "nat list \<Rightarrow> u8 \<Rightarrow> bytes \<Rightarrow> bytes option" where
  "bits_rest is hdr src =
     (let n = length (filter (bit hdr) is) in if length src < n then None else Some (drop n src))"

function unpacked_size :: "bytes \<Rightarrow> int \<Rightarrow> int" where
  "unpacked_size src out =
     (case src of
        [] \<Rightarrow> out
      | hdr # src \<Rightarrow>
          if hdr = 0xff then
            (case src of
               [] \<Rightarrow> - 1
             | b # src \<Rightarrow>
                 let n = (unat b + 1) * 8 in
                 if length src < n then - 1 else unpacked_size (drop n src) (out + int n))
          else (case bits_rest [0..<8] hdr src of None \<Rightarrow> - 1 | Some src' \<Rightarrow> unpacked_size src' (out + 8)))"
  by pat_completeness auto
termination
  by (relation "measure (\<lambda>(src, out). length src)") (auto simp: bits_rest_def Let_def split: if_splits)

declare unpacked_size.simps [simp del]

lemma bits_rest_Cons:
  "bits_rest (i # is) hdr src =
     (if bit hdr i then (case src of [] \<Rightarrow> None | b # src \<Rightarrow> bits_rest is hdr src) else bits_rest is hdr src)"
  by (auto simp: bits_rest_def Let_def split: list.splits)

lemma unpack_bits_total:
  assumes "0 \<le> p" "p + m \<le> int (length a)"
  shows "\<exists>a' p' m'. unpack_bits is hdr src a p m = Some (bits_rest is hdr src, a', p', m')
    \<and> length a' = length a \<and> 0 \<le> p' \<and> p' + m' \<le> int (length a)"
  using assms
proof (induction "is" arbitrary: src a p m)
  case Nil
  then show ?case by (simp add: bits_rest_def)
next
  case (Cons i "is")
  have room: "\<exists>a' p' m'. unpack_bits is hdr src' (a[nat p := x]) (p + 1) (m - 1) = Some (bits_rest is hdr src', a', p', m')
      \<and> length a' = length a \<and> 0 \<le> p' \<and> p' + m' \<le> int (length a)" if "m > 0" for src' x
    using Cons.IH [of "p + 1" "m - 1" "a[nat p := x]" src'] that Cons.prems by simp
  show ?case
  proof (cases "m > 0")
    case True
    then show ?thesis using room Cons.prems by (cases src) (auto simp: bits_rest_Cons)
  next
    case False
    then show ?thesis using Cons.IH [OF Cons.prems] Cons.prems by (cases src) (auto simp: bits_rest_Cons)
  qed
qed

lemma unpack_stream_total:
  "0 \<le> p \<Longrightarrow> p + m \<le> int (length a) \<Longrightarrow>
     \<exists>a'. unpack_stream src a p m out = Some (unpacked_size src out, a') \<and> length a' = length a"
proof (induction "length src" arbitrary: src a p m out rule: less_induct)
  case less
  show ?case
  proof (cases src)
    case Nil
    then show ?thesis by (simp add: unpack_stream.simps unpacked_size.simps)
  next
    case src: (Cons hdr rest)
    show ?thesis
    proof (cases "hdr = 0xff")
      case ff: True
      show ?thesis
      proof (cases rest)
        case Nil
        then show ?thesis using src ff by (simp add: unpack_stream.simps unpacked_size.simps)
      next
        case rest: (Cons b rest')
        define n where "n = (unat b + 1) * 8"
        have e: "unpacked_size src out =
            (if length rest' < n then - 1 else unpacked_size (drop n rest') (out + int n))"
          unfolding src ff rest n_def by (subst unpacked_size.simps) (simp add: Let_def)
        have u: "unpack_stream src a p m out = (if length rest' < n then Some (- 1, a)
           else Option.bind (if m \<ge> int n then put_bytes (take n rest') p a else Some a)
             (\<lambda>a. unpack_stream (drop n rest') a (p + int n) (m - int n) (out + int n)))"
          unfolding src ff rest by (rule unpack_ff [OF n_def])
        show ?thesis
        proof (cases "length rest' < n")
          case False
          then have "length (drop n rest') < length src" using src rest by simp
          note IH = less.hyps [OF this]
          show ?thesis
          proof (cases "m \<ge> int n")
            case True
            have "p + int (length (take n rest')) \<le> int (length a)" using True less.prems False by simp
            from put_bytes_ok [OF less.prems(1) this] obtain a1
              where a1: "put_bytes (take n rest') p a = Some a1" "length a1 = length a"
              by (auto simp: same_before_def)
            then show ?thesis using e u False True IH [of "p + int n" "m - int n" a1 "out + int n"] less.prems by simp
          next
            case m: False
            then show ?thesis using e u False IH [of "p + int n" "m - int n" a "out + int n"] less.prems by simp
          qed
        qed (use e u in simp)
      qed
    next
      case ff: False
      obtain a' p' m' where b: "unpack_bits [0..<8] hdr rest a p m = Some (bits_rest [0..<8] hdr rest, a', p', m')"
        "length a' = length a" "0 \<le> p'" "p' + m' \<le> int (length a)"
        using unpack_bits_total [OF less.prems] by blast
      show ?thesis
      proof (cases "bits_rest [0..<8] hdr rest")
        case None
        then show ?thesis using src ff b
          by (subst unpack_stream.simps, subst unpacked_size.simps) (simp del: upt_rec_numeral)
      next
        case (Some src')
        have "length src' < length src" using Some src by (auto simp: bits_rest_def Let_def split: if_splits)
        note IH = less.hyps [OF this, of p' m' a' "out + 8"]
        show ?thesis using Some src ff b IH
          by (subst unpack_stream.simps, subst unpacked_size.simps) (simp del: upt_rec_numeral)
      qed
    qed
  qed
qed

lemma unpacked_size_bounds:
  "0 \<le> out \<Longrightarrow> - 1 \<le> unpacked_size src out \<and> unpacked_size src out \<le> out + 8 * int (length src)"
proof (induction "length src" arbitrary: src out rule: less_induct)
  case less
  show ?case
  proof (cases src)
    case Nil
    then show ?thesis using less.prems by (simp add: unpacked_size.simps)
  next
    case src: (Cons hdr rest)
    have IH: "- 1 \<le> unpacked_size r o' \<and> unpacked_size r o' \<le> out + 8 * int (length src)"
      if "o' + 8 * int (length r) \<le> out + 8 * int (length src)" "length r < length src" "0 \<le> o'" for r o'
      using less.hyps [OF that(2,3)] that(1) by linarith
    show ?thesis
    proof (cases "hdr = 0xff")
      case ff: True
      show ?thesis
      proof (cases rest)
        case Nil
        then show ?thesis using src ff less.prems by (simp add: unpacked_size.simps)
      next
        case rest: (Cons b rest')
        define n where "n = (unat b + 1) * 8"
        have "unpacked_size src out =
            (if length rest' < n then - 1 else unpacked_size (drop n rest') (out + int n))"
          unfolding src ff rest n_def by (subst unpacked_size.simps) (simp add: Let_def)
        then show ?thesis using IH [of "out + int n" "drop n rest'"] less.prems src rest by auto
      qed
    next
      case ff: False
      show ?thesis
      proof (cases "bits_rest [0..<8] hdr rest")
        case None
        then show ?thesis using src ff less.prems by (subst (1 2) unpacked_size.simps) (simp del: upt_rec_numeral)
      next
        case (Some src')
        have l: "length src' \<le> length rest" using Some by (auto simp: bits_rest_def Let_def split: if_splits)
        have "unpacked_size src out = unpacked_size src' (out + 8)"
          using Some src ff by (subst unpacked_size.simps) (simp del: upt_rec_numeral)
        then show ?thesis using IH [of "out + 8" src'] less.prems src l by simp
      qed
    qed
  qed
qed

section \<open>pack and unpack\<close>

definition buffer_ok :: "out_buffer \<Rightarrow> bool" where
  "buffer_ok ob \<longleftrightarrow> int (length (ob_data ob)) = ob_size ob \<and> ENCODE_BUFFERSIZE \<le> ob_size ob \<and> ob_size ob \<le> ENCODE_MAXSIZE"

text \<open>Doubling ends below twice the size that is needed, so 1 GB leaves the int far from overflowing.\<close>

lemma expand_size_ok:
  "0 < osz \<Longrightarrow> osz < nsz \<Longrightarrow> nsz \<le> 0x40000000 \<Longrightarrow>
     \<exists>n. expand_size osz nsz = Some n \<and> nsz \<le> n \<and> osz \<le> n \<and> n < 2 * nsz"
proof (induction "nat (nsz - osz)" arbitrary: osz rule: less_induct)
  case less
  show ?case
  proof (cases "osz * 2 < nsz")
    case True
    have "nat (nsz - osz * 2) < nat (nsz - osz)" using less.prems by simp
    from less.hyps [OF this _ True less.prems(3)] less.prems obtain n
      where "expand_size (osz * 2) nsz = Some n" "nsz \<le> n" "osz * 2 \<le> n" "n < 2 * nsz" by auto
    then show ?thesis using True less.prems by (subst expand_size.simps) simp
  next
    case False
    then show ?thesis using less.prems by (subst expand_size.simps) simp
  qed
qed

lemma expand_buffer_ok:
  assumes "buffer_ok ob" "ob_size ob < nsz" "nsz \<le> 0x40000000" and mem: "\<And>n. length (mem n) = nat n"
  shows "expand_buffer mem (ob_size ob) nsz = Some (Inl ObjectTooLarge) \<and> nsz > 0x800000
    \<or> (\<exists>ob'. expand_buffer mem (ob_size ob) nsz = Some (Inr ob') \<and> buffer_ok ob' \<and> nsz \<le> ob_size ob')"
proof -
  have "0 < ob_size ob" using assms(1) by (simp add: buffer_ok_def ENCODE_BUFFERSIZE_def)
  from expand_size_ok [OF this assms(2,3)] obtain n
    where "expand_size (ob_size ob) nsz = Some n" "nsz \<le> n" "ob_size ob \<le> n" "n < 2 * nsz" by auto
  then show ?thesis using assms(1) mem [of n]
    by (auto simp: expand_buffer_def buffer_ok_def ENCODE_MAXSIZE_def ENCODE_BUFFERSIZE_def)
qed

text \<open>\<open>pack\<close> returns the packed form: neither of its errors occurs for a text below 8 MB.\<close>

lemma lpack_ok:
  assumes "buffer_ok ob" "length s \<le> 8000000" and mem: "\<And>n. length (mem n) = nat n"
  shows "\<exists>ob'. lpack mem s ob = Some (Inr (encode [] (segments s)), ob') \<and> buffer_ok ob'"
proof -
  define m where "m = (length s + 2047) div 2048 * 2 + length s + 2"
  have m: "m \<le> 0x800000" using assms(2) unfolding m_def by linarith
  have le: "length (encode [] (segments s)) \<le> m" unfolding m_def by (rule packed_size)
  obtain ob' where ob': "(if ob_size ob < int m then expand_buffer mem (ob_size ob) (int m) else Some (Inr ob)) = Some (Inr ob')"
      "buffer_ok ob'" "int m \<le> ob_size ob'"
  proof (cases "ob_size ob < int m")
    case True
    then show ?thesis using that expand_buffer_ok [OF assms(1) True _ mem] m by auto
  next
    case False
    then show ?thesis using that assms(1) by auto
  qed
  have "int m \<le> int (length (ob_data ob'))" using ob'(2,3) by (simp add: buffer_ok_def)
  from sproto_pack_ok [OF this, of s] obtain out where
    p: "sproto_pack s (ob_data ob') (int m) = Some (int (length (encode [] (segments s))), out)"
      "length out = length (ob_data ob')" "holds out 0 (encode [] (segments s))"
    using le by auto
  then show ?thesis using ob' le unfolding lpack_def m_def [symmetric]
    by (auto simp: holds_def buffer_ok_def)
qed

lemma concat_all_segments:
  "concat (segments s) = s @ replicate (8 * segment_count s - length s) 0"
  using concat_segments [of 0 "segment_count s" s] by (simp add: segments_def segment_count_def)

lemma sproto_unpack_total:
  "room \<le> int (length buf) \<Longrightarrow>
     \<exists>out. sproto_unpack w buf room = Some (unpacked_size w 0, out) \<and> length out = length buf"
  using unpack_stream_total [of 0 room buf w 0] by (simp add: sproto_unpack_def)

text \<open>What is packed is unpacked, padded with zeros to a multiple of eight bytes.\<close>

lemma sproto_unpack_packed:
  assumes "room \<le> int (length buf)"
  shows "\<exists>out. sproto_unpack (encode [] (segments s)) buf room = Some (int (length (concat (segments s))), out)
    \<and> length out = length buf \<and> (int (length (concat (segments s))) \<le> room \<longrightarrow> holds out 0 (concat (segments s)))"
proof -
  have seg: "\<forall>seg\<in>set ([] @ segments s). length seg = 8" using segments_length by auto
  then have "length (concat ss) = 8 * length ss" if "set ss \<subseteq> set (segments s)" for ss using that by (induction ss) auto
  from this [of "segments s"] show ?thesis
    using unpack_encode [OF seg, of 0 room buf 0] assms by (auto simp: sproto_unpack_def same_before_def)
qed

lemma lunpack_packed:
  assumes "buffer_ok ob" "length s \<le> 8000000" and mem: "\<And>n. length (mem n) = nat n"
  shows "\<exists>ob'. lunpack mem (encode [] (segments s)) ob = Some (Inr (concat (segments s)), ob') \<and> buffer_ok ob'"
proof -
  let ?t = "concat (segments s)" and ?w = "encode [] (segments s)"
  have lt: "int (length ?t) \<le> 0x800000"
    using assms(2) unfolding concat_all_segments by (simp add: segment_count_def)
  have "ob_size ob \<le> int (length (ob_data ob))" using assms(1) by (simp add: buffer_ok_def)
  from sproto_unpack_packed [OF this, of s] obtain out where
    u: "sproto_unpack ?w (ob_data ob) (ob_size ob) = Some (int (length ?t), out)" "length out = length (ob_data ob)"
      "int (length ?t) \<le> ob_size ob \<longrightarrow> holds out 0 ?t" by auto
  have ok: "buffer_ok (ob\<lparr>ob_data := out\<rparr>)" using u(2) assms(1) by (simp add: buffer_ok_def)
  show ?thesis
  proof (cases "int (length ?t) \<le> ob_size ob")
    case True
    then show ?thesis using u ok by (auto simp: lunpack_def holds_def)
  next
    case False
    then obtain ob' where e: "expand_buffer mem (ob_size ob) (int (length ?t)) = Some (Inr ob')"
        "buffer_ok ob'" "int (length ?t) \<le> ob_size ob'"
      using expand_buffer_ok [OF assms(1) _ _ mem, of "int (length ?t)"] lt by auto
    then have "int (length ?t) \<le> int (length (ob_data ob'))" by (simp add: buffer_ok_def)
    from sproto_unpack_packed [OF this, of s] obtain out' where
      u': "sproto_unpack ?w (ob_data ob') (int (length ?t)) = Some (int (length ?t), out')"
        "length out' = length (ob_data ob')" "holds out' 0 ?t" by auto
    then have "buffer_ok (ob'\<lparr>ob_data := out'\<rparr>)" using e(2) by (simp add: buffer_ok_def)
    then show ?thesis using False u(1) e(1) u' by (auto simp: lunpack_def holds_def)
  qed
qed

lemma padding_length: "8 * ((n + 7) div 8) - n = (8 - n mod 8) mod (8 :: nat)"
proof -
  define q r where "q = n div 8" and "r = n mod 8"
  have n: "n = 8 * q + r" "r < 8" by (simp_all add: q_def r_def)
  have "(8 * q + r + 7) div 8 = q + (r + 7) div 8"
    using div_mult_self2 [of 8 "r + 7" q] by (simp add: algebra_simps)
  moreover have "(r + 7) div 8 = (if r = 0 then 0 else 1)" using n(2) by auto
  ultimately show ?thesis using n by auto
qed

section \<open>Properties\<close>

text \<open>
  C31: What pack makes of a text of up to 8 MB, unpack makes into the text again, padded with zeros to a
  multiple of eight bytes; neither raises an error, whatever their buffers have held and however often
  they have grown.
\<close>

theorem sproto_roundtrip:
  assumes "buffer_ok p" "buffer_ok u" "length s \<le> 8000000" "\<And>n. length (mem n) = nat n"
  shows "\<exists>w p' u'. lpack mem s p = Some (Inr w, p') \<and> buffer_ok p'
    \<and> lunpack mem w u = Some (Inr (s @ replicate ((8 - length s mod 8) mod 8) 0), u') \<and> buffer_ok u'"
proof -
  have "8 * segment_count s - length s = (8 - length s mod 8) mod 8"
    unfolding segment_count_def by (rule padding_length)
  then show ?thesis
    using lpack_ok [OF assms(1,3,4)] lunpack_packed [OF assms(2-4)] unfolding concat_all_segments by metis
qed

theorem sproto_roundtrip_witness:
  "\<exists>w p' u'. lpack (\<lambda>n. replicate (nat n) 7) [1, 0, 2] (pushfunction_withbuffer (\<lambda>n. replicate (nat n) 7)) = Some (Inr w, p')
    \<and> buffer_ok p'
    \<and> lunpack (\<lambda>n. replicate (nat n) 7) w (pushfunction_withbuffer (\<lambda>n. replicate (nat n) 7)) =
        Some (Inr [1, 0, 2, 0, 0, 0, 0, 0], u') \<and> buffer_ok u'"
proof -
  have "buffer_ok (pushfunction_withbuffer (\<lambda>n. replicate (nat n) 7))"
    by (simp add: buffer_ok_def pushfunction_withbuffer_def ENCODE_BUFFERSIZE_def ENCODE_MAXSIZE_def)
  moreover have "replicate 5 (0 :: u8) = [0, 0, 0, 0, 0]" by (simp add: numeral_eq_Suc)
  ultimately show ?thesis
    using sproto_roundtrip [of "pushfunction_withbuffer (\<lambda>n. replicate (nat n) 7)" "pushfunction_withbuffer (\<lambda>n. replicate (nat n) 7)"
        "[1, 0, 2]" "\<lambda>n. replicate (nat n) 7"]
    by simp
qed

text \<open>
  C33: The size that the packer returns is at most two bytes per begun 2 KB, and two more, above the size of
  the text, as lpack assumes; it writes nowhere outside of its buffer, and if the size does not exceed
  the room, the buffer begins with the packed form.
\<close>

theorem sproto_pack_bounds:
  assumes "bufsz \<le> int (length buf)"
  shows "\<exists>n buf'. sproto_pack s buf bufsz = Some (int n, buf') \<and> length buf' = length buf
    \<and> n \<le> (length s + 2047) div 2048 * 2 + length s + 2
    \<and> (int n \<le> bufsz \<longrightarrow> take n buf' = encode [] (segments s))"
  using sproto_pack_ok [OF assms, of s] packed_size [of s] by (auto simp: holds_def)

theorem sproto_pack_bounds_witness:
  "\<exists>n buf'. sproto_pack [0, 3, 0, 0, 9] [4, 4, 4, 4] 4 = Some (int n, buf') \<and> length buf' = length ([4, 4, 4, 4] :: bytes) \<and> n \<le> 9
    \<and> (int n \<le> 4 \<longrightarrow> take n buf' = [18, 3, 9])"
proof -
  have "encode [] (segments [0, 3, 0, 0, 9]) = [18, 3, 9]"
    by code_simp
  then show ?thesis using sproto_pack_bounds [of 4 "[4, 4, 4, 4]" "[0, 3, 0, 0, 9]"] by simp
qed



end
