(* ===== verification/Socket.thy ===== *)
theory Socket
  imports Linked
begin

text \<open>
  skynet-src/socket_server.c, one socket: its two lists of pending write buffers, the direct
  write of a sender thread, closing, and the handling of one readiness event.

  A payload lives in a block of memory \<open>mem\<close>, released by \<open>FREE\<close> or by the \<open>free\<close> of the
  user's object interface; the nodes \<open>struct write_buffer\<close> of a socket live in \<open>nodes\<close>. Reading
  or releasing what is not allocated fails. A pointer into a block is a pair of the block and an
  offset; the null pointer is None.

  What the operating system answers is a tape \<open>sys\<close> of outcomes, one per system call, chosen
  freely: every finite run of the code is the run on some tape. Past the end of the tape a call
  that transfers data would block (EAGAIN) and any other call succeeds. The bytes the kernel has
  accepted on a TCP socket since it was opened are kept in \<open>out\<close>, and the datagrams in \<open>dgrams\<close>.
\<close>

section \<open>Data\<close>

datatype socket_type = SOCKET_TYPE_INVALID | SOCKET_TYPE_RESERVE | SOCKET_TYPE_PLISTEN
  | SOCKET_TYPE_LISTEN | SOCKET_TYPE_CONNECTING | SOCKET_TYPE_CONNECTED
  | SOCKET_TYPE_HALFCLOSE_READ | SOCKET_TYPE_HALFCLOSE_WRITE | SOCKET_TYPE_PACCEPT
  | SOCKET_TYPE_BIND

text \<open>The results of the operations (socket_server.h); \<open>SOCKET_NONE\<close> is the -1 of the code.\<close>

datatype socket_ret = SOCKET_NONE | SOCKET_DATA | SOCKET_CLOSE | SOCKET_OPEN | SOCKET_ACCEPT
  | SOCKET_ERR | SOCKET_EXIT | SOCKET_UDP | SOCKET_WARNING | SOCKET_RST | SOCKET_MORE

datatype priority = PRIORITY_HIGH | PRIORITY_LOW

definition MAX_SOCKET_P :: nat where "MAX_SOCKET_P = 16"
definition MAX_SOCKET :: nat where "MAX_SOCKET = 2 ^ MAX_SOCKET_P"
definition MIN_READ_BUFFER :: int where "MIN_READ_BUFFER = 64"
definition UDP_ADDRESS_SIZE :: nat where "UDP_ADDRESS_SIZE = 19"
definition MAX_UDP_PACKAGE :: nat where "MAX_UDP_PACKAGE = 65535"
definition WARNING_SIZE :: int where "WARNING_SIZE = 1024 * 1024"
definition USEROBJECT :: nat where "USEROBJECT = 2 ^ 64 - 1"
definition PROTOCOL_TCP :: u8 where "PROTOCOL_TCP = 0"
definition PROTOCOL_UDP :: u8 where "PROTOCOL_UDP = 1"
definition PROTOCOL_UDPv6 :: u8 where "PROTOCOL_UDPv6 = 2"
definition PROTOCOL_UNKNOWN :: u8 where "PROTOCOL_UNKNOWN = 255"

definition HASH_ID :: "u32 \<Rightarrow> nat" where "HASH_ID i = unat i mod MAX_SOCKET"
definition ID_TAG16 :: "u32 \<Rightarrow> u64" where
  "ID_TAG16 i = ucast (drop_bit MAX_SOCKET_P i) AND 0xffff"

record write_buffer =
  wb_next :: "nat option"
  wb_buffer :: nat
  wb_ptr :: "nat \<times> nat"
  wb_sz :: nat
  wb_userobject :: bool
  wb_udp :: "bytes option"

text \<open>
  \<open>wb_udp\<close> is the address that \<open>struct write_buffer_udp\<close> adds: None for a node allocated as a
  plain \<open>struct write_buffer\<close>.
\<close>

record wb_list =
  wl_head :: "nat option"
  wl_tail :: "nat option"

record socket_stat =
  st_rtime :: u64
  st_wtime :: u64
  st_read :: u64
  st_write :: u64

datatype buffer_type = SOCKET_BUFFER_MEMORY | SOCKET_BUFFER_OBJECT | SOCKET_BUFFER_RAWPOINTER

record socket_sendbuffer =
  sb_id :: u32
  sb_type :: buffer_type
  sb_buffer :: nat
  sb_sz :: nat

datatype sockaddr = Sockaddr (sa_protocol: u8) (sa_port: bytes) (sa_addr: bytes)

text \<open>
  The lock \<open>dw_lock\<close> of a socket is taken by a sender thread for a direct write; \<open>direct\<close> is the
  buffer that thread is working on, from its test under the lock to its unlock.
\<close>

record socket =
  opaque :: u64
  high :: wb_list
  low :: wb_list
  wb_size :: int
  stat :: socket_stat
  sending :: u64
  fd :: int
  sid :: u32
  stype :: socket_type
  protocol :: u8
  reading :: bool
  writing :: bool
  closing :: bool
  udpconnecting :: int
  warn_size :: int
  p_size :: int
  p_udp_address :: bytes
  dw_lock :: bool
  dw_offset :: nat
  dw_buffer :: "nat option"
  dw_size :: nat
  nodes :: "nat \<Rightarrow> write_buffer option"
  direct :: "socket_sendbuffer option"
  out :: bytes
  dgrams :: "(sockaddr \<times> bytes) list"

datatype errno = EINTR | EAGAIN | EINPROGRESS | EMFILE | ENFILE | OTHER int

record event =
  ev_s :: "nat option"
  ev_read :: bool
  ev_write :: bool
  ev_error :: bool
  ev_eof :: bool

datatype outcome = Ret int | Err errno | Got bytes | From sockaddr bytes | Text string
  | Events "event list"

datatype message_data = NULL | Str string | Strerror errno | Bytes bytes

record socket_message =
  m_id :: u32
  m_opaque :: u64
  m_ud :: int
  m_data :: message_data

record socket_object_interface =
  so_buffer :: "nat \<Rightarrow> nat"
  so_size :: "nat \<Rightarrow> nat"

record request_send =
  rs_id :: u32
  rs_sz :: nat
  rs_buffer :: nat

datatype request =
    Resume u32 u64
  | Pause u32
  | Bind u32 int u64
  | Listen u32 int u64
  | Close u32 bool u64
  | Open u32 u64 string int
  | Exit
  | Trigger u32
  | SendHigh request_send
  | SendLow request_send
  | SendUdp request_send bytes
  | SetUdp u32 bytes
  | SetOpt u32 int int
  | Udp u32 int bool u64

text \<open>
  \<open>struct socket_server\<close> without its array of sockets. \<open>pipe\<close> holds the requests written to
  \<open>sendctrl_fd\<close> and not yet read from \<open>recvctrl_fd\<close>, \<open>result\<close> the message the socket thread
  reports, \<open>closed\<close> the descriptors closed so far.
\<close>

record socket_server =
  stime :: u64
  checkctrl :: bool
  alloc_id :: u32
  event_index :: nat
  ev :: "event list"
  soi :: socket_object_interface
  mem :: "nat \<Rightarrow> bytes option"
  brk :: nat
  sys :: "outcome list"
  pipe :: "request list"
  result :: socket_message
  closed :: "int list"

section \<open>Memory and system calls\<close>

definition read_mem :: "(nat \<Rightarrow> bytes option) \<Rightarrow> nat \<times> nat \<Rightarrow> nat \<Rightarrow> bytes option" where
  "read_mem m ptr n = (case m (fst ptr) of
       None \<Rightarrow> None
     | Some blk \<Rightarrow> if snd ptr + n \<le> length blk then Some (take n (drop (snd ptr) blk)) else None)"

definition FREE :: "nat \<Rightarrow> socket_server \<Rightarrow> socket_server option" where
  "FREE a ss = (if mem ss a = None then None else Some (ss\<lparr>mem := (mem ss)(a := None)\<rparr>))"

text \<open>\<open>soi.free(object)\<close> releases the object with the block its \<open>soi.buffer\<close> points to.\<close>

definition soi_free :: "nat \<Rightarrow> socket_server \<Rightarrow> socket_server option" where
  "soi_free a ss = FREE (so_buffer (soi ss) a) ss"

definition MALLOC :: "bytes \<Rightarrow> socket_server \<Rightarrow> nat \<times> socket_server" where
  "MALLOC bs ss = (brk ss, ss\<lparr>mem := (mem ss)(brk ss := Some bs), brk := brk ss + 1\<rparr>)"

definition next_outcome :: "socket_server \<Rightarrow> outcome option \<times> socket_server" where
  "next_outcome ss = (case sys ss of
       [] \<Rightarrow> (None, ss)
     | oc # os \<Rightarrow> (Some oc, ss\<lparr>sys := os\<rparr>))"

text \<open>A call that returns 0 or fails: \<open>sp_add\<close>, \<open>sp_enable\<close>, \<open>getsockopt\<close> and others.\<close>

definition call_failed :: "outcome option \<Rightarrow> bool" where
  "call_failed oc = (case oc of Some (Err e) \<Rightarrow> True | _ \<Rightarrow> False)"

definition sp_result :: "socket_server \<Rightarrow> bool \<times> socket_server" where
  "sp_result ss = (case next_outcome ss of (oc, ss) \<Rightarrow> (call_failed oc, ss))"

definition outcome_errno :: "outcome option \<Rightarrow> errno" where
  "outcome_errno oc = (case oc of Some (Err e) \<Rightarrow> e | _ \<Rightarrow> EAGAIN)"

definition c_int :: "int \<Rightarrow> int" where "c_int x = sint (word_of_int x :: u32)"

definition stat_read :: "socket_server \<Rightarrow> socket \<Rightarrow> int \<Rightarrow> socket" where
  "stat_read ss s n =
     s\<lparr>stat := (stat s)\<lparr>st_read := st_read (stat s) + of_int n, st_rtime := stime ss\<rparr>\<rparr>"

definition stat_write :: "socket_server \<Rightarrow> socket \<Rightarrow> int \<Rightarrow> socket" where
  "stat_write ss s n =
     s\<lparr>stat := (stat s)\<lparr>st_write := st_write (stat s) + of_int n, st_wtime := stime ss\<rparr>\<rparr>"

section \<open>The lock of a socket\<close>

text \<open>
  A \<open>struct socket_lock\<close> is its count. Locking spins while another thread holds the lock, so the
  operation has no result then.
\<close>

definition socket_lock :: "nat \<Rightarrow> socket \<Rightarrow> (nat \<times> socket) option" where
  "socket_lock l s = (if l = 0 then
       (if dw_lock s then None else Some (l + 1, s\<lparr>dw_lock := True\<rparr>))
     else Some (l + 1, s))"

definition socket_trylock :: "nat \<Rightarrow> socket \<Rightarrow> (bool \<times> nat \<times> socket)" where
  "socket_trylock l s = (if l = 0 then
       (if dw_lock s then (False, l, s) else (True, l + 1, s\<lparr>dw_lock := True\<rparr>))
     else (True, l + 1, s))"

definition socket_unlock :: "nat \<Rightarrow> socket \<Rightarrow> socket option" where
  "socket_unlock l s = (if int l - 1 \<le> 0 then
       do { c_assert (int l - 1 = 0); Some (s\<lparr>dw_lock := False\<rparr>) }
     else Some s)"

definition socket_invalid :: "socket \<Rightarrow> u32 \<Rightarrow> bool" where
  "socket_invalid s i = (sid s \<noteq> i \<or> stype s = SOCKET_TYPE_INVALID)"

section \<open>Send objects and buffers\<close>

definition send_object_init :: "socket_server \<Rightarrow> nat \<Rightarrow> nat \<Rightarrow> (nat \<times> nat) \<times> nat \<times> bool" where
  "send_object_init ss object sz =
     (if sz = USEROBJECT then ((so_buffer (soi ss) object, 0), so_size (soi ss) object, True)
      else ((object, 0), sz, False))"

text \<open>\<open>so.free_func\<close> after \<open>send_object_init\<close>.\<close>

definition so_free :: "bool \<Rightarrow> nat \<Rightarrow> socket_server \<Rightarrow> socket_server option" where
  "so_free user a ss = (if user then soi_free a ss else FREE a ss)"

definition free_buffer :: "socket_server \<Rightarrow> socket_sendbuffer \<Rightarrow> socket_server option" where
  "free_buffer ss buf = (case sb_type buf of
       SOCKET_BUFFER_MEMORY \<Rightarrow> FREE (sb_buffer buf) ss
     | SOCKET_BUFFER_OBJECT \<Rightarrow> soi_free (sb_buffer buf) ss
     | SOCKET_BUFFER_RAWPOINTER \<Rightarrow> Some ss)"

definition send_object_init_from_sendbuffer ::
    "socket_server \<Rightarrow> socket_sendbuffer \<Rightarrow> (nat \<times> nat) \<times> nat" where
  "send_object_init_from_sendbuffer ss buf = (case sb_type buf of
       SOCKET_BUFFER_MEMORY \<Rightarrow>
         (let (ptr, sz, user) = send_object_init ss (sb_buffer buf) (sb_sz buf) in (ptr, sz))
     | SOCKET_BUFFER_OBJECT \<Rightarrow>
         (let (ptr, sz, user) = send_object_init ss (sb_buffer buf) USEROBJECT in (ptr, sz))
     | SOCKET_BUFFER_RAWPOINTER \<Rightarrow> ((sb_buffer buf, 0), sb_sz buf))"

text \<open>The buffer and size handed on; a raw pointer is copied.\<close>

definition clone_buffer ::
    "socket_server \<Rightarrow> socket_sendbuffer \<Rightarrow> (nat \<times> nat \<times> socket_server) option" where
  "clone_buffer ss buf = (case sb_type buf of
       SOCKET_BUFFER_MEMORY \<Rightarrow> Some (sb_buffer buf, sb_sz buf, ss)
     | SOCKET_BUFFER_OBJECT \<Rightarrow> Some (sb_buffer buf, USEROBJECT, ss)
     | SOCKET_BUFFER_RAWPOINTER \<Rightarrow> do {
         bs \<leftarrow> read_mem (mem ss) (sb_buffer buf, 0) (sb_sz buf);
         (case MALLOC bs ss of (tmp, ss) \<Rightarrow> Some (tmp, sb_sz buf, ss))
       })"

text \<open>\<open>so.free_func(buf->buffer)\<close> after \<open>send_object_init_from_sendbuffer\<close>.\<close>

definition sendbuffer_free :: "socket_server \<Rightarrow> socket_sendbuffer \<Rightarrow> socket_server option" where
  "sendbuffer_free ss buf = (case sb_type buf of
       SOCKET_BUFFER_MEMORY \<Rightarrow> so_free (sb_sz buf = USEROBJECT) (sb_buffer buf) ss
     | SOCKET_BUFFER_OBJECT \<Rightarrow> so_free True (sb_buffer buf) ss
     | SOCKET_BUFFER_RAWPOINTER \<Rightarrow> Some ss)"

section \<open>Write lists\<close>

definition wb_list_of :: "priority \<Rightarrow> socket \<Rightarrow> wb_list" where
  "wb_list_of p s = (case p of PRIORITY_HIGH \<Rightarrow> high s | PRIORITY_LOW \<Rightarrow> low s)"

definition set_wb_list :: "priority \<Rightarrow> wb_list \<Rightarrow> socket \<Rightarrow> socket" where
  "set_wb_list p l s = (case p of PRIORITY_HIGH \<Rightarrow> s\<lparr>high := l\<rparr> | PRIORITY_LOW \<Rightarrow> s\<lparr>low := l\<rparr>)"

definition clear_wb_list :: wb_list where
  "clear_wb_list = \<lparr>wl_head = None, wl_tail = None\<rparr>"

definition check_wb_list :: "wb_list \<Rightarrow> unit option" where
  "check_wb_list l = do { c_assert (wl_head l = None); c_assert (wl_tail l = None) }"

definition write_buffer_free ::
    "socket_server \<Rightarrow> socket \<Rightarrow> nat \<Rightarrow> (socket_server \<times> socket) option" where
  "write_buffer_free ss s a = do {
     wb \<leftarrow> nodes s a;
     ss \<leftarrow> so_free (wb_userobject wb) (wb_buffer wb) ss;
     Some (ss, s\<lparr>nodes := (nodes s)(a := None)\<rparr>)
   }"

partial_function (option) free_wb_loop ::
    "nat option \<Rightarrow> socket_server \<Rightarrow> socket \<Rightarrow> (socket_server \<times> socket) option" where
  "free_wb_loop wb ss s = (case wb of
       None \<Rightarrow> Some (ss, s)
     | Some tmp \<Rightarrow> Option.bind (nodes s tmp) (\<lambda>n.
         Option.bind (write_buffer_free ss s tmp) (\<lambda>r.
         free_wb_loop (wb_next n) (fst r) (snd r))))"

definition free_wb_list ::
    "priority \<Rightarrow> socket_server \<Rightarrow> socket \<Rightarrow> (socket_server \<times> socket) option" where
  "free_wb_list p ss s = do {
     (ss, s) \<leftarrow> free_wb_loop (wl_head (wb_list_of p s)) ss s;
     Some (ss, set_wb_list p clear_wb_list s)
   }"

definition send_buffer_empty :: "socket \<Rightarrow> bool" where
  "send_buffer_empty s = (wl_head (high s) = None \<and> wl_head (low s) = None)"

definition list_uncomplete :: "socket \<Rightarrow> wb_list \<Rightarrow> bool option" where
  "list_uncomplete s l = (case wl_head l of
       None \<Rightarrow> Some False
     | Some a \<Rightarrow> do { wb \<leftarrow> nodes s a; Some (wb_ptr wb \<noteq> (wb_buffer wb, 0)) })"

definition raise_uncomplete :: "socket \<Rightarrow> socket option" where
  "raise_uncomplete s = do {
     tmp \<leftarrow> wl_head (low s);
     wb \<leftarrow> nodes s tmp;
     s \<leftarrow> Some (s\<lparr>low := (low s)\<lparr>wl_head := wb_next wb\<rparr>\<rparr>);
     s \<leftarrow> Some (if wl_head (low s) = None then s\<lparr>low := (low s)\<lparr>wl_tail := None\<rparr>\<rparr> else s);
     c_assert (wl_head (high s) = None);
     Some (s\<lparr>nodes := (nodes s)(tmp := Some (wb\<lparr>wb_next := None\<rparr>)),
             high := \<lparr>wl_head = Some tmp, wl_tail = Some tmp\<rparr>\<rparr>)
   }"

definition nomore_sending_data :: "socket \<Rightarrow> bool" where
  "nomore_sending_data s \<longleftrightarrow>
     (send_buffer_empty s \<and> dw_buffer s = None \<and> sending s AND 0xffff = 0)
     \<or> stype s = SOCKET_TYPE_HALFCLOSE_WRITE"

section \<open>Polling flags and closing\<close>

definition enable_write :: "socket_server \<Rightarrow> socket \<Rightarrow> bool \<Rightarrow> bool \<times> socket_server \<times> socket" where
  "enable_write ss s enable = (if writing s \<noteq> enable then
       (case sp_result ss of (err, ss) \<Rightarrow> (err, ss, s\<lparr>writing := enable\<rparr>))
     else (False, ss, s))"

definition enable_read :: "socket_server \<Rightarrow> socket \<Rightarrow> bool \<Rightarrow> bool \<times> socket_server \<times> socket" where
  "enable_read ss s enable = (if reading s \<noteq> enable then
       (case sp_result ss of (err, ss) \<Rightarrow> (err, ss, s\<lparr>reading := enable\<rparr>))
     else (False, ss, s))"

definition set_result :: "socket \<Rightarrow> message_data \<Rightarrow> socket_server \<Rightarrow> socket_server" where
  "set_result s d ss =
     ss\<lparr>result := \<lparr>m_id = sid s, m_opaque = opaque s, m_ud = 0, m_data = d\<rparr>\<rparr>"

definition report_error :: "socket_server \<Rightarrow> socket \<Rightarrow> message_data \<Rightarrow> socket_ret \<times> socket_server" where
  "report_error ss s err = (SOCKET_ERR, set_result s err ss)"

definition close_fd :: "int \<Rightarrow> socket_server \<Rightarrow> socket_server" where
  "close_fd f ss = ss\<lparr>closed := closed ss @ [f]\<rparr>"

definition force_close ::
    "socket_server \<Rightarrow> socket \<Rightarrow> nat \<Rightarrow> (socket_server \<times> socket) option" where
  "force_close ss s l = do {
     ss \<leftarrow> Some (set_result s NULL ss);
     if stype s = SOCKET_TYPE_INVALID then Some (ss, s)
     else do {
       c_assert (stype s \<noteq> SOCKET_TYPE_RESERVE);
       (ss, s) \<leftarrow> free_wb_list PRIORITY_HIGH ss s;
       (ss, s) \<leftarrow> free_wb_list PRIORITY_LOW ss s;
       (l, s) \<leftarrow> socket_lock l s;
       ss \<leftarrow> Some (if stype s \<noteq> SOCKET_TYPE_BIND then close_fd (fd s) ss else ss);
       s \<leftarrow> Some (s\<lparr>stype := SOCKET_TYPE_INVALID\<rparr>);
       (ss, s) \<leftarrow> (case dw_buffer s of
           None \<Rightarrow> Some (ss, s)
         | Some b \<Rightarrow> do {
             ss \<leftarrow> free_buffer ss \<lparr>sb_id = sid s,
               sb_type = (if dw_size s = USEROBJECT then SOCKET_BUFFER_OBJECT
                          else SOCKET_BUFFER_MEMORY), sb_buffer = b, sb_sz = dw_size s\<rparr>;
             Some (ss, s\<lparr>dw_buffer := None\<rparr>)
           });
       s \<leftarrow> socket_unlock l s;
       Some (ss, s)
     }
   }"

definition close_write ::
    "errno \<Rightarrow> socket_server \<Rightarrow> socket \<Rightarrow> nat \<Rightarrow> (socket_ret \<times> socket_server \<times> socket) option" where
  "close_write e ss s l =
     (if closing s then do {
        (ss, s) \<leftarrow> force_close ss s l;
        Some (SOCKET_RST, ss, s)
      } else if stype s = SOCKET_TYPE_HALFCLOSE_READ then do {
        (ss, s) \<leftarrow> force_close ss s l;
        Some (SOCKET_RST, ss, s)
      } else if stype s = SOCKET_TYPE_HALFCLOSE_WRITE then Some (SOCKET_RST, ss, s)
      else do {
        s \<leftarrow> Some (s\<lparr>stype := SOCKET_TYPE_HALFCLOSE_WRITE\<rparr>);
        (err, ss, s) \<leftarrow> Some (enable_write ss s False);
        (ret, ss) \<leftarrow> Some (report_error ss s (Strerror e));
        Some (ret, ss, s)
      })"

definition close_read :: "socket_server \<Rightarrow> socket \<Rightarrow> socket_server \<times> socket" where
  "close_read ss s =
     (case enable_read ss (s\<lparr>stype := SOCKET_TYPE_HALFCLOSE_READ\<rparr>) False of
        (err, ss, s) \<Rightarrow> (set_result s NULL ss, s))"

definition halfclose_read :: "socket \<Rightarrow> bool" where
  "halfclose_read s = (stype s = SOCKET_TYPE_HALFCLOSE_READ)"

section \<open>Sending the write lists\<close>

text \<open>
  The loop of \<open>send_list_tcp\<close>: \<open>write\<close> is called on the head of the list, again after EINTR,
  until the kernel takes less than the node holds. The first argument is the tape.
\<close>

fun send_tcp_loop :: "outcome list \<Rightarrow> priority \<Rightarrow> socket_server \<Rightarrow> socket \<Rightarrow> nat
    \<Rightarrow> (socket_ret \<times> socket_server \<times> socket) option" where
  "send_tcp_loop os p ss s l = (case wl_head (wb_list_of p s) of
       None \<Rightarrow> Some (SOCKET_NONE, ss\<lparr>sys := os\<rparr>,
                     set_wb_list p ((wb_list_of p s)\<lparr>wl_tail := None\<rparr>) s)
     | Some tmp \<Rightarrow> Option.bind (nodes s tmp) (\<lambda>wb.
         (case os of
            [] \<Rightarrow> Some (SOCKET_NONE, ss\<lparr>sys := []\<rparr>, s)
          | Ret n # os \<Rightarrow> Option.bind (read_mem (mem ss) (wb_ptr wb) (wb_sz wb)) (\<lambda>bs.
              let sz = min (nat n) (wb_sz wb);
                  s = (stat_write ss s (c_int (int sz)))\<lparr>out := out s @ take sz bs,
                         wb_size := wb_size s - int sz\<rparr> in
              if sz \<noteq> wb_sz wb then
                Some (SOCKET_NONE, ss\<lparr>sys := os\<rparr>, s\<lparr>nodes := (nodes s)(tmp := Some
                  (wb\<lparr>wb_ptr := (fst (wb_ptr wb), snd (wb_ptr wb) + sz), wb_sz := wb_sz wb - sz\<rparr>))\<rparr>)
              else Option.bind (write_buffer_free ss
                      (set_wb_list p ((wb_list_of p s)\<lparr>wl_head := wb_next wb\<rparr>) s) tmp) (\<lambda>r.
                send_tcp_loop os p (fst r) (snd r) l))
          | oc # os \<Rightarrow>
              if outcome_errno (Some oc) = EINTR then send_tcp_loop os p ss s l
              else if outcome_errno (Some oc) = EAGAIN then
                Some (SOCKET_NONE, ss\<lparr>sys := os\<rparr>, s)
              else close_write (outcome_errno (Some oc)) (ss\<lparr>sys := os\<rparr>) s l)))"

declare send_tcp_loop.simps [simp del]

definition send_list_tcp :: "priority \<Rightarrow> socket_server \<Rightarrow> socket \<Rightarrow> nat
    \<Rightarrow> (socket_ret \<times> socket_server \<times> socket) option" where
  "send_list_tcp p ss s l = send_tcp_loop (sys ss) p ss s l"

text \<open>The destination of a datagram, or None where the code returns the length 0.\<close>

definition udp_socket_address :: "socket \<Rightarrow> bytes \<Rightarrow> sockaddr option" where
  "udp_socket_address s udp_address =
     (if hd udp_address \<noteq> protocol s then None
      else if protocol s = PROTOCOL_UDP then
        Some (Sockaddr PROTOCOL_UDP (take 2 (drop 1 udp_address)) (take 4 (drop 3 udp_address)))
      else if protocol s = PROTOCOL_UDPv6 then
        Some (Sockaddr PROTOCOL_UDPv6 (take 2 (drop 1 udp_address)) (take 16 (drop 3 udp_address)))
      else None)"

definition drop_udp :: "priority \<Rightarrow> nat \<Rightarrow> socket_server \<Rightarrow> socket
    \<Rightarrow> (socket_server \<times> socket) option" where
  "drop_udp p tmp ss s = do {
     wb \<leftarrow> nodes s tmp;
     s \<leftarrow> Some (s\<lparr>wb_size := wb_size s - int (wb_sz wb)\<rparr>);
     l \<leftarrow> Some ((wb_list_of p s)\<lparr>wl_head := wb_next wb\<rparr>);
     s \<leftarrow> Some (set_wb_list p (if wl_head l = None then l\<lparr>wl_tail := None\<rparr> else l) s);
     write_buffer_free ss s tmp
   }"

text \<open>
  \<open>sendto\<close> takes the whole datagram or fails. A node without an address is one of
  \<open>struct write_buffer\<close>, whose memory ends before \<open>udp_address\<close>.
\<close>

fun send_udp_loop :: "outcome list \<Rightarrow> priority \<Rightarrow> socket_server \<Rightarrow> socket
    \<Rightarrow> (socket_ret \<times> socket_server \<times> socket) option" where
  "send_udp_loop os p ss s = (case wl_head (wb_list_of p s) of
       None \<Rightarrow> Some (SOCKET_NONE, ss\<lparr>sys := os\<rparr>,
                     set_wb_list p ((wb_list_of p s)\<lparr>wl_tail := None\<rparr>) s)
     | Some tmp \<Rightarrow> Option.bind (nodes s tmp) (\<lambda>wb. Option.bind (wb_udp wb) (\<lambda>addr.
         (case udp_socket_address s addr of
            None \<Rightarrow> Option.bind (drop_udp p tmp (ss\<lparr>sys := os\<rparr>) s) (\<lambda>r. Some (SOCKET_NONE, r))
          | Some sa \<Rightarrow> (case os of
              [] \<Rightarrow> Some (SOCKET_NONE, ss\<lparr>sys := []\<rparr>, s)
            | Ret n # os \<Rightarrow> Option.bind (read_mem (mem ss) (wb_ptr wb) (wb_sz wb)) (\<lambda>bs.
                let s = (stat_write ss s (int (wb_sz wb)))\<lparr>dgrams := dgrams s @ [(sa, bs)],
                          wb_size := wb_size s - int (wb_sz wb)\<rparr> in
                Option.bind (write_buffer_free ss
                    (set_wb_list p ((wb_list_of p s)\<lparr>wl_head := wb_next wb\<rparr>) s) tmp) (\<lambda>r.
                  send_udp_loop os p (fst r) (snd r)))
            | oc # os \<Rightarrow>
                if outcome_errno (Some oc) = EINTR \<or> outcome_errno (Some oc) = EAGAIN then
                  Some (SOCKET_NONE, ss\<lparr>sys := os\<rparr>, s)
                else Option.bind (drop_udp p tmp (ss\<lparr>sys := os\<rparr>) s) (\<lambda>r. Some (SOCKET_NONE, r)))))))"

declare send_udp_loop.simps [simp del]

definition send_list_udp :: "priority \<Rightarrow> socket_server \<Rightarrow> socket
    \<Rightarrow> (socket_ret \<times> socket_server \<times> socket) option" where
  "send_list_udp p ss s = send_udp_loop (sys ss) p ss s"

definition send_list :: "priority \<Rightarrow> socket_server \<Rightarrow> socket \<Rightarrow> nat
    \<Rightarrow> (socket_ret \<times> socket_server \<times> socket) option" where
  "send_list p ss s l =
     (if protocol s = PROTOCOL_TCP then send_list_tcp p ss s l else send_list_udp p ss s)"

text \<open>Steps 3 and 4 of \<open>send_buffer_locked\<close>, once the high list is empty.\<close>

definition send_buffer_done :: "socket_server \<Rightarrow> socket \<Rightarrow> nat
    \<Rightarrow> (socket_ret \<times> socket_server \<times> socket) option" where
  "send_buffer_done ss s l = do {
     c_assert (send_buffer_empty s \<and> wb_size s = 0);
     if closing s then do {
       (ss, s) \<leftarrow> force_close ss s l;
       Some (SOCKET_NONE, ss, s)
     } else do {
       (err, ss, s) \<leftarrow> Some (enable_write ss s False);
       if err then do {
         (ret, ss) \<leftarrow> Some (report_error ss s (Str ''disable write failed''));
         Some (ret, ss, s)
       } else if warn_size s > 0 then
         Some (SOCKET_WARNING, set_result s NULL ss, s\<lparr>warn_size := 0\<rparr>)
       else Some (SOCKET_NONE, ss, s)
     }
   }"

definition send_buffer_locked :: "socket_server \<Rightarrow> socket \<Rightarrow> nat
    \<Rightarrow> (socket_ret \<times> socket_server \<times> socket) option" where
  "send_buffer_locked ss s l = do {
     unc \<leftarrow> list_uncomplete s (low s);
     c_assert (\<not> unc);
     (ret, ss, s) \<leftarrow> send_list PRIORITY_HIGH ss s l;
     if ret \<noteq> SOCKET_NONE then
       Some (if ret = SOCKET_ERR then (SOCKET_ERR, ss, s) else (SOCKET_NONE, ss, s))
     else if wl_head (high s) \<noteq> None then Some (SOCKET_NONE, ss, s)
     else if wl_head (low s) = None then send_buffer_done ss s l
     else do {
       (ret, ss, s) \<leftarrow> send_list PRIORITY_LOW ss s l;
       if ret \<noteq> SOCKET_NONE then
         Some (if ret = SOCKET_ERR then (SOCKET_ERR, ss, s) else (SOCKET_NONE, ss, s))
       else do {
         unc \<leftarrow> list_uncomplete s (low s);
         if unc then do {
           s \<leftarrow> raise_uncomplete s;
           Some (SOCKET_NONE, ss, s)
         } else if wl_head (low s) \<noteq> None then Some (SOCKET_NONE, ss, s)
         else send_buffer_done ss s l
       }
     }
   }"

text \<open>The buffer of an unfinished direct write goes before the head of the high list.\<close>

definition put_dw_buffer :: "socket_server \<Rightarrow> socket \<Rightarrow> socket_server \<times> socket" where
  "put_dw_buffer ss s = (case dw_buffer s of
       None \<Rightarrow> (ss, s)
     | Some b \<Rightarrow>
         (case send_object_init ss b (dw_size s) of (ptr, sz, user) \<Rightarrow>
            let buf = brk ss;
                ss = ss\<lparr>brk := brk ss + 1\<rparr>;
                n = sz - dw_offset s;
                wb = \<lparr>wb_next = wl_head (high s), wb_buffer = b,
                      wb_ptr = (fst ptr, snd ptr + dw_offset s), wb_sz = n,
                      wb_userobject = user, wb_udp = None\<rparr>;
                h = (if wl_head (high s) = None then \<lparr>wl_head = Some buf, wl_tail = Some buf\<rparr>
                     else (high s)\<lparr>wl_head := Some buf\<rparr>) in
            (ss, s\<lparr>wb_size := wb_size s + int n, high := h,
                   nodes := (nodes s)(buf := Some wb), dw_buffer := None\<rparr>)))"

definition send_buffer :: "socket_server \<Rightarrow> socket \<Rightarrow> nat
    \<Rightarrow> (socket_ret \<times> socket_server \<times> socket) option" where
  "send_buffer ss s l = (case socket_trylock l s of
       (False, l, s) \<Rightarrow> Some (SOCKET_NONE, ss, s)
     | (True, l, s) \<Rightarrow> do {
         (ss, s) \<leftarrow> Some (put_dw_buffer ss s);
         (r, ss, s) \<leftarrow> send_buffer_locked ss s l;
         s \<leftarrow> socket_unlock l s;
         Some (r, ss, s)
       })"

section \<open>Appending to the write lists\<close>

definition append_buffer :: "priority \<Rightarrow> bytes option \<Rightarrow> request_send \<Rightarrow> socket_server \<Rightarrow> socket
    \<Rightarrow> (nat \<times> socket_server \<times> socket) option" where
  "append_buffer p udp req ss s =
     (case send_object_init ss (rs_buffer req) (rs_sz req) of (ptr, sz, user) \<Rightarrow>
        let buf = brk ss;
            ss = ss\<lparr>brk := brk ss + 1\<rparr>;
            s = s\<lparr>nodes := (nodes s)(buf := Some \<lparr>wb_next = None, wb_buffer = rs_buffer req,
                    wb_ptr = ptr, wb_sz = sz, wb_userobject = user, wb_udp = udp\<rparr>)\<rparr>;
            l = wb_list_of p s in
        if wl_head l = None then
          Some (sz, ss, set_wb_list p \<lparr>wl_head = Some buf, wl_tail = Some buf\<rparr> s)
        else do {
          t \<leftarrow> wl_tail l;
          tn \<leftarrow> nodes s t;
          c_assert (wb_next tn = None);
          Some (sz, ss, set_wb_list p (l\<lparr>wl_tail := Some buf\<rparr>)
            (s\<lparr>nodes := (nodes s)(t := Some (tn\<lparr>wb_next := Some buf\<rparr>))\<rparr>))
        })"

definition append_sendbuffer_udp :: "priority \<Rightarrow> request_send \<Rightarrow> bytes \<Rightarrow> socket_server \<Rightarrow> socket
    \<Rightarrow> (socket_server \<times> socket) option" where
  "append_sendbuffer_udp p req udp_address ss s = do {
     (sz, ss, s) \<leftarrow> append_buffer p (Some udp_address) req ss s;
     Some (ss, s\<lparr>wb_size := wb_size s + int sz\<rparr>)
   }"

definition append_sendbuffer :: "request_send \<Rightarrow> socket_server \<Rightarrow> socket
    \<Rightarrow> (socket_server \<times> socket) option" where
  "append_sendbuffer req ss s = do {
     (sz, ss, s) \<leftarrow> append_buffer PRIORITY_HIGH None req ss s;
     Some (ss, s\<lparr>wb_size := wb_size s + int sz\<rparr>)
   }"

definition append_sendbuffer_low :: "request_send \<Rightarrow> socket_server \<Rightarrow> socket
    \<Rightarrow> (socket_server \<times> socket) option" where
  "append_sendbuffer_low req ss s = do {
     (sz, ss, s) \<leftarrow> append_buffer PRIORITY_LOW None req ss s;
     Some (ss, s\<lparr>wb_size := wb_size s + int sz\<rparr>)
   }"

section \<open>Requests of one socket\<close>

definition drop_request :: "request_send \<Rightarrow> socket_server \<Rightarrow> socket
    \<Rightarrow> (socket_ret \<times> socket_server \<times> socket) option" where
  "drop_request req ss s = do {
     ss \<leftarrow> so_free (rs_sz req = USEROBJECT) (rs_buffer req) ss;
     Some (SOCKET_NONE, ss, s)
   }"

text \<open>The end of \<open>send_socket\<close>: the warning that the buffer has grown large.\<close>

definition send_warning :: "socket_server \<Rightarrow> socket
    \<Rightarrow> (socket_ret \<times> socket_server \<times> socket) option" where
  "send_warning ss s =
     (if wb_size s \<ge> WARNING_SIZE \<and> wb_size s \<ge> warn_size s then
        Some (SOCKET_WARNING,
          ss\<lparr>result := \<lparr>m_id = sid s, m_opaque = opaque s,
               m_ud = c_int (if wb_size s mod 1024 = 0 then wb_size s div 1024
                             else wb_size s div 1024 + 1),
               m_data = NULL\<rparr>\<rparr>,
          s\<lparr>warn_size := (if warn_size s = 0 then WARNING_SIZE * 2 else warn_size s * 2)\<rparr>)
      else Some (SOCKET_NONE, ss, s))"

definition send_enable :: "socket_server \<Rightarrow> socket
    \<Rightarrow> (socket_ret \<times> socket_server \<times> socket) option" where
  "send_enable ss s = (case enable_write ss s True of (err, ss, s) \<Rightarrow>
     if err then (case report_error ss s (Str ''enable write failed'') of (r, ss) \<Rightarrow> Some (r, ss, s))
     else send_warning ss s)"

definition send_refused :: "socket \<Rightarrow> u32 \<Rightarrow> bool" where
  "send_refused s i \<longleftrightarrow> stype s = SOCKET_TYPE_INVALID \<or> sid s \<noteq> i
     \<or> stype s = SOCKET_TYPE_HALFCLOSE_WRITE \<or> stype s = SOCKET_TYPE_PACCEPT \<or> closing s
     \<or> stype s = SOCKET_TYPE_PLISTEN \<or> stype s = SOCKET_TYPE_LISTEN"

definition send_socket :: "request_send \<Rightarrow> priority \<Rightarrow> bytes option \<Rightarrow> socket_server \<Rightarrow> socket
    \<Rightarrow> (socket_ret \<times> socket_server \<times> socket) option" where
  "send_socket req p udp_address ss s =
     (if send_refused s (rs_id req) then drop_request req ss s
      else if send_buffer_empty s then
        (if protocol s = PROTOCOL_TCP then do {
           (ss, s) \<leftarrow> append_sendbuffer req ss s;
           send_enable ss s
         } else
           let addr = (case udp_address of None \<Rightarrow> p_udp_address s | Some a \<Rightarrow> a) in
           (case udp_socket_address s addr of
              None \<Rightarrow> drop_request req ss s
            | Some sa \<Rightarrow>
                (case send_object_init ss (rs_buffer req) (rs_sz req) of (ptr, sz, user) \<Rightarrow> do {
                   bs \<leftarrow> read_mem (mem ss) ptr sz;
                   (case next_outcome ss of
                      (Some (Ret n), ss) \<Rightarrow>
                        drop_request req ss ((stat_write ss s (int sz))\<lparr>
                          dgrams := dgrams s @ [(sa, bs)]\<rparr>)
                    | (oc, ss) \<Rightarrow> do {
                        (ss, s) \<leftarrow> append_sendbuffer_udp p req addr ss s;
                        send_enable ss s
                      })
                 })))
      else if protocol s = PROTOCOL_TCP then do {
        (ss, s) \<leftarrow> (if p = PRIORITY_LOW then append_sendbuffer_low req ss s
                   else append_sendbuffer req ss s);
        send_warning ss s
      } else do {
        (ss, s) \<leftarrow> append_sendbuffer_udp p req
                    (case udp_address of None \<Rightarrow> p_udp_address s | Some a \<Rightarrow> a) ss s;
        send_warning ss s
      })"

definition trigger_write :: "u32 \<Rightarrow> socket_server \<Rightarrow> socket
    \<Rightarrow> (socket_ret \<times> socket_server \<times> socket) option" where
  "trigger_write i ss s =
     (if socket_invalid s i then Some (SOCKET_NONE, ss, s)
      else (case enable_write ss s True of (err, ss, s) \<Rightarrow>
        if err then (case report_error ss s (Str ''enable write failed'') of (r, ss) \<Rightarrow> Some (r, ss, s))
        else Some (SOCKET_NONE, ss, s)))"

definition close_socket :: "u32 \<Rightarrow> bool \<Rightarrow> socket_server \<Rightarrow> socket
    \<Rightarrow> (socket_ret \<times> socket_server \<times> socket) option" where
  "close_socket i shutdown ss s =
     (if socket_invalid s i then Some (SOCKET_NONE, ss, s)
      else let shutdown_read = halfclose_read s in
        if shutdown \<or> nomore_sending_data s then do {
          (ss, s) \<leftarrow> force_close ss s 0;
          Some (if shutdown_read then SOCKET_NONE else SOCKET_CLOSE, ss, s)
        } else if \<not> shutdown_read then
          (case close_read ss (s\<lparr>closing := True\<rparr>) of (ss, s) \<Rightarrow> Some (SOCKET_CLOSE, ss, s))
        else Some (SOCKET_NONE, ss, s\<lparr>closing := True\<rparr>))"

definition resume_socket :: "u32 \<Rightarrow> u64 \<Rightarrow> socket_server \<Rightarrow> socket
    \<Rightarrow> (socket_ret \<times> socket_server \<times> socket) option" where
  "resume_socket i opq ss s =
     (let reply = (\<lambda>d. \<lparr>m_id = i, m_opaque = opq, m_ud = 0, m_data = d\<rparr>) in
      if socket_invalid s i then
        Some (SOCKET_ERR, ss\<lparr>result := reply (Str ''invalid socket'')\<rparr>, s)
      else if halfclose_read s then
        Some (SOCKET_ERR, ss\<lparr>result := reply (Str ''socket closed'')\<rparr>, s)
      else (case enable_read ss s True of (err, ss, s) \<Rightarrow>
        if err then Some (SOCKET_ERR, ss\<lparr>result := reply (Str ''enable read failed'')\<rparr>, s)
        else if stype s = SOCKET_TYPE_PACCEPT \<or> stype s = SOCKET_TYPE_PLISTEN then
          Some (SOCKET_OPEN, ss\<lparr>result := reply (Str ''start'')\<rparr>,
            s\<lparr>stype := (if stype s = SOCKET_TYPE_PACCEPT then SOCKET_TYPE_CONNECTED
                       else SOCKET_TYPE_LISTEN), opaque := opq\<rparr>)
        else if stype s = SOCKET_TYPE_CONNECTED then
          Some (SOCKET_OPEN, ss\<lparr>result := reply (Str ''transfer'')\<rparr>, s\<lparr>opaque := opq\<rparr>)
        else Some (SOCKET_NONE, ss\<lparr>result := reply NULL\<rparr>, s)))"

definition pause_socket :: "u32 \<Rightarrow> socket_server \<Rightarrow> socket
    \<Rightarrow> (socket_ret \<times> socket_server \<times> socket) option" where
  "pause_socket i ss s =
     (if socket_invalid s i then Some (SOCKET_NONE, ss, s)
      else (case enable_read ss s False of (err, ss, s) \<Rightarrow>
        if err then (case report_error ss s (Str ''enable read failed'') of (r, ss) \<Rightarrow> Some (r, ss, s))
        else Some (SOCKET_NONE, ss, s)))"

text \<open>\<open>setsockopt\<close> has no effect on the state.\<close>

definition setopt_socket :: "u32 \<Rightarrow> int \<Rightarrow> int \<Rightarrow> socket_server \<Rightarrow> socket
    \<Rightarrow> (socket_ret \<times> socket_server \<times> socket) option" where
  "setopt_socket i what val ss s =
     (if socket_invalid s i then Some (SOCKET_NONE, ss, s)
      else (case next_outcome ss of (oc, ss) \<Rightarrow> Some (SOCKET_NONE, ss, s)))"

definition set_udp_address :: "u32 \<Rightarrow> bytes \<Rightarrow> socket_server \<Rightarrow> socket
    \<Rightarrow> (socket_ret \<times> socket_server \<times> socket) option" where
  "set_udp_address i address ss s =
     (if socket_invalid s i then Some (SOCKET_NONE, ss, s)
      else if hd address \<noteq> protocol s then
        (case report_error ss s (Str ''protocol mismatch'') of (r, ss) \<Rightarrow> Some (r, ss, s))
      else let n = (if hd address = PROTOCOL_UDP then 1 + 2 + 4 else 1 + 2 + 16) in
        Some (SOCKET_NONE, ss, s\<lparr>p_udp_address := take n address @ drop n (p_udp_address s),
                                  udpconnecting := udpconnecting s - 1\<rparr>))"

text \<open>
  The count of requests in the pipe that carry data of this socket, with 16 bits of its id in
  front. \<open>inc_sending_ref\<close> busy-waits while the count is at its maximum.
\<close>

definition inc_sending_ref :: "socket \<Rightarrow> u32 \<Rightarrow> socket option" where
  "inc_sending_ref s i =
     (if protocol s \<noteq> PROTOCOL_TCP then Some s
      else if drop_bit 16 (sending s) = ID_TAG16 i then
        (if sending s AND 0xffff = 0xffff then None else Some (s\<lparr>sending := sending s + 1\<rparr>))
      else Some s)"

definition dec_sending_ref :: "u32 \<Rightarrow> socket \<Rightarrow> socket option" where
  "dec_sending_ref i s =
     (if sid s = i \<and> protocol s = PROTOCOL_TCP then do {
        c_assert (sending s AND 0xffff \<noteq> 0);
        Some (s\<lparr>sending := sending s - 1\<rparr>)
      } else Some s)"

section \<open>Readiness events of one socket\<close>

definition forward_message_tcp :: "socket_server \<Rightarrow> socket
    \<Rightarrow> (socket_ret \<times> socket_server \<times> socket) option" where
  "forward_message_tcp ss s =
     (let sz = p_size s in
      case next_outcome ss of (oc, ss) \<Rightarrow>
        (case oc of
           Some (Got bs) \<Rightarrow>
             let bs = take (nat sz) bs; n = int (length bs) in
             if n = 0 then
               (if closing s then
                  (if nomore_sending_data s then do {
                     (ss, s) \<leftarrow> force_close ss s 0;
                     Some (SOCKET_NONE, ss, s)
                   } else Some (SOCKET_NONE, ss, s))
                else if stype s = SOCKET_TYPE_HALFCLOSE_READ then Some (SOCKET_NONE, ss, s)
                else if stype s = SOCKET_TYPE_HALFCLOSE_WRITE then do {
                  (ss, s) \<leftarrow> force_close ss s 0;
                  Some (SOCKET_CLOSE, ss, s)
                } else (case close_read ss s of (ss, s) \<Rightarrow> Some (SOCKET_CLOSE, ss, s)))
             else if halfclose_read s then Some (SOCKET_NONE, ss, s)
             else
               let s = stat_read ss s n;
                   ss = ss\<lparr>result := \<lparr>m_id = sid s, m_opaque = opaque s, m_ud = n,
                                     m_data = Bytes bs\<rparr>\<rparr> in
               if n = sz then Some (SOCKET_MORE, ss, s\<lparr>p_size := c_int (p_size s * 2)\<rparr>)
               else if sz > MIN_READ_BUFFER \<and> n * 2 < sz then
                 Some (SOCKET_DATA, ss, s\<lparr>p_size := p_size s div 2\<rparr>)
               else Some (SOCKET_DATA, ss, s)
         | oc \<Rightarrow>
             if outcome_errno oc = EINTR \<or> outcome_errno oc = EAGAIN then Some (SOCKET_NONE, ss, s)
             else (case report_error ss s (Strerror (outcome_errno oc)) of
                     (r, ss) \<Rightarrow> Some (r, ss, s))))"

text \<open>The address bytes appended to a datagram, and read back from a request.\<close>

definition gen_udp_address :: "u8 \<Rightarrow> sockaddr \<Rightarrow> bytes" where
  "gen_udp_address prot sa =
     (if prot = PROTOCOL_UDP then PROTOCOL_UDP # take 2 (sa_port sa) @ take 4 (sa_addr sa)
      else prot # take 2 (sa_port sa) @ take 16 (sa_addr sa))"

definition forward_message_udp :: "socket_server \<Rightarrow> socket
    \<Rightarrow> (socket_ret \<times> socket_server \<times> socket) option" where
  "forward_message_udp ss s =
     (case next_outcome ss of (oc, ss) \<Rightarrow>
        (case oc of
           Some (From sa bs) \<Rightarrow>
             let bs = take MAX_UDP_PACKAGE bs; n = int (length bs); s = stat_read ss s n;
                 prot = (if sa_protocol sa = PROTOCOL_UDP then PROTOCOL_UDP else PROTOCOL_UDPv6) in
             if protocol s \<noteq> prot then Some (SOCKET_NONE, ss, s)
             else Some (SOCKET_UDP,
               ss\<lparr>result := \<lparr>m_id = sid s, m_opaque = opaque s, m_ud = n,
                            m_data = Bytes (bs @ gen_udp_address prot sa)\<rparr>\<rparr>, s)
         | oc \<Rightarrow>
             if outcome_errno oc = EINTR \<or> outcome_errno oc = EAGAIN then Some (SOCKET_NONE, ss, s)
             else do {
               (ss, s) \<leftarrow> force_close ss s 0;
               Some (SOCKET_ERR,
                 ss\<lparr>result := (result ss)\<lparr>m_data := Strerror (outcome_errno oc)\<rparr>\<rparr>, s)
             }))"

text \<open>
  \<open>getsockopt(SO_ERROR)\<close>: the error it reports, a failure of the call counting as its errno, or
  None for no error. A name that \<open>getpeername\<close> and \<open>inet_ntop\<close> yield is a text.
\<close>

definition so_error :: "outcome option \<Rightarrow> errno option" where
  "so_error oc = (case oc of Some (Err e) \<Rightarrow> Some e | _ \<Rightarrow> None)"

definition peer_name :: "outcome option \<Rightarrow> message_data" where
  "peer_name oc = (case oc of Some (Text t) \<Rightarrow> Str t | _ \<Rightarrow> NULL)"

definition report_connect :: "socket_server \<Rightarrow> socket
    \<Rightarrow> (socket_ret \<times> socket_server \<times> socket) option" where
  "report_connect ss s =
     (case next_outcome ss of (oc, ss) \<Rightarrow>
        (case so_error oc of
           Some e \<Rightarrow> do {
             (ss, s) \<leftarrow> force_close ss s 0;
             Some (SOCKET_ERR, ss\<lparr>result := (result ss)\<lparr>m_data := Strerror e\<rparr>\<rparr>, s)
           }
         | None \<Rightarrow> do {
             s \<leftarrow> Some (s\<lparr>stype := SOCKET_TYPE_CONNECTED\<rparr>);
             ss \<leftarrow> Some (ss\<lparr>result := (result ss)\<lparr>m_opaque := opaque s, m_id := sid s, m_ud := 0\<rparr>\<rparr>);
             (err, ss, s) \<leftarrow> Some (if nomore_sending_data s then enable_write ss s False
                                 else (False, ss, s));
             if err then do {
               (ss, s) \<leftarrow> force_close ss s 0;
               Some (SOCKET_ERR,
                 ss\<lparr>result := (result ss)\<lparr>m_data := Str ''disable write failed''\<rparr>\<rparr>, s)
             } else (case next_outcome ss of (oc, ss) \<Rightarrow>
               Some (SOCKET_OPEN, ss\<lparr>result := (result ss)\<lparr>m_data := peer_name oc\<rparr>\<rparr>, s))
           }))"

text \<open>The branch of \<open>socket_server_poll\<close> for an error flag.\<close>

definition report_event_error :: "socket_server \<Rightarrow> socket
    \<Rightarrow> (socket_ret \<times> socket_server \<times> socket) option" where
  "report_event_error ss s =
     (case next_outcome ss of (oc, ss) \<Rightarrow>
      (case report_error ss s (case so_error oc of None \<Rightarrow> Str ''Unknown error''
                               | Some e \<Rightarrow> Strerror e) of (r, ss) \<Rightarrow> Some (r, ss, s)))"

end
