(* ===== verification/SocketServer.thy ===== *)
theory SocketServer
  imports Socket
begin

text \<open>
  skynet-src/socket_server.c, the server: reserving a socket id, the requests other threads write
  to the control pipe, the sends that write directly, the dispatch of a request and of a readiness
  event by the socket thread, and the runs of all of them together.

  The array \<open>slot\<close> of MAX_SOCKET sockets is a function of the index. A request is written to
  the pipe and read from it whole, so the pipe is a list of requests. An atomic operation of the
  code is one step on the state; \<open>socket_server_send\<close> is two steps where it writes directly, so
  that the socket thread can run between its test under the lock and its unlock.
\<close>

section \<open>State\<close>

record server =
  core :: socket_server
  slot :: "nat \<Rightarrow> socket"

definition put_socket :: "nat \<Rightarrow> socket_server \<Rightarrow> socket \<Rightarrow> server \<Rightarrow> server" where
  "put_socket i ss s sv = sv\<lparr>core := ss, slot := (slot sv)(i := s)\<rparr>"

text \<open>An operation on the socket of an id.\<close>

definition on_socket ::
    "u32 \<Rightarrow> (socket_server \<Rightarrow> socket \<Rightarrow> (socket_ret \<times> socket_server \<times> socket) option)
     \<Rightarrow> server \<Rightarrow> (socket_ret \<times> server) option" where
  "on_socket i f sv = do {
     (r, ss, s) \<leftarrow> f (core sv) (slot sv (HASH_ID i));
     Some (r, put_socket (HASH_ID i) ss s sv)
   }"

definition socket_stat_zero :: socket_stat where
  "socket_stat_zero = \<lparr>st_rtime = 0, st_wtime = 0, st_read = 0, st_write = 0\<rparr>"

text \<open>A slot after \<open>socket_server_create\<close>; the fields malloc leaves undefined are zero here.\<close>

definition empty_socket :: socket where
  "empty_socket = \<lparr>opaque = 0, high = clear_wb_list, low = clear_wb_list, wb_size = 0,
     stat = socket_stat_zero, sending = 0, fd = 0, sid = 0, stype = SOCKET_TYPE_INVALID,
     protocol = 0, reading = False, writing = False, closing = False, udpconnecting = 0,
     warn_size = 0, p_size = 0, p_udp_address = replicate UDP_ADDRESS_SIZE 0, dw_lock = False,
     dw_offset = 0, dw_buffer = None, dw_size = 0, nodes = (\<lambda>a. None), direct = None, out = [],
     dgrams = []\<rparr>"

definition socket_server_create ::
    "u64 \<Rightarrow> socket_object_interface \<Rightarrow> (nat \<Rightarrow> bytes option) \<Rightarrow> nat \<Rightarrow> server" where
  "socket_server_create time si m b =
     \<lparr>core = \<lparr>stime = time, checkctrl = True, alloc_id = 0, event_index = 0, ev = [],
        soi = si, mem = m, brk = b, sys = [], pipe = [],
        result = \<lparr>m_id = 0, m_opaque = 0, m_ud = 0, m_data = NULL\<rparr>, closed = []\<rparr>,
      slot = (\<lambda>i. empty_socket)\<rparr>"

definition socket_server_updatetime :: "u64 \<Rightarrow> server \<Rightarrow> server" where
  "socket_server_updatetime time sv = sv\<lparr>core := (core sv)\<lparr>stime := time\<rparr>\<rparr>"

definition socket_server_userobject :: "socket_object_interface \<Rightarrow> server \<Rightarrow> server" where
  "socket_server_userobject si sv = sv\<lparr>core := (core sv)\<lparr>soi := si\<rparr>\<rparr>"

section \<open>Socket ids\<close>

text \<open>The id that one pass of the loop of \<open>reserve_id\<close> tries, and the counter after it.\<close>

definition next_id :: "u32 \<Rightarrow> u32 \<times> u32" where
  "next_id alloc =
     (if sint (alloc + 1) < 0 then ((alloc + 1) AND 0x7fffffff, (alloc + 1) AND 0x7fffffff)
      else (alloc + 1, alloc + 1))"

fun reserve_loop :: "nat \<Rightarrow> server \<Rightarrow> u32 option \<times> server" where
  "reserve_loop 0 sv = (None, sv)"
| "reserve_loop (Suc k) sv =
     (case next_id (alloc_id (core sv)) of (i, alloc) \<Rightarrow>
        let sv = sv\<lparr>core := (core sv)\<lparr>alloc_id := alloc\<rparr>\<rparr>; s = slot sv (HASH_ID i) in
        if stype s = SOCKET_TYPE_INVALID then
          (Some i, sv\<lparr>slot := (slot sv)(HASH_ID i := s\<lparr>fd := - 1, sid := i,
             stype := SOCKET_TYPE_RESERVE, protocol := PROTOCOL_UNKNOWN,
             udpconnecting := 0\<rparr>)\<rparr>)
        else reserve_loop k sv)"

definition reserve_id :: "server \<Rightarrow> u32 option \<times> server" where
  "reserve_id sv = reserve_loop MAX_SOCKET sv"

section \<open>Opening sockets\<close>

text \<open>
  \<open>new_fd\<close> on the slot of the id: false where the code returns NULL. \<open>out\<close> and \<open>dgrams\<close> start
  with the descriptor.
\<close>

definition new_fd :: "u32 \<Rightarrow> int \<Rightarrow> u8 \<Rightarrow> u64 \<Rightarrow> bool \<Rightarrow> socket_server \<Rightarrow> socket
    \<Rightarrow> (bool \<times> socket_server \<times> socket) option" where
  "new_fd i f prot opq rd ss s = do {
     c_assert (stype s = SOCKET_TYPE_RESERVE);
     (err, ss) \<leftarrow> Some (sp_result ss);
     if err then Some (False, ss, s\<lparr>stype := SOCKET_TYPE_INVALID\<rparr>)
     else do {
       s \<leftarrow> Some (s\<lparr>opaque := opq, wb_size := 0, sending := push_bit 16 (ID_TAG16 i) OR 0,
              fd := f, sid := i, protocol := prot, reading := True, writing := False,
              closing := False, warn_size := 0, p_size := MIN_READ_BUFFER,
              out := [], dgrams := []\<rparr>);
       check_wb_list (high s);
       check_wb_list (low s);
       s \<leftarrow> Some (s\<lparr>stat := socket_stat_zero, dw_buffer := None, dw_size := 0\<rparr>);
       (err, ss, s) \<leftarrow> Some (enable_read ss s rd);
       if err then Some (False, ss, s\<lparr>stype := SOCKET_TYPE_INVALID\<rparr>) else Some (True, ss, s)
     }
   }"

text \<open>
  The loop of \<open>open_socket\<close> over the addresses \<open>getaddrinfo\<close> found: the descriptor, or None
  where \<open>sock\<close> is negative after it, whether the connection is complete, and the last errno.
\<close>

fun connect_loop :: "nat \<Rightarrow> bool \<times> errno \<Rightarrow> socket_server
    \<Rightarrow> int option \<times> bool \<times> errno \<times> socket_server" where
  "connect_loop 0 st ss = (None, fst st, snd st, ss)"
| "connect_loop (Suc k) st ss =
     (case next_outcome ss of
        (Some (Ret f), ss) \<Rightarrow>
          if f < 0 then connect_loop k st ss
          else (case next_outcome ss of
             (Some (Err EINPROGRESS), ss) \<Rightarrow> (Some f, False, EINPROGRESS, ss)
           | (Some (Err e), ss) \<Rightarrow> connect_loop k (False, e) (close_fd f ss)
           | (oc, ss) \<Rightarrow> (Some f, True, snd st, ss))
      | (oc, ss) \<Rightarrow> connect_loop k (fst st, outcome_errno oc) ss)"

definition open_socket :: "u32 \<Rightarrow> u64 \<Rightarrow> socket_server \<Rightarrow> socket
    \<Rightarrow> (socket_ret \<times> socket_server \<times> socket) option" where
  "open_socket i opq ss s =
     (let reply = (\<lambda>d. \<lparr>m_id = i, m_opaque = opq, m_ud = 0, m_data = d\<rparr>);
          failed = (\<lambda>d ss s. Some (SOCKET_ERR, ss\<lparr>result := reply d\<rparr>,
                                   s\<lparr>stype := SOCKET_TYPE_INVALID\<rparr>)) in
      case next_outcome ss of
        (Some (Ret n), ss) \<Rightarrow>
          (case connect_loop (nat n) (True, OTHER 0) ss of
             (None, status, e, ss) \<Rightarrow> failed (Strerror e) ss s
           | (Some f, status, e, ss) \<Rightarrow> do {
               (ok, ss, s) \<leftarrow> new_fd i f PROTOCOL_TCP opq True ss s;
               if \<not> ok then failed (Str ''reach skynet socket number limit'') (close_fd f ss) s
               else if status then
                 (case next_outcome ss of (oc, ss) \<Rightarrow>
                    Some (SOCKET_OPEN, ss\<lparr>result := reply (peer_name oc)\<rparr>,
                          s\<lparr>stype := SOCKET_TYPE_CONNECTED\<rparr>))
               else (case enable_write ss s True of (err, ss, s) \<Rightarrow>
                 if err then failed (Str ''enable write failed'') (close_fd f ss) s
                 else Some (SOCKET_NONE, ss\<lparr>result := reply NULL\<rparr>,
                            s\<lparr>stype := SOCKET_TYPE_CONNECTING\<rparr>))
             })
      | (oc, ss) \<Rightarrow> failed (Strerror (outcome_errno oc)) ss s)"

definition listen_socket :: "u32 \<Rightarrow> int \<Rightarrow> u64 \<Rightarrow> socket_server \<Rightarrow> socket
    \<Rightarrow> (socket_ret \<times> socket_server \<times> socket) option" where
  "listen_socket i f opq ss s = do {
     (ok, ss, s) \<leftarrow> new_fd i f PROTOCOL_TCP opq False ss s;
     if ok then Some (SOCKET_NONE, ss, s\<lparr>stype := SOCKET_TYPE_PLISTEN\<rparr>)
     else Some (SOCKET_ERR,
       (close_fd f ss)\<lparr>result := \<lparr>m_id = i, m_opaque = opq, m_ud = 0,
          m_data = Str ''reach skynet socket number limit''\<rparr>\<rparr>,
       s\<lparr>stype := SOCKET_TYPE_INVALID\<rparr>)
   }"

definition bind_socket :: "u32 \<Rightarrow> int \<Rightarrow> u64 \<Rightarrow> socket_server \<Rightarrow> socket
    \<Rightarrow> (socket_ret \<times> socket_server \<times> socket) option" where
  "bind_socket i f opq ss s =
     (let reply = (\<lambda>d. \<lparr>m_id = i, m_opaque = opq, m_ud = 0, m_data = d\<rparr>) in do {
        (ok, ss, s) \<leftarrow> new_fd i f PROTOCOL_TCP opq True ss s;
        if ok then Some (SOCKET_OPEN, ss\<lparr>result := reply (Str ''binding'')\<rparr>,
                         s\<lparr>stype := SOCKET_TYPE_BIND\<rparr>)
        else Some (SOCKET_ERR,
               ss\<lparr>result := reply (Str ''reach skynet socket number limit'')\<rparr>, s)
      })"

definition add_udp_socket :: "u32 \<Rightarrow> int \<Rightarrow> bool \<Rightarrow> u64 \<Rightarrow> socket_server \<Rightarrow> socket
    \<Rightarrow> (socket_ret \<times> socket_server \<times> socket) option" where
  "add_udp_socket i f inet6 opq ss s = do {
     (ok, ss, s) \<leftarrow> new_fd i f (if inet6 then PROTOCOL_UDPv6 else PROTOCOL_UDP) opq True ss s;
     if ok then Some (SOCKET_NONE, ss, s\<lparr>stype := SOCKET_TYPE_CONNECTED,
                        p_udp_address := replicate UDP_ADDRESS_SIZE 0\<rparr>)
     else Some (SOCKET_NONE, close_fd f ss, s\<lparr>stype := SOCKET_TYPE_INVALID\<rparr>)
   }"

section \<open>The control pipe\<close>

definition send_request :: "request \<Rightarrow> server \<Rightarrow> server" where
  "send_request req sv = sv\<lparr>core := (core sv)\<lparr>pipe := pipe (core sv) @ [req]\<rparr>\<rparr>"

definition dispatch_request :: "request \<Rightarrow> server \<Rightarrow> (socket_ret \<times> server) option" where
  "dispatch_request req sv = (case req of
       Resume i opq \<Rightarrow> on_socket i (resume_socket i opq) sv
     | Pause i \<Rightarrow> on_socket i (pause_socket i) sv
     | Bind i f opq \<Rightarrow> on_socket i (bind_socket i f opq) sv
     | Listen i f opq \<Rightarrow> on_socket i (listen_socket i f opq) sv
     | Close i shutdown opq \<Rightarrow> on_socket i (close_socket i shutdown) sv
     | Open i opq host port \<Rightarrow> on_socket i (open_socket i opq) sv
     | Exit \<Rightarrow> Some (SOCKET_EXIT,
         sv\<lparr>core := (core sv)\<lparr>result := \<lparr>m_id = 0, m_opaque = 0, m_ud = 0, m_data = NULL\<rparr>\<rparr>\<rparr>)
     | Trigger i \<Rightarrow> on_socket i (trigger_write i) sv
     | SendHigh rs \<Rightarrow> on_socket (rs_id rs) (\<lambda>ss s. do {
         (r, ss, s) \<leftarrow> send_socket rs PRIORITY_HIGH None ss s;
         s \<leftarrow> dec_sending_ref (rs_id rs) s;
         Some (r, ss, s) }) sv
     | SendLow rs \<Rightarrow> on_socket (rs_id rs) (\<lambda>ss s. do {
         (r, ss, s) \<leftarrow> send_socket rs PRIORITY_LOW None ss s;
         s \<leftarrow> dec_sending_ref (rs_id rs) s;
         Some (r, ss, s) }) sv
     | SendUdp rs address \<Rightarrow> on_socket (rs_id rs) (send_socket rs PRIORITY_HIGH (Some address)) sv
     | SetUdp i address \<Rightarrow> on_socket i (set_udp_address i address) sv
     | SetOpt i what val \<Rightarrow> on_socket i (setopt_socket i what val) sv
     | Udp i f inet6 opq \<Rightarrow> on_socket i (add_udp_socket i f inet6 opq) sv)"

definition ctrl_cmd :: "server \<Rightarrow> (socket_ret \<times> server) option" where
  "ctrl_cmd sv = (case pipe (core sv) of
       [] \<Rightarrow> None
     | req # reqs \<Rightarrow> dispatch_request req (sv\<lparr>core := (core sv)\<lparr>pipe := reqs\<rparr>\<rparr>))"

text \<open>The requests of other threads.\<close>

definition socket_server_connect ::
    "u64 \<Rightarrow> string \<Rightarrow> int \<Rightarrow> server \<Rightarrow> u32 option \<times> server" where
  "socket_server_connect opq addr port sv =
     (if length addr + 24 \<ge> 256 then (None, sv)
      else (case reserve_id sv of
        (None, sv) \<Rightarrow> (None, sv)
      | (Some i, sv) \<Rightarrow> (Some i, send_request (Open i opq addr port) sv)))"

definition socket_server_listen :: "u64 \<Rightarrow> int \<Rightarrow> server \<Rightarrow> u32 option \<times> server" where
  "socket_server_listen opq f sv =
     (if f < 0 then (None, sv)
      else (case reserve_id sv of
        (None, sv) \<Rightarrow> (None, sv\<lparr>core := close_fd f (core sv)\<rparr>)
      | (Some i, sv) \<Rightarrow> (Some i, send_request (Listen i f opq) sv)))"

definition socket_server_bind :: "u64 \<Rightarrow> int \<Rightarrow> server \<Rightarrow> u32 option \<times> server" where
  "socket_server_bind opq f sv = (case reserve_id sv of
       (None, sv) \<Rightarrow> (None, sv)
     | (Some i, sv) \<Rightarrow> (Some i, send_request (Bind i f opq) sv))"

definition socket_server_udp :: "u64 \<Rightarrow> int \<Rightarrow> bool \<Rightarrow> server \<Rightarrow> u32 option \<times> server" where
  "socket_server_udp opq f inet6 sv =
     (if f < 0 then (None, sv)
      else (case reserve_id sv of
        (None, sv) \<Rightarrow> (None, sv\<lparr>core := close_fd f (core sv)\<rparr>)
      | (Some i, sv) \<Rightarrow> (Some i, send_request (Udp i f inet6 opq) sv)))"

definition socket_server_exit :: "server \<Rightarrow> server" where
  "socket_server_exit = send_request Exit"
definition socket_server_close :: "u64 \<Rightarrow> u32 \<Rightarrow> server \<Rightarrow> server" where
  "socket_server_close opq i = send_request (Close i False opq)"
definition socket_server_shutdown :: "u64 \<Rightarrow> u32 \<Rightarrow> server \<Rightarrow> server" where
  "socket_server_shutdown opq i = send_request (Close i True opq)"
definition socket_server_start :: "u64 \<Rightarrow> u32 \<Rightarrow> server \<Rightarrow> server" where
  "socket_server_start opq i = send_request (Resume i opq)"
definition socket_server_pause :: "u64 \<Rightarrow> u32 \<Rightarrow> server \<Rightarrow> server" where
  "socket_server_pause opq i = send_request (Pause i)"
definition TCP_NODELAY :: int where "TCP_NODELAY = 1"
definition socket_server_nodelay :: "u32 \<Rightarrow> server \<Rightarrow> server" where
  "socket_server_nodelay i = send_request (SetOpt i TCP_NODELAY 1)"

section \<open>Sending from another thread\<close>

definition can_direct_write :: "socket \<Rightarrow> u32 \<Rightarrow> bool" where
  "can_direct_write s i \<longleftrightarrow> sid s = i \<and> nomore_sending_data s
     \<and> stype s = SOCKET_TYPE_CONNECTED \<and> udpconnecting s = 0"

text \<open>
  The direct write of \<open>socket_server_send\<close>, from taking the lock and the second test under it to
  just before the write.
\<close>

definition direct_begin :: "socket_sendbuffer \<Rightarrow> server \<Rightarrow> server option" where
  "direct_begin buf sv =
     (let i = HASH_ID (sb_id buf); s = slot sv i in
      if \<not> socket_invalid s (sb_id buf) \<and> \<not> closing s \<and> can_direct_write s (sb_id buf)
         \<and> \<not> dw_lock s
      then Some (put_socket i (core sv) (s\<lparr>dw_lock := True, direct := Some buf\<rparr>) sv) else None)"

text \<open>The rest of the direct write, for the buffer that is being written.\<close>

definition direct_unlock :: "socket \<Rightarrow> socket" where
  "direct_unlock s = s\<lparr>dw_lock := False, direct := None\<rparr>"

definition direct_written :: "socket_sendbuffer \<Rightarrow> nat \<Rightarrow> nat \<Rightarrow> socket_server \<Rightarrow> socket
    \<Rightarrow> (int \<times> request list \<times> socket_server \<times> socket) option" where
  "direct_written buf n sz ss s = do {
     s \<leftarrow> Some (stat_write ss s (int n));
     if n = sz then do {
       ss \<leftarrow> sendbuffer_free ss buf;
       Some (0, [], ss, direct_unlock s)
     } else do {
       (b, dsz, ss) \<leftarrow> clone_buffer ss buf;
       Some (0, [Trigger (sb_id buf)], ss,
             direct_unlock (s\<lparr>dw_buffer := Some b, dw_size := dsz, dw_offset := n\<rparr>))
     }
   }"

definition direct_write :: "socket_sendbuffer \<Rightarrow> socket_server \<Rightarrow> socket
    \<Rightarrow> (int \<times> request list \<times> socket_server \<times> socket) option" where
  "direct_write buf ss s =
     (case send_object_init_from_sendbuffer ss buf of (ptr, sz) \<Rightarrow> do {
        bs \<leftarrow> read_mem (mem ss) ptr sz;
        if protocol s = PROTOCOL_TCP then
          (case next_outcome ss of
             (Some (Ret n), ss) \<Rightarrow>
               let n = min (nat n) sz in
               direct_written buf n sz ss (s\<lparr>out := out s @ take n bs\<rparr>)
           | (oc, ss) \<Rightarrow> direct_written buf 0 sz ss s)
        else
          (case udp_socket_address s (p_udp_address s) of
             None \<Rightarrow> do {
               ss \<leftarrow> sendbuffer_free ss buf;
               Some (- 1, [], ss, direct_unlock s)
             }
           | Some sa \<Rightarrow> (case next_outcome ss of
               (Some (Ret n), ss) \<Rightarrow>
                 direct_written buf sz sz ss (s\<lparr>dgrams := dgrams s @ [(sa, bs)]\<rparr>)
             | (oc, ss) \<Rightarrow> direct_written buf 0 sz ss s))
      })"

definition direct_finish :: "u32 \<Rightarrow> server \<Rightarrow> (int \<times> server) option" where
  "direct_finish i sv = do {
     buf \<leftarrow> direct (slot sv (HASH_ID i));
     (r, reqs, ss, s) \<leftarrow> direct_write buf (core sv) (slot sv (HASH_ID i));
     Some (r, fold send_request reqs (put_socket (HASH_ID i) ss s sv))
   }"

text \<open>The path through the control pipe, for both priorities.\<close>

definition send_by_pipe :: "priority \<Rightarrow> socket_sendbuffer \<Rightarrow> server \<Rightarrow> (int \<times> server) option" where
  "send_by_pipe p buf sv =
     (let i = HASH_ID (sb_id buf) in do {
        s \<leftarrow> inc_sending_ref (slot sv i) (sb_id buf);
        (b, sz, ss) \<leftarrow> clone_buffer (core sv) buf;
        rs \<leftarrow> Some \<lparr>rs_id = sb_id buf, rs_sz = sz, rs_buffer = b\<rparr>;
        Some (0, send_request (case p of PRIORITY_HIGH \<Rightarrow> SendHigh rs | PRIORITY_LOW \<Rightarrow> SendLow rs)
                  (put_socket i ss s sv))
      })"

definition refuse_send :: "socket_sendbuffer \<Rightarrow> server \<Rightarrow> (int \<times> server) option" where
  "refuse_send buf sv = do {
     ss \<leftarrow> free_buffer (core sv) buf;
     Some (- 1, sv\<lparr>core := ss\<rparr>)
   }"

definition socket_server_send :: "socket_sendbuffer \<Rightarrow> server \<Rightarrow> (int \<times> server) option" where
  "socket_server_send buf sv =
     (let s = slot sv (HASH_ID (sb_id buf)) in
      if socket_invalid s (sb_id buf) \<or> closing s then refuse_send buf sv
      else (case direct_begin buf sv of
          Some sv \<Rightarrow> direct_finish (sb_id buf) sv
        | None \<Rightarrow> send_by_pipe PRIORITY_HIGH buf sv))"

definition socket_server_send_lowpriority ::
    "socket_sendbuffer \<Rightarrow> server \<Rightarrow> (int \<times> server) option" where
  "socket_server_send_lowpriority buf sv =
     (if socket_invalid (slot sv (HASH_ID (sb_id buf))) (sb_id buf) then refuse_send buf sv
      else send_by_pipe PRIORITY_LOW buf sv)"

text \<open>The length of an address by its first byte.\<close>

definition udp_address_length :: "bytes \<Rightarrow> nat option" where
  "udp_address_length addr =
     (if hd addr = PROTOCOL_UDP then Some (1 + 2 + 4)
      else if hd addr = PROTOCOL_UDPv6 then Some (1 + 2 + 16) else None)"

definition request_udp :: "socket_sendbuffer \<Rightarrow> bytes \<Rightarrow> nat \<Rightarrow> server \<Rightarrow> (int \<times> server) option" where
  "request_udp buf addr addrsz sv = do {
     (b, sz, ss) \<leftarrow> clone_buffer (core sv) buf;
     Some (0, send_request (SendUdp \<lparr>rs_id = sb_id buf, rs_sz = sz, rs_buffer = b\<rparr>
               (take addrsz addr @ replicate (UDP_ADDRESS_SIZE - addrsz) 0)) (sv\<lparr>core := ss\<rparr>))
   }"

definition socket_server_udp_send ::
    "bytes \<Rightarrow> socket_sendbuffer \<Rightarrow> server \<Rightarrow> (int \<times> server) option" where
  "socket_server_udp_send addr buf sv =
     (let i = HASH_ID (sb_id buf); s = slot sv i in
      if socket_invalid s (sb_id buf) then refuse_send buf sv
      else (case udp_address_length addr of
          None \<Rightarrow> refuse_send buf sv
        | Some addrsz \<Rightarrow>
            if can_direct_write s (sb_id buf) \<and> \<not> dw_lock s then
              (case udp_socket_address s addr of
                 None \<Rightarrow> do {
                   ss \<leftarrow> sendbuffer_free (core sv) buf;
                   Some (- 1, sv\<lparr>core := ss\<rparr>)
                 }
               | Some sa \<Rightarrow>
                   (case send_object_init_from_sendbuffer (core sv) buf of (ptr, sz) \<Rightarrow> do {
                      bs \<leftarrow> read_mem (mem (core sv)) ptr sz;
                      (case next_outcome (core sv) of
                         (Some (Ret n), ss) \<Rightarrow> do {
                           s \<leftarrow> Some (stat_write ss (s\<lparr>dgrams := dgrams s @ [(sa, bs)]\<rparr>) (int sz));
                           ss \<leftarrow> sendbuffer_free ss buf;
                           Some (0, put_socket i ss s sv)
                         }
                       | (oc, ss) \<Rightarrow> request_udp buf addr addrsz (sv\<lparr>core := ss\<rparr>))
                    }))
            else request_udp buf addr addrsz sv))"

text \<open>
  \<open>socket_server_udp_connect\<close>: \<open>found\<close> is what \<open>getaddrinfo\<close> yields, None for a failure.
\<close>

definition socket_server_udp_connect ::
    "u32 \<Rightarrow> sockaddr option \<Rightarrow> server \<Rightarrow> (int \<times> server) option" where
  "socket_server_udp_connect i found sv =
     (let s = slot sv (HASH_ID i) in
      if socket_invalid s i then Some (- 1, sv)
      else do {
        (l, s) \<leftarrow> socket_lock 0 s;
        s \<leftarrow> Some (s\<lparr>udpconnecting := udpconnecting s + 1\<rparr>);
        s \<leftarrow> socket_unlock l s;
        sv \<leftarrow> Some (put_socket (HASH_ID i) (core sv) s sv);
        (case found of
           None \<Rightarrow> Some (- 1, sv)
         | Some sa \<Rightarrow>
             if sa_protocol sa = PROTOCOL_UDP \<or> sa_protocol sa = PROTOCOL_UDPv6 then
               let a = gen_udp_address (sa_protocol sa) sa in
               Some (0, send_request
                 (SetUdp i (a @ replicate (UDP_ADDRESS_SIZE - length a) 0)) sv)
             else Some (- 1, sv))
      })"

text \<open>The address of a received datagram, from the end of its data.\<close>

definition socket_server_udp_address :: "bytes \<Rightarrow> nat \<Rightarrow> (bytes \<times> nat) option" where
  "socket_server_udp_address data ud =
     (case udp_address_length (drop ud data) of
        None \<Rightarrow> None
      | Some n \<Rightarrow> Some (drop ud data, n))"

section \<open>The socket thread\<close>

text \<open>
  \<open>report_accept\<close>: 1, 0 or -1. The new socket is another slot, since the listening one is in use.
\<close>

definition report_accept :: "nat \<Rightarrow> server \<Rightarrow> (int \<times> server) option" where
  "report_accept l sv =
     (case next_outcome (core sv) of
        (Some (Ret f), ss) \<Rightarrow>
          (if f < 0 then Some (0, sv\<lparr>core := ss\<rparr>)
           else (case reserve_id (sv\<lparr>core := ss\<rparr>) of
               (None, sv) \<Rightarrow> Some (0, sv\<lparr>core := close_fd f (core sv)\<rparr>)
             | (Some i, sv) \<Rightarrow> do {
                 (ok, ss, ns) \<leftarrow> new_fd i f PROTOCOL_TCP (opaque (slot sv l)) False (core sv)
                                  (slot sv (HASH_ID i));
                 sv \<leftarrow> Some (put_socket (HASH_ID i) ss ns sv);
                 if \<not> ok then Some (0, sv\<lparr>core := close_fd f (core sv)\<rparr>)
                 else (case next_outcome (core sv) of (oc, ss) \<Rightarrow>
                   let s = stat_read ss (slot sv l) 1;
                       sv = put_socket l
                         (ss\<lparr>result := \<lparr>m_id = sid s, m_opaque = opaque s, m_ud = sint i,
                                       m_data = peer_name oc\<rparr>\<rparr>) s sv in
                   Some (1, sv\<lparr>slot := (slot sv)(HASH_ID i :=
                             (slot sv (HASH_ID i))\<lparr>stype := SOCKET_TYPE_PACCEPT\<rparr>)\<rparr>))
               }))
      | (oc, ss) \<Rightarrow>
          if outcome_errno oc = EMFILE \<or> outcome_errno oc = ENFILE then
            Some (- 1, sv\<lparr>core := set_result (slot sv l) (Strerror (outcome_errno oc)) ss\<rparr>)
          else Some (0, sv\<lparr>core := ss\<rparr>))"

definition clear_closed_event :: "socket_ret \<Rightarrow> server \<Rightarrow> server" where
  "clear_closed_event r sv =
     (if r = SOCKET_CLOSE \<or> r = SOCKET_ERR then
        let i = m_id (result (core sv));
            stale = (\<lambda>e. case ev_s e of None \<Rightarrow> False
                         | Some k \<Rightarrow> socket_invalid (slot sv k) i \<and> sid (slot sv k) = i);
            old = take (event_index (core sv)) (ev (core sv));
            rest = drop (event_index (core sv)) (ev (core sv)) in
        (case dropWhile (Not \<circ> stale) rest of
           [] \<Rightarrow> sv
         | e # es \<Rightarrow> sv\<lparr>core := (core sv)\<lparr>ev := old @ takeWhile (Not \<circ> stale) rest
                                             @ e\<lparr>ev_s := None\<rparr> # es\<rparr>\<rparr>)
      else sv)"

text \<open>
  One event: the result, if \<open>socket_server_poll\<close> returns, and whether the event is left in place
  for the next pass (with its flags). The index has already moved past the event.
\<close>

definition on_slot ::
    "nat \<Rightarrow> (socket_server \<Rightarrow> socket \<Rightarrow> (socket_ret \<times> socket_server \<times> socket) option)
     \<Rightarrow> server \<Rightarrow> (socket_ret \<times> server) option" where
  "on_slot k f sv = do {
     (r, ss, s) \<leftarrow> f (core sv) (slot sv k);
     Some (r, put_socket k ss s sv)
   }"

definition step_back :: "event \<Rightarrow> server \<Rightarrow> server" where
  "step_back e sv = sv\<lparr>core := (core sv)\<lparr>event_index := event_index (core sv) - 1,
     ev := (ev (core sv))[event_index (core sv) - 1 := e]\<rparr>\<rparr>"

definition eof_event :: "socket_server \<Rightarrow> socket
    \<Rightarrow> (socket_ret \<times> socket_server \<times> socket) option" where
  "eof_event ss s =
     (let halfclose = halfclose_read s in do {
        (ss, s) \<leftarrow> force_close ss s 0;
        Some (if halfclose then SOCKET_NONE else SOCKET_CLOSE, ss, s)
      })"

definition read_event :: "event \<Rightarrow> nat \<Rightarrow> server \<Rightarrow> (socket_ret \<times> server) option" where
  "read_event e k sv =
     (let tcp = (protocol (slot sv k) = PROTOCOL_TCP) in do {
        (r, sv) \<leftarrow> on_slot k (if tcp then forward_message_tcp else forward_message_udp) sv;
        if tcp \<and> r = SOCKET_MORE then Some (SOCKET_DATA, step_back e sv)
        else if \<not> tcp \<and> r = SOCKET_UDP then Some (SOCKET_UDP, step_back e sv)
        else Some (r, if ev_write e \<and> r \<noteq> SOCKET_CLOSE \<and> r \<noteq> SOCKET_ERR
                      then step_back (e\<lparr>ev_read := False\<rparr>) sv else sv)
      })"

definition handle_event :: "event \<Rightarrow> server \<Rightarrow> (socket_ret \<times> server) option" where
  "handle_event e sv = (case ev_s e of
       None \<Rightarrow> Some (SOCKET_NONE, sv)
     | Some k \<Rightarrow> (case stype (slot sv k) of
         SOCKET_TYPE_CONNECTING \<Rightarrow> on_slot k report_connect sv
       | SOCKET_TYPE_LISTEN \<Rightarrow> do {
           (ok, sv) \<leftarrow> report_accept k sv;
           Some (if ok > 0 then SOCKET_ACCEPT else if ok < 0 then SOCKET_ERR else SOCKET_NONE, sv)
         }
       | SOCKET_TYPE_INVALID \<Rightarrow> Some (SOCKET_NONE, sv)
       | _ \<Rightarrow>
           if ev_read e then read_event e k sv
           else if ev_write e then on_slot k (\<lambda>ss s. send_buffer ss s 0) sv
           else if ev_error e then on_slot k report_event_error sv
           else if ev_eof e then on_slot k eof_event sv
           else Some (SOCKET_NONE, sv)))"

definition next_event :: "server \<Rightarrow> (socket_ret \<times> server) option" where
  "next_event sv = do {
     e \<leftarrow> arr_get (ev (core sv)) (int (event_index (core sv)));
     handle_event e (sv\<lparr>core := (core sv)\<lparr>event_index := event_index (core sv) + 1\<rparr>\<rparr>)
   }"

text \<open>One pass of the loop of \<open>socket_server_poll\<close>; it goes on where the result is SOCKET_NONE.\<close>

definition poll_events :: "server \<Rightarrow> (socket_ret \<times> server) option" where
  "poll_events sv =
     (if event_index (core sv) = length (ev (core sv)) then
        (case next_outcome (core sv) of
           (Some (Events (e # es)), ss) \<Rightarrow>
             next_event (sv\<lparr>core := ss\<lparr>ev := e # es, checkctrl := True, event_index := 0\<rparr>\<rparr>)
         | (oc, ss) \<Rightarrow> Some (SOCKET_NONE,
             sv\<lparr>core := ss\<lparr>ev := [], checkctrl := True, event_index := 0\<rparr>\<rparr>))
      else next_event sv)"

definition poll_pass :: "server \<Rightarrow> (socket_ret \<times> server) option" where
  "poll_pass sv =
     (if checkctrl (core sv) then
        (if pipe (core sv) \<noteq> [] then do {
           (r, sv) \<leftarrow> ctrl_cmd sv;
           Some (r, if r \<noteq> SOCKET_NONE then clear_closed_event r sv else sv)
         } else poll_events (sv\<lparr>core := (core sv)\<lparr>checkctrl := False\<rparr>\<rparr>))
      else poll_events sv)"

partial_function (option) socket_server_poll :: "server \<Rightarrow> (socket_ret \<times> server) option" where
  "socket_server_poll sv = Option.bind (poll_pass sv) (\<lambda>r.
     if fst r = SOCKET_NONE then socket_server_poll (snd r) else Some r)"

definition release_slot :: "nat \<Rightarrow> server option \<Rightarrow> server option" where
  "release_slot k sv = do {
     sv \<leftarrow> sv;
     if stype (slot sv k) \<noteq> SOCKET_TYPE_RESERVE then do {
       (ss, s) \<leftarrow> force_close (core sv) (slot sv k) 0;
       Some (put_socket k ss s sv)
     } else Some sv
   }"

definition socket_server_release :: "server \<Rightarrow> server option" where
  "socket_server_release sv = fold release_slot [0..<MAX_SOCKET] (Some sv)"

end
