(* ===== verification/SocketReports.thy ===== *)
theory SocketReports
  imports SocketServer
begin

text \<open>
  The messages that the socket thread of skynet-src/socket_server.c reports: which data comes with
  which result.
\<close>

definition no_bytes :: "message_data \<Rightarrow> bool" where
  "no_bytes d \<longleftrightarrow> (\<forall>b. d \<noteq> Bytes b)"

definition result_ok :: "socket_ret \<Rightarrow> socket_message \<Rightarrow> bool" where
  "result_ok r res \<longleftrightarrow> (case r of
       SOCKET_DATA \<Rightarrow> \<exists>b. m_data res = Bytes b \<and> m_ud res = int (length b) \<and> b \<noteq> []
     | SOCKET_UDP \<Rightarrow> \<exists>b addr. m_data res = Bytes (b @ addr) \<and> m_ud res = int (length b)
         \<and> udp_address_length addr \<noteq> None
     | SOCKET_CLOSE \<Rightarrow> m_data res = NULL
     | SOCKET_WARNING \<Rightarrow> m_data res = NULL
     | SOCKET_OPEN \<Rightarrow> no_bytes (m_data res)
     | SOCKET_ERR \<Rightarrow> no_bytes (m_data res)
     | SOCKET_ACCEPT \<Rightarrow> no_bytes (m_data res)
     | SOCKET_RST \<Rightarrow> False
     | SOCKET_MORE \<Rightarrow> False
     | _ \<Rightarrow> True)"

lemma no_bytes_simps [simp]: "no_bytes NULL" "no_bytes (Str x)" "no_bytes (Strerror e)"
  by (simp_all add: no_bytes_def)

lemma peer_name_bytes [simp]: "no_bytes (peer_name oc)"
  by (simp add: peer_name_def split: option.split outcome.split)

definition reports :: "(socket_ret \<times> socket_server \<times> socket) option \<Rightarrow> bool" where
  "reports x \<longleftrightarrow> (\<forall>r ss s. x = Some (r, ss, s) \<longrightarrow> result_ok r (result ss))"

lemma reports_None [simp]: "reports None"
  by (simp add: reports_def)

lemma reports_Some [simp]: "reports (Some (r, ss, s)) \<longleftrightarrow> result_ok r (result ss)"
  by (simp add: reports_def)

lemma reports_bind: "(\<And>y. x = Some y \<Longrightarrow> reports (f y)) \<Longrightarrow> reports (Option.bind x f)"
  by (cases x) auto

section \<open>Closing\<close>

lemma FREE_result: "FREE a ss = Some ss' \<Longrightarrow> result ss' = result ss"
  by (auto simp: FREE_def split: if_splits)

lemma so_free_result: "so_free u a ss = Some ss' \<Longrightarrow> result ss' = result ss"
  by (auto simp: so_free_def soi_free_def dest: FREE_result split: if_splits)

lemma free_buffer_result: "free_buffer ss buf = Some ss' \<Longrightarrow> result ss' = result ss"
  by (auto simp: free_buffer_def soi_free_def dest: FREE_result split: buffer_type.splits)

lemma write_buffer_free_result: "write_buffer_free ss s a = Some (ss', s') \<Longrightarrow> result ss' = result ss"
  by (auto simp: write_buffer_free_def elim!: option_bind_SomeE dest: so_free_result)

lemma free_wb_loop_result: "free_wb_loop wb ss s = Some r \<Longrightarrow> result (fst r) = result ss"
proof (erule free_wb_loop.raw_induct [where P = "\<lambda>wb ss s r. result (fst r) = result ss", rotated])
  fix g wb ss s r
  assume h: "\<And>wb ss s r. g wb ss s = Some r \<Longrightarrow> result (fst r) = result ss"
    "(case wb of None \<Rightarrow> Some (ss, s)
      | Some tmp \<Rightarrow> nodes s tmp \<bind> (\<lambda>n. write_buffer_free ss s tmp \<bind>
               (\<lambda>r. g (wb_next n) (fst r) (snd r)))) = Some r"
  show "result (fst r) = result ss"
  proof (cases wb)
    case None
    then show ?thesis using h(2) by auto
  next
    case (Some tmp)
    have "nodes s tmp \<bind> (\<lambda>n. write_buffer_free ss s tmp \<bind> (\<lambda>r. g (wb_next n) (fst r) (snd r))) = Some r"
      using h(2) unfolding Some by simp
    then obtain n :: write_buffer and r1 where f: "write_buffer_free ss s tmp = Some r1" "g (wb_next n) (fst r1) (snd r1) = Some r"
      by (elim option_bind_SomeE) blast
    have "result (fst r1) = result ss" using write_buffer_free_result f(1) by (cases r1) simp
    then show ?thesis using h(1) [OF f(2)] by simp
  qed
qed

lemma next_outcome_result: "next_outcome ss = (oc, ss') \<Longrightarrow> result ss' = result ss"
  by (auto simp: next_outcome_def split: list.splits)

lemma sp_result_result: "sp_result ss = (b, ss') \<Longrightarrow> result ss' = result ss"
  by (auto simp: sp_result_def dest: next_outcome_result split: prod.splits)

lemma enable_write_result: "enable_write ss s w = (b, ss', s') \<Longrightarrow> result ss' = result ss"
  by (auto simp: enable_write_def dest: sp_result_result split: prod.splits if_splits)

lemma enable_read_result: "enable_read ss s w = (b, ss', s') \<Longrightarrow> result ss' = result ss"
  by (auto simp: enable_read_def dest: sp_result_result split: prod.splits if_splits)

lemma force_close_result: "force_close ss s l = Some (ss', s') \<Longrightarrow> m_data (result ss') = NULL"
  by (auto simp: force_close_def free_wb_list_def close_fd_def set_result_def elim!: option_bind_SomeE
    dest!: free_buffer_result free_wb_loop_result split: if_splits option.splits)

section \<open>Sending\<close>

text \<open>What the sending of one list may yield; \<open>send_buffer_locked\<close> hides SOCKET_RST.\<close>

definition sends :: "(socket_ret \<times> socket_server \<times> socket) option \<Rightarrow> bool" where
  "sends x \<longleftrightarrow> (\<forall>r ss s. x = Some (r, ss, s) \<longrightarrow> r \<in> {SOCKET_NONE, SOCKET_ERR, SOCKET_RST}
     \<and> (r = SOCKET_ERR \<longrightarrow> no_bytes (m_data (result ss))))"

lemma sends_simps [simp]:
  "sends None"
  "sends (Some (r, ss, s)) \<longleftrightarrow> r \<in> {SOCKET_NONE, SOCKET_ERR, SOCKET_RST}
     \<and> (r = SOCKET_ERR \<longrightarrow> no_bytes (m_data (result ss)))"
  by (auto simp: sends_def)

lemma sends_bind: "(\<And>y. x = Some y \<Longrightarrow> sends (f y)) \<Longrightarrow> sends (Option.bind x f)"
  by (cases x) auto

lemma close_write_sends: "sends (close_write e ss s l)"
  by (auto simp: close_write_def report_error_def set_result_def intro!: sends_bind split: prod.split)

lemma send_tcp_loop_sends: "sends (send_tcp_loop os p ss s l)"
proof (induction os arbitrary: ss s)
  case Nil
  show ?case by (subst send_tcp_loop.simps) (auto intro!: sends_bind split: option.split)
next
  case (Cons oc os)
  show ?case
    by (subst send_tcp_loop.simps)
      (auto simp: Let_def intro!: sends_bind close_write_sends Cons split: option.split outcome.split)
qed

lemma send_udp_loop_sends: "sends (send_udp_loop os p ss s)"
proof (induction os arbitrary: ss s)
  case Nil
  show ?case by (subst send_udp_loop.simps) (auto intro!: sends_bind split: option.split)
next
  case (Cons oc os)
  show ?case
    by (subst send_udp_loop.simps) (auto simp: Let_def intro!: sends_bind Cons split: option.split outcome.split)
qed

lemma send_list_sends: "sends (send_list p ss s l)"
  by (simp add: send_list_def send_list_tcp_def send_list_udp_def send_tcp_loop_sends send_udp_loop_sends)

lemma send_buffer_done_reports: "reports (send_buffer_done ss s l)"
  by (auto simp: send_buffer_done_def result_ok_def report_error_def set_result_def intro!: reports_bind split: prod.split)

lemma send_list_err:
  assumes "send_list p ss s l = Some (SOCKET_ERR, ss', s')"
  shows "no_bytes (m_data (result ss'))"
  using send_list_sends [of p ss s l] assms by simp

lemma send_buffer_locked_reports: "reports (send_buffer_locked ss s l)"
  unfolding send_buffer_locked_def
  by (intro reports_bind, auto intro!: reports_bind send_buffer_done_reports simp: result_ok_def split: if_splits)
    (erule send_list_err)+

lemma send_buffer_reports: "reports (send_buffer ss s l)"
proof -
  have n: "result_ok r (result ss')" if "send_buffer_locked ss s l = Some (r, ss', s')" for r ss s l ss' s'
    using send_buffer_locked_reports [of ss s l] that by simp
  show ?thesis
    unfolding send_buffer_def
    by (auto simp: result_ok_def [of SOCKET_NONE] intro!: reports_bind split: prod.split bool.split) (erule n)
qed

section \<open>Requests\<close>

lemma send_warning_reports: "reports (send_warning ss s)"
  by (simp add: send_warning_def result_ok_def)

lemma send_enable_reports: "reports (send_enable ss s)"
  by (auto simp: send_enable_def report_error_def set_result_def send_warning_reports result_ok_def split: prod.split)

lemma drop_request_reports: "reports (drop_request req ss s)"
  by (auto simp: drop_request_def result_ok_def intro!: reports_bind)

lemmas report_simps = report_error_def set_result_def result_ok_def Let_def

lemma send_socket_reports: "reports (send_socket req p addr ss s)"
  by (auto simp: send_socket_def Let_def drop_request_reports send_enable_reports send_warning_reports
    intro!: reports_bind split: option.split prod.split outcome.split)

lemma trigger_write_reports: "reports (trigger_write i ss s)"
  by (auto simp: trigger_write_def report_simps split: prod.split)

lemma close_read_result: "close_read ss s = (ss', s') \<Longrightarrow> m_data (result ss') = NULL"
  by (auto simp: close_read_def set_result_def split: prod.splits)

lemma close_read_reports: "reports (Some (SOCKET_CLOSE, close_read ss s))"
  by (cases "close_read ss s") (simp add: result_ok_def close_read_result)

lemma close_socket_reports: "reports (close_socket i shutdown ss s)"
  unfolding close_socket_def Let_def
  by (auto simp: result_ok_def intro!: reports_bind force_close_result close_read_reports)

lemma resume_socket_reports: "reports (resume_socket i opq ss s)"
  by (auto simp: resume_socket_def report_simps split: prod.split)

lemma pause_socket_reports: "reports (pause_socket i ss s)"
  by (auto simp: pause_socket_def report_simps split: prod.split)

lemma setopt_socket_reports: "reports (setopt_socket i what val ss s)"
  by (auto simp: setopt_socket_def report_simps split: prod.split)

lemma set_udp_address_reports: "reports (set_udp_address i address ss s)"
  by (auto simp: set_udp_address_def report_simps split: prod.split)

lemma open_socket_reports: "reports (open_socket i opq ss s)"
  by (auto simp: open_socket_def report_simps intro!: reports_bind split: prod.split option.split outcome.split)

lemma listen_socket_reports: "reports (listen_socket i f opq ss s)"
  by (auto simp: listen_socket_def report_simps intro!: reports_bind)

lemma bind_socket_reports: "reports (bind_socket i f opq ss s)"
  by (auto simp: bind_socket_def report_simps intro!: reports_bind)

lemma add_udp_socket_reports: "reports (add_udp_socket i f inet6 opq ss s)"
  by (auto simp: add_udp_socket_def report_simps intro!: reports_bind)

lemmas request_reports = send_socket_reports trigger_write_reports close_socket_reports resume_socket_reports
  pause_socket_reports setopt_socket_reports set_udp_address_reports open_socket_reports listen_socket_reports
  bind_socket_reports add_udp_socket_reports

section \<open>Events\<close>

lemma eof_event_reports: "reports (eof_event ss s)"
  by (auto simp: eof_event_def report_simps intro!: reports_bind force_close_result)

lemma report_event_error_reports: "reports (report_event_error ss s)"
  by (auto simp: report_event_error_def report_simps split: prod.split option.split)

lemma report_connect_reports: "reports (report_connect ss s)"
  by (auto simp: report_connect_def result_ok_def intro!: reports_bind split: prod.split option.split)

lemma gen_udp_address_length:
  "prot = PROTOCOL_UDP \<or> prot = PROTOCOL_UDPv6 \<Longrightarrow> udp_address_length (gen_udp_address prot sa) \<noteq> None"
  by (auto simp: gen_udp_address_def udp_address_length_def)

lemma result_ok_udp:
  "udp_address_length addr \<noteq> None \<Longrightarrow> m_data res = Bytes (b @ addr) \<Longrightarrow> m_ud res = int (length b)
    \<Longrightarrow> result_ok SOCKET_UDP res"
  by (auto simp: result_ok_def)

lemma forward_message_udp_reports: "reports (forward_message_udp ss s)"
proof -
  have u: "result_ok SOCKET_UDP \<lparr>m_id = i, m_opaque = opq, m_ud = int (length (take MAX_UDP_PACKAGE bs)),
      m_data = Bytes (take MAX_UDP_PACKAGE bs @ gen_udp_address (if c then PROTOCOL_UDP else PROTOCOL_UDPv6) sa)\<rparr>"
    for i opq bs c sa
    by (rule result_ok_udp [OF gen_udp_address_length, where prot1 = "if c then PROTOCOL_UDP else PROTOCOL_UDPv6"
        and b = "take MAX_UDP_PACKAGE bs"]) simp_all
  have n: "result_ok SOCKET_NONE res" for res by (simp add: result_ok_def)
  have e: "m_data res = Strerror x \<Longrightarrow> result_ok SOCKET_ERR res" for res x by (simp add: result_ok_def)
  obtain oc ss1 where o: "next_outcome ss = (oc, ss1)" by (metis prod.exhaust)
  have other: "reports (if outcome_errno oc = EINTR \<or> outcome_errno oc = EAGAIN then Some (SOCKET_NONE, ss1, s)
      else force_close ss1 s 0 \<bind> (\<lambda>(ss, s). Some (SOCKET_ERR,
        ss\<lparr>result := (result ss)\<lparr>m_data := Strerror (outcome_errno oc)\<rparr>\<rparr>, s)))"
    by (auto intro!: reports_bind simp: n e)
  show ?thesis
  proof (cases "\<exists>sa bs. oc = Some (From sa bs)")
    case True
    then show ?thesis using u n by (auto simp: forward_message_udp_def o Let_def simp del: length_take)
  next
    case False
    then show ?thesis using other by (auto simp: forward_message_udp_def o split: option.splits outcome.splits)
  qed
qed

text \<open>Where a TCP socket may hold more data, the result is SOCKET_MORE, which the loop turns into SOCKET_DATA.\<close>

lemma forward_message_tcp_reports:
  assumes "forward_message_tcp ss s = Some (r, ss', s')"
  shows "result_ok (if r = SOCKET_MORE then SOCKET_DATA else r) (result ss')"
  using assms force_close_result close_read_result
  by (auto simp: forward_message_tcp_def report_simps elim!: option_bind_SomeE
    split: prod.splits option.splits outcome.splits if_splits)

section \<open>A pass\<close>

text \<open>The same for operations on the whole server.\<close>

definition tells :: "(socket_ret \<times> server) option \<Rightarrow> bool" where
  "tells x \<longleftrightarrow> (\<forall>r sv. x = Some (r, sv) \<longrightarrow> result_ok r (result (core sv)))"

lemma tells_simps [simp]:
  "tells None"
  "tells (Some (r, sv)) \<longleftrightarrow> result_ok r (result (core sv))"
  by (auto simp: tells_def)

lemma tells_bind: "(\<And>y. x = Some y \<Longrightarrow> tells (f y)) \<Longrightarrow> tells (Option.bind x f)"
  by (cases x) auto

lemma result_none [simp]: "result_ok SOCKET_NONE res" "result_ok SOCKET_EXIT res"
  by (simp_all add: result_ok_def)

lemma on_socket_tells: "reports (f (core sv) (slot sv (HASH_ID i))) \<Longrightarrow> tells (on_socket i f sv)"
  by (auto simp: on_socket_def put_socket_def intro!: tells_bind)

lemma on_slot_tells: "reports (f (core sv) (slot sv k)) \<Longrightarrow> tells (on_slot k f sv)"
  by (auto simp: on_slot_def put_socket_def intro!: tells_bind)

lemma send_request_reports:
  "reports (do { (r, ss, s) \<leftarrow> send_socket rs p a ss s; s \<leftarrow> dec_sending_ref i s; Some (r, ss, s) })"
  using send_socket_reports [of rs p a ss s] by (auto intro!: reports_bind)

lemma dispatch_tells: "tells (dispatch_request r sv)"
  by (cases r) (auto simp: dispatch_request_def intro!: on_socket_tells request_reports send_request_reports)

lemma clear_closed_result: "result (core (clear_closed_event r sv)) = result (core sv)"
  by (simp add: clear_closed_event_def Let_def split: list.split)

lemma step_back_result: "result (core (step_back e sv)) = result (core sv)"
  by (simp add: step_back_def)

lemma read_event_tells: "tells (read_event e k sv)"
proof (cases "protocol (slot sv k) = PROTOCOL_TCP")
  case True
  show ?thesis
    unfolding read_event_def Let_def on_slot_def put_socket_def
    using True forward_message_tcp_reports
    by (auto simp: step_back_result intro!: tells_bind split: if_splits) fastforce+
next
  case False
  have "reports (forward_message_udp (core sv) (slot sv k))" by (rule forward_message_udp_reports)
  then show ?thesis
    unfolding read_event_def Let_def on_slot_def put_socket_def
    using False by (auto simp: step_back_result intro!: tells_bind)
qed

lemma accept_result:
  assumes "report_accept l sv = Some (ok, sv')" "ok \<noteq> 0"
  shows "no_bytes (m_data (result (core sv')))"
  using assms
  by (auto simp: report_accept_def set_result_def put_socket_def Let_def elim!: option_bind_SomeE
    split: prod.splits option.splits outcome.splits if_splits)

lemma handle_event_tells: "tells (handle_event e sv)"
proof (cases "ev_s e")
  case (Some k)
  have a: "tells (report_accept k sv \<bind> (\<lambda>(ok, sv). Some
      (if ok > 0 then SOCKET_ACCEPT else if ok < 0 then SOCKET_ERR else SOCKET_NONE, sv)))"
    by (auto intro!: tells_bind simp: result_ok_def [of SOCKET_ACCEPT] result_ok_def [of SOCKET_ERR] dest: accept_result)
  note reps = on_slot_tells [OF report_connect_reports] on_slot_tells [OF report_event_error_reports]
    on_slot_tells [OF eof_event_reports] on_slot_tells [OF send_buffer_reports] read_event_tells
  show ?thesis by (cases "stype (slot sv k)") (simp_all add: handle_event_def Some a reps)
qed (simp add: handle_event_def)

lemma next_event_tells: "tells (next_event sv)"
  by (auto simp: next_event_def handle_event_tells intro!: tells_bind)

lemma poll_events_tells: "tells (poll_events sv)"
  by (auto simp: poll_events_def next_event_tells split: prod.split option.split outcome.split list.split)

lemma poll_pass_tells: "tells (poll_pass sv)"
proof -
  have "tells (ctrl_cmd sv)" by (simp add: ctrl_cmd_def dispatch_tells split: list.split)
  then show ?thesis
    by (auto simp: poll_pass_def poll_events_tells tells_def [of "ctrl_cmd sv"] clear_closed_result intro!: tells_bind)
qed

end
