(* ===== verification/SocketLists.thy ===== *)
theory SocketLists
  imports Socket
begin

text \<open>
  The write lists of a socket (skynet-src/socket_server.c): when they are well formed, what
  appending, freeing and writing to the kernel does to them.
\<close>

section \<open>Well-formed sockets\<close>

definition nx :: "(nat \<Rightarrow> write_buffer option) \<Rightarrow> nat \<Rightarrow> nat option" where
  "nx nd a = (case nd a of None \<Rightarrow> None | Some wb \<Rightarrow> wb_next wb)"

definition node_ok :: "(nat \<Rightarrow> bytes option) \<Rightarrow> socket_object_interface \<Rightarrow> write_buffer \<Rightarrow> bool" where
  "node_ok m si wb \<longleftrightarrow> read_mem m (wb_ptr wb) (wb_sz wb) \<noteq> None
     \<and> fst (wb_ptr wb) = (if wb_userobject wb then so_buffer si (wb_buffer wb) else wb_buffer wb)"

definition node_bytes :: "(nat \<Rightarrow> bytes option) \<Rightarrow> write_buffer \<Rightarrow> bytes" where
  "node_bytes m wb = (case read_mem m (wb_ptr wb) (wb_sz wb) of None \<Rightarrow> [] | Some bs \<Rightarrow> bs)"

definition msgs :: "(nat \<Rightarrow> bytes option) \<Rightarrow> (nat \<Rightarrow> write_buffer option) \<Rightarrow> nat list \<Rightarrow> bytes list" where
  "msgs m nd xs = map (\<lambda>a. node_bytes m (the (nd a))) xs"

definition lists_ok ::
    "(nat \<Rightarrow> bytes option) \<Rightarrow> socket_object_interface \<Rightarrow> socket \<Rightarrow> (priority \<Rightarrow> nat list) \<Rightarrow> bool" where
  "lists_ok m si s L \<longleftrightarrow>
     (\<forall>p. chain (nx (nodes s)) (wl_head (wb_list_of p s)) (L p) None)
     \<and> dom (nodes s) = set (L PRIORITY_HIGH) \<union> set (L PRIORITY_LOW)
     \<and> set (L PRIORITY_HIGH) \<inter> set (L PRIORITY_LOW) = {}
     \<and> (\<forall>a wb. nodes s a = Some wb \<longrightarrow> node_ok m si wb)
     \<and> (\<forall>a b wa wb. a \<noteq> b \<longrightarrow> nodes s a = Some wa \<longrightarrow> nodes s b = Some wb
          \<longrightarrow> fst (wb_ptr wa) \<noteq> fst (wb_ptr wb))
     \<and> wb_size s = (\<Sum>a\<in>dom (nodes s). int (wb_sz (the (nodes s a))))"

definition tail_ok :: "wb_list \<Rightarrow> nat list \<Rightarrow> bool" where
  "tail_ok l xs \<longleftrightarrow> wl_tail l = (if xs = [] then None else Some (last xs))"

lemma wb_list_of_set [simp]:
  "wb_list_of p (set_wb_list q l s) = (if p = q then l else wb_list_of p s)"
  by (cases p; cases q) (simp_all add: wb_list_of_def set_wb_list_def)

lemma set_wb_list_fields [simp]:
  "nodes (set_wb_list p l s) = nodes s" "wb_size (set_wb_list p l s) = wb_size s"
  "out (set_wb_list p l s) = out s" "stype (set_wb_list p l s) = stype s"
  "dw_buffer (set_wb_list p l s) = dw_buffer s" "stat (set_wb_list p l s) = stat s"
  by (cases p; simp add: set_wb_list_def)+

lemma wb_list_of_upd [simp]:
  "wb_list_of p (s\<lparr>nodes := x1\<rparr>) = wb_list_of p s"
  "wb_list_of p (s\<lparr>wb_size := x2\<rparr>) = wb_list_of p s"
  "wb_list_of p (s\<lparr>out := x3\<rparr>) = wb_list_of p s"
  "wb_list_of p (s\<lparr>stat := x4\<rparr>) = wb_list_of p s"
  by (cases p; simp add: wb_list_of_def)+

lemma set_wb_list_upd:
  "set_wb_list p l (s\<lparr>nodes := x1\<rparr>) = (set_wb_list p l s)\<lparr>nodes := x1\<rparr>"
  "set_wb_list p l (s\<lparr>wb_size := x2\<rparr>) = (set_wb_list p l s)\<lparr>wb_size := x2\<rparr>"
  "set_wb_list p l (s\<lparr>out := x3\<rparr>) = (set_wb_list p l s)\<lparr>out := x3\<rparr>"
  "set_wb_list p l (s\<lparr>stat := x4\<rparr>) = (set_wb_list p l s)\<lparr>stat := x4\<rparr>"
  "set_wb_list p l (set_wb_list p l' s) = set_wb_list p l s"
  by (cases p; simp add: set_wb_list_def)+

lemma nx_upd [simp]: "nx (nd(a := None)) = (nx nd)(a := None)"
  "nx (nd(a := Some wb)) = (nx nd)(a := wb_next wb)"
  by (auto simp: nx_def)

lemma lists_okD:
  assumes "lists_ok m si s L"
  shows "chain (nx (nodes s)) (wl_head (wb_list_of p s)) (L p) None"
    and "dom (nodes s) = set (L PRIORITY_HIGH) \<union> set (L PRIORITY_LOW)"
    and "set (L PRIORITY_HIGH) \<inter> set (L PRIORITY_LOW) = {}"
    and "nodes s a = Some wb \<Longrightarrow> node_ok m si wb"
    and "a \<noteq> b \<Longrightarrow> nodes s a = Some wa \<Longrightarrow> nodes s b = Some wb \<Longrightarrow> fst (wb_ptr wa) \<noteq> fst (wb_ptr wb)"
    and "wb_size s = (\<Sum>a\<in>dom (nodes s). int (wb_sz (the (nodes s a))))"
  using assms by (simp_all add: lists_ok_def)

lemma lists_finite: "lists_ok m si s L \<Longrightarrow> finite (dom (nodes s))"
  by (simp add: lists_ok_def)

lemma lists_in: "lists_ok m si s L \<Longrightarrow> a \<in> set (L p) \<Longrightarrow> \<exists>wb. nodes s a = Some wb \<and> node_ok m si wb"
  using lists_okD(2,4) by (cases p) (blast dest: domD)+

lemma lists_disjoint: "lists_ok m si s L \<Longrightarrow> p \<noteq> q \<Longrightarrow> set (L p) \<inter> set (L q) = {}"
  by (cases p; cases q) (auto simp: lists_ok_def)

lemma Union_priority: "(\<Union>p. set (L p)) = set (L PRIORITY_HIGH) \<union> set (L PRIORITY_LOW)"
proof
  show "(\<Union>p. set (L p)) \<subseteq> set (L PRIORITY_HIGH) \<union> set (L PRIORITY_LOW)"
  proof
    fix x assume "x \<in> (\<Union>p. set (L p))"
    then obtain p where "x \<in> set (L p)" by blast
    then show "x \<in> set (L PRIORITY_HIGH) \<union> set (L PRIORITY_LOW)" by (cases p) auto
  qed
qed blast

lemma lists_dom: "lists_ok m si s L \<Longrightarrow> dom (nodes s) = (\<Union>p. set (L p))"
  by (simp add: lists_ok_def Union_priority)

lemma lists_okI:
  assumes "\<And>p. chain (nx (nodes s)) (wl_head (wb_list_of p s)) (L p) None"
    "dom (nodes s) = (\<Union>p. set (L p))" "\<And>p q. p \<noteq> q \<Longrightarrow> set (L p) \<inter> set (L q) = {}"
    "\<And>a wb. nodes s a = Some wb \<Longrightarrow> node_ok m si wb"
    "\<And>a b wa wb. a \<noteq> b \<Longrightarrow> nodes s a = Some wa \<Longrightarrow> nodes s b = Some wb
       \<Longrightarrow> fst (wb_ptr wa) \<noteq> fst (wb_ptr wb)"
    "wb_size s = (\<Sum>a\<in>dom (nodes s). int (wb_sz (the (nodes s a))))"
  shows "lists_ok m si s L"
proof -
  have "dom (nodes s) = set (L PRIORITY_HIGH) \<union> set (L PRIORITY_LOW)"
    using assms(2) by (simp add: Union_priority)
  moreover have "set (L PRIORITY_HIGH) \<inter> set (L PRIORITY_LOW) = {}" by (rule assms(3)) simp
  ultimately show ?thesis
    unfolding lists_ok_def using assms(1,4,5,6) by metis
qed

lemma read_mem_upd: "fst ptr \<noteq> b \<Longrightarrow> read_mem (m(b := v)) ptr n = read_mem m ptr n"
  by (simp add: read_mem_def)

lemma node_ok_upd: "node_ok m si wb \<Longrightarrow> fst (wb_ptr wb) \<noteq> b \<Longrightarrow> node_ok (m(b := v)) si wb"
  by (simp add: node_ok_def read_mem_upd)

lemma node_bytes_upd: "fst (wb_ptr wb) \<noteq> b \<Longrightarrow> node_bytes (m(b := v)) wb = node_bytes m wb"
  by (simp add: node_bytes_def read_mem_upd)

lemma node_ok_bytes: "node_ok m si wb \<Longrightarrow> read_mem m (wb_ptr wb) (wb_sz wb) = Some (node_bytes m wb)"
  by (auto simp: node_ok_def node_bytes_def)

lemma length_node_bytes: "node_ok m si wb \<Longrightarrow> length (node_bytes m wb) = wb_sz wb"
  by (auto simp: node_ok_def node_bytes_def read_mem_def split: option.splits if_splits)

lemma node_trim:
  assumes "node_ok m si wb" "k \<le> wb_sz wb"
  defines "wb' \<equiv> wb\<lparr>wb_ptr := (fst (wb_ptr wb), snd (wb_ptr wb) + k), wb_sz := wb_sz wb - k\<rparr>"
  shows "node_ok m si wb'" "node_bytes m wb' = drop k (node_bytes m wb)"
  using assms
  by (auto simp: node_ok_def node_bytes_def read_mem_def drop_take split: option.splits if_splits)
    (simp_all add: add.commute)

text \<open>Taking the head of a list off.\<close>

lemma lists_ok_pop:
  assumes ok: "lists_ok m si s L" and Lp: "L p = a # zs" and a: "nodes s a = Some wb"
    and nodes': "nodes s' = (nodes s)(a := None)"
    and wl: "\<And>q. wl_head (wb_list_of q s') = (if q = p then wb_next wb else wl_head (wb_list_of q s))"
    and sz: "wb_size s' = wb_size s - int (wb_sz wb)"
    and m': "m' = m(fst (wb_ptr wb) := None)"
  shows "lists_ok m' si s' (L(p := zs))"
    and "msgs m' (nodes s') zs = msgs m (nodes s) zs"
    and "q \<noteq> p \<Longrightarrow> msgs m' (nodes s') (L q) = msgs m (nodes s) (L q)"
proof -
  have ch: "chain (nx (nodes s)) (wl_head (wb_list_of p s)) (a # zs) None"
    using lists_okD(1) [OF ok, of p] Lp by simp
  then have az: "a \<notin> set zs" using chain_distinct by fastforce
  have nxa: "chain (nx (nodes s)) (wb_next wb) zs None" using ch a by (simp add: nx_def)
  have aq: "a \<notin> set (L q)" if "q \<noteq> p" for q
    using lists_disjoint [OF ok, of p q] that Lp by auto
  have other: "fst (wb_ptr w) \<noteq> fst (wb_ptr wb)" if "nodes s b = Some w" "b \<noteq> a" for b w
    using lists_okD(5) [OF ok] that a by metis
  show "lists_ok m' si s' (L(p := zs))"
  proof (rule lists_okI)
    fix q
    show "chain (nx (nodes s')) (wl_head (wb_list_of q s')) ((L(p := zs)) q) None"
      using nxa az aq lists_okD(1) [OF ok, of q] by (simp add: nodes' wl)
  next
    show "dom (nodes s') = (\<Union>q. set ((L(p := zs)) q))"
    proof -
      have "dom (nodes s') = (\<Union>q. set (L q)) - {a}" by (simp add: nodes' lists_dom [OF ok, symmetric])
      also have "\<dots> = (\<Union>q. set ((L(p := zs)) q))"
        using Lp az aq by (auto split: if_splits) (metis set_ConsD)
      finally show ?thesis .
    qed
  next
    fix q r :: priority assume "q \<noteq> r"
    then show "set ((L(p := zs)) q) \<inter> set ((L(p := zs)) r) = {}"
      using lists_disjoint [OF ok, of q r] Lp by (cases "q = p"; cases "r = p") auto
  next
    fix b w assume "nodes s' b = Some w"
    then have "nodes s b = Some w" "b \<noteq> a" by (auto simp: nodes' split: if_splits)
    then show "node_ok m' si w" using lists_okD(4) [OF ok] other by (auto simp: m' intro: node_ok_upd)
  next
    fix b c wa wc assume "b \<noteq> c" "nodes s' b = Some wa" "nodes s' c = Some wc"
    then show "fst (wb_ptr wa) \<noteq> fst (wb_ptr wc)"
      using lists_okD(5) [OF ok] by (auto simp: nodes' split: if_splits)
  next
    have "(\<Sum>b\<in>dom (nodes s). int (wb_sz (the (nodes s b))))
        = int (wb_sz wb) + (\<Sum>b\<in>dom (nodes s) - {a}. int (wb_sz (the (nodes s b))))"
      using a by (subst sum.remove [OF lists_finite [OF ok], of a]) auto
    moreover have "(\<Sum>b\<in>dom (nodes s) - {a}. int (wb_sz (the (nodes s b))))
        = (\<Sum>b\<in>dom (nodes s'). int (wb_sz (the (nodes s' b))))"
      by (rule sum.cong) (auto simp: nodes')
    ultimately show "wb_size s' = (\<Sum>b\<in>dom (nodes s'). int (wb_sz (the (nodes s' b))))"
      using lists_okD(6) [OF ok] by (simp add: sz)
  qed
  have keep: "msgs m' (nodes s') xs = msgs m (nodes s) xs"
    if ax: "a \<notin> set xs" and sub: "set xs \<subseteq> dom (nodes s)" for xs
    unfolding msgs_def
  proof (rule map_cong [OF refl])
    fix b assume b: "b \<in> set xs"
    then obtain w where w: "nodes s b = Some w" using sub by auto
    have "b \<noteq> a" using b ax by auto
    then show "node_bytes m' (the (nodes s' b)) = node_bytes m (the (nodes s b))"
      using w other [OF w] by (simp add: nodes' m' node_bytes_upd)
  qed
  show "msgs m' (nodes s') zs = msgs m (nodes s) zs"
    using az Lp lists_dom [OF ok] by (intro keep) (auto, metis UNIV_I UN_I list.set_intros(2))
  show "q \<noteq> p \<Longrightarrow> msgs m' (nodes s') (L q) = msgs m (nodes s) (L q)"
    using aq lists_dom [OF ok] by (intro keep) auto
qed

text \<open>Moving the start of the head of a list past bytes that were written.\<close>

lemma lists_ok_trim:
  assumes ok: "lists_ok m si s L" and a: "nodes s a = Some wb" and k: "k \<le> wb_sz wb"
    and nodes': "nodes s' = (nodes s)(a := Some
      (wb\<lparr>wb_ptr := (fst (wb_ptr wb), snd (wb_ptr wb) + k), wb_sz := wb_sz wb - k\<rparr>))"
    and wl: "\<And>q. wl_head (wb_list_of q s') = wl_head (wb_list_of q s)"
    and sz: "wb_size s' = wb_size s - int k"
  shows "lists_ok m si s' L"
    and "L p = a # zs \<Longrightarrow> msgs m (nodes s') (a # zs)
           = drop k (node_bytes m wb) # msgs m (nodes s) zs"
    and "a \<notin> set xs \<Longrightarrow> msgs m (nodes s') xs = msgs m (nodes s) xs"
proof -
  let ?wb = "wb\<lparr>wb_ptr := (fst (wb_ptr wb), snd (wb_ptr wb) + k), wb_sz := wb_sz wb - k\<rparr>"
  have nx: "nx (nodes s') = nx (nodes s)" using a by (auto simp: nx_def nodes')
  have dm: "dom (nodes s') = dom (nodes s)" using a by (auto simp: nodes')
  have wbok: "node_ok m si wb" using lists_okD(4) [OF ok a] .
  show "lists_ok m si s' L"
  proof (rule lists_okI)
    fix q show "chain (nx (nodes s')) (wl_head (wb_list_of q s')) (L q) None"
      using lists_okD(1) [OF ok] by (simp add: nx wl)
  next
    show "dom (nodes s') = (\<Union>q. set (L q))" using lists_dom [OF ok] dm by simp
  next
    fix q r :: priority assume "q \<noteq> r"
    then show "set (L q) \<inter> set (L r) = {}" by (rule lists_disjoint [OF ok])
  next
    fix b w assume "nodes s' b = Some w"
    then show "node_ok m si w"
      using lists_okD(4) [OF ok] node_trim(1) [OF wbok k] by (auto simp: nodes' split: if_splits)
  next
    fix b c wa wc assume "b \<noteq> c" "nodes s' b = Some wa" "nodes s' c = Some wc"
    then show "fst (wb_ptr wa) \<noteq> fst (wb_ptr wc)"
      using lists_okD(5) [OF ok] a by (auto simp: nodes' split: if_splits)
  next
    have "(\<Sum>b\<in>dom (nodes s). int (wb_sz (the (nodes s b))))
        = int (wb_sz wb) + (\<Sum>b\<in>dom (nodes s) - {a}. int (wb_sz (the (nodes s b))))"
      using a by (subst sum.remove [OF lists_finite [OF ok], of a]) auto
    moreover have "(\<Sum>b\<in>dom (nodes s). int (wb_sz (the (nodes s' b))))
        = int (wb_sz ?wb) + (\<Sum>b\<in>dom (nodes s) - {a}. int (wb_sz (the (nodes s' b))))"
      using a by (subst sum.remove [OF lists_finite [OF ok], of a]) (auto simp: nodes')
    moreover have "(\<Sum>b\<in>dom (nodes s) - {a}. int (wb_sz (the (nodes s b))))
        = (\<Sum>b\<in>dom (nodes s) - {a}. int (wb_sz (the (nodes s' b))))"
      by (rule sum.cong) (auto simp: nodes')
    ultimately show "wb_size s' = (\<Sum>b\<in>dom (nodes s'). int (wb_sz (the (nodes s' b))))"
      using lists_okD(6) [OF ok] k by (simp add: sz dm)
  qed
  show same: "a \<notin> set xs \<Longrightarrow> msgs m (nodes s') xs = msgs m (nodes s) xs" for xs
    unfolding msgs_def by (rule map_cong [OF refl]) (auto simp: nodes')
  assume Lp: "L p = a # zs"
  have "chain (nx (nodes s)) (wl_head (wb_list_of p s)) (a # zs) None"
    using lists_okD(1) [OF ok, of p] Lp by simp
  then have "a \<notin> set zs" using chain_distinct by fastforce
  then show "msgs m (nodes s') (a # zs) = drop k (node_bytes m wb) # msgs m (nodes s) zs"
    using same node_trim(2) [OF wbok k] by (simp add: msgs_def nodes')
qed

text \<open>A new node at one end of a list.\<close>

lemma lists_ok_add:
  assumes ok: "lists_ok m si s L" and b: "nodes s b = None"
    and wb: "node_ok m si wb" and blk: "\<And>a w. nodes s a = Some w \<Longrightarrow> fst (wb_ptr w) \<noteq> fst (wb_ptr wb)"
    and keep: "\<And>a w. nodes s a = Some w \<Longrightarrow> \<exists>w'. nodes s' a = Some w' \<and> w'\<lparr>wb_next := wb_next w\<rparr> = w"
    and new: "nodes s' b = Some wb" and dm: "dom (nodes s') = insert b (dom (nodes s))"
    and xs: "set xs = insert b (set (L p))" "chain (nx (nodes s')) (wl_head (wb_list_of p s')) xs None"
    and wl: "\<And>q. q \<noteq> p \<Longrightarrow> chain (nx (nodes s')) (wl_head (wb_list_of q s')) (L q) None"
    and sz: "wb_size s' = wb_size s + int (wb_sz wb)"
  shows "lists_ok m si s' (L(p := xs))"
    and "set ys \<subseteq> dom (nodes s) \<Longrightarrow> msgs m (nodes s') ys = msgs m (nodes s) ys"
proof -
  have bL: "b \<notin> set (L q)" for q using b lists_dom [OF ok] by (metis UN_I UNIV_I domIff)
  have old: "\<exists>w. nodes s a = Some w \<and> w'\<lparr>wb_next := wb_next w\<rparr> = w"
    if a: "nodes s' a = Some w'" "a \<noteq> b" for a w'
  proof -
    have "a \<in> dom (nodes s')" using a by auto
    then obtain w where w: "nodes s a = Some w" using a(2) dm by auto
    with keep [OF w] a(1) show ?thesis by auto
  qed
  have ptrs: "wb_ptr w' = wb_ptr w \<and> wb_sz w' = wb_sz w \<and> wb_buffer w' = wb_buffer w
      \<and> wb_userobject w' = wb_userobject w"
    if "w'\<lparr>wb_next := wb_next w\<rparr> = w" for w w' :: write_buffer
    using that by (cases w; cases w') simp
  show "lists_ok m si s' (L(p := xs))"
  proof (rule lists_okI)
    fix q show "chain (nx (nodes s')) (wl_head (wb_list_of q s')) ((L(p := xs)) q) None"
      using xs(2) wl by (cases "q = p") auto
  next
    have "(\<Union>q. set ((L(p := xs)) q)) = insert b (\<Union>q. set (L q))"
      using xs(1) by (auto split: if_splits)
    then show "dom (nodes s') = (\<Union>q. set ((L(p := xs)) q))" using dm lists_dom [OF ok] by simp
  next
    fix q r :: priority assume "q \<noteq> r"
    then show "set ((L(p := xs)) q) \<inter> set ((L(p := xs)) r) = {}"
      using lists_disjoint [OF ok, of q r] xs(1) bL by (cases "q = p"; cases "r = p") auto
  next
    fix a w' assume w': "nodes s' a = Some w'"
    show "node_ok m si w'"
    proof (cases "a = b")
      case True
      then show ?thesis using w' new wb by simp
    next
      case False
      then obtain w where w: "nodes s a = Some w" "w'\<lparr>wb_next := wb_next w\<rparr> = w" using old w' by blast
      show ?thesis using lists_okD(4) [OF ok w(1)] ptrs [OF w(2)] by (simp add: node_ok_def)
    qed
  next
    fix a c wa wc assume ac: "a \<noteq> c" "nodes s' a = Some wa" "nodes s' c = Some wc"
    have was: "\<exists>w. wb_ptr w = wb_ptr w' \<and> nodes s x = Some w" if x: "nodes s' x = Some w'" "x \<noteq> b" for x w'
    proof -
      obtain w where w: "nodes s x = Some w" "w'\<lparr>wb_next := wb_next w\<rparr> = w" using old [OF x] by blast
      show ?thesis using ptrs [OF w(2)] w(1) by auto
    qed
    consider "a = b" "c \<noteq> b" | "a \<noteq> b" "c = b" | "a \<noteq> b" "c \<noteq> b" using ac(1) by blast
    then show "fst (wb_ptr wa) \<noteq> fst (wb_ptr wc)"
    proof cases
      case 1
      then show ?thesis using was [OF ac(3)] blk ac(2) new by (metis option.inject)
    next
      case 2
      then show ?thesis using was [OF ac(2)] blk ac(3) new by (metis option.inject)
    next
      case 3
      then obtain u v where "wb_ptr u = wb_ptr wa" "nodes s a = Some u"
        "wb_ptr v = wb_ptr wc" "nodes s c = Some v" using was ac(2,3) by meson
      then show ?thesis using lists_okD(5) [OF ok ac(1)] by metis
    qed
  next
    have "(\<Sum>a\<in>dom (nodes s'). int (wb_sz (the (nodes s' a))))
       = int (wb_sz wb) + (\<Sum>a\<in>dom (nodes s). int (wb_sz (the (nodes s' a))))"
      using lists_finite [OF ok] b new by (subst dm, subst sum.insert) auto
    moreover have "(\<Sum>a\<in>dom (nodes s). int (wb_sz (the (nodes s' a))))
       = (\<Sum>a\<in>dom (nodes s). int (wb_sz (the (nodes s a))))"
    proof (rule sum.cong [OF refl])
      fix a assume "a \<in> dom (nodes s)"
      then obtain w where w: "nodes s a = Some w" by auto
      obtain w' where w': "nodes s' a = Some w'" "w'\<lparr>wb_next := wb_next w\<rparr> = w" using keep [OF w] by blast
      show "int (wb_sz (the (nodes s' a))) = int (wb_sz (the (nodes s a)))"
        using w w'(1) ptrs [OF w'(2)] by simp
    qed
    ultimately show "wb_size s' = (\<Sum>a\<in>dom (nodes s'). int (wb_sz (the (nodes s' a))))"
      using lists_okD(6) [OF ok] by (simp add: sz)
  qed
  show "msgs m (nodes s') ys = msgs m (nodes s) ys" if ys: "set ys \<subseteq> dom (nodes s)"
    unfolding msgs_def
  proof (rule map_cong [OF refl])
    fix a assume "a \<in> set ys"
    then obtain w where w: "nodes s a = Some w" using ys by auto
    obtain w' where w': "nodes s' a = Some w'" "w'\<lparr>wb_next := wb_next w\<rparr> = w" using keep [OF w] by blast
    show "node_bytes m (the (nodes s' a)) = node_bytes m (the (nodes s a))"
      using w w'(1) ptrs [OF w'(2)] by (simp add: node_bytes_def)
  qed
qed

text \<open>
  What writing to the kernel does to the messages of a list: some are sent whole, and of the next
  one the first \<open>k\<close> bytes.
\<close>

inductive drained :: "bytes list \<Rightarrow> bytes \<Rightarrow> bytes list \<Rightarrow> nat \<Rightarrow> bool" where
  "drained ms [] ms 0"
| "k \<le> length m \<Longrightarrow> drained (m # ms) (take k m) (drop k m # ms) k"
| "drained ms w ms' k \<Longrightarrow> drained (m # ms) (m @ w) ms' k"

lemma drained_concat: "drained ms w ms' k \<Longrightarrow> w @ concat ms' = concat ms"
  by (induction rule: drained.induct) auto

lemma drained_whole: "drained ms w ms' 0 \<Longrightarrow> \<exists>ds. ms = ds @ ms' \<and> w = concat ds"
proof (induction ms w ms' "0::nat" rule: drained.induct)
  case (1 ms)
  then show ?case by simp
next
  case (2 m ms)
  then show ?case by simp
next
  case (3 ms w ms' m)
  then obtain ds where "ms = ds @ ms'" "w = concat ds" by blast
  then have "m # ms = (m # ds) @ ms'" "m @ w = concat (m # ds)" by simp_all
  then show ?case by blast
qed

lemma drained_partial: "drained ms w ms' k \<Longrightarrow> 0 < k \<Longrightarrow>
    \<exists>ds m r rest. ms = ds @ m # rest \<and> ms' = r # rest \<and> w @ r = concat ds @ m"
proof (induction rule: drained.induct)
  case (1 ms)
  then show ?case by simp
next
  case (2 k m ms)
  have "m # ms = [] @ m # ms" "take k m @ drop k m = concat [] @ m" by simp_all
  then show ?case by blast
next
  case (3 ms w ms' k m)
  then obtain ds m' r rest where "ms = ds @ m' # rest" "ms' = r # rest" "w @ r = concat ds @ m'"
    by blast
  then have "m # ms = (m # ds) @ m' # rest" "ms' = r # rest" "(m @ w) @ r = concat (m # ds) @ m'"
    by simp_all
  then show ?case by blast
qed

section \<open>Freeing the write lists\<close>

lemma so_free_node:
  assumes "node_ok (mem ss) (soi ss) wb"
  shows "so_free (wb_userobject wb) (wb_buffer wb) ss
       = Some (ss\<lparr>mem := (mem ss)(fst (wb_ptr wb) := None)\<rparr>)"
  using assms by (cases "wb_userobject wb")
    (auto simp: node_ok_def so_free_def soi_free_def FREE_def read_mem_def split: option.splits)

lemma write_buffer_free_ok:
  assumes "nodes s a = Some wb" "node_ok (mem ss) (soi ss) wb"
  shows "write_buffer_free ss s a = Some (ss\<lparr>mem := (mem ss)(fst (wb_ptr wb) := None)\<rparr>,
     s\<lparr>nodes := (nodes s)(a := None)\<rparr>)"
  using assms by (simp add: write_buffer_free_def so_free_node)

definition blocks_in :: "(nat \<Rightarrow> write_buffer option) \<Rightarrow> nat set" where
  "blocks_in nd = {fst (wb_ptr wb) | wb. \<exists>a. nd a = Some wb}"

lemma blocks_inI: "nd a = Some wb \<Longrightarrow> fst (wb_ptr wb) \<in> blocks_in nd"
  by (auto simp: blocks_in_def)

definition mem_without :: "(nat \<Rightarrow> bytes option) \<Rightarrow> nat set \<Rightarrow> nat \<Rightarrow> bytes option" where
  "mem_without m B = (\<lambda>b. if b \<in> B then None else m b)"

definition nodes_without ::
    "(nat \<Rightarrow> write_buffer option) \<Rightarrow> nat set \<Rightarrow> nat \<Rightarrow> write_buffer option" where
  "nodes_without nd A = (\<lambda>a. if a \<in> A then None else nd a)"

lemma read_mem_without [simp]: "fst ptr \<notin> B \<Longrightarrow> read_mem (mem_without m B) ptr n = read_mem m ptr n"
  by (simp add: read_mem_def mem_without_def)

lemma node_ok_without: "node_ok m si wb \<Longrightarrow> fst (wb_ptr wb) \<notin> B \<Longrightarrow> node_ok (mem_without m B) si wb"
  by (auto simp: node_ok_def)

lemma free_wb_loop_ok:
  assumes "chain (nx (nodes s)) q xs None" "\<And>a. a \<in> set xs \<Longrightarrow> \<exists>wb. nodes s a = Some wb \<and>
      node_ok (mem ss) (soi ss) wb"
    "\<And>a b wa wb. a \<noteq> b \<Longrightarrow> nodes s a = Some wa \<Longrightarrow> nodes s b = Some wb
       \<Longrightarrow> fst (wb_ptr wa) \<noteq> fst (wb_ptr wb)"
  shows "free_wb_loop q ss s = Some
     (ss\<lparr>mem := mem_without (mem ss) ((\<lambda>a. fst (wb_ptr (the (nodes s a)))) ` set xs)\<rparr>,
      s\<lparr>nodes := nodes_without (nodes s) (set xs)\<rparr>)"
  using assms
proof (induction xs arbitrary: q ss s)
  case Nil
  then show ?case by (subst free_wb_loop.simps) (simp add: mem_without_def nodes_without_def)
next
  case (Cons a xs)
  obtain wb where wb: "nodes s a = Some wb" "node_ok (mem ss) (soi ss) wb"
    using Cons.prems(2) [of a] by auto
  have ax: "a \<notin> set xs" using chain_distinct [OF Cons.prems(1)] by simp
  let ?ss = "ss\<lparr>mem := (mem ss)(fst (wb_ptr wb) := None)\<rparr>"
  let ?s = "s\<lparr>nodes := (nodes s)(a := None)\<rparr>"
  have IH: "free_wb_loop (wb_next wb) ?ss ?s = Some
     (?ss\<lparr>mem := mem_without (mem ?ss) ((\<lambda>a. fst (wb_ptr (the (nodes ?s a)))) ` set xs)\<rparr>,
      ?s\<lparr>nodes := nodes_without (nodes ?s) (set xs)\<rparr>)"
  proof (rule Cons.IH)
    show "chain (nx (nodes ?s)) (wb_next wb) xs None"
    proof -
      have "nx (nodes s) a = wb_next wb" using wb(1) by (simp add: nx_def)
      then show ?thesis using Cons.prems(1) ax by simp
    qed
    fix b assume b: "b \<in> set xs"
    then obtain w where w: "nodes s b = Some w" "node_ok (mem ss) (soi ss) w"
      using Cons.prems(2) by auto
    have ba: "b \<noteq> a" using b ax by auto
    then have "fst (wb_ptr w) \<noteq> fst (wb_ptr wb)" using Cons.prems(3) w(1) wb(1) by blast
    then show "\<exists>w. nodes ?s b = Some w \<and> node_ok (mem ?ss) (soi ?ss) w"
      using w ba by (auto intro: node_ok_upd)
  next
    fix b c wb wc assume "b \<noteq> c" "nodes ?s b = Some wb" "nodes ?s c = Some wc"
    then show "fst (wb_ptr wb) \<noteq> fst (wb_ptr wc)"
      using Cons.prems(3) by (auto split: if_splits)
  qed
  have q: "q = Some a" using Cons.prems(1) by simp
  have img: "(\<lambda>x. fst (wb_ptr (the (nodes ?s x)))) ` set xs
      = (\<lambda>x. fst (wb_ptr (the (nodes s x)))) ` set xs"
    using ax by (intro image_cong) auto
  have m: "mem_without ((mem ss)(fst (wb_ptr wb) := None)) B
      = mem_without (mem ss) (insert (fst (wb_ptr wb)) B)" for B
    by (auto simp: mem_without_def)
  have n: "nodes_without ((nodes s)(a := None)) B = nodes_without (nodes s) (insert a B)" for B
    by (auto simp: nodes_without_def)
  have step: "free_wb_loop q ss s = free_wb_loop (wb_next wb) ?ss ?s"
    unfolding q by (subst free_wb_loop.simps) (simp add: wb write_buffer_free_ok)
  have m': "mem_without (mem ?ss) ((\<lambda>x. fst (wb_ptr (the (nodes ?s x)))) ` set xs)
      = mem_without (mem ss) ((\<lambda>x. fst (wb_ptr (the (nodes s x)))) ` set (a # xs))"
    unfolding img using m wb(1) by simp
  have n': "nodes_without (nodes ?s) (set xs) = nodes_without (nodes s) (set (a # xs))"
    using n by simp
  show ?case unfolding step IH m' n' by simp
qed

lemma free_lists_ok:
  assumes ok: "lists_ok (mem ss) (soi ss) s L"
  shows "do { (ss, s) \<leftarrow> free_wb_list PRIORITY_HIGH ss s; free_wb_list PRIORITY_LOW ss s }
     = Some (ss\<lparr>mem := mem_without (mem ss) (blocks_in (nodes s))\<rparr>,
         s\<lparr>high := clear_wb_list, low := clear_wb_list, nodes := (\<lambda>a. None)\<rparr>)"
proof -
  let ?H = "set (L PRIORITY_HIGH)" and ?W = "set (L PRIORITY_LOW)"
  let ?B = "\<lambda>A. (\<lambda>a. fst (wb_ptr (the (nodes s a)))) ` A"
  let ?ss = "ss\<lparr>mem := mem_without (mem ss) (?B ?H)\<rparr>"
  let ?s = "s\<lparr>high := clear_wb_list, nodes := nodes_without (nodes s) ?H\<rparr>"
  have dis: "?H \<inter> ?W = {}" and dm: "dom (nodes s) = ?H \<union> ?W"
    using lists_okD(2,3) [OF ok] by auto
  have 1: "free_wb_list PRIORITY_HIGH ss s = Some (?ss, ?s)"
    unfolding free_wb_list_def
    using free_wb_loop_ok [OF lists_okD(1) [OF ok, of PRIORITY_HIGH] lists_in [OF ok] lists_okD(5) [OF ok]]
    by (simp add: set_wb_list_def)
  have keepB: "fst (wb_ptr w) \<notin> ?B ?H" if "nodes s b = Some w" "b \<in> ?W" for b w
  proof
    assume "fst (wb_ptr w) \<in> ?B ?H"
    then obtain a where a: "a \<in> ?H" "fst (wb_ptr w) = fst (wb_ptr (the (nodes s a)))" by auto
    then obtain wa where "nodes s a = Some wa" using dm by blast
    then show False using lists_okD(5) [OF ok, of a b wa w] a dis that by auto
  qed
  have "free_wb_loop (wl_head (wb_list_of PRIORITY_LOW ?s)) ?ss ?s = Some
     (?ss\<lparr>mem := mem_without (mem ?ss) ((\<lambda>a. fst (wb_ptr (the (nodes ?s a)))) ` ?W)\<rparr>,
      ?s\<lparr>nodes := nodes_without (nodes ?s) ?W\<rparr>)"
  proof (rule free_wb_loop_ok)
    have "chain (nx (nodes ?s)) (wl_head (low s)) (L PRIORITY_LOW) None
        = chain (nx (nodes s)) (wl_head (low s)) (L PRIORITY_LOW) None"
      using dis by (intro chain_cong) (auto simp: nx_def nodes_without_def)
    then show "chain (nx (nodes ?s)) (wl_head (wb_list_of PRIORITY_LOW ?s)) (L PRIORITY_LOW) None"
      using lists_okD(1) [OF ok, of PRIORITY_LOW] by (simp add: wb_list_of_def)
    fix b assume b: "b \<in> ?W"
    then obtain w where w: "nodes s b = Some w" "node_ok (mem ss) (soi ss) w"
      using lists_in [OF ok] by blast
    have "b \<notin> ?H" using b dis by auto
    moreover have "node_ok (mem_without (mem ss) (?B ?H)) (soi ss) w"
      using w keepB [OF w(1) b] by (blast intro: node_ok_without)
    ultimately show "\<exists>w. nodes ?s b = Some w \<and> node_ok (mem ?ss) (soi ?ss) w"
      using w by (simp add: nodes_without_def)
  next
    fix b c wb wc assume "b \<noteq> c" "nodes ?s b = Some wb" "nodes ?s c = Some wc"
    then show "fst (wb_ptr wb) \<noteq> fst (wb_ptr wc)"
      using lists_okD(5) [OF ok] by (auto simp: nodes_without_def split: if_splits)
  qed
  moreover have "(\<lambda>a. fst (wb_ptr (the (nodes ?s a)))) ` ?W = ?B ?W"
    using dis by (intro image_cong) (auto simp: nodes_without_def)
  moreover have "?B ?H \<union> ?B ?W = blocks_in (nodes s)"
  proof -
    have "?B (?H \<union> ?W) = blocks_in (nodes s)"
      unfolding dm [symmetric] blocks_in_def by force
    then show ?thesis by (simp add: image_Un)
  qed
  moreover have "mem_without (mem_without m A) B = mem_without m (A \<union> B)" for m A B
    by (auto simp: mem_without_def)
  moreover have "nodes_without (nodes_without (nodes s) ?H) ?W = (\<lambda>a. None)"
  proof
    fix a
    show "nodes_without (nodes_without (nodes s) ?H) ?W a = None"
      using dm by (cases "nodes s a") (auto simp: nodes_without_def)
  qed
  ultimately have "free_wb_list PRIORITY_LOW ?ss ?s = Some
     (ss\<lparr>mem := mem_without (mem ss) (blocks_in (nodes s))\<rparr>,
         s\<lparr>high := clear_wb_list, low := clear_wb_list, nodes := (\<lambda>a. None)\<rparr>)"
    by (simp add: free_wb_list_def set_wb_list_def)
  with 1 show ?thesis by simp
qed

section \<open>Writing a list to the kernel\<close>

text \<open>
  The list \<open>p\<close> has shrunk to \<open>zs\<close> because the bytes \<open>w\<close> went to the kernel, \<open>k\<close> of them from the
  message that is now its head; nothing else has changed.
\<close>

definition wb_advanced :: "write_buffer \<Rightarrow> write_buffer \<Rightarrow> nat \<Rightarrow> bool" where
  "wb_advanced wb wb' k \<longleftrightarrow> wb_buffer wb' = wb_buffer wb \<and> wb_udp wb' = wb_udp wb
     \<and> wb_ptr wb' = (fst (wb_ptr wb), snd (wb_ptr wb) + k)"

definition sent :: "priority \<Rightarrow> socket_server \<Rightarrow> socket \<Rightarrow> (priority \<Rightarrow> nat list)
    \<Rightarrow> socket_server \<Rightarrow> socket \<Rightarrow> nat list \<Rightarrow> bytes \<Rightarrow> nat \<Rightarrow> bool" where
  "sent p ss s L ss' s' zs w k \<longleftrightarrow>
     lists_ok (mem ss') (soi ss') s' (L(p := zs))
     \<and> drained (msgs (mem ss) (nodes s) (L p)) w (msgs (mem ss') (nodes s') zs) k
     \<and> (\<forall>q. q \<noteq> p \<longrightarrow> msgs (mem ss') (nodes s') (L q) = msgs (mem ss) (nodes s) (L q))
     \<and> out s' = out s @ w
     \<and> (\<forall>b. mem ss' b = mem ss b \<or> b \<in> blocks_in (nodes s) \<and> mem ss' b = None)
     \<and> (\<exists>m os. ss' = ss\<lparr>mem := m, sys := os\<rparr>)
     \<and> (\<exists>wl z st nd o'. s' = set_wb_list p wl (s\<lparr>wb_size := z, stat := st, nodes := nd, out := o'\<rparr>))
     \<and> (\<forall>a wb'. nodes s' a = Some wb' \<longrightarrow> (\<exists>wb. nodes s a = Some wb
          \<and> wb_advanced wb wb' (if zs \<noteq> [] \<and> a = hd zs then k else 0)))"

lemma stat_write_fields [simp]:
  "nodes (stat_write ss s n) = nodes s" "wb_size (stat_write ss s n) = wb_size s"
  "out (stat_write ss s n) = out s" "wb_list_of p (stat_write ss s n) = wb_list_of p s"
  by (cases p; simp add: stat_write_def wb_list_of_def)+

lemma wb_advanced_0 [simp]: "wb_advanced wb wb 0"
  by (simp add: wb_advanced_def)

lemma wb_advanced_trans: "wb_advanced wb wb1 0 \<Longrightarrow> wb_advanced wb1 wb2 k \<Longrightarrow> wb_advanced wb wb2 k"
  by (simp add: wb_advanced_def)

lemma lists_ok_cong:
  assumes "lists_ok m si s L" "\<And>p. wl_head (wb_list_of p s') = wl_head (wb_list_of p s)"
    "nodes s' = nodes s" "wb_size s' = wb_size s"
  shows "lists_ok m si s' L"
  using assms by (simp add: lists_ok_def)

lemma set_wb_list_same:
  "set_wb_list p (wb_list_of p s) s = s"
  by (cases p) (simp_all add: set_wb_list_def wb_list_of_def)

lemma sent_refl:
  assumes ok: "lists_ok (mem ss) (soi ss) s L"
    and wl: "wl_head wl = wl_head (wb_list_of p s)"
  shows "sent p ss s L (ss\<lparr>sys := os\<rparr>) (set_wb_list p wl s) (L p) [] 0"
proof -
  have "lists_ok (mem ss) (soi ss) (set_wb_list p wl s) L"
    by (rule lists_ok_cong [OF ok]) (simp_all add: wl)
  moreover have "\<exists>m os'. ss\<lparr>sys := os\<rparr> = ss\<lparr>mem := m, sys := os'\<rparr>"
    by (rule exI [of _ "mem ss"], rule exI [of _ os]) simp
  moreover have "\<exists>wl' z st nd o'. set_wb_list p wl s
      = set_wb_list p wl' (s\<lparr>wb_size := z, stat := st, nodes := nd, out := o'\<rparr>)"
    by (rule exI [of _ wl], rule exI [of _ "wb_size s"], rule exI [of _ "stat s"],
        rule exI [of _ "nodes s"], rule exI [of _ "out s"]) simp
  ultimately show ?thesis by (simp add: sent_def drained.intros)
qed

lemma sent_refl': "lists_ok (mem ss) (soi ss) s L \<Longrightarrow> sent p ss s L (ss\<lparr>sys := os\<rparr>) s (L p) [] 0"
  using sent_refl [of ss s L "wb_list_of p s" p os] by (simp add: set_wb_list_same)

text \<open>One write that takes a whole message.\<close>

lemma tcp_pop:
  fixes n :: int
  assumes ok: "lists_ok (mem ss) (soi ss) s L" and Lp: "L p = a # zs" and a: "nodes s a = Some wb"
  defines "bs \<equiv> node_bytes (mem ss) wb"
  defines "s1 \<equiv> (stat_write ss s n)\<lparr>out := out s @ bs, wb_size := wb_size s - int (wb_sz wb)\<rparr>"
  defines "s2 \<equiv> set_wb_list p ((wb_list_of p s1)\<lparr>wl_head := wb_next wb\<rparr>) s1"
  shows "\<exists>ss' s'. write_buffer_free ss s2 a = Some (ss', s')
     \<and> lists_ok (mem ss') (soi ss') s' (L(p := zs))
     \<and> wl_tail (wb_list_of p s') = wl_tail (wb_list_of p s)
     \<and> (\<forall>zs' w k ss'' s''. sent p ss' s' (L(p := zs)) ss'' s'' zs' w k
          \<longrightarrow> sent p ss s L ss'' s'' zs' (bs @ w) k)"
proof -
  have wb: "node_ok (mem ss) (soi ss) wb" by (rule lists_okD(4) [OF ok a])
  let ?ss = "ss\<lparr>mem := (mem ss)(fst (wb_ptr wb) := None)\<rparr>"
  let ?s = "s2\<lparr>nodes := (nodes s)(a := None)\<rparr>"
  have wf: "write_buffer_free ss s2 a = Some (?ss, ?s)"
    using a wb by (simp add: s2_def s1_def write_buffer_free_ok)
  have heads: "wl_head (wb_list_of q ?s) = (if q = p then wb_next wb else wl_head (wb_list_of q s))" for q
    by (simp add: s2_def s1_def)
  have pop: "lists_ok (mem ?ss) (soi ss) ?s (L(p := zs))"
    "msgs (mem ?ss) (nodes ?s) zs = msgs (mem ss) (nodes s) zs"
    "q \<noteq> p \<Longrightarrow> msgs (mem ?ss) (nodes ?s) (L q) = msgs (mem ss) (nodes s) (L q)" for q
    using lists_ok_pop [OF ok Lp a, where s' = ?s and m' = "mem ?ss"] heads
    by (simp_all add: s2_def s1_def)
  have head: "msgs (mem ss) (nodes s) (L p) = bs # msgs (mem ss) (nodes s) zs"
    using Lp a by (simp add: msgs_def bs_def)
  have blk: "fst (wb_ptr wb) \<in> blocks_in (nodes s)" by (rule blocks_inI [of _ a]) (rule a)
  have "sent p ss s L ss'' s'' zs' (bs @ w) k" if st: "sent p ?ss ?s (L(p := zs)) ss'' s'' zs' w k"
    for zs' w k ss'' s''
  proof -
    have d: "drained (msgs (mem ss) (nodes s) (L p)) (bs @ w) (msgs (mem ss'') (nodes s'') zs') k"
      using st pop(2) head by (auto simp: sent_def intro: drained.intros)
    have o: "\<forall>q. q \<noteq> p \<longrightarrow> msgs (mem ss'') (nodes s'') (L q) = msgs (mem ss) (nodes s) (L q)"
      using st pop(3) by (simp add: sent_def)
    have "mem ss'' b = mem ss b \<or> b \<in> blocks_in (nodes s) \<and> mem ss'' b = None" for b
    proof -
      have "blocks_in (nodes ?s) \<subseteq> blocks_in (nodes s)" by (auto simp: blocks_in_def split: if_splits)
      moreover have "mem ss'' b = mem ?ss b \<or> b \<in> blocks_in (nodes ?s) \<and> mem ss'' b = None"
        using st by (simp add: sent_def)
      ultimately show ?thesis using blk by (auto split: if_splits)
    qed
    moreover obtain m os where "ss'' = ?ss\<lparr>mem := m, sys := os\<rparr>" using st unfolding sent_def by blast
    then have "\<exists>m os. ss'' = ss\<lparr>mem := m, sys := os\<rparr>" by auto
    moreover obtain wl z st' nd o' where
      "s'' = set_wb_list p wl (?s\<lparr>wb_size := z, stat := st', nodes := nd, out := o'\<rparr>)"
      using st unfolding sent_def by blast
    then have "s'' = set_wb_list p wl (s\<lparr>wb_size := z, stat := st', nodes := nd, out := o'\<rparr>)"
      by (cases p) (simp_all add: s2_def s1_def stat_write_def set_wb_list_def)
    then have "\<exists>wl z st nd o'. s'' = set_wb_list p wl (s\<lparr>wb_size := z, stat := st, nodes := nd, out := o'\<rparr>)"
      by blast
    moreover have "\<exists>wb. nodes s b = Some wb \<and> wb_advanced wb wb' (if zs' \<noteq> [] \<and> b = hd zs' then k else 0)"
      if b: "nodes s'' b = Some wb'" for b wb'
    proof -
      obtain w where "nodes ?s b = Some w" "wb_advanced w wb' (if zs' \<noteq> [] \<and> b = hd zs' then k else 0)"
        using st b unfolding sent_def by blast
      then show ?thesis by (auto split: if_splits)
    qed
    moreover have "lists_ok (mem ss'') (soi ss'') s'' (L(p := zs'))" "out s'' = out s @ bs @ w"
      using st by (simp_all add: sent_def s2_def s1_def)
    ultimately show ?thesis using d o unfolding sent_def by blast
  qed
  then show ?thesis using wf pop(1) by (simp add: s2_def s1_def)
qed

lemma tcp_trim:
  fixes n :: int
  assumes ok: "lists_ok (mem ss) (soi ss) s L" and Lp: "L p = a # zs" and a: "nodes s a = Some wb"
    and k: "k \<le> wb_sz wb"
  defines "bs \<equiv> node_bytes (mem ss) wb"
  defines "s1 \<equiv> (stat_write ss s n)\<lparr>out := out s @ take k bs, wb_size := wb_size s - int k\<rparr>"
  defines "s2 \<equiv> s1\<lparr>nodes := (nodes s)(a := Some
      (wb\<lparr>wb_ptr := (fst (wb_ptr wb), snd (wb_ptr wb) + k), wb_sz := wb_sz wb - k\<rparr>))\<rparr>"
  shows "sent p ss s L (ss\<lparr>sys := os\<rparr>) s2 (a # zs) (take k bs) k"
    and "wl_tail (wb_list_of p s2) = wl_tail (wb_list_of p s)"
proof -
  have wb: "node_ok (mem ss) (soi ss) wb" by (rule lists_okD(4) [OF ok a])
  have trim: "lists_ok (mem ss) (soi ss) s2 L"
    "msgs (mem ss) (nodes s2) (a # zs) = drop k bs # msgs (mem ss) (nodes s) zs"
    "a \<notin> set xs \<Longrightarrow> msgs (mem ss) (nodes s2) xs = msgs (mem ss) (nodes s) xs" for xs
    using lists_ok_trim [OF ok a k, where s' = s2] Lp by (simp_all add: s2_def s1_def bs_def)
  have "drained (msgs (mem ss) (nodes s) (L p)) (take k bs) (msgs (mem ss) (nodes s2) (a # zs)) k"
    unfolding trim(2) using Lp a k length_node_bytes [OF wb]
    by (auto simp: msgs_def bs_def intro: drained.intros(2))
  moreover have "a \<notin> set (L q)" if "q \<noteq> p" for q
    using lists_disjoint [OF ok, of p q] that Lp by auto
  moreover have "\<exists>m os'. ss\<lparr>sys := os\<rparr> = ss\<lparr>mem := m, sys := os'\<rparr>"
    by (rule exI [of _ "mem ss"], rule exI [of _ os]) simp
  moreover have "\<exists>wl z st nd o'. s2 = set_wb_list p wl (s\<lparr>wb_size := z, stat := st, nodes := nd, out := o'\<rparr>)"
    by (rule exI [of _ "wb_list_of p s"], rule exI [of _ "wb_size s2"], rule exI [of _ "stat s2"],
        rule exI [of _ "nodes s2"], rule exI [of _ "out s2"])
      (cases p; simp add: s2_def s1_def stat_write_def set_wb_list_def wb_list_of_def)
  moreover have "L(p := a # zs) = L" using Lp by auto
  moreover have "\<forall>b wb'. nodes s2 b = Some wb' \<longrightarrow> (\<exists>w. nodes s b = Some w
      \<and> wb_advanced w wb' (if b = a then k else 0))"
    using a by (auto simp: s2_def wb_advanced_def)
  ultimately show "sent p ss s L (ss\<lparr>sys := os\<rparr>) s2 (a # zs) (take k bs) k"
    using trim(1,3) by (simp add: sent_def s2_def s1_def)
  show "wl_tail (wb_list_of p s2) = wl_tail (wb_list_of p s)" by (simp add: s2_def s1_def)
qed

lemma send_tcp_loop_ok:
  assumes "lists_ok (mem ss) (soi ss) s L" "L p \<noteq> [] \<Longrightarrow> wl_tail (wb_list_of p s) = Some (last (L p))"
  shows "\<exists>ss' s' zs w k. sent p ss s L ss' s' zs w k \<and> tail_ok (wb_list_of p s') zs
     \<and> (send_tcp_loop os p ss s l = Some (SOCKET_NONE, ss', s')
        \<or> (\<exists>e. k = 0 \<and> zs \<noteq> [] \<and> send_tcp_loop os p ss s l = close_write e ss' s' l))"
  using assms
proof (induction os arbitrary: ss s L)
  case Nil
  show ?case
  proof (cases "L p")
    case Nil
    then have h: "wl_head (wb_list_of p s) = None" using lists_okD(1) [OF Nil.prems(1), of p] by simp
    let ?s = "set_wb_list p ((wb_list_of p s)\<lparr>wl_tail := None\<rparr>) s"
    have "sent p ss s L (ss\<lparr>sys := []\<rparr>) ?s (L p) [] 0" by (rule sent_refl [OF Nil.prems(1)]) simp
    moreover have "send_tcp_loop ([]) p ss s l = Some (SOCKET_NONE, ss\<lparr>sys := []\<rparr>, ?s)"
      using h by (subst send_tcp_loop.simps) simp
    moreover have "tail_ok (wb_list_of p ?s) (L p)" using Nil by (simp add: tail_ok_def)
    ultimately show ?thesis by blast
  next
    case (Cons a zs)
    then have h: "wl_head (wb_list_of p s) = Some a" using lists_okD(1) [OF Nil.prems(1), of p] by simp
    obtain wb where "nodes s a = Some wb" using lists_in [OF Nil.prems(1), of a p] Cons by auto
    then have e: "send_tcp_loop [] p ss s l = Some (SOCKET_NONE, ss\<lparr>sys := []\<rparr>, s)"
      using h by (subst send_tcp_loop.simps) simp
    have "tail_ok (wb_list_of p s) (L p)" using Nil.prems(2) Cons by (simp add: tail_ok_def)
    with e show ?thesis using sent_refl' [OF Nil.prems(1)] by blast
  qed
next
  case (Cons oc os)
  note ok = Cons.prems(1)
  show ?case
  proof (cases "L p")
    case Nil
    then have h: "wl_head (wb_list_of p s) = None" using lists_okD(1) [OF ok, of p] by simp
    let ?s = "set_wb_list p ((wb_list_of p s)\<lparr>wl_tail := None\<rparr>) s"
    have "sent p ss s L (ss\<lparr>sys := oc # os\<rparr>) ?s (L p) [] 0" by (rule sent_refl [OF ok]) simp
    moreover have "send_tcp_loop (oc # os) p ss s l = Some (SOCKET_NONE, ss\<lparr>sys := oc # os\<rparr>, ?s)"
      using h by (subst send_tcp_loop.simps) simp
    moreover have "tail_ok (wb_list_of p ?s) (L p)" using Nil by (simp add: tail_ok_def)
    ultimately show ?thesis by blast
  next
    case (Cons a zs)
    then have h: "wl_head (wb_list_of p s) = Some a" using lists_okD(1) [OF ok, of p] by simp
    obtain wb where a: "nodes s a = Some wb" and wb: "node_ok (mem ss) (soi ss) wb"
      using lists_in [OF ok, of a p] Cons by auto
    have tl: "tail_ok (wb_list_of p s) (L p)" using Cons.prems(2) Cons by (simp add: tail_ok_def)
    show ?thesis
    proof (cases "\<exists>n. oc = Ret n")
      case True
      then obtain n where n: "oc = Ret n" by blast
      define k where "k = min (nat n) (wb_sz wb)"
      show ?thesis
      proof (cases "k = wb_sz wb")
        case False
        then have k: "k \<le> wb_sz wb" by (simp add: k_def)
        note t = tcp_trim [OF ok Cons a k, where n = "c_int (int k)"]
        let ?s = "((stat_write ss s (c_int (int k)))\<lparr>out := out s @ take k (node_bytes (mem ss) wb),
              wb_size := wb_size s - int k\<rparr>)\<lparr>nodes := (nodes s)(a := Some
                (wb\<lparr>wb_ptr := (fst (wb_ptr wb), snd (wb_ptr wb) + k), wb_sz := wb_sz wb - k\<rparr>))\<rparr>"
        have "send_tcp_loop (oc # os) p ss s l = Some (SOCKET_NONE, ss\<lparr>sys := os\<rparr>, ?s)"
          using h a n False by (subst send_tcp_loop.simps)
            (simp add: node_ok_bytes [OF wb] Let_def k_def [symmetric])
        moreover have "tail_ok (wb_list_of p ?s) (a # zs)"
          using t(2) tl Cons by (simp add: tail_ok_def)
        ultimately show ?thesis using t(1) by blast
      next
        case True
        obtain ss1 s1 where p1: "write_buffer_free ss (set_wb_list p
              ((wb_list_of p ((stat_write ss s (c_int (int k)))\<lparr>out := out s @ node_bytes (mem ss) wb,
                 wb_size := wb_size s - int (wb_sz wb)\<rparr>))\<lparr>wl_head := wb_next wb\<rparr>)
              ((stat_write ss s (c_int (int k)))\<lparr>out := out s @ node_bytes (mem ss) wb,
                 wb_size := wb_size s - int (wb_sz wb)\<rparr>)) a = Some (ss1, s1)"
          and p2: "lists_ok (mem ss1) (soi ss1) s1 (L(p := zs))"
            "wl_tail (wb_list_of p s1) = wl_tail (wb_list_of p s)"
          and p3: "\<And>zs' w k ss'' s''. sent p ss1 s1 (L(p := zs)) ss'' s'' zs' w k
             \<Longrightarrow> sent p ss s L ss'' s'' zs' (node_bytes (mem ss) wb @ w) k"
          using tcp_pop [OF ok Cons a, of "c_int (int k)"] by blast
        have tk: "take (wb_sz wb) (node_bytes (mem ss) wb) = node_bytes (mem ss) wb"
          using length_node_bytes [OF wb] by simp
        have e: "send_tcp_loop (oc # os) p ss s l = send_tcp_loop os p ss1 s1 l"
          using h a n p1 True by (subst send_tcp_loop.simps)
            (simp add: node_ok_bytes [OF wb] Let_def k_def [symmetric] tk)
        have "(L(p := zs)) p \<noteq> [] \<Longrightarrow> wl_tail (wb_list_of p s1) = Some (last ((L(p := zs)) p))"
          using p2(2) Cons.prems(2) Cons by simp
        from Cons.IH [OF p2(1) this] show ?thesis unfolding e using p3 by blast
      qed
    next
      case False
      let ?e = "outcome_errno (Some oc)"
      have e: "send_tcp_loop (oc # os) p ss s l =
         (if ?e = EINTR then send_tcp_loop os p ss s l
          else if ?e = EAGAIN then Some (SOCKET_NONE, ss\<lparr>sys := os\<rparr>, s)
          else close_write ?e (ss\<lparr>sys := os\<rparr>) s l)"
        using h a False by (subst send_tcp_loop.simps) (cases oc; simp)
      show ?thesis
      proof (cases "?e = EINTR")
        case True
        with e Cons.IH [OF ok Cons.prems(2)] show ?thesis by simp
      next
        case False
        have "sent p ss s L (ss\<lparr>sys := os\<rparr>) s (L p) [] 0" by (rule sent_refl' [OF ok])
        then show ?thesis using e False tl Cons by (cases "?e = EAGAIN") (simp_all, blast+)
      qed
    qed
  qed
qed

end
