(* ===== verification/SocketSend.thy ===== *)
theory SocketSend
  imports SocketLists
begin

text \<open>
  What a socket of skynet-src/socket_server.c holds and sends: closing it, and \<open>send_buffer\<close>,
  which hands the high list and then the low list to the kernel.
\<close>

section \<open>The data of a socket\<close>

text \<open>
  The buffer outside the lists: the one a direct write is working on, or what a direct write left
  over: its pointer, its size and how much of it is written.
\<close>

definition held :: "socket_server \<Rightarrow> socket \<Rightarrow> ((nat \<times> nat) \<times> nat \<times> nat) option" where
  "held ss s = (case direct s of
       Some buf \<Rightarrow> (case send_object_init_from_sendbuffer ss buf of (ptr, n) \<Rightarrow> Some (ptr, n, 0))
     | None \<Rightarrow> (case dw_buffer s of
         Some b \<Rightarrow> (case send_object_init ss b (dw_size s) of (ptr, n, user) \<Rightarrow> Some (ptr, n, dw_offset s))
       | None \<Rightarrow> None))"

definition held_ok :: "socket_server \<Rightarrow> socket \<Rightarrow> bool" where
  "held_ok ss s \<longleftrightarrow> (case held ss s of None \<Rightarrow> True | Some (ptr, n, k) \<Rightarrow>
       read_mem (mem ss) ptr n \<noteq> None \<and> k \<le> n \<and> fst ptr \<notin> blocks_in (nodes s))"

definition held_bytes :: "socket_server \<Rightarrow> socket \<Rightarrow> bytes" where
  "held_bytes ss s = (case held ss s of None \<Rightarrow> [] | Some (ptr, n, k) \<Rightarrow>
       drop k (the (read_mem (mem ss) ptr n)))"

definition sblocks :: "socket_server \<Rightarrow> socket \<Rightarrow> nat set" where
  "sblocks ss s = blocks_in (nodes s)
     \<union> (case held ss s of None \<Rightarrow> {} | Some (ptr, n, k) \<Rightarrow> {fst ptr})"

text \<open>
  The socket holds the bytes \<open>hi\<close>, to be sent in this order before anything else, and then the
  messages \<open>lo\<close> of its low list, of which nothing is sent yet.
\<close>

definition low_fresh :: "socket \<Rightarrow> nat list \<Rightarrow> bool" where
  "low_fresh s ys \<longleftrightarrow> (\<forall>a\<in>set ys. \<forall>wb. nodes s a = Some wb \<longrightarrow> wb_ptr wb = (wb_buffer wb, 0))"

definition socket_data :: "socket_server \<Rightarrow> socket \<Rightarrow> (priority \<Rightarrow> nat list) \<Rightarrow> bytes \<Rightarrow> bytes list \<Rightarrow> bool" where
  "socket_data ss s L hi lo \<longleftrightarrow>
     lists_ok (mem ss) (soi ss) s L \<and> (\<forall>p. tail_ok (wb_list_of p s) (L p))
     \<and> low_fresh s (L PRIORITY_LOW) \<and> (\<forall>a\<in>dom (nodes s). a < brk ss)
     \<and> held_ok ss s \<and> (direct s \<noteq> None \<longrightarrow> dw_buffer s = None)
     \<and> hi = held_bytes ss s @ concat (msgs (mem ss) (nodes s) (L PRIORITY_HIGH))
     \<and> lo = msgs (mem ss) (nodes s) (L PRIORITY_LOW)"

text \<open>Which sockets hold data.\<close>

definition idle_types :: "socket_type set" where
  "idle_types = {SOCKET_TYPE_INVALID, SOCKET_TYPE_RESERVE, SOCKET_TYPE_PACCEPT,
     SOCKET_TYPE_PLISTEN, SOCKET_TYPE_LISTEN}"

definition socket_flags :: "socket \<Rightarrow> bool" where
  "socket_flags s \<longleftrightarrow>
     (stype s \<in> idle_types \<longrightarrow> nodes s = Map.empty \<and> dw_buffer s = None \<and> direct s = None)
     \<and> (protocol s \<noteq> PROTOCOL_TCP \<longrightarrow> dw_buffer s = None \<and> direct s = None
          \<and> (\<forall>a wb. nodes s a = Some wb \<longrightarrow> wb_udp wb \<noteq> None))
     \<and> (direct s \<noteq> None \<longleftrightarrow> dw_lock s)"

definition socket_inv :: "socket_server \<Rightarrow> socket \<Rightarrow> bytes \<Rightarrow> bytes list \<Rightarrow> bool" where
  "socket_inv ss s hi lo \<longleftrightarrow> socket_flags s \<and>
     (if stype s = SOCKET_TYPE_INVALID \<or> stype s = SOCKET_TYPE_RESERVE then
        high s = clear_wb_list \<and> low s = clear_wb_list \<and> hi = [] \<and> lo = []
      else \<exists>L. socket_data ss s L hi lo)"

definition mem_ok :: "socket_server \<Rightarrow> bool" where
  "mem_ok ss \<longleftrightarrow> (\<forall>b. mem ss b \<noteq> None \<longrightarrow> b < brk ss)"

text \<open>
  An operation on one socket that was handed the blocks \<open>N\<close> and may have allocated others:
  it keeps every other block, and the socket holds no block that was not its own.
\<close>

definition core_same :: "socket_server \<Rightarrow> socket_server \<Rightarrow> bool" where
  "core_same ss ss' \<longleftrightarrow> stime ss' = stime ss \<and> checkctrl ss' = checkctrl ss
     \<and> alloc_id ss' = alloc_id ss \<and> event_index ss' = event_index ss \<and> ev ss' = ev ss
     \<and> soi ss' = soi ss \<and> pipe ss' = pipe ss"

definition confined :: "nat set \<Rightarrow> socket_server \<Rightarrow> socket \<Rightarrow> socket_server \<Rightarrow> socket \<Rightarrow> bool" where
  "confined N ss s ss' s' \<longleftrightarrow>
     core_same ss ss' \<and> mem_ok ss' \<and> brk ss \<le> brk ss'
     \<and> (\<forall>b. b < brk ss \<and> b \<notin> sblocks ss s \<union> N \<longrightarrow> mem ss' b = mem ss b)
     \<and> sblocks ss' s' \<subseteq> sblocks ss s \<union> N \<union> {brk ss..}
     \<and> sid s' = sid s \<and> protocol s' = protocol s"

lemma core_same_refl [simp]: "core_same ss ss"
  by (simp add: core_same_def)

lemma core_same_trans: "core_same ss ss1 \<Longrightarrow> core_same ss1 ss2 \<Longrightarrow> core_same ss ss2"
  by (simp add: core_same_def)

lemma confined_refl: "mem_ok ss \<Longrightarrow> confined N ss s ss s"
  by (auto simp: confined_def)

lemma confined_trans:
  assumes 1: "confined N ss s ss1 s1" and 2: "confined {} ss1 s1 ss2 s2"
  shows "confined N ss s ss2 s2"
proof -
  have "core_same ss ss2" using 1 2 core_same_trans by (auto simp: confined_def)
  moreover have "mem ss2 x = mem ss x" if "x < brk ss" "x \<notin> sblocks ss s \<union> N" for x
  proof -
    have "x \<notin> sblocks ss1 s1" "x < brk ss1" using 1 that by (auto simp: confined_def)
    then show ?thesis using 1 2 that by (simp add: confined_def)
  qed
  moreover have "sblocks ss2 s2 \<subseteq> sblocks ss s \<union> N \<union> {brk ss..}"
    using 1 2 by (auto simp: confined_def)
  ultimately show ?thesis using 1 2 by (simp add: confined_def)
qed

subsection \<open>Changes that leave the data alone\<close>

definition same_data :: "socket \<Rightarrow> socket \<Rightarrow> bool" where
  "same_data s s' \<longleftrightarrow> high s' = high s \<and> low s' = low s \<and> wb_size s' = wb_size s
     \<and> nodes s' = nodes s \<and> dw_buffer s' = dw_buffer s \<and> dw_size s' = dw_size s
     \<and> dw_offset s' = dw_offset s \<and> direct s' = direct s"

definition same_mem :: "socket_server \<Rightarrow> socket_server \<Rightarrow> bool" where
  "same_mem ss ss' \<longleftrightarrow> core_same ss ss' \<and> mem ss' = mem ss \<and> brk ss' = brk ss"

lemma same_memD:
  "same_mem ss ss' \<Longrightarrow> mem ss' = mem ss \<and> soi ss' = soi ss \<and> brk ss' = brk ss"
  by (auto simp: same_mem_def core_same_def)

lemma same_mem_refl [simp]: "same_mem ss ss"
  by (simp add: same_mem_def)

lemma same_mem_upd [simp]:
  "same_mem ss (ss'\<lparr>sys := os\<rparr>) = same_mem ss ss'"
  "same_mem ss (ss'\<lparr>result := r\<rparr>) = same_mem ss ss'"
  "same_mem ss (ss'\<lparr>closed := c\<rparr>) = same_mem ss ss'"
  by (simp_all add: same_mem_def core_same_def)

lemma held_cong:
  assumes "same_data s s'" "same_mem ss ss'"
  shows "held ss' s' = held ss s"
  using assms by (simp add: same_data_def same_mem_def core_same_def held_def
      send_object_init_def send_object_init_from_sendbuffer_def
      split: option.split buffer_type.split)

lemma held_same:
  assumes "same_data s s'" "same_mem ss ss'"
  shows "held_ok ss' s' = held_ok ss s" "held_bytes ss' s' = held_bytes ss s"
    "sblocks ss' s' = sblocks ss s"
  using held_cong [OF assms] same_memD [OF assms(2)] assms(1)
  by (cases "held ss s"; simp add: held_ok_def held_bytes_def sblocks_def same_data_def)+

lemma socket_data_cong:
  assumes "same_data s s'" "same_mem ss ss'"
  shows "socket_data ss' s' L hi lo = socket_data ss s L hi lo"
proof -
  have "wb_list_of p s' = wb_list_of p s" for p
    using assms(1) by (cases p) (simp_all add: wb_list_of_def same_data_def)
  then show ?thesis
    using held_same [OF assms] same_memD [OF assms(2)] assms(1)
    by (simp add: socket_data_def lists_ok_def low_fresh_def same_data_def)
qed

lemma confined_same:
  assumes "same_data s s'" "same_mem ss ss'" "mem_ok ss" "sid s' = sid s" "protocol s' = protocol s"
  shows "confined N ss s ss' s'"
  using assms held_same(3) [OF assms(1,2)] by (auto simp: confined_def same_mem_def mem_ok_def)

section \<open>Closing\<close>

lemma free_buffer_dw:
  assumes "held ss s = Some (ptr, n, k)" "direct s = None" "dw_buffer s = Some b"
    "mem ss' (fst ptr) \<noteq> None" "soi ss' = soi ss"
  shows "free_buffer ss' \<lparr>sb_id = sid s,
       sb_type = (if dw_size s = USEROBJECT then SOCKET_BUFFER_OBJECT else SOCKET_BUFFER_MEMORY),
       sb_buffer = b, sb_sz = dw_size s\<rparr>
     = Some (ss'\<lparr>mem := (mem ss')(fst ptr := None)\<rparr>)"
  using assms by (auto simp: held_def send_object_init_def free_buffer_def soi_free_def FREE_def
      split: if_splits)

definition reset_socket :: "socket \<Rightarrow> socket \<Rightarrow> bool" where
  "reset_socket s s' \<longleftrightarrow> stype s' = SOCKET_TYPE_INVALID \<and> high s' = clear_wb_list
     \<and> low s' = clear_wb_list \<and> nodes s' = Map.empty \<and> dw_buffer s' = None \<and> direct s' = None
     \<and> out s' = out s \<and> dw_lock s' = dw_lock s \<and> sending s' = sending s \<and> sid s' = sid s
     \<and> protocol s' = protocol s"

lemma force_close_ok:
  assumes data: "socket_data ss s L hi lo" and mo: "mem_ok ss" and dir: "direct s = None"
    and ty: "stype s \<noteq> SOCKET_TYPE_INVALID" "stype s \<noteq> SOCKET_TYPE_RESERVE"
    and lk: "l = 0 \<Longrightarrow> \<not> dw_lock s"
  shows "\<exists>ss' s'. force_close ss s l = Some (ss', s') \<and> confined {} ss s ss' s' \<and> reset_socket s s'"
proof -
  let ?ss0 = "set_result s NULL ss"
  have ok: "lists_ok (mem ?ss0) (soi ?ss0) s L" using data by (simp add: socket_data_def set_result_def)
  let ?ss1 = "?ss0\<lparr>mem := mem_without (mem ss) (blocks_in (nodes s))\<rparr>"
  let ?s1 = "s\<lparr>high := clear_wb_list, low := clear_wb_list, nodes := (\<lambda>a. None)\<rparr>"
  obtain ssh sh where fh: "free_wb_list PRIORITY_HIGH ?ss0 s = Some (ssh, sh)"
    and fl: "free_wb_list PRIORITY_LOW ssh sh = Some (?ss1, ?s1)"
    using free_lists_ok [OF ok] by (auto simp: set_result_def elim!: option_bind_SomeE split: prod.splits)
  define f :: "socket_server \<Rightarrow> socket_server" where
    "f = (\<lambda>ss. if stype s \<noteq> SOCKET_TYPE_BIND then close_fd (fd s) ss else ss)"
  have f: "mem (f x) = mem x" "soi (f x) = soi x" "core_same x (f x)" "brk (f x) = brk x" for x
    by (simp_all add: f_def close_fd_def core_same_def)
  have cs: "core_same ss ?ss1" "core_same ss (?ss1\<lparr>mem := m\<rparr>)" for m
    by (simp_all add: core_same_def set_result_def)
  obtain l' where lock: "socket_lock l ?s1 = Some (l', ?s1\<lparr>dw_lock := (l = 0 \<or> dw_lock s)\<rparr>)" "l' = l + 1"
    using lk by (cases "l = 0") (auto simp: socket_lock_def)
  have unlock: "socket_unlock l' x = Some (if l = 0 then x\<lparr>dw_lock := False\<rparr> else x)" for x
    using lock(2) by (cases "l = 0") (auto simp: socket_unlock_def)
  show ?thesis
  proof (cases "dw_buffer s")
    case None
    let ?s2 = "?s1\<lparr>dw_lock := (l = 0 \<or> dw_lock s), stype := SOCKET_TYPE_INVALID\<rparr>"
    let ?s' = "if l = 0 then ?s2\<lparr>dw_lock := False\<rparr> else ?s2"
    have "force_close ss s l = Some (f ?ss1, ?s')"
      using ty fh fl lock(1) None unlock
      by (simp add: force_close_def f_def)
    moreover have "confined {} ss s (f ?ss1) ?s'"
      using f(3) [of ?ss1] cs(1) mo core_same_trans
      by (auto simp: confined_def f mem_ok_def mem_without_def sblocks_def blocks_in_def held_def
          None dir set_result_def)
    moreover have "reset_socket s ?s'" using None dir lk by (auto simp: reset_socket_def)
    ultimately show ?thesis by blast
  next
    case (Some b)
    obtain ptr n k where h: "held ss s = Some (ptr, n, k)"
      using Some dir by (cases "send_object_init ss b (dw_size s)") (auto simp: held_def)
    have live: "mem ss (fst ptr) \<noteq> None" "fst ptr \<notin> blocks_in (nodes s)"
      using data h by (auto simp: socket_data_def held_ok_def read_mem_def)
    let ?ss2 = "(f ?ss1)\<lparr>mem := (mem ?ss1)(fst ptr := None)\<rparr>"
    let ?s2 = "?s1\<lparr>dw_lock := (l = 0 \<or> dw_lock s), stype := SOCKET_TYPE_INVALID, dw_buffer := None\<rparr>"
    let ?s' = "if l = 0 then ?s2\<lparr>dw_lock := False\<rparr> else ?s2"
    have "mem (f ?ss1) (fst ptr) \<noteq> None" "soi (f ?ss1) = soi ss"
      using live by (simp_all add: f mem_without_def set_result_def)
    from free_buffer_dw [OF h dir Some this] have fb:
      "free_buffer (f ?ss1) \<lparr>sb_id = sid s,
         sb_type = (if dw_size s = USEROBJECT then SOCKET_BUFFER_OBJECT else SOCKET_BUFFER_MEMORY),
         sb_buffer = b, sb_sz = dw_size s\<rparr> = Some ?ss2"
      by (simp add: f)
    have "force_close ss s l = Some (?ss2, ?s')"
      using ty fh fl lock(1) Some fb unlock
      by (cases "stype s = SOCKET_TYPE_BIND"; cases "dw_size s = USEROBJECT"; cases "l = 0";
          simp add: force_close_def f_def)
    moreover have "core_same ss ?ss2"
      using f(3) [of ?ss1] cs(1) by (simp add: core_same_def)
    then have "confined {} ss s ?ss2 ?s'"
      using mo h
      by (auto simp: confined_def f mem_ok_def mem_without_def sblocks_def blocks_in_def held_def
          dir set_result_def split: prod.splits)
    moreover have "reset_socket s ?s'" using dir lk by (auto simp: reset_socket_def)
    ultimately show ?thesis by blast
  qed
qed

lemma reset_socket_inv: "reset_socket s s' \<Longrightarrow> \<not> dw_lock s \<Longrightarrow> socket_inv ss s' [] []"
  by (auto simp: reset_socket_def socket_inv_def socket_flags_def)

text \<open>The result of a failed write: the socket is closed, or it will not be written again.\<close>

lemma enable_write_same:
  "enable_write ss s b = (err, ss', s') \<Longrightarrow>
     same_mem ss ss' \<and> s' = s\<lparr>writing := b\<rparr>"
  by (auto simp: enable_write_def sp_result_def next_outcome_def split: if_splits prod.splits list.splits)

lemma enable_read_same:
  "enable_read ss s b = (err, ss', s') \<Longrightarrow>
     same_mem ss ss' \<and> s' = s\<lparr>reading := b\<rparr>"
  by (auto simp: enable_read_def sp_result_def next_outcome_def split: if_splits prod.splits list.splits)

lemma close_write_ok:
  assumes data: "socket_data ss s L hi lo" and mo: "mem_ok ss" and dir: "direct s = None"
    and ty: "stype s \<noteq> SOCKET_TYPE_INVALID" "stype s \<noteq> SOCKET_TYPE_RESERVE"
    and lk: "l = 0 \<Longrightarrow> \<not> dw_lock s"
  shows "\<exists>r ss' s'. close_write e ss s l = Some (r, ss', s') \<and> r \<noteq> SOCKET_NONE \<and> confined {} ss s ss' s'
     \<and> (reset_socket s s' \<or>
        stype s' = SOCKET_TYPE_HALFCLOSE_WRITE \<and> same_mem ss ss'
        \<and> (\<exists>w. s' = s\<lparr>stype := SOCKET_TYPE_HALFCLOSE_WRITE, writing := w\<rparr>))"
proof -
  obtain ss1 s1 where fc: "force_close ss s l = Some (ss1, s1)" "confined {} ss s ss1 s1" "reset_socket s s1"
    using force_close_ok [OF assms] by blast
  obtain err ss2 s2 where ew: "enable_write ss (s\<lparr>stype := SOCKET_TYPE_HALFCLOSE_WRITE\<rparr>) False = (err, ss2, s2)"
    by (metis prod_cases3)
  note es = enable_write_same [OF ew]
  consider "closing s \<or> stype s = SOCKET_TYPE_HALFCLOSE_READ"
    | "\<not> closing s" "stype s = SOCKET_TYPE_HALFCLOSE_WRITE"
    | "\<not> closing s" "stype s \<noteq> SOCKET_TYPE_HALFCLOSE_READ" "stype s \<noteq> SOCKET_TYPE_HALFCLOSE_WRITE"
    by blast
  then show ?thesis
  proof cases
    case 1
    then have "close_write e ss s l = Some (SOCKET_RST, ss1, s1)" using fc(1) by (auto simp: close_write_def)
    then show ?thesis using fc(2,3) by blast
  next
    case 2
    then have "close_write e ss s l = Some (SOCKET_RST, ss, s)" by (simp add: close_write_def)
    moreover have "\<exists>w. s = s\<lparr>stype := SOCKET_TYPE_HALFCLOSE_WRITE, writing := w\<rparr>"
      using 2(2) by (intro exI [of _ "writing s"]) (cases s; simp)
    moreover have "SOCKET_RST \<noteq> SOCKET_NONE" by simp
    ultimately show ?thesis using confined_refl [OF mo] 2(2) same_mem_refl by blast
  next
    case 3
    then have "close_write e ss s l = Some (SOCKET_ERR, set_result s2 (Strerror e) ss2, s2)"
      using ew by (simp add: close_write_def report_error_def)
    moreover have "same_mem ss (set_result s2 (Strerror e) ss2)" using es by (simp add: set_result_def)
    moreover have "same_data s s2" using es by (simp add: same_data_def)
    ultimately show ?thesis using es confined_same [of s s2 ss "set_result s2 (Strerror e) ss2" "{}"] mo
      by (intro exI [of _ SOCKET_ERR] exI [of _ "set_result s2 (Strerror e) ss2"] exI [of _ s2]) auto
  qed
qed

section \<open>Sending what is pending\<close>

text \<open>A socket with data to send whose poll does not wait for it to become writable.\<close>

definition unarmed :: "socket \<Rightarrow> bool" where
  "unarmed s \<longleftrightarrow> (nodes s \<noteq> Map.empty \<or> dw_buffer s \<noteq> None)
     \<and> stype s \<noteq> SOCKET_TYPE_HALFCLOSE_WRITE \<and> \<not> writing s"

lemma read_mem_part:
  "read_mem m ptr n = Some bs \<Longrightarrow> k \<le> n \<Longrightarrow> read_mem m (fst ptr, snd ptr + k) (n - k) = Some (drop k bs)"
  by (auto simp: read_mem_def drop_take add.commute split: option.splits if_splits)

lemma put_dw_buffer_ok:
  assumes data: "socket_data ss s L hi lo" and dir: "direct s = None" and mo: "mem_ok ss"
  shows "\<exists>L' ss' s'. put_dw_buffer ss s = (ss', s') \<and> socket_data ss' s' L' hi lo \<and> dw_buffer s' = None
     \<and> confined {} ss s ss' s' \<and> mem ss' = mem ss
     \<and> (\<exists>z h nd. s' = s\<lparr>high := h, wb_size := z, dw_buffer := None, nodes := nd\<rparr>)
     \<and> (dw_buffer s = None \<longrightarrow> s' = s) \<and> (dw_buffer s \<noteq> None \<longrightarrow> nodes s' \<noteq> Map.empty)"
proof (cases "dw_buffer s")
  case None
  have "s = s\<lparr>high := high s, wb_size := wb_size s, dw_buffer := None, nodes := nodes s\<rparr>"
    using None by (cases s) simp
  then have "\<exists>z h nd. s = s\<lparr>high := h, wb_size := z, dw_buffer := None, nodes := nd\<rparr>" by blast
  with None show ?thesis using data mo
    by (intro exI [of _ L] exI [of _ ss] exI [of _ s])
      (simp add: put_dw_buffer_def confined_refl)
next
  case (Some b)
  obtain ptr n user where so: "send_object_init ss b (dw_size s) = (ptr, n, user)" by (metis prod_cases3)
  then have h: "held ss s = Some (ptr, n, dw_offset s)" using Some dir by (simp add: held_def)
  obtain bs where bs: "read_mem (mem ss) ptr n = Some bs" and k: "dw_offset s \<le> n"
    and fresh: "fst ptr \<notin> blocks_in (nodes s)"
    using data h by (auto simp: socket_data_def held_ok_def)
  have ok: "lists_ok (mem ss) (soi ss) s L" using data by (simp add: socket_data_def)
  let ?buf = "brk ss"
  let ?wb = "\<lparr>wb_next = wl_head (high s), wb_buffer = b, wb_ptr = (fst ptr, snd ptr + dw_offset s),
     wb_sz = n - dw_offset s, wb_userobject = user, wb_udp = None\<rparr>"
  let ?h = "if wl_head (high s) = None then \<lparr>wl_head = Some ?buf, wl_tail = Some ?buf\<rparr>
            else (high s)\<lparr>wl_head := Some ?buf\<rparr>"
  let ?ss = "ss\<lparr>brk := brk ss + 1\<rparr>"
  let ?s = "s\<lparr>high := ?h, wb_size := wb_size s + int (n - dw_offset s),
     dw_buffer := None, nodes := (nodes s)(?buf := Some ?wb)\<rparr>"
  have put: "put_dw_buffer ss s = (?ss, ?s)"
    using Some so by (simp add: put_dw_buffer_def Let_def)
  have new: "nodes s ?buf = None" using data by (fastforce simp: socket_data_def)
  have nin: "?buf \<notin> set (L q)" for q
    using new lists_dom [OF ok] by (metis UN_I UNIV_I domIff)
  have ch: "chain (nx (nodes s)) (wl_head (high s)) (L PRIORITY_HIGH) None"
    using lists_okD(1) [OF ok, of PRIORITY_HIGH] by (simp add: wb_list_of_def)
  have wb: "node_ok (mem ss) (soi ss) ?wb"
    using read_mem_part [OF bs k] so by (auto simp: node_ok_def send_object_init_def split: if_splits)
  have nb: "node_bytes (mem ss) ?wb = drop (dw_offset s) bs"
    using read_mem_part [OF bs k] by (simp add: node_bytes_def)
  let ?L = "L(PRIORITY_HIGH := ?buf # L PRIORITY_HIGH)"
  have ok': "lists_ok (mem ss) (soi ss) ?s ?L"
    and same: "set ys \<subseteq> dom (nodes s) \<Longrightarrow> msgs (mem ss) (nodes ?s) ys = msgs (mem ss) (nodes s) ys" for ys
  proof (atomize (full), intro conjI impI allI)
    have A: "\<exists>w'. nodes ?s a = Some w' \<and> w'\<lparr>wb_next := wb_next w\<rparr> = w" if "nodes s a = Some w" for a w
      using that new by auto
    have B: "fst (wb_ptr w) \<noteq> fst (wb_ptr ?wb)" if "nodes s a = Some w" for a w
      using fresh blocks_inI [of "nodes s" a w] that by auto
    have C: "chain (nx (nodes ?s)) (wl_head (wb_list_of PRIORITY_HIGH ?s)) (?buf # L PRIORITY_HIGH) None"
      using ch nin by (simp add: wb_list_of_def nx_def [of "nodes ?s" ?buf] chain_upd)
    have D: "chain (nx (nodes ?s)) (wl_head (wb_list_of q ?s)) (L q) None" if "q \<noteq> PRIORITY_HIGH" for q
      using that lists_okD(1) [OF ok, of q] nin by (cases q) (simp_all add: wb_list_of_def)
    note add = lists_ok_add [OF ok new wb B A, where p = PRIORITY_HIGH and xs = "?buf # L PRIORITY_HIGH"]
    show "lists_ok (mem ss) (soi ss) ?s ?L"
      by (rule add(1)) (use C D in simp_all)
    show "msgs (mem ss) (nodes ?s) ys = msgs (mem ss) (nodes s) ys" if "set ys \<subseteq> dom (nodes s)" for ys
      by (rule add(2)) (use C D that in simp_all)
  qed
  have sub: "set (L q) \<subseteq> dom (nodes s)" for q using lists_dom [OF ok] by blast
  have m': "msgs (mem ss) (nodes ?s) (?L PRIORITY_HIGH) = drop (dw_offset s) bs # msgs (mem ss) (nodes s) (L PRIORITY_HIGH)"
    using same [OF sub [of PRIORITY_HIGH]] nb by (simp add: msgs_def)
  have "held ?ss ?s = None" using dir by (simp add: held_def)
  moreover have "hi = held_bytes ss s @ concat (msgs (mem ss) (nodes s) (L PRIORITY_HIGH))"
    "lo = msgs (mem ss) (nodes s) (L PRIORITY_LOW)" "tail_ok (high s) (L PRIORITY_HIGH)"
    "tail_ok (low s) (L PRIORITY_LOW)" "low_fresh s (L PRIORITY_LOW)" "\<forall>a\<in>dom (nodes s). a < brk ss"
    using data by (auto simp: socket_data_def wb_list_of_def split: priority.split dest: spec [of _ PRIORITY_HIGH] spec [of _ PRIORITY_LOW])
  moreover have "held_bytes ss s = drop (dw_offset s) bs" using h bs by (simp add: held_bytes_def)
  moreover have "tail_ok ?h (?buf # L PRIORITY_HIGH)"
    using \<open>tail_ok (high s) (L PRIORITY_HIGH)\<close> ch
    by (cases "L PRIORITY_HIGH") (auto simp: tail_ok_def)
  ultimately have "socket_data ?ss ?s ?L hi lo"
    using ok' m' same [OF sub [of PRIORITY_LOW]] nin
    by (auto simp: socket_data_def wb_list_of_def held_ok_def held_bytes_def low_fresh_def less_Suc_eq
        split: priority.split)
  moreover have "blocks_in ((nodes s)(?buf := Some ?wb)) \<subseteq> insert (fst ptr) (blocks_in (nodes s))"
    by (auto simp: blocks_in_def split: if_splits)
  then have "confined {} ss s ?ss ?s"
    using mo h \<open>held ?ss ?s = None\<close>
    by (auto simp: confined_def core_same_def mem_ok_def sblocks_def less_Suc_eq)
  ultimately show ?thesis using put Some by fastforce
qed

text \<open>What sending a list does, whatever the protocol.\<close>

definition shrunk :: "priority \<Rightarrow> socket_server \<Rightarrow> socket \<Rightarrow> (priority \<Rightarrow> nat list)
    \<Rightarrow> socket_server \<Rightarrow> socket \<Rightarrow> nat list \<Rightarrow> nat \<Rightarrow> bool" where
  "shrunk p ss s L ss' s' zs k \<longleftrightarrow>
     lists_ok (mem ss') (soi ss') s' (L(p := zs))
     \<and> (\<forall>b. mem ss' b = mem ss b \<or> b \<in> blocks_in (nodes s) \<and> mem ss' b = None)
     \<and> (\<exists>m os. ss' = ss\<lparr>mem := m, sys := os\<rparr>)
     \<and> (\<exists>wl z st nd o' dg. s' = set_wb_list p wl
          (s\<lparr>wb_size := z, stat := st, nodes := nd, out := o', dgrams := dg\<rparr>))
     \<and> (\<forall>a wb'. nodes s' a = Some wb' \<longrightarrow> (\<exists>wb. nodes s a = Some wb
          \<and> wb_advanced wb wb' (if zs \<noteq> [] \<and> a = hd zs then k else 0)))"

lemma sent_shrunk:
  assumes "sent p ss s L ss' s' zs w k"
  shows "shrunk p ss s L ss' s' zs k"
proof -
  obtain wl z st nd o' where "s' = set_wb_list p wl (s\<lparr>wb_size := z, stat := st, nodes := nd, out := o'\<rparr>)"
    using assms unfolding sent_def by blast
  then have "s' = set_wb_list p wl (s\<lparr>wb_size := z, stat := st, nodes := nd, out := o', dgrams := dgrams s\<rparr>)"
    by (cases s) simp
  then have "\<exists>wl z st nd o' dg. s' = set_wb_list p wl
      (s\<lparr>wb_size := z, stat := st, nodes := nd, out := o', dgrams := dg\<rparr>)" by blast
  moreover note assms [unfolded sent_def]
  ultimately show ?thesis unfolding shrunk_def by (elim conjE) (intro conjI; assumption)
qed

lemma shrunk_fields:
  assumes "shrunk p ss s L ss' s' zs k"
  shows "stype s' = stype s" "protocol s' = protocol s" "writing s' = writing s" "sid s' = sid s"
    "direct s' = direct s" "dw_buffer s' = dw_buffer s" "dw_lock s' = dw_lock s"
    "sending s' = sending s" "closing s' = closing s" "q \<noteq> p \<Longrightarrow> wb_list_of q s' = wb_list_of q s"
    "soi ss' = soi ss" "brk ss' = brk ss" "core_same ss ss'"
proof -
  obtain wl z st nd o' dg where s': "s' = set_wb_list p wl
      (s\<lparr>wb_size := z, stat := st, nodes := nd, out := o', dgrams := dg\<rparr>)"
    using assms unfolding shrunk_def by blast
  show "stype s' = stype s" "protocol s' = protocol s" "writing s' = writing s" "sid s' = sid s"
    "direct s' = direct s" "dw_buffer s' = dw_buffer s" "dw_lock s' = dw_lock s"
    "sending s' = sending s" "closing s' = closing s" "q \<noteq> p \<Longrightarrow> wb_list_of q s' = wb_list_of q s"
    unfolding s' by (cases p; cases q; simp add: set_wb_list_def wb_list_of_def)+
  obtain m os where "ss' = ss\<lparr>mem := m, sys := os\<rparr>" using assms unfolding shrunk_def by blast
  then show "soi ss' = soi ss" "brk ss' = brk ss" "core_same ss ss'" by (simp_all add: core_same_def)
qed

lemma shrunk_nodes:
  assumes "shrunk p ss s L ss' s' zs k"
  shows "dom (nodes s') \<subseteq> dom (nodes s)" "blocks_in (nodes s') \<subseteq> blocks_in (nodes s)"
    and "\<forall>a wb. nodes s a = Some wb \<longrightarrow> wb_udp wb \<noteq> None \<Longrightarrow> nodes s' a = Some wb' \<Longrightarrow> wb_udp wb' \<noteq> None"
    and "nodes s = Map.empty \<Longrightarrow> nodes s' = Map.empty"
proof -
  have n: "\<And>a wb'. nodes s' a = Some wb' \<Longrightarrow> \<exists>wb. nodes s a = Some wb
      \<and> wb_advanced wb wb' (if zs \<noteq> [] \<and> a = hd zs then k else 0)"
    using assms unfolding shrunk_def by blast
  show "dom (nodes s') \<subseteq> dom (nodes s)" using n by fastforce
  show "blocks_in (nodes s') \<subseteq> blocks_in (nodes s)"
    using n by (fastforce simp: blocks_in_def wb_advanced_def)
  show "wb_udp wb' \<noteq> None" if "\<forall>a wb. nodes s a = Some wb \<longrightarrow> wb_udp wb \<noteq> None" "nodes s' a = Some wb'"
    using n [OF that(2)] that(1) by (metis wb_advanced_def)
  show "nodes s' = Map.empty" if "nodes s = Map.empty"
    using n that by (metis not_Some_eq)
qed

lemma shrunk_confined:
  assumes sh: "shrunk p ss s L ss' s' zs k" and mo: "mem_ok ss" and "held ss s = None"
    and "dw_buffer s = None" "direct s = None"
  shows "confined {} ss s ss' s'"
proof -
  have m: "mem ss' b = mem ss b \<or> b \<in> blocks_in (nodes s) \<and> mem ss' b = None" for b
    using sh by (simp add: shrunk_def)
  have "mem_ok ss'" using mo m shrunk_fields(12) [OF sh] by (metis mem_ok_def)
  moreover have "held ss' s' = None" using assms shrunk_fields [OF sh] by (simp add: held_def)
  moreover have "b \<notin> blocks_in (nodes s) \<Longrightarrow> mem ss' b = mem ss b" for b using m by blast
  ultimately show ?thesis
    using shrunk_fields [OF sh] shrunk_nodes(2) [OF sh] by (auto simp: confined_def sblocks_def)
qed

lemma shrunk_sub:
  assumes sh: "shrunk p ss s L ss' s' zs k" and ok: "lists_ok m si s L"
  shows "set zs \<subseteq> set (L p)"
proof
  fix a assume a: "a \<in> set zs"
  have ok': "lists_ok (mem ss') (soi ss') s' (L(p := zs))" using sh by (simp add: shrunk_def)
  have "a \<in> dom (nodes s')" using a lists_dom [OF ok'] by (auto intro!: bexI [of _ p])
  then have "a \<in> dom (nodes s)" using shrunk_nodes(1) [OF sh] by blast
  then obtain q where q: "a \<in> set (L q)" using lists_dom [OF ok] by blast
  have "q = p"
  proof (rule ccontr)
    assume "q \<noteq> p"
    then show False using lists_disjoint [OF ok', of p q] a q by auto
  qed
  then show "a \<in> set (L p)" using q by simp
qed

lemma shrunk_data:
  assumes sh: "shrunk p ss s L ss' s' zs k" and data: "socket_data ss s L hi lo"
    and idle: "dw_buffer s = None" "direct s = None"
    and tl: "tail_ok (wb_list_of p s') zs" and k: "p = PRIORITY_LOW \<Longrightarrow> k = 0"
  shows "socket_data ss' s' (L(p := zs))
     (concat (msgs (mem ss') (nodes s') ((L(p := zs)) PRIORITY_HIGH)))
     (msgs (mem ss') (nodes s') ((L(p := zs)) PRIORITY_LOW))"
proof -
  have ok: "lists_ok (mem ss) (soi ss) s L" using data by (simp add: socket_data_def)
  note zs = shrunk_sub [OF sh ok]
  have held: "held ss' s' = None" using idle shrunk_fields [OF sh] by (simp add: held_def)
  have "low_fresh s' ((L(p := zs)) PRIORITY_LOW)"
    unfolding low_fresh_def
  proof (intro ballI allI impI)
    fix a wb' assume a: "a \<in> set ((L(p := zs)) PRIORITY_LOW)" and wb': "nodes s' a = Some wb'"
    have aL: "a \<in> set (L PRIORITY_LOW)" using a zs by (cases p) auto
    obtain wb where wb: "nodes s a = Some wb" "wb_advanced wb wb' (if zs \<noteq> [] \<and> a = hd zs then k else 0)"
      using sh wb' unfolding shrunk_def by blast
    have "wb_ptr wb = (wb_buffer wb, 0)" using data aL wb(1) by (simp add: socket_data_def low_fresh_def)
    moreover have "(if zs \<noteq> [] \<and> a = hd zs then k else 0) = 0"
    proof (cases p)
      case PRIORITY_HIGH
      have "set (L PRIORITY_HIGH) \<inter> set (L PRIORITY_LOW) = {}"
        by (rule lists_okD(3) [OF ok])
      then have "a \<notin> set zs" using aL zs PRIORITY_HIGH by auto
      then show ?thesis by (cases zs) auto
    next
      case PRIORITY_LOW
      then show ?thesis using k by simp
    qed
    ultimately show "wb_ptr wb' = (wb_buffer wb', 0)" using wb(2) by (simp add: wb_advanced_def)
  qed
  moreover have "tail_ok (wb_list_of q s') ((L(p := zs)) q)" for q
    using data tl shrunk_fields(10) [OF sh, of q] by (cases "q = p") (simp_all add: socket_data_def)
  moreover have "\<forall>a\<in>dom (nodes s'). a < brk ss'"
    using data shrunk_nodes(1) [OF sh] shrunk_fields(12) [OF sh] by (auto simp: socket_data_def)
  ultimately show ?thesis
    using sh held idle shrunk_fields [OF sh]
    by (simp add: socket_data_def shrunk_def held_ok_def held_bytes_def)
qed

lemma raise_uncomplete_ok:
  assumes ok: "lists_ok m si s L" and H: "L PRIORITY_HIGH = []" and W: "L PRIORITY_LOW = a # ys"
    and tl: "tail_ok (low s) (a # ys)"
  defines "L' \<equiv> L(PRIORITY_HIGH := [a], PRIORITY_LOW := ys)"
  shows "\<exists>s'. raise_uncomplete s = Some s' \<and> lists_ok m si s' L'
     \<and> (\<forall>p. tail_ok (wb_list_of p s') (L' p)) \<and> (\<forall>xs. msgs m (nodes s') xs = msgs m (nodes s) xs)
     \<and> (\<exists>h l nd. s' = s\<lparr>high := h, low := l, nodes := nd\<rparr>)
     \<and> (\<forall>b wb'. nodes s' b = Some wb' \<longrightarrow> (\<exists>wb. nodes s b = Some wb \<and> wb_advanced wb wb' 0))"
proof -
  have ch: "chain (nx (nodes s)) (wl_head (low s)) (a # ys) None" and h: "wl_head (high s) = None"
    using lists_okD(1) [OF ok, of PRIORITY_LOW] lists_okD(1) [OF ok, of PRIORITY_HIGH] H W
    by (simp_all add: wb_list_of_def)
  obtain wb where wb: "nodes s a = Some wb" using lists_in [OF ok, of a PRIORITY_LOW] W by auto
  have nxt: "chain (nx (nodes s)) (wb_next wb) ys None" using ch wb by (simp add: nx_def)
  have ay: "a \<notin> set ys" using chain_distinct [OF ch] by simp
  let ?l = "\<lparr>wl_head = wb_next wb, wl_tail = (if wb_next wb = None then None else wl_tail (low s))\<rparr>"
  let ?s = "s\<lparr>high := \<lparr>wl_head = Some a, wl_tail = Some a\<rparr>, low := ?l,
     nodes := (nodes s)(a := Some (wb\<lparr>wb_next := None\<rparr>))\<rparr>"
  have l: "(if wb_next wb = None then (low s)\<lparr>wl_head := None, wl_tail := None\<rparr>
      else (low s)\<lparr>wl_head := wb_next wb\<rparr>) = ?l"
    by (cases "low s") simp
  have r: "raise_uncomplete s = Some ?s"
    using ch h wb l by (cases "wb_next wb") (simp_all add: raise_uncomplete_def)
  have empty: "(wb_next wb = None) = (ys = [])" using nxt by (cases ys) auto
  have dm: "dom (nodes ?s) = dom (nodes s)" using wb by auto
  have "lists_ok m si ?s L'"
  proof (rule lists_okI)
    fix p show "chain (nx (nodes ?s)) (wl_head (wb_list_of p ?s)) (L' p) None"
      using nxt ay by (cases p) (simp_all add: wb_list_of_def L'_def)
  next
    show "dom (nodes ?s) = (\<Union>p. set (L' p))"
      using lists_okD(2) [OF ok] H W unfolding dm Union_priority by (auto simp: L'_def)
  next
    fix p q :: priority assume "p \<noteq> q"
    then show "set (L' p) \<inter> set (L' q) = {}" using ay by (cases p; cases q) (auto simp: L'_def)
  next
    fix b w assume "nodes ?s b = Some w"
    then show "node_ok m si w"
      using lists_okD(4) [OF ok] wb by (fastforce simp: node_ok_def split: if_splits)
  next
    fix b c wa wc assume "b \<noteq> c" "nodes ?s b = Some wa" "nodes ?s c = Some wc"
    then show "fst (wb_ptr wa) \<noteq> fst (wb_ptr wc)"
      using lists_okD(5) [OF ok] wb by (auto split: if_splits)
  next
    have "(\<Sum>b\<in>dom (nodes s). int (wb_sz (the (nodes s b))))
        = (\<Sum>b\<in>dom (nodes s). int (wb_sz (the (nodes ?s b))))"
      using wb by (intro sum.cong) auto
    then show "wb_size ?s = (\<Sum>b\<in>dom (nodes ?s). int (wb_sz (the (nodes ?s b))))"
      using lists_okD(6) [OF ok] unfolding dm by simp
  qed
  moreover have "tail_ok (wb_list_of p ?s) (L' p)" for p
    using tl empty by (cases p) (auto simp: tail_ok_def wb_list_of_def L'_def)
  moreover have "msgs m (nodes ?s) xs = msgs m (nodes s) xs" for xs
    unfolding msgs_def using wb by (intro map_cong [OF refl]) (auto simp: node_bytes_def)
  moreover have "\<exists>w. nodes s b = Some w \<and> wb_advanced w w' 0" if "nodes ?s b = Some w'" for b w'
    using that wb by (auto simp: wb_advanced_def split: if_splits)
  ultimately show ?thesis using r by blast
qed

lemma shrunk_trans:
  assumes 1: "shrunk p ss s L ss1 s1 zs 0" and 2: "shrunk p ss1 s1 (L(p := zs)) ss2 s2 zs2 k"
  shows "shrunk p ss s L ss2 s2 zs2 k"
proof -
  have "lists_ok (mem ss2) (soi ss2) s2 (L(p := zs2))" using 2 by (simp add: shrunk_def)
  moreover have "mem ss2 b = mem ss b \<or> b \<in> blocks_in (nodes s) \<and> mem ss2 b = None" for b
  proof -
    have "mem ss2 b = mem ss1 b \<or> b \<in> blocks_in (nodes s1) \<and> mem ss2 b = None"
      using 2 by (simp add: shrunk_def)
    moreover have "mem ss1 b = mem ss b \<or> b \<in> blocks_in (nodes s) \<and> mem ss1 b = None"
      using 1 by (simp add: shrunk_def)
    ultimately show ?thesis using shrunk_nodes(2) [OF 1] by auto
  qed
  moreover have "\<exists>m os. ss2 = ss\<lparr>mem := m, sys := os\<rparr>"
    using 1 2 unfolding shrunk_def by fastforce
  moreover have "\<exists>wl z st nd o' dg. s2 = set_wb_list p wl
      (s\<lparr>wb_size := z, stat := st, nodes := nd, out := o', dgrams := dg\<rparr>)"
  proof -
    obtain wl z st nd o' dg where a: "s1 = set_wb_list p wl
      (s\<lparr>wb_size := z, stat := st, nodes := nd, out := o', dgrams := dg\<rparr>)"
      using 1 unfolding shrunk_def by blast
    obtain wl' z' st' nd' o'' dg' where b: "s2 = set_wb_list p wl'
      (s1\<lparr>wb_size := z', stat := st', nodes := nd', out := o'', dgrams := dg'\<rparr>)"
      using 2 unfolding shrunk_def by blast
    have "s2 = set_wb_list p wl'
      (s\<lparr>wb_size := z', stat := st', nodes := nd', out := o'', dgrams := dg'\<rparr>)"
      unfolding b a by (cases p) (simp_all add: set_wb_list_def)
    then show ?thesis by blast
  qed
  moreover have "\<exists>wb. nodes s a = Some wb \<and> wb_advanced wb wb' (if zs2 \<noteq> [] \<and> a = hd zs2 then k else 0)"
    if a: "nodes s2 a = Some wb'" for a wb'
  proof -
    obtain w where w: "nodes s1 a = Some w" "wb_advanced w wb' (if zs2 \<noteq> [] \<and> a = hd zs2 then k else 0)"
      using 2 a unfolding shrunk_def by blast
    obtain v where "nodes s a = Some v" "wb_advanced v w 0"
      using 1 w(1) unfolding shrunk_def by (metis (full_types))
    then show ?thesis using w(2) wb_advanced_trans by blast
  qed
  ultimately show ?thesis unfolding shrunk_def by blast
qed

lemma shrunk_refl:
  assumes ok: "lists_ok (mem ss) (soi ss) s L" and wl: "wl_head wl = wl_head (wb_list_of p s)"
  shows "shrunk p ss s L (ss\<lparr>sys := os\<rparr>) (set_wb_list p wl s) (L p) 0"
  by (rule sent_shrunk [OF sent_refl [OF assms]])

lemma udp_pop:
  fixes st :: socket_stat and dg :: "(sockaddr \<times> bytes) list"
  assumes ok: "lists_ok (mem ss) (soi ss) s L" and Lp: "L p = a # zs" and a: "nodes s a = Some wb"
    and wl: "wl_head wl = wb_next wb"
  defines "s2 \<equiv> set_wb_list p wl (s\<lparr>wb_size := wb_size s - int (wb_sz wb), stat := st, dgrams := dg\<rparr>)"
  shows "\<exists>ss' s'. write_buffer_free (ss\<lparr>sys := os\<rparr>) s2 a = Some (ss', s') \<and> shrunk p ss s L ss' s' zs 0
     \<and> wb_list_of p s' = wl"
proof -
  have wb: "node_ok (mem ss) (soi ss) wb" by (rule lists_okD(4) [OF ok a])
  let ?ss = "ss\<lparr>mem := (mem ss)(fst (wb_ptr wb) := None), sys := os\<rparr>"
  let ?s = "s2\<lparr>nodes := (nodes s)(a := None)\<rparr>"
  have wf: "write_buffer_free (ss\<lparr>sys := os\<rparr>) s2 a = Some (?ss, ?s)"
    using a wb by (simp add: s2_def write_buffer_free_ok)
  have heads: "wl_head (wb_list_of q ?s) = (if q = p then wb_next wb else wl_head (wb_list_of q s))" for q
    using wl by (cases p; cases q) (simp_all add: s2_def set_wb_list_def wb_list_of_def)
  have lists: "lists_ok (mem ?ss) (soi ss) ?s (L(p := zs))"
    using lists_ok_pop(1) [OF ok Lp a, where s' = ?s and m' = "mem ?ss"] heads by (simp add: s2_def)
  have blk: "fst (wb_ptr wb) \<in> blocks_in (nodes s)" by (rule blocks_inI [of _ a]) (rule a)
  have m: "mem ?ss b = mem ss b \<or> b \<in> blocks_in (nodes s) \<and> mem ?ss b = None" for b using blk by auto
  have "?s = set_wb_list p wl (s\<lparr>wb_size := wb_size s - int (wb_sz wb), stat := st,
       nodes := (nodes s)(a := None), out := out s, dgrams := dg\<rparr>)"
    by (cases p) (simp_all add: s2_def set_wb_list_def)
  then have f: "\<exists>wl z st nd o' dg. ?s = set_wb_list p wl
      (s\<lparr>wb_size := z, stat := st, nodes := nd, out := o', dgrams := dg\<rparr>)" by blast
  have n: "\<exists>w. nodes s b = Some w \<and> wb_advanced w w' (if zs \<noteq> [] \<and> b = hd zs then 0 else 0)"
    if "nodes ?s b = Some w'" for b w'
    using that by (auto split: if_splits)
  have "\<exists>m os. ?ss = ss\<lparr>mem := m, sys := os\<rparr>" by blast
  then have "shrunk p ss s L ?ss ?s zs 0"
    using lists m f n unfolding shrunk_def by (intro conjI allI impI) auto
  moreover have "wb_list_of p ?s = wl" by (simp add: s2_def)
  ultimately show ?thesis using wf by blast
qed

lemma drop_udp_ok:
  assumes ok: "lists_ok (mem ss) (soi ss) s L" and Lp: "L p = a # zs"
    and tl: "wl_tail (wb_list_of p s) = Some (last (L p))"
  shows "\<exists>ss' s'. drop_udp p a (ss\<lparr>sys := os\<rparr>) s = Some (ss', s') \<and> shrunk p ss s L ss' s' zs 0
     \<and> tail_ok (wb_list_of p s') zs"
proof -
  obtain wb where wb: "nodes s a = Some wb" using lists_in [OF ok, of a p] Lp by auto
  let ?l = "(wb_list_of p s)\<lparr>wl_head := wb_next wb\<rparr>"
  let ?wl = "if wl_head ?l = None then ?l\<lparr>wl_tail := None\<rparr> else ?l"
  have ch: "chain (nx (nodes s)) (wb_next wb) zs None"
    using lists_okD(1) [OF ok, of p] Lp wb by (simp add: nx_def)
  then have "(wb_next wb = None) = (zs = [])" by (cases zs) auto
  then have t: "tail_ok ?wl zs" using tl Lp by (auto simp: tail_ok_def)
  have hd: "wl_head ?wl = wb_next wb" by simp
  have same: "s\<lparr>wb_size := wb_size s - int (wb_sz wb), stat := stat s, dgrams := dgrams s\<rparr>
      = s\<lparr>wb_size := wb_size s - int (wb_sz wb)\<rparr>" by simp
  obtain ss' s' where "write_buffer_free (ss\<lparr>sys := os\<rparr>)
       (set_wb_list p ?wl (s\<lparr>wb_size := wb_size s - int (wb_sz wb)\<rparr>)) a = Some (ss', s')"
    "shrunk p ss s L ss' s' zs 0" "wb_list_of p s' = ?wl"
    using udp_pop [OF ok Lp wb, where wl = ?wl and st = "stat s" and dg = "dgrams s" and os = os] hd unfolding same by blast
  then show ?thesis using wb t by (auto simp: drop_udp_def)
qed

lemma send_udp_loop_ok:
  assumes "lists_ok (mem ss) (soi ss) s L" "L p \<noteq> [] \<Longrightarrow> wl_tail (wb_list_of p s) = Some (last (L p))"
    "\<And>a wb. nodes s a = Some wb \<Longrightarrow> wb_udp wb \<noteq> None"
  shows "\<exists>ss' s' zs. send_udp_loop os p ss s = Some (SOCKET_NONE, ss', s')
     \<and> shrunk p ss s L ss' s' zs 0 \<and> tail_ok (wb_list_of p s') zs"
  using assms
proof (induction os arbitrary: ss s L)
  case Nil
  note ok = Nil.prems(1)
  show ?case
  proof (cases "L p")
    case Nil
    then have h: "wl_head (wb_list_of p s) = None" using lists_okD(1) [OF ok, of p] by simp
    let ?s = "set_wb_list p ((wb_list_of p s)\<lparr>wl_tail := None\<rparr>) s"
    have "shrunk p ss s L (ss\<lparr>sys := []\<rparr>) ?s (L p) 0" by (rule shrunk_refl [OF ok]) simp
    moreover have "send_udp_loop [] p ss s = Some (SOCKET_NONE, ss\<lparr>sys := []\<rparr>, ?s)"
      using h by (subst send_udp_loop.simps) simp
    moreover have "tail_ok (wb_list_of p ?s) (L p)" using Nil by (simp add: tail_ok_def)
    ultimately show ?thesis by blast
  next
    case (Cons a zs)
    then have h: "wl_head (wb_list_of p s) = Some a" using lists_okD(1) [OF ok, of p] by simp
    obtain wb where wb: "nodes s a = Some wb" using lists_in [OF ok, of a p] Cons by auto
    obtain addr where addr: "wb_udp wb = Some addr" using Nil.prems(3) [OF wb] by auto
    have tl: "wl_tail (wb_list_of p s) = Some (last (L p))" using Nil.prems(2) Cons by simp
    show ?thesis
    proof (cases "udp_socket_address s addr")
      case None
      then show ?thesis using h wb addr drop_udp_ok [OF ok Cons tl, of "[]"]
        by (subst send_udp_loop.simps) auto
    next
      case (Some sa)
      then have "send_udp_loop [] p ss s = Some (SOCKET_NONE, ss\<lparr>sys := []\<rparr>, s)"
        using h wb addr by (subst send_udp_loop.simps) simp
      moreover have "shrunk p ss s L (ss\<lparr>sys := []\<rparr>) s (L p) 0"
        using shrunk_refl [OF ok, of "wb_list_of p s" p "[]"] by (simp add: set_wb_list_same)
      moreover have "tail_ok (wb_list_of p s) (L p)" using tl Cons by (simp add: tail_ok_def)
      ultimately show ?thesis by blast
    qed
  qed
next
  case (Cons oc os)
  note ok = Cons.prems(1)
  show ?case
  proof (cases "L p")
    case Nil
    then have h: "wl_head (wb_list_of p s) = None" using lists_okD(1) [OF ok, of p] by simp
    let ?s = "set_wb_list p ((wb_list_of p s)\<lparr>wl_tail := None\<rparr>) s"
    have "shrunk p ss s L (ss\<lparr>sys := oc # os\<rparr>) ?s (L p) 0" by (rule shrunk_refl [OF ok]) simp
    moreover have "send_udp_loop (oc # os) p ss s = Some (SOCKET_NONE, ss\<lparr>sys := oc # os\<rparr>, ?s)"
      using h by (subst send_udp_loop.simps) simp
    moreover have "tail_ok (wb_list_of p ?s) (L p)" using Nil by (simp add: tail_ok_def)
    ultimately show ?thesis by blast
  next
    case (Cons a zs)
    then have h: "wl_head (wb_list_of p s) = Some a" using lists_okD(1) [OF ok, of p] by simp
    obtain wb where wb: "nodes s a = Some wb" and nok: "node_ok (mem ss) (soi ss) wb"
      using lists_in [OF ok, of a p] Cons by auto
    obtain addr where addr: "wb_udp wb = Some addr" using Cons.prems(3) [OF wb] by auto
    have tl: "wl_tail (wb_list_of p s) = Some (last (L p))" using Cons.prems(2) Cons by simp
    show ?thesis
    proof (cases "udp_socket_address s addr")
      case None
      then show ?thesis using h wb addr drop_udp_ok [OF ok Cons tl, of "oc # os"]
        by (subst send_udp_loop.simps) auto
    next
      case (Some sa)
      show ?thesis
      proof (cases "\<exists>n. oc = Ret n")
        case True
        then obtain n where n: "oc = Ret n" by blast
        let ?st = "stat (stat_write ss s (int (wb_sz wb)))"
        let ?dg = "dgrams s @ [(sa, node_bytes (mem ss) wb)]"
        let ?wl = "(wb_list_of p s)\<lparr>wl_head := wb_next wb\<rparr>"
        let ?s1 = "(stat_write ss s (int (wb_sz wb)))\<lparr>dgrams := ?dg, wb_size := wb_size s - int (wb_sz wb)\<rparr>"
        have e1: "s\<lparr>wb_size := wb_size s - int (wb_sz wb), stat := ?st, dgrams := ?dg\<rparr> = ?s1"
          by (simp add: stat_write_def)
        have wl1: "wb_list_of p ?s1 = wb_list_of p s"
          by (cases p) (simp_all add: wb_list_of_def stat_write_def)
        obtain ss1 s1 where p1: "write_buffer_free (ss\<lparr>sys := sys ss\<rparr>) (set_wb_list p ?wl ?s1) a = Some (ss1, s1)"
          "shrunk p ss s L ss1 s1 zs 0" "wb_list_of p s1 = ?wl"
          using udp_pop [OF ok Cons wb, where wl = ?wl and st = ?st and dg = ?dg and os = "sys ss"] unfolding e1 by auto
        have e: "send_udp_loop (oc # os) p ss s = send_udp_loop os p ss1 s1"
          using h wb addr Some n p1(1) wl1
          by (subst send_udp_loop.simps) (simp add: node_ok_bytes [OF nok] Let_def)
        have "lists_ok (mem ss1) (soi ss1) s1 (L(p := zs))" using p1(2) by (simp add: shrunk_def)
        moreover have "(L(p := zs)) p \<noteq> [] \<Longrightarrow> wl_tail (wb_list_of p s1) = Some (last ((L(p := zs)) p))"
          using p1(3) tl Cons by simp
        moreover have "wb_udp w \<noteq> None" if "nodes s1 b = Some w" for b w
          using shrunk_nodes(3) [OF p1(2)] Cons.prems(3) that by blast
        ultimately obtain ss' s' zs' where "send_udp_loop os p ss1 s1 = Some (SOCKET_NONE, ss', s')"
          "shrunk p ss1 s1 (L(p := zs)) ss' s' zs' 0" "tail_ok (wb_list_of p s') zs'"
          using Cons.IH by blast
        then show ?thesis unfolding e using shrunk_trans [OF p1(2)] by blast
      next
        case False
        have e: "send_udp_loop (oc # os) p ss s =
           (if outcome_errno (Some oc) = EINTR \<or> outcome_errno (Some oc) = EAGAIN then
              Some (SOCKET_NONE, ss\<lparr>sys := os\<rparr>, s)
            else Option.bind (drop_udp p a (ss\<lparr>sys := os\<rparr>) s) (\<lambda>r. Some (SOCKET_NONE, r)))"
          using h wb addr Some False by (subst send_udp_loop.simps) (cases oc; simp)
        have "shrunk p ss s L (ss\<lparr>sys := os\<rparr>) s (L p) 0"
          using shrunk_refl [OF ok, of "wb_list_of p s" p os] by (simp add: set_wb_list_same)
        moreover have "tail_ok (wb_list_of p s) (L p)" using tl Cons by (simp add: tail_ok_def)
        ultimately show ?thesis unfolding e using drop_udp_ok [OF ok Cons tl, of os] by fastforce
      qed
    qed
  qed
qed

text \<open>
  From \<open>hi\<close> and \<open>lo\<close> to \<open>hi'\<close> and \<open>lo'\<close>: the bytes on the wire and in \<open>hi\<close> are still the same
  sequence, followed by whole messages that left the front of \<open>lo\<close>.
\<close>

definition flows :: "socket \<Rightarrow> bytes \<Rightarrow> bytes list \<Rightarrow> socket \<Rightarrow> bytes \<Rightarrow> bytes list \<Rightarrow> bool" where
  "flows s hi lo s' hi' lo' \<longleftrightarrow> (\<exists>ds. out s' @ hi' = out s @ hi @ concat ds \<and> lo = ds @ lo')"

lemma flows_same: "out s' = out s \<Longrightarrow> flows s hi lo s' hi lo"
  unfolding flows_def by (intro exI [of _ "[]"]) simp

lemma flows_trans:
  assumes "flows s hi lo s1 hi1 lo1" "flows s1 hi1 lo1 s2 hi2 lo2"
  shows "flows s hi lo s2 hi2 lo2"
proof -
  obtain ds where 1: "out s1 @ hi1 = out s @ hi @ concat ds" "lo = ds @ lo1"
    using assms(1) unfolding flows_def by blast
  obtain es where 2: "out s2 @ hi2 = out s1 @ hi1 @ concat es" "lo1 = es @ lo2"
    using assms(2) unfolding flows_def by blast
  have "out s2 @ hi2 = (out s1 @ hi1) @ concat es" using 2(1) by simp
  also have "\<dots> = out s @ hi @ concat (ds @ es)" unfolding 1(1) by simp
  finally show ?thesis using 1(2) 2(2) unfolding flows_def by (intro exI [of _ "ds @ es"]) simp
qed

definition phase :: "socket_server \<Rightarrow> socket \<Rightarrow> bytes \<Rightarrow> bytes list
    \<Rightarrow> socket_server \<Rightarrow> socket \<Rightarrow> bytes \<Rightarrow> bytes list \<Rightarrow> bool" where
  "phase ss s hi lo ss' s' hi' lo' \<longleftrightarrow>
     confined {} ss s ss' s' \<and> (unarmed s' \<longrightarrow> unarmed s)
     \<and> sending s' = sending s \<and> dw_lock s' = dw_lock s \<and> direct s' = direct s
     \<and> dw_buffer s' = None
     \<and> (protocol s = PROTOCOL_TCP \<longrightarrow> flows s hi lo s' hi' lo')
     \<and> (protocol s \<noteq> PROTOCOL_TCP \<longrightarrow> (\<forall>a wb. nodes s' a = Some wb \<longrightarrow> wb_udp wb \<noteq> None))
     \<and> (nodes s = Map.empty \<longrightarrow> dw_buffer s = None \<longrightarrow> nodes s' = Map.empty)
     \<and> (stype s' = stype s \<or> stype s' = SOCKET_TYPE_HALFCLOSE_WRITE
          \<and> (nodes s \<noteq> Map.empty \<or> dw_buffer s \<noteq> None))"

lemma phase_trans:
  assumes 1: "phase ss s hi lo ss1 s1 hi1 lo1" and 2: "phase ss1 s1 hi1 lo1 ss2 s2 hi2 lo2"
  shows "phase ss s hi lo ss2 s2 hi2 lo2"
proof -
  have p: "protocol s1 = protocol s" using 1 by (simp add: phase_def confined_def)
  have "confined {} ss s ss2 s2" using 1 2 confined_trans unfolding phase_def by blast
  moreover have "protocol s = PROTOCOL_TCP \<longrightarrow> flows s hi lo s2 hi2 lo2"
    using 1 2 p flows_trans [of s hi lo s1 hi1 lo1 s2 hi2 lo2] by (simp add: phase_def)
  moreover have "unarmed s2 \<longrightarrow> unarmed s" using 1 2 unfolding phase_def by blast
  moreover have "sending s2 = sending s" "dw_lock s2 = dw_lock s" "direct s2 = direct s"
    "dw_buffer s2 = None" using 1 2 by (simp_all add: phase_def)
  moreover have "protocol s \<noteq> PROTOCOL_TCP \<longrightarrow> (\<forall>a wb. nodes s2 a = Some wb \<longrightarrow> wb_udp wb \<noteq> None)"
    using 2 p by (simp add: phase_def)
  moreover have e: "nodes s = Map.empty \<longrightarrow> dw_buffer s = None \<longrightarrow> nodes s1 = Map.empty" "dw_buffer s1 = None"
    using 1 by (simp_all add: phase_def)
  moreover have "nodes s1 = Map.empty \<longrightarrow> nodes s2 = Map.empty" using 2 e(2) by (simp add: phase_def)
  moreover have "stype s2 = stype s \<or> stype s2 = SOCKET_TYPE_HALFCLOSE_WRITE
      \<and> (nodes s \<noteq> Map.empty \<or> dw_buffer s \<noteq> None)"
  proof -
    consider "stype s2 = stype s1"
      | "stype s2 = SOCKET_TYPE_HALFCLOSE_WRITE" "nodes s1 \<noteq> Map.empty"
      using 2 e(2) unfolding phase_def by blast
    then show ?thesis
    proof cases
      case 1
      then show ?thesis using \<open>phase ss s hi lo ss1 s1 hi1 lo1\<close> by (simp add: phase_def)
    next
      case 2
      then show ?thesis using e(1) by blast
    qed
  qed
  ultimately show ?thesis unfolding phase_def by blast
qed

definition sent_result :: "socket_server \<Rightarrow> socket \<Rightarrow> bytes \<Rightarrow> bytes list
    \<Rightarrow> socket_server \<Rightarrow> socket \<Rightarrow> bool" where
  "sent_result ss s hi lo ss' s' \<longleftrightarrow>
     (\<exists>L' hi' lo'. phase ss s hi lo ss' s' hi' lo' \<and> socket_data ss' s' L' hi' lo')
     \<or> (\<exists>ss1 s1 hi1 lo1. phase ss s hi lo ss1 s1 hi1 lo1 \<and> confined {} ss1 s1 ss' s' \<and> reset_socket s1 s')"

lemma sent_result_trans:
  "phase ss s hi lo ss1 s1 hi1 lo1 \<Longrightarrow> sent_result ss1 s1 hi1 lo1 ss2 s2 \<Longrightarrow> sent_result ss s hi lo ss2 s2"
  unfolding sent_result_def using phase_trans by meson

lemma list_uncomplete_iff:
  assumes "lists_ok m si s L" "L PRIORITY_LOW = a # ys" "nodes s a = Some wb"
  shows "list_uncomplete s (low s) = Some (wb_ptr wb \<noteq> (wb_buffer wb, 0))"
  using lists_okD(1) [OF assms(1), of PRIORITY_LOW] assms(2,3)
  by (simp add: list_uncomplete_def wb_list_of_def)

lemma list_uncomplete_Nil:
  assumes "lists_ok m si s L" "L PRIORITY_LOW = []"
  shows "list_uncomplete s (low s) = Some False"
  using lists_okD(1) [OF assms(1), of PRIORITY_LOW] assms(2)
  by (simp add: list_uncomplete_def wb_list_of_def)

lemma list_uncomplete_fresh:
  assumes "lists_ok m si s L" "low_fresh s (L PRIORITY_LOW)"
  shows "list_uncomplete s (low s) = Some False"
proof (cases "L PRIORITY_LOW")
  case Nil
  then show ?thesis by (rule list_uncomplete_Nil [OF assms(1)])
next
  case (Cons a ys)
  then obtain wb where wb: "nodes s a = Some wb" using lists_in [OF assms(1), of a PRIORITY_LOW] by auto
  then have "wb_ptr wb = (wb_buffer wb, 0)" using assms(2) Cons by (simp add: low_fresh_def)
  then show ?thesis using list_uncomplete_iff [OF assms(1) Cons wb] by simp
qed

lemma lists_head_None: "lists_ok m si s L \<Longrightarrow> wl_head (wb_list_of p s) = None \<longleftrightarrow> L p = []"
  using lists_okD(1) [of m si s L p] by (cases "L p") auto

lemma lists_nodes_empty: "lists_ok m si s L \<Longrightarrow> nodes s = Map.empty \<longleftrightarrow> (\<forall>p. L p = [])"
  using lists_dom [of m si s L] by (auto simp: dom_eq_empty_conv [symmetric] simp del: dom_eq_empty_conv)

lemma nodes_empty_messages:
  "lists_ok m si s L \<Longrightarrow> nodes s = Map.empty \<Longrightarrow> msgs m' nd (L p) = []"
  using lists_nodes_empty by (auto simp: msgs_def)

text \<open>Sending one list.\<close>

lemma send_list_ok:
  assumes data: "socket_data ss s L hi lo"
    and udp: "protocol s \<noteq> PROTOCOL_TCP \<Longrightarrow> (\<forall>a wb. nodes s a = Some wb \<longrightarrow> wb_udp wb \<noteq> None)"
  shows "\<exists>ss' s' zs k. shrunk p ss s L ss' s' zs k \<and> tail_ok (wb_list_of p s') zs
     \<and> (protocol s = PROTOCOL_TCP \<longrightarrow> (\<exists>w. out s' = out s @ w
          \<and> drained (msgs (mem ss) (nodes s) (L p)) w (msgs (mem ss') (nodes s') zs) k
          \<and> (\<forall>q. q \<noteq> p \<longrightarrow> msgs (mem ss') (nodes s') (L q) = msgs (mem ss) (nodes s) (L q))))
     \<and> (protocol s \<noteq> PROTOCOL_TCP \<longrightarrow> k = 0)
     \<and> (send_list p ss s l = Some (SOCKET_NONE, ss', s')
        \<or> (\<exists>e. k = 0 \<and> zs \<noteq> [] \<and> send_list p ss s l = close_write e ss' s' l))"
proof -
  have ok: "lists_ok (mem ss) (soi ss) s L" using data by (simp add: socket_data_def)
  have tl: "L p \<noteq> [] \<Longrightarrow> wl_tail (wb_list_of p s) = Some (last (L p))"
    using data by (auto simp: socket_data_def tail_ok_def)
  show ?thesis
  proof (cases "protocol s = PROTOCOL_TCP")
    case True
    then have "send_list p ss s l = send_tcp_loop (sys ss) p ss s l"
      by (simp add: send_list_def send_list_tcp_def)
    then show ?thesis
      using send_tcp_loop_ok [OF ok tl, of "sys ss" l] True sent_shrunk unfolding sent_def
      by (metis (no_types, lifting))
  next
    case False
    then have "send_list p ss s l = send_udp_loop (sys ss) p ss s"
      by (simp add: send_list_def send_list_udp_def)
    moreover obtain ss' s' zs where "send_udp_loop (sys ss) p ss s = Some (SOCKET_NONE, ss', s')"
      "shrunk p ss s L ss' s' zs 0" "tail_ok (wb_list_of p s') zs"
      using send_udp_loop_ok [OF ok tl, of "sys ss"] udp False by blast
    ultimately show ?thesis using False by auto
  qed
qed

lemma close_write_result:
  assumes data: "socket_data ss s L hi lo" and mo: "mem_ok ss" and idle: "direct s = None" "dw_buffer s = None"
    and ty: "stype s \<noteq> SOCKET_TYPE_INVALID" "stype s \<noteq> SOCKET_TYPE_RESERVE"
    and l: "0 < l" and ne: "nodes s \<noteq> Map.empty"
    and udp: "protocol s \<noteq> PROTOCOL_TCP \<longrightarrow> (\<forall>a wb. nodes s a = Some wb \<longrightarrow> wb_udp wb \<noteq> None)"
  shows "\<exists>r ss' s'. close_write e ss s l = Some (r, ss', s') \<and> r \<noteq> SOCKET_NONE
     \<and> sent_result ss s hi lo ss' s'"
proof -
  have "l = 0 \<Longrightarrow> \<not> dw_lock s" using l by simp
  from close_write_ok [OF data mo idle(1) ty this, where e = e] obtain r ss' s' where
    cw: "close_write e ss s l = Some (r, ss', s')" "r \<noteq> SOCKET_NONE" "confined {} ss s ss' s'" and
    d: "reset_socket s s' \<or> stype s' = SOCKET_TYPE_HALFCLOSE_WRITE \<and> same_mem ss ss'
      \<and> (\<exists>w. s' = s\<lparr>stype := SOCKET_TYPE_HALFCLOSE_WRITE, writing := w\<rparr>)"
    by blast
  have "phase ss s hi lo ss s hi lo"
    using confined_refl [OF mo] flows_same [of s s hi lo] idle udp by (simp add: phase_def)
  moreover have "phase ss s hi lo ss' s' hi lo \<and> socket_data ss' s' L hi lo"
    if h: "stype s' = SOCKET_TYPE_HALFCLOSE_WRITE" "same_mem ss ss'"
      "s' = s\<lparr>stype := SOCKET_TYPE_HALFCLOSE_WRITE, writing := w\<rparr>" for w
  proof -
    have "same_data s s'" using h(3) by (simp add: same_data_def)
    then show ?thesis
      using h cw(3) idle udp ne data socket_data_cong [OF _ h(2), of s s'] flows_same [of s' s hi lo]
      by (simp add: phase_def unarmed_def)
  qed
  ultimately have "sent_result ss s hi lo ss' s'"
    using d cw(3) unfolding sent_result_def by metis
  then show ?thesis using cw by blast
qed

lemma send_buffer_done_ok:
  assumes data: "socket_data ss s L hi lo" and mo: "mem_ok ss" and idle: "direct s = None" "dw_buffer s = None"
    and ty: "stype s \<noteq> SOCKET_TYPE_INVALID" "stype s \<noteq> SOCKET_TYPE_RESERVE"
    and l: "0 < l" and e: "nodes s = Map.empty"
  shows "\<exists>r ss' s'. send_buffer_done ss s l = Some (r, ss', s') \<and> sent_result ss s hi lo ss' s'"
proof -
  have ok: "lists_ok (mem ss) (soi ss) s L" using data by (simp add: socket_data_def)
  have "wl_head (wb_list_of p s) = None" for p
    using e lists_head_None [OF ok] lists_nodes_empty [OF ok] by blast
  from this [of PRIORITY_HIGH] this [of PRIORITY_LOW]
  have A: "send_buffer_empty s \<and> wb_size s = 0"
    using lists_okD(6) [OF ok] e by (simp add: send_buffer_empty_def wb_list_of_def)
  have refl: "phase ss s hi lo ss s hi lo"
    using confined_refl [OF mo] flows_same [of s s hi lo] idle e by (simp add: phase_def)
  show ?thesis
  proof (cases "closing s")
    case True
    have "l = 0 \<Longrightarrow> \<not> dw_lock s" using l by simp
    from force_close_ok [OF data mo idle(1) ty this] obtain ss' s' where
      "force_close ss s l = Some (ss', s')" "confined {} ss s ss' s'" "reset_socket s s'" by blast
    moreover from this have "sent_result ss s hi lo ss' s'" using refl unfolding sent_result_def by blast
    ultimately show ?thesis using A True by (auto simp: send_buffer_done_def)
  next
    case False
    obtain err ss1 s1 where ew: "enable_write ss s False = (err, ss1, s1)" by (metis prod_cases3)
    note es = enable_write_same [OF ew]
    have keep: "sent_result ss s hi lo ss' s'" if "same_mem ss ss'" "same_data s s'"
      "stype s' = stype s" "sending s' = sending s" "dw_lock s' = dw_lock s" "out s' = out s"
      "sid s' = sid s" "protocol s' = protocol s" for ss' s'
    proof -
      have "phase ss s hi lo ss' s' hi lo"
        using that confined_same [OF that(2,1) mo that(7,8)] flows_same [of s' s hi lo] e idle
        by (simp add: phase_def unarmed_def same_data_def)
      then show ?thesis
        using socket_data_cong [OF that(2,1)] data unfolding sent_result_def by blast
    qed
    consider "err" | "\<not> err" "warn_size s1 > 0" | "\<not> err" "\<not> warn_size s1 > 0" by blast
    then show ?thesis
    proof cases
      case 1
      then have "send_buffer_done ss s l = Some (SOCKET_ERR, set_result s1 (Str ''disable write failed'') ss1, s1)"
        using A False ew by (simp add: send_buffer_done_def report_error_def)
      moreover have "sent_result ss s hi lo (set_result s1 (Str ''disable write failed'') ss1) s1"
        by (rule keep) (use es in \<open>simp_all add: set_result_def same_data_def\<close>)
      ultimately show ?thesis by blast
    next
      case 2
      then have "send_buffer_done ss s l = Some (SOCKET_WARNING, set_result s1 NULL ss1, s1\<lparr>warn_size := 0\<rparr>)"
        using A False ew by (simp add: send_buffer_done_def)
      moreover have "sent_result ss s hi lo (set_result s1 NULL ss1) (s1\<lparr>warn_size := 0\<rparr>)"
        by (rule keep) (use es in \<open>simp_all add: set_result_def same_data_def\<close>)
      ultimately show ?thesis by blast
    next
      case 3
      then have "send_buffer_done ss s l = Some (SOCKET_NONE, ss1, s1)"
        using A False ew by (simp add: send_buffer_done_def)
      moreover have "sent_result ss s hi lo ss1 s1"
        by (rule keep) (use es in \<open>simp_all add: same_data_def\<close>)
      ultimately show ?thesis by blast
    qed
  qed
qed

lemma shrunk_phase:
  assumes data: "socket_data ss s L hi lo" and mo: "mem_ok ss" and idle: "direct s = None" "dw_buffer s = None"
    and udp: "protocol s \<noteq> PROTOCOL_TCP \<longrightarrow> (\<forall>a wb. nodes s a = Some wb \<longrightarrow> wb_udp wb \<noteq> None)"
    and sh: "shrunk p ss s L ss1 s1 zs k" and tl: "tail_ok (wb_list_of p s1) zs"
    and k: "p = PRIORITY_LOW \<Longrightarrow> k = 0" and H: "p = PRIORITY_LOW \<Longrightarrow> L PRIORITY_HIGH = []"
    and tcp: "protocol s = PROTOCOL_TCP \<longrightarrow> (\<exists>w. out s1 = out s @ w
          \<and> drained (msgs (mem ss) (nodes s) (L p)) w (msgs (mem ss1) (nodes s1) zs) k
          \<and> (\<forall>q. q \<noteq> p \<longrightarrow> msgs (mem ss1) (nodes s1) (L q) = msgs (mem ss) (nodes s) (L q)))"
  shows "\<exists>hi1 lo1. phase ss s hi lo ss1 s1 hi1 lo1 \<and> socket_data ss1 s1 (L(p := zs)) hi1 lo1"
proof -
  let ?hi = "concat (msgs (mem ss1) (nodes s1) ((L(p := zs)) PRIORITY_HIGH))"
  let ?lo = "msgs (mem ss1) (nodes s1) ((L(p := zs)) PRIORITY_LOW)"
  have held: "held ss s = None" using idle by (simp add: held_def)
  have d1: "socket_data ss1 s1 (L(p := zs)) ?hi ?lo"
    by (rule shrunk_data [OF sh data idle(2,1) tl k])
  have hi: "hi = concat (msgs (mem ss) (nodes s) (L PRIORITY_HIGH))"
    and lo: "lo = msgs (mem ss) (nodes s) (L PRIORITY_LOW)"
    using data held by (simp_all add: socket_data_def held_bytes_def)
  have fl: "flows s hi lo s1 ?hi ?lo" if t: "protocol s = PROTOCOL_TCP"
  proof -
    obtain w where w: "out s1 = out s @ w"
      "drained (msgs (mem ss) (nodes s) (L p)) w (msgs (mem ss1) (nodes s1) zs) k"
      "\<And>q. q \<noteq> p \<Longrightarrow> msgs (mem ss1) (nodes s1) (L q) = msgs (mem ss) (nodes s) (L q)"
      using tcp t by blast
    show ?thesis
    proof (cases p)
      case PRIORITY_HIGH
      have "w @ ?hi = hi" using drained_concat [OF w(2)] PRIORITY_HIGH hi by simp
      moreover have "?lo = lo" using w(3) [of PRIORITY_LOW] PRIORITY_HIGH lo by simp
      ultimately show ?thesis using w(1) unfolding flows_def by (intro exI [of _ "[]"]) simp
    next
      case PRIORITY_LOW
      have "k = 0" using k PRIORITY_LOW by simp
      then obtain ds where "lo = ds @ ?lo" "w = concat ds"
        using drained_whole w(2) PRIORITY_LOW lo by fastforce
      moreover have "hi = []" "?hi = []" using H hi PRIORITY_LOW by (simp_all add: msgs_def)
      ultimately show ?thesis using w(1) unfolding flows_def by (intro exI [of _ ds]) simp
    qed
  qed
  have cf: "confined {} ss s ss1 s1" by (rule shrunk_confined [OF sh mo held idle(2,1)])
  have e: "nodes s = Map.empty \<Longrightarrow> nodes s1 = Map.empty" by (rule shrunk_nodes(4) [OF sh])
  have u: "\<forall>a wb. nodes s1 a = Some wb \<longrightarrow> wb_udp wb \<noteq> None" if "protocol s \<noteq> PROTOCOL_TCP"
    using shrunk_nodes(3) [OF sh] udp that by blast
  have "phase ss s hi lo ss1 s1 ?hi ?lo"
    using cf fl e u idle shrunk_fields [OF sh] by (auto simp: phase_def unarmed_def)
  with d1 show ?thesis by blast
qed

lemma send_buffer_locked_ok:
  assumes data: "socket_data ss s L hi lo" and mo: "mem_ok ss" and idle: "direct s = None" "dw_buffer s = None"
    and ty: "stype s \<noteq> SOCKET_TYPE_INVALID" "stype s \<noteq> SOCKET_TYPE_RESERVE" and l: "0 < l"
    and udp: "protocol s \<noteq> PROTOCOL_TCP \<longrightarrow> (\<forall>a wb. nodes s a = Some wb \<longrightarrow> wb_udp wb \<noteq> None)"
  shows "\<exists>r ss' s'. send_buffer_locked ss s l = Some (r, ss', s') \<and> sent_result ss s hi lo ss' s'"
proof -
  have ok: "lists_ok (mem ss) (soi ss) s L" using data by (simp add: socket_data_def)
  have unc: "list_uncomplete s (low s) = Some False"
    using list_uncomplete_fresh [OF ok] data by (simp add: socket_data_def)
  have closed: "\<exists>r ss' s'. close_write e x y l = Some (r, ss', s') \<and> r \<noteq> SOCKET_NONE
      \<and> sent_result ss s hi lo ss' s'"
    if ph: "phase ss s hi lo x y h1 l1" and d: "socket_data x y L1 h1 l1" and ne: "nodes y \<noteq> Map.empty"
    for x y h1 l1 L1 e
  proof -
    have cf: "confined {} ss s x y" using ph by (simp add: phase_def)
    have "stype y \<noteq> SOCKET_TYPE_INVALID" "stype y \<noteq> SOCKET_TYPE_RESERVE" "direct y = None"
      "dw_buffer y = None" "mem_ok x"
      "protocol y \<noteq> PROTOCOL_TCP \<longrightarrow> (\<forall>a wb. nodes y a = Some wb \<longrightarrow> wb_udp wb \<noteq> None)"
      using ph cf ty idle by (auto simp: phase_def confined_def)
    from close_write_result [OF d this(5) this(3,4) this(1,2) l ne this(6), of e]
    show ?thesis using sent_result_trans [OF ph] by blast
  qed
  have finished: "\<exists>r ss' s'. send_buffer_done x y l = Some (r, ss', s') \<and> sent_result ss s hi lo ss' s'"
    if ph: "phase ss s hi lo x y h1 l1" and d: "socket_data x y L1 h1 l1" and ne: "nodes y = Map.empty"
    for x y h1 l1 L1
  proof -
    have cf: "confined {} ss s x y" using ph by (simp add: phase_def)
    have "stype y \<noteq> SOCKET_TYPE_INVALID" "stype y \<noteq> SOCKET_TYPE_RESERVE" "direct y = None"
      "dw_buffer y = None" "mem_ok x"
      using ph cf ty idle by (auto simp: phase_def confined_def)
    from send_buffer_done_ok [OF d this(5) this(3,4) this(1,2) l ne]
    show ?thesis using sent_result_trans [OF ph] by blast
  qed
  obtain ss1 s1 xs k where sh: "shrunk PRIORITY_HIGH ss s L ss1 s1 xs k"
    and tl: "tail_ok (wb_list_of PRIORITY_HIGH s1) xs"
    and tcp: "protocol s = PROTOCOL_TCP \<longrightarrow> (\<exists>w. out s1 = out s @ w
          \<and> drained (msgs (mem ss) (nodes s) (L PRIORITY_HIGH)) w (msgs (mem ss1) (nodes s1) xs) k
          \<and> (\<forall>q. q \<noteq> PRIORITY_HIGH \<longrightarrow> msgs (mem ss1) (nodes s1) (L q) = msgs (mem ss) (nodes s) (L q)))"
    and res: "send_list PRIORITY_HIGH ss s l = Some (SOCKET_NONE, ss1, s1)
        \<or> (\<exists>e. k = 0 \<and> xs \<noteq> [] \<and> send_list PRIORITY_HIGH ss s l = close_write e ss1 s1 l)"
    using send_list_ok [OF data, of PRIORITY_HIGH l] udp by blast
  obtain hi1 lo1 where ph1: "phase ss s hi lo ss1 s1 hi1 lo1"
    and d1: "socket_data ss1 s1 (L(PRIORITY_HIGH := xs)) hi1 lo1"
    using shrunk_phase [OF data mo idle udp sh tl _ _ tcp] by auto
  let ?L1 = "L(PRIORITY_HIGH := xs)"
  have ok1: "lists_ok (mem ss1) (soi ss1) s1 ?L1" using d1 by (simp add: socket_data_def)
  have f1: "stype s1 \<noteq> SOCKET_TYPE_INVALID" "stype s1 \<noteq> SOCKET_TYPE_RESERVE" "direct s1 = None"
      "dw_buffer s1 = None" "mem_ok ss1" "protocol s1 = protocol s"
      "protocol s1 \<noteq> PROTOCOL_TCP \<longrightarrow> (\<forall>a wb. nodes s1 a = Some wb \<longrightarrow> wb_udp wb \<noteq> None)"
    using ph1 ty idle by (auto simp: phase_def confined_def)
  have here: "sent_result ss s hi lo ss1 s1" using ph1 d1 unfolding sent_result_def by blast
  show ?thesis
  proof (cases "send_list PRIORITY_HIGH ss s l = Some (SOCKET_NONE, ss1, s1)")
    case False
    then obtain e where e: "xs \<noteq> []" "send_list PRIORITY_HIGH ss s l = close_write e ss1 s1 l"
      using res by blast
    then have "nodes s1 \<noteq> Map.empty" using lists_nodes_empty [OF ok1] by (auto dest: spec [of _ PRIORITY_HIGH])
    from closed [OF ph1 d1 this, of e] obtain r ss' s' where
      "close_write e ss1 s1 l = Some (r, ss', s')" "r \<noteq> SOCKET_NONE" "sent_result ss s hi lo ss' s'"
      by blast
    then show ?thesis using e(2) unc by (cases "r = SOCKET_ERR") (simp_all add: send_buffer_locked_def)
  next
    case True
    show ?thesis
    proof (cases "xs = []")
      case False
      then have "wl_head (high s1) \<noteq> None"
        using lists_head_None [OF ok1, of PRIORITY_HIGH] by (simp add: wb_list_of_def)
      then have "send_buffer_locked ss s l = Some (SOCKET_NONE, ss1, s1)"
        using True unc by (simp add: send_buffer_locked_def)
      with here show ?thesis by blast
    next
      case xs: True
      then have h1: "wl_head (high s1) = None"
        using lists_head_None [OF ok1, of PRIORITY_HIGH] by (simp add: wb_list_of_def)
      show ?thesis
      proof (cases "L PRIORITY_LOW = []")
        case W: True
        then have "wl_head (low s1) = None"
          using lists_head_None [OF ok1, of PRIORITY_LOW] by (simp add: wb_list_of_def)
        then have e: "send_buffer_locked ss s l = send_buffer_done ss1 s1 l"
          using True unc h1 by (simp add: send_buffer_locked_def)
        have "?L1 p = []" for p using xs W by (cases p) simp_all
        then have "nodes s1 = Map.empty" using lists_nodes_empty [OF ok1] by blast
        from finished [OF ph1 d1 this] show ?thesis unfolding e .
      next
        case W: False
        then have h2: "wl_head (low s1) \<noteq> None"
          using lists_head_None [OF ok1, of PRIORITY_LOW] by (simp add: wb_list_of_def)
        obtain ss2 s2 ys k2 where sh2: "shrunk PRIORITY_LOW ss1 s1 ?L1 ss2 s2 ys k2"
          and tl2: "tail_ok (wb_list_of PRIORITY_LOW s2) ys"
          and tcp2: "protocol s1 = PROTOCOL_TCP \<longrightarrow> (\<exists>w. out s2 = out s1 @ w
            \<and> drained (msgs (mem ss1) (nodes s1) (?L1 PRIORITY_LOW)) w (msgs (mem ss2) (nodes s2) ys) k2
            \<and> (\<forall>q. q \<noteq> PRIORITY_LOW \<longrightarrow> msgs (mem ss2) (nodes s2) (?L1 q) = msgs (mem ss1) (nodes s1) (?L1 q)))"
          and udp2: "protocol s1 \<noteq> PROTOCOL_TCP \<longrightarrow> k2 = 0"
          and res2: "send_list PRIORITY_LOW ss1 s1 l = Some (SOCKET_NONE, ss2, s2)
            \<or> (\<exists>e. k2 = 0 \<and> ys \<noteq> [] \<and> send_list PRIORITY_LOW ss1 s1 l = close_write e ss2 s2 l)"
          using send_list_ok [OF d1, of PRIORITY_LOW l] f1(7) by blast
        have H1: "?L1 PRIORITY_HIGH = []" using xs by simp
        let ?L2 = "?L1(PRIORITY_LOW := ys)"
        have ok2: "lists_ok (mem ss2) (soi ss2) s2 ?L2" using sh2 by (simp add: shrunk_def)
        have step: "send_buffer_locked ss s l = (do {
             (ret, ss, s) \<leftarrow> send_list PRIORITY_LOW ss1 s1 l;
             if ret \<noteq> SOCKET_NONE then
               Some (if ret = SOCKET_ERR then (SOCKET_ERR, ss, s) else (SOCKET_NONE, ss, s))
             else do {
               unc \<leftarrow> list_uncomplete s (low s);
               if unc then do { s \<leftarrow> raise_uncomplete s; Some (SOCKET_NONE, ss, s) }
               else if wl_head (low s) \<noteq> None then Some (SOCKET_NONE, ss, s)
               else send_buffer_done ss s l
             }})"
          using True unc h1 h2 by (auto simp: send_buffer_locked_def)
        show ?thesis
        proof (cases "k2 = 0")
          case k2: True
          obtain hi2 lo2 where ph2: "phase ss1 s1 hi1 lo1 ss2 s2 hi2 lo2"
            and d2: "socket_data ss2 s2 ?L2 hi2 lo2"
            using shrunk_phase [OF d1 f1(5,3,4) f1(7) sh2 tl2 k2 H1 tcp2] by blast
          note ph = phase_trans [OF ph1 ph2]
          show ?thesis
          proof (cases "send_list PRIORITY_LOW ss1 s1 l = Some (SOCKET_NONE, ss2, s2)")
            case False
            then obtain e where e: "ys \<noteq> []" "send_list PRIORITY_LOW ss1 s1 l = close_write e ss2 s2 l"
              using res2 by blast
            then have "nodes s2 \<noteq> Map.empty" using lists_nodes_empty [OF ok2] by (auto dest: spec [of _ PRIORITY_LOW])
            from closed [OF ph d2 this, of e] obtain r ss' s' where
              "close_write e ss2 s2 l = Some (r, ss', s')" "r \<noteq> SOCKET_NONE" "sent_result ss s hi lo ss' s'"
              by blast
            then show ?thesis unfolding step using e(2) by (cases "r = SOCKET_ERR") simp_all
          next
            case s2: True
            have u2: "list_uncomplete s2 (low s2) = Some False"
              using list_uncomplete_fresh [OF ok2] d2 by (simp add: socket_data_def)
            show ?thesis
            proof (cases "ys = []")
              case True
              then have "wl_head (low s2) = None"
                using lists_head_None [OF ok2, of PRIORITY_LOW] by (simp add: wb_list_of_def)
              moreover have "?L2 p = []" for p using xs True by (cases p) simp_all
              then have "nodes s2 = Map.empty" using lists_nodes_empty [OF ok2] by blast
              ultimately show ?thesis
                unfolding step using s2 u2 finished [OF ph d2] by simp
            next
              case False
              then have "wl_head (low s2) \<noteq> None"
                using lists_head_None [OF ok2, of PRIORITY_LOW] by (simp add: wb_list_of_def)
              then show ?thesis unfolding step using s2 u2 ph d2
                by (auto simp: sent_result_def)
            qed
          qed
        next
          case k2: False
          then have tp: "protocol s1 = PROTOCOL_TCP" and s2: "send_list PRIORITY_LOW ss1 s1 l = Some (SOCKET_NONE, ss2, s2)"
            using udp2 res2 by auto
          obtain w where w: "out s2 = out s1 @ w"
            "drained (msgs (mem ss1) (nodes s1) (L PRIORITY_LOW)) w (msgs (mem ss2) (nodes s2) ys) k2"
            using tcp2 tp by auto
          obtain ds m r rest where dp: "msgs (mem ss1) (nodes s1) (L PRIORITY_LOW) = ds @ m # rest"
            "msgs (mem ss2) (nodes s2) ys = r # rest" "w @ r = concat ds @ m"
            using drained_partial [OF w(2)] k2 by blast
          then obtain a ys' where ys: "ys = a # ys'" by (cases ys) (auto simp: msgs_def)
          have tl2': "tail_ok (low s2) (a # ys')" using tl2 ys by (simp add: wb_list_of_def)
          obtain s3 where s3: "raise_uncomplete s2 = Some s3"
            "lists_ok (mem ss2) (soi ss2) s3 (?L2(PRIORITY_HIGH := [a], PRIORITY_LOW := ys'))"
            "\<And>p. tail_ok (wb_list_of p s3) ((?L2(PRIORITY_HIGH := [a], PRIORITY_LOW := ys')) p)"
            "\<And>zs. msgs (mem ss2) (nodes s3) zs = msgs (mem ss2) (nodes s2) zs"
            "\<exists>h l nd. s3 = s2\<lparr>high := h, low := l, nodes := nd\<rparr>"
            "\<And>b wb'. nodes s3 b = Some wb' \<Longrightarrow> \<exists>wb. nodes s2 b = Some wb \<and> wb_advanced wb wb' 0"
            using raise_uncomplete_ok [OF ok2 _ _ tl2'] xs ys by auto
          let ?L3 = "?L2(PRIORITY_HIGH := [a], PRIORITY_LOW := ys')"
          obtain h3 l3 nd3 where e3: "s3 = s2\<lparr>high := h3, low := l3, nodes := nd3\<rparr>" using s3(5) by blast
          obtain wba where wba: "nodes s2 a = Some wba"
            using lists_in [OF ok2, of a PRIORITY_LOW] ys by auto
          have u2: "list_uncomplete s2 (low s2) = Some True"
          proof -
            obtain wb where wb: "nodes s1 a = Some wb" "wb_advanced wb wba k2"
              using sh2 wba ys unfolding shrunk_def by fastforce
            have "a \<in> set (L PRIORITY_LOW)"
              using shrunk_sub [OF sh2 ok1] ys by auto
            then have "wb_ptr wb = (wb_buffer wb, 0)"
              using d1 wb(1) by (simp add: socket_data_def low_fresh_def)
            then have "wb_ptr wba \<noteq> (wb_buffer wba, 0)" using wb(2) k2 by (auto simp: wb_advanced_def)
            then show ?thesis using list_uncomplete_iff [OF ok2 _ wba, of ys'] ys by simp
          qed
          have loc: "send_buffer_locked ss s l = Some (SOCKET_NONE, ss2, s3)"
            unfolding step using s2 u2 s3(1) by simp
          have held3: "held ss2 s3 = None" and held1: "held ss1 s1 = None"
            using f1(3,4) shrunk_fields [OF sh2] unfolding e3 by (simp_all add: held_def)
          have fr: "low_fresh s3 ys'"
            unfolding low_fresh_def
          proof (intro ballI allI impI)
            fix b wb' assume b: "b \<in> set ys'" and wb': "nodes s3 b = Some wb'"
            obtain v where v: "nodes s2 b = Some v" "wb_advanced v wb' 0" using s3(6) [OF wb'] by blast
            have "a \<notin> set ys'"
              using lists_okD(1) [OF ok2, of PRIORITY_LOW] ys chain_distinct by fastforce
            then have "b \<noteq> a" using b by auto
            then obtain u where u: "nodes s1 b = Some u" "wb_advanced u v 0"
              using sh2 v(1) ys unfolding shrunk_def by fastforce
            have "b \<in> set (L PRIORITY_LOW)" using shrunk_sub [OF sh2 ok1] ys b by auto
            then have "wb_ptr u = (wb_buffer u, 0)" using d1 u(1) by (simp add: socket_data_def low_fresh_def)
            then show "wb_ptr wb' = (wb_buffer wb', 0)" using u(2) v(2) by (simp add: wb_advanced_def)
          qed
          have sub3: "dom (nodes s3) \<subseteq> dom (nodes s2)" "blocks_in (nodes s3) \<subseteq> blocks_in (nodes s2)"
            using s3(6) by (fastforce simp: blocks_in_def wb_advanced_def)+
          have b3: "\<forall>x\<in>dom (nodes s3). x < brk ss2"
          proof
            fix x assume "x \<in> dom (nodes s3)"
            then have "x \<in> dom (nodes s1)" using sub3(1) shrunk_nodes(1) [OF sh2] by blast
            then show "x < brk ss2" using d1 shrunk_fields(12) [OF sh2] by (simp add: socket_data_def)
          qed
          have m3: "msgs (mem ss2) (nodes s3) [a] = [r]" "msgs (mem ss2) (nodes s3) ys' = rest"
            unfolding s3(4) using dp(2) ys by (simp_all add: msgs_def)
          have soi2: "soi ss2 = soi ss1" by (rule shrunk_fields(11) [OF sh2])
          have dir3: "direct s3 = None" using f1(3) shrunk_fields(5) [OF sh2] by (simp add: e3)
          have d3: "socket_data ss2 s3 ?L3 r rest"
            unfolding socket_data_def held_ok_def held_bytes_def held3
            using s3(2,3) fr b3 m3 dir3 by simp
          have hi1: "hi1 = []" "lo1 = ds @ m # rest"
            using d1 held1 xs dp(1) by (simp_all add: socket_data_def held_bytes_def msgs_def)
          have "flows s1 hi1 lo1 s3 r rest"
            unfolding flows_def hi1 using w(1) dp(3) by (intro exI [of _ "ds @ [m]"]) (simp add: e3)
          moreover have "confined {} ss1 s1 ss2 s3"
          proof -
            have "confined {} ss1 s1 ss2 s2"
              by (rule shrunk_confined [OF sh2 f1(5) held1 f1(4,3)])
            moreover have "sblocks ss2 s3 \<subseteq> sblocks ss2 s2"
              using sub3(2) held3 by (auto simp: sblocks_def)
            ultimately show ?thesis unfolding confined_def by (auto simp: e3)
          qed
          moreover have "unarmed s3 \<longrightarrow> unarmed s1"
            using shrunk_nodes(4) [OF sh2] shrunk_fields [OF sh2] wba unfolding unarmed_def e3
            by (auto simp: fun_eq_iff)
          ultimately have "phase ss1 s1 hi1 lo1 ss2 s3 r rest"
            using tp shrunk_fields [OF sh2] f1(3,4) shrunk_nodes(4) [OF sh2] sub3(1)
            unfolding phase_def by (auto simp: e3)
          from phase_trans [OF ph1 this] d3 loc show ?thesis unfolding sent_result_def by blast
        qed
      qed
    qed
  qed
qed

end
