(* ===== verification/SocketOps.thy ===== *)
theory SocketOps
  imports SocketSend SocketServer
begin

text \<open>
  What each request and each readiness event of skynet-src/socket_server.c does to one socket:
  its lists, its memory and its stream of bytes. \<open>step_ok\<close> is the contract of the operations that
  are handed no data, \<open>accepted\<close> that of \<open>send_socket\<close>.
\<close>

section \<open>Operations on one socket\<close>

text \<open>
  An operation either has the property, or has no result because it waits for the lock that a
  sender thread holds.
\<close>

definition run_ok :: "bool \<Rightarrow> 'a option \<Rightarrow> ('a \<Rightarrow> bool) \<Rightarrow> bool" where
  "run_ok blocked x P \<longleftrightarrow> (case x of None \<Rightarrow> blocked | Some r \<Rightarrow> P r)"

lemma run_ok_Some [simp]: "run_ok b (Some r) P = P r"
  by (simp add: run_ok_def)

lemma run_ok_mono: "run_ok b x P \<Longrightarrow> (\<And>r. P r \<Longrightarrow> Q r) \<Longrightarrow> run_ok b x Q"
  by (auto simp: run_ok_def split: option.splits)

lemma run_ok_bind: "run_ok b x P \<Longrightarrow> (\<And>r. P r \<Longrightarrow> run_ok b (f r) Q) \<Longrightarrow> run_ok b (Option.bind x f) Q"
  by (cases x) (auto simp: run_ok_def)

definition moved :: "socket \<Rightarrow> bytes \<Rightarrow> bytes list \<Rightarrow> socket \<Rightarrow> bytes \<Rightarrow> bytes list \<Rightarrow> bool" where
  "moved s hi lo s' hi' lo' \<longleftrightarrow> (protocol s = PROTOCOL_TCP \<longrightarrow>
     (if stype s' = SOCKET_TYPE_INVALID then \<exists>h l. flows s hi lo s' h l
      else flows s hi lo s' hi' lo'))"

definition step_ok :: "socket_server \<Rightarrow> socket \<Rightarrow> bytes \<Rightarrow> bytes list \<Rightarrow> socket_server \<Rightarrow> socket \<Rightarrow> bool" where
  "step_ok ss s hi lo ss' s' \<longleftrightarrow> (\<exists>hi' lo'.
     confined {} ss s ss' s' \<and> socket_inv ss' s' hi' lo' \<and> (unarmed s' \<longrightarrow> unarmed s)
     \<and> sending s' = sending s \<and> direct s' = direct s \<and> moved s hi lo s' hi' lo'
     \<and> (stype s' = stype s \<or> stype s' \<noteq> SOCKET_TYPE_RESERVE
          \<and> stype s \<noteq> SOCKET_TYPE_RESERVE \<and> stype s \<noteq> SOCKET_TYPE_INVALID))"

lemma socket_invD:
  assumes "socket_inv ss s hi lo"
  shows "socket_flags s"
    "stype s \<noteq> SOCKET_TYPE_INVALID \<Longrightarrow> stype s \<noteq> SOCKET_TYPE_RESERVE \<Longrightarrow> \<exists>L. socket_data ss s L hi lo"
    "stype s = SOCKET_TYPE_INVALID \<or> stype s = SOCKET_TYPE_RESERVE \<Longrightarrow>
       high s = clear_wb_list \<and> low s = clear_wb_list \<and> hi = [] \<and> lo = []"
    "stype s \<in> idle_types \<Longrightarrow> nodes s = Map.empty \<and> dw_buffer s = None \<and> direct s = None"
    "direct s \<noteq> None \<longleftrightarrow> dw_lock s"
  using assms by (auto simp: socket_inv_def socket_flags_def split: if_splits)

text \<open>An operation that changes only flags, the state of the socket and what is reported.\<close>

lemma step_same:
  assumes inv: "socket_inv ss s hi lo" and mo: "mem_ok ss"
    and same: "same_data s s'" "same_mem ss ss'" "sid s' = sid s" "protocol s' = protocol s"
      "sending s' = sending s" "dw_lock s' = dw_lock s" "out s' = out s"
    and ty: "stype s' = stype s \<or> stype s \<noteq> SOCKET_TYPE_INVALID \<and> stype s \<noteq> SOCKET_TYPE_RESERVE
       \<and> stype s' \<noteq> SOCKET_TYPE_INVALID \<and> stype s' \<noteq> SOCKET_TYPE_RESERVE
       \<and> (stype s' \<in> idle_types \<longrightarrow> stype s \<in> idle_types)"
    and arm: "unarmed s' \<Longrightarrow> unarmed s"
  shows "step_ok ss s hi lo ss' s'"
proof -
  have fl: "socket_flags s'"
    using inv same ty by (auto simp: socket_inv_def socket_flags_def same_data_def)
  have "socket_inv ss' s' hi lo"
    using inv ty fl socket_data_cong [OF same(1,2)] same(1)
    by (auto simp: socket_inv_def same_data_def)
  moreover have "moved s hi lo s' hi lo"
    using flows_same [OF same(7), of hi lo] by (auto simp: moved_def)
  moreover have "confined {} ss s ss' s'" by (rule confined_same [OF same(1,2) mo same(3,4)])
  ultimately show ?thesis
    using same ty arm unfolding step_ok_def by (auto simp: same_data_def)
qed

lemma step_refl: "socket_inv ss s hi lo \<Longrightarrow> mem_ok ss \<Longrightarrow> step_ok ss s hi lo ss s"
  by (rule step_same) (simp_all add: same_data_def)

lemma reset_socket_step:
  assumes "confined {} ss s ss' s'" "reset_socket s s'" "\<not> dw_lock s" "direct s = None"
    "stype s \<noteq> SOCKET_TYPE_RESERVE" "stype s \<noteq> SOCKET_TYPE_INVALID"
  shows "step_ok ss s hi lo ss' s'"
proof -
  have "socket_inv ss' s' [] []" by (rule reset_socket_inv [OF assms(2,3)])
  moreover have "moved s hi lo s' [] []"
    using assms(2) flows_same [of s' s hi lo] by (auto simp: moved_def reset_socket_def)
  ultimately show ?thesis
    using assms unfolding step_ok_def by (auto simp: reset_socket_def unarmed_def)
qed

lemma force_close_run:
  assumes inv: "socket_inv ss s hi lo" and mo: "mem_ok ss" and ty: "stype s \<noteq> SOCKET_TYPE_RESERVE"
  shows "run_ok (direct s \<noteq> None) (force_close ss s 0)
     (\<lambda>(ss', s'). step_ok ss s hi lo ss' s' \<and> stype s' = SOCKET_TYPE_INVALID)"
proof (cases "stype s = SOCKET_TYPE_INVALID")
  case True
  then have "force_close ss s 0 = Some (set_result s NULL ss, s)" by (simp add: force_close_def)
  moreover have "step_ok ss s hi lo (set_result s NULL ss) s"
    by (rule step_same [OF inv mo]) (simp_all add: same_data_def set_result_def)
  ultimately show ?thesis using True by simp
next
  case False
  obtain L where data: "socket_data ss s L hi lo" using socket_invD(2) [OF inv False ty] by blast
  show ?thesis
  proof (cases "direct s")
    case None
    then have nl: "\<not> dw_lock s" using socket_invD(5) [OF inv] by simp
    from force_close_ok [OF data mo None False ty nl] obtain ss' s' where
      "force_close ss s 0 = Some (ss', s')" "confined {} ss s ss' s'" "reset_socket s s'" by blast
    then show ?thesis
      using reset_socket_step [OF _ _ nl None ty False] by (auto simp: reset_socket_def)
  next
    case (Some buf)
    then have lk: "dw_lock s" using socket_invD(5) [OF inv] by simp
    have ok: "lists_ok (mem (set_result s NULL ss)) (soi (set_result s NULL ss)) s L"
      using data by (simp add: socket_data_def set_result_def)
    obtain ssh sh where "free_wb_list PRIORITY_HIGH (set_result s NULL ss) s = Some (ssh, sh)"
      "free_wb_list PRIORITY_LOW ssh sh = Some
         ((set_result s NULL ss)\<lparr>mem := mem_without (mem (set_result s NULL ss)) (blocks_in (nodes s))\<rparr>,
          s\<lparr>high := clear_wb_list, low := clear_wb_list, nodes := (\<lambda>a. None)\<rparr>)"
      using free_lists_ok [OF ok] by (auto elim!: option_bind_SomeE split: prod.splits)
    then have "force_close ss s 0 = None"
      using False ty lk by (simp add: force_close_def socket_lock_def)
    then show ?thesis using Some by (simp add: run_ok_def)
  qed
qed

lemma send_buffer_run:
  assumes inv: "socket_inv ss s hi lo" and mo: "mem_ok ss"
    and ty: "stype s \<noteq> SOCKET_TYPE_RESERVE" "stype s \<noteq> SOCKET_TYPE_INVALID"
  shows "\<exists>r ss' s'. send_buffer ss s 0 = Some (r, ss', s') \<and> step_ok ss s hi lo ss' s'"
proof (cases "direct s")
  case (Some buf)
  then have "send_buffer ss s 0 = Some (SOCKET_NONE, ss, s)"
    using socket_invD(5) [OF inv] by (simp add: send_buffer_def socket_trylock_def)
  then show ?thesis using step_refl [OF inv mo] by blast
next
  case None
  then have nl: "\<not> dw_lock s" using socket_invD(5) [OF inv] by simp
  obtain L where data: "socket_data ss s L hi lo" using socket_invD(2) [OF inv ty(2,1)] by blast
  let ?s = "s\<lparr>dw_lock := True\<rparr>"
  have d0: "socket_data ss ?s L hi lo"
    using data socket_data_cong [of s ?s ss ss] by (simp add: same_data_def)
  have dir0: "direct ?s = None" using None by simp
  obtain L1 ss1 s1 z h nd where p: "put_dw_buffer ss ?s = (ss1, s1)" "socket_data ss1 s1 L1 hi lo"
    "dw_buffer s1 = None" "confined {} ss ?s ss1 s1" "mem ss1 = mem ss"
    "s1 = ?s\<lparr>high := h, wb_size := z, dw_buffer := None, nodes := nd\<rparr>"
    "dw_buffer ?s = None \<longrightarrow> s1 = ?s" "dw_buffer ?s \<noteq> None \<longrightarrow> nodes s1 \<noteq> Map.empty"
    using put_dw_buffer_ok [OF d0 dir0 mo] by (elim exE conjE) (rule that; assumption)
  note s1 = p(6)
  have f1: "direct s1 = None" "stype s1 = stype s" "mem_ok ss1" "protocol s1 = protocol s"
    "out s1 = out s" "writing s1 = writing s" "sending s1 = sending s" "dw_lock s1" "sid s1 = sid s"
    using None p(4) by (simp_all add: s1 confined_def)
  have udp: "protocol s1 \<noteq> PROTOCOL_TCP \<longrightarrow> (\<forall>a wb. nodes s1 a = Some wb \<longrightarrow> wb_udp wb \<noteq> None)"
    using inv p(7) f1(4) by (auto simp: socket_inv_def socket_flags_def)
  obtain r ss2 s2 where l: "send_buffer_locked ss1 s1 1 = Some (r, ss2, s2)"
    "sent_result ss1 s1 hi lo ss2 s2"
    using send_buffer_locked_ok [OF p(2) f1(3,1) p(3), of 1] ty f1(2) udp by auto
  let ?s2 = "s2\<lparr>dw_lock := False\<rparr>"
  have e: "send_buffer ss s 0 = Some (r, ss2, ?s2)"
    using nl p(1) l(1) by (simp add: send_buffer_def socket_trylock_def socket_unlock_def)
  have "sblocks ss ?s = sblocks ss s" by (rule held_same(3)) (simp_all add: same_data_def)
  then have cf1: "confined {} ss s ss1 s1" using p(4) by (simp add: confined_def)
  have nodes0: "nodes s = Map.empty \<and> dw_buffer s = None \<Longrightarrow> nodes s1 = Map.empty" using p(7) by simp
  have un: "unarmed s1 \<Longrightarrow> unarmed s"
    using f1 p(7) by (cases "dw_buffer s") (auto simp: unarmed_def p(3))
  have "sblocks ss2 ?s2 = sblocks ss2 s2" by (rule held_same(3)) (simp_all add: same_data_def)
  then have cf': "confined {} ss s ss2 ?s2" if "confined {} ss s ss2 s2"
    using that by (simp add: confined_def)
  have "step_ok ss s hi lo ss2 ?s2"
    using l(2) unfolding sent_result_def
  proof (elim disjE exE conjE)
    fix L' hi' lo' assume ph: "phase ss1 s1 hi lo ss2 s2 hi' lo'" and d: "socket_data ss2 s2 L' hi' lo'"
    have d': "socket_data ss2 ?s2 L' hi' lo'"
      using d socket_data_cong [of s2 ?s2 ss2 ss2] by (simp add: same_data_def)
    have t2: "stype s2 = stype s \<or> stype s2 = SOCKET_TYPE_HALFCLOSE_WRITE"
      "stype s2 \<noteq> SOCKET_TYPE_INVALID" "stype s2 \<noteq> SOCKET_TYPE_RESERVE"
      using ph f1(2) ty by (auto simp: phase_def)
    have dir2: "direct s2 = None" "dw_buffer s2 = None" "sending s2 = sending s" "dw_lock s2"
      "protocol s2 = protocol s" using ph f1 by (simp_all add: phase_def confined_def)
    have idle: "nodes s2 = Map.empty" if "stype s2 \<in> idle_types"
    proof -
      have "stype s2 \<noteq> SOCKET_TYPE_HALFCLOSE_WRITE" using that by (auto simp: idle_types_def)
      then have "stype s \<in> idle_types" using that t2 by auto
      then have "nodes s1 = Map.empty" using socket_invD(4) [OF inv] nodes0 by blast
      then show ?thesis using ph p(3) by (simp add: phase_def)
    qed
    have "socket_flags ?s2"
      using dir2 idle ph f1(4) by (auto simp: socket_flags_def phase_def)
    then have "socket_inv ss2 ?s2 hi' lo'" using d' t2 by (auto simp: socket_inv_def)
    moreover have "confined {} ss s ss2 ?s2"
      using cf' confined_trans [OF cf1] ph by (simp add: phase_def)
    moreover have "moved s hi lo ?s2 hi' lo'"
      using ph t2 f1 by (auto simp: moved_def phase_def flows_def)
    moreover have "unarmed ?s2 \<longrightarrow> unarmed s"
      using ph un by (auto simp: phase_def unarmed_def)
    ultimately show ?thesis
      unfolding step_ok_def using dir2 None t2 ty by auto
  next
    fix x y h1 l1 assume ph: "phase ss1 s1 hi lo x y h1 l1" and cf2: "confined {} x y ss2 s2"
      and rs: "reset_socket y s2"
    have yd: "direct y = None" "dw_lock y" "sending y = sending s" "protocol y = protocol s"
      using ph f1 by (simp_all add: phase_def confined_def)
    have "socket_inv ss2 ?s2 [] []"
      using rs by (auto simp: socket_inv_def socket_flags_def reset_socket_def)
    moreover have "confined {} ss s ss2 ?s2"
      using cf' confined_trans [OF confined_trans [OF cf1] cf2] ph by (simp add: phase_def)
    moreover have "moved s hi lo ?s2 [] []"
    proof -
      have "flows s hi lo ?s2 h1 l1" if "protocol s = PROTOCOL_TCP"
        using ph that f1(4,5) rs by (auto simp: phase_def flows_def reset_socket_def)
      then show ?thesis using rs by (auto simp: moved_def reset_socket_def)
    qed
    ultimately show ?thesis
      unfolding step_ok_def using rs yd None ty by (auto simp: reset_socket_def unarmed_def)
  qed
  then show ?thesis using e by blast
qed

subsection \<open>Requests\<close>

lemma step_enable_write:
  assumes inv: "socket_inv ss s hi lo" and mo: "mem_ok ss" and ew: "enable_write ss s True = (err, ss', s')"
  shows "step_ok ss s hi lo ss' s'" "step_ok ss s hi lo (set_result s' d ss') s'"
  using enable_write_same [OF ew]
  by (auto intro!: step_same [OF inv mo] simp: same_data_def unarmed_def set_result_def)

lemma step_enable_read:
  assumes inv: "socket_inv ss s hi lo" and mo: "mem_ok ss" and er: "enable_read ss s b = (err, ss', s')"
  shows "step_ok ss s hi lo ss' s'" "step_ok ss s hi lo (ss'\<lparr>result := m\<rparr>) s'"
  using enable_read_same [OF er]
  by (auto intro!: step_same [OF inv mo] simp: same_data_def unarmed_def)

lemma trigger_write_run:
  assumes inv: "socket_inv ss s hi lo" and mo: "mem_ok ss"
  shows "\<exists>r ss' s'. trigger_write i ss s = Some (r, ss', s') \<and> step_ok ss s hi lo ss' s'
     \<and> (socket_invalid s i \<or> writing s')"
proof -
  obtain err ss1 s1 where ew: "enable_write ss s True = (err, ss1, s1)" by (metis prod_cases3)
  show ?thesis
    using step_refl [OF inv mo] step_enable_write [OF inv mo ew] enable_write_same [OF ew] ew
    by (simp add: trigger_write_def report_error_def)
qed

lemma pause_socket_run:
  assumes inv: "socket_inv ss s hi lo" and mo: "mem_ok ss"
  shows "\<exists>r ss' s'. pause_socket i ss s = Some (r, ss', s') \<and> step_ok ss s hi lo ss' s'"
proof -
  obtain err ss1 s1 where er: "enable_read ss s False = (err, ss1, s1)" by (metis prod_cases3)
  show ?thesis
    using step_refl [OF inv mo] step_enable_read [OF inv mo er] er
    by (simp add: pause_socket_def report_error_def set_result_def)
qed

lemma setopt_socket_run:
  assumes inv: "socket_inv ss s hi lo" and mo: "mem_ok ss"
  shows "\<exists>r ss' s'. setopt_socket i what val ss s = Some (r, ss', s') \<and> step_ok ss s hi lo ss' s'"
proof -
  have "step_ok ss s hi lo (ss\<lparr>sys := os\<rparr>) s" for os
    by (rule step_same [OF inv mo]) (simp_all add: same_data_def)
  then show ?thesis using step_refl [OF inv mo]
    by (cases "sys ss") (simp_all add: setopt_socket_def next_outcome_def)
qed

lemma set_udp_address_run:
  assumes inv: "socket_inv ss s hi lo" and mo: "mem_ok ss"
  shows "\<exists>r ss' s'. set_udp_address i address ss s = Some (r, ss', s') \<and> step_ok ss s hi lo ss' s'"
proof -
  have "step_ok ss s hi lo ss (s\<lparr>p_udp_address := a, udpconnecting := u\<rparr>)" for a u
    by (rule step_same [OF inv mo]) (simp_all add: same_data_def unarmed_def)
  moreover have "step_ok ss s hi lo (set_result s d ss) s" for d
    by (rule step_same [OF inv mo]) (simp_all add: same_data_def set_result_def)
  moreover have "s\<lparr>udpconnecting := u, p_udp_address := a\<rparr> = s\<lparr>p_udp_address := a, udpconnecting := u\<rparr>" for u a
    by simp
  ultimately show ?thesis using step_refl [OF inv mo]
    by (auto simp: set_udp_address_def report_error_def Let_def)
qed

lemma resume_socket_run:
  assumes inv: "socket_inv ss s hi lo" and mo: "mem_ok ss" and ty: "stype s = SOCKET_TYPE_RESERVE \<Longrightarrow> sid s \<noteq> i"
  shows "\<exists>r ss' s'. resume_socket i opq ss s = Some (r, ss', s') \<and> step_ok ss s hi lo ss' s'"
proof -
  obtain err ss1 s1 where er: "enable_read ss s True = (err, ss1, s1)" by (metis prod_cases3)
  note es = enable_read_same [OF er]
  have 1: "step_ok ss s hi lo (ss\<lparr>result := m\<rparr>) s" for m
    by (rule step_same [OF inv mo]) (simp_all add: same_data_def)
  have 2: "step_ok ss s hi lo (ss1\<lparr>result := m\<rparr>) (s1\<lparr>stype := t, opaque := opq\<rparr>)"
    if "stype s1 = SOCKET_TYPE_PACCEPT \<and> t = SOCKET_TYPE_CONNECTED
      \<or> stype s1 = SOCKET_TYPE_PLISTEN \<and> t = SOCKET_TYPE_LISTEN" for m t
    using es that by (intro step_same [OF inv mo])
      (auto simp: same_data_def unarmed_def idle_types_def)
  have 3: "step_ok ss s hi lo (ss1\<lparr>result := m\<rparr>) (s1\<lparr>opaque := opq\<rparr>)" for m
    using es by (intro step_same [OF inv mo]) (auto simp: same_data_def unarmed_def)
  have o: "x\<lparr>opaque := opq, stype := t\<rparr> = x\<lparr>stype := t, opaque := opq\<rparr>" for x :: socket and t
    by simp
  show ?thesis
    using 1 2 3 step_enable_read(2) [OF inv mo er] er
    by (simp add: resume_socket_def Let_def)
qed

lemma close_read_run:
  assumes inv: "socket_inv ss s hi lo" and mo: "mem_ok ss" and c: "s0 = s \<or> s0 = s\<lparr>closing := True\<rparr>"
    and ty: "stype s \<noteq> SOCKET_TYPE_INVALID" "stype s \<noteq> SOCKET_TYPE_RESERVE"
      "stype s \<noteq> SOCKET_TYPE_HALFCLOSE_WRITE" and cr: "close_read ss s0 = (ss', s')"
  shows "step_ok ss s hi lo ss' s'"
proof -
  obtain err ss1 s1 where er: "enable_read ss (s0\<lparr>stype := SOCKET_TYPE_HALFCLOSE_READ\<rparr>) False = (err, ss1, s1)"
    by (metis prod_cases3)
  have "ss' = set_result s1 NULL ss1" "s' = s1" using cr er by (auto simp: close_read_def)
  then show ?thesis
    using enable_read_same [OF er] c ty
    by (auto intro!: step_same [OF inv mo] simp: same_data_def unarmed_def set_result_def idle_types_def)
qed

lemma close_socket_run:
  assumes inv: "socket_inv ss s hi lo" and mo: "mem_ok ss" and ty: "stype s = SOCKET_TYPE_RESERVE \<Longrightarrow> sid s \<noteq> i"
  shows "run_ok (direct s \<noteq> None) (close_socket i shutdown ss s)
     (\<lambda>(r, ss', s'). step_ok ss s hi lo ss' s')"
proof (cases "socket_invalid s i")
  case True
  then show ?thesis using step_refl [OF inv mo] by (simp add: close_socket_def)
next
  case False
  then have t: "stype s \<noteq> SOCKET_TYPE_INVALID" "stype s \<noteq> SOCKET_TYPE_RESERVE"
    using ty by (auto simp: socket_invalid_def)
  show ?thesis
  proof (cases "shutdown \<or> nomore_sending_data s")
    case True
    then have "close_socket i shutdown ss s = Option.bind (force_close ss s 0)
        (\<lambda>(ss, s'). Some (if halfclose_read s then SOCKET_NONE else SOCKET_CLOSE, ss, s'))"
      using False by (simp add: close_socket_def Let_def)
    then show ?thesis
      by (simp only:) (rule run_ok_bind [OF force_close_run [OF inv mo t(2)]]; auto)
  next
    case nm: False
    then have t': "stype s \<noteq> SOCKET_TYPE_HALFCLOSE_WRITE" by (simp add: nomore_sending_data_def)
    obtain ss1 s1 where cr: "close_read ss (s\<lparr>closing := True\<rparr>) = (ss1, s1)" by (metis prod.exhaust)
    have "step_ok ss s hi lo ss1 s1" by (rule close_read_run [OF inv mo _ t t' cr]) simp
    moreover have "step_ok ss s hi lo ss (s\<lparr>closing := True\<rparr>)"
      by (rule step_same [OF inv mo]) (simp_all add: same_data_def unarmed_def)
    ultimately show ?thesis using False nm cr by (simp add: close_socket_def Let_def)
  qed
qed

subsection \<open>Events\<close>

lemma next_outcome_same:
  "next_outcome ss = (oc, ss') \<Longrightarrow> same_mem ss ss'"
  by (auto simp: next_outcome_def split: list.splits)

lemma socket_inv_same_mem:
  "same_mem ss ss' \<Longrightarrow> socket_inv ss' s hi lo = socket_inv ss s hi lo"
  using socket_data_cong [of s s ss ss'] by (simp add: socket_inv_def same_data_def)

lemma mem_ok_same: "same_mem ss ss' \<Longrightarrow> mem_ok ss' = mem_ok ss"
  by (simp add: same_mem_def mem_ok_def)

lemma step_ok_from_same:
  assumes "same_mem ss ss1" "mem_ok ss" "step_ok ss1 s hi lo ss' s'"
  shows "step_ok ss s hi lo ss' s'"
proof -
  have "confined {} ss s ss1 s" by (rule confined_same [OF _ assms(1,2)]) (simp_all add: same_data_def)
  then have "confined {} ss1 s ss' s' \<Longrightarrow> confined {} ss s ss' s'" by (rule confined_trans)
  then show ?thesis using assms(3) unfolding step_ok_def by blast
qed

lemma step_ok_result:
  assumes "step_ok ss s hi lo ss' s'"
  shows "step_ok ss s hi lo (ss'\<lparr>result := m\<rparr>) s'"
proof -
  obtain hi' lo' where h: "confined {} ss s ss' s' \<and> socket_inv ss' s' hi' lo' \<and> (unarmed s' \<longrightarrow> unarmed s)
    \<and> sending s' = sending s \<and> direct s' = direct s \<and> moved s hi lo s' hi' lo'
    \<and> (stype s' = stype s \<or> stype s' \<noteq> SOCKET_TYPE_RESERVE
        \<and> stype s \<noteq> SOCKET_TYPE_RESERVE \<and> stype s \<noteq> SOCKET_TYPE_INVALID)"
    using assms unfolding step_ok_def by blast
  have sm': "same_mem ss' (ss'\<lparr>result := m\<rparr>)" by simp
  have "confined {} ss' s' (ss'\<lparr>result := m\<rparr>) s'"
    by (rule confined_same [OF _ sm']) (use h in \<open>simp_all add: same_data_def confined_def\<close>)
  then have "confined {} ss s (ss'\<lparr>result := m\<rparr>) s'" using h confined_trans by blast
  then show ?thesis
    using h socket_inv_same_mem [OF sm', of s' hi' lo'] unfolding step_ok_def by blast
qed

lemma force_close_event:
  assumes inv: "socket_inv ss s hi lo" and mo: "mem_ok ss" and ty: "stype s \<noteq> SOCKET_TYPE_RESERVE"
    and sm: "same_mem ss ss1"
  shows "run_ok (direct s \<noteq> None) (force_close ss1 s 0)
     (\<lambda>(ss', s'). step_ok ss s hi lo ss' s' \<and> step_ok ss s hi lo (ss'\<lparr>result := f ss'\<rparr>) s')"
proof -
  have inv1: "socket_inv ss1 s hi lo" using inv socket_inv_same_mem [OF sm] by simp
  have mo1: "mem_ok ss1" using mo mem_ok_same [OF sm] by simp
  have "step_ok ss s hi lo ss' s' \<and> step_ok ss s hi lo (ss'\<lparr>result := f ss'\<rparr>) s'"
    if "step_ok ss1 s hi lo ss' s'" for ss' s'
    using step_ok_from_same [OF sm mo that] step_ok_result by blast
  then show ?thesis using run_ok_mono [OF force_close_run [OF inv1 mo1 ty]] by fastforce
qed

lemma report_event_error_run:
  assumes inv: "socket_inv ss s hi lo" and mo: "mem_ok ss"
  shows "\<exists>r ss' s'. report_event_error ss s = Some (r, ss', s') \<and> step_ok ss s hi lo ss' s'"
proof -
  obtain oc ss1 where no: "next_outcome ss = (oc, ss1)" by (metis prod.exhaust)
  have "step_ok ss s hi lo (set_result s d ss1) s" for d
    using next_outcome_same [OF no]
    by (intro step_same [OF inv mo]) (simp_all add: same_data_def set_result_def)
  then show ?thesis using no by (simp add: report_event_error_def report_error_def)
qed

lemma eof_event_run:
  assumes inv: "socket_inv ss s hi lo" and mo: "mem_ok ss" and ty: "stype s \<noteq> SOCKET_TYPE_RESERVE"
  shows "run_ok (direct s \<noteq> None) (eof_event ss s) (\<lambda>(r, ss', s'). step_ok ss s hi lo ss' s')"
  unfolding eof_event_def Let_def
  by (rule run_ok_bind [OF force_close_run [OF inv mo ty]]) auto

lemma forward_message_tcp_run:
  assumes inv: "socket_inv ss s hi lo" and mo: "mem_ok ss"
    and ty: "stype s \<noteq> SOCKET_TYPE_RESERVE" "stype s \<noteq> SOCKET_TYPE_INVALID"
  shows "run_ok (direct s \<noteq> None) (forward_message_tcp ss s) (\<lambda>(r, ss', s'). step_ok ss s hi lo ss' s')"
proof -
  obtain oc ss1 where no: "next_outcome ss = (oc, ss1)" by (metis prod.exhaust)
  note sm = next_outcome_same [OF no]
  have keep: "step_ok ss s hi lo ss' s'" if "same_mem ss1 ss'" "same_data s s'"
    "stype s' = stype s" "sid s' = sid s" "protocol s' = protocol s" "sending s' = sending s"
    "dw_lock s' = dw_lock s" "out s' = out s" "writing s' = writing s" for ss' s'
    using that sm by (intro step_same [OF inv mo])
      (auto simp: same_data_def unarmed_def same_mem_def core_same_def)
  have fc: "run_ok (direct s \<noteq> None) (Option.bind (force_close ss1 s 0) (\<lambda>(ss, s). Some (r, ss, s)))
      (\<lambda>(r, ss', s'). step_ok ss s hi lo ss' s')" for r
    by (rule run_ok_bind [OF force_close_event [OF inv mo ty(1) sm]]) auto
  show ?thesis
  proof (cases "\<exists>bs. oc = Some (Got bs)")
    case True
    then obtain bs where oc: "oc = Some (Got bs)" by blast
    define b where "b = take (nat (p_size s)) bs"
    have fm: "forward_message_tcp ss s =
      (if b = [] then
         (if closing s then
            (if nomore_sending_data s then
               Option.bind (force_close ss1 s 0) (\<lambda>(ss, s). Some (SOCKET_NONE, ss, s))
             else Some (SOCKET_NONE, ss1, s))
          else if stype s = SOCKET_TYPE_HALFCLOSE_READ then Some (SOCKET_NONE, ss1, s)
          else if stype s = SOCKET_TYPE_HALFCLOSE_WRITE then
            Option.bind (force_close ss1 s 0) (\<lambda>(ss, s). Some (SOCKET_CLOSE, ss, s))
          else (case close_read ss1 s of (ss, s) \<Rightarrow> Some (SOCKET_CLOSE, ss, s)))
       else if halfclose_read s then Some (SOCKET_NONE, ss1, s)
       else
         let s' = stat_read ss1 s (int (length b));
             ss' = ss1\<lparr>result := \<lparr>m_id = sid s', m_opaque = opaque s', m_ud = int (length b),
                               m_data = Bytes b\<rparr>\<rparr> in
         if int (length b) = p_size s then Some (SOCKET_MORE, ss', s'\<lparr>p_size := c_int (p_size s' * 2)\<rparr>)
         else if p_size s > MIN_READ_BUFFER \<and> int (length b) * 2 < p_size s then
           Some (SOCKET_DATA, ss', s'\<lparr>p_size := p_size s' div 2\<rparr>)
         else Some (SOCKET_DATA, ss', s'))"
      unfolding forward_message_tcp_def Let_def no oc prod.case option.case outcome.case b_def [symmetric]
      by simp
    show ?thesis
    proof (cases "b = []")
      case n0: True
      consider "closing s" "nomore_sending_data s" | "closing s" "\<not> nomore_sending_data s"
        | "\<not> closing s" "stype s = SOCKET_TYPE_HALFCLOSE_READ"
        | "\<not> closing s" "stype s = SOCKET_TYPE_HALFCLOSE_WRITE"
        | "\<not> closing s" "stype s \<noteq> SOCKET_TYPE_HALFCLOSE_READ" "stype s \<noteq> SOCKET_TYPE_HALFCLOSE_WRITE"
        by blast
      then show ?thesis
      proof cases
        case 1
        then show ?thesis using fc n0 by (simp add: fm)
      next
        case 2
        then show ?thesis using n0 keep [of ss1 s] by (simp add: fm same_data_def)
      next
        case 3
        then show ?thesis using n0 keep [of ss1 s] by (simp add: fm same_data_def)
      next
        case 4
        then show ?thesis using fc n0 by (simp add: fm)
      next
        case 5
        obtain ss2 s2 where cr: "close_read ss1 s = (ss2, s2)" by (metis prod.exhaust)
        have inv1: "socket_inv ss1 s hi lo" "mem_ok ss1"
          using inv mo socket_inv_same_mem [OF sm] mem_ok_same [OF sm] by simp_all
        have "step_ok ss1 s hi lo ss2 s2"
          by (rule close_read_run [OF inv1 _ ty(2,1) 5(3) cr]) simp
        then have "step_ok ss s hi lo ss2 s2" by (rule step_ok_from_same [OF sm mo])
        then show ?thesis using 5 n0 cr by (simp add: fm)
      qed
    next
      case False
      then show ?thesis using keep by (simp add: fm Let_def same_data_def stat_read_def)
    qed
  next
    case False
    have e: "forward_message_tcp ss s = (if outcome_errno oc = EINTR \<or> outcome_errno oc = EAGAIN
        then Some (SOCKET_NONE, ss1, s)
        else Some (SOCKET_ERR, set_result s (Strerror (outcome_errno oc)) ss1, s))"
      using no False
      by (cases oc; simp add: forward_message_tcp_def Let_def report_error_def)
        (rename_tac x, case_tac x; simp add: report_error_def)
    show ?thesis unfolding e using keep by (simp add: same_data_def set_result_def)
  qed
qed

lemma forward_message_udp_run:
  assumes inv: "socket_inv ss s hi lo" and mo: "mem_ok ss"
    and ty: "stype s \<noteq> SOCKET_TYPE_RESERVE"
  shows "run_ok (direct s \<noteq> None) (forward_message_udp ss s) (\<lambda>(r, ss', s'). step_ok ss s hi lo ss' s')"
proof -
  obtain oc ss1 where no: "next_outcome ss = (oc, ss1)" by (metis prod.exhaust)
  note sm = next_outcome_same [OF no]
  have keep: "step_ok ss s hi lo ss' s'" if "same_mem ss1 ss'" "same_data s s'"
    "stype s' = stype s" "sid s' = sid s" "protocol s' = protocol s" "sending s' = sending s"
    "dw_lock s' = dw_lock s" "out s' = out s" "writing s' = writing s" for ss' s'
    using that sm by (intro step_same [OF inv mo])
      (auto simp: same_data_def unarmed_def same_mem_def core_same_def)
  have fc: "run_ok (direct s \<noteq> None) (Option.bind (force_close ss1 s 0)
        (\<lambda>(ss, s). Some (r, ss\<lparr>result := f ss\<rparr>, s)))
      (\<lambda>(r, ss', s'). step_ok ss s hi lo ss' s')" for r f
    by (rule run_ok_bind [OF force_close_event [OF inv mo ty sm, of f]]) auto
  show ?thesis
  proof (cases "\<exists>sa bs. oc = Some (From sa bs)")
    case True
    then obtain sa bs where "oc = Some (From sa bs)" by blast
    then show ?thesis using no keep
      by (simp add: forward_message_udp_def Let_def same_data_def stat_read_def)
  next
    case False
    have e: "forward_message_udp ss s = (if outcome_errno oc = EINTR \<or> outcome_errno oc = EAGAIN
        then Some (SOCKET_NONE, ss1, s)
        else Option.bind (force_close ss1 s 0) (\<lambda>(ss, s). Some (SOCKET_ERR,
           ss\<lparr>result := (result ss)\<lparr>m_data := Strerror (outcome_errno oc)\<rparr>\<rparr>, s)))"
      using no False
      by (cases oc; simp add: forward_message_udp_def Let_def)
        (rename_tac x, case_tac x; simp)
    show ?thesis unfolding e using keep [of ss1 s]
        fc [of SOCKET_ERR "\<lambda>ss. (result ss)\<lparr>m_data := Strerror (outcome_errno oc)\<rparr>"]
      by (simp add: same_data_def)
  qed
qed

lemma data_empty:
  assumes "socket_data ss s L hi lo" "send_buffer_empty s"
  shows "nodes s = Map.empty" "L p = []"
proof -
  have ok: "lists_ok (mem ss) (soi ss) s L" using assms(1) by (simp add: socket_data_def)
  have "wl_head (wb_list_of q s) = None" for q
    using assms(2) by (cases q) (simp_all add: send_buffer_empty_def wb_list_of_def)
  then have "L q = []" for q using lists_head_None [OF ok] by blast
  then show "nodes s = Map.empty" "L p = []" using lists_nodes_empty [OF ok] by blast+
qed

lemma data_not_empty:
  assumes "socket_data ss s L hi lo" "\<not> send_buffer_empty s"
  shows "nodes s \<noteq> Map.empty"
proof -
  have ok: "lists_ok (mem ss) (soi ss) s L" using assms(1) by (simp add: socket_data_def)
  show ?thesis
    using assms(2) lists_head_None [OF ok, of PRIORITY_HIGH] lists_head_None [OF ok, of PRIORITY_LOW]
      lists_nodes_empty [OF ok] by (auto simp: send_buffer_empty_def wb_list_of_def)
qed

lemma report_connect_run:
  assumes inv: "socket_inv ss s hi lo" and mo: "mem_ok ss" and ty: "stype s = SOCKET_TYPE_CONNECTING"
  shows "run_ok (direct s \<noteq> None) (report_connect ss s) (\<lambda>(r, ss', s'). step_ok ss s hi lo ss' s')"
proof -
  obtain oc ss1 where no: "next_outcome ss = (oc, ss1)" by (metis prod.exhaust)
  note sm = next_outcome_same [OF no]
  have tr: "stype s \<noteq> SOCKET_TYPE_RESERVE" "stype s \<noteq> SOCKET_TYPE_INVALID" using ty by simp_all
  obtain L where data: "socket_data ss s L hi lo" using socket_invD(2) [OF inv tr(2,1)] by blast
  let ?c = "s\<lparr>stype := SOCKET_TYPE_CONNECTED\<rparr>"
  have conn: "step_ok ss s hi lo ss' s'" if "same_mem ss ss'"
    "s' = ?c\<lparr>writing := w\<rparr>" "w = writing s \<or> nomore_sending_data ?c" for ss' s' w
  proof (rule step_same [OF inv mo _ that(1)])
    assume u: "unarmed s'"
    have "nodes s = Map.empty \<and> dw_buffer s = None" if "nomore_sending_data ?c"
      using that data_empty(1) [OF data]
      by (auto simp: nomore_sending_data_def send_buffer_empty_def)
    then show "unarmed s" using u that ty by (auto simp: unarmed_def)
  qed (use that ty in \<open>auto simp: same_data_def idle_types_def\<close>)
  show ?thesis
  proof (cases "so_error oc")
    case (Some e)
    then have e: "report_connect ss s = Option.bind (force_close ss1 s 0) (\<lambda>(ss, s). Some (SOCKET_ERR,
        ss\<lparr>result := (result ss)\<lparr>m_data := Strerror e\<rparr>\<rparr>, s))"
      using no by (simp add: report_connect_def)
    show ?thesis unfolding e
      by (rule run_ok_bind [OF force_close_event [OF inv mo tr(1) sm,
            of "\<lambda>ss. (result ss)\<lparr>m_data := Strerror e\<rparr>"]]) auto
  next
    case None
    let ?ss2 = "ss1\<lparr>result := (result ss1)\<lparr>m_opaque := opaque s, m_id := sid s, m_ud := 0\<rparr>\<rparr>"
    have r2: "(result ss1)\<lparr>m_id := sid s, m_opaque := opaque s, m_ud := 0\<rparr>
        = (result ss1)\<lparr>m_opaque := opaque s, m_id := sid s, m_ud := 0\<rparr>" by simp
    obtain err ss3 s3 where en: "(if nomore_sending_data ?c then enable_write ?ss2 ?c False
        else (False, ?ss2, ?c)) = (err, ss3, s3)" by (metis prod_cases3)
    have s3: "same_mem ss ss3 \<and> (\<exists>w. s3 = ?c\<lparr>writing := w\<rparr> \<and> (w = writing s \<or> nomore_sending_data ?c))"
    proof (cases "nomore_sending_data ?c")
      case True
      then have "enable_write ?ss2 ?c False = (err, ss3, s3)" using en by simp
      from enable_write_same [OF this] show ?thesis
        using sm True by (auto simp: same_mem_def core_same_def)
    next
      case False
      then have "ss3 = ?ss2" "s3 = ?c" using en by auto
      then show ?thesis using sm by (auto intro!: exI [of _ "writing s"])
    qed
    have st3: "step_ok ss s hi lo ss3 s3" using conn s3 by blast
    have e: "report_connect ss s =
       (if err then Option.bind (force_close ss3 s3 0) (\<lambda>(ss, s). Some (SOCKET_ERR,
           ss\<lparr>result := (result ss)\<lparr>m_data := Str ''disable write failed''\<rparr>\<rparr>, s))
        else (case next_outcome ss3 of (oc, ss) \<Rightarrow>
               Some (SOCKET_OPEN, ss\<lparr>result := (result ss)\<lparr>m_data := peer_name oc\<rparr>\<rparr>, s3)))"
      using no None en by (cases "nomore_sending_data ?c") (auto simp: report_connect_def)
    show ?thesis
    proof (cases err)
      case False
      obtain oc4 ss4 where no4: "next_outcome ss3 = (oc4, ss4)" by (metis prod.exhaust)
      have "same_mem ss (ss4\<lparr>result := (result ss4)\<lparr>m_data := peer_name oc4\<rparr>\<rparr>)"
        using s3 next_outcome_same [OF no4] by (auto simp: same_mem_def core_same_def)
      then have "step_ok ss s hi lo (ss4\<lparr>result := (result ss4)\<lparr>m_data := peer_name oc4\<rparr>\<rparr>) s3"
        using conn s3 by blast
      then show ?thesis unfolding e using False no4 by simp
    next
      case True
      have i3: "socket_inv ss3 s3 hi lo" "mem_ok ss3"
      proof -
        have "same_data s s3" using s3 by (auto simp: same_data_def)
        then have "socket_data ss3 s3 L hi lo" using data socket_data_cong s3 by blast
        moreover obtain w where e3: "s3 = ?c\<lparr>writing := w\<rparr>" using s3 by blast
        have "socket_flags s3"
          using socket_invD(1) [OF inv] unfolding e3 socket_flags_def by (simp add: idle_types_def)
        ultimately show "socket_inv ss3 s3 hi lo" unfolding e3 by (auto simp: socket_inv_def)
        show "mem_ok ss3" using mo mem_ok_same s3 by blast
      qed
      have fields: "stype s3 = SOCKET_TYPE_CONNECTED" "direct s3 = direct s" "sid s3 = sid s"
        "protocol s3 = protocol s" "out s3 = out s" "sending s3 = sending s" using s3 by auto
      have "step_ok ss s hi lo ss' s'" if st: "step_ok ss3 s3 hi lo ss' s'" "stype s' = SOCKET_TYPE_INVALID"
        for ss' s'
      proof -
        obtain hi' lo' where h: "confined {} ss3 s3 ss' s'" "socket_inv ss' s' hi' lo'"
          "sending s' = sending s3" "direct s' = direct s3" "moved s3 hi lo s' hi' lo'"
          using st(1) unfolding step_ok_def by blast
        have "confined {} ss s ss3 s3" using st3 unfolding step_ok_def by blast
        then have "confined {} ss s ss' s'" using h(1) confined_trans by blast
        moreover have "\<not> unarmed s'"
          using socket_invD(4) [OF h(2)] st(2) by (auto simp: idle_types_def unarmed_def)
        moreover have "moved s hi lo s' hi' lo'"
        proof -
          have "flows s3 hi lo s' = flows s hi lo s'" by (intro ext) (simp add: flows_def fields)
          then show ?thesis using h(5) fields(4) by (simp add: moved_def st(2))
        qed
        ultimately show ?thesis unfolding step_ok_def using h fields tr st(2) by auto
      qed
      note close = this
      have fc: "run_ok (direct s3 \<noteq> None) (force_close ss3 s3 0) (\<lambda>(ss', s').
          step_ok ss s hi lo (ss'\<lparr>result := (result ss')\<lparr>m_data := Str ''disable write failed''\<rparr>\<rparr>) s')"
      proof -
        have "stype s3 \<noteq> SOCKET_TYPE_RESERVE" using fields by simp
        note run = force_close_run [OF i3 this]
        show ?thesis using run_ok_mono [OF run] close step_ok_result by fastforce
      qed
      show ?thesis unfolding e using True fields(2)
        by simp (rule run_ok_bind [OF fc [unfolded fields(2), simplified]]; auto)
    qed
  qed
qed

subsection \<open>Changes of memory elsewhere\<close>

lemma read_mem_cong: "m' (fst ptr) = m (fst ptr) \<Longrightarrow> read_mem m' ptr n = read_mem m ptr n"
  by (simp add: read_mem_def)

lemma held_soi: "soi ss' = soi ss \<Longrightarrow> held ss' s = held ss s"
  by (simp add: held_def send_object_init_def send_object_init_from_sendbuffer_def
      split: option.split buffer_type.split)

lemma sblocks_soi: "soi ss' = soi ss \<Longrightarrow> sblocks ss' s = sblocks ss s"
  using held_soi [of ss' ss s] by (simp add: sblocks_def)

lemma held_in_sblocks: "held ss s = Some (ptr, n, k) \<Longrightarrow> fst ptr \<in> sblocks ss s"
  by (simp add: sblocks_def)

lemma socket_data_frame:
  assumes data: "socket_data ss s L hi lo" and m: "\<And>b. b \<in> sblocks ss s \<Longrightarrow> mem ss' b = mem ss b"
    and soi: "soi ss' = soi ss" and b: "brk ss \<le> brk ss'"
  shows "socket_data ss' s L hi lo"
proof -
  have nb: "read_mem (mem ss') (wb_ptr wb) k = read_mem (mem ss) (wb_ptr wb) k" if "nodes s a = Some wb" for a wb k
    using m blocks_inI [of "nodes s" a wb] that by (intro read_mem_cong) (auto simp: sblocks_def)
  have ok: "lists_ok (mem ss) (soi ss) s L" using data by (simp add: socket_data_def)
  have "lists_ok (mem ss') (soi ss') s L"
  proof (rule lists_okI)
    fix p show "chain (nx (nodes s)) (wl_head (wb_list_of p s)) (L p) None" by (rule lists_okD(1) [OF ok])
  next
    show "dom (nodes s) = (\<Union>p. set (L p))" by (rule lists_dom [OF ok])
  next
    fix p q :: priority assume "p \<noteq> q"
    then show "set (L p) \<inter> set (L q) = {}" by (rule lists_disjoint [OF ok])
  next
    fix a wb assume a: "nodes s a = Some wb"
    then show "node_ok (mem ss') (soi ss') wb"
      using lists_okD(4) [OF ok a] nb [OF a] soi by (simp add: node_ok_def)
  next
    fix a c wa wc assume "a \<noteq> c" "nodes s a = Some wa" "nodes s c = Some wc"
    then show "fst (wb_ptr wa) \<noteq> fst (wb_ptr wc)" by (rule lists_okD(5) [OF ok])
  next
    show "wb_size s = (\<Sum>a\<in>dom (nodes s). int (wb_sz (the (nodes s a))))" by (rule lists_okD(6) [OF ok])
  qed
  moreover have "msgs (mem ss') (nodes s) (L p) = msgs (mem ss) (nodes s) (L p)" for p
    unfolding msgs_def
  proof (rule map_cong [OF refl])
    fix a assume "a \<in> set (L p)"
    then obtain wb where "nodes s a = Some wb" using lists_in [OF ok] by blast
    then show "node_bytes (mem ss') (the (nodes s a)) = node_bytes (mem ss) (the (nodes s a))"
      using nb by (simp add: node_bytes_def)
  qed
  moreover have "held_ok ss' s = held_ok ss s" "held_bytes ss' s = held_bytes ss s"
  proof (atomize (full), cases "held ss s")
    case None
    then show "held_ok ss' s = held_ok ss s \<and> held_bytes ss' s = held_bytes ss s"
      using held_soi [OF soi, of s] by (simp add: held_ok_def held_bytes_def)
  next
    case (Some h)
    obtain ptr n k where h: "h = (ptr, n, k)" by (metis prod_cases3)
    have "read_mem (mem ss') ptr n = read_mem (mem ss) ptr n"
      using m held_in_sblocks Some h by (intro read_mem_cong) blast
    then show "held_ok ss' s = held_ok ss s \<and> held_bytes ss' s = held_bytes ss s"
      using held_soi [OF soi, of s] Some h by (simp add: held_ok_def held_bytes_def)
  qed
  moreover have "\<forall>a\<in>dom (nodes s). a < brk ss'"
  proof
    fix a assume "a \<in> dom (nodes s)"
    then have "a < brk ss" using data by (simp add: socket_data_def)
    then show "a < brk ss'" using b by simp
  qed
  ultimately show ?thesis using data by (simp add: socket_data_def)
qed

lemma socket_inv_frame:
  assumes "socket_inv ss s hi lo" "\<And>b. b \<in> sblocks ss s \<Longrightarrow> mem ss' b = mem ss b"
    "soi ss' = soi ss" "brk ss \<le> brk ss'"
  shows "socket_inv ss' s hi lo"
proof -
  have "\<exists>L. socket_data ss s L hi lo \<Longrightarrow> \<exists>L. socket_data ss' s L hi lo"
    using socket_data_frame [OF _ assms(2-4)] by blast
  then show ?thesis using assms(1) unfolding socket_inv_def by presburger
qed

subsection \<open>Sending\<close>

text \<open>The block and the bytes of a request to send.\<close>

definition req_block :: "socket_server \<Rightarrow> request_send \<Rightarrow> nat" where
  "req_block ss req = (case send_object_init ss (rs_buffer req) (rs_sz req) of (ptr, n, user) \<Rightarrow> fst ptr)"

definition req_bytes :: "socket_server \<Rightarrow> request_send \<Rightarrow> bytes option" where
  "req_bytes ss req = (case send_object_init ss (rs_buffer req) (rs_sz req) of (ptr, n, user) \<Rightarrow>
     read_mem (mem ss) ptr n)"

text \<open>A user object may go to the low list only where \<open>soi.buffer\<close> is the object itself.\<close>

definition low_object_ok :: "socket_server \<Rightarrow> request_send \<Rightarrow> bool" where
  "low_object_ok ss req \<longleftrightarrow> (rs_sz req = USEROBJECT \<longrightarrow> so_buffer (soi ss) (rs_buffer req) = rs_buffer req)"

lemma req_block_live: "req_bytes ss req = Some bs \<Longrightarrow> mem ss (req_block ss req) \<noteq> None"
  by (auto simp: req_bytes_def req_block_def read_mem_def split: prod.splits option.splits)

lemma drop_request_ok:
  assumes "req_bytes ss req = Some bs" "mem_ok ss"
  shows "\<exists>ss'. drop_request req ss s = Some (SOCKET_NONE, ss', s) \<and> confined {req_block ss req} ss s ss' s
     \<and> (\<forall>b. b \<noteq> req_block ss req \<longrightarrow> mem ss' b = mem ss b)"
proof -
  let ?ss = "ss\<lparr>mem := (mem ss)(req_block ss req := None)\<rparr>"
  have "so_free (rs_sz req = USEROBJECT) (rs_buffer req) ss = Some ?ss"
    using req_block_live [OF assms(1)]
    by (cases "rs_sz req = USEROBJECT") (auto simp: so_free_def soi_free_def FREE_def req_block_def send_object_init_def)
  then have "drop_request req ss s = Some (SOCKET_NONE, ?ss, s)" by (simp add: drop_request_def)
  moreover have "confined {req_block ss req} ss s ?ss s"
    using assms(2) sblocks_soi [of ?ss ss s]
    by (auto simp: confined_def core_same_def mem_ok_def)
  ultimately show ?thesis by auto
qed

lemma upd_next_fields:
  "w'\<lparr>wb_next := x\<rparr> = w \<Longrightarrow> wb_ptr w = wb_ptr w' \<and> wb_buffer w = wb_buffer w' \<and> wb_udp w = wb_udp w'"
  by auto

lemma append_buffer_ok:
  assumes data: "socket_data ss s L hi lo" and mo: "mem_ok ss" and bs: "req_bytes ss req = Some bs"
    and fresh: "req_block ss req \<notin> sblocks ss s" and low: "p = PRIORITY_LOW \<Longrightarrow> low_object_ok ss req"
  shows "\<exists>n ss' s1 s'. append_buffer p udp req ss s = Some (n, ss', s1)
     \<and> s' = s1\<lparr>wb_size := wb_size s1 + int n\<rparr>
     \<and> (\<exists>L'. socket_data ss' s' L' (if p = PRIORITY_HIGH then hi @ bs else hi)
          (if p = PRIORITY_LOW then lo @ [bs] else lo))
     \<and> confined {req_block ss req} ss s ss' s'
     \<and> nodes s' \<noteq> Map.empty
     \<and> (\<forall>a wb. nodes s' a = Some wb \<longrightarrow> wb_udp wb = udp \<or> (\<exists>wb0. nodes s a = Some wb0 \<and> wb_udp wb = wb_udp wb0))
     \<and> (\<exists>h l z nd. s' = s\<lparr>high := h, low := l, wb_size := z, nodes := nd\<rparr>)"
proof -
  obtain ptr n user where so: "send_object_init ss (rs_buffer req) (rs_sz req) = (ptr, n, user)"
    by (metis prod_cases3)
  have rb: "req_block ss req = fst ptr" and rd: "read_mem (mem ss) ptr n = Some bs"
    using so bs by (simp_all add: req_block_def req_bytes_def)
  have ok: "lists_ok (mem ss) (soi ss) s L" using data by (simp add: socket_data_def)
  let ?buf = "brk ss"
  let ?wb = "\<lparr>wb_next = None, wb_buffer = rs_buffer req, wb_ptr = ptr, wb_sz = n,
     wb_userobject = user, wb_udp = udp\<rparr>"
  let ?ss = "ss\<lparr>brk := brk ss + 1\<rparr>"
  have new: "nodes s ?buf = None" using data by (fastforce simp: socket_data_def)
  have nin: "?buf \<notin> set (L q)" for q using new lists_dom [OF ok] by (metis UN_I UNIV_I domIff)
  have wbok: "node_ok (mem ss) (soi ss) ?wb"
    using rd so by (auto simp: node_ok_def send_object_init_def split: if_splits)
  have nb: "node_bytes (mem ss) ?wb = bs" using rd by (simp add: node_bytes_def)
  have B: "fst (wb_ptr w) \<noteq> fst (wb_ptr ?wb)" if "nodes s a = Some w" for a w
    using fresh blocks_inI [of "nodes s" a w] that by (auto simp: sblocks_def rb)
  have ch: "chain (nx (nodes s)) (wl_head (wb_list_of p s)) (L p) None" by (rule lists_okD(1) [OF ok])
  define s1 where "s1 = (if L p = [] then
      set_wb_list p \<lparr>wl_head = Some ?buf, wl_tail = Some ?buf\<rparr> (s\<lparr>nodes := (nodes s)(?buf := Some ?wb)\<rparr>)
    else set_wb_list p ((wb_list_of p s)\<lparr>wl_tail := Some ?buf\<rparr>)
      (s\<lparr>nodes := (nodes s)(?buf := Some ?wb, last (L p) := Some ((the (nodes s (last (L p))))\<lparr>wb_next := Some ?buf\<rparr>))\<rparr>))"
  have lastin: "L p \<noteq> [] \<Longrightarrow> \<exists>w. nodes s (last (L p)) = Some w \<and> wb_next w = None"
  proof -
    assume ne: "L p \<noteq> []"
    then obtain w where w: "nodes s (last (L p)) = Some w" using lists_in [OF ok, of "last (L p)" p] by auto
    have "nx (nodes s) (last (L p)) = None"
      using chain_next_last [of "nx (nodes s)" _ "butlast (L p)" "last (L p)"] ch ne by simp
    then show ?thesis using w by (simp add: nx_def)
  qed
  have lne: "last (L p) \<noteq> ?buf" if "L p \<noteq> []" using nin [of p] that by (metis last_in_set)
  have app: "append_buffer p udp req ss s = Some (n, ?ss, s1)"
  proof (cases "L p = []")
    case True
    then have "wl_head (wb_list_of p s) = None" using lists_head_None [OF ok] by blast
    then show ?thesis using so True by (simp add: append_buffer_def s1_def Let_def)
  next
    case False
    then have h: "wl_head (wb_list_of p s) \<noteq> None" using lists_head_None [OF ok] by blast
    have t: "wl_tail (wb_list_of p s) = Some (last (L p))"
      using data False by (auto simp: socket_data_def tail_ok_def)
    obtain w where w: "nodes s (last (L p)) = Some w" "wb_next w = None" using lastin [OF False] by blast
    show ?thesis
      using so h t w False lne [OF False] by (auto simp: append_buffer_def s1_def Let_def fun_upd_twist)
  qed
  let ?s = "s1\<lparr>wb_size := wb_size s1 + int n\<rparr>"
  have nodes1: "nodes ?s = (if L p = [] then (nodes s)(?buf := Some ?wb) else
      (nodes s)(?buf := Some ?wb, last (L p) := Some ((the (nodes s (last (L p))))\<lparr>wb_next := Some ?buf\<rparr>)))"
    by (simp add: s1_def)
  have size1: "wb_size ?s = wb_size s + int n" by (simp add: s1_def)
  have wl1: "wb_list_of q s1 = (if q = p then (if L p = [] then \<lparr>wl_head = Some ?buf, wl_tail = Some ?buf\<rparr>
      else (wb_list_of p s)\<lparr>wl_tail := Some ?buf\<rparr>) else wb_list_of q s)" for q
    by (auto simp: s1_def)
  note nodes2 = nodes1 [simplified]
  have A: "\<exists>w'. nodes ?s a = Some w' \<and> w'\<lparr>wb_next := wb_next w\<rparr> = w" if "nodes s a = Some w" for a w
  proof (cases "L p = [] \<or> a \<noteq> last (L p)")
    case True
    have "a \<noteq> ?buf" using that new by auto
    then have "nodes ?s a = Some w" using that True unfolding nodes1 by (cases "L p = []") simp_all
    then show ?thesis by simp
  next
    case False
    then have "nodes ?s a = Some (w\<lparr>wb_next := Some ?buf\<rparr>)" using that unfolding nodes1 by simp
    then show ?thesis by simp
  qed
  have D: "dom (nodes ?s) = insert ?buf (dom (nodes s))"
  proof (cases "L p = []")
    case False
    then have "last (L p) \<in> dom (nodes s)" using lastin by blast
    then show ?thesis using False unfolding nodes1 by (simp add: insert_commute insert_absorb)
  qed (simp add: nodes1)
  have N: "nodes ?s ?buf = Some ?wb" using lne unfolding nodes1 by (cases "L p = []") simp_all
  have C: "chain (nx (nodes ?s)) (wl_head (wb_list_of p ?s)) (L p @ [?buf]) None"
  proof (cases "L p = []")
    case True
    then show ?thesis by (simp add: wl1 nodes2)
  next
    case False
    let ?nd = "(nodes s)(?buf := Some ?wb)"
    obtain w where w: "nodes s (last (L p)) = Some w" using lastin [OF False] by blast
    have c1: "chain (nx ?nd) (wl_head (wb_list_of p s)) (butlast (L p) @ [last (L p)]) None"
      using ch nin [of p] False by simp
    have "last (L p) \<notin> set (butlast (L p))"
      using chain_distinct [OF ch] False by (metis append_butlast_last_id distinct_append not_distinct_conv_prefix distinct.simps(2) disjoint_iff list.set_intros(1))
    from chain_snoc_upd [OF c1 this, of ?buf]
    have "chain ((nx ?nd)(last (L p) := Some ?buf)) (wl_head (wb_list_of p s)) (butlast (L p) @ [last (L p), ?buf]) None"
      using lne [OF False] by simp
    moreover have "butlast (L p) @ [last (L p), ?buf] = L p @ [?buf]"
      using append_butlast_last_id [OF False] by (metis append.assoc append_Cons append_Nil)
    moreover have "nx (nodes ?s) = (nx ?nd)(last (L p) := Some ?buf)"
      using False by (simp add: nodes2)
    ultimately show ?thesis using False by (simp add: wl1)
  qed
  have E: "chain (nx (nodes ?s)) (wl_head (wb_list_of q ?s)) (L q) None" if "q \<noteq> p" for q
  proof -
    have "last (L p) \<notin> set (L q)" if "L p \<noteq> []"
      using lists_disjoint [OF ok, of p q] \<open>q \<noteq> p\<close> that by (metis disjoint_iff last_in_set)
    then show ?thesis using lists_okD(1) [OF ok, of q] nin [of q] that by (simp add: wl1 nodes2)
  qed
  have ok': "lists_ok (mem ss) (soi ss) ?s (L(p := L p @ [?buf]))"
    by (rule lists_ok_add(1) [OF ok new wbok B A N D _ C E]) (use size1 in auto)
  have same: "msgs (mem ss) (nodes ?s) ys = msgs (mem ss) (nodes s) ys" if "set ys \<subseteq> dom (nodes s)" for ys
    by (rule lists_ok_add(2) [OF ok new wbok B A N D _ C E _ that]) (use size1 in auto)
  have sub: "set (L q) \<subseteq> dom (nodes s)" for q using lists_dom [OF ok] by blast
  have m1: "msgs (mem ss) (nodes ?s) ((L(p := L p @ [?buf])) q) =
     (if q = p then msgs (mem ss) (nodes s) (L p) @ [bs] else msgs (mem ss) (nodes s) (L q))" for q
  proof (cases "q = p")
    case True
    have "msgs (mem ss) (nodes ?s) [?buf] = [bs]" using N nb by (simp add: msgs_def)
    then show ?thesis using same [OF sub [of p]] True by (simp add: msgs_def)
  next
    case False
    then show ?thesis using same [OF sub [of q]] by simp
  qed
  have frame: "\<exists>h l z nd. ?s = s\<lparr>high := h, low := l, wb_size := z, nodes := nd\<rparr>"
  proof -
    have "?s = s\<lparr>high := high ?s, low := low ?s, wb_size := wb_size ?s, nodes := nodes ?s\<rparr>"
      by (cases p) (simp_all add: s1_def set_wb_list_def)
    then show ?thesis by blast
  qed
  have hs: "held ?ss ?s = held ss s" "held_bytes ?ss ?s = held_bytes ss s"
    "direct ?s = direct s \<and> dw_buffer ?s = dw_buffer s"
  proof -
    obtain h l z nd where e: "?s = s\<lparr>high := h, low := l, wb_size := z, nodes := nd\<rparr>" using frame by blast
    show 1: "held ?ss ?s = held ss s" unfolding e held_def
      by (simp add: send_object_init_def send_object_init_from_sendbuffer_def
        split: option.split buffer_type.split)
    then show "held_bytes ?ss ?s = held_bytes ss s"
      by (simp add: held_bytes_def split: option.split prod.split)
    show "direct ?s = direct s \<and> dw_buffer ?s = dw_buffer s" unfolding e by simp
  qed
  have blks: "blocks_in (nodes ?s) \<subseteq> insert (fst ptr) (blocks_in (nodes s))"
  proof
    fix b assume "b \<in> blocks_in (nodes ?s)"
    then obtain a w' where w': "nodes ?s a = Some w'" "b = fst (wb_ptr w')" by (auto simp: blocks_in_def)
    show "b \<in> insert (fst ptr) (blocks_in (nodes s))"
    proof (cases "a = ?buf")
      case True
      then show ?thesis using w' N by simp
    next
      case False
      then obtain w where w: "nodes s a = Some w" using w'(1) D by (metis domD domI insertE)
      obtain w'' where "nodes ?s a = Some w''" "w''\<lparr>wb_next := wb_next w\<rparr> = w" using A [OF w] by blast
      then have "wb_ptr w = wb_ptr w'" using upd_next_fields w'(1) by (metis option.inject)
      then show ?thesis using w' blocks_inI [of "nodes s" a w] w by simp
    qed
  qed
  have data': "socket_data ?ss ?s (L(p := L p @ [?buf])) (if p = PRIORITY_HIGH then hi @ bs else hi)
     (if p = PRIORITY_LOW then lo @ [bs] else lo)"
    unfolding socket_data_def
  proof (intro conjI)
    show "lists_ok (mem ?ss) (soi ?ss) ?s (L(p := L p @ [?buf]))" using ok' by simp
    show "\<forall>q. tail_ok (wb_list_of q ?s) ((L(p := L p @ [?buf])) q)"
      using data by (simp add: wl1 tail_ok_def socket_data_def)
    show "low_fresh ?s ((L(p := L p @ [?buf])) PRIORITY_LOW)"
      unfolding low_fresh_def
    proof (intro ballI allI impI)
      fix a wb assume a: "a \<in> set ((L(p := L p @ [?buf])) PRIORITY_LOW)" and wb: "nodes ?s a = Some wb"
      show "wb_ptr wb = (wb_buffer wb, 0)"
      proof (cases "a = ?buf")
        case True
        then have "p = PRIORITY_LOW" using a nin [of PRIORITY_LOW] by (cases p) auto
        then show ?thesis using wb N True low so
          by (auto simp: low_object_ok_def send_object_init_def split: if_splits)
      next
        case False
        then have aL: "a \<in> set (L PRIORITY_LOW)" using a by (cases p) auto
        then obtain w where w: "nodes s a = Some w" using lists_in [OF ok] by blast
        obtain w' where w': "nodes ?s a = Some w'" "w'\<lparr>wb_next := wb_next w\<rparr> = w" using A [OF w] by blast
        have "wb_ptr w = (wb_buffer w, 0)" using data aL w by (auto simp: socket_data_def low_fresh_def)
        moreover have "wb_ptr w = wb_ptr w'" "wb_buffer w = wb_buffer w'"
          using upd_next_fields [OF w'(2)] by blast+
        ultimately show ?thesis using w'(1) wb by simp
      qed
    qed
    show "\<forall>a\<in>dom (nodes ?s). a < brk ?ss"
    proof
      fix a assume "a \<in> dom (nodes ?s)"
      then have "a = ?buf \<or> a \<in> dom (nodes s)" using D by blast
      moreover have "\<forall>a\<in>dom (nodes s). a < brk ss" using data by (simp add: socket_data_def)
      ultimately show "a < brk ?ss" by (auto intro: less_SucI)
    qed
    show "held_ok ?ss ?s"
      unfolding held_ok_def hs(1)
    proof (cases "held ss s")
      case (Some h)
      obtain hp hn hk where h: "h = (hp, hn, hk)" by (metis prod_cases3)
      have "held_ok ss s" using data by (simp add: socket_data_def)
      moreover have "fst hp \<noteq> fst ptr" using fresh rb held_in_sblocks Some h by metis
      ultimately show "case held ss s of None \<Rightarrow> True | Some (hp, hn, hk) \<Rightarrow>
          read_mem (mem ?ss) hp hn \<noteq> None \<and> hk \<le> hn \<and> fst hp \<notin> blocks_in (nodes ?s)"
        using Some h blks by (auto simp: held_ok_def)
    qed simp
    show "direct ?s \<noteq> None \<longrightarrow> dw_buffer ?s = None" using hs(3) data by (simp add: socket_data_def)
    show "(if p = PRIORITY_HIGH then hi @ bs else hi) =
        held_bytes ?ss ?s @ concat (msgs (mem ?ss) (nodes ?s) ((L(p := L p @ [?buf])) PRIORITY_HIGH))"
      unfolding hs(2) using data m1 [of PRIORITY_HIGH] by (simp add: socket_data_def)
    show "(if p = PRIORITY_LOW then lo @ [bs] else lo) =
        msgs (mem ?ss) (nodes ?s) ((L(p := L p @ [?buf])) PRIORITY_LOW)"
      using data m1 [of PRIORITY_LOW] by (simp add: socket_data_def)
  qed
  have "confined {req_block ss req} ss s ?ss ?s"
  proof -
    obtain h l z nd where e: "?s = s\<lparr>high := h, low := l, wb_size := z, nodes := nd\<rparr>" using frame by blast
    have "sid ?s = sid s \<and> protocol ?s = protocol s" unfolding e by simp
    moreover have "sblocks ?ss ?s \<subseteq> sblocks ss s \<union> {req_block ss req}"
      unfolding sblocks_def hs(1) rb using blks by auto
    ultimately show ?thesis using mo by (auto simp: confined_def core_same_def mem_ok_def less_SucI)
  qed
  note conf = this
  have ne: "nodes ?s \<noteq> Map.empty" using N by auto
  have udp': "\<forall>a wb. nodes ?s a = Some wb \<longrightarrow>
      wb_udp wb = udp \<or> (\<exists>wb0. nodes s a = Some wb0 \<and> wb_udp wb = wb_udp wb0)"
  proof (intro allI impI)
    fix a wb assume that: "nodes ?s a = Some wb"
    show "wb_udp wb = udp \<or> (\<exists>wb0. nodes s a = Some wb0 \<and> wb_udp wb = wb_udp wb0)"
    proof (cases "a = ?buf")
      case True
      then show ?thesis using that N by auto
    next
      case False
      have "a \<in> dom (nodes ?s)" using that by blast
      then have "a \<in> dom (nodes s)" using D False by blast
      then obtain w where w: "nodes s a = Some w" by blast
      obtain w' where w': "nodes ?s a = Some w'" "w'\<lparr>wb_next := wb_next w\<rparr> = w" using A [OF w] by blast
      have "wb_udp w = wb_udp w'" using upd_next_fields [OF w'(2)] by blast
      then show ?thesis using w w'(1) that by simp
    qed
  qed
  show ?thesis
    by (rule exI [of _ n], rule exI [of _ ?ss], rule exI [of _ s1], rule exI [of _ ?s],
      intro conjI) ((rule app refl conf ne udp' frame)+ | (rule exI, rule data'))+
qed

text \<open>What a request to send does to the socket: it takes over the block of the request.\<close>

definition accepted :: "nat set \<Rightarrow> socket_server \<Rightarrow> socket \<Rightarrow> bytes \<Rightarrow> bytes list \<Rightarrow> socket_server \<Rightarrow> socket \<Rightarrow> bool" where
  "accepted N ss s hi' lo' ss' s' \<longleftrightarrow> confined N ss s ss' s' \<and> socket_inv ss' s' hi' lo'
     \<and> (unarmed s' \<longrightarrow> unarmed s) \<and> sending s' = sending s \<and> direct s' = direct s
     \<and> stype s' = stype s \<and> out s' = out s"

definition queued :: "bool \<Rightarrow> priority \<Rightarrow> bytes \<Rightarrow> bytes \<Rightarrow> bytes list \<Rightarrow> bytes \<Rightarrow> bytes list \<Rightarrow> bool" where
  "queued refused p m hi lo hi' lo' \<longleftrightarrow>
     (if refused then hi' = hi \<and> lo' = lo
      else hi' = hi @ m \<and> lo' = lo \<and> (p = PRIORITY_LOW \<longrightarrow> lo = [])
         \<or> p = PRIORITY_LOW \<and> hi' = hi \<and> lo' = lo @ [m])"

lemma send_warning_same:
  "\<exists>r ss' w. send_warning ss s = Some (r, ss', s\<lparr>warn_size := w\<rparr>) \<and> same_mem ss ss'"
proof (cases "wb_size s \<ge> WARNING_SIZE \<and> wb_size s \<ge> warn_size s")
  case True
  then show ?thesis by (simp add: send_warning_def) blast
next
  case False
  have "s = s\<lparr>warn_size := warn_size s\<rparr>" by simp
  then show ?thesis using False unfolding send_warning_def by (metis same_mem_refl)
qed

lemma send_enable_same:
  "\<exists>r ss' w. send_enable ss s = Some (r, ss', s\<lparr>writing := True, warn_size := w\<rparr>) \<and> same_mem ss ss'"
proof -
  obtain err ss1 s1 where ew: "enable_write ss s True = (err, ss1, s1)" by (metis prod_cases3)
  have h: "same_mem ss ss1" "s1 = s\<lparr>writing := True\<rparr>" using enable_write_same [OF ew] by auto
  show ?thesis
  proof (cases err)
    case True
    have "s1 = s\<lparr>writing := True, warn_size := warn_size s\<rparr>" using h(2) by simp
    moreover have "same_mem ss (set_result s1 (Str ''enable write failed'') ss1)" using h(1) by (simp add: set_result_def)
    ultimately show ?thesis using True ew
      by (intro exI [of _ SOCKET_ERR] exI [of _ "set_result s1 (Str ''enable write failed'') ss1"]
        exI [of _ "warn_size s"]) (simp add: send_enable_def report_error_def)
  next
    case False
    obtain r ss2 w where w: "send_warning ss1 s1 = Some (r, ss2, s1\<lparr>warn_size := w\<rparr>)" "same_mem ss1 ss2"
      using send_warning_same by blast
    have "same_mem ss ss2" using h(1) w(2) by (auto simp: same_mem_def core_same_def)
    then show ?thesis using False ew w(1) h(2) by (simp add: send_enable_def) blast
  qed
qed

lemma append_step:
  assumes inv: "socket_inv ss s hi lo" and mo: "mem_ok ss" and bs: "req_bytes ss req = Some bs"
    and fresh: "req_block ss req \<notin> sblocks ss s" and low: "p = PRIORITY_LOW \<longrightarrow> low_object_ok ss req"
    and ty: "stype s \<notin> idle_types" and udp: "protocol s \<noteq> PROTOCOL_TCP \<longrightarrow> udp \<noteq> None"
  shows "\<exists>n ss' s1. append_buffer p udp req ss s = Some (n, ss', s1)
     \<and> (\<forall>ss'' wr w. same_mem ss' ss'' \<longrightarrow> wr \<or> wr = writing s \<and> nodes s \<noteq> Map.empty \<longrightarrow>
         accepted {req_block ss req} ss s (if p = PRIORITY_HIGH then hi @ bs else hi)
           (if p = PRIORITY_LOW then lo @ [bs] else lo) ss''
           (s1\<lparr>wb_size := wb_size s1 + int n, writing := wr, warn_size := w\<rparr>))
     \<and> writing (s1\<lparr>wb_size := wb_size s1 + int n\<rparr>) = writing s"
proof -
  have ty': "stype s \<noteq> SOCKET_TYPE_INVALID" "stype s \<noteq> SOCKET_TYPE_RESERVE"
    using ty by (auto simp: idle_types_def)
  obtain L where data: "socket_data ss s L hi lo" using socket_invD(2) [OF inv ty'] by blast
  obtain n ss' s1 s' where app: "append_buffer p udp req ss s = Some (n, ss', s1)"
    and s': "s' = s1\<lparr>wb_size := wb_size s1 + int n\<rparr>"
    and data': "\<exists>L'. socket_data ss' s' L' (if p = PRIORITY_HIGH then hi @ bs else hi)
          (if p = PRIORITY_LOW then lo @ [bs] else lo)"
    and conf: "confined {req_block ss req} ss s ss' s'"
    and u: "\<forall>a wb. nodes s' a = Some wb \<longrightarrow> wb_udp wb = udp \<or> (\<exists>wb0. nodes s a = Some wb0 \<and> wb_udp wb = wb_udp wb0)"
    and fr: "\<exists>h l z nd. s' = s\<lparr>high := h, low := l, wb_size := z, nodes := nd\<rparr>"
    using append_buffer_ok [OF data mo bs fresh, of p udp] low by blast
  have fs: "stype s' = stype s \<and> protocol s' = protocol s \<and> sid s' = sid s \<and> sending s' = sending s
      \<and> direct s' = direct s \<and> dw_lock s' = dw_lock s \<and> dw_buffer s' = dw_buffer s \<and> out s' = out s
      \<and> writing s' = writing s"
  proof -
    obtain h l z nd where e: "s' = s\<lparr>high := h, low := l, wb_size := z, nodes := nd\<rparr>" using fr by blast
    show ?thesis unfolding e by simp
  qed
  have "accepted {req_block ss req} ss s (if p = PRIORITY_HIGH then hi @ bs else hi)
           (if p = PRIORITY_LOW then lo @ [bs] else lo) ss'' (s'\<lparr>writing := wr, warn_size := w\<rparr>)"
    if sm: "same_mem ss' ss''" and wr: "wr \<or> wr = writing s \<and> nodes s \<noteq> Map.empty" for ss'' wr w
  proof -
    let ?s = "s'\<lparr>writing := wr, warn_size := w\<rparr>"
    have sd: "same_data s' ?s" by (simp add: same_data_def)
    have "mem_ok ss'" using conf by (simp add: confined_def)
    then have "confined {} ss' s' ss'' ?s" by (rule confined_same [OF sd sm]) simp_all
    then have c: "confined {req_block ss req} ss s ss'' ?s" by (rule confined_trans [OF conf])
    have dok: "\<exists>L'. socket_data ss'' ?s L' (if p = PRIORITY_HIGH then hi @ bs else hi)
          (if p = PRIORITY_LOW then lo @ [bs] else lo)"
      using data' socket_data_cong [OF sd sm] by blast
    have "socket_flags ?s"
    proof -
      have old: "socket_flags s" by (rule socket_invD(1) [OF inv])
      have "wb_udp wb \<noteq> None" if "protocol s \<noteq> PROTOCOL_TCP" "nodes s' a = Some wb" for a wb
        using u udp old that unfolding socket_flags_def by metis
      then show ?thesis using old ty fs unfolding socket_flags_def by simp
    qed
    then have "socket_inv ss'' ?s (if p = PRIORITY_HIGH then hi @ bs else hi)
          (if p = PRIORITY_LOW then lo @ [bs] else lo)"
      using dok fs ty' by (simp add: socket_inv_def)
    moreover have "unarmed ?s \<longrightarrow> unarmed s" using wr fs by (auto simp: unarmed_def)
    ultimately show ?thesis using c fs by (simp add: accepted_def)
  qed
  then show ?thesis using app s' fs by (intro exI [of _ n] exI [of _ ss'] exI [of _ s1]) simp
qed

lemma append_enable:
  assumes "socket_inv ss s hi lo" "mem_ok ss" "req_bytes ss req = Some bs"
    "req_block ss req \<notin> sblocks ss s" "p = PRIORITY_LOW \<longrightarrow> low_object_ok ss req"
    "stype s \<notin> idle_types" "protocol s \<noteq> PROTOCOL_TCP \<longrightarrow> udp \<noteq> None"
  shows "\<exists>n ss1 s1 r ss' s'. append_buffer p udp req ss s = Some (n, ss1, s1)
     \<and> send_enable ss1 (s1\<lparr>wb_size := wb_size s1 + int n\<rparr>) = Some (r, ss', s')
     \<and> accepted {req_block ss req} ss s (if p = PRIORITY_HIGH then hi @ bs else hi)
           (if p = PRIORITY_LOW then lo @ [bs] else lo) ss' s'"
proof -
  obtain n ss1 s1 where app: "append_buffer p udp req ss s = Some (n, ss1, s1)"
    and acc: "\<And>ss'' w. same_mem ss1 ss'' \<Longrightarrow>
       accepted {req_block ss req} ss s (if p = PRIORITY_HIGH then hi @ bs else hi)
           (if p = PRIORITY_LOW then lo @ [bs] else lo) ss''
         (s1\<lparr>wb_size := wb_size s1 + int n, writing := True, warn_size := w\<rparr>)"
    using append_step [OF assms] by blast
  obtain r ss' w where en: "send_enable ss1 (s1\<lparr>wb_size := wb_size s1 + int n\<rparr>) =
      Some (r, ss', s1\<lparr>wb_size := wb_size s1 + int n, writing := True, warn_size := w\<rparr>)"
    "same_mem ss1 ss'"
    using send_enable_same by blast
  show ?thesis using app en(1) acc [OF en(2)] by blast
qed

lemma append_warning:
  assumes "socket_inv ss s hi lo" "mem_ok ss" "req_bytes ss req = Some bs"
    "req_block ss req \<notin> sblocks ss s" "p = PRIORITY_LOW \<longrightarrow> low_object_ok ss req"
    "stype s \<notin> idle_types" "protocol s \<noteq> PROTOCOL_TCP \<longrightarrow> udp \<noteq> None"
    and ne: "nodes s \<noteq> Map.empty"
  shows "\<exists>n ss1 s1 r ss' s'. append_buffer p udp req ss s = Some (n, ss1, s1)
     \<and> send_warning ss1 (s1\<lparr>wb_size := wb_size s1 + int n\<rparr>) = Some (r, ss', s')
     \<and> accepted {req_block ss req} ss s (if p = PRIORITY_HIGH then hi @ bs else hi)
           (if p = PRIORITY_LOW then lo @ [bs] else lo) ss' s'"
proof -
  obtain n ss1 s1 where app: "append_buffer p udp req ss s = Some (n, ss1, s1)"
    and all: "\<forall>ss'' wr w. same_mem ss1 ss'' \<longrightarrow> wr \<or> wr = writing s \<and> nodes s \<noteq> Map.empty \<longrightarrow>
       accepted {req_block ss req} ss s (if p = PRIORITY_HIGH then hi @ bs else hi)
           (if p = PRIORITY_LOW then lo @ [bs] else lo) ss''
         (s1\<lparr>wb_size := wb_size s1 + int n, writing := wr, warn_size := w\<rparr>)"
    and wr: "writing (s1\<lparr>wb_size := wb_size s1 + int n\<rparr>) = writing s"
    using append_step [OF assms(1-7)] by (elim exE conjE) (rule that; assumption)
  obtain r ss' w where en: "send_warning ss1 (s1\<lparr>wb_size := wb_size s1 + int n\<rparr>) =
      Some (r, ss', s1\<lparr>wb_size := wb_size s1 + int n, warn_size := w\<rparr>)" "same_mem ss1 ss'"
    using send_warning_same by blast
  have "s1\<lparr>wb_size := wb_size s1 + int n, writing := writing s1, warn_size := w\<rparr>
      = s1\<lparr>wb_size := wb_size s1 + int n, warn_size := w\<rparr>" by simp
  then have "accepted {req_block ss req} ss s (if p = PRIORITY_HIGH then hi @ bs else hi)
      (if p = PRIORITY_LOW then lo @ [bs] else lo) ss' (s1\<lparr>wb_size := wb_size s1 + int n, warn_size := w\<rparr>)"
    using all [rule_format, OF en(2), of "writing s1" w] wr ne by simp
  then show ?thesis using app en(1) by blast
qed

lemma drop_request_accepted:
  assumes inv: "socket_inv ss s hi lo" and mo: "mem_ok ss" and bs: "req_bytes ss req = Some bs"
    and fresh: "req_block ss req \<notin> sblocks ss s"
    and sm: "same_mem ss ss1" and sd: "same_data s s1"
      "stype s1 = stype s" "sid s1 = sid s" "protocol s1 = protocol s" "sending s1 = sending s"
      "dw_lock s1 = dw_lock s" "out s1 = out s" "writing s1 = writing s"
  shows "\<exists>ss'. drop_request req ss1 s1 = Some (SOCKET_NONE, ss', s1)
     \<and> accepted {req_block ss req} ss s hi lo ss' s1"
proof -
  have f: "mem ss1 = mem ss" "soi ss1 = soi ss" "brk ss1 = brk ss" using same_memD [OF sm] by auto
  have rb: "req_block ss1 req = req_block ss req" "req_bytes ss1 req = req_bytes ss req"
    by (simp_all add: req_block_def req_bytes_def send_object_init_def f)
  have sb: "sblocks ss1 s1 = sblocks ss s" by (rule held_same(3) [OF sd(1) sm])
  have "mem_ok ss1" using mo mem_ok_same [OF sm] by simp
  from drop_request_ok [OF _ this, of req bs s1] obtain ss' where
    dr: "drop_request req ss1 s1 = Some (SOCKET_NONE, ss', s1)"
      "confined {req_block ss req} ss1 s1 ss' s1"
      "\<forall>b. b \<noteq> req_block ss req \<longrightarrow> mem ss' b = mem ss b"
    using rb bs f by auto
  have "confined {} ss s ss1 s1" by (rule confined_same [OF sd(1) sm mo sd(3,4)])
  then have c: "confined {req_block ss req} ss s ss' s1"
    using dr(2) f sb unfolding confined_def by (auto intro: core_same_trans)
  have inv1: "socket_inv ss1 s1 hi lo"
  proof -
    have "socket_flags s1" using socket_invD(1) [OF inv] sd by (simp add: socket_flags_def same_data_def)
    then show ?thesis
      using inv socket_data_cong [OF sd(1) sm] sd(1,2) by (auto simp: socket_inv_def same_data_def)
  qed
  have "socket_inv ss' s1 hi lo"
  proof (rule socket_inv_frame [OF inv1])
    fix b assume "b \<in> sblocks ss1 s1"
    then have "b \<noteq> req_block ss req" using sb fresh by blast
    then show "mem ss' b = mem ss1 b" using dr(3) f by simp
  next
    show "soi ss' = soi ss1" "brk ss1 \<le> brk ss'"
      using dr(2) by (auto simp: confined_def core_same_def)
  qed
  moreover have "unarmed s1 = unarmed s" using sd by (simp add: unarmed_def same_data_def)
  ultimately show ?thesis using dr(1) c sd by (auto simp: accepted_def same_data_def)
qed

lemma accepted_from_same:
  assumes "same_mem ss ss1" "mem_ok ss" "accepted N ss1 s hi' lo' ss' s'"
  shows "accepted N ss s hi' lo' ss' s'"
proof -
  have sb: "sblocks ss1 s = sblocks ss s"
    by (rule held_same(3) [OF _ assms(1)]) (simp add: same_data_def)
  have "mem ss1 = mem ss" "brk ss1 = brk ss" "core_same ss ss1"
    using assms(1) by (simp_all add: same_mem_def)
  then have "confined N ss s ss' s'"
    using assms(3) sb unfolding accepted_def confined_def by (auto intro: core_same_trans)
  then show ?thesis using assms(3) by (simp add: accepted_def)
qed

lemma send_socket_run:
  assumes inv: "socket_inv ss s hi lo" and mo: "mem_ok ss" and bs: "req_bytes ss req = Some bs"
    and fresh: "req_block ss req \<notin> sblocks ss s"
    and low: "p = PRIORITY_LOW \<Longrightarrow> low_object_ok ss req"
    and ty: "stype s = SOCKET_TYPE_RESERVE \<Longrightarrow> send_refused s (rs_id req)"
  shows "\<exists>r ss' s' hi' lo'. send_socket req p ua ss s = Some (r, ss', s')
     \<and> accepted {req_block ss req} ss s hi' lo' ss' s'
     \<and> (protocol s = PROTOCOL_TCP \<longrightarrow> queued (send_refused s (rs_id req)) p bs hi lo hi' lo')"
proof (cases "send_refused s (rs_id req)")
  case True
  then show ?thesis
    using drop_request_accepted [OF inv mo bs fresh same_mem_refl]
    by (fastforce simp: send_socket_def queued_def same_data_def)
next
  case False
  then have ni: "stype s \<notin> idle_types" using ty by (auto simp: idle_types_def send_refused_def)
  then have ty': "stype s \<noteq> SOCKET_TYPE_INVALID" "stype s \<noteq> SOCKET_TYPE_RESERVE" by (auto simp: idle_types_def)
  obtain L where data: "socket_data ss s L hi lo" using socket_invD(2) [OF inv ty'] by blast
  show ?thesis
  proof (cases "send_buffer_empty s")
    case empty: True
    show ?thesis
    proof (cases "protocol s = PROTOCOL_TCP")
      case tcp: True
      obtain n ss1 s1 r ss' s' where app: "append_buffer PRIORITY_HIGH None req ss s = Some (n, ss1, s1)"
        and en: "send_enable ss1 (s1\<lparr>wb_size := wb_size s1 + int n\<rparr>) = Some (r, ss', s')"
        and acc: "accepted {req_block ss req} ss s (hi @ bs) lo ss' s'"
        using append_enable [OF inv mo bs fresh, of PRIORITY_HIGH None] ni tcp by auto
      have "lo = []" using data data_empty(2) [OF data empty] by (simp add: socket_data_def msgs_def)
      then have "queued (send_refused s (rs_id req)) p bs hi lo (hi @ bs) lo" using False by (simp add: queued_def)
      moreover have "send_socket req p ua ss s = Some (r, ss', s')"
        using False empty tcp app en by (simp add: send_socket_def append_sendbuffer_def)
      ultimately show ?thesis using acc by blast
    next
      case tcp: False
      define addr where "addr = (case ua of None \<Rightarrow> p_udp_address s | Some a \<Rightarrow> a)"
      show ?thesis
      proof (cases "udp_socket_address s addr")
        case None
        obtain ss' where "drop_request req ss s = Some (SOCKET_NONE, ss', s)"
            "accepted {req_block ss req} ss s hi lo ss' s"
          using drop_request_accepted [OF inv mo bs fresh same_mem_refl, of s] by (auto simp: same_data_def)
        then show ?thesis using False empty tcp None by (auto simp: send_socket_def addr_def Let_def)
      next
        case (Some sa)
        obtain ptr sz user where so: "send_object_init ss (rs_buffer req) (rs_sz req) = (ptr, sz, user)"
          by (metis prod_cases3)
        have rd: "read_mem (mem ss) ptr sz = Some bs" using so bs by (simp add: req_bytes_def)
        obtain oc ss0 where no: "next_outcome ss = (oc, ss0)" by (metis prod.exhaust)
        note sm = next_outcome_same [OF no]
        show ?thesis
        proof (cases "\<exists>n. oc = Some (Ret n)")
          case True
          let ?s = "(stat_write ss0 s (int sz))\<lparr>dgrams := dgrams s @ [(sa, bs)]\<rparr>"
          obtain ss' where d: "drop_request req ss0 ?s = Some (SOCKET_NONE, ss', ?s)"
              "accepted {req_block ss req} ss s hi lo ss' ?s"
            using drop_request_accepted [OF inv mo bs fresh sm, of ?s]
            by (auto simp: same_data_def stat_write_def)
          have "send_socket req p ua ss s = Some (SOCKET_NONE, ss', ?s)"
            using False empty tcp Some True so rd no d(1)
            by (auto simp: send_socket_def addr_def Let_def)
          then show ?thesis using d(2) tcp by blast
        next
          case nr: False
          have f: "mem ss0 = mem ss" "soi ss0 = soi ss" using same_memD [OF sm] by auto
          have eq: "req_block ss0 req = req_block ss req" "req_bytes ss0 req = req_bytes ss req"
              "low_object_ok ss0 req = low_object_ok ss req"
            by (simp_all add: req_block_def req_bytes_def low_object_ok_def send_object_init_def f)
          have sb: "sblocks ss0 s = sblocks ss s"
            by (rule held_same(3) [OF _ sm]) (simp add: same_data_def)
          have "\<exists>n ss1 s1 r ss' s'. append_buffer p (Some addr) req ss0 s = Some (n, ss1, s1)
             \<and> send_enable ss1 (s1\<lparr>wb_size := wb_size s1 + int n\<rparr>) = Some (r, ss', s')
             \<and> accepted {req_block ss0 req} ss0 s (if p = PRIORITY_HIGH then hi @ bs else hi)
               (if p = PRIORITY_LOW then lo @ [bs] else lo) ss' s'"
            by (rule append_enable)
              (use inv mo bs fresh low ni eq sb in \<open>simp_all add: socket_inv_same_mem [OF sm] mem_ok_same [OF sm]\<close>)
          then obtain n ss1 s1 r ss' s' where
            app: "append_buffer p (Some addr) req ss0 s = Some (n, ss1, s1)"
            and en: "send_enable ss1 (s1\<lparr>wb_size := wb_size s1 + int n\<rparr>) = Some (r, ss', s')"
            and acc: "accepted {req_block ss req} ss0 s (if p = PRIORITY_HIGH then hi @ bs else hi)
              (if p = PRIORITY_LOW then lo @ [bs] else lo) ss' s'"
            unfolding eq by blast
          have "send_socket req p ua ss s = Some (r, ss', s')"
            using False empty tcp Some nr so rd no app en
            by (auto simp: send_socket_def append_sendbuffer_udp_def addr_def Let_def
              split: option.splits outcome.splits)
          then show ?thesis using accepted_from_same [OF sm mo acc] tcp by blast
        qed
      qed
    qed
  next
    case empty: False
    note ne = data_not_empty [OF data empty]
    show ?thesis
    proof (cases "protocol s = PROTOCOL_TCP")
      case tcp: True
      have "\<exists>n ss1 s1 r ss' s'. append_buffer p None req ss s = Some (n, ss1, s1)
         \<and> send_warning ss1 (s1\<lparr>wb_size := wb_size s1 + int n\<rparr>) = Some (r, ss', s')
         \<and> accepted {req_block ss req} ss s (if p = PRIORITY_HIGH then hi @ bs else hi)
           (if p = PRIORITY_LOW then lo @ [bs] else lo) ss' s'"
        by (rule append_warning) (use inv mo bs fresh low ni tcp ne in auto)
      then obtain n ss1 s1 r ss' s' where app: "append_buffer p None req ss s = Some (n, ss1, s1)"
        and w: "send_warning ss1 (s1\<lparr>wb_size := wb_size s1 + int n\<rparr>) = Some (r, ss', s')"
        and acc: "accepted {req_block ss req} ss s (if p = PRIORITY_HIGH then hi @ bs else hi)
           (if p = PRIORITY_LOW then lo @ [bs] else lo) ss' s'" by blast
      have "queued (send_refused s (rs_id req)) p bs hi lo (if p = PRIORITY_HIGH then hi @ bs else hi)
          (if p = PRIORITY_LOW then lo @ [bs] else lo)"
        using False by (cases p) (simp_all add: queued_def)
      moreover have "send_socket req p ua ss s = Some (r, ss', s')"
        using False empty tcp app w
        by (cases p) (simp_all add: send_socket_def append_sendbuffer_def append_sendbuffer_low_def)
      ultimately show ?thesis using acc by blast
    next
      case tcp: False
      define addr where "addr = (case ua of None \<Rightarrow> p_udp_address s | Some a \<Rightarrow> a)"
      have "\<exists>n ss1 s1 r ss' s'. append_buffer p (Some addr) req ss s = Some (n, ss1, s1)
         \<and> send_warning ss1 (s1\<lparr>wb_size := wb_size s1 + int n\<rparr>) = Some (r, ss', s')
         \<and> accepted {req_block ss req} ss s (if p = PRIORITY_HIGH then hi @ bs else hi)
           (if p = PRIORITY_LOW then lo @ [bs] else lo) ss' s'"
        by (rule append_warning) (use inv mo bs fresh low ni ne in auto)
      then obtain n ss1 s1 r ss' s' where app: "append_buffer p (Some addr) req ss s = Some (n, ss1, s1)"
        and w: "send_warning ss1 (s1\<lparr>wb_size := wb_size s1 + int n\<rparr>) = Some (r, ss', s')"
        and acc: "accepted {req_block ss req} ss s (if p = PRIORITY_HIGH then hi @ bs else hi)
           (if p = PRIORITY_LOW then lo @ [bs] else lo) ss' s'" by blast
      have "send_socket req p ua ss s = Some (r, ss', s')"
        using False empty tcp app w by (simp add: send_socket_def append_sendbuffer_udp_def addr_def)
      then show ?thesis using acc tcp by blast
    qed
  qed
qed

end
