(* ===== verification/SocketPipe.thy ===== *)
theory SocketPipe
  imports SocketOps
begin

text \<open>
  The shared slots of skynet-src/socket_server.c: reserving an id, filling a reserved slot, and the
  writes of a sender thread under the lock of the socket.
\<close>

section \<open>Reserving an id\<close>

lemma HASH_ID_and: "HASH_ID (w AND 0x7fffffff) = HASH_ID w"
proof -
  have m: "(0x7fffffff :: u32) = mask 31" by (simp add: mask_eq_exp_minus_1)
  have "unat (take_bit 31 w) = take_bit 31 (unat w)" by (rule unsigned_take_bit_eq)
  then have "unat (w AND 0x7fffffff) = unat w mod 2 ^ 31"
    unfolding m take_bit_eq_mask [symmetric] take_bit_eq_mod .
  moreover have "(2 ^ 16 :: nat) dvd 2 ^ 31" by simp
  ultimately show ?thesis
    by (simp add: HASH_ID_def MAX_SOCKET_def MAX_SOCKET_P_def mod_mod_cancel)
qed

lemma HASH_ID_Suc: "HASH_ID (w + 1) = (HASH_ID w + 1) mod MAX_SOCKET"
proof -
  have "unat (w + 1) = (unat w + 1) mod 2 ^ 32" by (simp add: unat_word_ariths)
  moreover have "(2 ^ 16 :: nat) dvd 2 ^ 32" by simp
  ultimately show ?thesis
    by (simp add: HASH_ID_def MAX_SOCKET_def MAX_SOCKET_P_def mod_mod_cancel mod_Suc_eq)
qed

lemma next_id_cases:
  obtains i where "next_id alloc = (i, i)" "0 \<le> sint i" "HASH_ID i = (HASH_ID alloc + 1) mod MAX_SOCKET"
    "0 \<le> sint (alloc + 1) \<Longrightarrow> i = alloc + 1"
proof (cases "sint (alloc + 1) < 0")
  case True
  have m: "(0x7fffffff :: u32) = mask 31" by (simp add: mask_eq_exp_minus_1)
  have "0 \<le> sint ((alloc + 1) AND 0x7fffffff)"
    unfolding m
    by (simp add: sint_uint signed_take_bit_eq_if_positive bit_take_bit_iff bit_and_iff bit_mask_iff uint_and
      bit_uint_iff)
  then show ?thesis
    using that [of "(alloc + 1) AND 0x7fffffff"] True HASH_ID_and [of "alloc + 1"] HASH_ID_Suc [of alloc]
    by (simp add: next_id_def)
next
  case False
  then show ?thesis using that [of "alloc + 1"] HASH_ID_Suc by (simp add: next_id_def)
qed

definition reserved :: "u32 \<Rightarrow> socket \<Rightarrow> socket" where
  "reserved i s = s\<lparr>fd := - 1, sid := i, stype := SOCKET_TYPE_RESERVE,
     protocol := PROTOCOL_UNKNOWN, udpconnecting := 0\<rparr>"

lemma reserve_loop_result:
  "(\<exists>a sv'. reserve_loop k sv = (None, sv') \<and> slot sv' = slot sv \<and> core sv' = (core sv)\<lparr>alloc_id := a\<rparr>
      \<and> (\<forall>j\<in>{1..k}. stype (slot sv ((HASH_ID (alloc_id (core sv)) + j) mod MAX_SOCKET)) \<noteq> SOCKET_TYPE_INVALID))
   \<or> (\<exists>i sv'. reserve_loop k sv = (Some i, sv') \<and> 0 \<le> sint i
      \<and> stype (slot sv (HASH_ID i)) = SOCKET_TYPE_INVALID
      \<and> slot sv' = (slot sv)(HASH_ID i := reserved i (slot sv (HASH_ID i)))
      \<and> core sv' = (core sv)\<lparr>alloc_id := i\<rparr>)"
  (is "?N k sv \<or> ?S k sv")
proof (induction k arbitrary: sv)
  case 0
  have "core sv = (core sv)\<lparr>alloc_id := alloc_id (core sv)\<rparr>" by simp
  then have "?N 0 sv" by (intro exI [of _ "alloc_id (core sv)"] exI [of _ sv]) simp
  then show ?case by blast
next
  case (Suc k)
  obtain i where i: "next_id (alloc_id (core sv)) = (i, i)" "0 \<le> sint i"
    "HASH_ID i = (HASH_ID (alloc_id (core sv)) + 1) mod MAX_SOCKET"
    by (rule next_id_cases)
  let ?sv = "sv\<lparr>core := (core sv)\<lparr>alloc_id := i\<rparr>\<rparr>"
  show ?case
  proof (cases "stype (slot sv (HASH_ID i)) = SOCKET_TYPE_INVALID")
    case True
    then have "?S (Suc k) sv" using i by (auto simp: reserved_def Let_def)
    then show ?thesis by blast
  next
    case False
    then have e: "reserve_loop (Suc k) sv = reserve_loop k ?sv" using i by (simp add: Let_def)
    from Suc.IH [of ?sv] show ?thesis
    proof
      assume "?N k ?sv"
      then obtain a sv' where h: "reserve_loop k ?sv = (None, sv')" "slot sv' = slot ?sv"
        "core sv' = (core ?sv)\<lparr>alloc_id := a\<rparr>"
        and all: "\<And>j. j \<in> {1..k} \<Longrightarrow> stype (slot sv ((HASH_ID i + j) mod MAX_SOCKET)) \<noteq> SOCKET_TYPE_INVALID"
        by auto
      have "stype (slot sv ((HASH_ID (alloc_id (core sv)) + j) mod MAX_SOCKET)) \<noteq> SOCKET_TYPE_INVALID"
        if "j \<in> {1..Suc k}" for j
      proof (cases "j = 1")
        case True
        then show ?thesis using False i(3) by simp
      next
        case ne: False
        then have "j - 1 \<in> {1..k}" using that by auto
        from all [OF this] show ?thesis using that i(3) by (simp add: mod_add_left_eq)
      qed
      then have "?N (Suc k) sv" using e h by (intro exI [of _ a] exI [of _ sv']) simp
      then show ?thesis by blast
    next
      assume "?S k ?sv"
      then have "?S (Suc k) sv" unfolding e by auto
      then show ?thesis by blast
    qed
  qed
qed

lemma reserve_id_cases:
  obtains (none) a where "reserve_id sv = (None, sv\<lparr>core := (core sv)\<lparr>alloc_id := a\<rparr>\<rparr>)"
      "\<And>k. k < MAX_SOCKET \<Longrightarrow> stype (slot sv k) \<noteq> SOCKET_TYPE_INVALID"
  | (some) i where "reserve_id sv = (Some i, sv\<lparr>core := (core sv)\<lparr>alloc_id := i\<rparr>,
        slot := (slot sv)(HASH_ID i := reserved i (slot sv (HASH_ID i)))\<rparr>)"
      "0 \<le> sint i" "stype (slot sv (HASH_ID i)) = SOCKET_TYPE_INVALID"
proof -
  consider (N) a sv' where "reserve_loop MAX_SOCKET sv = (None, sv')" "slot sv' = slot sv"
      "core sv' = (core sv)\<lparr>alloc_id := a\<rparr>"
      "\<forall>j\<in>{1..MAX_SOCKET}. stype (slot sv ((HASH_ID (alloc_id (core sv)) + j) mod MAX_SOCKET)) \<noteq> SOCKET_TYPE_INVALID"
    | (S) i sv' where "reserve_loop MAX_SOCKET sv = (Some i, sv')" "0 \<le> sint i"
      "stype (slot sv (HASH_ID i)) = SOCKET_TYPE_INVALID"
      "slot sv' = (slot sv)(HASH_ID i := reserved i (slot sv (HASH_ID i)))"
      "core sv' = (core sv)\<lparr>alloc_id := i\<rparr>"
    using reserve_loop_result [of MAX_SOCKET sv] by blast
  then show ?thesis
  proof cases
    case N
    have "stype (slot sv k) \<noteq> SOCKET_TYPE_INVALID" if "k < MAX_SOCKET" for k
    proof -
      let ?h = "HASH_ID (alloc_id (core sv))"
      have h: "?h < MAX_SOCKET" by (simp add: HASH_ID_def MAX_SOCKET_def)
      define j where "j = (if ?h < k then k - ?h else k + MAX_SOCKET - ?h)"
      have "j \<in> {1..MAX_SOCKET}" using h that by (auto simp: j_def)
      moreover have "(?h + j) mod MAX_SOCKET = k" using h that by (simp add: j_def)
      ultimately show ?thesis using N(4) by metis
    qed
    moreover have "sv' = sv\<lparr>core := (core sv)\<lparr>alloc_id := a\<rparr>\<rparr>" using N by simp
    ultimately show ?thesis using N none [of a] by (simp add: reserve_id_def)
  next
    case S
    have "sv' = sv\<lparr>core := (core sv)\<lparr>alloc_id := i\<rparr>,
        slot := (slot sv)(HASH_ID i := reserved i (slot sv (HASH_ID i)))\<rparr>" using S by simp
    then show ?thesis using S some [of i] by (simp add: reserve_id_def)
  qed
qed

section \<open>Filling a reserved slot\<close>

text \<open>The slot after \<open>new_fd\<close>: no data yet, no request of its id counted.\<close>

definition filled :: "u32 \<Rightarrow> socket_server \<Rightarrow> socket_server \<Rightarrow> socket \<Rightarrow> bool" where
  "filled i ss ss' s' \<longleftrightarrow> same_mem ss ss' \<and> nodes s' = Map.empty \<and> dw_buffer s' = None
     \<and> direct s' = None \<and> \<not> dw_lock s' \<and> high s' = clear_wb_list \<and> low s' = clear_wb_list
     \<and> sid s' = i
     \<and> (protocol s' = PROTOCOL_UNKNOWN \<and> stype s' = SOCKET_TYPE_INVALID
        \<or> sending s' = push_bit 16 (ID_TAG16 i) \<and> out s' = [] \<and> wb_size s' = 0)"

lemma filled_inv:
  assumes "filled i ss ss' s'" "stype s' \<noteq> SOCKET_TYPE_RESERVE"
  shows "socket_inv ss' s' [] []"
proof (cases "stype s' = SOCKET_TYPE_INVALID")
  case True
  then show ?thesis using assms by (simp add: socket_inv_def socket_flags_def filled_def)
next
  case False
  have "lists_ok (mem ss') (soi ss') s' (\<lambda>p. [])"
    using assms False
    by (auto simp: filled_def lists_ok_def clear_wb_list_def wb_list_of_def split: priority.split)
  then have "socket_data ss' s' (\<lambda>p. []) [] []"
    using assms(1)
    by (auto simp: socket_data_def filled_def tail_ok_def low_fresh_def held_ok_def held_def held_bytes_def
        msgs_def clear_wb_list_def wb_list_of_def split: priority.split)
  moreover have "socket_flags s'" using assms by (simp add: socket_flags_def filled_def)
  ultimately show ?thesis using assms(2) False by (auto simp: socket_inv_def)
qed

lemma filled_upd:
  assumes "filled i ss ss' s'" "same_mem ss' ss''" "same_data s' s''" "sid s'' = sid s'"
    "sending s'' = sending s'" "out s'' = out s'" "dw_lock s'' = dw_lock s'"
    "protocol s'' = protocol s'" "protocol s' \<noteq> PROTOCOL_UNKNOWN \<or> stype s'' = SOCKET_TYPE_INVALID"
  shows "filled i ss ss'' s''"
  using assms by (auto simp: filled_def same_data_def same_mem_def core_same_def)

lemma close_fd_same [simp]: "same_mem ss (close_fd f ss') = same_mem ss ss'"
  by (simp add: close_fd_def same_mem_def core_same_def)

lemma new_fd_ok:
  assumes inv: "socket_inv ss s hi lo" and ty: "stype s = SOCKET_TYPE_RESERVE"
  shows "\<exists>ok ss' s'. new_fd i f prot opq rd ss s = Some (ok, ss', s') \<and> same_mem ss ss'
     \<and> (ok \<longrightarrow> filled i ss ss' s' \<and> protocol s' = prot)
     \<and> (sid s = i \<longrightarrow> protocol s = PROTOCOL_UNKNOWN \<longrightarrow> \<not> ok \<longrightarrow>
          filled i ss ss' s' \<and> stype s' = SOCKET_TYPE_INVALID)"
proof -
  have e: "nodes s = Map.empty" "dw_buffer s = None" "direct s = None" "\<not> dw_lock s"
    "high s = clear_wb_list" "low s = clear_wb_list"
    using socket_invD(3-5) [OF inv] ty by (auto simp: idle_types_def)
  obtain err ss1 where sp: "sp_result ss = (err, ss1)" by (metis prod.exhaust)
  have sm: "same_mem ss ss1"
    using sp by (auto simp: sp_result_def next_outcome_def same_mem_def core_same_def split: list.splits prod.splits)
  let ?s = "s\<lparr>opaque := opq, wb_size := 0, sending := push_bit 16 (ID_TAG16 i) OR 0,
      fd := f, sid := i, protocol := prot, reading := True, writing := False,
      closing := False, warn_size := 0, p_size := MIN_READ_BUFFER, out := [], dgrams := [],
      stat := socket_stat_zero, dw_buffer := None, dw_size := 0\<rparr>"
  obtain err2 ss2 s2 where er: "enable_read ss1 ?s rd = (err2, ss2, s2)" by (metis prod_cases3)
  have h: "same_mem ss1 ss2" "s2 = ?s\<lparr>reading := rd\<rparr>" using enable_read_same [OF er] by auto
  have sm2: "same_mem ss ss2" using sm h(1) by (auto simp: same_mem_def core_same_def)
  have f2: "filled i ss ss2 s2" unfolding h(2) using e sm2 by (simp add: filled_def)
  show ?thesis
  proof (cases err)
    case True
    then have "new_fd i f prot opq rd ss s = Some (False, ss1, s\<lparr>stype := SOCKET_TYPE_INVALID\<rparr>)"
      using ty sp by (simp add: new_fd_def)
    then show ?thesis using sm e
      by (intro exI [of _ False] exI [of _ ss1] exI [of _ "s\<lparr>stype := SOCKET_TYPE_INVALID\<rparr>"])
        (simp add: filled_def)
  next
    case False
    have "new_fd i f prot opq rd ss s =
        (if err2 then Some (False, ss2, s2\<lparr>stype := SOCKET_TYPE_INVALID\<rparr>) else Some (True, ss2, s2))"
      using ty sp False er e(5,6) by (simp add: new_fd_def check_wb_list_def clear_wb_list_def)
    moreover have "filled i ss ss2 (s2\<lparr>stype := SOCKET_TYPE_INVALID\<rparr>)"
      unfolding h(2) using e sm2 by (simp add: filled_def)
    moreover have "protocol s2 = prot" unfolding h(2) by simp
    ultimately show ?thesis using sm2 f2
      by (intro exI [of _ "\<not> err2"] exI [of _ ss2]
        exI [of _ "if err2 then s2\<lparr>stype := SOCKET_TYPE_INVALID\<rparr> else s2"]) (cases err2; simp)
  qed
qed

lemma connect_loop_same:
  "connect_loop k st ss = (f, status, e, ss') \<Longrightarrow> same_mem ss ss'"
proof (induction k arbitrary: st ss)
  case 0
  then show ?case by simp
next
  case (Suc k)
  obtain oc ss1 where no: "next_outcome ss = (oc, ss1)" by (metis prod.exhaust)
  obtain oc2 ss2 where no2: "next_outcome ss1 = (oc2, ss2)" by (metis prod.exhaust)
  have sm1: "same_mem ss ss1" by (rule next_outcome_same [OF no])
  have tr: "same_mem a b \<Longrightarrow> same_mem b c \<Longrightarrow> same_mem a c" for a b c
    by (auto simp: same_mem_def core_same_def)
  have sm2: "same_mem ss ss2" using tr [OF sm1 next_outcome_same [OF no2]] .
  have again: "same_mem ss ss'" if "connect_loop k st' a = (f, status, e, ss')" "same_mem ss a" for st' a
    using Suc.IH [OF that(1)] tr that(2) by blast
  have sm3: "same_mem ss (close_fd x ss2)" for x using sm2 by simp
  show ?case
    using Suc.prems no no2 sm1 sm2 again again [OF _ sm3]
    by (auto split: option.splits outcome.splits errno.splits if_splits)
qed

text \<open>A request that opens a socket fills its slot, or gives the slot back.\<close>

definition opens :: "u32 \<Rightarrow> socket_server \<Rightarrow> socket
    \<Rightarrow> (socket_ret \<times> socket_server \<times> socket) option \<Rightarrow> bool" where
  "opens i ss s x \<longleftrightarrow> (\<exists>r ss' s'. x = Some (r, ss', s') \<and> filled i ss ss' s'
     \<and> stype s' \<noteq> SOCKET_TYPE_RESERVE \<and> (protocol s' = PROTOCOL_UNKNOWN \<longrightarrow> stype s' = SOCKET_TYPE_INVALID))"

lemma opensI:
  "x = Some (r, ss', s') \<Longrightarrow> filled i ss ss' s' \<Longrightarrow> stype s' \<noteq> SOCKET_TYPE_RESERVE
    \<Longrightarrow> protocol s' \<noteq> PROTOCOL_UNKNOWN \<or> stype s' = SOCKET_TYPE_INVALID \<Longrightarrow> opens i ss s x"
  by (auto simp: opens_def)

lemma new_fd_reserved:
  assumes "socket_inv ss s hi lo" "stype s = SOCKET_TYPE_RESERVE" "sid s = i" "protocol s = PROTOCOL_UNKNOWN"
  obtains (ok) ss' s' where "new_fd i f prot opq rd ss s = Some (True, ss', s')" "filled i ss ss' s'"
      "protocol s' = prot"
  | (full) ss' s' where "new_fd i f prot opq rd ss s = Some (False, ss', s')" "filled i ss ss' s'"
      "stype s' = SOCKET_TYPE_INVALID"
proof -
  obtain b ss' s' where h: "new_fd i f prot opq rd ss s = Some (b, ss', s')"
    "b \<longrightarrow> filled i ss ss' s' \<and> protocol s' = prot"
    "\<not> b \<longrightarrow> filled i ss ss' s' \<and> stype s' = SOCKET_TYPE_INVALID"
    using new_fd_ok [OF assms(1,2), of i f prot opq rd] assms(3,4) by blast
  show ?thesis using h ok [of ss' s'] full [of ss' s'] by (cases b) simp_all
qed

lemma filled_type:
  "filled i ss ss' s' \<Longrightarrow> protocol s' \<noteq> PROTOCOL_UNKNOWN \<or> ty = SOCKET_TYPE_INVALID
    \<Longrightarrow> filled i ss ss' (s'\<lparr>stype := ty\<rparr>)"
  by (auto simp: filled_def)

lemma filled_core: "filled i ss ss' s' \<Longrightarrow> same_mem ss' ss'' \<Longrightarrow> filled i ss ss'' s'"
  by (auto simp: filled_def same_mem_def core_same_def)

lemma filled_core_upd [simp]: "filled i ss (ss'\<lparr>result := m\<rparr>) s' = filled i ss ss' s'"
  "filled i ss (close_fd f ss') s' = filled i ss ss' s'"
  by (simp_all add: filled_def)

lemma protocols [simp]: "PROTOCOL_TCP \<noteq> PROTOCOL_UNKNOWN" "PROTOCOL_UDP \<noteq> PROTOCOL_UNKNOWN"
  "PROTOCOL_UDPv6 \<noteq> PROTOCOL_UNKNOWN" "PROTOCOL_UDP \<noteq> PROTOCOL_TCP" "PROTOCOL_UDPv6 \<noteq> PROTOCOL_TCP"
  "PROTOCOL_UNKNOWN \<noteq> PROTOCOL_TCP" "PROTOCOL_UNKNOWN \<noteq> PROTOCOL_UDP"
  "PROTOCOL_UNKNOWN \<noteq> PROTOCOL_UDPv6" "PROTOCOL_TCP \<noteq> PROTOCOL_UDP" "PROTOCOL_TCP \<noteq> PROTOCOL_UDPv6"
  by (simp_all add: PROTOCOL_TCP_def PROTOCOL_UDP_def PROTOCOL_UDPv6_def PROTOCOL_UNKNOWN_def)

lemma listen_socket_opens:
  assumes res: "socket_inv ss s hi lo" "stype s = SOCKET_TYPE_RESERVE" "sid s = i" "protocol s = PROTOCOL_UNKNOWN"
  shows "opens i ss s (listen_socket i f opq ss s)"
  by (rule new_fd_reserved [OF res, of f PROTOCOL_TCP opq False])
    (auto simp: listen_socket_def intro!: opensI filled_type intro: filled_core)

lemma bind_socket_opens:
  assumes res: "socket_inv ss s hi lo" "stype s = SOCKET_TYPE_RESERVE" "sid s = i" "protocol s = PROTOCOL_UNKNOWN"
  shows "opens i ss s (bind_socket i f opq ss s)"
  by (rule new_fd_reserved [OF res, of f PROTOCOL_TCP opq True])
    (auto simp: bind_socket_def intro!: opensI filled_type intro: filled_core)

lemma add_udp_socket_opens:
  assumes res: "socket_inv ss s hi lo" "stype s = SOCKET_TYPE_RESERVE" "sid s = i" "protocol s = PROTOCOL_UNKNOWN"
  shows "opens i ss s (add_udp_socket i f inet6 opq ss s)"
proof (rule new_fd_reserved [OF res, of f "if inet6 then PROTOCOL_UDPv6 else PROTOCOL_UDP" opq True])
  fix ss' s'
  assume n: "new_fd i f (if inet6 then PROTOCOL_UDPv6 else PROTOCOL_UDP) opq True ss s = Some (True, ss', s')"
    and fl: "filled i ss ss' s'" and pr: "protocol s' = (if inet6 then PROTOCOL_UDPv6 else PROTOCOL_UDP)"
  have "protocol s' \<noteq> PROTOCOL_UNKNOWN" using pr by simp
  then show ?thesis
    using n filled_type [OF fl, of SOCKET_TYPE_CONNECTED]
    by (auto simp: add_udp_socket_def filled_def intro!: opensI)
qed (auto simp: add_udp_socket_def intro!: opensI filled_type intro: filled_core)

lemma open_socket_opens:
  assumes res: "socket_inv ss s hi lo" "stype s = SOCKET_TYPE_RESERVE" "sid s = i" "protocol s = PROTOCOL_UNKNOWN"
  shows "opens i ss s (open_socket i opq ss s)"
proof -
  have e: "nodes s = Map.empty" "dw_buffer s = None" "direct s = None" "\<not> dw_lock s"
    "high s = clear_wb_list" "low s = clear_wb_list"
    using socket_invD(3-5) [OF res(1)] res(2) by (auto simp: idle_types_def)
  have given: "filled i ss ss' (s\<lparr>stype := SOCKET_TYPE_INVALID\<rparr>)" if "same_mem ss ss'" for ss'
    using that e res by (simp add: filled_def)
  obtain oc ss1 where no: "next_outcome ss = (oc, ss1)" by (metis prod.exhaust)
  note sm1 = next_outcome_same [OF no]
  have tr: "same_mem a b \<Longrightarrow> same_mem b c \<Longrightarrow> same_mem a c" for a b c
    by (auto simp: same_mem_def core_same_def)
  show ?thesis
  proof (cases "\<exists>n. oc = Some (Ret n)")
    case False
    then show ?thesis
      using no given [of "ss1\<lparr>result := m\<rparr>" for m] sm1
      by (auto simp: open_socket_def Let_def intro!: opensI split: option.splits outcome.splits)
  next
    case True
    then obtain n where n: "oc = Some (Ret n)" by blast
    obtain fo status er ss2 where cl: "connect_loop (nat n) (True, OTHER 0) ss1 = (fo, status, er, ss2)"
      by (metis prod_cases4)
    have sm2: "same_mem ss ss2" using tr [OF sm1 connect_loop_same [OF cl]] .
    have inv2: "socket_inv ss2 s hi lo" using socket_inv_same_mem [OF sm2] res(1) by simp
    show ?thesis
    proof (cases fo)
      case None
      then show ?thesis using no n cl given [of "ss2\<lparr>result := m\<rparr>" for m] sm2
        by (auto simp: open_socket_def Let_def intro!: opensI)
    next
      case (Some f)
      have up: "filled i ss2 ss' s' \<Longrightarrow> filled i ss ss' s'" for ss' s'
        using sm2 by (auto simp: filled_def same_mem_def core_same_def)
      show ?thesis
      proof (rule new_fd_reserved [OF inv2 res(2-4), of f PROTOCOL_TCP opq True])
        fix ss' s' assume h: "new_fd i f PROTOCOL_TCP opq True ss2 s = Some (False, ss', s')"
          "filled i ss2 ss' s'" "stype s' = SOCKET_TYPE_INVALID"
        show ?thesis using no n cl Some h
          by (auto simp: open_socket_def Let_def intro!: opensI filled_type intro: filled_core up)
      next
        fix ss3 s3 assume h: "new_fd i f PROTOCOL_TCP opq True ss2 s = Some (True, ss3, s3)"
          "filled i ss2 ss3 s3" "protocol s3 = PROTOCOL_TCP"
        show ?thesis
        proof (cases status)
          case True
          obtain oc4 ss4 where no4: "next_outcome ss3 = (oc4, ss4)" by (metis prod.exhaust)
          show ?thesis using no n cl Some h True no4 next_outcome_same [OF no4]
            by (auto simp: open_socket_def Let_def intro!: opensI filled_type intro: filled_core up)
        next
          case False
          obtain err ss4 s4 where ew: "enable_write ss3 s3 True = (err, ss4, s4)" by (metis prod_cases3)
          have h4: "same_mem ss3 ss4" "s4 = s3\<lparr>writing := True\<rparr>" using enable_write_same [OF ew] by auto
          have fl: "filled i ss ss4 s4"
            using filled_core [OF up [OF h(2)] h4(1)] h4(2) by (simp add: filled_def)
          have pr: "protocol s4 = PROTOCOL_TCP" using h(3) h4(2) by simp
          show ?thesis using no n cl Some h(1) False ew fl pr
            by (cases err) (auto simp: open_socket_def Let_def intro!: opensI filled_type intro: filled_core)
        qed
      qed
    qed
  qed
qed

section \<open>The direct write of a sender thread\<close>

text \<open>
  What the code asks of a buffer to send: a size of USEROBJECT only marks an object. Its block and
  its bytes are those \<open>send_object_init_from_sendbuffer\<close> finds.
\<close>

definition buffer_ok :: "socket_sendbuffer \<Rightarrow> bool" where
  "buffer_ok buf \<longleftrightarrow> (sb_type buf \<noteq> SOCKET_BUFFER_OBJECT \<longrightarrow> sb_sz buf \<noteq> USEROBJECT)"

definition buf_block :: "socket_server \<Rightarrow> socket_sendbuffer \<Rightarrow> nat" where
  "buf_block ss buf = fst (fst (send_object_init_from_sendbuffer ss buf))"

definition buf_bytes :: "socket_server \<Rightarrow> socket_sendbuffer \<Rightarrow> bytes option" where
  "buf_bytes ss buf = (case send_object_init_from_sendbuffer ss buf of (ptr, n) \<Rightarrow> read_mem (mem ss) ptr n)"

lemma read_mem_length: "read_mem m ptr n = Some bs \<Longrightarrow> length bs = n"
  by (auto simp: read_mem_def split: option.splits if_splits)

lemma read_mem_live: "read_mem m ptr n = Some bs \<Longrightarrow> m (fst ptr) \<noteq> None"
  by (auto simp: read_mem_def split: option.splits)

lemma buf_block_live: "buf_bytes ss buf = Some bs \<Longrightarrow> mem ss (buf_block ss buf) \<noteq> None"
  by (auto simp: buf_bytes_def buf_block_def dest: read_mem_live split: prod.splits)

lemma blocks_live: "lists_ok m si s L \<Longrightarrow> b \<in> blocks_in (nodes s) \<Longrightarrow> m b \<noteq> None"
  using lists_okD(4) by (fastforce simp: blocks_in_def node_ok_def dest: read_mem_live)

lemma sblocks_live:
  assumes inv: "socket_inv ss s hi lo" and b: "b \<in> sblocks ss s"
  shows "mem ss b \<noteq> None"
proof (cases "stype s \<in> idle_types")
  case True
  then show ?thesis using socket_invD(4) [OF inv] b by (simp add: sblocks_def blocks_in_def held_def)
next
  case False
  then have "stype s \<noteq> SOCKET_TYPE_INVALID" "stype s \<noteq> SOCKET_TYPE_RESERVE" by (auto simp: idle_types_def)
  then obtain L where "socket_data ss s L hi lo" using socket_invD(2) [OF inv] by blast
  then have ok: "lists_ok (mem ss) (soi ss) s L" and "held_ok ss s" by (simp_all add: socket_data_def)
  then show ?thesis
    using b blocks_live [OF ok]
    by (cases "held ss s") (auto simp: sblocks_def held_ok_def dest: read_mem_live)
qed

lemma socket_data_unhold:
  assumes data: "socket_data ss s L hi lo"
    and s': "high s' = high s" "low s' = low s" "wb_size s' = wb_size s" "nodes s' = nodes s"
      "direct s' = None" "dw_buffer s' = None"
  obtains H where "hi = held_bytes ss s @ H" "socket_data ss s' L H lo"
proof -
  have wl: "wb_list_of p s' = wb_list_of p s" for p using s' by (cases p) (simp_all add: wb_list_of_def)
  let ?H = "concat (msgs (mem ss) (nodes s) (L PRIORITY_HIGH))"
  have "lists_ok (mem ss) (soi ss) s' L"
    using data s' wl by (simp add: socket_data_def lists_ok_def)
  moreover have "held ss s' = None" using s' by (simp add: held_def)
  ultimately have "socket_data ss s' L ?H lo"
    using data s' wl by (simp add: socket_data_def low_fresh_def held_ok_def held_bytes_def)
  moreover have "hi = held_bytes ss s @ ?H" using data by (simp add: socket_data_def)
  ultimately show ?thesis using that by blast
qed

lemma socket_data_hold:
  assumes data: "socket_data ss s L H lo" and no: "direct s = None" "dw_buffer s = None"
    and s': "high s' = high s" "low s' = low s" "wb_size s' = wb_size s" "nodes s' = nodes s"
      "direct s' \<noteq> None \<longrightarrow> dw_buffer s' = None"
    and held: "held ss s' = Some (ptr, n, k)" "read_mem (mem ss) ptr n = Some bs" "k \<le> n"
      "fst ptr \<notin> blocks_in (nodes s)"
  shows "socket_data ss s' L (drop k bs @ H) lo"
proof -
  have wl: "wb_list_of p s' = wb_list_of p s" for p using s' by (cases p) (simp_all add: wb_list_of_def)
  have "held ss s = None" using no by (simp add: held_def)
  then have "H = concat (msgs (mem ss) (nodes s) (L PRIORITY_HIGH))"
    using data by (simp add: socket_data_def held_bytes_def)
  moreover have "lists_ok (mem ss) (soi ss) s' L"
    using data s' wl by (simp add: socket_data_def lists_ok_def)
  ultimately show ?thesis
    using data s' wl held by (simp add: socket_data_def low_fresh_def held_ok_def held_bytes_def)
qed

lemma direct_begin_ok:
  assumes inv: "socket_inv ss s hi lo" and ty: "stype s = SOCKET_TYPE_CONNECTED"
    and tcp: "protocol s = PROTOCOL_TCP" and no: "nomore_sending_data s" and dir: "direct s = None"
    and bs: "buf_bytes ss buf = Some bs"
  shows "hi = [] \<and> lo = [] \<and> socket_inv ss (s\<lparr>dw_lock := True, direct := Some buf\<rparr>) bs []
     \<and> sblocks ss (s\<lparr>dw_lock := True, direct := Some buf\<rparr>) = {buf_block ss buf}
     \<and> \<not> unarmed (s\<lparr>dw_lock := True, direct := Some buf\<rparr>)"
proof -
  let ?s = "s\<lparr>dw_lock := True, direct := Some buf\<rparr>"
  obtain L where data: "socket_data ss s L hi lo" using socket_invD(2) [OF inv] ty by auto
  have em: "send_buffer_empty s" "dw_buffer s = None" using no ty by (auto simp: nomore_sending_data_def)
  have nd: "nodes s = Map.empty" "L p = []" for p using data_empty [OF data em(1)] by auto
  have "held ss s = None" using dir em by (simp add: held_def)
  then have e: "hi = []" "lo = []" using data nd by (simp_all add: socket_data_def held_bytes_def msgs_def)
  obtain ptr n where so: "send_object_init_from_sendbuffer ss buf = (ptr, n)" by (metis prod.exhaust)
  have h: "held ss ?s = Some (ptr, n, 0)" using so by (simp add: held_def)
  have rd: "read_mem (mem ss) ptr n = Some bs" using so bs by (simp add: buf_bytes_def)
  have "socket_data ss ?s L (drop 0 bs @ hi) lo"
    by (rule socket_data_hold [OF data dir em(2) _ _ _ _ _ h rd])
      (simp_all add: em nd blocks_in_def)
  moreover have "socket_flags ?s"
    using socket_invD(1) [OF inv] ty tcp by (simp add: socket_flags_def idle_types_def)
  ultimately have "socket_inv ss ?s bs []" using ty e by (auto simp: socket_inv_def)
  moreover have "sblocks ss ?s = {buf_block ss buf}"
    using h so nd by (simp add: sblocks_def buf_block_def blocks_in_def)
  moreover have "\<not> unarmed ?s" using nd em by (simp add: unarmed_def)
  ultimately show ?thesis using e by simp
qed

lemma sendbuffer_free_ok:
  assumes bs: "buf_bytes ss buf = Some bs"
  shows "\<exists>ss'. sendbuffer_free ss buf = Some ss' \<and> (ss' = ss \<or> ss' = ss\<lparr>mem := (mem ss)(buf_block ss buf := None)\<rparr>)"
  using buf_block_live [OF bs]
  by (cases "sb_sz buf = USEROBJECT") (auto simp: sendbuffer_free_def so_free_def soi_free_def FREE_def buf_block_def
      send_object_init_from_sendbuffer_def send_object_init_def split: buffer_type.split)

lemma clone_buffer_ok:
  assumes bs: "buf_bytes ss buf = Some bs" and ok: "buffer_ok buf" and mo: "mem_ok ss"
  shows "\<exists>b n ss'. clone_buffer ss buf = Some (b, n, ss')
     \<and> (ss' = ss \<and> send_object_init ss b n = (fst (send_object_init_from_sendbuffer ss buf),
            snd (send_object_init_from_sendbuffer ss buf), sb_type buf = SOCKET_BUFFER_OBJECT)
        \<or> ss' = ss\<lparr>mem := (mem ss)(brk ss := Some bs), brk := brk ss + 1\<rparr>
            \<and> send_object_init ss' b n = ((brk ss, 0), length bs, False) \<and> n \<noteq> USEROBJECT)"
proof (cases "sb_type buf")
  case SOCKET_BUFFER_RAWPOINTER
  then have "read_mem (mem ss) (sb_buffer buf, 0) (sb_sz buf) = Some bs" "sb_sz buf \<noteq> USEROBJECT"
    using bs ok by (simp_all add: buf_bytes_def buffer_ok_def send_object_init_from_sendbuffer_def)
  then show ?thesis
    using SOCKET_BUFFER_RAWPOINTER read_mem_length [of _ _ _ bs]
    by (simp add: clone_buffer_def MALLOC_def send_object_init_def)
qed (use ok in \<open>simp_all add: clone_buffer_def send_object_init_from_sendbuffer_def send_object_init_def buffer_ok_def\<close>)

definition finished :: "socket_server \<Rightarrow> socket \<Rightarrow> bytes \<Rightarrow> bytes list \<Rightarrow> u32 \<Rightarrow> request list
    \<Rightarrow> socket_server \<Rightarrow> socket \<Rightarrow> bool" where
  "finished ss s hi lo i reqs ss' s' \<longleftrightarrow> (\<exists>hi'. confined {} ss s ss' s' \<and> socket_inv ss' s' hi' lo
     \<and> out s' @ hi' = out s @ hi \<and> direct s' = None \<and> sending s' = sending s \<and> stype s' = stype s
     \<and> (reqs = [] \<or> reqs = [Trigger i]) \<and> (unarmed s' \<longrightarrow> unarmed s \<or> reqs = [Trigger i]))"

lemma direct_written_ok:
  assumes inv: "socket_inv ss s hi lo" and mo: "mem_ok ss" and dir: "direct s = Some buf"
    and ok: "buffer_ok buf" and bs: "buf_bytes ss buf = Some bs" and n: "n \<le> length bs"
  shows "\<exists>reqs ss' s'. direct_written buf n (length bs) ss (s\<lparr>out := out s @ take n bs\<rparr>) = Some (0, reqs, ss', s')
     \<and> finished ss s hi lo (sb_id buf) reqs ss' s'"
proof -
  have ty: "stype s \<notin> idle_types" and tcp: "protocol s = PROTOCOL_TCP"
    using socket_invD(1) [OF inv] dir by (auto simp: socket_flags_def)
  have ty': "stype s \<noteq> SOCKET_TYPE_INVALID" "stype s \<noteq> SOCKET_TYPE_RESERVE"
    using ty by (auto simp: idle_types_def)
  obtain L where data: "socket_data ss s L hi lo" using socket_invD(2) [OF inv ty'] by blast
  have dw: "dw_buffer s = None" using data dir by (simp add: socket_data_def)
  obtain ptr sz where so: "send_object_init_from_sendbuffer ss buf = (ptr, sz)" by (metis prod.exhaust)
  have rd: "read_mem (mem ss) ptr sz = Some bs" using so bs by (simp add: buf_bytes_def)
  have sz: "sz = length bs" using read_mem_length [OF rd] by simp
  have blk: "buf_block ss buf = fst ptr" using so by (simp add: buf_block_def)
  have h: "held ss s = Some (ptr, sz, 0)" using dir so by (simp add: held_def)
  have hb: "held_bytes ss s = bs" using h rd by (simp add: held_bytes_def)
  have out_blocks: "fst ptr \<notin> blocks_in (nodes s)" using data h by (simp add: socket_data_def held_ok_def)
  have sb: "sblocks ss s = insert (fst ptr) (blocks_in (nodes s))" using h by (simp add: sblocks_def)
  let ?s = "direct_unlock (stat_write ss (s\<lparr>out := out s @ take n bs\<rparr>) (int n))"
  have f: "high ?s = high s" "low ?s = low s" "wb_size ?s = wb_size s" "nodes ?s = nodes s"
    "direct ?s = None" "dw_buffer ?s = None" "\<not> dw_lock ?s" "stype ?s = stype s" "sending ?s = sending s"
    "protocol ?s = protocol s" "sid ?s = sid s" "out ?s = out s @ take n bs" "writing ?s = writing s"
    using dw by (simp_all add: direct_unlock_def stat_write_def)
  obtain H where hi: "hi = bs @ H" and data0: "socket_data ss ?s L H lo"
    using socket_data_unhold [OF data f(1-6)] hb by blast
  have sb0: "sblocks ss ?s = blocks_in (nodes s)" using f by (simp add: sblocks_def held_def)
  have flags0: "socket_flags ?s" using socket_invD(1) [OF inv] f ty by (simp add: socket_flags_def)
  show ?thesis
  proof (cases "n = length bs")
    case True
    obtain ss' where fr: "sendbuffer_free ss buf = Some ss'"
      "ss' = ss \<or> ss' = ss\<lparr>mem := (mem ss)(fst ptr := None)\<rparr>"
      using sendbuffer_free_ok [OF bs] blk by auto
    have e: "direct_written buf n (length bs) ss (s\<lparr>out := out s @ take n bs\<rparr>) = Some (0, [], ss', ?s)"
      using True fr(1) by (simp add: direct_written_def)
    have m: "soi ss' = soi ss" "brk ss \<le> brk ss'" "core_same ss ss'" "mem_ok ss'"
      "\<And>b. b \<noteq> fst ptr \<Longrightarrow> mem ss' b = mem ss b"
      using fr(2) mo by (auto simp: core_same_def mem_ok_def split: if_splits)
    have "socket_data ss' ?s L H lo"
      by (rule socket_data_frame [OF data0 _ m(1,2)]) (metis sb0 out_blocks m(5))
    then have "socket_inv ss' ?s H lo" using flags0 ty' f by (auto simp: socket_inv_def)
    moreover have "confined {} ss s ss' ?s"
      using m sb sb0 sblocks_soi [OF m(1), of ?s] f by (auto simp: confined_def)
    moreover have "unarmed ?s \<Longrightarrow> unarmed s" using f dw by (simp add: unarmed_def)
    ultimately show ?thesis using e f hi True unfolding finished_def
      by (intro exI [of _ "[]"] exI [of _ ss'] exI [of _ ?s] conjI exI [of _ H]) simp_all
  next
    case False
    obtain b k ss' where cl: "clone_buffer ss buf = Some (b, k, ss')"
      and c: "ss' = ss \<and> send_object_init ss b k = (ptr, sz, sb_type buf = SOCKET_BUFFER_OBJECT)
        \<or> ss' = ss\<lparr>mem := (mem ss)(brk ss := Some bs), brk := brk ss + 1\<rparr>
            \<and> send_object_init ss' b k = ((brk ss, 0), length bs, False) \<and> k \<noteq> USEROBJECT"
      using clone_buffer_ok [OF bs ok mo] so by auto
    let ?s' = "direct_unlock ((stat_write ss (s\<lparr>out := out s @ take n bs\<rparr>) (int n))\<lparr>dw_buffer := Some b, dw_size := k, dw_offset := n\<rparr>)"
    have e: "direct_written buf n (length bs) ss (s\<lparr>out := out s @ take n bs\<rparr>)
        = Some (0, [Trigger (sb_id buf)], ss', ?s')"
      using False cl by (simp add: direct_written_def)
    have live: "mem ss (brk ss) = None" using mo by (auto simp: mem_ok_def)
    have nb: "brk ss \<notin> sblocks ss s"
    proof
      assume "brk ss \<in> sblocks ss s"
      then have "brk ss = fst ptr \<or> brk ss \<in> blocks_in (nodes s)" using sb by blast
      then show False
        using read_mem_live [OF rd] live blocks_live [of "mem ss" "soi ss" s L "brk ss"] data
        by (auto simp: socket_data_def)
    qed
    have m: "soi ss' = soi ss" "brk ss \<le> brk ss'" "core_same ss ss'" "mem_ok ss'"
      "\<And>b. b \<noteq> brk ss \<Longrightarrow> mem ss' b = mem ss b"
      using c mo by (auto simp: core_same_def mem_ok_def less_SucI split: if_splits)
    have data1: "socket_data ss' ?s L H lo"
      by (rule socket_data_frame [OF data0 _ m(1,2)]) (metis sb0 sb nb insertCI m(5))
    obtain ptr' where so': "\<exists>u. send_object_init ss' b k = (ptr', length bs, u)"
      "read_mem (mem ss') ptr' (length bs) = Some bs" "fst ptr' \<notin> blocks_in (nodes s)"
      "fst ptr' = fst ptr \<or> fst ptr' = brk ss"
    proof (cases "ss' = ss \<and> send_object_init ss b k = (ptr, sz, sb_type buf = SOCKET_BUFFER_OBJECT)")
      case True
      then show ?thesis using that [of ptr] rd sz out_blocks by simp
    next
      case False
      then have c': "ss' = ss\<lparr>mem := (mem ss)(brk ss := Some bs), brk := brk ss + 1\<rparr>"
          "send_object_init ss' b k = ((brk ss, 0), length bs, False)" using c by auto
      have rd': "read_mem (mem ss') (brk ss, 0) (length bs) = Some bs"
        unfolding c'(1) by (simp add: read_mem_def)
      show ?thesis by (rule that [of "(brk ss, 0)"]) (use rd' c'(2) nb sb in \<open>auto intro: exI [of _ False]\<close>)
    qed
    have f': "high ?s' = high ?s" "low ?s' = low ?s" "wb_size ?s' = wb_size ?s" "nodes ?s' = nodes ?s"
      "direct ?s' = None" "dw_buffer ?s' = Some b" "dw_size ?s' = k" "dw_offset ?s' = n" "stype ?s' = stype s"
      "\<not> dw_lock ?s'" "sending ?s' = sending s"
      "protocol ?s' = protocol s" "sid ?s' = sid s" "out ?s' = out s @ take n bs"
      using f by (simp_all add: direct_unlock_def stat_write_def)
    have held': "held ss' ?s' = Some (ptr', length bs, n)"
      using f' so'(1) by (auto simp: held_def)
    have "socket_data ss' ?s' L (drop n bs @ H) lo"
      by (rule socket_data_hold [OF data1 f(5,6) f'(1-4) _ held' so'(2) n]) (use f f' so' in simp_all)
    moreover have "socket_flags ?s'" using flags0 f f' ty tcp by (simp add: socket_flags_def)
    ultimately have "socket_inv ss' ?s' (drop n bs @ H) lo" using ty' f' by (auto simp: socket_inv_def)
    moreover have "confined {} ss s ss' ?s'"
    proof -
      have "sblocks ss' ?s' = insert (fst ptr') (blocks_in (nodes s))"
        using held' f f' by (simp add: sblocks_def)
      then have "sblocks ss' ?s' \<subseteq> sblocks ss s \<union> {} \<union> {brk ss..}" using sb so'(4) by auto
      then show ?thesis using m f' by (simp add: confined_def)
    qed
    ultimately show ?thesis using e f' hi unfolding finished_def
      by (intro exI [of _ "[Trigger (sb_id buf)]"] exI [of _ ss'] exI [of _ ?s'] conjI
          exI [of _ "drop n bs @ H"]) simp_all
  qed
qed

lemma direct_write_ok:
  assumes inv: "socket_inv ss s hi lo" and mo: "mem_ok ss" and dir: "direct s = Some buf"
    and ok: "buffer_ok buf"
  shows "\<exists>reqs ss' s'. direct_write buf ss s = Some (0, reqs, ss', s')
     \<and> finished ss s hi lo (sb_id buf) reqs ss' s'"
proof -
  have ty: "stype s \<notin> idle_types" and tcp: "protocol s = PROTOCOL_TCP"
    using socket_invD(1) [OF inv] dir by (auto simp: socket_flags_def)
  have ty': "stype s \<noteq> SOCKET_TYPE_INVALID" "stype s \<noteq> SOCKET_TYPE_RESERVE"
    using ty by (auto simp: idle_types_def)
  obtain L where data: "socket_data ss s L hi lo" using socket_invD(2) [OF inv ty'] by blast
  obtain ptr sz where so: "send_object_init_from_sendbuffer ss buf = (ptr, sz)" by (metis prod.exhaust)
  have "held ss s = Some (ptr, sz, 0)" using dir so by (simp add: held_def)
  then obtain bs where rd: "read_mem (mem ss) ptr sz = Some bs"
    using data by (auto simp: socket_data_def held_ok_def)
  have sz: "sz = length bs" using read_mem_length [OF rd] by simp
  obtain oc ss1 where no: "next_outcome ss = (oc, ss1)" by (metis prod.exhaust)
  note sm = next_outcome_same [OF no]
  have inv1: "socket_inv ss1 s hi lo" "mem_ok ss1"
    using inv mo socket_inv_same_mem [OF sm] mem_ok_same [OF sm] by auto
  have "send_object_init_from_sendbuffer ss1 buf = (ptr, sz)"
    using so same_memD [OF sm]
    by (cases "sb_sz buf = USEROBJECT")
      (simp_all add: send_object_init_from_sendbuffer_def send_object_init_def split: buffer_type.splits)
  then have bs1: "buf_bytes ss1 buf = Some bs" using rd same_memD [OF sm] by (simp add: buf_bytes_def)
  define n where "n = (case oc of Some (Ret n) \<Rightarrow> min (nat n) sz | _ \<Rightarrow> 0)"
  have nl: "n \<le> length bs" using sz by (auto simp: n_def split: option.split outcome.split)
  have s0: "s\<lparr>out := out s @ take 0 bs\<rparr> = s" by simp
  have e: "direct_write buf ss s = direct_written buf n (length bs) ss1 (s\<lparr>out := out s @ take n bs\<rparr>)"
    using so rd tcp no sz by (auto simp: direct_write_def n_def Let_def split: option.split outcome.split)
  obtain reqs ss' s' where d: "direct_written buf n (length bs) ss1 (s\<lparr>out := out s @ take n bs\<rparr>) = Some (0, reqs, ss', s')"
    "finished ss1 s hi lo (sb_id buf) reqs ss' s'"
    using direct_written_ok [OF inv1 dir ok bs1 nl] by blast
  have "confined {} ss s ss1 s" by (rule confined_same [OF _ sm mo]) (simp_all add: same_data_def)
  then have "confined {} ss1 s ss' s' \<Longrightarrow> confined {} ss s ss' s'" by (rule confined_trans)
  then have "finished ss s hi lo (sb_id buf) reqs ss' s'" using d(2) unfolding finished_def by blast
  then show ?thesis using e d(1) by auto
qed

end
