(* ===== verification/SocketRun.thy ===== *)
theory SocketRun
  imports SocketPipe "HOL-Library.Sublist"
begin

text \<open>
  Runs of the whole socket server of skynet-src/socket_server.c: the requests other threads write to
  the pipe, their direct writes, and the socket thread, in any order, with any behaviour of the
  kernel. The invariant ties the pipe, the slots and the memory together.
\<close>

section \<open>The requests in the pipe\<close>

fun req_id :: "request \<Rightarrow> u32 option" where
  "req_id (Resume i opq) = Some i"
| "req_id (Pause i) = Some i"
| "req_id (Bind i f opq) = Some i"
| "req_id (Listen i f opq) = Some i"
| "req_id (Close i shutdown opq) = Some i"
| "req_id (Open i opq host port) = Some i"
| "req_id Exit = None"
| "req_id (Trigger i) = Some i"
| "req_id (SendHigh rs) = Some (rs_id rs)"
| "req_id (SendLow rs) = Some (rs_id rs)"
| "req_id (SendUdp rs address) = Some (rs_id rs)"
| "req_id (SetUdp i address) = Some i"
| "req_id (SetOpt i what val) = Some i"
| "req_id (Udp i f inet6 opq) = Some i"

fun opener :: "request \<Rightarrow> bool" where
  "opener (Bind i f opq) = True"
| "opener (Listen i f opq) = True"
| "opener (Open i opq host port) = True"
| "opener (Udp i f inet6 opq) = True"
| "opener r = False"

text \<open>The requests that carry data, with their priority; those counted in \<open>sending\<close>.\<close>

fun req_data :: "request \<Rightarrow> (priority \<times> request_send) option" where
  "req_data (SendHigh rs) = Some (PRIORITY_HIGH, rs)"
| "req_data (SendLow rs) = Some (PRIORITY_LOW, rs)"
| "req_data (SendUdp rs address) = Some (PRIORITY_HIGH, rs)"
| "req_data r = None"

fun counted :: "request \<Rightarrow> bool" where
  "counted (SendHigh rs) = True"
| "counted (SendLow rs) = True"
| "counted r = False"

definition reqs_of :: "u32 \<Rightarrow> request list \<Rightarrow> request list" where
  "reqs_of i pp = filter (\<lambda>r. req_id r = Some i) pp"

definition counted_of :: "u32 \<Rightarrow> request list \<Rightarrow> nat" where
  "counted_of i pp = length (filter counted (reqs_of i pp))"

definition datas :: "request list \<Rightarrow> request_send list" where
  "datas pp = map snd (List.map_filter req_data pp)"

lemma reqs_of_simps [simp]:
  "reqs_of i [] = []"
  "reqs_of i (r # pp) = (if req_id r = Some i then r # reqs_of i pp else reqs_of i pp)"
  "reqs_of i (pp @ qq) = reqs_of i pp @ reqs_of i qq"
  by (simp_all add: reqs_of_def)

lemma counted_of_simps [simp]:
  "counted_of i [] = 0"
  "counted_of i (r # pp) = (if req_id r = Some i \<and> counted r then 1 else 0) + counted_of i pp"
  "counted_of i (pp @ qq) = counted_of i pp + counted_of i qq"
  by (simp_all add: counted_of_def)

lemma datas_simps [simp]:
  "datas [] = []"
  "datas (r # pp) = (case req_data r of None \<Rightarrow> [] | Some d \<Rightarrow> [snd d]) @ datas pp"
  "datas (pp @ qq) = datas pp @ datas qq"
  by (simp_all add: datas_def List.map_filter_def split: option.split)

lemma counted_data: "counted r \<Longrightarrow> \<exists>p rs. req_data r = Some (p, rs) \<and> req_id r = Some (rs_id rs)"
  by (cases r) auto

lemma opener_data: "opener r \<Longrightarrow> req_data r = None \<and> \<not> counted r"
  by (cases r) auto

section \<open>What has been accepted and sent\<close>

text \<open>The messages accepted for a socket, in order, with their priorities.\<close>

type_synonym accepted_log = "(priority \<times> bytes) list"

definition of_prio :: "priority \<Rightarrow> accepted_log \<Rightarrow> bytes list" where
  "of_prio p ms = map snd (filter (\<lambda>m. fst m = p) ms)"

lemma of_prio_simps [simp]:
  "of_prio p [] = []"
  "of_prio p ((q, m) # ms) = (if q = p then m # of_prio p ms else of_prio p ms)"
  "of_prio p (ms @ ns) = of_prio p ms @ of_prio p ns"
  by (auto simp: of_prio_def)

lemma of_prio_map_Pair [simp]: "of_prio p (map (Pair q) ds) = (if q = p then ds else [])"
  by (simp add: of_prio_def filter_map o_def)

definition stream_ok :: "accepted_log \<Rightarrow> socket \<Rightarrow> bytes \<Rightarrow> bytes list \<Rightarrow> bool" where
  "stream_ok log s hi lo \<longleftrightarrow> (protocol s = PROTOCOL_TCP \<longrightarrow>
     (if stype s = SOCKET_TYPE_INVALID then
        \<exists>ms rest. concat (map snd ms) = out s @ rest \<and> (\<forall>p. prefix (of_prio p ms) (of_prio p log))
      else \<exists>ms. concat (map snd ms) = out s @ hi \<and> of_prio PRIORITY_HIGH ms = of_prio PRIORITY_HIGH log
             \<and> of_prio PRIORITY_LOW ms @ lo = of_prio PRIORITY_LOW log))"

lemma stream_openI:
  "stype s \<noteq> SOCKET_TYPE_INVALID \<Longrightarrow> concat (map snd ms) = out s @ hi
    \<Longrightarrow> of_prio PRIORITY_HIGH ms = of_prio PRIORITY_HIGH log
    \<Longrightarrow> of_prio PRIORITY_LOW ms @ lo = of_prio PRIORITY_LOW log \<Longrightarrow> stream_ok log s hi lo"
  unfolding stream_ok_def by auto

lemma stream_closedI:
  "stype s = SOCKET_TYPE_INVALID \<Longrightarrow> concat (map snd ms) = out s @ rest
    \<Longrightarrow> (\<And>p. prefix (of_prio p ms) (of_prio p log)) \<Longrightarrow> stream_ok log s hi lo"
  unfolding stream_ok_def by auto

lemma snd_Pair_concat: "concat (map snd (map (Pair p) ds)) = concat ds"
  by (simp add: o_def)

lemma stream_moved:
  assumes st: "stream_ok log s hi lo" and mv: "moved s hi lo s' hi' lo'" and pr: "protocol s' = protocol s"
    and ty: "stype s = SOCKET_TYPE_INVALID \<Longrightarrow> stype s' = SOCKET_TYPE_INVALID \<and> hi = [] \<and> lo = []"
  shows "stream_ok log s' hi' lo'"
proof (cases "protocol s = PROTOCOL_TCP")
  case False
  then show ?thesis using pr by (simp add: stream_ok_def)
next
  case tcp: True
  show ?thesis
  proof (cases "stype s = SOCKET_TYPE_INVALID")
    case True
    then obtain h l where "flows s hi lo s' h l" using mv tcp ty by (auto simp: moved_def)
    then have o: "out s = out s' @ h" using ty True by (auto simp: flows_def)
    obtain ms rest where "concat (map snd ms) = out s @ rest" "\<forall>p. prefix (of_prio p ms) (of_prio p log)"
      using st tcp True by (auto simp: stream_ok_def)
    then have "concat (map snd ms) = out s' @ (h @ rest) \<and> (\<forall>p. prefix (of_prio p ms) (of_prio p log))"
      using o by simp
    then show ?thesis using ty True tcp pr unfolding stream_ok_def by auto
  next
    case False
    then obtain ms where ms: "concat (map snd ms) = out s @ hi" "of_prio PRIORITY_HIGH ms = of_prio PRIORITY_HIGH log"
      "of_prio PRIORITY_LOW ms @ lo = of_prio PRIORITY_LOW log"
      using st tcp by (auto simp: stream_ok_def)
    obtain h l where fl: "flows s hi lo s' h l" "stype s' \<noteq> SOCKET_TYPE_INVALID \<Longrightarrow> h = hi' \<and> l = lo'"
      using mv tcp by (auto simp: moved_def split: if_splits)
    then obtain ds where ds: "out s' @ h = out s @ hi @ concat ds" "lo = ds @ l" by (auto simp: flows_def)
    let ?ms = "ms @ map (Pair PRIORITY_LOW) ds"
    have "concat (map snd ?ms) = out s' @ h" using ms(1) ds(1) by (simp add: o_def)
    moreover have "of_prio PRIORITY_HIGH ?ms = of_prio PRIORITY_HIGH log" using ms(2) by simp
    moreover have "of_prio PRIORITY_LOW ?ms @ l = of_prio PRIORITY_LOW log" using ms(3) ds(2) by simp
    moreover have "prefix (of_prio p ?ms) (of_prio p log)" for p
      using ms(2) ms(3) [symmetric] ds(2) by (cases p) (auto simp: prefix_def)
    ultimately show ?thesis
      using fl(2) stream_closedI [of s' ?ms h log] stream_openI [of s' ?ms h log l] by blast
  qed
qed

lemma stream_queued:
  assumes st: "stream_ok log s hi lo" and q: "protocol s = PROTOCOL_TCP \<longrightarrow> queued False p m hi lo hi' lo'"
    and s': "protocol s' = protocol s" "stype s' = stype s" "out s' = out s"
    and ty: "stype s \<noteq> SOCKET_TYPE_INVALID"
  shows "stream_ok (log @ [(p, m)]) s' hi' lo'"
proof (cases "protocol s = PROTOCOL_TCP")
  case True
  then obtain ms where ms: "concat (map snd ms) = out s @ hi" "of_prio PRIORITY_HIGH ms = of_prio PRIORITY_HIGH log"
      "of_prio PRIORITY_LOW ms @ lo = of_prio PRIORITY_LOW log"
    using st ty by (auto simp: stream_ok_def)
  from q True consider (hi) "hi' = hi @ m" "lo' = lo" "p = PRIORITY_LOW \<longrightarrow> lo = []"
    | (lo) "p = PRIORITY_LOW" "hi' = hi" "lo' = lo @ [m]" by (auto simp: queued_def)
  then show ?thesis
  proof cases
    case hi
    have "concat (map snd (ms @ [(p, m)])) = out s' @ hi'" using ms(1) hi(1) s' by simp
    moreover have "of_prio PRIORITY_HIGH (ms @ [(p, m)]) = of_prio PRIORITY_HIGH (log @ [(p, m)])"
      using ms(2) by simp
    moreover have "of_prio PRIORITY_LOW (ms @ [(p, m)]) @ lo' = of_prio PRIORITY_LOW (log @ [(p, m)])"
      using ms(3) hi by (cases p) simp_all
    ultimately show ?thesis using ty s' by (intro stream_openI [of s' "ms @ [(p, m)]"]) simp_all
  next
    case lo
    then show ?thesis using ms s' ty by (auto simp: stream_ok_def intro!: exI [of _ ms])
  qed
qed (use s' in \<open>simp add: stream_ok_def\<close>)

lemma stream_same:
  assumes "stream_ok log s hi lo" "protocol s' = protocol s" "stype s' = stype s" "out s' = out s"
    "protocol s = PROTOCOL_TCP \<longrightarrow> hi' = hi \<and> lo' = lo"
  shows "stream_ok log s' hi' lo'"
  using assms by (cases "protocol s = PROTOCOL_TCP") (simp_all only: stream_ok_def simp_thms)

lemma stream_log_grows:
  assumes st: "stream_ok log s hi lo" and ty: "stype s = SOCKET_TYPE_INVALID"
  shows "stream_ok (log @ ns) s hi lo"
  using st ty prefix_prefix by (fastforce simp: stream_ok_def)

section \<open>The invariant\<close>

text \<open>
  A slot: its data and its stream, where it stands, the count of its requests in the pipe, the
  request that will fill it if it is reserved, and a pending Trigger if its data waits for one.
\<close>

definition log_of :: "(u32 \<Rightarrow> accepted_log) \<Rightarrow> nat \<Rightarrow> socket \<Rightarrow> accepted_log" where
  "log_of h k s = (if HASH_ID (sid s) = k then h (sid s) else [])"

definition count_ok :: "request list \<Rightarrow> nat \<Rightarrow> socket \<Rightarrow> bool" where
  "count_ok pp k s \<longleftrightarrow> (HASH_ID (sid s) = k \<longrightarrow> protocol s = PROTOCOL_TCP \<longrightarrow>
     sending s = push_bit 16 (ID_TAG16 (sid s)) + of_nat (counted_of (sid s) pp)
     \<and> counted_of (sid s) pp < 2 ^ 16)"

definition reserve_ok :: "(u32 \<Rightarrow> accepted_log) \<Rightarrow> request list \<Rightarrow> socket \<Rightarrow> bool" where
  "reserve_ok h pp s \<longleftrightarrow> (stype s = SOCKET_TYPE_RESERVE \<longrightarrow> protocol s = PROTOCOL_UNKNOWN \<and> h (sid s) = []
     \<and> (\<exists>r rest. reqs_of (sid s) pp = r # rest \<and> opener r
          \<and> (\<forall>r'\<in>set rest. \<not> opener r' \<and> \<not> counted r')))"

definition opener_ok :: "request list \<Rightarrow> nat \<Rightarrow> socket \<Rightarrow> bool" where
  "opener_ok pp k s \<longleftrightarrow> (\<forall>r\<in>set pp. \<forall>i. opener r \<longrightarrow> req_id r = Some i \<longrightarrow> HASH_ID i = k \<longrightarrow>
     stype s = SOCKET_TYPE_RESERVE \<and> sid s = i)"

definition slot_flags :: "nat \<Rightarrow> socket \<Rightarrow> bool" where
  "slot_flags k s \<longleftrightarrow> (stype s \<noteq> SOCKET_TYPE_INVALID \<longrightarrow> HASH_ID (sid s) = k)
     \<and> (\<forall>buf. direct s = Some buf \<longrightarrow> buffer_ok buf \<and> sb_id buf = sid s)"

definition slot_ok :: "(u32 \<Rightarrow> accepted_log) \<Rightarrow> request list \<Rightarrow> socket_server \<Rightarrow> nat \<Rightarrow> socket \<Rightarrow> bool" where
  "slot_ok h pp ss k s \<longleftrightarrow>
     (\<exists>hi lo. socket_inv ss s hi lo \<and> stream_ok (log_of h k s) s hi lo)
     \<and> slot_flags k s \<and> count_ok pp k s \<and> reserve_ok h pp s \<and> opener_ok pp k s
     \<and> (unarmed s \<longrightarrow> Trigger (sid s) \<in> set pp)"

text \<open>The memory: no block is held twice, by two slots, two requests, or a slot and a request.\<close>

definition blocks_ok :: "request list \<Rightarrow> socket_server \<Rightarrow> (nat \<Rightarrow> socket) \<Rightarrow> bool" where
  "blocks_ok pp ss sl \<longleftrightarrow> mem_ok ss \<and> event_index ss \<le> length (ev ss)
     \<and> (\<forall>k l. k \<noteq> l \<longrightarrow> sblocks ss (sl k) \<inter> sblocks ss (sl l) = {})
     \<and> distinct (map (req_block ss) (datas pp))
     \<and> (\<forall>rs\<in>set (datas pp). req_bytes ss rs \<noteq> None \<and> (\<forall>k. req_block ss rs \<notin> sblocks ss (sl k)))
     \<and> (\<forall>rs. SendLow rs \<in> set pp \<longrightarrow> low_object_ok ss rs)"

definition run_inv :: "(u32 \<Rightarrow> accepted_log) \<Rightarrow> request list \<Rightarrow> socket_server \<Rightarrow> (nat \<Rightarrow> socket) \<Rightarrow> bool" where
  "run_inv h pp ss sl \<longleftrightarrow> blocks_ok pp ss sl \<and> (\<forall>k. slot_ok h pp ss k (sl k))"

lemma req_soi: "soi ss' = soi ss \<Longrightarrow> req_block ss' rs = req_block ss rs"
  by (simp add: req_block_def send_object_init_def)

lemma req_bytes_frame:
  "soi ss' = soi ss \<Longrightarrow> mem ss' (req_block ss rs) = mem ss (req_block ss rs) \<Longrightarrow> req_bytes ss' rs = req_bytes ss rs"
  by (auto simp: req_bytes_def req_block_def send_object_init_def intro!: read_mem_cong)

lemma low_object_soi: "soi ss' = soi ss \<Longrightarrow> low_object_ok ss' rs = low_object_ok ss rs"
  by (simp add: low_object_ok_def)

lemma slot_ok_inv: "slot_ok h pp ss k s \<Longrightarrow> b \<in> sblocks ss s \<Longrightarrow> mem ss b \<noteq> None"
  using sblocks_live by (auto simp: slot_ok_def)

lemma slot_ok_frame:
  assumes "slot_ok h pp ss k s" "\<And>b. b \<in> sblocks ss s \<Longrightarrow> mem ss' b = mem ss b"
    "soi ss' = soi ss" "brk ss \<le> brk ss'"
  shows "slot_ok h pp ss' k s"
  using assms(1) socket_inv_frame [OF _ assms(2-4)] unfolding slot_ok_def by blast

text \<open>An operation on the slot \<open>k\<close> that may take over the blocks \<open>N\<close>.\<close>

lemma run_inv_update:
  assumes bo: "blocks_ok pp ss sl" and other: "\<And>l. l \<noteq> k \<Longrightarrow> slot_ok h' pp' ss l (sl l)"
    and conf: "confined N ss (sl k) ss' s'"
    and own: "\<And>b. b \<in> sblocks ss (sl k) \<Longrightarrow> mem ss b \<noteq> None"
    and N: "\<And>b. b \<in> N \<Longrightarrow> mem ss b \<noteq> None" "\<And>l b. l \<noteq> k \<Longrightarrow> b \<in> N \<Longrightarrow> b \<notin> sblocks ss (sl l)"
      "\<And>rs. rs \<in> set (datas pp') \<Longrightarrow> req_block ss rs \<notin> N"
    and pp': "set (datas pp') \<subseteq> set (datas pp)" "distinct (map (req_block ss) (datas pp'))"
      "\<And>rs. SendLow rs \<in> set pp' \<Longrightarrow> low_object_ok ss rs"
    and slot: "slot_ok h' pp' ss' k s'"
  shows "run_inv h' pp' ss' (sl(k := s'))"
proof -
  have cs: "soi ss' = soi ss" "brk ss \<le> brk ss'" "mem_ok ss'" using conf by (auto simp: confined_def core_same_def)
  have mo: "mem_ok ss" using bo by (simp add: blocks_ok_def)
  have same: "mem ss' b = mem ss b" if "mem ss b \<noteq> None" "b \<notin> sblocks ss (sl k)" "b \<notin> N" for b
    using conf mo that by (auto simp: confined_def mem_ok_def)
  have live: "l \<noteq> k \<Longrightarrow> b \<in> sblocks ss (sl l) \<Longrightarrow> mem ss b \<noteq> None" for l b
    using slot_ok_inv [OF other] by blast
  have dis: "l \<noteq> k \<Longrightarrow> b \<in> sblocks ss (sl l) \<Longrightarrow> b \<notin> sblocks ss (sl k)" for l b
    using bo unfolding blocks_ok_def by blast
  have sb: "sblocks ss' (sl l) = sblocks ss (sl l)" for l by (rule sblocks_soi [OF cs(1)])
  have new: "b \<in> sblocks ss (sl k) \<or> b \<in> N \<or> brk ss \<le> b" if "b \<in> sblocks ss' s'" for b
    using conf that by (auto simp: confined_def)
  have sep: "b \<notin> sblocks ss' s'" if "mem ss b \<noteq> None" "b \<notin> sblocks ss (sl k)" "b \<notin> N" for b
  proof
    assume "b \<in> sblocks ss' s'"
    then have "brk ss \<le> b" using new that by blast
    moreover have "b < brk ss" using mo that(1) by (simp add: mem_ok_def)
    ultimately show False by simp
  qed
  have rq: "rs \<in> set (datas pp') \<Longrightarrow> req_bytes ss rs \<noteq> None \<and> req_block ss rs \<notin> sblocks ss (sl l)" for rs l
    using bo pp'(1) unfolding blocks_ok_def by blast
  have rql: "rs \<in> set (datas pp') \<Longrightarrow> mem ss (req_block ss rs) \<noteq> None" for rs
    using rq req_block_live by blast
  have "blocks_ok pp' ss' (sl(k := s'))"
    unfolding blocks_ok_def
  proof (intro conjI allI impI ballI)
    show "mem_ok ss'" by (rule cs(3))
    show "event_index ss' \<le> length (ev ss')"
      using conf bo by (simp add: confined_def core_same_def blocks_ok_def)
  next
    fix j l :: nat assume jl: "j \<noteq> l"
    have one: "sblocks ss' s' \<inter> sblocks ss' (sl l) = {}" if "l \<noteq> k" for l
      unfolding sb using sep live dis N(2) that by blast
    show "sblocks ss' ((sl(k := s')) j) \<inter> sblocks ss' ((sl(k := s')) l) = {}"
    proof (cases "j = k")
      case True
      then show ?thesis using one [of l] jl by simp
    next
      case j: False
      show ?thesis
      proof (cases "l = k")
        case True
        then show ?thesis using one [OF j] j by (simp add: Int_commute)
      next
        case False
        have "sblocks ss (sl j) \<inter> sblocks ss (sl l) = {}" using bo jl unfolding blocks_ok_def by blast
        then show ?thesis using j False sb by simp
      qed
    qed
  next
    have "req_block ss' = req_block ss" by (rule ext) (rule req_soi [OF cs(1)])
    then show "distinct (map (req_block ss') (datas pp'))" using pp'(2) by simp
  next
    fix rs assume rs: "rs \<in> set (datas pp')"
    have "req_bytes ss' rs = req_bytes ss rs"
      by (rule req_bytes_frame [OF cs(1)]) (rule same [OF rql [OF rs] _ N(3) [OF rs]], use rq [OF rs] in blast)
    then show "req_bytes ss' rs \<noteq> None" using rq [OF rs] by simp
    fix j
    show "req_block ss' rs \<notin> sblocks ss' ((sl(k := s')) j)"
      unfolding req_soi [OF cs(1)]
      using sep [OF rql [OF rs] _ N(3) [OF rs]] rq [OF rs] sb by (cases "j = k") simp_all
  next
    fix rs assume "SendLow rs \<in> set pp'"
    then show "low_object_ok ss' rs" using pp'(3) low_object_soi [OF cs(1)] by blast
  qed
  moreover have "slot_ok h' pp' ss' l (sl l)" if "l \<noteq> k" for l
  proof (rule slot_ok_frame [OF other [OF that] _ cs(1,2)])
    fix b assume b: "b \<in> sblocks ss (sl l)"
    show "mem ss' b = mem ss b" by (rule same [OF live [OF that b] dis [OF that b]]) (use N(2) [OF that] b in blast)
  qed
  ultimately show ?thesis using slot by (simp add: run_inv_def)
qed

text \<open>The blocks of the slots and the requests, and changes of memory elsewhere.\<close>

definition owned :: "request list \<Rightarrow> socket_server \<Rightarrow> (nat \<Rightarrow> socket) \<Rightarrow> nat \<Rightarrow> bool" where
  "owned pp ss sl b \<longleftrightarrow> (\<exists>k. b \<in> sblocks ss (sl k)) \<or> (\<exists>rs\<in>set (datas pp). req_block ss rs = b)"

lemma owned_live: "run_inv h pp ss sl \<Longrightarrow> owned pp ss sl b \<Longrightarrow> mem ss b \<noteq> None"
  using slot_ok_inv req_block_live by (fastforce simp: run_inv_def owned_def blocks_ok_def)

lemma run_inv_frame:
  assumes inv: "run_inv h pp ss sl" and f: "soi ss' = soi ss" "brk ss \<le> brk ss'" "mem_ok ss'"
    and ev: "event_index ss' \<le> length (ev ss')" and m: "\<And>b. owned pp ss sl b \<Longrightarrow> mem ss' b = mem ss b"
  shows "run_inv h pp ss' sl"
proof -
  have bo: "blocks_ok pp ss sl" and all: "\<And>l. slot_ok h pp ss l (sl l)" using inv by (auto simp: run_inv_def)
  have rqe: "req_block ss' = req_block ss" by (rule ext) (rule req_soi [OF f(1)])
  have rqbs: "req_bytes ss' rs = req_bytes ss rs" if "rs \<in> set (datas pp)" for rs
    by (rule req_bytes_frame [OF f(1) m]) (use that in \<open>auto simp: owned_def\<close>)
  have "blocks_ok pp ss' sl"
    using bo f(3) ev rqbs
    unfolding blocks_ok_def rqe sblocks_soi [OF f(1)] low_object_soi [OF f(1)] by simp
  moreover have "slot_ok h pp ss' l (sl l)" for l
    by (rule slot_ok_frame [OF all _ f(1,2)]) (rule m, auto simp: owned_def)
  ultimately show ?thesis by (simp add: run_inv_def)
qed

lemma run_inv_index: "run_inv h pp ss sl \<Longrightarrow> event_index ss \<le> length (ev ss)"
  by (simp add: run_inv_def blocks_ok_def)

lemma run_inv_mem_ok: "run_inv h pp ss sl \<Longrightarrow> mem_ok ss"
  by (simp add: run_inv_def blocks_ok_def)

lemma run_inv_events:
  assumes "run_inv h pp ss sl" "mem ss' = mem ss" "soi ss' = soi ss" "brk ss' = brk ss"
    "event_index ss' \<le> length (ev ss')"
  shows "run_inv h pp ss' sl"
  by (rule run_inv_frame [OF assms(1,3)]) (use assms run_inv_mem_ok [OF assms(1)] in \<open>simp_all add: mem_ok_def\<close>)

lemma run_inv_core:
  assumes "run_inv h pp ss sl" "mem ss' = mem ss" "soi ss' = soi ss" "brk ss' = brk ss"
    "event_index ss' = event_index ss" "ev ss' = ev ss"
  shows "run_inv h pp ss' sl"
  by (rule run_inv_events [OF assms(1-4)]) (use assms run_inv_index [OF assms(1)] in simp)

section \<open>Counting\<close>

lemma small_bits:
  assumes "n < 2 ^ 16" "16 \<le> m"
  shows "\<not> bit (n :: nat) m"
proof -
  have "take_bit 16 n = n" using assms(1) by (simp add: take_bit_nat_eq_self)
  then show ?thesis using assms(2) by (metis bit_take_bit_iff not_le)
qed

lemma ID_TAG16_bits: "16 \<le> m \<Longrightarrow> \<not> bit (ID_TAG16 i) m"
proof -
  have m: "(0xffff :: u64) = mask 16" by (simp add: mask_eq_exp_minus_1)
  show "16 \<le> m \<Longrightarrow> \<not> bit (ID_TAG16 i) m"
    unfolding ID_TAG16_def m by (simp add: bit_simps)
qed

lemma sending_or:
  fixes t :: u64
  assumes "n < 2 ^ 16"
  shows "push_bit 16 t + of_nat n = push_bit 16 t OR of_nat n"
proof (rule disjunctive_add)
  fix m show "\<not> bit (push_bit 16 t) m \<or> \<not> bit (of_nat n :: u64) m"
    using small_bits [OF assms, of m] by (cases "16 \<le> m") (simp_all add: bit_simps)
qed

lemma sending_count:
  fixes t :: u64
  assumes "n < 2 ^ 16"
  shows "(push_bit 16 t + of_nat n) AND 0xffff = of_nat n"
proof -
  have m: "(0xffff :: u64) = mask 16" by (simp add: mask_eq_exp_minus_1)
  show ?thesis
    unfolding sending_or [OF assms] m
  proof (rule bit_eqI)
    fix b show "bit ((push_bit 16 t OR of_nat n) AND mask 16) b = bit (of_nat n :: u64) b"
      using small_bits [OF assms, of b] by (cases "16 \<le> b") (auto simp: bit_simps)
  qed
qed

lemma sending_tag:
  assumes "n < 2 ^ 16"
  shows "drop_bit 16 (push_bit 16 (ID_TAG16 i) + of_nat n) = ID_TAG16 i"
  unfolding sending_or [OF assms]
proof (rule bit_eqI)
  fix b show "bit (drop_bit 16 (push_bit 16 (ID_TAG16 i) OR of_nat n)) b = bit (ID_TAG16 i) b"
    using small_bits [OF assms, of "16 + b"] ID_TAG16_bits [of b i]
    by (cases "16 \<le> b") (auto simp: bit_simps)
qed

lemma of_nat_small_0: "n < 2 ^ 16 \<Longrightarrow> (of_nat n :: u64) = 0 \<longleftrightarrow> n = 0"
  by (auto simp: word_of_nat_eq_0_iff dest: nat_dvd_not_less)

section \<open>Requests taken from the pipe\<close>

lemma unarmed_busy: "socket_inv ss s hi lo \<Longrightarrow> unarmed s \<Longrightarrow> stype s \<notin> idle_types"
  using socket_invD(4) by (auto simp: unarmed_def)

lemma slot_home: "slot_ok h pp ss k s \<Longrightarrow> stype s \<noteq> SOCKET_TYPE_INVALID \<Longrightarrow> HASH_ID (sid s) = k"
  by (simp add: slot_ok_def slot_flags_def)

lemma unarmed_home: "slot_ok h pp ss k s \<Longrightarrow> unarmed s \<Longrightarrow> HASH_ID (sid s) = k"
  using unarmed_busy by (fastforce simp: slot_ok_def slot_flags_def idle_types_def)

text \<open>A request for another slot.\<close>

lemma slot_ok_pop:
  assumes ok: "slot_ok h (r # pp) ss l s" and other: "\<And>i. req_id r = Some i \<Longrightarrow> HASH_ID i \<noteq> l"
  shows "slot_ok h pp ss l s"
proof -
  have c: "counted_of (sid s) (r # pp) = counted_of (sid s) pp" if "HASH_ID (sid s) = l"
    using other that by auto
  have q: "reqs_of (sid s) (r # pp) = reqs_of (sid s) pp" if "stype s = SOCKET_TYPE_RESERVE"
    using other slot_home [OF ok] that by auto
  have "r \<noteq> Trigger (sid s)" if "unarmed s" using other unarmed_home [OF ok that] by auto
  then have "unarmed s \<longrightarrow> Trigger (sid s) \<in> set pp" using ok by (auto simp: slot_ok_def)
  moreover have "count_ok pp l s" using ok c by (simp add: slot_ok_def count_ok_def)
  moreover have "reserve_ok h pp s" using ok q by (simp add: slot_ok_def reserve_ok_def)
  moreover have "opener_ok pp l s" using ok by (simp add: slot_ok_def opener_ok_def)
  ultimately show ?thesis using ok by (simp add: slot_ok_def)
qed

lemma slot_ok_log:
  assumes ok: "slot_ok h pp ss l s" and i: "HASH_ID i \<noteq> l"
  shows "slot_ok (h(i := x)) pp ss l s"
proof -
  have "log_of (h(i := x)) l s = log_of h l s" using i by (auto simp: log_of_def)
  moreover have "reserve_ok (h(i := x)) pp s"
  proof (cases "stype s = SOCKET_TYPE_RESERVE")
    case True
    then have "sid s \<noteq> i" using slot_home [OF ok] i by auto
    then show ?thesis using ok by (simp add: slot_ok_def reserve_ok_def)
  qed (simp add: reserve_ok_def)
  ultimately show ?thesis using ok by (simp add: slot_ok_def)
qed

text \<open>The slot of the request, where the request opens no socket: it is not the reserved one.\<close>

lemma not_reserved:
  "slot_ok h (r # pp) ss k s \<Longrightarrow> \<not> opener r \<Longrightarrow> req_id r = Some i \<Longrightarrow> stype s = SOCKET_TYPE_RESERVE \<Longrightarrow> sid s \<noteq> i"
  by (auto simp: slot_ok_def reserve_ok_def)

lemma slot_ok_step:
  assumes ok: "slot_ok h qq ss k s" and inv: "socket_inv ss s hi lo" "stream_ok (log_of h k s) s hi lo"
    and step: "step_ok ss s hi lo ss' s'"
    and pipe: "counted_of (sid s) pp = counted_of (sid s) qq"
      "stype s = SOCKET_TYPE_RESERVE \<Longrightarrow> reqs_of (sid s) pp = reqs_of (sid s) qq" "set pp \<subseteq> set qq"
      "unarmed s' \<Longrightarrow> Trigger (sid s) \<in> set qq \<Longrightarrow> Trigger (sid s) \<in> set pp"
  shows "slot_ok h pp ss' k s'"
proof -
  obtain hi' lo' where st: "confined {} ss s ss' s'" "socket_inv ss' s' hi' lo'" "unarmed s' \<longrightarrow> unarmed s"
      "sending s' = sending s" "direct s' = direct s" "moved s hi lo s' hi' lo'"
    and ty: "stype s' = stype s \<or> stype s' \<noteq> SOCKET_TYPE_RESERVE
      \<and> stype s \<noteq> SOCKET_TYPE_RESERVE \<and> stype s \<noteq> SOCKET_TYPE_INVALID"
    using step unfolding step_ok_def by blast
  have pr: "protocol s' = protocol s" "sid s' = sid s" using st(1) by (auto simp: confined_def)
  have "stream_ok (log_of h k s') s' hi' lo'"
  proof -
    have "stream_ok (log_of h k s) s' hi' lo'"
      by (rule stream_moved [OF inv(2) st(6) pr(1)]) (use ty socket_invD(3) [OF inv(1)] in auto)
    moreover have "log_of h k s' = log_of h k s" by (simp add: log_of_def pr)
    ultimately show ?thesis by simp
  qed
  moreover have "slot_flags k s'"
    using ok ty st(5) pr by (auto simp: slot_ok_def slot_flags_def)
  moreover have "count_ok pp k s'" using ok pipe(1) st(4) pr by (simp add: slot_ok_def count_ok_def)
  moreover have "reserve_ok h pp s'"
    using ok pipe(2) ty pr by (auto simp: slot_ok_def reserve_ok_def)
  moreover have "opener_ok pp k s'"
    using ok pipe(3) ty pr unfolding slot_ok_def opener_ok_def by (metis subsetD)
  moreover have "unarmed s' \<longrightarrow> Trigger (sid s') \<in> set pp"
    using ok st(3) pipe(4) pr by (auto simp: slot_ok_def)
  ultimately show ?thesis using st(2) unfolding slot_ok_def by blast
qed

text \<open>An operation on one slot: it finishes with the invariant kept, or waits for the lock.\<close>

definition runs :: "(u32 \<Rightarrow> accepted_log) \<Rightarrow> request list \<Rightarrow> (nat \<Rightarrow> socket) \<Rightarrow> nat
    \<Rightarrow> (socket_ret \<times> socket_server \<times> socket) option \<Rightarrow> bool" where
  "runs h pp sl k x \<longleftrightarrow> run_ok (direct (sl k) \<noteq> None) x
     (\<lambda>(r, ss', s'). run_inv h pp ss' (sl(k := s')) \<and> pipe ss' = pp)"

lemma step_runs:
  assumes bo: "blocks_ok qq ss sl" and all: "\<And>l. slot_ok h qq ss l (sl l)"
    and other: "\<And>l. l \<noteq> k \<Longrightarrow> slot_ok h pp ss l (sl l)"
    and step: "\<And>hi lo. socket_inv ss (sl k) hi lo \<Longrightarrow> run_ok (direct (sl k) \<noteq> None) x
        (\<lambda>(r, ss', s'). step_ok ss (sl k) hi lo ss' s' \<and> Q s')"
    and pipe: "counted_of (sid (sl k)) pp = counted_of (sid (sl k)) qq"
      "stype (sl k) = SOCKET_TYPE_RESERVE \<Longrightarrow> reqs_of (sid (sl k)) pp = reqs_of (sid (sl k)) qq"
      "set pp \<subseteq> set qq" "datas pp = datas qq" "pipe ss = pp"
      "\<And>s'. Q s' \<Longrightarrow> unarmed s' \<Longrightarrow> sid s' = sid (sl k) \<Longrightarrow> Trigger (sid (sl k)) \<in> set qq \<Longrightarrow>
        Trigger (sid (sl k)) \<in> set pp"
  shows "runs h pp sl k x"
proof -
  obtain hi lo where inv: "socket_inv ss (sl k) hi lo" "stream_ok (log_of h k (sl k)) (sl k) hi lo"
    using all [of k] by (auto simp: slot_ok_def)
  show ?thesis
    unfolding runs_def
  proof (rule run_ok_mono [OF step [OF inv(1)]])
    fix r assume "case r of (r, ss', s') \<Rightarrow> step_ok ss (sl k) hi lo ss' s' \<and> Q s'"
    then obtain r0 ss' s' where r: "r = (r0, ss', s')" "step_ok ss (sl k) hi lo ss' s'" "Q s'" by (cases r) auto
    have conf: "confined {} ss (sl k) ss' s'" using r(2) unfolding step_ok_def by blast
    then have f: "sid s' = sid (sl k)" "pipe ss' = pipe ss" by (auto simp: confined_def core_same_def)
    have "slot_ok h pp ss' k s'"
      by (rule slot_ok_step [OF all inv r(2) pipe(1,2,3)]) (use pipe(6) [OF r(3) _ f(1)] in auto)
    have "run_inv h pp ss' (sl(k := s'))"
    proof (rule run_inv_update [OF bo other conf])
      show "slot_ok h pp ss' k s'" by fact
      show "distinct (map (req_block ss) (datas pp))" using bo pipe(4) by (simp add: blocks_ok_def)
      show "\<And>rs. SendLow rs \<in> set pp \<Longrightarrow> low_object_ok ss rs" using bo pipe(3) by (auto simp: blocks_ok_def)
      show "\<And>b. b \<in> sblocks ss (sl k) \<Longrightarrow> mem ss b \<noteq> None" using slot_ok_inv all by blast
    qed (use pipe(4) in auto)
    then show "case r of (r, ss', s') \<Rightarrow> run_inv h pp ss' (sl(k := s')) \<and> pipe ss' = pp"
      using r(1) f(2) pipe(5) by simp
  qed
qed

text \<open>A request that carries data: what it adds to the accepted messages.\<close>

definition accept :: "priority \<Rightarrow> request_send \<Rightarrow> socket_server \<Rightarrow> socket
    \<Rightarrow> (u32 \<Rightarrow> accepted_log) \<Rightarrow> (u32 \<Rightarrow> accepted_log)" where
  "accept p rs ss s h = (if send_refused s (rs_id rs) then h
     else h(rs_id rs := h (rs_id rs) @ [(p, the (req_bytes ss rs))]))"

lemma dec_sending_ok:
  assumes c: "count_ok (r # pp) k s" and r: "counted r" "req_id r = Some i" and k: "HASH_ID i = k"
  shows "\<exists>s'. dec_sending_ref i s = Some s' \<and> count_ok pp k s' \<and> (\<exists>x. s' = s\<lparr>sending := x\<rparr>)"
proof (cases "sid s = i \<and> protocol s = PROTOCOL_TCP")
  case True
  let ?n = "counted_of (sid s) pp"
  have n: "Suc ?n < 2 ^ 16" and sd: "sending s = push_bit 16 (ID_TAG16 (sid s)) + of_nat (Suc ?n)"
    using c r k True by (auto simp: count_ok_def)
  have "sending s AND 0xffff = of_nat (Suc ?n)" unfolding sd by (rule sending_count [OF n])
  then have "sending s AND 0xffff \<noteq> 0" using of_nat_small_0 [OF n] by simp
  then have "dec_sending_ref i s = Some (s\<lparr>sending := sending s - 1\<rparr>)"
    using True by (simp add: dec_sending_ref_def)
  moreover have "count_ok pp k (s\<lparr>sending := sending s - 1\<rparr>)"
    using n unfolding sd by (simp add: count_ok_def)
  ultimately show ?thesis by blast
next
  case False
  then have "dec_sending_ref i s = Some s" by (auto simp: dec_sending_ref_def)
  moreover have "count_ok pp k s"
    using c r False by (auto simp: count_ok_def)
  moreover have "s = s\<lparr>sending := sending s\<rparr>" by simp
  ultimately show ?thesis by blast
qed

lemma accepted_slot_ok:
  assumes ok: "slot_ok h (r # pp) ss k s" and r: "req_data r = Some (p, rs)" "req_id r = Some (rs_id rs)"
    and k: "HASH_ID (rs_id rs) = k" and bs: "req_bytes ss rs = Some m"
    and inv: "socket_inv ss s hi lo" "stream_ok (log_of h k s) s hi lo"
    and acc: "accepted N ss s hi' lo' ss' s1"
    and q: "protocol s = PROTOCOL_TCP \<longrightarrow> queued (send_refused s (rs_id rs)) p m hi lo hi' lo'"
    and s': "s' = s1\<lparr>sending := x\<rparr>" and cnt: "count_ok pp k s'"
  shows "slot_ok (accept p rs ss s h) pp ss' k s'"
proof -
  let ?h = "accept p rs ss s h"
  have no: "\<not> opener r" "r \<noteq> Trigger i" for i using r by (cases r; simp)+
  have pr: "protocol s1 = protocol s" "sid s1 = sid s" using acc by (auto simp: accepted_def confined_def)
  have f: "protocol s' = protocol s" "sid s' = sid s" "stype s' = stype s" "out s' = out s"
    "direct s' = direct s" "unarmed s' \<longrightarrow> unarmed s"
    using acc pr by (auto simp: s' accepted_def unarmed_def)
  have "socket_inv ss' s1 hi' lo'" using acc by (simp add: accepted_def)
  moreover have "socket_data ss' s' L a b = socket_data ss' s1 L a b" for L a b
    by (rule socket_data_cong) (simp_all add: s' same_data_def)
  ultimately have inv': "socket_inv ss' s' hi' lo'"
    by (simp add: socket_inv_def socket_flags_def s')
  have "stream_ok (log_of ?h k s') s' hi' lo'"
  proof (cases "send_refused s (rs_id rs)")
    case True
    then have "log_of ?h k s' = log_of h k s" by (simp add: accept_def log_of_def f(2))
    moreover have "protocol s = PROTOCOL_TCP \<longrightarrow> hi' = hi \<and> lo' = lo" using q True by (simp add: queued_def)
    ultimately show ?thesis using stream_same [OF inv(2) f(1,3,4)] by simp
  next
    case False
    then have s: "sid s = rs_id rs" "stype s \<noteq> SOCKET_TYPE_INVALID" by (auto simp: send_refused_def)
    have "log_of ?h k s' = log_of h k s @ [(p, m)]"
      using False s k bs by (simp add: accept_def log_of_def f(2))
    then show ?thesis
      using stream_queued [OF inv(2) _ f(1,3,4) s(2), of p m hi' lo'] q False by simp
  qed
  moreover have "slot_flags k s'" using ok f by (simp add: slot_ok_def slot_flags_def)
  moreover have "reserve_ok ?h pp s'"
  proof (cases "stype s = SOCKET_TYPE_RESERVE")
    case True
    then have ne: "sid s \<noteq> rs_id rs" using not_reserved [OF ok no(1) r(2)] by blast
    then have "?h = h" by (simp add: accept_def send_refused_def)
    then show ?thesis using ok f ne r(2) by (auto simp: slot_ok_def reserve_ok_def)
  qed (simp add: reserve_ok_def f)
  moreover have "opener_ok pp k s'" using ok f by (simp add: slot_ok_def opener_ok_def)
  moreover have "unarmed s' \<longrightarrow> Trigger (sid s') \<in> set pp" using ok f no(2) by (auto simp: slot_ok_def)
  ultimately show ?thesis using cnt inv' unfolding slot_ok_def by blast
qed

lemma datas_head: "req_data r = Some (p, rs) \<Longrightarrow> datas (r # pp) = rs # datas pp"
  by simp

lemma send_runs:
  assumes inv: "run_inv h (r # pp) ss sl" and r: "req_data r = Some (p, rs)" "req_id r = Some (rs_id rs)"
    and pp: "pipe ss = pp" and low: "p = PRIORITY_LOW \<Longrightarrow> r = SendLow rs"
    and k: "HASH_ID (rs_id rs) = k"
  shows "\<exists>r0 ss' s1 s'. send_socket rs p ua ss (sl k) = Some (r0, ss', s1)
     \<and> (if counted r then dec_sending_ref (rs_id rs) s1 else Some s1) = Some s'
     \<and> run_inv (accept p rs ss (sl k) h) pp ss' (sl(k := s')) \<and> pipe ss' = pp"
proof -
  let ?s = "sl k"
  have bo: "blocks_ok (r # pp) ss sl" and all: "\<And>l. slot_ok h (r # pp) ss l (sl l)"
    using inv by (auto simp: run_inv_def)
  note dh = datas_head [OF r(1), of pp]
  have rin: "rs \<in> set (datas (r # pp))" unfolding dh by simp
  then obtain m where bs: "req_bytes ss rs = Some m" using bo unfolding blocks_ok_def by blast
  have fr: "req_block ss rs \<notin> sblocks ss (sl l)" for l using bo rin unfolding blocks_ok_def by blast
  have mo: "mem_ok ss" using bo by (simp add: blocks_ok_def)
  obtain hi lo where si: "socket_inv ss ?s hi lo" "stream_ok (log_of h k ?s) ?s hi lo"
    using all [of k] by (auto simp: slot_ok_def)
  have no: "\<not> opener r" using r by (cases r) auto
  have lo: "p = PRIORITY_LOW \<Longrightarrow> low_object_ok ss rs" using bo low by (auto simp: blocks_ok_def)
  have rf: "send_refused ?s (rs_id rs)" if "stype ?s = SOCKET_TYPE_RESERVE"
    using not_reserved [OF all no r(2) that] by (simp add: send_refused_def)
  obtain r0 ss' s1 hi' lo' where run: "send_socket rs p ua ss ?s = Some (r0, ss', s1)"
    and acc: "accepted {req_block ss rs} ss ?s hi' lo' ss' s1"
    and q: "protocol ?s = PROTOCOL_TCP \<longrightarrow> queued (send_refused ?s (rs_id rs)) p m hi lo hi' lo'"
    using send_socket_run [OF si(1) mo bs fr lo rf, where ua = ua] by blast
  have conf: "confined {req_block ss rs} ss ?s ss' s1" using acc by (simp add: accepted_def)
  have f1: "sid s1 = sid ?s" "protocol s1 = protocol ?s" "sending s1 = sending ?s"
    using acc by (auto simp: accepted_def confined_def)
  have c1: "count_ok (r # pp) k s1" using all [of k] f1 by (simp add: slot_ok_def count_ok_def)
  obtain s' where s': "(if counted r then dec_sending_ref (rs_id rs) s1 else Some s1) = Some s'"
    and cnt: "count_ok pp k s'" and ex: "\<exists>x. s' = s1\<lparr>sending := x\<rparr>"
  proof (cases "counted r")
    case True
    show ?thesis using dec_sending_ok [OF c1 True r(2) k] True that by auto
  next
    case False
    have "count_ok pp k s1" using c1 False by (simp add: count_ok_def)
    moreover have "s1 = s1\<lparr>sending := sending s1\<rparr>" by simp
    ultimately show ?thesis using False that by metis
  qed
  obtain x where x: "s' = s1\<lparr>sending := x\<rparr>" using ex by blast
  have ok': "slot_ok (accept p rs ss ?s h) pp ss' k s'"
    by (rule accepted_slot_ok [OF all r k bs si acc q x cnt])
  have "confined {} ss' s1 ss' s'"
    by (rule confined_same) (use conf x in \<open>simp_all add: same_data_def confined_def\<close>)
  then have conf': "confined {req_block ss rs} ss ?s ss' s'" by (rule confined_trans [OF conf])
  have "run_inv (accept p rs ss ?s h) pp ss' (sl(k := s'))"
  proof (rule run_inv_update [OF bo _ conf'])
    fix l assume l: "l \<noteq> k"
    have "slot_ok h pp ss l (sl l)" by (rule slot_ok_pop [OF all]) (use r(2) k l in auto)
    then show "slot_ok (accept p rs ss ?s h) pp ss l (sl l)"
      using slot_ok_log k l by (simp add: accept_def)
  next
    show "slot_ok (accept p rs ss ?s h) pp ss' k s'" by (rule ok')
    show "\<And>b. b \<in> sblocks ss ?s \<Longrightarrow> mem ss b \<noteq> None" using slot_ok_inv all by blast
    show "\<And>b. b \<in> {req_block ss rs} \<Longrightarrow> mem ss b \<noteq> None" using req_block_live [OF bs] by simp
    show "\<And>l b. l \<noteq> k \<Longrightarrow> b \<in> {req_block ss rs} \<Longrightarrow> b \<notin> sblocks ss (sl l)" using fr by simp
    have "distinct (map (req_block ss) (datas (r # pp)))" using bo unfolding blocks_ok_def by blast
    then have d: "req_block ss rs \<notin> req_block ss ` set (datas pp)" "distinct (map (req_block ss) (datas pp))"
      unfolding dh by simp_all
    show "\<And>rs'. rs' \<in> set (datas pp) \<Longrightarrow> req_block ss rs' \<notin> {req_block ss rs}"
      using d(1) by (metis image_eqI singletonD)
    show "distinct (map (req_block ss) (datas pp))" by (rule d(2))
    show "set (datas pp) \<subseteq> set (datas (r # pp))" by auto
    show "\<And>rs. SendLow rs \<in> set pp \<Longrightarrow> low_object_ok ss rs" using bo by (auto simp: blocks_ok_def)
  qed
  moreover have "pipe ss' = pp" using conf pp by (auto simp: confined_def core_same_def)
  ultimately show ?thesis using run s' by blast
qed

text \<open>A slot that holds no block is filled for the id \<open>i\<close>.\<close>

lemma filled_runs:
  assumes bo: "blocks_ok pp ss sl" and other: "\<And>l. l \<noteq> k \<Longrightarrow> slot_ok h pp ss l (sl l)"
    and em: "sblocks ss (sl k) = {}" and k: "HASH_ID i = k" and log: "h i = []"
    and rq: "\<forall>r\<in>set (reqs_of i pp). \<not> opener r \<and> \<not> counted r"
    and op: "\<And>r j. r \<in> set pp \<Longrightarrow> opener r \<Longrightarrow> req_id r = Some j \<Longrightarrow> HASH_ID j = k \<Longrightarrow> j = i"
    and fl: "filled i ss ss' s'" and nr: "stype s' \<noteq> SOCKET_TYPE_RESERVE"
    and un: "protocol s' = PROTOCOL_UNKNOWN \<longrightarrow> stype s' = SOCKET_TYPE_INVALID"
  shows "run_inv h pp ss' (sl(k := s'))"
proof -
  have sm: "same_mem ss ss'" and e: "nodes s' = Map.empty" "dw_buffer s' = None" "direct s' = None" "sid s' = i"
    using fl by (auto simp: filled_def)
  have sb: "sblocks ss' s' = {}" using e by (simp add: sblocks_def held_def blocks_in_def)
  have cs: "core_same ss ss'" "mem ss' = mem ss" "brk ss' = brk ss"
    using sm by (simp_all add: same_mem_def)
  have slot': "slot_ok h pp ss' k s'"
    unfolding slot_ok_def
  proof (intro conjI)
    have lg: "log_of h k s' = []" using e(4) k log by (simp add: log_of_def)
    have "stream_ok (log_of h k s') s' [] []"
    proof (cases "protocol s' = PROTOCOL_TCP")
      case True
      then have "out s' = []" using fl by (auto simp: filled_def)
      then show ?thesis unfolding lg
        by (cases "stype s' = SOCKET_TYPE_INVALID")
          (auto intro: stream_closedI [of s' "[]" "[]"] stream_openI [of s' "[]"])
    qed (simp add: stream_ok_def)
    then show "\<exists>hi lo. socket_inv ss' s' hi lo \<and> stream_ok (log_of h k s') s' hi lo"
      using filled_inv [OF fl nr] by blast
    show "slot_flags k s'" using e k by (simp add: slot_flags_def)
    have "filter counted (reqs_of i pp) = []" using rq by (simp add: filter_empty_conv)
    then have "counted_of i pp = 0" by (simp add: counted_of_def)
    then show "count_ok pp k s'"
      using fl un e(4) by (auto simp: count_ok_def filled_def)
    show "reserve_ok h pp s'" using nr by (simp add: reserve_ok_def)
    show "opener_ok pp k s'"
      unfolding opener_ok_def
    proof (intro ballI allI impI)
      fix r' j assume a: "r' \<in> set pp" "opener r'" "req_id r' = Some j" "HASH_ID j = k"
      then have "r' \<in> set (reqs_of i pp)" using op [OF a] by (simp add: reqs_of_def)
      then show "stype s' = SOCKET_TYPE_RESERVE \<and> sid s' = j" using rq a(2) by blast
    qed
    show "unarmed s' \<longrightarrow> Trigger (sid s') \<in> set pp" using e by (simp add: unarmed_def)
  qed
  have "soi ss' = soi ss" using cs(1) by (simp add: core_same_def)
  note sbl = sblocks_soi [OF this] and rqb = req_soi [OF this] and lob = low_object_soi [OF this]
  have rqe: "req_block ss' = req_block ss" by (rule ext) (rule rqb)
  have rqbs: "req_bytes ss' rs = req_bytes ss rs" for rs
    using req_bytes_frame [OF \<open>soi ss' = soi ss\<close>, of rs] cs(2) by simp
  have sl': "sblocks ss' ((sl(k := s')) l) = sblocks ss (sl l)" for l
    using sb em sbl by simp
  have "blocks_ok pp ss' (sl(k := s'))"
    using bo mem_ok_same [OF sm] cs(1) unfolding blocks_ok_def sl' rqe rqbs lob by (simp add: core_same_def)
  moreover have "slot_ok h pp ss' l (sl l)" if "l \<noteq> k" for l
    by (rule slot_ok_frame [OF other [OF that]]) (use cs in \<open>simp_all add: core_same_def\<close>)
  ultimately show ?thesis using slot' by (simp add: run_inv_def)
qed

lemma sblocks_idle: "socket_inv ss s hi lo \<Longrightarrow> stype s \<in> idle_types \<Longrightarrow> sblocks ss s = {}"
  using socket_invD(4) by (simp add: sblocks_def held_def blocks_in_def)

text \<open>A request that opens a socket.\<close>

lemma opens_runs:
  assumes inv: "run_inv h (r # pp) ss sl" and r: "opener r" "req_id r = Some i" and pp: "pipe ss = pp"
    and k: "HASH_ID i = k"
    and op: "\<And>hi lo. socket_inv ss (sl k) hi lo \<Longrightarrow> stype (sl k) = SOCKET_TYPE_RESERVE \<Longrightarrow> sid (sl k) = i
      \<Longrightarrow> protocol (sl k) = PROTOCOL_UNKNOWN \<Longrightarrow> opens i ss (sl k) x"
  shows "\<exists>r0 ss' s'. x = Some (r0, ss', s') \<and> run_inv h pp ss' (sl(k := s')) \<and> pipe ss' = pp"
proof -
  let ?s = "sl k"
  have bo: "blocks_ok (r # pp) ss sl" and all: "\<And>l. slot_ok h (r # pp) ss l (sl l)"
    using inv by (auto simp: run_inv_def)
  have ty: "stype ?s = SOCKET_TYPE_RESERVE" "sid ?s = i"
    using all [of k] r k by (auto simp: slot_ok_def opener_ok_def)
  have res: "protocol ?s = PROTOCOL_UNKNOWN" "h i = []" "\<forall>r'\<in>set (reqs_of i pp). \<not> opener r' \<and> \<not> counted r'"
    using all [of k] ty r by (auto simp: slot_ok_def reserve_ok_def)
  obtain hi lo where si: "socket_inv ss ?s hi lo" using all [of k] by (auto simp: slot_ok_def)
  obtain r0 ss' s' where x: "x = Some (r0, ss', s')" and fl: "filled i ss ss' s'"
    and nr: "stype s' \<noteq> SOCKET_TYPE_RESERVE" and un: "protocol s' = PROTOCOL_UNKNOWN \<longrightarrow> stype s' = SOCKET_TYPE_INVALID"
    using op [OF si ty res(1)] by (auto simp: opens_def)
  have dh: "datas (r # pp) = datas pp" using opener_data [OF r(1)] by simp
  have "run_inv h pp ss' (sl(k := s'))"
  proof (rule filled_runs [where i = i and ss = ss])
    show "HASH_ID i = k" "h i = []" "\<forall>r'\<in>set (reqs_of i pp). \<not> opener r' \<and> \<not> counted r'"
      "filled i ss ss' s'" "stype s' \<noteq> SOCKET_TYPE_RESERVE"
      "protocol s' = PROTOCOL_UNKNOWN \<longrightarrow> stype s' = SOCKET_TYPE_INVALID"
      by (fact k res fl nr un)+
    show "blocks_ok pp ss sl" using bo unfolding blocks_ok_def dh by simp
    show "\<And>l. l \<noteq> k \<Longrightarrow> slot_ok h pp ss l (sl l)"
      by (rule slot_ok_pop [OF all]) (use r k in auto)
    show "sblocks ss ?s = {}" by (rule sblocks_idle [OF si]) (simp add: ty idle_types_def)
    show "\<And>r' j. r' \<in> set pp \<Longrightarrow> opener r' \<Longrightarrow> req_id r' = Some j \<Longrightarrow> HASH_ID j = k \<Longrightarrow> j = i"
      using all [of k] ty(2) by (auto simp: slot_ok_def opener_ok_def)
  qed
  moreover have "pipe ss' = pp" using fl pp by (simp add: filled_def same_mem_def core_same_def)
  ultimately show ?thesis using x by blast
qed

text \<open>Any other request.\<close>

lemma plain_runs:
  assumes inv: "run_inv h (r # pp) ss sl" and r: "\<not> opener r" "req_data r = None" "req_id r = Some i"
    and pp: "pipe ss = pp" and k: "HASH_ID i = k"
    and step: "\<And>hi lo. socket_inv ss (sl k) hi lo \<Longrightarrow> mem_ok ss
      \<Longrightarrow> (stype (sl k) = SOCKET_TYPE_RESERVE \<Longrightarrow> sid (sl k) \<noteq> i) \<Longrightarrow>
      run_ok (direct (sl k) \<noteq> None) x (\<lambda>(r0, ss', s'). step_ok ss (sl k) hi lo ss' s'
        \<and> (r = Trigger i \<longrightarrow> sid (sl k) = i \<longrightarrow> \<not> unarmed s'))"
  shows "runs h pp sl k x"
proof -
  have bo: "blocks_ok (r # pp) ss sl" and all: "\<And>l. slot_ok h (r # pp) ss l (sl l)"
    using inv by (auto simp: run_inv_def)
  have mo: "mem_ok ss" using bo by (simp add: blocks_ok_def)
  have nc: "\<not> counted r" using r(2) counted_data by fastforce
  have nr: "sid (sl k) \<noteq> i" if "stype (sl k) = SOCKET_TYPE_RESERVE"
    by (rule not_reserved [OF all r(1,3) that])
  show ?thesis
  proof (rule step_runs [OF bo all])
    fix l assume "l \<noteq> k"
    then show "slot_ok h pp ss l (sl l)" using slot_ok_pop [OF all] r(3) k by auto
  next
    fix hi lo assume si: "socket_inv ss (sl k) hi lo"
    show "run_ok (direct (sl k) \<noteq> None) x (\<lambda>(r0, ss', s'). step_ok ss (sl k) hi lo ss' s'
        \<and> (r = Trigger i \<longrightarrow> sid (sl k) = i \<longrightarrow> \<not> unarmed s'))"
      by (rule step [OF si mo nr])
  next
    show "counted_of (sid (sl k)) pp = counted_of (sid (sl k)) (r # pp)" using nc by simp
    show "stype (sl k) = SOCKET_TYPE_RESERVE \<Longrightarrow> reqs_of (sid (sl k)) pp = reqs_of (sid (sl k)) (r # pp)"
      using nr r(3) by auto
    show "datas pp = datas (r # pp)" using r(2) by simp
    show "pipe ss = pp" by (rule pp)
  next
    fix s' assume "r = Trigger i \<longrightarrow> sid (sl k) = i \<longrightarrow> \<not> unarmed s'" "unarmed s'"
      "Trigger (sid (sl k)) \<in> set (r # pp)"
    then show "Trigger (sid (sl k)) \<in> set pp" using r(3) by auto
  qed auto
qed

definition srv_inv :: "(u32 \<Rightarrow> accepted_log) \<Rightarrow> server \<Rightarrow> bool" where
  "srv_inv h sv = run_inv h (pipe (core sv)) (core sv) (slot sv)"

definition log_request :: "request \<Rightarrow> server \<Rightarrow> (u32 \<Rightarrow> accepted_log) \<Rightarrow> (u32 \<Rightarrow> accepted_log)" where
  "log_request r sv h = (case req_data r of None \<Rightarrow> h
     | Some (p, rs) \<Rightarrow> accept p rs (core sv) (slot sv (HASH_ID (rs_id rs))) h)"

lemma on_socket_runs:
  assumes "runs h pp (slot sv) (HASH_ID i) (f (core sv) (slot sv (HASH_ID i)))"
  shows "run_ok (direct (slot sv (HASH_ID i)) \<noteq> None) (on_socket i f sv) (\<lambda>(r, sv'). srv_inv h sv')"
proof -
  note run = assms [unfolded runs_def]
  show ?thesis unfolding on_socket_def
    by (rule run_ok_bind [OF run]) (auto simp: srv_inv_def put_socket_def)
qed

lemma run_ok_exI: "\<exists>r ss' s'. x = Some (r, ss', s') \<and> P r ss' s' \<Longrightarrow> run_ok b x (\<lambda>(r, ss', s'). P r ss' s')"
  by auto

lemma on_socket_opens:
  assumes "\<exists>r0 ss' s'. f (core sv) (slot sv (HASH_ID i)) = Some (r0, ss', s')
     \<and> run_inv h pp ss' ((slot sv)(HASH_ID i := s')) \<and> pipe ss' = pp"
  shows "run_ok b (on_socket i f sv) (\<lambda>(r, sv'). srv_inv h sv')"
  using assms by (auto simp: on_socket_def srv_inv_def put_socket_def)

lemma step_only:
  assumes "\<exists>r ss' s'. x = Some (r, ss', s') \<and> step_ok ss s hi lo ss' s'" "r0 \<noteq> Trigger i"
  shows "run_ok b x (\<lambda>(r, ss', s'). step_ok ss s hi lo ss' s' \<and> (r0 = Trigger i \<longrightarrow> c \<longrightarrow> \<not> unarmed s'))"
  using assms by auto

lemma step_only_run:
  assumes "run_ok b x (\<lambda>(r, ss', s'). step_ok ss s hi lo ss' s')" "r0 \<noteq> Trigger i"
  shows "run_ok b x (\<lambda>(r, ss', s'). step_ok ss s hi lo ss' s' \<and> (r0 = Trigger i \<longrightarrow> c \<longrightarrow> \<not> unarmed s'))"
  by (rule run_ok_mono [OF assms(1)]) (use assms(2) in auto)

lemma run_inv_pop:
  assumes inv: "run_inv h (r # pp) ss sl" and r: "req_id r = None"
  shows "run_inv h pp ss sl"
proof -
  have "req_data r = None" using r by (cases r) auto
  then have "blocks_ok pp ss sl" using inv by (simp add: run_inv_def blocks_ok_def)
  moreover have "slot_ok h pp ss l (sl l)" for l
    by (rule slot_ok_pop [of _ r]) (use inv r in \<open>auto simp: run_inv_def\<close>)
  ultimately show ?thesis by (simp add: run_inv_def)
qed

lemma dispatch_ok:
  assumes inv: "run_inv h (r # pp) (core sv) (slot sv)" and pp: "pipe (core sv) = pp"
  shows "run_ok (\<exists>i. req_id r = Some i \<and> direct (slot sv (HASH_ID i)) \<noteq> None)
     (dispatch_request r sv) (\<lambda>(r0, sv'). srv_inv (log_request r sv h) sv')"
proof -
  have plain: "run_ok (\<exists>j. req_id r = Some j \<and> direct (slot sv (HASH_ID j)) \<noteq> None)
      (on_socket i f sv) (\<lambda>(r0, sv'). srv_inv (log_request r sv h) sv')"
    if "\<not> opener r" "req_data r = None" "req_id r = Some i"
      "\<And>hi lo. socket_inv (core sv) (slot sv (HASH_ID i)) hi lo \<Longrightarrow> mem_ok (core sv)
        \<Longrightarrow> (stype (slot sv (HASH_ID i)) = SOCKET_TYPE_RESERVE \<Longrightarrow> sid (slot sv (HASH_ID i)) \<noteq> i) \<Longrightarrow>
        run_ok (direct (slot sv (HASH_ID i)) \<noteq> None) (f (core sv) (slot sv (HASH_ID i)))
          (\<lambda>(r0, ss', s'). step_ok (core sv) (slot sv (HASH_ID i)) hi lo ss' s'
            \<and> (r = Trigger i \<longrightarrow> sid (slot sv (HASH_ID i)) = i \<longrightarrow> \<not> unarmed s'))"
    for i f
  proof -
    have "runs h pp (slot sv) (HASH_ID i) (f (core sv) (slot sv (HASH_ID i)))"
      by (rule plain_runs [OF inv that(1-3) pp refl]) (rule that(4))
    from on_socket_runs [where h = h and pp = pp and f = f and sv = sv and i = i, OF this] show ?thesis using that(2,3) by (simp add: log_request_def)
  qed
  have opens: "run_ok b (on_socket i f sv) (\<lambda>(r0, sv'). srv_inv (log_request r sv h) sv')"
    if "opener r" "req_id r = Some i"
      "\<And>hi lo. socket_inv (core sv) (slot sv (HASH_ID i)) hi lo \<Longrightarrow>
        stype (slot sv (HASH_ID i)) = SOCKET_TYPE_RESERVE \<Longrightarrow> sid (slot sv (HASH_ID i)) = i
        \<Longrightarrow> protocol (slot sv (HASH_ID i)) = PROTOCOL_UNKNOWN
        \<Longrightarrow> opens i (core sv) (slot sv (HASH_ID i)) (f (core sv) (slot sv (HASH_ID i)))" for i f b
  proof -
    note op = opens_runs [OF inv that(1,2) pp refl]
    have "\<exists>r0 ss' s'. f (core sv) (slot sv (HASH_ID i)) = Some (r0, ss', s')
        \<and> run_inv h pp ss' ((slot sv)(HASH_ID i := s')) \<and> pipe ss' = pp"
      by (rule op) (rule that(3))
    from on_socket_opens [where h = h and pp = pp and f = f and sv = sv and i = i, OF this]
    show ?thesis using opener_data [OF that(1)] by (simp add: log_request_def)
  qed
  show ?thesis
  proof (cases r)
    case (Resume i opq)
    have "dispatch_request r sv = on_socket i (resume_socket i opq) sv" using Resume by (simp add: dispatch_request_def)
    then show ?thesis
      by (simp only:, intro plain, simp add: Resume, simp add: Resume, simp add: Resume, intro step_only [OF resume_socket_run])
        (assumption | blast | simp add: Resume)+
  next
    case (Pause i)
    have "dispatch_request r sv = on_socket i (pause_socket i) sv" using Pause by (simp add: dispatch_request_def)
    then show ?thesis
      by (simp only:, intro plain, simp add: Pause, simp add: Pause, simp add: Pause, intro step_only [OF pause_socket_run])
        (assumption | blast | simp add: Pause)+
  next
    case (Bind i f opq)
    have "dispatch_request r sv = on_socket i (bind_socket i f opq) sv" using Bind by (simp add: dispatch_request_def)
    then show ?thesis
      by (simp only:, intro opens, simp add: Bind, simp add: Bind, intro bind_socket_opens) (assumption | simp add: Bind)+
  next
    case (Listen i f opq)
    have "dispatch_request r sv = on_socket i (listen_socket i f opq) sv" using Listen by (simp add: dispatch_request_def)
    then show ?thesis
      by (simp only:, intro opens, simp add: Listen, simp add: Listen, intro listen_socket_opens) (assumption | simp add: Listen)+
  next
    case (Close i shutdown opq)
    have "dispatch_request r sv = on_socket i (close_socket i shutdown) sv" using Close by (simp add: dispatch_request_def)
    then show ?thesis
      by (simp only:, intro plain, simp add: Close, simp add: Close, simp add: Close, intro step_only_run [OF close_socket_run])
        (assumption | blast | simp add: Close)+
  next
    case (Open i opq host port)
    have "dispatch_request r sv = on_socket i (open_socket i opq) sv" using Open by (simp add: dispatch_request_def)
    then show ?thesis
      by (simp only:, intro opens, simp add: Open, simp add: Open, intro open_socket_opens) (assumption | simp add: Open)+
  next
    case Exit
    let ?ss = "(core sv)\<lparr>result := \<lparr>m_id = 0, m_opaque = 0, m_ud = 0, m_data = NULL\<rparr>\<rparr>"
    have "run_inv h pp ?ss (slot sv)"
      by (rule run_inv_core [OF run_inv_pop [OF inv]]) (simp_all add: Exit)
    then show ?thesis using Exit pp by (simp add: dispatch_request_def srv_inv_def log_request_def)
  next
    case (Trigger i)
    let ?s = "slot sv (HASH_ID i)"
    have e: "dispatch_request r sv = on_socket i (trigger_write i) sv" using Trigger by (simp add: dispatch_request_def)
    have "run_ok b (trigger_write i (core sv) ?s) (\<lambda>(r0, ss', s'). step_ok (core sv) ?s hi lo ss' s'
        \<and> (r = Trigger i \<longrightarrow> sid ?s = i \<longrightarrow> \<not> unarmed s'))"
      if si: "socket_inv (core sv) ?s hi lo" and mo: "mem_ok (core sv)" for b hi lo
    proof -
      obtain r0 ss' s' where t: "trigger_write i (core sv) ?s = Some (r0, ss', s')"
        "step_ok (core sv) ?s hi lo ss' s'" "socket_invalid ?s i \<or> writing s'"
        using trigger_write_run [OF si mo] by blast
      have "\<not> unarmed s'" if "sid ?s = i"
      proof
        assume u: "unarmed s'"
        then have "unarmed ?s" using t(2) unfolding step_ok_def by blast
        then have "stype ?s \<noteq> SOCKET_TYPE_INVALID" using unarmed_busy [OF si] by (auto simp: idle_types_def)
        then have "writing s'" using t(3) that by (simp add: socket_invalid_def)
        then show False using u by (simp add: unarmed_def)
      qed
      then show ?thesis using t by simp
    qed
    note t = this
    show ?thesis unfolding e
      by (intro plain, simp add: Trigger, simp add: Trigger, simp add: Trigger, intro t)
  next
    case (SendHigh rs)
    show ?thesis
      using send_runs [OF inv, of PRIORITY_HIGH rs "HASH_ID (rs_id rs)" None] pp SendHigh
      by (auto simp: dispatch_request_def on_socket_def put_socket_def srv_inv_def log_request_def)
  next
    case (SendLow rs)
    show ?thesis
      using send_runs [OF inv, of PRIORITY_LOW rs "HASH_ID (rs_id rs)" None] pp SendLow
      by (auto simp: dispatch_request_def on_socket_def put_socket_def srv_inv_def log_request_def)
  next
    case (SendUdp rs address)
    show ?thesis
      using send_runs [OF inv, of PRIORITY_HIGH rs "HASH_ID (rs_id rs)" "Some address"] pp SendUdp
      by (auto simp: dispatch_request_def on_socket_def put_socket_def srv_inv_def log_request_def)
  next
    case (SetUdp i address)
    have "dispatch_request r sv = on_socket i (set_udp_address i address) sv" using SetUdp by (simp add: dispatch_request_def)
    then show ?thesis
      by (simp only:, intro plain, simp add: SetUdp, simp add: SetUdp, simp add: SetUdp, intro step_only [OF set_udp_address_run])
        (assumption | blast | simp add: SetUdp)+
  next
    case (SetOpt i what val)
    have "dispatch_request r sv = on_socket i (setopt_socket i what val) sv" using SetOpt by (simp add: dispatch_request_def)
    then show ?thesis
      by (simp only:, intro plain, simp add: SetOpt, simp add: SetOpt, simp add: SetOpt, intro step_only [OF setopt_socket_run])
        (assumption | blast | simp add: SetOpt)+
  next
    case (Udp i f inet6 opq)
    have "dispatch_request r sv = on_socket i (add_udp_socket i f inet6 opq) sv" using Udp by (simp add: dispatch_request_def)
    then show ?thesis
      by (simp only:, intro opens, simp add: Udp, simp add: Udp, intro add_udp_socket_opens) (assumption | simp add: Udp)+
  qed
qed

section \<open>Readiness events\<close>

lemma on_slot_runs:
  assumes inv: "srv_inv h sv"
    and step: "\<And>hi lo. socket_inv (core sv) (slot sv k) hi lo \<Longrightarrow> mem_ok (core sv) \<Longrightarrow>
      run_ok (direct (slot sv k) \<noteq> None) (f (core sv) (slot sv k))
        (\<lambda>(r, ss', s'). step_ok (core sv) (slot sv k) hi lo ss' s')"
  shows "run_ok (direct (slot sv k) \<noteq> None) (on_slot k f sv) (\<lambda>(r, sv'). srv_inv h sv')"
proof -
  let ?pp = "pipe (core sv)"
  have bo: "blocks_ok ?pp (core sv) (slot sv)" and all: "\<And>l. slot_ok h ?pp (core sv) l (slot sv l)"
    using inv by (auto simp: srv_inv_def run_inv_def)
  have mo: "mem_ok (core sv)" using bo by (simp add: blocks_ok_def)
  have "runs h ?pp (slot sv) k (f (core sv) (slot sv k))"
    by (rule step_runs [where Q = "\<lambda>s. True", OF bo all all])
      (use step [OF _ mo] in auto)
  note run = this [unfolded runs_def]
  show ?thesis unfolding on_slot_def
    by (rule run_ok_bind [OF run]) (auto simp: srv_inv_def put_socket_def)
qed

lemma srv_inv_events:
  assumes "srv_inv h sv" "mem ss = mem (core sv)" "soi ss = soi (core sv)" "brk ss = brk (core sv)"
    "pipe ss = pipe (core sv)" "event_index ss \<le> length (ev ss)"
  shows "srv_inv h (sv\<lparr>core := ss\<rparr>)"
  using run_inv_events [of h "pipe (core sv)" "core sv" "slot sv" ss] assms by (simp add: srv_inv_def)

lemma srv_inv_core:
  assumes "srv_inv h sv" "mem ss = mem (core sv)" "soi ss = soi (core sv)" "brk ss = brk (core sv)"
    "pipe ss = pipe (core sv)" "event_index ss = event_index (core sv)" "ev ss = ev (core sv)"
  shows "srv_inv h (sv\<lparr>core := ss\<rparr>)"
  using run_inv_core [of h "pipe (core sv)" "core sv" "slot sv" ss] assms by (simp add: srv_inv_def)

lemma srv_inv_index: "srv_inv h sv \<Longrightarrow> event_index (core sv) \<le> length (ev (core sv))"
  by (simp add: srv_inv_def run_inv_def blocks_ok_def)

lemma step_back_inv: "srv_inv h sv \<Longrightarrow> srv_inv h (step_back e sv)"
  unfolding step_back_def by (rule srv_inv_events) (use srv_inv_index in fastforce)+

lemma read_event_runs:
  assumes inv: "srv_inv h sv" and ty: "stype (slot sv k) \<noteq> SOCKET_TYPE_RESERVE" "stype (slot sv k) \<noteq> SOCKET_TYPE_INVALID"
  shows "run_ok (direct (slot sv k) \<noteq> None) (read_event e k sv) (\<lambda>(r, sv'). srv_inv h sv')"
proof -
  have os: "run_ok (direct (slot sv k) \<noteq> None)
      (on_slot k (if protocol (slot sv k) = PROTOCOL_TCP then forward_message_tcp else forward_message_udp) sv)
      (\<lambda>(r, sv'). srv_inv h sv')"
    by (rule on_slot_runs [OF inv]) (use forward_message_tcp_run forward_message_udp_run ty in auto)
  show ?thesis
    unfolding read_event_def Let_def
    by (rule run_ok_bind [OF os]) (auto intro: step_back_inv)
qed

text \<open>A new id: no request carries it and nothing was accepted for it.\<close>

definition fresh_id :: "(u32 \<Rightarrow> accepted_log) \<Rightarrow> server \<Rightarrow> bool" where
  "fresh_id h sv \<longleftrightarrow> (case fst (reserve_id sv) of None \<Rightarrow> True
     | Some i \<Rightarrow> h i = [] \<and> reqs_of i (pipe (core sv)) = [])"

lemma reserve_loop_cong:
  "alloc_id (core sv') = alloc_id (core sv) \<Longrightarrow> slot sv' = slot sv \<Longrightarrow> fst (reserve_loop k sv') = fst (reserve_loop k sv)"
proof (induction k arbitrary: sv sv')
  case (Suc k)
  obtain i where i: "next_id (alloc_id (core sv)) = (i, i)" by (rule next_id_cases)
  let ?f = "\<lambda>sv. sv\<lparr>core := (core sv)\<lparr>alloc_id := i\<rparr>\<rparr>"
  have "fst (reserve_loop k (?f sv')) = fst (reserve_loop k (?f sv))"
    by (rule Suc.IH) (simp_all add: Suc.prems)
  then show ?case using i Suc.prems by (simp add: Let_def)
qed simp

lemma fresh_id_cong:
  "alloc_id (core sv') = alloc_id (core sv) \<Longrightarrow> slot sv' = slot sv \<Longrightarrow> pipe (core sv') = pipe (core sv)
    \<Longrightarrow> fresh_id h sv' = fresh_id h sv"
  using reserve_loop_cong [of sv' sv MAX_SOCKET]
  by (simp add: fresh_id_def reserve_id_def split: option.split)

lemma slot_core_upd: "sv\<lparr>slot := a, core := b\<rparr> = sv\<lparr>core := b, slot := a\<rparr>"
  by simp

lemma reserved_inv:
  assumes "socket_inv ss s hi lo" "stype s = SOCKET_TYPE_INVALID"
  shows "socket_inv ss (reserved i s) [] []"
  using assms socket_invD(3-5) [OF assms(1)]
  by (simp add: socket_inv_def socket_flags_def reserved_def idle_types_def)

lemma reserve_inv:
  assumes inv: "srv_inv h sv" and fr: "fresh_id h sv"
  obtains (none) a where "reserve_id sv = (None, sv\<lparr>core := (core sv)\<lparr>alloc_id := a\<rparr>\<rparr>)"
      "srv_inv h (sv\<lparr>core := (core sv)\<lparr>alloc_id := a\<rparr>\<rparr>)"
  | (some) i where "reserve_id sv = (Some i, sv\<lparr>core := (core sv)\<lparr>alloc_id := i\<rparr>,
        slot := (slot sv)(HASH_ID i := reserved i (slot sv (HASH_ID i)))\<rparr>)"
      "stype (slot sv (HASH_ID i)) = SOCKET_TYPE_INVALID"
      "srv_inv h (sv\<lparr>core := (core sv)\<lparr>alloc_id := i\<rparr>\<rparr>)" "h i = []" "reqs_of i (pipe (core sv)) = []"
proof -
  have al: "srv_inv h (sv\<lparr>core := (core sv)\<lparr>alloc_id := a\<rparr>\<rparr>)" for a
    by (rule srv_inv_core [OF inv]) simp_all
  show ?thesis
  proof (rule reserve_id_cases [of sv])
    fix a assume "reserve_id sv = (None, sv\<lparr>core := (core sv)\<lparr>alloc_id := a\<rparr>\<rparr>)"
    then show ?thesis using none al by blast
  next
    fix i assume h: "reserve_id sv = (Some i, sv\<lparr>core := (core sv)\<lparr>alloc_id := i\<rparr>,
        slot := (slot sv)(HASH_ID i := reserved i (slot sv (HASH_ID i)))\<rparr>)"
      "stype (slot sv (HASH_ID i)) = SOCKET_TYPE_INVALID"
    have "h i = []" "reqs_of i (pipe (core sv)) = []" using fr h(1) by (simp_all add: fresh_id_def)
    then show ?thesis using some h al by blast
  qed
qed

lemma accept_inv:
  assumes inv: "srv_inv h sv" and fr: "fresh_id h sv" and ty: "stype (slot sv k) = SOCKET_TYPE_LISTEN"
  shows "\<exists>ok sv'. report_accept k sv = Some (ok, sv') \<and> srv_inv h sv'"
proof -
  obtain oc ss1 where no: "next_outcome (core sv) = (oc, ss1)" by (metis prod.exhaust)
  have sm: "same_mem (core sv) ss1" by (rule next_outcome_same [OF no])
  have inv1: "srv_inv h (sv\<lparr>core := ss1\<rparr>)"
    by (rule srv_inv_core [OF inv]) (use sm in \<open>simp_all add: same_mem_def core_same_def\<close>)
  have fr1: "fresh_id h (sv\<lparr>core := ss1\<rparr>)"
    using fr fresh_id_cong [of "sv\<lparr>core := ss1\<rparr>" sv h] sm by (simp add: same_mem_def core_same_def)
  show ?thesis
  proof (cases "\<exists>f. oc = Some (Ret f) \<and> 0 \<le> f")
    case False
    have "srv_inv h (sv\<lparr>core := set_result (slot sv k) (Strerror (outcome_errno oc)) ss1\<rparr>)"
      by (rule srv_inv_core [OF inv]) (use sm in \<open>simp_all add: same_mem_def core_same_def set_result_def\<close>)
    then show ?thesis using no False inv1
      by (auto simp: report_accept_def split: option.splits outcome.splits if_splits)
  next
    case True
    then obtain f where f: "oc = Some (Ret f)" "0 \<le> f" by blast
    show ?thesis
    proof (rule reserve_inv [OF inv1 fr1])
      fix a assume h: "reserve_id (sv\<lparr>core := ss1\<rparr>) = (None, (sv\<lparr>core := ss1\<rparr>)\<lparr>core := (core (sv\<lparr>core := ss1\<rparr>))\<lparr>alloc_id := a\<rparr>\<rparr>)"
        "srv_inv h ((sv\<lparr>core := ss1\<rparr>)\<lparr>core := (core (sv\<lparr>core := ss1\<rparr>))\<lparr>alloc_id := a\<rparr>\<rparr>)"
      have "srv_inv h (sv\<lparr>core := close_fd f (ss1\<lparr>alloc_id := a\<rparr>)\<rparr>)"
        by (rule srv_inv_core [OF inv]) (use sm in \<open>simp_all add: same_mem_def core_same_def close_fd_def\<close>)
      then show ?thesis using no f h by (simp add: report_accept_def)
    next
      fix i
      let ?j = "HASH_ID i" and ?ss2 = "ss1\<lparr>alloc_id := i\<rparr>"
      let ?r = "reserved i (slot sv ?j)"
      assume h: "reserve_id (sv\<lparr>core := ss1\<rparr>) = (Some i, (sv\<lparr>core := ss1\<rparr>)\<lparr>core := (core (sv\<lparr>core := ss1\<rparr>))\<lparr>alloc_id := i\<rparr>,
           slot := (slot (sv\<lparr>core := ss1\<rparr>))(?j := reserved i (slot (sv\<lparr>core := ss1\<rparr>) ?j))\<rparr>)"
        "stype (slot (sv\<lparr>core := ss1\<rparr>) ?j) = SOCKET_TYPE_INVALID"
        "srv_inv h ((sv\<lparr>core := ss1\<rparr>)\<lparr>core := (core (sv\<lparr>core := ss1\<rparr>))\<lparr>alloc_id := i\<rparr>\<rparr>)" "h i = []"
        "reqs_of i (pipe (core (sv\<lparr>core := ss1\<rparr>))) = []"
      let ?pp = "pipe ss1"
      have iv: "run_inv h ?pp ?ss2 (slot sv)" using h(3) by (simp add: srv_inv_def)
      have bo: "blocks_ok ?pp ?ss2 (slot sv)" and all: "\<And>l. slot_ok h ?pp ?ss2 l (slot sv l)"
        using iv by (auto simp: run_inv_def)
      obtain hi lo where si: "socket_inv ?ss2 (slot sv ?j) hi lo" using all [of ?j] by (auto simp: slot_ok_def)
      have ri: "socket_inv ?ss2 ?r [] []" by (rule reserved_inv [OF si]) (use h(2) in simp)
      have jk: "?j \<noteq> k" using ty h(2) by auto
      have fillr: "run_inv h ?pp ss' ((slot sv)(?j := s'))"
        if "filled i ?ss2 ss' s'" "stype s' \<noteq> SOCKET_TYPE_RESERVE"
          "protocol s' = PROTOCOL_UNKNOWN \<longrightarrow> stype s' = SOCKET_TYPE_INVALID" for ss' s'
      proof (rule filled_runs [where i = i and ss = ?ss2])
        show "sblocks ?ss2 (slot sv ?j) = {}" by (rule sblocks_idle [OF si]) (use h(2) in \<open>simp add: idle_types_def\<close>)
        show "\<forall>r\<in>set (reqs_of i ?pp). \<not> opener r \<and> \<not> counted r" using h(5) by simp
        show "\<And>r j. r \<in> set ?pp \<Longrightarrow> opener r \<Longrightarrow> req_id r = Some j \<Longrightarrow> HASH_ID j = ?j \<Longrightarrow> j = i"
          using all [of ?j] h(2) by (auto simp: slot_ok_def opener_ok_def)
      qed (use bo all h(4) that in simp_all)
      show ?thesis
      proof (rule new_fd_reserved [OF ri, of i f PROTOCOL_TCP "opaque (slot sv k)" False])
        fix ss3 s3 assume n: "new_fd i f PROTOCOL_TCP (opaque (slot sv k)) False ?ss2 ?r = Some (False, ss3, s3)"
          "filled i ?ss2 ss3 s3" "stype s3 = SOCKET_TYPE_INVALID"
        have pe: "pipe ss3 = ?pp" using n(2) by (simp add: filled_def same_mem_def core_same_def)
        have "run_inv h ?pp (close_fd f ss3) ((slot sv)(?j := s3))"
          by (rule run_inv_core [OF fillr [OF n(2)]]) (use n(3) in \<open>simp_all add: close_fd_def\<close>)
        then have "srv_inv h (put_socket ?j (close_fd f ss3) s3 sv)"
          using pe by (simp add: srv_inv_def put_socket_def close_fd_def)
        then show ?thesis using no f h(1) n(1) jk
          by (simp add: report_accept_def put_socket_def slot_core_upd)
      next
        fix ss3 s3 assume n: "new_fd i f PROTOCOL_TCP (opaque (slot sv k)) False ?ss2 ?r = Some (True, ss3, s3)"
          "filled i ?ss2 ss3 s3" "protocol s3 = PROTOCOL_TCP"
        obtain oc4 ss4 where no4: "next_outcome ss3 = (oc4, ss4)" by (metis prod.exhaust)
        have sm4: "same_mem ss3 ss4" by (rule next_outcome_same [OF no4])
        have pe: "pipe ss4 = ?pp" using n(2) sm4 by (simp add: filled_def same_mem_def core_same_def)
        let ?s3 = "s3\<lparr>stype := SOCKET_TYPE_PACCEPT\<rparr>"
        have fl: "filled i ?ss2 ss4 ?s3"
          by (rule filled_core [OF _ sm4], rule filled_type [OF n(2)]) (simp add: n(3))
        have iv4: "run_inv h ?pp ss4 ((slot sv)(?j := ?s3))" by (rule fillr [OF fl]) (simp_all add: n(3))
        let ?k = "stat_read ss4 (slot sv k) 1"
        let ?ss5 = "ss4\<lparr>result := \<lparr>m_id = sid ?k, m_opaque = opaque ?k, m_ud = sint i, m_data = peer_name oc4\<rparr>\<rparr>"
        let ?sv = "put_socket ?j ss4 ?s3 sv"
        have i4: "srv_inv h ?sv" using iv4 pe by (simp add: srv_inv_def put_socket_def)
        have sk: "slot ?sv k = slot sv k" using jk by (simp add: put_socket_def)
        have "run_ok (direct (slot ?sv k) \<noteq> None) (on_slot k (\<lambda>ss s. Some (SOCKET_ACCEPT, ?ss5, ?k)) ?sv)
            (\<lambda>(r, sv'). srv_inv h sv')"
        proof (rule on_slot_runs [OF i4])
          fix hi lo assume a: "socket_inv (core ?sv) (slot ?sv k) hi lo" "mem_ok (core ?sv)"
          have "step_ok (core ?sv) (slot ?sv k) hi lo ?ss5 ?k"
            by (rule step_same [OF a])
              (use jk jk [symmetric] in
                \<open>simp_all add: sk same_data_def stat_read_def put_socket_def unarmed_def\<close>)
          then show "run_ok (direct (slot ?sv k) \<noteq> None) (Some (SOCKET_ACCEPT, ?ss5, ?k))
              (\<lambda>(r, ss', s'). step_ok (core ?sv) (slot ?sv k) hi lo ss' s')" by simp
        qed
        then have "srv_inv h (put_socket k ?ss5 ?k ?sv)" by (simp add: on_slot_def)
        moreover have "report_accept k sv = Some (1, put_socket k ?ss5 ?k ?sv)"
          using no f h(1) n(1) no4 jk
          by (simp add: report_accept_def put_socket_def Let_def fun_upd_twist slot_core_upd)
        ultimately show ?thesis by blast
      qed (use h in \<open>simp_all add: reserved_def\<close>)
    qed
  qed
qed

lemma event_ok:
  assumes inv: "srv_inv h sv" and fr: "fresh_id h sv"
    and ty: "\<And>k. ev_s e = Some k \<Longrightarrow> stype (slot sv k) \<noteq> SOCKET_TYPE_RESERVE"
  shows "run_ok (\<exists>k. ev_s e = Some k \<and> direct (slot sv k) \<noteq> None)
     (handle_event e sv) (\<lambda>(r, sv'). srv_inv h sv')"
proof (cases "ev_s e")
  case None
  then show ?thesis using inv by (simp add: handle_event_def)
next
  case (Some k)
  have weak: "run_ok (\<exists>k. ev_s e = Some k \<and> direct (slot sv k) \<noteq> None) x P"
    if "run_ok (direct (slot sv k) \<noteq> None) x P" for x and P :: "socket_ret \<times> server \<Rightarrow> bool"
    using that Some by (cases x) (auto simp: run_ok_def)
  have busy: "run_ok (\<exists>k. ev_s e = Some k \<and> direct (slot sv k) \<noteq> None)
     (if ev_read e then read_event e k sv
           else if ev_write e then on_slot k (\<lambda>ss s. send_buffer ss s 0) sv
           else if ev_error e then on_slot k report_event_error sv
           else if ev_eof e then on_slot k eof_event sv
           else Some (SOCKET_NONE, sv)) (\<lambda>(r, sv'). srv_inv h sv')"
    if live: "stype (slot sv k) \<noteq> SOCKET_TYPE_INVALID"
  proof -
    note res = ty [OF Some]
    have 1: "run_ok (direct (slot sv k) \<noteq> None) (on_slot k (\<lambda>ss s. send_buffer ss s 0) sv) (\<lambda>(r, sv'). srv_inv h sv')"
      by (rule on_slot_runs [OF inv], rule run_ok_exI, rule send_buffer_run) (use res live in auto)
    have 2: "run_ok (direct (slot sv k) \<noteq> None) (on_slot k report_event_error sv) (\<lambda>(r, sv'). srv_inv h sv')"
      by (rule on_slot_runs [OF inv], rule run_ok_exI, rule report_event_error_run)
    have 3: "run_ok (direct (slot sv k) \<noteq> None) (on_slot k eof_event sv) (\<lambda>(r, sv'). srv_inv h sv')"
      by (rule on_slot_runs [OF inv], rule eof_event_run) (use res in auto)
    show ?thesis
      using weak [OF 1] weak [OF 2] weak [OF 3] weak [OF read_event_runs [OF inv res live]] inv by simp
  qed
  show ?thesis
  proof (cases "stype (slot sv k)")
    case SOCKET_TYPE_CONNECTING
    have "run_ok (direct (slot sv k) \<noteq> None) (on_slot k report_connect sv) (\<lambda>(r, sv'). srv_inv h sv')"
      by (rule on_slot_runs [OF inv], rule report_connect_run) (use SOCKET_TYPE_CONNECTING in auto)
    from weak [OF this] show ?thesis using Some SOCKET_TYPE_CONNECTING by (simp add: handle_event_def)
  next
    case SOCKET_TYPE_LISTEN
    obtain ok sv' where "report_accept k sv = Some (ok, sv')" "srv_inv h sv'"
      using accept_inv [OF inv fr SOCKET_TYPE_LISTEN] by blast
    then show ?thesis using Some SOCKET_TYPE_LISTEN by (simp add: handle_event_def)
  next
    case SOCKET_TYPE_INVALID
    then show ?thesis using Some inv by (simp add: handle_event_def)
  qed (use busy Some in \<open>simp_all add: handle_event_def\<close>)
qed

section \<open>Requests put into the pipe\<close>

lemma slot_ok_push_other:
  assumes ok: "slot_ok h pp ss l s" and other: "\<And>i. req_id r = Some i \<Longrightarrow> HASH_ID i \<noteq> l"
  shows "slot_ok h (pp @ [r]) ss l s"
proof -
  have c: "counted_of (sid s) (pp @ [r]) = counted_of (sid s) pp" if "HASH_ID (sid s) = l"
    using other that by auto
  have q: "reqs_of (sid s) (pp @ [r]) = reqs_of (sid s) pp" if "stype s = SOCKET_TYPE_RESERVE"
    using other slot_home [OF ok] that by auto
  have "count_ok (pp @ [r]) l s" using ok c by (simp add: slot_ok_def count_ok_def)
  moreover have "reserve_ok h (pp @ [r]) s" using ok q by (simp add: slot_ok_def reserve_ok_def)
  moreover have "opener_ok (pp @ [r]) l s" using ok other by (auto simp: slot_ok_def opener_ok_def)
  ultimately show ?thesis using ok by (auto simp: slot_ok_def)
qed

text \<open>A request that neither opens a socket nor is counted.\<close>

lemma slot_ok_push:
  assumes ok: "slot_ok h pp ss l s" and r: "\<not> opener r" "\<not> counted r"
  shows "slot_ok h (pp @ [r]) ss l s"
proof -
  have "count_ok (pp @ [r]) l s" using ok r by (simp add: slot_ok_def count_ok_def)
  moreover have "reserve_ok h (pp @ [r]) s" using ok r by (auto simp: slot_ok_def reserve_ok_def)
  moreover have "opener_ok (pp @ [r]) l s" using ok r by (auto simp: slot_ok_def opener_ok_def)
  ultimately show ?thesis using ok by (auto simp: slot_ok_def)
qed

definition plain :: "request \<Rightarrow> bool" where
  "plain r \<longleftrightarrow> \<not> opener r \<and> req_data r = None"

lemma plain_not_counted: "plain r \<Longrightarrow> \<not> counted r"
  by (cases r) (simp_all add: plain_def)

lemma run_inv_push:
  assumes inv: "run_inv h pp ss sl" and r: "plain r"
  shows "run_inv h (pp @ [r]) ss sl"
proof -
  have "datas (pp @ [r]) = datas pp" using r by (simp add: plain_def)
  moreover have "SendLow rs \<noteq> r" for rs using r by (auto simp: plain_def)
  ultimately have "blocks_ok (pp @ [r]) ss sl" using inv by (auto simp: run_inv_def blocks_ok_def)
  moreover have "slot_ok h (pp @ [r]) ss l (sl l)" for l
    by (rule slot_ok_push) (use inv r plain_not_counted in \<open>auto simp: run_inv_def plain_def\<close>)
  ultimately show ?thesis by (simp add: run_inv_def)
qed

lemma send_request_inv: "srv_inv h sv \<Longrightarrow> plain r \<Longrightarrow> srv_inv h (send_request r sv)"
  using run_inv_core [OF run_inv_push [of h "pipe (core sv)" "core sv" "slot sv" r]]
  by (simp add: srv_inv_def send_request_def)

text \<open>A request that opens a socket, for the id just reserved.\<close>

lemma open_request_inv:
  assumes inv: "srv_inv h sv" and fr: "fresh_id h sv" and res: "reserve_id sv = (Some i, sv')"
    and r: "opener r" "req_id r = Some i"
  shows "srv_inv h (send_request r sv')"
proof (rule reserve_inv [OF inv fr])
  fix a assume "reserve_id sv = (None, sv\<lparr>core := (core sv)\<lparr>alloc_id := a\<rparr>\<rparr>)"
  then show ?thesis using res by simp
next
  fix i'
  let ?k = "HASH_ID i'" and ?ss = "(core sv)\<lparr>alloc_id := i'\<rparr>" and ?pp = "pipe (core sv)"
  let ?s = "reserved i' (slot sv ?k)"
  let ?sl = "(slot sv)(?k := ?s)"
  assume h: "reserve_id sv = (Some i', sv\<lparr>core := ?ss, slot := (slot sv)(?k := ?s)\<rparr>)"
    "stype (slot sv ?k) = SOCKET_TYPE_INVALID" "srv_inv h (sv\<lparr>core := ?ss\<rparr>)" "h i' = []" "reqs_of i' ?pp = []"
  have i: "i' = i" and sv': "sv' = sv\<lparr>core := ?ss, slot := (slot sv)(?k := ?s)\<rparr>" using h(1) res by auto
  have iv: "run_inv h ?pp ?ss (slot sv)" using h(3) by (simp add: srv_inv_def)
  have bo: "blocks_ok ?pp ?ss (slot sv)" and all: "\<And>l. slot_ok h ?pp ?ss l (slot sv l)"
    using iv by (auto simp: run_inv_def)
  obtain hi lo where si: "socket_inv ?ss (slot sv ?k) hi lo" using all [of ?k] by (auto simp: slot_ok_def)
  have ri: "socket_inv ?ss ?s [] []" by (rule reserved_inv [OF si h(2)])
  have em: "sblocks ?ss (slot sv ?k) = {}" "sblocks ?ss ?s = {}"
    using sblocks_idle [OF si] sblocks_idle [OF ri] h(2) by (simp_all add: idle_types_def reserved_def)
  have sb: "sblocks ?ss (?sl l) = sblocks ?ss (slot sv l)" for l using em by simp
  have d: "datas (?pp @ [r]) = datas ?pp" "SendLow rs \<in> set (?pp @ [r]) \<longleftrightarrow> SendLow rs \<in> set ?pp" for rs
    using r(1) opener_data [OF r(1)] by auto
  have "blocks_ok (?pp @ [r]) ?ss ?sl" using bo unfolding blocks_ok_def d sb .
  moreover have "slot_ok h (?pp @ [r]) ?ss l (?sl l)" if "l \<noteq> ?k" for l
    using slot_ok_push_other [OF all [of l], of r] r(2) i that by auto
  moreover have "slot_ok h (?pp @ [r]) ?ss ?k ?s"
    unfolding slot_ok_def
  proof (intro conjI)
    show "\<exists>hi lo. socket_inv ?ss ?s hi lo \<and> stream_ok (log_of h ?k ?s) ?s hi lo"
      using ri by (auto simp: stream_ok_def reserved_def)
    show "slot_flags ?k ?s"
      using socket_invD(4) [OF si] h(2) by (simp add: slot_flags_def reserved_def idle_types_def)
    show "count_ok (?pp @ [r]) ?k ?s" by (simp add: count_ok_def reserved_def)
    show "reserve_ok h (?pp @ [r]) ?s" using h(4,5) r i by (simp add: reserve_ok_def reserved_def)
    show "opener_ok (?pp @ [r]) ?k ?s"
      using all [of ?k] h(2) r i by (auto simp: slot_ok_def opener_ok_def reserved_def)
    show "unarmed ?s \<longrightarrow> Trigger (sid ?s) \<in> set (?pp @ [r])"
      using socket_invD(4) [OF si] h(2) by (simp add: unarmed_def reserved_def idle_types_def)
  qed
  ultimately have "run_inv h (?pp @ [r]) ?ss ?sl" by (auto simp: run_inv_def)
  then have "run_inv h (?pp @ [r]) (?ss\<lparr>pipe := ?pp @ [r]\<rparr>) ?sl" by (rule run_inv_core) simp_all
  then show ?thesis unfolding sv' by (simp add: srv_inv_def send_request_def)
qed

text \<open>Memory given back, or allocated.\<close>

lemma owned_soi: "soi ss' = soi ss \<Longrightarrow> owned pp ss' sl b = owned pp ss sl b"
  using sblocks_soi [of ss' ss] req_soi [of ss' ss] by (simp add: owned_def)

lemma run_inv_alloc:
  assumes inv: "run_inv h pp ss sl" and ss': "ss' = ss\<lparr>mem := (mem ss)(brk ss := Some bs), brk := brk ss + 1\<rparr>"
  shows "run_inv h pp ss' sl" "\<not> owned pp ss' sl (brk ss)"
proof -
  have mo: "mem_ok ss" using inv by (simp add: run_inv_def blocks_ok_def)
  have nb: "\<not> owned pp ss sl (brk ss)" using owned_live [OF inv] mo by (fastforce simp: mem_ok_def)
  show "run_inv h pp ss' sl"
    by (rule run_inv_frame [OF inv]) (use mo nb run_inv_index [OF inv] in
      \<open>auto simp: ss' mem_ok_def less_SucI split: if_splits\<close>)
  show "\<not> owned pp ss' sl (brk ss)" using nb owned_soi [of ss' ss] by (simp add: ss')
qed

lemma run_inv_free:
  assumes inv: "run_inv h pp ss sl" and b: "\<not> owned pp ss sl b"
    and ss': "ss' = ss \<or> ss' = ss\<lparr>mem := (mem ss)(b := None)\<rparr>"
  shows "run_inv h pp ss' sl"
proof -
  have mo: "mem_ok ss" using inv by (simp add: run_inv_def blocks_ok_def)
  show ?thesis
    by (rule run_inv_frame [OF inv]) (use ss' mo b run_inv_index [OF inv] in
      \<open>auto simp: mem_ok_def split: if_splits\<close>)
qed

text \<open>A request that carries a buffer no slot and no request holds.\<close>

lemma push_data:
  assumes inv: "run_inv h pp ss sl" and r: "req_data r = Some (p, rs)" "req_id r = Some (rs_id rs)"
    and k: "HASH_ID (rs_id rs) = k" and bs: "req_bytes ss rs = Some m"
    and fresh: "\<not> owned pp ss sl (req_block ss rs)" and low: "p = PRIORITY_LOW \<Longrightarrow> low_object_ok ss rs"
    and s': "s' = (sl k)\<lparr>sending := x\<rparr>" "count_ok (pp @ [r]) k s'"
    and nres: "counted r \<Longrightarrow> stype (sl k) = SOCKET_TYPE_RESERVE \<Longrightarrow> sid (sl k) \<noteq> rs_id rs"
  shows "run_inv h (pp @ [r]) ss (sl(k := s'))"
proof -
  have bo: "blocks_ok pp ss sl" and all: "\<And>l. slot_ok h pp ss l (sl l)" using inv by (auto simp: run_inv_def)
  have no: "\<not> opener r" using r(1) opener_data by fastforce
  have "held ss s' = held ss (sl k)" by (rule held_cong) (simp_all add: s' same_data_def)
  then have sb: "sblocks ss ((sl(k := s')) l) = sblocks ss (sl l)" for l by (simp add: sblocks_def s')
  have d: "datas (pp @ [r]) = datas pp @ [rs]" using r(1) by simp
  have "blocks_ok (pp @ [r]) ss (sl(k := s'))"
    unfolding blocks_ok_def sb d
  proof (intro conjI)
    show "distinct (map (req_block ss) (datas pp @ [rs]))"
      using bo fresh by (auto simp: blocks_ok_def owned_def)
    show "\<forall>rs\<in>set (datas pp @ [rs]). req_bytes ss rs \<noteq> None \<and> (\<forall>k. req_block ss rs \<notin> sblocks ss (sl k))"
      using bo fresh bs by (auto simp: blocks_ok_def owned_def)
    show "\<forall>rs. SendLow rs \<in> set (pp @ [r]) \<longrightarrow> low_object_ok ss rs"
      using bo low r by (auto simp: blocks_ok_def)
  qed (use bo in \<open>auto simp: blocks_ok_def\<close>)
  moreover have "slot_ok h (pp @ [r]) ss l ((sl(k := s')) l)" for l
  proof (cases "l = k")
    case False
    then show ?thesis using slot_ok_push_other [OF all [of l], of r] r(2) k by auto
  next
    case True
    have push: "slot_ok h (pp @ [r]) ss k (s0\<lparr>sending := x\<rparr>)"
      if s0: "slot_ok h pp ss k s0" "s0 = sl k" "count_ok (pp @ [r]) k (s0\<lparr>sending := x\<rparr>)" for s0
    proof -
      have 1: "slot_flags k (s0\<lparr>sending := x\<rparr>)" using s0(1) by (simp add: slot_ok_def slot_flags_def)
      have 2: "reserve_ok h (pp @ [r]) (s0\<lparr>sending := x\<rparr>)"
        using s0(1,2) no r(2) nres by (auto simp: slot_ok_def reserve_ok_def)
      have 3: "opener_ok (pp @ [r]) k (s0\<lparr>sending := x\<rparr>)"
        using s0(1) no by (auto simp: slot_ok_def opener_ok_def)
      have 4: "unarmed (s0\<lparr>sending := x\<rparr>) \<longrightarrow> Trigger (sid s0) \<in> set (pp @ [r])"
        using s0(1) by (auto simp: slot_ok_def unarmed_def)
      have sd: "same_data s0 (s0\<lparr>sending := x\<rparr>)" by (simp add: same_data_def)
      have 5: "socket_inv ss (s0\<lparr>sending := x\<rparr>) hi lo" if "socket_inv ss s0 hi lo" for hi lo
      proof -
        have "\<exists>L. socket_data ss s0 L hi lo \<Longrightarrow> \<exists>L. socket_data ss (s0\<lparr>sending := x\<rparr>) L hi lo"
          using socket_data_cong [OF sd same_mem_refl] by blast
        then show ?thesis using that unfolding socket_inv_def by (auto simp: socket_flags_def)
      qed
      have 6: "stream_ok (log_of h k (s0\<lparr>sending := x\<rparr>)) (s0\<lparr>sending := x\<rparr>) hi lo
          = stream_ok (log_of h k s0) s0 hi lo" for hi lo
        by (simp add: stream_ok_def log_of_def)
      show ?thesis using s0(1,3) 1 2 3 4 5 6 unfolding slot_ok_def by auto
    qed
    show ?thesis using push [OF all refl] s' True by simp
  qed
  ultimately show ?thesis by (simp add: run_inv_def)
qed

lemma clone_low:
  "clone_buffer ss buf = Some (b, n, ss') \<Longrightarrow> buffer_ok buf \<Longrightarrow> n = USEROBJECT
    \<Longrightarrow> sb_type buf = SOCKET_BUFFER_OBJECT \<and> b = sb_buffer buf"
  by (cases "sb_type buf") (auto simp: clone_buffer_def buffer_ok_def MALLOC_def split: Option.bind_splits)

definition low_buffer_ok :: "socket_server \<Rightarrow> socket_sendbuffer \<Rightarrow> bool" where
  "low_buffer_ok ss buf \<longleftrightarrow> (sb_type buf = SOCKET_BUFFER_OBJECT \<longrightarrow> so_buffer (soi ss) (sb_buffer buf) = sb_buffer buf)"

lemma clone_push:
  assumes inv: "run_inv h pp ss sl" and bs: "buf_bytes ss buf = Some m" and ok: "buffer_ok buf"
    and fresh: "\<not> owned pp ss sl (buf_block ss buf)" and low: "p = PRIORITY_LOW \<Longrightarrow> low_buffer_ok ss buf"
    and r: "\<And>rs. req_data (R rs) = Some (p, rs) \<and> req_id (R rs) = Some (rs_id rs)" and k: "HASH_ID i = k"
    and s': "s' = (sl k)\<lparr>sending := x\<rparr>" "\<And>rs. rs_id rs = i \<Longrightarrow> count_ok (pp @ [R rs]) k s'"
    and nres: "\<And>rs. counted (R rs) \<Longrightarrow> stype (sl k) = SOCKET_TYPE_RESERVE \<Longrightarrow> sid (sl k) \<noteq> i"
  shows "\<exists>b n ss'. clone_buffer ss buf = Some (b, n, ss')
     \<and> run_inv h (pp @ [R \<lparr>rs_id = i, rs_sz = n, rs_buffer = b\<rparr>]) ss' (sl(k := s')) \<and> pipe ss' = pipe ss"
proof -
  have mo: "mem_ok ss" using inv by (simp add: run_inv_def blocks_ok_def)
  obtain b n ss' where cl: "clone_buffer ss buf = Some (b, n, ss')"
    and c: "ss' = ss \<and> send_object_init ss b n = (fst (send_object_init_from_sendbuffer ss buf),
            snd (send_object_init_from_sendbuffer ss buf), sb_type buf = SOCKET_BUFFER_OBJECT)
        \<or> ss' = ss\<lparr>mem := (mem ss)(brk ss := Some m), brk := brk ss + 1\<rparr>
            \<and> send_object_init ss' b n = ((brk ss, 0), length m, False) \<and> n \<noteq> USEROBJECT"
    using clone_buffer_ok [OF bs ok mo] by blast
  let ?rs = "\<lparr>rs_id = i, rs_sz = n, rs_buffer = b\<rparr>"
  have h: "run_inv h pp ss' sl \<and> req_bytes ss' ?rs = Some m \<and> \<not> owned pp ss' sl (req_block ss' ?rs)
     \<and> (p = PRIORITY_LOW \<longrightarrow> low_object_ok ss' ?rs) \<and> pipe ss' = pipe ss"
    using c
  proof
    assume a: "ss' = ss \<and> send_object_init ss b n = (fst (send_object_init_from_sendbuffer ss buf),
            snd (send_object_init_from_sendbuffer ss buf), sb_type buf = SOCKET_BUFFER_OBJECT)"
    then have "req_bytes ss ?rs = Some m" "req_block ss ?rs = buf_block ss buf"
      using bs by (simp_all add: req_bytes_def buf_bytes_def req_block_def buf_block_def split: prod.splits)
    moreover have "p = PRIORITY_LOW \<longrightarrow> low_object_ok ss ?rs"
      using low clone_low [OF cl ok] by (auto simp: low_object_ok_def low_buffer_ok_def)
    ultimately show ?thesis using a inv fresh by simp
  next
    assume a: "ss' = ss\<lparr>mem := (mem ss)(brk ss := Some m), brk := brk ss + 1\<rparr>
            \<and> send_object_init ss' b n = ((brk ss, 0), length m, False) \<and> n \<noteq> USEROBJECT"
    then have ss': "ss' = ss\<lparr>mem := (mem ss)(brk ss := Some m), brk := brk ss + 1\<rparr>"
      and so: "send_object_init ss' b n = ((brk ss, 0), length m, False)" and n: "n \<noteq> USEROBJECT" by auto
    have "req_block ss' ?rs = brk ss" using so by (simp add: req_block_def)
    moreover have "read_mem (mem ss') (brk ss, 0) (length m) = Some m" unfolding ss' by (simp add: read_mem_def)
    then have "req_bytes ss' ?rs = Some m" using so by (simp add: req_bytes_def)
    moreover have "low_object_ok ss' ?rs" using n by (simp add: low_object_ok_def)
    moreover have "pipe ss' = pipe ss" by (simp add: ss')
    ultimately show ?thesis using run_inv_alloc [OF inv ss'] by simp
  qed
  have "run_inv h (pp @ [R ?rs]) ss' (sl(k := s'))"
    by (rule push_data [where p = p and rs = ?rs and m = m])
      (use h r k s' nres in auto)
  then show ?thesis using cl h by blast
qed

section \<open>Sends of other threads\<close>

text \<open>A buffer the caller owns.\<close>

definition caller_buffer :: "server \<Rightarrow> socket_sendbuffer \<Rightarrow> bool" where
  "caller_buffer sv buf \<longleftrightarrow> buffer_ok buf \<and> buf_bytes (core sv) buf \<noteq> None
     \<and> \<not> owned (pipe (core sv)) (core sv) (slot sv) (buf_block (core sv) buf)"

lemma inc_sending_ok:
  assumes ok: "count_ok pp k s" and i: "sid s = i" and k: "HASH_ID i = k"
  shows "run_ok (sending s AND 0xffff = 0xffff) (inc_sending_ref s i)
     (\<lambda>s'. (\<exists>x. s' = s\<lparr>sending := x\<rparr>) \<and> (\<forall>r. counted r \<longrightarrow> req_id r = Some i \<longrightarrow> count_ok (pp @ [r]) k s'))"
proof (cases "protocol s = PROTOCOL_TCP")
  case False
  have "s = s\<lparr>sending := sending s\<rparr>" by simp
  then have "\<exists>x. s = s\<lparr>sending := x\<rparr>" by blast
  then show ?thesis using False by (simp add: inc_sending_ref_def count_ok_def)
next
  case True
  let ?n = "counted_of i pp"
  have n: "?n < 2 ^ 16" and sd: "sending s = push_bit 16 (ID_TAG16 i) + of_nat ?n"
    using ok True i k by (auto simp: count_ok_def)
  have tag: "drop_bit 16 (sending s) = ID_TAG16 i" unfolding sd by (rule sending_tag [OF n])
  have cn: "sending s AND 0xffff = of_nat ?n" unfolding sd by (rule sending_count [OF n])
  show ?thesis
  proof (cases "sending s AND 0xffff = 0xffff")
    case full: True
    then show ?thesis using True tag by (simp add: inc_sending_ref_def run_ok_def)
  next
    case False
    then have "?n \<noteq> 2 ^ 16 - 1" using cn by auto
    then have n': "Suc ?n < 2 ^ 16" using n by simp
    have e: "inc_sending_ref s i = Some (s\<lparr>sending := sending s + 1\<rparr>)"
      using True tag False by (simp add: inc_sending_ref_def)
    have "count_ok (pp @ [r]) k (s\<lparr>sending := sending s + 1\<rparr>)" if "counted r" "req_id r = Some i" for r
      using n' sd that i by (simp add: count_ok_def)
    then show ?thesis unfolding e by auto
  qed
qed

lemma send_by_pipe_inv:
  assumes inv: "srv_inv h sv" and cb: "caller_buffer sv buf"
    and live: "sid (slot sv (HASH_ID (sb_id buf))) = sb_id buf"
      "stype (slot sv (HASH_ID (sb_id buf))) \<noteq> SOCKET_TYPE_RESERVE"
    and low: "p = PRIORITY_LOW \<Longrightarrow> low_buffer_ok (core sv) buf"
  shows "run_ok (sending (slot sv (HASH_ID (sb_id buf))) AND 0xffff = 0xffff)
     (send_by_pipe p buf sv) (\<lambda>(r, sv'). srv_inv h sv')"
proof -
  let ?k = "HASH_ID (sb_id buf)"
  let ?s = "slot sv ?k" and ?pp = "pipe (core sv)"
  define R where "R = (\<lambda>rs. case p of PRIORITY_HIGH \<Rightarrow> SendHigh rs | PRIORITY_LOW \<Rightarrow> SendLow rs)"
  have R: "req_data (R rs) = Some (p, rs) \<and> req_id (R rs) = Some (rs_id rs)" "counted (R rs)" for rs
    by (cases p; simp add: R_def)+
  have iv: "run_inv h ?pp (core sv) (slot sv)" using inv by (simp add: srv_inv_def)
  then have cnt: "count_ok ?pp ?k ?s" by (auto simp: run_inv_def slot_ok_def)
  obtain m where bs: "buf_bytes (core sv) buf = Some m" using cb by (auto simp: caller_buffer_def)
  note inc = inc_sending_ok [OF cnt live(1) refl]
  have e: "send_by_pipe p buf sv = Option.bind (inc_sending_ref ?s (sb_id buf)) (\<lambda>s. do {
        (b, sz, ss) \<leftarrow> clone_buffer (core sv) buf;
        Some (0, send_request (R \<lparr>rs_id = sb_id buf, rs_sz = sz, rs_buffer = b\<rparr>) (put_socket ?k ss s sv))
      })"
    by (simp add: send_by_pipe_def R_def Let_def)
  show ?thesis
    unfolding e
  proof (rule run_ok_bind [OF inc])
    fix s' assume a: "(\<exists>x. s' = ?s\<lparr>sending := x\<rparr>) \<and> (\<forall>r. counted r \<longrightarrow> req_id r = Some (sb_id buf) \<longrightarrow> count_ok (?pp @ [r]) ?k s')"
    then obtain x where x: "s' = ?s\<lparr>sending := x\<rparr>" by blast
    have "\<exists>b n ss'. clone_buffer (core sv) buf = Some (b, n, ss')
       \<and> run_inv h (?pp @ [R \<lparr>rs_id = sb_id buf, rs_sz = n, rs_buffer = b\<rparr>]) ss' ((slot sv)(?k := s'))
       \<and> pipe ss' = pipe (core sv)"
      by (rule clone_push [OF iv bs _ _ low R(1) refl x])
        (use cb a R live in \<open>auto simp: caller_buffer_def\<close>)
    then obtain b n ss' where c: "clone_buffer (core sv) buf = Some (b, n, ss')"
      "run_inv h (?pp @ [R \<lparr>rs_id = sb_id buf, rs_sz = n, rs_buffer = b\<rparr>]) ss' ((slot sv)(?k := s'))"
      "pipe ss' = ?pp" by blast
    let ?r = "R \<lparr>rs_id = sb_id buf, rs_sz = n, rs_buffer = b\<rparr>"
    have "run_inv h (?pp @ [?r]) (ss'\<lparr>pipe := ?pp @ [?r]\<rparr>) ((slot sv)(?k := s'))"
      by (rule run_inv_core [OF c(2)]) simp_all
    then have "srv_inv h (send_request ?r (put_socket ?k ss' s' sv))"
      using c(3) by (simp add: srv_inv_def send_request_def put_socket_def)
    then show "run_ok (sending ?s AND 0xffff = 0xffff) (do {
        (b, sz, ss) \<leftarrow> clone_buffer (core sv) buf;
        Some (0, send_request (R \<lparr>rs_id = sb_id buf, rs_sz = sz, rs_buffer = b\<rparr>) (put_socket ?k ss s' sv))
      }) (\<lambda>(r, sv'). srv_inv h sv')" using c(1) by simp
  qed
qed

lemma free_buffer_ok:
  assumes bs: "buf_bytes ss buf = Some bs" and ok: "buffer_ok buf"
  shows "\<exists>ss'. free_buffer ss buf = Some ss' \<and> (ss' = ss \<or> ss' = ss\<lparr>mem := (mem ss)(buf_block ss buf := None)\<rparr>)"
  using buf_block_live [OF bs] ok
  by (auto simp: free_buffer_def soi_free_def FREE_def buf_block_def buffer_ok_def
      send_object_init_from_sendbuffer_def send_object_init_def split: buffer_type.split)

lemma refuse_send_inv:
  assumes inv: "srv_inv h sv" and cb: "caller_buffer sv buf"
  shows "\<exists>sv'. refuse_send buf sv = Some (- 1, sv') \<and> srv_inv h sv'"
proof -
  obtain m where bs: "buf_bytes (core sv) buf = Some m" using cb by (auto simp: caller_buffer_def)
  obtain ss' where f: "free_buffer (core sv) buf = Some ss'"
    "ss' = core sv \<or> ss' = (core sv)\<lparr>mem := (mem (core sv))(buf_block (core sv) buf := None)\<rparr>"
    using free_buffer_ok [OF bs] cb by (auto simp: caller_buffer_def)
  have "run_inv h (pipe (core sv)) ss' (slot sv)"
    by (rule run_inv_free [OF _ _ f(2)]) (use inv cb in \<open>auto simp: srv_inv_def caller_buffer_def\<close>)
  moreover have "pipe ss' = pipe (core sv)" using f(2) by auto
  ultimately show ?thesis using f(1) by (simp add: refuse_send_def srv_inv_def)
qed

lemma request_udp_inv:
  assumes inv: "srv_inv h sv" and cb: "caller_buffer sv buf"
  shows "\<exists>r sv'. request_udp buf addr n sv = Some (r, sv') \<and> srv_inv h sv'"
proof -
  let ?a = "take n addr @ replicate (UDP_ADDRESS_SIZE - n) 0" and ?pp = "pipe (core sv)"
  let ?k = "HASH_ID (sb_id buf)"
  have iv: "run_inv h ?pp (core sv) (slot sv)" using inv by (simp add: srv_inv_def)
  then have cnt: "count_ok ?pp ?k (slot sv ?k)" by (auto simp: run_inv_def slot_ok_def)
  obtain m where bs: "buf_bytes (core sv) buf = Some m" using cb by (auto simp: caller_buffer_def)
  have "\<exists>b n ss'. clone_buffer (core sv) buf = Some (b, n, ss')
     \<and> run_inv h (?pp @ [SendUdp \<lparr>rs_id = sb_id buf, rs_sz = n, rs_buffer = b\<rparr> ?a]) ss' ((slot sv)(?k := slot sv ?k))
     \<and> pipe ss' = pipe (core sv)"
    by (rule clone_push [where p = PRIORITY_HIGH and R = "\<lambda>rs. SendUdp rs ?a" and x = "sending (slot sv ?k)", OF iv bs])
      (use cb cnt in \<open>auto simp: caller_buffer_def count_ok_def\<close>)
  then obtain b k ss' where c: "clone_buffer (core sv) buf = Some (b, k, ss')"
    "run_inv h (?pp @ [SendUdp \<lparr>rs_id = sb_id buf, rs_sz = k, rs_buffer = b\<rparr> ?a]) ss' (slot sv)"
    "pipe ss' = ?pp" by auto
  let ?r = "SendUdp \<lparr>rs_id = sb_id buf, rs_sz = k, rs_buffer = b\<rparr> ?a"
  have "run_inv h (?pp @ [?r]) (ss'\<lparr>pipe := ?pp @ [?r]\<rparr>) (slot sv)"
    by (rule run_inv_core [OF c(2)]) simp_all
  then have "srv_inv h (send_request ?r (sv\<lparr>core := ss'\<rparr>))" using c(3) by (simp add: srv_inv_def send_request_def)
  then show ?thesis using c(1) by (simp add: request_udp_def)
qed

lemma direct_begin_inv:
  assumes inv: "srv_inv h sv" and cb: "caller_buffer sv buf" and db: "direct_begin buf sv = Some sv'"
    and tcp: "protocol (slot sv (HASH_ID (sb_id buf))) = PROTOCOL_TCP"
  shows "srv_inv (h(sb_id buf := h (sb_id buf) @ [(PRIORITY_HIGH, the (buf_bytes (core sv) buf))])) sv'"
proof -
  let ?i = "sb_id buf" and ?k = "HASH_ID (sb_id buf)" and ?pp = "pipe (core sv)" and ?ss = "core sv"
  let ?s = "slot sv ?k"
  let ?s' = "?s\<lparr>dw_lock := True, direct := Some buf\<rparr>"
  obtain m where bs: "buf_bytes ?ss buf = Some m" using cb by (auto simp: caller_buffer_def)
  let ?h = "h(?i := h ?i @ [(PRIORITY_HIGH, m)])"
  have c: "sid ?s = ?i" "nomore_sending_data ?s" "stype ?s = SOCKET_TYPE_CONNECTED" "\<not> dw_lock ?s"
    and sv': "sv' = put_socket ?k ?ss ?s' sv"
    using db by (auto simp: direct_begin_def can_direct_write_def Let_def split: if_splits)
  have bo: "blocks_ok ?pp ?ss (slot sv)" and all: "\<And>l. slot_ok h ?pp ?ss l (slot sv l)"
    using inv by (auto simp: srv_inv_def run_inv_def)
  obtain hi lo where si: "socket_inv ?ss ?s hi lo" "stream_ok (log_of h ?k ?s) ?s hi lo"
    using all [of ?k] by (auto simp: slot_ok_def)
  have dir: "direct ?s = None" using socket_invD(5) [OF si(1)] c(4) by auto
  have b: "hi = []" "lo = []" "socket_inv ?ss ?s' m []" "sblocks ?ss ?s' = {buf_block ?ss buf}" "\<not> unarmed ?s'"
    using direct_begin_ok [OF si(1) c(3) tcp c(2) dir bs] by auto
  have "stream_ok (log_of h ?k ?s @ [(PRIORITY_HIGH, m)]) ?s' m []"
    by (rule stream_queued [OF si(2)]) (use b c in \<open>simp_all add: queued_def\<close>)
  moreover have "log_of ?h ?k ?s' = log_of h ?k ?s @ [(PRIORITY_HIGH, m)]" using c(1) by (simp add: log_of_def)
  ultimately have st: "stream_ok (log_of ?h ?k ?s') ?s' m []" by simp
  have slot': "slot_ok ?h ?pp ?ss ?k ?s'"
  proof -
    have "slot_flags ?k ?s'" using c cb by (simp add: slot_flags_def caller_buffer_def)
    moreover have "count_ok ?pp ?k ?s'" using all [of ?k] by (simp add: slot_ok_def count_ok_def)
    moreover have "reserve_ok ?h ?pp ?s'" using c by (simp add: reserve_ok_def)
    moreover have "opener_ok ?pp ?k ?s'" using all [of ?k] by (simp add: slot_ok_def opener_ok_def)
    ultimately show ?thesis using b st unfolding slot_ok_def by blast
  qed
  have "mem_ok ?ss" using bo by (simp add: blocks_ok_def)
  then have conf: "confined {buf_block ?ss buf} ?ss ?s ?ss ?s'"
    using b(4) by (simp add: confined_def)
  have nown: "\<not> owned ?pp ?ss (slot sv) (buf_block ?ss buf)" using cb by (simp add: caller_buffer_def)
  have "run_inv ?h ?pp ?ss ((slot sv)(?k := ?s'))"
  proof (rule run_inv_update [OF bo _ conf])
    show "\<And>l. l \<noteq> ?k \<Longrightarrow> slot_ok ?h ?pp ?ss l (slot sv l)" by (rule slot_ok_log [OF all]) auto
    show "\<And>b. b \<in> sblocks ?ss ?s \<Longrightarrow> mem ?ss b \<noteq> None" using slot_ok_inv all by blast
    show "\<And>b. b \<in> {buf_block ?ss buf} \<Longrightarrow> mem ?ss b \<noteq> None" using buf_block_live [OF bs] by simp
    show "\<And>l b. l \<noteq> ?k \<Longrightarrow> b \<in> {buf_block ?ss buf} \<Longrightarrow> b \<notin> sblocks ?ss (slot sv l)"
      using nown by (auto simp: owned_def)
    show "\<And>rs. rs \<in> set (datas ?pp) \<Longrightarrow> req_block ?ss rs \<notin> {buf_block ?ss buf}"
      using nown by (auto simp: owned_def)
  qed (use bo slot' in \<open>auto simp: blocks_ok_def\<close>)
  then show ?thesis using bs by (simp add: sv' srv_inv_def put_socket_def)
qed

lemma direct_finish_inv:
  assumes inv: "srv_inv h sv" and dir: "direct (slot sv (HASH_ID i)) = Some buf"
  shows "\<exists>sv'. direct_finish i sv = Some (0, sv') \<and> srv_inv h sv'
     \<and> direct (slot sv' (HASH_ID i)) = None"
proof -
  let ?k = "HASH_ID i" and ?pp = "pipe (core sv)" and ?ss = "core sv"
  let ?s = "slot sv ?k"
  have bo: "blocks_ok ?pp ?ss (slot sv)" and all: "\<And>l. slot_ok h ?pp ?ss l (slot sv l)"
    using inv by (auto simp: srv_inv_def run_inv_def)
  obtain hi lo where si: "socket_inv ?ss ?s hi lo" "stream_ok (log_of h ?k ?s) ?s hi lo"
    using all [of ?k] by (auto simp: slot_ok_def)
  have bok: "buffer_ok buf" "sb_id buf = sid ?s"
    using all [of ?k] dir by (auto simp: slot_ok_def slot_flags_def)
  have ni: "stype ?s \<notin> idle_types" using socket_invD(4) [OF si(1)] dir by auto
  then have live: "stype ?s \<noteq> SOCKET_TYPE_INVALID" "stype ?s \<noteq> SOCKET_TYPE_RESERVE" by (auto simp: idle_types_def)
  have hm: "HASH_ID (sid ?s) = ?k" by (rule slot_home [OF all live(1)])
  have mo: "mem_ok ?ss" using bo by (simp add: blocks_ok_def)
  obtain reqs ss' s' where d: "direct_write buf ?ss ?s = Some (0, reqs, ss', s')"
    and fin: "finished ?ss ?s hi lo (sb_id buf) reqs ss' s'"
    using direct_write_ok [OF si(1) mo dir bok(1)] by blast
  obtain hi' where f: "confined {} ?ss ?s ss' s'" "socket_inv ss' s' hi' lo" "out s' @ hi' = out ?s @ hi"
    "direct s' = None" "sending s' = sending ?s" "stype s' = stype ?s"
    "reqs = [] \<or> reqs = [Trigger (sid ?s)]" "unarmed s' \<longrightarrow> unarmed ?s \<or> reqs = [Trigger (sid ?s)]"
    using fin bok(2) unfolding finished_def by auto
  have pr: "protocol s' = protocol ?s" "sid s' = sid ?s" "pipe ss' = ?pp"
    using f(1) by (auto simp: confined_def core_same_def)
  let ?qq = "?pp @ reqs"
  have plain: "plain r" if "r \<in> set reqs" for r using f(7) that by (auto simp: plain_def)
  have push: "slot_ok h ?qq ss0 l s0" if "slot_ok h ?pp ss0 l s0" for ss0 l s0
    using f(7) slot_ok_push [OF that] that by auto
  have slot': "slot_ok h ?qq ss' ?k s'"
  proof -
    have "stream_ok (log_of h ?k s') s' hi' lo"
    proof (cases "protocol ?s = PROTOCOL_TCP")
      case True
      then obtain ms where "concat (map snd ms) = out ?s @ hi"
          "of_prio PRIORITY_HIGH ms = of_prio PRIORITY_HIGH (log_of h ?k ?s)"
          "of_prio PRIORITY_LOW ms @ lo = of_prio PRIORITY_LOW (log_of h ?k ?s)"
        using si(2) live by (auto simp: stream_ok_def)
      moreover have "log_of h ?k s' = log_of h ?k ?s" by (simp add: log_of_def pr)
      ultimately show ?thesis using f(3,6) live by (intro stream_openI [of s' ms]) simp_all
    qed (use pr in \<open>simp add: stream_ok_def\<close>)
    moreover have "slot_flags ?k s'" using f(4) hm pr by (simp add: slot_flags_def)
    moreover have "count_ok ?qq ?k s'"
      using push [OF all [of ?k]] pr f(5) by (simp add: slot_ok_def count_ok_def)
    moreover have "reserve_ok h ?qq s'" using f(6) live by (simp add: reserve_ok_def)
    moreover have "opener_ok ?qq ?k s'"
      using push [OF all [of ?k]] pr f(6) by (simp add: slot_ok_def opener_ok_def)
    moreover have "unarmed s' \<longrightarrow> Trigger (sid s') \<in> set ?qq"
      using f(8) pr push [OF all [of ?k]] by (auto simp: slot_ok_def)
    ultimately show ?thesis using f(2) unfolding slot_ok_def by blast
  qed
  have dq: "datas ?qq = datas ?pp" "\<And>rs. SendLow rs \<in> set ?qq \<Longrightarrow> SendLow rs \<in> set ?pp" using f(7) by auto
  have "run_inv h ?qq ss' ((slot sv)(?k := s'))"
  proof (rule run_inv_update [OF bo _ f(1)])
    show "\<And>l. l \<noteq> ?k \<Longrightarrow> slot_ok h ?qq ?ss l (slot sv l)" by (rule push [OF all])
    show "\<And>b. b \<in> sblocks ?ss ?s \<Longrightarrow> mem ?ss b \<noteq> None" using slot_ok_inv all by blast
    show "distinct (map (req_block ?ss) (datas ?qq))" unfolding dq using bo by (simp add: blocks_ok_def)
    show "\<And>rs. SendLow rs \<in> set ?qq \<Longrightarrow> low_object_ok ?ss rs"
      using bo dq(2) unfolding blocks_ok_def by blast
    show "set (datas ?qq) \<subseteq> set (datas ?pp)" unfolding dq ..
    show "slot_ok h ?qq ss' ?k s'" by (rule slot')
  qed auto
  then have "run_inv h ?qq (ss'\<lparr>pipe := ?qq\<rparr>) ((slot sv)(?k := s'))" by (rule run_inv_core) simp_all
  moreover have "fold send_request reqs (put_socket ?k ss' s' sv)
      = sv\<lparr>core := ss'\<lparr>pipe := ?qq\<rparr>, slot := (slot sv)(?k := s')\<rparr>"
  proof -
    have "ss'\<lparr>pipe := ?pp\<rparr> = ss'" using pr(3) by simp
    then show ?thesis using f(7) pr(3) by (auto simp: send_request_def put_socket_def)
  qed
  ultimately show ?thesis using d dir f(4) by (simp add: direct_finish_def srv_inv_def)
qed

text \<open>\<open>socket_server_udp_send\<close>.\<close>

lemma sendbuffer_free_inv:
  assumes inv: "srv_inv h sv" and cb: "caller_buffer sv buf"
  shows "\<exists>ss'. sendbuffer_free (core sv) buf = Some ss' \<and> srv_inv h (sv\<lparr>core := ss'\<rparr>)"
proof -
  obtain m where bs: "buf_bytes (core sv) buf = Some m" using cb by (auto simp: caller_buffer_def)
  obtain ss' where f: "sendbuffer_free (core sv) buf = Some ss'"
    "ss' = core sv \<or> ss' = (core sv)\<lparr>mem := (mem (core sv))(buf_block (core sv) buf := None)\<rparr>"
    using sendbuffer_free_ok [OF bs] by blast
  have "run_inv h (pipe (core sv)) ss' (slot sv)"
    by (rule run_inv_free [OF _ _ f(2)]) (use inv cb in \<open>auto simp: srv_inv_def caller_buffer_def\<close>)
  moreover have "pipe ss' = pipe (core sv)" using f(2) by auto
  ultimately show ?thesis using f(1) by (simp add: srv_inv_def)
qed

lemma on_slot_same_inv:
  assumes inv: "srv_inv h sv"
    and s': "same_data (slot sv k) s'" "sid s' = sid (slot sv k)" "protocol s' = protocol (slot sv k)"
      "sending s' = sending (slot sv k)" "dw_lock s' = dw_lock (slot sv k)" "out s' = out (slot sv k)"
      "stype s' = stype (slot sv k)" "writing s' = writing (slot sv k)"
  shows "srv_inv h (put_socket k (core sv) s' sv)"
proof -
  have "run_ok (direct (slot sv k) \<noteq> None) (on_slot k (\<lambda>ss s. Some (SOCKET_NONE, ss, s')) sv) (\<lambda>(r, sv'). srv_inv h sv')"
  proof (rule on_slot_runs [OF inv])
    fix hi lo assume a: "socket_inv (core sv) (slot sv k) hi lo" "mem_ok (core sv)"
    have "step_ok (core sv) (slot sv k) hi lo (core sv) s'"
      by (rule step_same [OF a]) (use s' in \<open>simp_all add: unarmed_def same_data_def\<close>)
    then show "run_ok (direct (slot sv k) \<noteq> None) (Some (SOCKET_NONE, core sv, s'))
        (\<lambda>(r, ss', s'). step_ok (core sv) (slot sv k) hi lo ss' s')" by simp
  qed
  then show ?thesis by (simp add: on_slot_def)
qed

lemma caller_buffer_core:
  assumes "caller_buffer sv buf" "mem ss = mem (core sv)" "soi ss = soi (core sv)" "pipe ss = pipe (core sv)"
  shows "caller_buffer (sv\<lparr>core := ss\<rparr>) buf"
proof -
  have e: "send_object_init_from_sendbuffer ss buf = send_object_init_from_sendbuffer (core sv) buf"
    using assms(3) by (simp add: send_object_init_from_sendbuffer_def send_object_init_def split: buffer_type.split)
  show ?thesis
    using assms owned_soi [OF assms(3)]
    by (simp add: caller_buffer_def buf_bytes_def buf_block_def e)
qed

lemma caller_buffer_same:
  assumes "caller_buffer sv buf" "same_data (slot sv k) s'"
  shows "caller_buffer (put_socket k (core sv) s' sv) buf"
proof -
  have "sblocks (core sv) s' = sblocks (core sv) (slot sv k)" by (rule held_same(3) [OF assms(2) same_mem_refl])
  then have "sblocks (core sv) (((slot sv)(k := s')) l) = sblocks (core sv) (slot sv l)" for l by simp
  then show ?thesis using assms(1) by (simp add: caller_buffer_def owned_def put_socket_def)
qed

lemma udp_send_inv:
  assumes inv: "srv_inv h sv" and cb: "caller_buffer sv buf"
  shows "\<exists>r sv'. socket_server_udp_send addr buf sv = Some (r, sv') \<and> srv_inv h sv'"
proof -
  let ?k = "HASH_ID (sb_id buf)"
  let ?s = "slot sv ?k"
  obtain sr where rf: "refuse_send buf sv = Some (- 1, sr)" "srv_inv h sr"
    using refuse_send_inv [OF inv cb] by blast
  show ?thesis
  proof (cases "socket_invalid ?s (sb_id buf) \<or> udp_address_length addr = None")
    case True
    then show ?thesis using rf by (auto simp: socket_server_udp_send_def Let_def)
  next
    case False
    then obtain n where n: "udp_address_length addr = Some n" and live: "\<not> socket_invalid ?s (sb_id buf)" by auto
    obtain r1 sr1 where rq: "request_udp buf addr n sv = Some (r1, sr1)" "srv_inv h sr1"
      using request_udp_inv [OF inv cb] by blast
    show ?thesis
    proof (cases "can_direct_write ?s (sb_id buf) \<and> \<not> dw_lock ?s")
      case False
      then show ?thesis using rq n live by (auto simp: socket_server_udp_send_def Let_def)
    next
      case direct: True
      obtain ssf where ff: "sendbuffer_free (core sv) buf = Some ssf" "srv_inv h (sv\<lparr>core := ssf\<rparr>)"
        using sendbuffer_free_inv [OF inv cb] by blast
      show ?thesis
      proof (cases "udp_socket_address ?s addr")
        case None
        then show ?thesis using direct n live ff by (auto simp: socket_server_udp_send_def Let_def)
      next
        case (Some sa)
        obtain m where bs: "buf_bytes (core sv) buf = Some m" using cb by (auto simp: caller_buffer_def)
        obtain ptr sz where so: "send_object_init_from_sendbuffer (core sv) buf = (ptr, sz)" by (metis prod.exhaust)
        have rd: "read_mem (mem (core sv)) ptr sz = Some m" using bs so by (simp add: buf_bytes_def)
        obtain oc ss1 where no: "next_outcome (core sv) = (oc, ss1)" by (metis prod.exhaust)
        have sm: "same_mem (core sv) ss1" by (rule next_outcome_same [OF no])
        have inv1: "srv_inv h (sv\<lparr>core := ss1\<rparr>)"
          by (rule srv_inv_core [OF inv]) (use sm in \<open>simp_all add: same_mem_def core_same_def\<close>)
        have cb1: "caller_buffer (sv\<lparr>core := ss1\<rparr>) buf"
          by (rule caller_buffer_core [OF cb]) (use sm in \<open>simp_all add: same_mem_def core_same_def\<close>)
        obtain r2 sr2 where rq2: "request_udp buf addr n (sv\<lparr>core := ss1\<rparr>) = Some (r2, sr2)" "srv_inv h sr2"
          using request_udp_inv [OF inv1 cb1] by blast
        show ?thesis
        proof (cases "\<exists>k. oc = Some (Ret k)")
          case False
          then show ?thesis using direct n live Some so rd no rq2
            by (auto simp: socket_server_udp_send_def Let_def split: option.splits outcome.splits)
        next
          case True
          let ?s' = "stat_write ss1 (?s\<lparr>dgrams := dgrams ?s @ [(sa, m)]\<rparr>) (int sz)"
          let ?sv2 = "put_socket ?k ss1 ?s' (sv\<lparr>core := ss1\<rparr>)"
          have sd: "same_data ?s ?s'" by (simp add: same_data_def stat_write_def)
          have inv2: "srv_inv h ?sv2"
            using on_slot_same_inv [OF inv1, of ?k ?s'] sd by (simp add: stat_write_def)
          have cb2: "caller_buffer ?sv2 buf" using caller_buffer_same [OF cb1, of ?k ?s'] sd by simp
          obtain ss3 where f3: "sendbuffer_free ss1 buf = Some ss3" "srv_inv h (?sv2\<lparr>core := ss3\<rparr>)"
            using sendbuffer_free_inv [OF inv2 cb2] by (auto simp: put_socket_def)
          have e: "?sv2\<lparr>core := ss3\<rparr> = put_socket ?k ss3 ?s' sv" by (simp add: put_socket_def)
          have "socket_server_udp_send addr buf sv = Some (0, put_socket ?k ss3 ?s' sv)"
            using direct n live Some so rd no True f3(1)
            by (auto simp: socket_server_udp_send_def Let_def)
          then show ?thesis using f3(2) e by simp
        qed
      qed
    qed
  qed
qed

end
