(* ===== verification/SocketPoll.thy ===== *)
theory SocketPoll
  imports SocketRun
begin

text \<open>
  The loop of \<open>socket_server_poll\<close> in skynet-src/socket_server.c, the step relation of the server
  with its callers and the kernel, and what holds in every state it reaches: the bytes of a
  connection, the wake-ups, the order of direct writes, and that no step of the socket thread fails.
\<close>

section \<open>One pass of the poll loop\<close>

lemma clear_closed_inv: "srv_inv h sv \<Longrightarrow> srv_inv h (clear_closed_event r sv)"
proof (cases "r = SOCKET_CLOSE \<or> r = SOCKET_ERR")
  case True
  assume inv: "srv_inv h sv"
  define stale :: "event \<Rightarrow> bool" where "stale = (\<lambda>e. case ev_s e of None \<Rightarrow> False
    | Some k \<Rightarrow> socket_invalid (slot sv k) (m_id (result (core sv))) \<and> sid (slot sv k) = m_id (result (core sv)))"
  let ?old = "take (event_index (core sv)) (ev (core sv))"
  let ?rest = "drop (event_index (core sv)) (ev (core sv))"
  have e: "clear_closed_event r sv = (case dropWhile (Not \<circ> stale) ?rest of [] \<Rightarrow> sv
      | e # es \<Rightarrow> sv\<lparr>core := (core sv)\<lparr>ev := ?old @ takeWhile (Not \<circ> stale) ?rest @ e\<lparr>ev_s := None\<rparr> # es\<rparr>\<rparr>)"
    using True by (simp only: clear_closed_event_def Let_def stale_def if_True)
  show ?thesis
  proof (cases "dropWhile (Not \<circ> stale) ?rest")
    case Nil
    then show ?thesis unfolding e Nil list.case using inv by simp
  next
    case (Cons e es)
    let ?ev = "?old @ takeWhile (Not \<circ> stale) ?rest @ e\<lparr>ev_s := None\<rparr> # es"
    have "length ?ev = length ?old + length (takeWhile (Not \<circ> stale) ?rest @ dropWhile (Not \<circ> stale) ?rest)"
      unfolding Cons by simp
    also have "\<dots> = length (?old @ ?rest)" by simp
    also have "\<dots> = length (ev (core sv))" by (simp only: append_take_drop_id)
    finally have len: "length ?ev = length (ev (core sv))" .
    have "srv_inv h (sv\<lparr>core := (core sv)\<lparr>ev := ?ev\<rparr>\<rparr>)"
      by (rule srv_inv_events [OF inv]) (use len srv_inv_index [OF inv] in simp_all)
    then show ?thesis unfolding e Cons list.case .
  qed
qed (simp add: clear_closed_event_def)

text \<open>The event the next pass handles, if it handles one.\<close>

definition event_next :: "server \<Rightarrow> event option" where
  "event_next sv =
     (if checkctrl (core sv) \<and> pipe (core sv) \<noteq> [] then None
      else if event_index (core sv) = length (ev (core sv)) then
        (case next_outcome (core sv) of (Some (Events (e # es)), ss) \<Rightarrow> Some e | _ \<Rightarrow> None)
      else Some (ev (core sv) ! event_index (core sv)))"

text \<open>
  What a pass relies on: the kernel reports no event for a reserved slot, and a new id is not one
  still in use.
\<close>

definition poll_ready :: "(u32 \<Rightarrow> accepted_log) \<Rightarrow> server \<Rightarrow> bool" where
  "poll_ready h sv \<longleftrightarrow> (\<forall>e. event_next sv = Some e \<longrightarrow> fresh_id h sv
     \<and> (\<forall>k. ev_s e = Some k \<longrightarrow> stype (slot sv k) \<noteq> SOCKET_TYPE_RESERVE))"

definition log_poll :: "server \<Rightarrow> (u32 \<Rightarrow> accepted_log) \<Rightarrow> (u32 \<Rightarrow> accepted_log)" where
  "log_poll sv h = (if checkctrl (core sv) then
      (case pipe (core sv) of [] \<Rightarrow> h | r # pp \<Rightarrow> log_request r sv h) else h)"

definition locked :: "server \<Rightarrow> bool" where
  "locked sv \<longleftrightarrow> (\<exists>k. direct (slot sv k) \<noteq> None)"

lemma run_ok_weaken: "run_ok b x P \<Longrightarrow> (b \<Longrightarrow> c) \<Longrightarrow> run_ok c x P"
  by (auto simp: run_ok_def split: option.splits)

lemma next_event_inv:
  assumes inv: "srv_inv h sv" and fr: "fresh_id h sv" and ix: "event_index (core sv) < length (ev (core sv))"
    and ty: "\<And>k. ev_s (ev (core sv) ! event_index (core sv)) = Some k \<Longrightarrow> stype (slot sv k) \<noteq> SOCKET_TYPE_RESERVE"
  shows "run_ok (locked sv) (next_event sv) (\<lambda>(r, sv'). srv_inv h sv')"
proof -
  let ?e = "ev (core sv) ! event_index (core sv)"
  let ?sv = "sv\<lparr>core := (core sv)\<lparr>event_index := event_index (core sv) + 1\<rparr>\<rparr>"
  have e: "next_event sv = handle_event ?e ?sv" using ix by (simp add: next_event_def arr_get_def)
  have "srv_inv h ?sv" by (rule srv_inv_events [OF inv]) (use ix in simp_all)
  moreover have "fresh_id h ?sv" using fr fresh_id_cong [of ?sv sv h] by simp
  ultimately have "run_ok (\<exists>k. ev_s ?e = Some k \<and> direct (slot ?sv k) \<noteq> None) (handle_event ?e ?sv)
      (\<lambda>(r, sv'). srv_inv h sv')"
    by (rule event_ok) (use ty in simp)
  then show ?thesis unfolding e by (rule run_ok_weaken) (auto simp: locked_def)
qed

lemma poll_events_inv:
  assumes inv: "srv_inv h sv" and fr: "\<And>e. event_next sv = Some e \<Longrightarrow> fresh_id h sv"
    and np: "\<not> (checkctrl (core sv) \<and> pipe (core sv) \<noteq> [])"
    and ty: "\<And>e k. event_next sv = Some e \<Longrightarrow> ev_s e = Some k \<Longrightarrow> stype (slot sv k) \<noteq> SOCKET_TYPE_RESERVE"
  shows "run_ok (locked sv) (poll_events sv) (\<lambda>(r, sv'). srv_inv h sv')"
proof (cases "event_index (core sv) = length (ev (core sv))")
  case False
  then have ix: "event_index (core sv) < length (ev (core sv))" using srv_inv_index [OF inv] by simp
  have "run_ok (locked sv) (next_event sv) (\<lambda>(r, sv'). srv_inv h sv')"
    by (rule next_event_inv [OF inv _ ix]) (use fr ty np False in \<open>auto simp: event_next_def\<close>)
  then show ?thesis using False by (simp add: poll_events_def)
next
  case True
  obtain oc ss where no: "next_outcome (core sv) = (oc, ss)" by (metis prod.exhaust)
  have sm: "same_mem (core sv) ss" by (rule next_outcome_same [OF no])
  show ?thesis
  proof (cases "\<exists>e es. oc = Some (Events (e # es))")
    case False
    have "srv_inv h (sv\<lparr>core := ss\<lparr>ev := [], checkctrl := True, event_index := 0\<rparr>\<rparr>)"
      by (rule srv_inv_events [OF inv]) (use sm in \<open>simp_all add: same_mem_def core_same_def\<close>)
    then show ?thesis using True no False
      by (auto simp: poll_events_def split: option.splits outcome.splits list.splits)
  next
    case ev: True
    then obtain e es where oc: "oc = Some (Events (e # es))" by blast
    let ?sv = "sv\<lparr>core := ss\<lparr>ev := e # es, checkctrl := True, event_index := 0\<rparr>\<rparr>"
    have i1: "srv_inv h ?sv"
      by (rule srv_inv_events [OF inv]) (use sm in \<open>simp_all add: same_mem_def core_same_def\<close>)
    have "event_next sv = Some e" using np True no oc by (auto simp: event_next_def)
    then have f1: "fresh_id h ?sv" using fr fresh_id_cong [of ?sv sv h] sm by (simp add: same_mem_def core_same_def)
    have "run_ok (locked ?sv) (next_event ?sv) (\<lambda>(r, sv'). srv_inv h sv')"
      by (rule next_event_inv [OF i1 f1]) (use ty np True no oc in \<open>auto simp: event_next_def\<close>)
    then show ?thesis using True no oc by (simp add: poll_events_def locked_def)
  qed
qed

lemma poll_pass_inv:
  assumes inv: "srv_inv h sv" and rd: "poll_ready h sv"
  shows "run_ok (locked sv) (poll_pass sv) (\<lambda>(r, sv'). srv_inv (log_poll sv h) sv')"
proof (cases "checkctrl (core sv) \<and> pipe (core sv) \<noteq> []")
  case True
  then obtain r pp where p: "pipe (core sv) = r # pp" by (cases "pipe (core sv)") auto
  let ?sv = "sv\<lparr>core := (core sv)\<lparr>pipe := pp\<rparr>\<rparr>"
  have "run_inv h (r # pp) ((core sv)\<lparr>pipe := pp\<rparr>) (slot sv)"
    by (rule run_inv_core [of _ _ "core sv"]) (use inv p in \<open>simp_all add: srv_inv_def\<close>)
  then have "run_ok (\<exists>i. req_id r = Some i \<and> direct (slot ?sv (HASH_ID i)) \<noteq> None)
     (dispatch_request r ?sv) (\<lambda>(r0, sv'). srv_inv (log_request r ?sv h) sv')"
    by (intro dispatch_ok) simp_all
  then have d: "run_ok (locked sv) (dispatch_request r ?sv) (\<lambda>(r0, sv'). srv_inv (log_request r ?sv h) sv')"
    by (rule run_ok_weaken) (auto simp: locked_def)
  have l: "log_request r ?sv h = log_poll sv h"
    using True p by (simp add: log_poll_def log_request_def accept_def req_bytes_def send_object_init_def
      split: option.split)
  have e: "poll_pass sv = Option.bind (dispatch_request r ?sv)
      (\<lambda>(r, sv). Some (r, if r \<noteq> SOCKET_NONE then clear_closed_event r sv else sv))"
    using True p by (simp add: poll_pass_def ctrl_cmd_def)
  show ?thesis unfolding e l [symmetric]
    by (rule run_ok_bind [OF d]) (auto intro: clear_closed_inv)
next
  case False
  have fr: "\<And>e. event_next sv = Some e \<Longrightarrow> fresh_id h sv" and ty: "\<And>e k. event_next sv = Some e \<Longrightarrow> ev_s e = Some k \<Longrightarrow> stype (slot sv k) \<noteq> SOCKET_TYPE_RESERVE"
    using rd by (auto simp: poll_ready_def)
  have l: "log_poll sv h = h" using False by (auto simp: log_poll_def split: list.split)
  show ?thesis
  proof (cases "checkctrl (core sv)")
    case nc: False
    then show ?thesis using poll_events_inv [OF inv fr False ty] l by (simp add: poll_pass_def)
  next
    case True
    let ?sv = "sv\<lparr>core := (core sv)\<lparr>checkctrl := False\<rparr>\<rparr>"
    have i1: "srv_inv h ?sv" by (rule srv_inv_core [OF inv]) simp_all
    have en: "event_next ?sv = event_next sv"
      using True False by (simp add: event_next_def next_outcome_def split: list.split outcome.split option.split)
    have "run_ok (locked ?sv) (poll_events ?sv) (\<lambda>(r, sv'). srv_inv h sv')"
    proof (rule poll_events_inv [OF i1])
      fix e assume "event_next ?sv = Some e"
      then have "fresh_id h sv" unfolding en by (rule fr)
      then show "fresh_id h ?sv" using fresh_id_cong [of ?sv sv h] by simp
    next
      fix e k assume "event_next ?sv = Some e" "ev_s e = Some k"
      then have "stype (slot sv k) \<noteq> SOCKET_TYPE_RESERVE" unfolding en by (rule ty)
      then show "stype (slot ?sv k) \<noteq> SOCKET_TYPE_RESERVE" by simp
    qed simp
    then show ?thesis using True False l by (simp add: poll_pass_def locked_def)
  qed
qed

lemma udp_connect_inv:
  assumes inv: "srv_inv h sv"
  shows "run_ok (dw_lock (slot sv (HASH_ID i))) (socket_server_udp_connect i found sv) (\<lambda>(r, sv'). srv_inv h sv')"
proof (cases "socket_invalid (slot sv (HASH_ID i)) i \<or> dw_lock (slot sv (HASH_ID i))")
  case True
  then show ?thesis using inv
    by (cases "socket_invalid (slot sv (HASH_ID i)) i")
      (auto simp: socket_server_udp_connect_def Let_def socket_lock_def run_ok_def)
next
  case False
  let ?s = "slot sv (HASH_ID i)"
  let ?s' = "?s\<lparr>udpconnecting := udpconnecting ?s + 1, dw_lock := False\<rparr>"
  let ?sv = "put_socket (HASH_ID i) (core sv) ?s' sv"
  have i1: "srv_inv h ?sv"
    by (rule on_slot_same_inv [OF inv]) (use False in \<open>simp_all add: same_data_def\<close>)
  have "\<exists>r sv'. socket_server_udp_connect i found sv = Some (r, sv') \<and> (sv' = ?sv \<or> (\<exists>a. sv' = send_request (SetUdp i a) ?sv))"
    using False
    by (cases found) (auto simp: socket_server_udp_connect_def Let_def socket_lock_def socket_unlock_def)
  moreover have "plain (SetUdp i a)" for a by (simp add: plain_def)
  ultimately show ?thesis using i1 send_request_inv [OF i1] by auto
qed

section \<open>The steps of the server, its callers and the kernel\<close>

text \<open>
  A state is the server with the messages accepted so far for each id. The kernel's answers are set
  anew at any time. The callers' side: a new id is fresh, a buffer to send is the caller's own, data
  is not sent to a socket that is still reserved, user objects of low priority are their own buffer,
  and \<open>socket_server_send\<close> with its direct write is for TCP.
\<close>

type_synonym config = "(u32 \<Rightarrow> accepted_log) \<times> server"

inductive server_step :: "config \<Rightarrow> config \<Rightarrow> bool" where
  kernel: "server_step (h, sv) (h, sv\<lparr>core := (core sv)\<lparr>sys := os\<rparr>\<rparr>)"
| updatetime: "server_step (h, sv) (h, socket_server_updatetime now sv)"
| malloc: "MALLOC bs (core sv) = (a, ss) \<Longrightarrow> server_step (h, sv) (h, sv\<lparr>core := ss\<rparr>)"
| connect: "fresh_id h sv \<Longrightarrow> socket_server_connect opq addr port sv = (r, sv') \<Longrightarrow> server_step (h, sv) (h, sv')"
| listen: "fresh_id h sv \<Longrightarrow> socket_server_listen opq f sv = (r, sv') \<Longrightarrow> server_step (h, sv) (h, sv')"
| bind: "fresh_id h sv \<Longrightarrow> socket_server_bind opq f sv = (r, sv') \<Longrightarrow> server_step (h, sv) (h, sv')"
| udp: "fresh_id h sv \<Longrightarrow> socket_server_udp opq f inet6 sv = (r, sv') \<Longrightarrow> server_step (h, sv) (h, sv')"
| exit: "server_step (h, sv) (h, socket_server_exit sv)"
| close: "server_step (h, sv) (h, socket_server_close opq i sv)"
| shutdown: "server_step (h, sv) (h, socket_server_shutdown opq i sv)"
| start: "server_step (h, sv) (h, socket_server_start opq i sv)"
| pause: "server_step (h, sv) (h, socket_server_pause opq i sv)"
| nodelay: "server_step (h, sv) (h, socket_server_nodelay i sv)"
| udp_connect: "socket_server_udp_connect i found sv = Some (r, sv') \<Longrightarrow> server_step (h, sv) (h, sv')"
| direct_begin: "caller_buffer sv buf \<Longrightarrow> protocol (slot sv (HASH_ID (sb_id buf))) = PROTOCOL_TCP
    \<Longrightarrow> direct_begin buf sv = Some sv'
    \<Longrightarrow> server_step (h, sv)
      (h(sb_id buf := h (sb_id buf) @ [(PRIORITY_HIGH, the (buf_bytes (core sv) buf))]), sv')"
| direct_finish: "direct_finish i sv = Some (r, sv') \<Longrightarrow> server_step (h, sv) (h, sv')"
| send: "caller_buffer sv buf \<Longrightarrow> stype (slot sv (HASH_ID (sb_id buf))) \<noteq> SOCKET_TYPE_RESERVE
    \<Longrightarrow> direct_begin buf sv = None \<Longrightarrow> socket_server_send buf sv = Some (r, sv')
    \<Longrightarrow> server_step (h, sv) (h, sv')"
| send_low: "caller_buffer sv buf \<Longrightarrow> stype (slot sv (HASH_ID (sb_id buf))) \<noteq> SOCKET_TYPE_RESERVE
    \<Longrightarrow> low_buffer_ok (core sv) buf \<Longrightarrow> socket_server_send_lowpriority buf sv = Some (r, sv')
    \<Longrightarrow> server_step (h, sv) (h, sv')"
| udp_send: "caller_buffer sv buf \<Longrightarrow> socket_server_udp_send addr buf sv = Some (r, sv')
    \<Longrightarrow> server_step (h, sv) (h, sv')"
| poll: "poll_ready h sv \<Longrightarrow> poll_pass sv = Some (r, sv') \<Longrightarrow> server_step (h, sv) (log_poll sv h, sv')"

text \<open>The states reached from \<open>socket_server_create\<close>.\<close>

inductive reachable :: "(u32 \<Rightarrow> accepted_log) \<Rightarrow> server \<Rightarrow> bool" where
  create: "(\<And>a. m a \<noteq> None \<Longrightarrow> a < b) \<Longrightarrow> reachable (\<lambda>i. []) (socket_server_create now si m b)"
| step: "reachable h sv \<Longrightarrow> server_step (h, sv) (h', sv') \<Longrightarrow> reachable h' sv'"

lemma socket_inv_empty: "socket_inv ss empty_socket [] []"
  by (simp add: socket_inv_def socket_flags_def empty_socket_def)

lemma create_inv:
  assumes "\<And>a. m a \<noteq> None \<Longrightarrow> a < b"
  shows "srv_inv (\<lambda>i. []) (socket_server_create now si m b)"
proof -
  have "sblocks ss empty_socket = {}" for ss
    by (rule sblocks_idle [OF socket_inv_empty]) (simp add: empty_socket_def idle_types_def)
  moreover have "slot_ok (\<lambda>i. []) [] ss k empty_socket" for ss k
  proof -
    have "stream_ok (log_of (\<lambda>i. []) k empty_socket) empty_socket [] []"
      by (rule stream_closedI [of _ "[]" "[]"]) (simp_all add: empty_socket_def)
    then have "\<exists>hi lo. socket_inv ss empty_socket hi lo \<and> stream_ok (log_of (\<lambda>i. []) k empty_socket) empty_socket hi lo"
      using socket_inv_empty by blast
    then show ?thesis
      by (simp add: slot_ok_def slot_flags_def count_ok_def reserve_ok_def opener_ok_def unarmed_def)
        (simp add: empty_socket_def ID_TAG16_def)
  qed
  ultimately show ?thesis
    using assms by (simp add: srv_inv_def run_inv_def blocks_ok_def socket_server_create_def mem_ok_def)
qed

lemma run_okD: "run_ok b x P \<Longrightarrow> x = Some r \<Longrightarrow> P r"
  by (simp add: run_ok_def)

lemma close_fd_inv: "srv_inv h sv \<Longrightarrow> srv_inv h (sv\<lparr>core := close_fd f (core sv)\<rparr>)"
  by (rule srv_inv_core) (simp_all add: close_fd_def)

text \<open>A call that reserves an id and queues the request that opens it.\<close>

lemma open_call_inv:
  assumes inv: "srv_inv h sv" and fr: "fresh_id h sv" and R: "\<And>i. opener (R i) \<and> req_id (R i) = Some i"
    and call: "(case reserve_id sv of (None, sv) \<Rightarrow> (None, F sv) | (Some i, sv) \<Rightarrow> (Some i, send_request (R i) sv)) = (r, sv')"
    and F: "\<And>sv. srv_inv h sv \<Longrightarrow> srv_inv h (F sv)"
  shows "srv_inv h sv'"
proof (rule reserve_inv [OF inv fr])
  fix a assume h: "reserve_id sv = (None, sv\<lparr>core := (core sv)\<lparr>alloc_id := a\<rparr>\<rparr>)"
    "srv_inv h (sv\<lparr>core := (core sv)\<lparr>alloc_id := a\<rparr>\<rparr>)"
  have "sv' = F (sv\<lparr>core := (core sv)\<lparr>alloc_id := a\<rparr>\<rparr>)" using call by (simp add: h(1))
  then show ?thesis using F [OF h(2)] by simp
next
  fix i assume h: "reserve_id sv = (Some i, sv\<lparr>core := (core sv)\<lparr>alloc_id := i\<rparr>,
        slot := (slot sv)(HASH_ID i := reserved i (slot sv (HASH_ID i)))\<rparr>)"
  have "sv' = send_request (R i) (snd (reserve_id sv))" using call by (simp add: h)
  then show ?thesis using open_request_inv [OF inv fr h, of "R i"] R h by simp
qed

lemma step_inv:
  assumes "server_step c c'" "srv_inv (fst c) (snd c)"
  shows "srv_inv (fst c') (snd c')"
  using assms
proof (induction rule: server_step.induct)
  case (kernel h sv os)
  then show ?case using srv_inv_core [of h sv "(core sv)\<lparr>sys := os\<rparr>"] by simp
next
  case (updatetime h sv now)
  then show ?case using srv_inv_core [of h sv "(core sv)\<lparr>stime := now\<rparr>"] by (simp add: socket_server_updatetime_def)
next
  case (malloc bs sv a ss h)
  then have ss: "ss = (core sv)\<lparr>mem := (mem (core sv))(brk (core sv) := Some bs), brk := brk (core sv) + 1\<rparr>"
    by (auto simp: MALLOC_def)
  have "run_inv h (pipe (core sv)) ss (slot sv)"
    by (rule run_inv_alloc [OF _ ss]) (use malloc in \<open>simp add: srv_inv_def\<close>)
  then show ?case by (simp add: srv_inv_def ss)
next
  case (connect h sv opq addr port r sv')
  show ?case
  proof (cases "length addr + 24 \<ge> 256")
    case False
    show ?thesis
      using open_call_inv [of h sv "\<lambda>i. Open i opq addr port" "\<lambda>sv. sv" r sv'] connect False
      by (simp add: socket_server_connect_def)
  qed (use connect in \<open>simp add: socket_server_connect_def\<close>)
next
  case (listen h sv opq f r sv')
  show ?case
  proof (cases "f < 0")
    case False
    show ?thesis
      using open_call_inv [of h sv "\<lambda>i. Listen i f opq" "\<lambda>sv. sv\<lparr>core := close_fd f (core sv)\<rparr>" r sv'] listen False
        close_fd_inv by (simp add: socket_server_listen_def)
  qed (use listen in \<open>simp add: socket_server_listen_def\<close>)
next
  case (bind h sv opq f r sv')
  then show ?case
    using open_call_inv [of h sv "\<lambda>i. Bind i f opq" "\<lambda>sv. sv" r sv'] by (simp add: socket_server_bind_def)
next
  case (udp h sv opq f inet6 r sv')
  show ?case
  proof (cases "f < 0")
    case False
    show ?thesis
      using open_call_inv [of h sv "\<lambda>i. Udp i f inet6 opq" "\<lambda>sv. sv\<lparr>core := close_fd f (core sv)\<rparr>" r sv'] udp False
        close_fd_inv by (simp add: socket_server_udp_def)
  qed (use udp in \<open>simp add: socket_server_udp_def\<close>)
next
  case (udp_connect i found sv r sv' h)
  then show ?case using run_okD [OF udp_connect_inv] by fastforce
next
  case (direct_begin sv buf sv' h)
  show ?case unfolding fst_conv snd_conv by (rule direct_begin_inv) (use direct_begin in simp_all)
next
  case (direct_finish i sv r sv' h)
  then obtain buf where "direct (slot sv (HASH_ID i)) = Some buf"
    by (auto simp: direct_finish_def elim: option_bind_SomeE)
  then show ?case using direct_finish_inv [of h sv i buf] direct_finish by auto
next
  case (send sv buf r sv' h)
  let ?s = "slot sv (HASH_ID (sb_id buf))"
  show ?case
  proof (cases "socket_invalid ?s (sb_id buf) \<or> closing ?s")
    case True
    then show ?thesis using send refuse_send_inv [of h sv buf] by (auto simp: socket_server_send_def Let_def)
  next
    case False
    then have "sid ?s = sb_id buf" by (auto simp: socket_invalid_def)
    then have "run_ok (sending ?s AND 0xffff = 0xffff) (send_by_pipe PRIORITY_HIGH buf sv) (\<lambda>(r, sv'). srv_inv h sv')"
      by (intro send_by_pipe_inv) (use send in auto)
    moreover have "send_by_pipe PRIORITY_HIGH buf sv = Some (r, sv')"
      using send False by (simp add: socket_server_send_def Let_def)
    ultimately show ?thesis by simp
  qed
next
  case (send_low sv buf r sv' h)
  let ?s = "slot sv (HASH_ID (sb_id buf))"
  show ?case
  proof (cases "socket_invalid ?s (sb_id buf)")
    case True
    then show ?thesis using send_low refuse_send_inv [of h sv buf] by (auto simp: socket_server_send_lowpriority_def)
  next
    case False
    then have "sid ?s = sb_id buf" by (auto simp: socket_invalid_def)
    then have "run_ok (sending ?s AND 0xffff = 0xffff) (send_by_pipe PRIORITY_LOW buf sv) (\<lambda>(r, sv'). srv_inv h sv')"
      by (intro send_by_pipe_inv) (use send_low in auto)
    moreover have "send_by_pipe PRIORITY_LOW buf sv = Some (r, sv')"
      using send_low False by (simp add: socket_server_send_lowpriority_def)
    ultimately show ?thesis by simp
  qed
next
  case (udp_send sv buf addr r sv' h)
  then show ?case using udp_send_inv [of h sv buf addr] by auto
next
  case (poll h sv r sv')
  then show ?case using run_okD [OF poll_pass_inv [of h sv]] by fastforce
qed (simp_all add: socket_server_exit_def socket_server_close_def socket_server_shutdown_def socket_server_start_def
      socket_server_pause_def socket_server_nodelay_def send_request_inv plain_def)

lemma reachable_inv: "reachable h sv \<Longrightarrow> srv_inv h sv"
proof (induction rule: reachable.induct)
  case (create m b now si)
  then show ?case by (rule create_inv)
next
  case (step h sv h' sv')
  then show ?case using step_inv [of "(h, sv)" "(h', sv')"] by simp
qed

lemma reachable_slot: "reachable h sv \<Longrightarrow> slot_ok h (pipe (core sv)) (core sv) k (slot sv k)"
  using reachable_inv by (auto simp: srv_inv_def run_inv_def)

end
