(* ===== verification/SocketStream.thy ===== *)
theory SocketStream
  imports SocketPoll
begin

text \<open>
  What the runs of the socket server of skynet-src/socket_server.c guarantee, and the three cases in
  which the code does not do what it means to.
\<close>

section \<open>A run\<close>

text \<open>
  A connection is opened and a thread sends three bytes of its own memory, of which the kernel
  takes \<open>n\<close>.
\<close>

definition example_interface :: socket_object_interface where
  "example_interface = \<lparr>so_buffer = (\<lambda>a. a), so_size = (\<lambda>a. 0)\<rparr>"

definition example_create :: server where
  "example_create = socket_server_create 0 example_interface (\<lambda>a. if a = 0 then Some [1, 2, 3] else None) 1"

definition example_buffer :: socket_sendbuffer where
  "example_buffer = \<lparr>sb_id = 1, sb_type = SOCKET_BUFFER_MEMORY, sb_buffer = 0, sb_sz = 3\<rparr>"

definition kernel_answers :: "outcome list \<Rightarrow> server \<Rightarrow> server" where
  "kernel_answers os sv = sv\<lparr>core := (core sv)\<lparr>sys := os\<rparr>\<rparr>"

definition example_opening :: server where
  "example_opening = kernel_answers [Ret 1, Ret 5, Ret 0, Ret 0, Text ''peer'']
     (snd (socket_server_connect 7 ''h'' 80 example_create))"

definition example_open :: server where
  "example_open = snd (the (poll_pass example_opening))"

definition example_direct :: server where
  "example_direct = the (direct_begin example_buffer example_open)"

definition example_sent :: "nat \<Rightarrow> server" where
  "example_sent n = snd (the (direct_finish 1 (kernel_answers [Ret (int n)] example_direct)))"

lemma example_create_sel:
  "slot example_create = (\<lambda>i. empty_socket)" "alloc_id (core example_create) = 0"
  "pipe (core example_create) = []" "sys (core example_create) = []"
  "checkctrl (core example_create)" "stime (core example_create) = 0"
  by (simp_all add: example_create_def socket_server_create_def)

lemma hash_1 [simp]: "HASH_ID 1 = 1" "ID_TAG16 1 = 0"
  by (simp_all add: HASH_ID_def MAX_SOCKET_def MAX_SOCKET_P_def ID_TAG16_def drop_bit_eq_div)

lemma example_reserve:
  "reserve_id example_create = (Some 1, example_create\<lparr>core := (core example_create)\<lparr>alloc_id := 1\<rparr>,
     slot := (slot example_create)(1 := reserved 1 empty_socket)\<rparr>)"
proof -
  have n: "next_id 0 = (1, 1)" by (simp add: next_id_def)
  have "MAX_SOCKET = Suc 65535" by (simp add: MAX_SOCKET_def MAX_SOCKET_P_def)
  then have e: "reserve_id example_create = reserve_loop (Suc 65535) example_create"
    by (simp only: reserve_id_def)
  have "stype empty_socket = SOCKET_TYPE_INVALID" by (simp add: empty_socket_def)
  then show ?thesis
    unfolding e reserve_loop.simps(2)
    by (simp add: n example_create_sel reserved_def Let_def del: reserve_loop.simps)
qed

definition example_socket :: socket where
  "example_socket = empty_socket\<lparr>opaque := 7, fd := 5, sid := 1, stype := SOCKET_TYPE_CONNECTED,
     protocol := PROTOCOL_TCP, reading := True, p_size := MIN_READ_BUFFER\<rparr>"

definition example_core :: socket_server where
  "example_core = (core example_create)\<lparr>alloc_id := 1, sys := [], pipe := [],
     result := \<lparr>m_id = 1, m_opaque = 7, m_ud = 0, m_data = Str ''peer''\<rparr>\<rparr>"

lemma example_connect:
  "socket_server_connect 7 ''h'' 80 example_create = (Some 1, send_request (Open 1 7 ''h'' 80)
     (example_create\<lparr>core := (core example_create)\<lparr>alloc_id := 1\<rparr>,
       slot := (slot example_create)(1 := reserved 1 empty_socket)\<rparr>))"
  by (simp add: socket_server_connect_def example_reserve)

lemma example_opening_eq:
  "example_opening = \<lparr>core = (core example_create)\<lparr>alloc_id := 1, pipe := [Open 1 7 ''h'' 80],
       sys := [Ret 1, Ret 5, Ret 0, Ret 0, Text ''peer'']\<rparr>,
     slot = (\<lambda>i. empty_socket)(1 := reserved 1 empty_socket)\<rparr>"
  by (simp add: example_opening_def kernel_answers_def example_connect send_request_def example_create_sel)

lemma example_poll: "poll_pass example_opening = Some (SOCKET_OPEN, \<lparr>core = example_core,
     slot = (\<lambda>i. empty_socket)(1 := example_socket)\<rparr>)"
  by (simp add: example_opening_eq poll_pass_def ctrl_cmd_def dispatch_request_def on_socket_def open_socket_def
    next_outcome_def Let_def numeral_eq_Suc example_create_sel new_fd_def sp_result_def call_failed_def
    reserved_def enable_read_def check_wb_list_def put_socket_def clear_closed_event_def peer_name_def
    example_core_def example_socket_def empty_socket_def clear_wb_list_def)

lemma example_open_eq: "example_open = \<lparr>core = example_core, slot = (\<lambda>i. empty_socket)(1 := example_socket)\<rparr>"
  by (simp add: example_open_def example_poll)

lemma example_core_sel:
  "mem example_core = (\<lambda>a. if a = 0 then Some [1, 2, 3] else None)" "pipe example_core = []"
  "brk example_core = 1" "soi example_core = example_interface"
  "event_index example_core = 0" "ev example_core = []" "checkctrl example_core" "stime example_core = 0"
  by (simp_all add: example_core_def example_create_def socket_server_create_def)

lemma example_socket_sel:
  "sid example_socket = 1" "stype example_socket = SOCKET_TYPE_CONNECTED" "protocol example_socket = PROTOCOL_TCP"
  "\<not> dw_lock example_socket" "\<not> closing example_socket" "sending example_socket = 0"
  "dw_buffer example_socket = None" "wl_head (high example_socket) = None" "wl_head (low example_socket) = None"
  "udpconnecting example_socket = 0" "out example_socket = []" "\<not> writing example_socket"
  by (simp_all add: example_socket_def empty_socket_def clear_wb_list_def)

lemma example_begin:
  "direct_begin example_buffer example_open = Some \<lparr>core = example_core,
     slot = (\<lambda>i. empty_socket)(1 := example_socket\<lparr>dw_lock := True, direct := Some example_buffer\<rparr>)\<rparr>"
  by (simp add: direct_begin_def example_open_eq example_buffer_def can_direct_write_def example_socket_sel
    socket_invalid_def nomore_sending_data_def send_buffer_empty_def put_socket_def)

lemma example_direct_eq: "example_direct = \<lparr>core = example_core,
     slot = (\<lambda>i. empty_socket)(1 := example_socket\<lparr>dw_lock := True, direct := Some example_buffer\<rparr>)\<rparr>"
  by (simp add: example_direct_def example_begin)

lemmas example_write_simps = direct_finish_def direct_write_def direct_written_def example_direct_eq kernel_answers_def
    send_object_init_from_sendbuffer_def send_object_init_def example_buffer_def read_mem_def example_core_sel
    example_socket_sel next_outcome_def stat_write_def direct_unlock_def put_socket_def example_interface_def USEROBJECT_def

lemma example_finish_part:
  "\<exists>sv'. direct_finish 1 (kernel_answers [Ret 2] example_direct) = Some (0, sv') \<and> sid (slot sv' 1) = 1
     \<and> protocol (slot sv' 1) = PROTOCOL_TCP \<and> stype (slot sv' 1) = SOCKET_TYPE_CONNECTED
     \<and> dw_buffer (slot sv' 1) = Some 0 \<and> out (slot sv' 1) = [1, 2] \<and> \<not> writing (slot sv' 1)
     \<and> pipe (core sv') = [Trigger 1] \<and> direct (slot sv' 1) = None"
  by (simp add: example_write_simps clone_buffer_def send_request_def Let_def)

lemma example_finish_all:
  "\<exists>sv'. direct_finish 1 (kernel_answers [Ret 3] example_direct) = Some (0, sv') \<and> sid (slot sv' 1) = 1
     \<and> protocol (slot sv' 1) = PROTOCOL_TCP \<and> stype (slot sv' 1) = SOCKET_TYPE_CONNECTED
     \<and> send_buffer_empty (slot sv' 1) \<and> dw_buffer (slot sv' 1) = None \<and> direct (slot sv' 1) = None
     \<and> out (slot sv' 1) = [1, 2, 3]"
  by (simp add: example_write_simps sendbuffer_free_def so_free_def FREE_def send_buffer_empty_def Let_def)

section \<open>The run reaches these states\<close>

lemma example_reachable_create: "reachable (\<lambda>i. []) example_create"
  unfolding example_create_def by (rule reachable.create) (simp split: if_splits)

lemma example_fresh: "fresh_id (\<lambda>i. []) example_create"
  by (simp add: fresh_id_def example_reserve example_create_sel)

lemma kernel_step: "reachable h sv \<Longrightarrow> reachable h (kernel_answers os sv)"
  unfolding kernel_answers_def by (erule reachable.step) (rule server_step.kernel)

lemma example_reachable_opening: "reachable (\<lambda>i. []) example_opening"
  unfolding example_opening_def
proof (rule kernel_step)
  show "reachable (\<lambda>i. []) (snd (socket_server_connect 7 ''h'' 80 example_create))"
    by (rule reachable.step [OF example_reachable_create], rule server_step.connect [OF example_fresh])
      (rule prod.collapse [symmetric])
qed

lemma example_reachable_open: "reachable (\<lambda>i. []) example_open"
proof -
  have "poll_ready (\<lambda>i. []) example_opening"
    by (simp add: poll_ready_def example_opening_eq event_next_def example_create_sel)
  from reachable.step [OF example_reachable_opening server_step.poll [OF this example_poll]]
  show ?thesis by (simp add: example_open_eq log_poll_def log_request_def example_opening_eq example_create_sel)
qed


lemma example_caller_buffer: "caller_buffer example_open example_buffer"
proof -
  have "sblocks (core example_open) (slot example_open k) = {}" for k
    by (simp add: sblocks_def blocks_in_def held_def example_open_eq example_socket_def empty_socket_def)
  then show ?thesis
    by (simp add: caller_buffer_def buffer_ok_def buf_bytes_def buf_block_def owned_def example_open_eq example_write_simps
      datas_def List.map_filter_def)
qed

definition example_log :: "u32 \<Rightarrow> accepted_log" where
  "example_log = (\<lambda>i. [])(1 := [(PRIORITY_HIGH, [1, 2, 3])])"

lemma example_reachable_direct: "reachable example_log example_direct"
proof (rule reachable.step [OF example_reachable_open])
  have l: "example_log = (\<lambda>i. [])(sb_id example_buffer := [] @ [(PRIORITY_HIGH, the (buf_bytes (core example_open) example_buffer))])"
    by (simp add: example_log_def buf_bytes_def example_open_eq example_write_simps)
  show "server_step ((\<lambda>i. []), example_open) (example_log, example_direct)"
    unfolding l
    by (rule server_step.direct_begin [OF example_caller_buffer])
      (simp_all add: example_begin example_direct_eq, simp add: example_buffer_def example_open_eq example_socket_sel)
qed

lemma example_reachable_part:
  obtains sv where "reachable example_log sv" "sid (slot sv 1) = 1" "protocol (slot sv 1) = PROTOCOL_TCP"
    "stype (slot sv 1) = SOCKET_TYPE_CONNECTED" "dw_buffer (slot sv 1) = Some 0" "out (slot sv 1) = [1, 2]"
    "\<not> writing (slot sv 1)" "pipe (core sv) = [Trigger 1]" "direct (slot sv 1) = None"
  using example_finish_part reachable.step [OF kernel_step [OF example_reachable_direct] server_step.direct_finish] by blast

lemma example_reachable_all:
  obtains sv where "reachable example_log sv" "sid (slot sv 1) = 1" "protocol (slot sv 1) = PROTOCOL_TCP"
    "stype (slot sv 1) = SOCKET_TYPE_CONNECTED" "send_buffer_empty (slot sv 1)" "dw_buffer (slot sv 1) = None"
    "direct (slot sv 1) = None" "out (slot sv 1) = [1, 2, 3]"
  using example_finish_all reachable.step [OF kernel_step [OF example_reachable_direct] server_step.direct_finish] by blast

section \<open>What every run guarantees\<close>

lemma srv_inv_slot: "srv_inv h sv \<Longrightarrow> slot_ok h (pipe (core sv)) (core sv) k (slot sv k)"
  by (simp add: srv_inv_def run_inv_def)

lemma no_pending_lists:
  assumes "socket_data ss s L hi lo" "send_buffer_empty s"
  shows "L p = []"
proof -
  have "chain (nx (nodes s)) (wl_head (wb_list_of p s)) (L p) None"
    using assms(1) by (simp add: socket_data_def lists_ok_def)
  moreover have "wl_head (wb_list_of p s) = None"
    using assms(2) by (cases p) (simp_all add: send_buffer_empty_def wb_list_of_def)
  ultimately show ?thesis by (cases "L p") simp_all
qed

lemma no_pending_nodes:
  assumes d: "socket_data ss s L hi lo" "send_buffer_empty s"
  shows "nodes s = Map.empty"
proof -
  have "dom (nodes s) = set (L PRIORITY_HIGH) \<union> set (L PRIORITY_LOW)"
    using d(1) unfolding socket_data_def lists_ok_def by blast
  then show ?thesis unfolding no_pending_lists [OF d] by simp
qed

lemma no_pending_data:
  assumes d: "socket_data ss s L hi lo" "send_buffer_empty s" and n: "dw_buffer s = None" "direct s = None"
  shows "hi = [] \<and> lo = []"
proof -
  have "hi = held_bytes ss s @ concat (msgs (mem ss) (nodes s) (L PRIORITY_HIGH))"
    "lo = msgs (mem ss) (nodes s) (L PRIORITY_LOW)"
    using d(1) unfolding socket_data_def by blast+
  then show ?thesis unfolding no_pending_lists [OF d] using n by (simp add: held_bytes_def held_def msgs_def)
qed

lemma prefix_of_log:
  assumes "of_prio PRIORITY_HIGH ms = of_prio PRIORITY_HIGH log" "of_prio PRIORITY_LOW ms @ lo = of_prio PRIORITY_LOW log"
  shows "prefix (of_prio p ms) (of_prio p log)"
  using assms(1) prefixI [OF assms(2) [symmetric]] by (cases p) simp_all

text \<open>
  C3: the bytes a TCP socket has passed to the kernel are a beginning of a sequence of whole messages
  in which the messages of each priority are the accepted ones, in the order they were accepted, none
  dropped, repeated or torn: in every run of the server, its callers and the kernel, whatever the
  kernel returns and however direct writes and queued writes alternate.
\<close>

theorem tcp_stream:
  assumes "reachable h sv" "HASH_ID (sid (slot sv k)) = k" "protocol (slot sv k) = PROTOCOL_TCP"
  shows "\<exists>ms rest. concat (map snd ms) = out (slot sv k) @ rest
    \<and> (\<forall>p. prefix (of_prio p ms) (of_prio p (h (sid (slot sv k)))))"
proof -
  obtain hi lo where "stream_ok (h (sid (slot sv k))) (slot sv k) hi lo"
    using reachable_slot [OF assms(1), of k] assms(2) by (auto simp: slot_ok_def log_of_def)
  then show ?thesis using assms(3) prefix_of_log unfolding stream_ok_def by (cases "stype (slot sv k) = SOCKET_TYPE_INVALID") fastforce+
qed

lemma tcp_stream_witness:
  "\<exists>h (sv :: server). out (slot sv 1) = [1, 2] \<and> (\<exists>ms rest. concat (map snd ms) = [1, 2] @ rest
     \<and> (\<forall>p. prefix (of_prio p ms) (of_prio p (h (sid (slot sv 1))))))"
proof (rule example_reachable_part)
  fix sv assume h: "reachable example_log sv" "sid (slot sv 1) = 1" "protocol (slot sv 1) = PROTOCOL_TCP"
    "out (slot sv 1) = [1, 2]"
  show ?thesis using tcp_stream [OF h(1), of 1] h by (intro exI [of _ example_log] exI [of _ sv]) simp
qed

text \<open>
  C7: when a TCP socket that is still open has nothing pending, the bytes passed to the kernel are
  exactly an interleaving of all messages accepted for it: nothing is lost.
\<close>

theorem tcp_all_sent:
  assumes "reachable h sv" "protocol (slot sv k) = PROTOCOL_TCP" "stype (slot sv k) \<noteq> SOCKET_TYPE_INVALID"
    "send_buffer_empty (slot sv k)" "dw_buffer (slot sv k) = None" "direct (slot sv k) = None"
  shows "\<exists>ms. concat (map snd ms) = out (slot sv k) \<and> (\<forall>p. of_prio p ms = of_prio p (h (sid (slot sv k))))"
proof -
  have ok: "slot_ok h (pipe (core sv)) (core sv) k (slot sv k)" by (rule reachable_slot [OF assms(1)])
  then have "HASH_ID (sid (slot sv k)) = k" using assms(3) by (simp add: slot_ok_def slot_flags_def)
  then obtain hi lo where st: "stream_ok (h (sid (slot sv k))) (slot sv k) hi lo" and i: "socket_inv (core sv) (slot sv k) hi lo"
    using ok by (auto simp: slot_ok_def log_of_def)
  have "hi = [] \<and> lo = []" using i no_pending_data assms(4,5,6) by (auto simp: socket_inv_def split: if_splits)
  then obtain ms where "concat (map snd ms) = out (slot sv k)" "of_prio PRIORITY_HIGH ms = of_prio PRIORITY_HIGH (h (sid (slot sv k)))"
    "of_prio PRIORITY_LOW ms = of_prio PRIORITY_LOW (h (sid (slot sv k)))"
    using st assms(2,3) by (auto simp: stream_ok_def)
  then have "concat (map snd ms) = out (slot sv k) \<and> of_prio p ms = of_prio p (h (sid (slot sv k)))" for p by (cases p) simp_all
  then show ?thesis by blast
qed

lemma tcp_all_sent_witness:
  "\<exists>h (sv :: server). out (slot sv 1) = [1, 2, 3] \<and> (\<exists>ms. concat (map snd ms) = [1, 2, 3]
     \<and> (\<forall>p. of_prio p ms = of_prio p (h (sid (slot sv 1)))))"
proof (rule example_reachable_all)
  fix sv assume h: "reachable example_log sv" "protocol (slot sv 1) = PROTOCOL_TCP"
    "stype (slot sv 1) = SOCKET_TYPE_CONNECTED" "send_buffer_empty (slot sv 1)" "dw_buffer (slot sv 1) = None"
    "direct (slot sv 1) = None" "out (slot sv 1) = [1, 2, 3]"
  show ?thesis
    using tcp_all_sent [OF h(1,2) _ h(4,5,6)] h(3,7) by (intro exI [of _ example_log] exI [of _ sv]) simp
qed









text \<open>
  \<open>reserve_id\<close> fails only when every slot is in use; otherwise the id it returns is not negative,
  its slot was free, and only that slot changes: it is reserved for the id with the protocol unknown
  and no poll flags set.
\<close>

lemma reserve_id_result:
  "case reserve_id sv of
     (None, sv') \<Rightarrow> slot sv' = slot sv \<and> (\<forall>k<MAX_SOCKET. stype (slot sv k) \<noteq> SOCKET_TYPE_INVALID)
   | (Some i, sv') \<Rightarrow> 0 \<le> sint i \<and> stype (slot sv (HASH_ID i)) = SOCKET_TYPE_INVALID
       \<and> slot sv' = (slot sv)(HASH_ID i := (slot sv (HASH_ID i))\<lparr>fd := - 1, sid := i, stype := SOCKET_TYPE_RESERVE,
            protocol := PROTOCOL_UNKNOWN, udpconnecting := 0\<rparr>)"
  by (rule reserve_id_cases [of sv]) (simp_all add: reserved_def)

lemma reserve_id_result_witness: "stype (slot example_create (HASH_ID 1)) = SOCKET_TYPE_INVALID"
  using reserve_id_result [of example_create] by (simp add: example_reserve)

end
