(* ===== verification/SocketFaults.thy ===== *)
theory SocketFaults
  imports SocketStream
begin

text \<open>
  Three runs of the socket server of skynet-src/socket_server.c in which the code does not do what it
  means to: each ends in a failed assertion or in a read outside of a block, which is None.
\<close>

lemma example_opening_send:
  "socket_server_send example_buffer example_opening = Some (0, \<lparr>core = (core example_create)\<lparr>alloc_id := 1,
       sys := [Ret 1, Ret 5, Ret 0, Ret 0, Text ''peer''],
       pipe := [Open 1 7 ''h'' 80, SendHigh \<lparr>rs_id = 1, rs_sz = 3, rs_buffer = 0\<rparr>]\<rparr>,
     slot = (\<lambda>i. empty_socket)(1 := reserved 1 empty_socket)\<rparr>)"
  by (simp add: socket_server_send_def example_opening_eq example_buffer_def reserved_def socket_invalid_def
    empty_socket_def send_by_pipe_def inc_sending_ref_def PROTOCOL_UNKNOWN_def PROTOCOL_TCP_def clone_buffer_def
    send_request_def put_socket_def Let_def direct_begin_def can_direct_write_def)

lemma example_core_sys: "sys example_core = []"
  by (simp add: example_core_def)

lemma example_early_open:
  "poll_pass (snd (the (socket_server_send example_buffer example_opening))) = Some (SOCKET_OPEN,
     \<lparr>core = example_core\<lparr>pipe := [SendHigh \<lparr>rs_id = 1, rs_sz = 3, rs_buffer = 0\<rparr>]\<rparr>,
     slot = (\<lambda>i. empty_socket)(1 := example_socket)\<rparr>)"
  by (simp add: example_opening_send poll_pass_def ctrl_cmd_def dispatch_request_def on_socket_def open_socket_def
    next_outcome_def Let_def numeral_eq_Suc example_create_sel new_fd_def sp_result_def call_failed_def
    reserved_def enable_read_def check_wb_list_def put_socket_def clear_closed_event_def peer_name_def
    example_core_def example_socket_def empty_socket_def clear_wb_list_def)


text \<open>
  C11: when the kernel refuses the datagram of a direct write on a UDP socket, the buffer is kept for the
  socket thread as a \<open>struct write_buffer\<close> without an address, but \<open>send_list_udp\<close> reads the address
  behind it: the next write event reads past the end of the block.
\<close>

theorem udp_direct_leftover:
  assumes "protocol s = PROTOCOL_UDP" "udp_socket_address s (p_udp_address s) = Some sa" "send_buffer_empty s"
    and "sb_type buf = SOCKET_BUFFER_MEMORY" "sb_sz buf \<noteq> USEROBJECT" "0 < sb_sz buf"
    and "read_mem (mem ss) (sb_buffer buf, 0) (sb_sz buf) = Some bs" "sys ss = Err e # os"
  shows "\<exists>ss' s'. direct_write buf ss s = Some (0, [Trigger (sb_id buf)], ss', s') \<and> send_buffer ss' s' 0 = None"
proof -
  let ?s = "stat_write (ss\<lparr>sys := os\<rparr>) s 0"
  let ?s' = "direct_unlock (?s\<lparr>dw_buffer := Some (sb_buffer buf), dw_size := sb_sz buf, dw_offset := 0\<rparr>)"
  have "direct_write buf ss s = Some (0, [Trigger (sb_id buf)], ss\<lparr>sys := os\<rparr>, ?s')"
    using assms by (simp add: direct_write_def send_object_init_from_sendbuffer_def send_object_init_def
      next_outcome_def direct_written_def clone_buffer_def PROTOCOL_UDP_def PROTOCOL_TCP_def)
  moreover have "send_buffer (ss\<lparr>sys := os\<rparr>) ?s' 0 = None"
    using assms by (simp add: send_buffer_def socket_trylock_def direct_unlock_def put_dw_buffer_def stat_write_def
      send_object_init_def send_buffer_empty_def send_buffer_locked_def list_uncomplete_def send_list_def
      send_list_udp_def send_udp_loop.simps wb_list_of_def PROTOCOL_UDP_def PROTOCOL_TCP_def Let_def)
  ultimately show ?thesis by blast
qed

definition example_udp_socket :: socket where
  "example_udp_socket = empty_socket\<lparr>sid := 1, stype := SOCKET_TYPE_CONNECTED, protocol := PROTOCOL_UDP,
     p_udp_address := 1 # replicate 6 0, dw_lock := True\<rparr>"

lemma udp_direct_leftover_witness:
  "\<exists>ss' s'. direct_write example_buffer (example_core\<lparr>sys := [Err EAGAIN]\<rparr>) example_udp_socket
     = Some (0, [Trigger 1], ss', s') \<and> send_buffer ss' s' 0 = None"
  using udp_direct_leftover [of example_udp_socket _ example_buffer "example_core\<lparr>sys := [Err EAGAIN]\<rparr>" "[1, 2, 3]" EAGAIN "[]"]
  by (simp add: example_udp_socket_def example_buffer_def empty_socket_def PROTOCOL_UDP_def udp_socket_address_def
    send_buffer_empty_def clear_wb_list_def USEROBJECT_def read_mem_def example_core_sel)

text \<open>
  A user object sent with low priority while other data is pending, whose bytes are not at the
  address of the object itself, makes the next write event fail: the test for a partly sent buffer
  compares these two addresses, so the assertion of \<open>send_buffer_\<close> fails before anything is sent.
\<close>

lemma low_object_asserts:
  assumes "\<not> send_refused s (rs_id rs)" "protocol s = PROTOCOL_TCP" "wl_head (high s) \<noteq> None" "wl_head (low s) = None"
    and "\<not> dw_lock s" "dw_buffer s = None"
    and "rs_sz rs = USEROBJECT" "so_buffer (soi ss) (rs_buffer rs) \<noteq> rs_buffer rs"
  shows "\<exists>r ss' s'. send_socket rs PRIORITY_LOW None ss s = Some (r, ss', s') \<and> send_buffer ss' s' 0 = None"
proof -
  let ?ss = "ss\<lparr>brk := brk ss + 1\<rparr>"
  let ?wb = "\<lparr>wb_next = None, wb_buffer = rs_buffer rs, wb_ptr = (so_buffer (soi ss) (rs_buffer rs), 0),
      wb_sz = so_size (soi ss) (rs_buffer rs), wb_userobject = True, wb_udp = None\<rparr>"
  let ?s = "s\<lparr>nodes := (nodes s)(brk ss \<mapsto> ?wb), low := \<lparr>wl_head = Some (brk ss), wl_tail = Some (brk ss)\<rparr>,
      wb_size := wb_size s + int (so_size (soi ss) (rs_buffer rs))\<rparr>"
  obtain y where "wl_head (high s) = Some y" using assms(3) by blast
  then have e: "send_socket rs PRIORITY_LOW None ss s = send_warning ?ss ?s"
    using assms by (simp add: send_socket_def send_buffer_empty_def append_sendbuffer_low_def append_buffer_def
      send_object_init_def wb_list_of_def set_wb_list_def Let_def)
  have n: "send_buffer ss' s' 0 = None"
    if "low s' = low ?s" "nodes s' = nodes ?s" "dw_lock s' = dw_lock s" "dw_buffer s' = dw_buffer s" for ss' s'
    using that assms by (simp add: send_buffer_def socket_trylock_def put_dw_buffer_def send_buffer_locked_def
      list_uncomplete_def c_assert_def)
  have "\<exists>r ss' w. send_warning ?ss ?s = Some (r, ss', ?s\<lparr>warn_size := w\<rparr>)"
  proof (cases "wb_size ?s \<ge> WARNING_SIZE \<and> wb_size ?s \<ge> warn_size ?s")
    case True
    then show ?thesis unfolding send_warning_def by auto
  next
    case False
    have "?s\<lparr>warn_size := warn_size ?s\<rparr> = ?s" by simp
    then show ?thesis using False unfolding send_warning_def by (metis (no_types))
  qed
  then obtain r ss' w where "send_warning ?ss ?s = Some (r, ss', ?s\<lparr>warn_size := w\<rparr>)" by blast
  moreover have "send_buffer ss' (?s\<lparr>warn_size := w\<rparr>) 0 = None" by (rule n) simp_all
  ultimately show ?thesis unfolding e by blast
qed

lemma low_object_asserts_witness:
  "\<exists>r ss' s'. send_socket \<lparr>rs_id = 1, rs_sz = USEROBJECT, rs_buffer = 0\<rparr> PRIORITY_LOW None
       (example_core\<lparr>soi := \<lparr>so_buffer = (\<lambda>a. a + 1), so_size = (\<lambda>a. 1)\<rparr>\<rparr>)
       (example_socket\<lparr>high := \<lparr>wl_head = Some 2, wl_tail = Some 2\<rparr>\<rparr>) = Some (r, ss', s')
     \<and> send_buffer ss' s' 0 = None"
  by (rule low_object_asserts) (simp_all add: send_refused_def example_socket_sel)

end
