(* ===== verification/SkynetSocket.thy ===== *)
theory SkynetSocket
  imports Server Netpack SocketReports SocketFaults
begin

text \<open>
  skynet-src/skynet_socket.c: what the socket server reports becomes a message in the queue of the
  service that owns the socket. \<open>strerror\<close> of the C library and the loaded modules are parameters.
\<close>

section \<open>Messages to the services\<close>

definition SKYNET_SOCKET_TYPE_UDP :: int where "SKYNET_SOCKET_TYPE_UDP = 6"
definition PTYPE_SOCKET :: int where "PTYPE_SOCKET = 6"

text \<open>
  The text that \<open>strlen\<close> and \<open>memcpy\<close> read, and the block that the receiver of a message frees. A
  block of received bytes has no terminator, and a text of the program is no block: None.
\<close>

definition data_text :: "(errno \<Rightarrow> bytes) \<Rightarrow> message_data \<Rightarrow> bytes option" where
  "data_text strerror d = (case d of
       NULL \<Rightarrow> Some []
     | Str tx \<Rightarrow> Some (takeWhile (\<lambda>b. b \<noteq> 0) (map of_char tx))
     | Strerror e \<Rightarrow> Some (takeWhile (\<lambda>b. b \<noteq> 0) (strerror e))
     | message_data.Bytes _ \<Rightarrow> None)"

definition data_block :: "message_data \<Rightarrow> bytes option option" where
  "data_block d = (case d of
       NULL \<Rightarrow> Some None
     | message_data.Bytes b \<Rightarrow> Some (Some b)
     | _ \<Rightarrow> None)"

definition forward_message :: "(errno \<Rightarrow> bytes) \<Rightarrow> host \<Rightarrow> int \<Rightarrow> bool \<Rightarrow> socket_message \<Rightarrow> system
    \<Rightarrow> system option" where
  "forward_message strerror W ty padding res s = do {
     (buf, pad) \<leftarrow>
       (if padding then do { tx \<leftarrow> data_text strerror (m_data res); Some (None, take 128 tx) }
        else do { b \<leftarrow> data_block (m_data res); Some (b, []) });
     sz \<leftarrow> Some (24 + length pad);
     (r, s) \<leftarrow> skynet_context_push W (ucast (m_opaque res))
        \<lparr>msg_source = 0, msg_session = 0, msg_data = SocketMsg ty (m_id res) (m_ud res) buf pad,
         msg_sz = of_nat sz OR type_bits PTYPE_SOCKET\<rparr> s;
     Some s
   }"

text \<open>The type of the message and whether its text is appended, for each result; others are unknown.\<close>

definition message_kind :: "socket_ret \<Rightarrow> (int \<times> bool) option" where
  "message_kind r = (case r of
       SOCKET_DATA \<Rightarrow> Some (SKYNET_SOCKET_TYPE_DATA, False)
     | SOCKET_CLOSE \<Rightarrow> Some (SKYNET_SOCKET_TYPE_CLOSE, False)
     | SOCKET_OPEN \<Rightarrow> Some (SKYNET_SOCKET_TYPE_CONNECT, True)
     | SOCKET_ERR \<Rightarrow> Some (SKYNET_SOCKET_TYPE_ERROR, True)
     | SOCKET_ACCEPT \<Rightarrow> Some (SKYNET_SOCKET_TYPE_ACCEPT, True)
     | SOCKET_UDP \<Rightarrow> Some (SKYNET_SOCKET_TYPE_UDP, False)
     | SOCKET_WARNING \<Rightarrow> Some (SKYNET_SOCKET_TYPE_WARNING, False)
     | _ \<Rightarrow> None)"

definition ret_code :: "socket_ret \<Rightarrow> int" where
  "ret_code r = (case r of SOCKET_NONE \<Rightarrow> - 1 | SOCKET_DATA \<Rightarrow> 0 | SOCKET_CLOSE \<Rightarrow> 1 | SOCKET_OPEN \<Rightarrow> 2
     | SOCKET_ACCEPT \<Rightarrow> 3 | SOCKET_ERR \<Rightarrow> 4 | SOCKET_EXIT \<Rightarrow> 5 | SOCKET_UDP \<Rightarrow> 6 | SOCKET_WARNING \<Rightarrow> 7
     | SOCKET_RST \<Rightarrow> 8 | SOCKET_MORE \<Rightarrow> 9)"

section \<open>Polling\<close>

text \<open>
  \<open>socket_server_poll\<close> with its flag \<open>more\<close>, which is cleared when it waits for events.
\<close>

definition waits :: "server \<Rightarrow> bool" where
  "waits sv \<longleftrightarrow> \<not> (checkctrl (core sv) \<and> pipe (core sv) \<noteq> []) \<and> event_index (core sv) = length (ev (core sv))"

partial_function (option) poll_more :: "bool \<Rightarrow> server \<Rightarrow> (bool \<times> socket_ret \<times> server) option" where
  "poll_more mr sv = Option.bind (poll_pass sv) (\<lambda>r.
     if fst r = SOCKET_NONE then poll_more (mr \<and> \<not> waits sv) (snd r)
     else Some (mr \<and> \<not> waits sv, r))"

record node =
  SOCKET_SERVER :: "server option"
  node_system :: system

definition forward_result :: "(errno \<Rightarrow> bytes) \<Rightarrow> host \<Rightarrow> bool \<Rightarrow> socket_ret \<Rightarrow> socket_message \<Rightarrow> system
    \<Rightarrow> (int \<times> system) option" where
  "forward_result strerror W mr r res s =
     (if r = SOCKET_EXIT then Some (0, s)
      else (case message_kind r of
        Some (ty, padding) \<Rightarrow> do {
          s \<leftarrow> forward_message strerror W ty padding res s;
          Some (if mr then - 1 else 1, s)
        }
      | None \<Rightarrow> do {
          s \<leftarrow> skynet_error W None (bs ''Unknown socket message type '' @ show_int (ret_code r) @ [46]) s;
          Some (- 1, s)
        }))"

definition skynet_socket_poll :: "(errno \<Rightarrow> bytes) \<Rightarrow> host \<Rightarrow> node \<Rightarrow> (int \<times> node) option" where
  "skynet_socket_poll strerror W n = do {
     sv \<leftarrow> SOCKET_SERVER n;
     (mr, r, sv) \<leftarrow> poll_more True sv;
     (x, s) \<leftarrow> forward_result strerror W mr r (result (core sv)) (node_system n);
     Some (x, n\<lparr>SOCKET_SERVER := Some sv, node_system := s\<rparr>)
   }"

section \<open>The calls of the services\<close>

text \<open>A call without a socket server, and one for a context that does not exist, is None.\<close>

definition with_server :: "(server \<Rightarrow> ('a \<times> server) option) \<Rightarrow> node \<Rightarrow> ('a \<times> node) option" where
  "with_server f n = do {
     sv \<leftarrow> SOCKET_SERVER n;
     (x, sv) \<leftarrow> f sv;
     Some (x, n\<lparr>SOCKET_SERVER := Some sv\<rparr>)
   }"

definition with_source :: "nat \<Rightarrow> (u64 \<Rightarrow> server \<Rightarrow> 'a \<times> server) \<Rightarrow> node \<Rightarrow> ('a \<times> node) option" where
  "with_source ctx f n = do {
     source \<leftarrow> skynet_context_handle ctx (node_system n);
     with_server (\<lambda>sv. Some (f (ucast source) sv)) n
   }"

definition skynet_socket_init :: "socket_object_interface \<Rightarrow> (nat \<Rightarrow> bytes option) \<Rightarrow> nat \<Rightarrow> node \<Rightarrow> node" where
  "skynet_socket_init si m b n =
     n\<lparr>SOCKET_SERVER := Some (socket_server_create (skynet_now (n_timer (node_system n))) si m b)\<rparr>"

definition skynet_socket_exit :: "node \<Rightarrow> (unit \<times> node) option" where
  "skynet_socket_exit = with_server (\<lambda>sv. Some ((), socket_server_exit sv))"

definition skynet_socket_free :: "node \<Rightarrow> node option" where
  "skynet_socket_free n = do {
     sv \<leftarrow> SOCKET_SERVER n;
     sv \<leftarrow> socket_server_release sv;
     Some (n\<lparr>SOCKET_SERVER := None\<rparr>)
   }"

definition skynet_socket_updatetime :: "node \<Rightarrow> (unit \<times> node) option" where
  "skynet_socket_updatetime n =
     with_server (\<lambda>sv. Some ((), socket_server_updatetime (skynet_now (n_timer (node_system n))) sv)) n"

definition skynet_socket_sendbuffer :: "socket_sendbuffer \<Rightarrow> node \<Rightarrow> (int \<times> node) option" where
  "skynet_socket_sendbuffer buf = with_server (socket_server_send buf)"

definition skynet_socket_sendbuffer_lowpriority :: "socket_sendbuffer \<Rightarrow> node \<Rightarrow> (int \<times> node) option" where
  "skynet_socket_sendbuffer_lowpriority buf = with_server (socket_server_send_lowpriority buf)"

definition skynet_socket_listen :: "nat \<Rightarrow> int \<Rightarrow> node \<Rightarrow> (u32 option \<times> node) option" where
  "skynet_socket_listen ctx f = with_source ctx (\<lambda>src. socket_server_listen src f)"

definition skynet_socket_connect :: "nat \<Rightarrow> string \<Rightarrow> int \<Rightarrow> node \<Rightarrow> (u32 option \<times> node) option" where
  "skynet_socket_connect ctx addr port = with_source ctx (\<lambda>src. socket_server_connect src addr port)"

definition skynet_socket_bind :: "nat \<Rightarrow> int \<Rightarrow> node \<Rightarrow> (u32 option \<times> node) option" where
  "skynet_socket_bind ctx f = with_source ctx (\<lambda>src. socket_server_bind src f)"

definition skynet_socket_close :: "nat \<Rightarrow> u32 \<Rightarrow> node \<Rightarrow> (unit \<times> node) option" where
  "skynet_socket_close ctx i = with_source ctx (\<lambda>src sv. ((), socket_server_close src i sv))"

definition skynet_socket_shutdown :: "nat \<Rightarrow> u32 \<Rightarrow> node \<Rightarrow> (unit \<times> node) option" where
  "skynet_socket_shutdown ctx i = with_source ctx (\<lambda>src sv. ((), socket_server_shutdown src i sv))"

definition skynet_socket_start :: "nat \<Rightarrow> u32 \<Rightarrow> node \<Rightarrow> (unit \<times> node) option" where
  "skynet_socket_start ctx i = with_source ctx (\<lambda>src sv. ((), socket_server_start src i sv))"

definition skynet_socket_pause :: "nat \<Rightarrow> u32 \<Rightarrow> node \<Rightarrow> (unit \<times> node) option" where
  "skynet_socket_pause ctx i = with_source ctx (\<lambda>src sv. ((), socket_server_pause src i sv))"

definition skynet_socket_nodelay :: "u32 \<Rightarrow> node \<Rightarrow> (unit \<times> node) option" where
  "skynet_socket_nodelay i = with_server (\<lambda>sv. Some ((), socket_server_nodelay i sv))"

definition skynet_socket_udp :: "nat \<Rightarrow> int \<Rightarrow> bool \<Rightarrow> node \<Rightarrow> (u32 option \<times> node) option" where
  "skynet_socket_udp ctx f inet6 = with_source ctx (\<lambda>src. socket_server_udp src f inet6)"

definition skynet_socket_udp_connect :: "u32 \<Rightarrow> sockaddr option \<Rightarrow> node \<Rightarrow> (int \<times> node) option" where
  "skynet_socket_udp_connect i found = with_server (socket_server_udp_connect i found)"

definition skynet_socket_udp_sendbuffer :: "bytes \<Rightarrow> socket_sendbuffer \<Rightarrow> node \<Rightarrow> (int \<times> node) option" where
  "skynet_socket_udp_sendbuffer addr buf = with_server (socket_server_udp_send addr buf)"

text \<open>The address behind a received datagram; the message must carry a block.\<close>

definition skynet_socket_udp_address :: "payload \<Rightarrow> (bytes \<times> nat) option option" where
  "skynet_socket_udp_address d = (case d of
       SocketMsg ty i ud buf pad \<Rightarrow>
         if ty \<noteq> SKYNET_SOCKET_TYPE_UDP then Some None
         else map_option (\<lambda>b. socket_server_udp_address b (nat ud)) buf
     | _ \<Rightarrow> None)"

section \<open>What a service receives\<close>

text \<open>The message for a result: its text is cut at 128 bytes and follows the struct.\<close>

definition mail :: "(errno \<Rightarrow> bytes) \<Rightarrow> socket_ret \<Rightarrow> socket_message \<Rightarrow> skynet_message" where
  "mail strerror r res =
     (let block = the (data_block (m_data res)); tx = take 128 (the (data_text strerror (m_data res)));
          textual = r \<in> {SOCKET_OPEN, SOCKET_ERR, SOCKET_ACCEPT}; pad = (if textual then tx else []) in
      \<lparr>msg_source = 0, msg_session = 0,
       msg_data = SocketMsg (fst (the (message_kind r))) (m_id res) (m_ud res) (if textual then None else block) pad,
       msg_sz = of_nat (24 + length pad) OR type_bits PTYPE_SOCKET\<rparr>)"

lemma no_bytes_text: "no_bytes d \<Longrightarrow> \<exists>tx. data_text strerror d = Some tx"
  by (cases d) (auto simp: data_text_def no_bytes_def)

lemma bind_second: "x \<bind> (\<lambda>y. (case y of (r, x) \<Rightarrow> Some x) \<bind> (\<lambda>s. Some (c, s))) = map_option (\<lambda>x. (c, snd x)) x"
  by (cases x) auto

text \<open>A result with the data that belongs to it is forwarded as its mail.\<close>

lemma forward_result_mail:
  assumes ok: "result_ok r res" and r: "r \<noteq> SOCKET_NONE" "r \<noteq> SOCKET_EXIT"
  shows "forward_result strerror W mr r res s =
    map_option (\<lambda>x. (if mr then - 1 else 1, snd x)) (skynet_context_push W (ucast (m_opaque res)) (mail strerror r res) s)"
proof -
  have kind: "r \<noteq> SOCKET_RST" "r \<noteq> SOCKET_MORE" using ok by (auto simp: result_ok_def)
  have "\<exists>tx. data_text strerror (m_data res) = Some tx" if "r \<in> {SOCKET_OPEN, SOCKET_ERR, SOCKET_ACCEPT}"
    using ok that by (auto simp: result_ok_def intro: no_bytes_text)
  moreover have "\<exists>b. data_block (m_data res) = Some b" if "r \<in> {SOCKET_DATA, SOCKET_UDP, SOCKET_CLOSE, SOCKET_WARNING}"
    using ok that by (auto simp: result_ok_def data_block_def)
  ultimately show ?thesis
    using r kind
    by (cases r) (auto simp: bind_second forward_result_def message_kind_def forward_message_def mail_def split: option.split)
qed


definition example_refused :: server where
  "example_refused = socket_server_start 0x01000001 3 example_create"

lemma example_refused_poll:
  "\<exists>sv. poll_pass example_refused = Some (SOCKET_ERR, sv)
     \<and> result (core sv) = \<lparr>m_id = 3, m_opaque = 0x01000001, m_ud = 0, m_data = Str ''invalid socket''\<rparr>"
  by (simp add: example_refused_def socket_server_start_def send_request_def poll_pass_def ctrl_cmd_def
    example_create_sel dispatch_request_def on_socket_def resume_socket_def socket_invalid_def empty_socket_def
    put_socket_def clear_closed_result)


end
