(* ===== verification/SocketInfo.thy ===== *)
theory SocketInfo
  imports SocketServer
begin

text \<open>
  The report of all sockets, \<open>socket_server_info\<close> of skynet-src/socket_server.c (with socket_info.h).
  \<open>getname\<close> of an address is the parameter \<open>show_name\<close>; a name that was never written is None.
\<close>

datatype info_type = SOCKET_INFO_UNKNOWN | SOCKET_INFO_LISTEN | SOCKET_INFO_TCP | SOCKET_INFO_UDP
  | SOCKET_INFO_BIND | SOCKET_INFO_CLOSING

record socket_info =
  si_id :: u32
  si_type :: info_type
  si_opaque :: u64
  si_read :: u64
  si_write :: u64
  si_rtime :: u64
  si_wtime :: u64
  si_wbuffer :: int
  si_reading :: bool
  si_writing :: bool
  si_name :: "string option"

text \<open>\<open>getsockname\<close> or \<open>getpeername\<close>, then \<open>getname\<close>.\<close>

definition sock_name :: "socket_server \<Rightarrow> string option \<times> socket_server" where
  "sock_name ss = (case next_outcome ss of (oc, ss) \<Rightarrow>
     ((case oc of Some (Text nm) \<Rightarrow> Some nm | _ \<Rightarrow> None), ss))"

definition info_of :: "socket \<Rightarrow> info_type \<Rightarrow> string option \<Rightarrow> socket_info" where
  "info_of s ty nm = \<lparr>si_id = sid s, si_type = ty, si_opaque = opaque s, si_read = st_read (stat s),
     si_write = st_write (stat s), si_rtime = st_rtime (stat s), si_wtime = st_wtime (stat s),
     si_wbuffer = wb_size s, si_reading = reading s, si_writing = writing s, si_name = nm\<rparr>"

definition query_info :: "(sockaddr \<Rightarrow> string) \<Rightarrow> socket_server \<Rightarrow> socket
    \<Rightarrow> socket_info option \<times> socket_server" where
  "query_info show_name ss s =
     (let closing = (stype s = SOCKET_TYPE_HALFCLOSE_READ \<or> stype s = SOCKET_TYPE_HALFCLOSE_WRITE) in
      if stype s = SOCKET_TYPE_BIND then (Some (info_of s SOCKET_INFO_BIND (Some [])), ss)
      else if stype s = SOCKET_TYPE_LISTEN then
        (case sock_name ss of (nm, ss) \<Rightarrow> (Some (info_of s SOCKET_INFO_LISTEN nm), ss))
      else if closing \<or> stype s = SOCKET_TYPE_CONNECTED then
        (if protocol s = PROTOCOL_TCP then
           (case sock_name ss of (nm, ss) \<Rightarrow>
              (Some (info_of s (if closing then SOCKET_INFO_CLOSING else SOCKET_INFO_TCP) nm), ss))
         else (Some (info_of s SOCKET_INFO_UDP
                 (map_option show_name (udp_socket_address s (p_udp_address s)))), ss))
      else (None, ss))"

fun info_loop :: "(sockaddr \<Rightarrow> string) \<Rightarrow> (nat \<Rightarrow> socket) \<Rightarrow> nat list \<Rightarrow> socket_server \<Rightarrow> socket_info list
    \<Rightarrow> socket_info list \<times> socket_server" where
  "info_loop show_name sl [] ss si = (si, ss)"
| "info_loop show_name sl (k # ks) ss si =
     (case query_info show_name ss (sl k) of
        (None, ss) \<Rightarrow> info_loop show_name sl ks ss si
      | (Some i, ss) \<Rightarrow> info_loop show_name sl ks ss (i # si))"

definition socket_server_info :: "(sockaddr \<Rightarrow> string) \<Rightarrow> server \<Rightarrow> socket_info list \<times> server" where
  "socket_server_info show_name sv =
     (case info_loop show_name (slot sv) [0..<MAX_SOCKET] (core sv) [] of (si, ss) \<Rightarrow> (si, sv\<lparr>core := ss\<rparr>))"

section \<open>What is reported\<close>

definition info_types :: "socket_type set" where
  "info_types = {SOCKET_TYPE_BIND, SOCKET_TYPE_LISTEN, SOCKET_TYPE_CONNECTED,
     SOCKET_TYPE_HALFCLOSE_READ, SOCKET_TYPE_HALFCLOSE_WRITE}"

lemma query_info_cases:
  obtains (skip) "stype s \<notin> info_types" "query_info f ss s = (None, ss)"
  | (info) i ss' where "stype s \<in> info_types" "query_info f ss s = (Some i, ss')" "si_id i = sid s"
      "si_wbuffer i = wb_size s"
proof -
  obtain nm ss1 where "sock_name ss = (nm, ss1)" by (metis prod.exhaust)
  note q = query_info_def this Let_def
  show ?thesis
  proof (cases "stype s \<in> info_types")
    case True
    then have "\<exists>i ss'. query_info f ss s = (Some i, ss') \<and> si_id i = sid s \<and> si_wbuffer i = wb_size s"
      by (auto simp: q info_types_def info_of_def)
    then show ?thesis using True info by blast
  next
    case False
    then show ?thesis by (intro skip) (auto simp: q info_types_def)
  qed
qed

lemma info_loop_ids:
  "map si_id (fst (info_loop f sl ks ss si)) =
     rev (map (\<lambda>k. sid (sl k)) (filter (\<lambda>k. stype (sl k) \<in> info_types) ks)) @ map si_id si"
proof (induction ks arbitrary: ss si)
  case (Cons k ks)
  show ?case by (rule query_info_cases [of "sl k" f ss]) (simp_all add: Cons.IH)
qed simp

text \<open>Every open socket is reported once, the last slot first; reserved and closed ones are not.\<close>

lemma socket_server_info_ids:
  "map si_id (fst (socket_server_info f sv)) =
     rev (map (\<lambda>k. sid (slot sv k)) (filter (\<lambda>k. stype (slot sv k) \<in> info_types) [0..<MAX_SOCKET]))"
  using info_loop_ids [of f "slot sv" "[0..<MAX_SOCKET]" "core sv" "[]"]
  by (simp add: socket_server_info_def case_prod_beta)

end
